(* ===== verification/Git_Prelude.thy ===== *)
theory Git_Prelude
  imports Main "HOL-Library.Word"
begin

text \<open>
  Prelude of the development: the names of the machine types the C code uses, the
  collections of rules the component theories share, and generic lemmas on words and
  lists.

  \<^item> \<open>byte\<close> is C's \<open>unsigned char\<close>, \<open>u32\<close> its 32-bit
    \<open>unsigned int\<close>, \<open>u64\<close> the 64-bit \<open>uintmax_t\<close> and
    \<open>unsigned long\<close> (the LP64 data model).
  \<^item> A buffer that is read through a moving pointer is the list of the bytes that are
    left; reading past its end is \<open>None\<close>, never an unspecified value.
\<close>

unbundle bit_operations_syntax

type_synonym byte = "8 word"
type_synonym u32 = "32 word"
type_synonym u64 = "64 word"

named_theorems byte_arith \<open>reading machine words as natural numbers\<close>

subsection \<open>Words as natural numbers\<close>

lemma unat_drop_bit [byte_arith]: "unat (drop_bit n (w :: 'a::len word)) = unat w div 2 ^ n"
  by (simp only: unsigned_drop_bit_eq) (simp add: drop_bit_eq_div take_bit_eq_mod)

lemma unat_and_mask [byte_arith]: "unat ((w :: 'a::len word) AND mask n) = unat w mod 2 ^ n"
  by (simp only: take_bit_eq_mask [symmetric] unsigned_take_bit_eq) (simp add: take_bit_eq_mod)

lemma unat_lt_size: "unat (w :: 'a::len word) < 2 ^ LENGTH('a)"
  by (rule unsigned_less)

lemma byte_bound: "unat (b :: byte) < 256"
  using unat_lt_size [of b] by simp

lemma unat_dec:
  "w \<noteq> 0 \<Longrightarrow> unat (w - 1 :: 'a::len word) = unat w - 1"
  by (metis unat_minus_one)

lemma unat_inc_no_overflow:
  "Suc (unat w) < 2 ^ LENGTH('a) \<Longrightarrow> unat (w + 1 :: 'a::len word) = Suc (unat w)"
  by (simp add: unat_word_ariths)

lemma unat_of_nat_small: "n < 2 ^ LENGTH('a) \<Longrightarrow> unat (of_nat n :: 'a::len word) = n"
  by (simp add: unat_of_nat take_bit_eq_mod)

text \<open>A fact checked value by value on an interval.\<close>

lemma interval_all: "list_all P [a..<b] \<Longrightarrow> a \<le> n \<Longrightarrow> n < b \<Longrightarrow> P n"
  by (simp add: list_all_iff)

text \<open>The high bit of a byte, the continuation flag of every variable-length code here.\<close>

lemma and_127_eq_mask: "(w :: 'a::len word) AND 127 = w AND mask 7"
  by (simp add: mask_eq_exp_minus_1)

lemma unat_and_127 [byte_arith]: "unat ((w :: 'a::len word) AND 127) = unat w mod 128"
  by (simp add: and_127_eq_mask unat_and_mask)

lemma and_128_iff_bit: "(b :: byte) AND 128 = 0 \<longleftrightarrow> \<not> bit b 7"
  using and_exp_eq_0_iff_not_bit [of b 7] by simp

lemma bit_iff_odd_unat: "bit (w :: 'a::len word) n \<longleftrightarrow> odd (unat w div 2 ^ n)"
  by (simp only: bit_iff_odd [of "unat w", symmetric]) (simp add: bit_unsigned_iff bit_imp_le_length)

lemma and_128_eq_0_iff [byte_arith]: "(b :: byte) AND 128 = 0 \<longleftrightarrow> unat b < 128"
proof -
  have "unat b div 128 < 2" using byte_bound [of b] by simp
  then have "odd (unat b div 128) \<longleftrightarrow> \<not> unat b < 128" by auto
  then show ?thesis by (simp add: and_128_iff_bit bit_iff_odd_unat)
qed

text \<open>Splitting a word at a bit position and putting it together again.\<close>

lemma split_7: "push_bit 7 (drop_bit 7 w) + (w AND 127) = (w :: 'a::len word)"
  by (simp add: and_127_eq_mask bits_ident flip: take_bit_eq_mask)

lemma drop_bit_eq_0_iff: "drop_bit n (w :: 'a::len word) = 0 \<longleftrightarrow> unat w < 2 ^ n"
  by (metis div_less div_eq_0_iff power_not_zero unat_drop_bit unat_eq_zero zero_neq_numeral)

subsection \<open>Reading a byte stream\<close>

text \<open>
  The result of a decoder: it went outside its memory (a read past the end of the buffer or
  another undefined behaviour of the C code), it refused its input, or it got a value.
\<close>

datatype 'a read = Overrun | Bad | Got 'a

text \<open>
  The contract of a self-delimiting code: the decoder finds the value it was written from
  and leaves the bytes that follow. Every pair of an encoder and a decoder of the
  development is an interpretation of it.
\<close>

locale prefix_code =
  fixes enc :: "'a \<Rightarrow> byte list"
    and dec :: "byte list \<Rightarrow> ('a \<times> byte list) read"
    and ok :: "'a \<Rightarrow> bool"
  assumes dec_enc: "ok x \<Longrightarrow> dec (enc x @ rest) = Got (x, rest)"
begin

lemma enc_prefix_free:
  "ok x \<Longrightarrow> ok y \<Longrightarrow> enc x @ xs = enc y @ ys \<Longrightarrow> x = y \<and> xs = ys"
  by (metis Pair_inject dec_enc read.inject)

lemma enc_inj: "ok x \<Longrightarrow> ok y \<Longrightarrow> enc x = enc y \<Longrightarrow> x = y"
  using enc_prefix_free by blast

lemma stream_inj:
  "list_all ok xs \<Longrightarrow> list_all ok ys \<Longrightarrow> length xs = length ys
    \<Longrightarrow> concat (map enc xs) @ r = concat (map enc ys) @ s \<Longrightarrow> xs = ys \<and> r = s"
proof (induction xs arbitrary: ys)
  case Nil
  then show ?case by simp
next
  case (Cons x xs)
  then obtain y ys' where ys: "ys = y # ys'" by (cases ys) auto
  have "enc x @ (concat (map enc xs) @ r) = enc y @ (concat (map enc ys') @ s)"
    using Cons.prems ys by simp
  moreover have "ok x" "ok y" using Cons.prems ys by simp_all
  ultimately have xy: "x = y" and rest: "concat (map enc xs) @ r = concat (map enc ys') @ s"
    using enc_prefix_free by blast+
  have "xs = ys' \<and> r = s"
    using Cons.prems ys rest by (intro Cons.IH) simp_all
  with xy ys show ?case by simp
qed

end

subsection \<open>Finite tables\<close>

text \<open>
  The contract of a table that is looked up and updated by key: an update succeeds, keeps the
  invariant and is seen by later lookups of its key only. Every hash table and sorted list of
  the development that implements a map is an interpretation of it.
\<close>

locale finite_table =
  fixes invar :: "'t \<Rightarrow> bool"
    and lookup :: "'t \<Rightarrow> 'k \<Rightarrow> 'v option"
    and update :: "'k \<Rightarrow> 'v \<Rightarrow> 't \<Rightarrow> 't option"
  assumes update: "invar t \<Longrightarrow> \<exists>t'. update k v t = Some t' \<and> invar t' \<and> lookup t' = (lookup t)(k \<mapsto> v)"
begin

primrec updates :: "('k \<times> 'v) list \<Rightarrow> 't \<Rightarrow> 't option" where
  "updates [] t = Some t"
| "updates (kv # kvs) t = (case update (fst kv) (snd kv) t of None \<Rightarrow> None | Some t \<Rightarrow> updates kvs t)"

lemma updates_ok:
  "invar t \<Longrightarrow> \<exists>t'. updates kvs t = Some t' \<and> invar t' \<and> lookup t' = lookup t ++ map_of (rev kvs)"
proof (induction kvs arbitrary: t)
  case (Cons kv kvs)
  obtain t1 where t1: "update (fst kv) (snd kv) t = Some t1" "invar t1"
    "lookup t1 = (lookup t)(fst kv \<mapsto> snd kv)" using update [OF Cons.prems] by blast
  have "(lookup t)(fst kv \<mapsto> snd kv) ++ map_of (rev kvs) = lookup t ++ map_of (rev (kv # kvs))"
    by (rule ext) (simp add: map_add_def split: option.split)
  moreover obtain t' where "updates kvs t1 = Some t'" "invar t'" "lookup t' = lookup t1 ++ map_of (rev kvs)"
    using Cons.IH [OF t1(2)] by blast
  ultimately show ?case using t1 by (metis option.simps(5) updates.simps(2))
qed simp

end

subsection \<open>Binary search\<close>

text \<open>
  The contract of a binary search over a sorted array: \<open>cmp t k i\<close> compares the key \<open>k\<close> with the
  element \<open>i\<close>, and a key that is not there is answered by \<open>-p-1\<close> for the place \<open>p\<close> to insert it.
\<close>

locale binary_search =
  fixes cmp :: "'t \<Rightarrow> 'k \<Rightarrow> nat \<Rightarrow> int"
    and search :: "'t \<Rightarrow> 'k \<Rightarrow> nat \<Rightarrow> nat \<Rightarrow> int"
    and count :: "'t \<Rightarrow> nat"
    and ok :: "'t \<Rightarrow> 'k \<Rightarrow> bool"
  assumes step: "search t k lo hi =
      (if lo < hi then
         if cmp t k ((lo + hi) div 2) = 0 then int ((lo + hi) div 2)
         else if cmp t k ((lo + hi) div 2) < 0 then search t k lo ((lo + hi) div 2)
         else search t k ((lo + hi) div 2 + 1) hi
       else - int lo - 1)"
    and ordered: "ok t k \<Longrightarrow> i < j \<Longrightarrow> j < count t \<Longrightarrow> cmp t k i \<le> 0 \<Longrightarrow> cmp t k j < 0"
begin

definition found_at :: "'t \<Rightarrow> 'k \<Rightarrow> int \<Rightarrow> bool" where
  "found_at t k r \<longleftrightarrow> (\<exists>p < count t. r = int p \<and> cmp t k p = 0)
    \<or> (\<exists>p \<le> count t. r = - int p - 1 \<and> (\<forall>i < p. 0 < cmp t k i) \<and> (\<forall>i. p \<le> i \<longrightarrow> i < count t \<longrightarrow> cmp t k i < 0))"

lemma search_between:
  assumes "ok t k" "lo \<le> hi" "hi \<le> count t" "\<forall>i < lo. 0 < cmp t k i"
    "\<forall>i. hi \<le> i \<longrightarrow> i < count t \<longrightarrow> cmp t k i < 0"
  shows "found_at t k (search t k lo hi)"
  using assms(2-)
proof (induction "hi - lo" arbitrary: lo hi rule: less_induct)
  case less
  let ?mi = "(lo + hi) div 2"
  consider "lo = hi" | "lo < hi" "cmp t k ?mi = 0" | "lo < hi" "cmp t k ?mi < 0" | "lo < hi" "0 < cmp t k ?mi"
    using less.prems(1) by fastforce
  then show ?case
  proof cases
    case 1
    then have "\<not> lo < hi" by simp
    then have "search t k lo hi = - int lo - 1" by (simp add: step [of t k lo hi])
    then show ?thesis using less.prems 1 unfolding found_at_def by blast
  next
    case 2
    then have "search t k lo hi = int ?mi" by (simp add: step [of t k lo hi])
    moreover have "?mi < count t" using 2 less.prems(2) by linarith
    ultimately show ?thesis using 2 unfolding found_at_def by blast
  next
    case 3
    have "cmp t k i < 0" if "?mi \<le> i" "i < count t" for i
      using 3 that ordered [OF assms(1), of ?mi i] by (cases "i = ?mi") auto
    moreover have "search t k lo hi = search t k lo ?mi" using 3 by (auto simp: step [of t k lo hi])
    ultimately show ?thesis using 3 less.hyps [of ?mi lo] less.prems by simp
  next
    case 4
    have "0 < cmp t k i" if "i < ?mi + 1" for i
      using 4 that ordered [OF assms(1), of i ?mi] less.prems(2) by (cases "i = ?mi") force+
    moreover have "search t k lo hi = search t k (?mi + 1) hi" using 4 by (auto simp: step [of t k lo hi])
    ultimately show ?thesis using 4 less.hyps [of hi "?mi + 1"] less.prems by simp
  qed
qed

lemma search_all: "ok t k \<Longrightarrow> found_at t k (search t k 0 (count t))"
  by (rule search_between) auto

end

end
