(* ===== verification/Varint.thy ===== *)
theory Varint
  imports Git_Prelude
begin

text \<open>
  The variable-length integers of the object store: the offset code of
  \<^verbatim>\<open>varint.c\<close> (also the distance to a delta base in a pack, written in
  \<^verbatim>\<open>builtin/pack-objects.c\<close> and read by \<^verbatim>\<open>get_delta_base\<close> of
  \<^verbatim>\<open>sha1_file.c\<close>) and the type-and-size header of a packed object
  (\<^verbatim>\<open>pack-write.c\<close>, \<^verbatim>\<open>sha1_file.c\<close>). All arithmetic is on
  64-bit words, so the overflow tests of the C code are the tests of the model.
\<close>

subsection \<open>The offset code\<close>

text \<open>The top \<open>bits\<close> bits of a word: the macro \<open>MSB\<close>.\<close>

definition MSB :: "u64 \<Rightarrow> nat \<Rightarrow> u64" where
  "MSB x bits = x AND push_bit (64 - bits) (NOT 0)"

text \<open>
  The continuation loop that \<open>decode_varint\<close> and \<open>get_delta_base\<close> share:
  \<open>val\<close> is the value so far, \<open>c\<close> the byte read last.
\<close>

fun varint_loop :: "u64 \<Rightarrow> byte \<Rightarrow> byte list \<Rightarrow> (u64 \<times> byte list) read" where
  "varint_loop val c buf =
     (if c AND 128 = 0 then Got (val, buf)
      else let val = val + 1 in
        if val = 0 \<or> MSB val 7 \<noteq> 0 then Bad
        else (case buf of [] \<Rightarrow> Overrun
              | c # buf \<Rightarrow> varint_loop (push_bit 7 val + ucast (c AND 127)) c buf))"

declare varint_loop.simps [simp del]

definition varint_read :: "byte list \<Rightarrow> (u64 \<times> byte list) read" where
  "varint_read buf = (case buf of [] \<Rightarrow> Overrun
     | c # buf \<Rightarrow> varint_loop (ucast (c AND 127)) c buf)"

text \<open>On overflow the C function returns 0 and leaves the caller's pointer alone.\<close>

definition decode_varint :: "byte list \<Rightarrow> (u64 \<times> byte list) option" where
  "decode_varint buf = (case varint_read buf of
     Overrun \<Rightarrow> None | Bad \<Rightarrow> Some (0, buf) | Got r \<Rightarrow> Some r)"

text \<open>The bytes are filled in from the end of the array towards its start.\<close>

function encode_varint_loop :: "u64 \<Rightarrow> byte list \<Rightarrow> byte list" where
  "encode_varint_loop value varint =
     (let value = drop_bit 7 value in
      if value = 0 then varint
      else let value = value - 1 in
        encode_varint_loop value ((128 OR ucast (value AND 127)) # varint))"
  by pat_completeness auto
termination
proof (relation "measure (\<lambda>(value, _). unat value)", goal_cases)
  case (2 v acc x xa)
  then have "unat x = unat v div 128" "x \<noteq> 0" by (simp_all add: unat_drop_bit)
  then have "unat (x - 1) < unat v"
    by (metis One_nat_def bot_nat_0.not_eq_extremum diff_less div_le_dividend less_le_trans
        less_numeral_extra(1) unat_dec unat_eq_zero)
  with 2 show ?case by simp
qed simp

declare encode_varint_loop.simps [simp del]

definition encode_varint :: "u64 \<Rightarrow> byte list" where
  "encode_varint value = encode_varint_loop value [ucast (value AND 127)]"

text \<open>
  The flagged bytes in front of the last one, as a recursion from the most significant
  end, and what the reader does with them.
\<close>

function varint_prefix :: "u64 \<Rightarrow> byte list" where
  "varint_prefix w = (if drop_bit 7 w = 0 then [] else varint_prefix (drop_bit 7 w - 1))
     @ [128 OR ucast (w AND 127)]"
  by pat_completeness auto
termination
proof (relation "measure unat", goal_cases)
  case (2 w)
  have "unat (drop_bit 7 w - 1) < unat (drop_bit 7 w)" 
    using 2 by (simp add: unat_dec unat_gt_0)
  also have "\<dots> \<le> unat w" by (simp add: unat_drop_bit)
  finally show ?case by simp
qed simp

declare varint_prefix.simps [simp del]

lemma encode_varint_loop_prefix:
  "encode_varint_loop v acc = (if drop_bit 7 v = 0 then [] else varint_prefix (drop_bit 7 v - 1)) @ acc"
proof (induction v acc rule: encode_varint_loop.induct)
  case (1 v acc)
  show ?case
  proof (cases "drop_bit 7 v = 0")
    case True
    then show ?thesis by (simp add: encode_varint_loop.simps [of v])
  next
    case False
    with "1.IH" [OF refl _ refl] show ?thesis
      by (simp add: encode_varint_loop.simps [of v] varint_prefix.simps [of "drop_bit 7 v - 1"] Let_def)
  qed
qed

lemma flagged_byte:
  "(128 OR ucast (w AND 127) :: byte) AND 128 \<noteq> 0"
  "ucast ((128 OR ucast (w AND 127) :: byte) AND 127) = (w AND 127 :: u64)"
  "ucast ((ucast (w AND 127) :: byte) AND 127) = (w AND 127 :: u64)"
  "(ucast (w AND 127) :: byte) AND 128 = 0"
proof -
  have m: "(127 :: byte) = mask 7" "(127 :: u64) = mask 7"
    by (simp_all add: mask_eq_exp_minus_1)
  have e: "(128 OR x) AND 127 = x AND 127" for x :: byte
    by (simp add: bit.conj_disj_distrib2)
  show "(128 OR ucast (w AND 127) :: byte) AND 128 \<noteq> 0"
    by (simp add: and_128_iff_bit bit_or_iff bit_numeral_rec)
  show "ucast ((128 OR ucast (w AND 127) :: byte) AND 127) = (w AND 127 :: u64)"
    unfolding e unfolding m by (rule bit_eqI) (auto simp: bit_simps)
  show "ucast ((ucast (w AND 127) :: byte) AND 127) = (w AND 127 :: u64)"
    unfolding m by (rule bit_eqI) (auto simp: bit_simps)
  show "(ucast (w AND 127) :: byte) AND 128 = 0"
    unfolding and_128_iff_bit m by (simp add: bit_simps)
qed


lemma MSB_7_eq_0:
  assumes "unat (x :: u64) < 2 ^ 57"
  shows "MSB x 7 = 0"
proof -
  have "drop_bit 57 x = 0" using assms by (simp only: drop_bit_eq_0_iff)
  then have "take_bit 57 x = x" using bits_ident [of 57 x] by simp
  then have "bit x n \<Longrightarrow> n < 57" for n
    by (metis bit_take_bit_iff)
  then show ?thesis
    unfolding MSB_def by (intro bit_eqI) (auto simp: bit_simps)
qed

lemma drop_7_bound: "unat (drop_bit 7 (w :: u64)) < 2 ^ 57"
  using unat_lt_size [of w] by (simp add: unat_drop_bit)

lemma varint_loop_step:
  assumes "c AND 128 \<noteq> 0" and "v + 1 = drop_bit 7 w" and "drop_bit 7 w \<noteq> 0"
    and "ucast (c' AND 127) = w AND 127"
  shows "varint_loop v c (c' # buf) = varint_loop w c' buf"
  using assms MSB_7_eq_0 [OF drop_7_bound [of w]]
  by (subst varint_loop.simps) (simp add: Let_def split_7)

lemma varint_loop_stop: "c AND 128 = 0 \<Longrightarrow> varint_loop v c buf = Got (v, buf)"
  by (simp add: varint_loop.simps)

lemma varint_read_prefix:
  "\<exists>c. c AND 128 \<noteq> 0 \<and> varint_read (varint_prefix w @ rest) = varint_loop w c rest"
proof (induction w arbitrary: rest rule: varint_prefix.induct)
  case (1 w)
  let ?b = "128 OR ucast (w AND 127) :: byte"
  show ?case
  proof (cases "drop_bit 7 w = 0")
    case True
    with split_7 [of w] have "w AND 127 = w" by simp
    with True show ?thesis using flagged_byte [of w]
      by (intro exI [of _ ?b]) (simp add: varint_prefix.simps [of w] varint_read_def)
  next
    case False
    from "1.IH" [OF False, of "?b # rest"] obtain c where c: "c AND 128 \<noteq> 0"
      "varint_read (varint_prefix (drop_bit 7 w - 1) @ ?b # rest)
        = varint_loop (drop_bit 7 w - 1) c (?b # rest)" by blast
    with False show ?thesis using flagged_byte [of w]
      by (intro exI [of _ ?b])
         (simp add: varint_prefix.simps [of w] varint_loop_step [of c _ w])
  qed
qed

lemma varint_read_encode: "varint_read (encode_varint v @ rest) = Got (v, rest)"
proof (cases "drop_bit 7 v = 0")
  case True
  with split_7 [of v] have "v AND 127 = v" by simp
  with True show ?thesis using flagged_byte [of v]
    by (simp add: encode_varint_def encode_varint_loop_prefix varint_read_def varint_loop_stop)
next
  case False
  let ?b = "ucast (v AND 127) :: byte"
  obtain c where "c AND 128 \<noteq> 0"
    "varint_read (varint_prefix (drop_bit 7 v - 1) @ ?b # rest)
      = varint_loop (drop_bit 7 v - 1) c (?b # rest)"
    using varint_read_prefix by blast
  with False show ?thesis using flagged_byte [of v]
    by (simp add: encode_varint_def encode_varint_loop_prefix varint_loop_step [of c _ v]
          varint_loop_stop)
qed

interpretation varint: prefix_code encode_varint varint_read "\<lambda>_. True"
  by unfold_locales (rule varint_read_encode)

subsection \<open>The size of an encoding\<close>

lemma length_varint_prefix:
  "unat w < 2 ^ (7 * Suc k) \<Longrightarrow> length (varint_prefix w) \<le> Suc k"
proof (induction w arbitrary: k rule: varint_prefix.induct)
  case (1 w)
  show ?case
  proof (cases "drop_bit 7 w = 0")
    case True
    then show ?thesis by (simp add: varint_prefix.simps [of w])
  next
    case False
    then have "128 \<le> unat w" by (simp add: drop_bit_eq_0_iff)
    with "1.prems" obtain j where j: "k = Suc j" by (cases k) auto
    have "unat (drop_bit 7 w - 1) < 2 ^ (7 * Suc j)"
    proof -
      have "unat (drop_bit 7 w) < 2 ^ (7 * Suc j)"
        using "1.prems" j by (simp add: unat_drop_bit less_mult_imp_div_less power_add)
      with False show ?thesis by (simp add: unat_dec)
    qed
    from "1.IH" [OF False this] False j show ?thesis
      by (simp add: varint_prefix.simps [of w])
  qed
qed

lemma length_encode_varint: "length (encode_varint v) \<le> 10"
proof (cases "drop_bit 7 v = 0")
  case True
  then show ?thesis by (simp add: encode_varint_def encode_varint_loop_prefix)
next
  case False
  then have "unat (drop_bit 7 v - 1) < 2 ^ (7 * Suc 8)"
    using drop_7_bound [of v] by (simp add: unat_dec)
  from length_varint_prefix [OF this] show ?thesis
    by (simp add: encode_varint_def encode_varint_loop_prefix)
qed

subsection \<open>The distance to a delta base\<close>

text \<open>
  \<open>write_object\<close> stores the distance from a delta to its base in the offset code,
  in an array of ten bytes; \<open>get_delta_base\<close> reads it and refuses a base that is
  not strictly before the delta. \<open>off_t\<close> is the signed reading of the word.
\<close>

definition ofs_dheader :: "u64 \<Rightarrow> byte list" where
  "ofs_dheader ofs = encode_varint_loop ofs [ucast (ofs AND 127)]"

definition ofs_delta_base :: "u64 \<Rightarrow> byte list \<Rightarrow> (u64 \<times> byte list) read" where
  "ofs_delta_base delta_obj_offset buf =
     (case varint_read buf of
        Overrun \<Rightarrow> Overrun
      | Bad \<Rightarrow> Bad
      | Got (base_offset, buf) \<Rightarrow>
          let base_offset = delta_obj_offset - base_offset in
          if sint base_offset \<le> 0 \<or> sint base_offset \<ge> sint delta_obj_offset then Bad
          else Got (base_offset, buf))"

lemma ofs_dheader_eq: "ofs_dheader = encode_varint"
  by (simp add: fun_eq_iff ofs_dheader_def encode_varint_def)

lemma ofs_delta_base_before:
  "ofs_delta_base d buf = Got (b, rest) \<Longrightarrow> 0 < sint b \<and> sint b < sint d"
  by (auto simp: ofs_delta_base_def Let_def split: read.splits if_splits)

lemma ofs_delta_base_dheader:
  "0 < sint b \<Longrightarrow> sint b < sint d \<Longrightarrow> ofs_delta_base d (ofs_dheader (d - b) @ rest) = Got (b, rest)"
  by (simp add: ofs_delta_base_def ofs_dheader_eq varint_read_encode)

subsection \<open>The header of a packed object\<close>

text \<open>
  Four bits of size share the first byte with the type, each further byte has seven.
  A type outside \<open>OBJ_COMMIT .. OBJ_REF_DELTA\<close> is a \<open>die\<close>: \<open>None\<close>.
\<close>

function pack_header_loop :: "byte \<Rightarrow> u64 \<Rightarrow> byte list" where
  "pack_header_loop c sz =
     (if sz \<noteq> 0 then (c OR 0x80) # pack_header_loop (ucast (sz AND 0x7f)) (drop_bit 7 sz)
      else [c])"
  by pat_completeness auto
termination
proof (relation "measure (\<lambda>(_, sz). unat sz)", goal_cases)
  case (2 c sz)
  then have "unat sz div 128 < unat sz" by (simp add: unat_gt_0)
  then show ?case by (simp add: unat_drop_bit)
qed simp

declare pack_header_loop.simps [simp del]

definition encode_in_pack_object_header :: "int \<Rightarrow> u64 \<Rightarrow> byte list option" where
  "encode_in_pack_object_header type sz =
     (if type < 1 \<or> type > 7 then None
      else let c = push_bit 4 (word_of_int type) OR ucast (sz AND 15) in
        Some (pack_header_loop c (drop_bit 4 sz)))"

fun unpack_header_loop :: "byte \<Rightarrow> byte list \<Rightarrow> nat \<Rightarrow> u64 \<Rightarrow> (u64 \<times> byte list) read" where
  "unpack_header_loop c buf shift sz =
     (if c AND 0x80 = 0 then Got (sz, buf)
      else case buf of [] \<Rightarrow> Bad
        | c # buf \<Rightarrow> if 64 \<le> shift then Bad
            else unpack_header_loop c buf (shift + 7)
                   (sz + push_bit shift (ucast (c AND 0x7f))))"

declare unpack_header_loop.simps [simp del]

text \<open>The first byte is read without a length check; the callers pass at least one.\<close>

definition unpack_object_header_buffer :: "byte list \<Rightarrow> ((int \<times> u64) \<times> byte list) read" where
  "unpack_object_header_buffer buf =
     (case buf of [] \<Rightarrow> Overrun
      | c # buf \<Rightarrow>
          (case unpack_header_loop c buf 4 (ucast (c AND 15)) of
             Overrun \<Rightarrow> Overrun | Bad \<Rightarrow> Bad
           | Got (sz, buf) \<Rightarrow> Got ((uint (drop_bit 4 c AND 7), sz), buf)))"

lemma pack_header_loop_unfold:
  "pack_header_loop c sz = (if sz = 0 then c else c OR 0x80)
     # (if sz = 0 then [] else pack_header_loop (ucast (sz AND 0x7f)) (drop_bit 7 sz))"
  by (simp add: pack_header_loop.simps [of c])

lemma or_128_and_127: "((c :: byte) OR 128) AND 127 = c AND 127"
  by (simp add: bit.conj_disj_distrib2)

lemma or_128_and_128: "((c :: byte) OR 128) AND 128 = 128"
  by (simp add: bit.conj_disj_distrib2 ac_simps)

lemma unpack_header_loop_spec:
  assumes "c AND 128 = 0" and "sz = 0 \<or> unat sz < 2 ^ (64 - shift) \<and> shift < 64"
  shows "unpack_header_loop (if sz = 0 then c else c OR 0x80)
      ((if sz = 0 then [] else pack_header_loop (ucast (sz AND 0x7f)) (drop_bit 7 sz)) @ rest)
      shift acc = Got (acc + push_bit shift sz, rest)"
  using assms
proof (induction c sz arbitrary: shift acc rule: pack_header_loop.induct)
  case (1 c sz)
  show ?case
  proof (cases "sz = 0")
    case True
    with 1 show ?thesis by (simp add: unpack_header_loop.simps)
  next
    case False
    let ?c = "ucast (sz AND 0x7f) :: byte" and ?sz = "drop_bit 7 sz"
    have bound: "?sz = 0 \<or> unat ?sz < 2 ^ (64 - (shift + 7)) \<and> shift + 7 < 64"
    proof (cases "shift + 7 < 64")
      case True
      then have "64 - shift = (64 - (shift + 7)) + 7" by simp
      then have "(2 :: nat) ^ (64 - shift) = 2 ^ (64 - (shift + 7)) * 2 ^ 7"
        by (simp only: power_add)
      with False "1.prems" True show ?thesis
        by (simp add: unat_drop_bit less_mult_imp_div_less)
    next
      case False: False
      with \<open>sz \<noteq> 0\<close> "1.prems"(2) have "unat sz < 2 ^ (64 - shift)" by simp
      also have "\<dots> \<le> 2 ^ 7" using False by (intro power_increasing) auto
      finally show ?thesis by (simp add: drop_bit_eq_0_iff)
    qed
    have add: "acc + push_bit shift (sz AND 127) + push_bit (shift + 7) ?sz = acc + push_bit shift sz"
      using arg_cong [OF split_7 [of sz], of "push_bit shift"]
      by (simp add: push_bit_add algebra_simps)
    from "1.IH" [OF False _ bound, of "acc + push_bit shift (sz AND 127)"] flagged_byte [of sz] False add
      "1.prems"
    show ?thesis
      by (simp add: unpack_header_loop.simps [of "c OR 128"] or_128_and_128
          pack_header_loop_unfold [of ?c] or_128_and_127 split del: if_split)
         (auto simp: or_128_and_127)
  qed
qed

lemma pack_header_first_byte:
  fixes sz :: u64
  assumes "1 \<le> t" and "t \<le> 7"
  defines "c \<equiv> push_bit 4 (word_of_int t) OR ucast (sz AND 15) :: byte"
  shows "c AND 128 = 0" and "uint (drop_bit 4 c AND 7) = t" and "ucast (c AND 15) = sz AND 15"
proof -
  have t: "t \<in> {1, 2, 3, 4, 5, 6, 7}" using assms by auto
  have low: "drop_bit 4 (ucast (sz AND 15) :: byte) = 0"
  proof -
    have m: "(15 :: u64) = mask 4" by (simp add: mask_eq_exp_minus_1)
    show ?thesis unfolding m by (rule bit_eqI) (auto simp: bit_simps)
  qed
  then have high: "drop_bit 4 c = drop_bit 4 (push_bit 4 (word_of_int t))"
    unfolding c_def by (simp add: drop_bit_or)
  then show "uint (drop_bit 4 c AND 7) = t" using t by auto
  have "\<not> bit (drop_bit 4 c) 3" unfolding high using t by (auto simp: bit_numeral_rec)
  then show "c AND 128 = 0" by (simp add: and_128_iff_bit bit_simps)
  have m: "(15 :: u64) = mask 4" "(15 :: byte) = mask 4"
    by (simp_all add: mask_eq_exp_minus_1)
  show "ucast (c AND 15) = sz AND 15"
    unfolding c_def m by (rule bit_eqI) (auto simp: bit_simps)
qed

lemma unpack_encode_header:
  assumes "encode_in_pack_object_header t sz = Some hdr"
  shows "unpack_object_header_buffer (hdr @ rest) = Got ((t, sz), rest)"
proof -
  let ?c = "push_bit 4 (word_of_int t) OR ucast (sz AND 15) :: byte"
  from assms have t: "1 \<le> t" "t \<le> 7" and hdr: "hdr = pack_header_loop ?c (drop_bit 4 sz)"
    by (auto simp: encode_in_pack_object_header_def Let_def split: if_splits)
  note first = pack_header_first_byte [OF t, of sz]
  have "unat (drop_bit 4 sz) < 2 ^ (64 - 4)"
    using unat_lt_size [of sz] by (simp add: unat_drop_bit)
  then have "drop_bit 4 sz = 0 \<or> unat (drop_bit 4 sz) < 2 ^ (64 - 4) \<and> (4 :: nat) < 64" by simp
  from unpack_header_loop_spec [OF first(1) this]
  have loop: "unpack_header_loop (if drop_bit 4 sz = 0 then ?c else ?c OR 0x80)
      ((if drop_bit 4 sz = 0 then []
        else pack_header_loop (ucast (drop_bit 4 sz AND 0x7f)) (drop_bit 7 (drop_bit 4 sz))) @ rest)
      4 (sz AND 15) = Got ((sz AND 15) + push_bit 4 (drop_bit 4 sz), rest)"
    .
  have "(sz AND 15) + push_bit 4 (drop_bit 4 sz) = sz"
    using bits_ident [of 4 sz] by (simp add: take_bit_eq_mask mask_eq_exp_minus_1 add.commute)
  moreover have "(?c OR 0x80) AND 15 = ?c AND 15"
    by (simp add: bit.conj_disj_distrib2)
  moreover have "drop_bit 4 (?c OR 0x80) AND 7 = drop_bit 4 ?c AND 7"
    by (simp add: drop_bit_or bit.conj_disj_distrib2)
  ultimately show ?thesis
    using loop first
    by (auto simp: hdr unpack_object_header_buffer_def pack_header_loop_unfold [of ?c]
        split: if_splits)
qed

lemma length_pack_header_loop:
  "unat sz < 2 ^ (7 * k) \<Longrightarrow> length (pack_header_loop c sz) \<le> Suc k"
proof (induction c sz arbitrary: k rule: pack_header_loop.induct)
  case (1 c sz)
  show ?case
  proof (cases "sz = 0")
    case True
    then show ?thesis by (simp add: pack_header_loop_unfold)
  next
    case False
    with "1.prems" obtain j where j: "k = Suc j" by (cases k) (auto simp: unat_eq_0)
    with "1.prems" have "unat (drop_bit 7 sz) < 2 ^ (7 * j)"
      by (simp add: unat_drop_bit less_mult_imp_div_less power_add)
    from "1.IH" [OF False this] False j show ?thesis
      by (simp add: pack_header_loop_unfold [of c])
  qed
qed

lemma length_pack_header:
  assumes "encode_in_pack_object_header t sz = Some hdr"
  shows "length hdr \<le> 10"
proof -
  have "unat (drop_bit 4 sz) < 2 ^ (7 * 9)"
    using unat_lt_size [of sz] by (simp add: unat_drop_bit)
  from length_pack_header_loop [OF this] assms show ?thesis
    by (auto simp: encode_in_pack_object_header_def Let_def split: if_splits)
qed

interpretation pack_header: prefix_code
  "\<lambda>(t, sz). case encode_in_pack_object_header t sz of None \<Rightarrow> [] | Some hdr \<Rightarrow> hdr"
  unpack_object_header_buffer "\<lambda>(t, sz). 1 \<le> t \<and> t \<le> 7"
  by unfold_locales
     (auto simp: unpack_encode_header encode_in_pack_object_header_def Let_def split: option.splits)

subsection \<open>Properties\<close>

text \<open>Every 64-bit value comes back from its variable-length encoding, with the bytes after it
  untouched, and the encoding is at most ten bytes long, within the sixteen-byte buffer the callers
  use.\<close>

theorem varint_roundtrip:
  "decode_varint (encode_varint v @ rest) = Some (v, rest) \<and> length (encode_varint v) \<le> 10"
  by (simp add: decode_varint_def varint_read_encode length_encode_varint)

text \<open>The offset of a delta base is read back from the header the packer writes, and whatever
  bytes the header has, an accepted base lies strictly before the object and after the start of the
  pack.\<close>

theorem ofs_delta_base_safe:
  "(0 < sint b \<and> sint b < sint d \<longrightarrow> ofs_delta_base d (ofs_dheader (d - b) @ rest) = Got (b, rest))
    \<and> (ofs_delta_base d buf = Got (b', rest') \<longrightarrow> 0 < sint b' \<and> sint b' < sint d)"
  by (simp add: ofs_delta_base_before ofs_delta_base_dheader)

theorem ofs_delta_base_safe_witness:
  "ofs_delta_base 300 (ofs_dheader (300 - 100) @ [1]) = Got (100, [1]) \<and> 0 < sint (100 :: u64)"
  using ofs_delta_base_safe [of 100 300 "[1]" "ofs_dheader (300 - 100) @ [1]" 100 "[1]"] by simp

text \<open>The header of a packed object is written for the types 1 to 7 only, takes at most ten
  bytes, and is read back to the same type and size whatever follows it.\<close>

theorem pack_object_header_roundtrip:
  "case encode_in_pack_object_header t sz of
     None \<Rightarrow> t < 1 \<or> 7 < t
   | Some hdr \<Rightarrow> 1 \<le> t \<and> t \<le> 7 \<and> length hdr \<le> 10
       \<and> unpack_object_header_buffer (hdr @ rest) = Got ((t, sz), rest)"
  by (cases "encode_in_pack_object_header t sz")
     (auto simp: unpack_encode_header length_pack_header, auto simp: encode_in_pack_object_header_def split: if_splits)

end
