(* ===== verification/Ctype.thy ===== *)
theory Ctype
  imports Git_Prelude
begin

text \<open>
  The locale-independent character classes of \<^verbatim>\<open>ctype.c\<close>, read through the
  macros of \<^verbatim>\<open>git-compat-util.h\<close>: a table of flags indexed by the
  \<open>unsigned char\<close>. C strings are HOL strings without the terminating NUL.
\<close>

text \<open>The flags \<open>GIT_SPACE\<close> to \<open>GIT_PATHSPEC_MAGIC\<close>.\<close>

abbreviation (input) cS :: nat where "cS \<equiv> 1"
abbreviation (input) cD :: nat where "cD \<equiv> 2"
abbreviation (input) cA :: nat where "cA \<equiv> 4"
abbreviation (input) cG :: nat where "cG \<equiv> 8"
abbreviation (input) cR :: nat where "cR \<equiv> 16"
abbreviation (input) cP :: nat where "cP \<equiv> 32"

definition sane_ctype :: "nat list" where
  "sane_ctype =
    [0, 0, 0, 0, 0, 0, 0, 0, 0, cS, cS, 0, 0, cS, 0, 0,
     0, 0, 0, 0, 0, 0, 0, 0, 0, 0, 0, 0, 0, 0, 0, 0,
     cS, cP, cP, cP, cR, cP, cP, cP, cR, cR, cG, cR, cP, cP, cR, cP,
     cD, cD, cD, cD, cD, cD, cD, cD, cD, cD, cP, cP, cP, cP, cP, cG,
     cP, cA, cA, cA, cA, cA, cA, cA, cA, cA, cA, cA, cA, cA, cA, cA,
     cA, cA, cA, cA, cA, cA, cA, cA, cA, cA, cA, cG, cG, 0, cR, cP,
     cP, cA, cA, cA, cA, cA, cA, cA, cA, cA, cA, cA, cA, cA, cA, cA,
     cA, cA, cA, cA, cA, cA, cA, cA, cA, cA, cA, cR, cR, 0, cP, 0]
    @ replicate 128 0"

definition sane_istest :: "char \<Rightarrow> nat \<Rightarrow> bool" where
  "sane_istest x m = (sane_ctype ! of_char x AND m \<noteq> 0)"

definition isspace :: "char \<Rightarrow> bool" where "isspace x = sane_istest x cS"
definition isdigit :: "char \<Rightarrow> bool" where "isdigit x = sane_istest x cD"
definition isalpha :: "char \<Rightarrow> bool" where "isalpha x = sane_istest x cA"
definition isalnum :: "char \<Rightarrow> bool" where "isalnum x = sane_istest x (cA OR cD)"

definition sane_case :: "char \<Rightarrow> nat \<Rightarrow> char" where
  "sane_case x high = (if sane_istest x cA
     then char_of (((of_char x :: int) AND NOT 0x20) OR int high) else x)"

definition to_lower :: "char \<Rightarrow> char" where "to_lower x = sane_case x 0x20"
definition to_upper :: "char \<Rightarrow> char" where "to_upper x = sane_case x 0"

definition sane_iscase :: "char \<Rightarrow> bool \<Rightarrow> bool" where
  "sane_iscase x is_lower = (sane_istest x cA \<and>
     (if is_lower then (of_char x :: int) AND 0x20 \<noteq> 0
      else (of_char x :: int) AND 0x20 = 0))"

lemma length_sane_ctype: "length sane_ctype = 256"
  by (simp add: sane_ctype_def)

text \<open>The character a C string pointer points at: NUL at the end.\<close>

definition cstr_hd :: "string \<Rightarrow> char" where
  "cstr_hd s = (case s of [] \<Rightarrow> CHR 0x00 | c # _ \<Rightarrow> c)"

lemma cstr_hd_simps [simp]: "cstr_hd [] = CHR 0x00" "cstr_hd (c # s) = c"
  by (simp_all add: cstr_hd_def)

subsection \<open>The classes, character by character\<close>

text \<open>A fact about all entries of a 256-entry table, from one evaluation of the table.\<close>

lemma table_entry:
  assumes "map f tab = map g [0..<256]"
  shows "f (tab ! (of_char c)) = g (of_char (c :: char))"
proof -
  have len: "length tab = 256" using assms by (metis length_map length_upt diff_zero)
  have "(of_char c :: nat) < 256" by simp
  then show ?thesis
    using arg_cong [OF assms, of "\<lambda>l. l ! of_char c"] len by simp
qed

lemma isspace_iff: "isspace c \<longleftrightarrow> (of_char c :: nat) \<in> set [9, 10, 13, 32]"
proof -
  have "map (\<lambda>f. f AND 1 \<noteq> 0) sane_ctype = map (\<lambda>n. n \<in> set [9, 10, 13, 32]) [0..<256]"
    by code_simp
  from table_entry [OF this] show ?thesis by (simp add: isspace_def sane_istest_def)
qed

lemma isdigit_iff: "isdigit c \<longleftrightarrow> 48 \<le> (of_char c :: nat) \<and> (of_char c :: nat) < 58"
proof -
  have "map (\<lambda>f. f AND 2 \<noteq> 0) sane_ctype = map (\<lambda>n. 48 \<le> n \<and> n < 58) [0..<256]"
    by code_simp
  from table_entry [OF this] show ?thesis by (simp add: isdigit_def sane_istest_def)
qed

lemma isalpha_iff: "isalpha c \<longleftrightarrow>
    65 \<le> (of_char c :: nat) \<and> (of_char c :: nat) < 91 \<or> 97 \<le> (of_char c :: nat) \<and> (of_char c :: nat) < 123"
proof -
  have "map (\<lambda>f. f AND 4 \<noteq> 0) sane_ctype
      = map (\<lambda>n. 65 \<le> n \<and> n < 91 \<or> 97 \<le> n \<and> n < 123) [0..<256]"
    by code_simp
  from table_entry [OF this] show ?thesis by (simp add: isalpha_def sane_istest_def)
qed

lemma isalnum_iff: "isalnum c \<longleftrightarrow> isalpha c \<or> isdigit c"
proof -
  have "map (\<lambda>f. f AND (4 OR 2) \<noteq> 0) sane_ctype
      = map (\<lambda>n. (65 \<le> n \<and> n < 91 \<or> 97 \<le> n \<and> n < 123) \<or> 48 \<le> n \<and> n < 58) [0..<256]"
    by code_simp
  from table_entry [OF this] show ?thesis
    unfolding isalpha_iff isdigit_iff by (simp add: isalnum_def sane_istest_def)
qed

lemma to_lower_eq: "to_lower c = (let n = of_char c :: nat in
    if 65 \<le> n \<and> n < 91 then char_of (n + 32) else c)"
proof -
  let ?n = "of_char c :: nat"
  have up: "list_all (\<lambda>n. (int n AND NOT 32) OR 32 = int (n + 32)) [65..<91]"
    and lo: "list_all (\<lambda>n. (int n AND NOT 32) OR 32 = int n) [97..<123]"
    by (simp_all add: upt_rec)
  have c: "(of_char c :: int) = int ?n" by (simp only: of_nat_of_char)
  consider "65 \<le> ?n \<and> ?n < 91" | "97 \<le> ?n \<and> ?n < 123" | "\<not> isalpha c"
    by (auto simp: isalpha_iff)
  then show ?thesis
  proof cases
    case 1
    have e: "(int ?n AND NOT 32) OR 32 = int (?n + 32)" 
      using 1 interval_all [OF up, of ?n] by blast
    have a: "sane_istest c 4"
      using 1 isalpha_iff [of c] by (simp add: isalpha_def)
    have "to_lower c = char_of (?n + 32)"
      unfolding to_lower_def sane_case_def c using a e by (simp only: if_True of_nat_numeral char_of_nat)
    with 1 show ?thesis by (simp add: Let_def)
  next
    case 2
    have e: "(int ?n AND NOT 32) OR 32 = int ?n" 
      using 2 interval_all [OF lo, of ?n] by blast
    have a: "sane_istest c 4"
      using 2 isalpha_iff [of c] by (simp add: isalpha_def)
    have "to_lower c = char_of ?n"
      unfolding to_lower_def sane_case_def c using a e by (simp only: if_True of_nat_numeral char_of_nat)
    with 2 show ?thesis by (simp add: Let_def)
  next
    case 3
    then show ?thesis by (auto simp: to_lower_def sane_case_def isalpha_iff Let_def simp flip: isalpha_def)
  qed
qed

subsection \<open>The table for case-insensitive search\<close>

definition tolower_trans_tbl :: "nat list" where
  "tolower_trans_tbl = [
     0x00, 0x01, 0x02, 0x03, 0x04, 0x05, 0x06, 0x07, 0x08, 0x09, 0x0a, 0x0b, 0x0c, 0x0d, 0x0e, 0x0f,
     0x10, 0x11, 0x12, 0x13, 0x14, 0x15, 0x16, 0x17, 0x18, 0x19, 0x1a, 0x1b, 0x1c, 0x1d, 0x1e, 0x1f,
     0x20, 0x21, 0x22, 0x23, 0x24, 0x25, 0x26, 0x27, 0x28, 0x29, 0x2a, 0x2b, 0x2c, 0x2d, 0x2e, 0x2f,
     0x30, 0x31, 0x32, 0x33, 0x34, 0x35, 0x36, 0x37, 0x38, 0x39, 0x3a, 0x3b, 0x3c, 0x3d, 0x3e, 0x3f,
     0x40, 0x61, 0x62, 0x63, 0x64, 0x65, 0x66, 0x67, 0x68, 0x69, 0x6a, 0x6b, 0x6c, 0x6d, 0x6e, 0x6f,
     0x70, 0x71, 0x72, 0x73, 0x74, 0x75, 0x76, 0x77, 0x78, 0x79, 0x7a, 0x5b, 0x5c, 0x5d, 0x5e, 0x5f,
     0x60, 0x61, 0x62, 0x63, 0x64, 0x65, 0x66, 0x67, 0x68, 0x69, 0x6a, 0x6b, 0x6c, 0x6d, 0x6e, 0x6f,
     0x70, 0x71, 0x72, 0x73, 0x74, 0x75, 0x76, 0x77, 0x78, 0x79, 0x7a, 0x7b, 0x7c, 0x7d, 0x7e, 0x7f,
     0x80, 0x81, 0x82, 0x83, 0x84, 0x85, 0x86, 0x87, 0x88, 0x89, 0x8a, 0x8b, 0x8c, 0x8d, 0x8e, 0x8f,
     0x90, 0x91, 0x92, 0x93, 0x94, 0x95, 0x96, 0x97, 0x98, 0x99, 0x9a, 0x9b, 0x9c, 0x9d, 0x9e, 0x9f,
     0xa0, 0xa1, 0xa2, 0xa3, 0xa4, 0xa5, 0xa6, 0xa7, 0xa8, 0xa9, 0xaa, 0xab, 0xac, 0xad, 0xae, 0xaf,
     0xb0, 0xb1, 0xb2, 0xb3, 0xb4, 0xb5, 0xb6, 0xb7, 0xb8, 0xb9, 0xba, 0xbb, 0xbc, 0xbd, 0xbe, 0xbf,
     0xc0, 0xc1, 0xc2, 0xc3, 0xc4, 0xc5, 0xc6, 0xc7, 0xc8, 0xc9, 0xca, 0xcb, 0xcc, 0xcd, 0xce, 0xcf,
     0xd0, 0xd1, 0xd2, 0xd3, 0xd4, 0xd5, 0xd6, 0xd7, 0xd8, 0xd9, 0xda, 0xdb, 0xdc, 0xdd, 0xde, 0xdf,
     0xe0, 0xe1, 0xe2, 0xe3, 0xe4, 0xe5, 0xe6, 0xe7, 0xe8, 0xe9, 0xea, 0xeb, 0xec, 0xed, 0xee, 0xef,
     0xf0, 0xf1, 0xf2, 0xf3, 0xf4, 0xf5, 0xf6, 0xf7, 0xf8, 0xf9, 0xfa, 0xfb, 0xfc, 0xfd, 0xfe, 0xff]"

lemma tolower_trans_tbl_eq: "char_of (tolower_trans_tbl ! of_char c) = to_lower c"
proof -
  have "map (\<lambda>n. n) tolower_trans_tbl = map (\<lambda>n. if 65 \<le> n \<and> n < 91 then n + 32 else n) [0..<256]"
    by code_simp
  from table_entry [OF this, of c] show ?thesis by (simp add: to_lower_eq Let_def)
qed

subsection \<open>Properties\<close>

text \<open>The classification tables are the ASCII ones: spaces, digits, letters, and the two ways to
  fold case, by mask and by table, agree and change exactly the upper-case letters; no byte above 127
  is in any class.\<close>

theorem sane_ctype_is_ascii:
  "let n = (of_char c :: nat) in
     (isspace c \<longleftrightarrow> n \<in> {9, 10, 13, 32}) \<and> (isdigit c \<longleftrightarrow> 48 \<le> n \<and> n \<le> 57)
     \<and> (isalpha c \<longleftrightarrow> 65 \<le> n \<and> n \<le> 90 \<or> 97 \<le> n \<and> n \<le> 122) \<and> (isalnum c \<longleftrightarrow> isalpha c \<or> isdigit c)
     \<and> to_lower c = (if 65 \<le> n \<and> n \<le> 90 then char_of (n + 32) else c)
     \<and> char_of (tolower_trans_tbl ! n) = to_lower c"
  by (auto simp: Let_def isspace_iff isdigit_iff isalpha_iff isalnum_iff tolower_trans_tbl_eq to_lower_eq)

end
