(* ===== verification/Hex.thy ===== *)
theory Hex
  imports Ctype
begin

text \<open>
  \<^verbatim>\<open>hex.c\<close>: the digit table, reading 40 hex digits into the 20 bytes of an
  object name, and printing an object name.
\<close>

definition hexval_table :: "int list" where
  "hexval_table =
     replicate 48 (-1) @
     [0, 1, 2, 3, 4, 5, 6, 7, 8, 9] @ replicate 7 (-1) @
     [10, 11, 12, 13, 14, 15] @ replicate 26 (-1) @
     [10, 11, 12, 13, 14, 15] @ replicate 153 (-1)"

definition hexval :: "char \<Rightarrow> u32" where
  "hexval c = word_of_int (hexval_table ! of_char c)"

text \<open>
  The loop counts down the bytes still to be read; a NUL where a digit is expected stops it.
  On failure the C function has written some bytes of a buffer no caller then looks at.
\<close>

fun get_sha1_hex_loop :: "nat \<Rightarrow> string \<Rightarrow> byte list option" where
  "get_sha1_hex_loop 0 hex = Some []"
| "get_sha1_hex_loop (Suc i) hex =
     (if cstr_hd hex = CHR 0x00 then None
      else let val = push_bit 4 (hexval (cstr_hd hex)) OR hexval (cstr_hd (tl hex)) in
        if val AND NOT 0xff \<noteq> 0 then None
        else (case get_sha1_hex_loop i (drop 2 hex) of None \<Rightarrow> None
              | Some sha1 \<Rightarrow> Some (ucast val # sha1)))"

definition get_sha1_hex :: "string \<Rightarrow> byte list option" where
  "get_sha1_hex hex = get_sha1_hex_loop 20 hex"

definition hex_digits :: string where "hex_digits = ''0123456789abcdef''"

definition sha1_to_hex :: "byte list \<Rightarrow> string" where
  "sha1_to_hex sha1 = concat (map (\<lambda>val.
     [hex_digits ! unat (drop_bit 4 val), hex_digits ! unat (val AND 0xf)]) sha1)"

subsection \<open>Digits\<close>

definition hexdig_nat :: "nat \<Rightarrow> nat option" where
  "hexdig_nat n =
    (if 48 \<le> n \<and> n < 58 then Some (n - 48)
     else if 65 \<le> n \<and> n < 71 then Some (n - 55)
     else if 97 \<le> n \<and> n < 103 then Some (n - 87) else None)"

definition hexdig :: "char \<Rightarrow> nat option" where
  "hexdig c = hexdig_nat (of_char c)"

lemma hexval_eq: "hexval c = (case hexdig c of None \<Rightarrow> -1 | Some d \<Rightarrow> of_nat d)"
proof -
  have "map (\<lambda>v. v) hexval_table
      = map (\<lambda>n. case hexdig_nat n of None \<Rightarrow> -1 | Some d \<Rightarrow> int d) [0..<256]" by code_simp
  from table_entry [OF this, of c] show ?thesis
    by (simp add: hexval_def hexdig_def split: option.splits)
qed

lemma hexdig_lt: "hexdig c = Some d \<Longrightarrow> d < 16"
  by (auto simp: hexdig_def hexdig_nat_def split: if_splits)

lemma hexdig_chars:
  "hexdig c = Some d \<Longrightarrow> (of_char c :: nat) \<in> set ([48..<58] @ [65..<71] @ [97..<103])"
  unfolding hexdig_def hexdig_nat_def by (simp only: set_append set_upt) (auto split: if_splits)

lemma to_lower_hexdig:
  assumes "hexdig c = Some d"
  shows "to_lower c = hex_digits ! d"
proof -
  have "list_all (\<lambda>n. to_lower (char_of (n :: nat)) = hex_digits ! the (hexdig_nat n))
    ([48..<58] @ [65..<71] @ [97..<103])"
    by (simp add: to_lower_eq hexdig_nat_def hex_digits_def upt_rec Let_def) code_simp
  with hexdig_chars [OF assms]
  have "to_lower (char_of (of_char c :: nat)) = hex_digits ! the (hexdig_nat (of_char c))"
    unfolding list_all_iff by blast
  with assms show ?thesis by (simp add: hexdig_def)
qed

lemma hexdig_hex_digits: "d < 16 \<Longrightarrow> hexdig (hex_digits ! d) = Some d"
proof -
  have "list_all (\<lambda>d. hexdig (hex_digits ! d) = Some d) [0..<16]" by code_simp
  then show "d < 16 \<Longrightarrow> hexdig (hex_digits ! d) = Some d" by (simp add: list_all_iff)
qed

lemma hexdig_nul: "hexdig (CHR 0x00) = None"
  by (simp add: hexdig_def hexdig_nat_def)

subsection \<open>One byte\<close>

definition hex_byte_ok :: "char \<Rightarrow> char \<Rightarrow> bool" where
  "hex_byte_ok a b = ((push_bit 4 (hexval a) OR hexval b) AND NOT 0xff = 0)"

lemma two_digits:
  assumes "i < 16" "j < 16"
  shows "(push_bit 4 (of_nat i) OR of_nat j :: u32) = of_nat (16 * i + j)"
    and "(of_nat (16 * i + j) :: u32) AND NOT 0xff = 0"
proof -
  have "list_all (\<lambda>i. list_all (\<lambda>j. (push_bit 4 (of_nat i) OR of_nat j :: u32) = of_nat (16 * i + j)
      \<and> (of_nat (16 * i + j) :: u32) AND NOT 0xff = 0) [0..<16]) [0..<16]"
    by (simp add: upt_rec)
  with assms show "(push_bit 4 (of_nat i) OR of_nat j :: u32) = of_nat (16 * i + j)"
    and "(of_nat (16 * i + j) :: u32) AND NOT 0xff = 0"
    by (simp_all add: list_all_iff)
qed

lemma hex_byte_ok_iff: "hex_byte_ok a b \<longleftrightarrow> hexdig a \<noteq> None \<and> hexdig b \<noteq> None"
proof (cases "hexdig a"; cases "hexdig b")
  fix i j assume d: "hexdig a = Some i" "hexdig b = Some j"
  then have "i < 16" "j < 16" by (simp_all add: hexdig_lt)
  with d two_digits [of i j] show ?thesis by (simp add: hex_byte_ok_def hexval_eq del: of_nat_add)
next
  have high: "x AND NOT 0xff \<noteq> 0" if "bit x 31" for x :: u32
  proof
    assume "x AND NOT 0xff = 0"
    then have "\<not> bit (x AND NOT 0xff) 31" by simp
    with that show False by (simp add: bit_simps bit_numeral_rec)
  qed
  have "bit (push_bit 4 (-1) OR x :: u32) 31" for x by (simp add: bit_simps)
  note h1 = high [OF this]
  have "bit (x OR -1 :: u32) 31" for x by (simp add: bit_simps)
  note h2 = high [OF this]
  show "hexdig a = None \<Longrightarrow> hexdig b = None \<Longrightarrow> ?thesis"
    "hexdig a = None \<Longrightarrow> hexdig b = Some j \<Longrightarrow> ?thesis"
    "hexdig a = Some i \<Longrightarrow> hexdig b = None \<Longrightarrow> ?thesis" for i j
    using h1 h2 by (simp_all add: hex_byte_ok_def hexval_eq del: push_bit_minus_one)
qed

text \<open>The byte of two digits, and the two digits of a byte.\<close>

lemma hex_byte_value:
  assumes "hexdig a = Some i" "hexdig b = Some j"
  shows "ucast (push_bit 4 (hexval a) OR hexval b) = (of_nat (16 * i + j) :: byte)"
proof -
  have "i < 16" "j < 16" using assms by (simp_all add: hexdig_lt)
  then have "push_bit 4 (hexval a) OR hexval b = (of_nat (16 * i + j) :: u32)"
    using two_digits [of i j] assms by (simp add: hexval_eq del: of_nat_add)
  moreover have "ucast (of_nat k :: u32) = (of_nat k :: byte)" for k
    by (rule bit_eqI) (simp add: bit_simps)
  ultimately show ?thesis by (simp del: of_nat_add)
qed

lemma nibbles: "unat (drop_bit 4 (b :: byte)) = unat b div 16" "unat (b AND 0xf) = unat b mod 16"
proof -
  show "unat (drop_bit 4 b) = unat b div 16" by (simp add: unat_drop_bit)
  have "b AND 0xf = b AND mask 4" by (simp add: mask_eq_exp_minus_1)
  then show "unat (b AND 0xf) = unat b mod 16" by (simp only: unat_and_mask) simp
qed

lemma sha1_to_hex_simps:
  "sha1_to_hex [] = []"
  "sha1_to_hex (b # bs) = hex_digits ! (unat b div 16) # hex_digits ! (unat b mod 16) # sha1_to_hex bs"
  by (simp_all add: sha1_to_hex_def nibbles)

lemma length_sha1_to_hex: "length (sha1_to_hex bs) = 2 * length bs"
  by (induction bs) (simp_all add: sha1_to_hex_simps)

lemma hexdig_to_lower: "hexdig (to_lower c) = hexdig c"
  by (auto simp: to_lower_eq Let_def hexdig_def hexdig_nat_def)

lemma to_lower_digit_iff: "i < 16 \<Longrightarrow> to_lower a = hex_digits ! i \<longleftrightarrow> hexdig a = Some i"
  using to_lower_hexdig hexdig_to_lower hexdig_hex_digits by metis

lemma two_digits_byte:
  assumes "i < 16" "j < 16"
  shows "unat (of_nat (16 * i + j) :: byte) div 16 = i" "unat (of_nat (16 * i + j) :: byte) mod 16 = j"
proof -
  have "unat (of_nat (16 * i + j) :: byte) = 16 * i + j"
    using assms by (intro unat_of_nat_small) simp
  with assms show "unat (of_nat (16 * i + j) :: byte) div 16 = i"
    "unat (of_nat (16 * i + j) :: byte) mod 16 = j" by simp_all
qed

text \<open>
  The reader accepts exactly the spellings, in either case, of the name it returns.
\<close>

lemma get_sha1_hex_loop_iff:
  "get_sha1_hex_loop n hex = Some sha1 \<longleftrightarrow>
     (\<exists>u rest. hex = u @ rest \<and> length sha1 = n \<and> map to_lower u = sha1_to_hex sha1)"
proof (induction n arbitrary: hex sha1)
  case 0
  show ?case by (cases sha1) (auto simp: sha1_to_hex_simps)
next
  case (Suc n)
  show ?case
  proof (cases "\<exists>a b t. hex = a # b # t \<and> hexdig a \<noteq> None \<and> hexdig b \<noteq> None")
    case True
    then obtain a b t i j where hex: "hex = a # b # t" and d: "hexdig a = Some i" "hexdig b = Some j"
      by auto
    let ?v = "of_nat (16 * i + j) :: byte"
    have ij: "i < 16" "j < 16" using d by (simp_all add: hexdig_lt)
    have a: "a \<noteq> CHR 0x00" using d hexdig_nul by auto
    have ok: "hex_byte_ok a b" using d by (simp add: hex_byte_ok_iff)
    have "get_sha1_hex_loop (Suc n) hex = Some sha1 \<longleftrightarrow>
        (\<exists>s. sha1 = ?v # s \<and> get_sha1_hex_loop n t = Some s)"
      using ok a hex_byte_value [OF d]
      by (auto simp: hex hex_byte_ok_def Let_def numeral_2_eq_2 split: option.splits)
    also have "\<dots> \<longleftrightarrow> (\<exists>s u rest. sha1 = ?v # s \<and> t = u @ rest \<and> length s = n \<and> map to_lower u = sha1_to_hex s)"
      by (simp add: Suc.IH)
    also have "\<dots> \<longleftrightarrow> (\<exists>u rest. hex = u @ rest \<and> length sha1 = Suc n \<and> map to_lower u = sha1_to_hex sha1)"
      (is "?L \<longleftrightarrow> ?R")
    proof
      assume ?L
      then obtain s u rest where "sha1 = ?v # s" "t = u @ rest" "length s = n"
        "map to_lower u = sha1_to_hex s" by blast
      with ij d show ?R
        by (intro exI [of _ "a # b # u"] exI [of _ rest])
           (simp add: hex sha1_to_hex_simps two_digits_byte to_lower_digit_iff del: of_nat_add)
    next
      assume ?R
      then obtain u rest v s where R: "hex = u @ rest" "sha1 = v # s" "length s = n"
        "map to_lower u = sha1_to_hex (v # s)" by (cases sha1) auto
      then obtain u' where u: "u = a # b # u'"
        by (auto simp: sha1_to_hex_simps hex append_eq_Cons_conv)
      with R have "to_lower a = hex_digits ! (unat v div 16)" "to_lower b = hex_digits ! (unat v mod 16)"
        "map to_lower u' = sha1_to_hex s" by (simp_all add: sha1_to_hex_simps)
      moreover have "unat v div 16 < 16" using byte_bound [of v] by auto
      ultimately have "i = unat v div 16" "j = unat v mod 16"
        using d to_lower_digit_iff [of "unat v div 16" a] to_lower_digit_iff [of "unat v mod 16" b]
        by simp_all
      then have "?v = v" by simp
      with R u \<open>map to_lower u' = sha1_to_hex s\<close> show ?L by (auto simp: hex)
    qed
    finally show ?thesis .
  next
    case False
    have "get_sha1_hex_loop (Suc n) hex = None"
    proof (cases hex)
      case (Cons a t)
      have "\<not> hex_byte_ok a (cstr_hd t)"
        using False Cons hexdig_nul by (cases t) (auto simp: hex_byte_ok_iff)
      then show ?thesis using Cons by (simp add: hex_byte_ok_def Let_def)
    qed simp
    moreover have False if R: "hex = u @ rest" "length sha1 = Suc n" "map to_lower u = sha1_to_hex sha1"
      for u rest
    proof -
      from R(2) obtain v s where v: "sha1 = v # s" by (cases sha1) auto
      with R obtain a b u' where u: "u = a # b # u'" "to_lower a = hex_digits ! (unat v div 16)"
        "to_lower b = hex_digits ! (unat v mod 16)"
        by (auto simp: sha1_to_hex_simps map_eq_Cons_conv)
      moreover have "unat v div 16 < 16" using byte_bound [of v] by auto
      ultimately have "hexdig a \<noteq> None" "hexdig b \<noteq> None"
        using to_lower_digit_iff [of "unat v div 16" a] to_lower_digit_iff [of "unat v mod 16" b]
        by simp_all
      with False R u show False by auto
    qed
    ultimately show ?thesis by fastforce
  qed
qed

subsection \<open>Properties\<close>

text \<open>\<open>get_sha1_hex\<close> accepts exactly the strings that begin with forty hexadecimal
  digits of either case, and the object name it returns is the one whose lower-case spelling
  \<open>sha1_to_hex\<close> prints.\<close>

theorem get_sha1_hex_accepts:
  "get_sha1_hex hex = Some sha1 \<longleftrightarrow>
     length sha1 = 20 \<and> (\<exists>u rest. hex = u @ rest \<and> map to_lower u = sha1_to_hex sha1)"
  unfolding get_sha1_hex_def get_sha1_hex_loop_iff by auto

end
