(* ===== verification/Base85.thy ===== *)
theory Base85
  imports Ctype
begin

text \<open>
  \<^verbatim>\<open>base85.c\<close>, the text form of binary patches: four bytes, read as a
  big-endian 32-bit number, become five digits. The accumulator is a 32-bit word and the
  decoder's overflow tests are kept.
\<close>

definition en85 :: string where
  "en85 = ''0123456789'' @ ''ABCDEFGHIJ'' @ ''KLMNOPQRST'' @ ''UVWXYZ''
    @ ''abcdefghij'' @ ''klmnopqrst'' @ ''uvwxyz''
    @ ''!#$%&()*+-'' @ '';<=>?@^_'' @ [CHR 0x60, CHR ''{''] @ ''|}~''"

text \<open>\<open>prep_base85\<close> fills a table of zeroes; entry \<open>ch\<close> is one more than the digit.\<close>

definition de85 :: "int list" where
  "de85 = fold (\<lambda>i tab. tab[of_char (en85 ! i) := int (i + 1)]) [0..<length en85] (replicate 256 0)"

text \<open>Four digits, then the fifth with the overflow tests; \<open>None\<close> is \<open>error()\<close>.\<close>

fun decode_85_digits :: "nat \<Rightarrow> u32 \<Rightarrow> string \<Rightarrow> (u32 \<times> string) option" where
  "decode_85_digits 0 acc buffer = Some (acc, buffer)"
| "decode_85_digits (Suc cnt) acc buffer =
     (let de = de85 ! of_char (cstr_hd buffer) - 1 in
      if de < 0 then None
      else decode_85_digits cnt (acc * 85 + word_of_int de) (tl buffer))"

definition decode_85_acc :: "string \<Rightarrow> (u32 \<times> string) option" where
  "decode_85_acc buffer =
     (case decode_85_digits 4 0 buffer of None \<Rightarrow> None
      | Some (acc, buffer) \<Rightarrow>
          let de = de85 ! of_char (cstr_hd buffer) - 1 in
          if de < 0 then None
          else if 0xffffffff div 85 < acc \<or> 0xffffffff - word_of_int de < acc * 85 then None
          else Some (acc * 85 + word_of_int de, tl buffer))"

fun decode_85_bytes :: "nat \<Rightarrow> u32 \<Rightarrow> byte list" where
  "decode_85_bytes 0 acc = []"
| "decode_85_bytes (Suc cnt) acc =
     (let acc = push_bit 8 acc OR drop_bit 24 acc in ucast acc # decode_85_bytes cnt acc)"

function decode_85 :: "string \<Rightarrow> nat \<Rightarrow> byte list option" where
  "decode_85 buffer len =
     (if len = 0 then Some []
      else case decode_85_acc buffer of None \<Rightarrow> None
        | Some (acc, buffer) \<Rightarrow>
            let cnt = (if len < 4 then len else 4) in
            (case decode_85 buffer (len - cnt) of None \<Rightarrow> None
             | Some dst \<Rightarrow> Some (decode_85_bytes cnt acc @ dst)))"
  by pat_completeness auto
termination
  by (relation "measure snd") auto

declare decode_85.simps [simp del]

fun encode_85_gather :: "nat list \<Rightarrow> byte list \<Rightarrow> u32 \<Rightarrow> u32 \<times> byte list" where
  "encode_85_gather (cnt # cnts) (ch # data) acc =
     (let acc = acc OR push_bit cnt (ucast ch) in
      if data = [] then (acc, []) else encode_85_gather cnts data acc)"
| "encode_85_gather _ data acc = (acc, data)"

fun encode_85_digits :: "nat \<Rightarrow> u32 \<Rightarrow> string \<Rightarrow> string" where
  "encode_85_digits 0 acc buf = buf"
| "encode_85_digits (Suc cnt) acc buf =
     encode_85_digits cnt (acc div 85) (en85 ! unat (acc mod 85) # buf)"

lemma length_encode_85_gather:
  "length (snd (encode_85_gather cnts data acc)) \<le> length data"
  by (induction cnts data acc rule: encode_85_gather.induct) (auto simp: Let_def)

function encode_85 :: "byte list \<Rightarrow> string" where
  "encode_85 data =
     (if data = [] then []
      else let (acc, data) = encode_85_gather [24, 16, 8, 0] data 0
        in encode_85_digits 5 acc [] @ encode_85 data)"
  by pat_completeness auto
termination
proof (relation "measure length", goal_cases)
  case (2 data x acc data')
  then obtain ch d where "data = ch # d" by (cases data) auto
  with 2 show ?case
    using length_encode_85_gather [of "[16, 8, 0]" d "push_bit 24 (ucast ch)"]
    by (auto simp: Let_def less_Suc_eq_le split: if_splits dest: arg_cong [where f = snd])
qed simp

declare encode_85.simps [simp del]

subsection \<open>The digit tables\<close>

text \<open>A table filled in a loop over distinct positions.\<close>

lemma fold_fill_length [simp]: "length (fold (\<lambda>i tab. tab[p i := f i]) is tab) = length tab"
  by (induction "is" arbitrary: tab) auto

lemma fold_fill_nth:
  "inj_on p {..<k} \<Longrightarrow> d < k \<Longrightarrow> p d < length tab
    \<Longrightarrow> fold (\<lambda>i tab. tab[p i := f i]) [0..<k] tab ! p d = f d"
proof (induction k)
  case 0
  then show ?case by simp
next
  case (Suc k)
  show ?case
  proof (cases "d = k")
    case True
    with Suc.prems show ?thesis by simp
  next
    case False
    with Suc.prems have "p d \<noteq> p k" by (auto simp: inj_on_def)
    with Suc False show ?thesis by (simp add: inj_on_subset [of p "{..<Suc k}"])
  qed
qed

lemma fold_fill_bound:
  "(\<And>i. i < k \<Longrightarrow> f i \<le> m) \<Longrightarrow> (\<And>j. j < length tab \<Longrightarrow> tab ! j \<le> m) \<Longrightarrow> j < length tab
    \<Longrightarrow> fold (\<lambda>i tab. tab[p i := f i]) [0..<k] tab ! j \<le> (m :: int)"
proof (induction k)
  case (Suc k)
  then show ?case by (cases "p k = j") simp_all
qed simp

lemma length_en85: "length en85 = 85"
  by (simp add: en85_def)

lemma distinct_en85: "distinct en85"
  by code_simp

lemma de85_en85: "d < 85 \<Longrightarrow> de85 ! of_char (en85 ! d) = int d + 1"
  unfolding de85_def
  using fold_fill_nth [of "\<lambda>i. of_char (en85 ! i)" "length en85" d "replicate 256 0" "\<lambda>i. int (i + 1)"]
    distinct_en85 by (simp add: length_en85 inj_on_def nth_eq_iff_index_eq)

lemma de85_bound: "de85 ! of_char c \<le> 85"
  unfolding de85_def by (rule fold_fill_bound) (auto simp: length_en85)


subsection \<open>Five digits and a 32-bit number\<close>

text \<open>The number a list of digits stands for, most significant digit first.\<close>

definition value_85 :: "nat list \<Rightarrow> nat" where
  "value_85 ds = foldl (\<lambda>acc d. acc * 85 + d) 0 ds"

lemma foldl_85: "foldl (\<lambda>acc d. acc * 85 + d) (a :: nat) ds = a * 85 ^ length ds + value_85 ds"
proof (induction ds arbitrary: a rule: rev_induct)
  case (snoc d ds)
  from snoc [of a] snoc [of 0] show ?case by (simp add: value_85_def algebra_simps)
qed (simp add: value_85_def)

lemma value_85_bound: "\<forall>d \<in> set ds. d < 85 \<Longrightarrow> value_85 ds < 85 ^ length ds"
proof (induction ds rule: rev_induct)
  case (snoc d ds)
  then have "value_85 ds + 1 \<le> 85 ^ length ds" "d < 85" by auto
  moreover have "value_85 (ds @ [d]) = value_85 ds * 85 + d" by (simp add: value_85_def)
  ultimately show ?case by (simp add: algebra_simps)
qed (simp add: value_85_def)

definition chars_85 :: "nat list \<Rightarrow> string" where
  "chars_85 ds = map (\<lambda>d. en85 ! d) ds"

lemma decode_85_digits_spec:
  assumes "\<forall>d \<in> set ds. d < 85" "unat acc * 85 ^ length ds + value_85 ds < 2 ^ 32"
  shows "decode_85_digits (length ds) acc (chars_85 ds @ rest)
    = Some (of_nat (unat acc * 85 ^ length ds + value_85 ds), rest)"
  using assms
proof (induction ds arbitrary: acc)
  case Nil
  then show ?case by (simp add: chars_85_def value_85_def)
next
  case (Cons d ds)
  have v: "unat acc * 85 ^ length (d # ds) + value_85 (d # ds)
      = (unat acc * 85 + d) * 85 ^ length ds + value_85 ds"
    using foldl_85 [of d ds] by (simp add: value_85_def algebra_simps)
  have le: "unat acc * 85 + d \<le> (unat acc * 85 + d) * 85 ^ length ds" by simp
  then have small: "unat acc * 85 + d < 2 ^ 32" using Cons.prems(2) v by linarith
  have "acc * 85 + of_nat d = of_nat (unat acc * 85 + d)" by simp
  then have u: "unat (acc * 85 + of_nat d) = unat acc * 85 + d"
    using unat_of_nat_small [of "unat acc * 85 + d", where 'a = 32] small by simp
  from Cons.prems Cons.IH [of "acc * 85 + of_nat d"] u v show ?case
    by (simp add: chars_85_def de85_en85 Let_def)
qed

lemma decode_85_acc_spec:
  assumes "\<forall>d \<in> set ds. d < 85" "length ds = 5"
  shows "decode_85_acc (chars_85 ds @ rest)
    = (if value_85 ds < 2 ^ 32 then Some (of_nat (value_85 ds), rest) else None)"
proof -
  obtain es e where ds: "ds = es @ [e]" and es: "length es = 4"
    using assms(2) by (cases ds rule: rev_cases) auto
  have d: "\<forall>d \<in> set es. d < 85" "e < 85" using assms(1) ds by auto
  define a where "a = value_85 es"
  have a: "a < 85 ^ 4" using value_85_bound [OF d(1)] es a_def by simp
  have v: "value_85 ds = a * 85 + e" by (simp add: ds a_def value_85_def)
  let ?acc = "of_nat a :: u32"
  have ua: "unat ?acc = a" using a by (intro unat_of_nat_small) simp
  have first: "decode_85_digits 4 0 (chars_85 ds @ rest) = Some (?acc, en85 ! e # rest)"
    using decode_85_digits_spec [OF d(1), of 0 "en85 ! e # rest"] es a
    by (simp add: ds chars_85_def a_def)
  have mx: "unat (0xffffffff div 85 :: u32) = 50529027" by simp
  have ue: "unat (of_nat e :: u32) = e" using d by (intro unat_of_nat_small) simp
  have t1: "(0xffffffff div 85 :: u32) < ?acc \<longleftrightarrow> 50529027 < a"
    by (simp only: word_less_nat_alt mx ua)
  have t2: "(0xffffffff - of_nat e :: u32) < ?acc * 85 \<longleftrightarrow> 2 ^ 32 - 1 - e < a * 85"
    if "a \<le> 50529027"
  proof -
    have "unat (?acc * 85) = a * 85" using that ua by (simp add: unat_word_ariths)
    moreover have "unat (0xffffffff - of_nat e :: u32) = 2 ^ 32 - 1 - e"
      using ue d by (subst unat_sub) (simp_all add: word_le_nat_alt)
    ultimately show ?thesis by (simp only: word_less_nat_alt)
  qed
  have "\<not> (0xffffffff div 85 < ?acc \<or> 0xffffffff - of_nat e < ?acc * 85) \<longleftrightarrow> value_85 ds < 2 ^ 32"
  proof (cases "a \<le> 50529027")
    case True
    then show ?thesis unfolding t1 t2 [OF True] v using d by auto
  next
    case False
    then show ?thesis unfolding t1 v by simp
  qed
  then show ?thesis
    using d by (auto simp: decode_85_acc_def first de85_en85 Let_def v)
qed

text \<open>The encoder writes the five digits of the accumulator.\<close>

lemma encode_85_digits_spec:
  "\<exists>ds. encode_85_digits n acc buf = chars_85 ds @ buf \<and> length ds = n
     \<and> (\<forall>d \<in> set ds. d < 85) \<and> value_85 ds = unat acc mod 85 ^ n"
proof (induction n arbitrary: acc buf)
  case 0
  show ?case by (simp add: chars_85_def value_85_def)
next
  case (Suc n)
  let ?e = "unat acc mod 85"
  from Suc obtain ds where ds: "encode_85_digits n (acc div 85) (en85 ! ?e # buf) = chars_85 ds @ en85 ! ?e # buf"
    "length ds = n" "\<forall>d \<in> set ds. d < 85" "value_85 ds = unat (acc div 85) mod 85 ^ n" by blast
  have "value_85 (ds @ [?e]) = value_85 ds * 85 + ?e" by (simp add: value_85_def)
  also have "\<dots> = unat acc mod 85 ^ Suc n"
    using ds(4) by (simp add: unat_div mod_mult2_eq mult.commute)
  finally show ?case
    using ds by (intro exI [of _ "ds @ [?e]"]) (simp add: chars_85_def unat_mod)
qed

lemma decode_encode_acc:
  "decode_85_acc (encode_85_digits 5 acc [] @ rest) = Some (acc, rest)"
proof -
  obtain ds where ds: "encode_85_digits 5 acc [] = chars_85 ds" "length ds = 5"
    "\<forall>d \<in> set ds. d < 85" "value_85 ds = unat acc mod 85 ^ 5"
    using encode_85_digits_spec [of 5 acc "[]"] by auto
  have "unat acc < 2 ^ 32" using unat_lt_size [of acc] by simp
  with ds decode_85_acc_spec [OF ds(3,2), of rest] show ?thesis by simp
qed

subsection \<open>Four bytes and a 32-bit number\<close>

lemma decode_85_bytes_numeral:
  "decode_85_bytes (numeral n) acc = (let acc = push_bit 8 acc OR drop_bit 24 acc in
     ucast acc # decode_85_bytes (pred_numeral n) acc)"
  by (simp add: numeral_eq_Suc)

lemma rotated_bytes:
  "decode_85_bytes 4 acc = [ucast (drop_bit 24 acc), ucast (drop_bit 16 acc), ucast (drop_bit 8 acc), ucast acc]"
  "decode_85_bytes 3 acc = [ucast (drop_bit 24 acc), ucast (drop_bit 16 acc), ucast (drop_bit 8 acc)]"
  "decode_85_bytes 2 acc = [ucast (drop_bit 24 acc), ucast (drop_bit 16 acc)]"
  "decode_85_bytes 1 acc = [ucast (drop_bit 24 acc)]"
proof -
  define r where "r acc = push_bit 8 acc OR drop_bit 24 acc" for acc :: u32
  have "ucast (r acc) = (ucast (drop_bit 24 acc) :: byte)"
    "ucast (r (r acc)) = (ucast (drop_bit 16 acc) :: byte)"
    "ucast (r (r (r acc))) = (ucast (drop_bit 8 acc) :: byte)"
    "ucast (r (r (r (r acc)))) = (ucast acc :: byte)"
    unfolding r_def by (rule bit_eqI, auto simp: bit_simps dest: bit_imp_le_length)+
  then show "decode_85_bytes 4 acc = [ucast (drop_bit 24 acc), ucast (drop_bit 16 acc), ucast (drop_bit 8 acc), ucast acc]"
    "decode_85_bytes 3 acc = [ucast (drop_bit 24 acc), ucast (drop_bit 16 acc), ucast (drop_bit 8 acc)]"
    "decode_85_bytes 2 acc = [ucast (drop_bit 24 acc), ucast (drop_bit 16 acc)]"
    "decode_85_bytes 1 acc = [ucast (drop_bit 24 acc)]"
    by (simp_all add: decode_85_bytes_numeral Let_def flip: r_def)
qed

declare decode_85_bytes.simps [simp del]

lemmas rotated_bytes_Suc = rotated_bytes(2) [unfolded numeral_3_eq_3]
  rotated_bytes(3) [unfolded numeral_2_eq_2] rotated_bytes(4) [unfolded One_nat_def]

lemma gathered_bytes:
  fixes a b c d :: byte
  defines "w \<equiv> push_bit 24 (ucast a) OR push_bit 16 (ucast b) OR push_bit 8 (ucast c) OR ucast d :: u32"
  shows "ucast (drop_bit 24 w) = a" "ucast (drop_bit 16 w) = b" "ucast (drop_bit 8 w) = c" "ucast w = d"
  unfolding w_def by (rule bit_eqI, auto simp: bit_simps dest: bit_imp_le_length)+

lemma decode_85_group:
  "0 < len \<Longrightarrow> decode_85 (encode_85_digits 5 acc [] @ rest) len =
     (let cnt = (if len < 4 then len else 4) in
      case decode_85 rest (len - cnt) of None \<Rightarrow> None
      | Some dst \<Rightarrow> Some (decode_85_bytes cnt acc @ dst))"
  by (subst decode_85.simps) (simp add: decode_encode_acc Let_def)

lemma decode_85_encode_85: "decode_85 (encode_85 data) (length data) = Some data"
proof (induction data rule: encode_85.induct)
  case (1 data)
  have stop: "decode_85 s 0 = Some []" for s by (simp add: decode_85.simps)
  have enc: "encode_85 [] = []" by (simp add: encode_85.simps)
  note last = decode_85_group [where rest = "[]", simplified]
  consider "data = []" | a where "data = [a]" | a b where "data = [a, b]"
    | a b c where "data = [a, b, c]" | a b c d rest where "data = a # b # c # d # rest"
    by (metis neq_Nil_conv)
  then show ?case
  proof cases
    case 1
    then show ?thesis by (simp add: stop)
  next
    case 2
    with gathered_bytes [of a 0 0 0] show ?thesis
      by (subst encode_85.simps) (simp add: enc stop Let_def last rotated_bytes_Suc)
  next
    case 3
    with gathered_bytes [of a b 0 0] show ?thesis
      by (subst encode_85.simps) (simp add: enc stop Let_def last rotated_bytes_Suc)
  next
    case 4
    with gathered_bytes [of a b c 0] show ?thesis
      by (subst encode_85.simps) (simp add: enc stop Let_def last rotated_bytes_Suc or.assoc)
  next
    case 5
    then have "decode_85 (encode_85 rest) (length rest) = Some rest"
      using 1 by (simp add: Let_def)
    with 5 gathered_bytes [of a b c d] show ?thesis
      by (subst encode_85.simps) (simp add: enc stop Let_def last decode_85_group rotated_bytes or.assoc)
  qed
qed

subsection \<open>Properties\<close>

text \<open>Binary patches survive their base-85 armour: decoding the encoding of any byte string
  gives the string back.\<close>

theorem base85_roundtrip: "decode_85 (encode_85 data) (length data) = Some data"
  by (rule decode_85_encode_85)

text \<open>The decoder of one five-digit group accepts it exactly when its value fits 32 bits; the
  overflow test before the last multiplication and addition misses nothing and refuses nothing
  else.\<close>

theorem decode_85_group_overflow:
  assumes "length ds = 5" "\<forall>d \<in> set ds. d < 85"
  shows "decode_85_acc (map (\<lambda>d. en85 ! d) ds @ rest) =
    (let v = foldl (\<lambda>acc d. acc * 85 + d) 0 ds in
     if v < 2 ^ 32 then Some (word_of_nat v, rest) else None)"
  using decode_85_acc_spec [OF assms(2,1)] by (simp add: Let_def chars_85_def value_85_def)

theorem decode_85_group_overflow_witness:
  "decode_85_acc (map (\<lambda>d. en85 ! d) [82, 23, 54, 12, 0] @ [])
    = (if (4294967295 :: nat) < 2 ^ 32 then Some (word_of_nat 4294967295, []) else None)"
  using decode_85_group_overflow [of "[82, 23, 54, 12, 0]" "[]"] by simp

end
