(* ===== verification/Rabin.thy ===== *)
theory Rabin
  imports Git_Prelude
begin

text \<open>
  The rolling hash of \<^verbatim>\<open>diff-delta.c\<close>: a Rabin polynomial over a window
  of sixteen bytes, with the tables \<open>T\<close> (reduction of the bits shifted out) and
  \<open>U\<close> (the contribution of the byte that leaves the window). Both tables are
  copied from the source. The main fact is that sliding the window with \<open>U\<close> gives
  the hash of the new window, and that the index into \<open>T\<close> stays below 256.
\<close>

definition RABIN_WINDOW :: nat where "RABIN_WINDOW = 16"

definition T :: "u32 list" where
  "T = [
     0x00000000, 0xab59b4d1, 0x56b369a2, 0xfdeadd73, 0x063f6795, 0xad66d344,
     0x508c0e37, 0xfbd5bae6, 0x0c7ecf2a, 0xa7277bfb, 0x5acda688, 0xf1941259,
     0x0a41a8bf, 0xa1181c6e, 0x5cf2c11d, 0xf7ab75cc, 0x18fd9e54, 0xb3a42a85,
     0x4e4ef7f6, 0xe5174327, 0x1ec2f9c1, 0xb59b4d10, 0x48719063, 0xe32824b2,
     0x1483517e, 0xbfdae5af, 0x423038dc, 0xe9698c0d, 0x12bc36eb, 0xb9e5823a,
     0x440f5f49, 0xef56eb98, 0x31fb3ca8, 0x9aa28879, 0x6748550a, 0xcc11e1db,
     0x37c45b3d, 0x9c9defec, 0x6177329f, 0xca2e864e, 0x3d85f382, 0x96dc4753,
     0x6b369a20, 0xc06f2ef1, 0x3bba9417, 0x90e320c6, 0x6d09fdb5, 0xc6504964,
     0x2906a2fc, 0x825f162d, 0x7fb5cb5e, 0xd4ec7f8f, 0x2f39c569, 0x846071b8,
     0x798aaccb, 0xd2d3181a, 0x25786dd6, 0x8e21d907, 0x73cb0474, 0xd892b0a5,
     0x23470a43, 0x881ebe92, 0x75f463e1, 0xdeadd730, 0x63f67950, 0xc8afcd81,
     0x354510f2, 0x9e1ca423, 0x65c91ec5, 0xce90aa14, 0x337a7767, 0x9823c3b6,
     0x6f88b67a, 0xc4d102ab, 0x393bdfd8, 0x92626b09, 0x69b7d1ef, 0xc2ee653e,
     0x3f04b84d, 0x945d0c9c, 0x7b0be704, 0xd05253d5, 0x2db88ea6, 0x86e13a77,
     0x7d348091, 0xd66d3440, 0x2b87e933, 0x80de5de2, 0x7775282e, 0xdc2c9cff,
     0x21c6418c, 0x8a9ff55d, 0x714a4fbb, 0xda13fb6a, 0x27f92619, 0x8ca092c8,
     0x520d45f8, 0xf954f129, 0x04be2c5a, 0xafe7988b, 0x5432226d, 0xff6b96bc,
     0x02814bcf, 0xa9d8ff1e, 0x5e738ad2, 0xf52a3e03, 0x08c0e370, 0xa39957a1,
     0x584ced47, 0xf3155996, 0x0eff84e5, 0xa5a63034, 0x4af0dbac, 0xe1a96f7d,
     0x1c43b20e, 0xb71a06df, 0x4ccfbc39, 0xe79608e8, 0x1a7cd59b, 0xb125614a,
     0x468e1486, 0xedd7a057, 0x103d7d24, 0xbb64c9f5, 0x40b17313, 0xebe8c7c2,
     0x16021ab1, 0xbd5bae60, 0x6cb54671, 0xc7ecf2a0, 0x3a062fd3, 0x915f9b02,
     0x6a8a21e4, 0xc1d39535, 0x3c394846, 0x9760fc97, 0x60cb895b, 0xcb923d8a,
     0x3678e0f9, 0x9d215428, 0x66f4eece, 0xcdad5a1f, 0x3047876c, 0x9b1e33bd,
     0x7448d825, 0xdf116cf4, 0x22fbb187, 0x89a20556, 0x7277bfb0, 0xd92e0b61,
     0x24c4d612, 0x8f9d62c3, 0x7836170f, 0xd36fa3de, 0x2e857ead, 0x85dcca7c,
     0x7e09709a, 0xd550c44b, 0x28ba1938, 0x83e3ade9, 0x5d4e7ad9, 0xf617ce08,
     0x0bfd137b, 0xa0a4a7aa, 0x5b711d4c, 0xf028a99d, 0x0dc274ee, 0xa69bc03f,
     0x5130b5f3, 0xfa690122, 0x0783dc51, 0xacda6880, 0x570fd266, 0xfc5666b7,
     0x01bcbbc4, 0xaae50f15, 0x45b3e48d, 0xeeea505c, 0x13008d2f, 0xb85939fe,
     0x438c8318, 0xe8d537c9, 0x153feaba, 0xbe665e6b, 0x49cd2ba7, 0xe2949f76,
     0x1f7e4205, 0xb427f6d4, 0x4ff24c32, 0xe4abf8e3, 0x19412590, 0xb2189141,
     0x0f433f21, 0xa41a8bf0, 0x59f05683, 0xf2a9e252, 0x097c58b4, 0xa225ec65,
     0x5fcf3116, 0xf49685c7, 0x033df00b, 0xa86444da, 0x558e99a9, 0xfed72d78,
     0x0502979e, 0xae5b234f, 0x53b1fe3c, 0xf8e84aed, 0x17bea175, 0xbce715a4,
     0x410dc8d7, 0xea547c06, 0x1181c6e0, 0xbad87231, 0x4732af42, 0xec6b1b93,
     0x1bc06e5f, 0xb099da8e, 0x4d7307fd, 0xe62ab32c, 0x1dff09ca, 0xb6a6bd1b,
     0x4b4c6068, 0xe015d4b9, 0x3eb80389, 0x95e1b758, 0x680b6a2b, 0xc352defa,
     0x3887641c, 0x93ded0cd, 0x6e340dbe, 0xc56db96f, 0x32c6cca3, 0x999f7872,
     0x6475a501, 0xcf2c11d0, 0x34f9ab36, 0x9fa01fe7, 0x624ac294, 0xc9137645,
     0x26459ddd, 0x8d1c290c, 0x70f6f47f, 0xdbaf40ae, 0x207afa48, 0x8b234e99,
     0x76c993ea, 0xdd90273b, 0x2a3b52f7, 0x8162e626, 0x7c883b55, 0xd7d18f84,
     0x2c043562, 0x875d81b3, 0x7ab75cc0, 0xd1eee811]"

definition U :: "u32 list" where
  "U = [
     0x00000000, 0x7eb5200d, 0x5633f4cb, 0x2886d4c6, 0x073e5d47, 0x798b7d4a,
     0x510da98c, 0x2fb88981, 0x0e7cba8e, 0x70c99a83, 0x584f4e45, 0x26fa6e48,
     0x0942e7c9, 0x77f7c7c4, 0x5f711302, 0x21c4330f, 0x1cf9751c, 0x624c5511,
     0x4aca81d7, 0x347fa1da, 0x1bc7285b, 0x65720856, 0x4df4dc90, 0x3341fc9d,
     0x1285cf92, 0x6c30ef9f, 0x44b63b59, 0x3a031b54, 0x15bb92d5, 0x6b0eb2d8,
     0x4388661e, 0x3d3d4613, 0x39f2ea38, 0x4747ca35, 0x6fc11ef3, 0x11743efe,
     0x3eccb77f, 0x40799772, 0x68ff43b4, 0x164a63b9, 0x378e50b6, 0x493b70bb,
     0x61bda47d, 0x1f088470, 0x30b00df1, 0x4e052dfc, 0x6683f93a, 0x1836d937,
     0x250b9f24, 0x5bbebf29, 0x73386bef, 0x0d8d4be2, 0x2235c263, 0x5c80e26e,
     0x740636a8, 0x0ab316a5, 0x2b7725aa, 0x55c205a7, 0x7d44d161, 0x03f1f16c,
     0x2c4978ed, 0x52fc58e0, 0x7a7a8c26, 0x04cfac2b, 0x73e5d470, 0x0d50f47d,
     0x25d620bb, 0x5b6300b6, 0x74db8937, 0x0a6ea93a, 0x22e87dfc, 0x5c5d5df1,
     0x7d996efe, 0x032c4ef3, 0x2baa9a35, 0x551fba38, 0x7aa733b9, 0x041213b4,
     0x2c94c772, 0x5221e77f, 0x6f1ca16c, 0x11a98161, 0x392f55a7, 0x479a75aa,
     0x6822fc2b, 0x1697dc26, 0x3e1108e0, 0x40a428ed, 0x61601be2, 0x1fd53bef,
     0x3753ef29, 0x49e6cf24, 0x665e46a5, 0x18eb66a8, 0x306db26e, 0x4ed89263,
     0x4a173e48, 0x34a21e45, 0x1c24ca83, 0x6291ea8e, 0x4d29630f, 0x339c4302,
     0x1b1a97c4, 0x65afb7c9, 0x446b84c6, 0x3adea4cb, 0x1258700d, 0x6ced5000,
     0x4355d981, 0x3de0f98c, 0x15662d4a, 0x6bd30d47, 0x56ee4b54, 0x285b6b59,
     0x00ddbf9f, 0x7e689f92, 0x51d01613, 0x2f65361e, 0x07e3e2d8, 0x7956c2d5,
     0x5892f1da, 0x2627d1d7, 0x0ea10511, 0x7014251c, 0x5facac9d, 0x21198c90,
     0x099f5856, 0x772a785b, 0x4c921c31, 0x32273c3c, 0x1aa1e8fa, 0x6414c8f7,
     0x4bac4176, 0x3519617b, 0x1d9fb5bd, 0x632a95b0, 0x42eea6bf, 0x3c5b86b2,
     0x14dd5274, 0x6a687279, 0x45d0fbf8, 0x3b65dbf5, 0x13e30f33, 0x6d562f3e,
     0x506b692d, 0x2ede4920, 0x06589de6, 0x78edbdeb, 0x5755346a, 0x29e01467,
     0x0166c0a1, 0x7fd3e0ac, 0x5e17d3a3, 0x20a2f3ae, 0x08242768, 0x76910765,
     0x59298ee4, 0x279caee9, 0x0f1a7a2f, 0x71af5a22, 0x7560f609, 0x0bd5d604,
     0x235302c2, 0x5de622cf, 0x725eab4e, 0x0ceb8b43, 0x246d5f85, 0x5ad87f88,
     0x7b1c4c87, 0x05a96c8a, 0x2d2fb84c, 0x539a9841, 0x7c2211c0, 0x029731cd,
     0x2a11e50b, 0x54a4c506, 0x69998315, 0x172ca318, 0x3faa77de, 0x411f57d3,
     0x6ea7de52, 0x1012fe5f, 0x38942a99, 0x46210a94, 0x67e5399b, 0x19501996,
     0x31d6cd50, 0x4f63ed5d, 0x60db64dc, 0x1e6e44d1, 0x36e89017, 0x485db01a,
     0x3f77c841, 0x41c2e84c, 0x69443c8a, 0x17f11c87, 0x38499506, 0x46fcb50b,
     0x6e7a61cd, 0x10cf41c0, 0x310b72cf, 0x4fbe52c2, 0x67388604, 0x198da609,
     0x36352f88, 0x48800f85, 0x6006db43, 0x1eb3fb4e, 0x238ebd5d, 0x5d3b9d50,
     0x75bd4996, 0x0b08699b, 0x24b0e01a, 0x5a05c017, 0x728314d1, 0x0c3634dc,
     0x2df207d3, 0x534727de, 0x7bc1f318, 0x0574d315, 0x2acc5a94, 0x54797a99,
     0x7cffae5f, 0x024a8e52, 0x06852279, 0x78300274, 0x50b6d6b2, 0x2e03f6bf,
     0x01bb7f3e, 0x7f0e5f33, 0x57888bf5, 0x293dabf8, 0x08f998f7, 0x764cb8fa,
     0x5eca6c3c, 0x207f4c31, 0x0fc7c5b0, 0x7172e5bd, 0x59f4317b, 0x27411176,
     0x1a7c5765, 0x64c97768, 0x4c4fa3ae, 0x32fa83a3, 0x1d420a22, 0x63f72a2f,
     0x4b71fee9, 0x35c4dee4, 0x1400edeb, 0x6ab5cde6, 0x42331920, 0x3c86392d,
     0x133eb0ac, 0x6d8b90a1, 0x450d4467, 0x3bb8646a]"

text \<open>
  \<open>val = ((val << 8) | *data) ^ T[val >> RABIN_SHIFT]\<close> and the loop over a block.
\<close>

definition rabin_step :: "u32 \<Rightarrow> byte \<Rightarrow> u32" where
  "rabin_step val c = (push_bit 8 val OR ucast c) XOR T ! unat (drop_bit 23 val)"

definition rabin_hash :: "byte list \<Rightarrow> u32" where
  "rabin_hash block = foldl rabin_step 0 block"

text \<open>\<open>val ^= U[data[-RABIN_WINDOW]]\<close>, then one step with the new byte.\<close>

definition rabin_roll :: "u32 \<Rightarrow> byte \<Rightarrow> byte \<Rightarrow> u32" where
  "rabin_roll val old new = rabin_step (val XOR U ! unat old) new"

subsection \<open>Linear tables\<close>

text \<open>The XOR of the basis elements that a byte selects.\<close>

fun lin :: "u32 list \<Rightarrow> byte \<Rightarrow> u32" where
  "lin [] w = 0"
| "lin (b # bs) w = (if bit w 0 then b else 0) XOR lin bs (drop_bit 1 w)"

definition T_basis :: "u32 list" where
  "T_basis = [0xab59b4d1, 0x56b369a2, 0x063f6795, 0x0c7ecf2a, 0x18fd9e54, 0x31fb3ca8, 0x63f67950, 0x6cb54671]"

definition U_basis :: "u32 list" where
  "U_basis = [0x7eb5200d, 0x5633f4cb, 0x073e5d47, 0x0e7cba8e, 0x1cf9751c, 0x39f2ea38, 0x73e5d470, 0x4c921c31]"

lemma lin_xor: "lin bs (v XOR w) = lin bs v XOR lin bs w"
  by (induction bs arbitrary: v w)
     (auto simp: drop_bit_xor bit_xor_iff ac_simps simp del: bit_0)

text \<open>The table of all bytes doubles with every basis element.\<close>

definition lin_table :: "u32 list \<Rightarrow> u32 list" where
  "lin_table bs = foldl (\<lambda>tab b. tab @ map (\<lambda>x. x XOR b) tab) [0] bs"

lemma lin_snoc: "lin (bs @ [b]) w = lin bs w XOR (if bit w (length bs) then b else 0)"
  by (induction bs arbitrary: w) (auto simp: bit_simps ac_simps simp del: bit_0)

lemma lin_cong:
  "(\<And>k. k < length bs \<Longrightarrow> bit v k = bit w k) \<Longrightarrow> lin bs v = lin bs w"
proof (induction bs arbitrary: v w)
  case (Cons b bs)
  have "lin bs (drop_bit 1 v) = lin bs (drop_bit 1 w)"
    using Cons.prems by (intro Cons.IH) (simp add: bit_simps)
  moreover have "bit v 0 = bit w 0" using Cons.prems [of 0] by simp
  ultimately show ?case by (simp only: lin.simps)
qed simp

lemma length_lin_table: "length (lin_table bs) = 2 ^ length bs"
  by (induction bs rule: rev_induct) (simp_all add: lin_table_def)

lemma nth_lin_table:
  "length bs \<le> 8 \<Longrightarrow> n < 2 ^ length bs \<Longrightarrow> lin_table bs ! n = lin bs (of_nat n)"
proof (induction bs arbitrary: n rule: rev_induct)
  case Nil
  then show ?case by (simp add: lin_table_def)
next
  case (snoc b bs)
  let ?k = "length bs"
  have tab: "lin_table (bs @ [b]) = lin_table bs @ map (\<lambda>x. x XOR b) (lin_table bs)"
    by (simp add: lin_table_def)
  have bit_n: "bit (of_nat m :: byte) j \<longleftrightarrow> bit m j" if "j < 8" for m j
    using that by (simp add: bit_simps)
  show ?case
  proof (cases "n < 2 ^ ?k")
    case True
    then have "\<not> bit n ?k" by (simp add: bit_iff_odd)
    with True snoc show ?thesis
      by (simp add: tab nth_append length_lin_table lin_snoc bit_n)
  next
    case False
    define m where "m = n - 2 ^ ?k"
    have n: "n = m + 2 ^ ?k" "m < 2 ^ ?k" using False snoc.prems by (auto simp: m_def)
    have "n div 2 ^ ?k = 1" using n by (simp add: div_add_self2)
    then have hi: "bit n ?k" by (simp add: bit_iff_odd)
    have "bit n j = bit m j" if "j < ?k" for j
    proof -
      have "take_bit ?k n = take_bit ?k m" using n by (simp add: take_bit_eq_mod)
      with that show ?thesis by (metis bit_take_bit_iff)
    qed
    then have "lin bs (of_nat n) = lin bs (of_nat m)"
      using snoc.prems by (intro lin_cong) (simp add: bit_n)
    moreover have "lin_table (bs @ [b]) ! n = lin_table bs ! m XOR b"
      using n by (simp add: tab nth_append length_lin_table)
    moreover have "bit (of_nat n :: byte) ?k" using hi bit_n [of ?k n] snoc.prems by simp
    ultimately show ?thesis using n snoc by (simp only: lin_snoc if_True) simp
  qed
qed

lemma T_lin_table: "T = lin_table T_basis"
  by (simp add: T_def T_basis_def lin_table_def)

lemma U_lin_table: "U = lin_table U_basis"
  by (simp add: U_def U_basis_def lin_table_def)

lemma T_nth: "T ! unat w = lin T_basis w" and U_nth: "U ! unat w = lin U_basis w"
  using byte_bound [of w]
  by (simp_all add: T_lin_table U_lin_table nth_lin_table T_basis_def U_basis_def)

subsection \<open>The step as a linear map\<close>

text \<open>One step without the new byte, on words whose top bit is clear.\<close>

definition rabin_shift :: "u32 \<Rightarrow> u32" where
  "rabin_shift val = push_bit 8 val XOR lin T_basis (ucast (drop_bit 23 val))"

lemma rabin_shift_xor: "rabin_shift (x XOR y) = rabin_shift x XOR rabin_shift y"
  by (simp add: rabin_shift_def push_bit_xor drop_bit_xor unsigned_xor_eq lin_xor ac_simps)

lemma rabin_shift_0 [simp]: "rabin_shift 0 = 0"
  using rabin_shift_xor [of 0 0] by simp

lemma unat_top_bits:
  assumes "unat (val :: u32) < 2 ^ 31"
  shows "unat (drop_bit 23 val) = unat (ucast (drop_bit 23 val) :: byte)"
    and "unat (drop_bit 23 val) < 256"
proof -
  show b: "unat (drop_bit 23 val) < 256" using assms by (simp add: unat_drop_bit)
  then show "unat (drop_bit 23 val) = unat (ucast (drop_bit 23 val) :: byte)"
    by (simp add: unsigned_ucast_eq take_bit_eq_mod)
qed

lemma rabin_step_eq:
  assumes "unat val < 2 ^ 31"
  shows "rabin_step val c = rabin_shift val XOR ucast c"
proof -
  have "push_bit 8 val OR ucast c = push_bit 8 val XOR (ucast c :: u32)"
    by (rule bit_eqI) (auto simp: bit_simps dest: bit_imp_le_length)
  moreover have "T ! unat (drop_bit 23 val) = lin T_basis (ucast (drop_bit 23 val))"
    by (simp only: unat_top_bits(1) [OF assms] T_nth)
  ultimately show ?thesis by (simp add: rabin_step_def rabin_shift_def ac_simps)
qed

text \<open>The top bit of a table entry cancels the bit that is shifted into the top.\<close>

lemma lin_bit_0: "\<forall>b \<in> set bs. \<not> bit b n \<Longrightarrow> \<not> bit (lin bs v) n"
  by (induction bs arbitrary: v) (auto simp: bit_simps)

lemma lin_T_top: "bit (lin T_basis w) 31 = bit w 0"
proof -
  have "T_basis = hd T_basis # tl T_basis" by (simp add: T_basis_def)
  then have "lin T_basis w = (if bit w 0 then hd T_basis else 0) XOR lin (tl T_basis) (drop_bit 1 w)"
    by (metis lin.simps(2))
  moreover have "bit (hd T_basis) 31" by (simp add: T_basis_def bit_numeral_rec)
  moreover have "\<forall>b \<in> set (tl T_basis). \<not> bit b 31" by (simp add: T_basis_def bit_numeral_rec)
  ultimately show ?thesis by (simp add: bit_xor_iff lin_bit_0 del: bit_0)
qed

lemma small_iff: "unat (v :: u32) < 2 ^ 31 \<longleftrightarrow> \<not> bit v 31"
proof -
  have "unat v div 2 ^ 31 < 2" using unat_lt_size [of v] by simp
  then have "odd (unat v div 2 ^ 31) \<longleftrightarrow> \<not> unat v < 2 ^ 31" by auto
  then show ?thesis by (simp add: bit_iff_odd_unat)
qed

lemmas rabin_step_small_eq = rabin_step_eq [unfolded small_iff]

lemma rabin_shift_small: "\<not> bit v 31 \<Longrightarrow> \<not> bit (rabin_shift v) 31"
  by (auto simp: rabin_shift_def bit_simps lin_T_top simp del: bit_0)

lemma rabin_step_small: "\<not> bit v 31 \<Longrightarrow> \<not> bit (rabin_step v c) 31"
  using rabin_shift_small [of v]
  by (auto simp: rabin_step_small_eq bit_simps dest: bit_imp_le_length)

lemma foldl_rabin_small: "\<not> bit v 31 \<Longrightarrow> \<not> bit (foldl rabin_step v cs) 31"
  by (induction cs arbitrary: v) (simp_all add: rabin_step_small)

lemma rabin_hash_small: "\<not> bit (rabin_hash cs) 31"
  unfolding rabin_hash_def by (rule foldl_rabin_small) simp

subsection \<open>Sliding the window\<close>

lemma foldl_rabin_split:
  "\<not> bit v 31 \<Longrightarrow> \<not> bit w 31
    \<Longrightarrow> foldl rabin_step (v XOR w) cs = (rabin_shift ^^ length cs) v XOR foldl rabin_step w cs"
proof (induction cs arbitrary: v w)
  case (Cons c cs)
  have "\<not> bit (v XOR w) 31" using Cons.prems by (simp add: bit_simps)
  with Cons.prems have "rabin_step (v XOR w) c = rabin_shift v XOR rabin_step w c"
    by (simp add: rabin_step_small_eq rabin_shift_xor ac_simps)
  with Cons.prems Cons.IH [of "rabin_shift v" "rabin_step w c"] show ?case
    by (simp add: rabin_shift_small rabin_step_small funpow_swap1)
qed simp

lemma funpow_rabin_shift_xor:
  "(rabin_shift ^^ n) (x XOR y) = (rabin_shift ^^ n) x XOR (rabin_shift ^^ n) y"
  by (induction n) (simp_all add: rabin_shift_xor)

text \<open>A XOR-linear map on bytes is known from its values on the eight single bits.\<close>

lemma byte_bits: "(w :: byte) = (if bit w 0 then 1 else 0) XOR (if bit w 1 then 2 else 0)
    XOR (if bit w 2 then 4 else 0) XOR (if bit w 3 then 8 else 0) XOR (if bit w 4 then 16 else 0)
    XOR (if bit w 5 then 32 else 0) XOR (if bit w 6 then 64 else 0) XOR (if bit w 7 then 128 else 0)"
  (is "w = ?r")
proof (rule bit_eqI)
  fix n assume "possible_bit TYPE(8 word) n"
  then have "n < 8" by simp
  then consider "n = 0" | "n = 1" | "n = 2" | "n = 3" | "n = 4" | "n = 5" | "n = 6" | "n = 7" by linarith
  then show "bit w n = bit ?r n"
    by cases (simp_all add: bit_xor_iff if_distrib [where f = "\<lambda>x. bit x k" for k] bit_numeral_rec
        del: bit_0)
qed

lemma byte_linear_ext:
  fixes f g :: "byte \<Rightarrow> u32"
  assumes f: "\<And>x y. f (x XOR y) = f x XOR f y" and g: "\<And>x y. g (x XOR y) = g x XOR g y"
    and eq: "\<forall>b \<in> {1, 2, 4, 8, 16, 32, 64, 128}. f b = g b"
  shows "f w = g w"
proof -
  have 0: "f 0 = 0" "g 0 = 0" using f [of 0 0] g [of 0 0] by simp_all
  show ?thesis
    by (subst (1 2) byte_bits)
       (simp only: f g if_distrib [where f = f] if_distrib [where f = g] 0 eq [rule_format] insert_iff simp_thms)
qed

text \<open>The byte that leaves the window has been shifted fifteen times: that is table \<open>U\<close>.\<close>

lemma rabin_shift_numeral:
  "rabin_shift (numeral n) = push_bit 8 (numeral n) XOR lin T_basis (ucast (drop_bit 23 (numeral n :: u32)))"
  "rabin_shift 1 = 256"
  by (simp_all add: rabin_shift_def) (simp add: T_basis_def)

lemma U_basis_shift:
  "b \<in> {1, 2, 4, 8, 16, 32, 64, 128} \<Longrightarrow> (rabin_shift ^^ 15) (ucast (b :: byte)) = lin U_basis b"
proof -
  have "(rabin_shift ^^ 15) x = rabin_shift (rabin_shift (rabin_shift (rabin_shift (rabin_shift
    (rabin_shift (rabin_shift (rabin_shift (rabin_shift (rabin_shift (rabin_shift (rabin_shift
    (rabin_shift (rabin_shift (rabin_shift x))))))))))))))" for x
    by (simp add: eval_nat_numeral)
  note shifts = this rabin_shift_numeral T_basis_def U_basis_def
  show "b \<in> {1, 2, 4, 8, 16, 32, 64, 128} \<Longrightarrow> (rabin_shift ^^ 15) (ucast (b :: byte)) = lin U_basis b"
    by (elim insertE emptyE) (simp_all only: unsigned_1 unsigned_numeral, simp_all add: shifts)
qed

lemma U_shift: "(rabin_shift ^^ 15) (ucast (w :: byte)) = U ! unat w"
  unfolding U_nth
  by (rule byte_linear_ext) (simp_all add: lin_xor unsigned_xor_eq funpow_rabin_shift_xor U_basis_shift
      del: insert_iff)

lemma rabin_roll_hash:
  assumes "length w = 15"
  shows "rabin_roll (rabin_hash (old # w)) old new = rabin_hash (w @ [new])"
proof -
  let ?old = "ucast old :: u32"
  have small: "\<not> bit ?old 31" by (auto simp: bit_simps dest: bit_imp_le_length)
  have "rabin_hash (old # w) = foldl rabin_step (?old XOR 0) w"
    by (simp add: rabin_hash_def rabin_step_small_eq)
  also have "\<dots> = U ! unat old XOR rabin_hash w"
    using foldl_rabin_split [OF small, of 0 w] assms by (simp add: rabin_hash_def U_shift)
  finally show ?thesis
    by (simp add: rabin_roll_def rabin_hash_def ac_simps)
qed

lemma rabin_index_bound: "unat (drop_bit 23 (rabin_hash cs)) < length T"
proof -
  have "unat (rabin_hash cs) < 2 ^ 31" using rabin_hash_small small_iff by blast
  from unat_top_bits(2) [OF this] show ?thesis by (simp add: T_def)
qed

subsection \<open>Properties\<close>

text \<open>Sliding the hash window by one byte with the table \<open>U\<close> gives the hash of the new
  window, computed from scratch with the table \<open>T\<close>, and every index into \<open>T\<close> is in
  bounds.\<close>

theorem rabin_window_slides:
  assumes "length w = RABIN_WINDOW - 1"
  shows "rabin_roll (rabin_hash (old # w)) old new = rabin_hash (w @ [new])
    \<and> unat (drop_bit 23 (rabin_hash (old # w))) < length T"
  using assms by (simp only: RABIN_WINDOW_def) (simp add: rabin_roll_hash rabin_index_bound)

theorem rabin_window_slides_witness:
  "rabin_roll (rabin_hash (3 # replicate 15 1)) 3 5 = rabin_hash (replicate 15 1 @ [5])
    \<and> unat (drop_bit 23 (rabin_hash (3 # replicate 15 1))) < length T"
  by (rule rabin_window_slides) (simp add: RABIN_WINDOW_def)

end
