(* ===== verification/Delta_Index.thy ===== *)
theory Delta_Index
  imports Rabin "HOL-Library.Sublist"
begin

text \<open>
  \<open>create_delta_index\<close> of \<^verbatim>\<open>diff-delta.c\<close>: the blocks of sixteen bytes of the
  source buffer, hashed into buckets. A bucket's linked list is a HOL list; the packed index
  is, as in the C code, one array of entries and an array of offsets with a sentinel. Memory
  allocation does not fail in the model. \<open>Overrun\<close> stands for a NULL dereference in
  the culling loop and for a failed \<open>assert\<close>; the theorems show it does not occur.
\<close>

record index_entry =
  ie_ptr :: nat    \<comment> \<open>offset into the source buffer\<close>
  ie_val :: u32

record delta_index =
  di_src :: "byte list"
  di_mask :: u32
  di_hash :: "nat list"
  di_entries :: "index_entry list"

definition HASH_LIMIT :: nat where "HASH_LIMIT = 64"

subsection \<open>Size of the hash\<close>

definition delta_index_entries :: "nat \<Rightarrow> nat" where
  "delta_index_entries bufsize =
     (if bufsize \<ge> 0xffffffff then 0xfffffffe div RABIN_WINDOW
      else (bufsize - 1) div RABIN_WINDOW)"

function hash_size_bits :: "nat \<Rightarrow> nat \<Rightarrow> nat" where
  "hash_size_bits hsize i = (if 2 ^ i < hsize \<and> i < 31 then hash_size_bits hsize (Suc i) else i)"
  by pat_completeness auto
termination
  by (relation "measure (\<lambda>(_, i). 31 - i)") auto

declare hash_size_bits.simps [simp del]

subsection \<open>Populating the index\<close>

text \<open>
  The blocks are visited from the last to the first; \<open>k\<close> of them are left. A block whose
  hash is that of the block visited just before moves the entry created last,
  \<open>entry[-1]\<close>, which is the head of the bucket of \<open>prev_val\<close>.
\<close>

fun populate_index :: "byte list \<Rightarrow> u32 \<Rightarrow> nat
    \<Rightarrow> index_entry list list \<times> u32 \<times> nat \<Rightarrow> index_entry list list \<times> u32 \<times> nat" where
  "populate_index buf hmask 0 st = st"
| "populate_index buf hmask (Suc k) (hash, prev_val, entries) =
     (let data = k * RABIN_WINDOW;
          val = rabin_hash (take RABIN_WINDOW (drop (data + 1) buf)) in
      if val = prev_val then
        let i = unat (prev_val AND hmask) in
        populate_index buf hmask k
          (hash[i := (case hash ! i of [] \<Rightarrow> []
                      | e # es \<Rightarrow> e\<lparr>ie_ptr := data + RABIN_WINDOW\<rparr> # es)],
           prev_val, entries - 1)
      else
        let i = unat (val AND hmask) in
        populate_index buf hmask k
          (hash[i := \<lparr>ie_ptr = data + RABIN_WINDOW, ie_val = val\<rparr> # hash ! i], val, entries))"

subsection \<open>Culling a bucket\<close>

text \<open>
  \<open>cull_skip\<close> is the inner loop: drop entries until the accumulator is no longer
  positive. \<open>None\<close> is the dereference of a NULL \<open>entry\<close>.
\<close>

fun cull_skip :: "int \<Rightarrow> 'a list \<Rightarrow> (int \<times> 'a list) option" where
  "cull_skip acc [] = None"
| "cull_skip acc (e # es) =
     (let acc = acc - int HASH_LIMIT in if acc > 0 then cull_skip acc es else Some (acc, es))"

lemma cull_skip_length: "cull_skip acc es = Some (acc', es') \<Longrightarrow> length es' < length es"
  by (induction acc es rule: cull_skip.induct) (auto simp: Let_def split: if_splits)

function cull_bucket :: "int \<Rightarrow> int \<Rightarrow> 'a list \<Rightarrow> 'a list option" where
  "cull_bucket count acc [] = Some []"
| "cull_bucket count acc (e # es) =
     (let acc = acc + (count - int HASH_LIMIT) in
      if acc > 0 then
        (case cull_skip acc es of None \<Rightarrow> None
         | Some (acc, es) \<Rightarrow>
             (case cull_bucket count acc es of None \<Rightarrow> None | Some r \<Rightarrow> Some (e # r)))
      else (case cull_bucket count acc es of None \<Rightarrow> None | Some r \<Rightarrow> Some (e # r)))"
  by pat_completeness auto
termination
  by (relation "measure (\<lambda>(_, _, es). length es)") (auto dest!: cull_skip_length)

fun cull_index :: "index_entry list list \<Rightarrow> nat \<Rightarrow> (index_entry list list \<times> nat) option" where
  "cull_index [] entries = Some ([], entries)"
| "cull_index (b # bs) entries =
     (if length b \<le> HASH_LIMIT then
        (case cull_index bs entries of None \<Rightarrow> None
         | Some (bs, entries) \<Rightarrow> Some (b # bs, entries))
      else
        (case cull_bucket (int (length b)) 0 b of None \<Rightarrow> None
         | Some b' \<Rightarrow>
             (case cull_index bs (entries - (length b - HASH_LIMIT)) of None \<Rightarrow> None
              | Some (bs, entries) \<Rightarrow> Some (b' # bs, entries))))"

subsection \<open>Packing\<close>

fun pack_index :: "index_entry list list \<Rightarrow> nat \<Rightarrow> nat list \<times> index_entry list" where
  "pack_index [] pos = ([pos], [])"
| "pack_index (b # bs) pos =
     (let (hash, packed) = pack_index bs (pos + length b) in (pos # hash, b @ packed))"

definition create_delta_index :: "byte list \<Rightarrow> delta_index read" where
  "create_delta_index buf =
     (if buf = [] then Bad
      else
        let entries = delta_index_entries (length buf);
            hsize = 2 ^ hash_size_bits (entries div 4) 4;
            hmask = word_of_nat (hsize - 1);
            (hash, _, entries') =
              populate_index buf hmask entries (replicate hsize [], NOT 0, entries) in
        (case cull_index hash entries' of None \<Rightarrow> Overrun
         | Some (hash, entries') \<Rightarrow>
             let (packed_hash, packed) = pack_index hash 0 in
             if length packed \<noteq> entries' then Overrun
             else Got \<lparr>di_src = buf, di_mask = hmask, di_hash = packed_hash, di_entries = packed\<rparr>))"

text \<open>The entries between \<open>hash[i]\<close> and \<open>hash[i + 1]\<close>.\<close>

definition index_bucket :: "delta_index \<Rightarrow> nat \<Rightarrow> index_entry list" where
  "index_bucket ix i = take (di_hash ix ! (i + 1) - di_hash ix ! i) (drop (di_hash ix ! i) (di_entries ix))"

subsection \<open>Culling leaves exactly \<open>HASH_LIMIT\<close> entries\<close>

lemma cull_skip_spec:
  assumes "0 < acc" "acc \<le> int HASH_LIMIT * int (length es)"
  shows "\<exists>acc' j. cull_skip acc es = Some (acc', drop j es) \<and> j \<le> length es
    \<and> acc' = acc - int HASH_LIMIT * int j \<and> acc' \<le> 0 \<and> - int HASH_LIMIT < acc'"
  using assms
proof (induction acc es rule: cull_skip.induct)
  case (2 acc e es)
  show ?case
  proof (cases "acc - int HASH_LIMIT > 0")
    case True
    moreover from True "2.prems" have "acc - int HASH_LIMIT \<le> int HASH_LIMIT * int (length es)"
      by (simp add: algebra_simps)
    ultimately obtain acc' j where "cull_skip (acc - int HASH_LIMIT) es = Some (acc', drop j es)"
      "j \<le> length es" "acc' = acc - int HASH_LIMIT - int HASH_LIMIT * int j" "acc' \<le> 0" "- int HASH_LIMIT < acc'"
      using "2.IH" [OF refl] by blast
    with True show ?thesis
      by (intro exI [of _ acc'] exI [of _ "Suc j"]) (simp add: algebra_simps)
  next
    case False
    with "2.prems" show ?thesis
      by (intro exI [of _ "acc - int HASH_LIMIT"] exI [of _ 1]) simp
  qed
qed simp

text \<open>
  After \<open>k\<close> entries kept and \<open>m\<close> dropped of a bucket of \<open>n\<close>, the accumulator
  is \<open>k (n - 64) - 64 m\<close> and lies above \<open>-64\<close>; at the end of the list that forces
  \<open>k = 64\<close>.
\<close>

lemma cull_bucket_spec:
  assumes "HASH_LIMIT < n" "k + m + length es = n"
    and "acc = int k * (int n - int HASH_LIMIT) - int HASH_LIMIT * int m"
    and "acc \<le> 0" "- int HASH_LIMIT < acc"
  shows "\<exists>r. cull_bucket (int n) acc es = Some r \<and> k + length r = HASH_LIMIT \<and> subseq r es"
  using assms(2-)
proof (induction "int n" acc es arbitrary: k m rule: cull_bucket.induct)
  case (1 acc)
  let ?L = "int HASH_LIMIT"
  have n: "int n = int k + int m" using 1 by simp
  have acc: "acc = int n * (int k - ?L)" using 1 unfolding n by (simp add: algebra_simps)
  have "int k - ?L \<le> 0" using acc \<open>acc \<le> 0\<close> assms(1) by (simp add: mult_le_0_iff)
  moreover have "int k - ?L > -1"
  proof (rule ccontr)
    assume "\<not> int k - ?L > -1"
    then have "int n * (int k - ?L) \<le> int n * (- 1)" by (intro mult_left_mono) auto
    with acc 1 assms(1) show False by simp
  qed
  ultimately show ?case by simp
next
  case (2 acc e es)
  let ?L = "int HASH_LIMIT" and ?acc = "acc + (int n - int HASH_LIMIT)"
  have acc': "?acc = int (Suc k) * (int n - ?L) - ?L * int m"
    using "2.prems" by (simp add: algebra_simps)
  show ?case
  proof (cases "?acc > 0")
    case True
    have "?acc \<le> ?L * int (length es)"
    proof -
      have n: "int n = int k + int m + 1 + int (length es)" using "2.prems"(1) by simp
      have "acc = int n * (int k - ?L) + ?L * (1 + int (length es))"
        using "2.prems"(2) n by (simp add: algebra_simps)
      with \<open>acc \<le> 0\<close> have "int n * (int k - ?L) < 0"
        using assms(1) by (simp add: HASH_LIMIT_def)
      then have "int k - ?L \<le> -1" by (simp add: mult_less_0_iff)
      then have "int n * (int k - ?L) \<le> int n * (-1)" by (intro mult_left_mono) auto
      with \<open>acc = _ + _\<close> show ?thesis by (simp add: algebra_simps)
    qed
    with True obtain acc'' j where j: "cull_skip ?acc es = Some (acc'', drop j es)" "j \<le> length es"
      "acc'' = ?acc - ?L * int j" "acc'' \<le> 0" "- ?L < acc''"
      using cull_skip_spec by blast
    have c: "acc'' = int (Suc k) * (int n - ?L) - ?L * int (m + j)"
      using j(3) acc' by (simp add: algebra_simps)
    have "Suc k + (m + j) + length (drop j es) = n" using "2.prems"(1) j(2) by simp
    note "2.hyps"(1) [OF refl True j(1) refl this c j(4,5)]
    then obtain r where r: "cull_bucket (int n) acc'' (drop j es) = Some r" "Suc k + length r = HASH_LIMIT"
      "subseq r (drop j es)" by blast
    have "subseq (drop j es) es" by (metis append_take_drop_id list_emb_append2 subseq_order.refl)
    with r have "subseq r es" using subseq_order.trans by blast
    with r j True show ?thesis by (intro exI [of _ "e # r"]) simp
  next
    case False
    have "\<exists>r. cull_bucket (int n) ?acc es = Some r \<and> Suc k + length r = HASH_LIMIT \<and> subseq r es"
      using "2.hyps"(2) [OF refl False, of "Suc k" m] "2.prems" False acc' assms(1) by simp
    then obtain r where "cull_bucket (int n) ?acc es = Some r" "Suc k + length r = HASH_LIMIT" "subseq r es"
      by blast
    with False show ?thesis by (intro exI [of _ "e # r"]) simp
  qed
qed

lemma cull_bucket_exact:
  "HASH_LIMIT < length b \<Longrightarrow> \<exists>r. cull_bucket (int (length b)) 0 b = Some r \<and> length r = HASH_LIMIT \<and> subseq r b"
  using cull_bucket_spec [of "length b" 0 0 b 0] by (simp add: HASH_LIMIT_def)

subsection \<open>The index is well formed\<close>

text \<open>An entry points at the last byte of a block of the source and carries its hash.\<close>

definition entry_ok :: "byte list \<Rightarrow> index_entry \<Rightarrow> bool" where
  "entry_ok buf e = (RABIN_WINDOW \<le> ie_ptr e \<and> ie_ptr e < length buf
     \<and> ie_val e = rabin_hash (take RABIN_WINDOW (drop (ie_ptr e - (RABIN_WINDOW - 1)) buf)))"

definition bucket_ok :: "byte list \<Rightarrow> u32 \<Rightarrow> nat \<Rightarrow> index_entry list \<Rightarrow> bool" where
  "bucket_ok buf hmask i b = (\<forall>e \<in> set b. entry_ok buf e \<and> unat (ie_val e AND hmask) = i)"

definition index_inv :: "byte list \<Rightarrow> u32 \<Rightarrow> nat
    \<Rightarrow> index_entry list list \<times> u32 \<times> nat \<Rightarrow> bool" where
  "index_inv buf hmask k st = (case st of (hash, prev_val, entries) \<Rightarrow>
     length hash = Suc (unat hmask)
     \<and> (\<forall>i < length hash. bucket_ok buf hmask i (hash ! i))
     \<and> entries = k + sum_list (map length hash)
     \<and> (prev_val = NOT 0
        \<or> (\<exists>e es. hash ! unat (prev_val AND hmask) = e # es \<and> ie_val e = prev_val)))"

lemma unat_and_le: "unat (v AND m :: 'a::len word) \<le> unat m"
  by (metis word_and_le1 word_le_nat_alt)

lemma rabin_hash_not_ones: "rabin_hash w \<noteq> - 1"
  using rabin_hash_small [of w] by (auto simp: bit_simps)

lemma entry_ok_block:
  "k < delta_index_entries (length buf) \<Longrightarrow>
   entry_ok buf \<lparr>ie_ptr = k * RABIN_WINDOW + RABIN_WINDOW,
     ie_val = rabin_hash (take RABIN_WINDOW (drop (k * RABIN_WINDOW + 1) buf))\<rparr>"
proof -
  assume "k < delta_index_entries (length buf)"
  also have "\<dots> \<le> (length buf - 1) div 16"
    by (auto simp: delta_index_entries_def RABIN_WINDOW_def)
  finally have "k + 1 \<le> (length buf - 1) div 16" by simp
  then have "(k + 1) * 16 \<le> length buf - 1"
    by (simp only: less_eq_div_iff_mult_less_eq zero_less_numeral)
  then show ?thesis by (simp add: entry_ok_def RABIN_WINDOW_def)
qed

lemma sum_list_update_length:
  "i < length xs \<Longrightarrow> sum_list (map length (xs[i := y])) + length (xs ! i) = sum_list (map length xs) + length y"
  by (induction xs arbitrary: i) (auto split: nat.splits)

lemma populate_index_inv:
  "k \<le> delta_index_entries (length buf) \<Longrightarrow> index_inv buf hmask k st
    \<Longrightarrow> index_inv buf hmask 0 (populate_index buf hmask k st)"
proof (induction k arbitrary: st)
  case (Suc k)
  obtain hash prev_val entries where st: "st = (hash, prev_val, entries)" by (cases st)
  define val where "val = rabin_hash (take RABIN_WINDOW (drop (k * RABIN_WINDOW + 1) buf))"
  let ?new = "\<lparr>ie_ptr = k * RABIN_WINDOW + RABIN_WINDOW, ie_val = val\<rparr>"
  have k: "k < delta_index_entries (length buf)" using Suc.prems by simp
  note inv = Suc.prems(2) [unfolded st index_inv_def, simplified]
  show ?case
  proof (cases "val = prev_val")
    case True
    let ?i = "unat (prev_val AND hmask)"
    have i: "?i < length hash" using inv unat_and_le [of prev_val hmask] by simp
    have "prev_val \<noteq> - 1" using True val_def rabin_hash_not_ones by metis
    then obtain e es where e: "hash ! ?i = e # es" "ie_val e = prev_val"
      using inv by blast
    have new: "e\<lparr>ie_ptr := k * RABIN_WINDOW + RABIN_WINDOW\<rparr> = ?new" using e True by simp
    have ok: "entry_ok buf ?new" unfolding val_def by (rule entry_ok_block [OF k])
    have "index_inv buf hmask k (hash[?i := ?new # es], prev_val, entries - 1)"
      using inv i e ok True sum_list_update_length [OF i, of "?new # es"]
      by (auto simp: index_inv_def bucket_ok_def nth_list_update)
    moreover have "populate_index buf hmask (Suc k) st
        = populate_index buf hmask k (hash[?i := ?new # es], prev_val, entries - 1)"
      using True e by (cases e) (simp add: st Let_def val_def)
    ultimately show ?thesis using Suc.IH k by simp
  next
    case False
    let ?i = "unat (val AND hmask)"
    have i: "?i < length hash" using inv unat_and_le [of val hmask] by simp
    have ok: "entry_ok buf ?new" unfolding val_def by (rule entry_ok_block [OF k])
    have "index_inv buf hmask k (hash[?i := ?new # hash ! ?i], val, entries)"
      using inv i ok sum_list_update_length [OF i, of "?new # hash ! ?i"]
      by (auto simp: index_inv_def bucket_ok_def nth_list_update)
    moreover have "populate_index buf hmask (Suc k) st
        = populate_index buf hmask k (hash[?i := ?new # hash ! ?i], val, entries)"
      using False by (simp add: st Let_def val_def)
    ultimately show ?thesis using Suc.IH k by simp
  qed
qed simp

text \<open>Culling keeps every bucket good and counts what it drops.\<close>

lemma bucket_ok_subseq: "subseq b' b \<Longrightarrow> bucket_ok buf m i b \<Longrightarrow> bucket_ok buf m i b'"
  unfolding bucket_ok_def by (auto elim: list_emb_set)

lemma cull_index_spec:
  "\<exists>bs' n'. cull_index bs (r + sum_list (map length bs)) = Some (bs', n')
    \<and> n' = r + sum_list (map length bs') \<and> length bs' = length bs
    \<and> (\<forall>i < length bs. subseq (bs' ! i) (bs ! i) \<and> length (bs' ! i) = min HASH_LIMIT (length (bs ! i)))"
proof (induction bs arbitrary: r)
  case Nil
  show ?case by simp
next
  case (Cons b bs)
  show ?case
  proof (cases "length b \<le> HASH_LIMIT")
    case True
    with Cons [of "r + length b"] show ?thesis
      by (force simp: nth_Cons min_def ac_simps split: nat.splits)
  next
    case False
    then obtain b' where b': "cull_bucket (int (length b)) 0 b = Some b'" "length b' = HASH_LIMIT" "subseq b' b"
      using cull_bucket_exact [of b] by auto
    have n: "r + (length b + sum_list (map length bs)) - (length b - HASH_LIMIT)
        = (r + HASH_LIMIT) + sum_list (map length bs)" using False by simp
    obtain bs' where bs': "cull_index bs ((r + HASH_LIMIT) + sum_list (map length bs))
          = Some (bs', r + HASH_LIMIT + sum_list (map length bs'))" "length bs' = length bs"
      "\<forall>i < length bs. subseq (bs' ! i) (bs ! i) \<and> length (bs' ! i) = min HASH_LIMIT (length (bs ! i))"
      using Cons [of "r + HASH_LIMIT"] by blast
    from False b' bs' show ?thesis
      by (intro exI [of _ "b' # bs'"] exI [of _ "r + sum_list (map length (b' # bs'))"])
         (auto simp: n nth_Cons split: nat.splits)
  qed
qed

lemma pack_index_spec:
  "pack_index bs pos = (h, es) \<Longrightarrow>
     es = concat bs \<and> length h = Suc (length bs)
     \<and> (\<forall>i \<le> length bs. h ! i = pos + sum_list (map length (take i bs)))"
proof (induction bs arbitrary: pos h es)
  case (Cons b bs)
  obtain h' es' where p: "pack_index bs (pos + length b) = (h', es')" by fastforce
  with Cons.prems have h: "h = pos # h'" "es = b @ es'" by simp_all
  from Cons.IH [OF p] h show ?case
    by (intro conjI allI impI) (simp_all add: nth_Cons split: nat.splits)
qed auto

lemma concat_slice:
  "i < length bs \<Longrightarrow> take (length (bs ! i)) (drop (sum_list (map length (take i bs))) (concat bs)) = bs ! i"
proof (induction bs arbitrary: i)
  case (Cons b bs)
  then show ?case by (cases i) simp_all
qed simp

text \<open>The mask is one less than the number of buckets.\<close>

lemma hash_size_bits_bound: "i \<le> 31 \<Longrightarrow> hash_size_bits h i \<le> 31"
proof (induction h i rule: hash_size_bits.induct)
  case (1 h i)
  then show ?case by (subst hash_size_bits.simps) auto
qed

lemma hmask_size: "Suc (unat (word_of_nat (2 ^ hash_size_bits h 4 - 1) :: u32)) = 2 ^ hash_size_bits h 4"
proof -
  have "hash_size_bits h 4 \<le> 31" by (rule hash_size_bits_bound) simp
  then have "(2 :: nat) ^ hash_size_bits h 4 \<le> 2 ^ 31" by (intro power_increasing) auto
  then show ?thesis by (subst unat_of_nat_small) auto
qed

lemma create_delta_index_wf:
  assumes "buf \<noteq> []"
  shows "\<exists>ix. create_delta_index buf = Got ix \<and> di_src ix = buf
    \<and> (\<forall>i \<le> unat (di_mask ix). bucket_ok buf (di_mask ix) i (index_bucket ix i)
         \<and> length (index_bucket ix i) \<le> HASH_LIMIT)"
proof -
  define n where "n = delta_index_entries (length buf)"
  define hsize :: nat where "hsize = 2 ^ hash_size_bits (n div 4) 4"
  define hmask :: u32 where "hmask = word_of_nat (hsize - 1)"
  have size: "Suc (unat hmask) = hsize" unfolding hmask_def hsize_def by (rule hmask_size)
  have zero: "sum_list (map length (replicate h [])) = 0" for h by (induction h) simp_all
  obtain hash pv m where pop: "populate_index buf hmask n (replicate hsize [], NOT 0, n) = (hash, pv, m)"
    by (cases "populate_index buf hmask n (replicate hsize [], NOT 0, n)")
  have "index_inv buf hmask n (replicate hsize [], NOT 0, n)"
    using size zero by (simp add: index_inv_def bucket_ok_def)
  from populate_index_inv [OF _ this] pop have inv: "index_inv buf hmask 0 (hash, pv, m)"
    by (simp add: n_def)
  then have hash: "length hash = hsize" "\<forall>i < hsize. bucket_ok buf hmask i (hash ! i)"
    "m = sum_list (map length hash)" using size by (auto simp: index_inv_def)
  obtain bs where bs: "cull_index hash m = Some (bs, sum_list (map length bs))" "length bs = hsize"
    "\<forall>i < hsize. subseq (bs ! i) (hash ! i) \<and> length (bs ! i) = min HASH_LIMIT (length (hash ! i))"
    using cull_index_spec [of hash 0] hash by auto
  obtain ph es where pk: "pack_index bs 0 = (ph, es)" by fastforce
  note pack = pack_index_spec [OF pk]
  define ix where "ix = \<lparr>di_src = buf, di_mask = hmask, di_hash = ph, di_entries = es\<rparr>"
  have got: "create_delta_index buf = Got ix"
    unfolding create_delta_index_def Let_def n_def [symmetric] hsize_def [symmetric] hmask_def [symmetric] pop
    using assms bs(1) pk pack by (simp add: length_concat ix_def)
  have bucket: "index_bucket ix i = bs ! i" if "i < hsize" for i
  proof -
    have "ph ! Suc i - ph ! i = length (bs ! i)"
      using pack that bs(2) by (simp add: take_Suc_conv_app_nth)
    then show ?thesis
      using pack that bs(2) concat_slice [of i bs] by (simp add: index_bucket_def ix_def)
  qed
  have "bucket_ok buf (di_mask ix) i (index_bucket ix i) \<and> length (index_bucket ix i) \<le> HASH_LIMIT"
    if "i \<le> unat (di_mask ix)" for i
  proof -
    have i: "i < hsize" using that size by (simp add: ix_def)
    with bs hash bucket [OF i] show ?thesis
      by (auto simp: ix_def intro: bucket_ok_subseq)
  qed
  with got show ?thesis by (intro exI [of _ ix]) (simp add: ix_def)
qed

subsection \<open>Properties\<close>

text \<open>C27. Indexing a non-empty buffer always succeeds (no NULL entry is dereferenced while culling
  and the final assertion holds). Every entry of a bucket points at the last byte of a block of the
  source, carries the hash of that block and is in the bucket its hash selects, and no bucket has
  more than \<open>HASH_LIMIT\<close> entries.\<close>

theorem create_delta_index_buckets:
  assumes "buf \<noteq> []"
  shows "\<exists>ix. create_delta_index buf = Got ix \<and> di_src ix = buf
    \<and> (\<forall>i \<le> unat (di_mask ix). length (index_bucket ix i) \<le> HASH_LIMIT
         \<and> (\<forall>e \<in> set (index_bucket ix i).
              RABIN_WINDOW \<le> ie_ptr e \<and> ie_ptr e < length buf \<and> unat (ie_val e AND di_mask ix) = i
              \<and> ie_val e = rabin_hash (take RABIN_WINDOW (drop (ie_ptr e - (RABIN_WINDOW - 1)) buf))))"
  using create_delta_index_wf [OF assms] by (auto simp: bucket_ok_def entry_ok_def)

theorem create_delta_index_buckets_witness:
  "\<exists>ix. create_delta_index [1, 2] = Got ix \<and> di_src ix = [1, 2]
    \<and> (\<forall>i \<le> unat (di_mask ix). length (index_bucket ix i) \<le> HASH_LIMIT
         \<and> (\<forall>e \<in> set (index_bucket ix i).
              RABIN_WINDOW \<le> ie_ptr e \<and> ie_ptr e < length [1, 2 :: byte] \<and> unat (ie_val e AND di_mask ix) = i
              \<and> ie_val e = rabin_hash (take RABIN_WINDOW (drop (ie_ptr e - (RABIN_WINDOW - 1)) [1, 2]))))"
  by (rule create_delta_index_buckets) simp

text \<open>Culling a bucket that is over the limit leaves exactly \<open>HASH_LIMIT\<close> of its entries, in
  order, and never runs off the end of its list.\<close>

theorem cull_bucket_leaves_limit:
  assumes "HASH_LIMIT < length b"
  shows "\<exists>r. cull_bucket (int (length b)) 0 b = Some r \<and> length r = HASH_LIMIT \<and> subseq r b"
  using assms by (rule cull_bucket_exact)

theorem cull_bucket_leaves_limit_witness:
  "\<exists>r. cull_bucket (int (length [0..<100])) 0 [0..<100] = Some r \<and> length r = HASH_LIMIT \<and> subseq r [0..<100]"
  by (rule cull_bucket_leaves_limit) (simp add: HASH_LIMIT_def)

end
