(* ===== verification/Delta_Patch.thy ===== *)
theory Delta_Patch
  imports Git_Prelude
begin

text \<open>
  \<^verbatim>\<open>patch-delta.c\<close> and the size header of \<^verbatim>\<open>delta.h\<close>: replaying a
  delta on its source. The delta is the list of bytes up to \<open>top\<close>; a read at or past
  \<open>top\<close>, which the C code does not check for inside an opcode, is \<open>Overrun\<close>, and so
  is a shift count of 64 or more. A NULL result is \<open>Bad\<close>.
\<close>

definition DELTA_SIZE_MIN :: nat where "DELTA_SIZE_MIN = 4"

subsection \<open>The size header\<close>

fun delta_hdr_size_loop :: "byte list \<Rightarrow> u64 \<Rightarrow> nat \<Rightarrow> (u64 \<times> byte list) read" where
  "delta_hdr_size_loop [] sz i = Overrun"
| "delta_hdr_size_loop (cmd # data) sz i =
     (if 64 \<le> i then Overrun
      else let sz = sz OR push_bit i (ucast (cmd AND 0x7f)) in
        if cmd AND 0x80 \<noteq> 0 \<and> data \<noteq> [] then delta_hdr_size_loop data sz (i + 7)
        else Got (sz, data))"

definition get_delta_hdr_size :: "byte list \<Rightarrow> (u64 \<times> byte list) read" where
  "get_delta_hdr_size data = delta_hdr_size_loop data 0 0"

subsection \<open>Replaying the opcodes\<close>

text \<open>
  The operand bytes that follow a copy opcode: for every flag that is set in \<open>cmd\<close>, one
  byte, shifted into place.
\<close>

fun read_operand :: "byte \<Rightarrow> (byte \<times> nat) list \<Rightarrow> u64 \<Rightarrow> byte list \<Rightarrow> (u64 \<times> byte list) option" where
  "read_operand cmd [] acc data = Some (acc, data)"
| "read_operand cmd ((flag, sh) # fs) acc data =
     (if cmd AND flag \<noteq> 0 then
        (case data of [] \<Rightarrow> None
         | b # data \<Rightarrow> read_operand cmd fs (acc OR push_bit sh (ucast b)) data)
      else read_operand cmd fs acc data)"

definition read_copy :: "byte \<Rightarrow> byte list \<Rightarrow> ((u64 \<times> u64) \<times> byte list) option" where
  "read_copy cmd data =
     (case read_operand cmd [(0x01, 0), (0x02, 8), (0x04, 16), (0x08, 24)] 0 data of
        None \<Rightarrow> None
      | Some (cp_off, data) \<Rightarrow>
          (case read_operand cmd [(0x10, 0), (0x20, 8), (0x40, 16)] 0 data of
             None \<Rightarrow> None
           | Some (cp_size, data) \<Rightarrow>
               Some ((cp_off, if cp_size = 0 then 0x10000 else cp_size), data)))"

text \<open>The check after the loop, which a \<open>break\<close> also reaches.\<close>

definition patch_finish :: "byte list \<Rightarrow> byte list \<Rightarrow> u64 \<Rightarrow> byte list read" where
  "patch_finish data out sz = (if data \<noteq> [] \<or> sz \<noteq> 0 then Bad else Got out)"

lemma read_operand_length:
  "read_operand cmd fs acc data = Some (v, data') \<Longrightarrow> length data' \<le> length data"
  by (induction cmd fs acc data rule: read_operand.induct) (auto split: if_splits list.splits)

lemma read_copy_length: "read_copy cmd data = Some (v, data') \<Longrightarrow> length data' \<le> length data"
  unfolding read_copy_def
  by (fastforce simp del: read_operand.simps split: option.splits dest: read_operand_length)

function patch_loop :: "byte list \<Rightarrow> byte list \<Rightarrow> byte list \<Rightarrow> u64 \<Rightarrow> byte list read" where
  "patch_loop src [] out sz = patch_finish [] out sz"
| "patch_loop src (cmd # data) out sz =
     (if cmd AND 0x80 \<noteq> 0 then
        (case read_copy cmd data of
           None \<Rightarrow> Overrun
         | Some ((cp_off, cp_size), data) \<Rightarrow>
             if cp_size > NOT 0 - cp_off \<or> cp_off + cp_size > word_of_nat (length src) \<or> cp_size > sz
             then patch_finish data out sz
             else patch_loop src data (out @ take (unat cp_size) (drop (unat cp_off) src)) (sz - cp_size))
      else if cmd \<noteq> 0 then
        if ucast cmd > sz then patch_finish data out sz
        else if length data < unat cmd then Overrun
        else patch_loop src (drop (unat cmd) data) (out @ take (unat cmd) data) (sz - ucast cmd)
      else Bad)"
  by pat_completeness auto
termination
  by (relation "measure (\<lambda>(_, data, _, _). length data)") (auto dest!: read_copy_length)

declare patch_loop.simps(2) [simp del]

definition patch_delta :: "byte list \<Rightarrow> byte list \<Rightarrow> byte list read" where
  "patch_delta src delta =
     (if length delta < DELTA_SIZE_MIN then Bad
      else case get_delta_hdr_size delta of
        Overrun \<Rightarrow> Overrun | Bad \<Rightarrow> Bad
      | Got (sz, data) \<Rightarrow>
          if sz \<noteq> word_of_nat (length src) then Bad
          else case get_delta_hdr_size data of
            Overrun \<Rightarrow> Overrun | Bad \<Rightarrow> Bad
          | Got (sz, data) \<Rightarrow> patch_loop src data [] sz)"

subsection \<open>The result has the announced size\<close>

text \<open>
  Every copy lies inside the source and every write inside the \<open>size\<close> bytes left, so the
  output grows by exactly what \<open>size\<close> loses.
\<close>

lemma copy_in_source:
  assumes "\<not> cp_size > NOT 0 - (cp_off :: u64)" "\<not> cp_off + cp_size > word_of_nat (length src)"
  shows "unat cp_off + unat cp_size \<le> length src"
proof -
  have "(NOT 0 :: u64) = 18446744073709551615" by simp
  moreover have "unat (18446744073709551615 - cp_off) = 18446744073709551615 - unat cp_off"
    using unat_lt_size [of cp_off] by (subst unat_sub) (simp_all add: word_le_nat_alt)
  ultimately have "unat (NOT 0 - cp_off) = 2 ^ 64 - 1 - unat cp_off"
    by (simp only:) simp
  with assms(1) have "unat cp_off + unat cp_size < 2 ^ 64"
    using unat_lt_size [of cp_off] by (simp add: word_less_nat_alt)
  then have "unat (cp_off + cp_size) = unat cp_off + unat cp_size"
    by (simp add: unat_word_ariths)
  moreover have "unat (word_of_nat (length src) :: u64) \<le> length src"
    by (simp add: unat_of_nat take_bit_eq_mod)
  ultimately show ?thesis using assms(2) by (simp add: word_less_nat_alt)
qed

lemma patch_loop_size:
  "patch_loop src data out sz = Got res \<Longrightarrow> length res = length out + unat sz"
proof (induction src data out sz rule: patch_loop.induct)
  case (1 src out sz)
  then show ?case by (simp add: patch_finish_def split: if_splits)
next
  case (2 src cmd data out sz)
  have fin: "patch_finish d out sz = Got res \<Longrightarrow> ?case" for d
    by (auto simp: patch_finish_def split: if_splits)
  show ?case
  proof (cases "cmd AND 0x80 = 0")
    case False
    with "2.prems" obtain cp_off cp_size d where rc: "read_copy cmd data = Some ((cp_off, cp_size), d)"
      by (cases "read_copy cmd data") (auto simp: patch_loop.simps(2))
    let ?stop = "cp_size > NOT 0 - cp_off \<or> cp_off + cp_size > word_of_nat (length src) \<or> cp_size > sz"
    show ?thesis
    proof (cases ?stop)
      case True
      with False rc "2.prems" have "patch_finish d out sz = Got res"
        by (simp add: patch_loop.simps(2))
      then show ?thesis by (rule fin)
    next
      case go: False
      with False rc "2.prems" have "patch_loop src d (out @ take (unat cp_size) (drop (unat cp_off) src)) (sz - cp_size) = Got res"
        by (simp add: patch_loop.simps(2))
      with "2.IH"(1) [OF False rc refl refl go]
      have "length res = length (out @ take (unat cp_size) (drop (unat cp_off) src)) + unat (sz - cp_size)"
        by simp
      moreover have "unat cp_off + unat cp_size \<le> length src" using go by (intro copy_in_source) auto
      moreover have "unat (sz - cp_size) = unat sz - unat cp_size" "unat cp_size \<le> unat sz"
        using go by (auto simp: unat_sub word_le_nat_alt not_less)
      ultimately show ?thesis by simp
    qed
  next
    case True
    with "2.prems" have nz: "cmd \<noteq> 0" by (auto simp: patch_loop.simps(2))
    show ?thesis
    proof (cases "ucast cmd > sz")
      case big: True
      with True nz "2.prems" have "patch_finish data out sz = Got res"
        by (simp add: patch_loop.simps(2))
      then show ?thesis by (rule fin)
    next
      case False
      with True nz "2.prems" have "\<not> length data < unat cmd"
        and run: "patch_loop src (drop (unat cmd) data) (out @ take (unat cmd) data) (sz - ucast cmd) = Got res"
        by (auto simp: patch_loop.simps(2) split: if_splits)
      with "2.IH"(2) [of ] True nz False
      have "length res = length (out @ take (unat cmd) data) + unat (sz - ucast cmd)" by simp
      moreover have "unat (ucast cmd :: u64) = unat cmd"
        using byte_bound [of cmd] by (simp add: unsigned_ucast_eq take_bit_eq_mod)
      ultimately show ?thesis
        using False \<open>\<not> length data < unat cmd\<close> by (simp add: unat_sub word_le_nat_alt not_less)
    qed
  qed
qed

subsection \<open>Properties\<close>

text \<open>C26. Whatever the delta, a successful replay made exactly as many bytes as the second size of
  its header announces, from a source of exactly the size the first announces: the
  destination buffer is filled and never overrun.\<close>

theorem patch_delta_announced_size:
  assumes "patch_delta src delta = Got res"
  shows "\<exists>data ops. get_delta_hdr_size delta = Got (word_of_nat (length src), data)
    \<and> get_delta_hdr_size data = Got (word_of_nat (length res), ops)
    \<and> patch_loop src ops [] (word_of_nat (length res)) = Got res"
proof -
  obtain sz data where h1: "get_delta_hdr_size delta = Got (sz, data)" "sz = word_of_nat (length src)"
    using assms by (auto simp: patch_delta_def split: if_splits read.splits)
  with assms obtain sz' ops where h2: "get_delta_hdr_size data = Got (sz', ops)"
    "patch_loop src ops [] sz' = Got res"
    by (auto simp: patch_delta_def split: if_splits read.splits)
  from patch_loop_size [OF h2(2)] have "sz' = word_of_nat (length res)" by simp
  with h1 h2 show ?thesis by blast
qed

theorem patch_delta_announced_size_witness:
  "\<exists>data ops. get_delta_hdr_size [2, 1, 1, 65] = Got (word_of_nat (length [66, 67 :: byte]), data)
    \<and> get_delta_hdr_size data = Got (word_of_nat (length [65 :: byte]), ops)
    \<and> patch_loop [66, 67] ops [] (word_of_nat (length [65 :: byte])) = Got [65]"
  by (rule patch_delta_announced_size [of "[66, 67]" "[2, 1, 1, 65]" "[65]"])
     (simp add: patch_delta_def get_delta_hdr_size_def DELTA_SIZE_MIN_def patch_loop.simps(2) patch_finish_def)

end
