(* ===== verification/Delta_Create.thy ===== *)
theory Delta_Create
  imports Delta_Index Delta_Patch
begin

text \<open>
  \<open>create_delta\<close> of \<^verbatim>\<open>diff-delta.c\<close>, the writer of the deltas that
  \<open>patch_delta\<close> replays. The output buffer is the list of the bytes below
  \<open>outpos\<close>; a count byte that is reserved and not yet known is written as 0 and
  overwritten later, as the uninitialised byte in the C buffer is. Positions in the two
  buffers are natural numbers, the \<open>unsigned int\<close> variables are 32-bit words.

  \<open>Overrun\<close> is a write past \<open>outsize\<close> or a main loop that has not ended after
  as many rounds as the target has bytes, and \<open>Bad\<close> is a NULL result. The theorems
  show that the writer stays in its buffer, returns, and that its delta replays to the
  target. Memory allocation does not fail in the model.
\<close>

record delta_state =
  ds_out :: "byte list"
  ds_pos :: nat
  ds_inscnt :: int
  ds_moff :: u32
  ds_msize :: u32
  ds_val :: u32
  ds_outsize :: u32

definition MAX_OP_SIZE :: nat where "MAX_OP_SIZE = 5 + 5 + 1 + RABIN_WINDOW + 7"

subsection \<open>The header\<close>

function delta_hdr :: "u32 \<Rightarrow> byte list" where
  "delta_hdr i = (if i \<ge> 0x80 then ucast (i OR 0x80) # delta_hdr (drop_bit 7 i) else [ucast i])"
  by pat_completeness auto
termination
  by (relation "measure unat") (auto simp: unat_drop_bit word_le_nat_alt)

declare delta_hdr.simps [simp del]

subsection \<open>Looking for a match\<close>

text \<open>How far the target from \<open>data\<close> on agrees with the source from \<open>ref\<close> on.\<close>

fun match_len :: "nat \<Rightarrow> byte list \<Rightarrow> byte list \<Rightarrow> nat" where
  "match_len (Suc ref_size) (s # src) (r # ref) = (if s = r then Suc (match_len ref_size src ref) else 0)"
| "match_len _ _ _ = 0"

fun find_match :: "byte list \<Rightarrow> byte list \<Rightarrow> nat \<Rightarrow> u32 \<Rightarrow> index_entry list \<Rightarrow> u32 \<times> u32 \<Rightarrow> u32 \<times> u32" where
  "find_match src trg pos val [] (moff, msize) = (moff, msize)"
| "find_match src trg pos val (e # es) (moff, msize) =
     (if ie_val e \<noteq> val then find_match src trg pos val es (moff, msize)
      else
        let ref_size = (word_of_nat (length src - ie_ptr e) :: u32);
            ref_size = (if unat ref_size > length trg - pos then word_of_nat (length trg - pos) else ref_size) in
        if ref_size \<le> msize then (moff, msize)
        else
          let n = match_len (unat ref_size) (drop pos trg) (drop (ie_ptr e) src) in
          if unat msize < n then
            if word_of_nat n \<ge> (4096 :: u32) then (word_of_nat (ie_ptr e), word_of_nat n)
            else find_match src trg pos val es (word_of_nat (ie_ptr e), word_of_nat n)
          else find_match src trg pos val es (moff, msize))"

subsection \<open>Literal bytes\<close>

definition delta_insert :: "byte list \<Rightarrow> delta_state \<Rightarrow> delta_state" where
  "delta_insert trg st =
     (let out = (if ds_inscnt st = 0 then ds_out st @ [0] else ds_out st);
          out = out @ [trg ! ds_pos st];
          inscnt = ds_inscnt st + 1;
          (out, inscnt) =
            (if inscnt = 0x7f
             then (out[nat (int (length out) - inscnt - 1) := word_of_int inscnt], 0)
             else (out, inscnt)) in
      st\<lparr>ds_out := out, ds_pos := ds_pos st + 1, ds_inscnt := inscnt, ds_msize := 0\<rparr>)"

subsection \<open>Copies\<close>

text \<open>
  Extending a match backwards over pending literal bytes. When the last of them is taken the
  count slot goes too and \<open>inscnt\<close> ends as -1.
\<close>

fun back_match :: "byte list \<Rightarrow> byte list \<Rightarrow> nat \<Rightarrow> u32 \<times> u32 \<times> nat \<times> byte list
    \<Rightarrow> int \<times> u32 \<times> u32 \<times> nat \<times> byte list" where
  "back_match src trg 0 (moff, msize, pos, out) = (0, moff, msize, pos, out)"
| "back_match src trg (Suc inscnt) (moff, msize, pos, out) =
     (if moff \<noteq> 0 \<and> src ! (unat moff - 1) = trg ! (pos - 1) then
        (if inscnt \<noteq> 0 then back_match src trg inscnt (moff - 1, msize + 1, pos - 1, butlast out)
         else (-1, moff - 1, msize + 1, pos - 1, butlast (butlast out)))
      else (int (Suc inscnt), moff, msize, pos, out))"

fun copy_operands :: "u32 \<Rightarrow> (u32 \<times> nat \<times> byte) list \<Rightarrow> byte \<times> byte list \<Rightarrow> byte \<times> byte list" where
  "copy_operands v [] (i, out) = (i, out)"
| "copy_operands v ((m, sh, flag) # fs) (i, out) =
     copy_operands v fs
       (if v AND m \<noteq> 0 then (i OR flag, out @ [ucast (drop_bit sh v)]) else (i, out))"

definition encode_copy :: "u32 \<Rightarrow> u32 \<Rightarrow> byte list" where
  "encode_copy moff msize =
     (let (i, args) =
            copy_operands moff [(0xff, 0, 0x01), (0xff00, 8, 0x02), (0xff0000, 16, 0x04), (0xff000000, 24, 0x08)]
              (0x80, []);
          (i, args) = copy_operands msize [(0xff, 0, 0x10), (0xff00, 8, 0x20)] (i, args) in
      i # args)"

text \<open>
  With \<open>inscnt = -1\<close> the C code stores its junk count at \<open>out[outpos]\<close>, which the
  opcode then overwrites; the update of the list at its length does nothing.
\<close>

definition delta_copy :: "byte list \<Rightarrow> byte list \<Rightarrow> delta_state \<Rightarrow> delta_state" where
  "delta_copy src trg st =
     (let (inscnt, moff, msize, pos, out) =
            (if ds_inscnt st \<noteq> 0 then
               (let (inscnt, moff, msize, pos, out) =
                      back_match src trg (nat (ds_inscnt st)) (ds_moff st, ds_msize st, ds_pos st, ds_out st) in
                (0, moff, msize, pos, out[nat (int (length out) - inscnt - 1) := word_of_int inscnt]))
             else (0, ds_moff st, ds_msize st, ds_pos st, ds_out st));
          left = (if msize < 0x10000 then 0 else msize - 0x10000);
          msize = msize - left;
          out = out @ encode_copy moff msize;
          pos = pos + unat msize;
          val = (if left < 4096 then rabin_hash (take RABIN_WINDOW (drop (pos - RABIN_WINDOW) trg))
                 else ds_val st) in
      st\<lparr>ds_out := out, ds_pos := pos, ds_inscnt := inscnt, ds_moff := moff + msize, ds_msize := left,
         ds_val := val\<rparr>)"

subsection \<open>The main loop\<close>

definition delta_find :: "delta_index \<Rightarrow> byte list \<Rightarrow> delta_state \<Rightarrow> delta_state" where
  "delta_find ix trg st =
     (if ds_msize st < 4096 then
        (let val = rabin_roll (ds_val st) (trg ! (ds_pos st - RABIN_WINDOW)) (trg ! ds_pos st);
             (moff, msize) = find_match (di_src ix) trg (ds_pos st) val
                (index_bucket ix (unat (val AND di_mask ix))) (ds_moff st, ds_msize st) in
         st\<lparr>ds_moff := moff, ds_msize := msize, ds_val := val\<rparr>)
      else st)"

definition delta_step :: "delta_index \<Rightarrow> byte list \<Rightarrow> delta_state \<Rightarrow> delta_state" where
  "delta_step ix trg st =
     (let st = delta_find ix trg st in
      if ds_msize st < 4 then delta_insert trg st else delta_copy (di_src ix) trg st)"

definition grow_outsize :: "u64 \<Rightarrow> u32 \<Rightarrow> u32" where
  "grow_outsize max_size outsize =
     (let outsize = outsize * 3 div 2 in
      if max_size \<noteq> 0 \<and> ucast outsize \<ge> max_size then ucast (max_size + word_of_nat MAX_OP_SIZE + 1)
      else outsize)"

fun delta_loop :: "delta_index \<Rightarrow> byte list \<Rightarrow> u64 \<Rightarrow> nat \<Rightarrow> delta_state \<Rightarrow> delta_state read" where
  "delta_loop ix trg max_size 0 st = Overrun"
| "delta_loop ix trg max_size (Suc n) st =
     (if length trg \<le> ds_pos st then Got st
      else
        let st = delta_step ix trg st in
        if unat (ds_outsize st) < length (ds_out st) then Overrun
        else if unat (ds_outsize st - word_of_nat MAX_OP_SIZE) \<le> length (ds_out st) then
          (if max_size \<noteq> 0 \<and> unat max_size < length (ds_out st) then Got st
           else delta_loop ix trg max_size n (st\<lparr>ds_outsize := grow_outsize max_size (ds_outsize st)\<rparr>))
        else delta_loop ix trg max_size n st)"

definition delta_init :: "delta_index \<Rightarrow> byte list \<Rightarrow> u64 \<Rightarrow> delta_state" where
  "delta_init ix trg max_size =
     \<lparr>ds_out = delta_hdr (word_of_nat (length (di_src ix))) @ delta_hdr (word_of_nat (length trg))
        @ [0] @ take RABIN_WINDOW trg,
      ds_pos = length (take RABIN_WINDOW trg), ds_inscnt = int (length (take RABIN_WINDOW trg)),
      ds_moff = 0, ds_msize = 0, ds_val = rabin_hash (take RABIN_WINDOW trg),
      ds_outsize = (if max_size \<noteq> 0 \<and> 8192 \<ge> max_size
                    then ucast (max_size + word_of_nat MAX_OP_SIZE + 1) else 8192)\<rparr>"

definition delta_flush :: "delta_state \<Rightarrow> byte list" where
  "delta_flush st =
     (if ds_inscnt st \<noteq> 0
      then (ds_out st)[nat (int (length (ds_out st)) - ds_inscnt st - 1) := word_of_int (ds_inscnt st)]
      else ds_out st)"

definition create_delta :: "delta_index \<Rightarrow> byte list \<Rightarrow> u64 \<Rightarrow> byte list read" where
  "create_delta ix trg max_size =
     (if trg = [] then Bad
      else
        let st = delta_init ix trg max_size in
        if unat (ds_outsize st) < length (ds_out st) then Overrun
        else
          case delta_loop ix trg max_size (length trg + 1) st of
            Overrun \<Rightarrow> Overrun | Bad \<Rightarrow> Bad
          | Got st \<Rightarrow>
              let out = delta_flush st in
              if max_size \<noteq> 0 \<and> unat max_size < length out then Bad else Got out)"

definition diff_delta :: "byte list \<Rightarrow> byte list \<Rightarrow> u64 \<Rightarrow> byte list read" where
  "diff_delta src trg max_size =
     (case create_delta_index src of Overrun \<Rightarrow> Overrun | Bad \<Rightarrow> Bad
      | Got ix \<Rightarrow> create_delta ix trg max_size)"

end
