(* ===== verification/Delta_Correct.thy ===== *)
theory Delta_Correct
  imports Delta_Create
begin

text \<open>
  The correctness of the delta writer. An abstract delta is a list of operations, each a copy
  from the source or a run of literal bytes; the writer's buffer is the encoding of such a
  list followed by the pending literals, and replaying the list gives the target read so
  far. \<open>patch_delta\<close> decodes the same list.
\<close>

lemma unat_ucast_up: "LENGTH('a) \<le> LENGTH('b) \<Longrightarrow> unat (ucast (w :: 'a::len word) :: 'b::len word) = unat w"
proof -
  assume "LENGTH('a) \<le> LENGTH('b)"
  then have "(2 :: nat) ^ LENGTH('a) \<le> 2 ^ LENGTH('b)" by (intro power_increasing) auto
  with unat_lt_size [of w] have "unat w < 2 ^ LENGTH('b)" by linarith
  then show ?thesis by (simp add: unsigned_ucast_eq take_bit_eq_mod)
qed

subsection \<open>The operands of a copy\<close>

fun operand_flags :: "u32 \<Rightarrow> (u32 \<times> nat \<times> byte) list \<Rightarrow> byte" where
  "operand_flags v [] = 0"
| "operand_flags v ((m, sh, flag) # fs) = (if v AND m \<noteq> 0 then flag else 0) OR operand_flags v fs"

fun operand_bytes :: "u32 \<Rightarrow> (u32 \<times> nat \<times> byte) list \<Rightarrow> byte list" where
  "operand_bytes v [] = []"
| "operand_bytes v ((m, sh, flag) # fs) =
     (if v AND m \<noteq> 0 then [ucast (drop_bit sh v)] else []) @ operand_bytes v fs"

fun operand_value :: "u32 \<Rightarrow> (u32 \<times> nat \<times> byte) list \<Rightarrow> u64" where
  "operand_value v [] = 0"
| "operand_value v ((m, sh, flag) # fs) = ucast (v AND m) OR operand_value v fs"

lemma copy_operands_eq:
  "copy_operands v fs (i, out) = (i OR operand_flags v fs, out @ operand_bytes v fs)"
  by (induction v fs "(i, out)" arbitrary: i out rule: copy_operands.induct) (auto simp: ac_simps)

lemma operand_piece:
  fixes v m :: u32
  assumes "m = push_bit sh 0xff" "sh + 8 \<le> 32"
  shows "push_bit sh (ucast (ucast (drop_bit sh v) :: byte)) = (ucast (v AND m) :: u64)"
proof (rule bit_eqI)
  fix n
  have "(0xff :: u32) = mask 8" by (simp add: mask_eq_exp_minus_1)
  then have m: "m = push_bit sh (mask 8)" by (metis assms(1))
  have "n - sh < 8 \<Longrightarrow> sh \<le> n \<Longrightarrow> n < 32" using assms(2) by linarith
  then show "bit (push_bit sh (ucast (ucast (drop_bit sh v) :: byte)) :: u64) n = bit (ucast (v AND m) :: u64) n"
    unfolding m by (auto simp: bit_simps)
qed

lemma read_operand_bytes:
  assumes "\<forall>(m, sh, flag) \<in> set fs. m = push_bit sh 0xff \<and> sh + 8 \<le> 32
      \<and> (cmd AND flag \<noteq> 0 \<longleftrightarrow> v AND m \<noteq> 0)"
  shows "read_operand cmd (map (\<lambda>(m, sh, flag). (flag, sh)) fs) acc (operand_bytes v fs @ rest)
    = Some (acc OR operand_value v fs, rest)"
  using assms
proof (induction v fs arbitrary: acc rule: operand_bytes.induct)
  case (2 v m sh flag fs)
  then have "push_bit sh (ucast (ucast (drop_bit sh v) :: byte)) = (ucast (v AND m) :: u64)"
    by (intro operand_piece) auto
  with 2 show ?case by (auto simp: or.assoc)
qed simp

lemma read_operand_unset:
  "cmd AND flag = 0 \<Longrightarrow> read_operand cmd (fs @ [(flag, sh)]) acc data = read_operand cmd fs acc data"
  by (induction cmd fs acc data rule: read_operand.induct) (auto split: list.split)

definition off_fields :: "(u32 \<times> nat \<times> byte) list" where
  "off_fields = [(0xff, 0, 0x01), (0xff00, 8, 0x02), (0xff0000, 16, 0x04), (0xff000000, 24, 0x08)]"

definition size_fields :: "(u32 \<times> nat \<times> byte) list" where
  "size_fields = [(0xff, 0, 0x10), (0xff00, 8, 0x20)]"

lemma encode_copy_eq:
  "encode_copy moff msize = (0x80 OR operand_flags moff off_fields OR operand_flags msize size_fields)
     # operand_bytes moff off_fields @ operand_bytes msize size_fields"
  by (simp add: encode_copy_def copy_operands_eq off_fields_def size_fields_def ac_simps)

lemma operand_value_off: "operand_value v off_fields = ucast v"
proof -
  have "(0xff OR 0xff00 OR 0xff0000 OR 0xff000000 :: u32) = - 1" by simp
  then have "v AND (0xff OR 0xff00 OR 0xff0000 OR 0xff000000) = v" by (simp only: and.right_neutral)
  then have "(v AND 0xff) OR (v AND 0xff00) OR (v AND 0xff0000) OR (v AND 0xff000000) = v"
    by (simp only: bit.conj_disj_distrib)
  then show ?thesis
    unfolding off_fields_def operand_value.simps or.right_neutral
    by (simp only: unsigned_or_eq [symmetric])
qed

lemma operand_value_size:
  assumes "unat v \<le> 0x10000"
  shows "operand_value v size_fields = (if v = 0x10000 then 0 else ucast v)"
proof -
  have val: "operand_value v size_fields = ucast (v AND mask 16)"
    by (simp add: size_fields_def mask_eq_exp_minus_1 flip: unsigned_or_eq bit.conj_disj_distrib)
  show ?thesis
  proof (cases "v = 0x10000")
    case True
    then show ?thesis unfolding val by (simp add: mask_eq_exp_minus_1)
  next
    case False
    then have "unat v \<noteq> 0x10000" by (auto simp: word_unat_eq_iff)
    with assms have "unat v < 2 ^ 16" by simp
    then have "unat (v AND mask 16) = unat v" by (simp add: unat_and_mask)
    then have "v AND mask 16 = v" by (simp add: word_unat_eq_iff)
    with False show ?thesis by (simp add: val)
  qed
qed

lemma read_copy_encode:
  assumes "0 < msize" "unat msize \<le> 0x10000"
  shows "\<exists>cmd args. encode_copy moff msize = cmd # args \<and> cmd AND 0x80 \<noteq> 0 \<and> length args \<le> 6
    \<and> read_copy cmd (args @ rest) = Some ((ucast moff, ucast msize), rest)"
proof -
  let ?cmd = "0x80 OR operand_flags moff off_fields OR operand_flags msize size_fields"
  let ?off = "operand_bytes moff off_fields" and ?sz = "operand_bytes msize size_fields"
  have flags: "?cmd AND 0x80 \<noteq> 0"
    "\<forall>(m, sh, flag) \<in> set off_fields. m = push_bit sh 0xff \<and> sh + 8 \<le> 32
      \<and> (?cmd AND flag \<noteq> 0 \<longleftrightarrow> moff AND m \<noteq> 0)"
    "\<forall>(m, sh, flag) \<in> set size_fields. m = push_bit sh 0xff \<and> sh + 8 \<le> 32
      \<and> (?cmd AND flag \<noteq> 0 \<longleftrightarrow> msize AND m \<noteq> 0)"
    by (simp_all add: off_fields_def size_fields_def)
  have nz: "(ucast msize :: u64) \<noteq> 0"
    using assms(1) unat_ucast_up [of msize, where 'b = 64] by (auto simp: word_less_nat_alt)
  have fs: "map (\<lambda>(m, sh, flag). (flag, sh)) off_fields = [(0x01, 0), (0x02, 8), (0x04, 16), (0x08, 24)]"
    "map (\<lambda>(m, sh, flag). (flag, sh)) size_fields = [(0x10, 0), (0x20, 8)]"
    by (simp_all add: off_fields_def size_fields_def)
  have hi: "?cmd AND 0x40 = 0" by (simp add: off_fields_def size_fields_def)
  have "read_operand ?cmd [(0x10, 0), (0x20, 8), (0x40, 16)] 0 (?sz @ rest)
      = Some (operand_value msize size_fields, rest)" for rest
    using read_operand_bytes [OF flags(3), of 0 rest] read_operand_unset [OF hi, of "[(0x10, 0), (0x20, 8)]" 16]
    unfolding fs by simp
  then have "read_copy ?cmd ((?off @ ?sz) @ rest) = Some ((ucast moff, ucast msize), rest)"
    using read_operand_bytes [OF flags(2), of 0 "?sz @ rest"] nz assms(2)
    unfolding read_copy_def fs operand_value_off
    by (simp add: operand_value_size del: read_operand.simps)
  with flags(1) show ?thesis
    unfolding encode_copy_eq by (intro exI conjI) (auto simp: off_fields_def size_fields_def)
qed

subsection \<open>Abstract deltas\<close>

datatype delta_op = Copy nat nat | Insert "byte list"

fun op_ok :: "byte list \<Rightarrow> delta_op \<Rightarrow> bool" where
  "op_ok src (Copy off len) = (0 < len \<and> len \<le> 0x10000 \<and> off + len \<le> length src \<and> off < 2 ^ 32)"
| "op_ok src (Insert bs) = (0 < length bs \<and> length bs < 128)"

fun apply_op :: "byte list \<Rightarrow> delta_op \<Rightarrow> byte list" where
  "apply_op src (Copy off len) = take len (drop off src)"
| "apply_op src (Insert bs) = bs"

fun encode_op :: "delta_op \<Rightarrow> byte list" where
  "encode_op (Copy off len) = encode_copy (word_of_nat off) (word_of_nat len)"
| "encode_op (Insert bs) = word_of_nat (length bs) # bs"

definition apply_ops :: "byte list \<Rightarrow> delta_op list \<Rightarrow> byte list" where
  "apply_ops src ops = concat (map (apply_op src) ops)"

definition encode_ops :: "delta_op list \<Rightarrow> byte list" where
  "encode_ops ops = concat (map encode_op ops)"

lemma apply_ops_simps [simp]:
  "apply_ops src [] = []" "apply_ops src (p # ps) = apply_op src p @ apply_ops src ps"
  "apply_ops src (ps @ qs) = apply_ops src ps @ apply_ops src qs"
  by (simp_all add: apply_ops_def)

lemma encode_ops_simps [simp]:
  "encode_ops [] = []" "encode_ops (p # ps) = encode_op p @ encode_ops ps"
  "encode_ops (ps @ qs) = encode_ops ps @ encode_ops qs"
  by (simp_all add: encode_ops_def)

text \<open>Replaying one operation.\<close>

lemma patch_loop_copy:
  assumes "op_ok src (Copy off len)" "len \<le> unat sz" "length src < 2 ^ 64"
  shows "patch_loop src (encode_op (Copy off len) @ rest) out sz
    = patch_loop src rest (out @ take len (drop off src)) (sz - word_of_nat len)"
proof -
  let ?off = "word_of_nat off :: u32" and ?len = "word_of_nat len :: u32"
  have len: "0 < len" "len \<le> 0x10000" "off < 2 ^ 32" "off + len \<le> length src" using assms by simp_all
  have u: "unat ?off = off" "unat ?len = len" using len by (simp_all add: unat_of_nat_small)
  have "0 < ?len" "unat ?len \<le> 0x10000" using len u by (simp_all add: word_less_nat_alt)
  from read_copy_encode [OF this, of ?off rest]
  obtain cmd args where enc: "encode_copy ?off ?len = cmd # args" "cmd AND 0x80 \<noteq> 0"
    "read_copy cmd (args @ rest) = Some ((ucast ?off, ucast ?len), rest)" by blast
  have w: "(ucast ?off :: u64) = word_of_nat off" "(ucast ?len :: u64) = word_of_nat len"
    using u len by (auto simp: word_unat_eq_iff unat_ucast_up unat_of_nat_small)
  have uu: "unat (word_of_nat off :: u64) = off" "unat (word_of_nat len :: u64) = len"
    "unat (word_of_nat (length src) :: u64) = length src"
    using len assms(3) by (simp_all add: unat_of_nat_small)
  have sum: "unat (word_of_nat off + word_of_nat len :: u64) = off + len"
    using len assms(3) by (simp add: unat_word_ariths uu)
  have "unat (NOT 0 - word_of_nat off :: u64) = 2 ^ 64 - 1 - off"
  proof -
    have "(NOT 0 :: u64) = 18446744073709551615" by simp
    then show ?thesis using len
      by (simp only:) (subst unat_sub, simp_all add: word_le_nat_alt uu)
  qed
  then have "\<not> (word_of_nat len > NOT 0 - (word_of_nat off :: u64)
      \<or> (word_of_nat off :: u64) + word_of_nat len > word_of_nat (length src) \<or> word_of_nat len > sz)"
    using len assms by (simp add: word_less_nat_alt sum uu)
  with enc show ?thesis by (simp add: patch_loop.simps(2) w uu)
qed

lemma patch_loop_insert:
  assumes "op_ok src (Insert bs)" "length bs \<le> unat sz"
  shows "patch_loop src (encode_op (Insert bs) @ rest) out sz
    = patch_loop src rest (out @ bs) (sz - word_of_nat (length bs))"
proof -
  let ?n = "word_of_nat (length bs) :: byte"
  have u: "unat ?n = length bs" using assms(1) by (simp add: unat_of_nat_small)
  have "?n AND 0x80 = 0" using u assms(1) by (simp add: and_128_eq_0_iff)
  moreover have "?n \<noteq> 0" using u assms(1) by auto
  moreover have w: "(ucast ?n :: u64) = word_of_nat (length bs)"
    using u assms(1) by (simp add: word_unat_eq_iff unat_ucast_up unat_of_nat_small)
  moreover have "\<not> (word_of_nat (length bs) > sz)"
    using assms by (simp add: word_less_nat_alt unat_of_nat_small)
  ultimately show ?thesis by (simp add: patch_loop.simps(2) u)
qed

lemma patch_loop_ops:
  assumes "list_all (op_ok src) ops" "length (apply_ops src ops) = unat sz" "length src < 2 ^ 64"
  shows "patch_loop src (encode_ops ops) out sz = Got (out @ apply_ops src ops)"
  using assms(1,2)
proof (induction ops arbitrary: out sz)
  case Nil
  then have "sz = 0" by (simp add: unat_eq_zero)
  then show ?case by (simp add: patch_finish_def)
next
  case (Cons p ops)
  have le: "length (apply_op src p) \<le> unat sz" using Cons.prems by simp
  then have lt: "length (apply_op src p) < 2 ^ 64" using unat_lt_size [of sz] by simp
  then have "unat (sz - word_of_nat (length (apply_op src p))) = unat sz - length (apply_op src p)"
    using le by (subst unat_sub) (simp_all add: word_le_nat_alt unat_of_nat_small)
  then have IH: "patch_loop src (encode_ops ops) out' (sz - word_of_nat (length (apply_op src p)))
      = Got (out' @ apply_ops src ops)" for out'
    using Cons.prems by (intro Cons.IH) simp_all
  show ?case
  proof (cases p)
    case (Copy off len)
    then have "length (apply_op src p) = len" using Cons.prems by auto
    with Copy IH show ?thesis
      using Cons.prems(1) le assms(3) patch_loop_copy [of src off len sz "encode_ops ops" out] by simp
  next
    case (Insert bs)
    with IH show ?thesis
      using Cons.prems(1) le patch_loop_insert [of src bs sz "encode_ops ops" out] by simp
  qed
qed

subsection \<open>The size header\<close>

lemma delta_hdr_length: "unat v < 2 ^ (7 * k) \<Longrightarrow> 0 < k \<Longrightarrow> length (delta_hdr v) \<le> k"
proof (induction v arbitrary: k rule: delta_hdr.induct)
  case (1 v)
  show ?case
  proof (cases "v \<ge> 0x80")
    case True
    then have "128 \<le> unat v" by (simp add: word_le_nat_alt)
    with 1 obtain j where k: "k = Suc (Suc j)"
      by (cases k; cases "k - 1") auto
    have "unat (drop_bit 7 v) < 2 ^ (7 * Suc j)"
      using 1(2) k by (simp add: unat_drop_bit power_add less_mult_imp_div_less)
    then have "length (delta_hdr (drop_bit 7 v)) \<le> Suc j" by (intro 1(1) [OF True]) auto
    then show ?thesis using True k by (simp add: delta_hdr.simps [of v])
  next
    case False
    with 1 show ?thesis by (simp add: delta_hdr.simps [of v])
  qed
qed

lemma delta_hdr_le_5: "length (delta_hdr v) \<le> 5"
proof (rule delta_hdr_length)
  have "unat v < 2 ^ 32" using unat_lt_size [of v] by simp
  also have "\<dots> \<le> 2 ^ (7 * 5)" by (rule power_increasing) auto
  finally show "unat v < 2 ^ (7 * 5)" .
qed simp

lemma delta_hdr_not_Nil [simp]: "delta_hdr v \<noteq> []"
  by (subst delta_hdr.simps) simp

lemma hdr_byte:
  fixes v :: u32
  shows "(ucast (v OR 0x80) :: byte) AND 0x80 \<noteq> 0"
    and "(ucast ((ucast (v OR 0x80) :: byte) AND 0x7f) :: u64) = ucast (v AND mask 7)"
    and "(ucast ((ucast v :: byte) AND 0x7f) :: u64) = ucast (v AND mask 7)"
    and "(v OR 0x80) AND mask 7 = v AND mask 7"
proof -
  have "(0x80 :: u32) = push_bit 7 1" by simp
  then show "(ucast (v OR 0x80) :: byte) AND 0x80 \<noteq> 0"
    by (simp only: and_128_iff_bit) (simp add: bit_simps)
  have ex: "(128 :: u32) = push_bit 7 1" "(127 :: byte) = mask 7" by (simp_all add: mask_eq_exp_minus_1)
  show "(ucast ((ucast (v OR 0x80) :: byte) AND 0x7f) :: u64) = ucast (v AND mask 7)"
    "(ucast ((ucast v :: byte) AND 0x7f) :: u64) = ucast (v AND mask 7)"
    "(v OR 0x80) AND mask 7 = v AND mask 7"
    unfolding ex by (rule bit_eqI, auto simp: bit_simps simp del: push_bit_of_1)+
qed

lemma hdr_size_loop_enc:
  "i + 7 * length (delta_hdr v) \<le> 70 \<Longrightarrow>
   delta_hdr_size_loop (delta_hdr v @ rest) sz i = Got (sz OR push_bit i (ucast v), rest)"
proof (induction v arbitrary: sz i rule: delta_hdr.induct)
  case (1 v)
  show ?case
  proof (cases "v \<ge> 0x80")
    case True
    let ?w = "drop_bit 7 v"
    have hdr: "delta_hdr v = ucast (v OR 0x80) # delta_hdr ?w"
      using True by (simp add: delta_hdr.simps [of v])
    with 1(2) have i: "i + 7 + 7 * length (delta_hdr ?w) \<le> 70" by simp
    moreover have "0 < length (delta_hdr ?w)" by simp
    ultimately have "i < 64" by linarith
    have join: "push_bit i (ucast (v AND mask 7) :: u64) OR push_bit (i + 7) (ucast ?w) = push_bit i (ucast v)"
    proof (rule bit_eqI)
      fix n
      have "i + 7 \<le> n \<Longrightarrow> 7 + (n - (i + 7)) = n - i" by simp
      then show "bit (push_bit i (ucast (v AND mask 7) :: u64) OR push_bit (i + 7) (ucast ?w)) n
          = bit (push_bit i (ucast v) :: u64) n"
        by (cases "n < i + 7") (auto simp: bit_simps dest: bit_imp_le_length)
    qed
    show ?thesis
      using \<open>i < 64\<close> 1(1) [OF True i] unfolding hdr
      by (simp add: hdr_byte or.assoc join)
  next
    case False
    then have small: "unat v < 128" by (simp add: word_le_nat_alt)
    have "unat (ucast v :: byte) = unat v" using small by (simp add: unsigned_ucast_eq take_bit_eq_mod)
    then have "(ucast v :: byte) AND 0x80 = 0" using small by (simp add: and_128_eq_0_iff)
    moreover have "v AND mask 7 = v"
    proof -
      have "unat (v AND mask 7) = unat v" using small by (simp add: unat_and_mask)
      then show ?thesis by (simp add: word_unat_eq_iff)
    qed
    moreover have "i < 64" using 1(2) False by (simp add: delta_hdr.simps [of v])
    ultimately show ?thesis
      using False by (simp add: delta_hdr.simps [of v] hdr_byte)
  qed
qed

lemma get_delta_hdr_size_enc: "get_delta_hdr_size (delta_hdr v @ rest) = Got (ucast v, rest)"
  using hdr_size_loop_enc [of 0 v rest 0] delta_hdr_le_5 [of v] by (simp add: get_delta_hdr_size_def)

text \<open>Replaying a whole encoded delta.\<close>

lemma encode_op_length:
  "op_ok src p \<Longrightarrow> 1 \<le> length (encode_op p) \<and> (2 \<le> length (encode_op p) \<or> 128 \<le> length (apply_op src p))"
proof (cases p)
  case (Copy off len)
  assume ok: "op_ok src p"
  show ?thesis
  proof (cases "len < 128")
    case True
    then have "unat ((word_of_nat len :: u32) AND mask 8) \<noteq> 0"
      using ok Copy by (simp add: unat_and_mask unat_of_nat_small)
    then have "(word_of_nat len :: u32) AND 0xff \<noteq> 0" by (auto simp: mask_eq_exp_minus_1)
    with Copy show ?thesis by (simp add: encode_copy_eq size_fields_def)
  next
    case False
    then have "128 \<le> length (apply_op src p)" using Copy ok by auto
    with Copy show ?thesis by (simp add: encode_copy_eq)
  qed
next
  case (Insert bs)
  assume "op_ok src p"
  with Insert show ?thesis by (cases bs) auto
qed

definition encode_delta :: "byte list \<Rightarrow> byte list \<Rightarrow> delta_op list \<Rightarrow> byte list" where
  "encode_delta src trg ops =
     delta_hdr (word_of_nat (length src)) @ delta_hdr (word_of_nat (length trg)) @ encode_ops ops"

lemma patch_delta_ops:
  assumes ops: "list_all (op_ok src) ops" "apply_ops src ops = trg" "trg \<noteq> []"
    and "length src < 2 ^ 32" "length trg < 2 ^ 32"
  shows "patch_delta src (encode_delta src trg ops) = Got trg"
proof -
  obtain p ps where p: "ops = p # ps" using ops by (cases ops) auto
  have h1: "1 \<le> length (delta_hdr v)" for v by (simp add: Suc_leI)
  have h2: "128 \<le> unat v \<Longrightarrow> 2 \<le> length (delta_hdr v)" for v
    using h1 [of "drop_bit 7 v"] by (subst delta_hdr.simps) (simp add: word_le_nat_alt)
  have "op_ok src p" using ops p by simp
  then have "1 \<le> length (encode_op p)" "2 \<le> length (encode_op p) \<or> 128 \<le> length trg"
    using encode_op_length [of src p] ops p by auto
  moreover have "unat (word_of_nat (length trg) :: u32) = length trg"
    using assms by (simp add: unat_of_nat_small)
  ultimately have "\<not> length (encode_delta src trg ops) < DELTA_SIZE_MIN"
    using h1 [of "word_of_nat (length src)"] h1 [of "word_of_nat (length trg)"]
      h2 [of "word_of_nat (length trg)"] p
    by (auto simp: DELTA_SIZE_MIN_def encode_delta_def)
  moreover have sizes: "ucast (word_of_nat n :: u32) = (word_of_nat n :: u64)" if "n < 2 ^ 32" for n
    using that by (simp add: word_unat_eq_iff unat_ucast_up unat_of_nat_small)
  moreover have "unat (word_of_nat (length trg) :: u64) = length trg"
    using assms(5) by (simp add: unat_of_nat_small)
  ultimately show ?thesis
    using assms patch_loop_ops [of src ops "word_of_nat (length trg)" "[]"]
    by (simp add: patch_delta_def encode_delta_def get_delta_hdr_size_enc)
qed

subsection \<open>Matches\<close>

definition match_at :: "byte list \<Rightarrow> byte list \<Rightarrow> nat \<Rightarrow> nat \<Rightarrow> nat \<Rightarrow> bool" where
  "match_at src trg pos moff msize = (moff + msize \<le> length src \<and> pos + msize \<le> length trg
     \<and> take msize (drop moff src) = take msize (drop pos trg))"

lemma match_len_spec:
  "match_len k xs ys \<le> k \<and> match_len k xs ys \<le> length xs \<and> match_len k xs ys \<le> length ys
    \<and> take (match_len k xs ys) xs = take (match_len k xs ys) ys"
  by (induction k xs ys rule: match_len.induct) auto

lemma find_match_ok:
  assumes "match_at src trg pos (unat moff) (unat msize)" "\<forall>e \<in> set es. ie_ptr e < length src"
    and "length src < 2 ^ 32" "length trg < 2 ^ 32" "pos \<le> length trg"
  shows "case find_match src trg pos val es (moff, msize) of (moff', msize') \<Rightarrow>
    match_at src trg pos (unat moff') (unat msize')"
  using assms(1,2)
proof (induction es arbitrary: moff msize)
  case (Cons e es)
  define ref_size :: u32 where "ref_size = (let ref_size = word_of_nat (length src - ie_ptr e) in
      if unat ref_size > length trg - pos then word_of_nat (length trg - pos) else ref_size)"
  define n where "n = match_len (unat ref_size) (drop pos trg) (drop (ie_ptr e) src)"
  have n: "n \<le> length trg - pos" "n \<le> length src - ie_ptr e"
    "take n (drop (ie_ptr e) src) = take n (drop pos trg)"
    using match_len_spec [of "unat ref_size" "drop pos trg" "drop (ie_ptr e) src"] by (simp_all add: n_def)
  have e: "ie_ptr e < length src" using Cons.prems by simp
  have "n < 2 ^ 32" "ie_ptr e < 2 ^ 32" using n(1) e assms(3,4) by linarith+
  then have u: "unat (word_of_nat n :: u32) = n" "unat (word_of_nat (ie_ptr e) :: u32) = ie_ptr e"
    by (simp_all add: unat_of_nat_small)
  have better: "match_at src trg pos (unat (word_of_nat (ie_ptr e) :: u32)) (unat (word_of_nat n :: u32))"
    using n e assms(5) unfolding u match_at_def by (intro conjI) linarith+
  have "find_match src trg pos val (e # es) (moff, msize) =
     (if ie_val e \<noteq> val then find_match src trg pos val es (moff, msize)
      else if ref_size \<le> msize then (moff, msize)
      else if unat msize < n then
        if word_of_nat n \<ge> (4096 :: u32) then (word_of_nat (ie_ptr e), word_of_nat n)
        else find_match src trg pos val es (word_of_nat (ie_ptr e), word_of_nat n)
      else find_match src trg pos val es (moff, msize))"
    unfolding n_def ref_size_def Let_def by (simp only: find_match.simps Let_def)
  with Cons.IH [OF Cons.prems(1)] Cons.IH [OF better] Cons.prems better show ?case
    by (simp split: if_splits)
qed simp

text \<open>Taking pending bytes back into a match.\<close>

lemma match_at_back:
  assumes "match_at src trg pos moff msize" "0 < moff" "0 < pos" "src ! (moff - 1) = trg ! (pos - 1)"
  shows "match_at src trg (pos - 1) (moff - 1) (msize + 1)"
proof -
  have "moff - 1 < length src" "pos - 1 < length trg"
    using assms by (auto simp: match_at_def)
  then have "drop (moff - 1) src = src ! (moff - 1) # drop moff src"
    "drop (pos - 1) trg = trg ! (pos - 1) # drop pos trg"
    using assms(2,3) Cons_nth_drop_Suc by (metis Suc_diff_1)+
  with assms show ?thesis by (simp add: match_at_def)
qed

lemma back_match_ok:
  assumes "match_at src trg pos (unat moff) (unat msize)" "length pend = inscnt" "inscnt \<le> pos"
    and "0 < inscnt" "length trg < 2 ^ 32"
  shows "\<exists>j \<le> inscnt. \<exists>moff' msize'.
    back_match src trg inscnt (moff, msize, pos, pre @ x # pend) =
      (if j = inscnt then -1 else int (inscnt - j), moff', msize', pos - j,
       if j = inscnt then pre else pre @ x # take (inscnt - j) pend)
    \<and> match_at src trg (pos - j) (unat moff') (unat msize') \<and> unat msize' = unat msize + j"
  using assms(1-4)
proof (induction inscnt arbitrary: moff msize pos pend)
  case (Suc k)
  show ?case
  proof (cases "moff \<noteq> 0 \<and> src ! (unat moff - 1) = trg ! (pos - 1)")
    case False
    with Suc.prems show ?thesis
      by (intro exI [of _ 0] conjI exI [of _ moff] exI [of _ msize]) auto
  next
    case True
    then have "0 < unat moff" by (simp add: unat_gt_0)
    have "unat msize + 1 < 2 ^ 32" using Suc.prems assms(5) by (auto simp: match_at_def)
    then have u: "unat (msize + 1) = unat msize + 1" "unat (moff - 1) = unat moff - 1"
      using True by (simp_all add: unat_word_ariths unat_dec)
    have m: "match_at src trg (pos - 1) (unat (moff - 1)) (unat (msize + 1))"
      using match_at_back [OF Suc.prems(1) \<open>0 < unat moff\<close>] True Suc.prems(3) unfolding u by simp
    have pend: "pend \<noteq> []" using Suc.prems by auto
    show ?thesis
    proof (cases "k = 0")
      case True
      have "butlast (butlast (pre @ x # pend)) = pre"
        using True Suc.prems by (auto simp: length_Suc_conv butlast_append)
      with True \<open>moff \<noteq> 0 \<and> _\<close> have "back_match src trg (Suc k) (moff, msize, pos, pre @ x # pend)
          = (- 1, moff - 1, msize + 1, pos - 1, pre)" by simp
      with True m u show ?thesis
        by (intro exI [of _ 1]) simp
    next
      case False
      have out: "butlast (pre @ x # pend) = pre @ x # butlast pend" using pend by (simp add: butlast_append)
      have "k \<le> pos - 1" "length (butlast pend) = k" "0 < k" using Suc.prems False by auto
      from Suc.IH [OF m this(2,1,3)] obtain j moff' msize' where j: "j \<le> k"
        "back_match src trg k (moff - 1, msize + 1, pos - 1, pre @ x # butlast pend) =
          (if j = k then -1 else int (k - j), moff', msize', pos - 1 - j,
           if j = k then pre else pre @ x # take (k - j) (butlast pend))"
        "match_at src trg (pos - 1 - j) (unat moff') (unat msize')" "unat msize' = unat (msize + 1) + j"
        by blast
      have "take (k - j) (butlast pend) = take (Suc k - Suc j) pend"
        using Suc.prems by (simp add: butlast_conv_take min_def)
      with j True False u show ?thesis
        by (intro exI [of _ "Suc j"] conjI exI [of _ moff'] exI [of _ msize']) (simp_all add: out)
    qed
  qed
qed simp

subsection \<open>The writer keeps an encoded delta of the target read so far\<close>

definition pend_bytes :: "byte \<Rightarrow> byte list \<Rightarrow> byte list" where
  "pend_bytes x pend = (if pend = [] then [] else x # pend)"

definition delta_core :: "byte list \<Rightarrow> byte list \<Rightarrow> delta_op list \<Rightarrow> byte list \<Rightarrow> delta_state \<Rightarrow> bool" where
  "delta_core src trg ops pend st =
     ((\<exists>x. ds_out st = encode_delta src trg ops @ pend_bytes x pend)
      \<and> list_all (op_ok src) ops \<and> ds_inscnt st = int (length pend) \<and> length pend < 127
      \<and> apply_ops src ops @ pend = take (ds_pos st) trg \<and> ds_pos st \<le> length trg
      \<and> match_at src trg (ds_pos st) (unat (ds_moff st)) (unat (ds_msize st))
      \<and> (ds_pos st < length trg \<longrightarrow> RABIN_WINDOW \<le> ds_pos st))"

text \<open>The hash of the sixteen bytes that end before \<open>pos\<close>.\<close>

definition window_hash :: "byte list \<Rightarrow> nat \<Rightarrow> u32" where
  "window_hash trg pos = rabin_hash (take RABIN_WINDOW (drop (pos - RABIN_WINDOW) trg))"

definition delta_inv :: "byte list \<Rightarrow> byte list \<Rightarrow> delta_state \<Rightarrow> bool" where
  "delta_inv src trg st =
     ((\<exists>ops pend. delta_core src trg ops pend st)
      \<and> (ds_pos st < length trg \<and> ds_msize st < 4096 \<longrightarrow> ds_val st = window_hash trg (ds_pos st))
      \<and> length (ds_out st) \<le> 11 + 2 * ds_pos st)"

lemma encode_delta_snoc: "encode_delta src trg (ops @ ps) = encode_delta src trg ops @ encode_ops ps"
  by (simp add: encode_delta_def)

lemma window_roll:
  assumes "RABIN_WINDOW \<le> pos" "pos < length trg"
  shows "rabin_roll (window_hash trg pos) (trg ! (pos - RABIN_WINDOW)) (trg ! pos) = window_hash trg (pos + 1)"
proof -
  define w where "w = take 15 (drop (pos - 15) trg)"
  have len: "length w = 15" using assms by (simp add: w_def RABIN_WINDOW_def)
  have "drop (pos - 16) trg = trg ! (pos - 16) # drop (Suc (pos - 16)) trg"
    using assms by (subst Cons_nth_drop_Suc) (simp_all add: RABIN_WINDOW_def)
  moreover have "Suc (pos - 16) = pos - 15" using assms by (simp add: RABIN_WINDOW_def)
  ultimately have "take 16 (drop (pos - 16) trg) = trg ! (pos - 16) # w"
    by (simp add: w_def)
  moreover have "take 16 (drop (pos + 1 - 16) trg) = w @ [trg ! pos]"
  proof -
    have "take (Suc 15) (drop (pos - 15) trg) = w @ [drop (pos - 15) trg ! 15]"
      using assms by (subst take_Suc_conv_app_nth) (simp_all add: w_def RABIN_WINDOW_def)
    moreover have "pos + 1 - 16 = pos - 15" using assms by (simp add: RABIN_WINDOW_def)
    ultimately show ?thesis using assms by (simp add: RABIN_WINDOW_def)
  qed
  ultimately show ?thesis
    using rabin_roll_hash [OF len, of "trg ! (pos - 16)" "trg ! pos"]
    by (simp add: window_hash_def RABIN_WINDOW_def)
qed

text \<open>The index only has to point into the source.\<close>

definition index_ok :: "delta_index \<Rightarrow> bool" where
  "index_ok ix = (\<forall>i \<le> unat (di_mask ix). \<forall>e \<in> set (index_bucket ix i). ie_ptr e < length (di_src ix))"

lemma delta_find_ok:
  assumes "delta_inv src trg st" "index_ok ix" "di_src ix = src" "ds_pos st < length trg"
    and "length src < 2 ^ 32" "length trg < 2 ^ 32" "delta_core src trg ops pend st"
  defines "st' \<equiv> delta_find ix trg st"
  shows "delta_core src trg ops pend st'" "ds_pos st' = ds_pos st" "ds_out st' = ds_out st"
    "ds_outsize st' = ds_outsize st"
    "ds_msize st' < 4 \<Longrightarrow> ds_val st' = window_hash trg (ds_pos st + 1)"
proof -
  have "delta_core src trg ops pend st' \<and> ds_pos st' = ds_pos st \<and> ds_out st' = ds_out st
    \<and> ds_outsize st' = ds_outsize st \<and> (ds_msize st' < 4 \<longrightarrow> ds_val st' = window_hash trg (ds_pos st + 1))"
  proof (cases "ds_msize st < 4096")
    case True
    define val where "val = rabin_roll (ds_val st) (trg ! (ds_pos st - RABIN_WINDOW)) (trg ! ds_pos st)"
    have val: "val = window_hash trg (ds_pos st + 1)"
      using assms(1,4,7) True window_roll [of "ds_pos st" trg]
      by (simp add: val_def delta_inv_def delta_core_def)
    let ?b = "index_bucket ix (unat (val AND di_mask ix))"
    obtain moff msize where f: "find_match src trg (ds_pos st) val ?b (ds_moff st, ds_msize st) = (moff, msize)"
      by fastforce
    have "\<forall>e \<in> set ?b. ie_ptr e < length src"
      using assms(2,3) unat_and_le [of val "di_mask ix"] by (simp add: index_ok_def)
    then have "match_at src trg (ds_pos st) (unat moff) (unat msize)"
      using find_match_ok [of src trg "ds_pos st" "ds_moff st" "ds_msize st" ?b val] assms(4-7) f
      by (simp add: delta_core_def)
    moreover have "st' = st\<lparr>ds_moff := moff, ds_msize := msize, ds_val := val\<rparr>"
      unfolding st'_def delta_find_def Let_def val_def [symmetric] assms(3) using True f by simp
    ultimately show ?thesis using assms(7) val by (simp add: delta_core_def)
  next
    case False
    then have "\<not> ds_msize st < 4" by (simp add: word_less_nat_alt)
    with False assms(7) show ?thesis by (simp add: st'_def delta_find_def)
  qed
  then show "delta_core src trg ops pend st'" "ds_pos st' = ds_pos st" "ds_out st' = ds_out st"
    "ds_outsize st' = ds_outsize st"
    "ds_msize st' < 4 \<Longrightarrow> ds_val st' = window_hash trg (ds_pos st + 1)" by blast+
qed

lemma update_count_slot:
  "list_update (pre @ x # bs) (nat (int (length (pre @ x # bs)) - int (length bs) - 1)) y = pre @ y # bs"
  by simp

lemma delta_insert_ok:
  assumes core: "delta_core src trg ops pend st" and pos: "ds_pos st < length trg"
  defines "st' \<equiv> delta_insert trg st"
  shows "\<exists>ops' pend'. delta_core src trg ops' pend' st'" "ds_pos st' = ds_pos st + 1"
    "length (ds_out st') \<le> length (ds_out st) + 2" "ds_outsize st' = ds_outsize st"
    "ds_val st' = ds_val st" "length (ds_out st) \<le> length (ds_out st')"
proof -
  let ?b = "trg ! ds_pos st" and ?hdr = "encode_delta src trg ops"
  let ?new = "pend @ [?b]"
  obtain x where x: "ds_out st = ?hdr @ pend_bytes x pend" using core by (auto simp: delta_core_def)
  let ?x = "if pend = [] then 0 else x"
  have out: "(if ds_inscnt st = 0 then ds_out st @ [0] else ds_out st) @ [?b] = ?hdr @ ?x # ?new"
    using x core by (auto simp: delta_core_def pend_bytes_def)
  have cnt: "ds_inscnt st + 1 = int (length ?new)" using core by (simp add: delta_core_def)
  have read: "apply_ops src ops @ ?new = take (ds_pos st + 1) trg"
    using core pos by (simp add: delta_core_def take_Suc_conv_app_nth flip: append_assoc)
  have st': "st' = st\<lparr>ds_out := (if length ?new = 127 then ?hdr @ word_of_int (int (length ?new)) # ?new
        else ?hdr @ ?x # ?new), ds_pos := ds_pos st + 1,
      ds_inscnt := (if length ?new = 127 then 0 else int (length ?new)), ds_msize := 0\<rparr>"
    unfolding st'_def delta_insert_def Let_def out cnt update_count_slot by simp
  show "ds_pos st' = ds_pos st + 1" "ds_outsize st' = ds_outsize st" "ds_val st' = ds_val st"
    by (simp_all add: st')
  show "length (ds_out st') \<le> length (ds_out st) + 2" "length (ds_out st) \<le> length (ds_out st')"
    using x by (auto simp: st' pend_bytes_def)
  have m0: "match_at src trg (ds_pos st + 1) (unat (ds_moff st)) 0"
    using core pos by (simp add: delta_core_def match_at_def)
  show "\<exists>ops' pend'. delta_core src trg ops' pend' st'"
  proof (cases "length ?new = 127")
    case True
    then have "delta_core src trg (ops @ [Insert ?new]) [] st'"
      using core pos read m0 by (simp add: st' delta_core_def encode_delta_snoc pend_bytes_def)
    then show ?thesis by blast
  next
    case False
    then have "delta_core src trg ops ?new st'"
      using core pos read m0 by (auto simp: st' delta_core_def pend_bytes_def)
    then show ?thesis by blast
  qed
qed

lemma encode_copy_length: "1 \<le> length (encode_copy moff msize) \<and> length (encode_copy moff msize) \<le> 7"
  by (simp add: encode_copy_eq off_fields_def size_fields_def)

text \<open>The pending bytes after the backward extension: \<open>j\<close> of them were taken.\<close>

definition flush_ops :: "byte list \<Rightarrow> delta_op list" where
  "flush_ops bs = (if bs = [] then [] else [Insert bs])"

lemma back_match_flush:
  assumes "match_at src trg pos (unat moff) (unat msize)" "length pend \<le> pos" "pend \<noteq> []"
    and "length pend < 127" "length trg < 2 ^ 32"
  shows "\<exists>j \<le> length pend. \<exists>inscnt moff' msize' out'.
    back_match src trg (length pend) (moff, msize, pos, hdr @ x # pend) = (inscnt, moff', msize', pos - j, out')
    \<and> out'[nat (int (length out') - inscnt - 1) := word_of_int inscnt]
        = hdr @ encode_ops (flush_ops (take (length pend - j) pend))
    \<and> match_at src trg (pos - j) (unat moff') (unat msize') \<and> unat msize' = unat msize + j"
proof -
  obtain j moff' msize' where j: "j \<le> length pend"
    "back_match src trg (length pend) (moff, msize, pos, hdr @ x # pend) =
      (if j = length pend then -1 else int (length pend - j), moff', msize', pos - j,
       if j = length pend then hdr else hdr @ x # take (length pend - j) pend)"
    "match_at src trg (pos - j) (unat moff') (unat msize')" "unat msize' = unat msize + j"
    using back_match_ok [OF assms(1) refl assms(2), of hdr x] assms by auto
  show ?thesis
  proof (cases "j = length pend")
    case True
    with j list_update_beyond [of hdr "length hdr" "- 1"] show ?thesis
      by (intro exI [of _ j]) (auto simp: flush_ops_def)
  next
    case False
    let ?bs = "take (length pend - j) pend"
    have len: "length pend - j = length ?bs" "?bs \<noteq> []" using False j(1) assms(3) by auto
    have "(hdr @ x # ?bs)[nat (int (length (hdr @ x # ?bs)) - int (length ?bs) - 1) := word_of_int (int (length ?bs))]
        = hdr @ encode_ops (flush_ops ?bs)"
      using len(2) by (subst update_count_slot) (simp add: flush_ops_def)
    with j False show ?thesis
      by (intro exI [of _ j] conjI exI [of _ "int (length ?bs)"] exI [of _ moff'] exI [of _ msize']
            exI [of _ "hdr @ x # ?bs"]) simp_all
  qed
qed

lemma delta_copy_ok:
  assumes core: "delta_core src trg ops pend st" and pos: "ds_pos st < length trg"
    and ms: "\<not> ds_msize st < 4" and lens: "length src < 2 ^ 32" "length trg < 2 ^ 32"
  defines "st' \<equiv> delta_copy src trg st"
  shows "\<exists>ops' pend'. delta_core src trg ops' pend' st'" "ds_pos st + 4 \<le> ds_pos st'"
    "length (ds_out st') \<le> length (ds_out st) + 7" "ds_outsize st' = ds_outsize st"
    "ds_msize st' < 4096 \<Longrightarrow> ds_val st' = window_hash trg (ds_pos st')"
proof -
  let ?hdr = "encode_delta src trg ops"
  obtain x where x: "ds_out st = ?hdr @ pend_bytes x pend" using core by (auto simp: delta_core_def)
  have ms4: "4 \<le> unat (ds_msize st)" using ms by (simp add: word_less_nat_alt)
  have read: "apply_ops src ops @ pend = take (ds_pos st) trg" and cnt: "ds_inscnt st = int (length pend)"
    and m: "match_at src trg (ds_pos st) (unat (ds_moff st)) (unat (ds_msize st))" and p127: "length pend < 127"
    using core by (auto simp: delta_core_def)
  have "length (apply_ops src ops) + length pend = ds_pos st"
    using read core by (metis delta_core_def length_append length_take min_absorb2)
  then have pend_le: "length pend \<le> ds_pos st" by linarith
  obtain j moff msize out where j: "j \<le> length pend" "ds_pos st - j + j = ds_pos st"
    "out = ?hdr @ encode_ops (flush_ops (take (length pend - j) pend))"
    "match_at src trg (ds_pos st - j) (unat moff) (unat msize)" "unat msize = unat (ds_msize st) + j"
    "(if ds_inscnt st \<noteq> 0 then
        (let (inscnt, moff, msize, pos, out) =
          back_match src trg (nat (ds_inscnt st)) (ds_moff st, ds_msize st, ds_pos st, ds_out st) in
         (0, moff, msize, pos, out[nat (int (length out) - inscnt - 1) := word_of_int inscnt]))
      else (0 :: int, ds_moff st, ds_msize st, ds_pos st, ds_out st)) = (0, moff, msize, ds_pos st - j, out)"
  proof (cases "pend = []")
    case True
    then show ?thesis using that [of 0 ?hdr "ds_moff st" "ds_msize st"] m x cnt
      by (simp add: pend_bytes_def flush_ops_def)
  next
    case False
    from back_match_flush [OF m pend_le False p127 lens(2), of ?hdr x]
    show ?thesis using that x cnt pend_le False by (fastforce simp: pend_bytes_def)
  qed
  define left :: u32 where "left = (if msize < 0x10000 then 0 else msize - 0x10000)"
  define len where "len = msize - left"
  have u: "unat len = min (unat msize) 0x10000" "unat left = unat msize - unat len"
    "unat len + unat left = unat msize"
    by (auto simp: left_def len_def unat_sub word_less_nat_alt word_le_nat_alt)
  let ?pos = "ds_pos st - j + unat len"
  let ?bs = "take (length pend - j) pend"
  have st': "st' = st\<lparr>ds_out := out @ encode_copy moff len, ds_pos := ?pos, ds_inscnt := 0,
      ds_moff := moff + len, ds_msize := left,
      ds_val := (if left < 4096 then window_hash trg ?pos else ds_val st)\<rparr>"
    unfolding st'_def delta_copy_def j(6) by (simp add: Let_def left_def len_def window_hash_def)
  show "ds_outsize st' = ds_outsize st" "ds_msize st' < 4096 \<Longrightarrow> ds_val st' = window_hash trg (ds_pos st')"
    by (simp_all add: st')
  show pos': "ds_pos st + 4 \<le> ds_pos st'"
    using u(1) j(1,2,5) ms4 p127 by (simp add: st')
  have "length (pend_bytes x pend) = (if pend = [] then 0 else Suc (length pend))"
    by (simp add: pend_bytes_def)
  then show "length (ds_out st') \<le> length (ds_out st) + 7"
    using encode_copy_length [of moff len] x j(3) by (auto simp: st' flush_ops_def)
  have bounds: "unat moff + unat msize \<le> length src" "ds_pos st - j + unat msize \<le> length trg"
    "take (unat msize) (drop (unat moff) src) = take (unat msize) (drop (ds_pos st - j) trg)"
    using j(4) by (auto simp: match_at_def)
  have u': "unat (moff + len) = unat moff + unat len"
    using bounds(1) u lens(1) by (simp add: unat_word_ariths)
  have "take (unat len) (drop (unat moff) src) = take (unat len) (drop (ds_pos st - j) trg)"
    using arg_cong [OF bounds(3), of "take (unat len)"] u by (simp add: min_def split: if_splits)
  moreover have "take (ds_pos st - j) trg = apply_ops src ops @ ?bs"
  proof -
    have "take (ds_pos st - j) trg = take (ds_pos st - j) (apply_ops src ops @ pend)"
      by (simp add: read)
    moreover have "ds_pos st - j = length (apply_ops src ops) + (length pend - j)"
      using \<open>length (apply_ops src ops) + length pend = ds_pos st\<close> j(1) by linarith
    ultimately show ?thesis by (simp del: take_append) simp
  qed
  ultimately have applied: "apply_ops src ops @ ?bs @ take (unat len) (drop (unat moff) src) = take ?pos trg"
    by (simp add: take_add)
  have next_m: "match_at src trg ?pos (unat (moff + len)) (unat left)"
  proof -
    have "drop (unat len) (take (unat msize) (drop (unat moff) src))
        = drop (unat len) (take (unat msize) (drop (ds_pos st - j) trg))" using bounds(3) by simp
    then have "take (unat left) (drop (unat moff + unat len) src) = take (unat left) (drop ?pos trg)"
      using u by (simp add: drop_take ac_simps)
    then show ?thesis using bounds u by (simp add: match_at_def u')
  qed
  have "op_ok src (Copy (unat moff) (unat len))"
    using bounds(1) u ms4 j(5) unat_lt_size [of moff] by auto
  moreover have "list_all (op_ok src) (flush_ops ?bs)"
    using p127 by (auto simp: flush_ops_def)
  moreover have "apply_ops src (flush_ops ?bs) = ?bs" by (simp add: flush_ops_def)
  moreover have "encode_op (Copy (unat moff) (unat len)) = encode_copy moff len" by simp
  moreover have "?pos \<le> length trg" "RABIN_WINDOW \<le> ?pos"
    using bounds(2) u(1) core pos pos' by (auto simp: st' delta_core_def)
  ultimately have "delta_core src trg (ops @ flush_ops ?bs @ [Copy (unat moff) (unat len)]) [] st'"
    using core applied next_m
    by (auto simp: st' delta_core_def encode_delta_snoc pend_bytes_def j(3) simp del: encode_op.simps op_ok.simps)
  then show "\<exists>ops' pend'. delta_core src trg ops' pend' st'" by blast
qed

lemma delta_step_ok:
  assumes inv: "delta_inv src trg st" and ix: "index_ok ix" "di_src ix = src" and pos: "ds_pos st < length trg"
    and lens: "length src < 2 ^ 32" "length trg < 2 ^ 32"
  defines "st' \<equiv> delta_step ix trg st"
  shows "delta_inv src trg st'" "ds_pos st < ds_pos st'"
    "length (ds_out st') \<le> length (ds_out st) + 7" "ds_outsize st' = ds_outsize st"
proof -
  obtain ops pend where core: "delta_core src trg ops pend st" using inv by (auto simp: delta_inv_def)
  note find = delta_find_ok [OF inv ix pos lens core]
  have pos1: "ds_pos (delta_find ix trg st) < length trg" using pos find(2) by simp
  have "delta_inv src trg st' \<and> ds_pos st < ds_pos st'
      \<and> length (ds_out st') \<le> length (ds_out st) + 7 \<and> ds_outsize st' = ds_outsize st"
  proof (cases "ds_msize (delta_find ix trg st) < 4")
    case True
    then have st': "st' = delta_insert trg (delta_find ix trg st)" by (simp add: st'_def delta_step_def)
    note ins = delta_insert_ok [OF find(1) pos1]
    show ?thesis using inv ins find(2-4) find(5) [OF True] by (simp add: st' delta_inv_def)
  next
    case False
    then have st': "st' = delta_copy src trg (delta_find ix trg st)"
      by (simp add: st'_def delta_step_def ix(2))
    note cp = delta_copy_ok [OF find(1) pos1 False lens]
    show ?thesis using inv cp find(2-4) by (simp add: st' delta_inv_def)
  qed
  then show "delta_inv src trg st'" "ds_pos st < ds_pos st'"
    "length (ds_out st') \<le> length (ds_out st) + 7" "ds_outsize st' = ds_outsize st" by blast+
qed

subsection \<open>The output buffer\<close>

definition room :: "delta_state \<Rightarrow> bool" where
  "room st = (length (ds_out st) + 8 \<le> unat (ds_outsize st) \<and> 36 \<le> unat (ds_outsize st))"

lemma max_op_word: "(word_of_nat MAX_OP_SIZE :: 'a::len word) = 34"
  by (simp add: MAX_OP_SIZE_def RABIN_WINDOW_def)

lemma cap_outsize:
  assumes "max_size \<noteq> 0" "unat (max_size :: u64) < 2 ^ 31"
  shows "unat (ucast (max_size + word_of_nat MAX_OP_SIZE + 1) :: u32) = unat max_size + 35"
proof -
  have "max_size + word_of_nat MAX_OP_SIZE + 1 = max_size + 35" by (simp add: max_op_word)
  moreover have "unat (max_size + 35) = unat max_size + 35"
    using assms(2) by (simp add: unat_word_ariths)
  ultimately show ?thesis
    using assms(2) by (simp only: unsigned_ucast_eq) (simp add: take_bit_eq_mod)
qed

lemma grow_outsize_ok:
  assumes "36 \<le> unat sz" "unat sz < 2 ^ 30 + 46" "len \<le> unat sz"
    and "max_size = 0 \<or> len \<le> unat max_size"
  shows "len + 8 \<le> unat (grow_outsize max_size sz) \<and> 36 \<le> unat (grow_outsize max_size sz)"
proof -
  have g: "unat (sz * 3 div 2) = unat sz * 3 div 2"
    using assms(2) by (simp add: unat_div unat_word_ariths)
  show ?thesis
  proof (cases "max_size \<noteq> 0 \<and> ucast (sz * 3 div 2) \<ge> max_size")
    case True
    then have "unat max_size \<le> unat sz * 3 div 2"
      using g by (simp add: word_le_nat_alt unat_ucast_up)
    also have "\<dots> < 2 ^ 31" using assms(2) by simp
    finally have c: "unat (ucast (max_size + word_of_nat MAX_OP_SIZE + 1) :: u32) = unat max_size + 35"
      using True by (intro cap_outsize) auto
    have "0 < unat max_size" using True by (simp add: unat_gt_0)
    with True c assms(4) show ?thesis by (simp add: grow_outsize_def Let_def)
  next
    case False
    then have "grow_outsize max_size sz = sz * 3 div 2" by (auto simp: grow_outsize_def Let_def)
    moreover have "len + 8 \<le> unat sz * 3 div 2" "36 \<le> unat sz * 3 div 2"
      using assms(1,3) by linarith+
    ultimately show ?thesis using g by simp
  qed
qed

lemma delta_loop_ok:
  assumes "delta_inv src trg st" "room st" "length trg - ds_pos st < n"
    and ix: "index_ok ix" "di_src ix = src" and lens: "length src < 2 ^ 32" "length trg \<le> 2 ^ 29"
  shows "\<exists>st'. delta_loop ix trg max_size n st = Got st' \<and> delta_inv src trg st'
    \<and> (length trg \<le> ds_pos st' \<or> max_size \<noteq> 0 \<and> unat max_size < length (ds_out st'))"
  using assms(1-3)
proof (induction n arbitrary: st)
  case (Suc n)
  show ?case
  proof (cases "length trg \<le> ds_pos st")
    case True
    with Suc.prems show ?thesis by simp
  next
    case False
    define st1 where "st1 = delta_step ix trg st"
    have step: "delta_inv src trg st1" "ds_pos st < ds_pos st1"
      "length (ds_out st1) \<le> length (ds_out st) + 7" "ds_outsize st1 = ds_outsize st"
      using delta_step_ok [OF Suc.prems(1) ix _ lens(1)] False lens(2) by (auto simp: st1_def)
    let ?len = "length (ds_out st1)" and ?sz = "ds_outsize st1"
    have fit: "?len \<le> unat ?sz" "36 \<le> unat ?sz" using step Suc.prems(2) by (auto simp: room_def)
    have sub: "unat (?sz - word_of_nat MAX_OP_SIZE) = unat ?sz - 34"
      using fit(2) unfolding max_op_word by (simp add: unat_sub word_le_nat_alt)
    have left: "length trg - ds_pos st1 < n" using Suc.prems(3) step(2) False by linarith
    have run: "delta_loop ix trg max_size (Suc n) st =
       (if unat ?sz - 34 \<le> ?len then
          (if max_size \<noteq> 0 \<and> unat max_size < ?len then Got st1
           else delta_loop ix trg max_size n (st1\<lparr>ds_outsize := grow_outsize max_size ?sz\<rparr>))
        else delta_loop ix trg max_size n st1)"
      using False fit(1) sub by (simp add: Let_def flip: st1_def)
    show ?thesis
    proof (cases "unat ?sz - 34 \<le> ?len")
      case False
      then have "room st1" using fit by (simp add: room_def)
      from Suc.IH [OF step(1) this left] show ?thesis unfolding run using False by simp
    next
      case True
      show ?thesis
      proof (cases "max_size \<noteq> 0 \<and> unat max_size < ?len")
        case stop: True
        with True step(1) show ?thesis unfolding run by simp
      next
        case go: False
        have "ds_pos st1 \<le> length trg" "?len \<le> 11 + 2 * ds_pos st1"
          using step(1) by (auto simp: delta_inv_def delta_core_def)
        then have "unat ?sz < 2 ^ 30 + 46" using True lens(2) by simp
        from grow_outsize_ok [OF fit(2) this fit(1), of max_size] go
        have "room (st1\<lparr>ds_outsize := grow_outsize max_size ?sz\<rparr>)" by (auto simp: room_def)
        moreover have "delta_inv src trg (st1\<lparr>ds_outsize := grow_outsize max_size ?sz\<rparr>)"
          using step(1) by (simp add: delta_inv_def delta_core_def)
        ultimately show ?thesis
          unfolding run if_P [OF True] if_not_P [OF go]
          using left Suc.IH [of "st1\<lparr>ds_outsize := grow_outsize max_size ?sz\<rparr>"] by simp
      qed
    qed
  qed
qed simp

lemma delta_init_ok:
  assumes "trg \<noteq> []" "di_src ix = src"
  shows "delta_inv src trg (delta_init ix trg max_size)" "room (delta_init ix trg max_size)"
proof -
  let ?st = "delta_init ix trg max_size" and ?pend = "take RABIN_WINDOW trg"
  have "?pend \<noteq> []" "length ?pend \<le> 16" using assms(1) by (simp_all add: RABIN_WINDOW_def)
  have out: "ds_out ?st = encode_delta src trg [] @ pend_bytes 0 ?pend"
    using \<open>?pend \<noteq> []\<close> assms by (simp add: delta_init_def encode_delta_def pend_bytes_def)
  then have len: "length (ds_out ?st) \<le> 11 + length ?pend"
    using delta_hdr_le_5 [of "word_of_nat (length src)"] delta_hdr_le_5 [of "word_of_nat (length trg)"]
    by (auto simp: encode_delta_def pend_bytes_def)
  have "take (length ?pend) trg = ?pend" by (simp add: min_def)
  moreover have "(\<exists>x. ds_out ?st = encode_delta src trg [] @ pend_bytes x ?pend)" using out by blast
  ultimately have "delta_core src trg [] ?pend ?st"
    using \<open>length ?pend \<le> 16\<close> by (auto simp: delta_core_def delta_init_def match_at_def RABIN_WINDOW_def)
  moreover have "ds_pos ?st < length trg \<Longrightarrow> ds_val ?st = window_hash trg (ds_pos ?st)"
    by (simp add: delta_init_def window_hash_def min_def)
  moreover have "length (ds_out ?st) \<le> 11 + 2 * ds_pos ?st"
    using len by (simp add: delta_init_def)
  ultimately show "delta_inv src trg ?st" unfolding delta_inv_def by blast
  have "36 \<le> unat (ds_outsize ?st)"
  proof (cases "max_size \<noteq> 0 \<and> 8192 \<ge> max_size")
    case True
    then have "unat max_size < 2 ^ 31" by (simp add: word_le_nat_alt)
    with True cap_outsize [of max_size] show ?thesis
      by (simp add: delta_init_def unat_gt_0 Suc_leI)
  next
    case False
    then have "ds_outsize ?st = 8192" by (simp only: delta_init_def delta_state.simps if_False)
    then show ?thesis by simp
  qed
  with len \<open>length ?pend \<le> 16\<close> show "room ?st" by (simp add: room_def)
qed

lemma delta_flush_ok:
  assumes "delta_core src trg ops pend st"
  shows "delta_flush st = encode_delta src trg (ops @ flush_ops pend)"
    "length (delta_flush st) = length (ds_out st)"
proof -
  obtain x where x: "ds_out st = encode_delta src trg ops @ pend_bytes x pend"
    and n: "ds_inscnt st = int (length pend)" using assms by (auto simp: delta_core_def)
  show "delta_flush st = encode_delta src trg (ops @ flush_ops pend)"
  proof (cases "pend = []")
    case True
    with x n show ?thesis by (simp add: delta_flush_def pend_bytes_def flush_ops_def)
  next
    case False
    then have "ds_out st = encode_delta src trg ops @ x # pend" using x by (simp add: pend_bytes_def)
    with n False show ?thesis
      unfolding delta_flush_def by (simp only: update_count_slot)
        (simp add: encode_delta_snoc flush_ops_def)
  qed
  show "length (delta_flush st) = length (ds_out st)" by (simp add: delta_flush_def)
qed

text \<open>
  The whole writer: it returns, never leaves its buffer, and gives up only for a delta that is
  longer than \<open>max_size\<close>.
\<close>

lemma create_delta_ok:
  assumes ix: "index_ok ix" "di_src ix = src" and trg: "trg \<noteq> []"
    and lens: "length src < 2 ^ 32" "length trg \<le> 2 ^ 29"
  obtains ops where "create_delta ix trg max_size = Got (encode_delta src trg ops)"
      "list_all (op_ok src) ops" "apply_ops src ops = trg"
      "length (encode_delta src trg ops) \<le> 11 + 2 * length trg"
      "max_size = 0 \<or> length (encode_delta src trg ops) \<le> unat max_size"
    | "create_delta ix trg max_size = Bad" "max_size \<noteq> 0"
proof -
  let ?st0 = "delta_init ix trg max_size"
  note init = delta_init_ok [OF trg ix(2), of max_size]
  have "length trg - ds_pos ?st0 < length trg + 1" by simp
  from delta_loop_ok [OF init this ix lens, of max_size]
  obtain st where st: "delta_loop ix trg max_size (length trg + 1) ?st0 = Got st" "delta_inv src trg st"
    "length trg \<le> ds_pos st \<or> max_size \<noteq> 0 \<and> unat max_size < length (ds_out st)" by blast
  obtain ops pend where core: "delta_core src trg ops pend st" using st(2) by (auto simp: delta_inv_def)
  note flush = delta_flush_ok [OF core]
  have run: "create_delta ix trg max_size =
      (if max_size \<noteq> 0 \<and> unat max_size < length (delta_flush st) then Bad else Got (delta_flush st))"
    using trg init(2) st(1) by (simp add: create_delta_def Let_def room_def del: delta_loop.simps)
  show thesis
  proof (cases "max_size \<noteq> 0 \<and> unat max_size < length (delta_flush st)")
    case True
    with run that(2) show ?thesis by simp
  next
    case False
    then have pos: "ds_pos st = length trg" using st(3) flush(2) core by (auto simp: delta_core_def)
    have "apply_ops src (flush_ops pend) = pend" by (simp add: flush_ops_def)
    then have app: "apply_ops src (ops @ flush_ops pend) = trg" using core pos by (simp add: delta_core_def)
    have ok: "list_all (op_ok src) (ops @ flush_ops pend)" using core by (auto simp: delta_core_def flush_ops_def)
    have len: "length (delta_flush st) \<le> 11 + 2 * length trg"
      using st(2) pos flush(2) by (simp add: delta_inv_def)
    show ?thesis
      using that(1) [of "ops @ flush_ops pend"] run False app ok len by (auto simp flip: flush(1))
  qed
qed

lemma delta_index_ok:
  assumes "src \<noteq> []"
  obtains ix where "create_delta_index src = Got ix" "di_src ix = src" "index_ok ix"
  using create_delta_index_wf [OF assms] that by (auto simp: index_ok_def bucket_ok_def entry_ok_def)

subsection \<open>Deltas that are cut off\<close>

lemma read_operand_more:
  "read_operand cmd fs acc data = Some (v, rest) \<Longrightarrow> read_operand cmd fs acc (data @ us) = Some (v, rest @ us)"
  by (induction cmd fs acc data rule: read_operand.induct) (auto split: if_splits list.splits)

lemma read_copy_more:
  assumes "read_copy cmd data = Some (v, rest)"
  shows "read_copy cmd (data @ us) = Some (v, rest @ us)"
proof -
  obtain off d n where o: "read_operand cmd [(0x01, 0), (0x02, 8), (0x04, 16), (0x08, 24)] 0 data = Some (off, d)"
    and n: "read_operand cmd [(0x10, 0), (0x20, 8), (0x40, 16)] 0 d = Some (n, rest)" "v = (off, if n = 0 then 0x10000 else n)"
    using assms by (auto simp: read_copy_def simp del: read_operand.simps split: option.splits)
  show ?thesis
    unfolding read_copy_def read_operand_more [OF o] option.case prod.case read_operand_more [OF n(1)] n(2) ..
qed

text \<open>The operations in front of a delta are replayed whatever follows.\<close>

lemma patch_loop_front:
  assumes "list_all (op_ok src) ops" "length (apply_ops src ops) \<le> unat sz" "length src < 2 ^ 64"
  shows "\<exists>out' sz'. patch_loop src (encode_ops ops @ rest) out sz = patch_loop src rest out' sz' \<and> unat sz' = unat sz - length (apply_ops src ops)"
  using assms(1,2)
proof (induction ops arbitrary: out sz)
  case Nil
  then show ?case by auto
next
  case (Cons p ops)
  have le: "length (apply_op src p) \<le> unat sz" using Cons.prems by simp
  then have lt: "length (apply_op src p) < 2 ^ 64" using unat_lt_size [of sz] by simp
  let ?sz = "sz - word_of_nat (length (apply_op src p))"
  have u: "unat ?sz = unat sz - length (apply_op src p)"
    using le lt by (subst unat_sub) (simp_all add: word_le_nat_alt unat_of_nat_small)
  have one: "\<exists>out'. patch_loop src (encode_op p @ encode_ops ops @ rest) out sz = patch_loop src (encode_ops ops @ rest) out' ?sz"
  proof (cases p)
    case (Copy off len)
    then have "length (apply_op src p) = len" using Cons.prems by auto
    then show ?thesis using Copy Cons.prems(1) le patch_loop_copy [of src off len sz "encode_ops ops @ rest" out, OF _ _ assms(3)] by auto
  next
    case (Insert bs)
    then show ?thesis using Cons.prems(1) le patch_loop_insert [of src bs sz "encode_ops ops @ rest" out] by auto
  qed
  have "list_all (op_ok src) ops" "length (apply_ops src ops) \<le> unat ?sz" using Cons.prems u by simp_all
  from Cons.IH [OF this] one u show ?case by (metis append.assoc apply_ops_simps(2) diff_diff_left encode_ops_simps(2) length_append)
qed

text \<open>An opcode that lacks bytes.\<close>

lemma patch_loop_cut:
  assumes "op_ok src p" "length (apply_op src p) \<le> unat sz" "0 < m" "m < length (encode_op p)"
  shows "patch_loop src (take m (encode_op p)) out sz = Overrun"
proof (cases p)
  case (Copy off len)
  have "0 < (word_of_nat len :: u32)" "unat (word_of_nat len :: u32) \<le> 0x10000"
    using assms(1) Copy by (simp_all add: word_less_nat_alt unat_of_nat_small)
  from read_copy_encode [OF this, of "word_of_nat off" "[]"] obtain cmd args v where
    enc: "encode_op p = cmd # args" "cmd AND 0x80 \<noteq> 0" and all: "read_copy cmd args = Some (v, [])" using Copy by auto
  obtain n where m: "m = Suc n" "n < length args" using assms(3,4) enc(1) by (cases m) auto
  have "read_copy cmd (take n args) = None"
  proof (rule ccontr)
    assume "read_copy cmd (take n args) \<noteq> None"
    then obtain w rest where "read_copy cmd (take n args) = Some (w, rest)" by fastforce
    from read_copy_more [OF this, of "drop n args"] have "rest @ drop n args = []" using all by simp
    then show False using m(2) by simp
  qed
  then show ?thesis using enc m(1) by (simp add: patch_loop.simps(2))
next
  case (Insert bs)
  let ?n = "word_of_nat (length bs) :: byte"
  have u: "unat ?n = length bs" using assms(1) Insert by (simp add: unat_of_nat_small)
  have c: "?n AND 0x80 = 0" "?n \<noteq> 0" using u assms(1) Insert by (auto simp: and_128_eq_0_iff)
  have w: "(ucast ?n :: u64) = word_of_nat (length bs)"
    using u assms(1) Insert by (simp add: word_unat_eq_iff unat_ucast_up unat_of_nat_small)
  have "\<not> (word_of_nat (length bs) > sz)" using assms(1,2) Insert by (simp add: word_less_nat_alt unat_of_nat_small)
  moreover obtain n where "m = Suc n" "n < length bs" using assms(3,4) Insert by (cases m) auto
  ultimately show ?thesis using Insert c by (simp add: patch_loop.simps(2) u w)
qed

lemma cut_delta_overruns:
  assumes ok: "list_all (op_ok src) (ops @ [p])" and src: "length src < 2 ^ 32" and trg: "length (apply_ops src (ops @ [p])) < 2 ^ 32"
    and k: "0 < k" "k < length (encode_op p)"
    and min: "DELTA_SIZE_MIN \<le> length (encode_delta src (apply_ops src (ops @ [p])) (ops @ [p])) - k"
  shows "patch_delta src (take (length (encode_delta src (apply_ops src (ops @ [p])) (ops @ [p])) - k)
    (encode_delta src (apply_ops src (ops @ [p])) (ops @ [p]))) = Overrun"
proof -
  let ?trg = "apply_ops src (ops @ [p])" and ?m = "length (encode_op p) - k"
  let ?h = "delta_hdr (word_of_nat (length src)) @ delta_hdr (word_of_nat (length ?trg))"
  have cut: "take (length (encode_delta src ?trg (ops @ [p])) - k) (encode_delta src ?trg (ops @ [p]))
      = ?h @ encode_ops ops @ take ?m (encode_op p)"
    using k by (simp add: encode_delta_def)
  have sizes: "ucast (word_of_nat n :: u32) = (word_of_nat n :: u64)" if "n < 2 ^ 32" for n
    using that by (simp add: word_unat_eq_iff unat_ucast_up unat_of_nat_small)
  have u: "unat (word_of_nat (length ?trg) :: u64) = length ?trg" using trg by (subst unat_of_nat_small) simp_all
  have "list_all (op_ok src) ops" "length (apply_ops src ops) \<le> unat (word_of_nat (length ?trg) :: u64)" "length src < 2 ^ 64"
    using ok src unfolding u by simp_all
  from patch_loop_front [OF this, of "take ?m (encode_op p)" "[]"] obtain out sz where
    run: "patch_loop src (encode_ops ops @ take ?m (encode_op p)) [] (word_of_nat (length ?trg)) = patch_loop src (take ?m (encode_op p)) out sz"
    and sz: "unat sz = length ?trg - length (apply_ops src ops)" unfolding u by blast
  have "patch_loop src (take ?m (encode_op p)) out sz = Overrun" using ok k sz by (intro patch_loop_cut) simp_all
  moreover have "\<not> length (?h @ encode_ops ops @ take ?m (encode_op p)) < DELTA_SIZE_MIN" using min unfolding cut [symmetric] by simp
  ultimately show ?thesis
    unfolding cut patch_delta_def append_assoc get_delta_hdr_size_enc read.case prod.case sizes [OF src] sizes [OF trg] run
    by (simp only: if_False simp_thms)
qed

subsection \<open>Properties\<close>

text \<open>C1. A delta written by \<open>diff_delta\<close> without a size limit is always produced, within its
  output buffer, and \<open>patch_delta\<close> rebuilds exactly the target from it.\<close>

theorem diff_delta_replays:
  assumes "src \<noteq> []" "trg \<noteq> []" "length src < 2 ^ 32" "length trg \<le> 2 ^ 29"
  shows "\<exists>delta. diff_delta src trg 0 = Got delta \<and> patch_delta src delta = Got trg"
proof -
  obtain ix where ix: "create_delta_index src = Got ix" "di_src ix = src" "index_ok ix"
    using delta_index_ok [OF assms(1)] .
  from ix assms patch_delta_ops [of src _ trg] show ?thesis
    by (cases rule: create_delta_ok [OF ix(3,2) assms(2-4), of 0]) (auto simp: diff_delta_def)
qed

theorem diff_delta_replays_witness:
  "\<exists>delta. diff_delta [7, 8, 9] [9, 8, 8, 7] 0 = Got delta \<and> patch_delta [7, 8, 9] delta = Got [9, 8, 8, 7]"
  by (rule diff_delta_replays) simp_all

text \<open>C20. With a limit, \<open>diff_delta\<close> either gives up with NULL or returns a delta no longer than
  the limit that replays to the target; it never writes outside its buffer and always ends.\<close>

theorem diff_delta_limit:
  assumes "src \<noteq> []" "trg \<noteq> []" "length src < 2 ^ 32" "length trg \<le> 2 ^ 29" "max_size \<noteq> 0"
  shows "diff_delta src trg max_size = Bad
    \<or> (\<exists>delta. diff_delta src trg max_size = Got delta \<and> length delta \<le> unat max_size
         \<and> patch_delta src delta = Got trg)"
proof -
  obtain ix where ix: "create_delta_index src = Got ix" "di_src ix = src" "index_ok ix"
    using delta_index_ok [OF assms(1)] .
  from ix assms patch_delta_ops [of src _ trg] show ?thesis
    by (cases rule: create_delta_ok [OF ix(3,2) assms(2-4), of max_size]) (auto simp: diff_delta_def)
qed

theorem diff_delta_limit_witness:
  "diff_delta [1, 2] [3] 1 = Bad \<or> (\<exists>delta. diff_delta [1, 2] [3] 1 = Got delta
     \<and> length delta \<le> unat (1 :: u64) \<and> patch_delta [1, 2] delta = Got [3])"
  by (rule diff_delta_limit) simp_all

text \<open>C33. The bytes of an opcode are read without a check against the end of the delta: every delta of valid
  operations whose last opcode is cut off after its first byte or later, but before its end, and that is not
  shorter than the least size, makes \<open>patch_delta\<close> read behind its buffer.\<close>

theorem patch_delta_reads_past_end:
  assumes "list_all (op_ok src) (ops @ [p])" "length src < 2 ^ 32" "length (apply_ops src (ops @ [p])) < 2 ^ 32"
    and "0 < k" "k < length (encode_op p)"
    and "DELTA_SIZE_MIN \<le> length (encode_delta src (apply_ops src (ops @ [p])) (ops @ [p])) - k"
  shows "patch_delta src (take (length (encode_delta src (apply_ops src (ops @ [p])) (ops @ [p])) - k)
    (encode_delta src (apply_ops src (ops @ [p])) (ops @ [p]))) = Overrun"
  using assms by (rule cut_delta_overruns)

theorem patch_delta_reads_past_end_witness:
  "patch_delta [66, 67, 68, 69] (take (length (encode_delta [66, 67, 68, 69] (apply_ops [66, 67, 68, 69] ([Insert [65]] @ [Copy 1 3])) ([Insert [65]] @ [Copy 1 3])) - 1)
    (encode_delta [66, 67, 68, 69] (apply_ops [66, 67, 68, 69] ([Insert [65]] @ [Copy 1 3])) ([Insert [65]] @ [Copy 1 3]))) = Overrun"
proof (rule patch_delta_reads_past_end)
  have "length (encode_op (Copy 1 3)) = 3" by code_simp
  then show "1 < length (encode_op (Copy 1 3))" by simp
  show "DELTA_SIZE_MIN \<le> length (encode_delta [66, 67, 68, 69] (apply_ops [66, 67, 68, 69] ([Insert [65]] @ [Copy 1 3])) ([Insert [65]] @ [Copy 1 3])) - 1"
    by code_simp
qed simp_all

end
