(* ===== verification/Mergesort.thy ===== *)
theory Mergesort
  imports Git_Prelude "HOL-Library.Monad_Syntax" "HOL-Library.Multiset"
begin

text \<open>
  \<^verbatim>\<open>mergesort.c\<close>: sorting a linked list in place, bottom up. The nodes are
  the values of a type, the \<open>next\<close> fields a map \<open>nxt\<close> from a node to its successor,
  NULL is \<open>None\<close>. The three function arguments of the C code become \<open>nxt\<close>, the
  update of \<open>nxt\<close>, and the comparison \<open>cmp\<close>. A NULL dereference and a loop that does
  not end are the result \<open>None\<close>. Lengths are natural numbers.
\<close>

record 'n sublist =
  sl_ptr :: "'n option"
  sl_len :: nat

primrec get_nth_next :: "('n \<Rightarrow> 'n option) \<Rightarrow> 'n option \<Rightarrow> nat \<Rightarrow> 'n option" where
  "get_nth_next nxt list 0 = list"
| "get_nth_next nxt list (Suc n) = (case list of None \<Rightarrow> None | Some x \<Rightarrow> get_nth_next nxt (nxt x) n)"

definition pop_item :: "('n \<Rightarrow> 'n option) \<Rightarrow> 'n sublist \<Rightarrow> ('n \<times> 'n sublist) option" where
  "pop_item nxt l = (case sl_ptr l of None \<Rightarrow> None
     | Some p \<Rightarrow> Some (p, \<lparr>sl_ptr = nxt p, sl_len = (if nxt p \<noteq> None then sl_len l - 1 else 0)\<rparr>))"

definition pop_left :: "('n \<Rightarrow> 'n option) \<Rightarrow> 'n sublist \<Rightarrow> 'n sublist \<Rightarrow> ('n \<times> 'n sublist \<times> 'n sublist) option" where
  "pop_left nxt p q = (case pop_item nxt p of None \<Rightarrow> None | Some (c, p) \<Rightarrow> Some (c, p, q))"

definition pop_right :: "('n \<Rightarrow> 'n option) \<Rightarrow> 'n sublist \<Rightarrow> 'n sublist \<Rightarrow> ('n \<times> 'n sublist \<times> 'n sublist) option" where
  "pop_right nxt p q = (case pop_item nxt q of None \<Rightarrow> None | Some (c, q) \<Rightarrow> Some (c, p, q))"

definition pop_smaller :: "('n \<Rightarrow> 'n \<Rightarrow> int) \<Rightarrow> ('n \<Rightarrow> 'n option) \<Rightarrow> 'n sublist \<Rightarrow> 'n sublist
    \<Rightarrow> ('n \<times> 'n sublist \<times> 'n sublist) option" where
  "pop_smaller cmp nxt p q = (case (sl_ptr p, sl_ptr q) of
       (Some a, Some b) \<Rightarrow> if cmp a b > 0 then pop_right nxt p q else pop_left nxt p q
     | _ \<Rightarrow> None)"

definition pop_next :: "('n \<Rightarrow> 'n \<Rightarrow> int) \<Rightarrow> ('n \<Rightarrow> 'n option) \<Rightarrow> 'n sublist \<Rightarrow> 'n sublist
    \<Rightarrow> ('n \<times> 'n sublist \<times> 'n sublist) option" where
  "pop_next cmp nxt p q =
     (if sl_len p = 0 then pop_right nxt p q
      else if sl_len q = 0 then pop_left nxt p q
      else pop_smaller cmp nxt p q)"

lemma pop_next_shrinks:
  assumes "pop_next cmp nxt p q = Some (c, p', q')" "\<not> (sl_len p = 0 \<and> sl_len q = 0)"
  shows "sl_len p' + sl_len q' < sl_len p + sl_len q"
  using assms
  by (auto simp: pop_next_def pop_smaller_def pop_left_def pop_right_def pop_item_def
      split: if_splits option.splits)

text \<open>The inner loop, over \<open>p.len || q.len\<close>.\<close>

function merge_runs :: "('n \<Rightarrow> 'n \<Rightarrow> int) \<Rightarrow> ('n \<Rightarrow> 'n option) \<Rightarrow> 'n sublist \<Rightarrow> 'n sublist \<Rightarrow> 'n
    \<Rightarrow> (('n \<Rightarrow> 'n option) \<times> 'n sublist \<times> 'n) option" where
  "merge_runs cmp nxt p q prev =
     (if sl_len p = 0 \<and> sl_len q = 0 then Some (nxt, q, prev)
      else case pop_next cmp nxt p q of None \<Rightarrow> None
        | Some (cur, p, q) \<Rightarrow> merge_runs cmp (nxt(prev := Some cur)) p q cur)"
  by pat_completeness auto
termination
  by (relation "measure (\<lambda>(_, _, p, q, _). sl_len p + sl_len q)") (auto dest!: pop_next_shrinks)

declare merge_runs.simps [simp del]

text \<open>One pass over the list, and the loop that doubles the length of the runs.\<close>

partial_function (option) merge_pairs ::
  "('n \<Rightarrow> 'n \<Rightarrow> int) \<Rightarrow> nat \<Rightarrow> ('n \<Rightarrow> 'n option) \<Rightarrow> 'n sublist \<Rightarrow> 'n sublist \<Rightarrow> 'n
    \<Rightarrow> (('n \<Rightarrow> 'n option) \<times> 'n) option" where
  "merge_pairs cmp l nxt p q cur =
     (if sl_ptr p = None then Some (nxt, cur)
      else Option.bind (merge_runs cmp nxt p q cur) (\<lambda>(nxt, q, cur).
        let p = \<lparr>sl_ptr = sl_ptr q, sl_len = l\<rparr>;
            n = get_nth_next nxt (sl_ptr p) l;
            q = \<lparr>sl_ptr = n, sl_len = (if n \<noteq> None then l else 0)\<rparr> in
        merge_pairs cmp l nxt p q cur))"

partial_function (option) mergesort_loop ::
  "('n \<Rightarrow> 'n \<Rightarrow> int) \<Rightarrow> nat \<Rightarrow> ('n \<Rightarrow> 'n option) \<Rightarrow> 'n \<Rightarrow> (('n \<Rightarrow> 'n option) \<times> 'n) option" where
  "mergesort_loop cmp l nxt list =
     (let q = get_nth_next nxt (Some list) l in
      if q = None then Some (nxt, list)
      else Option.bind (pop_smaller cmp nxt \<lparr>sl_ptr = Some list, sl_len = l\<rparr> \<lparr>sl_ptr = q, sl_len = l\<rparr>)
        (\<lambda>(list, p, q). Option.bind (merge_pairs cmp l nxt p q list)
        (\<lambda>(nxt, cur). mergesort_loop cmp (l * 2) (nxt(cur := None)) list)))"

declare merge_pairs.simps [code] mergesort_loop.simps [code]

definition llist_mergesort :: "('n \<Rightarrow> 'n \<Rightarrow> int) \<Rightarrow> ('n \<Rightarrow> 'n option) \<Rightarrow> 'n option
    \<Rightarrow> (('n \<Rightarrow> 'n option) \<times> 'n option) option" where
  "llist_mergesort cmp nxt list =
     (case list of None \<Rightarrow> Some (nxt, None)
      | Some h \<Rightarrow> (case mergesort_loop cmp 1 nxt h of None \<Rightarrow> None | Some (nxt, h) \<Rightarrow> Some (nxt, Some h)))"

subsection \<open>Lists in the heap\<close>

text \<open>\<open>list\<close> is the NULL-terminated list of the nodes \<open>xs\<close>.\<close>

fun chain :: "('n \<Rightarrow> 'n option) \<Rightarrow> 'n option \<Rightarrow> 'n list \<Rightarrow> bool" where
  "chain nxt p [] = (p = None)"
| "chain nxt p (x # xs) = (p = Some x \<and> chain nxt (nxt x) xs)"

fun linked :: "('n \<Rightarrow> 'n option) \<Rightarrow> 'n list \<Rightarrow> bool" where
  "linked nxt (x # y # ys) = (nxt x = Some y \<and> linked nxt (y # ys))"
| "linked nxt _ = True"

text \<open>The nodes a sublist still has to give, and the pointer it is left with.\<close>

fun run :: "('n \<Rightarrow> 'n option) \<Rightarrow> 'n option \<Rightarrow> nat \<Rightarrow> 'n list \<Rightarrow> 'n option \<Rightarrow> bool" where
  "run nxt p len [] e = (len = 0 \<and> p = e)"
| "run nxt p len (x # xs) e =
     (p = Some x \<and> 0 < len \<and> run nxt (nxt x) (if nxt x \<noteq> None then len - 1 else 0) xs e)"

lemma chain_frame: "a \<notin> set xs \<Longrightarrow> chain (nxt(a := b)) p xs = chain nxt p xs"
  by (induction xs arbitrary: p) auto

lemma run_frame: "a \<notin> set xs \<Longrightarrow> run (nxt(a := b)) p n xs e = run nxt p n xs e"
  by (induction xs arbitrary: p n) auto

lemma linked_snoc:
  "xs \<noteq> [] \<Longrightarrow> linked nxt (xs @ [y]) = (linked nxt xs \<and> nxt (last xs) = Some y)"
  by (induction nxt xs rule: linked.induct) auto

lemma linked_frame: "a \<notin> set (butlast xs) \<Longrightarrow> linked (nxt(a := b)) xs = linked nxt xs"
  by (induction nxt xs rule: linked.induct) auto

lemma linked_chain: "xs \<noteq> [] \<Longrightarrow> linked nxt xs \<Longrightarrow> nxt (last xs) = None \<Longrightarrow> chain nxt (Some (hd xs)) xs"
  by (induction nxt xs rule: linked.induct) auto

lemma get_nth_next_chain:
  "chain nxt p xs \<Longrightarrow> get_nth_next nxt p n = (if n < length xs then Some (xs ! n) else None)
    \<and> chain nxt (get_nth_next nxt p n) (drop n xs)"
proof (induction n arbitrary: p xs)
  case 0
  then show ?case by (cases xs) auto
next
  case (Suc n)
  then show ?case by (cases xs) auto
qed

lemma run_chain:
  "chain nxt p xs \<Longrightarrow> 0 < n \<Longrightarrow> xs \<noteq> [] \<Longrightarrow> run nxt p n (take n xs) (get_nth_next nxt p n)"
proof (induction n arbitrary: p xs)
  case (Suc n)
  then obtain x ys where xs: "xs = x # ys" by (cases xs) auto
  show ?case
  proof (cases "n = 0 \<or> ys = []")
    case True
    with Suc.prems xs show ?thesis by (cases n) auto
  next
    case False
    with Suc xs show ?thesis by (cases ys) auto
  qed
qed simp

subsection \<open>Merging\<close>

fun mrg :: "('n \<Rightarrow> 'n \<Rightarrow> int) \<Rightarrow> 'n list \<Rightarrow> 'n list \<Rightarrow> 'n list" where
  "mrg cmp [] ys = ys"
| "mrg cmp (x # xs) [] = x # xs"
| "mrg cmp (x # xs) (y # ys) = (if cmp x y > 0 then y # mrg cmp (x # xs) ys else x # mrg cmp xs (y # ys))"

lemma mrg_Nil2 [simp]: "mrg cmp xs [] = xs"
  by (cases xs) simp_all

lemma mset_mrg [simp]: "mset (mrg cmp xs ys) = mset xs + mset ys"
  by (induction cmp xs ys rule: mrg.induct) auto

lemma set_mrg [simp]: "set (mrg cmp xs ys) = set xs \<union> set ys"
  using mset_mrg [of cmp xs ys] by (metis set_mset_mset set_mset_union)

lemma merge_runs_ok:
  assumes "run nxt (sl_ptr p) (sl_len p) ps e'" "run nxt (sl_ptr q) (sl_len q) qs e" "chain nxt e rs"
    and "linked nxt (ys @ [prev])" "distinct (ys @ [prev] @ ps @ qs @ rs)"
  shows "\<exists>nxt'. merge_runs cmp nxt p q prev
      = Some (nxt', \<lparr>sl_ptr = e, sl_len = 0\<rparr>, last (prev # mrg cmp ps qs))
    \<and> linked nxt' (ys @ [prev] @ mrg cmp ps qs) \<and> chain nxt' e rs"
  using assms
proof (induction cmp nxt p q prev arbitrary: ps qs ys rule: merge_runs.induct)
  case (1 cmp nxt p q prev)
  show ?case
  proof (cases "sl_len p = 0 \<and> sl_len q = 0")
    case True
    with "1.prems" have "ps = []" "qs = []" by (cases ps; cases qs; auto)+
    with True "1.prems" show ?thesis by (simp add: merge_runs.simps)
  next
    case False
    have ne: "ps \<noteq> [] \<or> qs \<noteq> []" using False "1.prems"(1,2) by auto
    let ?right = "ps = [] \<or> qs \<noteq> [] \<and> cmp (hd ps) (hd qs) > 0"
    show ?thesis
    proof (cases ?right)
      case True
      then obtain c qs' where qs: "qs = c # qs'" using ne by (cases qs) auto
      define q' where "q' = \<lparr>sl_ptr = nxt c, sl_len = (if nxt c \<noteq> None then sl_len q - 1 else 0)\<rparr>"
      have pop: "pop_next cmp nxt p q = Some (c, p, q')"
        using True qs "1.prems"(1,2)
        by (cases ps) (auto simp: pop_next_def pop_smaller_def pop_right_def pop_item_def q'_def)
      have m: "mrg cmp ps qs = c # mrg cmp ps qs'"
        using True qs by (cases ps) auto
      have notin: "prev \<notin> set ps" "prev \<notin> set qs'" "prev \<notin> set rs" "prev \<notin> set ys" "prev \<noteq> c"
        using "1.prems"(5) qs by auto
      let ?nxt = "nxt(prev := Some c)"
      have "run ?nxt (sl_ptr p) (sl_len p) ps e'" "run ?nxt (sl_ptr q') (sl_len q') qs' e"
        using "1.prems"(1,2) qs notin by (simp_all add: q'_def run_frame del: fun_upd_apply)
      moreover have "chain ?nxt e rs" "linked ?nxt ((ys @ [prev]) @ [c])"
        using "1.prems"(3,4) notin linked_snoc [of "ys @ [prev]" ?nxt c] linked_frame [of prev "ys @ [prev]" nxt "Some c"]
        by (simp_all add: chain_frame)
      moreover have "distinct ((ys @ [prev]) @ [c] @ ps @ qs' @ rs)" using "1.prems"(5) qs by auto
      ultimately have "\<exists>nxt'. merge_runs cmp ?nxt p q' c
          = Some (nxt', \<lparr>sl_ptr = e, sl_len = 0\<rparr>, last (c # mrg cmp ps qs'))
        \<and> linked nxt' ((ys @ [prev]) @ [c] @ mrg cmp ps qs') \<and> chain nxt' e rs"
        by (rule "1.IH" [OF False pop refl refl])
      moreover have "merge_runs cmp nxt p q prev = merge_runs cmp ?nxt p q' c"
        by (simp only: merge_runs.simps [of cmp nxt p q prev] if_not_P [OF False] pop option.case prod.case)
      ultimately show ?thesis by (simp add: m)
    next
      case left: False
      then obtain c ps' where ps: "ps = c # ps'" by (cases ps) auto
      define p' where "p' = \<lparr>sl_ptr = nxt c, sl_len = (if nxt c \<noteq> None then sl_len p - 1 else 0)\<rparr>"
      have pop: "pop_next cmp nxt p q = Some (c, p', q)"
        using left ps "1.prems"(1,2)
        by (cases qs) (auto simp: pop_next_def pop_smaller_def pop_left_def pop_item_def p'_def)
      have m: "mrg cmp ps qs = c # mrg cmp ps' qs"
        using left ps by (cases qs) auto
      have notin: "prev \<notin> set ps'" "prev \<notin> set qs" "prev \<notin> set rs" "prev \<notin> set ys" "prev \<noteq> c"
        using "1.prems"(5) ps by auto
      let ?nxt = "nxt(prev := Some c)"
      have "run ?nxt (sl_ptr p') (sl_len p') ps' e'" "run ?nxt (sl_ptr q) (sl_len q) qs e"
        using "1.prems"(1,2) ps notin by (simp_all add: p'_def run_frame del: fun_upd_apply)
      moreover have "chain ?nxt e rs" "linked ?nxt ((ys @ [prev]) @ [c])"
        using "1.prems"(3,4) notin linked_snoc [of "ys @ [prev]" ?nxt c] linked_frame [of prev "ys @ [prev]" nxt "Some c"]
        by (simp_all add: chain_frame)
      moreover have "distinct ((ys @ [prev]) @ [c] @ ps' @ qs @ rs)" using "1.prems"(5) ps by auto
      ultimately have "\<exists>nxt'. merge_runs cmp ?nxt p' q c
          = Some (nxt', \<lparr>sl_ptr = e, sl_len = 0\<rparr>, last (c # mrg cmp ps' qs))
        \<and> linked nxt' ((ys @ [prev]) @ [c] @ mrg cmp ps' qs) \<and> chain nxt' e rs"
        by (rule "1.IH" [OF False pop refl refl])
      moreover have "merge_runs cmp nxt p q prev = merge_runs cmp ?nxt p' q c"
        by (simp only: merge_runs.simps [of cmp nxt p q prev] if_not_P [OF False] pop option.case prod.case)
      ultimately show ?thesis by (simp add: m)
    qed
  qed
qed

subsection \<open>Passes\<close>

function pass :: "('n \<Rightarrow> 'n \<Rightarrow> int) \<Rightarrow> nat \<Rightarrow> 'n list \<Rightarrow> 'n list" where
  "pass cmp l xs = (if xs = [] \<or> l = 0 then []
     else mrg cmp (take l xs) (take l (drop l xs)) @ pass cmp l (drop (2 * l) xs))"
  by pat_completeness auto
termination
  by (relation "measure (\<lambda>(_, _, xs). length xs)") auto

declare pass.simps [simp del]

lemma mset_pass: "0 < l \<Longrightarrow> mset (pass cmp l xs) = mset xs"
proof (induction cmp l xs rule: pass.induct)
  case (1 cmp l xs)
  show ?case
  proof (cases "xs = []")
    case False
    have "xs = take l xs @ take l (drop l xs) @ drop (2 * l) xs"
      by (metis append_take_drop_id drop_drop mult_2)
    then have "mset xs = mset (take l xs) + (mset (take l (drop l xs)) + mset (drop (2 * l) xs))"
      by (metis mset_append)
    with False 1 show ?thesis by (simp add: pass.simps [of cmp l xs])
  qed (simp add: pass.simps)
qed

lemma set_pass: "0 < l \<Longrightarrow> set (pass cmp l xs) = set xs"
  by (metis mset_pass set_mset_mset)

lemma chain_None: "chain nxt None xs = (xs = [])"
  by (cases xs) auto

lemma linked_append2: "linked nxt (xs @ ys) \<Longrightarrow> linked nxt ys"
  by (induction nxt xs rule: linked.induct) (auto, cases ys, auto)

lemma merge_pairs_ok:
  assumes "run nxt (sl_ptr p) (sl_len p) ps e'" "run nxt (sl_ptr q) (sl_len q) qs e" "chain nxt e rs"
    and "linked nxt (ys @ [prev])" "distinct (ys @ [prev] @ ps @ qs @ rs)" "sl_ptr p \<noteq> None" "0 < l"
  shows "\<exists>nxt'. merge_pairs cmp l nxt p q prev = Some (nxt', last (prev # mrg cmp ps qs @ pass cmp l rs))
    \<and> linked nxt' (ys @ [prev] @ mrg cmp ps qs @ pass cmp l rs)"
  using assms(1-6)
proof (induction "length rs" arbitrary: nxt p q ps qs e e' rs ys prev rule: less_induct)
  case less
  obtain nxt' where m: "merge_runs cmp nxt p q prev
      = Some (nxt', \<lparr>sl_ptr = e, sl_len = 0\<rparr>, last (prev # mrg cmp ps qs))"
    "linked nxt' (ys @ [prev] @ mrg cmp ps qs)" "chain nxt' e rs"
    using merge_runs_ok [OF less.prems(1-5)] by blast
  define n where "n = get_nth_next nxt' e l"
  define q' where "q' = \<lparr>sl_ptr = n, sl_len = (if n \<noteq> None then l else 0)\<rparr>"
  have unfold: "merge_pairs cmp l nxt p q prev
      = merge_pairs cmp l nxt' \<lparr>sl_ptr = e, sl_len = l\<rparr> q' (last (prev # mrg cmp ps qs))"
    by (simp only: merge_pairs.simps [of cmp l nxt p q prev] if_not_P [OF less.prems(6)] m(1))
      (simp add: Let_def n_def q'_def)
  show ?case
  proof (cases rs)
    case Nil
    then have "e = None" using m(3) by simp
    then show ?thesis
      unfolding unfold using m(2) Nil by (simp add: merge_pairs.simps [of cmp l nxt'] pass.simps)
  next
    case (Cons r rs')
    then have e: "e \<noteq> None" using m(3) by auto
    define qs' where "qs' = take l (drop l rs)"
    define out where "out = [prev] @ mrg cmp ps qs"
    have out: "out \<noteq> []" "out = butlast out @ [last out]" by (simp_all add: out_def)
    have n: "chain nxt' n (drop l rs)"
      unfolding n_def by (rule conjunct2 [OF get_nth_next_chain [OF m(3)]])
    have rest: "rs = take l rs @ qs' @ drop (2 * l) rs"
      by (metis append_take_drop_id drop_drop mult_2 qs'_def)
    have p': "run nxt' e l (take l rs) n"
      unfolding n_def using m(3) assms(7) Cons by (intro run_chain) auto
    have q1: "run nxt' (sl_ptr q') (sl_len q') qs' (get_nth_next nxt' n l)"
    proof (cases "drop l rs = []")
      case True
      then have "n = None" using n by simp
      moreover have "get_nth_next nxt' None l = None" by (cases l) simp_all
      ultimately show ?thesis using True by (simp add: q'_def qs'_def)
    next
      case False
      then have "n \<noteq> None" using n by (metis chain_None)
      with n False assms(7) show ?thesis unfolding q'_def qs'_def by (auto intro: run_chain)
    qed
    have r: "chain nxt' (get_nth_next nxt' n l) (drop (2 * l) rs)"
      using conjunct2 [OF get_nth_next_chain [OF n, of l]] by (simp add: mult_2)
    have dist: "distinct ((ys @ butlast out) @ [last out] @ take l rs @ qs' @ drop (2 * l) rs)"
    proof -
      have "mset ((ys @ butlast out) @ [last out] @ take l rs @ qs' @ drop (2 * l) rs)
          = mset (ys @ [prev] @ ps @ qs @ rs)"
        by (metis append.assoc mset_append mset_mrg out(2) out_def rest)
      with less.prems(5) show ?thesis using mset_eq_imp_distinct_iff by blast
    qed
    have "length (drop (2 * l) rs) < length rs" using assms(7) Cons by simp
    moreover have "run nxt' (sl_ptr \<lparr>sl_ptr = e, sl_len = l\<rparr>) (sl_len \<lparr>sl_ptr = e, sl_len = l\<rparr>) (take l rs) n"
      using p' by simp
    moreover have "linked nxt' ((ys @ butlast out) @ [last out])"
      using m(2) out(2) by (metis append.assoc out_def)
    moreover have "sl_ptr \<lparr>sl_ptr = e, sl_len = l\<rparr> \<noteq> None" using e by simp
    ultimately obtain nxt'' where f: "merge_pairs cmp l nxt' \<lparr>sl_ptr = e, sl_len = l\<rparr> q' (last out)
        = Some (nxt'', last (last out # mrg cmp (take l rs) qs' @ pass cmp l (drop (2 * l) rs)))"
      "linked nxt'' ((ys @ butlast out) @ [last out] @ mrg cmp (take l rs) qs' @ pass cmp l (drop (2 * l) rs))"
      using less.hyps [OF _ _ q1 r _ dist] by blast
    have pass: "pass cmp l rs = mrg cmp (take l rs) qs' @ pass cmp l (drop (2 * l) rs)"
      using Cons assms(7) by (subst pass.simps) (simp add: qs'_def)
    have join: "(ys @ butlast out) @ [last out] @ zs = ys @ out @ zs" for zs
      using out(2) by (metis append.assoc)
    have lasts: "last (last out # zs) = last (prev # mrg cmp ps qs @ zs)" for zs
      by (simp add: out_def)
    have front: "ys @ out @ zs = ys @ [prev] @ mrg cmp ps qs @ zs" for zs by (simp add: out_def)
    have "last (prev # mrg cmp ps qs) = last out" by (simp add: out_def)
    with f have "merge_pairs cmp l nxt p q prev = Some (nxt'', last (prev # mrg cmp ps qs @ pass cmp l rs))"
      unfolding unfold pass by (simp only: lasts)
    moreover have "linked nxt'' (ys @ [prev] @ mrg cmp ps qs @ pass cmp l rs)"
      using f(2) by (simp only: join front pass)
    ultimately show ?thesis by blast
  qed
qed

subsection \<open>The whole sort\<close>

function msort :: "('n \<Rightarrow> 'n \<Rightarrow> int) \<Rightarrow> nat \<Rightarrow> 'n list \<Rightarrow> 'n list" where
  "msort cmp l xs = (if l = 0 \<or> length xs \<le> l then xs else msort cmp (l * 2) (pass cmp l xs))"
  by pat_completeness auto

lemma length_pass: "0 < l \<Longrightarrow> length (pass cmp l xs) = length xs"
  by (metis mset_pass size_mset)

termination msort
  by (relation "measure (\<lambda>(_, l, xs). length xs - l)") (auto simp: length_pass)

declare msort.simps [simp del]

lemma mergesort_loop_ok:
  assumes "chain nxt (Some list) xs" "distinct xs" "0 < l"
  shows "\<exists>nxt' h. mergesort_loop cmp l nxt list = Some (nxt', h) \<and> chain nxt' (Some h) (msort cmp l xs)"
  using assms
proof (induction cmp l xs arbitrary: nxt list rule: msort.induct)
  case (1 cmp l xs)
  define q where "q = get_nth_next nxt (Some list) l"
  have q: "q = (if l < length xs then Some (xs ! l) else None)" "chain nxt q (drop l xs)"
    using get_nth_next_chain [OF "1.prems"(1), of l] unfolding q_def by blast+
  show ?case
  proof (cases "length xs \<le> l")
    case True
    with q "1.prems" show ?thesis
      by (simp add: mergesort_loop.simps [of cmp l nxt list] msort.simps [of cmp l xs] flip: q_def)
  next
    case False
    define ps qs rs where "ps = take l xs" and "qs = take l (drop l xs)" and "rs = drop (2 * l) xs"
    have xs: "xs = ps @ qs @ rs"
      by (metis append_take_drop_id drop_drop mult_2 ps_def qs_def rs_def)
    have ne: "ps \<noteq> []" "qs \<noteq> []" using False "1.prems"(3) by (auto simp: ps_def qs_def)
    obtain a ps' b qs' where ab: "ps = a # ps'" "qs = b # qs'" using ne by (meson neq_Nil_conv)
    define e where "e = get_nth_next nxt q l"
    have p: "run nxt (Some list) l ps q"
      unfolding ps_def q_def using "1.prems" False by (intro run_chain) auto
    have qr: "run nxt q l qs e"
      unfolding qs_def e_def using q "1.prems"(3) False by (intro run_chain) auto
    have r: "chain nxt e rs"
      using conjunct2 [OF get_nth_next_chain [OF q(2), of l]] by (simp add: e_def rs_def mult_2 add.commute)
    let ?sub = "\<lambda>x. \<lparr>sl_ptr = nxt x, sl_len = (if nxt x \<noteq> None then l - 1 else 0)\<rparr>"
    let ?p = "\<lparr>sl_ptr = Some list, sl_len = l\<rparr>" and ?q = "\<lparr>sl_ptr = q, sl_len = l\<rparr>"
    have heads: "list = a" "q = Some b" using p qr ab by simp_all
    have "\<exists>c p' q' ps'' qs''. pop_smaller cmp nxt ?p ?q = Some (c, p', q')
        \<and> mrg cmp ps qs = c # mrg cmp ps'' qs'' \<and> run nxt (sl_ptr p') (sl_len p') ps'' q
        \<and> run nxt (sl_ptr q') (sl_len q') qs'' e \<and> sl_ptr p' \<noteq> None
        \<and> mset (c # ps'' @ qs'') = mset (ps @ qs)"
    proof (cases "cmp a b > 0")
      case True
      have "pop_smaller cmp nxt ?p ?q = Some (b, ?p, ?sub b)"
        using True heads by (simp add: pop_smaller_def pop_right_def pop_item_def)
      moreover have "mrg cmp ps qs = b # mrg cmp ps qs'" using ab True by simp
      moreover have "run nxt (sl_ptr (?sub b)) (sl_len (?sub b)) qs' e" using qr ab by simp
      ultimately show ?thesis using p ab by (intro exI [of _ b] exI conjI) auto
    next
      case False
      have "pop_smaller cmp nxt ?p ?q = Some (a, ?sub a, ?q)"
        using False heads by (simp add: pop_smaller_def pop_left_def pop_item_def)
      moreover have "mrg cmp ps qs = a # mrg cmp ps' qs" using ab False by simp
      moreover have "run nxt (sl_ptr (?sub a)) (sl_len (?sub a)) ps' q" using p ab by simp
      moreover have "nxt a \<noteq> None" using p ab heads by (cases ps') auto
      ultimately show ?thesis using qr ab by (intro exI [of _ a] exI conjI) auto
    qed
    then obtain c p' q' ps'' qs'' where c: "pop_smaller cmp nxt ?p ?q = Some (c, p', q')"
      "mrg cmp ps qs = c # mrg cmp ps'' qs''" "run nxt (sl_ptr p') (sl_len p') ps'' q"
      "run nxt (sl_ptr q') (sl_len q') qs'' e" "sl_ptr p' \<noteq> None"
      "mset (c # ps'' @ qs'') = mset (ps @ qs)" by blast
    have "mset (c # ps'' @ qs'' @ rs) = mset xs" using c(6) unfolding xs by simp
    then have "distinct ([] @ [c] @ ps'' @ qs'' @ rs)"
      using "1.prems"(2) mset_eq_imp_distinct_iff by fastforce
    from merge_pairs_ok [OF c(3,4) r _ this c(5) "1.prems"(3), of cmp]
    obtain nxt' where m: "merge_pairs cmp l nxt p' q' c = Some (nxt', last (c # mrg cmp ps'' qs'' @ pass cmp l rs))"
      "linked nxt' (c # mrg cmp ps'' qs'' @ pass cmp l rs)" by auto
    have pass: "pass cmp l xs = c # mrg cmp ps'' qs'' @ pass cmp l rs"
      using ab(1) c(2) False "1.prems"(3)
      by (subst pass.simps) (auto simp flip: ps_def qs_def rs_def)
    let ?lst = "last (pass cmp l xs)" and ?nxt = "nxt'(last (pass cmp l xs) := None)"
    have dist: "distinct (pass cmp l xs)"
      using "1.prems"(2) mset_pass [OF "1.prems"(3), of cmp xs] mset_eq_imp_distinct_iff by blast
    then have "?lst \<notin> set (butlast (pass cmp l xs))"
      by (metis append_butlast_last_id distinct_butlast list.distinct(1) not_distinct_conv_prefix pass)
    then have "linked ?nxt (pass cmp l xs)"
      using m(2) unfolding pass [symmetric] by (rule iffD2 [OF linked_frame])
    then have "chain ?nxt (Some c) (pass cmp l xs)"
      using linked_chain [of "pass cmp l xs" ?nxt] by (simp add: pass)
    moreover have "mergesort_loop cmp l nxt list = mergesort_loop cmp (l * 2) ?nxt c"
      using heads(2) c(1) m(1)
      by (subst mergesort_loop.simps) (simp only: Let_def pass option.distinct if_False bind.bind_lunit prod.case flip: q_def)
    moreover have "msort cmp l xs = msort cmp (l * 2) (pass cmp l xs)"
      using False "1.prems"(3) by (simp add: msort.simps [of cmp l xs])
    moreover have "\<not> (l = 0 \<or> length xs \<le> l)" "0 < l * 2" using False "1.prems"(3) by simp_all
    ultimately show ?thesis using "1.IH" [OF _ _ dist] by metis
  qed
qed

subsection \<open>Sortedness and stability\<close>

text \<open>
  A comparison that orders by a key. Merging keeps the order of equal keys, so every pass
  turns the sorted runs of length \<open>l\<close> into sorted runs of length \<open>2 l\<close>.
\<close>

definition orders :: "('n \<Rightarrow> 'n \<Rightarrow> int) \<Rightarrow> ('n \<Rightarrow> 'k::linorder) \<Rightarrow> bool" where
  "orders cmp key = (\<forall>a b. cmp a b > 0 \<longleftrightarrow> key b < key a)"

lemma sorted_mrg:
  "orders cmp key \<Longrightarrow> sorted (map key xs) \<Longrightarrow> sorted (map key ys) \<Longrightarrow> sorted (map key (mrg cmp xs ys))"
  by (induction cmp xs ys rule: mrg.induct) (auto simp: orders_def)

lemma filter_mrg:
  "orders cmp key \<Longrightarrow> sorted (map key xs) \<Longrightarrow> sorted (map key ys)
    \<Longrightarrow> filter (\<lambda>x. k = key x) (mrg cmp xs ys) = filter (\<lambda>x. k = key x) (xs @ ys)"
proof (induction cmp xs ys rule: mrg.induct)
  case (3 cmp x xs y ys)
  show ?case
  proof (cases "cmp x y > 0")
    case True
    then have "key y < key x" using 3 by (simp add: orders_def)
    then have "k = key y \<Longrightarrow> filter (\<lambda>x. k = key x) (x # xs) = []"
      using "3.prems"(2) by (fastforce simp: filter_empty_conv)
    with True 3 show ?thesis by auto
  next
    case False
    with 3 show ?thesis by auto
  qed
qed simp_all

lemma mrg_sort_key:
  assumes "orders cmp key"
  shows "mrg cmp (sort_key key xs) (sort_key key ys) = sort_key key (xs @ ys)"
proof -
  have "filter (\<lambda>x. k = key x) (sort_key key zs) = filter (\<lambda>x. k = key x) zs" for k zs
    using sort_key_stable [of key k zs] by (simp add: eq_commute)
  then show ?thesis
    using assms by (intro properties_for_sort_key [symmetric])
      (simp_all add: sorted_mrg filter_mrg)
qed

text \<open>Sorting every run of \<open>l\<close> nodes on its own.\<close>

function sort_runs :: "('n \<Rightarrow> 'k::linorder) \<Rightarrow> nat \<Rightarrow> 'n list \<Rightarrow> 'n list" where
  "sort_runs key l xs = (if xs = [] \<or> l = 0 then [] else sort_key key (take l xs) @ sort_runs key l (drop l xs))"
  by pat_completeness auto
termination
  by (relation "measure (\<lambda>(_, _, xs). length xs)") auto

declare sort_runs.simps [simp del]

lemma sort_runs_simps [simp]:
  "sort_runs key l [] = []"
  "0 < l \<Longrightarrow> xs \<noteq> [] \<Longrightarrow> sort_runs key l xs = sort_key key (take l xs) @ sort_runs key l (drop l xs)"
  by (subst sort_runs.simps, simp)+

lemma sort_runs_length: "0 < l \<Longrightarrow> length (sort_runs key l xs) = length xs"
  by (induction key l xs rule: sort_runs.induct) (subst sort_runs.simps, auto)

lemma sort_key_Nil_iff: "sort_key key xs = [] \<longleftrightarrow> xs = []"
  by (metis length_0_conv length_sort)

lemma sort_runs_take_drop:
  assumes "0 < l"
  shows "take l (sort_runs key l xs) = sort_key key (take l xs)"
    and "drop l (sort_runs key l xs) = sort_runs key l (drop l xs)"
  using assms by (cases "xs = []"; cases "length xs \<le> l"; auto simp: sort_key_Nil_iff)+

lemma pass_sort_runs:
  assumes "orders cmp key" "0 < l"
  shows "pass cmp l (sort_runs key l xs) = sort_runs key (l * 2) xs"
  using assms
proof (induction "length xs" arbitrary: xs rule: less_induct)
  case less
  show ?case
  proof (cases "xs = []")
    case True
    then show ?thesis by (simp add: pass.simps)
  next
    case False
    let ?r = "sort_runs key l xs"
    have "?r \<noteq> []" using assms(2) False by (simp add: sort_key_Nil_iff)
    then have "pass cmp l ?r = mrg cmp (take l ?r) (take l (drop l ?r)) @ pass cmp l (drop (2 * l) ?r)"
      using assms(2) by (subst pass.simps) simp
    also have "drop (2 * l) ?r = sort_runs key l (drop (2 * l) xs)"
      using assms(2) by (metis drop_drop mult_2 sort_runs_take_drop(2))
    also have "pass cmp l \<dots> = sort_runs key (l * 2) (drop (2 * l) xs)"
      using False assms by (intro less.hyps) simp_all
    also have "mrg cmp (take l ?r) (take l (drop l ?r)) = sort_key key (take (l * 2) xs)"
      using assms by (simp add: sort_runs_take_drop mrg_sort_key take_add mult_2_right del: take_drop)
    finally show ?thesis using False assms(2) by (simp add: mult.commute)
  qed
qed

lemma msort_sort_runs:
  assumes "orders cmp key" "0 < l"
  shows "msort cmp l (sort_runs key l xs) = sort_key key xs"
  using assms(2)
proof (induction "length xs - l" arbitrary: l rule: less_induct)
  case less
  show ?case
  proof (cases "length xs \<le> l")
    case True
    then have "sort_runs key l xs = sort_key key xs" using less.prems by (cases "xs = []") simp_all
    then show ?thesis using True by (simp add: msort.simps)
  next
    case False
    with less have "msort cmp (l * 2) (sort_runs key (l * 2) xs) = sort_key key xs" by simp
    with False less.prems show ?thesis
      by (subst msort.simps) (simp add: sort_runs_length pass_sort_runs [OF assms(1)])
  qed
qed

lemma sort_runs_1: "sort_runs key (Suc 0) xs = xs"
  by (induction xs) simp_all

lemma llist_mergesort_ok:
  assumes "chain nxt list xs" "distinct xs" "orders cmp key"
  shows "\<exists>nxt' list'. llist_mergesort cmp nxt list = Some (nxt', list') \<and> chain nxt' list' (sort_key key xs)"
proof (cases xs)
  case Nil
  with assms show ?thesis by (simp add: llist_mergesort_def)
next
  case (Cons x ys)
  then have "chain nxt (Some x) xs" "list = Some x" using assms(1) by auto
  from mergesort_loop_ok [OF this(1) assms(2), of 1 cmp] this(2) msort_sort_runs [OF assms(3), of 1 xs]
  show ?thesis by (auto simp: llist_mergesort_def sort_runs_1)
qed

subsection \<open>Properties\<close>

text \<open>C19. Sorting a NULL-terminated linked list in place always ends without following a NULL
  pointer, and relinks exactly the same nodes, in the stable order of the comparison: the result is
  the library's stable sort by the key.\<close>

theorem llist_mergesort_sorts:
  assumes "chain nxt list xs" "distinct xs" "\<forall>a b. cmp a b > 0 \<longleftrightarrow> key b < (key a :: 'k::linorder)"
  shows "\<exists>nxt' list'. llist_mergesort cmp nxt list = Some (nxt', list') \<and> chain nxt' list' (sort_key key xs)"
  using assms by (intro llist_mergesort_ok) (simp_all add: orders_def)

theorem llist_mergesort_sorts_witness:
  "\<exists>nxt' list'. llist_mergesort (\<lambda>a b. int (a div 10) - int (b div 10))
      ((\<lambda>_. None)(31 := Some 12, 12 := Some 35, 35 := Some 11)) (Some (31 :: nat)) = Some (nxt', list')
    \<and> chain nxt' list' (sort_key (\<lambda>n. n div 10) [31, 12, 35, 11])"
  by (rule llist_mergesort_sorts) auto

end
