(* ===== verification/Strbuf.thy ===== *)
theory Strbuf
  imports Ctype
begin

text \<open>
  The growable strings of \<^verbatim>\<open>strbuf.c\<close> and \<^verbatim>\<open>strbuf.h\<close>, on
  explicit memory: the block \<open>buf\<close> points at, the number of bytes allocated and the
  number of bytes used, all sizes on 64 bits. An operation ends in \<open>Bad\<close> where the C
  code calls \<open>die\<close> and in \<open>Overrun\<close> where it would touch memory outside the
  block. The contract of an append is the locale \<open>appendable\<close>; the operations that
  only append are proved once for all its instances.
\<close>

subsection \<open>Sequencing and memory\<close>

definition and_then :: "'a read \<Rightarrow> ('a \<Rightarrow> 'b read) \<Rightarrow> 'b read" where
  "and_then m f = (case m of Overrun \<Rightarrow> Overrun | Bad \<Rightarrow> Bad | Got x \<Rightarrow> f x)"

lemma and_then_simps [simp]: "and_then Overrun f = Overrun" "and_then Bad f = Bad" "and_then (Got x) f = f x"
  by (simp_all add: and_then_def)

lemma and_then_cong [fundef_cong]:
  "m = m' \<Longrightarrow> (\<And>x. m' = Got x \<Longrightarrow> f x = f' x) \<Longrightarrow> and_then m f = and_then m' f'"
  by (cases m') simp_all

lemma and_then_Got: "and_then m f = Got y \<longleftrightarrow> (\<exists>x. m = Got x \<and> f x = Got y)"
  by (cases m) simp_all

text \<open>Copying bytes into a block and moving it to a block of another size. The bytes
  \<open>realloc\<close> adds are unspecified in C; the model fills them with a byte that is not NUL, so
  that no proof can rest on them being a terminator.\<close>

definition write_at :: "string \<Rightarrow> nat \<Rightarrow> string \<Rightarrow> string read" where
  "write_at blk pos bytes = (if pos + length bytes \<le> length blk
     then Got (take pos blk @ bytes @ drop (pos + length bytes) blk) else Overrun)"

definition realloc :: "string \<Rightarrow> nat \<Rightarrow> string" where
  "realloc blk n = take n blk @ replicate (n - length blk) (CHR 0xA5)"

lemma length_realloc [simp]: "length (realloc blk n) = n" by (simp add: realloc_def)

lemma take_realloc: "k \<le> length blk \<Longrightarrow> k \<le> n \<Longrightarrow> take k (realloc blk n) = take k blk"
  by (simp add: realloc_def min_def)

subsection \<open>The buffer and its life cycle\<close>

record strbuf =
  sb_alloc :: u64
  sb_len :: u64
  sb_buf :: string

definition STRBUF_INIT :: strbuf where
  "STRBUF_INIT = \<lparr>sb_alloc = 0, sb_len = 0, sb_buf = [CHR 0x00]\<rparr>"

definition unsigned_add_overflows :: "u64 \<Rightarrow> u64 \<Rightarrow> bool" where
  "unsigned_add_overflows a b = (b > - 1 - a)"

text \<open>The macro \<open>ALLOC_GROW\<close> on a block of bytes; \<open>size_t\<close> wraps around.\<close>

definition alloc_nr_size :: "u64 \<Rightarrow> u64" where
  "alloc_nr_size x = (x + 16) * 3 div 2"

definition ALLOC_GROW :: "string \<Rightarrow> u64 \<Rightarrow> u64 \<Rightarrow> string \<times> u64" where
  "ALLOC_GROW x nr alloc = (if nr > alloc
     then let alloc = (if alloc_nr_size alloc < nr then nr else alloc_nr_size alloc)
       in (realloc x (unat alloc), alloc)
     else (x, alloc))"

definition strbuf_grow :: "strbuf \<Rightarrow> u64 \<Rightarrow> strbuf read" where
  "strbuf_grow sb extra =
     (let new_buf = (sb_alloc sb = 0) in
      if unsigned_add_overflows extra 1 \<or> unsigned_add_overflows (sb_len sb) (extra + 1) then Bad
      else let (blk, alloc) = ALLOC_GROW (if new_buf then [] else sb_buf sb) (sb_len sb + extra + 1) (sb_alloc sb) in
        and_then (if new_buf then write_at blk 0 [CHR 0x00] else Got blk)
          (\<lambda>blk. Got \<lparr>sb_alloc = alloc, sb_len = sb_len sb, sb_buf = blk\<rparr>))"

definition strbuf_init :: "u64 \<Rightarrow> strbuf read" where
  "strbuf_init hint = (if hint \<noteq> 0 then strbuf_grow STRBUF_INIT hint else Got STRBUF_INIT)"

definition strbuf_release :: "strbuf \<Rightarrow> strbuf" where
  "strbuf_release sb = (if sb_alloc sb \<noteq> 0 then STRBUF_INIT else sb)"

text \<open>The detached block is NULL when nothing was allocated.\<close>

definition strbuf_detach :: "strbuf \<Rightarrow> string option \<times> u64 \<times> strbuf" where
  "strbuf_detach sb = (if sb_alloc sb \<noteq> 0 then Some (sb_buf sb) else None, sb_len sb, STRBUF_INIT)"

definition strbuf_setlen :: "strbuf \<Rightarrow> u64 \<Rightarrow> strbuf read" where
  "strbuf_setlen sb len = (if len > (if sb_alloc sb \<noteq> 0 then sb_alloc sb - 1 else 0) then Bad
     else and_then (write_at (sb_buf sb) (unat len) [CHR 0x00])
       (\<lambda>blk. Got (sb\<lparr>sb_len := len, sb_buf := blk\<rparr>)))"

definition strbuf_attach :: "string \<Rightarrow> u64 \<Rightarrow> u64 \<Rightarrow> strbuf read" where
  "strbuf_attach blk len alloc =
     and_then (strbuf_grow \<lparr>sb_alloc = alloc, sb_len = len, sb_buf = blk\<rparr> 0)
       (\<lambda>sb. and_then (write_at (sb_buf sb) (unat (sb_len sb)) [CHR 0x00])
         (\<lambda>blk. Got (sb\<lparr>sb_buf := blk\<rparr>)))"

definition strbuf_avail :: "strbuf \<Rightarrow> u64" where
  "strbuf_avail sb = (if sb_alloc sb \<noteq> 0 then sb_alloc sb - sb_len sb - 1 else 0)"

subsection \<open>Adding data\<close>

definition strbuf_addch :: "strbuf \<Rightarrow> char \<Rightarrow> strbuf read" where
  "strbuf_addch sb c = and_then (strbuf_grow sb 1) (\<lambda>sb.
     and_then (write_at (sb_buf sb) (unat (sb_len sb)) [c]) (\<lambda>blk.
     and_then (write_at blk (unat (sb_len sb + 1)) [CHR 0x00]) (\<lambda>blk.
       Got (sb\<lparr>sb_len := sb_len sb + 1, sb_buf := blk\<rparr>))))"

definition strbuf_add :: "strbuf \<Rightarrow> string \<Rightarrow> strbuf read" where
  "strbuf_add sb bytes = and_then (strbuf_grow sb (of_nat (length bytes))) (\<lambda>sb.
     and_then (write_at (sb_buf sb) (unat (sb_len sb)) bytes) (\<lambda>blk.
       strbuf_setlen (sb\<lparr>sb_buf := blk\<rparr>) (sb_len sb + of_nat (length bytes))))"

definition strbuf_addbuf :: "strbuf \<Rightarrow> strbuf \<Rightarrow> strbuf read" where
  "strbuf_addbuf sb sb2 = and_then (strbuf_grow sb (sb_len sb2)) (\<lambda>sb.
     strbuf_add sb (take (unat (sb_len sb2)) (sb_buf sb2)))"

definition strbuf_adddup :: "strbuf \<Rightarrow> nat \<Rightarrow> nat \<Rightarrow> strbuf read" where
  "strbuf_adddup sb pos len = and_then (strbuf_grow sb (of_nat len)) (\<lambda>sb.
     if pos + len \<le> length (sb_buf sb)
     then and_then (write_at (sb_buf sb) (unat (sb_len sb)) (take len (drop pos (sb_buf sb)))) (\<lambda>blk.
       strbuf_setlen (sb\<lparr>sb_buf := blk\<rparr>) (sb_len sb + of_nat len))
     else Overrun)"

text \<open>The bytes after the replaced part are moved first, then the new ones are copied in.\<close>

definition strbuf_splice :: "strbuf \<Rightarrow> u64 \<Rightarrow> u64 \<Rightarrow> string \<Rightarrow> strbuf read" where
  "strbuf_splice sb pos len bytes = (let dlen = of_nat (length bytes) in
     if unsigned_add_overflows pos len then Bad
     else if pos > sb_len sb then Bad
     else if pos + len > sb_len sb then Bad
     else and_then (if dlen \<ge> len then strbuf_grow sb (dlen - len) else Got sb) (\<lambda>sb.
       and_then (write_at (sb_buf sb) (unat (pos + dlen))
         (take (unat (sb_len sb - pos - len)) (drop (unat (pos + len)) (sb_buf sb)))) (\<lambda>blk.
       and_then (write_at blk (unat pos) bytes) (\<lambda>blk.
         strbuf_setlen (sb\<lparr>sb_buf := blk\<rparr>) (sb_len sb + dlen - len)))))"

definition strbuf_insert :: "strbuf \<Rightarrow> u64 \<Rightarrow> string \<Rightarrow> strbuf read" where
  "strbuf_insert sb pos bytes = strbuf_splice sb pos 0 bytes"

definition strbuf_remove :: "strbuf \<Rightarrow> u64 \<Rightarrow> u64 \<Rightarrow> strbuf read" where
  "strbuf_remove sb pos len = strbuf_splice sb pos len []"

subsection \<open>The contents of a buffer, and growing it\<close>

definition sb_ok :: "strbuf \<Rightarrow> bool" where
  "sb_ok sb = (if sb_alloc sb = 0 then sb_len sb = 0 \<and> sb_buf sb = [CHR 0x00]
     else sb_len sb < sb_alloc sb \<and> length (sb_buf sb) = unat (sb_alloc sb)
       \<and> sb_buf sb ! unat (sb_len sb) = CHR 0x00)"

definition sb_str :: "strbuf \<Rightarrow> string" where
  "sb_str sb = take (unat (sb_len sb)) (sb_buf sb)"

lemma STRBUF_INIT_ok [simp]: "sb_ok STRBUF_INIT" "sb_str STRBUF_INIT = []"
  by (simp_all add: sb_ok_def sb_str_def STRBUF_INIT_def)

lemma sb_ok_len: "sb_ok sb \<Longrightarrow> unat (sb_len sb) < length (sb_buf sb)"
  by (auto simp: sb_ok_def word_less_nat_alt split: if_splits)

lemma length_sb_str: "sb_ok sb \<Longrightarrow> length (sb_str sb) = unat (sb_len sb)"
  using sb_ok_len [of sb] by (simp add: sb_str_def)

lemma u64_bound: "unat (x :: u64) < 18446744073709551616"
  using unat_lt_size [of x] by simp

lemma add_overflows_iff: "unsigned_add_overflows a b \<longleftrightarrow> unat a + unat b \<ge> 2 ^ 64"
proof -
  have "unat (- 1 :: u64) = 2 ^ 64 - 1" by (simp add: unsigned_minus_1_eq_mask mask_eq_exp_minus_1)
  then have "unat (- 1 - a) = 2 ^ 64 - 1 - unat a"
    using u64_bound [of a] by (subst unat_sub) (simp_all only: word_le_nat_alt, simp_all)
  then show ?thesis using u64_bound [of a] by (auto simp: unsigned_add_overflows_def word_less_nat_alt)
qed

lemma unat_add_small: "unat a + unat b < 2 ^ 64 \<Longrightarrow> unat (a + b :: u64) = unat a + unat b"
  by (simp add: unat_word_ariths)

lemma grow_overflow_iff:
  "unsigned_add_overflows extra 1 \<or> unsigned_add_overflows len (extra + 1)
    \<longleftrightarrow> unat len + unat extra + 1 \<ge> 2 ^ 64"
proof (cases "unat extra + 1 < 2 ^ 64")
  case True
  then have "unat (extra + 1) = unat extra + 1" by (simp add: unat_add_small)
  with True show ?thesis by (simp add: add_overflows_iff)
next
  case False
  then show ?thesis by (simp add: add_overflows_iff)
qed

lemma ALLOC_GROW_bounds:
  assumes "ALLOC_GROW x nr alloc = (blk, alloc')" "length x = unat alloc" "0 < nr"
  shows "length blk = unat alloc'" "unat nr \<le> unat alloc'" "alloc' \<noteq> 0"
    "k \<le> length x \<Longrightarrow> take k blk = take k x"
proof -
  show "length blk = unat alloc'" "unat nr \<le> unat alloc'"
    using assms by (auto simp: ALLOC_GROW_def Let_def word_less_nat_alt split: if_splits)
  then show "alloc' \<noteq> 0" using assms(3) by (auto simp: word_less_nat_alt)
  show "take k blk = take k x" if "k \<le> length x"
  proof (cases "nr > alloc")
    case False
    then show ?thesis using assms(1) by (auto simp: ALLOC_GROW_def)
  next
    case True
    then have "length x \<le> unat alloc'"
      using assms \<open>unat nr \<le> unat alloc'\<close> by (simp add: word_less_nat_alt)
    moreover have "blk = realloc x (unat alloc')"
      using assms(1) True by (auto simp: ALLOC_GROW_def Let_def split: if_splits)
    ultimately show ?thesis using that by (simp add: take_realloc)
  qed
qed

lemma strbuf_grow_dies: "unat (sb_len sb) + unat extra + 1 \<ge> 2 ^ 64 \<Longrightarrow> strbuf_grow sb extra = Bad"
  unfolding strbuf_grow_def Let_def by (simp only: grow_overflow_iff if_True)

text \<open>A buffer without its terminating NUL, as it is in the middle of an operation.\<close>

definition sb_space :: "strbuf \<Rightarrow> bool" where
  "sb_space sb = (if sb_alloc sb = 0 then sb_len sb = 0 \<and> sb_buf sb = [CHR 0x00]
     else sb_len sb < sb_alloc sb \<and> length (sb_buf sb) = unat (sb_alloc sb))"

lemma sb_ok_space: "sb_ok sb \<longleftrightarrow> sb_space sb \<and> sb_buf sb ! unat (sb_len sb) = CHR 0x00"
  by (auto simp: sb_ok_def sb_space_def)

lemma strbuf_grow_keeps:
  assumes ok: "sb_space sb" and fits: "unat (sb_len sb) + unat extra + 1 < 2 ^ 64"
  shows "\<exists>sb'. strbuf_grow sb extra = Got sb' \<and> sb_space sb' \<and> sb_len sb' = sb_len sb \<and> sb_alloc sb' \<noteq> 0
    \<and> unat (sb_len sb) + unat extra < unat (sb_alloc sb')
    \<and> take (Suc (unat (sb_len sb))) (sb_buf sb') = take (Suc (unat (sb_len sb))) (sb_buf sb)"
proof -
  let ?x = "if sb_alloc sb = 0 then [] else sb_buf sb"
  let ?nr = "sb_len sb + extra + 1"
  obtain blk alloc where g: "ALLOC_GROW ?x ?nr (sb_alloc sb) = (blk, alloc)" by force
  have len: "length ?x = unat (sb_alloc sb)" using ok by (simp add: sb_space_def)
  have "unat (sb_len sb + extra) = unat (sb_len sb) + unat extra" using fits by (intro unat_add_small) simp
  then have nr: "unat ?nr = unat (sb_len sb) + unat extra + 1" using fits by (simp add: unat_add_small)
  then have "0 < ?nr" by (simp add: word_less_nat_alt)
  note B = ALLOC_GROW_bounds [OF g len this]
  have nodie: "\<not> (unsigned_add_overflows extra 1 \<or> unsigned_add_overflows (sb_len sb) (extra + 1))"
    using fits by (simp only: grow_overflow_iff not_le)
  show ?thesis
  proof (cases "sb_alloc sb = 0")
    case True
    then have l0: "sb_len sb = 0" "sb_buf sb = [CHR 0x00]" using ok by (simp_all add: sb_space_def)
    have "write_at blk 0 [CHR 0x00] = Got (CHR 0x00 # drop 1 blk)"
      using B(2) nr B(1) by (simp add: write_at_def)
    moreover have "length (CHR 0x00 # drop 1 blk) = unat alloc" using B(1,2) nr by simp
    ultimately show ?thesis
      using True l0 g B nr nodie
      by (simp add: strbuf_grow_def Let_def sb_space_def word_less_nat_alt)
  next
    case False
    then have old: "unat (sb_len sb) < length (sb_buf sb)"
      using ok by (simp add: sb_space_def word_less_nat_alt)
    have t: "take (Suc (unat (sb_len sb))) blk = take (Suc (unat (sb_len sb))) (sb_buf sb)"
      using B(4) [of "Suc (unat (sb_len sb))"] False old by simp
    show ?thesis
      using False g B nr nodie ok t
      by (simp add: strbuf_grow_def Let_def sb_space_def word_less_nat_alt)
  qed
qed

lemma take_Suc_same:
  assumes "take (Suc n) xs = take (Suc n) ys"
  shows "xs ! n = ys ! n" "take n xs = take n ys"
  using assms by (metis lessI nth_take) (metis assms min.absorb1 lessI less_imp_le take_take)

lemma strbuf_grow_ok:
  assumes ok: "sb_ok sb" and fits: "unat (sb_len sb) + unat extra + 1 < 2 ^ 64"
  shows "\<exists>sb'. strbuf_grow sb extra = Got sb' \<and> sb_ok sb' \<and> sb_str sb' = sb_str sb \<and> sb_len sb' = sb_len sb
    \<and> sb_alloc sb' \<noteq> 0 \<and> unat (sb_len sb) + unat extra < unat (sb_alloc sb')"
proof -
  obtain sb' where sb': "strbuf_grow sb extra = Got sb'" "sb_space sb'" "sb_len sb' = sb_len sb" "sb_alloc sb' \<noteq> 0"
    "unat (sb_len sb) + unat extra < unat (sb_alloc sb')"
    "take (Suc (unat (sb_len sb))) (sb_buf sb') = take (Suc (unat (sb_len sb))) (sb_buf sb)"
    using strbuf_grow_keeps [OF _ fits] ok sb_ok_space by blast
  then show ?thesis using ok take_Suc_same [OF sb'(6)] by (simp add: sb_ok_space sb_str_def)
qed

lemma sb_str_upd: "sb_str (sb\<lparr>sb_len := n, sb_buf := blk\<rparr>) = take (unat n) blk"
  by (simp add: sb_str_def)

lemma strbuf_setlen_ok:
  assumes "sb_alloc sb \<noteq> 0" "length blk = unat (sb_alloc sb)" "unat n < unat (sb_alloc sb)"
  shows "\<exists>sb'. strbuf_setlen (sb\<lparr>sb_buf := blk\<rparr>) n = Got sb' \<and> sb_ok sb' \<and> sb_str sb' = take (unat n) blk"
proof -
  have "unat (sb_alloc sb - 1) = unat (sb_alloc sb) - 1" using assms(1) by (rule unat_dec)
  then have "\<not> n > sb_alloc sb - 1" using assms(3) by (simp add: word_less_nat_alt)
  then show ?thesis using assms
    by (simp add: strbuf_setlen_def write_at_def sb_ok_def sb_str_def word_less_nat_alt nth_append min_def)
qed

lemma strbuf_add_ok:
  assumes ok: "sb_ok sb" and fits: "length (sb_str sb) + length bytes + 1 < 2 ^ 64"
  shows "\<exists>sb'. strbuf_add sb bytes = Got sb' \<and> sb_ok sb' \<and> sb_str sb' = sb_str sb @ bytes"
proof -
  let ?n = "of_nat (length bytes) :: u64"
  have n: "unat ?n = length bytes" using fits by (intro unat_of_nat_small) simp
  have fits': "unat (sb_len sb) + unat ?n + 1 < 2 ^ 64" using fits ok by (simp only: n length_sb_str)
  obtain s1 where s1: "strbuf_grow sb ?n = Got s1" "sb_ok s1" "sb_str s1 = sb_str sb" "sb_len s1 = sb_len sb"
    "sb_alloc s1 \<noteq> 0" "unat (sb_len sb) + unat ?n < unat (sb_alloc s1)"
    using strbuf_grow_ok [OF ok fits'] by blast
  let ?l = "unat (sb_len sb)"
  let ?blk = "take ?l (sb_buf s1) @ bytes @ drop (?l + length bytes) (sb_buf s1)"
  have len: "length (sb_buf s1) = unat (sb_alloc s1)" using s1 by (simp add: sb_ok_def)
  have w: "write_at (sb_buf s1) (unat (sb_len s1)) bytes = Got ?blk"
    using s1 len n by (simp add: write_at_def)
  have a: "unat (sb_len sb + ?n) = ?l + length bytes" using fits' n by (simp add: unat_add_small)
  have lb: "length ?blk = unat (sb_alloc s1)" using s1 len n by simp
  have lt: "unat (sb_len sb + ?n) < unat (sb_alloc s1)" using a s1 n by simp
  obtain s2 where s2: "strbuf_setlen (s1\<lparr>sb_buf := ?blk\<rparr>) (sb_len sb + ?n) = Got s2" "sb_ok s2"
    "sb_str s2 = take (?l + length bytes) ?blk"
    using strbuf_setlen_ok [OF s1(5) lb lt] unfolding a by blast
  have "take ?l (sb_buf s1) = sb_str sb" using s1(3,4) by (simp add: sb_str_def)
  then have "take (?l + length bytes) ?blk = sb_str sb @ bytes"
    using s1(6) len n by (simp add: length_sb_str [OF ok])
  with s1 s2 w show ?thesis by (simp add: strbuf_add_def)
qed

lemma strbuf_addch_ok:
  assumes ok: "sb_ok sb" and fits: "length (sb_str sb) + 2 < 2 ^ 64"
  shows "\<exists>sb'. strbuf_addch sb c = Got sb' \<and> sb_ok sb' \<and> sb_str sb' = sb_str sb @ [c]"
proof -
  have fits': "unat (sb_len sb) + unat (1 :: u64) + 1 < 2 ^ 64" using fits ok by (simp add: length_sb_str)
  obtain s1 where s1: "strbuf_grow sb 1 = Got s1" "sb_ok s1" "sb_str s1 = sb_str sb" "sb_len s1 = sb_len sb"
    "sb_alloc s1 \<noteq> 0" "unat (sb_len sb) + unat (1 :: u64) < unat (sb_alloc s1)"
    using strbuf_grow_ok [OF ok fits'] by blast
  let ?l = "unat (sb_len sb)"
  have len: "length (sb_buf s1) = unat (sb_alloc s1)" using s1 by (simp add: sb_ok_def)
  have l1: "unat (sb_len sb + 1) = Suc ?l" using fits' by (simp add: unat_add_small)
  have l2: "Suc ?l < length (sb_buf s1)" using s1 len by simp
  let ?b1 = "take ?l (sb_buf s1) @ [c] @ drop (Suc ?l) (sb_buf s1)"
  let ?b2 = "take (Suc ?l) ?b1 @ [CHR 0x00] @ drop (Suc (Suc ?l)) ?b1"
  have "write_at (sb_buf s1) (unat (sb_len s1)) [c] = Got ?b1" using s1 len by (simp add: write_at_def)
  moreover have "write_at ?b1 (unat (sb_len s1 + 1)) [CHR 0x00] = Got ?b2"
    using s1(4) l1 l2 by (simp add: write_at_def)
  ultimately have "strbuf_addch sb c = Got (s1\<lparr>sb_len := sb_len sb + 1, sb_buf := ?b2\<rparr>)"
    using s1 by (simp add: strbuf_addch_def)
  moreover have "sb_ok (s1\<lparr>sb_len := sb_len sb + 1, sb_buf := ?b2\<rparr>)"
    using s1 len l1 l2 by (simp add: sb_ok_def word_less_nat_alt nth_append)
  moreover have T: "take ?l (sb_buf s1) = sb_str sb" using s1(3,4) by (simp add: sb_str_def)
  have "take (Suc ?l) ?b2 = sb_str sb @ [c]" using l2 unfolding T by (simp add: length_sb_str [OF ok])
  then have "sb_str (s1\<lparr>sb_len := sb_len sb + 1, sb_buf := ?b2\<rparr>) = sb_str sb @ [c]"
    by (simp only: sb_str_upd l1)
  ultimately show ?thesis by blast
qed

lemma take_exact: "length xs = n \<Longrightarrow> take n (xs @ ys) = xs"
  by simp

lemma strbuf_splice_ok:
  assumes ok: "sb_ok sb" and pos: "unat pos + unat len \<le> length (sb_str sb)"
    and fits: "length (sb_str sb) + length bytes + 1 < 2 ^ 64"
  shows "\<exists>sb'. strbuf_splice sb pos len bytes = Got sb' \<and> sb_ok sb'
    \<and> sb_str sb' = take (unat pos) (sb_str sb) @ bytes @ drop (unat pos + unat len) (sb_str sb)"
proof -
  let ?n = "of_nat (length bytes) :: u64" and ?l = "unat (sb_len sb)" and ?p = "unat pos" and ?k = "unat len"
  have L: "length (sb_str sb) = ?l" using ok by (rule length_sb_str)
  have n: "unat ?n = length bytes" using fits by (intro unat_of_nat_small) simp
  have pk: "unat (pos + len) = ?p + ?k" using pos L u64_bound [of "sb_len sb"] by (simp add: unat_add_small)
  have c1: "\<not> unsigned_add_overflows pos len"
    using pos L u64_bound [of "sb_len sb"] by (simp add: add_overflows_iff)
  have c2: "\<not> pos > sb_len sb" "\<not> pos + len > sb_len sb"
    using pos L pk by (simp_all add: word_less_nat_alt)
  obtain s1 where s1: "(if ?n \<ge> len then strbuf_grow sb (?n - len) else Got sb) = Got s1" "sb_ok s1"
    "sb_str s1 = sb_str sb" "sb_len s1 = sb_len sb" "?l + length bytes - ?k < length (sb_buf s1)"
    "?l < length (sb_buf s1)" "sb_alloc s1 \<noteq> 0 \<or> length bytes < ?k"
  proof (cases "?n \<ge> len")
    case True
    then have d: "unat (?n - len) = length bytes - ?k" "?k \<le> length bytes"
      using n by (simp_all add: unat_sub word_le_nat_alt)
    then have fits': "unat (sb_len sb) + unat (?n - len) + 1 < 2 ^ 64" using fits L by simp
    obtain s1 where s1: "strbuf_grow sb (?n - len) = Got s1" "sb_ok s1" "sb_str s1 = sb_str sb"
      "sb_len s1 = sb_len sb" "sb_alloc s1 \<noteq> 0" "?l + unat (?n - len) < unat (sb_alloc s1)"
      using strbuf_grow_ok [OF ok fits'] by blast
    moreover have "length (sb_buf s1) = unat (sb_alloc s1)" using s1 by (simp add: sb_ok_def)
    ultimately show ?thesis using True d by (intro that [of s1]) simp_all
  next
    case False
    then have "length bytes < ?k" using n by (simp add: word_le_nat_alt)
    then show ?thesis using False ok sb_ok_len [OF ok] L by (intro that [of sb]) simp_all
  qed
  have alloc: "sb_alloc s1 \<noteq> 0"
  proof (rule ccontr)
    assume "\<not> sb_alloc s1 \<noteq> 0"
    then have "?l = 0" using s1 by (simp add: sb_ok_def)
    then show False using s1(7) \<open>\<not> sb_alloc s1 \<noteq> 0\<close> pos L by simp
  qed
  have len: "length (sb_buf s1) = unat (sb_alloc s1)" using s1 alloc by (simp add: sb_ok_def)
  have pn: "unat (pos + ?n) = ?p + length bytes" using fits pos L n by (simp add: unat_add_small)
  let ?m = "take (?l - ?p - ?k) (drop (?p + ?k) (sb_buf s1))"
  have "unat (sb_len sb - pos) = ?l - ?p" using pos L by (intro unat_sub) (simp add: word_le_nat_alt)
  then have lk: "unat (sb_len sb - pos - len) = ?l - ?p - ?k"
    using pos L by (subst unat_sub) (simp_all add: word_le_nat_alt)
  have lm: "length ?m = ?l - ?p - ?k" using s1 pos L by simp
  let ?b1 = "take (?p + length bytes) (sb_buf s1) @ ?m @ drop (?p + length bytes + (?l - ?p - ?k)) (sb_buf s1)"
  have w1: "write_at (sb_buf s1) (unat (pos + ?n)) ?m = Got ?b1"
    unfolding write_at_def lm pn using s1(5) pos L by simp
  have lb1: "length ?b1 = length (sb_buf s1)" using s1(5) lm pos L by simp
  let ?b2 = "take ?p ?b1 @ bytes @ drop (?p + length bytes) ?b1"
  have w2: "write_at ?b1 ?p bytes = Got ?b2"
    unfolding write_at_def lb1 using s1(5) pos L by simp
  have lb2: "length ?b2 = unat (sb_alloc s1)" using lb1 s1(5) pos L len by simp
  have "unat (sb_len sb + ?n) = ?l + length bytes" using fits L n by (simp add: unat_add_small)
  then have nl: "unat (sb_len sb + ?n - len) = ?l + length bytes - ?k"
    using pos L by (subst unat_sub) (simp_all add: word_le_nat_alt)
  have lt: "unat (sb_len sb + ?n - len) < unat (sb_alloc s1)" using nl s1(5) len by simp
  obtain s2 where s2: "strbuf_setlen (s1\<lparr>sb_buf := ?b2\<rparr>) (sb_len sb + ?n - len) = Got s2" "sb_ok s2"
    "sb_str s2 = take (?l + length bytes - ?k) ?b2"
    using strbuf_setlen_ok [OF alloc lb2 lt] unfolding nl by blast
  have E: "?b2 = (take ?p (sb_buf s1) @ bytes @ ?m) @ drop (?p + length bytes + (?l - ?p - ?k)) (sb_buf s1)"
    using s1(5) pos L by simp
  have "length (take ?p (sb_buf s1) @ bytes @ ?m) = ?l + length bytes - ?k"
    unfolding length_append lm using s1(6) pos L by simp
  then have "take (?l + length bytes - ?k) ?b2 = take ?p (sb_buf s1) @ bytes @ ?m"
    unfolding E by (rule take_exact)
  moreover have T: "sb_str sb = take ?l (sb_buf s1)" using s1(3,4) by (simp add: sb_str_def)
  have "take ?p (sb_buf s1) = take ?p (sb_str sb)" unfolding T using pos L by (simp add: min_def)
  moreover have "?m = drop (?p + ?k) (sb_str sb)" unfolding T by (simp only: drop_take diff_diff_left)
  ultimately have "sb_str s2 = take ?p (sb_str sb) @ bytes @ drop (?p + ?k) (sb_str sb)" using s2(3) by (simp only:)
  moreover have "strbuf_splice sb pos len bytes = Got s2"
    unfolding strbuf_splice_def Let_def
    by (simp only: c1 c2 if_False s1(1) and_then_simps s1(4) lk pk w1 w2 s2(1))
  ultimately show ?thesis using s2(2) by blast
qed

lemma strbuf_adddup_ok:
  assumes ok: "sb_ok sb" and rng: "pos + len \<le> length (sb_str sb)"
    and fits: "length (sb_str sb) + len + 1 < 2 ^ 64"
  shows "\<exists>sb'. strbuf_adddup sb pos len = Got sb' \<and> sb_ok sb'
    \<and> sb_str sb' = sb_str sb @ take len (drop pos (sb_str sb))"
proof -
  let ?n = "of_nat len :: u64" and ?d = "take len (drop pos (sb_str sb))"
  have n: "unat ?n = len" using fits by (intro unat_of_nat_small) simp
  have L: "length (sb_str sb) = unat (sb_len sb)" using ok by (rule length_sb_str)
  have fits': "unat (sb_len sb) + unat ?n + 1 < 2 ^ 64" using fits by (simp only: n L)
  obtain s1 where s1: "strbuf_grow sb ?n = Got s1" "sb_ok s1" "sb_str s1 = sb_str sb" "sb_len s1 = sb_len sb"
    "sb_alloc s1 \<noteq> 0" "unat (sb_len sb) + unat ?n < unat (sb_alloc s1)"
    using strbuf_grow_ok [OF ok fits'] by blast
  have len: "length (sb_buf s1) = unat (sb_alloc s1)" using s1 by (simp add: sb_ok_def)
  have T: "take (unat (sb_len sb)) (sb_buf s1) = sb_str sb" using s1(3,4) by (simp add: sb_str_def)
  have d: "take len (drop pos (sb_buf s1)) = ?d"
    using rng L by (simp add: T [symmetric] drop_take min_def)
  let ?blk = "take (unat (sb_len sb)) (sb_buf s1) @ ?d @ drop (unat (sb_len sb) + len) (sb_buf s1)"
  have ld: "length ?d = len" using rng by simp
  have w: "write_at (sb_buf s1) (unat (sb_len s1)) ?d = Got ?blk"
    unfolding write_at_def ld using s1 len n by simp
  have a: "unat (sb_len sb + ?n) = unat (sb_len sb) + len" using fits' n by (simp add: unat_add_small)
  have lb: "length ?blk = unat (sb_alloc s1)" using s1 len n ld L by simp
  have lt: "unat (sb_len sb + ?n) < unat (sb_alloc s1)" using a s1 n by simp
  obtain s2 where s2: "strbuf_setlen (s1\<lparr>sb_buf := ?blk\<rparr>) (sb_len sb + ?n) = Got s2" "sb_ok s2"
    "sb_str s2 = take (unat (sb_len sb) + len) ?blk"
    using strbuf_setlen_ok [OF s1(5) lb lt] unfolding a by blast
  have "take (unat (sb_len sb) + len) ?blk = sb_str sb @ ?d" unfolding T using L ld by simp
  moreover have "pos + len \<le> length (sb_buf s1)" using rng L s1(6) len by simp
  ultimately show ?thesis using s1 s2 w d by (simp add: strbuf_adddup_def)
qed

lemma strbuf_addbuf_ok:
  assumes ok: "sb_ok sb" and ok2: "sb_ok sb2" and fits: "length (sb_str sb) + length (sb_str sb2) + 1 < 2 ^ 64"
  shows "\<exists>sb'. strbuf_addbuf sb sb2 = Got sb' \<and> sb_ok sb' \<and> sb_str sb' = sb_str sb @ sb_str sb2"
proof -
  have "unat (sb_len sb) + unat (sb_len sb2) + 1 < 2 ^ 64" using fits ok ok2 by (simp add: length_sb_str)
  then obtain s1 where s1: "strbuf_grow sb (sb_len sb2) = Got s1" "sb_ok s1" "sb_str s1 = sb_str sb"
    using strbuf_grow_ok [OF ok] by blast
  have "length (sb_str s1) + length (sb_str sb2) + 1 < 2 ^ 64" using fits s1(3) by simp
  then obtain s2 where "strbuf_add s1 (sb_str sb2) = Got s2" "sb_ok s2" "sb_str s2 = sb_str s1 @ sb_str sb2"
    using strbuf_add_ok [OF s1(2)] by blast
  with s1 show ?thesis by (simp add: strbuf_addbuf_def sb_str_def)
qed

subsection \<open>Trimming and comparing\<close>

primrec rtrim_len :: "string \<Rightarrow> nat \<Rightarrow> nat" where
  "rtrim_len blk 0 = 0"
| "rtrim_len blk (Suc n) = (if isspace (blk ! n) then rtrim_len blk n else Suc n)"

text \<open>The pointer moved over leading space and the length that is left.\<close>

primrec ltrim_pos :: "string \<Rightarrow> nat \<Rightarrow> nat \<Rightarrow> nat \<times> nat" where
  "ltrim_pos blk b 0 = (b, 0)"
| "ltrim_pos blk b (Suc n) = (if isspace (blk ! b) then ltrim_pos blk (b + 1) n else (b, Suc n))"

definition strbuf_trim :: "strbuf \<Rightarrow> strbuf read" where
  "strbuf_trim sb = (let len = rtrim_len (sb_buf sb) (unat (sb_len sb)); (b, len) = ltrim_pos (sb_buf sb) 0 len in
     and_then (write_at (sb_buf sb) 0 (take len (drop b (sb_buf sb)))) (\<lambda>blk.
     and_then (write_at blk len [CHR 0x00]) (\<lambda>blk.
       Got (sb\<lparr>sb_len := of_nat len, sb_buf := blk\<rparr>))))"

definition strbuf_rtrim :: "strbuf \<Rightarrow> strbuf read" where
  "strbuf_rtrim sb = (let len = rtrim_len (sb_buf sb) (unat (sb_len sb)) in
     and_then (write_at (sb_buf sb) len [CHR 0x00]) (\<lambda>blk.
       Got (sb\<lparr>sb_len := of_nat len, sb_buf := blk\<rparr>)))"

definition strbuf_ltrim :: "strbuf \<Rightarrow> strbuf read" where
  "strbuf_ltrim sb = (let (b, len) = ltrim_pos (sb_buf sb) 0 (unat (sb_len sb)) in
     and_then (write_at (sb_buf sb) 0 (take len (drop b (sb_buf sb)))) (\<lambda>blk.
     and_then (write_at blk len [CHR 0x00]) (\<lambda>blk.
       Got (sb\<lparr>sb_len := of_nat len, sb_buf := blk\<rparr>))))"

definition trimmed_right :: "string \<Rightarrow> string" where
  "trimmed_right s = rev (dropWhile isspace (rev s))"

lemma rtrim_len_le: "rtrim_len blk n \<le> n"
  by (induction n) auto

lemma take_rtrim: "n \<le> length blk \<Longrightarrow> take (rtrim_len blk n) blk = trimmed_right (take n blk)"
  by (induction n) (auto simp: trimmed_right_def take_Suc_conv_app_nth)

lemma ltrim_pos_sum: "ltrim_pos blk b n = (b', n') \<Longrightarrow> b' + n' = b + n \<and> n' \<le> n"
  by (induction n arbitrary: b) (fastforce split: if_splits)+

lemma take_ltrim: "ltrim_pos blk b n = (b', n') \<Longrightarrow> b + n \<le> length blk
    \<Longrightarrow> take n' (drop b' blk) = dropWhile isspace (take n (drop b blk))"
proof (induction n arbitrary: b)
  case (Suc n)
  then have "take (Suc n) (drop b blk) = blk ! b # take n (drop (Suc b) blk)"
    by (subst Cons_nth_drop_Suc [symmetric]) simp_all
  with Suc show ?case by (auto split: if_splits)
qed simp

text \<open>Shortening the contents in place.\<close>

lemma shrink_ok:
  assumes ok: "sb_ok sb" and k: "length s \<le> unat (sb_len sb)"
  shows "\<exists>sb'. and_then (write_at (sb_buf sb) 0 s) (\<lambda>blk. and_then (write_at blk (length s) [CHR 0x00]) (\<lambda>blk.
       Got (sb\<lparr>sb_len := of_nat (length s), sb_buf := blk\<rparr>))) = Got sb' \<and> sb_ok sb' \<and> sb_str sb' = s"
proof -
  have n: "unat (of_nat (length s) :: u64) = length s"
    using k u64_bound [of "sb_len sb"] by (intro unat_of_nat_small) simp
  have l: "length s < length (sb_buf sb)" using sb_ok_len [OF ok] k by simp
  let ?b1 = "s @ drop (length s) (sb_buf sb)"
  let ?b2 = "s @ CHR 0x00 # drop (Suc (length s)) (sb_buf sb)"
  have w1: "write_at (sb_buf sb) 0 s = Got ?b1" using l by (simp add: write_at_def)
  have w2: "write_at ?b1 (length s) [CHR 0x00] = Got ?b2" using l by (simp add: write_at_def)
  have "sb_ok (sb\<lparr>sb_len := of_nat (length s), sb_buf := ?b2\<rparr>)"
    using ok l k n by (auto simp: sb_ok_def word_less_nat_alt split: if_splits)
  then show ?thesis using w1 w2 n by (simp add: sb_str_upd)
qed

lemma strbuf_ltrim_ok:
  assumes ok: "sb_ok sb"
  shows "\<exists>sb'. strbuf_ltrim sb = Got sb' \<and> sb_ok sb' \<and> sb_str sb' = dropWhile isspace (sb_str sb)"
proof -
  obtain b n where bn: "ltrim_pos (sb_buf sb) 0 (unat (sb_len sb)) = (b, n)" by force
  let ?s = "take n (drop b (sb_buf sb))"
  have s: "?s = dropWhile isspace (sb_str sb)"
    using take_ltrim [OF bn] sb_ok_len [OF ok] by (simp add: sb_str_def)
  have "n = length ?s" unfolding length_take length_drop
    using ltrim_pos_sum [OF bn] sb_ok_len [OF ok] by linarith
  moreover have "n \<le> unat (sb_len sb)" using ltrim_pos_sum [OF bn] by simp
  ultimately show ?thesis
    using shrink_ok [OF ok, of ?s] s unfolding strbuf_ltrim_def Let_def bn by (simp only: prod.case)
qed

lemma strbuf_trim_ok:
  assumes ok: "sb_ok sb"
  shows "\<exists>sb'. strbuf_trim sb = Got sb' \<and> sb_ok sb'
    \<and> sb_str sb' = dropWhile isspace (trimmed_right (sb_str sb))"
proof -
  let ?k = "rtrim_len (sb_buf sb) (unat (sb_len sb))"
  have k: "?k \<le> unat (sb_len sb)" by (rule rtrim_len_le)
  obtain b n where bn: "ltrim_pos (sb_buf sb) 0 ?k = (b, n)" by force
  let ?s = "take n (drop b (sb_buf sb))"
  have "take ?k (sb_buf sb) = trimmed_right (sb_str sb)"
    unfolding sb_str_def using sb_ok_len [OF ok] by (intro take_rtrim) simp
  then have s: "?s = dropWhile isspace (trimmed_right (sb_str sb))"
    using take_ltrim [OF bn] sb_ok_len [OF ok] k by simp
  have "n = length ?s" unfolding length_take length_drop
    using ltrim_pos_sum [OF bn] sb_ok_len [OF ok] k by linarith
  moreover have "n \<le> unat (sb_len sb)" using ltrim_pos_sum [OF bn] k by simp
  ultimately show ?thesis
    using shrink_ok [OF ok, of ?s] s unfolding strbuf_trim_def Let_def bn by (simp only: prod.case)
qed

lemma strbuf_rtrim_ok:
  assumes ok: "sb_ok sb"
  shows "\<exists>sb'. strbuf_rtrim sb = Got sb' \<and> sb_ok sb' \<and> sb_str sb' = trimmed_right (sb_str sb)"
proof -
  let ?k = "rtrim_len (sb_buf sb) (unat (sb_len sb))"
  let ?s = "take ?k (sb_buf sb)"
  have k: "?k \<le> unat (sb_len sb)" by (rule rtrim_len_le)
  then have l: "length ?s = ?k" using sb_ok_len [OF ok] by simp
  have w: "write_at (sb_buf sb) 0 ?s = Got (sb_buf sb)" using sb_ok_len [OF ok] k by (simp add: write_at_def min_def)
  have "?s = trimmed_right (sb_str sb)"
    unfolding sb_str_def using sb_ok_len [OF ok] by (intro take_rtrim) simp
  with shrink_ok [OF ok, of ?s] k l w show ?thesis
    by (simp add: strbuf_rtrim_def Let_def)
qed

text \<open>The sign of \<open>memcmp\<close> on two blocks of one length, and of \<open>strcmp\<close>.\<close>

fun mem_cmp :: "string \<Rightarrow> string \<Rightarrow> int" where
  "mem_cmp (x # xs) (y # ys) = (if x = y then mem_cmp xs ys else sgn ((of_char x :: int) - of_char y))"
| "mem_cmp xs ys = 0"

fun strcmp :: "string \<Rightarrow> string \<Rightarrow> int" where
  "strcmp (x # xs) (y # ys) = (if x = y then strcmp xs ys else sgn ((of_char x :: int) - of_char y))"
| "strcmp [] [] = 0"
| "strcmp [] ys = - 1"
| "strcmp xs [] = 1"

definition strbuf_cmp :: "strbuf \<Rightarrow> strbuf \<Rightarrow> int" where
  "strbuf_cmp a b = (let len = (if sb_len a < sb_len b then sb_len a else sb_len b);
       cmp = mem_cmp (take (unat len) (sb_buf a)) (take (unat len) (sb_buf b)) in
     if cmp \<noteq> 0 then cmp else if sb_len a < sb_len b then - 1 else of_bool (sb_len a \<noteq> sb_len b))"

text \<open>\<open>prefixcmp\<close> runs over both strings until the prefix ends or they differ.\<close>

fun prefixcmp :: "string \<Rightarrow> string \<Rightarrow> int" where
  "prefixcmp str [] = 0"
| "prefixcmp str (p # ps) = (if cstr_hd str \<noteq> p then (of_char p :: int) - of_char (cstr_hd str)
     else prefixcmp (tl str) ps)"

definition suffixcmp :: "string \<Rightarrow> string \<Rightarrow> int" where
  "suffixcmp str suffix = (if length str < length suffix then - 1
     else strcmp (drop (length str - length suffix) str) suffix)"

lemma strcmp_memcmp: "length a = length b \<Longrightarrow> strcmp a b = mem_cmp a b"
  by (induction a b rule: strcmp.induct) simp_all

lemma sgn_char [simp]: "sgn ((of_char x :: int) - of_char y) = 0 \<longleftrightarrow> x = y"
  by (simp add: sgn_eq_0_iff)

lemma of_char_0 [simp]: "(of_char c :: int) = 0 \<longleftrightarrow> c = CHR 0x00"
  using of_char_eq_iff [of c "CHR 0x00", where 'a = int] by simp

lemma strcmp_take: "strcmp a b = (let n = min (length a) (length b); c = mem_cmp (take n a) (take n b) in
    if c \<noteq> 0 then c else if length a < length b then - 1 else of_bool (length a \<noteq> length b))"
  by (induction a b rule: strcmp.induct) (simp_all add: Let_def)

lemma strcmp_eq_0: "strcmp a b = 0 \<longleftrightarrow> a = b"
  by (induction a b rule: strcmp.induct) (auto simp: sgn_if)

lemma strbuf_cmp_strcmp:
  assumes "sb_ok a" "sb_ok b"
  shows "strbuf_cmp a b = strcmp (sb_str a) (sb_str b)"
proof -
  let ?n = "min (unat (sb_len a)) (unat (sb_len b))"
  have "unat (if sb_len a < sb_len b then sb_len a else sb_len b) = ?n"
    by (simp add: word_less_nat_alt min_def)
  then show ?thesis using assms sb_ok_len [OF assms(1)] sb_ok_len [OF assms(2)]
    by (simp add: strbuf_cmp_def Let_def strcmp_take length_sb_str word_less_nat_alt word_unat_eq_iff)
      (simp add: sb_str_def min.commute min.left_commute)
qed

lemma prefixcmp_eq_0: "CHR 0x00 \<notin> set prefix \<Longrightarrow> prefixcmp str prefix = 0 \<longleftrightarrow> take (length prefix) str = prefix"
proof (induction str prefix rule: prefixcmp.induct)
  case (2 str p ps)
  then show ?case by (cases str) auto
qed simp

lemma suffixcmp_eq_0: "suffixcmp str suffix = 0 \<longleftrightarrow> (\<exists>pre. str = pre @ suffix)"
proof
  assume "suffixcmp str suffix = 0"
  then show "\<exists>pre. str = pre @ suffix"
    by (metis append_take_drop_id not_less strcmp_eq_0 suffixcmp_def zero_neq_neg_one)
qed (auto simp: suffixcmp_def strcmp_eq_0)

subsection \<open>Splitting\<close>

definition memchr :: "string \<Rightarrow> nat \<Rightarrow> char \<Rightarrow> nat \<Rightarrow> nat option" where
  "memchr str n c len = (let k = length (takeWhile (\<lambda>x. x \<noteq> c) (take len (drop n str))) in
     if k < length (take len (drop n str)) then Some (n + k) else None)"

lemma memchr_Some: "memchr str n c len = Some m \<Longrightarrow> n \<le> m \<and> m < n + len \<and> m < length str \<and> str ! m = c"
proof -
  assume a: "memchr str n c len = Some m"
  let ?w = "takeWhile (\<lambda>x. x \<noteq> c) (take len (drop n str))"
  have k: "length ?w < length (take len (drop n str))" "m = n + length ?w"
    using a by (auto simp: memchr_def Let_def split: if_splits)
  have b: "length ?w < len" "n + length ?w < length str" using k(1) by auto
  have "take len (drop n str) ! length ?w = c" using nth_length_takeWhile [OF k(1)] by simp
  then have "str ! (n + length ?w) = c" using b by simp
  with b k(2) show ?thesis by simp
qed

lemma split_next:
  "n < slen \<Longrightarrow> n \<le> (case if b then memchr str n c (slen - n) else None of None \<Rightarrow> slen - 1 | Some m \<Rightarrow> m)
    \<and> (case if b then memchr str n c (slen - n) else None of None \<Rightarrow> slen - 1 | Some m \<Rightarrow> m) < slen"
  using memchr_Some [of str n c "slen - n"] by (auto split: option.splits)

text \<open>
  The loop of \<open>strbuf_split_buf\<close>: \<open>n\<close> runs ahead of the start \<open>p\<close> of the
  current piece; \<open>alloc\<close> is the capacity of the array of pieces, whose last entry is a
  NULL. The pieces are in \<open>ret\<close>, newest first.
\<close>

function split_loop :: "string \<Rightarrow> nat \<Rightarrow> char \<Rightarrow> int \<Rightarrow> nat \<Rightarrow> nat \<Rightarrow> nat \<Rightarrow> strbuf list \<Rightarrow> strbuf list read" where
  "split_loop str slen delim mx alloc n p ret =
     (if \<not> n < slen then Got (rev ret)
      else let pos = length ret;
          m = (if mx \<le> 0 \<or> int pos + 1 < mx then memchr str n delim (slen - n) else None);
          alloc = (if pos + 1 \<ge> alloc then alloc * 2 else alloc);
          n = (case m of None \<Rightarrow> slen - 1 | Some m \<Rightarrow> m);
          len = n - p + 1
        in if \<not> pos + 1 < alloc then Overrun
        else and_then (strbuf_init (of_nat len)) (\<lambda>t. and_then (strbuf_add t (take len (drop p str)))
          (\<lambda>t. split_loop str slen delim mx alloc (n + 1) (n + 1) (t # ret))))"
  by pat_completeness auto
termination
proof (relation "measure (\<lambda>(str, slen, delim, mx, alloc, n, p, ret). slen - n)", goal_cases)
  case (2 str slen delim mx alloc n p ret)
  then show ?case
    using split_next [of n slen "mx \<le> 0 \<or> int (length ret) + 1 < mx" str delim]
    by (simp add: diff_less_mono2 less_Suc_eq_le split del: if_split)
qed simp

declare split_loop.simps [simp del]

definition strbuf_split_buf :: "string \<Rightarrow> nat \<Rightarrow> char \<Rightarrow> int \<Rightarrow> strbuf list read" where
  "strbuf_split_buf str slen delim mx = split_loop str slen delim mx 2 0 0 []"

lemma strbuf_init_ok: "unat hint + 1 < 2 ^ 64 \<Longrightarrow> \<exists>sb. strbuf_init hint = Got sb \<and> sb_ok sb \<and> sb_str sb = []"
  using strbuf_grow_ok [OF STRBUF_INIT_ok(1), of hint] STRBUF_INIT_ok
  by (cases "hint = 0") (simp_all add: strbuf_init_def, metis STRBUF_INIT_def add_0 strbuf.select_convs(2) unsigned_0)

text \<open>What a split promises: pieces that make up the string, each but the last ended by the
  delimiter and no delimiter inside a piece unless it is the one that reached the maximum.\<close>

definition split_pieces :: "char \<Rightarrow> string list \<Rightarrow> bool" where
  "split_pieces delim ps \<longleftrightarrow> (\<forall>p \<in> set (butlast ps). p \<noteq> [] \<and> last p = delim \<and> delim \<notin> set (butlast p))"

lemma memchr_before: "memchr str n c len = Some m \<Longrightarrow> c \<notin> set (take (m - n) (drop n str))"
proof -
  assume a: "memchr str n c len = Some m"
  let ?w = "takeWhile (\<lambda>x. x \<noteq> c) (take len (drop n str))"
  have k: "length ?w < length (take len (drop n str))" "m = n + length ?w"
    using a by (auto simp: memchr_def Let_def split: if_splits)
  have "?w = take (length ?w) (take len (drop n str))" by (rule takeWhile_eq_take)
  also have "\<dots> = take (length ?w) (drop n str)"
    using k(1) unfolding take_take length_take by (simp only: min_less_iff_conj min.absorb1 less_imp_le)
  finally have "take (m - n) (drop n str) = ?w" using k(2) by simp
  then show ?thesis using set_takeWhileD by fastforce
qed
lemma split_pieces_Cons: "split_pieces delim (p # ps) \<longleftrightarrow> ps = [] \<or>
    (p \<noteq> [] \<and> last p = delim \<and> delim \<notin> set (butlast p)) \<and> split_pieces delim ps"
  by (simp add: split_pieces_def)

text \<open>The piece the loop cuts off, when the delimiter is found and when it is not.\<close>

lemma piece_found:
  assumes "memchr str n c len = Some m"
  shows "take (m - n + 1) (drop n str) \<noteq> []" "last (take (m - n + 1) (drop n str)) = c"
    "c \<notin> set (butlast (take (m - n + 1) (drop n str)))"
proof -
  note M = memchr_Some [OF assms]
  have "drop n str ! (m - n) = c" "m - n < length (drop n str)" using M by auto
  then have e: "take (m - n + 1) (drop n str) = take (m - n) (drop n str) @ [c]"
    using take_Suc_conv_app_nth [of "m - n" "drop n str"] by simp
  then show "take (m - n + 1) (drop n str) \<noteq> []" "last (take (m - n + 1) (drop n str)) = c" by simp_all
  show "c \<notin> set (butlast (take (m - n + 1) (drop n str)))"
    unfolding e using memchr_before [OF assms] by simp
qed

lemma split_loop_ok:
  assumes "slen \<le> length str" "slen + 1 < 2 ^ 64" "length ret < alloc" "2 \<le> alloc" "list_all sb_ok ret" "n \<le> slen"
  shows "\<exists>sbs. split_loop str slen delim mx alloc n n ret = Got (rev ret @ sbs) \<and> list_all sb_ok sbs
    \<and> concat (map sb_str sbs) = drop n (take slen str) \<and> split_pieces delim (map sb_str sbs)
    \<and> (0 < mx \<longrightarrow> int (length ret) < mx \<longrightarrow> int (length ret + length sbs) \<le> mx)"
  using assms
proof (induction "slen - n" arbitrary: n ret alloc rule: less_induct)
  case less
  show ?case
  proof (cases "n < slen")
    case False
    with less.prems show ?thesis by (simp add: split_loop.simps [of str] split_pieces_def)
  next
    case True
    define m where "m = (if mx \<le> 0 \<or> int (length ret) + 1 < mx then memchr str n delim (slen - n) else None)"
    define e where "e = (case m of None \<Rightarrow> slen - 1 | Some m \<Rightarrow> m)"
    let ?a = "if length ret + 1 \<ge> alloc then alloc * 2 else alloc"
    let ?p = "take (e - n + 1) (drop n str)"
    have E: "n \<le> e" "e < slen"
      using split_next [OF True] unfolding e_def m_def by blast+
    have lp: "length ?p = e - n + 1" using E less.prems(1) by simp
    have a: "length ret + 1 < ?a" using less.prems by auto
    have "unat (of_nat (e - n + 1) :: u64) + 1 < 2 ^ 64"
      using E less.prems(2) by (subst unat_of_nat_small) simp_all
    then obtain t0 where t0: "strbuf_init (of_nat (e - n + 1)) = Got t0" "sb_ok t0" "sb_str t0 = []"
      using strbuf_init_ok by blast
    have "length (sb_str t0) + length ?p + 1 < 2 ^ 64" using lp E less.prems(2) t0(3) by simp
    then obtain t where t: "strbuf_add t0 ?p = Got t" "sb_ok t" "sb_str t = ?p"
      using strbuf_add_ok [OF t0(2)] t0(3) by fastforce
    have step: "split_loop str slen delim mx alloc n n ret = split_loop str slen delim mx ?a (e + 1) (e + 1) (t # ret)"
      using True a t0(1) t(1) by (simp add: split_loop.simps [of str slen delim mx alloc] Let_def e_def m_def)
    have "\<exists>sbs. split_loop str slen delim mx ?a (e + 1) (e + 1) (t # ret) = Got (rev (t # ret) @ sbs)
      \<and> list_all sb_ok sbs \<and> concat (map sb_str sbs) = drop (e + 1) (take slen str)
      \<and> split_pieces delim (map sb_str sbs)
      \<and> (0 < mx \<longrightarrow> int (length (t # ret)) < mx \<longrightarrow> int (length (t # ret) + length sbs) \<le> mx)"
      using less.prems E a t(2) by (intro less.hyps) auto
    then obtain sbs where R: "split_loop str slen delim mx ?a (e + 1) (e + 1) (t # ret) = Got (rev (t # ret) @ sbs)"
      "list_all sb_ok sbs" "concat (map sb_str sbs) = drop (e + 1) (take slen str)"
      "split_pieces delim (map sb_str sbs)"
      "0 < mx \<longrightarrow> int (length (t # ret)) < mx \<longrightarrow> int (length (t # ret) + length sbs) \<le> mx" by blast
    have "drop n (take slen str) = ?p @ drop (e + 1) (take slen str)"
    proof -
      have "?p = take (e + 1 - n) (drop n (take slen str))" using E by (simp add: drop_take min_def Suc_diff_le)
      moreover have "drop (e + 1) (take slen str) = drop (e + 1 - n) (drop n (take slen str))" using E by simp
      ultimately show ?thesis by (simp only: append_take_drop_id)
    qed
    moreover have "split_pieces delim (map sb_str (t # sbs))"
    proof (cases m)
      case None
      then have "e + 1 = slen" using True by (simp add: e_def)
      then have "concat (map sb_str sbs) = []" using R(3) by simp
      moreover have "sbs = []"
        using R(1) True \<open>e + 1 = slen\<close> by (simp add: split_loop.simps [of str slen delim mx _ slen])
      ultimately show ?thesis by (simp add: split_pieces_def)
    next
      case (Some m)
      then have "memchr str n delim (slen - n) = Some m" unfolding m_def by (auto split: if_splits)
      from piece_found [OF this] Some show ?thesis using R(4) t(3) by (simp add: split_pieces_Cons e_def)
    qed
    moreover have "0 < mx \<longrightarrow> int (length ret) < mx \<longrightarrow> int (length ret + length (t # sbs)) \<le> mx"
    proof (intro impI)
      assume mx: "0 < mx" "int (length ret) < mx"
      show "int (length ret + length (t # sbs)) \<le> mx"
      proof (cases "int (length ret) + 1 < mx")
        case True
        then show ?thesis using R(5) mx by simp
      next
        case False
        then have "e + 1 = slen" using mx \<open>n < slen\<close> by (simp add: e_def m_def)
        then have "sbs = []" using R(1) by (simp add: split_loop.simps [of str slen delim mx _ slen])
        then show ?thesis using mx by simp
      qed
    qed
    ultimately show ?thesis using R step t by (intro exI [of _ "t # sbs"]) simp
  qed
qed

subsection \<open>Operations that only append\<close>

text \<open>A loop over the items of a list that hands the buffer from one step to the next.\<close>

primrec each :: "('b \<Rightarrow> 'x \<Rightarrow> 'b read) \<Rightarrow> 'x list \<Rightarrow> 'b \<Rightarrow> 'b read" where
  "each f [] b = Got b"
| "each f (x # xs) b = and_then (f b x) (each f xs)"

locale appendable =
  fixes ok :: "'b \<Rightarrow> bool"
    and content :: "'b \<Rightarrow> string"
    and add :: "'b \<Rightarrow> 'x \<Rightarrow> 'b read"
    and piece :: "'x \<Rightarrow> string"
  assumes add: "ok b \<Longrightarrow> length (content b) + length (piece x) + 1 < 2 ^ 64
    \<Longrightarrow> \<exists>b'. add b x = Got b' \<and> ok b' \<and> content b' = content b @ piece x"
begin

lemma each_ok:
  "ok b \<Longrightarrow> length (content b) + length (concat (map piece xs)) + 1 < 2 ^ 64
    \<Longrightarrow> \<exists>b'. each add xs b = Got b' \<and> ok b' \<and> content b' = content b @ concat (map piece xs)"
proof (induction xs arbitrary: b)
  case (Cons x xs)
  have "length (content b) + length (piece x) + 1 < 2 ^ 64" using Cons.prems(2) by simp
  from add [OF Cons.prems(1) this] obtain b1 where
    b1: "add b x = Got b1" "ok b1" "content b1 = content b @ piece x" by blast
  then have "length (content b1) + length (concat (map piece xs)) + 1 < 2 ^ 64" using Cons.prems(2) by simp
  from Cons.IH [OF b1(2) this] b1 show ?case by auto
qed simp

end

interpretation adding_bytes: appendable sb_ok sb_str strbuf_add "\<lambda>s. s"
  by unfold_locales (rule strbuf_add_ok)

interpretation adding_chars: appendable sb_ok sb_str strbuf_addch "\<lambda>c. [c]"
  by unfold_locales (rule strbuf_addch_ok, simp_all)

text \<open>Doubling the percent signs, for a text that goes through \<open>strbuf_expand\<close>.\<close>

definition percent_step :: "strbuf \<Rightarrow> char \<Rightarrow> strbuf read" where
  "percent_step dst c = and_then (if c = CHR ''%'' then strbuf_addch dst (CHR ''%'') else Got dst)
     (\<lambda>dst. strbuf_addch dst c)"

definition strbuf_addbuf_percentquote :: "strbuf \<Rightarrow> strbuf \<Rightarrow> strbuf read" where
  "strbuf_addbuf_percentquote dst src = each percent_step (take (unat (sb_len src)) (sb_buf src)) dst"

definition percent_piece :: "char \<Rightarrow> string" where
  "percent_piece c = (if c = CHR ''%'' then [c, c] else [c])"

interpretation percent_quoting: appendable sb_ok sb_str percent_step percent_piece
proof
  fix b c
  assume ok: "sb_ok b" and fits: "length (sb_str b) + length (percent_piece c) + 1 < 2 ^ 64"
  show "\<exists>b'. percent_step b c = Got b' \<and> sb_ok b' \<and> sb_str b' = sb_str b @ percent_piece c"
  proof (cases "c = CHR ''%''")
    case True
    then have "length (sb_str b) + length (concat (map (\<lambda>c. [c]) [c, c])) + 1 < 2 ^ 64"
      using fits by (simp add: percent_piece_def)
    from adding_chars.each_ok [OF ok this] obtain b' where
      "each strbuf_addch [c, c] b = Got b'" "sb_ok b'" "sb_str b' = sb_str b @ [c, c]" by auto
    moreover have "percent_step b c = each strbuf_addch [c, c] b"
      using True by (simp add: percent_step_def) (simp add: and_then_def split: read.splits)
    ultimately show ?thesis using True by (simp add: percent_piece_def)
  next
    case False
    then show ?thesis using strbuf_addch_ok [OF ok, of c] fits by (simp add: percent_step_def percent_piece_def)
  qed
qed

subsection \<open>Formatted output\<close>

text \<open>\<open>text\<close> is what the format and its arguments print. \<open>vsnprintf\<close> writes as much of
  it as fits in front of a NUL; a text that does not fit is printed again after growing.\<close>

definition strbuf_vaddf :: "strbuf \<Rightarrow> string \<Rightarrow> strbuf read" where
  "strbuf_vaddf sb txt = and_then (if strbuf_avail sb = 0 then strbuf_grow sb 64 else Got sb) (\<lambda>sb.
     let len = length txt;
       print = (\<lambda>sb. and_then (write_at (sb_buf sb) (unat (sb_len sb))
         (take (unat (sb_alloc sb - sb_len sb) - 1) txt @ [CHR 0x00])) (\<lambda>blk. Got (sb\<lparr>sb_buf := blk\<rparr>)))
     in and_then (print sb) (\<lambda>sb. and_then
       (if len > unat (strbuf_avail sb) then and_then (strbuf_grow sb (of_nat len)) (\<lambda>sb.
          and_then (print sb) (\<lambda>sb. if len > unat (strbuf_avail sb) then Bad else Got sb)) else Got sb)
       (\<lambda>sb. strbuf_setlen sb (sb_len sb + of_nat len))))"

subsection \<open>Expanding a format\<close>

text \<open>\<open>fn\<close> handles the text after a percent sign and returns how much of it it consumed.\<close>

function strbuf_expand :: "strbuf \<Rightarrow> string \<Rightarrow> (strbuf \<Rightarrow> string \<Rightarrow> (strbuf \<times> nat) read) \<Rightarrow> strbuf read" where
  "strbuf_expand sb fmt fn =
     (let n = length (takeWhile (\<lambda>c. c \<noteq> CHR ''%'') fmt) in
      and_then (strbuf_add sb (take n fmt)) (\<lambda>sb.
        if drop n fmt = [] then Got sb
        else let fmt = tl (drop n fmt) in
          if cstr_hd fmt = CHR ''%'' then and_then (strbuf_addch sb (CHR ''%'')) (\<lambda>sb. strbuf_expand sb (tl fmt) fn)
          else and_then (fn sb fmt) (\<lambda>(sb, consumed).
            if consumed \<noteq> 0 then if consumed \<le> length fmt then strbuf_expand sb (drop consumed fmt) fn else Overrun
            else and_then (strbuf_addch sb (CHR ''%'')) (\<lambda>sb. strbuf_expand sb fmt fn))))"
  by pat_completeness auto
termination
  by (relation "measure (\<lambda>(sb, fmt, fn). length fmt)") auto

declare strbuf_expand.simps [simp del]

fun strbuf_expand_dict_cb :: "(string \<times> string option) list \<Rightarrow> strbuf \<Rightarrow> string \<Rightarrow> (strbuf \<times> nat) read" where
  "strbuf_expand_dict_cb [] sb placeholder = Got (sb, 0)"
| "strbuf_expand_dict_cb ((p, v) # es) sb placeholder =
     (if length p = 0 then Got (sb, 0)
      else if take (length p) placeholder = p
      then and_then (case v of Some v \<Rightarrow> strbuf_add sb v | None \<Rightarrow> Got sb) (\<lambda>sb. Got (sb, length p))
      else strbuf_expand_dict_cb es sb placeholder)"

lemma expand_percent_quoted:
  assumes "sb_ok sb" "length (sb_str sb) + length s + 1 < 2 ^ 64"
  shows "\<exists>sb'. strbuf_expand sb (concat (map percent_piece s)) fn = Got sb' \<and> sb_ok sb' \<and> sb_str sb' = sb_str sb @ s"
  using assms
proof (induction "length s" arbitrary: s sb rule: less_induct)
  case less
  let ?u = "takeWhile (\<lambda>c. c \<noteq> CHR ''%'') s" and ?v = "dropWhile (\<lambda>c. c \<noteq> CHR ''%'') s"
  have s: "s = ?u @ ?v" by simp
  have u: "concat (map percent_piece ?u) = ?u"
    by (induction s) (auto simp: percent_piece_def)
  have "length ?u \<le> length s" by (rule length_takeWhile_le)
  then have fu: "length (sb_str sb) + length ?u + 1 < 2 ^ 64" using less.prems(2) by simp
  from strbuf_add_ok [OF less.prems(1) this] obtain s1 where
    s1: "strbuf_add sb ?u = Got s1" "sb_ok s1" "sb_str s1 = sb_str sb @ ?u" by blast
  show ?case
  proof (cases ?v)
    case Nil
    have "concat (map percent_piece s) = ?u" using u Nil s by (metis append_Nil2)
    moreover have "\<forall>c\<in>set ?u. c \<noteq> CHR ''%''" using set_takeWhileD by fastforce
    ultimately show ?thesis using s1 Nil s
      by (simp add: strbuf_expand.simps [of sb "?u"] takeWhile_eq_all_conv)
  next
    case (Cons p v)
    then have p: "p = CHR ''%''" by (metis (full_types) dropWhile_eq_Cons_conv)
    have sv: "s = ?u @ p # v" using s Cons by simp
    let ?q = "concat (map percent_piece v)"
    have q: "concat (map percent_piece s) = ?u @ p # p # ?q"
    proof -
      have "concat (map percent_piece (?u @ p # v)) = ?u @ p # p # ?q"
        unfolding map_append concat_append u by (simp add: p percent_piece_def)
      then show ?thesis using sv by simp
    qed
    have ls: "length s = length ?u + Suc (length v)" using sv by (metis length_append length_Cons)
    then have "length (sb_str s1) + 2 < 2 ^ 64" using less.prems(2) s1(3) by simp
    from strbuf_addch_ok [OF s1(2) this, of p] obtain s2 where
      s2: "strbuf_addch s1 p = Got s2" "sb_ok s2" "sb_str s2 = sb_str s1 @ [p]" by blast
    have "length v < length s" "length (sb_str s2) + length v + 1 < 2 ^ 64"
      using less.prems(2) ls s1(3) s2(3) by simp_all
    from less.hyps [OF this(1) s2(2) this(2)] obtain s3 where
      s3: "strbuf_expand s2 ?q fn = Got s3" "sb_ok s3" "sb_str s3 = sb_str s2 @ v" by blast
    have t: "takeWhile (\<lambda>c. c \<noteq> CHR ''%'') (?u @ p # p # ?q) = ?u"
      using p by (subst takeWhile_append2) (auto dest: set_takeWhileD)
    have "strbuf_expand sb (?u @ p # p # ?q) fn = Got s3"
      unfolding strbuf_expand.simps [of sb "?u @ p # p # ?q"] Let_def t
      using s1(1) s2(1) s3(1) p by simp
    then show ?thesis using q s3 s2(3) s1(3) sv by (metis append.assoc append_Cons append_Nil)
  qed
qed

subsection \<open>Lines\<close>

definition strbuf_complete_line :: "strbuf \<Rightarrow> strbuf read" where
  "strbuf_complete_line sb = (if sb_len sb \<noteq> 0 \<and> sb_buf sb ! (unat (sb_len sb) - 1) \<noteq> CHR 0x0A
     then strbuf_addch sb (CHR 0x0A) else Got sb)"

function add_lines_loop :: "strbuf \<Rightarrow> string \<Rightarrow> string \<Rightarrow> strbuf read" where
  "add_lines_loop out prefix buf = (if length buf = 0 then Got out
     else let k = (case memchr buf 0 (CHR 0x0A) (length buf) of Some nl \<Rightarrow> nl + 1 | None \<Rightarrow> length buf) in
       and_then (strbuf_add out prefix) (\<lambda>out. and_then (strbuf_add out (take k buf)) (\<lambda>out.
         add_lines_loop out prefix (drop k buf))))"
  by pat_completeness auto
termination
  by (relation "measure (\<lambda>(out, prefix, buf). length buf)") (auto split: option.splits)

declare add_lines_loop.simps [simp del]

definition strbuf_add_lines :: "strbuf \<Rightarrow> string \<Rightarrow> string \<Rightarrow> strbuf read" where
  "strbuf_add_lines out prefix buf = and_then (add_lines_loop out prefix buf) strbuf_complete_line"

text \<open>
  A stream is what is left to read and its end-of-file indicator, which a read at the end sets.
  The loop of \<open>strbuf_getwholeline\<close> stores characters without a terminating NUL; its last
  result tells whether it met the end of the file.
\<close>

type_synonym stream = "string \<times> bool"

fun getline_loop :: "strbuf \<Rightarrow> string \<Rightarrow> char \<Rightarrow> (strbuf \<times> stream \<times> bool) read" where
  "getline_loop sb [] term = Got (sb, ([], True), True)"
| "getline_loop sb (ch # fp) term = and_then (strbuf_grow sb 1) (\<lambda>sb.
     and_then (write_at (sb_buf sb) (unat (sb_len sb)) [ch]) (\<lambda>blk.
       let sb = sb\<lparr>sb_len := sb_len sb + 1, sb_buf := blk\<rparr> in
       if ch = term then Got (sb, (fp, False), False) else getline_loop sb fp term))"

text \<open>The last component is the return value: true for \<open>EOF\<close>.\<close>

definition strbuf_getwholeline :: "strbuf \<Rightarrow> stream \<Rightarrow> char \<Rightarrow> (strbuf \<times> stream \<times> bool) read" where
  "strbuf_getwholeline sb fp term =
     (if snd fp then Got (sb, fp, True)
      else and_then (strbuf_setlen sb 0) (\<lambda>sb. and_then (getline_loop sb (fst fp) term) (\<lambda>(sb, fp, at_eof).
        if at_eof \<and> sb_len sb = 0 then Got (sb, fp, True)
        else and_then (write_at (sb_buf sb) (unat (sb_len sb)) [CHR 0x00]) (\<lambda>blk.
          Got (sb\<lparr>sb_buf := blk\<rparr>, fp, False)))))"

definition strbuf_getline :: "strbuf \<Rightarrow> stream \<Rightarrow> char \<Rightarrow> (strbuf \<times> stream \<times> bool) read" where
  "strbuf_getline sb fp term = and_then (strbuf_getwholeline sb fp term) (\<lambda>(sb, fp, is_eof).
     if is_eof then Got (sb, fp, True)
     else and_then (if sb_buf sb ! (unat (sb_len sb) - 1) = term then strbuf_setlen sb (sb_len sb - 1) else Got sb)
       (\<lambda>sb. Got (sb, fp, False)))"

lemma sb_space_len: "sb_space sb \<Longrightarrow> unat (sb_len sb) < length (sb_buf sb)"
  by (auto simp: sb_space_def word_less_nat_alt split: if_splits)

lemma getline_step:
  assumes ok: "sb_space sb" and fits: "unat (sb_len sb) + 2 < 2 ^ 64"
  shows "\<exists>s1 blk. strbuf_grow sb 1 = Got s1 \<and> write_at (sb_buf s1) (unat (sb_len s1)) [c] = Got blk
    \<and> sb_space (s1\<lparr>sb_len := sb_len s1 + 1, sb_buf := blk\<rparr>) \<and> unat (sb_len s1 + 1) = unat (sb_len sb) + 1
    \<and> sb_str (s1\<lparr>sb_len := sb_len s1 + 1, sb_buf := blk\<rparr>) = sb_str sb @ [c]"
proof -
  have f: "unat (sb_len sb) + unat (1 :: u64) + 1 < 2 ^ 64" using fits by simp
  let ?l = "unat (sb_len sb)"
  from strbuf_grow_keeps [OF ok f] obtain s1 where s1: "strbuf_grow sb 1 = Got s1" "sb_space s1"
    "sb_len s1 = sb_len sb" "sb_alloc s1 \<noteq> 0" "?l + unat (1 :: u64) < unat (sb_alloc s1)"
    "take (Suc ?l) (sb_buf s1) = take (Suc ?l) (sb_buf sb)" by blast
  have len: "length (sb_buf s1) = unat (sb_alloc s1)" using s1 by (simp add: sb_space_def)
  let ?blk = "take ?l (sb_buf s1) @ [c] @ drop (Suc ?l) (sb_buf s1)"
  have w: "write_at (sb_buf s1) (unat (sb_len s1)) [c] = Got ?blk" using s1 len by (simp add: write_at_def)
  have l1: "unat (sb_len s1 + 1) = Suc ?l" using fits s1(3) by (simp add: unat_add_small)
  have T: "take ?l (sb_buf s1) = sb_str sb" using take_Suc_same [OF s1(6)] by (simp add: sb_str_def)
  have "length (sb_str sb) = ?l" using sb_space_len [OF ok] by (simp add: sb_str_def)
  then have "take (Suc ?l) ?blk = sb_str sb @ [c]" unfolding T by simp
  then have "sb_str (s1\<lparr>sb_len := sb_len s1 + 1, sb_buf := ?blk\<rparr>) = sb_str sb @ [c]"
    by (simp only: sb_str_upd l1)
  moreover have "sb_space (s1\<lparr>sb_len := sb_len s1 + 1, sb_buf := ?blk\<rparr>)"
    using s1 len l1 by (simp add: sb_space_def word_less_nat_alt)
  ultimately show ?thesis using s1(1) w l1 by auto
qed

definition line_of :: "char \<Rightarrow> string \<Rightarrow> string" where
  "line_of c s = takeWhile (\<lambda>x. x \<noteq> c) s @ take 1 (dropWhile (\<lambda>x. x \<noteq> c) s)"

lemma line_of_simps [simp]: "line_of c [] = []" "line_of c (x # s) = x # (if x = c then [] else line_of c s)"
  by (simp_all add: line_of_def)

lemma line_of_Nil: "line_of c s = [] \<longleftrightarrow> s = []"
  by (cases s) simp_all

lemma getline_loop_ok:
  assumes "sb_space sb" "length (sb_str sb) + length s + 1 < 2 ^ 64"
  shows "\<exists>sb'. getline_loop sb s c = Got (sb', (drop (length (line_of c s)) s, c \<notin> set s), c \<notin> set s)
    \<and> sb_space sb' \<and> sb_str sb' = sb_str sb @ line_of c s"
  using assms
proof (induction s arbitrary: sb)
  case (Cons x s)
  have l: "length (sb_str sb) = unat (sb_len sb)" using sb_space_len [OF Cons.prems(1)] by (simp add: sb_str_def)
  then have f: "unat (sb_len sb) + 2 < 2 ^ 64" using Cons.prems(2) by simp
  from getline_step [OF Cons.prems(1) f, of x] obtain s1 blk where s1: "strbuf_grow sb 1 = Got s1"
    "write_at (sb_buf s1) (unat (sb_len s1)) [x] = Got blk"
    "sb_space (s1\<lparr>sb_len := sb_len s1 + 1, sb_buf := blk\<rparr>)" "unat (sb_len s1 + 1) = unat (sb_len sb) + 1"
    "sb_str (s1\<lparr>sb_len := sb_len s1 + 1, sb_buf := blk\<rparr>) = sb_str sb @ [x]" by blast
  have "length (sb_str (s1\<lparr>sb_len := sb_len s1 + 1, sb_buf := blk\<rparr>)) + length s + 1 < 2 ^ 64"
    using Cons.prems(2) s1(5) by simp
  from Cons.IH [OF s1(3) this] s1 show ?case by (cases "x = c") auto
qed simp

lemma sb_ok_terminate:
  assumes "sb_space sb"
  shows "\<exists>blk. write_at (sb_buf sb) (unat (sb_len sb)) [CHR 0x00] = Got blk \<and> sb_ok (sb\<lparr>sb_buf := blk\<rparr>)
    \<and> sb_str (sb\<lparr>sb_buf := blk\<rparr>) = sb_str sb"
  using sb_space_len [OF assms] assms
  by (auto simp: write_at_def sb_ok_def sb_space_def sb_str_def nth_append word_less_nat_alt min_def split: if_splits)

lemma strbuf_setlen_shrinks:
  assumes ok: "sb_ok sb" and n: "n \<le> sb_len sb"
  shows "\<exists>sb'. strbuf_setlen sb n = Got sb' \<and> sb_ok sb' \<and> sb_str sb' = take (unat n) (sb_str sb)"
proof (cases "sb_alloc sb = 0")
  case True
  then show ?thesis using ok n by (simp add: strbuf_setlen_def sb_ok_def sb_str_def write_at_def)
next
  case False
  have "unat n < unat (sb_alloc sb)" using ok n False by (simp add: sb_ok_def word_less_nat_alt word_le_nat_alt)
  moreover have "length (sb_buf sb) = unat (sb_alloc sb)" using ok False by (simp add: sb_ok_def)
  ultimately show ?thesis using strbuf_setlen_ok [OF False, of "sb_buf sb" n] n
    by (simp add: sb_str_def word_le_nat_alt min_def)
qed

lemma strbuf_getwholeline_ok:
  assumes ok: "sb_ok sb" and fits: "length s + 1 < 2 ^ 64" and s: "s \<noteq> []"
  shows "\<exists>sb'. strbuf_getwholeline sb (s, False) c = Got (sb', (drop (length (line_of c s)) s, c \<notin> set s), False)
    \<and> sb_ok sb' \<and> sb_str sb' = line_of c s"
proof -
  from strbuf_setlen_shrinks [OF ok, of 0] obtain s0 where
    s0: "strbuf_setlen sb 0 = Got s0" "sb_ok s0" "sb_str s0 = []" by auto
  then have sp: "sb_space s0" by (simp add: sb_ok_space)
  have "length (sb_str s0) + length s + 1 < 2 ^ 64" using fits s0(3) by simp
  from getline_loop_ok [OF sp this, of c] obtain s1 where
    s1: "getline_loop s0 s c = Got (s1, (drop (length (line_of c s)) s, c \<notin> set s), c \<notin> set s)"
    "sb_space s1" "sb_str s1 = line_of c s" using s0(3) by auto
  from sb_ok_terminate [OF s1(2)] obtain blk where
    b: "write_at (sb_buf s1) (unat (sb_len s1)) [CHR 0x00] = Got blk" "sb_ok (s1\<lparr>sb_buf := blk\<rparr>)"
    "sb_str (s1\<lparr>sb_buf := blk\<rparr>) = sb_str s1" by blast
  have "sb_len s1 \<noteq> 0" using s1(3) s by (cases s) (auto simp: sb_str_def)
  then show ?thesis using s0(1) s1 b by (simp add: strbuf_getwholeline_def)
qed

lemma last_line_of: "s \<noteq> [] \<Longrightarrow> last (line_of c s) = c \<longleftrightarrow> c \<in> set s"
  by (induction s) (auto simp: line_of_Nil)

lemma butlast_line_of: "c \<in> set s \<Longrightarrow> butlast (line_of c s) = takeWhile (\<lambda>x. x \<noteq> c) s"
  by (induction s) (auto simp: line_of_Nil)

subsection \<open>Formatted output appends its text\<close>

text \<open>\<open>vsnprintf\<close> into the room behind the string.\<close>

lemma vsnprintf_room:
  assumes sp: "sb_space sb" "sb_alloc sb \<noteq> 0"
  defines "room \<equiv> unat (sb_alloc sb - sb_len sb) - 1"
  shows "\<exists>blk. write_at (sb_buf sb) (unat (sb_len sb)) (take room txt @ [CHR 0x00]) = Got blk
    \<and> length blk = unat (sb_alloc sb) \<and> take (unat (sb_len sb)) blk = take (unat (sb_len sb)) (sb_buf sb)
    \<and> (unat (sb_len sb) + length txt < unat (sb_alloc sb)
        \<longrightarrow> take (unat (sb_len sb) + length txt) blk = take (unat (sb_len sb)) (sb_buf sb) @ txt)"
    and "unat (strbuf_avail sb) = room" "unat (sb_len sb) + room + 1 = unat (sb_alloc sb)"
proof -
  have lt: "sb_len sb < sb_alloc sb" "length (sb_buf sb) = unat (sb_alloc sb)" using sp by (auto simp: sb_space_def)
  then have d: "unat (sb_alloc sb - sb_len sb) = unat (sb_alloc sb) - unat (sb_len sb)" by (simp add: unat_sub less_imp_le)
  have pos: "0 < unat (sb_alloc sb) - unat (sb_len sb)" using lt(1) by (simp add: word_less_nat_alt)
  show rsum: "unat (sb_len sb) + room + 1 = unat (sb_alloc sb)" using pos unfolding room_def d by linarith
  have "sb_alloc sb - sb_len sb \<noteq> 0" using d pos by auto
  then show "unat (strbuf_avail sb) = room" using sp(2) by (simp add: strbuf_avail_def room_def unat_dec)
  let ?l = "unat (sb_len sb)"
  have le: "?l + length (take room txt @ [CHR 0x00]) \<le> length (sb_buf sb)" using rsum lt(2) by simp
  let ?blk = "take ?l (sb_buf sb) @ (take room txt @ [CHR 0x00]) @ drop (?l + length (take room txt @ [CHR 0x00])) (sb_buf sb)"
  have "write_at (sb_buf sb) ?l (take room txt @ [CHR 0x00]) = Got ?blk" using le unfolding write_at_def by (rule if_P)
  moreover have "length ?blk = unat (sb_alloc sb)" using le lt(2) by simp
  moreover have "take ?l ?blk = take ?l (sb_buf sb)" using le by simp
  moreover have "take (?l + length txt) ?blk = take ?l (sb_buf sb) @ txt" if "?l + length txt < unat (sb_alloc sb)"
  proof -
    have "take room txt = txt" using that rsum by simp
    then show ?thesis using le by simp
  qed
  ultimately show "\<exists>blk. write_at (sb_buf sb) ?l (take room txt @ [CHR 0x00]) = Got blk
    \<and> length blk = unat (sb_alloc sb) \<and> take ?l blk = take ?l (sb_buf sb)
    \<and> (?l + length txt < unat (sb_alloc sb) \<longrightarrow> take (?l + length txt) blk = take ?l (sb_buf sb) @ txt)" by blast
qed

lemma avail_buf: "strbuf_avail (sb\<lparr>sb_buf := blk\<rparr>) = strbuf_avail sb"
  by (simp add: strbuf_avail_def)

lemma len_buf: "sb_len (sb\<lparr>sb_buf := blk\<rparr>) = sb_len sb"
  by simp

lemma strbuf_vaddf_ok:
  assumes ok: "sb_ok sb" and fits: "length (sb_str sb) + length txt + 65 < 2 ^ 64"
  shows "\<exists>sb'. strbuf_vaddf sb txt = Got sb' \<and> sb_ok sb' \<and> sb_str sb' = sb_str sb @ txt"
proof -
  have l: "length (sb_str sb) = unat (sb_len sb)" by (rule length_sb_str [OF ok])
  let ?l = "unat (sb_len sb)"
  have "unat (sb_len sb) + unat (64 :: u64) + 1 < 2 ^ 64" using fits l by simp
  from strbuf_grow_ok [OF ok this] obtain s1 where s1: "(if strbuf_avail sb = 0 then strbuf_grow sb 64 else Got sb) = Got s1"
    "sb_ok s1" "sb_str s1 = sb_str sb" "sb_len s1 = sb_len sb"  "sb_alloc s1 \<noteq> 0"
    using ok by (cases "strbuf_avail sb = 0") (auto simp: strbuf_avail_def split: if_splits)
  have sp1: "sb_space s1" using s1(2) by (simp add: sb_ok_space)
  note room1 = vsnprintf_room(1) [OF sp1 s1(5), of "txt"] vsnprintf_room(2,3) [OF sp1 s1(5)]
  obtain blk1 where b1: "write_at (sb_buf s1) ?l (take (unat (sb_alloc s1 - sb_len s1) - 1) txt @ [CHR 0x00]) = Got blk1"
    "length blk1 = unat (sb_alloc s1)" "take ?l blk1 = take ?l (sb_buf s1)"
    "?l + length txt < unat (sb_alloc s1) \<longrightarrow> take (?l + length txt) blk1 = take ?l (sb_buf s1) @ txt"
    using room1(1) unfolding s1(4) by blast
  have t1: "take ?l (sb_buf s1) = sb_str sb" using s1(3,4) by (simp add: sb_str_def)
  have n: "unat (of_nat (length txt) :: u64) = length txt" using fits by (intro unat_of_nat_small) simp
  have ln: "unat (sb_len sb + of_nat (length txt)) = ?l + length txt" using fits l n by (subst unat_add_small) simp_all
  show ?thesis
  proof (cases "length txt > unat (strbuf_avail s1)")
    case False
    then have lt: "?l + length txt < unat (sb_alloc s1)" using room1(2,3) unfolding s1(4) by linarith
    obtain s2 where s2: "strbuf_setlen (s1\<lparr>sb_buf := blk1\<rparr>) (sb_len sb + of_nat (length txt)) = Got s2" "sb_ok s2"
      "sb_str s2 = take (?l + length txt) blk1"
      using strbuf_setlen_ok [OF s1(5) b1(2), of "sb_len sb + of_nat (length txt)"] lt unfolding ln by blast
    have av: "(length txt > unat (strbuf_avail (s1\<lparr>sb_buf := blk1\<rparr>))) = False" using False avail_buf [of blk1 s1] by simp
    have "strbuf_vaddf sb txt = Got s2"
      by (simp only: strbuf_vaddf_def s1(1) and_then_simps Let_def s1(4) b1(1) [unfolded s1(4)] av if_False
        len_buf s2(1))
    then show ?thesis using s2(2,3) b1(4) lt t1 by simp
  next
    case True
    let ?s1 = "s1\<lparr>sb_buf := blk1\<rparr>"
    have sp: "sb_space ?s1" using sp1 b1(2) s1(5) by (simp add: sb_space_def)
    have "unat (sb_len ?s1) + unat (of_nat (length txt) :: u64) + 1 < 2 ^ 64" using fits l s1(4) n by simp
    from strbuf_grow_keeps [OF sp this] obtain s2 where s2: "strbuf_grow ?s1 (of_nat (length txt)) = Got s2" "sb_space s2"
      "sb_len s2 = sb_len sb" "sb_alloc s2 \<noteq> 0" "?l + length txt < unat (sb_alloc s2)"
      "take (Suc ?l) (sb_buf s2) = take (Suc ?l) blk1" using s1(4) n by auto
    note room2 = vsnprintf_room(1) [OF s2(2,4), of "txt"] vsnprintf_room(2,3) [OF s2(2,4)]
    obtain blk2 where b2: "write_at (sb_buf s2) ?l (take (unat (sb_alloc s2 - sb_len s2) - 1) txt @ [CHR 0x00]) = Got blk2"
      "length blk2 = unat (sb_alloc s2)" "take (?l + length txt) blk2 = take ?l (sb_buf s2) @ txt"
      using room2(1) s2(5) unfolding s2(3) by blast
    have t2: "take ?l (sb_buf s2) = sb_str sb" using take_Suc_same [OF s2(6)] b1(3) t1 by simp
    have nav: "(length txt > unat (strbuf_avail (s2\<lparr>sb_buf := blk2\<rparr>))) = False"
    proof -
      have "strbuf_avail (s2\<lparr>sb_buf := blk2\<rparr>) = strbuf_avail s2" by (simp add: strbuf_avail_def)
      then show ?thesis using room2(2,3) s2(3,5) by simp
    qed
    obtain s3 where s3: "strbuf_setlen (s2\<lparr>sb_buf := blk2\<rparr>) (sb_len sb + of_nat (length txt)) = Got s3" "sb_ok s3"
      "sb_str s3 = take (?l + length txt) blk2"
      using strbuf_setlen_ok [OF s2(4) b2(2), of "sb_len sb + of_nat (length txt)"] s2(5) unfolding ln by blast
    have av: "(length txt > unat (strbuf_avail ?s1)) = True" using True avail_buf [of blk1 s1] by simp
    have "strbuf_vaddf sb txt = Got s3"
      by (simp only: strbuf_vaddf_def s1(1) and_then_simps Let_def s1(4) b1(1) [unfolded s1(4)] av if_True
        len_buf s2(1,3) b2(1) [unfolded s2(3)] nav if_False s3(1))
    then show ?thesis using s3(2,3) b2(3) t2 by simp
  qed
qed

subsection \<open>Properties\<close>

text \<open>C22. A buffer refines a string: on a well-formed buffer an append, the replacement of any
  part of it, and a trim end without a memory error, leave the buffer terminated and well-formed and
  have the effect of the list operation on its contents, as long as the sizes stay below
  \<open>2\<^sup>6\<^sup>4\<close>.\<close>

theorem strbuf_refines_string:
  assumes "sb_ok sb" "length (sb_str sb) + length bytes + 1 < 2 ^ 64" "unat pos + unat len \<le> length (sb_str sb)"
  shows "(\<exists>sb'. strbuf_add sb bytes = Got sb' \<and> sb_ok sb' \<and> sb_str sb' = sb_str sb @ bytes)
    \<and> (\<exists>sb'. strbuf_splice sb pos len bytes = Got sb' \<and> sb_ok sb'
         \<and> sb_str sb' = take (unat pos) (sb_str sb) @ bytes @ drop (unat pos + unat len) (sb_str sb))
    \<and> (\<exists>sb'. strbuf_trim sb = Got sb' \<and> sb_ok sb'
         \<and> sb_str sb' = dropWhile isspace (rev (dropWhile isspace (rev (sb_str sb)))))"
  using strbuf_add_ok [OF assms(1,2)] strbuf_splice_ok [OF assms(1,3,2)] strbuf_trim_ok [OF assms(1)]
  by (simp add: trimmed_right_def)

lemma abc_ok:
  "sb_ok \<lparr>sb_alloc = 4, sb_len = 3, sb_buf = [CHR ''a'', CHR ''b'', CHR '' '', CHR 0x00]\<rparr>"
  "sb_str \<lparr>sb_alloc = 4, sb_len = 3, sb_buf = [CHR ''a'', CHR ''b'', CHR '' '', CHR 0x00]\<rparr> = ''ab ''"
  by (simp_all add: sb_ok_def sb_str_def)

theorem strbuf_refines_string_witness:
  "\<exists>sb'. strbuf_splice \<lparr>sb_alloc = 4, sb_len = 3, sb_buf = [CHR ''a'', CHR ''b'', CHR '' '', CHR 0x00]\<rparr> 1 2 ''xyz''
     = Got sb' \<and> sb_ok sb' \<and> sb_str sb' = ''axyz''"
  using strbuf_refines_string [of "\<lparr>sb_alloc = 4, sb_len = 3, sb_buf = [CHR ''a'', CHR ''b'', CHR '' '', CHR 0x00]\<rparr>"
    "''xyz''" 1 2] by (simp add: abc_ok)

text \<open>Growing a buffer fails only for a size that overflows \<open>size_t\<close>, and then it dies
  instead of wrapping around: every other request leaves room for what was asked for and the NUL,
  whatever the growth policy computes, and loses nothing of the contents.\<close>

theorem strbuf_grow_exact:
  assumes "sb_ok sb"
  shows "case strbuf_grow sb extra of
       Overrun \<Rightarrow> False
     | Bad \<Rightarrow> 2 ^ 64 \<le> length (sb_str sb) + unat extra + 1
     | Got sb' \<Rightarrow> length (sb_str sb) + unat extra + 1 < 2 ^ 64 \<and> sb_ok sb' \<and> sb_str sb' = sb_str sb
         \<and> unat (strbuf_avail sb') \<ge> unat extra"
proof (cases "unat (sb_len sb) + unat extra + 1 < 2 ^ 64")
  case False
  then show ?thesis using strbuf_grow_dies [of sb extra] length_sb_str [OF assms] by simp
next
  case True
  from strbuf_grow_ok [OF assms True] obtain sb' where sb': "strbuf_grow sb extra = Got sb'" "sb_ok sb'"
    "sb_str sb' = sb_str sb" "sb_len sb' = sb_len sb" "sb_alloc sb' \<noteq> 0"
    "unat (sb_len sb) + unat extra < unat (sb_alloc sb')" by blast
  have "unat (sb_alloc sb' - sb_len sb') = unat (sb_alloc sb') - unat (sb_len sb)"
    using sb'(4,6) by (subst unat_sub) (simp_all add: word_le_nat_alt)
  moreover have "unat (sb_alloc sb' - sb_len sb' - 1) = unat (sb_alloc sb' - sb_len sb') - 1"
    using calculation sb'(6) by (intro unat_dec) auto
  ultimately show ?thesis using sb' True length_sb_str [OF assms] by (simp add: strbuf_avail_def)
qed

theorem strbuf_grow_exact_witness:
  "case strbuf_grow STRBUF_INIT (- 1) of Overrun \<Rightarrow> False | Bad \<Rightarrow> 2 ^ 64 \<le> unat (- 1 :: u64) + 1
     | Got sb' \<Rightarrow> False"
  using strbuf_grow_exact [OF STRBUF_INIT_ok(1), of "- 1"]
  by (simp add: unsigned_minus_1_eq_mask mask_eq_exp_minus_1 split: read.splits)

text \<open>A string in which the percent signs are doubled expands to itself, whatever the handler of
  the placeholders would do.\<close>

theorem percentquote_expands_to_itself:
  assumes "sb_ok src" "2 * length (sb_str src) + 1 < 2 ^ 64"
  shows "\<exists>q r. strbuf_addbuf_percentquote STRBUF_INIT src = Got q \<and> sb_ok q
    \<and> strbuf_expand STRBUF_INIT (sb_str q) fn = Got r \<and> sb_ok r \<and> sb_str r = sb_str src"
proof -
  have "length (concat (map percent_piece s)) \<le> 2 * length s" for s
    by (induction s) (auto simp: percent_piece_def)
  from this [of "sb_str src"] assms(2)
  have "length (sb_str STRBUF_INIT) + length (concat (map percent_piece (sb_str src))) + 1 < 2 ^ 64" by simp
  from percent_quoting.each_ok [OF STRBUF_INIT_ok(1) this] obtain q where
    q: "strbuf_addbuf_percentquote STRBUF_INIT src = Got q" "sb_ok q" "sb_str q = concat (map percent_piece (sb_str src))"
    by (auto simp: strbuf_addbuf_percentquote_def sb_str_def [of src])
  have "length (sb_str STRBUF_INIT) + length (sb_str src) + 1 < 2 ^ 64" using assms(2) by simp
  from expand_percent_quoted [OF STRBUF_INIT_ok(1) this, of fn] q show ?thesis by auto
qed

theorem percentquote_expands_to_itself_witness:
  "\<exists>q r. strbuf_addbuf_percentquote STRBUF_INIT
       \<lparr>sb_alloc = 4, sb_len = 3, sb_buf = [CHR ''5'', CHR ''%'', CHR ''n'', CHR 0x00]\<rparr> = Got q
    \<and> strbuf_expand STRBUF_INIT (sb_str q) (strbuf_expand_dict_cb [(''n'', Some ''name'')]) = Got r
    \<and> sb_str r = ''5%n''"
proof -
  let ?s = "\<lparr>sb_alloc = 4, sb_len = 3, sb_buf = [CHR ''5'', CHR ''%'', CHR ''n'', CHR 0x00]\<rparr>"
  have "sb_ok ?s" "sb_str ?s = ''5%n''" by (simp_all add: sb_ok_def sb_str_def)
  with percentquote_expands_to_itself [of ?s] show ?thesis by fastforce
qed

text \<open>Splitting a buffer cuts it into pieces that make it up again: every piece but the last is
  ended by the delimiter and has none before, there are at most \<open>mx\<close> pieces when
  \<open>mx\<close> is positive, and the array of pieces always has room for its final NULL.\<close>

theorem strbuf_split_buf_pieces:
  assumes "slen \<le> length str" "slen + 1 < 2 ^ 64"
  shows "\<exists>sbs. strbuf_split_buf str slen delim mx = Got sbs \<and> list_all sb_ok sbs
    \<and> concat (map sb_str sbs) = take slen str \<and> split_pieces delim (map sb_str sbs)
    \<and> (0 < mx \<longrightarrow> int (length sbs) \<le> mx)"
  using split_loop_ok [of slen str "[]" 2 0 delim mx] assms
  by (auto simp: strbuf_split_buf_def)

theorem strbuf_split_buf_pieces_witness:
  "\<exists>sbs. strbuf_split_buf ''a:b:c'' 5 (CHR '':'') 2 = Got sbs \<and> concat (map sb_str sbs) = ''a:b:c''
    \<and> int (length sbs) \<le> 2"
  using strbuf_split_buf_pieces [of 5 "''a:b:c''" "CHR '':''" 2] by fastforce

text \<open>Reading a line from a stream that is not at its end gives the text up to the terminator
  without it, or up to the end of the file when there is none, leaves the stream behind it and sets
  the end-of-file indicator only in the second case.\<close>

theorem strbuf_getline_reads:
  assumes "sb_ok sb" "s \<noteq> []" "length s + 1 < 2 ^ 64"
  shows "\<exists>sb'. strbuf_getline sb (s, False) c
       = Got (sb', (drop 1 (dropWhile (\<lambda>x. x \<noteq> c) s), c \<notin> set s), False)
    \<and> sb_ok sb' \<and> sb_str sb' = takeWhile (\<lambda>x. x \<noteq> c) s"
proof -
  from strbuf_getwholeline_ok [OF assms(1,3,2), of c] obtain s1 where
    s1: "strbuf_getwholeline sb (s, False) c = Got (s1, (drop (length (line_of c s)) s, c \<notin> set s), False)"
    "sb_ok s1" "sb_str s1 = line_of c s" by blast
  have ne: "sb_str s1 \<noteq> []" using s1(3) assms(2) by (simp add: line_of_Nil)
  then have "0 < length (sb_str s1)" by (rule length_greater_0_conv [THEN iffD2])
  then have l: "0 < unat (sb_len s1)" unfolding length_sb_str [OF s1(2)] .
  have "last (sb_str s1) = sb_buf s1 ! (unat (sb_len s1) - 1)"
    using ne l length_sb_str [OF s1(2)] by (simp add: last_conv_nth) (simp add: sb_str_def)
  then have trm: "sb_buf s1 ! (unat (sb_len s1) - 1) = c \<longleftrightarrow> c \<in> set s"
    using last_line_of [OF assms(2), of c] s1(3) by simp
  have rest: "drop (length (line_of c s)) s = drop 1 (dropWhile (\<lambda>x. x \<noteq> c) s)"
  proof -
    let ?t = "takeWhile (\<lambda>x. x \<noteq> c) s" and ?d = "dropWhile (\<lambda>x. x \<noteq> c) s"
    have "drop (length (line_of c s)) s = drop (length (take 1 ?d)) (drop (length ?t) s)"
      unfolding line_of_def length_append drop_drop by (simp only: add.commute)
    also have "drop (length ?t) s = ?d" by (rule dropWhile_eq_drop [symmetric])
    also have "drop (length (take 1 ys)) ys = drop 1 ys" for ys :: string by (cases ys) simp_all
    finally show ?thesis .
  qed
  show ?thesis
  proof (cases "c \<in> set s")
    case False
    then have "dropWhile (\<lambda>x. x \<noteq> c) s = []" by auto
    then have "line_of c s = takeWhile (\<lambda>x. x \<noteq> c) s" by (simp only: line_of_def take_Nil append_Nil2)
    with False s1 trm rest show ?thesis by (simp add: strbuf_getline_def)
  next
    case True
    have d: "unat (sb_len s1 - 1) = unat (sb_len s1) - 1" using l by (intro unat_dec) auto
    then have "sb_len s1 - 1 \<le> sb_len s1" using l by (simp add: word_le_nat_alt)
    from strbuf_setlen_shrinks [OF s1(2) this] obtain s2 where
      s2: "strbuf_setlen s1 (sb_len s1 - 1) = Got s2" "sb_ok s2"
      "sb_str s2 = take (unat (sb_len s1 - 1)) (sb_str s1)" by blast
    have "sb_str s2 = takeWhile (\<lambda>x. x \<noteq> c) s"
      using s2(3) d length_sb_str [OF s1(2)] s1(3) butlast_line_of [OF True] by (metis butlast_conv_take)
    with True s1 s2 trm rest show ?thesis by (simp add: strbuf_getline_def)
  qed
qed

theorem strbuf_getline_reads_witness:
  "\<exists>sb'. strbuf_getline STRBUF_INIT (''ab'' @ CHR 0x0A # ''c'', False) (CHR 0x0A) = Got (sb', (''c'', False), False)
    \<and> sb_str sb' = ''ab''"
  using strbuf_getline_reads [of STRBUF_INIT "''ab'' @ CHR 0x0A # ''c''" "CHR 0x0A"] by fastforce

end
