(* ===== verification/Levenshtein.thy ===== *)
theory Levenshtein
  imports Strbuf
begin

text \<open>
  \<^verbatim>\<open>levenshtein.c\<close>: the weighted edit distance behind the suggestions for mistyped
  commands. The three rows are lists; the contents \<open>malloc\<close> leaves in two of them are the
  arguments \<open>junk0\<close> and \<open>junk2\<close>. The costs and the cells are of type \<open>int\<close>, and an operation whose result
  does not fit is \<open>Overrun\<close>. The result is shown to be the least cost of an alignment of the two strings, for
  costs and lengths whose product fits.
\<close>

text \<open>The result of an operation on \<open>int\<close>, which is undefined on overflow.\<close>

definition c_int :: "int \<Rightarrow> int read" where
  "c_int x = (if - (2 ^ 31) \<le> x \<and> x < 2 ^ 31 then Got x else Overrun)"

text \<open>One cell, with its four candidates in the order of the code.\<close>

definition lev_cell :: "string \<Rightarrow> string \<Rightarrow> int \<Rightarrow> int \<Rightarrow> int \<Rightarrow> int
    \<Rightarrow> int list \<Rightarrow> int list \<Rightarrow> nat \<Rightarrow> int list \<Rightarrow> nat \<Rightarrow> int list read" where
  "lev_cell string1 string2 w s a d row0 row1 i row2 j =
     and_then (c_int (s * (if string1 ! i \<noteq> string2 ! j then 1 else 0))) (\<lambda>subst.
     and_then (c_int (row1 ! j + subst)) (\<lambda>v.
     and_then (if 0 < i \<and> 0 < j \<and> string1 ! (i - 1) = string2 ! j \<and> string1 ! i = string2 ! (j - 1)
       then and_then (c_int (row0 ! (j - 1) + w)) (\<lambda>x. Got (if v > x then x else v)) else Got v) (\<lambda>v.
     and_then (c_int (row1 ! (j + 1) + d)) (\<lambda>x. let v = (if v > x then x else v) in
     and_then (c_int (row2 ! j + a)) (\<lambda>x. Got (row2[j + 1 := if v > x then x else v]))))))"

definition lev_row :: "string \<Rightarrow> string \<Rightarrow> int \<Rightarrow> int \<Rightarrow> int \<Rightarrow> int
    \<Rightarrow> int list \<times> int list \<times> int list \<Rightarrow> nat \<Rightarrow> (int list \<times> int list \<times> int list) read" where
  "lev_row string1 string2 w s a d rows i =
     (case rows of (row0, row1, row2) \<Rightarrow>
        and_then (c_int ((int i + 1) * d)) (\<lambda>x.
        and_then (each (lev_cell string1 string2 w s a d row0 row1 i) [0..<length string2] (row2[0 := x])) (\<lambda>row2.
          Got (row1, row2, row0))))"

text \<open>Strings whose length, or whose length and one, is no \<open>int\<close> are left out as \<open>Overrun\<close>.\<close>

definition levenshtein :: "int list \<Rightarrow> int list \<Rightarrow> string \<Rightarrow> string \<Rightarrow> int \<Rightarrow> int \<Rightarrow> int \<Rightarrow> int \<Rightarrow> int read" where
  "levenshtein junk0 junk2 string1 string2 w s a d =
     (if 2 ^ 31 \<le> length string1 \<or> 2 ^ 31 \<le> length string2 + 1 then Overrun
      else and_then (each (\<lambda>row j. and_then (c_int (int j * a)) (\<lambda>x. Got (row @ [x]))) [0..<length string2 + 1] []) (\<lambda>row1.
        and_then (each (lev_row string1 string2 w s a d) [0..<length string1] (junk0, row1, junk2)) (\<lambda>(row0, row1, row2).
          Got (row1 ! length string2))))"

subsection \<open>The table without rows\<close>

function lev :: "string \<Rightarrow> string \<Rightarrow> int \<Rightarrow> int \<Rightarrow> int \<Rightarrow> int \<Rightarrow> nat \<Rightarrow> nat \<Rightarrow> int" where
  "lev s1 s2 w s a d i j =
     (if i = 0 then int j * a
      else if j = 0 then int i * d
      else
        let subst = lev s1 s2 w s a d (i - 1) (j - 1) + (if s1 ! (i - 1) \<noteq> s2 ! (j - 1) then s else 0);
            swap = (if 1 < i \<and> 1 < j \<and> s1 ! (i - 2) = s2 ! (j - 1) \<and> s1 ! (i - 1) = s2 ! (j - 2)
                    then lev s1 s2 w s a d (i - 2) (j - 2) + w else subst) in
        min (min (min subst swap) (lev s1 s2 w s a d (i - 1) j + d)) (lev s1 s2 w s a d i (j - 1) + a))"
  by pat_completeness auto
termination
  by (relation "measure (\<lambda>(_, _, _, _, _, _, i, j). i + j)") auto

declare lev.simps [simp del]

lemma lev_0 [simp]: "lev s1 s2 w s a d 0 j = int j * a" "lev s1 s2 w s a d (Suc i) 0 = (int i + 1) * d"
  by (subst lev.simps, simp add: algebra_simps)+

lemma lev_Suc: "lev s1 s2 w s a d (Suc i) (Suc j) =
     min (min (min (lev s1 s2 w s a d i j + (if s1 ! i \<noteq> s2 ! j then s else 0))
       (if 0 < i \<and> 0 < j \<and> s1 ! (i - 1) = s2 ! j \<and> s1 ! i = s2 ! (j - 1)
        then lev s1 s2 w s a d (i - 1) (j - 1) + w
        else lev s1 s2 w s a d i j + (if s1 ! i \<noteq> s2 ! j then s else 0)))
       (lev s1 s2 w s a d i (Suc j) + d)) (lev s1 s2 w s a d (Suc i) j + a)"
  by (subst lev.simps)
     (simp only: Let_def nat.distinct if_False diff_Suc_Suc diff_zero numeral_2_eq_2 Suc_less_eq One_nat_def)

definition row_ok :: "string \<Rightarrow> string \<Rightarrow> int \<Rightarrow> int \<Rightarrow> int \<Rightarrow> int \<Rightarrow> nat \<Rightarrow> int list \<Rightarrow> bool" where
  "row_ok s1 s2 w s a d i row =
     (length row = Suc (length s2) \<and> (\<forall>j \<le> length s2. row ! j = lev s1 s2 w s a d i j))"

lemma keep_smaller:
  "(if (v :: int) > x then x else v) = min v x" "(if C \<and> v > x then x else v) = min v (if C then x else v)"
  "(s :: int) * (if P then 1 else 0) = (if P then s else 0)"
  by (simp_all add: min_def)

subsection \<open>The rows without overflow\<close>

text \<open>The same rows over the integers.\<close>

definition plain_cell :: "string \<Rightarrow> string \<Rightarrow> int \<Rightarrow> int \<Rightarrow> int \<Rightarrow> int \<Rightarrow> int list \<Rightarrow> int list \<Rightarrow> nat \<Rightarrow> nat \<Rightarrow> int list \<Rightarrow> int list" where
  "plain_cell string1 string2 w s a d row0 row1 i j row2 =
     (let v = row1 ! j + s * (if string1 ! i \<noteq> string2 ! j then 1 else 0);
          v = (if 0 < i \<and> 0 < j \<and> string1 ! (i - 1) = string2 ! j \<and> string1 ! i = string2 ! (j - 1)
                 \<and> v > row0 ! (j - 1) + w
               then row0 ! (j - 1) + w else v);
          v = (if v > row1 ! (j + 1) + d then row1 ! (j + 1) + d else v);
          v = (if v > row2 ! j + a then row2 ! j + a else v) in
      row2[j + 1 := v])"

definition plain_row :: "string \<Rightarrow> string \<Rightarrow> int \<Rightarrow> int \<Rightarrow> int \<Rightarrow> int \<Rightarrow> nat \<Rightarrow> int list \<times> int list \<times> int list \<Rightarrow> int list \<times> int list \<times> int list" where
  "plain_row string1 string2 w s a d i rows =
     (case rows of (row0, row1, row2) \<Rightarrow>
        (row1, fold (plain_cell string1 string2 w s a d row0 row1 i) [0..<length string2] (row2[0 := (int i + 1) * d]), row0))"

lemma lev_inner:
  assumes "row_ok s1 s2 w s a d i row1" "0 < i \<Longrightarrow> row_ok s1 s2 w s a d (i - 1) row0" "length row2 = Suc (length s2)" "n \<le> length s2"
  shows "let r = fold (plain_cell s1 s2 w s a d row0 row1 i) [0..<n] (row2[0 := (int i + 1) * d]) in
    length r = Suc (length s2) \<and> (\<forall>j \<le> n. r ! j = lev s1 s2 w s a d (Suc i) j)"
  using assms(4)
proof (induction n)
  case 0
  then show ?case using assms(3) by simp
next
  case (Suc n)
  define r where "r = fold (plain_cell s1 s2 w s a d row0 row1 i) [0..<n] (row2[0 := (int i + 1) * d])"
  have r: "length r = Suc (length s2)" "\<forall>j \<le> n. r ! j = lev s1 s2 w s a d (Suc i) j"
    using Suc by (simp_all add: r_def Let_def)
  have "plain_cell s1 s2 w s a d row0 row1 i n r = r[n + 1 := lev s1 s2 w s a d (Suc i) (Suc n)]"
  proof -
    have row1: "row1 ! n = lev s1 s2 w s a d i n" "row1 ! (n + 1) = lev s1 s2 w s a d i (Suc n)"
      "r ! n = lev s1 s2 w s a d (Suc i) n"
      using assms(1) r Suc.prems by (simp_all add: row_ok_def)
    have row0: "(if 0 < i \<and> 0 < n \<and> s1 ! (i - 1) = s2 ! n \<and> s1 ! i = s2 ! (n - 1) then row0 ! (n - 1) + w else v)
      = (if 0 < i \<and> 0 < n \<and> s1 ! (i - 1) = s2 ! n \<and> s1 ! i = s2 ! (n - 1)
         then lev s1 s2 w s a d (i - 1) (n - 1) + w else v)" for v
      using assms(2) Suc.prems by (simp add: row_ok_def)
    have "(if 0 < i \<and> 0 < n \<and> s1 ! (i - 1) = s2 ! n \<and> s1 ! i = s2 ! (n - 1) \<and> v > x then x else v)
      = min v (if 0 < i \<and> 0 < n \<and> s1 ! (i - 1) = s2 ! n \<and> s1 ! i = s2 ! (n - 1) then x else v)" for v x :: int
      by (simp add: min_def)
    then show ?thesis
      unfolding plain_cell_def Let_def keep_smaller row1 by (simp only: row0 lev_Suc)
  qed
  then show ?case
    using r Suc.prems by (auto simp: Let_def nth_list_update le_Suc_eq simp flip: r_def)
qed

lemma lev_outer:
  assumes "length junk0 = Suc (length s2)" "length junk2 = Suc (length s2)"
  shows "case fold (plain_row s1 s2 w s a d) [0..<n] (junk0, map (\<lambda>j. int j * a) [0..<length s2 + 1], junk2) of
    (row0, row1, row2) \<Rightarrow> row_ok s1 s2 w s a d n row1 \<and> (0 < n \<longrightarrow> row_ok s1 s2 w s a d (n - 1) row0)
      \<and> length row2 = Suc (length s2) \<and> length row0 = Suc (length s2)"
proof (induction n)
  case 0
  have "row_ok s1 s2 w s a d 0 (map (\<lambda>j. int j * a) [0..<length s2 + 1])"
    by (simp add: row_ok_def del: upt_Suc)
  with assms show ?case by simp
next
  case (Suc n)
  obtain row0 row1 row2 where
    f: "fold (plain_row s1 s2 w s a d) [0..<n] (junk0, map (\<lambda>j. int j * a) [0..<length s2 + 1], junk2)
      = (row0, row1, row2)" by (metis prod_cases3)
  with Suc have rows: "row_ok s1 s2 w s a d n row1" "0 < n \<Longrightarrow> row_ok s1 s2 w s a d (n - 1) row0" "length row2 = Suc (length s2)"
    "length row0 = Suc (length s2)" by auto
  have "fold (plain_row s1 s2 w s a d) [0..<Suc n] (junk0, map (\<lambda>j. int j * a) [0..<length s2 + 1], junk2)
      = plain_row s1 s2 w s a d n (row0, row1, row2)" unfolding f [symmetric] by simp
  moreover from lev_inner [OF rows(1-3) order_refl] rows(1,4)
  have "case plain_row s1 s2 w s a d n (row0, row1, row2) of (row0, row1, row2) \<Rightarrow>
      row_ok s1 s2 w s a d (Suc n) row1 \<and> (0 < Suc n \<longrightarrow> row_ok s1 s2 w s a d (Suc n - 1) row0)
      \<and> length row2 = Suc (length s2) \<and> length row0 = Suc (length s2)"
    by (simp add: plain_row_def Let_def row_ok_def)
  ultimately show ?case by metis
qed

subsection \<open>Costs that fit\<close>

definition costs_fit :: "int \<Rightarrow> string \<Rightarrow> string \<Rightarrow> int \<Rightarrow> int \<Rightarrow> int \<Rightarrow> int \<Rightarrow> bool" where
  "costs_fit m s1 s2 w s a d \<longleftrightarrow> 1 \<le> m \<and> \<bar>w\<bar> \<le> m \<and> \<bar>s\<bar> \<le> m \<and> \<bar>a\<bar> \<le> m \<and> \<bar>d\<bar> \<le> m \<and> int (length s1 + length s2 + 1) * m < 2 ^ 31"

lemma costs_fit_le: "costs_fit m s1 s2 w s a d \<Longrightarrow> n \<le> length s1 + length s2 + 1 \<Longrightarrow> \<bar>x\<bar> \<le> int n * m \<Longrightarrow> c_int x = Got x"
proof -
  assume h: "costs_fit m s1 s2 w s a d" "n \<le> length s1 + length s2 + 1" "\<bar>x\<bar> \<le> int n * m"
  have "int n * m \<le> int (length s1 + length s2 + 1) * m" using h(1,2) unfolding costs_fit_def by (intro mult_right_mono) simp_all
  also have "\<dots> < 2 ^ 31" using h(1) by (simp add: costs_fit_def)
  finally have "\<bar>x\<bar> < 2 ^ 31" using h(3) by (rule order.strict_trans1 [rotated])
  then show ?thesis by (simp add: c_int_def abs_less_iff)
qed

lemma lev_bound:
  assumes fit: "costs_fit m s1 s2 w s a d"
  shows "\<bar>lev s1 s2 w s a d i j\<bar> \<le> int (i + j) * m"
proof (induction "i + j" arbitrary: i j rule: less_induct)
  case less
  have c: "0 \<le> m" "\<bar>w\<bar> \<le> m" "\<bar>s\<bar> \<le> m" "\<bar>a\<bar> \<le> m" "\<bar>d\<bar> \<le> m" using fit by (simp_all add: costs_fit_def)
  show ?case
  proof (cases i)
    case 0
    then show ?thesis using c(4) by (simp add: abs_mult mult_left_mono)
  next
    case (Suc p)
    show ?thesis
    proof (cases j)
      case 0
      have "\<bar>int p + 1\<bar> * \<bar>d\<bar> \<le> (int p + 1) * m" using c(5) by (simp add: mult_left_mono)
      then show ?thesis using Suc 0 by (simp add: abs_mult add.commute)
    next
      case j: (Suc q)
      have b: "\<bar>lev s1 s2 w s a d x y\<bar> \<le> int (x + y) * m" if "x + y < i + j" for x y using less that by blast
      have "\<bar>lev s1 s2 w s a d p q\<bar> \<le> int (p + q) * m" "\<bar>lev s1 s2 w s a d (p - 1) (q - 1)\<bar> \<le> int (p - 1 + (q - 1)) * m"
        "\<bar>lev s1 s2 w s a d p (Suc q)\<bar> \<le> int (p + Suc q) * m" "\<bar>lev s1 s2 w s a d (Suc p) q\<bar> \<le> int (Suc p + q) * m"
        using Suc j by (intro b, simp)+
      moreover have "int (p - 1 + (q - 1)) * m \<le> int (p + q) * m" using c(1) by (intro mult_right_mono) simp_all
      ultimately have "\<bar>lev s1 s2 w s a d p q\<bar> \<le> int (p + q) * m" "\<bar>lev s1 s2 w s a d (p - 1) (q - 1)\<bar> \<le> int (p + q) * m"
        "\<bar>lev s1 s2 w s a d p (Suc q)\<bar> \<le> int (p + q) * m + m" "\<bar>lev s1 s2 w s a d (Suc p) q\<bar> \<le> int (p + q) * m + m"
        by (simp_all add: algebra_simps)
      then show ?thesis unfolding Suc j lev_Suc using c
        by (simp add: algebra_simps min_def abs_le_iff)
    qed
  qed
qed

lemma each_append: "each f (xs @ ys) b = and_then (each f xs b) (each f ys)"
proof (induction xs arbitrary: b)
  case (Cons x xs)
  then show ?case by (cases "f b x") simp_all
qed simp

lemma cell_fits:
  assumes fit: "costs_fit m s1 s2 w s a d" and ij: "i < length s1" "j < length s2"
    and rows: "row_ok s1 s2 w s a d i row1" "0 < i \<Longrightarrow> row_ok s1 s2 w s a d (i - 1) row0" "row2 ! j = lev s1 s2 w s a d (Suc i) j"
  shows "lev_cell s1 s2 w s a d row0 row1 i row2 j = Got (plain_cell s1 s2 w s a d row0 row1 i j row2)"
proof -
  have c: "0 \<le> m" "\<bar>w\<bar> \<le> m" "\<bar>s\<bar> \<le> m" "\<bar>a\<bar> \<le> m" "\<bar>d\<bar> \<le> m" using fit by (simp_all add: costs_fit_def)
  have r: "row1 ! j = lev s1 s2 w s a d i j" "row1 ! (j + 1) = lev s1 s2 w s a d i (Suc j)"
    using rows(1) ij by (simp_all add: row_ok_def)
  have r0: "row0 ! (j - 1) = lev s1 s2 w s a d (i - 1) (j - 1)" if "0 < i" using rows(2) [OF that] ij by (simp add: row_ok_def)
  have add: "c_int (lev s1 s2 w s a d x y + z) = Got (lev s1 s2 w s a d x y + z)" if "\<bar>z\<bar> \<le> m" "x + y \<le> length s1 + length s2" for x y z
  proof (rule costs_fit_le [OF fit])
    show "\<bar>lev s1 s2 w s a d x y + z\<bar> \<le> int (x + y + 1) * m" using lev_bound [OF fit, of x y] that(1) by (simp add: algebra_simps)
    show "x + y + 1 \<le> length s1 + length s2 + 1" using that(2) by simp
  qed
  let ?sub = "s * (if s1 ! i \<noteq> s2 ! j then 1 else 0)"
  have sub: "\<bar>?sub\<bar> \<le> m" using c by simp
  have "c_int ?sub = Got ?sub" using sub by (intro costs_fit_le [OF fit, of 1]) simp_all
  moreover have "c_int (row1 ! j + ?sub) = Got (row1 ! j + ?sub)" unfolding r using ij sub by (intro add) simp_all
  moreover have "c_int (row1 ! (j + 1) + d) = Got (row1 ! (j + 1) + d)" unfolding r using ij c by (intro add) simp_all
  moreover have "c_int (row2 ! j + a) = Got (row2 ! j + a)" unfolding rows(3) using ij c by (intro add) simp_all
  moreover have "0 < i \<Longrightarrow> c_int (row0 ! (j - 1) + w) = Got (row0 ! (j - 1) + w)" using r0 add [OF c(2), of "i - 1" "j - 1"] ij by simp
  ultimately have f: "c_int ?sub = Got ?sub" "c_int (row1 ! j + ?sub) = Got (row1 ! j + ?sub)" "c_int (row1 ! (j + 1) + d) = Got (row1 ! (j + 1) + d)"
    "c_int (row2 ! j + a) = Got (row2 ! j + a)" "0 < i \<Longrightarrow> c_int (row0 ! (j - 1) + w) = Got (row0 ! (j - 1) + w)" by blast+
  define P where "P = (0 < i \<and> 0 < j \<and> s1 ! (i - 1) = s2 ! j \<and> s1 ! i = s2 ! (j - 1))"
  have P: "(0 < i \<and> 0 < j \<and> s1 ! (i - 1) = s2 ! j \<and> s1 ! i = s2 ! (j - 1) \<and> V) = (P \<and> V)" for V by (auto simp: P_def)
  show ?thesis
  proof (cases P)
    case True
    then have "c_int (row0 ! (j - 1) + w) = Got (row0 ! (j - 1) + w)" using f(5) by (simp add: P_def)
    then show ?thesis unfolding lev_cell_def plain_cell_def Let_def P P_def [symmetric] using True by (simp only: f(1-4) and_then_simps simp_thms if_True)
  next
    case False
    then show ?thesis unfolding lev_cell_def plain_cell_def Let_def P P_def [symmetric] by (simp only: f(1-4) and_then_simps simp_thms if_False)
  qed
qed

lemma inner_fits:
  assumes fit: "costs_fit m s1 s2 w s a d" and i: "i < length s1"
    and rows: "row_ok s1 s2 w s a d i row1" "0 < i \<Longrightarrow> row_ok s1 s2 w s a d (i - 1) row0" "length row2 = Suc (length s2)"
  shows "n \<le> length s2 \<Longrightarrow> each (lev_cell s1 s2 w s a d row0 row1 i) [0..<n] (row2[0 := (int i + 1) * d])
    = Got (fold (plain_cell s1 s2 w s a d row0 row1 i) [0..<n] (row2[0 := (int i + 1) * d]))"
proof (induction n)
  case (Suc n)
  let ?r = "fold (plain_cell s1 s2 w s a d row0 row1 i) [0..<n] (row2[0 := (int i + 1) * d])"
  have "?r ! n = lev s1 s2 w s a d (Suc i) n" using lev_inner [OF rows, of n] Suc.prems by (simp add: Let_def)
  then have "lev_cell s1 s2 w s a d row0 row1 i ?r n = Got (plain_cell s1 s2 w s a d row0 row1 i n ?r)"
    using cell_fits [OF fit i _ rows(1,2)] Suc.prems by simp
  then show ?case using Suc by (simp add: each_append)
qed simp

lemma outer_fits:
  assumes fit: "costs_fit m s1 s2 w s a d" and junk: "length junk0 = Suc (length s2)" "length junk2 = Suc (length s2)"
  shows "n \<le> length s1 \<Longrightarrow> each (lev_row s1 s2 w s a d) [0..<n] (junk0, map (\<lambda>j. int j * a) [0..<length s2 + 1], junk2)
    = Got (fold (plain_row s1 s2 w s a d) [0..<n] (junk0, map (\<lambda>j. int j * a) [0..<length s2 + 1], junk2))"
proof (induction n)
  case (Suc n)
  obtain row0 row1 row2 where f: "fold (plain_row s1 s2 w s a d) [0..<n] (junk0, map (\<lambda>j. int j * a) [0..<length s2 + 1], junk2)
      = (row0, row1, row2)" by (metis prod_cases3)
  have rows: "row_ok s1 s2 w s a d n row1" "0 < n \<Longrightarrow> row_ok s1 s2 w s a d (n - 1) row0" "length row2 = Suc (length s2)"
    using lev_outer [OF junk, of s1 w s a d n] unfolding f by auto
  have "c_int ((int n + 1) * d) = Got ((int n + 1) * d)"
  proof (rule costs_fit_le [OF fit])
    have "(int n + 1) * \<bar>d\<bar> \<le> (int n + 1) * m" using fit by (intro mult_left_mono) (simp_all add: costs_fit_def)
    then show "\<bar>(int n + 1) * d\<bar> \<le> int (n + 1) * m" by (simp add: abs_mult add.commute)
    show "n + 1 \<le> length s1 + length s2 + 1" using Suc.prems by simp
  qed
  then have "lev_row s1 s2 w s a d (row0, row1, row2) n = Got (plain_row s1 s2 w s a d n (row0, row1, row2))"
    using inner_fits [OF fit _ rows, of "length s2"] Suc.prems by (simp add: lev_row_def plain_row_def)
  then show ?case using Suc f by (simp add: each_append)
qed simp

lemma first_row_fits:
  assumes fit: "costs_fit m s1 s2 w s a d"
  shows "n \<le> length s2 + 1 \<Longrightarrow> each (\<lambda>row j. and_then (c_int (int j * a)) (\<lambda>x. Got (row @ [x]))) [0..<n] [] = Got (map (\<lambda>j. int j * a) [0..<n])"
proof (induction n)
  case (Suc n)
  have "c_int (int n * a) = Got (int n * a)"
  proof (rule costs_fit_le [OF fit])
    show "\<bar>int n * a\<bar> \<le> int n * m" using fit by (simp add: costs_fit_def abs_mult mult_left_mono)
    show "n \<le> length s1 + length s2 + 1" using Suc.prems by simp
  qed
  then show ?case using Suc by (simp add: each_append)
qed simp

lemma levenshtein_lev:
  assumes "costs_fit m s1 s2 w s a d" "length junk0 = Suc (length s2)" "length junk2 = Suc (length s2)"
  shows "levenshtein junk0 junk2 s1 s2 w s a d = Got (lev s1 s2 w s a d (length s1) (length s2))"
proof -
  have m: "1 \<le> m" "int (length s1 + length s2 + 1) * m < 2 ^ 31" using assms(1) by (simp_all add: costs_fit_def)
  have "int (length s1 + length s2 + 1) * 1 \<le> int (length s1 + length s2 + 1) * m" using m(1) by (intro mult_left_mono) simp_all
  then have "int (length s1 + length s2 + 1) < 2 ^ 31" using m(2) unfolding mult_1_right by (rule order.strict_trans1)
  then have len: "\<not> (2 ^ 31 \<le> length s1 \<or> 2 ^ 31 \<le> length s2 + 1)" by simp
  obtain row0 row1 row2 where f: "fold (plain_row s1 s2 w s a d) [0..<length s1] (junk0, map (\<lambda>j. int j * a) [0..<length s2 + 1], junk2)
      = (row0, row1, row2)" by (metis prod_cases3)
  have "row_ok s1 s2 w s a d (length s1) row1" using lev_outer [OF assms(2,3), of s1 w s a d "length s1"] unfolding f by auto
  then have "row1 ! length s2 = lev s1 s2 w s a d (length s1) (length s2)" by (simp add: row_ok_def)
  then show ?thesis
    unfolding levenshtein_def if_not_P [OF len] first_row_fits [OF assms(1) order_refl] and_then_simps
      outer_fits [OF assms order_refl] f prod.case by simp
qed

subsection \<open>Least cost of an alignment\<close>

inductive align :: "int \<Rightarrow> int \<Rightarrow> int \<Rightarrow> int \<Rightarrow> string \<Rightarrow> string \<Rightarrow> int \<Rightarrow> bool" for w s a d where
  Done: "align w s a d [] [] 0"
| Keep: "align w s a d xs ys c \<Longrightarrow> align w s a d (xs @ [x]) (ys @ [x]) c"
| Subst: "align w s a d xs ys c \<Longrightarrow> x \<noteq> y \<Longrightarrow> align w s a d (xs @ [x]) (ys @ [y]) (c + s)"
| Swap: "align w s a d xs ys c \<Longrightarrow> align w s a d (xs @ [x, y]) (ys @ [y, x]) (c + w)"
| Delete: "align w s a d xs ys c \<Longrightarrow> align w s a d (xs @ [x]) ys (c + d)"
| Add: "align w s a d xs ys c \<Longrightarrow> align w s a d xs (ys @ [y]) (c + a)"

lemma lev_prefix:
  "i \<le> length xs \<Longrightarrow> j \<le> length ys \<Longrightarrow> lev (xs @ us) (ys @ vs) w s a d i j = lev xs ys w s a d i j"
proof (induction "i + j" arbitrary: i j rule: less_induct)
  case less
  show ?case
  proof (cases i)
    case (Suc i')
    show ?thesis
    proof (cases j)
      case (Suc j')
      have "lev (xs @ us) (ys @ vs) w s a d p q = lev xs ys w s a d p q" if "p \<le> i" "q \<le> j" "p + q < i + j" for p q
        using that less by simp
      then have eqs: "lev (xs @ us) (ys @ vs) w s a d i' j' = lev xs ys w s a d i' j'"
        "lev (xs @ us) (ys @ vs) w s a d (i' - 1) (j' - 1) = lev xs ys w s a d (i' - 1) (j' - 1)"
        "lev (xs @ us) (ys @ vs) w s a d i' (Suc j') = lev xs ys w s a d i' (Suc j')"
        "lev (xs @ us) (ys @ vs) w s a d (Suc i') j' = lev xs ys w s a d (Suc i') j'"
        using \<open>i = Suc i'\<close> Suc by simp_all
      have "(xs @ us) ! i' = xs ! i'" "(xs @ us) ! (i' - 1) = xs ! (i' - 1)"
        "(ys @ vs) ! j' = ys ! j'" "(ys @ vs) ! (j' - 1) = ys ! (j' - 1)"
        using less.prems \<open>i = Suc i'\<close> Suc by (auto intro!: nth_append_left)
      with eqs show ?thesis unfolding \<open>i = Suc i'\<close> Suc by (simp only: lev_Suc)
    qed (use Suc in simp)
  qed simp
qed

lemma lev_delete: "lev xs ys w s a d (Suc i) j \<le> lev xs ys w s a d i j + d"
proof (cases j)
  case 0
  then show ?thesis by (cases i) (simp_all add: algebra_simps)
next
  case (Suc j')
  then show ?thesis by (simp only: lev_Suc min_le_iff_disj) simp
qed

lemma lev_add: "lev xs ys w s a d i (Suc j) \<le> lev xs ys w s a d i j + a"
proof (cases i)
  case 0
  then show ?thesis by (simp add: algebra_simps)
next
  case (Suc i')
  then show ?thesis by (simp only: lev_Suc min_le_iff_disj) simp
qed

lemma lev_subst:
  "lev xs ys w s a d (Suc i) (Suc j) \<le> lev xs ys w s a d i j + (if xs ! i \<noteq> ys ! j then s else 0)"
  by (simp only: lev_Suc min_le_iff_disj) simp

lemma lev_swap:
  "xs ! i = ys ! Suc j \<Longrightarrow> xs ! Suc i = ys ! j
    \<Longrightarrow> lev xs ys w s a d (Suc (Suc i)) (Suc (Suc j)) \<le> lev xs ys w s a d i j + w"
  by (simp only: lev_Suc [of xs ys w s a d "Suc i" "Suc j"] min_le_iff_disj) simp

lemma lev_front: "lev (xs @ us) (ys @ vs) w s a d (length xs) (length ys) = lev xs ys w s a d (length xs) (length ys)"
  by (rule lev_prefix) simp_all

lemma lev_le_align:
  "align w s a d xs ys c \<Longrightarrow> lev xs ys w s a d (length xs) (length ys) \<le> c"
proof (induction rule: align.induct)
  case Done
  show ?case by simp
next
  case (Keep xs ys c x)
  have "lev (xs @ [x]) (ys @ [x]) w s a d (Suc (length xs)) (Suc (length ys))
      \<le> lev (xs @ [x]) (ys @ [x]) w s a d (length xs) (length ys)"
    using lev_subst [of "xs @ [x]" "ys @ [x]" w s a d "length xs" "length ys"] by simp
  with Keep lev_front [of xs "[x]" ys "[x]" w s a d] show ?case by simp
next
  case (Subst xs ys c x y)
  have "lev (xs @ [x]) (ys @ [y]) w s a d (Suc (length xs)) (Suc (length ys))
      \<le> lev (xs @ [x]) (ys @ [y]) w s a d (length xs) (length ys) + s"
    using lev_subst [of "xs @ [x]" "ys @ [y]" w s a d "length xs" "length ys"] Subst by simp
  with Subst lev_front [of xs "[x]" ys "[y]" w s a d] show ?case by simp
next
  case (Swap xs ys c x y)
  have "lev (xs @ [x, y]) (ys @ [y, x]) w s a d (Suc (Suc (length xs))) (Suc (Suc (length ys)))
      \<le> lev (xs @ [x, y]) (ys @ [y, x]) w s a d (length xs) (length ys) + w"
    by (rule lev_swap) (simp_all add: nth_append)
  with Swap lev_front [of xs "[x, y]" ys "[y, x]" w s a d] show ?case by simp
next
  case (Delete xs ys c x)
  with lev_delete [of "xs @ [x]" ys w s a d "length xs" "length ys"] lev_front [of xs "[x]" ys "[]" w s a d]
  show ?case by simp
next
  case (Add xs ys c y)
  with lev_add [of xs "ys @ [y]" w s a d "length xs" "length ys"] lev_front [of xs "[]" ys "[y]" w s a d]
  show ?case by simp
qed

lemma align_lev:
  "i \<le> length xs \<Longrightarrow> j \<le> length ys \<Longrightarrow> align w s a d (take i xs) (take j ys) (lev xs ys w s a d i j)"
proof (induction "i + j" arbitrary: i j rule: less_induct)
  case less
  show ?case
  proof (cases i)
    case 0
    have "j \<le> length ys \<Longrightarrow> align w s a d [] (take j ys) (int j * a)" for j
      by (induction j) (use align.Add in \<open>fastforce intro: align.Done simp: take_Suc_conv_app_nth algebra_simps\<close>)+
    with 0 less.prems show ?thesis by simp
  next
    case (Suc i')
    have x: "take i xs = take i' xs @ [xs ! i']" using Suc less.prems by (simp add: take_Suc_conv_app_nth)
    show ?thesis
    proof (cases j)
      case 0
      have "i \<le> length xs \<Longrightarrow> align w s a d (take i xs) [] (int i * d)" for i
        by (induction i) (use align.Delete in \<open>fastforce intro: align.Done simp: take_Suc_conv_app_nth algebra_simps\<close>)+
      with 0 Suc less.prems show ?thesis by (metis lev_0(2) of_nat_Suc take_0 add.commute)
    next
      case (Suc j')
      have y: "take j ys = take j' ys @ [ys ! j']" using Suc less.prems by (simp add: take_Suc_conv_app_nth)
      have IH: "align w s a d (take p xs) (take q ys) (lev xs ys w s a d p q)" if "p \<le> i" "q \<le> j" "p + q < i + j" for p q
        using that less by simp
      let ?sub = "lev xs ys w s a d i' j' + (if xs ! i' \<noteq> ys ! j' then s else 0)"
      have sub: "align w s a d (take i xs) (take j ys) ?sub"
        using IH [of i' j'] \<open>i = Suc i'\<close> Suc unfolding x y by (auto intro: align.Keep align.Subst)
      have del: "align w s a d (take i xs) (take j ys) (lev xs ys w s a d i' j + d)"
        using IH [of i' j] \<open>i = Suc i'\<close> unfolding x by (auto intro: align.Delete)
      have add: "align w s a d (take i xs) (take j ys) (lev xs ys w s a d i j' + a)"
        using IH [of i j'] Suc unfolding y by (auto intro: align.Add)
      have swap: "align w s a d (take i xs) (take j ys) (lev xs ys w s a d (i' - 1) (j' - 1) + w)"
        if sw: "0 < i'" "0 < j'" "xs ! (i' - 1) = ys ! j'" "xs ! i' = ys ! (j' - 1)"
      proof -
        obtain p q where pq: "i' = Suc p" "j' = Suc q" using sw by (metis Suc_pred)
        have "take i' xs = take (i' - 1) xs @ [xs ! (i' - 1)]" "take j' ys = take (j' - 1) ys @ [ys ! (j' - 1)]"
          using less.prems \<open>i = Suc i'\<close> Suc unfolding pq by (simp_all add: take_Suc_conv_app_nth)
        then have "take i xs = take (i' - 1) xs @ [xs ! (i' - 1), xs ! i']"
          "take j ys = take (j' - 1) ys @ [xs ! i', xs ! (i' - 1)]"
          unfolding x y using sw by simp_all
        with IH [of "i' - 1" "j' - 1"] show ?thesis
          using \<open>i = Suc i'\<close> Suc by (simp add: align.Swap)
      qed
      show ?thesis
        using sub del add swap unfolding \<open>i = Suc i'\<close> Suc lev_Suc by (simp only: min_def split: if_split) blast
    qed
  qed
qed

subsection \<open>Properties\<close>

text \<open>C28. Whatever the rows contained when they were allocated, and for costs and lengths with which no \<open>int\<close>
  overflows (\<open>costs_fit\<close>: the largest cost times the number of characters and one is below 2 to the 31st), the
  weighted distance is computed without overflow and is the least cost of an alignment of the two strings by
  keeping, substituting, swapping, deleting and adding characters: some alignment costs it and none costs less.\<close>

theorem levenshtein_least_cost:
  assumes "costs_fit m string1 string2 w s a d" "length junk0 = Suc (length string2)" "length junk2 = Suc (length string2)"
  shows "\<exists>cost. levenshtein junk0 junk2 string1 string2 w s a d = Got cost \<and> align w s a d string1 string2 cost
    \<and> (\<forall>c. align w s a d string1 string2 c \<longrightarrow> cost \<le> c)"
  unfolding levenshtein_lev [OF assms]
  using align_lev [of "length string1" string1 "length string2" string2] lev_le_align by fastforce

theorem levenshtein_least_cost_witness:
  "\<exists>cost. levenshtein (replicate 7 0) (replicate 7 5) ''satus'' ''status'' 0 2 1 3 = Got cost \<and> align 0 2 1 3 ''satus'' ''status'' cost
    \<and> (\<forall>c. align 0 2 1 3 ''satus'' ''status'' c \<longrightarrow> cost \<le> c)"
  by (rule levenshtein_least_cost [where m = 3]) (simp_all add: costs_fit_def)

end
