(* ===== verification/Sha1_Lookup.thy ===== *)
theory Sha1_Lookup
  imports Git_Prelude "HOL-Library.List_Lexorder"
begin

text \<open>
  \<^verbatim>\<open>sha1-lookup.c\<close>: the two interpolation searches for an object name in a sorted
  table. A table is a function from indices to keys of twenty bytes. \<open>None\<close> is a loop that
  does not end, \<open>Overrun\<close> a read outside a key, \<open>Bad\<close> a call of \<open>die\<close> or a failed
  \<open>assert\<close>. \<open>memcmp\<close> is the lexicographic order of byte lists.
\<close>

text \<open>\<open>hashcmp\<close> of \<^verbatim>\<open>cache.h\<close>, and the sign of the library's \<open>memcmp\<close>.\<close>

fun hashcmp :: "byte list \<Rightarrow> byte list \<Rightarrow> int" where
  "hashcmp (a # sha1) (b # sha2) =
     (if a \<noteq> b then int (unat a) - int (unat b) else hashcmp sha1 sha2)"
| "hashcmp _ _ = 0"

definition memcmp :: "byte list \<Rightarrow> byte list \<Rightarrow> int" where
  "memcmp a b = (if a < b then -1 else if a = b then 0 else 1)"

definition take2 :: "byte list \<Rightarrow> nat \<Rightarrow> u32" where
  "take2 sha1 ofs = push_bit 8 (ucast (sha1 ! ofs)) OR ucast (sha1 ! (ofs + 1))"

subsection \<open>\<open>sha1_pos\<close>\<close>

text \<open>The loop that picks the first probe: an answer (\<open>Inl\<close>) or a probe (\<open>Inr\<close>).\<close>

function sha1_pos_start :: "byte list \<Rightarrow> (nat \<Rightarrow> byte list) \<Rightarrow> nat \<Rightarrow> nat \<Rightarrow> (int + nat) read" where
  "sha1_pos_start sha1 fn nr ofs =
     (if 18 \<le> ofs then Bad
      else
        let lov = unat (take2 (fn 0) ofs); hiv = unat (take2 (fn (nr - 1)) ofs); miv = unat (take2 sha1 ofs) in
        if miv < lov then Got (Inl (-1))
        else if hiv < miv then Got (Inl (-1 - int nr))
        else if lov \<noteq> hiv then
          let mi = (nr - 1) * (miv - lov) div (hiv - lov) in
          if mi < nr then Got (Inr mi) else Bad
        else sha1_pos_start sha1 fn nr (ofs + 2))"
  by pat_completeness auto
termination
  by (relation "measure (\<lambda>(_, _, _, ofs). 18 - ofs)") auto

declare sha1_pos_start.simps [simp del]

partial_function (option) sha1_pos_loop ::
  "byte list \<Rightarrow> (nat \<Rightarrow> byte list) \<Rightarrow> nat \<Rightarrow> nat \<Rightarrow> nat \<Rightarrow> int option" where
  "sha1_pos_loop sha1 fn lo hi mi =
     (let cmp = hashcmp (fn mi) sha1 in
      if cmp = 0 then Some (int mi)
      else
        let lo = (if cmp > 0 then lo else mi + 1); hi = (if cmp > 0 then mi else hi) in
        if lo < hi then sha1_pos_loop sha1 fn lo hi ((hi + lo) div 2) else Some (- int lo - 1))"

definition sha1_pos :: "byte list \<Rightarrow> (nat \<Rightarrow> byte list) \<Rightarrow> nat \<Rightarrow> int read option" where
  "sha1_pos sha1 fn nr =
     (if nr = 0 then Some (Got (-1))
      else
        case (if nr \<noteq> 1 then sha1_pos_start sha1 fn nr 0 else Got (Inr 0)) of
          Overrun \<Rightarrow> Some Overrun
        | Bad \<Rightarrow> Some Bad
        | Got (Inl r) \<Rightarrow> Some (Got r)
        | Got (Inr mi) \<Rightarrow> map_option Got (sha1_pos_loop sha1 fn 0 nr mi))"

subsection \<open>\<open>sha1_entry_pos\<close>\<close>

function first_diff :: "byte list \<Rightarrow> byte list \<Rightarrow> nat \<Rightarrow> nat" where
  "first_diff lo_key hi_key ofs =
     (if ofs < 20 \<and> lo_key ! ofs = hi_key ! ofs then first_diff lo_key hi_key (ofs + 1) else ofs)"
  by pat_completeness auto
termination
  by (relation "measure (\<lambda>(_, _, ofs). 20 - ofs)") auto

declare first_diff.simps [simp del]

text \<open>One or two bytes of a key as a number.\<close>

definition key_value :: "byte list \<Rightarrow> nat \<Rightarrow> nat" where
  "key_value key ofs = (if ofs < 19 then unat (take2 key ofs) else unat (key ! ofs))"

definition entry_probe :: "nat \<Rightarrow> nat \<Rightarrow> nat \<Rightarrow> nat \<Rightarrow> nat \<Rightarrow> nat" where
  "entry_probe lo rng lov hiv kyv =
     (let kyv = (kyv * 6 + lov + hiv) div 8;
          kyv = (if lov < hiv - 1 then (if kyv = lov then kyv + 1 else if kyv = hiv then kyv - 1 else kyv)
                 else kyv) in
      ((rng - 1) * (kyv - lov)) mod 2 ^ 32 div (hiv - lov) + lo)"

partial_function (option) sha1_entry_loop ::
  "(nat \<Rightarrow> byte list) \<Rightarrow> byte list \<Rightarrow> nat \<Rightarrow> nat \<Rightarrow> nat \<Rightarrow> byte list \<Rightarrow> byte list option \<Rightarrow> int read option" where
  "sha1_entry_loop entry key ofs_0 lo hi lo_key hi_key =
     (let ofs_0 = (case hi_key of None \<Rightarrow> ofs_0 | Some hi_key \<Rightarrow> first_diff lo_key hi_key ofs_0);
          hiv = (case hi_key of None \<Rightarrow> if ofs_0 < 19 then 256 * 256 else 256
                 | Some hi_key \<Rightarrow> key_value hi_key ofs_0);
          lov = key_value lo_key ofs_0;
          kyv = key_value key ofs_0 in
      if 20 \<le> ofs_0 then Some Overrun
      else if \<not> lov < hiv then Some Bad
      else if kyv < lov then Some (Got (-1 - int lo))
      else if hiv < kyv then Some (Got (-1 - int hi))
      else
        let mi = entry_probe lo (hi - lo) lov hiv kyv in
        if \<not> (lo \<le> mi \<and> mi < hi) then Some Bad
        else
          let cmp = memcmp (drop ofs_0 (entry mi)) (drop ofs_0 key) in
          if cmp = 0 then Some (Got (int mi))
          else if cmp > 0 then
            (if lo < mi then sha1_entry_loop entry key ofs_0 lo mi lo_key (Some (entry mi))
             else Some (Got (- int lo - 1)))
          else
            (if mi + 1 < hi then sha1_entry_loop entry key ofs_0 (mi + 1) hi (entry (mi + 1)) hi_key
             else Some (Got (- int (mi + 1) - 1))))"

declare sha1_pos_loop.simps [code] sha1_entry_loop.simps [code]

definition sha1_entry_pos :: "(nat \<Rightarrow> byte list) \<Rightarrow> nat \<Rightarrow> nat \<Rightarrow> nat \<Rightarrow> byte list \<Rightarrow> int read option" where
  "sha1_entry_pos entry lo hi nr key =
     (if nr = 0 \<or> hi \<le> lo then Some (Got (-1))
      else sha1_entry_loop entry key 0 lo hi (entry lo) (if nr = hi then None else Some (entry hi)))"

subsection \<open>Order of keys\<close>

lemma memcmp_simps [simp]:
  "memcmp a b = 0 \<longleftrightarrow> a = b" "0 < memcmp a b \<longleftrightarrow> b < a"
  by (auto simp: memcmp_def)

lemma hashcmp_order:
  "length a = length b \<Longrightarrow> (hashcmp a b = 0 \<longleftrightarrow> a = b) \<and> (0 < hashcmp a b \<longleftrightarrow> b < a)"
  by (induction a b rule: hashcmp.induct) (auto simp: word_less_def word_uint_eq_iff)

lemma append_less_iff: "p @ xs < p @ ys \<longleftrightarrow> xs < (ys :: 'a::linorder list)"
  by (induction p) simp_all

lemma prefix_less_iff:
  "take n a = take n b \<Longrightarrow> drop n a < drop n b \<longleftrightarrow> a < (b :: 'a::linorder list)"
  by (metis append_less_iff append_take_drop_id)

text \<open>A key between two keys with a common prefix has that prefix.\<close>

lemma common_prefix:
  "take n a = take n c \<Longrightarrow> a \<le> b \<Longrightarrow> b \<le> c \<Longrightarrow> n \<le> length a \<Longrightarrow> n \<le> length b \<Longrightarrow> n \<le> length c
    \<Longrightarrow> take n b = take n (a :: 'a::linorder list)"
proof (induction n arbitrary: a b c)
  case (Suc n)
  then obtain x as y bs z cs where "a = x # as" "b = y # bs" "c = z # cs"
    by (metis Suc_le_length_iff)
  note abc = this
  have "x = z" "take n as = take n cs" using Suc.prems(1) abc by simp_all
  moreover have "x \<le> y" "y \<le> z" using Suc.prems(2,3) abc by auto
  ultimately have "x = y" "as \<le> bs" "bs \<le> cs" using Suc.prems(2,3) abc by auto
  with Suc.IH [of as cs bs] Suc.prems abc \<open>take n as = take n cs\<close> show ?case by simp
qed simp

lemma unat_take2: "unat (take2 k ofs) = unat (k ! ofs) * 256 + unat (k ! (ofs + 1))"
proof -
  let ?a = "push_bit 8 (ucast (k ! ofs)) :: u32" and ?b = "ucast (k ! (ofs + 1)) :: u32"
  have "?a AND ?b = 0"
    by (rule bit_eqI) (auto simp: bit_simps dest: bit_imp_le_length)
  then have "take2 k ofs = ?a + ?b" by (simp add: take2_def disjunctive_add_eq_or)
  moreover have "unat ?a = unat (k ! ofs) * 256" "unat ?b = unat (k ! (ofs + 1))"
    using byte_bound [of "k ! ofs"] byte_bound [of "k ! (ofs + 1)"]
    by (simp_all add: unsigned_push_bit_eq unsigned_ucast_eq take_bit_eq_mod push_bit_eq_mult
          unat_word_ariths)
  ultimately show ?thesis
    using byte_bound [of "k ! ofs"] byte_bound [of "k ! (ofs + 1)"] by (simp add: unat_word_ariths)
qed

lemma take2_less:
  "unat (take2 a ofs) < unat (take2 b ofs) \<longleftrightarrow>
     a ! ofs < b ! ofs \<or> a ! ofs = b ! ofs \<and> a ! (ofs + 1) < b ! (ofs + 1)"
  using byte_bound [of "a ! (ofs + 1)"] byte_bound [of "b ! (ofs + 1)"]
  unfolding unat_take2 word_less_nat_alt word_unat_eq_iff by linarith

lemma take2_eq:
  "unat (take2 a ofs) = unat (take2 b ofs) \<longleftrightarrow> a ! ofs = b ! ofs \<and> a ! (ofs + 1) = b ! (ofs + 1)"
  using take2_less [of a ofs b] take2_less [of b ofs a] by (metis linorder_neq_iff)

lemma drop_1: "i < length xs \<Longrightarrow> drop i xs = xs ! i # drop (i + 1) xs"
  by (simp add: Cons_nth_drop_Suc)

lemma key_value_less:
  assumes "take ofs a = take ofs b" "ofs < 20" "length a = 20" "length b = 20" "key_value a ofs < key_value b ofs"
  shows "a < b"
proof -
  have "drop ofs a < drop ofs b"
  proof (cases "ofs < 19")
    case True
    then show ?thesis
      using assms drop_1 [of ofs a] drop_1 [of ofs b] drop_1 [of "ofs + 1" a] drop_1 [of "ofs + 1" b]
      by (auto simp: key_value_def take2_less)
  next
    case False
    then show ?thesis
      using assms drop_1 [of ofs a] drop_1 [of ofs b] by (auto simp: key_value_def word_less_nat_alt)
  qed
  with assms(1) show ?thesis by (simp add: prefix_less_iff)
qed

lemma take2_prefix_less:
  assumes "take ofs a = take ofs b" "ofs < 18" "length a = 20" "length b = 20" "unat (take2 a ofs) < unat (take2 b ofs)"
  shows "a < b"
  using assms key_value_less [of ofs a b] by (simp add: key_value_def)

subsection \<open>\<open>sha1_pos\<close> is right\<close>

text \<open>The table has keys of twenty bytes in ascending order.\<close>

definition sorted_table :: "(nat \<Rightarrow> byte list) \<Rightarrow> nat \<Rightarrow> bool" where
  "sorted_table fn nr =
     ((\<forall>i < nr. length (fn i) = 20) \<and> (\<forall>i j. i \<le> j \<longrightarrow> j < nr \<longrightarrow> fn i \<le> fn j))"

text \<open>A position: the index of the key, or the complement of where it would be inserted.\<close>

definition is_pos :: "(nat \<Rightarrow> byte list) \<Rightarrow> nat \<Rightarrow> byte list \<Rightarrow> int \<Rightarrow> bool" where
  "is_pos fn nr key r =
     (if 0 \<le> r then nat r < nr \<and> fn (nat r) = key
      else nat (-1 - r) \<le> nr \<and> (\<forall>i < nr. if i < nat (-1 - r) then fn i < key else key < fn i))"

lemma is_pos_insert:
  assumes "p \<le> nr" "\<forall>i < p. fn i < key" "\<forall>i. p \<le> i \<longrightarrow> i < nr \<longrightarrow> key < fn i"
  shows "is_pos fn nr key (- int p - 1)"
  using assms by (auto simp: is_pos_def)

lemma sha1_pos_loop_ok:
  assumes "sorted_table fn nr" "length key = 20" "\<forall>i < lo. fn i < key" "\<forall>i. hi \<le> i \<longrightarrow> i < nr \<longrightarrow> key < fn i"
    and "lo \<le> mi" "mi < hi" "hi \<le> nr"
  shows "\<exists>r. sha1_pos_loop key fn lo hi mi = Some r \<and> is_pos fn nr key r"
  using assms(3-7)
proof (induction "hi - lo" arbitrary: lo hi mi rule: less_induct)
  case less
  have cmp: "(hashcmp (fn mi) key = 0 \<longleftrightarrow> fn mi = key) \<and> (0 < hashcmp (fn mi) key \<longleftrightarrow> key < fn mi)"
    using assms(1,2) less.prems by (intro hashcmp_order) (simp add: sorted_table_def)
  have sorted: "i \<le> j \<Longrightarrow> j < nr \<Longrightarrow> fn i \<le> fn j" for i j using assms(1) by (simp add: sorted_table_def)
  consider "fn mi = key" | "key < fn mi" | "fn mi < key" by force
  then show ?case
  proof cases
    case 1
    with cmp show ?thesis using less.prems by (simp add: sha1_pos_loop.simps is_pos_def)
  next
    case 2
    have above: "\<forall>i. mi \<le> i \<longrightarrow> i < nr \<longrightarrow> key < fn i" using 2 sorted order.strict_trans2 by blast
    show ?thesis
    proof (cases "lo < mi")
      case True
      with 2 cmp less.prems above less.hyps [of mi lo "(mi + lo) div 2"] show ?thesis
        by (subst sha1_pos_loop.simps) (auto simp: Let_def)
    next
      case False
      with less.prems have "mi = lo" by simp
      with 2 cmp less.prems above is_pos_insert [of lo nr fn key] show ?thesis
        by (subst sha1_pos_loop.simps) (auto simp: Let_def)
    qed
  next
    case 3
    have below: "\<forall>i < mi + 1. fn i < key"
    proof (intro allI impI)
      fix i assume "i < mi + 1"
      then have "fn i \<le> fn mi" using less.prems by (intro sorted) auto
      with 3 show "fn i < key" by (simp add: order.strict_trans1)
    qed
    show ?thesis
    proof (cases "mi + 1 < hi")
      case True
      with 3 cmp less.prems below less.hyps [of hi "mi + 1" "(hi + (mi + 1)) div 2"] show ?thesis
        by (subst sha1_pos_loop.simps) (auto simp: Let_def)
    next
      case False
      with less.prems have "hi = mi + 1" by simp
      with 3 cmp less.prems below is_pos_insert [of "mi + 1" nr fn key] show ?thesis
        by (subst sha1_pos_loop.simps) (auto simp: Let_def)
    qed
  qed
qed

text \<open>
  The first probe: while the first and the last key agree, so must the target, or it lies
  outside the table.
\<close>

lemma take_extend_2:
  "take ofs a = take ofs b \<Longrightarrow> ofs + 1 < length a \<Longrightarrow> ofs + 1 < length b
    \<Longrightarrow> a ! ofs = b ! ofs \<Longrightarrow> a ! (ofs + 1) = b ! (ofs + 1) \<Longrightarrow> take (ofs + 2) a = take (ofs + 2) b"
  by (simp add: take_Suc_conv_app_nth)

lemma sha1_pos_start_ok:
  assumes "sorted_table fn nr" "length key = 20" "1 < nr" "take 18 (fn 0) \<noteq> take 18 (fn (nr - 1))"
    and "even ofs" "ofs \<le> 18" "take ofs (fn 0) = take ofs (fn (nr - 1))" "take ofs key = take ofs (fn 0)"
  shows "(\<exists>r. sha1_pos_start key fn nr ofs = Got (Inl r) \<and> is_pos fn nr key r)
    \<or> (\<exists>mi < nr. sha1_pos_start key fn nr ofs = Got (Inr mi))"
  using assms(5-8)
proof (induction "18 - ofs" arbitrary: ofs rule: less_induct)
  case less
  let ?lov = "unat (take2 (fn 0) ofs)" and ?hiv = "unat (take2 (fn (nr - 1)) ofs)" and ?miv = "unat (take2 key ofs)"
  have sorted: "i \<le> j \<Longrightarrow> j < nr \<Longrightarrow> fn i \<le> fn j" for i j using assms(1) by (simp add: sorted_table_def)
  have len: "length (fn 0) = 20" "length (fn (nr - 1)) = 20" using assms(1,3) by (auto simp: sorted_table_def)
  have "ofs \<noteq> 18" using less.prems(3) assms(4) by auto
  moreover obtain j where "ofs = 2 * j" using less.prems(1) by (rule evenE)
  ultimately have ofs: "ofs < 17" using less.prems(2) by presburger
  note run = sha1_pos_start.simps [of key fn nr ofs]
  consider "?miv < ?lov" | "\<not> ?miv < ?lov" "?hiv < ?miv"
    | "\<not> ?miv < ?lov" "\<not> ?hiv < ?miv" "?lov \<noteq> ?hiv" | "?lov = ?hiv" "?miv = ?lov" by linarith
  then show ?case
  proof cases
    case 1
    then have "key < fn 0" using ofs less.prems(4) len assms(2) by (intro take2_prefix_less) auto
    then have "\<forall>i < nr. key < fn i" using sorted [of 0] by (meson order.strict_trans2 zero_le)
    then have "is_pos fn nr key (-1)" by (simp add: is_pos_def)
    with 1 ofs show ?thesis unfolding run by (simp add: Let_def)
  next
    case 2
    then have "fn (nr - 1) < key" using ofs less.prems(3,4) len assms(2) by (intro take2_prefix_less) auto
    moreover have "i < nr \<Longrightarrow> fn i \<le> fn (nr - 1)" for i by (rule sorted) auto
    ultimately have "\<forall>i < nr. fn i < key" by (meson order.strict_trans1)
    then have "is_pos fn nr key (-1 - int nr)" by (simp add: is_pos_def)
    with 2 ofs show ?thesis unfolding run by (simp add: Let_def)
  next
    case 3
    then have "?miv - ?lov \<le> ?hiv - ?lov" "0 < ?hiv - ?lov" by auto
    then have "(nr - 1) * (?miv - ?lov) div (?hiv - ?lov) \<le> nr - 1"
      by (metis div_le_mono mult_le_mono2 nonzero_mult_div_cancel_right not_gr_zero)
    then have "(nr - 1) * (?miv - ?lov) div (?hiv - ?lov) < nr" using assms(3) by linarith
    with 3 ofs show ?thesis unfolding run by (simp add: Let_def)
  next
    case 4
    have "fn 0 ! ofs = fn (nr - 1) ! ofs \<and> fn 0 ! (ofs + 1) = fn (nr - 1) ! (ofs + 1)"
      "key ! ofs = fn 0 ! ofs \<and> key ! (ofs + 1) = fn 0 ! (ofs + 1)"
      using 4 by (simp_all add: take2_eq)
    then have "take (ofs + 2) (fn 0) = take (ofs + 2) (fn (nr - 1))" "take (ofs + 2) key = take (ofs + 2) (fn 0)"
      using less.prems(3,4) len ofs assms(2) take_extend_2 [of ofs "fn 0" "fn (nr - 1)"]
        take_extend_2 [of ofs key "fn 0"] by simp_all
    with less.hyps [of "ofs + 2"] less.prems(1) ofs 4 show ?thesis unfolding run by (simp add: Let_def)
  qed
qed

lemma sha1_pos_ok:
  assumes "sorted_table fn nr" "length key = 20"
    and "1 < nr \<Longrightarrow> take 18 (fn 0) \<noteq> take 18 (fn (nr - 1))"
  shows "\<exists>r. sha1_pos key fn nr = Some (Got r) \<and> is_pos fn nr key r"
proof -
  consider "nr = 0" | "nr = 1" | "1 < nr" by linarith
  then show ?thesis
  proof cases
    case 1
    then show ?thesis by (simp add: sha1_pos_def is_pos_def)
  next
    case 2
    with sha1_pos_loop_ok [OF assms(1,2), of 0 nr 0] show ?thesis by (auto simp: sha1_pos_def)
  next
    case 3
    from sha1_pos_start_ok [OF assms(1,2) 3 assms(3) [OF 3], of 0]
    consider r where "sha1_pos_start key fn nr 0 = Got (Inl r)" "is_pos fn nr key r"
      | mi where "mi < nr" "sha1_pos_start key fn nr 0 = Got (Inr mi)" by auto
    then show ?thesis
    proof cases
      case 1
      with 3 show ?thesis by (simp add: sha1_pos_def)
    next
      case 2
      with 3 sha1_pos_loop_ok [OF assms(1,2), of 0 nr mi] show ?thesis by (auto simp: sha1_pos_def)
    qed
  qed
qed

subsection \<open>\<open>sha1_entry_pos\<close> finds what is there\<close>

lemma first_diff_ok:
  assumes "take ofs a = take ofs b" "length a = 20" "length b = 20" "a < b" "ofs \<le> 20"
  shows "ofs \<le> first_diff a b ofs \<and> first_diff a b ofs < 20
    \<and> take (first_diff a b ofs) a = take (first_diff a b ofs) b
    \<and> key_value a (first_diff a b ofs) < key_value b (first_diff a b ofs)"
  using assms(1,5)
proof (induction "20 - ofs" arbitrary: ofs rule: less_induct)
  case less
  have ofs: "ofs < 20" using less.prems assms(2-4) by (cases "ofs = 20") auto
  show ?case
  proof (cases "a ! ofs = b ! ofs")
    case True
    then have "take (ofs + 1) a = take (ofs + 1) b"
      using less.prems(1) ofs assms(2,3) by (simp add: take_Suc_conv_app_nth)
    moreover have "first_diff a b ofs = first_diff a b (ofs + 1)"
      using True ofs by (subst first_diff.simps) simp
    moreover have "20 - (ofs + 1) < 20 - ofs" "ofs + 1 \<le> 20" using ofs by simp_all
    ultimately show ?thesis using less.hyps [of "ofs + 1"] by (metis add_leD1)
  next
    case False
    have "drop ofs a < drop ofs b" using assms(4) less.prems(1) by (simp add: prefix_less_iff)
    then have "a ! ofs < b ! ofs" using False ofs assms(2,3) drop_1 [of ofs a] drop_1 [of ofs b] by simp
    then have "key_value a ofs < key_value b ofs"
      by (auto simp: key_value_def take2_less word_less_nat_alt)
    moreover have "first_diff a b ofs = ofs" using False by (simp add: first_diff.simps [of a b ofs])
    ultimately show ?thesis using ofs less.prems(1) by simp
  qed
qed

lemma key_value_bound: "key_value key ofs < (if ofs < 19 then 256 * 256 else 256)"
  using byte_bound [of "key ! ofs"] byte_bound [of "key ! (ofs + 1)"] by (simp add: key_value_def unat_take2)

lemma entry_probe_ok:
  assumes "lov < hiv" "lov \<le> kyv" "kyv \<le> hiv" "0 < rng"
  shows "lo \<le> entry_probe lo rng lov hiv kyv \<and> entry_probe lo rng lov hiv kyv < lo + rng"
proof -
  define k where "k = (let kyv = (kyv * 6 + lov + hiv) div 8 in
    if lov < hiv - 1 then (if kyv = lov then kyv + 1 else if kyv = hiv then kyv - 1 else kyv) else kyv)"
  have "lov \<le> (kyv * 6 + lov + hiv) div 8" "(kyv * 6 + lov + hiv) div 8 \<le> hiv" using assms by linarith+
  then have "k - lov \<le> hiv - lov" using assms(1) by (simp add: k_def Let_def) linarith
  have "((rng - 1) * (k - lov)) mod 2 ^ 32 div (hiv - lov) \<le> (rng - 1) * (k - lov) div (hiv - lov)"
    by (intro div_le_mono) simp
  also have "\<dots> \<le> (rng - 1) * (hiv - lov) div (hiv - lov)"
    using \<open>k - lov \<le> hiv - lov\<close> by (intro div_le_mono mult_le_mono2)
  also have "\<dots> = rng - 1" using assms(1) by simp
  finally have "((rng - 1) * (k - lov)) mod 2 ^ 32 div (hiv - lov) < rng" using assms(4) by linarith
  moreover have "entry_probe lo rng lov hiv kyv = ((rng - 1) * (k - lov)) mod 2 ^ 32 div (hiv - lov) + lo"
    by (simp only: entry_probe_def k_def Let_def)
  ultimately show ?thesis by linarith
qed

definition strict_table :: "(nat \<Rightarrow> byte list) \<Rightarrow> nat \<Rightarrow> bool" where
  "strict_table entry nr =
     ((\<forall>i < nr. length (entry i) = 20) \<and> (\<forall>i j. i < j \<longrightarrow> j < nr \<longrightarrow> entry i < entry j))"

lemma sha1_entry_loop_ok:
  assumes tab: "strict_table entry nr" and klen: "length key = 20"
    and "lo < hi" "hi \<le> nr" "lo_key = entry lo" "hi_key = (if nr = hi then None else Some (entry hi))"
    and "hi < nr \<Longrightarrow> take ofs_0 (entry lo) = take ofs_0 (entry hi)" "hi = nr \<Longrightarrow> ofs_0 = 0" "ofs_0 \<le> 20"
  shows "\<exists>r. sha1_entry_loop entry key ofs_0 lo hi lo_key hi_key = Some (Got r)
    \<and> (\<forall>k. lo \<le> k \<and> k < hi \<and> entry k = key \<longrightarrow> r = int k)"
  using assms(3-)
proof (induction "hi - lo" arbitrary: lo hi lo_key hi_key ofs_0 rule: less_induct)
  case less
  note lohi = less.prems(1) and hinr = less.prems(2)
  have len: "i < nr \<Longrightarrow> length (entry i) = 20" for i using tab by (simp add: strict_table_def)
  have strict: "i < j \<Longrightarrow> j < nr \<Longrightarrow> entry i < entry j" for i j using tab by (simp add: strict_table_def)
  have mono: "i \<le> j \<Longrightarrow> j < nr \<Longrightarrow> entry i \<le> entry j" for i j using strict by (cases "i = j") (auto simp: less_imp_le)
  define ofs where "ofs = (case hi_key of None \<Rightarrow> ofs_0 | Some hi_key \<Rightarrow> first_diff lo_key hi_key ofs_0)"
  define hiv where "hiv = (case hi_key of None \<Rightarrow> if ofs < 19 then 256 * 256 else 256 | Some h \<Rightarrow> key_value h ofs)"
  define lov where "lov = key_value lo_key ofs"
  define kyv where "kyv = key_value key ofs"
  have A: "ofs < 20 \<and> lov < hiv \<and> (hi < nr \<longrightarrow> take ofs (entry lo) = take ofs (entry hi)) \<and> (hi = nr \<longrightarrow> ofs = 0)"
  proof (cases "hi = nr")
    case True
    then show ?thesis
      using less.prems(4,6) key_value_bound [of lo_key ofs] by (simp add: ofs_def hiv_def lov_def)
  next
    case False
    then have "hi < nr" using hinr by simp
    then show ?thesis
      using first_diff_ok [OF less.prems(5) len len strict [OF lohi] less.prems(7)] lohi less.prems(3,4)
      by (simp add: ofs_def hiv_def lov_def)
  qed
  then have ofs: "ofs < 20" and lh: "lov < hiv" by auto
  have prefix: "take ofs b = take ofs (entry lo)" if "entry lo \<le> b" "length b = 20" "hi < nr \<Longrightarrow> b \<le> entry hi" for b
  proof (cases "hi < nr")
    case True
    have "take ofs (entry lo) = take ofs (entry hi)" using A True by simp
    moreover have "ofs \<le> length (entry lo)" "ofs \<le> length b" "ofs \<le> length (entry hi)"
      using that(2) len [of lo] len [OF True] lohi True ofs by simp_all
    ultimately show ?thesis using that(1) that(3) [OF True] by (metis common_prefix)
  next
    case False
    with A hinr show ?thesis by simp
  qed
  have key_prefix: "take ofs key = take ofs (entry lo) \<and> entry lo \<le> key \<and> (hi < nr \<longrightarrow> key < entry hi)"
    if "lo \<le> k" "k < hi" "entry k = key" for k
    using prefix [of key] that mono [of lo k] strict [of k hi] hinr klen by (auto simp: less_imp_le)
  have low: "\<not> kyv < lov" if "lo \<le> k" "k < hi" "entry k = key" for k
    using key_value_less [of ofs key "entry lo"] key_prefix [OF that] ofs klen len [of lo] lohi hinr less.prems(3)
    by (auto simp: kyv_def lov_def)
  have high: "\<not> hiv < kyv" if "lo \<le> k" "k < hi" "entry k = key" for k
  proof (cases "hi = nr")
    case True
    then show ?thesis using key_value_bound [of key ofs] less.prems(4) by (simp add: hiv_def kyv_def)
  next
    case False
    then have "take ofs (entry hi) = take ofs key" "key < entry hi" "length (entry hi) = 20"
      using key_prefix [OF that] A hinr len [of hi] by auto
    with key_value_less [of ofs "entry hi" key] ofs klen False less.prems(4) show ?thesis
      by (auto simp: hiv_def kyv_def)
  qed
  define mi where "mi = entry_probe lo (hi - lo) lov hiv kyv"
  let ?cmp = "memcmp (drop ofs (entry mi)) (drop ofs key)"
  have run: "sha1_entry_loop entry key ofs_0 lo hi lo_key hi_key =
     (if 20 \<le> ofs then Some Overrun else if \<not> lov < hiv then Some Bad
      else if kyv < lov then Some (Got (-1 - int lo)) else if hiv < kyv then Some (Got (-1 - int hi))
      else if \<not> (lo \<le> mi \<and> mi < hi) then Some Bad
      else if ?cmp = 0 then Some (Got (int mi))
      else if ?cmp > 0 then
        (if lo < mi then sha1_entry_loop entry key ofs lo mi lo_key (Some (entry mi)) else Some (Got (- int lo - 1)))
      else
        (if mi + 1 < hi then sha1_entry_loop entry key ofs (mi + 1) hi (entry (mi + 1)) hi_key
         else Some (Got (- int (mi + 1) - 1))))"
    by (subst sha1_entry_loop.simps) (simp only: Let_def ofs_def hiv_def lov_def kyv_def mi_def)
  consider "kyv < lov \<or> hiv < kyv" | "lov \<le> kyv" "kyv \<le> hiv" by linarith
  then show ?case
  proof cases
    case 1
    with low high ofs lh show ?thesis unfolding run by auto
  next
    case 2
    have mi: "lo \<le> mi" "mi < hi" using entry_probe_ok [OF lh 2, of "hi - lo" lo] lohi by (auto simp: mi_def)
    have mi_len: "length (entry mi) = 20" using len [of mi] mi hinr by simp
    have mi_prefix: "take ofs (entry mi) = take ofs (entry lo)"
      using prefix [of "entry mi"] mono [of lo mi] mono [of mi hi] mi mi_len hinr by auto
    have found: "k = mi" if "lo \<le> k" "k < hi" "entry k = entry mi" for k
      using strict [of k mi] strict [of mi k] that mi hinr by (metis less_irrefl linorder_neqE_nat order_less_le_trans)
    have order: "k < mi \<longleftrightarrow> drop ofs key < drop ofs (entry mi)" "mi < k \<longleftrightarrow> drop ofs (entry mi) < drop ofs key"
      if "lo \<le> k" "k < hi" "entry k = key" for k
      using key_prefix [OF that] mi_prefix that strict [of k mi] strict [of mi k] mi hinr found [of k]
      by (auto simp: prefix_less_iff dest: order.strict_trans, (metis less_irrefl linorder_neqE_nat order.strict_trans order_less_le_trans)+)
    consider "?cmp = 0" | "?cmp > 0" | "\<not> ?cmp > 0" "?cmp \<noteq> 0" by linarith
    then show ?thesis
    proof cases
      case 1
      have "int mi = int k" if "lo \<le> k" "k < hi" "entry k = key" for k
      proof -
        have "drop ofs (entry mi) = drop ofs key" using 1 by simp
        moreover have "take ofs (entry mi) = take ofs key" using key_prefix [OF that] mi_prefix by simp
        ultimately have "entry mi = key" using append_take_drop_id [of ofs] by metis
        with found [OF that(1,2)] that(3) show ?thesis by simp
      qed
      moreover have "sha1_entry_loop entry key ofs_0 lo hi lo_key hi_key = Some (Got (int mi))"
      proof -
        have "\<not> 20 \<le> ofs" "\<not> kyv < lov" "\<not> hiv < kyv" using 2 ofs by linarith+
        with 1 lh mi show ?thesis unfolding run by (simp only: if_True if_False simp_thms)
      qed
      ultimately show ?thesis by (intro exI [of _ "int mi"]) blast
    next
      case gt: 2
      then have below: "k < mi" if "lo \<le> k" "k < hi" "entry k = key" for k
        using order(1) [OF that] by simp
      show ?thesis
      proof (cases "lo < mi")
        case True
        then obtain r where "sha1_entry_loop entry key ofs lo mi lo_key (Some (entry mi)) = Some (Got r)"
          "\<forall>k. lo \<le> k \<and> k < mi \<and> entry k = key \<longrightarrow> r = int k"
          using less.hyps [of mi lo lo_key "Some (entry mi)" ofs] less.prems(3) mi hinr mi_prefix ofs
          by (auto simp: diff_less_mono)
        with gt 2 ofs lh mi True below show ?thesis unfolding run by auto
      next
        case False
        with gt 2 ofs lh mi below show ?thesis unfolding run by force
      qed
    next
      case lt: 3
      then have "drop ofs (entry mi) < drop ofs key" by (auto simp: memcmp_def split: if_splits)
      then have above: "mi + 1 \<le> k" if "lo \<le> k" "k < hi" "entry k = key" for k
        using order(2) [OF that] by simp
      show ?thesis
      proof (cases "mi + 1 < hi")
        case True
        have "take ofs (entry (mi + 1)) = take ofs (entry lo)"
          using prefix [of "entry (mi + 1)"] mono [of lo "mi + 1"] mono [of "mi + 1" hi] mi True hinr len [of "mi + 1"] by auto
        moreover have "hi - (mi + 1) < hi - lo" using mi True by linarith
        ultimately obtain r where "sha1_entry_loop entry key ofs (mi + 1) hi (entry (mi + 1)) hi_key = Some (Got r)"
          "\<forall>k. mi + 1 \<le> k \<and> k < hi \<and> entry k = key \<longrightarrow> r = int k"
          using less.hyps [of hi "mi + 1" "entry (mi + 1)" hi_key ofs] True less.prems(4) mi hinr A by auto
        with lt 2 ofs lh mi True above show ?thesis unfolding run by auto
      next
        case False
        with lt 2 ofs lh mi above show ?thesis unfolding run by force
      qed
    qed
  qed
qed

subsection \<open>Properties\<close>

text \<open>C24. In a table sorted by object name, \<open>sha1_pos\<close> ends without hitting its assertions and
  returns the index of the target, or the complement of the position where it would have to be
  inserted; the first and last entries of a table of two or more must differ in their first
  eighteen bytes.\<close>

theorem sha1_pos_finds:
  assumes "\<forall>i < nr. length (fn i) = 20" "\<forall>i j. i \<le> j \<longrightarrow> j < nr \<longrightarrow> fn i \<le> fn j" "length key = 20"
    and "1 < nr \<longrightarrow> take 18 (fn 0) \<noteq> take 18 (fn (nr - 1))"
  shows "\<exists>r. sha1_pos key fn nr = Some (Got r)
    \<and> (if 0 \<le> r then nat r < nr \<and> fn (nat r) = key
       else nat (-1 - r) \<le> nr \<and> (\<forall>i < nr. if i < nat (-1 - r) then fn i < key else key < fn i))"
  using sha1_pos_ok [of fn nr key] assms by (simp add: sorted_table_def is_pos_def)

theorem sha1_pos_finds_witness:
  "\<exists>r. sha1_pos (5 # replicate 19 0) (\<lambda>i. (if i = 0 then 3 else 7) # replicate 19 0) 2 = Some (Got r)
    \<and> (if 0 \<le> r then nat r < 2 \<and> (if nat r = 0 then 3 else 7) # replicate 19 0 = 5 # replicate 19 (0 :: byte)
       else nat (-1 - r) \<le> 2 \<and> (\<forall>i < 2. if i < nat (-1 - r)
         then (if i = 0 then 3 else 7) # replicate 19 0 < 5 # replicate 19 (0 :: byte)
         else 5 # replicate 19 0 < (if i = 0 then 3 else 7) # replicate 19 (0 :: byte)))"
  by (rule sha1_pos_finds) auto

text \<open>A table of two equal names makes \<open>sha1_pos\<close> die when that name is looked up.\<close>

theorem sha1_pos_dies_on_duplicates:
  "sha1_pos (replicate 20 5) (\<lambda>_. replicate 20 5) 2 = Some Bad"
proof -
  have "sha1_pos_start (replicate 20 5) (\<lambda>_. replicate 20 5) 2 ofs = Bad" for ofs
    by (induction "18 - ofs" arbitrary: ofs rule: less_induct) (subst sha1_pos_start.simps, simp add: Let_def)
  then show ?thesis by (simp add: sha1_pos_def)
qed

text \<open>C25. In a strictly sorted table, \<open>sha1_entry_pos\<close> ends within its keys and without failing
  for every target, and when the target is one of the entries between \<open>lo\<close> and \<open>hi\<close> it
  returns its index; the product that may wrap at 32 bits does no harm.\<close>

theorem sha1_entry_pos_finds:
  assumes "\<forall>i < nr. length (entry i) = 20" "\<forall>i j. i < j \<longrightarrow> j < nr \<longrightarrow> entry i < entry j"
    and "length key = 20" "lo < hi" "hi \<le> nr"
  shows "\<exists>r. sha1_entry_pos entry lo hi nr key = Some (Got r)
    \<and> (\<forall>k. lo \<le> k \<and> k < hi \<and> entry k = key \<longrightarrow> r = int k)"
  using sha1_entry_loop_ok [of entry nr key lo hi _ _ 0] assms
  by (simp add: strict_table_def sha1_entry_pos_def)

theorem sha1_entry_pos_finds_witness:
  "\<exists>r. sha1_entry_pos (\<lambda>i. word_of_nat i # replicate 19 0) 1 3 4 (2 # replicate 19 0) = Some (Got r)
    \<and> (\<forall>k. 1 \<le> k \<and> k < 3 \<and> word_of_nat k # replicate 19 0 = 2 # replicate 19 (0 :: byte) \<longrightarrow> r = int k)"
  by (rule sha1_entry_pos_finds) (auto simp: word_less_nat_alt unat_of_nat_small)

text \<open>C34. For a target that is not in the table the search can return the index of another entry:
  once \<open>lo\<close> has moved past the target, only the bytes after the common prefix of \<open>lo\<close> and
  \<open>hi\<close> are compared.\<close>

theorem sha1_entry_pos_false_match:
  "sha1_entry_pos (\<lambda>i. [0, 1, 1] ! i # [0, 1, 2] ! i # replicate 18 0) 0 2 3 (0 # 1 # replicate 18 0)
    = Some (Got 1)"
proof -
  let ?e = "\<lambda>i. [0, 1, 1] ! i # [0, 1, 2] ! i # replicate 18 0" and ?k = "0 # 1 # replicate 18 0"
  let ?l = "1 # 1 # replicate 18 0" and ?h = "1 # 2 # replicate 18 0"
  note eval = Let_def first_diff.simps key_value_def unat_take2 entry_probe_def memcmp_def
  have "sha1_entry_loop ?e ?k 0 0 2 (0 # 0 # replicate 18 0) (Some ?h) = sha1_entry_loop ?e ?k 0 1 2 ?l (Some ?h)"
    by (subst sha1_entry_loop.simps) (simp add: eval)
  moreover have "sha1_entry_loop ?e ?k 0 1 2 ?l (Some ?h) = Some (Got 1)"
    by (subst sha1_entry_loop.simps) (simp add: eval)
  ultimately show ?thesis by (simp add: sha1_entry_pos_def)
qed

end
