(* ===== verification/Open_Addressing.thy ===== *)
theory Open_Addressing
  imports Git_Prelude
begin

text \<open>
  Hash tables with linear probing, the scheme that \<^verbatim>\<open>hash.c\<close>,
  \<^verbatim>\<open>decorate.c\<close> and \<^verbatim>\<open>object.c\<close> share. A table is a list of slots.
  \<open>probe\<close> is their search loop: it walks the slots cyclically until one satisfies
  \<open>stop\<close>, and is \<open>None\<close> if it never ends.
\<close>

partial_function (option) probe :: "('e option \<Rightarrow> bool) \<Rightarrow> 'e option list \<Rightarrow> nat \<Rightarrow> nat option" where
  "probe stop tab j =
     (if stop (tab ! j) then Some j
      else probe stop tab (if length tab \<le> j + 1 then 0 else j + 1))"

declare probe.simps [code]

lemma probe_ok:
  assumes "j < length tab" "i < length tab" "stop (tab ! i)"
  shows "\<exists>d. probe stop tab j = Some ((j + d) mod length tab) \<and> stop (tab ! ((j + d) mod length tab))
    \<and> (\<forall>d' < d. \<not> stop (tab ! ((j + d') mod length tab)))"
proof -
  let ?n = "length tab"
  define P where "P d = stop (tab ! ((j + d) mod ?n))" for d
  have "(j + (i + ?n - j)) mod ?n = i" using assms(1,2) by simp
  then have "P (i + ?n - j)" using assms(3) by (simp add: P_def)
  then obtain d where d: "P d" "\<forall>d' < d. \<not> P d'" by (metis LeastI not_less_Least)
  have "probe stop tab ((j + k) mod ?n) = Some ((j + d) mod ?n)" if "k \<le> d" for k
    using that
  proof (induction k rule: inc_induct)
    case base
    then show ?case using d(1) by (simp add: probe.simps P_def)
  next
    case (step k)
    let ?m = "(j + k) mod ?n"
    have "0 < ?n" using assms(1) by linarith
    then have "?m < ?n" by (rule mod_less_divisor)
    then have "(if ?n \<le> ?m + 1 then 0 else ?m + 1) = (j + Suc k) mod ?n"
      by (simp add: mod_Suc)
    with step d(2) show ?case by (subst probe.simps) (simp add: P_def)
  qed
  moreover have "(j + 0) mod ?n = j" using assms(1) by simp
  ultimately show ?thesis using d by (metis P_def le0)
qed

subsection \<open>The invariant of linear probing\<close>

text \<open>
  No slot between the home of an entry and the entry itself is empty, and no key occurs
  twice. \<open>home\<close> gives the first slot of a key for a table of a given size.
\<close>

definition tab_ok :: "('k \<Rightarrow> nat \<Rightarrow> nat) \<Rightarrow> ('e \<Rightarrow> 'k) \<Rightarrow> 'e option list \<Rightarrow> bool" where
  "tab_ok home key tab =
     ((\<forall>i < length tab. \<forall>e. tab ! i = Some e \<longrightarrow>
         (\<exists>d. i = (home (key e) (length tab) + d) mod length tab
            \<and> (\<forall>d' < d. tab ! ((home (key e) (length tab) + d') mod length tab) \<noteq> None)))
      \<and> (\<forall>i < length tab. \<forall>j < length tab. \<forall>e e'.
           tab ! i = Some e \<longrightarrow> tab ! j = Some e' \<longrightarrow> key e = key e' \<longrightarrow> i = j))"

text \<open>The map a table stands for.\<close>

definition tab_map :: "('e \<Rightarrow> 'k) \<Rightarrow> 'e option list \<Rightarrow> 'k \<Rightarrow> 'e option" where
  "tab_map key tab k = find (\<lambda>e. key e = k) (List.map_filter id tab)"

definition hit :: "('e \<Rightarrow> 'k) \<Rightarrow> 'k \<Rightarrow> 'e option \<Rightarrow> bool" where
  "hit key k s = (case s of None \<Rightarrow> True | Some e \<Rightarrow> key e = k)"

lemma set_map_filter_id: "e \<in> set (List.map_filter id tab) \<longleftrightarrow> (\<exists>i < length tab. tab ! i = Some e)"
proof -
  have "e \<in> set (List.map_filter id tab) \<longleftrightarrow> Some e \<in> set tab"
    by (induction tab) (auto simp: List.map_filter_simps split: option.splits)
  then show ?thesis by (auto simp: in_set_conv_nth)
qed

lemma tab_map_None:
  "tab_map key tab k = None \<longleftrightarrow> (\<forall>i < length tab. \<forall>e. tab ! i = Some e \<longrightarrow> key e \<noteq> k)"
  by (auto simp: tab_map_def find_None_iff set_map_filter_id)

lemma tab_map_SomeD: "tab_map key tab k = Some e \<Longrightarrow> \<exists>i < length tab. tab ! i = Some e \<and> key e = k"
  unfolding tab_map_def by (metis (mono_tags, lifting) find_Some_iff nth_mem set_map_filter_id)

lemma tab_unique:
  "tab_ok home key tab \<Longrightarrow> i < length tab \<Longrightarrow> j < length tab \<Longrightarrow> tab ! i = Some e \<Longrightarrow> tab ! j = Some e'
    \<Longrightarrow> key e = key e' \<Longrightarrow> i = j"
  by (simp add: tab_ok_def)

lemma tab_map_Some:
  assumes "tab_ok home key tab"
  shows "tab_map key tab k = Some e \<longleftrightarrow> (\<exists>i < length tab. tab ! i = Some e \<and> key e = k)"
proof
  assume "\<exists>i < length tab. tab ! i = Some e \<and> key e = k"
  then obtain i where i: "i < length tab" "tab ! i = Some e" "key e = k" by blast
  then obtain e' where "tab_map key tab k = Some e'" using tab_map_None [of key tab k] by fastforce
  with tab_map_SomeD [OF this] i tab_unique [OF assms] show "tab_map key tab k = Some e" by force
qed (rule tab_map_SomeD)

lemma tab_ok_empty: "tab_ok home key (replicate n None)"
  by (simp add: tab_ok_def)

lemma tab_map_empty: "tab_map key (replicate n None) = Map.empty"
  by (rule ext) (simp add: tab_map_None)

text \<open>Storing an entry of a key in the slot the probe of that key stops at.\<close>

lemma tab_store:
  assumes ok: "tab_ok home key tab" and j: "j < length tab"
    and slot: "tab ! j = None \<and> tab_map key tab k = None \<or> (\<exists>e. tab ! j = Some e \<and> key e = k)"
    and path: "j = (home k (length tab) + d) mod length tab"
      "\<forall>d' < d. tab ! ((home k (length tab) + d') mod length tab) \<noteq> None"
    and e: "key e = k"
  shows "tab_ok home key (tab[j := Some e])" "tab_map key (tab[j := Some e]) = (tab_map key tab)(k \<mapsto> e)"
proof -
  let ?tab = "tab[j := Some e]"
  have other: "key e' \<noteq> k" if "i < length tab" "tab ! i = Some e'" "i \<noteq> j" for i e'
    using slot that tab_unique [OF ok that(1) j that(2)] tab_map_None [of key tab k] by auto
  have filled: "tab ! i \<noteq> None \<Longrightarrow> ?tab ! i \<noteq> None" for i
    using j by (cases "i = j") auto
  show ok': "tab_ok home key ?tab"
    unfolding tab_ok_def
  proof (intro conjI allI impI)
    fix i e' assume i: "i < length ?tab" "?tab ! i = Some e'"
    show "\<exists>d. i = (home (key e') (length ?tab) + d) mod length ?tab
        \<and> (\<forall>d' < d. ?tab ! ((home (key e') (length ?tab) + d') mod length ?tab) \<noteq> None)"
    proof (cases "i = j")
      case True
      with i j e path filled show ?thesis by (intro exI [of _ d]) auto
    next
      case False
      then have "tab ! i = Some e'" "i < length tab" using i by auto
      then obtain d0 where "i = (home (key e') (length tab) + d0) mod length tab"
        "\<forall>d' < d0. tab ! ((home (key e') (length tab) + d') mod length tab) \<noteq> None"
        using ok unfolding tab_ok_def by blast
      with filled show ?thesis by (intro exI [of _ d0]) auto
    qed
  next
    fix i i' e1 e2 assume "i < length ?tab" "i' < length ?tab" "?tab ! i = Some e1" "?tab ! i' = Some e2" "key e1 = key e2"
    then show "i = i'"
      using other e tab_unique [OF ok] by (cases "i = j"; cases "i' = j") auto
  qed
  show "tab_map key ?tab = (tab_map key tab)(k \<mapsto> e)"
  proof
    fix k'
    show "tab_map key ?tab k' = ((tab_map key tab)(k \<mapsto> e)) k'"
    proof (cases "k' = k")
      case True
      have "tab_map key ?tab k = Some e" using j e by (subst tab_map_Some [OF ok']) auto
      with True show ?thesis by simp
    next
      case False
      have "(i < length ?tab \<and> ?tab ! i = Some e' \<and> key e' = k') \<longleftrightarrow> (i < length tab \<and> tab ! i = Some e' \<and> key e' = k')" for i e'
        using slot False e j by (cases "i = j") auto
      then have same: "(\<exists>i < length ?tab. ?tab ! i = Some e' \<and> key e' = k') \<longleftrightarrow> (\<exists>i < length tab. tab ! i = Some e' \<and> key e' = k')" for e'
        by (simp only:)
      have "tab_map key ?tab k' = Some e' \<longleftrightarrow> tab_map key tab k' = Some e'" for e'
        unfolding tab_map_Some [OF ok'] tab_map_Some [OF ok] by (rule same)
      with False show ?thesis by (metis fun_upd_other option.exhaust)
    qed
  qed
qed

lemma probe_key:
  assumes ok: "tab_ok home key tab" and home: "home k (length tab) < length tab"
    and free: "i < length tab" "tab ! i = None"
  shows "\<exists>j < length tab. probe (hit key k) tab (home k (length tab)) = Some j \<and> tab ! j = tab_map key tab k
    \<and> (\<forall>e. key e = k \<longrightarrow> tab_ok home key (tab[j := Some e])
         \<and> tab_map key (tab[j := Some e]) = (tab_map key tab)(k \<mapsto> e))"
proof -
  let ?at = "\<lambda>d. (home k (length tab) + d) mod length tab"
  have "hit key k (tab ! i)" using free by (simp add: hit_def)
  from probe_ok [where stop = "hit key k", OF home free(1) this] obtain d where
    d: "probe (hit key k) tab (home k (length tab)) = Some (?at d)" "hit key k (tab ! ?at d)"
      "\<forall>d' < d. \<not> hit key k (tab ! ?at d')" by blast
  have j: "?at d < length tab" using home by (intro mod_less_divisor) linarith
  have occupied: "\<forall>d' < d. tab ! ?at d' \<noteq> None" 
  proof (intro allI impI notI)
    fix d' assume "d' < d" "tab ! ?at d' = None"
    with d(3) show False by (auto simp: hit_def)
  qed
  have val: "tab ! ?at d = tab_map key tab k"
  proof (cases "tab ! ?at d")
    case (Some e)
    then have "key e = k" using d(2) by (simp add: hit_def)
    with Some j have "tab_map key tab k = Some e" by (subst tab_map_Some [OF ok]) auto
    with Some show ?thesis by simp
  next
    case None
    have "tab_map key tab k = None"
    proof (rule ccontr)
      assume "tab_map key tab k \<noteq> None"
      then obtain e i' where e: "i' < length tab" "tab ! i' = Some e" "key e = k"
        using tab_map_SomeD by fastforce
      then obtain d0 where d0: "i' = ?at d0" "\<forall>d' < d0. tab ! ?at d' \<noteq> None"
        using ok unfolding tab_ok_def by blast
      have "\<not> d0 < d" using d(3) e d0(1) by (auto simp: hit_def)
      moreover have "\<not> d < d0" using d0(2) None by auto
      ultimately show False using None e d0(1) by auto
    qed
    with None show ?thesis by simp
  qed
  have slot: "tab ! ?at d = None \<and> tab_map key tab k = None \<or> (\<exists>e. tab ! ?at d = Some e \<and> key e = k)"
    using val d(2) by (cases "tab ! ?at d") (auto simp: hit_def)
  from j d(1) val tab_store [OF ok j slot refl occupied] show ?thesis by blast
qed

subsection \<open>Counting and growing\<close>

definition occ :: "'e option list \<Rightarrow> nat" where
  "occ tab = length (List.map_filter id tab)"

lemma occ_simps [simp]: "occ [] = 0" "occ (None # tab) = occ tab" "occ (Some e # tab) = Suc (occ tab)"
  by (simp_all add: occ_def List.map_filter_simps)

lemma occ_empty [simp]: "occ (replicate n None) = 0"
  by (induction n) simp_all

lemma occ_le: "occ tab \<le> length tab"
  by (simp add: occ_def List.map_filter_def)

lemma occ_free: "occ tab < length tab \<Longrightarrow> \<exists>i < length tab. tab ! i = None"
proof (induction tab)
  case (Cons s tab)
  then show ?case by (cases s) fastforce+
qed simp

lemma occ_store:
  "j < length tab \<Longrightarrow> occ (tab[j := Some e]) = (if tab ! j = None then Suc (occ tab) else occ tab)"
proof (induction tab arbitrary: j)
  case (Cons s tab)
  then show ?case by (cases s; cases j) auto
qed simp

lemma tab_map_simps [simp]:
  "tab_map key [] = Map.empty" "tab_map key (None # tab) = tab_map key tab"
  "tab_map key (Some e # tab) k = (if key e = k then Some e else tab_map key tab k)"
  by (simp_all add: tab_map_def fun_eq_iff List.map_filter_simps)

definition uniq :: "('e \<Rightarrow> 'k) \<Rightarrow> 'e option list \<Rightarrow> bool" where
  "uniq key tab = (\<forall>i < length tab. \<forall>j < length tab. \<forall>e e'.
     tab ! i = Some e \<longrightarrow> tab ! j = Some e' \<longrightarrow> key e = key e' \<longrightarrow> i = j)"

lemma tab_ok_uniq: "tab_ok home key tab \<Longrightarrow> uniq key tab"
  unfolding tab_ok_def uniq_def by blast

lemma uniq_Cons:
  assumes "uniq key (s # tab)"
  shows "uniq key tab" "s = Some e \<Longrightarrow> tab_map key tab (key e) = None"
proof -
  show "uniq key tab"
    unfolding uniq_def
  proof (intro allI impI)
    fix i j e e'
    assume "i < length tab" "j < length tab" "tab ! i = Some e" "tab ! j = Some e'" "key e = key e'"
    then have "Suc i = Suc j" using assms [unfolded uniq_def, rule_format, of "Suc i" "Suc j" e e'] by simp
    then show "i = j" by simp
  qed
  show "s = Some e \<Longrightarrow> tab_map key tab (key e) = None"
    using assms [unfolded uniq_def, rule_format, of 0 "Suc j" e e' for j e'] unfolding tab_map_None
    by (metis Suc_less_eq length_Cons nat.distinct(1) nth_Cons_0 nth_Cons_Suc zero_less_Suc)
qed

text \<open>The loop of every \<open>grow\<close> function: the entries of the old table go into the new one.\<close>

fun reinsert :: "('e \<Rightarrow> 's \<Rightarrow> 's option) \<Rightarrow> 'e option list \<Rightarrow> 's \<Rightarrow> 's option" where
  "reinsert f [] s = Some s"
| "reinsert f (None # slots) s = reinsert f slots s"
| "reinsert f (Some e # slots) s = (case f e s of None \<Rightarrow> None | Some s \<Rightarrow> reinsert f slots s)"

lemma reinsert_ok:
  assumes step: "\<And>e s. Inv s \<Longrightarrow> nr s < n \<Longrightarrow> lk s (key e) = None \<Longrightarrow>
      \<exists>s'. f e s = Some s' \<and> Inv s' \<and> nr s' = Suc (nr s) \<and> lk s' = (lk s)(key e \<mapsto> e)"
    and "Inv s" "nr s + occ slots \<le> n" "uniq key slots" "\<forall>k. tab_map key slots k \<noteq> None \<longrightarrow> lk s k = None"
  shows "\<exists>s'. reinsert f slots s = Some s' \<and> Inv s' \<and> nr s' = nr s + occ slots \<and> lk s' = lk s ++ tab_map key slots"
  using assms(2-)
proof (induction slots arbitrary: s)
  case (Cons slot slots)
  note uq = uniq_Cons [OF Cons.prems(3)]
  show ?case
  proof (cases slot)
    case None
    with Cons uq show ?thesis by simp
  next
    case (Some e)
    have "lk s (key e) = None" using Cons.prems(4) Some by simp
    then obtain s1 where s1: "f e s = Some s1" "Inv s1" "nr s1 = Suc (nr s)" "lk s1 = (lk s)(key e \<mapsto> e)"
      using step [of s e] Cons.prems Some by auto
    have fresh: "tab_map key slots (key e) = None" using uq(2) Some by simp
    have "\<forall>k. tab_map key slots k \<noteq> None \<longrightarrow> lk s1 k = None"
      using Cons.prems(4) Some fresh s1(4) by (auto split: if_splits)
    then obtain s' where s': "reinsert f slots s1 = Some s'" "Inv s'" "nr s' = nr s1 + occ slots"
      "lk s' = lk s1 ++ tab_map key slots"
      using Cons.IH [OF s1(2) _ uq(1)] Cons.prems(2) s1(3) Some by auto
    have "lk s1 ++ tab_map key slots = lk s ++ tab_map key (slot # slots)"
      using fresh Some by (rule_tac ext) (auto simp: s1(4) map_add_def split: option.split)
    moreover have "reinsert f (slot # slots) s = Some s'" "nr s' = nr s + occ (slot # slots)"
      using s1(1,3) s'(1,3) Some by simp_all
    ultimately show ?thesis using s'(2,4) by (intro exI [of _ s']) (simp only:)
  qed
qed simp

end
