(* ===== verification/Hash_Tables.thy ===== *)
theory Hash_Tables
  imports Open_Addressing
begin

text \<open>
  Three hash tables: the pointers by 32-bit hash of \<^verbatim>\<open>hash.c\<close>, the decorations
  of objects of \<^verbatim>\<open>decorate.c\<close> and the object store of \<^verbatim>\<open>object.c\<close>.
  \<open>None\<close> is a search loop that never ends. Sizes are natural numbers; the first word of an
  object name, which depends on the machine's byte order, is the argument \<open>word\<close>.
\<close>

subsection \<open>\<open>hash.c\<close>\<close>

record 'p hash_table =
  ht_nr :: nat
  ht_array :: "(u32 \<times> 'p) option list"

definition alloc_nr :: "nat \<Rightarrow> nat" where "alloc_nr x = (x + 16) * 3 div 2"

definition lookup_hash_entry :: "u32 \<Rightarrow> 'p hash_table \<Rightarrow> nat option" where
  "lookup_hash_entry hash table =
     probe (hit fst hash) (ht_array table) (unat hash mod length (ht_array table))"

text \<open>The second component is the slot of an entry that was there already.\<close>

definition insert_hash_entry :: "u32 \<Rightarrow> 'p \<Rightarrow> 'p hash_table \<Rightarrow> ('p hash_table \<times> nat option) option" where
  "insert_hash_entry hash ptr table =
     (case lookup_hash_entry hash table of None \<Rightarrow> None
      | Some entry \<Rightarrow>
          if ht_array table ! entry = None
          then Some (\<lparr>ht_nr = ht_nr table + 1, ht_array = (ht_array table)[entry := Some (hash, ptr)]\<rparr>, None)
          else Some (table, Some entry))"

definition grow_hash_table :: "'p hash_table \<Rightarrow> 'p hash_table option" where
  "grow_hash_table table =
     (let new_size = alloc_nr (length (ht_array table)) in
      reinsert (\<lambda>(hash, ptr) t. map_option fst (insert_hash_entry hash ptr t)) (ht_array table)
        \<lparr>ht_nr = 0, ht_array = replicate new_size None\<rparr>)"

definition lookup_hash :: "u32 \<Rightarrow> 'p hash_table \<Rightarrow> 'p option option" where
  "lookup_hash hash table =
     (if ht_array table = [] then Some None
      else map_option (\<lambda>entry. map_option snd (ht_array table ! entry)) (lookup_hash_entry hash table))"

definition insert_hash :: "u32 \<Rightarrow> 'p \<Rightarrow> 'p hash_table \<Rightarrow> ('p hash_table \<times> nat option) option" where
  "insert_hash hash ptr table =
     (if ht_nr table \<ge> length (ht_array table) div 2
      then (case grow_hash_table table of None \<Rightarrow> None | Some table \<Rightarrow> insert_hash_entry hash ptr table)
      else insert_hash_entry hash ptr table)"

fun for_each_hash :: "('p \<Rightarrow> int) \<Rightarrow> (u32 \<times> 'p) option list \<Rightarrow> int \<Rightarrow> int" where
  "for_each_hash fn [] acc = acc"
| "for_each_hash fn (None # slots) acc = for_each_hash fn slots acc"
| "for_each_hash fn (Some (_, ptr) # slots) acc =
     (if fn ptr < 0 then fn ptr else for_each_hash fn slots (acc + fn ptr))"

definition free_hash :: "'p hash_table \<Rightarrow> 'p hash_table" where
  "free_hash table = \<lparr>ht_nr = 0, ht_array = []\<rparr>"

subsection \<open>\<open>decorate.c\<close>\<close>

record ('o, 'd) decoration =
  dc_nr :: nat
  dc_hash :: "('o \<times> 'd) option list"

definition hash_obj :: "('o \<Rightarrow> u32) \<Rightarrow> 'o \<Rightarrow> nat \<Rightarrow> nat" where
  "hash_obj word obj n = unat (word obj) mod n"

definition insert_decoration :: "('o \<Rightarrow> u32) \<Rightarrow> ('o, 'd) decoration \<Rightarrow> 'o \<Rightarrow> 'd
    \<Rightarrow> (('o, 'd) decoration \<times> 'd option) option" where
  "insert_decoration word n base decoration =
     (case probe (hit fst base) (dc_hash n) (hash_obj word base (length (dc_hash n))) of
        None \<Rightarrow> None
      | Some j \<Rightarrow>
          (case dc_hash n ! j of
             Some (_, old) \<Rightarrow> Some (n\<lparr>dc_hash := (dc_hash n)[j := Some (base, decoration)]\<rparr>, Some old)
           | None \<Rightarrow>
               Some (n\<lparr>dc_hash := (dc_hash n)[j := Some (base, decoration)], dc_nr := dc_nr n + 1\<rparr>, None)))"

definition grow_decoration :: "('o \<Rightarrow> u32) \<Rightarrow> ('o, 'd) decoration \<Rightarrow> ('o, 'd) decoration option" where
  "grow_decoration word n =
     reinsert (\<lambda>(base, decoration) n. map_option fst (insert_decoration word n base decoration)) (dc_hash n)
       \<lparr>dc_nr = 0, dc_hash = replicate ((length (dc_hash n) + 1000) * 3 div 2) None\<rparr>"

definition add_decoration :: "('o \<Rightarrow> u32) \<Rightarrow> ('o, 'd) decoration \<Rightarrow> 'o \<Rightarrow> 'd
    \<Rightarrow> (('o, 'd) decoration \<times> 'd option) option" where
  "add_decoration word n obj decoration =
     (if dc_nr n + 1 > length (dc_hash n) * 2 div 3
      then (case grow_decoration word n of None \<Rightarrow> None
            | Some n \<Rightarrow> insert_decoration word n obj decoration)
      else insert_decoration word n obj decoration)"

definition lookup_decoration :: "('o \<Rightarrow> u32) \<Rightarrow> ('o, 'd) decoration \<Rightarrow> 'o \<Rightarrow> 'd option option" where
  "lookup_decoration word n obj =
     (if dc_hash n = [] then Some None
      else map_option (\<lambda>j. map_option snd (dc_hash n ! j))
        (probe (hit fst obj) (dc_hash n) (hash_obj word obj (length (dc_hash n)))))"

subsection \<open>\<open>object.c\<close>\<close>

record obj =
  o_sha1 :: "byte list"
  o_type :: nat
  o_parsed :: bool
  o_used :: bool
  o_flags :: nat

record obj_store =
  os_nr :: nat
  os_hash :: "obj option list"

definition hashtable_index :: "(byte list \<Rightarrow> u32) \<Rightarrow> byte list \<Rightarrow> nat \<Rightarrow> nat" where
  "hashtable_index word sha1 sz = unat (word sha1) mod sz"

definition insert_obj_hash :: "(byte list \<Rightarrow> u32) \<Rightarrow> obj \<Rightarrow> obj option list \<Rightarrow> obj option list option" where
  "insert_obj_hash word obj hash =
     (case probe (\<lambda>s. s = None) hash (hashtable_index word (o_sha1 obj) (length hash)) of
        None \<Rightarrow> None | Some j \<Rightarrow> Some (hash[j := Some obj]))"

definition lookup_object :: "(byte list \<Rightarrow> u32) \<Rightarrow> obj_store \<Rightarrow> byte list \<Rightarrow> obj option option" where
  "lookup_object word st sha1 =
     (if os_hash st = [] then Some None
      else map_option (\<lambda>i. os_hash st ! i)
        (probe (hit o_sha1 sha1) (os_hash st) (hashtable_index word sha1 (length (os_hash st)))))"

definition grow_object_hash :: "(byte list \<Rightarrow> u32) \<Rightarrow> obj_store \<Rightarrow> obj_store option" where
  "grow_object_hash word st =
     (let new_hash_size = (if length (os_hash st) < 32 then 32 else 2 * length (os_hash st)) in
      case reinsert (insert_obj_hash word) (os_hash st) (replicate new_hash_size None) of
        None \<Rightarrow> None | Some new_hash \<Rightarrow> Some (st\<lparr>os_hash := new_hash\<rparr>))"

definition create_object :: "(byte list \<Rightarrow> u32) \<Rightarrow> obj_store \<Rightarrow> byte list \<Rightarrow> nat \<Rightarrow> (obj_store \<times> obj) option" where
  "create_object word st sha1 type =
     (let obj = \<lparr>o_sha1 = sha1, o_type = type, o_parsed = False, o_used = False, o_flags = 0\<rparr>;
          grown = (if int (length (os_hash st)) - 1 \<le> int (os_nr st) * 2 then grow_object_hash word st else Some st) in
      case grown of None \<Rightarrow> None
      | Some st \<Rightarrow>
          (case insert_obj_hash word obj (os_hash st) of None \<Rightarrow> None
           | Some hash \<Rightarrow> Some (\<lparr>os_nr = os_nr st + 1, os_hash = hash\<rparr>, obj)))"

definition lookup_unknown_object :: "(byte list \<Rightarrow> u32) \<Rightarrow> obj_store \<Rightarrow> byte list \<Rightarrow> (obj_store \<times> obj) option" where
  "lookup_unknown_object word st sha1 =
     (case lookup_object word st sha1 of None \<Rightarrow> None
      | Some (Some obj) \<Rightarrow> Some (st, obj)
      | Some None \<Rightarrow> create_object word st sha1 0)"

subsection \<open>The table of \<open>hash.c\<close>\<close>

definition ht_home :: "u32 \<Rightarrow> nat \<Rightarrow> nat" where "ht_home hash n = unat hash mod n"

definition ht_map :: "'p hash_table \<Rightarrow> u32 \<Rightarrow> 'p option" where
  "ht_map t hash = map_option snd (tab_map fst (ht_array t) hash)"

definition ht_ok :: "'p hash_table \<Rightarrow> bool" where
  "ht_ok t = (tab_ok ht_home fst (ht_array t) \<and> ht_nr t = occ (ht_array t)
     \<and> (ht_array t = [] \<or> occ (ht_array t) < length (ht_array t)))"

lemma occ_room:
  "occ tab < length tab \<Longrightarrow> \<exists>i < length tab. tab ! i = None" "occ tab < length tab \<Longrightarrow> tab \<noteq> []"
  by (rule occ_free) auto

lemma insert_hash_entry_ok:
  assumes ok: "tab_ok ht_home fst (ht_array t)" and room: "occ (ht_array t) < length (ht_array t)"
  shows "\<exists>j < length (ht_array t). lookup_hash_entry hash t = Some j \<and> ht_array t ! j = tab_map fst (ht_array t) hash
    \<and> (tab_map fst (ht_array t) hash \<noteq> None \<longrightarrow> insert_hash_entry hash ptr t = Some (t, Some j))
    \<and> (tab_map fst (ht_array t) hash = None \<longrightarrow>
         (\<exists>t'. insert_hash_entry hash ptr t = Some (t', None) \<and> tab_ok ht_home fst (ht_array t')
            \<and> length (ht_array t') = length (ht_array t) \<and> occ (ht_array t') = Suc (occ (ht_array t))
            \<and> ht_nr t' = Suc (ht_nr t)
            \<and> tab_map fst (ht_array t') = (tab_map fst (ht_array t))(hash \<mapsto> (hash, ptr))))"
proof -
  obtain i where i: "i < length (ht_array t)" "ht_array t ! i = None" using occ_room [OF room] by blast
  have home: "ht_home hash (length (ht_array t)) < length (ht_array t)"
    unfolding ht_home_def using i by (intro mod_less_divisor) linarith
  from probe_key [OF ok home i] obtain j where j: "j < length (ht_array t)"
    "probe (hit fst hash) (ht_array t) (ht_home hash (length (ht_array t))) = Some j"
    "ht_array t ! j = tab_map fst (ht_array t) hash"
    "tab_ok ht_home fst ((ht_array t)[j := Some (hash, ptr)])"
    "tab_map fst ((ht_array t)[j := Some (hash, ptr)]) = (tab_map fst (ht_array t))(hash \<mapsto> (hash, ptr))"
    by (metis fst_conv)
  then have "lookup_hash_entry hash t = Some j" by (simp add: lookup_hash_entry_def ht_home_def)
  with j show ?thesis by (intro exI [of _ j]) (auto simp: insert_hash_entry_def occ_store)
qed

lemma grow_hash_table_ok:
  assumes ok: "ht_ok t"
  shows "\<exists>t'. grow_hash_table t = Some t' \<and> ht_ok t' \<and> occ (ht_array t') + 1 < length (ht_array t')
    \<and> tab_map fst (ht_array t') = tab_map fst (ht_array t)"
proof -
  let ?n = "alloc_nr (length (ht_array t))"
  let ?f = "\<lambda>(hash, ptr) t. map_option fst (insert_hash_entry hash ptr t)"
  let ?Inv = "\<lambda>s. tab_ok ht_home fst (ht_array s) \<and> length (ht_array s) = ?n \<and> ht_nr s = occ (ht_array s)"
  have n: "occ (ht_array t) + 1 < ?n" using occ_le [of "ht_array t"] by (simp add: alloc_nr_def)
  have step: "\<exists>s'. ?f e s = Some s' \<and> ?Inv s' \<and> ht_nr s' = Suc (ht_nr s)
      \<and> tab_map fst (ht_array s') = (tab_map fst (ht_array s))(fst e \<mapsto> e)"
    if "?Inv s" "ht_nr s < ?n - 1" "tab_map fst (ht_array s) (fst e) = None" for e s
  proof -
    have "occ (ht_array s) < length (ht_array s)" using that by linarith
    from insert_hash_entry_ok [OF _ this, of "fst e" "snd e"] that show ?thesis by (cases e) auto
  qed
  have "\<exists>s'. reinsert ?f (ht_array t) \<lparr>ht_nr = 0, ht_array = replicate ?n None\<rparr> = Some s' \<and> ?Inv s'
      \<and> ht_nr s' = ht_nr \<lparr>ht_nr = 0, ht_array = replicate ?n (None :: (u32 \<times> 'a) option)\<rparr> + occ (ht_array t)
      \<and> tab_map fst (ht_array s') = tab_map fst (ht_array \<lparr>ht_nr = 0, ht_array = replicate ?n None\<rparr>) ++ tab_map fst (ht_array t)"
    by (rule reinsert_ok [where n = "?n - 1" and Inv = ?Inv and lk = "\<lambda>s. tab_map fst (ht_array s)" and key = fst,
          OF step])
       (use n tab_ok_uniq [of ht_home fst "ht_array t"] ok in \<open>auto simp: tab_ok_empty tab_map_empty ht_ok_def\<close>)
  with n show ?thesis by (auto simp: grow_hash_table_def Let_def ht_ok_def tab_map_empty)
qed

lemma lookup_hash_ok: "ht_ok t \<Longrightarrow> lookup_hash hash t = Some (ht_map t hash)"
proof (cases "ht_array t = []")
  case False
  assume "ht_ok t"
  with False insert_hash_entry_ok [of t hash] obtain j where
    "lookup_hash_entry hash t = Some j" "ht_array t ! j = tab_map fst (ht_array t) hash"
    unfolding ht_ok_def by blast
  with False show ?thesis by (simp add: lookup_hash_def ht_map_def)
qed (simp add: lookup_hash_def ht_map_def)

lemma insert_hash_ok:
  assumes ok: "ht_ok t"
  shows "\<exists>t' pos. insert_hash hash ptr t = Some (t', pos) \<and> ht_ok t'
    \<and> (case pos of
         None \<Rightarrow> ht_map t hash = None \<and> ht_map t' = (ht_map t)(hash \<mapsto> ptr)
       | Some j \<Rightarrow> ht_map t' = ht_map t \<and> j < length (ht_array t') \<and> map_option snd (ht_array t' ! j) = ht_map t hash
           \<and> ht_map t hash \<noteq> None)"
proof -
  obtain t1 where t1: "ht_ok t1" "occ (ht_array t1) + 1 < length (ht_array t1)"
    "tab_map fst (ht_array t1) = tab_map fst (ht_array t)" "insert_hash hash ptr t = insert_hash_entry hash ptr t1"
  proof (cases "ht_nr t \<ge> length (ht_array t) div 2")
    case True
    with grow_hash_table_ok [OF ok] that show ?thesis by (auto simp: insert_hash_def)
  next
    case False
    then have "occ (ht_array t) + 1 < length (ht_array t)" using ok by (auto simp: ht_ok_def)
    with False ok that [of t] show ?thesis by (simp add: insert_hash_def)
  qed
  have map: "ht_map t1 = ht_map t" by (rule ext) (simp add: ht_map_def t1(3))
  have "tab_ok ht_home fst (ht_array t1)" "occ (ht_array t1) < length (ht_array t1)" "ht_nr t1 = occ (ht_array t1)"
    using t1(1,2) by (auto simp: ht_ok_def)
  note ins = insert_hash_entry_ok [OF this(1,2), of hash ptr] this(3)
  show ?thesis
  proof (cases "tab_map fst (ht_array t1) hash")
    case None
    with ins obtain t' where t': "insert_hash_entry hash ptr t1 = Some (t', None)" "tab_ok ht_home fst (ht_array t')"
      "length (ht_array t') = length (ht_array t1)" "occ (ht_array t') = Suc (occ (ht_array t1))"
      "ht_nr t' = Suc (ht_nr t1)" "tab_map fst (ht_array t') = (tab_map fst (ht_array t1))(hash \<mapsto> (hash, ptr))" by blast
    have "ht_map t' = (ht_map t1)(hash \<mapsto> ptr)" by (rule ext) (simp add: ht_map_def t'(6))
    moreover have "ht_ok t'" using t' t1(2) ins(2) by (auto simp: ht_ok_def)
    ultimately show ?thesis using t'(1) t1(4) None map by (simp add: ht_map_def t1(3))
  next
    case (Some e)
    with ins obtain j where "j < length (ht_array t1)" "ht_array t1 ! j = Some e"
      "insert_hash_entry hash ptr t1 = Some (t1, Some j)" by auto
    with Some t1(1,4) map show ?thesis by (cases e) (auto simp: ht_map_def t1(3) [symmetric])
  qed
qed

subsection \<open>The decorations\<close>

definition dc_map :: "('o, 'd) decoration \<Rightarrow> 'o \<Rightarrow> 'd option" where
  "dc_map n obj = map_option snd (tab_map fst (dc_hash n) obj)"

definition dc_ok :: "('o \<Rightarrow> u32) \<Rightarrow> ('o, 'd) decoration \<Rightarrow> bool" where
  "dc_ok word n = (tab_ok (hash_obj word) fst (dc_hash n) \<and> dc_nr n = occ (dc_hash n)
     \<and> (dc_hash n = [] \<or> occ (dc_hash n) < length (dc_hash n)))"

lemma insert_decoration_ok:
  assumes ok: "tab_ok (hash_obj word) fst (dc_hash n)" and room: "occ (dc_hash n) < length (dc_hash n)"
  shows "\<exists>n' old. insert_decoration word n base d = Some (n', old) \<and> old = dc_map n base
    \<and> tab_ok (hash_obj word) fst (dc_hash n') \<and> length (dc_hash n') = length (dc_hash n)
    \<and> occ (dc_hash n') = occ (dc_hash n) + (if old = None then 1 else 0)
    \<and> dc_nr n' = dc_nr n + (if old = None then 1 else 0)
    \<and> tab_map fst (dc_hash n') = (tab_map fst (dc_hash n))(base \<mapsto> (base, d))"
proof -
  obtain i where i: "i < length (dc_hash n)" "dc_hash n ! i = None" using occ_room [OF room] by blast
  have home: "hash_obj word base (length (dc_hash n)) < length (dc_hash n)"
    unfolding hash_obj_def using i by (intro mod_less_divisor) linarith
  from probe_key [OF ok home i] obtain j where j: "j < length (dc_hash n)"
    "probe (hit fst base) (dc_hash n) (hash_obj word base (length (dc_hash n))) = Some j"
    "dc_hash n ! j = tab_map fst (dc_hash n) base"
    "tab_ok (hash_obj word) fst ((dc_hash n)[j := Some (base, d)])"
    "tab_map fst ((dc_hash n)[j := Some (base, d)]) = (tab_map fst (dc_hash n))(base \<mapsto> (base, d))"
    by (metis fst_conv)
  then show ?thesis
    by (cases "tab_map fst (dc_hash n) base") (auto simp: insert_decoration_def dc_map_def occ_store)
qed

lemma grow_decoration_ok:
  assumes ok: "dc_ok word n"
  shows "\<exists>n'. grow_decoration word n = Some n' \<and> dc_ok word n' \<and> occ (dc_hash n') + 1 < length (dc_hash n')
    \<and> tab_map fst (dc_hash n') = tab_map fst (dc_hash n)"
proof -
  let ?n = "(length (dc_hash n) + 1000) * 3 div 2"
  let ?s0 = "\<lparr>dc_nr = 0, dc_hash = replicate ?n (None :: ('a \<times> 'b) option)\<rparr>"
  let ?f = "\<lambda>(base, decoration) n. map_option fst (insert_decoration word n base decoration)"
  let ?Inv = "\<lambda>s. tab_ok (hash_obj word) fst (dc_hash s) \<and> length (dc_hash s) = ?n \<and> dc_nr s = occ (dc_hash s)"
  have n: "occ (dc_hash n) + 1 < ?n" using occ_le [of "dc_hash n"] by simp
  have step: "\<exists>s'. ?f e s = Some s' \<and> ?Inv s' \<and> dc_nr s' = Suc (dc_nr s)
      \<and> tab_map fst (dc_hash s') = (tab_map fst (dc_hash s))(fst e \<mapsto> e)"
    if "?Inv s" "dc_nr s < ?n - 1" "tab_map fst (dc_hash s) (fst e) = None" for e s
  proof -
    have "occ (dc_hash s) < length (dc_hash s)" using that by linarith
    from insert_decoration_ok [OF _ this, of word "fst e" "snd e"] that show ?thesis
      by (cases e) (auto simp: dc_map_def)
  qed
  have "\<exists>s'. reinsert ?f (dc_hash n) ?s0 = Some s' \<and> ?Inv s' \<and> dc_nr s' = dc_nr ?s0 + occ (dc_hash n)
      \<and> tab_map fst (dc_hash s') = tab_map fst (dc_hash ?s0) ++ tab_map fst (dc_hash n)"
    by (rule reinsert_ok [where n = "?n - 1" and Inv = ?Inv and lk = "\<lambda>s. tab_map fst (dc_hash s)" and key = fst,
          OF step])
       (use n tab_ok_uniq [of "hash_obj word" fst "dc_hash n"] ok in \<open>auto simp: tab_ok_empty tab_map_empty dc_ok_def\<close>)
  with n show ?thesis by (auto simp: grow_decoration_def dc_ok_def tab_map_empty)
qed

lemma add_decoration_ok:
  assumes ok: "dc_ok word n"
  shows "\<exists>n'. add_decoration word n obj d = Some (n', dc_map n obj) \<and> dc_ok word n'
    \<and> dc_map n' = (dc_map n)(obj \<mapsto> d)"
proof -
  obtain n1 where n1: "dc_ok word n1" "occ (dc_hash n1) + 1 < length (dc_hash n1)"
    "tab_map fst (dc_hash n1) = tab_map fst (dc_hash n)" "add_decoration word n obj d = insert_decoration word n1 obj d"
  proof (cases "dc_nr n + 1 > length (dc_hash n) * 2 div 3")
    case True
    with grow_decoration_ok [OF ok] that show ?thesis by (auto simp: add_decoration_def)
  next
    case False
    then have "occ (dc_hash n) + 1 < length (dc_hash n)" using ok by (auto simp: dc_ok_def)
    with False ok that [of n] show ?thesis by (simp add: add_decoration_def)
  qed
  have map: "dc_map n1 = dc_map n" by (rule ext) (simp add: dc_map_def n1(3))
  have "tab_ok (hash_obj word) fst (dc_hash n1)" "occ (dc_hash n1) < length (dc_hash n1)" "dc_nr n1 = occ (dc_hash n1)"
    using n1(1,2) by (auto simp: dc_ok_def)
  note facts = this
  obtain n' old where ins: "insert_decoration word n1 obj d = Some (n', old)" "old = dc_map n1 obj"
    "tab_ok (hash_obj word) fst (dc_hash n')" "length (dc_hash n') = length (dc_hash n1)"
    "occ (dc_hash n') = occ (dc_hash n1) + (if old = None then 1 else 0)"
    "dc_nr n' = dc_nr n1 + (if old = None then 1 else 0)"
    "tab_map fst (dc_hash n') = (tab_map fst (dc_hash n1))(obj \<mapsto> (obj, d))"
    using insert_decoration_ok [OF facts(1,2), of obj d] by blast
  have "dc_map n' = (dc_map n1)(obj \<mapsto> d)" by (rule ext) (simp add: dc_map_def ins(7))
  moreover have "dc_ok word n'" using ins n1(2) facts(3) by (auto simp: dc_ok_def)
  ultimately show ?thesis using ins(1,2) n1(4) map by simp
qed

lemma lookup_decoration_ok: "dc_ok word n \<Longrightarrow> lookup_decoration word n obj = Some (dc_map n obj)"
proof (cases "dc_hash n = []")
  case False
  assume "dc_ok word n"
  with False have ok: "tab_ok (hash_obj word) fst (dc_hash n)" "occ (dc_hash n) < length (dc_hash n)"
    by (auto simp: dc_ok_def)
  obtain i where i: "i < length (dc_hash n)" "dc_hash n ! i = None" using occ_room [OF ok(2)] by blast
  have home: "hash_obj word obj (length (dc_hash n)) < length (dc_hash n)"
    unfolding hash_obj_def using i by (intro mod_less_divisor) linarith
  from probe_key [OF ok(1) home i] False show ?thesis by (auto simp: lookup_decoration_def dc_map_def)
qed (simp add: lookup_decoration_def dc_map_def)

lemma lookup_decoration_map: "dc_ok word n \<Longrightarrow> (\<lambda>obj. the (lookup_decoration word n obj)) = dc_map n"
  by (simp add: lookup_decoration_ok)

interpretation decorations: finite_table "dc_ok word" "\<lambda>n obj. the (lookup_decoration word n obj)"
  "\<lambda>obj d n. map_option fst (add_decoration word n obj d)" for word
proof
  fix t :: "('a, 'b) decoration" and k v assume ok: "dc_ok word t"
  from add_decoration_ok [OF this, of k v]
  obtain n' where n': "add_decoration word t k v = Some (n', dc_map t k)" "dc_ok word n'"
    "dc_map n' = (dc_map t)(k \<mapsto> v)" by (elim exE conjE)
  have "map_option fst (add_decoration word t k v) = Some n'" using n'(1) by simp
  moreover have "(\<lambda>obj. the (lookup_decoration word n' obj)) = (dc_map t)(k \<mapsto> v)"
    unfolding lookup_decoration_map [OF n'(2)] by (rule n'(3))
  ultimately show "\<exists>t'. map_option fst (add_decoration word t k v) = Some t' \<and> dc_ok word t'
      \<and> (\<lambda>obj. the (lookup_decoration word t' obj)) = (\<lambda>obj. the (lookup_decoration word t obj))(k \<mapsto> v)"
    unfolding lookup_decoration_map [OF ok] using n'(2) by blast
qed

subsection \<open>The object store\<close>

definition os_map :: "obj_store \<Rightarrow> byte list \<Rightarrow> obj option" where
  "os_map st = tab_map o_sha1 (os_hash st)"

definition os_ok :: "(byte list \<Rightarrow> u32) \<Rightarrow> obj_store \<Rightarrow> bool" where
  "os_ok word st = (tab_ok (hashtable_index word) o_sha1 (os_hash st) \<and> os_nr st = occ (os_hash st)
     \<and> (os_hash st = [] \<or> occ (os_hash st) < length (os_hash st)))"

lemma insert_obj_hash_ok:
  assumes ok: "tab_ok (hashtable_index word) o_sha1 tab" and room: "occ tab < length tab"
    and new: "tab_map o_sha1 tab (o_sha1 obj) = None"
  shows "\<exists>tab'. insert_obj_hash word obj tab = Some tab' \<and> tab_ok (hashtable_index word) o_sha1 tab'
    \<and> length tab' = length tab \<and> occ tab' = Suc (occ tab)
    \<and> tab_map o_sha1 tab' = (tab_map o_sha1 tab)(o_sha1 obj \<mapsto> obj)"
proof -
  let ?at = "\<lambda>d. (hashtable_index word (o_sha1 obj) (length tab) + d) mod length tab"
  obtain i where i: "i < length tab" "tab ! i = None" using occ_room [OF room] by blast
  have home: "hashtable_index word (o_sha1 obj) (length tab) < length tab"
    unfolding hashtable_index_def using i by (intro mod_less_divisor) linarith
  from probe_ok [where stop = "\<lambda>s. s = None", OF home i] obtain d where
    d: "probe (\<lambda>s. s = None) tab (hashtable_index word (o_sha1 obj) (length tab)) = Some (?at d)" "tab ! ?at d = None"
      "\<forall>d' < d. tab ! ?at d' \<noteq> None" by blast
  have j: "?at d < length tab" using i by (intro mod_less_divisor) linarith
  from tab_store [OF ok j _ refl d(3), of obj] d(1,2) j new show ?thesis
    by (simp add: insert_obj_hash_def occ_store)
qed

lemma grow_object_hash_ok:
  assumes ok: "os_ok word st"
  shows "\<exists>st'. grow_object_hash word st = Some st' \<and> os_ok word st' \<and> occ (os_hash st') + 1 < length (os_hash st')
    \<and> os_map st' = os_map st"
proof -
  define n where "n = (if length (os_hash st) < 32 then 32 else 2 * length (os_hash st))"
  let ?Inv = "\<lambda>s. tab_ok (hashtable_index word) o_sha1 s \<and> length s = n"
  have n: "occ (os_hash st) + 1 < n" using ok by (auto simp: n_def os_ok_def)
  have step: "\<exists>s'. insert_obj_hash word e s = Some s' \<and> ?Inv s' \<and> occ s' = Suc (occ s)
      \<and> tab_map o_sha1 s' = (tab_map o_sha1 s)(o_sha1 e \<mapsto> e)"
    if "?Inv s" "occ s < n - 1" "tab_map o_sha1 s (o_sha1 e) = None" for e s
    using insert_obj_hash_ok [of word s e] that by auto
  have "\<exists>s'. reinsert (insert_obj_hash word) (os_hash st) (replicate n None) = Some s' \<and> ?Inv s'
      \<and> occ s' = occ (replicate n (None :: obj option)) + occ (os_hash st)
      \<and> tab_map o_sha1 s' = tab_map o_sha1 (replicate n None) ++ tab_map o_sha1 (os_hash st)"
    by (rule reinsert_ok [where n = "n - 1" and Inv = ?Inv and lk = "tab_map o_sha1" and nr = occ and key = o_sha1,
          OF step])
       (use n tab_ok_uniq [of "hashtable_index word" o_sha1 "os_hash st"] ok in \<open>auto simp: tab_ok_empty tab_map_empty os_ok_def\<close>)
  with n ok show ?thesis
    by (auto simp: grow_object_hash_def Let_def os_ok_def os_map_def tab_map_empty simp flip: n_def)
qed

lemma lookup_object_ok: "os_ok word st \<Longrightarrow> lookup_object word st sha1 = Some (os_map st sha1)"
proof (cases "os_hash st = []")
  case False
  assume "os_ok word st"
  with False have ok: "tab_ok (hashtable_index word) o_sha1 (os_hash st)" "occ (os_hash st) < length (os_hash st)"
    by (auto simp: os_ok_def)
  obtain i where i: "i < length (os_hash st)" "os_hash st ! i = None" using occ_room [OF ok(2)] by blast
  have home: "hashtable_index word sha1 (length (os_hash st)) < length (os_hash st)"
    unfolding hashtable_index_def using i by (intro mod_less_divisor) linarith
  from probe_key [OF ok(1) home i] False show ?thesis by (auto simp: lookup_object_def os_map_def)
qed (simp add: lookup_object_def os_map_def)

lemma create_object_ok:
  assumes ok: "os_ok word st" and new: "os_map st sha1 = None"
  shows "\<exists>st' obj. create_object word st sha1 type = Some (st', obj) \<and> os_ok word st'
    \<and> o_sha1 obj = sha1 \<and> o_type obj = type \<and> os_map st' = (os_map st)(sha1 \<mapsto> obj)"
proof -
  define obj where "obj = \<lparr>o_sha1 = sha1, o_type = type, o_parsed = False, o_used = False, o_flags = 0\<rparr>"
  obtain st1 where st1: "(if int (length (os_hash st)) - 1 \<le> int (os_nr st) * 2 then grow_object_hash word st else Some st) = Some st1"
    "os_ok word st1" "occ (os_hash st1) + 1 < length (os_hash st1)" "os_map st1 = os_map st"
  proof (cases "int (length (os_hash st)) - 1 \<le> int (os_nr st) * 2")
    case True
    with grow_object_hash_ok [OF ok] that show ?thesis by auto
  next
    case False
    with ok that [of st] show ?thesis by (auto simp: os_ok_def)
  qed
  obtain tab where tab: "insert_obj_hash word obj (os_hash st1) = Some tab"
    "tab_ok (hashtable_index word) o_sha1 tab" "length tab = length (os_hash st1)"
    "occ tab = Suc (occ (os_hash st1))" "tab_map o_sha1 tab = (tab_map o_sha1 (os_hash st1))(sha1 \<mapsto> obj)"
    using insert_obj_hash_ok [of word "os_hash st1" obj] st1 new by (auto simp: os_ok_def os_map_def obj_def)
  have "create_object word st sha1 type = Some (\<lparr>os_nr = os_nr st1 + 1, os_hash = tab\<rparr>, obj)"
    using st1(1) tab(1) by (simp add: create_object_def Let_def flip: obj_def)
  moreover have "os_ok word \<lparr>os_nr = os_nr st1 + 1, os_hash = tab\<rparr>"
    using tab st1(2,3) by (auto simp: os_ok_def)
  moreover have "os_map \<lparr>os_nr = os_nr st1 + 1, os_hash = tab\<rparr> = (os_map st)(sha1 \<mapsto> obj)"
    using tab(5) st1(4) by (simp add: os_map_def)
  ultimately show ?thesis by (auto simp: obj_def)
qed

subsection \<open>Properties\<close>

text \<open>C29. Adding any sequence of decorations to an empty table always ends, through every growth of
  the table, and afterwards every object has the decoration that was added for it last, or none.\<close>

theorem decorations_last_wins:
  "\<exists>n. fold (\<lambda>(obj, d) n. Option.bind n (\<lambda>n. map_option fst (add_decoration word n obj d))) kvs
      (Some \<lparr>dc_nr = 0, dc_hash = []\<rparr>) = Some n
    \<and> (\<forall>obj. lookup_decoration word n obj = Some (map_of (rev kvs) obj))"
proof -
  let ?n0 = "\<lparr>dc_nr = 0, dc_hash = []\<rparr>"
  have upd: "fold (\<lambda>(obj, d) n. Option.bind n (\<lambda>n. map_option fst (add_decoration word n obj d))) kvs m
      = Option.bind m (decorations.updates word kvs)" for m
    by (induction kvs arbitrary: m) (auto split: option.split bind_splits)
  have ok0: "dc_ok word ?n0" by (simp add: dc_ok_def tab_ok_def)
  obtain n where n: "decorations.updates word kvs ?n0 = Some n" "dc_ok word n"
    "(\<lambda>obj. the (lookup_decoration word n obj)) = (\<lambda>obj. the (lookup_decoration word ?n0 obj)) ++ map_of (rev kvs)"
    using decorations.updates_ok [OF ok0] by blast
  have "dc_map n = map_of (rev kvs)"
    using n(3) unfolding lookup_decoration_map [OF n(2)] lookup_decoration_map [OF ok0]
    by (simp add: dc_map_def map_add_def fun_eq_iff split: option.splits)
  with n(1) lookup_decoration_ok [OF n(2)] show ?thesis by (simp add: upd)
qed

text \<open>In a well-formed table of \<open>hash.c\<close> a search always ends; inserting a pointer either
  finds the slot of an earlier pointer with the same hash and changes nothing else, or makes this
  pointer the only change to the map; the table stays well-formed, with a free slot.\<close>

theorem insert_hash_refines_map:
  assumes "ht_ok t"
  shows "\<exists>t' pos. insert_hash hash ptr t = Some (t', pos) \<and> ht_ok t'
    \<and> (case pos of
         None \<Rightarrow> lookup_hash hash t = Some None
           \<and> (\<forall>h. lookup_hash h t' = (if h = hash then Some (Some ptr) else lookup_hash h t))
       | Some j \<Rightarrow> j < length (ht_array t') \<and> lookup_hash hash t = Some (map_option snd (ht_array t' ! j))
           \<and> (\<forall>h. lookup_hash h t' = lookup_hash h t))"
proof -
  obtain t' pos where "insert_hash hash ptr t = Some (t', pos)" "ht_ok t'" "case pos of
       None \<Rightarrow> ht_map t hash = None \<and> ht_map t' = (ht_map t)(hash \<mapsto> ptr)
     | Some j \<Rightarrow> ht_map t' = ht_map t \<and> j < length (ht_array t') \<and> map_option snd (ht_array t' ! j) = ht_map t hash
         \<and> ht_map t hash \<noteq> None" using insert_hash_ok [OF assms] by blast
  with assms show ?thesis
    by (intro exI [of _ t'] exI [of _ pos]) (auto simp: lookup_hash_ok split: option.splits)
qed

theorem insert_hash_refines_map_witness:
  "\<exists>t' pos. insert_hash 7 ''a'' \<lparr>ht_nr = 0, ht_array = []\<rparr> = Some (t', pos) \<and> ht_ok t'
    \<and> (case pos of
         None \<Rightarrow> lookup_hash 7 (\<lparr>ht_nr = 0, ht_array = []\<rparr> :: string hash_table) = Some None
           \<and> (\<forall>h. lookup_hash h t' = (if h = 7 then Some (Some ''a'') else lookup_hash h \<lparr>ht_nr = 0, ht_array = []\<rparr>))
       | Some j \<Rightarrow> j < length (ht_array t')
           \<and> lookup_hash 7 \<lparr>ht_nr = 0, ht_array = []\<rparr> = Some (map_option snd (ht_array t' ! j))
           \<and> (\<forall>h. lookup_hash h t' = lookup_hash h \<lparr>ht_nr = 0, ht_array = []\<rparr>))"
  by (rule insert_hash_refines_map) (simp add: ht_ok_def tab_ok_def)

text \<open>C18. The object store gives one object per name: \<open>lookup_unknown_object\<close> always ends with an
  object of the asked name, a later lookup of that name finds this object, and every other name keeps
  its answer, across growth of the table.\<close>

theorem lookup_unknown_object_unique:
  assumes "os_ok word st"
  shows "\<exists>st' obj. lookup_unknown_object word st sha1 = Some (st', obj) \<and> os_ok word st' \<and> o_sha1 obj = sha1
    \<and> (\<forall>s. lookup_object word st' s = (if s = sha1 then Some (Some obj) else lookup_object word st s))"
proof (cases "os_map st sha1")
  case None
  with create_object_ok [OF assms None, of 0] obtain st' obj where
    "create_object word st sha1 0 = Some (st', obj)" "os_ok word st'" "o_sha1 obj = sha1"
    "os_map st' = (os_map st)(sha1 \<mapsto> obj)" by blast
  with None assms show ?thesis by (simp add: lookup_unknown_object_def lookup_object_ok)
next
  case (Some obj)
  then have "o_sha1 obj = sha1" using tab_map_SomeD unfolding os_map_def by fastforce
  with Some assms show ?thesis by (simp add: lookup_unknown_object_def lookup_object_ok)
qed

theorem lookup_unknown_object_unique_witness:
  "\<exists>st' obj. lookup_unknown_object (\<lambda>s. ucast (hd s)) \<lparr>os_nr = 0, os_hash = []\<rparr> [9, 9] = Some (st', obj)
    \<and> os_ok (\<lambda>s. ucast (hd s)) st' \<and> o_sha1 obj = [9, 9]
    \<and> (\<forall>s. lookup_object (\<lambda>s. ucast (hd s)) st' s
         = (if s = [9, 9] then Some (Some obj) else lookup_object (\<lambda>s. ucast (hd s)) \<lparr>os_nr = 0, os_hash = []\<rparr> s))"
  by (rule lookup_unknown_object_unique) (simp add: os_ok_def tab_ok_def)

end
