(* ===== verification/Quote.thy ===== *)
theory Quote
  imports Strbuf
begin

text \<open>
  The quoting of \<^verbatim>\<open>quote.c\<close>: shell quoting and the in-place inverse, C-style
  quoting of path names and its inverse, paths relative to a prefix, and quoting for the
  literals of other languages. C strings are HOL strings without the terminating NUL; where the
  code works in place the model works on the memory with its NUL bytes. Appending to a
  \<open>strbuf\<close> is appending to its contents, which is what theory \<open>Strbuf\<close> shows.
\<close>

abbreviation (input) NUL :: char where "NUL \<equiv> CHR 0x00"
abbreviation (input) SQ :: char where "SQ \<equiv> CHR 0x27"
abbreviation (input) DQ :: char where "DQ \<equiv> CHR 0x22"
abbreviation (input) BSL :: char where "BSL \<equiv> CHR 0x5C"

definition strcspn :: "string \<Rightarrow> string \<Rightarrow> nat" where
  "strcspn s reject = length (takeWhile (\<lambda>c. c \<notin> set reject) s)"

subsection \<open>Shell quoting\<close>

definition need_bs_quote :: "char \<Rightarrow> bool" where
  "need_bs_quote c = (c = SQ \<or> c = CHR ''!'')"

text \<open>The inner loop: the quoted text of a run of special characters, and what follows it.\<close>

fun bs_quote_run :: "string \<Rightarrow> string \<times> string" where
  "bs_quote_run src = (case src of [] \<Rightarrow> ([], [])
     | c # src' \<Rightarrow> if need_bs_quote c
         then (let (dst, src) = bs_quote_run src' in ([SQ, BSL] @ [c] @ [SQ] @ dst, src))
         else ([], src))"

declare bs_quote_run.simps [simp del]

lemma bs_quote_run_length: "length (snd (bs_quote_run src)) \<le> length src"
  by (induction src rule: bs_quote_run.induct)
    (subst bs_quote_run.simps, auto simp: Let_def le_Suc_eq split: list.split prod.split)

lemma bs_quote_run_progress: "src \<noteq> [] \<Longrightarrow> need_bs_quote (hd src) \<Longrightarrow> length (snd (bs_quote_run src)) < length src"
  using bs_quote_run_length [of "tl src"]
  by (cases src; cases "bs_quote_run (tl src)") (simp_all add: bs_quote_run.simps [of "x # xs" for x xs] Let_def)

function sq_quote_loop :: "string \<Rightarrow> string \<Rightarrow> string" where
  "sq_quote_loop dst src = (if src = [] then dst
     else let len = strcspn src [SQ, CHR ''!'']; dst = dst @ take len src; src = drop len src;
        (bs, src) = bs_quote_run src in sq_quote_loop (dst @ bs) src)"
  by pat_completeness auto
termination
proof (relation "measure (\<lambda>(dst, src). length src)", goal_cases)
  case (2 dst src len d1 s1 r bs s2)
  show ?case
  proof (cases "len = 0")
    case False
    then have "length s1 < length src" using 2 by (cases src) simp_all
    then show ?thesis using 2 bs_quote_run_length [of s1] by (metis in_measure order_le_less_trans prod.case snd_conv)
  next
    case True
    then have "s1 = src" "need_bs_quote (hd src)"
      using 2 by (cases src, auto simp: strcspn_def need_bs_quote_def split: if_splits)+
    then show ?thesis using 2 bs_quote_run_progress [of src] by (metis in_measure prod.case snd_conv)
  qed
qed simp

declare sq_quote_loop.simps [simp del]

text \<open>\<open>aliased\<close> is \<open>dst->buf == src\<close>: then the text is detached and the buffer emptied.\<close>

definition sq_quote_buf :: "bool \<Rightarrow> string \<Rightarrow> string \<Rightarrow> string" where
  "sq_quote_buf aliased dst src =
     (let dst = (if aliased then [] else dst) in sq_quote_loop (dst @ [SQ]) src @ [SQ])"

primrec sq_print_loop :: "string \<Rightarrow> string" where
  "sq_print_loop [] = []"
| "sq_print_loop (c # src) = (if need_bs_quote c then [SQ, BSL] @ [c] @ [SQ] else [c]) @ sq_print_loop src"

definition sq_quote_print :: "string \<Rightarrow> string" where
  "sq_quote_print src = [SQ] @ sq_print_loop src @ [SQ]"

fun sq_quote_argv :: "string \<Rightarrow> string list \<Rightarrow> nat \<Rightarrow> string read" where
  "sq_quote_argv dst [] maxlen = Got dst"
| "sq_quote_argv dst (arg # argv) maxlen =
     (let dst = sq_quote_buf False (dst @ [CHR '' '']) arg in
      if maxlen \<noteq> 0 \<and> length dst > maxlen then Bad else sq_quote_argv dst argv maxlen)"

subsection \<open>Removing shell quotes in place\<close>

text \<open>Reading a byte of the memory block.\<close>

definition rd :: "string \<Rightarrow> nat \<Rightarrow> (char \<Rightarrow> 'a read) \<Rightarrow> 'a read" where
  "rd m i k = (if i < length m then k (m ! i) else Overrun)"

lemma rd_cong [fundef_cong]:
  "m = m' \<Longrightarrow> i = i' \<Longrightarrow> (i' < length m' \<Longrightarrow> k (m' ! i') = k' (m' ! i')) \<Longrightarrow> rd m i k = rd m' i' k'"
  by (simp add: rd_def)

lemma rd_simp [simp]: "i < length m \<Longrightarrow> rd m i k = k (m ! i)"
  by (simp add: rd_def)

lemma write_at_length: "write_at m i s = Got m' \<Longrightarrow> length m' = length m"
  by (auto simp: write_at_def split: if_splits)

function skip_space :: "string \<Rightarrow> nat \<Rightarrow> nat read" where
  "skip_space m src = rd m (src + 1) (\<lambda>c. if isspace c then skip_space m (src + 1) else Got (src + 1))"
  by pat_completeness auto
termination by (relation "measure (\<lambda>(m, src). length m - src)") auto

declare skip_space.simps [simp del]

text \<open>What follows a closing quote other than the end or an escaped character.\<close>

definition sq_next_word :: "bool \<Rightarrow> string \<Rightarrow> nat \<Rightarrow> nat \<Rightarrow> (string \<times> nat option) read" where
  "sq_next_word has_next m dst src = rd m src (\<lambda>c.
     if \<not> has_next \<or> \<not> isspace c then Bad
     else and_then (skip_space m src) (\<lambda>src. and_then (write_at m dst [NUL]) (\<lambda>m. Got (m, Some src))))"

text \<open>
  The loop of \<open>sq_dequote_step\<close>: \<open>src\<close> is the character before the next to read,
  \<open>dst\<close> the place of the next character of the result. \<open>Bad\<close> is the NULL the function
  returns; the second component is what it stores through \<open>next\<close>.
\<close>

function sq_dequote_loop :: "bool \<Rightarrow> string \<Rightarrow> nat \<Rightarrow> nat \<Rightarrow> (string \<times> nat option) read" where
  "sq_dequote_loop has_next m dst src = rd m (src + 1) (\<lambda>c.
     if c = NUL then Bad
     else if c \<noteq> SQ then and_then (write_at m dst [c]) (\<lambda>m. sq_dequote_loop has_next m (dst + 1) (src + 1))
     else rd m (src + 2) (\<lambda>d.
       if d = NUL then and_then (write_at m dst [NUL]) (\<lambda>m. Got (m, None))
       else if d = BSL then rd m (src + 3) (\<lambda>c.
         if need_bs_quote c then rd m (src + 4) (\<lambda>e.
           if e = SQ then and_then (write_at m dst [c]) (\<lambda>m. sq_dequote_loop has_next m (dst + 1) (src + 4))
           else sq_next_word has_next m dst (src + 4))
         else sq_next_word has_next m dst (src + 3))
       else sq_next_word has_next m dst (src + 2)))"
  by pat_completeness auto
termination
  by (relation "measure (\<lambda>(has_next, m, dst, src). length m - src)") (auto dest!: write_at_length)

declare sq_dequote_loop.simps [simp del]

definition sq_dequote_step :: "bool \<Rightarrow> string \<Rightarrow> nat \<Rightarrow> (string \<times> nat option) read" where
  "sq_dequote_step has_next m arg = rd m arg (\<lambda>c. if c \<noteq> SQ then Bad else sq_dequote_loop has_next m arg arg)"

definition sq_dequote :: "string \<Rightarrow> nat \<Rightarrow> string read" where
  "sq_dequote m arg = and_then (sq_dequote_step False m arg) (\<lambda>(m, next). Got m)"

definition cstr_at :: "string \<Rightarrow> nat \<Rightarrow> string" where
  "cstr_at m p = takeWhile (\<lambda>c. c \<noteq> NUL) (drop p m)"

lemma skip_space_progress: "skip_space m src = Got n \<Longrightarrow> src < n \<and> n < length m"
proof (induction m src rule: skip_space.induct)
  case (1 m src)
  then show ?case
    by (cases "src + 1 < length m") (auto simp: skip_space.simps [of m src] rd_def split: if_splits)
qed

lemma sq_next_word_progress: "sq_next_word h m dst src = Got (m', nx)
    \<Longrightarrow> length m' = length m \<and> (\<forall>n. nx = Some n \<longrightarrow> src < n \<and> n < length m)"
  by (auto simp: sq_next_word_def rd_def and_then_Got dest!: skip_space_progress write_at_length split: if_splits)

lemma sq_dequote_loop_progress: "sq_dequote_loop h m dst src = Got (m', nx)
    \<Longrightarrow> length m' = length m \<and> (\<forall>n. nx = Some n \<longrightarrow> src < n \<and> n < length m)"
proof (induction h m dst src rule: sq_dequote_loop.induct)
  case (1 h m dst src)
  have w: "sq_next_word h m dst k = Got (m', nx) \<Longrightarrow> src < k \<Longrightarrow>
      length m' = length m \<and> (\<forall>n. nx = Some n \<longrightarrow> src < n \<and> n < length m)" for k
    using sq_next_word_progress [of h m dst k m' nx] by fastforce
  note prem = "1.prems" [unfolded sq_dequote_loop.simps [of h m dst src]]
  have a: "src + 1 < length m" "m ! (src + 1) \<noteq> NUL" using prem by (auto simp: rd_def split: if_splits)
  show ?case
  proof (cases "m ! (src + 1) = SQ")
    case False
    then obtain m1 where m1: "write_at m dst [m ! (src + 1)] = Got m1"
      "sq_dequote_loop h m1 (dst + 1) (src + 1) = Got (m', nx)" using prem a by (auto simp: and_then_Got)
    from "1.IH"(1) [OF a False m1] write_at_length [OF m1(1)] show ?thesis by fastforce
  next
    case True
    then have b: "src + 2 < length m" using prem a by (auto simp: rd_def split: if_splits)
    show ?thesis
    proof (cases "m ! (src + 2) = BSL")
      case False
      then show ?thesis
        using prem a b True w [of "src + 2"] by (auto simp: and_then_Got dest: write_at_length split: if_splits)
    next
      case bsl: True
      then have c: "src + 3 < length m" using prem a b True by (auto simp: rd_def split: if_splits)
      show ?thesis
      proof (cases "need_bs_quote (m ! (src + 3)) \<and> src + 4 < length m \<and> m ! (src + 4) = SQ")
        case False
        then show ?thesis
          using prem a b c True bsl w [of "src + 3"] w [of "src + 4"] by (auto simp: rd_def split: if_splits)
      next
        case esc: True
        then obtain m1 where m1: "write_at m dst [m ! (src + 3)] = Got m1"
          "sq_dequote_loop h m1 (dst + 1) (src + 4) = Got (m', nx)"
          using prem a b c True bsl by (auto simp: and_then_Got)
        from "1.IH"(2) [OF a _ b _ bsl c _ _ _ m1] True esc bsl write_at_length [OF m1(1)] show ?thesis by fastforce
      qed
    qed
  qed
qed

lemma sq_dequote_step_progress: "sq_dequote_step h m arg = Got (m', nx)
    \<Longrightarrow> length m' = length m \<and> (\<forall>n. nx = Some n \<longrightarrow> arg < n \<and> n < length m)"
  by (auto simp: sq_dequote_step_def rd_def dest: sq_dequote_loop_progress split: if_splits)

text \<open>The pointers stored in \<open>argv\<close> and the copies pushed on \<open>array\<close>; \<open>Bad\<close> is the
  result -1.\<close>

function sq_dequote_words :: "string \<Rightarrow> nat \<Rightarrow> nat list \<Rightarrow> string list \<Rightarrow> (string \<times> nat list \<times> string list) read" where
  "sq_dequote_words m next argv array =
     and_then (sq_dequote_step True m next) (\<lambda>(m, next').
       let argv = argv @ [next]; array = array @ [cstr_at m next] in
       case next' of None \<Rightarrow> Got (m, argv, array) | Some next' \<Rightarrow> sq_dequote_words m next' argv array)"
  by pat_completeness auto
termination
  by (relation "measure (\<lambda>(m, next, argv, array). length m - next)") (auto dest!: sq_dequote_step_progress)

declare sq_dequote_words.simps [simp del]

definition sq_dequote_to_argv_internal :: "string \<Rightarrow> nat \<Rightarrow> (string \<times> nat list \<times> string list) read" where
  "sq_dequote_to_argv_internal m arg = rd m arg (\<lambda>c.
     if c = NUL then Got (m, [], []) else sq_dequote_words m arg [] [])"

definition sq_dequote_to_argv :: "string \<Rightarrow> nat \<Rightarrow> (string \<times> nat list) read" where
  "sq_dequote_to_argv m arg = and_then (sq_dequote_to_argv_internal m arg) (\<lambda>(m, argv, array). Got (m, argv))"

definition sq_dequote_to_argv_array :: "string \<Rightarrow> nat \<Rightarrow> string list read" where
  "sq_dequote_to_argv_array m arg = and_then (sq_dequote_to_argv_internal m arg) (\<lambda>(m, argv, array). Got array)"

subsection \<open>Quoting and unquoting for the shell\<close>

lemma sq_print_loop_append: "sq_print_loop (s @ t) = sq_print_loop s @ sq_print_loop t"
  by (induction s) simp_all

lemma bs_quote_run_eq: "bs_quote_run src = (sq_print_loop (takeWhile need_bs_quote src), dropWhile need_bs_quote src)"
  by (induction src) (simp_all add: bs_quote_run.simps [of "[]"] bs_quote_run.simps [of "x # xs" for x xs])

lemma sq_print_loop_plain: "\<forall>c\<in>set s. \<not> need_bs_quote c \<Longrightarrow> sq_print_loop s = s"
  by (induction s) simp_all

lemma sq_quote_loop_eq: "sq_quote_loop dst src = dst @ sq_print_loop src"
proof (induction "length src" arbitrary: dst src rule: less_induct)
  case less
  show ?case
  proof (cases "src = []")
    case False
    let ?P = "\<lambda>c. c \<notin> set [SQ, CHR ''!'']"
    define a b where "a = takeWhile ?P src" and "b = dropWhile ?P src"
    have src: "src = a @ b" by (simp add: a_def b_def)
    have n: "take (strcspn src [SQ, CHR ''!'']) src = a" "drop (strcspn src [SQ, CHR ''!'']) src = b"
      unfolding strcspn_def a_def b_def
      by (rule takeWhile_eq_take [symmetric], rule dropWhile_eq_drop [symmetric])
    have "\<forall>c\<in>set a. \<not> need_bs_quote c"
      unfolding a_def by (auto dest!: set_takeWhileD simp: need_bs_quote_def)
    then have pa: "sq_print_loop a = a" by (rule sq_print_loop_plain)
    let ?c = "takeWhile need_bs_quote b" and ?d = "dropWhile need_bs_quote b"
    have "length ?d < length src"
    proof (cases b)
      case Nil
      then show ?thesis using False by simp
    next
      case (Cons x xs)
      then have "need_bs_quote x" by (simp add: b_def dropWhile_eq_Cons_conv need_bs_quote_def)
      then show ?thesis using Cons src length_dropWhile_le [of need_bs_quote xs] by simp
    qed
    from less [OF this] have "sq_quote_loop ((dst @ a) @ sq_print_loop ?c) ?d
      = ((dst @ a) @ sq_print_loop ?c) @ sq_print_loop ?d" .
    moreover have "sq_print_loop ?c @ sq_print_loop ?d = sq_print_loop b"
      by (simp flip: sq_print_loop_append)
    ultimately have "sq_quote_loop dst src = dst @ a @ sq_print_loop b"
      using False by (simp add: sq_quote_loop.simps [of dst src] Let_def n bs_quote_run_eq)
    moreover have "sq_print_loop src = a @ sq_print_loop b"
      by (subst src) (simp only: sq_print_loop_append pa)
    ultimately show ?thesis by simp
  qed (simp add: sq_quote_loop.simps)
qed

lemma sq_quote_buf_print: "sq_quote_buf aliased dst src = (if aliased then [] else dst) @ sq_quote_print src"
  by (simp add: sq_quote_buf_def sq_quote_print_def sq_quote_loop_eq)

lemma sq_quote_argv_eq: "sq_quote_argv dst argv 0 = Got (dst @ concat (map (\<lambda>a. CHR '' '' # sq_quote_print a) argv))"
  by (induction argv arbitrary: dst) (simp_all add: sq_quote_buf_print Let_def)

lemma drop_eq_nth: "drop i m = x # xs \<Longrightarrow> i < length m \<and> m ! i = x \<and> drop (Suc i) m = xs"
  by (metis drop_eq_Nil2 leI list.distinct(1) list.inject Cons_nth_drop_Suc)

lemma write_before: "dst \<le> src \<Longrightarrow> src < length m \<Longrightarrow> \<exists>m'. write_at m dst [c] = Got m' \<and> length m' = length m
    \<and> drop (Suc src) m' = drop (Suc src) m \<and> take (Suc dst) m' = take dst m @ [c]"
  by (auto simp: write_at_def min_def Suc_diff_le)

text \<open>
  One word: in front of the quoted text of \<open>s\<close> the loop writes \<open>s\<close> and a NUL over
  memory it has read already, and leaves what follows the closing quote alone.
\<close>

lemma sq_dequote_loop_word:
  assumes "drop (Suc src) m = sq_print_loop s @ SQ # R" "dst \<le> src" "src < length m" "NUL \<notin> set s"
    "R = NUL # R' \<and> nx = None \<or> R = CHR '' '' # SQ # R' \<and> h \<and> nx = Some (length m - length R + 1)"
  shows "\<exists>m'. sq_dequote_loop h m dst src = Got (m', nx) \<and> length m' = length m
    \<and> take (dst + length s + 1) m' = take dst m @ s @ [NUL] \<and> drop (length m - length R) m' = R"
  using assms
proof (induction s arbitrary: m dst src)
  case Nil
  then have d: "drop (Suc src) m = SQ # R" by simp
  note a = drop_eq_nth [OF d]
  have lR: "length m - length R = src + 2" using a arg_cong [OF d, of length] by simp
  obtain r R0 where R: "R = r # R0" using Nil.prems by auto
  have b: "src + 2 < length m" "m ! (src + 2) = r" "drop (src + 2) m = R" "drop (src + 3) m = R0"
    using a drop_eq_nth [of "src + 2" m r R0] R by (simp_all add: numeral_eq_Suc)
  from write_before [of dst src m NUL] Nil.prems obtain m' where
    m': "write_at m dst [NUL] = Got m'" "length m' = length m" "drop (Suc src) m' = drop (Suc src) m"
    "take (Suc dst) m' = take dst m @ [NUL]" by blast
  have keep: "drop (src + 2) m' = R"
    using m'(3) a drop_drop [of 1 "Suc src" m'] drop_drop [of 1 "Suc src" m] by simp
  show ?case
  proof (cases "r = NUL")
    case True
    then have "nx = None" using Nil.prems(5) R by auto
    then show ?thesis using a b True m' keep lR
      by (intro exI [of _ m']) (simp add: sq_dequote_loop.simps [of h m dst src])
  next
    case False
    then have R': "R = CHR '' '' # SQ # R'" "h" "nx = Some (length m - length R + 1)" using Nil.prems(5) R by auto
    then have c: "src + 3 < length m" "m ! (src + 3) = SQ"
      using drop_eq_nth [of "src + 3" m SQ R'] b R by simp_all
    have "skip_space m (src + 2) = Got (src + 3)"
      using c by (simp add: skip_space.simps [of m "Suc (Suc src)"] isspace_iff numeral_eq_Suc)
    then have "sq_next_word h m dst (src + 2) = Got (m', Some (src + 3))"
      using R' R b m' by (simp add: sq_next_word_def isspace_iff)
    then show ?thesis using a b False R' R m' keep lR
      by (intro exI [of _ m']) (simp add: sq_dequote_loop.simps [of True m dst src] numeral_eq_Suc)
  qed
next
  case (Cons c s)
  define k where "k = (if need_bs_quote c then 4 else 1 :: nat)"
  have c0: "c \<noteq> NUL" using Cons.prems(4) by auto
  have len: "src + k < length m" and d: "drop (Suc (src + k)) m = sq_print_loop s @ SQ # R"
  proof -
    have t: "drop k (drop (Suc src) m) = sq_print_loop s @ SQ # R" "k < length (drop (Suc src) m)"
      unfolding Cons.prems(1) by (simp_all add: k_def)
    show "src + k < length m" using t(2) by simp
    show "drop (Suc (src + k)) m = sq_print_loop s @ SQ # R" using t(1) by (simp add: add.commute)
  qed
  from write_before [of dst src m c] Cons.prems obtain m1 where
    m1: "write_at m dst [c] = Got m1" "length m1 = length m" "drop (Suc src) m1 = drop (Suc src) m"
    "take (Suc dst) m1 = take dst m @ [c]" by blast
  have "drop (Suc (src + k)) m1 = drop (Suc (src + k)) m"
    using m1(3) drop_drop [of k "Suc src" m1] drop_drop [of k "Suc src" m] by (simp add: add.commute)
  then have d1: "drop (Suc (src + k)) m1 = sq_print_loop s @ SQ # R" using d by simp
  have "dst + 1 \<le> src + k" "NUL \<notin> set s" using Cons.prems by (simp_all add: k_def)
  from Cons.IH [OF d1 this(1) _ this(2)] Cons.prems(5) len m1(2) obtain m' where
    m': "sq_dequote_loop h m1 (dst + 1) (src + k) = Got (m', nx)" "length m' = length m"
    "take (dst + 1 + length s + 1) m' = take (dst + 1) m1 @ s @ [NUL]" "drop (length m - length R) m' = R"
    by auto
  have "sq_dequote_loop h m dst src = sq_dequote_loop h m1 (dst + 1) (src + k)"
  proof (cases "need_bs_quote c")
    case False
    then have "drop (Suc src) m = c # sq_print_loop s @ SQ # R" using Cons.prems(1) by simp
    note a = drop_eq_nth [OF this]
    have "c \<noteq> SQ" using False by (simp add: need_bs_quote_def)
    then show ?thesis using a c0 False m1(1)
      by (simp add: sq_dequote_loop.simps [of h m dst src] k_def)
  next
    case True
    then have "drop (Suc src) m = SQ # BSL # c # SQ # sq_print_loop s @ SQ # R" using Cons.prems(1) by simp
    note a = drop_eq_nth [OF this]
    note b = drop_eq_nth [OF a [THEN conjunct2, THEN conjunct2]]
    note c = drop_eq_nth [OF b [THEN conjunct2, THEN conjunct2]]
    note d = drop_eq_nth [OF c [THEN conjunct2, THEN conjunct2]]
    show ?thesis using a b c d True m1(1)
      by (simp add: sq_dequote_loop.simps [of h m dst src] k_def numeral_eq_Suc)
  qed
  with m' m1(4) show ?case by simp
qed

lemma cstr_at_word:
  assumes "take (p + length s + 1) m = take p m0 @ s @ [NUL]" "p \<le> length m0" "NUL \<notin> set s"
  shows "cstr_at m p = s"
proof -
  have "m = (take p m0 @ s @ [NUL]) @ drop (p + length s + 1) m"
    by (metis append_take_drop_id assms(1))
  then have "drop p m = drop p (take p m0 @ s @ NUL # drop (p + length s + 1) m)" by simp
  also have "\<dots> = s @ NUL # drop (p + length s + 1) m" using assms(2) by simp
  finally show ?thesis using assms(3) unfolding cstr_at_def by simp (subst takeWhile_append2, auto)
qed

lemma sq_dequote_step_word:
  assumes "drop arg m = sq_quote_print s @ R" "NUL \<notin> set s"
    "R = NUL # R' \<and> nx = None \<or> R = CHR '' '' # SQ # R' \<and> h \<and> nx = Some (length m - length R + 1)"
  shows "\<exists>m'. sq_dequote_step h m arg = Got (m', nx) \<and> length m' = length m
    \<and> take (arg + length s + 1) m' = take arg m @ s @ [NUL] \<and> drop (length m - length R) m' = R
    \<and> cstr_at m' arg = s"
proof -
  have "drop arg m = SQ # sq_print_loop s @ SQ # R" using assms(1) by (simp add: sq_quote_print_def)
  note a = drop_eq_nth [OF this]
  from sq_dequote_loop_word [OF a [THEN conjunct2, THEN conjunct2] le_refl _ assms(2) assms(3)] a obtain m' where
    m': "sq_dequote_loop h m arg arg = Got (m', nx)" "length m' = length m"
    "take (arg + length s + 1) m' = take arg m @ s @ [NUL]" "drop (length m - length R) m' = R" by blast
  have "cstr_at m' arg = s" by (rule cstr_at_word [OF m'(3) _ assms(2)]) (use a in simp)
  with m' a show ?thesis by (simp add: sq_dequote_step_def)
qed

lemma sq_dequote_words_ok:
  assumes "drop nxt m = sq_quote_print a @ concat (map (\<lambda>a. CHR '' '' # sq_quote_print a) as) @ NUL # Z"
    "\<forall>s \<in> set (a # as). NUL \<notin> set s"
  shows "\<exists>m' ps. sq_dequote_words m nxt argv array = Got (m', argv @ ps, array @ a # as)
    \<and> length m' = length m \<and> take nxt m' = take nxt m \<and> map (cstr_at m') ps = a # as"
  using assms
proof (induction as arbitrary: m nxt a argv array)
  case Nil
  then have "drop nxt m = sq_quote_print a @ NUL # Z" "NUL \<notin> set a" by simp_all
  from sq_dequote_step_word [OF this, of Z None True] obtain m' where
    m': "sq_dequote_step True m nxt = Got (m', None)" "length m' = length m"
    "take (nxt + length a + 1) m' = take nxt m @ a @ [NUL]" "cstr_at m' nxt = a" by auto
  have "nxt \<le> length m" using drop_eq_Nil2 [of nxt m] Nil by (cases "nxt \<le> length m") (simp_all add: sq_quote_print_def)
  then have "take nxt m' = take nxt m"
    using arg_cong [OF m'(3), of "take nxt"] by simp
  then show ?case using m'
    by (intro exI [of _ m'] exI [of _ "[nxt]"]) (simp add: sq_dequote_words.simps [of m nxt])
next
  case (Cons b as)
  let ?Q = "concat (map (\<lambda>a. CHR '' '' # sq_quote_print a) as) @ NUL # Z"
  let ?R = "CHR '' '' # sq_quote_print b @ ?Q"
  have d: "drop nxt m = sq_quote_print a @ ?R" and a: "NUL \<notin> set a" using Cons.prems by simp_all
  have R: "?R = CHR '' '' # SQ # (sq_print_loop b @ SQ # ?Q)" by (simp add: sq_quote_print_def)
  define n where "n = length m - length ?R + 1"
  from sq_dequote_step_word [OF d a, of _ "Some n" True] R n_def obtain m1 where
    m1: "sq_dequote_step True m nxt = Got (m1, Some n)" "length m1 = length m"
    "take (nxt + length a + 1) m1 = take nxt m @ a @ [NUL]" "drop (length m - length ?R) m1 = ?R"
    "cstr_at m1 nxt = a" by blast
  have len: "nxt + length a + 2 + length ?R \<le> length m"
  proof -
    have q: "length a \<le> length (sq_print_loop a)" by (induction a) simp_all
    have "length m - nxt = length (sq_print_loop a) + 2 + length ?R"
      using arg_cong [OF d, of length] unfolding sq_quote_print_def length_append length_drop by simp
    then show ?thesis using q by linarith
  qed
  have dn: "drop n m1 = sq_quote_print b @ ?Q"
    using arg_cong [OF m1(4), of "drop 1"] unfolding n_def by (simp add: drop_drop)
  from Cons.IH [OF dn] Cons.prems(2) obtain m' ps where
    m': "sq_dequote_words m1 n (argv @ [nxt]) (array @ [a]) = Got (m', (argv @ [nxt]) @ ps, (array @ [a]) @ b # as)"
    "length m' = length m1" "take n m' = take n m1" "map (cstr_at m') ps = b # as" by (metis list.set_intros(2))
  have n: "nxt + length a + 1 \<le> n" using len unfolding n_def by linarith
  have "take (nxt + length a + 1) m' = take (nxt + length a + 1) (take n m')" using n by (simp add: min_def)
  also have "\<dots> = take (nxt + length a + 1) m1" using n m'(3) by (simp add: min_def)
  finally have t: "take (nxt + length a + 1) m' = take nxt m @ a @ [NUL]" using m1(3) by simp
  have nl: "nxt \<le> length m" using len by simp
  have "cstr_at m' nxt = a" by (rule cstr_at_word [OF t nl a])
  moreover have "take nxt m' = take nxt m" using arg_cong [OF t, of "take nxt"] nl by (simp add: min_def)
  moreover have "sq_dequote_words m nxt argv array = Got (m', argv @ nxt # ps, array @ a # b # as)"
    using m1 m'(1) by (simp add: sq_dequote_words.simps [of m nxt])
  ultimately show ?case using m'(2,4) m1(2) by (intro exI [of _ m'] exI [of _ "nxt # ps"]) simp
qed

text \<open>C21. Arguments quoted by \<open>sq_quote_argv\<close> come back from the in-place parser of the same
  file: past the leading space, the text is accepted, the pointers it stores and the copies it pushes
  spell the original arguments, and unquoting a word has overwritten neither an earlier word nor
  text that was still to be read.\<close>

theorem sq_quote_argv_roundtrip:
  assumes "argv \<noteq> []" "\<forall>s \<in> set argv. NUL \<notin> set s"
  shows "\<exists>q m ps. sq_quote_argv [] argv 0 = Got (CHR '' '' # q)
    \<and> sq_dequote_to_argv (q @ [NUL]) 0 = Got (m, ps) \<and> map (cstr_at m) ps = argv
    \<and> sq_dequote_to_argv_array (q @ [NUL]) 0 = Got argv"
proof -
  obtain a as where argv: "argv = a # as" using assms(1) by (cases argv) auto
  let ?q = "sq_quote_print a @ concat (map (\<lambda>a. CHR '' '' # sq_quote_print a) as)"
  have "drop 0 (?q @ [NUL]) = sq_quote_print a @ concat (map (\<lambda>a. CHR '' '' # sq_quote_print a) as) @ NUL # []"
    by simp
  from sq_dequote_words_ok [OF this, of "[]" "[]"] assms(2) argv obtain m ps where
    w: "sq_dequote_words (?q @ [NUL]) 0 [] [] = Got (m, ps, argv)" "map (cstr_at m) ps = argv" by auto
  have "sq_dequote_to_argv_internal (?q @ [NUL]) 0 = Got (m, ps, argv)"
    using w(1) by (simp add: sq_dequote_to_argv_internal_def sq_quote_print_def)
  then show ?thesis using w(2) argv
    by (intro exI [of _ ?q] exI [of _ m] exI [of _ ps])
      (simp add: sq_quote_argv_eq sq_dequote_to_argv_def sq_dequote_to_argv_array_def)
qed

theorem sq_quote_argv_roundtrip_witness:
  "\<exists>q. sq_quote_argv [] [[CHR ''a'', SQ, CHR '' ''], ''b!'', []] 0 = Got (CHR '' '' # q)
    \<and> sq_dequote_to_argv_array (q @ [NUL]) 0 = Got [[CHR ''a'', SQ, CHR '' ''], ''b!'', []]"
  using sq_quote_argv_roundtrip [of "[[CHR ''a'', SQ, CHR '' ''], ''b!'', []]"] by auto

text \<open>A word is also ended by a backslash that escapes nothing, as long as a space comes right
  behind it: the two characters in front of the nxt word are dropped, although no quoting routine
  writes them.\<close>

theorem sq_dequote_stray_backslash:
  "sq_dequote_to_argv_array (SQ # ''a'' @ [SQ, BSL, CHR '' '', SQ] @ ''b'' @ [SQ, NUL]) 0 = Got [''a'', ''b'']"
  by (simp add: sq_dequote_to_argv_array_def sq_dequote_to_argv_internal_def rd_def cstr_at_def write_at_def
      sq_dequote_step_def sq_next_word_def need_bs_quote_def isspace_iff sq_dequote_words.simps [of "_ # _"]
      sq_dequote_loop.simps [of _ "_ # _"] skip_space.simps [of "_ # _"])

subsection \<open>C-style quoting\<close>

definition sq_lookup :: "int list" where
  "sq_lookup =
    [1, 1, 1, 1, 1, 1, 1, of_char (CHR ''a''),
     of_char (CHR ''b''), of_char (CHR ''t''), of_char (CHR ''n''), of_char (CHR ''v''),
     of_char (CHR ''f''), of_char (CHR ''r''), 1, 1]
    @ replicate 16 1
    @ [- 1, - 1, of_char DQ, - 1, - 1, - 1, - 1, - 1]
    @ replicate 48 (- 1)
    @ [- 1, - 1, - 1, - 1, of_char BSL, - 1, - 1, - 1]
    @ replicate 24 (- 1)
    @ [- 1, - 1, - 1, - 1, - 1, - 1, - 1, 1]
    @ replicate 128 0"

text \<open>\<open>fully\<close> is the configuration variable \<open>quote_path_fully\<close>.\<close>

definition sq_must_quote :: "bool \<Rightarrow> char \<Rightarrow> bool" where
  "sq_must_quote fully c = (sq_lookup ! of_char c + of_bool fully > 0)"

text \<open>A C string ends in a NUL, which must be quoted, so both loops stop at it.\<close>

primrec quote_pos_unbounded :: "bool \<Rightarrow> string \<Rightarrow> nat" where
  "quote_pos_unbounded fully [] = 0"
| "quote_pos_unbounded fully (c # s) = (if \<not> sq_must_quote fully c then Suc (quote_pos_unbounded fully s) else 0)"

primrec quote_pos_bounded :: "bool \<Rightarrow> nat \<Rightarrow> string \<Rightarrow> nat" where
  "quote_pos_bounded fully maxlen [] = 0"
| "quote_pos_bounded fully maxlen (c # s) =
     (if 0 < maxlen \<and> \<not> sq_must_quote fully c then Suc (quote_pos_bounded fully (maxlen - 1) s) else 0)"

definition next_quote_pos :: "bool \<Rightarrow> string \<Rightarrow> int \<Rightarrow> nat" where
  "next_quote_pos fully s maxlen = (if maxlen < 0 then quote_pos_unbounded fully s
     else quote_pos_bounded fully (nat maxlen) s)"

definition quote_escape :: "char \<Rightarrow> string" where
  "quote_escape ch = (let n = of_char ch :: nat in
     if sq_lookup ! n \<ge> 32 then [char_of (sq_lookup ! n)]
     else [char_of ((drop_bit 6 n AND 3) + 48), char_of ((drop_bit 3 n AND 7) + 48), char_of ((n AND 7) + 48)])"

text \<open>
  The loop of \<open>quote_c_style_counted\<close>: the text emitted so far to the buffer or the stream is
  \<open>out\<close>, \<open>first\<close> is \<open>p == name\<close>. The result is the whole text and the return value,
  the length of the text or 0.
\<close>

lemma quote_pos_bounded_le: "quote_pos_bounded fully maxlen s \<le> maxlen"
proof (induction s arbitrary: maxlen)
  case (Cons c s)
  from Cons.IH [of "maxlen - 1"] show ?case by (cases maxlen) simp_all
qed simp

lemma next_quote_pos_le: "0 \<le> maxlen \<Longrightarrow> int (next_quote_pos fully s maxlen) \<le> maxlen"
  using quote_pos_bounded_le [of fully "nat maxlen" s] by (simp add: next_quote_pos_def)

function quote_c_loop :: "bool \<Rightarrow> bool \<Rightarrow> bool \<Rightarrow> string \<Rightarrow> int \<Rightarrow> string \<Rightarrow> string \<times> nat" where
  "quote_c_loop fully no_dq first p maxlen out =
     (let len = next_quote_pos fully p maxlen in
      if int len = maxlen \<or> maxlen < 0 \<and> drop len p = []
      then let out = out @ take len p in
        if first then (out, 0)
        else let out = (if \<not> no_dq then out @ [DQ] else out) in (out, length out)
      else let out = (if \<not> no_dq \<and> first then out @ [DQ] else out) @ take len p @ [BSL];
             ch = cstr_hd (drop len p); p = drop (len + 1) p;
             maxlen = (if maxlen \<ge> 0 then maxlen - (int len + 1) else maxlen)
        in quote_c_loop fully no_dq False p maxlen (out @ quote_escape ch))"
  by pat_completeness auto
termination
proof (relation "measure (\<lambda>(fully, no_dq, first, p, maxlen, out). length p + nat maxlen)", goal_cases)
  case (2 fully no_dq first p maxlen out)
  then show ?case using next_quote_pos_le [of maxlen fully p] by (auto simp: not_less)
qed simp

declare quote_c_loop.simps [simp del]

definition quote_c_style_counted :: "bool \<Rightarrow> string \<Rightarrow> int \<Rightarrow> bool \<Rightarrow> string \<times> nat" where
  "quote_c_style_counted fully name maxlen no_dq = quote_c_loop fully no_dq True name maxlen []"

definition quote_c_style :: "bool \<Rightarrow> string \<Rightarrow> bool \<Rightarrow> string \<times> nat" where
  "quote_c_style fully name nodq = quote_c_style_counted fully name (- 1) nodq"

definition quote_two_c_style :: "bool \<Rightarrow> string \<Rightarrow> string \<Rightarrow> string \<Rightarrow> bool \<Rightarrow> string" where
  "quote_two_c_style fully sb prefix path nodq =
     (if snd (quote_c_style fully prefix False) \<noteq> 0 \<or> snd (quote_c_style fully path False) \<noteq> 0
      then sb @ (if \<not> nodq then [DQ] else []) @ fst (quote_c_style fully prefix True)
        @ fst (quote_c_style fully path True) @ (if \<not> nodq then [DQ] else [])
      else sb @ prefix @ path)"

definition write_name_quoted :: "bool \<Rightarrow> string \<Rightarrow> char \<Rightarrow> string" where
  "write_name_quoted fully name terminator =
     (if terminator \<noteq> NUL then fst (quote_c_style fully name False) else name) @ [terminator]"

definition write_name_quotedpfx :: "bool \<Rightarrow> string \<Rightarrow> nat \<Rightarrow> string \<Rightarrow> char \<Rightarrow> string" where
  "write_name_quotedpfx fully pfx pfxlen name terminator =
     (let needquote = (terminator \<noteq> NUL \<and> (next_quote_pos fully pfx (int pfxlen) < pfxlen
          \<or> drop (next_quote_pos fully name (- 1)) name \<noteq> [])) in
      (if needquote then [DQ] @ fst (quote_c_style_counted fully pfx (int pfxlen) True)
          @ fst (quote_c_style fully name True) @ [DQ]
       else take pfxlen pfx @ name) @ [terminator])"

subsection \<open>Removing C-style quotes\<close>

text \<open>What stands behind a backslash: the character meant and the text behind it.\<close>

definition unquote_escape :: "string \<Rightarrow> (char \<times> string) option" where
  "unquote_escape quoted =
     (let ch = cstr_hd quoted; q = tl quoted in
      if ch = CHR ''a'' then Some (CHR 0x07, q)
      else if ch = CHR ''b'' then Some (CHR 0x08, q)
      else if ch = CHR ''f'' then Some (CHR 0x0C, q)
      else if ch = CHR ''n'' then Some (CHR 0x0A, q)
      else if ch = CHR ''r'' then Some (CHR 0x0D, q)
      else if ch = CHR ''t'' then Some (CHR 0x09, q)
      else if ch = CHR ''v'' then Some (CHR 0x0B, q)
      else if ch = BSL \<or> ch = DQ then Some (ch, q)
      else let n = (of_char ch :: nat) in if 48 \<le> n \<and> n \<le> 51
        then let ac = push_bit 6 (n - 48); n = (of_char (cstr_hd q) :: nat); q = tl q in
          if n < 48 \<or> 55 < n then None
          else let ac = ac OR push_bit 3 (n - 48); n = (of_char (cstr_hd q) :: nat); q = tl q in
            if n < 48 \<or> 55 < n then None else Some (char_of (ac OR (n - 48)), q)
        else None)"

lemma unquote_escape_shorter: "unquote_escape q = Some (c, r) \<Longrightarrow> q \<noteq> [] \<Longrightarrow> length r < length q"
  by (auto simp: unquote_escape_def Let_def split: if_splits)

text \<open>The result: 0, the buffer and the text behind the closing quote, or -1 and the buffer
  set back to its old length.\<close>

function unquote_c_loop :: "nat \<Rightarrow> string \<Rightarrow> string \<Rightarrow> int \<times> string \<times> string option" where
  "unquote_c_loop oldlen sb quoted =
     (let len = strcspn quoted [DQ, BSL]; sb = sb @ take len quoted; quoted = drop len quoted in
      if cstr_hd quoted = DQ then (0, sb, Some (tl quoted))
      else if cstr_hd quoted = BSL then
        (case unquote_escape (tl quoted) of
           None \<Rightarrow> (- 1, take oldlen sb, None)
         | Some (ch, quoted) \<Rightarrow> unquote_c_loop oldlen (sb @ [ch]) quoted)
      else (- 1, take oldlen sb, None))"
  by pat_completeness auto
termination
proof (relation "measure (\<lambda>(oldlen, sb, quoted). length quoted)", goal_cases)
  case (2 oldlen sb quoted len sb1 q1 r ch q2)
  then have q1: "q1 \<noteq> []" by (cases q1) auto
  have "tl q1 \<noteq> []" using 2 by (cases "tl q1") (auto simp: unquote_escape_def)
  then have "length q2 < length (tl q1)" using 2 unquote_escape_shorter by fastforce
  moreover have "length q1 \<le> length quoted" using 2 by simp
  ultimately show ?case by simp
qed simp

declare unquote_c_loop.simps [simp del]

definition unquote_c_style :: "string \<Rightarrow> string \<Rightarrow> int \<times> string \<times> string option" where
  "unquote_c_style sb quoted = (if cstr_hd quoted \<noteq> DQ then (- 1, sb, None)
     else unquote_c_loop (length sb) sb (tl quoted))"

subsection \<open>Unquoting inverts quoting\<close>

lemma sq_lookup_special: "sq_lookup ! of_char c \<ge> 32 \<longleftrightarrow> (of_char c :: nat) \<in> set [7, 8, 9, 10, 11, 12, 13, 34, 92]"
proof -
  have "map (\<lambda>v. v \<ge> 32) sq_lookup = map (\<lambda>n. n \<in> set [7, 8, 9, 10, 11, 12, 13, 34, 92]) [0..<256]" by code_simp
  from table_entry [OF this] show ?thesis by simp
qed

lemma sq_lookup_plain: "sq_lookup ! of_char c = - 1 \<longleftrightarrow>
    (let n = (of_char c :: nat) in 32 \<le> n \<and> n < 127 \<and> n \<noteq> 34 \<and> n \<noteq> 92)"
proof -
  have "map (\<lambda>v. v = - 1) sq_lookup = map (\<lambda>n. 32 \<le> n \<and> n < 127 \<and> n \<noteq> 34 \<and> n \<noteq> 92) [0..<256]" by code_simp
  from table_entry [OF this] show ?thesis by (simp add: Let_def)
qed

lemma sq_lookup_octal: "sq_lookup ! of_char c = 0 \<longleftrightarrow> 128 \<le> (of_char c :: nat)"
proof -
  have "map (\<lambda>v. v = 0) sq_lookup = map (\<lambda>n. 128 \<le> n) [0..<256]" by code_simp
  from table_entry [OF this] show ?thesis by simp
qed

lemma sq_lookup_ge: "sq_lookup ! of_char c \<ge> - 1"
proof -
  have "map (\<lambda>v. v \<ge> - 1) sq_lookup = map (\<lambda>n. True) [0..<256]" by code_simp
  from table_entry [OF this] show ?thesis by simp
qed

text \<open>Exactly the printable characters other than quote and backslash stay as they are, and
  bytes above 127 when paths are not quoted fully.\<close>

lemma sq_must_quote_iff: "sq_must_quote fully c \<longleftrightarrow> (let n = (of_char c :: nat) in
    n < 32 \<or> n = 34 \<or> n = 92 \<or> n = 127 \<or> fully \<and> 128 \<le> n)"
proof -
  let ?v = "sq_lookup ! of_char c"
  have "?v + of_bool fully > 0 \<longleftrightarrow> ?v \<noteq> - 1 \<and> (?v = 0 \<longrightarrow> fully)"
    using sq_lookup_ge [of c] by (cases fully) auto
  then show ?thesis by (auto simp: sq_must_quote_def sq_lookup_plain sq_lookup_octal Let_def)
qed

lemma octal_digits:
  assumes "n < 256"
  shows "drop_bit 6 n AND 3 = n div 64" "drop_bit 3 n AND 7 = n div 8 mod 8" "n AND 7 = n mod 8"
    "(push_bit 6 (n div 64) OR push_bit 3 (n div 8 mod 8)) OR n mod 8 = (n :: nat)"
proof -
  have m: "x AND 3 = take_bit 2 x" "x AND 7 = take_bit 3 x" for x :: nat
    by (simp_all add: take_bit_eq_mask mask_eq_exp_minus_1)
  show "drop_bit 6 n AND 3 = n div 64"
    unfolding m using assms by (simp add: drop_bit_eq_div take_bit_eq_mod)
  show "drop_bit 3 n AND 7 = n div 8 mod 8" "n AND 7 = n mod 8"
    unfolding m by (simp_all add: drop_bit_eq_div take_bit_eq_mod)
  have "push_bit 6 (drop_bit 6 n) OR push_bit 3 (take_bit 3 (drop_bit 3 n)) OR take_bit 3 n = n"
  proof (rule bit_eqI)
    fix k
    show "bit (push_bit 6 (drop_bit 6 n) OR push_bit 3 (take_bit 3 (drop_bit 3 n)) OR take_bit 3 n) k = bit n k"
      by (cases "k < 3"; cases "k < 6") (auto simp: bit_simps)
  qed
  then show "(push_bit 6 (n div 64) OR push_bit 3 (n div 8 mod 8)) OR n mod 8 = n"
    by (simp add: drop_bit_eq_div take_bit_eq_mod or.assoc)
qed

lemma of_char_char_of_small: "n < 256 \<Longrightarrow> of_char (char_of n) = (n :: nat)"
  by simp

lemma unquote_simple:
  "unquote_escape (CHR ''a'' # r) = Some (CHR 0x07, r)" "unquote_escape (CHR ''b'' # r) = Some (CHR 0x08, r)"
  "unquote_escape (CHR ''t'' # r) = Some (CHR 0x09, r)" "unquote_escape (CHR ''n'' # r) = Some (CHR 0x0A, r)"
  "unquote_escape (CHR ''v'' # r) = Some (CHR 0x0B, r)" "unquote_escape (CHR ''f'' # r) = Some (CHR 0x0C, r)"
  "unquote_escape (CHR ''r'' # r) = Some (CHR 0x0D, r)" "unquote_escape (DQ # r) = Some (DQ, r)"
  "unquote_escape (BSL # r) = Some (BSL, r)"
  by (simp_all add: unquote_escape_def)

lemma quote_simple:
  "quote_escape (CHR 0x07) = ''a''" "quote_escape (CHR 0x08) = ''b''" "quote_escape (CHR 0x09) = ''t''"
  "quote_escape (CHR 0x0A) = ''n''" "quote_escape (CHR 0x0B) = ''v''" "quote_escape (CHR 0x0C) = ''f''"
  "quote_escape (CHR 0x0D) = ''r''" "quote_escape DQ = [DQ]" "quote_escape BSL = [BSL]"
  by code_simp+

lemma unquote_quote_escape: "unquote_escape (quote_escape c @ r) = Some (c, r)"
proof (cases "sq_lookup ! of_char c \<ge> 32")
  case True
  have m: "map char_of [7, 8, 9, 10, 11, 12, 13, 34, 92 :: nat]
      = [CHR 0x07, CHR 0x08, CHR 0x09, CHR 0x0A, CHR 0x0B, CHR 0x0C, CHR 0x0D, CHR 0x22, CHR 0x5C]" by code_simp
  have "char_of (of_char c :: nat) \<in> set (map char_of [7, 8, 9, 10, 11, 12, 13, 34, 92 :: nat])"
    unfolding set_map by (rule imageI) (use True sq_lookup_special in blast)
  then have "c \<in> set [CHR 0x07, CHR 0x08, CHR 0x09, CHR 0x0A, CHR 0x0B, CHR 0x0C, CHR 0x0D, CHR 0x22, CHR 0x5C]"
    unfolding m char_of_char .
  then consider "c = CHR 0x07" | "c = CHR 0x08" | "c = CHR 0x09" | "c = CHR 0x0A" | "c = CHR 0x0B" | "c = CHR 0x0C"
    | "c = CHR 0x0D" | "c = CHR 0x22" | "c = CHR 0x5C" unfolding list.set insert_iff empty_iff by blast
  then show ?thesis by cases (simp_all only: quote_simple append_Cons append_Nil unquote_simple)
next
  case False
  let ?n = "of_char c :: nat"
  have n: "?n < 256" by simp
  note o = octal_digits [OF n]
  let ?a = "?n div 64" and ?b = "?n div 8 mod 8" and ?c = "?n mod 8"
  have a: "?a < 4" by (rule less_mult_imp_div_less) (use n in linarith)
  have q: "quote_escape c = [char_of (?a + 48), char_of (?b + 48), char_of (?c + 48)]"
    using False by (simp only: quote_escape_def Let_def if_False o of_nat_of_char)
  have d: "(of_char (char_of (?a + 48)) :: nat) = ?a + 48" "(of_char (char_of (?b + 48)) :: nat) = ?b + 48"
    "(of_char (char_of (?c + 48)) :: nat) = ?c + 48"
    using a by (intro of_char_char_of_small, simp)+
  have "D \<notin> {CHR ''a'', CHR ''b'', CHR ''f'', CHR ''n'', CHR ''r'', CHR ''t'', CHR ''v'', BSL, DQ}"
    if "(of_char D :: nat) = ?a + 48" for D using that a by auto
  from this [OF d(1)] have "char_of (?a + 48) \<notin> {CHR ''a'', CHR ''b'', CHR ''f'', CHR ''n'', CHR ''r'', CHR ''t'', CHR ''v'', BSL, DQ}" .
  moreover have "\<not> 7 < ?b" "\<not> 7 < ?c"
    using mod_less_divisor [of 8 "?n div 8"] mod_less_divisor [of 8 ?n] by linarith+
  moreover have "(char_of ((push_bit 6 ?a OR push_bit 3 ?b) OR ?c) :: char) = c"
    unfolding o(4) by (simp only: char_of_char)
  ultimately show ?thesis
    unfolding q unquote_escape_def Let_def using d a by simp
qed

lemma strcspn_Cons: "strcspn (c # s) R = (if c \<in> set R then 0 else Suc (strcspn s R))"
  by (simp add: strcspn_def)

lemma unquote_c_plain: "c \<noteq> DQ \<Longrightarrow> c \<noteq> BSL \<Longrightarrow> unquote_c_loop old sb (c # q) = unquote_c_loop old (sb @ [c]) q"
  by (simp add: unquote_c_loop.simps [of old sb "c # q"] unquote_c_loop.simps [of old "sb @ [c]" q] strcspn_Cons Let_def
      split: option.split)

lemma unquote_c_escaped:
  "unquote_c_loop old sb (BSL # quote_escape c @ r) = unquote_c_loop old (sb @ [c]) r"
  by (simp add: unquote_c_loop.simps [of old sb "BSL # quote_escape c @ r"] strcspn_Cons unquote_quote_escape)

definition quoted_char :: "bool \<Rightarrow> char \<Rightarrow> string" where
  "quoted_char fully c = (if sq_must_quote fully c then BSL # quote_escape c else [c])"

lemma unquote_c_body:
  "unquote_c_loop old sb (concat (map (quoted_char fully) s) @ DQ # r) = (0, sb @ s, Some r)"
proof (induction s arbitrary: sb)
  case Nil
  show ?case by (simp add: unquote_c_loop.simps [of old sb "DQ # r"] strcspn_Cons)
next
  case (Cons c s)
  show ?case
  proof (cases "sq_must_quote fully c")
    case True
    then show ?thesis using Cons by (simp add: quoted_char_def unquote_c_escaped)
  next
    case False
    then have "c \<noteq> DQ" "c \<noteq> BSL" by (auto simp: sq_must_quote_iff Let_def)
    then show ?thesis using False Cons by (simp add: quoted_char_def unquote_c_plain)
  qed
qed

text \<open>The two ways to give the length of a name.\<close>

definition whole :: "string \<Rightarrow> int \<Rightarrow> bool" where
  "whole p maxlen \<longleftrightarrow> maxlen = int (length p) \<or> maxlen < 0"

lemma next_quote_pos_whole: "whole p maxlen
    \<Longrightarrow> next_quote_pos fully p maxlen = length (takeWhile (\<lambda>c. \<not> sq_must_quote fully c) p)"
proof -
  have "quote_pos_unbounded fully p = length (takeWhile (\<lambda>c. \<not> sq_must_quote fully c) p)"
    by (induction p) simp_all
  moreover have "quote_pos_bounded fully (length p) p = length (takeWhile (\<lambda>c. \<not> sq_must_quote fully c) p)"
    by (induction p) simp_all
  ultimately show "whole p maxlen \<Longrightarrow> ?thesis" by (auto simp: whole_def next_quote_pos_def)
qed

lemma concat_quoted_plain: "\<forall>c\<in>set u. \<not> sq_must_quote fully c \<Longrightarrow> concat (map (quoted_char fully) u) = u"
  by (induction u) (simp_all add: quoted_char_def)

lemma quote_c_loop_eq:
  assumes "whole p maxlen"
  shows "quote_c_loop fully no_dq first p maxlen out =
    (if first \<and> (\<forall>c\<in>set p. \<not> sq_must_quote fully c) then (out @ p, 0)
     else let t = out @ (if \<not> no_dq \<and> first then [DQ] else []) @ concat (map (quoted_char fully) p)
         @ (if no_dq then [] else [DQ]) in (t, length t))"
  using assms
proof (induction "length p" arbitrary: p maxlen first out rule: less_induct)
  case less
  let ?u = "takeWhile (\<lambda>c. \<not> sq_must_quote fully c) p" and ?v = "dropWhile (\<lambda>c. \<not> sq_must_quote fully c) p"
  have p: "p = ?u @ ?v" by simp
  have u: "\<forall>c\<in>set ?u. \<not> sq_must_quote fully c" by (auto dest: set_takeWhileD)
  have t: "take (length ?u) p = ?u" "drop (length ?u) p = ?v"
    by (rule takeWhile_eq_take [symmetric], rule dropWhile_eq_drop [symmetric])
  note n = next_quote_pos_whole [OF less.prems, of fully]
  show ?case
  proof (cases ?v)
    case Nil
    then have all: "\<forall>c\<in>set p. \<not> sq_must_quote fully c" using u p by (metis append_Nil2)
    have pu: "?u = p" using p Nil by (metis append_Nil2)
    have "int (length ?u) = maxlen \<or> maxlen < 0 \<and> drop (length ?u) p = []"
      using less.prems unfolding pu whole_def by auto
    then show ?thesis
      using all unfolding quote_c_loop.simps [of fully no_dq first p] n Let_def pu
      by (simp add: concat_quoted_plain)
  next
    case (Cons c v)
    have c: "sq_must_quote fully c" using Cons by (metis (full_types) dropWhile_eq_Cons_conv)
    have len: "length p = length ?u + Suc (length v)" using p Cons by (metis length_append length_Cons)
    have go: "\<not> (int (length ?u) = maxlen \<or> maxlen < 0 \<and> drop (length ?u) p = [])"
      using less.prems len t Cons by (auto simp: whole_def)
    have d: "drop (length ?u + 1) p = v" using t(2) Cons by (metis drop_drop add.commute drop0 drop_Suc_Cons One_nat_def)
    let ?m = "if maxlen \<ge> 0 then maxlen - (int (length ?u) + 1) else maxlen"
    have w: "whole v ?m" using less.prems len by (auto simp: whole_def)
    have lv: "length v < length p" using len by simp
    have "\<not> (\<forall>c\<in>set p. \<not> sq_must_quote fully c)" using p Cons c by (metis in_set_conv_decomp)
    moreover have "concat (map (quoted_char fully) p) = ?u @ BSL # quote_escape c @ concat (map (quoted_char fully) v)"
    proof -
      have "concat (map (quoted_char fully) (?u @ c # v)) = ?u @ BSL # quote_escape c @ concat (map (quoted_char fully) v)"
        unfolding map_append concat_append concat_quoted_plain [OF u] by (simp add: quoted_char_def c)
      moreover have "p = ?u @ c # v" using p Cons by simp
      ultimately show ?thesis by (metis (no_types, lifting))
    qed
    moreover have "quote_c_loop fully no_dq first p maxlen out = quote_c_loop fully no_dq False v ?m
        (((if \<not> no_dq \<and> first then out @ [DQ] else out) @ ?u @ [BSL]) @ quote_escape c)"
      unfolding quote_c_loop.simps [of fully no_dq first p] n Let_def
      unfolding if_not_P [OF go]
      unfolding t d Cons by simp
    ultimately show ?thesis using less.hyps [OF lv w] by (simp add: Let_def)
  qed
qed

lemma quote_c_style_counted_eq: "whole name maxlen \<Longrightarrow> quote_c_style_counted fully name maxlen no_dq =
    (if \<forall>c\<in>set name. \<not> sq_must_quote fully c then (name, 0)
     else let t = (if no_dq then [] else [DQ]) @ concat (map (quoted_char fully) name) @ (if no_dq then [] else [DQ])
       in (t, length t))"
  by (simp add: quote_c_style_counted_def quote_c_loop_eq Let_def)

text \<open>C23. Unquoting inverts C-style quoting: a name that is given back quoted (a positive result,
  which is the length of the text) is restored byte by byte by \<open>unquote_c_style\<close>, which stops
  right behind the closing quote, and a name that is not quoted is given back as it is. This holds
  for every bytes, also NUL when the length is given, and for both settings of
  \<open>quote_path_fully\<close>.\<close>

theorem quote_c_style_roundtrip:
  assumes "maxlen = int (length name) \<or> maxlen < 0"
  shows "case quote_c_style_counted fully name maxlen False of (q, n) \<Rightarrow>
      if n = 0 then q = name \<and> (\<forall>c\<in>set name. \<not> sq_must_quote fully c)
      else n = length q \<and> unquote_c_style sb (q @ rest) = (0, sb @ name, Some rest)"
  using assms
  by (auto simp: quote_c_style_counted_eq [unfolded whole_def] Let_def unquote_c_style_def unquote_c_body split: prod.split)

theorem quote_c_style_roundtrip_witness:
  "case quote_c_style_counted True ''a/b'' 3 False of (q, n) \<Rightarrow> if n = 0 then q = ''a/b'' \<and> True else True"
  using quote_c_style_roundtrip [of 3 "''a/b''" True] by (auto split: prod.splits if_splits)

text \<open>With \<open>quote_path_fully\<close> what is written for a name, quoted or not, is printable
  ASCII: no newline, tab or NUL that would break a line of the output, and no byte above 127.\<close>

theorem quote_c_style_printable:
  assumes "c \<in> set (fst (quote_c_style True name nodq))"
  shows "32 \<le> (of_char c :: nat) \<and> (of_char c :: nat) < 127"
proof -
  have q: "\<forall>c\<in>set (quoted_char True x). 32 \<le> (of_char c :: nat) \<and> (of_char c :: nat) < 127" for x
  proof (cases "sq_must_quote True x")
    case False
    then show ?thesis by (auto simp: quoted_char_def sq_must_quote_iff Let_def)
  next
    case True
    show ?thesis
    proof (cases "sq_lookup ! of_char x \<ge> 32")
      case True
      have "map (\<lambda>v. v \<ge> 32 \<longrightarrow> v < 127) sq_lookup = map (\<lambda>n. True) [0..<256]" by code_simp
      from table_entry [OF this] True have v: "sq_lookup ! of_char x < 127" by simp
      have "(of_char (char_of (sq_lookup ! of_char x)) :: int) = sq_lookup ! of_char x"
        unfolding of_char_of using True v by simp
      then have "int (of_char (char_of (sq_lookup ! of_char x))) = sq_lookup ! of_char x"
        by (simp only: of_nat_of_char)
      then show ?thesis using True v \<open>sq_must_quote True x\<close>
        by (simp add: quoted_char_def quote_escape_def Let_def)
    next
      case False
      let ?n = "of_char x :: nat"
      have n: "?n < 256" by simp
      note o = octal_digits [OF n]
      have a: "?n div 64 < 4" by (rule less_mult_imp_div_less) (use n in linarith)
      have "quote_escape x = [char_of (?n div 64 + 48), char_of (?n div 8 mod 8 + 48), char_of (?n mod 8 + 48)]"
        using False by (simp only: quote_escape_def Let_def if_False o of_nat_of_char)
      moreover have "(of_char (char_of (?n div 64 + 48)) :: nat) = ?n div 64 + 48"
        "(of_char (char_of (?n div 8 mod 8 + 48)) :: nat) = ?n div 8 mod 8 + 48"
        "(of_char (char_of (?n mod 8 + 48)) :: nat) = ?n mod 8 + 48"
        using a by (intro of_char_char_of_small, simp)+
      moreover have "?n div 8 mod 8 < 8" "?n mod 8 < 8" by simp_all
      ultimately show ?thesis using True a by (auto simp: quoted_char_def)
    qed
  qed
  have "whole name (- 1)" by (simp add: whole_def)
  from quote_c_style_counted_eq [OF this, of True nodq] assms consider
    "c \<in> set name" "\<not> sq_must_quote True c" | "c = DQ" | x where "c \<in> set (quoted_char True x)"
    by (auto simp: quote_c_style_def Let_def split: if_splits)
  then show ?thesis
  proof cases
    case 1
    then show ?thesis by (auto simp: sq_must_quote_iff Let_def)
  qed (use q in auto)
qed

subsection \<open>Paths relative to a prefix\<close>

text \<open>The first loop of \<open>path_relative\<close>: the length of the common part and the offset
  behind its last slash.\<close>

function common_dirs :: "string \<Rightarrow> nat \<Rightarrow> string \<Rightarrow> nat \<Rightarrow> nat \<Rightarrow> nat \<Rightarrow> nat \<times> nat" where
  "common_dirs prefix prefix_len inp len i off =
     (if i < prefix_len \<and> i < len \<and> prefix ! i = inp ! i
      then common_dirs prefix prefix_len inp len (i + 1) (if prefix ! i = CHR ''/'' then i + 1 else off)
      else (i, off))"
  by pat_completeness auto
termination by (relation "measure (\<lambda>(prefix, prefix_len, inp, len, i, off). prefix_len - i)") auto

declare common_dirs.simps [simp del]

function up_dirs :: "string \<Rightarrow> nat \<Rightarrow> nat \<Rightarrow> string" where
  "up_dirs prefix prefix_len i = (if i < prefix_len
     then (if prefix ! i = CHR ''/'' then ''../'' else []) @ up_dirs prefix prefix_len (i + 1) else [])"
  by pat_completeness auto
termination by (relation "measure (\<lambda>(prefix, prefix_len, i). prefix_len - i)") auto

declare up_dirs.simps [simp del]

definition path_relative :: "string \<Rightarrow> int \<Rightarrow> string option \<Rightarrow> int \<Rightarrow> string" where
  "path_relative inp len prefix prefix_len =
     (let len = (if len < 0 then length inp else nat len);
        prefix_len = (if prefix_len < 0 then (case prefix of Some p \<Rightarrow> length p | None \<Rightarrow> 0) else nat prefix_len);
        p = (case prefix of Some p \<Rightarrow> p | None \<Rightarrow> []);
        (i, off) = common_dirs p prefix_len inp len 0 0;
        inp = drop off inp; len = len - off
      in if i \<ge> prefix_len then inp else up_dirs p prefix_len i @ take len inp)"

definition write_name_quoted_relative :: "bool \<Rightarrow> string \<Rightarrow> int \<Rightarrow> string option \<Rightarrow> int \<Rightarrow> char \<Rightarrow> string" where
  "write_name_quoted_relative fully name len prefix prefix_len terminator =
     write_name_quoted fully (path_relative name len prefix prefix_len) terminator"

definition quote_path_relative :: "bool \<Rightarrow> string \<Rightarrow> int \<Rightarrow> string option \<Rightarrow> string" where
  "quote_path_relative fully inp len prefix =
     (let rel = path_relative inp len prefix (- 1);
        out = fst (quote_c_style_counted fully rel (int (length rel)) False)
      in if length out = 0 then out @ ''./'' else out)"

text \<open>A prefix as git has it: a sequence of directory names, each followed by a slash.\<close>

definition dir_path :: "string list \<Rightarrow> string" where
  "dir_path ds = concat (map (\<lambda>d. d @ ''/'') ds)"

definition slashes :: "string \<Rightarrow> nat" where
  "slashes s = length (filter (\<lambda>c. c = CHR ''/'') s)"

lemma slashes_simps [simp]: "slashes [] = 0" "slashes (c # s) = (if c = CHR ''/'' then 1 else 0) + slashes s"
  "slashes (s @ t) = slashes s + slashes t"
  by (simp_all add: slashes_def)

lemma slashes_0: "CHR ''/'' \<notin> set s \<Longrightarrow> slashes s = 0"
  by (induction s) auto

lemma slashes_dir_path: "\<forall>d\<in>set ds. CHR ''/'' \<notin> set d \<Longrightarrow> slashes (dir_path ds) = length ds"
  by (induction ds) (auto simp: dir_path_def slashes_0)

lemma up_dirs_eq: "up_dirs p (length p) i = concat (replicate (slashes (drop i p)) ''../'')"
proof (induction "length p - i" arbitrary: i)
  case 0
  then show ?case by (simp add: up_dirs.simps [of p])
next
  case (Suc n)
  then have i: "i < length p" by simp
  then have "drop i p = p ! i # drop (i + 1) p" by (simp add: Cons_nth_drop_Suc)
  moreover have "up_dirs p (length p) (i + 1) = concat (replicate (slashes (drop (i + 1) p)) ''../'')"
    using Suc by simp
  ultimately show ?case using i by (simp add: up_dirs.simps [of p _ i])
qed

lemma common_dirs_ok:
  assumes "common_dirs p (length p) inp (length inp) i off = (i', off')" "off \<le> i" "i \<le> length p"
    "take off inp = take off p" "off = 0 \<or> p ! (off - 1) = CHR ''/''" "slashes (drop off (take i p)) = 0" "take i inp = take i p"
  shows "off' \<le> i' \<and> i' \<le> length p \<and> take off' inp = take off' p \<and> take i' inp = take i' p
    \<and> (off' = 0 \<or> p ! (off' - 1) = CHR ''/'') \<and> slashes (drop off' (take i' p)) = 0"
  using assms
proof (induction "length p - i" arbitrary: i off rule: less_induct)
  case less
  show ?case
  proof (cases "i < length p \<and> i < length inp \<and> p ! i = inp ! i")
    case False
    then show ?thesis using less.prems by (auto simp: common_dirs.simps [of p])
  next
    case True
    define f where "f = (if p ! i = CHR ''/'' then i + 1 else off)"
    have c: "common_dirs p (length p) inp (length inp) (i + 1) f = (i', off')"
      using less.prems(1) True by (simp add: common_dirs.simps [of p _ inp _ i] f_def)
    have t: "take (i + 1) inp = take (i + 1) p" using True less.prems(7) by (simp add: take_Suc_conv_app_nth)
    have s: "slashes (drop f (take (i + 1) p)) = 0"
      using True less.prems(2,6) by (simp add: take_Suc_conv_app_nth f_def)
    have f: "f \<le> i + 1" "take f inp = take f p" "f = 0 \<or> p ! (f - 1) = CHR ''/''"
      using t less.prems(2,4,5) by (simp_all add: f_def)
    have "i < length p" using True by blast
    then have "length p - (i + 1) < length p - i" "i + 1 \<le> length p" by (linarith, linarith)
    from less.hyps [OF this(1) c f(1) this(2) f(2,3) s t] show ?thesis .
  qed
qed

lemma dir_path_split:
  assumes "dir_path ds = a @ b" "a = [] \<or> last a = CHR ''/''" "\<forall>d\<in>set ds. CHR ''/'' \<notin> set d"
  shows "\<exists>j \<le> length ds. a = dir_path (take j ds) \<and> b = dir_path (drop j ds)"
  using assms
proof (induction ds arbitrary: a)
  case Nil
  then show ?case by (simp add: dir_path_def)
next
  case (Cons d ds)
  show ?case
  proof (cases "a = []")
    case True
    then show ?thesis using Cons.prems(1) by (intro exI [of _ 0]) (simp add: dir_path_def)
  next
    case False
    have e: "(d @ ''/'') @ dir_path ds = a @ b" using Cons.prems(1) by (simp add: dir_path_def)
    have "length (d @ ''/'') \<le> length a"
    proof (rule ccontr)
      assume n: "\<not> ?thesis"
      let ?c = "drop (length a) (d @ ''/'')"
      have "take (length a) (d @ ''/'') = a" using arg_cong [OF e, of "take (length a)"] n by simp
      then have "d @ ''/'' = a @ ?c" by (metis append_take_drop_id)
      moreover have "?c \<noteq> []" using n by simp
      ultimately have "a @ butlast ?c = d" by (metis butlast_append butlast_snoc)
      then have "last a \<in> set d" using False by (metis in_set_conv_decomp append_butlast_last_id append_assoc append_Cons)
      then show False using Cons.prems False by auto
    qed
    then have a': "take (length (d @ ''/'')) a = d @ ''/''" "dir_path ds = drop (length (d @ ''/'')) a @ b"
      using arg_cong [OF e, of "take (length (d @ ''/''))"] arg_cong [OF e, of "drop (length (d @ ''/''))"]
      by simp_all
    define a' where "a' = drop (length (d @ ''/'')) a"
    have a': "a = (d @ ''/'') @ a'" "dir_path ds = a' @ b"
      using a' by (simp_all only: a'_def) (metis append_take_drop_id)
    have "a' = [] \<or> last a' = CHR ''/''" using Cons.prems(2) False a'(1) by (cases "a' = []") auto
    from Cons.IH [OF a'(2) this] Cons.prems(3) obtain j where
      "j \<le> length ds" "a' = dir_path (take j ds)" "b = dir_path (drop j ds)" by auto
    then show ?thesis using a'(1) by (intro exI [of _ "Suc j"]) (simp add: dir_path_def)
  qed
qed

text \<open>A path made relative names the same file: from the directory of the prefix it goes up over
  the last \<open>k\<close> directories and then down the rest of the path, and the directories left are the
  ones the path starts with.\<close>

theorem path_relative_resolves:
  assumes "\<forall>d\<in>set ds. CHR ''/'' \<notin> set d" "len < 0" "prefix_len < 0"
  shows "\<exists>k rest. k \<le> length ds
    \<and> path_relative inp len (Some (dir_path ds)) prefix_len = concat (replicate k ''../'') @ rest
    \<and> inp = dir_path (take (length ds - k) ds) @ rest"
proof -
  let ?p = "dir_path ds"
  obtain i off where c: "common_dirs ?p (length ?p) inp (length inp) 0 0 = (i, off)" by force
  from common_dirs_ok [OF c] have I: "off \<le> i" "i \<le> length ?p" "take off inp = take off ?p"
    "off = 0 \<or> ?p ! (off - 1) = CHR ''/''" "slashes (drop off (take i ?p)) = 0" by auto
  have "take off ?p = [] \<or> last (take off ?p) = CHR ''/''"
  proof (cases "off = 0")
    case False
    have "length (take off ?p) = off" using I(1,2) by simp
    then have "last (take off ?p) = ?p ! (off - 1)" using False by (simp add: last_conv_nth flip: length_greater_0_conv)
    then show ?thesis using I(4) False by simp
  qed simp
  from dir_path_split [OF append_take_drop_id [of off ?p, symmetric] this assms(1)] obtain j where
    j: "j \<le> length ds" "take off ?p = dir_path (take j ds)" "drop off ?p = dir_path (drop j ds)" by blast
  have "drop off ?p = drop off (take i ?p) @ drop i ?p"
    using I(1,2) by (metis append_take_drop_id drop_append length_take min.absorb2 diff_is_0_eq drop0)
  then have "slashes (drop i ?p) = slashes (drop off ?p)" using I(5) by simp
  also have "\<dots> = length (drop j ds)"
    unfolding j(3) by (rule slashes_dir_path) (use assms(1) in_set_dropD in metis)
  finally have k: "slashes (drop i ?p) = length ds - j" by simp
  have "path_relative inp len (Some ?p) prefix_len = concat (replicate (slashes (drop i ?p)) ''../'') @ drop off inp"
    using assms(2,3) c by (simp add: path_relative_def Let_def up_dirs_eq)
  moreover have "inp = dir_path (take j ds) @ drop off inp"
    by (metis append_take_drop_id I(3) j(2))
  ultimately show ?thesis using j(1) k
    by (intro exI [of _ "length ds - j"] exI [of _ "drop off inp"]) simp
qed

theorem path_relative_resolves_witness:
  "\<exists>k rest. k \<le> 2 \<and> path_relative ''a/c/f'' (- 1) (Some (dir_path [''a'', ''b''])) (- 1)
      = concat (replicate k ''../'') @ rest
    \<and> ''a/c/f'' = dir_path (take (2 - k) [''a'', ''b'']) @ rest"
  using path_relative_resolves [of "[''a'', ''b'']" "- 1" "- 1" "''a/c/f''"] by (simp add: numeral_2_eq_2)

theorem quote_c_style_printable_witness:
  "fst (quote_c_style True [CHR 0x0A, CHR 0xFF] False) = [DQ, BSL, CHR ''n'', BSL] @ ''377'' @ [DQ]
    \<and> 32 \<le> (of_char BSL :: nat) \<and> (of_char BSL :: nat) < 127"
proof -
  have q: "fst (quote_c_style True [CHR 0x0A, CHR 0xFF] False) = [DQ, BSL, CHR ''n'', BSL] @ ''377'' @ [DQ]"
    by code_simp
  have "BSL \<in> set (fst (quote_c_style True [CHR 0x0A, CHR 0xFF] False))" unfolding q by simp
  from quote_c_style_printable [OF this] q show ?thesis by blast
qed

subsection \<open>Literals of other languages\<close>

definition perl_char :: "char \<Rightarrow> string" where
  "perl_char c = (if c = SQ \<or> c = BSL then [BSL, c] else [c])"

definition perl_quote_print :: "string \<Rightarrow> string" where
  "perl_quote_print src = [SQ] @ concat (map perl_char src) @ [SQ]"

definition python_char :: "char \<Rightarrow> string" where
  "python_char c = (if c = CHR 0x0A then [BSL, CHR ''n''] else if c = SQ \<or> c = BSL then [BSL, c] else [c])"

definition python_quote_print :: "string \<Rightarrow> string" where
  "python_quote_print src = [SQ] @ concat (map python_char src) @ [SQ]"

definition tcl_char :: "char \<Rightarrow> string" where
  "tcl_char c =
     (if c \<in> set [CHR ''['', CHR '']'', CHR ''{'', CHR ''}'', CHR ''$'', BSL, DQ] then [BSL, c]
      else if c = CHR 0x0C then [BSL, CHR ''f'']
      else if c = CHR 0x0D then [BSL, CHR ''r'']
      else if c = CHR 0x0A then [BSL, CHR ''n'']
      else if c = CHR 0x09 then [BSL, CHR ''t'']
      else if c = CHR 0x0B then [BSL, CHR ''v'']
      else [c])"

definition tcl_quote_print :: "string \<Rightarrow> string" where
  "tcl_quote_print src = [DQ] @ concat (map tcl_char src) @ [DQ]"

text \<open>
  The contract of an escaping: no escaped character starts like another one or like the
  closing delimiter. Then a literal can be read in one way only, and nothing in the text can
  close it early.
\<close>

locale escaping =
  fixes esc :: "char \<Rightarrow> string" and stop :: char
  assumes esc_unique: "esc c @ xs = esc d @ ys \<Longrightarrow> c = d"
    and esc_not_stop: "esc c @ xs \<noteq> stop # ys"
begin

lemma literal_unique:
  "concat (map esc s) @ stop # r = concat (map esc t) @ stop # r' \<Longrightarrow> s = t \<and> r = r'"
proof (induction s arbitrary: t)
  case Nil
  then show ?case using esc_not_stop by (cases t) (auto dest: sym)
next
  case (Cons c s)
  then obtain d t' where t: "t = d # t'" using esc_not_stop [of c "concat (map esc s) @ stop # r" r'] by (cases t) auto
  with Cons.prems have e: "esc c @ (concat (map esc s) @ stop # r) = esc d @ (concat (map esc t') @ stop # r')" by simp
  from esc_unique [OF e] have "c = d" .
  with e Cons.IH [of t'] t show ?case by simp
qed

end

interpretation perl: escaping perl_char SQ
  by unfold_locales (auto simp: perl_char_def split: if_splits)

interpretation python: escaping python_char SQ
  by unfold_locales (auto simp: python_char_def split: if_splits)

interpretation tcl: escaping tcl_char DQ
  by unfold_locales (auto simp: tcl_char_def split: if_splits)

text \<open>The literals printed for Perl, Python and Tcl are unambiguous: the same text can only have
  come from the same string, followed by the same rest, so no string can close its literal early and
  smuggle code behind it.\<close>

theorem language_literals_unique:
  "(perl_quote_print s @ r = perl_quote_print t @ r' \<longleftrightarrow> s = t \<and> r = r')
    \<and> (python_quote_print s @ r = python_quote_print t @ r' \<longleftrightarrow> s = t \<and> r = r')
    \<and> (tcl_quote_print s @ r = tcl_quote_print t @ r' \<longleftrightarrow> s = t \<and> r = r')"
  using perl.literal_unique [of s r t r'] python.literal_unique [of s r t r'] tcl.literal_unique [of s r t r']
  by (auto simp: perl_quote_print_def python_quote_print_def tcl_quote_print_def)

end
