(* ===== verification/Index.thy ===== *)
theory Index
  imports Strbuf Sha1_Lookup "HOL-Library.Char_ord" "HOL-Library.Product_Lexorder"
begin

text \<open>
  The index of \<^verbatim>\<open>read-cache.c\<close>: the order of its entries, the binary search by name
  and stage, insertion with the removal of conflicting entries, the check of path names and the
  comparison of an entry with the file in the working tree. The index is the list of its entries.
  The hash of the names and the cached trees are not part of the model.
\<close>

subsection \<open>Entries\<close>

text \<open>The fields compared with \<open>struct stat\<close>, the flags, the object name and the path. A time is
  a pair of seconds and nanoseconds.\<close>

record cache_entry =
  ce_ctime :: "u32 \<times> u32"
  ce_mtime :: "u32 \<times> u32"
  ce_dev :: u32
  ce_ino :: u32
  ce_mode :: u32
  ce_uid :: u32
  ce_gid :: u32
  ce_size :: u32
  ce_flags :: u32
  ce_sha1 :: "byte list"
  ce_name :: string

abbreviation (input) CE_NAMEMASK :: u32 where "CE_NAMEMASK \<equiv> 0x0fff"
abbreviation (input) CE_STAGEMASK :: u32 where "CE_STAGEMASK \<equiv> 0x3000"
abbreviation (input) CE_VALID :: u32 where "CE_VALID \<equiv> 0x8000"
abbreviation (input) CE_UPDATE :: u32 where "CE_UPDATE \<equiv> 0x10000"
abbreviation (input) CE_REMOVE :: u32 where "CE_REMOVE \<equiv> 0x20000"
abbreviation (input) CE_UPTODATE :: u32 where "CE_UPTODATE \<equiv> 0x40000"
abbreviation (input) CE_ADDED :: u32 where "CE_ADDED \<equiv> 0x80000"
abbreviation (input) CE_HASHED :: u32 where "CE_HASHED \<equiv> 0x100000"
abbreviation (input) CE_UNHASHED :: u32 where "CE_UNHASHED \<equiv> 0x200000"
abbreviation (input) CE_WT_REMOVE :: u32 where "CE_WT_REMOVE \<equiv> 0x400000"
abbreviation (input) CE_CONFLICTED :: u32 where "CE_CONFLICTED \<equiv> 0x800000"
abbreviation (input) CE_UNPACKED :: u32 where "CE_UNPACKED \<equiv> 0x1000000"
abbreviation (input) CE_NEW_SKIP_WORKTREE :: u32 where "CE_NEW_SKIP_WORKTREE \<equiv> 0x2000000"
abbreviation (input) CE_INTENT_TO_ADD :: u32 where "CE_INTENT_TO_ADD \<equiv> 0x20000000"
abbreviation (input) CE_SKIP_WORKTREE :: u32 where "CE_SKIP_WORKTREE \<equiv> 0x40000000"
abbreviation (input) CE_STATE_MASK :: u32 where "CE_STATE_MASK \<equiv> 0x300000"

text \<open>Testing, setting and clearing flags.\<close>

definition has_flag :: "cache_entry \<Rightarrow> u32 \<Rightarrow> bool" where
  "has_flag ce f = (ce_flags ce AND f \<noteq> 0)"

definition set_flags :: "u32 \<Rightarrow> cache_entry \<Rightarrow> cache_entry" where
  "set_flags f ce = ce\<lparr>ce_flags := ce_flags ce OR f\<rparr>"

definition clear_flags :: "u32 \<Rightarrow> cache_entry \<Rightarrow> cache_entry" where
  "clear_flags f ce = ce\<lparr>ce_flags := ce_flags ce AND NOT f\<rparr>"

definition ce_stage :: "cache_entry \<Rightarrow> nat" where
  "ce_stage ce = unat (drop_bit 12 (CE_STAGEMASK AND ce_flags ce))"

definition ce_namelen :: "cache_entry \<Rightarrow> nat" where
  "ce_namelen ce = (let len = ce_flags ce AND CE_NAMEMASK in
     if len < CE_NAMEMASK then unat len else length (drop 0xfff (ce_name ce)) + 0xfff)"

definition create_ce_flags :: "nat \<Rightarrow> nat \<Rightarrow> u32" where
  "create_ce_flags len stage = (let len = (if len \<ge> 0xfff then 0xfff else len) in
     of_nat len OR push_bit 12 (of_nat stage))"

definition copy_cache_entry :: "cache_entry \<Rightarrow> cache_entry \<Rightarrow> cache_entry" where
  "copy_cache_entry dst src = (let state = ce_flags dst AND CE_STATE_MASK in
     src\<lparr>ce_name := ce_name dst, ce_flags := (ce_flags src AND NOT CE_STATE_MASK) OR state\<rparr>)"

definition ce_same_name :: "cache_entry \<Rightarrow> cache_entry \<Rightarrow> bool" where
  "ce_same_name a b = (let len = ce_namelen a in
     ce_namelen b = len \<and> mem_cmp (take len (ce_name a)) (take len (ce_name b)) = 0)"

subsection \<open>The order of names\<close>

abbreviation (input) S_IFMT :: u32 where "S_IFMT \<equiv> 0xF000"
abbreviation (input) S_IFGITLINK :: u32 where "S_IFGITLINK \<equiv> 0xE000"

definition S_ISGITLINK :: "u32 \<Rightarrow> bool" where "S_ISGITLINK m = (m AND S_IFMT = S_IFGITLINK)"
definition S_ISDIR :: "u32 \<Rightarrow> bool" where "S_ISDIR m = (m AND S_IFMT = 0x4000)"
definition S_ISREG :: "u32 \<Rightarrow> bool" where "S_ISREG m = (m AND S_IFMT = 0x8000)"
definition S_ISLNK :: "u32 \<Rightarrow> bool" where "S_ISLNK m = (m AND S_IFMT = 0xA000)"

text \<open>The byte of a C string at an index, the terminating NUL at its end.\<close>

definition byte_at :: "string \<Rightarrow> nat \<Rightarrow> char" where
  "byte_at s i = (if i < length s then s ! i else CHR 0x00)"

definition dir_char :: "string \<Rightarrow> nat \<Rightarrow> u32 \<Rightarrow> nat" where
  "dir_char name len mode = (let c = byte_at name len in
     if c = CHR 0x00 \<and> S_ISDIR mode then of_char (CHR ''/'') else of_char c)"

definition base_name_compare :: "string \<Rightarrow> nat \<Rightarrow> u32 \<Rightarrow> string \<Rightarrow> nat \<Rightarrow> u32 \<Rightarrow> int" where
  "base_name_compare name1 len1 mode1 name2 len2 mode2 =
     (let len = (if len1 < len2 then len1 else len2); cmp = mem_cmp (take len name1) (take len name2) in
      if cmp \<noteq> 0 then cmp
      else let c1 = dir_char name1 len mode1; c2 = dir_char name2 len mode2 in
        if c1 < c2 then - 1 else if c1 > c2 then 1 else 0)"

definition df_name_compare :: "string \<Rightarrow> nat \<Rightarrow> u32 \<Rightarrow> string \<Rightarrow> nat \<Rightarrow> u32 \<Rightarrow> int" where
  "df_name_compare name1 len1 mode1 name2 len2 mode2 =
     (let len = (if len1 < len2 then len1 else len2); cmp = mem_cmp (take len name1) (take len name2) in
      if cmp \<noteq> 0 then cmp
      else if len1 = len2 then 0
      else let c1 = dir_char name1 len mode1; c2 = dir_char name2 len mode2; slash = of_char (CHR ''/'') in
        if c1 = slash \<and> c2 = 0 then 0 else if c2 = slash \<and> c1 = 0 then 0 else int c1 - int c2)"

definition cache_name_compare :: "string \<Rightarrow> u32 \<Rightarrow> string \<Rightarrow> u32 \<Rightarrow> int" where
  "cache_name_compare name1 flags1 name2 flags2 =
     (let len1 = flags1 AND CE_NAMEMASK; len2 = flags2 AND CE_NAMEMASK;
        len = unat (if len1 < len2 then len1 else len2);
        cmp = mem_cmp (take len name1) (take len name2) in
      if cmp \<noteq> 0 then cmp
      else if len1 < len2 then - 1
      else if len1 > len2 then 1
      else let flags1 = flags1 AND CE_STAGEMASK; flags2 = flags2 AND CE_STAGEMASK in
        if flags1 < flags2 then - 1 else if flags1 > flags2 then 1 else 0)"

subsection \<open>Search and removal\<close>

text \<open>\<open>is_undo\<close> is what \<open>record_resolve_undo\<close> keeps of removed unmerged entries: the mode and
  the object name for each stage.\<close>

record index_state =
  is_cache :: "cache_entry list"
  is_changed :: bool
  is_undo :: "string \<Rightarrow> (nat \<Rightarrow> (u32 \<times> byte list) option) option"
  is_timestamp :: "u32 \<times> u32"

function index_search :: "cache_entry list \<Rightarrow> string \<Rightarrow> u32 \<Rightarrow> nat \<Rightarrow> nat \<Rightarrow> int" where
  "index_search cache name namelen first lst =
     (if lst > first
      then let nxt = (lst + first) div 2; ce = cache ! nxt;
             cmp = cache_name_compare name namelen (ce_name ce) (ce_flags ce) in
        if cmp = 0 then int nxt
        else if cmp < 0 then index_search cache name namelen first nxt
        else index_search cache name namelen (nxt + 1) lst
      else - int first - 1)"
  by pat_completeness auto
termination
  by (relation "measure (\<lambda>(cache, name, namelen, first, lst). lst - first)") auto

declare index_search.simps [simp del]

definition index_name_pos :: "index_state \<Rightarrow> string \<Rightarrow> u32 \<Rightarrow> int" where
  "index_name_pos istate name namelen = index_search (is_cache istate) name namelen 0 (length (is_cache istate))"

definition record_resolve_undo :: "index_state \<Rightarrow> cache_entry \<Rightarrow> index_state" where
  "record_resolve_undo istate ce = (let stage = ce_stage ce in
     if stage = 0 then istate
     else let ui = (case is_undo istate (ce_name ce) of Some ui \<Rightarrow> ui | None \<Rightarrow> \<lambda>_. None) in
       istate\<lparr>is_undo := (is_undo istate)(ce_name ce \<mapsto> ui(stage - 1 \<mapsto> (ce_mode ce, ce_sha1 ce)))\<rparr>)"

text \<open>The second component tells whether more entries follow the position.\<close>

definition remove_index_entry_at :: "index_state \<Rightarrow> nat \<Rightarrow> index_state \<times> bool" where
  "remove_index_entry_at istate pos =
     (let ce = is_cache istate ! pos; istate = record_resolve_undo istate ce;
        cache = take pos (is_cache istate) @ drop (pos + 1) (is_cache istate) in
      (istate\<lparr>is_cache := cache, is_changed := True\<rparr>, \<not> pos \<ge> length cache))"

definition remove_marked_cache_entries :: "index_state \<Rightarrow> index_state" where
  "remove_marked_cache_entries istate =
     istate\<lparr>is_cache := filter (\<lambda>ce. \<not> has_flag ce CE_REMOVE) (is_cache istate), is_changed := True\<rparr>"

function remove_same_path :: "index_state \<Rightarrow> string \<Rightarrow> nat \<Rightarrow> index_state" where
  "remove_same_path istate path pos =
     (if pos < length (is_cache istate) \<and> strcmp (ce_name (is_cache istate ! pos)) path = 0
      then remove_same_path (fst (remove_index_entry_at istate pos)) path pos else istate)"
  by pat_completeness auto
termination
  by (relation "measure (\<lambda>(istate, path, pos). length (is_cache istate))")
    (auto simp: remove_index_entry_at_def record_resolve_undo_def Let_def)

declare remove_same_path.simps [simp del]

definition remove_file_from_index :: "index_state \<Rightarrow> string \<Rightarrow> index_state" where
  "remove_file_from_index istate path = (let pos = index_name_pos istate path (of_nat (length path));
      pos = (if pos < 0 then - pos - 1 else pos) in remove_same_path istate path (nat pos))"

definition set_index_entry :: "index_state \<Rightarrow> nat \<Rightarrow> cache_entry \<Rightarrow> index_state" where
  "set_index_entry istate nr ce = istate\<lparr>is_cache := (is_cache istate)[nr := clear_flags CE_UNHASHED ce]\<rparr>"

definition replace_index_entry :: "index_state \<Rightarrow> nat \<Rightarrow> cache_entry \<Rightarrow> index_state" where
  "replace_index_entry istate nr ce = (set_index_entry istate nr ce)\<lparr>is_changed := True\<rparr>"

subsection \<open>Path names\<close>

definition is_dir_sep :: "char \<Rightarrow> bool" where "is_dir_sep c = (c = CHR ''/'')"

definition verify_dotfile :: "string \<Rightarrow> bool" where
  "verify_dotfile rest =
     (if byte_at rest 0 = CHR 0x00 \<or> is_dir_sep (byte_at rest 0) then False
      else if byte_at rest 0 = CHR ''g'' then
        (if byte_at rest 1 \<noteq> CHR ''i'' then True
         else if byte_at rest 2 \<noteq> CHR ''t'' then True
         else \<not> (byte_at rest 3 = CHR 0x00 \<or> is_dir_sep (byte_at rest 3)))
      else if byte_at rest 0 = CHR ''.'' then \<not> (byte_at rest 1 = CHR 0x00 \<or> is_dir_sep (byte_at rest 1))
      else True)"

text \<open>The loop of \<open>verify_path\<close>: \<open>c\<close> is the character read last. Past the label
  \<open>inside\<close> a component starts.\<close>

function verify_path_loop :: "char \<Rightarrow> string \<Rightarrow> bool" where
  "verify_path_loop c path =
     (if c = CHR 0x00 then True
      else if is_dir_sep c then
        (let c = cstr_hd path; path = tl path in
         if (c = CHR ''.'' \<and> \<not> verify_dotfile path) \<or> is_dir_sep c \<or> c = CHR 0x00 then False
         else verify_path_loop (cstr_hd path) (tl path))
      else verify_path_loop (cstr_hd path) (tl path))"
  by pat_completeness auto
termination
  by (relation "measure (\<lambda>(c, path). length path + (if c = CHR 0x00 then 0 else 1))")
    (auto simp: cstr_hd_def split: list.splits)

declare verify_path_loop.simps [simp del]

definition verify_path :: "string \<Rightarrow> bool" where
  "verify_path path = verify_path_loop (CHR ''/'') path"

subsection \<open>Insertion\<close>

abbreviation (input) OK_TO_ADD :: nat where "OK_TO_ADD \<equiv> 1"
abbreviation (input) OK_TO_REPLACE :: nat where "OK_TO_REPLACE \<equiv> 2"
abbreviation (input) SKIP_DFCHECK :: nat where "SKIP_DFCHECK \<equiv> 4"
abbreviation (input) JUST_APPEND :: nat where "JUST_APPEND \<equiv> 8"
abbreviation (input) NEW_ONLY :: nat where "NEW_ONLY \<equiv> 16"

lemma remove_index_entry_at_cache [simp]:
  "is_cache (fst (remove_index_entry_at istate pos)) = take pos (is_cache istate) @ drop (pos + 1) (is_cache istate)"
  by (simp add: remove_index_entry_at_def record_resolve_undo_def Let_def)

function has_file_loop :: "index_state \<Rightarrow> cache_entry \<Rightarrow> nat \<Rightarrow> bool \<Rightarrow> int \<Rightarrow> index_state \<times> int" where
  "has_file_loop istate ce pos ok_to_replace retval =
     (let len = ce_namelen ce; stage = ce_stage ce; name = ce_name ce in
      if \<not> pos < length (is_cache istate) then (istate, retval)
      else let p = is_cache istate ! pos in
        if len \<ge> ce_namelen p then (istate, retval)
        else if mem_cmp (take len name) (take len (ce_name p)) \<noteq> 0 then (istate, retval)
        else if ce_stage p \<noteq> stage then has_file_loop istate ce (pos + 1) ok_to_replace retval
        else if byte_at (ce_name p) len \<noteq> CHR ''/'' then has_file_loop istate ce (pos + 1) ok_to_replace retval
        else if has_flag p CE_REMOVE then has_file_loop istate ce (pos + 1) ok_to_replace retval
        else if \<not> ok_to_replace then (istate, - 1)
        else has_file_loop (fst (remove_index_entry_at istate pos)) ce pos ok_to_replace (- 1))"
  by pat_completeness auto
termination
  by (relation "measure (\<lambda>(istate, ce, pos, ok_to_replace, retval). length (is_cache istate) - pos)") auto

declare has_file_loop.simps [simp del]

definition has_file_name :: "index_state \<Rightarrow> cache_entry \<Rightarrow> nat \<Rightarrow> bool \<Rightarrow> index_state \<times> int" where
  "has_file_name istate ce pos ok_to_replace = has_file_loop istate ce pos ok_to_replace 0"

text \<open>The last slash of a name in front of a position, and the scan for an entry inside the
  directory at that slash that makes the shorter prefixes safe.\<close>

primrec prev_slash :: "string \<Rightarrow> nat \<Rightarrow> nat option" where
  "prev_slash name 0 = None"
| "prev_slash name (Suc i) = (if byte_at name i = CHR ''/'' then Some i else prev_slash name i)"

lemma prev_slash_less: "prev_slash name n = Some i \<Longrightarrow> i < n"
  by (induction n) (auto split: if_splits)

function same_dir_entry :: "cache_entry list \<Rightarrow> string \<Rightarrow> nat \<Rightarrow> nat \<Rightarrow> nat \<Rightarrow> bool" where
  "same_dir_entry cache name len stage pos =
     (if \<not> pos < length cache then False
      else let p = cache ! pos in
        if ce_namelen p \<le> len \<or> byte_at (ce_name p) len \<noteq> CHR ''/''
          \<or> mem_cmp (take len (ce_name p)) (take len name) \<noteq> 0 then False
        else if ce_stage p = stage \<and> \<not> has_flag p CE_REMOVE then True
        else same_dir_entry cache name len stage (pos + 1))"
  by pat_completeness auto
termination
  by (relation "measure (\<lambda>(cache, name, len, stage, pos). length cache - pos)") auto

declare same_dir_entry.simps [simp del]

function has_dir_loop :: "index_state \<Rightarrow> cache_entry \<Rightarrow> nat \<Rightarrow> bool \<Rightarrow> int \<Rightarrow> index_state \<times> int" where
  "has_dir_loop istate ce slash ok_to_replace retval =
     (case prev_slash (ce_name ce) slash of None \<Rightarrow> (istate, retval)
      | Some len \<Rightarrow>
        let stage = ce_stage ce; name = ce_name ce;
          pos = index_name_pos istate name (create_ce_flags len stage) in
        if pos \<ge> 0 \<and> \<not> has_flag (is_cache istate ! nat pos) CE_REMOVE
        then if \<not> ok_to_replace then (istate, - 1)
          else has_dir_loop (fst (remove_index_entry_at istate (nat pos))) ce len ok_to_replace (- 1)
        else let pos = (if pos \<ge> 0 then pos else - pos - 1) in
          if same_dir_entry (is_cache istate) name len stage (nat pos) then (istate, retval)
          else has_dir_loop istate ce len ok_to_replace retval)"
  by pat_completeness auto
termination
  by (relation "measure (\<lambda>(istate, ce, slash, ok_to_replace, retval). slash)") (auto dest: prev_slash_less)

declare has_dir_loop.simps [simp del]

definition has_dir_name :: "index_state \<Rightarrow> cache_entry \<Rightarrow> bool \<Rightarrow> index_state \<times> int" where
  "has_dir_name istate ce ok_to_replace = has_dir_loop istate ce (ce_namelen ce) ok_to_replace 0"

definition check_file_directory_conflict :: "index_state \<Rightarrow> cache_entry \<Rightarrow> nat \<Rightarrow> bool \<Rightarrow> index_state \<times> int" where
  "check_file_directory_conflict istate ce pos ok_to_replace =
     (if has_flag ce CE_REMOVE then (istate, 0)
      else let (istate, retval) = has_file_name istate ce pos ok_to_replace;
             (istate, r) = has_dir_name istate ce ok_to_replace
        in (istate, retval + r))"

text \<open>The loop that drops the unmerged entries of the path; its second result is \<open>ok_to_add\<close>.\<close>

function drop_unmerged :: "index_state \<Rightarrow> cache_entry \<Rightarrow> nat \<Rightarrow> bool \<Rightarrow> index_state \<times> bool" where
  "drop_unmerged istate ce pos ok_to_add =
     (if pos < length (is_cache istate) \<and> ce_same_name (is_cache istate ! pos) ce
      then let (istate', more) = remove_index_entry_at istate pos in
        if \<not> more then (istate', True) else drop_unmerged istate' ce pos True
      else (istate, ok_to_add))"
  by pat_completeness auto
termination
  by (relation "measure (\<lambda>(istate, ce, pos, ok_to_add). length (is_cache istate))")
    (auto simp: remove_index_entry_at_def record_resolve_undo_def Let_def)

declare drop_unmerged.simps [simp del]

text \<open>A result of 0 and below is final, a positive one is the position plus one.\<close>

definition add_index_entry_with_check :: "index_state \<Rightarrow> cache_entry \<Rightarrow> nat \<Rightarrow> index_state \<times> int" where
  "add_index_entry_with_check istate ce opt =
     (let ok_to_add = (opt AND OK_TO_ADD \<noteq> 0); ok_to_replace = (opt AND OK_TO_REPLACE \<noteq> 0);
        skip_df_check = (opt AND SKIP_DFCHECK \<noteq> 0); new_only = (opt AND NEW_ONLY \<noteq> 0);
        pos = index_name_pos istate (ce_name ce) (ce_flags ce) in
      if pos \<ge> 0 then (if \<not> new_only then replace_index_entry istate (nat pos) ce else istate, 0)
      else let pos = - pos - 1;
          (istate, ok_to_add) = (if nat pos < length (is_cache istate) \<and> ce_stage ce = 0
             then drop_unmerged istate ce (nat pos) ok_to_add else (istate, ok_to_add)) in
        if \<not> ok_to_add then (istate, - 1)
        else if \<not> verify_path (ce_name ce) then (istate, - 1)
        else if skip_df_check then (istate, pos + 1)
        else let (istate, conflict) = check_file_directory_conflict istate ce (nat pos) ok_to_replace in
          if conflict \<noteq> 0
          then if \<not> ok_to_replace then (istate, - 1)
            else (istate, (- index_name_pos istate (ce_name ce) (ce_flags ce) - 1) + 1)
          else (istate, pos + 1))"

definition add_index_entry :: "index_state \<Rightarrow> cache_entry \<Rightarrow> nat \<Rightarrow> index_state \<times> int" where
  "add_index_entry istate ce opt =
     (let (istate, ret) = (if opt AND JUST_APPEND \<noteq> 0 then (istate, int (length (is_cache istate)) + 1)
        else add_index_entry_with_check istate ce opt) in
      if ret \<le> 0 then (istate, ret)
      else let pos = nat (ret - 1);
          istate = istate\<lparr>is_cache := take pos (is_cache istate) @ [ce] @ drop pos (is_cache istate)\<rparr> in
        ((set_index_entry istate pos ce)\<lparr>is_changed := True\<rparr>, 0))"

definition rename_index_entry_at :: "index_state \<Rightarrow> nat \<Rightarrow> string \<Rightarrow> cache_entry \<Rightarrow> index_state" where
  "rename_index_entry_at istate nr new_name fresh =
     (let old = is_cache istate ! nr; namelen = length new_name; new = copy_cache_entry fresh old;
        new = clear_flags (CE_STATE_MASK OR CE_NAMEMASK) new;
        new = set_flags (if namelen \<ge> 0xfff then 0xfff else of_nat namelen) new;
        new = new\<lparr>ce_name := new_name\<rparr>;
        istate = fst (remove_index_entry_at istate nr)
      in fst (add_index_entry istate new (OK_TO_ADD OR OK_TO_REPLACE)))"

subsection \<open>Comparing an entry with the file\<close>

record stat =
  st_mode :: u32
  st_ctime :: "u32 \<times> u32"
  st_mtime :: "u32 \<times> u32"
  st_dev :: u32
  st_ino :: u32
  st_uid :: u32
  st_gid :: u32
  st_size :: u64

text \<open>The configuration, and the comparisons that read the contents of a file, a symbolic link
  or a submodule: parameters, with zero for a match.\<close>

record stat_env =
  trust_executable_bit :: bool
  trust_ctime :: bool
  has_symlinks :: bool
  assume_unchanged :: bool
  ce_compare_data :: "cache_entry \<Rightarrow> stat \<Rightarrow> int"
  ce_compare_link :: "cache_entry \<Rightarrow> u64 \<Rightarrow> int"
  gitlink_head :: "string \<Rightarrow> byte list option"

abbreviation (input) MTIME_CHANGED :: u32 where "MTIME_CHANGED \<equiv> 0x0001"
abbreviation (input) CTIME_CHANGED :: u32 where "CTIME_CHANGED \<equiv> 0x0002"
abbreviation (input) OWNER_CHANGED :: u32 where "OWNER_CHANGED \<equiv> 0x0004"
abbreviation (input) MODE_CHANGED :: u32 where "MODE_CHANGED \<equiv> 0x0008"
abbreviation (input) INODE_CHANGED :: u32 where "INODE_CHANGED \<equiv> 0x0010"
abbreviation (input) DATA_CHANGED :: u32 where "DATA_CHANGED \<equiv> 0x0020"
abbreviation (input) TYPE_CHANGED :: u32 where "TYPE_CHANGED \<equiv> 0x0040"

definition EMPTY_BLOB_SHA1_BIN :: "byte list" where
  "EMPTY_BLOB_SHA1_BIN = [0xe6, 0x9d, 0xe2, 0x9b, 0xb2, 0xd1, 0xd6, 0x43, 0x4b, 0x8b,
     0x29, 0xae, 0x77, 0x5a, 0xd8, 0xc2, 0xe4, 0x8c, 0x53, 0x91]"

definition fill_stat_cache_info :: "stat_env \<Rightarrow> cache_entry \<Rightarrow> stat \<Rightarrow> cache_entry" where
  "fill_stat_cache_info env ce st =
     (let ce = ce\<lparr>ce_ctime := st_ctime st, ce_mtime := st_mtime st, ce_dev := st_dev st, ce_ino := st_ino st,
            ce_uid := st_uid st, ce_gid := st_gid st, ce_size := ucast (st_size st)\<rparr>;
        ce = (if assume_unchanged env then set_flags CE_VALID ce else ce)
      in if S_ISREG (st_mode st) then set_flags CE_UPTODATE ce else ce)"

definition ce_compare_gitlink :: "stat_env \<Rightarrow> cache_entry \<Rightarrow> int" where
  "ce_compare_gitlink env ce = (case gitlink_head env (ce_name ce) of
     None \<Rightarrow> 0 | Some sha1 \<Rightarrow> hashcmp sha1 (ce_sha1 ce))"

definition ce_modified_check_fs :: "stat_env \<Rightarrow> cache_entry \<Rightarrow> stat \<Rightarrow> u32" where
  "ce_modified_check_fs env ce st =
     (if S_ISREG (st_mode st) then if ce_compare_data env ce st \<noteq> 0 then DATA_CHANGED else 0
      else if S_ISLNK (st_mode st) then if ce_compare_link env ce (st_size st) \<noteq> 0 then DATA_CHANGED else 0
      else if S_ISDIR (st_mode st) \<and> S_ISGITLINK (ce_mode ce)
        then if ce_compare_gitlink env ce \<noteq> 0 then DATA_CHANGED else 0
      else TYPE_CHANGED)"

text \<open>\<open>None\<close> is the call of \<open>die\<close> for an entry of an unknown type. Times are compared by their
  seconds, as in a build without \<open>USE_NSEC\<close>, and without \<open>USE_STDEV\<close>.\<close>

definition ce_match_stat_basic :: "stat_env \<Rightarrow> cache_entry \<Rightarrow> stat \<Rightarrow> u32 option" where
  "ce_match_stat_basic env ce st =
     (if has_flag ce CE_REMOVE then Some (MODE_CHANGED OR DATA_CHANGED OR TYPE_CHANGED)
      else if S_ISGITLINK (ce_mode ce) then
        Some (if \<not> S_ISDIR (st_mode st) then TYPE_CHANGED
              else if ce_compare_gitlink env ce \<noteq> 0 then DATA_CHANGED else 0)
      else let typ =
          (if S_ISREG (ce_mode ce) then
             Some ((if \<not> S_ISREG (st_mode st) then TYPE_CHANGED else 0)
               OR (if trust_executable_bit env \<and> 0x40 AND (ce_mode ce XOR st_mode st) \<noteq> 0 then MODE_CHANGED else 0))
           else if S_ISLNK (ce_mode ce) then
             Some (if \<not> S_ISLNK (st_mode st) \<and> (has_symlinks env \<or> \<not> S_ISREG (st_mode st))
                   then TYPE_CHANGED else 0)
           else None) in
        map_option (\<lambda>changed. changed
          OR (if fst (ce_mtime ce) \<noteq> fst (st_mtime st) then MTIME_CHANGED else 0)
          OR (if trust_ctime env \<and> fst (ce_ctime ce) \<noteq> fst (st_ctime st) then CTIME_CHANGED else 0)
          OR (if ce_uid ce \<noteq> st_uid st \<or> ce_gid ce \<noteq> st_gid st then OWNER_CHANGED else 0)
          OR (if ce_ino ce \<noteq> st_ino st then INODE_CHANGED else 0)
          OR (if ce_size ce \<noteq> ucast (st_size st) then DATA_CHANGED else 0)
          OR (if ce_size ce = 0 \<and> hashcmp (ce_sha1 ce) EMPTY_BLOB_SHA1_BIN \<noteq> 0 then DATA_CHANGED else 0)) typ)"

definition is_racy_timestamp :: "index_state \<Rightarrow> cache_entry \<Rightarrow> bool" where
  "is_racy_timestamp istate ce = (\<not> S_ISGITLINK (ce_mode ce) \<and> fst (is_timestamp istate) \<noteq> 0
     \<and> fst (is_timestamp istate) \<le> fst (ce_mtime ce))"

definition ie_match_stat :: "stat_env \<Rightarrow> index_state \<Rightarrow> cache_entry \<Rightarrow> stat \<Rightarrow> nat \<Rightarrow> u32 option" where
  "ie_match_stat env istate ce st options =
     (let ignore_valid = (options AND 1 \<noteq> 0); assume_racy_is_modified = (options AND 2 \<noteq> 0);
        ignore_skip_worktree = (options AND 4 \<noteq> 0) in
      if \<not> ignore_skip_worktree \<and> has_flag ce CE_SKIP_WORKTREE then Some 0
      else if \<not> ignore_valid \<and> has_flag ce CE_VALID then Some 0
      else if has_flag ce CE_INTENT_TO_ADD then Some (DATA_CHANGED OR TYPE_CHANGED OR MODE_CHANGED)
      else case ce_match_stat_basic env ce st of None \<Rightarrow> None
        | Some changed \<Rightarrow>
          if changed = 0 \<and> is_racy_timestamp istate ce
          then Some (changed OR (if assume_racy_is_modified then DATA_CHANGED else ce_modified_check_fs env ce st))
          else Some changed)"

definition ie_modified :: "stat_env \<Rightarrow> index_state \<Rightarrow> cache_entry \<Rightarrow> stat \<Rightarrow> nat \<Rightarrow> u32 option" where
  "ie_modified env istate ce st options =
     (case ie_match_stat env istate ce st options of None \<Rightarrow> None
      | Some changed \<Rightarrow>
        if changed = 0 then Some 0
        else if changed AND (MODE_CHANGED OR TYPE_CHANGED) \<noteq> 0 then Some changed
        else if changed AND DATA_CHANGED \<noteq> 0 \<and> (S_ISGITLINK (ce_mode ce) \<or> ce_size ce \<noteq> 0) then Some changed
        else let changed_fs = ce_modified_check_fs env ce st in
          if changed_fs \<noteq> 0 then Some (changed OR changed_fs) else Some 0)"

subsection \<open>The keys of the entries\<close>

definition flags_key :: "string \<Rightarrow> u32 \<Rightarrow> string \<times> nat" where
  "flags_key name flags = (take (unat (flags AND CE_NAMEMASK)) name, unat (drop_bit 12 (CE_STAGEMASK AND flags)))"

definition ce_key :: "cache_entry \<Rightarrow> string \<times> nat" where
  "ce_key ce = flags_key (ce_name ce) (ce_flags ce)"

lemma strcmp_less: "strcmp a b < 0 \<longleftrightarrow> a < b"
proof (induction a b rule: strcmp.induct)
  case (1 x xs y ys)
  show ?case
  proof (cases "x = y")
    case False
    have "sgn ((of_char x :: int) - of_char y) < 0 \<longleftrightarrow> (of_char x :: int) < of_char y"
      by (simp add: sgn_less)
    also have "\<dots> \<longleftrightarrow> int (of_char x) < int (of_char y)" by (simp only: of_nat_of_char)
    also have "\<dots> \<longleftrightarrow> x < y" by (simp only: less_char_def of_nat_less_iff)
    finally show ?thesis using False by simp
  qed (use 1 in simp)
qed simp_all

lemma stage_multiple: "unat (CE_STAGEMASK AND flags :: u32) = 4096 * unat (drop_bit 12 (CE_STAGEMASK AND flags))"
proof -
  have "(CE_STAGEMASK AND flags) AND mask 12 = flags AND (CE_STAGEMASK AND mask 12)"
    by (simp only: and.assoc and.left_commute and.commute)
  also have "\<dots> = 0" by (simp add: mask_eq_exp_minus_1)
  finally have "unat (CE_STAGEMASK AND flags :: u32) mod 2 ^ 12 = 0" by (simp only: unat_and_mask [symmetric] unsigned_0)
  then show ?thesis unfolding unat_drop_bit by auto
qed

lemma stage_less: "(f AND CE_STAGEMASK < g AND CE_STAGEMASK) \<longleftrightarrow>
    unat (drop_bit 12 (CE_STAGEMASK AND f) :: u32) < unat (drop_bit 12 (CE_STAGEMASK AND g) :: u32)"
  unfolding word_less_nat_alt and.commute [of f] and.commute [of g]
  using stage_multiple [of f] stage_multiple [of g] by linarith

lemma lex_cmp:
  fixes s t :: nat
  assumes "c = (if strcmp A B \<noteq> 0 then strcmp A B else if s < t then - 1 else if t < s then 1 else 0)"
  shows "c < 0 \<longleftrightarrow> (A, s) < (B, t)" "c = 0 \<longleftrightarrow> (A, s) = (B, t)"
proof -
  have l: "(A, s) < (B, t) \<longleftrightarrow> A < B \<or> A = B \<and> s < t" by (auto simp: less_prod_simp)
  show "c < 0 \<longleftrightarrow> (A, s) < (B, t)" "c = 0 \<longleftrightarrow> (A, s) = (B, t)"
    unfolding l using assms strcmp_less [of A B] strcmp_eq_0 [of A B] by (cases "A = B"; simp)+
qed

lemma cmp_chain:
  fixes M S X :: int
  assumes "S = (if M \<noteq> 0 then M else if m < n then - 1 else of_bool (m \<noteq> (n :: nat)))"
  shows "(if M \<noteq> 0 then M else if m < n then - 1 else if n < m then 1 else X) = (if S \<noteq> 0 then S else X)"
  using assms by auto

lemma cache_name_compare_key:
  assumes "unat (f1 AND CE_NAMEMASK) \<le> length n1" "unat (f2 AND CE_NAMEMASK) \<le> length n2"
  shows "cache_name_compare n1 f1 n2 f2 < 0 \<longleftrightarrow> flags_key n1 f1 < flags_key n2 f2"
    "cache_name_compare n1 f1 n2 f2 = 0 \<longleftrightarrow> flags_key n1 f1 = flags_key n2 f2"
proof -
  let ?a = "take (unat (f1 AND CE_NAMEMASK)) n1" and ?b = "take (unat (f2 AND CE_NAMEMASK)) n2"
  let ?l1 = "unat (f1 AND CE_NAMEMASK)" and ?l2 = "unat (f2 AND CE_NAMEMASK)"
  have len: "unat (if f1 AND CE_NAMEMASK < f2 AND CE_NAMEMASK then f1 AND CE_NAMEMASK else f2 AND CE_NAMEMASK)
      = min (length ?a) (length ?b)"
    using assms by (simp add: word_less_nat_alt min_def)
  have t: "take (min (length ?a) (length ?b)) n1 = take (min (length ?a) (length ?b)) ?a"
    "take (min (length ?a) (length ?b)) n2 = take (min (length ?a) (length ?b)) ?b"
    using assms by (simp_all add: min_def)
  have l: "(f1 AND CE_NAMEMASK < f2 AND CE_NAMEMASK) = (length ?a < length ?b)"
    "(f1 AND CE_NAMEMASK > f2 AND CE_NAMEMASK) = (length ?a > length ?b)"
    using assms by (simp_all add: word_less_nat_alt)
  let ?s = "unat (drop_bit 12 (CE_STAGEMASK AND f1) :: u32)" and ?t = "unat (drop_bit 12 (CE_STAGEMASK AND f2) :: u32)"
  have c: "cache_name_compare n1 f1 n2 f2
      = (if strcmp ?a ?b \<noteq> 0 then strcmp ?a ?b else if ?s < ?t then - 1 else if ?t < ?s then 1 else 0)"
    unfolding cache_name_compare_def Let_def
    unfolding len
    unfolding t
    unfolding l stage_less
    by (rule cmp_chain) (rule strcmp_take [unfolded Let_def])
  have k: "flags_key n1 f1 = (?a, ?s)" "flags_key n2 f2 = (?b, ?t)" by (simp_all add: flags_key_def)
  show "cache_name_compare n1 f1 n2 f2 < 0 \<longleftrightarrow> flags_key n1 f1 < flags_key n2 f2"
    "cache_name_compare n1 f1 n2 f2 = 0 \<longleftrightarrow> flags_key n1 f1 = flags_key n2 f2"
    unfolding k by (rule lex_cmp [OF c])+
qed

text \<open>Entries whose path is shorter than 4095 bytes and whose flags carry its length.\<close>

definition wf_ce :: "cache_entry \<Rightarrow> bool" where
  "wf_ce ce \<longleftrightarrow> length (ce_name ce) < 0xfff \<and> unat (ce_flags ce AND CE_NAMEMASK) = length (ce_name ce)"

lemma wf_namelen [simp]: "wf_ce ce \<Longrightarrow> ce_namelen ce = length (ce_name ce)"
  by (simp add: wf_ce_def ce_namelen_def word_less_nat_alt)

lemma wf_key: "wf_ce ce \<Longrightarrow> ce_key ce = (ce_name ce, ce_stage ce)"
  by (simp add: wf_ce_def ce_key_def flags_key_def ce_stage_def)

definition index_ok :: "cache_entry list \<Rightarrow> bool" where
  "index_ok cache \<longleftrightarrow> list_all wf_ce cache \<and> sorted_wrt (\<lambda>a b. ce_key a < ce_key b) cache"

text \<open>The place of a key: everything before is smaller, everything from there on is larger.\<close>

definition gap :: "cache_entry list \<Rightarrow> string \<times> nat \<Rightarrow> nat \<Rightarrow> bool" where
  "gap cache k p \<longleftrightarrow> p \<le> length cache \<and> (\<forall>i<p. ce_key (cache ! i) < k)
     \<and> (\<forall>i. p \<le> i \<longrightarrow> i < length cache \<longrightarrow> k < ce_key (cache ! i))"

lemma index_ok_nth: "index_ok cache \<Longrightarrow> i < j \<Longrightarrow> j < length cache \<Longrightarrow> ce_key (cache ! i) < ce_key (cache ! j)"
  by (auto simp: index_ok_def sorted_wrt_iff_nth_less)

lemma index_ok_wf: "index_ok cache \<Longrightarrow> ce \<in> set cache \<Longrightarrow> wf_ce ce"
  by (simp add: index_ok_def list_all_iff)

definition key_cmp :: "cache_entry list \<Rightarrow> string \<times> u32 \<Rightarrow> nat \<Rightarrow> int" where
  "key_cmp cache k i = cache_name_compare (fst k) (snd k) (ce_name (cache ! i)) (ce_flags (cache ! i))"

definition searchable :: "cache_entry list \<Rightarrow> string \<times> u32 \<Rightarrow> bool" where
  "searchable cache k \<longleftrightarrow> index_ok cache \<and> unat (snd k AND CE_NAMEMASK) \<le> length (fst k)"

lemma key_cmp_key:
  assumes "searchable cache k" "i < length cache"
  shows "key_cmp cache k i < 0 \<longleftrightarrow> flags_key (fst k) (snd k) < ce_key (cache ! i)"
    "key_cmp cache k i = 0 \<longleftrightarrow> flags_key (fst k) (snd k) = ce_key (cache ! i)"
    "0 < key_cmp cache k i \<longleftrightarrow> ce_key (cache ! i) < flags_key (fst k) (snd k)"
proof -
  have "wf_ce (cache ! i)" using assms index_ok_wf by (auto simp: searchable_def)
  then have "unat (ce_flags (cache ! i) AND CE_NAMEMASK) \<le> length (ce_name (cache ! i))" by (simp add: wf_ce_def)
  with assms(1) have c: "key_cmp cache k i < 0 \<longleftrightarrow> flags_key (fst k) (snd k) < ce_key (cache ! i)"
    "key_cmp cache k i = 0 \<longleftrightarrow> flags_key (fst k) (snd k) = ce_key (cache ! i)"
    unfolding key_cmp_def ce_key_def by (auto simp: searchable_def cache_name_compare_key)
  then show "key_cmp cache k i < 0 \<longleftrightarrow> flags_key (fst k) (snd k) < ce_key (cache ! i)"
    "key_cmp cache k i = 0 \<longleftrightarrow> flags_key (fst k) (snd k) = ce_key (cache ! i)"
    "0 < key_cmp cache k i \<longleftrightarrow> ce_key (cache ! i) < flags_key (fst k) (snd k)" by auto
qed

interpretation index_searching: binary_search key_cmp "\<lambda>cache k. index_search cache (fst k) (snd k)" length searchable
proof
  show "key_cmp cache k j < 0" if "searchable cache k" "i < j" "j < length cache" "key_cmp cache k i \<le> 0" for cache k i j
  proof -
    have "index_ok cache" using that(1) by (simp add: searchable_def)
    then have "ce_key (cache ! i) < ce_key (cache ! j)" using index_ok_nth that by blast
    moreover have "flags_key (fst k) (snd k) \<le> ce_key (cache ! i)"
      using that key_cmp_key(1,2) [of cache k i] by fastforce
    ultimately show ?thesis using key_cmp_key(1) [of cache k j] that by fastforce
  qed
qed (auto simp: index_search.simps Let_def key_cmp_def add.commute)

lemma index_name_pos_ok:
  assumes "index_ok (is_cache istate)" "unat (f AND CE_NAMEMASK) \<le> length name"
  shows "(\<exists>p. index_name_pos istate name f = int p \<and> p < length (is_cache istate)
        \<and> ce_key (is_cache istate ! p) = flags_key name f)
    \<or> (\<exists>p. index_name_pos istate name f = - int p - 1 \<and> gap (is_cache istate) (flags_key name f) p)"
proof -
  have k: "searchable (is_cache istate) (name, f)" using assms by (simp add: searchable_def)
  from index_searching.search_all [OF this] show ?thesis
    unfolding index_searching.found_at_def index_name_pos_def gap_def by (auto simp: key_cmp_key [OF k])
qed

subsection \<open>Paths that cannot be in one tree\<close>

definition live :: "cache_entry \<Rightarrow> bool" where
  "live p \<longleftrightarrow> \<not> has_flag p CE_REMOVE"

text \<open>The path of \<open>q\<close> is inside a directory that has the path of \<open>p\<close>, in one stage.\<close>

definition df_conflict :: "cache_entry \<Rightarrow> cache_entry \<Rightarrow> bool" where
  "df_conflict p q \<longleftrightarrow> live p \<and> live q \<and> ce_stage p = ce_stage q \<and> (\<exists>r. ce_name q = ce_name p @ CHR ''/'' # r)"

definition df_free :: "cache_entry set \<Rightarrow> bool" where
  "df_free S \<longleftrightarrow> (\<forall>p\<in>S. \<forall>q\<in>S. \<not> df_conflict p q)"

lemma df_free_subset: "df_free S \<Longrightarrow> T \<subseteq> S \<Longrightarrow> df_free T"
  by (auto simp: df_free_def)

lemma index_ok_remove: "index_ok (xs @ y # zs) \<Longrightarrow> index_ok (xs @ zs)"
  by (auto simp: index_ok_def sorted_wrt_append)

lemma index_ok_remove_at: "index_ok cache \<Longrightarrow> pos < length cache \<Longrightarrow> index_ok (take pos cache @ drop (pos + 1) cache)"
  by (metis id_take_nth_drop index_ok_remove Suc_eq_plus1)

lemma mem_cmp_eq_0: "length a = length b \<Longrightarrow> mem_cmp a b = 0 \<longleftrightarrow> a = b"
  by (metis strcmp_memcmp strcmp_eq_0)

lemma prefix_byte:
  "length a < length s \<and> take (length a) s = a \<and> byte_at s (length a) = c \<longleftrightarrow> (\<exists>r. s = a @ c # r)" if "c \<noteq> CHR 0x00"
proof
  assume h: "length a < length s \<and> take (length a) s = a \<and> byte_at s (length a) = c"
  then have "s = a @ s ! length a # drop (Suc (length a)) s" by (metis id_take_nth_drop)
  with h show "\<exists>r. s = a @ c # r" by (auto simp: byte_at_def)
qed (auto simp: byte_at_def nth_append)

text \<open>In lexicographic order, once past the names that start with \<open>a\<close> no later one does.\<close>

lemma lex_past_prefix: "(a :: string) < b \<Longrightarrow> take (length a) b \<noteq> a \<Longrightarrow> b \<le> c \<Longrightarrow> take (length a) c \<noteq> a"
proof (induction a arbitrary: b c)
  case (Cons x a)
  then obtain y b' where b: "b = y # b'" by (cases b) auto
  then obtain z c' where c: "c = z # c'" using Cons.prems(3) by (cases c) auto
  show ?case
  proof (cases "x = y \<and> y = z")
    case True
    then show ?thesis using Cons b c by auto
  next
    case False
    then show ?thesis using Cons.prems b c by auto
  qed
qed simp

definition name_after :: "cache_entry list \<Rightarrow> string \<Rightarrow> nat \<Rightarrow> bool" where
  "name_after cache name pos \<longleftrightarrow> (\<forall>p\<in>set (drop pos cache). name < ce_name p)"

lemma index_ok_names: "index_ok cache \<Longrightarrow> i \<le> j \<Longrightarrow> j < length cache \<Longrightarrow> ce_name (cache ! i) \<le> ce_name (cache ! j)"
proof (cases "i = j")
  case False
  assume a: "index_ok cache" "i \<le> j" "j < length cache"
  then have "ce_key (cache ! i) < ce_key (cache ! j)" using False by (intro index_ok_nth) auto
  moreover have "wf_ce (cache ! i)" "wf_ce (cache ! j)" using a False by (auto intro!: index_ok_wf [OF a(1)])
  ultimately show ?thesis by (auto simp: wf_key less_prod_simp)
qed simp

lemma has_file_loop_ok:
  assumes "index_ok (is_cache istate)" "wf_ce ce" "name_after (is_cache istate) (ce_name ce) pos" "pos \<le> length (is_cache istate)"
    "live ce" "has_file_loop istate ce pos True retval = (istate', r)"
  shows "index_ok (is_cache istate') \<and> take pos (is_cache istate') = take pos (is_cache istate)
    \<and> (r = - 1 \<or> r = retval \<and> istate' = istate) \<and> set (is_cache istate') \<subseteq> set (is_cache istate)
    \<and> (\<forall>p\<in>set (is_cache istate) - set (is_cache istate'). df_conflict ce p)
    \<and> (\<forall>p\<in>set (drop pos (is_cache istate')). \<not> df_conflict ce p)"
  using assms
proof (induction "length (is_cache istate) - pos" arbitrary: istate pos retval rule: less_induct)
  case less
  let ?c = "is_cache istate" and ?n = "ce_name ce"
  note eq = less.prems(6) [unfolded has_file_loop.simps [of istate ce pos] Let_def]
  show ?case
  proof (cases "pos < length ?c")
    case False
    then show ?thesis using eq less.prems by auto
  next
    case True
    let ?p = "?c ! pos"
    have "?p \<in> set ?c" using True by (rule nth_mem)
    then have wp: "wf_ce ?p" by (rule index_ok_wf [OF less.prems(1)])
    have len: "ce_namelen ?p = length (ce_name ?p)" "ce_namelen ce = length ?n" using wp less.prems(2) by simp_all
    have after: "?n < ce_name ?p" using less.prems(3) True by (simp add: name_after_def Cons_nth_drop_Suc [symmetric])
    show ?thesis
    proof (cases "length ?n < length (ce_name ?p) \<and> take (length ?n) (ce_name ?p) = ?n")
      case False
      have stop: "has_file_loop istate ce pos True retval = (istate, retval)"
      proof (cases "length ?n < length (ce_name ?p)")
        case True
        then have "mem_cmp (take (length ?n) ?n) (take (length ?n) (ce_name ?p)) \<noteq> 0"
          using False by (subst mem_cmp_eq_0) auto
        then show ?thesis using \<open>pos < length ?c\<close> True len
          by (simp add: has_file_loop.simps [of istate ce pos] Let_def)
      qed (use \<open>pos < length ?c\<close> len in \<open>simp add: has_file_loop.simps [of istate ce pos] Let_def\<close>)
      have np: "take (length ?n) (ce_name ?p) \<noteq> ?n"
      proof
        assume t: "take (length ?n) (ce_name ?p) = ?n"
        then have "length (ce_name ?p) \<le> length ?n" using False by auto
        then have "ce_name ?p = ?n" using t by simp
        with after show False by simp
      qed
      have "\<not> df_conflict ce q" if q: "q \<in> set (drop pos ?c)" for q
      proof -
        obtain i where i: "pos \<le> i" "i < length ?c" "q = ?c ! i"
          using q by (metis in_set_conv_nth length_drop nth_drop le_add1 less_diff_conv add.commute less.prems(4))
        have "take (length ?n) (ce_name q) \<noteq> ?n"
          unfolding i(3) using lex_past_prefix [OF after np] index_ok_names [OF less.prems(1) i(1,2)] by blast
        then show ?thesis by (auto simp: df_conflict_def)
      qed
      then show ?thesis using stop less.prems(6,1) by simp
    next
      case pre: True
      then have mc: "mem_cmp (take (length ?n) ?n) (take (length ?n) (ce_name ?p)) = 0" by (simp add: mem_cmp_eq_0)
      have conf: "df_conflict ce ?p \<longleftrightarrow> ce_stage ?p = ce_stage ce \<and> byte_at (ce_name ?p) (length ?n) = CHR ''/'' \<and> live ?p"
        using pre prefix_byte [of "CHR ''/''" ?n "ce_name ?p"] less.prems(5) by (auto simp: df_conflict_def)
      show ?thesis
      proof (cases "df_conflict ce ?p")
        case False
        then have step: "has_file_loop istate ce (pos + 1) True retval = (istate', r)"
          using eq conf True pre mc len by (auto simp: live_def split: if_splits)
        have "name_after ?c ?n (pos + 1)" using less.prems(3) True
          by (auto simp: name_after_def dest: in_set_dropD) (metis Suc_n_not_le_n in_mono nat_le_linear set_drop_subset_set_drop)
        from less.hyps [OF _ less.prems(1,2) this _ less.prems(5) step] True
        have R: "index_ok (is_cache istate')" "take (pos + 1) (is_cache istate') = take (pos + 1) ?c"
          "r = - 1 \<or> r = retval \<and> istate' = istate" "set (is_cache istate') \<subseteq> set ?c"
          "\<forall>p\<in>set ?c - set (is_cache istate'). df_conflict ce p"
          "\<forall>p\<in>set (drop (pos + 1) (is_cache istate')). \<not> df_conflict ce p" by auto
        have t: "take pos (is_cache istate') = take pos ?c" "is_cache istate' ! pos = ?p"
          using take_Suc_same [of pos "is_cache istate'" ?c] R(2) by simp_all
        have "pos < length (is_cache istate')"
          using arg_cong [OF R(2), of length] True by simp
        then have "drop pos (is_cache istate') = ?p # drop (pos + 1) (is_cache istate')"
          using t(2) by (simp add: Cons_nth_drop_Suc [symmetric])
        then show ?thesis using R t(1) False by auto
      next
        case conflict: True
        let ?i = "fst (remove_index_entry_at istate pos)"
        have step: "has_file_loop ?i ce pos True (- 1) = (istate', r)"
          using eq conf conflict True pre mc len by (simp add: live_def)
        have c': "is_cache ?i = take pos ?c @ drop (pos + 1) ?c" by simp
        have ok: "index_ok (is_cache ?i)" unfolding c' using less.prems(1) True by (rule index_ok_remove_at)
        have "drop pos (is_cache ?i) = drop (pos + 1) ?c" "take pos (is_cache ?i) = take pos ?c"
          unfolding c' using True by simp_all
        then have na: "name_after (is_cache ?i) ?n pos" using less.prems(3) True
          by (auto simp: name_after_def dest: in_set_dropD) (metis Suc_n_not_le_n in_mono nat_le_linear set_drop_subset_set_drop)
        have "pos \<le> length (is_cache ?i)" "length (is_cache ?i) - pos < length ?c - pos" unfolding c' using True by simp_all
        from less.hyps [OF this(2) ok less.prems(2) na this(1) less.prems(5) step]
        have R: "index_ok (is_cache istate')" "take pos (is_cache istate') = take pos (is_cache ?i)" "r = - 1"
          "set (is_cache istate') \<subseteq> set (is_cache ?i)" "\<forall>p\<in>set (is_cache ?i) - set (is_cache istate'). df_conflict ce p"
          "\<forall>p\<in>set (drop pos (is_cache istate')). \<not> df_conflict ce p" by auto
        have "set ?c = insert ?p (set (is_cache ?i))"
          unfolding c' using id_take_nth_drop [OF True] by (metis Suc_eq_plus1 Un_insert_right list.simps(15) set_append)
        then show ?thesis using R conflict c' by auto
      qed
    qed
  qed
qed

lemma has_file_name_ok:
  assumes "index_ok (is_cache istate)" "wf_ce ce" "name_after (is_cache istate) (ce_name ce) pos" "pos \<le> length (is_cache istate)"
    "live ce" "has_file_name istate ce pos True = (istate', r)"
  shows "index_ok (is_cache istate')" "take pos (is_cache istate') = take pos (is_cache istate)"
    "r = - 1 \<or> r = 0 \<and> istate' = istate" "set (is_cache istate') \<subseteq> set (is_cache istate)"
    "\<forall>p\<in>set (is_cache istate) - set (is_cache istate'). df_conflict ce p"
    "\<forall>p\<in>set (drop pos (is_cache istate')). \<not> df_conflict ce p"
  using has_file_loop_ok [OF assms(1-5) assms(6) [unfolded has_file_name_def]] by auto

lemma prev_slash_None: "prev_slash name n = None \<Longrightarrow> i < n \<Longrightarrow> byte_at name i \<noteq> CHR ''/''"
  by (induction n) (auto split: if_splits simp: less_Suc_eq)

lemma prev_slash_Some: "prev_slash name n = Some k \<Longrightarrow> k < n \<and> byte_at name k = CHR ''/''
    \<and> (\<forall>i. k < i \<longrightarrow> i < n \<longrightarrow> byte_at name i \<noteq> CHR ''/'')"
  by (induction n) (auto split: if_splits simp: less_Suc_eq)

lemma create_ce_flags_key:
  assumes "len < 0xfff" "len \<le> length name" "stage < 4"
  shows "flags_key name (create_ce_flags len stage) = (take len name, stage)"
    "unat (create_ce_flags len stage AND CE_NAMEMASK) = len"
proof -
  let ?l = "of_nat len :: u32" and ?s = "of_nat stage :: u32"
  have u: "unat ?l = len" "unat ?s = stage" using assms by (simp_all add: unat_of_nat_small)
  have l: "take_bit 12 ?l = ?l" using assms(1) u by (intro word_unat_eq_iff [THEN iffD2]) (simp add: unsigned_take_bit_eq take_bit_nat_eq_self)
  have s: "take_bit 2 ?s = ?s" using assms(3) u by (intro word_unat_eq_iff [THEN iffD2]) (simp add: unsigned_take_bit_eq take_bit_nat_eq_self)
  have f: "create_ce_flags len stage = ?l OR push_bit 12 ?s" using assms(1) by (simp add: create_ce_flags_def Let_def)
  have m: "x AND 4095 = take_bit 12 x" for x :: u32 by (simp add: take_bit_eq_mask mask_eq_exp_minus_1)
  have n: "(12288 AND x :: u32) = push_bit 12 (take_bit 2 (drop_bit 12 x))" for x
  proof -
    have "(12288 :: u32) = push_bit 12 (mask 2)" by (simp add: mask_eq_exp_minus_1)
    then have "(12288 AND x :: u32) = push_bit 12 (mask 2) AND x" by (simp only:)
    also have "push_bit 12 w AND x = push_bit 12 (w AND drop_bit 12 x)" for w :: u32
      by (rule bit_eqI) (auto simp: bit_simps)
    finally show ?thesis by (simp only: take_bit_eq_mask and.commute)
  qed
  have "take_bit 12 (?l OR push_bit 12 ?s) = ?l"
    by (subst (2) l [symmetric]) (rule bit_eqI, auto simp: bit_simps)
  then have 1: "create_ce_flags len stage AND CE_NAMEMASK = ?l" unfolding f m .
  have drop_push: "drop_bit 12 (push_bit 12 (take_bit 2 w)) = take_bit 2 w" for w :: u32
    by (rule bit_eqI) (auto simp: bit_simps)
  have "take_bit 2 (drop_bit 12 (?l OR push_bit 12 ?s)) = ?s"
    by (subst s [symmetric], subst l [symmetric]) (rule bit_eqI, auto simp: bit_simps)
  then have 2: "drop_bit 12 (12288 AND create_ce_flags len stage) = ?s"
    unfolding f n drop_push by (simp only:)
  show "unat (create_ce_flags len stage AND CE_NAMEMASK) = len" using 1 u by simp
  show "flags_key name (create_ce_flags len stage) = (take len name, stage)"
    using 1 2 u by (simp add: flags_key_def)
qed

lemma stage_bound: "unat (drop_bit 12 (CE_STAGEMASK AND flags) :: u32) < 4"
proof -
  have "(CE_STAGEMASK AND flags :: u32) \<le> CE_STAGEMASK" by (rule word_and_le2)
  then have "unat (CE_STAGEMASK AND flags :: u32) \<le> 12288" by (simp add: word_le_nat_alt)
  then show ?thesis unfolding unat_drop_bit by (simp add: less_mult_imp_div_less)
qed

lemma ce_stage_bound: "ce_stage ce < 4"
  using stage_bound [of "ce_flags ce"] by (simp add: ce_stage_def)

lemma same_dir_entry_ok:
  assumes "index_ok cache" "same_dir_entry cache name len stage pos" "len \<le> length name"
  shows "\<exists>q\<in>set cache. live q \<and> ce_stage q = stage \<and> (\<exists>r. ce_name q = take len name @ CHR ''/'' # r)"
  using assms(2)
proof (induction "length cache - pos" arbitrary: pos rule: less_induct)
  case less
  let ?p = "cache ! pos"
  note eq = less.prems [unfolded same_dir_entry.simps [of cache name len stage pos] Let_def]
  have pos: "pos < length cache" using eq by (auto split: if_splits)
  have p: "?p \<in> set cache" using pos by simp
  then have w: "ce_namelen ?p = length (ce_name ?p)" using index_ok_wf [OF assms(1)] by simp
  have inside: "len < length (ce_name ?p)" "byte_at (ce_name ?p) len = CHR ''/''"
    "mem_cmp (take len (ce_name ?p)) (take len name) = 0" using eq w by (auto split: if_splits)
  then have "take len (ce_name ?p) = take len name" using assms(3) by (subst (asm) mem_cmp_eq_0) auto
  then have r: "\<exists>r. ce_name ?p = take len name @ CHR ''/'' # r"
  proof -
    have "length (take len name) = len" using assms(3) by simp
    with prefix_byte [of "CHR ''/''" "take len name" "ce_name ?p"] inside show ?thesis
      using \<open>take len (ce_name ?p) = take len name\<close> by simp
  qed
  show ?case
  proof (cases "ce_stage ?p = stage \<and> live ?p")
    case True
    then show ?thesis using p r by blast
  next
    case False
    then have "same_dir_entry cache name len stage (pos + 1)" using eq by (auto simp: live_def split: if_splits)
    moreover have "length cache - (pos + 1) < length cache - pos" using pos by simp
    ultimately show ?thesis using less.hyps by blast
  qed
qed

lemma index_key_unique: "index_ok cache \<Longrightarrow> i < length cache \<Longrightarrow> j < length cache
    \<Longrightarrow> ce_key (cache ! i) = ce_key (cache ! j) \<Longrightarrow> i = j"
  using index_ok_nth [of cache i j] index_ok_nth [of cache j i] by (metis less_irrefl linorder_neqE_nat)

lemma has_dir_loop_ok:
  assumes "index_ok (is_cache istate)" "wf_ce ce" "df_free (set (is_cache istate))" "slash \<le> length (ce_name ce)" "live ce"
    "has_dir_loop istate ce slash True retval = (istate', r)"
    "\<forall>p\<in>set (is_cache istate). df_conflict p ce \<longrightarrow> length (ce_name p) < slash"
  shows "index_ok (is_cache istate') \<and> (r = - 1 \<or> r = retval \<and> istate' = istate)
    \<and> set (is_cache istate') \<subseteq> set (is_cache istate)
    \<and> (\<forall>p\<in>set (is_cache istate) - set (is_cache istate'). df_conflict p ce)
    \<and> (\<forall>p\<in>set (is_cache istate'). \<not> df_conflict p ce)"
  using assms
proof (induction slash arbitrary: istate retval rule: less_induct)
  case (less slash)
  let ?c = "is_cache istate" and ?n = "ce_name ce" and ?s = "ce_stage ce"
  have slash_at: "byte_at ?n (length (ce_name p)) = CHR ''/''" if "df_conflict p ce" for p
    using that by (auto simp: df_conflict_def byte_at_def nth_append)
  note eq = less.prems(6) [unfolded has_dir_loop.simps [of istate ce slash]]
  show ?case
  proof (cases "prev_slash ?n slash")
    case None
    then have "\<forall>p\<in>set ?c. \<not> df_conflict p ce"
      using prev_slash_None less.prems(7) slash_at by blast
    then show ?thesis using eq None less.prems by auto
  next
    case (Some len)
    note L = prev_slash_Some [OF Some]
    have ln: "len < length ?n" using L less.prems(4) by linarith
    then have lf: "len < 0xfff" using less.prems(2) by (simp add: wf_ce_def)
    let ?f = "create_ce_flags len ?s"
    have key: "flags_key ?n ?f = (take len ?n, ?s)" "unat (?f AND CE_NAMEMASK) \<le> length ?n"
      using create_ce_flags_key [OF lf less_imp_le [OF ln] ce_stage_bound] ln by simp_all
    have shorter: "df_conflict p ce \<Longrightarrow> p \<in> set ?c \<Longrightarrow> length (ce_name p) \<le> len" for p
      using L slash_at less.prems(7) by (meson not_less)
    have at_len: "ce_key p = (take len ?n, ?s)" if "df_conflict p ce" "p \<in> set ?c" "length (ce_name p) = len" for p
      using that index_ok_wf [OF less.prems(1) that(2)] by (auto simp: df_conflict_def wf_key)
    show ?thesis
    proof (cases "\<exists>p. index_name_pos istate ?n ?f = int p \<and> live (?c ! p)")
      case True
      then obtain p where p: "index_name_pos istate ?n ?f = int p" "live (?c ! p)" by blast
      from index_name_pos_ok [OF less.prems(1) key(2)] p(1)
      have pl: "p < length ?c" "ce_key (?c ! p) = (take len ?n, ?s)" using key(1) by auto
      let ?i = "fst (remove_index_entry_at istate p)"
      have step: "has_dir_loop ?i ce len True (- 1) = (istate', r)" using eq Some p by (simp add: live_def)
      have c': "is_cache ?i = take p ?c @ drop (p + 1) ?c" by simp
      have sc: "set ?c = insert (?c ! p) (set (is_cache ?i))"
        unfolding c' using id_take_nth_drop [OF pl(1)] by (metis Suc_eq_plus1 Un_insert_right list.simps(15) set_append)
      have ok: "index_ok (is_cache ?i)" unfolding c' using less.prems(1) pl(1) by (rule index_ok_remove_at)
      have uniq: "ce_key q \<noteq> ce_key (?c ! p)" if "q \<in> set (is_cache ?i)" for q
      proof -
        have "index_ok (take p ?c @ ?c ! p # drop (p + 1) ?c)"
          using less.prems(1) id_take_nth_drop [OF pl(1)] by (metis Suc_eq_plus1)
        then show ?thesis using that unfolding c' index_ok_def sorted_wrt_append by auto
      qed
      have "\<forall>q\<in>set (is_cache ?i). df_conflict q ce \<longrightarrow> length (ce_name q) < len"
        using shorter at_len uniq sc pl(2) by (metis insertCI le_neq_implies_less)
      moreover have "df_free (set (is_cache ?i))" using less.prems(3) sc by (auto intro: df_free_subset)
      moreover have "len \<le> length ?n" using ln by simp
      ultimately have R: "index_ok (is_cache istate')" "r = - 1" "set (is_cache istate') \<subseteq> set (is_cache ?i)"
        "\<forall>p\<in>set (is_cache ?i) - set (is_cache istate'). df_conflict p ce" "\<forall>p\<in>set (is_cache istate'). \<not> df_conflict p ce"
        using less.IH [OF L [THEN conjunct1] ok less.prems(2) _ _ less.prems(5) step] by auto
      have "wf_ce (?c ! p)" using pl(1) by (intro index_ok_wf [OF less.prems(1)]) simp
      then have "ce_name (?c ! p) = take len ?n" "ce_stage (?c ! p) = ?s" using pl(2) by (simp_all add: wf_key)
      moreover have "\<exists>r. ?n = take len ?n @ CHR ''/'' # r"
        using prefix_byte [of "CHR ''/''" "take len ?n" ?n] L ln by (simp add: min_def)
      ultimately have "df_conflict (?c ! p) ce" using p(2) less.prems(5) by (simp add: df_conflict_def)
      then show ?thesis using R sc by auto
    next
      case False
      have no_len: "length (ce_name q) < len" if q1: "q \<in> set ?c" and q2: "df_conflict q ce" for q
      proof (rule ccontr)
        assume "\<not> length (ce_name q) < len"
        then have "length (ce_name q) = len" using shorter [OF q2 q1] by simp
        from at_len [OF q2 q1 this] have k: "ce_key q = flags_key ?n ?f" unfolding key(1) .
        obtain j where j: "j < length ?c" "q = ?c ! j" using q1 unfolding in_set_conv_nth by blast
        from index_name_pos_ok [OF less.prems(1) key(2)] show False
        proof (elim disjE exE conjE)
          fix p assume "index_name_pos istate ?n ?f = int p" "p < length ?c" "ce_key (?c ! p) = flags_key ?n ?f"
          then have "p = j" using k j index_key_unique [OF less.prems(1)] by metis
          then show False using False \<open>index_name_pos istate ?n ?f = int p\<close> j q2 by (auto simp: df_conflict_def)
        next
          fix p assume "gap ?c (flags_key ?n ?f) p"
          then show False using k j unfolding gap_def by (metis less_irrefl not_less)
        qed
      qed
      have noneg: "\<not> (index_name_pos istate ?n ?f \<ge> 0 \<and> \<not> has_flag (?c ! nat (index_name_pos istate ?n ?f)) CE_REMOVE)"
        using False by (auto simp: live_def zero_le_imp_eq_int dest!: zero_le_imp_eq_int)
      let ?pos = "nat (if index_name_pos istate ?n ?f \<ge> 0 then index_name_pos istate ?n ?f else - index_name_pos istate ?n ?f - 1)"
      show ?thesis
      proof (cases "same_dir_entry ?c ?n len ?s ?pos")
        case True
        from same_dir_entry_ok [OF less.prems(1) True less_imp_le [OF ln]] obtain q t where
          q: "q \<in> set ?c" "live q" "ce_stage q = ?s" "ce_name q = take len ?n @ CHR ''/'' # t" by blast
        have "\<not> df_conflict p ce" if p: "p \<in> set ?c" for p
        proof
          assume c: "df_conflict p ce"
          then obtain u where u: "?n = ce_name p @ CHR ''/'' # u" by (auto simp: df_conflict_def)
          have "take len ?n = ce_name p @ CHR ''/'' # take (len - Suc (length (ce_name p))) u"
            using no_len [OF p c] by (subst u) (simp add: take_Cons')
          then have "df_conflict p q" using q c by (auto simp: df_conflict_def)
          then show False using less.prems(3) p q(1) by (auto simp: df_free_def)
        qed
        moreover have "istate' = istate" "r = retval"
          using eq Some noneg True by (simp_all add: Let_def)
        ultimately show ?thesis using less.prems(1) by auto
      next
        case no: False
        then have "has_dir_loop istate ce len True retval = (istate', r)"
          using eq Some noneg by (simp add: Let_def)
        from less.IH [OF L [THEN conjunct1] less.prems(1-3) _ less.prems(5) this] no_len ln
        show ?thesis by auto
      qed
    qed
  qed
qed

lemma gap_sets: "gap cache k p \<longleftrightarrow> p \<le> length cache \<and> (\<forall>e\<in>set (take p cache). ce_key e < k) \<and> (\<forall>e\<in>set (drop p cache). k < ce_key e)"
proof -
  have A: "(\<forall>e\<in>set (take p cache). ce_key e < k) \<longleftrightarrow> (\<forall>i<p. ce_key (cache ! i) < k)" if "p \<le> length cache"
    unfolding nth_image [OF that, symmetric] by auto
  have B: "(\<forall>e\<in>set (drop p cache). k < ce_key e) \<longleftrightarrow> (\<forall>i. p \<le> i \<longrightarrow> i < length cache \<longrightarrow> k < ce_key (cache ! i))"
    if "p \<le> length cache"
  proof -
    have "x \<in> set (drop p cache) \<longleftrightarrow> (\<exists>i. p \<le> i \<and> i < length cache \<and> x = cache ! i)" for x
    proof
      assume "x \<in> set (drop p cache)"
      then obtain i where "i < length cache - p" "x = cache ! (p + i)" using that by (auto simp: in_set_conv_nth)
      then show "\<exists>i. p \<le> i \<and> i < length cache \<and> x = cache ! i" by (intro exI [of _ "p + i"]) simp
    next
      assume "\<exists>i. p \<le> i \<and> i < length cache \<and> x = cache ! i"
      then obtain i where "p \<le> i" "i < length cache" "x = cache ! i" by blast
      then show "x \<in> set (drop p cache)"
        using nth_mem [of "i - p" "drop p cache"] by simp
    qed
    note m = this
    show ?thesis unfolding Ball_def m by auto
  qed
  show ?thesis
  proof (cases "p \<le> length cache")
    case True
    show ?thesis unfolding gap_def A [OF True] B [OF True] by (rule refl)
  next
    case False
    then show ?thesis unfolding gap_def by (simp only: simp_thms)
  qed
qed

lemma index_ok_insert:
  assumes "index_ok cache" "wf_ce e" "gap cache (ce_key e) p"
  shows "index_ok (take p cache @ [e] @ drop p cache)"
proof -
  have "index_ok (take p cache @ drop p cache)" using assms(1) by simp
  then show ?thesis using assms(2,3) unfolding index_ok_def gap_sets sorted_wrt_append
    by (auto simp: list_all_iff dest: in_set_takeD in_set_dropD intro: less_trans)
qed

lemma drop_unmerged_ok:
  assumes "index_ok (is_cache istate)" "wf_ce ce" "drop_unmerged istate ce pos ok = (istate', ok')" "pos \<le> length (is_cache istate)"
  shows "is_cache istate' = take pos (is_cache istate) @ dropWhile (\<lambda>p. ce_name p = ce_name ce) (drop pos (is_cache istate))
    \<and> (ok \<longrightarrow> ok')"
  using assms
proof (induction "length (is_cache istate)" arbitrary: istate ok rule: less_induct)
  case less
  let ?c = "is_cache istate"
  note eq = less.prems(3) [unfolded drop_unmerged.simps [of istate ce pos]]
  show ?case
  proof (cases "pos < length ?c")
    case False
    then show ?thesis using eq less.prems(4) by auto
  next
    case True
    let ?p = "?c ! pos"
    have d: "drop pos ?c = ?p # drop (pos + 1) ?c" using True by (simp add: Cons_nth_drop_Suc)
    have "?p \<in> set ?c" using True by simp
    then have "wf_ce ?p" by (rule index_ok_wf [OF less.prems(1)])
    then have same: "ce_same_name ?p ce \<longleftrightarrow> ce_name ?p = ce_name ce"
      using less.prems(2) by (auto simp: ce_same_name_def Let_def mem_cmp_eq_0)
    show ?thesis
    proof (cases "ce_name ?p = ce_name ce")
      case False
      then have "istate' = istate" "ok' = ok" using eq True same by auto
      then show ?thesis using False by (simp add: d) (simp add: id_take_nth_drop [OF True, symmetric])
    next
      case eqn: True
      obtain i more where r: "remove_index_entry_at istate pos = (i, more)" by force
      have c': "is_cache i = take pos ?c @ drop (pos + 1) ?c"
        using remove_index_entry_at_cache [of istate pos] r by simp
      have more: "more \<longleftrightarrow> pos < length (is_cache i)"
        using r by (auto simp: remove_index_entry_at_def record_resolve_undo_def Let_def)
      show ?thesis
      proof (cases more)
        case False
        then have "drop (pos + 1) ?c = []" "istate' = i" "ok'" using more c' True eq eqn same r by auto
        then show ?thesis using c' d eqn by simp
      next
        case go: True
        then have "drop_unmerged i ce pos True = (istate', ok')" using eq True eqn same r by simp
        moreover have "index_ok (is_cache i)" unfolding c' using less.prems(1) True by (rule index_ok_remove_at)
        ultimately have R: "is_cache istate' = take pos (is_cache i) @ dropWhile (\<lambda>p. ce_name p = ce_name ce) (drop pos (is_cache i)) \<and> ok'"
          using less.hyps [of i True] less.prems(2) more go c' True by auto
        have "take pos (is_cache i) = take pos ?c" "drop pos (is_cache i) = drop (pos + 1) ?c"
          using True by (simp_all add: c')
        with R d eqn show ?thesis by simp
      qed
    qed
  qed
qed

lemma names_past: "sorted_wrt (\<lambda>a b. ce_name a \<le> ce_name b) ds \<Longrightarrow> \<forall>p\<in>set ds. n \<le> ce_name p
    \<Longrightarrow> p \<in> set (dropWhile (\<lambda>p. ce_name p = n) ds) \<Longrightarrow> n < ce_name p"
proof (induction ds)
  case (Cons d ds)
  show ?case
  proof (cases "ce_name d = n")
    case False
    then have "n < ce_name d" using Cons.prems(2) by auto
    then show ?thesis using Cons.prems False by (auto intro: less_le_trans)
  qed (use Cons in auto)
qed simp

lemma index_ok_sublist: "index_ok (xs @ ys) \<Longrightarrow> index_ok (xs @ dropWhile P ys)"
  unfolding index_ok_def sorted_wrt_append
  by (auto simp: list_all_iff dest: set_dropWhileD intro: sorted_wrt_dropWhile)

lemma index_ok_names_wrt: "index_ok cache \<Longrightarrow> sorted_wrt (\<lambda>a b. ce_name a \<le> ce_name b) cache"
  unfolding sorted_wrt_iff_nth_less using index_ok_names by fastforce

lemma index_ok_same_keys: "index_ok xs \<Longrightarrow> map ce_key ys = map ce_key xs \<Longrightarrow> \<forall>y\<in>set ys. wf_ce y \<Longrightarrow> index_ok ys"
  unfolding index_ok_def by (simp add: list_all_iff sorted_wrt_map [of _ ce_key, symmetric])

text \<open>Marking an entry as not in the hash does not change what the order and the conflicts see.\<close>

lemma and_not_other: "(f AND NOT u) AND m = f AND m" "m AND (f AND NOT u) = m AND f"
  if "u AND m = 0" for f u m :: u32
proof -
  have b: "\<not> (bit u n \<and> bit m n)" for n using arg_cong [OF that, of "\<lambda>w. bit w n"] by (simp add: bit_simps)
  show "(f AND NOT u) AND m = f AND m" "m AND (f AND NOT u) = m AND f"
    by (rule bit_eqI; use b in \<open>auto simp: bit_simps\<close>)+
qed

lemma clear_other:
  assumes "u AND CE_NAMEMASK = 0" "u AND CE_STAGEMASK = 0" "u AND CE_REMOVE = 0"
  shows "ce_name (clear_flags u ce) = ce_name ce" "ce_key (clear_flags u ce) = ce_key ce"
    "ce_stage (clear_flags u ce) = ce_stage ce" "live (clear_flags u ce) = live ce"
    "wf_ce (clear_flags u ce) = wf_ce ce"
  unfolding ce_key_def flags_key_def ce_stage_def live_def has_flag_def wf_ce_def clear_flags_def
  by (simp_all add: and_not_other [OF assms(1)] and_not_other [OF assms(2)] and_not_other [OF assms(3)])

lemma clear_unhashed [simp]:
  "ce_name (clear_flags CE_UNHASHED ce) = ce_name ce" "ce_key (clear_flags CE_UNHASHED ce) = ce_key ce"
  "ce_stage (clear_flags CE_UNHASHED ce) = ce_stage ce" "live (clear_flags CE_UNHASHED ce) = live ce"
  "wf_ce (clear_flags CE_UNHASHED ce) = wf_ce ce"
  by (rule clear_other; simp)+

lemma df_conflict_unhashed [simp]:
  "df_conflict (clear_flags CE_UNHASHED ce) p = df_conflict ce p" "df_conflict p (clear_flags CE_UNHASHED ce) = df_conflict p ce"
  by (simp_all add: df_conflict_def)

lemma df_conflict_irrefl: "\<not> df_conflict p p"
  by (auto simp: df_conflict_def)

lemma df_free_insert: "df_free S \<Longrightarrow> \<forall>p\<in>S. \<not> df_conflict ce p \<and> \<not> df_conflict p ce \<Longrightarrow> df_free (insert (clear_flags CE_UNHASHED ce) S)"
  by (auto simp: df_free_def df_conflict_irrefl)

text \<open>When an insertion is at home: no tombstone holds its place, and no entry of the path has a
  higher stage unless they are all about to go.\<close>

definition add_ready :: "cache_entry list \<Rightarrow> cache_entry \<Rightarrow> bool" where
  "add_ready cache ce \<longleftrightarrow>
     (\<forall>p\<in>set cache. ce_name p = ce_name ce \<longrightarrow> (ce_stage p = ce_stage ce \<longrightarrow> live p \<or> \<not> live ce)
       \<and> (ce_stage ce \<noteq> 0 \<longrightarrow> ce_stage p \<le> ce_stage ce))"

lemma add_index_entry_ok:
  assumes ok: "index_ok (is_cache istate)" and wf: "wf_ce ce" and df: "df_free (set (is_cache istate))"
    and ready: "add_ready (is_cache istate) ce" and add: "add_index_entry istate ce 3 = (istate', r)"
  shows "index_ok (is_cache istate')" "df_free (set (is_cache istate'))"
    "verify_path (ce_name ce) \<Longrightarrow> r = 0 \<and> clear_flags CE_UNHASHED ce \<in> set (is_cache istate')"
    "set (is_cache istate') \<subseteq> insert (clear_flags CE_UNHASHED ce) (set (is_cache istate))"
    "\<forall>p\<in>set (is_cache istate) - set (is_cache istate'). ce_name p = ce_name ce \<or> df_conflict ce p \<or> df_conflict p ce"
proof -
  let ?c = "is_cache istate" and ?k = "ce_key ce" and ?e = "clear_flags CE_UNHASHED ce"
  have key: "flags_key (ce_name ce) (ce_flags ce) = ?k" by (simp add: ce_key_def)
  have "unat (ce_flags ce AND CE_NAMEMASK) \<le> length (ce_name ce)" using wf by (simp add: wf_ce_def)
  note pos = index_name_pos_ok [OF _ this, unfolded key]
  have "index_ok (is_cache istate') \<and> df_free (set (is_cache istate'))
    \<and> (verify_path (ce_name ce) \<longrightarrow> r = 0 \<and> ?e \<in> set (is_cache istate'))
    \<and> set (is_cache istate') \<subseteq> insert ?e (set ?c)
    \<and> (\<forall>p\<in>set ?c - set (is_cache istate'). ce_name p = ce_name ce \<or> df_conflict ce p \<or> df_conflict p ce)"
    using pos [OF ok]
  proof (elim disjE exE conjE)
    fix p assume p: "index_name_pos istate (ce_name ce) (ce_flags ce) = int p" "p < length ?c" "ce_key (?c ! p) = ?k"
    have r: "istate' = replace_index_entry istate p ce" "r = 0"
      using add p by (auto simp: add_index_entry_def add_index_entry_with_check_def Let_def)
    have c': "is_cache istate' = ?c[p := ?e]" using r by (simp add: replace_index_entry_def set_index_entry_def)
    have sp: "?c ! p \<in> set ?c" using p(2) by simp
    have old: "ce_name (?c ! p) = ce_name ce" "ce_stage (?c ! p) = ce_stage ce"
      using p(3) wf index_ok_wf [OF ok sp] by (simp_all add: wf_key)
    have "map ce_key (?c[p := ?e]) = map ce_key ?c" using p(2,3) by (simp add: map_update list_update_same_conv)
    then have "index_ok (?c[p := ?e])" by (rule index_ok_same_keys [OF ok]) (use index_ok_wf [OF ok] wf set_update_subset_insert in fastforce)
    moreover have "live ce \<Longrightarrow> live (?c ! p)" using ready sp old by (auto simp: add_ready_def)
    then have "df_conflict ?e q \<Longrightarrow> df_conflict (?c ! p) q" "df_conflict q ?e \<Longrightarrow> df_conflict q (?c ! p)" for q
      using old by (auto simp: df_conflict_def)
    then have "df_free (insert ?e (set ?c))" using df sp df_conflict_irrefl
      unfolding df_free_def by (metis insertE)
    then have "df_free (set (?c[p := ?e]))" by (rule df_free_subset) (rule set_update_subset_insert)
    moreover have "?e \<in> set (?c[p := ?e])" using p(2) by (rule set_update_memI)
    moreover have "set (?c[p := ?e]) \<subseteq> insert ?e (set ?c)" by (rule set_update_subset_insert)
    moreover have "\<forall>q\<in>set ?c - set (?c[p := ?e]). ce_name q = ce_name ce"
    proof
      fix q assume q: "q \<in> set ?c - set (?c[p := ?e])"
      then obtain i where i: "i < length ?c" "q = ?c ! i" by (metis DiffD1 in_set_conv_nth)
      have "i = p" using q i by (metis DiffD2 length_list_update nth_list_update_neq nth_mem)
      then show "ce_name q = ce_name ce" using i old by simp
    qed
    ultimately show ?thesis unfolding c' using r(2) by blast
  next
    fix p assume p: "index_name_pos istate (ce_name ce) (ce_flags ce) = - int p - 1" "gap ?c ?k p"
    then have pl: "p \<le> length ?c" by (simp add: gap_def)
    obtain i1 ok1 where i1: "(if p < length ?c \<and> ce_stage ce = 0 then drop_unmerged istate ce p True else (istate, True)) = (i1, ok1)"
      by force
    have c1: "is_cache i1 = take p ?c @ dropWhile (\<lambda>q. ce_stage ce = 0 \<and> ce_name q = ce_name ce) (drop p ?c)" "ok1"
      using i1 drop_unmerged_ok [OF ok wf _ pl, of True i1 ok1] pl by (auto split: if_splits)
    have s1: "set (is_cache i1) \<subseteq> set ?c"
      unfolding c1 by (auto dest: in_set_takeD set_dropWhileD in_set_dropD)
    have lost1: "\<forall>q\<in>set ?c - set (is_cache i1). ce_name q = ce_name ce"
    proof
      fix q assume "q \<in> set ?c - set (is_cache i1)"
      then have "q \<in> set (takeWhile (\<lambda>q. ce_stage ce = 0 \<and> ce_name q = ce_name ce) (drop p ?c))"
        unfolding c1 by (metis (no_types, lifting) DiffE UnE append_take_drop_id set_append takeWhile_dropWhile_id UnI1 UnI2)
      then show "ce_name q = ce_name ce" by (auto dest: set_takeWhileD)
    qed
    have ok1: "index_ok (is_cache i1)" unfolding c1 by (rule index_ok_sublist) (use ok in simp)
    have t1: "take p (is_cache i1) = take p ?c" "drop p (is_cache i1) = dropWhile (\<lambda>q. ce_stage ce = 0 \<and> ce_name q = ce_name ce) (drop p ?c)"
      unfolding c1 using pl by simp_all
    have gap1: "gap (is_cache i1) ?k p"
      unfolding gap_sets t1 using p(2) pl c1 by (auto simp: gap_sets dest: set_dropWhileD)
    have after: "name_after (is_cache i1) (ce_name ce) p"
      unfolding name_after_def t1
    proof
      fix q assume q: "q \<in> set (dropWhile (\<lambda>q. ce_stage ce = 0 \<and> ce_name q = ce_name ce) (drop p ?c))"
      then have qd: "q \<in> set (drop p ?c)" by (rule set_dropWhileD)
      have ge: "ce_name ce \<le> ce_name x \<and> (ce_name x = ce_name ce \<longrightarrow> ce_stage ce < ce_stage x)" if "x \<in> set (drop p ?c)" for x
      proof -
        have "?k < ce_key x" using that p(2) by (auto simp: gap_sets)
        moreover have "wf_ce x" by (rule index_ok_wf [OF ok]) (use that in_set_dropD in metis)
        ultimately show ?thesis using wf by (auto simp: wf_key less_prod_simp)
      qed
      show "ce_name ce < ce_name q"
      proof (cases "ce_stage ce = 0")
        case True
        have "sorted_wrt (\<lambda>a b. ce_name a \<le> ce_name b) (drop p ?c)"
          using index_ok_names_wrt [OF ok] by (rule sorted_wrt_drop)
        from names_past [OF this] ge q True show ?thesis by auto
      next
        case False
        have "q \<in> set ?c" using qd by (rule in_set_dropD)
        then have "ce_name q \<noteq> ce_name ce" using ge [OF qd] ready False by (auto simp: add_ready_def)
        then show ?thesis using ge [OF qd] by auto
      qed
    qed
    have pl1: "p \<le> length (is_cache i1)" using gap1 by (simp add: gap_def)
    have df1: "df_free (set (is_cache i1))" by (rule df_free_subset [OF df s1])
    have absent: "\<forall>q\<in>set (is_cache i1). ce_key q \<noteq> ?k"
      using gap1 unfolding gap_sets by (metis Un_iff append_take_drop_id less_irrefl set_append)
    have head: "add_index_entry_with_check istate ce 3 =
        (if \<not> verify_path (ce_name ce) then (i1, - 1)
         else let (i2, conflict) = check_file_directory_conflict i1 ce p True in
           if conflict \<noteq> 0 then (i2, (- index_name_pos i2 (ce_name ce) (ce_flags ce) - 1) + 1) else (i2, int p + 1))"
    proof -
      have e: "nat (- (- int p - 1) - 1) = p" "(- int p - 1 \<ge> 0) = False" "(3 AND 1 \<noteq> (0 :: nat)) = True" "- (- int p - 1) - 1 = int p"
        "(3 AND 2 \<noteq> (0 :: nat)) = True" "(3 AND 4 \<noteq> (0 :: nat)) = False" by simp_all
      show ?thesis unfolding add_index_entry_with_check_def Let_def p(1) e nat_int i1 prod.case if_False if_True not_True_eq_False
        using c1(2) by (simp split del: if_split)
    qed
    show ?thesis
    proof (cases "verify_path (ce_name ce)")
      case False
      then have "istate' = i1" using add head by (simp add: add_index_entry_def)
      then show ?thesis using ok1 df1 s1 lost1 False by auto
    next
      case True
      obtain i2 conflict where i2: "check_file_directory_conflict i1 ce p True = (i2, conflict)" by force
      have C: "index_ok (is_cache i2) \<and> set (is_cache i2) \<subseteq> set (is_cache i1) \<and> (conflict = 0 \<longrightarrow> i2 = i1)
        \<and> (\<forall>q\<in>set (is_cache i1) - set (is_cache i2). df_conflict ce q \<or> df_conflict q ce)
        \<and> (\<forall>q\<in>set (is_cache i2). \<not> df_conflict ce q \<and> \<not> df_conflict q ce)"
      proof (cases "live ce")
        case False
        then have "i2 = i1" using i2 by (simp add: check_file_directory_conflict_def live_def)
        then show ?thesis using False ok1 by (auto simp: df_conflict_def)
      next
        case live: True
        obtain ia ra ib rb where ab: "has_file_name i1 ce p True = (ia, ra)" "has_dir_name ia ce True = (ib, rb)"
          by (metis surj_pair)
        then have i2': "i2 = ib" "conflict = ra + rb"
          using i2 live by (simp_all add: check_file_directory_conflict_def live_def)
        note A = has_file_name_ok [OF ok1 wf after pl1 live ab(1)]
        have dfa: "df_free (set (is_cache ia))" by (rule df_free_subset [OF df1 A(4)])
        have "\<forall>q\<in>set (is_cache ia). df_conflict q ce \<longrightarrow> length (ce_name q) < length (ce_name ce)"
          by (auto simp: df_conflict_def)
        from has_dir_loop_ok [OF A(1) wf dfa le_refl live _ this] ab(2) wf
        have B: "index_ok (is_cache ib)" "rb = - 1 \<or> rb = 0 \<and> ib = ia" "set (is_cache ib) \<subseteq> set (is_cache ia)"
          "\<forall>q\<in>set (is_cache ia) - set (is_cache ib). df_conflict q ce" "\<forall>q\<in>set (is_cache ib). \<not> df_conflict q ce"
          by (simp_all add: has_dir_name_def)
        have "\<not> df_conflict ce q" if q: "q \<in> set (is_cache ia)" for q
        proof (cases "q \<in> set (drop p (is_cache ia))")
          case True
          then show ?thesis using A(6) by blast
        next
          case False
          then have "q \<in> set (take p (is_cache i1))"
            using q A(2) by (metis UnE append_take_drop_id set_append)
          then have "ce_key q < ?k" using gap1 by (auto simp: gap_sets)
          moreover have "wf_ce q" using q A(1) index_ok_wf by blast
          ultimately have "ce_name q \<le> ce_name ce" using wf by (auto simp: wf_key less_prod_simp)
          moreover have "x < x @ c # y" for x y :: string and c by (induction x) simp_all
          ultimately show ?thesis by (auto simp: df_conflict_def dest: leD)
        qed
        then show ?thesis using A B i2' by auto
      qed
      have sub: "set (is_cache i2) \<subseteq> set ?c" using C s1 by blast
      have "\<exists>p2. gap (is_cache i2) ?k p2 \<and> add_index_entry_with_check istate ce 3 = (i2, int p2 + 1)"
      proof (cases "conflict = 0")
        case True
        then show ?thesis using head C gap1 i2 \<open>verify_path (ce_name ce)\<close> by auto
      next
        case False
        have "index_ok (is_cache i2)" using C by blast
        from pos [OF this] obtain p2 where p2: "index_name_pos i2 (ce_name ce) (ce_flags ce) = - int p2 - 1" "gap (is_cache i2) ?k p2"
          using C absent by (metis nth_mem subsetD)
        then show ?thesis using head False i2 \<open>verify_path (ce_name ce)\<close> by auto
      qed
      then obtain p2 where p2: "gap (is_cache i2) ?k p2" "add_index_entry_with_check istate ce 3 = (i2, int p2 + 1)" by blast
      have l2: "p2 \<le> length (is_cache i2)" using p2(1) by (simp add: gap_def)
      have c': "is_cache istate' = take p2 (is_cache i2) @ [?e] @ drop p2 (is_cache i2)" "r = 0"
        using add p2(2) l2 by (auto simp: add_index_entry_def set_index_entry_def list_update_append)
      have s': "set (is_cache istate') = insert ?e (set (is_cache i2))"
        unfolding c' by (metis Un_insert_right append_Cons append_Nil append_take_drop_id list.simps(15) set_append)
      have "index_ok (is_cache istate')" unfolding c' using C wf p2(1) by (intro index_ok_insert) simp_all
      moreover have "df_free (set (is_cache istate'))"
        unfolding s' using C by (intro df_free_insert df_free_subset [OF df sub]) blast
      ultimately show ?thesis using s' sub c'(2) lost1 C by auto
    qed
  qed
  then show "index_ok (is_cache istate')" "df_free (set (is_cache istate'))"
    "verify_path (ce_name ce) \<Longrightarrow> r = 0 \<and> clear_flags CE_UNHASHED ce \<in> set (is_cache istate')"
    "set (is_cache istate') \<subseteq> insert (clear_flags CE_UNHASHED ce) (set (is_cache istate))"
    "\<forall>p\<in>set (is_cache istate) - set (is_cache istate'). ce_name p = ce_name ce \<or> df_conflict ce p \<or> df_conflict p ce"
    by auto
qed

subsection \<open>Paths and their components\<close>

fun split_path :: "string \<Rightarrow> string list" where
  "split_path [] = [[]]"
| "split_path (c # cs) = (if c = CHR ''/'' then [] # split_path cs
     else (c # hd (split_path cs)) # tl (split_path cs))"

definition good_component :: "string \<Rightarrow> bool" where
  "good_component w \<longleftrightarrow> w \<notin> {[], ''.'', ''..'', ''.git''}"

lemma split_path_cons: "split_path s = hd (split_path s) # tl (split_path s)"
  by (cases s) auto

lemma split_hd: "hd (split_path s) = takeWhile (\<lambda>c. c \<noteq> CHR ''/'') s"
  by (induction s) auto

lemma first_component:
  assumes "CHR 0x00 \<notin> set s"
  shows "hd (split_path s) = [] \<longleftrightarrow> cstr_hd s = CHR 0x00 \<or> cstr_hd s = CHR ''/''"
    "x \<noteq> CHR 0x00 \<Longrightarrow> x \<noteq> CHR ''/'' \<Longrightarrow> hd (split_path s) = x # w \<longleftrightarrow> cstr_hd s = x \<and> hd (split_path (tl s)) = w"
  using assms by (cases s; auto simp: cstr_hd_def)+

lemma byte_at_cstr: "byte_at s 0 = cstr_hd s" "byte_at s (Suc n) = byte_at (tl s) n"
  by (cases s; simp add: byte_at_def cstr_hd_def)+

lemma verify_dotfile_split:
  assumes "CHR 0x00 \<notin> set s"
  shows "verify_dotfile s \<longleftrightarrow> hd (split_path s) \<notin> {[], ''.'', ''git''}"
proof -
  have t: "CHR 0x00 \<notin> set (tl t)" if "CHR 0x00 \<notin> set t" for t :: string using that by (cases t) auto
  note a = assms and b = t [OF assms] and c = t [OF t [OF assms]] and d = t [OF t [OF t [OF assms]]]
  have g: "hd (split_path s) = ''git'' \<longleftrightarrow> cstr_hd s = CHR ''g'' \<and> cstr_hd (tl s) = CHR ''i''
      \<and> cstr_hd (tl (tl s)) = CHR ''t'' \<and> (cstr_hd (tl (tl (tl s))) = CHR 0x00 \<or> cstr_hd (tl (tl (tl s))) = CHR ''/'')"
    using first_component(2) [OF a, of "CHR ''g''" "''it''"] first_component(2) [OF b, of "CHR ''i''" "''t''"]
      first_component(2) [OF c, of "CHR ''t''" "[]"] first_component(1) [OF d] by simp
  have p: "hd (split_path s) = ''.'' \<longleftrightarrow> cstr_hd s = CHR ''.'' \<and> (cstr_hd (tl s) = CHR 0x00 \<or> cstr_hd (tl s) = CHR ''/'')"
    using first_component(2) [OF a, of "CHR ''.''" "[]"] first_component(1) [OF b] by simp
  have n: "byte_at s 1 = cstr_hd (tl s)" "byte_at s 2 = cstr_hd (tl (tl s))" "byte_at s 3 = cstr_hd (tl (tl (tl s)))"
    by (simp_all add: byte_at_cstr numeral_eq_Suc)
  show ?thesis
    unfolding verify_dotfile_def is_dir_sep_def n byte_at_cstr(1) insert_iff empty_iff g p first_component(1) [OF a]
    by auto
qed

lemma verify_path_loop_split:
  assumes "CHR 0x00 \<notin> set path"
  shows "verify_path_loop c path \<longleftrightarrow> c = CHR 0x00
    \<or> list_all good_component (if c = CHR ''/'' then split_path path else tl (split_path path))"
  using assms
proof (induction "length path" arbitrary: c path rule: less_induct)
  case less
  have step: "verify_path_loop (cstr_hd (d # q)) (tl (d # q))
      \<longleftrightarrow> list_all good_component (tl (split_path (if d = CHR ''/'' then CHR ''x'' # d # q else d # q)))"
    if "length q < length path" "CHR 0x00 \<notin> set (d # q)" for d q
    using less.hyps [OF that(1), of d] that(2) by (auto simp: cstr_hd_def)
  have nil: "verify_path_loop (cstr_hd []) (tl []) \<longleftrightarrow> True"
    by (simp add: cstr_hd_def verify_path_loop.simps)
  show ?case
  proof (cases "c = CHR 0x00")
    case c: False
    show ?thesis
    proof (cases path)
      case Nil
      then show ?thesis using c
        by (simp add: verify_path_loop.simps [of c] verify_path_loop.simps [of "CHR 0x00"] cstr_hd_def is_dir_sep_def good_component_def)
    next
      case (Cons d q)
      have d: "d \<noteq> CHR 0x00" "CHR 0x00 \<notin> set q" using less.prems Cons by auto
      have tail: "verify_path_loop (cstr_hd q) (tl q) \<longleftrightarrow> list_all good_component (tl (split_path (CHR ''x'' # q)))"
      proof (cases q)
        case Nil
        then show ?thesis using nil by simp
      next
        case (Cons e r)
        then show ?thesis using less.hyps [of r e] \<open>path = d # q\<close> d by (auto simp: cstr_hd_def)
      qed
      show ?thesis
      proof (cases "c = CHR ''/''")
        case True
        show ?thesis
        proof (cases "d = CHR ''/''")
          case True
          have "\<not> verify_path_loop (CHR ''/'') (CHR ''/'' # q)"
            by (simp add: verify_path_loop.simps [of "CHR ''/''" "CHR ''/'' # q"] cstr_hd_def is_dir_sep_def)
          then show ?thesis using \<open>c = CHR ''/''\<close> Cons True by (simp add: good_component_def)
        next
          case False
          have "good_component (d # hd (split_path q)) \<longleftrightarrow> \<not> (d = CHR ''.'' \<and> \<not> verify_dotfile q)"
            using verify_dotfile_split [OF d(2)] by (auto simp: good_component_def)
          moreover have "verify_path_loop (CHR ''/'') (d # q) \<longleftrightarrow> \<not> (d = CHR ''.'' \<and> \<not> verify_dotfile q)
              \<and> verify_path_loop (cstr_hd q) (tl q)"
            using False d by (simp add: verify_path_loop.simps [of "CHR ''/''" "d # q"] cstr_hd_def is_dir_sep_def)
          ultimately show ?thesis using True False Cons tail by simp
        qed
      next
        case False
        have "verify_path_loop c path = verify_path_loop d q"
          using c False Cons by (simp add: verify_path_loop.simps [of c] cstr_hd_def is_dir_sep_def)
        then show ?thesis using less.hyps [of q d] Cons d False c by (simp split: if_splits)
      qed
    qed
  qed (simp add: verify_path_loop.simps)
qed

text \<open>C32. \<open>verify_path\<close> accepts exactly the paths all of whose components, between the slashes,
  are nonempty and none of \<open>.\<close>, \<open>..\<close> and \<open>.git\<close>.\<close>

theorem verify_path_components:
  assumes "CHR 0x00 \<notin> set path"
  shows "verify_path path \<longleftrightarrow> list_all good_component (split_path path)"
  using verify_path_loop_split [OF assms, of "CHR ''/''"] by (simp add: verify_path_def)

theorem verify_path_components_witness:
  "CHR 0x00 \<notin> set ''a/.gitx/..b'' \<and> verify_path ''a/.gitx/..b''"
  using verify_path_components [of "''a/.gitx/..b''"] by (simp add: good_component_def)

subsection \<open>What the operations promise\<close>

text \<open>On a well-formed index \<open>index_name_pos\<close> returns the position of the entry with the given name
  and stage, or else the encoded position at which inserting the entry keeps the index well-formed.\<close>

theorem index_name_pos_finds:
  assumes "index_ok (is_cache istate)" "wf_ce ce"
  shows "(\<exists>i<length (is_cache istate). index_name_pos istate (ce_name ce) (ce_flags ce) = int i
      \<and> ce_name (is_cache istate ! i) = ce_name ce \<and> ce_stage (is_cache istate ! i) = ce_stage ce)
    \<or> (\<exists>i\<le>length (is_cache istate). index_name_pos istate (ce_name ce) (ce_flags ce) = - int i - 1
      \<and> index_ok (take i (is_cache istate) @ [ce] @ drop i (is_cache istate)))"
proof -
  have key: "flags_key (ce_name ce) (ce_flags ce) = ce_key ce" by (simp add: ce_key_def)
  have "unat (ce_flags ce AND CE_NAMEMASK) \<le> length (ce_name ce)" using assms(2) by (simp add: wf_ce_def)
  from index_name_pos_ok [OF assms(1) this, unfolded key] show ?thesis
  proof (elim disjE exE conjE)
    fix p assume p: "index_name_pos istate (ce_name ce) (ce_flags ce) = int p" "p < length (is_cache istate)"
      "ce_key (is_cache istate ! p) = ce_key ce"
    have "wf_ce (is_cache istate ! p)" by (rule index_ok_wf [OF assms(1)]) (use p in simp)
    then show ?thesis using p assms(2) by (auto simp: wf_key)
  next
    fix p assume p: "index_name_pos istate (ce_name ce) (ce_flags ce) = - int p - 1" "gap (is_cache istate) (ce_key ce) p"
    have "p \<le> length (is_cache istate)" using p(2) by (simp add: gap_def)
    then show ?thesis using index_ok_insert [OF assms p(2)] p(1) by blast
  qed
qed

text \<open>C9. Adding an entry with both permissions keeps the index sorted and free of directory/file
  conflicts, stores the entry when its path is acceptable, invents nothing, and removes only entries of
  the same path and entries that conflict with the new one. This needs, besides an index in order and free of
  conflicts, that the index is ready for the entry (\<open>add_ready\<close>): an entry of its path in its stage is not
  marked \<open>CE_REMOVE\<close> when the new one is live, and an entry for a merge stage meets no entry of its path in a
  higher stage. Where one of them fails, a conflict can be missed, as the last property of this theory shows.\<close>

theorem add_index_entry_keeps_index:
  assumes "index_ok (is_cache istate)" "wf_ce ce" "df_free (set (is_cache istate))" "add_ready (is_cache istate) ce"
    "add_index_entry istate ce (OK_TO_ADD OR OK_TO_REPLACE) = (istate', r)"
  shows "index_ok (is_cache istate') \<and> df_free (set (is_cache istate'))
    \<and> (verify_path (ce_name ce) \<longrightarrow> r = 0 \<and> clear_flags CE_UNHASHED ce \<in> set (is_cache istate'))
    \<and> set (is_cache istate') \<subseteq> insert (clear_flags CE_UNHASHED ce) (set (is_cache istate))
    \<and> (\<forall>p\<in>set (is_cache istate) - set (is_cache istate'). ce_name p = ce_name ce \<or> df_conflict ce p \<or> df_conflict p ce)"
proof -
  have "OK_TO_ADD OR OK_TO_REPLACE = 3" by simp
  from add_index_entry_ok [OF assms(1-4) assms(5) [unfolded this]] show ?thesis by blast
qed

definition ce_of :: "string \<Rightarrow> nat \<Rightarrow> u32 \<Rightarrow> cache_entry" where
  "ce_of name stage flags = \<lparr>ce_ctime = (0, 0), ce_mtime = (0, 0), ce_dev = 0, ce_ino = 0, ce_mode = 0x81A4,
     ce_uid = 0, ce_gid = 0, ce_size = 0, ce_flags = create_ce_flags (length name) stage OR flags, ce_sha1 = [], ce_name = name\<rparr>"

definition index_of :: "cache_entry list \<Rightarrow> index_state" where
  "index_of cache = \<lparr>is_cache = cache, is_changed = False, is_undo = (\<lambda>_. None), is_timestamp = (0, 0)\<rparr>"

lemma is_cache_index_of [simp]: "is_cache (index_of cache) = cache"
  by (simp add: index_of_def)

lemma df_free_Cons: "df_free (insert x S) \<longleftrightarrow> df_free S \<and> (\<forall>p\<in>S. \<not> df_conflict x p \<and> \<not> df_conflict p x)"
  by (auto simp: df_free_def df_conflict_irrefl)

theorem index_name_pos_finds_witness:
  "index_ok [ce_of ''a'' 1 0, ce_of ''a'' 2 0] \<and> wf_ce (ce_of ''a'' 2 0)
   \<and> index_name_pos (index_of [ce_of ''a'' 1 0, ce_of ''a'' 2 0]) ''a'' (ce_flags (ce_of ''a'' 2 0)) = 1"
proof -
  have ok: "index_ok (is_cache (index_of [ce_of ''a'' 1 0, ce_of ''a'' 2 0]))" "wf_ce (ce_of ''a'' 2 0)" by code_simp+
  have "index_name_pos (index_of [ce_of ''a'' 1 0, ce_of ''a'' 2 0]) ''a'' (ce_flags (ce_of ''a'' 2 0)) = 1" by code_simp
  with index_name_pos_finds [OF ok] ok show ?thesis by simp
qed

lemma df_conflict_slash: "df_conflict p q \<Longrightarrow> CHR ''/'' \<in> set (ce_name q)"
  by (auto simp: df_conflict_def)

theorem add_index_entry_keeps_index_witness:
  "index_ok [ce_of ''a/b'' 0 0, ce_of ''c'' 0 0]
   \<and> map ce_name (is_cache (fst (add_index_entry (index_of [ce_of ''a/b'' 0 0, ce_of ''c'' 0 0]) (ce_of ''a'' 0 0) 3))) = [''a'', ''c'']
   \<and> df_free (set (is_cache (fst (add_index_entry (index_of [ce_of ''a/b'' 0 0, ce_of ''c'' 0 0]) (ce_of ''a'' 0 0) 3))))"
proof -
  let ?c = "[ce_of ''a/b'' 0 0, ce_of ''c'' 0 0]" and ?i = "index_of [ce_of ''a/b'' 0 0, ce_of ''c'' 0 0]"
  have ok: "index_ok (is_cache ?i)" "wf_ce (ce_of ''a'' 0 0)" by code_simp+
  have df: "df_free (set (is_cache ?i))" by (simp add: df_free_Cons) (simp add: df_free_def df_conflict_def ce_of_def)
  have ready: "add_ready (is_cache ?i) (ce_of ''a'' 0 0)" by (simp add: add_ready_def) (simp add: ce_of_def)
  have "map ce_name (is_cache (fst (add_index_entry ?i (ce_of ''a'' 0 0) 3))) = [''a'', ''c'']" by code_simp
  moreover have e: "(OK_TO_ADD OR OK_TO_REPLACE) = 3" by simp
  note R = add_index_entry_keeps_index [OF ok df ready, unfolded e, OF prod.collapse [symmetric]]
  ultimately show ?thesis using ok(1) [unfolded is_cache_index_of] R [THEN conjunct2, THEN conjunct1] by blast
qed

text \<open>C35. Where the check for conflicts misses one: \<open>has_file_name\<close> stops at an entry of the same path in a
  higher stage and does not see the file below the path, and an entry marked \<open>CE_REMOVE\<close> is replaced in
  place by a live one without any check. Both leave an index with a path that is a file and a directory.\<close>

theorem add_index_entry_misses_conflict:
  "(let istate = index_of [ce_of ''a'' 2 0, ce_of ''a/b'' 1 0]; r = add_index_entry istate (ce_of ''a'' 1 0) 3 in
      index_ok (is_cache istate) \<and> df_free (set (is_cache istate)) \<and> snd r = 0 \<and> \<not> df_free (set (is_cache (fst r))))
   \<and> (let istate = index_of [ce_of ''a'' 0 CE_REMOVE, ce_of ''a/b'' 0 0]; r = add_index_entry istate (ce_of ''a'' 0 0) 3 in
      index_ok (is_cache istate) \<and> df_free (set (is_cache istate)) \<and> snd r = 0 \<and> \<not> df_free (set (is_cache (fst r))))"
proof -
  let ?i = "index_of [ce_of ''a'' 2 0, ce_of ''a/b'' 1 0]" and ?j = "index_of [ce_of ''a'' 0 CE_REMOVE, ce_of ''a/b'' 0 0]"
  have ok: "index_ok (is_cache ?i)" "index_ok (is_cache ?j)" by code_simp+
  have st: "ce_stage (ce_of ''a'' 2 0) = 2" "ce_stage (ce_of ''a/b'' 1 0) = 1" "live (ce_of ''a'' 0 CE_REMOVE) = False"
    by code_simp+
  have n: "ce_name (ce_of name stage f) = name" for name stage f by (simp add: ce_of_def)
  have "df_free (set (is_cache ?i))" "df_free (set (is_cache ?j))"
    by (simp_all add: df_free_Cons) (simp_all add: df_free_def df_conflict_def n st [unfolded One_nat_def] st)
  moreover have "snd (add_index_entry ?i (ce_of ''a'' 1 0) 3) = 0" "snd (add_index_entry ?j (ce_of ''a'' 0 0) 3) = 0"
    "is_cache (fst (add_index_entry ?i (ce_of ''a'' 1 0) 3)) = [ce_of ''a'' 1 0, ce_of ''a'' 2 0, ce_of ''a/b'' 1 0]"
    "is_cache (fst (add_index_entry ?j (ce_of ''a'' 0 0) 3)) = [ce_of ''a'' 0 0, ce_of ''a/b'' 0 0]" by code_simp+
  moreover have "df_conflict (ce_of ''a'' 1 0) (ce_of ''a/b'' 1 0)" "df_conflict (ce_of ''a'' 0 0) (ce_of ''a/b'' 0 0)"
    unfolding df_conflict_def n by (intro conjI exI [of _ "''b''"]; code_simp)+
  then have "\<not> df_free (set [ce_of ''a'' 1 0, ce_of ''a'' 2 0, ce_of ''a/b'' 1 0])" "\<not> df_free (set [ce_of ''a'' 0 0, ce_of ''a/b'' 0 0])"
    by (auto simp: df_free_def)
  ultimately show ?thesis using ok by (simp add: Let_def)
qed

subsection \<open>Removing a path, and comparing with the file\<close>

lemma remove_same_path_cache:
  "pos \<le> length (is_cache istate) \<Longrightarrow> is_cache (remove_same_path istate path pos)
    = take pos (is_cache istate) @ dropWhile (\<lambda>p. ce_name p = path) (drop pos (is_cache istate))"
proof (induction istate path pos rule: remove_same_path.induct)
  case (1 istate path pos)
  let ?c = "is_cache istate"
  show ?case
  proof (cases "pos < length ?c")
    case True
    have d: "drop pos ?c = ?c ! pos # drop (pos + 1) ?c" using True by (simp add: Cons_nth_drop_Suc)
    show ?thesis
    proof (cases "ce_name (?c ! pos) = path")
      case same: True
      then have "is_cache (remove_same_path istate path pos) = is_cache (remove_same_path (fst (remove_index_entry_at istate pos)) path pos)"
        using True by (simp add: remove_same_path.simps [of istate] strcmp_eq_0)
      also have "\<dots> = take pos (take pos ?c @ drop (pos + 1) ?c)
          @ dropWhile (\<lambda>p. ce_name p = path) (drop pos (take pos ?c @ drop (pos + 1) ?c))"
        using 1 same True by (simp add: strcmp_eq_0)
      finally show ?thesis using d same True by simp
    next
      case False
      then have "remove_same_path istate path pos = istate"
        by (simp add: remove_same_path.simps [of istate] strcmp_eq_0)
      then show ?thesis using False by (simp add: d) (simp add: id_take_nth_drop [OF True, symmetric])
    qed
  qed (use 1 in \<open>simp add: remove_same_path.simps [of istate]\<close>)
qed

lemma dropWhile_eq_filter:
  "sorted_wrt (\<lambda>a b. f a \<le> f b) ds \<Longrightarrow> \<forall>d\<in>set ds. (n :: 'k :: linorder) \<le> f d
    \<Longrightarrow> dropWhile (\<lambda>d. f d = n) ds = filter (\<lambda>d. f d \<noteq> n) ds"
proof (induction ds)
  case (Cons d ds)
  show ?case
  proof (cases "f d = n")
    case False
    then have "n < f e" if "e \<in> set ds" for e using Cons.prems that by fastforce
    then have "filter (\<lambda>d. f d \<noteq> n) ds = ds" by (auto simp: filter_id_conv)
    then show ?thesis using False by simp
  qed (use Cons in auto)
qed simp

text \<open>Removing a path from a well-formed index removes its entries of all stages and no others.\<close>

theorem remove_file_from_index_removes:
  assumes "index_ok (is_cache istate)" "length path < 0xfff"
  shows "is_cache (remove_file_from_index istate path) = filter (\<lambda>p. ce_name p \<noteq> path) (is_cache istate)"
proof -
  let ?c = "is_cache istate" and ?f = "of_nat (length path) :: u32"
  have f: "?f = create_ce_flags (length path) 0" using assms(2) by (simp add: create_ce_flags_def)
  have k: "flags_key path ?f = (path, 0)" "unat (?f AND CE_NAMEMASK) \<le> length path"
    unfolding f using create_ce_flags_key [OF assms(2) le_refl, of 0] by simp_all
  obtain p where p: "remove_file_from_index istate path = remove_same_path istate path p" "p \<le> length ?c"
    "\<forall>e\<in>set (take p ?c). ce_key e < (path, 0)" "\<forall>e\<in>set (drop p ?c). (path, 0) \<le> ce_key e"
    using index_name_pos_ok [OF assms(1) k(2), unfolded k(1)]
  proof (elim disjE exE conjE)
    fix p assume h: "index_name_pos istate path ?f = int p" "p < length ?c" "ce_key (?c ! p) = (path, 0)"
    have "ce_key e < (path, 0)" if "e \<in> set (take p ?c)" for e
      using that h index_ok_nth [OF assms(1), of _ p] by (auto simp: in_set_conv_nth)
    moreover have "(path, 0) \<le> ce_key e" if "e \<in> set (drop p ?c)" for e
    proof -
      obtain i where i: "i < length ?c - p" "e = ?c ! (p + i)" using \<open>e \<in> set (drop p ?c)\<close> h(2) by (auto simp: in_set_conv_nth)
      show ?thesis using i h index_ok_nth [OF assms(1), of p "p + i"] by (cases i) (auto intro: less_imp_le)
    qed
    moreover have "remove_file_from_index istate path = remove_same_path istate path p"
      using h(1) by (simp add: remove_file_from_index_def)
    ultimately show thesis using that [of p] h(2) by simp
  next
    fix p assume h: "index_name_pos istate path ?f = - int p - 1" "gap ?c (path, 0) p"
    moreover have "remove_file_from_index istate path = remove_same_path istate path p"
      using h(1) by (simp add: remove_file_from_index_def)
    ultimately show thesis using that [of p] unfolding gap_sets by (auto intro: less_imp_le)
  qed
  have w: "wf_ce e" if "e \<in> set ?c" for e using index_ok_wf [OF assms(1) that] .
  have "ce_name e < path" if "e \<in> set (take p ?c)" for e
    using p(3) that w [OF in_set_takeD [OF that]] by (auto simp: wf_key less_prod_simp)
  then have t: "filter (\<lambda>p. ce_name p \<noteq> path) (take p ?c) = take p ?c" by (auto simp: filter_id_conv)
  have "path \<le> ce_name e" if "e \<in> set (drop p ?c)" for e
    using bspec [OF p(4) that] w [OF in_set_dropD [OF that]] by (auto simp: wf_key intro: less_imp_le)
  moreover have "sorted_wrt (\<lambda>a b. ce_name a \<le> ce_name b) (drop p ?c)"
    using index_ok_names_wrt [OF assms(1)] by (rule sorted_wrt_drop)
  ultimately have "dropWhile (\<lambda>e. ce_name e = path) (drop p ?c) = filter (\<lambda>e. ce_name e \<noteq> path) (drop p ?c)"
    by (intro dropWhile_eq_filter) auto
  then have "is_cache (remove_file_from_index istate path)
      = filter (\<lambda>p. ce_name p \<noteq> path) (take p ?c) @ filter (\<lambda>p. ce_name p \<noteq> path) (drop p ?c)"
    unfolding p(1) remove_same_path_cache [OF p(2)] t by simp
  then show ?thesis by (simp only: filter_append [symmetric] append_take_drop_id)
qed

theorem remove_file_from_index_removes_witness:
  "map ce_name (is_cache (remove_file_from_index (index_of [ce_of ''a'' 0 0, ce_of ''b'' 1 0, ce_of ''b'' 2 0, ce_of ''c'' 0 0]) ''b'')) = [''a'', ''c'']"
proof -
  have ok: "index_ok (is_cache (index_of [ce_of ''a'' 0 0, ce_of ''b'' 1 0, ce_of ''b'' 2 0, ce_of ''c'' 0 0]))" by code_simp
  have l: "length ''b'' < 0xfff" by simp
  show ?thesis unfolding remove_file_from_index_removes [OF ok l] by (simp add: ce_of_def)
qed

text \<open>An entry of a regular file that is neither assumed valid nor outside the working tree is reported as
  unmodified only if its contents were compared and agree, or its stat data match and the file is older
  than the index.\<close>

theorem ie_modified_racy:
  assumes "S_ISREG (ce_mode ce)" "\<not> has_flag ce CE_VALID" "\<not> has_flag ce CE_SKIP_WORKTREE"
    "ie_modified env istate ce st options = Some 0"
  shows "ce_modified_check_fs env ce st = 0
    \<or> ce_match_stat_basic env ce st = Some 0 \<and> \<not> is_racy_timestamp istate ce"
proof -
  obtain changed where c: "ie_match_stat env istate ce st options = Some changed"
    using assms(4) by (auto simp: ie_modified_def split: option.splits)
  show ?thesis
  proof (cases "changed = 0")
    case False
    then show ?thesis using assms(4) c by (auto simp: ie_modified_def Let_def or_eq_0_iff split: if_splits)
  next
    case True
    obtain b where b: "ce_match_stat_basic env ce st = Some b"
      using c assms(2,3) True by (auto simp: ie_match_stat_def Let_def split: if_splits option.splits)
    have "\<not> has_flag ce CE_INTENT_TO_ADD"
      using c assms(2,3) True by (auto simp: ie_match_stat_def Let_def split: if_splits)
    then have "(if b = 0 \<and> is_racy_timestamp istate ce
        then b OR (if options AND 2 \<noteq> 0 then DATA_CHANGED else ce_modified_check_fs env ce st) else b) = 0"
      using c assms(2,3) True b by (auto simp: ie_match_stat_def split: if_splits)
    then show ?thesis using b by (auto split: if_splits)
  qed
qed

definition demo_stat :: "u32 \<Rightarrow> stat" where
  "demo_stat mtime = \<lparr>st_mode = 0x81A4, st_ctime = (0, 0), st_mtime = (mtime, 0), st_dev = 0, st_ino = 0,
     st_uid = 0, st_gid = 0, st_size = 3\<rparr>"

definition demo_env :: stat_env where
  "demo_env = \<lparr>trust_executable_bit = True, trust_ctime = True, has_symlinks = True, assume_unchanged = False,
     ce_compare_data = (\<lambda>_ _. 0), ce_compare_link = (\<lambda>_ _. 0), gitlink_head = (\<lambda>_. None)\<rparr>"

theorem ie_modified_racy_witness:
  "(let ce = (ce_of ''a'' 0 0)\<lparr>ce_size := 3, ce_mtime := (7, 0), ce_sha1 := replicate 20 0\<rparr>; istate = index_of []\<lparr>is_timestamp := (7, 0)\<rparr> in
    ie_modified demo_env istate ce (demo_stat 7) 0 = Some 0 \<and> is_racy_timestamp istate ce \<and> ce_modified_check_fs demo_env ce (demo_stat 7) = 0)"
proof -
  let ?ce = "(ce_of ''a'' 0 0)\<lparr>ce_size := 3, ce_mtime := (7, 0), ce_sha1 := replicate 20 0\<rparr>" and ?i = "(index_of [])\<lparr>is_timestamp := (7, 0)\<rparr>"
  have h: "S_ISREG (ce_mode ?ce)" "\<not> has_flag ?ce CE_VALID" "\<not> has_flag ?ce CE_SKIP_WORKTREE"
    "ie_modified demo_env ?i ?ce (demo_stat 7) 0 = Some 0" "is_racy_timestamp ?i ?ce" by code_simp+
  from ie_modified_racy [OF h(1-4)] h(4,5) show ?thesis by (simp add: Let_def)
qed

end
