(* ===== verification/Index_File.thy ===== *)
theory Index_File
  imports Index Varint
begin

text \<open>
  The index file of \<^verbatim>\<open>read-cache.c\<close>: its entries in the versions 2, 3 and 4 of the
  format, the buffered writer, and the reader. The file is mapped into memory as a list of bytes, a
  read outside it is \<open>Overrun\<close> and a call of \<open>die\<close> is \<open>Bad\<close>. SHA-1, the contents of the working
  tree and the readers of the extensions are parameters.
\<close>

subsection \<open>Numbers in network byte order\<close>

definition read_bytes :: "byte list \<Rightarrow> nat \<Rightarrow> nat \<Rightarrow> byte list read" where
  "read_bytes mem pos n = (if pos + n \<le> length mem then Got (take n (drop pos mem)) else Overrun)"

definition be_val :: "byte list \<Rightarrow> u32" where
  "be_val bs = foldl (\<lambda>w b. push_bit 8 w OR ucast b) 0 bs"

definition ntoh_l :: "byte list \<Rightarrow> nat \<Rightarrow> u32 read" where
  "ntoh_l mem pos = and_then (read_bytes mem pos 4) (\<lambda>bs. Got (be_val bs))"

definition ntoh_s :: "byte list \<Rightarrow> nat \<Rightarrow> u32 read" where
  "ntoh_s mem pos = and_then (read_bytes mem pos 2) (\<lambda>bs. Got (be_val bs))"

definition htonl :: "u32 \<Rightarrow> byte list" where
  "htonl w = [ucast (drop_bit 24 w), ucast (drop_bit 16 w), ucast (drop_bit 8 w), ucast w]"

definition htons :: "u32 \<Rightarrow> byte list" where
  "htons w = [ucast (drop_bit 8 w), ucast w]"

definition bytes_of :: "string \<Rightarrow> byte list" where "bytes_of s = map (\<lambda>c. of_nat (of_char c)) s"
definition string_of :: "byte list \<Rightarrow> string" where "string_of bs = map (\<lambda>b. char_of (unat b)) bs"

text \<open>The bytes from a position up to the next NUL.\<close>

definition cstring_at :: "byte list \<Rightarrow> nat \<Rightarrow> byte list read" where
  "cstring_at mem pos = (if 0 \<in> set (drop pos mem) then Got (takeWhile (\<lambda>b. b \<noteq> 0) (drop pos mem)) else Overrun)"

subsection \<open>Reading an entry\<close>

abbreviation (input) CE_EXTENDED :: u32 where "CE_EXTENDED \<equiv> 0x4000"
abbreviation (input) CE_EXTENDED_FLAGS :: u32 where "CE_EXTENDED_FLAGS \<equiv> 0x60000000"
abbreviation (input) CACHE_SIGNATURE :: u32 where "CACHE_SIGNATURE \<equiv> 0x44495243"

text \<open>The fields of \<open>struct ondisk_cache_entry\<close> are at the offsets 0, 4, 8, \<dots>, 36, its object name at
  40, the flags at 60, and the name at 62, or at 64 behind a second word of flags.\<close>

definition ondisk_name :: "bool \<Rightarrow> nat" where
  "ondisk_name extended = (if extended then 64 else 62)"

definition ondisk_ce_size :: "cache_entry \<Rightarrow> nat" where
  "ondisk_ce_size ce = (ondisk_name (has_flag ce CE_EXTENDED) + ce_namelen ce + 8) div 8 * 8"

definition cache_entry_from_ondisk :: "byte list \<Rightarrow> nat \<Rightarrow> u32 \<Rightarrow> string \<Rightarrow> cache_entry read" where
  "cache_entry_from_ondisk mem pos flags name =
     and_then (ntoh_l mem pos) (\<lambda>ctime. and_then (ntoh_l mem (pos + 8)) (\<lambda>mtime.
     and_then (ntoh_l mem (pos + 4)) (\<lambda>ctime_nsec. and_then (ntoh_l mem (pos + 12)) (\<lambda>mtime_nsec.
     and_then (ntoh_l mem (pos + 16)) (\<lambda>dev. and_then (ntoh_l mem (pos + 20)) (\<lambda>ino.
     and_then (ntoh_l mem (pos + 24)) (\<lambda>mode. and_then (ntoh_l mem (pos + 28)) (\<lambda>uid.
     and_then (ntoh_l mem (pos + 32)) (\<lambda>gid. and_then (ntoh_l mem (pos + 36)) (\<lambda>sz.
     and_then (read_bytes mem (pos + 40) 20) (\<lambda>sha1.
       Got \<lparr>ce_ctime = (ctime, ctime_nsec), ce_mtime = (mtime, mtime_nsec), ce_dev = dev, ce_ino = ino,
         ce_mode = mode, ce_uid = uid, ce_gid = gid, ce_size = sz, ce_flags = flags, ce_sha1 = sha1,
         ce_name = name\<rparr>)))))))))))"

text \<open>The result of \<open>expand_name_field\<close> is the new name and the number of bytes read.\<close>

definition expand_name_field :: "strbuf \<Rightarrow> byte list \<Rightarrow> nat \<Rightarrow> (strbuf \<times> nat) read" where
  "expand_name_field name mem cp = (case decode_varint (drop cp mem) of None \<Rightarrow> Overrun
     | Some (len, rest) \<Rightarrow>
       if sb_len name < len then Bad
       else and_then (strbuf_remove name (sb_len name - len) len) (\<lambda>name.
         let start = length mem - length rest in
         and_then (cstring_at mem start) (\<lambda>bs.
         and_then (strbuf_add name (string_of bs)) (\<lambda>name.
           Got (name, start + length bs + 1 - cp)))))"

text \<open>The previous name is \<open>None\<close> for the versions 2 and 3. The other results are the size of the entry
  in the file and the name for the next entry.\<close>

definition create_entry :: "byte list \<Rightarrow> nat \<Rightarrow> strbuf option \<Rightarrow> u32 \<Rightarrow> bool \<Rightarrow> u32
    \<Rightarrow> (cache_entry \<times> nat \<times> strbuf option) read" where
  "create_entry mem pos previous_name len extended flags =
     (let name = pos + ondisk_name extended in
      case previous_name of
        None \<Rightarrow>
          and_then (if len = CE_NAMEMASK then cstring_at mem name else read_bytes mem name (unat len)) (\<lambda>bs.
          and_then (cache_entry_from_ondisk mem pos flags (string_of bs)) (\<lambda>ce.
            Got (ce, ondisk_ce_size ce, None)))
      | Some previous_name \<Rightarrow>
          and_then (expand_name_field previous_name mem name) (\<lambda>(previous_name, consumed).
          and_then (cache_entry_from_ondisk mem pos flags (sb_str previous_name)) (\<lambda>ce.
            Got (ce, name - pos + consumed, Some previous_name))))"

definition create_from_disk :: "byte list \<Rightarrow> nat \<Rightarrow> strbuf option \<Rightarrow> (cache_entry \<times> nat \<times> strbuf option) read" where
  "create_from_disk mem pos previous_name =
     and_then (ntoh_s mem (pos + 60)) (\<lambda>flags.
       and_then (if flags AND CE_EXTENDED \<noteq> 0
         then and_then (ntoh_s mem (pos + 62)) (\<lambda>flags2. let extended_flags = push_bit 16 flags2 in
           if extended_flags AND NOT CE_EXTENDED_FLAGS \<noteq> 0 then Bad else Got (flags OR extended_flags))
         else Got flags)
       (create_entry mem pos previous_name (flags AND CE_NAMEMASK) (flags AND CE_EXTENDED \<noteq> 0)))"

primrec read_entries :: "nat \<Rightarrow> byte list \<Rightarrow> nat \<Rightarrow> strbuf option \<Rightarrow> (cache_entry list \<times> nat) read" where
  "read_entries 0 mem pos previous_name = Got ([], pos)"
| "read_entries (Suc nr) mem pos previous_name =
     and_then (create_from_disk mem pos previous_name) (\<lambda>(ce, consumed, previous_name).
     and_then (read_entries nr mem (pos + consumed) previous_name) (\<lambda>(cache, pos).
       Got (clear_flags CE_UNHASHED ce # cache, pos)))"

subsection \<open>Reading the file\<close>

definition verify_hdr :: "(byte list \<Rightarrow> byte list) \<Rightarrow> byte list \<Rightarrow> bool" where
  "verify_hdr sha1 mem \<longleftrightarrow>
     be_val (take 4 mem) = CACHE_SIGNATURE
     \<and> \<not> (be_val (take 4 (drop 4 mem)) < 2 \<or> 4 < be_val (take 4 (drop 4 mem)))
     \<and> hashcmp (sha1 (take (length mem - 20) mem)) (drop (length mem - 20) mem) = 0"

text \<open>An extension that is understood is handed to its reader with the position and size of its data;
  the model lists these calls. A capital first letter makes an unknown extension optional.\<close>

definition read_index_extension :: "byte list \<Rightarrow> nat \<Rightarrow> nat \<Rightarrow> u32 \<Rightarrow> (u32 \<times> nat \<times> u32) list option" where
  "read_index_extension ext pos data sz =
     (if be_val ext = 0x54524545 \<or> be_val ext = 0x52455543 then Some [(be_val ext, data, sz)]
      else if hd ext < 65 \<or> 90 < hd ext then None else Some [])"

function read_extensions :: "byte list \<Rightarrow> nat \<Rightarrow> (u32 \<times> nat \<times> u32) list read" where
  "read_extensions mem src_offset =
     (if \<not> src_offset \<le> length mem - 20 - 8 then Got []
      else and_then (ntoh_l mem (src_offset + 4)) (\<lambda>extsize.
        and_then (read_bytes mem src_offset 4) (\<lambda>ext.
        case read_index_extension ext src_offset (src_offset + 8) extsize of None \<Rightarrow> Bad
        | Some calls \<Rightarrow> and_then (read_extensions mem (src_offset + 8 + unat extsize)) (\<lambda>more. Got (calls @ more)))))"
  by pat_completeness auto
termination
  by (relation "measure (\<lambda>(mem, src_offset). length mem + 1 - src_offset)") auto

declare read_extensions.simps [simp del]

text \<open>Without a file the index is empty.\<close>

definition read_index_from :: "(byte list \<Rightarrow> byte list) \<Rightarrow> (byte list \<times> (u32 \<times> u32)) option
    \<Rightarrow> (index_state \<times> u32 \<times> (u32 \<times> nat \<times> u32) list) read" where
  "read_index_from sha1 file = (case file of
     None \<Rightarrow> Got (\<lparr>is_cache = [], is_changed = False, is_undo = \<lambda>_. None, is_timestamp = (0, 0)\<rparr>, 0, [])
   | Some (mem, mtime) \<Rightarrow>
       if length mem < 12 + 20 then Bad
       else if \<not> verify_hdr sha1 mem then Bad
       else let version = be_val (take 4 (drop 4 mem)); nr = be_val (take 4 (drop 8 mem)) in
         and_then (read_entries (unat nr) mem 12 (if version = 4 then Some STRBUF_INIT else None)) (\<lambda>(cache, src_offset).
         and_then (read_extensions mem src_offset) (\<lambda>calls.
           Got (\<lparr>is_cache = cache, is_changed = False, is_undo = \<lambda>_. None, is_timestamp = mtime\<rparr>, version, calls))))"

subsection \<open>Writing\<close>

text \<open>The buffered writer: the bytes of \<open>write_buffer\<close> in use, the data given to SHA-1 so far, the
  bytes in the file and how many more it can take before a write fails.\<close>

record writer =
  w_buffer :: "byte list"
  w_context :: "byte list"
  w_file :: "byte list"
  w_room :: nat

abbreviation (input) WRITE_BUFFER_SIZE :: nat where "WRITE_BUFFER_SIZE \<equiv> 8192"

definition write_in_full :: "writer \<Rightarrow> byte list \<Rightarrow> writer read" where
  "write_in_full w bs = (if length bs \<le> w_room w
     then Got (w\<lparr>w_file := w_file w @ bs, w_room := w_room w - length bs\<rparr>) else Bad)"

definition ce_write_flush :: "writer \<Rightarrow> writer read" where
  "ce_write_flush w = (if w_buffer w = [] then Got w
     else and_then (write_in_full (w\<lparr>w_context := w_context w @ w_buffer w\<rparr>) (w_buffer w))
       (\<lambda>w. Got (w\<lparr>w_buffer := []\<rparr>)))"

function ce_write :: "writer \<Rightarrow> byte list \<Rightarrow> writer read" where
  "ce_write w bytes =
     (if bytes = [] then Got w
      else if length (w_buffer w) > WRITE_BUFFER_SIZE then Overrun
      else let partial = min (WRITE_BUFFER_SIZE - length (w_buffer w)) (length bytes);
             w' = w\<lparr>w_buffer := w_buffer w @ take partial bytes\<rparr> in
        if length (w_buffer w') = WRITE_BUFFER_SIZE
        then (case ce_write_flush w' of Overrun \<Rightarrow> Overrun | Bad \<Rightarrow> Bad | Got w' \<Rightarrow> ce_write (w'\<lparr>w_buffer := []\<rparr>) (drop partial bytes))
        else ce_write w' (drop partial bytes))"
  by pat_completeness auto
termination
  by (relation "measures [\<lambda>(w, bytes). length bytes, \<lambda>(w, bytes). length (w_buffer w)]") (auto simp: min_def split: if_splits)

declare ce_write.simps [simp del]

definition write_index_ext_header :: "writer \<Rightarrow> u32 \<Rightarrow> u32 \<Rightarrow> writer read" where
  "write_index_ext_header w ext sz = and_then (ce_write w (htonl ext)) (\<lambda>w. ce_write w (htonl sz))"

definition ce_flush :: "(byte list \<Rightarrow> byte list) \<Rightarrow> writer \<Rightarrow> writer read" where
  "ce_flush sha1 w = (let left = w_buffer w; w = w\<lparr>w_buffer := [], w_context := w_context w @ left\<rparr> in
     and_then (if length left + 20 > WRITE_BUFFER_SIZE
       then and_then (write_in_full w left) (\<lambda>w. Got (w, [])) else Got (w, left)) (\<lambda>(w, left).
     write_in_full w (left @ sha1 (w_context w))))"

definition ce_smudge_racily_clean_entry :: "stat_env \<Rightarrow> (string \<Rightarrow> stat option) \<Rightarrow> cache_entry \<Rightarrow> cache_entry read" where
  "ce_smudge_racily_clean_entry env lstat ce = (case lstat (ce_name ce) of None \<Rightarrow> Got ce
     | Some st \<Rightarrow> (case ce_match_stat_basic env ce st of None \<Rightarrow> Bad
       | Some changed \<Rightarrow> if changed \<noteq> 0 then Got ce
           else if ce_modified_check_fs env ce st \<noteq> 0 then Got (ce\<lparr>ce_size := 0\<rparr>) else Got ce))"

text \<open>The fields in front of the name.\<close>

definition copy_cache_entry_to_ondisk :: "cache_entry \<Rightarrow> byte list" where
  "copy_cache_entry_to_ondisk ce =
     htonl (fst (ce_ctime ce)) @ htonl (snd (ce_ctime ce)) @ htonl (fst (ce_mtime ce)) @ htonl (snd (ce_mtime ce))
     @ htonl (ce_dev ce) @ htonl (ce_ino ce) @ htonl (ce_mode ce) @ htonl (ce_uid ce) @ htonl (ce_gid ce)
     @ htonl (ce_size ce) @ ce_sha1 ce @ htons (ce_flags ce)
     @ (if has_flag ce CE_EXTENDED then htons (drop_bit 16 (ce_flags ce AND CE_EXTENDED_FLAGS)) else [])"

fun common_prefix :: "string \<Rightarrow> string \<Rightarrow> nat" where
  "common_prefix (a # as) (b # bs) = (if a \<noteq> CHR 0x00 \<and> a = b then Suc (common_prefix as bs) else 0)"
| "common_prefix _ _ = 0"

text \<open>The allocated entry is filled with zeros.\<close>

definition ce_write_entry :: "writer \<Rightarrow> cache_entry \<Rightarrow> strbuf option \<Rightarrow> (writer \<times> strbuf option) read" where
  "ce_write_entry w ce previous_name = (case previous_name of
     None \<Rightarrow>
       let sz = ondisk_ce_size ce; head = copy_cache_entry_to_ondisk ce; name = bytes_of (take (ce_namelen ce) (ce_name ce)) in
       and_then (ce_write w (head @ name @ replicate (sz - length head - length name) 0)) (\<lambda>w. Got (w, None))
   | Some previous_name \<Rightarrow>
       let common = common_prefix (ce_name ce) (sb_str previous_name);
         to_remove = unat (sb_len previous_name) - common;
         to_remove_vi = encode_varint (of_nat to_remove);
         rest = take (ce_namelen ce - common) (drop common (ce_name ce)) in
       and_then (strbuf_splice previous_name (of_nat common) (of_nat to_remove) rest) (\<lambda>previous_name.
       and_then (ce_write w (copy_cache_entry_to_ondisk ce @ to_remove_vi @ bytes_of rest @ [0])) (\<lambda>w.
         Got (w, Some previous_name))))"

definition mark_extended :: "cache_entry \<Rightarrow> cache_entry" where
  "mark_extended ce = (let ce = clear_flags CE_EXTENDED ce in
     if has_flag ce CE_EXTENDED_FLAGS then set_flags CE_EXTENDED ce else ce)"

text \<open>The loop over the entries; it returns them as they are left in memory.\<close>

fun write_entries :: "stat_env \<Rightarrow> (string \<Rightarrow> stat option) \<Rightarrow> index_state \<Rightarrow> writer \<Rightarrow> cache_entry list \<Rightarrow> strbuf option
    \<Rightarrow> (writer \<times> cache_entry list) read" where
  "write_entries env lstat istate w [] previous_name = Got (w, [])"
| "write_entries env lstat istate w (ce # cache) previous_name =
     (if has_flag ce CE_REMOVE
      then and_then (write_entries env lstat istate w cache previous_name) (\<lambda>(w, cache). Got (w, ce # cache))
      else and_then (if \<not> has_flag ce CE_UPTODATE \<and> is_racy_timestamp istate ce
          then ce_smudge_racily_clean_entry env lstat ce else Got ce) (\<lambda>ce.
        and_then (ce_write_entry w ce previous_name) (\<lambda>(w, previous_name).
        and_then (write_entries env lstat istate w cache previous_name) (\<lambda>(w, cache). Got (w, ce # cache)))))"

text \<open>The extensions that are present, as the signature and the data that \<open>cache_tree_write\<close> and
  \<open>resolve_undo_write\<close> produced.\<close>

primrec write_extensions :: "writer \<Rightarrow> (u32 \<times> byte list) list \<Rightarrow> writer read" where
  "write_extensions w [] = Got w"
| "write_extensions w (e # exts) = and_then (write_index_ext_header w (fst e) (of_nat (length (snd e)))) (\<lambda>w.
     and_then (ce_write w (snd e)) (\<lambda>w. write_extensions w exts))"

definition write_index :: "(byte list \<Rightarrow> byte list) \<Rightarrow> stat_env \<Rightarrow> (string \<Rightarrow> stat option) \<Rightarrow> nat \<Rightarrow> index_state \<Rightarrow> u32
    \<Rightarrow> byte list option \<Rightarrow> byte list option \<Rightarrow> (byte list \<times> cache_entry list \<times> u32) read" where
  "write_index sha1 env lstat room istate version cache_tree resolve_undo =
     (let cache = map mark_extended (is_cache istate);
        removed = length (filter (\<lambda>ce. has_flag ce CE_REMOVE) cache);
        extended = length (filter (\<lambda>ce. has_flag ce CE_EXTENDED) cache);
        version = (if version = 0 then 3 else version);
        version = (if version = 3 \<or> version = 2 then if extended \<noteq> 0 then 3 else 2 else version);
        hdr = htonl CACHE_SIGNATURE @ htonl version @ htonl (of_nat (length cache - removed)) in
      and_then (ce_write \<lparr>w_buffer = [], w_context = [], w_file = [], w_room = room\<rparr> hdr) (\<lambda>w.
      and_then (write_entries env lstat istate w cache (if version = 4 then Some STRBUF_INIT else None)) (\<lambda>(w, cache).
      and_then (write_extensions w ((case cache_tree of None \<Rightarrow> [] | Some bs \<Rightarrow> [(0x54524545, bs)])
          @ (case resolve_undo of None \<Rightarrow> [] | Some bs \<Rightarrow> [(0x52455543, bs)]))) (\<lambda>w.
      and_then (ce_flush sha1 w) (\<lambda>w. Got (w_file w, cache, version))))))"

subsection \<open>Bytes in memory\<close>

lemma be_htonl: "be_val (htonl w) = w"
proof (rule bit_word_eqI)
  fix n :: nat
  assume "n < LENGTH(32)"
  then consider "n < 8" | "8 \<le> n" "n < 16" | "16 \<le> n" "n < 24" | "24 \<le> n" "n < 32" by fastforce
  then show "bit (be_val (htonl w)) n \<longleftrightarrow> bit w n"
    unfolding be_val_def htonl_def by cases (auto simp: bit_simps)
qed

lemma be_htons: "be_val (htons w) = take_bit 16 w"
  unfolding be_val_def htons_def by (rule bit_eqI) (auto simp: bit_simps)

lemma length_hton [simp]: "length (htonl w) = 4" "length (htons w) = 2"
  by (simp_all add: htonl_def htons_def)

text \<open>The memory holds some bytes at a position.\<close>

definition holds :: "byte list \<Rightarrow> nat \<Rightarrow> byte list \<Rightarrow> bool" where
  "holds mem pos bs \<longleftrightarrow> (\<exists>pre post. mem = pre @ bs @ post \<and> length pre = pos)"

lemma holds_append: "holds mem pos (xs @ ys) \<longleftrightarrow> holds mem pos xs \<and> holds mem (pos + length xs) ys"
proof
  assume "holds mem pos (xs @ ys)"
  then obtain pre post where m: "mem = pre @ xs @ ys @ post" "length pre = pos" by (auto simp: holds_def)
  then have "mem = pre @ xs @ (ys @ post)" "mem = (pre @ xs) @ ys @ post" by simp_all
  with m(2) show "holds mem pos xs \<and> holds mem (pos + length xs) ys" unfolding holds_def by (metis length_append)
next
  assume "holds mem pos xs \<and> holds mem (pos + length xs) ys"
  then have "holds mem pos xs" "holds mem (pos + length xs) ys" by simp_all
  then obtain p q p' q' where m: "mem = p @ xs @ q" "length p = pos" "mem = p' @ ys @ q'" "length p' = pos + length xs"
    unfolding holds_def by blast
  have "(p @ xs) @ q = p' @ ys @ q'" using m(1,3) by simp
  moreover have "length (p @ xs) = length p'" using m(2,4) by simp
  ultimately have "q = ys @ q'" by (metis append_eq_append_conv)
  then show "holds mem pos (xs @ ys)" using m unfolding holds_def by auto
qed

lemma holds_drop: "holds mem pos bs \<Longrightarrow> \<exists>post. drop pos mem = bs @ post"
  by (auto simp: holds_def)

lemma holds_bound: "holds mem pos bs \<Longrightarrow> pos + length bs \<le> length mem"
  by (auto simp: holds_def)

lemma read_holds: "holds mem pos bs \<Longrightarrow> length bs = n \<Longrightarrow> read_bytes mem pos n = Got bs"
  by (auto simp: holds_def read_bytes_def)

lemma ntoh_l_holds: "holds mem pos (htonl w) \<Longrightarrow> ntoh_l mem pos = Got w"
  by (simp add: ntoh_l_def read_holds be_htonl)

lemma ntoh_s_holds: "holds mem pos (htons w) \<Longrightarrow> ntoh_s mem pos = Got (take_bit 16 w)"
  by (simp add: ntoh_s_def read_holds be_htons)

lemma of_char_byte: "char_of (unat (of_nat (of_char c) :: byte)) = c"
  by (simp add: unat_of_nat char_of_take_bit_eq)

lemma string_of_bytes [simp]: "string_of (bytes_of s) = s"
  by (simp add: string_of_def bytes_of_def comp_def of_char_byte)

lemma length_bytes_of [simp]: "length (bytes_of s) = length s"
  by (simp add: bytes_of_def)

lemma bytes_of_nonzero: "CHR 0x00 \<notin> set s \<Longrightarrow> 0 \<notin> set (bytes_of s)"
proof -
  assume n: "CHR 0x00 \<notin> set s"
  have "c = CHR 0x00" if "(of_nat (of_char c) :: byte) = 0" for c
    using of_char_byte [of c] that by (simp add: char_of_def)
  with n show ?thesis by (auto simp: bytes_of_def)
qed

lemma cstring_holds: "holds mem pos (bytes_of s @ [0]) \<Longrightarrow> CHR 0x00 \<notin> set s \<Longrightarrow> cstring_at mem pos = Got (bytes_of s)"
  using holds_drop [of mem pos "bytes_of s @ [0]"] bytes_of_nonzero [of s]
  by (auto simp: cstring_at_def takeWhile_append)

subsection \<open>Entries read back\<close>

text \<open>What the file keeps of the flags, and the entries it can keep.\<close>

definition disk_view :: "cache_entry \<Rightarrow> cache_entry" where
  "disk_view ce = ce\<lparr>ce_flags := take_bit 16 (ce_flags ce) OR (ce_flags ce AND CE_EXTENDED_FLAGS)\<rparr>"

definition disk_ok :: "cache_entry \<Rightarrow> bool" where
  "disk_ok ce \<longleftrightarrow> length (ce_sha1 ce) = 20 \<and> CHR 0x00 \<notin> set (ce_name ce) \<and> length (ce_name ce) < 2 ^ 31
     \<and> unat (ce_flags ce AND CE_NAMEMASK) = min 0xfff (length (ce_name ce))"

definition extended_ok :: "cache_entry \<Rightarrow> bool" where
  "extended_ok ce \<longleftrightarrow> has_flag ce CE_EXTENDED = has_flag ce CE_EXTENDED_FLAGS"

lemma disk_ok_namelen: "disk_ok ce \<Longrightarrow> ce_namelen ce = length (ce_name ce)"
  by (auto simp: disk_ok_def ce_namelen_def word_less_nat_alt Let_def)

lemma take_bit_and: "take_bit n w AND m = w AND m" if "take_bit n m = m" for w m :: u32
  by (metis that and.assoc and.commute take_bit_and take_bit_eq_mask)

lemma flag_masks: "take_bit 16 CE_NAMEMASK = (CE_NAMEMASK :: u32)" "take_bit 16 CE_EXTENDED = (CE_EXTENDED :: u32)"
  "take_bit 16 CE_STAGEMASK = (CE_STAGEMASK :: u32)"
  by simp_all

lemma or_and_other: "(f OR (g AND e)) AND m = f AND m" if "e AND m = 0" for f g e m :: u32
  by (simp add: bit.conj_disj_distrib2 and.assoc that)

lemma disk_view_flags:
  "ce_flags (disk_view ce) AND CE_NAMEMASK = ce_flags ce AND CE_NAMEMASK"
  "ce_flags (disk_view ce) AND CE_EXTENDED = ce_flags ce AND CE_EXTENDED"
proof -
  have z: "CE_EXTENDED_FLAGS AND CE_NAMEMASK = (0 :: u32)" "CE_EXTENDED_FLAGS AND CE_EXTENDED = (0 :: u32)" by simp_all
  have e: "ce_flags (disk_view ce) = take_bit 16 (ce_flags ce) OR (ce_flags ce AND CE_EXTENDED_FLAGS)" by (simp add: disk_view_def)
  show "ce_flags (disk_view ce) AND CE_NAMEMASK = ce_flags ce AND CE_NAMEMASK"
    "ce_flags (disk_view ce) AND CE_EXTENDED = ce_flags ce AND CE_EXTENDED"
    unfolding e
    by (simp_all only: or_and_other [OF z(1)] or_and_other [OF z(2)] take_bit_and [OF flag_masks(1)] take_bit_and [OF flag_masks(2)])
qed

lemma high_half: "push_bit 16 (take_bit 16 (drop_bit 16 (f AND e))) = f AND e" if "take_bit 16 e = 0" for f e :: u32
proof (rule bit_word_eqI)
  fix n :: nat
  assume "n < LENGTH(32)"
  have "\<not> (n < 16 \<and> bit e n)" using arg_cong [OF that, of "\<lambda>w. bit w n"] by (auto simp: bit_simps)
  then show "bit (push_bit 16 (take_bit 16 (drop_bit 16 (f AND e)))) n \<longleftrightarrow> bit (f AND e) n"
    using \<open>n < LENGTH(32)\<close> by (cases "n < 16") (auto simp: bit_simps)
qed

lemma length_copy: "length (ce_sha1 ce) = 20 \<Longrightarrow> length (copy_cache_entry_to_ondisk ce) = ondisk_name (has_flag ce CE_EXTENDED)"
  by (simp add: copy_cache_entry_to_ondisk_def ondisk_name_def)

lemma copy_cache_entry_read:
  assumes "holds mem pos (copy_cache_entry_to_ondisk ce)" "length (ce_sha1 ce) = 20"
  shows "cache_entry_from_ondisk mem pos flags name = Got (ce\<lparr>ce_flags := flags, ce_name := name\<rparr>)"
    "ntoh_s mem (pos + 60) = Got (take_bit 16 (ce_flags ce))"
    "has_flag ce CE_EXTENDED \<Longrightarrow> ntoh_s mem (pos + 62) = Got (take_bit 16 (drop_bit 16 (ce_flags ce AND CE_EXTENDED_FLAGS)))"
proof -
  have h: "holds mem pos (htonl (fst (ce_ctime ce)))" "holds mem (pos + 4) (htonl (snd (ce_ctime ce)))"
    "holds mem (pos + 8) (htonl (fst (ce_mtime ce)))" "holds mem (pos + 12) (htonl (snd (ce_mtime ce)))"
    "holds mem (pos + 16) (htonl (ce_dev ce))" "holds mem (pos + 20) (htonl (ce_ino ce))"
    "holds mem (pos + 24) (htonl (ce_mode ce))" "holds mem (pos + 28) (htonl (ce_uid ce))"
    "holds mem (pos + 32) (htonl (ce_gid ce))" "holds mem (pos + 36) (htonl (ce_size ce))"
    "holds mem (pos + 40) (ce_sha1 ce)" "holds mem (pos + 60) (htons (ce_flags ce))"
    "has_flag ce CE_EXTENDED \<Longrightarrow> holds mem (pos + 62) (htons (drop_bit 16 (ce_flags ce AND CE_EXTENDED_FLAGS)))"
    using assms by (simp_all add: copy_cache_entry_to_ondisk_def holds_append add.assoc add.commute [of _ pos])
  show "cache_entry_from_ondisk mem pos flags name = Got (ce\<lparr>ce_flags := flags, ce_name := name\<rparr>)"
    by (simp add: cache_entry_from_ondisk_def h(1-10) [THEN ntoh_l_holds] read_holds [OF h(11) assms(2)])
  show "ntoh_s mem (pos + 60) = Got (take_bit 16 (ce_flags ce))" by (rule ntoh_s_holds [OF h(12)])
  show "ntoh_s mem (pos + 62) = Got (take_bit 16 (drop_bit 16 (ce_flags ce AND CE_EXTENDED_FLAGS)))"
    if "has_flag ce CE_EXTENDED" by (rule ntoh_s_holds [OF h(13) [OF that]])
qed

text \<open>The reader's flags, for an entry whose first word of flags tells whether there is a second.\<close>

lemma read_flags:
  assumes "holds mem pos (copy_cache_entry_to_ondisk ce)" "disk_ok ce" "extended_ok ce"
  shows "and_then (ntoh_s mem (pos + 60)) (\<lambda>flags.
       and_then (if flags AND CE_EXTENDED \<noteq> 0
         then and_then (ntoh_s mem (pos + 62)) (\<lambda>flags2. let extended_flags = push_bit 16 flags2 in
           if extended_flags AND NOT CE_EXTENDED_FLAGS \<noteq> 0 then Bad else Got (flags OR extended_flags))
         else Got flags) (k (flags AND CE_NAMEMASK) (flags AND CE_EXTENDED \<noteq> 0)))
    = k (ce_flags ce AND CE_NAMEMASK) (has_flag ce CE_EXTENDED) (ce_flags (disk_view ce))"
proof -
  have sha: "length (ce_sha1 ce) = 20" using assms(2) by (simp add: disk_ok_def)
  note r = copy_cache_entry_read [OF assms(1) sha]
  have m: "take_bit 16 (ce_flags ce) AND CE_NAMEMASK = ce_flags ce AND CE_NAMEMASK"
    "(take_bit 16 (ce_flags ce) AND CE_EXTENDED \<noteq> 0) = has_flag ce CE_EXTENDED"
    by (simp_all only: take_bit_and [OF flag_masks(1)] take_bit_and [OF flag_masks(2)] has_flag_def)
  have e: "ce_flags (disk_view ce) = take_bit 16 (ce_flags ce) OR (ce_flags ce AND CE_EXTENDED_FLAGS)" by (simp add: disk_view_def)
  show ?thesis
  proof (cases "has_flag ce CE_EXTENDED")
    case True
    have t: "take_bit 16 CE_EXTENDED_FLAGS = (0 :: u32)" by simp
    have x: "(f AND g) AND NOT g = 0" for f g :: u32 by (simp add: and.assoc)
    show ?thesis using True
      by (simp only: r(2) r(3) [OF True] and_then_simps m Let_def high_half [OF t] x e if_True if_False simp_thms)
  next
    case False
    then have "ce_flags ce AND CE_EXTENDED_FLAGS = 0" using assms(3) by (simp add: extended_ok_def has_flag_def)
    then show ?thesis using False by (simp only: r(2) and_then_simps m e if_False simp_thms or.right_neutral)
  qed
qed

lemma ondisk_ce_size_view: "disk_ok ce \<Longrightarrow> ondisk_ce_size (disk_view ce) = ondisk_ce_size ce"
  by (simp add: ondisk_ce_size_def has_flag_def disk_view_flags ce_namelen_def Let_def disk_view_def [of ce, THEN arg_cong, of ce_name])

lemma create_from_disk_holds:
  assumes "holds mem pos (copy_cache_entry_to_ondisk ce)" "disk_ok ce" "extended_ok ce"
  shows "create_from_disk mem pos previous_name = create_entry mem pos previous_name
    (ce_flags ce AND CE_NAMEMASK) (has_flag ce CE_EXTENDED) (ce_flags (disk_view ce))"
  unfolding create_from_disk_def by (rule read_flags [OF assms])

definition plain_entry :: "cache_entry \<Rightarrow> byte list" where
  "plain_entry ce = (let head = copy_cache_entry_to_ondisk ce; name = bytes_of (take (ce_namelen ce) (ce_name ce)) in
     head @ name @ replicate (ondisk_ce_size ce - length head - length name) 0)"

lemma padding: "\<exists>k. (n + 8) div 8 * 8 - n = Suc k" "n < (n + 8) div 8 * (8 :: nat)"
  by presburger+

lemma plain_entry_read:
  assumes "holds mem pos (plain_entry ce)" "disk_ok ce" "extended_ok ce"
  shows "create_from_disk mem pos None = Got (disk_view ce, length (plain_entry ce), None)"
proof -
  let ?n = "ondisk_name (has_flag ce CE_EXTENDED)" and ?f = "ce_flags ce AND CE_NAMEMASK"
  have sha: "length (ce_sha1 ce) = 20" and nul: "CHR 0x00 \<notin> set (ce_name ce)"
    and len: "unat ?f = min 0xfff (length (ce_name ce))" using assms(2) by (simp_all add: disk_ok_def)
  have sz: "ondisk_ce_size ce = (?n + length (ce_name ce) + 8) div 8 * 8"
    using assms(2) by (simp add: ondisk_ce_size_def disk_ok_namelen)
  obtain k where k: "ondisk_ce_size ce - ?n - length (ce_name ce) = Suc k"
    using padding(1) [of "?n + length (ce_name ce)"] unfolding sz by (auto simp: diff_diff_eq)
  have p: "plain_entry ce = copy_cache_entry_to_ondisk ce @ bytes_of (ce_name ce) @ 0 # replicate k 0"
    using k assms(2) sha by (simp add: plain_entry_def Let_def disk_ok_namelen length_copy)
  have l: "length (plain_entry ce) = ondisk_ce_size ce"
    using padding(2) [of "?n + length (ce_name ce)"] sz k by (simp add: p length_copy [OF sha])
  have h: "holds mem pos (copy_cache_entry_to_ondisk ce)" "holds mem (pos + ?n) (bytes_of (ce_name ce) @ [0])"
    using assms(1) unfolding p holds_append [of mem pos "copy_cache_entry_to_ondisk ce"] length_copy [OF sha]
    by (simp_all add: holds_append [of _ _ _ "replicate k 0", symmetric] holds_append [of mem "pos + ?n" "bytes_of (ce_name ce) @ [0]" "replicate k 0", simplified])
  have name: "(if ?f = CE_NAMEMASK then cstring_at mem (pos + ?n) else read_bytes mem (pos + ?n) (unat ?f)) = Got (bytes_of (ce_name ce))"
  proof (cases "?f = CE_NAMEMASK")
    case True
    then show ?thesis using cstring_holds [OF h(2) nul] by simp
  next
    case False
    then have "unat ?f \<noteq> 0xfff" by (simp add: word_unat_eq_iff)
    then have "unat ?f = length (ce_name ce)" using len by simp
    moreover have "holds mem (pos + ?n) (bytes_of (ce_name ce))" using h(2) by (simp add: holds_append)
    ultimately show ?thesis using False read_holds [of mem "pos + ?n" "bytes_of (ce_name ce)"] by simp
  qed
  have v: "ce\<lparr>ce_flags := ce_flags (disk_view ce), ce_name := ce_name ce\<rparr> = disk_view ce" by (simp add: disk_view_def)
  show ?thesis
    unfolding create_from_disk_holds [OF h(1) assms(2,3)] create_entry_def Let_def option.case name and_then_simps
      string_of_bytes copy_cache_entry_read(1) [OF h(1) sha] v l ondisk_ce_size_view [OF assms(2)] by (rule refl)
qed

lemma common_prefix_le: "common_prefix a b \<le> length a" "common_prefix a b \<le> length b"
  by (induction a b rule: common_prefix.induct) auto

lemma common_prefix_take: "take (common_prefix a b) a = take (common_prefix a b) b"
  by (induction a b rule: common_prefix.induct) auto

definition packed_entry :: "cache_entry \<Rightarrow> string \<Rightarrow> byte list" where
  "packed_entry ce prev = (let common = common_prefix (ce_name ce) prev in
     copy_cache_entry_to_ondisk ce @ encode_varint (of_nat (length prev - common)) @ bytes_of (drop common (ce_name ce)) @ [0])"

lemma name_again: "take (common_prefix a b) b @ drop (common_prefix a b) a = a"
  by (simp add: common_prefix_take [symmetric])

lemma expand_name_field_read:
  assumes "holds mem cp (encode_varint (of_nat (length (sb_str sb) - c)) @ bytes_of rest @ [0])"
    and sb: "sb_ok sb" "length (sb_str sb) < 2 ^ 31" and c: "c \<le> length (sb_str sb)"
    and rest: "CHR 0x00 \<notin> set rest" "length rest < 2 ^ 31"
  shows "\<exists>sb'. expand_name_field sb mem cp
      = Got (sb', length (encode_varint (of_nat (length (sb_str sb) - c))) + length rest + 1)
    \<and> sb_ok sb' \<and> sb_str sb' = take c (sb_str sb) @ rest"
proof -
  let ?v = "of_nat (length (sb_str sb) - c) :: u64" and ?l = "length (sb_str sb)"
  obtain pre post where m: "mem = pre @ encode_varint ?v @ bytes_of rest @ [0] @ post" "length pre = cp"
    using assms(1) by (auto simp: holds_def)
  have dec: "decode_varint (drop cp mem) = Some (?v, bytes_of rest @ [0] @ post)"
    using m by (simp add: decode_varint_def varint_read_encode)
  have start: "length mem - length (bytes_of rest @ [0] @ post) = cp + length (encode_varint ?v)"
    using m by simp
  have L: "unat (sb_len sb) = ?l" using length_sb_str [OF sb(1)] by simp
  have v: "unat ?v = ?l - c" using sb(2) by (intro unat_of_nat_small) simp
  have le: "\<not> sb_len sb < ?v" using v L by (simp add: word_less_nat_alt)
  have d: "unat (sb_len sb - ?v) = c" using le v L c by (simp add: unat_sub word_le_nat_alt)
  have fits: "length (sb_str sb) + length ([] :: string) + 1 < 2 ^ 64" using sb(2) by simp
  have "unat (sb_len sb - ?v) + unat ?v \<le> length (sb_str sb)" using d v c by simp
  then obtain s1 where s1: "strbuf_remove sb (sb_len sb - ?v) ?v = Got s1" "sb_ok s1" "sb_str s1 = take c (sb_str sb)"
    using strbuf_splice_ok [OF sb(1) _ fits] d v c unfolding strbuf_remove_def by fastforce
  have "length (sb_str s1) + length rest + 1 < 2 ^ 64" using s1(3) sb(2) rest(2) by simp
  then obtain s2 where s2: "strbuf_add s1 rest = Got s2" "sb_ok s2" "sb_str s2 = take c (sb_str sb) @ rest"
    using strbuf_add_ok [OF s1(2)] s1(3) by metis
  have "holds mem (cp + length (encode_varint ?v)) (bytes_of rest @ [0])" using assms(1) by (simp only: holds_append)
  from cstring_holds [OF this rest(1)] have cs: "cstring_at mem (cp + length (encode_varint ?v)) = Got (bytes_of rest)" .
  have "expand_name_field sb mem cp = Got (s2, cp + length (encode_varint ?v) + length (bytes_of rest) + 1 - cp)"
    unfolding expand_name_field_def dec option.case prod.case Let_def start cs s1(1) and_then_simps string_of_bytes s2(1)
    using le by simp
  then show ?thesis using s2 by simp
qed

lemma packed_entry_read:
  assumes "holds mem pos (packed_entry ce (sb_str sb))" "disk_ok ce" "extended_ok ce"
    and sb: "sb_ok sb" "length (sb_str sb) < 2 ^ 31"
  shows "\<exists>sb'. create_from_disk mem pos (Some sb) = Got (disk_view ce, length (packed_entry ce (sb_str sb)), Some sb')
    \<and> sb_ok sb' \<and> sb_str sb' = ce_name ce"
proof -
  let ?c = "common_prefix (ce_name ce) (sb_str sb)" and ?n = "ondisk_name (has_flag ce CE_EXTENDED)"
  let ?vi = "encode_varint (of_nat (length (sb_str sb) - ?c))" and ?rest = "drop ?c (ce_name ce)"
  have sha: "length (ce_sha1 ce) = 20" using assms(2) by (simp add: disk_ok_def)
  have h: "holds mem pos (copy_cache_entry_to_ondisk ce)" "holds mem (pos + ?n) (?vi @ bytes_of ?rest @ [0])"
    using assms(1) unfolding packed_entry_def Let_def holds_append [of mem pos "copy_cache_entry_to_ondisk ce"] length_copy [OF sha]
    by blast+
  have rest: "CHR 0x00 \<notin> set ?rest" "length ?rest < 2 ^ 31"
    using assms(2) by (auto simp: disk_ok_def dest: in_set_dropD)
  obtain sb' where sb': "expand_name_field sb mem (pos + ?n) = Got (sb', length ?vi + length ?rest + 1)"
    "sb_ok sb'" "sb_str sb' = take ?c (sb_str sb) @ ?rest"
    using expand_name_field_read [OF h(2) sb common_prefix_le(2) rest] by blast
  have n: "sb_str sb' = ce_name ce" using sb'(3) by (simp only: name_again)
  have v: "ce\<lparr>ce_flags := ce_flags (disk_view ce), ce_name := ce_name ce\<rparr> = disk_view ce" by (simp add: disk_view_def)
  have "create_from_disk mem pos (Some sb) = Got (disk_view ce, pos + ?n - pos + (length ?vi + length ?rest + 1), Some sb')"
    unfolding create_from_disk_holds [OF h(1) assms(2,3)] create_entry_def Let_def option.case sb'(1) and_then_simps prod.case
      n copy_cache_entry_read(1) [OF h(1) sha] v by (rule refl)
  moreover have "length (packed_entry ce (sb_str sb)) = ?n + (length ?vi + length ?rest + 1)"
    by (simp add: packed_entry_def Let_def length_copy [OF sha])
  ultimately show ?thesis using sb'(2) n by simp
qed

subsection \<open>The buffered writer\<close>

definition writer_ok :: "writer \<Rightarrow> bool" where
  "writer_ok w \<longleftrightarrow> length (w_buffer w) < WRITE_BUFFER_SIZE"

text \<open>Some bytes were appended, to the file and to what SHA-1 sees.\<close>

definition writes :: "writer \<Rightarrow> byte list \<Rightarrow> writer \<Rightarrow> bool" where
  "writes w bytes w' \<longleftrightarrow> writer_ok w' \<and> w_file w' @ w_buffer w' = w_file w @ w_buffer w @ bytes
     \<and> w_context w' @ w_buffer w' = w_context w @ w_buffer w @ bytes
     \<and> length (w_file w') + w_room w' = length (w_file w) + w_room w"

definition space :: "writer \<Rightarrow> nat" where
  "space w = w_room w - length (w_buffer w)"

lemma writes_trans: "writes w xs w1 \<Longrightarrow> writes w1 ys w2 \<Longrightarrow> writes w (xs @ ys) w2"
  unfolding writes_def by (metis append.assoc)

lemma writes_refl: "writer_ok w \<Longrightarrow> writes w [] w"
  by (simp add: writes_def)

lemma writes_space: "writes w bytes w' \<Longrightarrow> length bytes \<le> space w \<Longrightarrow> length bytes + space w' = space w"
  unfolding writes_def space_def
  by (drule conjunct2, elim conjE, drule arg_cong [of _ _ length]) simp

lemma flush_full: "w_buffer w \<noteq> [] \<Longrightarrow> ce_write_flush w = (if length (w_buffer w) \<le> w_room w
    then Got (w\<lparr>w_buffer := [], w_context := w_context w @ w_buffer w, w_file := w_file w @ w_buffer w,
      w_room := w_room w - length (w_buffer w)\<rparr>) else Bad)"
  by (cases w) (simp add: ce_write_flush_def write_in_full_def)

lemma ce_write_cases:
  "writer_ok w \<Longrightarrow> (\<exists>w'. ce_write w bytes = Got w' \<and> writes w bytes w')
    \<or> ce_write w bytes = Bad \<and> space w < length bytes"
proof (induction w bytes rule: ce_write.induct)
  case (1 w bytes)
  show ?case
  proof (cases "bytes = []")
    case True
    then show ?thesis using 1 by (simp add: ce_write.simps writes_refl)
  next
    case False
    have ok: "length (w_buffer w) < 8192" using 1 by (simp add: writer_ok_def)
    let ?p = "min (8192 - length (w_buffer w)) (length bytes)"
    let ?w = "w\<lparr>w_buffer := w_buffer w @ take ?p bytes\<rparr>"
    have p: "take ?p bytes @ drop ?p bytes = bytes" by (rule append_take_drop_id)
    have l: "length (w_buffer ?w) = length (w_buffer w) + ?p" by simp
    have eq: "ce_write w bytes = (if length (w_buffer ?w) = 8192
        then (case ce_write_flush ?w of Overrun \<Rightarrow> Overrun | Bad \<Rightarrow> Bad | Got w' \<Rightarrow> ce_write (w'\<lparr>w_buffer := []\<rparr>) (drop ?p bytes))
        else ce_write ?w (drop ?p bytes))"
      using False ok by (subst ce_write.simps) (simp add: Let_def)
    show ?thesis
    proof (cases "length (w_buffer ?w) = 8192")
      case full: True
      then have ne: "w_buffer ?w \<noteq> []" by auto
      let ?w1 = "w\<lparr>w_buffer := [], w_context := w_context w @ w_buffer w @ take ?p bytes,
        w_file := w_file w @ w_buffer w @ take ?p bytes, w_room := w_room w - 8192\<rparr>"
      show ?thesis
      proof (cases "8192 \<le> w_room w")
        case True
        have fl: "ce_write_flush ?w = Got ?w1"
          unfolding flush_full [OF ne] using True full by simp
        have s: "writes w (take ?p bytes) ?w1" using True full by (simp add: writes_def writer_ok_def)
        have sp: "space ?w1 = space w - ?p" using full True l by (simp add: space_def)
        have ww: "?w1\<lparr>w_buffer := []\<rparr> = ?w1" by simp
        have wok: "writer_ok ?w1" by (simp add: writer_ok_def)
        have big: "\<not> 8192 < length (w_buffer w)" using ok by simp
        have IH: "(\<exists>w'. ce_write ?w1 (drop ?p bytes) = Got w' \<and> writes ?w1 (drop ?p bytes) w')
            \<or> ce_write ?w1 (drop ?p bytes) = Bad \<and> space ?w1 < length (drop ?p bytes)"
          using "1.IH"(1) [OF False big refl refl full fl] wok unfolding ww by blast
        have e: "ce_write w bytes = ce_write ?w1 (drop ?p bytes)" unfolding eq if_P [OF full] fl read.case ww by (rule refl)
        from IH show ?thesis
        proof (elim disjE exE conjE)
          fix w' assume "ce_write ?w1 (drop ?p bytes) = Got w'" "writes ?w1 (drop ?p bytes) w'"
          then show ?thesis using writes_trans [OF s, of "drop ?p bytes" w'] p e by auto
        next
          assume "ce_write ?w1 (drop ?p bytes) = Bad" "space ?w1 < length (drop ?p bytes)"
          then have "space w - ?p < length bytes - ?p" unfolding sp length_drop by blast
          then have "space w < length bytes" by linarith
          then show ?thesis using e \<open>ce_write ?w1 (drop ?p bytes) = Bad\<close> by simp
        qed
      next
        case False
        have "ce_write_flush ?w = Bad"
          unfolding flush_full [OF ne] using False full by simp
        moreover have "?p \<le> length bytes" "0 < length bytes" using \<open>bytes \<noteq> []\<close> by simp_all
        then have "space w < length bytes" using False full [unfolded l]
          unfolding space_def by linarith
        ultimately show ?thesis unfolding eq using full by simp
      qed
    next
      case part: False
      then have all: "?p = length bytes" using ok by simp
      then have "ce_write w bytes = Got ?w" unfolding eq using part by (simp add: ce_write.simps)
      moreover have "length (w_buffer w) + length bytes < 8192" using all ok part [unfolded l] by linarith
      then have "writes w bytes ?w" unfolding writes_def writer_ok_def by (simp add: all)
      ultimately show ?thesis by blast
    qed
  qed
qed

text \<open>A step of the writer appends its bytes, or fails for lack of room.\<close>

definition written :: "'a read \<Rightarrow> writer \<Rightarrow> byte list \<Rightarrow> (writer \<Rightarrow> 'a) \<Rightarrow> bool" where
  "written m w bs k \<longleftrightarrow> (\<exists>w'. m = Got (k w') \<and> writes w bs w') \<or> m = Bad \<and> space w < length bs"

lemma written_ce_write: "writer_ok w \<Longrightarrow> written (ce_write w bs) w bs (\<lambda>w. w)"
  unfolding written_def by (rule ce_write_cases)

lemma written_bind:
  assumes "written m w xs k" "\<And>w1. writes w xs w1 \<Longrightarrow> written (f (k w1)) w1 ys k'"
  shows "written (and_then m f) w (xs @ ys) k'"
  using assms(1) unfolding written_def [of m]
proof (elim disjE exE conjE)
  fix w1 assume m: "m = Got (k w1)" "writes w xs w1"
  from assms(2) [OF m(2)] show ?thesis unfolding written_def m(1) and_then_simps
  proof (elim disjE exE conjE)
    fix w' assume "f (k w1) = Got (k' w')" "writes w1 ys w'"
    then show "(\<exists>w'. f (k w1) = Got (k' w') \<and> writes w (xs @ ys) w') \<or> f (k w1) = Bad \<and> space w < length (xs @ ys)"
      using writes_trans [OF m(2)] by blast
  next
    assume "f (k w1) = Bad" "space w1 < length ys"
    moreover have "space w < length (xs @ ys)"
      using writes_space [OF m(2)] \<open>space w1 < length ys\<close> by (cases "length xs \<le> space w") auto
    ultimately show "(\<exists>w'. f (k w1) = Got (k' w') \<and> writes w (xs @ ys) w') \<or> f (k w1) = Bad \<and> space w < length (xs @ ys)"
      by blast
  qed
next
  assume "m = Bad" "space w < length xs"
  then show ?thesis by (simp add: written_def)
qed

lemma written_Got: "writer_ok w \<Longrightarrow> k w = x \<Longrightarrow> written (Got x) w [] k"
  unfolding written_def using writes_refl by blast

lemma written_return: "written m w bs k \<Longrightarrow> (\<And>w. f (k w) = Got (k' w)) \<Longrightarrow> written (and_then m f) w bs k'"
  unfolding written_def by auto

lemma writes_ok: "writes w bs w' \<Longrightarrow> writer_ok w'"
  by (simp add: writes_def)

definition prev_same :: "strbuf option \<Rightarrow> strbuf option \<Rightarrow> bool" where
  "prev_same p q \<longleftrightarrow> p = None \<and> q = None \<or> (\<exists>a b. p = Some a \<and> q = Some b \<and> sb_ok a \<and> sb_ok b
     \<and> sb_str a = sb_str b \<and> length (sb_str a) < 2 ^ 31)"

lemma entry_spec:
  assumes d: "disk_ok ce" "extended_ok ce" and p: "prev_same p p"
  shows "\<exists>bs p'. (\<forall>w. writer_ok w \<longrightarrow> written (ce_write_entry w ce p) w bs (\<lambda>w. (w, p'))) \<and> prev_same p' p'
    \<and> (\<forall>mem pos q. holds mem pos bs \<longrightarrow> prev_same p q \<longrightarrow>
         (\<exists>q'. create_from_disk mem pos q = Got (disk_view ce, length bs, q') \<and> prev_same p' q'))"
proof (cases p)
  case None
  have "written (ce_write_entry w ce p) w (plain_entry ce) (\<lambda>w. (w, None))" if "writer_ok w" for w
    unfolding None ce_write_entry_def option.case plain_entry_def Let_def
    by (rule written_return [OF written_ce_write [OF that]]) simp
  moreover have "create_from_disk mem pos None = Got (disk_view ce, length (plain_entry ce), None)"
    if "holds mem pos (plain_entry ce)" for mem pos by (rule plain_entry_read [OF that d])
  ultimately show ?thesis using None by (intro exI [of _ "plain_entry ce"] exI [of _ None]) (auto simp: prev_same_def)
next
  case (Some sb)
  then have sb: "sb_ok sb" "length (sb_str sb) < 2 ^ 31" using p by (auto simp: prev_same_def)
  let ?c = "common_prefix (ce_name ce) (sb_str sb)" and ?l = "length (sb_str sb)"
  have L: "unat (sb_len sb) = ?l" using length_sb_str [OF sb(1)] by simp
  have n: "length (ce_name ce) < 2 ^ 31" using d(1) by (simp add: disk_ok_def)
  have cl: "?c \<le> ?l" "?c \<le> length (ce_name ce)" by (rule common_prefix_le)+
  have u: "unat (of_nat ?c :: u64) = ?c" "unat (of_nat (?l - ?c) :: u64) = ?l - ?c"
    by (rule unat_of_nat_small; use cl sb(2) in simp)+
  have rest: "take (ce_namelen ce - ?c) (drop ?c (ce_name ce)) = drop ?c (ce_name ce)"
    by (simp add: disk_ok_namelen [OF d(1)])
  have fits: "?l + length (drop ?c (ce_name ce)) + 1 < 2 ^ 64" using n sb(2) by simp
  have le: "unat (of_nat ?c :: u64) + unat (of_nat (?l - ?c) :: u64) \<le> length (sb_str sb)" using u cl(1) by simp
  obtain s where s: "strbuf_splice sb (of_nat ?c) (of_nat (?l - ?c)) (drop ?c (ce_name ce)) = Got s" "sb_ok s" "sb_str s = ce_name ce"
    using strbuf_splice_ok [OF sb(1) le fits] u cl(1) by (auto simp: name_again)
  have "written (ce_write_entry w ce p) w (packed_entry ce (sb_str sb)) (\<lambda>w. (w, Some s))" if "writer_ok w" for w
    unfolding Some ce_write_entry_def option.case packed_entry_def Let_def rest L s(1) and_then_simps
    by (rule written_return [OF written_ce_write [OF that]]) simp
  moreover have "\<exists>q'. create_from_disk mem pos q = Got (disk_view ce, length (packed_entry ce (sb_str sb)), q') \<and> prev_same (Some s) q'"
    if h: "holds mem pos (packed_entry ce (sb_str sb))" and q: "prev_same p q" for mem pos q
  proof -
    obtain b where b: "q = Some b" "sb_ok b" "sb_str b = sb_str sb" using q Some by (auto simp: prev_same_def)
    from packed_entry_read [OF h [folded b(3)] d b(2)] b(3) sb(2)
    obtain b' where "create_from_disk mem pos (Some b) = Got (disk_view ce, length (packed_entry ce (sb_str sb)), Some b')"
      "sb_ok b'" "sb_str b' = ce_name ce" by auto
    then show ?thesis using b(1) s n by (auto simp: prev_same_def)
  qed
  moreover have "prev_same (Some s) (Some s)" using s n by (auto simp: prev_same_def)
  ultimately show ?thesis by blast
qed

definition known_type :: "cache_entry \<Rightarrow> bool" where
  "known_type ce \<longleftrightarrow> S_ISREG (ce_mode ce) \<or> S_ISLNK (ce_mode ce) \<or> S_ISGITLINK (ce_mode ce)"

text \<open>Writing may reset the recorded size of an entry and changes nothing else.\<close>

definition smudged :: "cache_entry \<Rightarrow> cache_entry \<Rightarrow> bool" where
  "smudged a b \<longleftrightarrow> b = a \<or> b = a\<lparr>ce_size := 0\<rparr>"

lemma basic_known: "known_type ce \<Longrightarrow> \<exists>changed. ce_match_stat_basic env ce st = Some changed"
  unfolding ce_match_stat_basic_def Let_def known_type_def
  by (cases "S_ISREG (ce_mode ce)"; cases "S_ISLNK (ce_mode ce)"; cases "S_ISGITLINK (ce_mode ce)") (simp_all split del: if_split, simp_all)

lemma smudge_Got: "known_type ce \<Longrightarrow> \<exists>ce'. ce_smudge_racily_clean_entry env lstat ce = Got ce' \<and> smudged ce ce'"
  using basic_known [of ce env "the (lstat (ce_name ce))"]
  by (cases "lstat (ce_name ce)") (auto simp: ce_smudge_racily_clean_entry_def smudged_def)

lemma smudged_ok: "smudged a b \<Longrightarrow> disk_ok a \<Longrightarrow> disk_ok b" "smudged a b \<Longrightarrow> extended_ok a \<Longrightarrow> extended_ok b"
  "smudged a b \<Longrightarrow> has_flag b f = has_flag a f"
  by (auto simp: smudged_def disk_ok_def extended_ok_def has_flag_def)

lemma view_unhashed: "clear_flags CE_UNHASHED (disk_view ce) = disk_view ce"
proof -
  have g: "(take_bit 16 f OR (f AND e)) AND NOT u = take_bit 16 f OR (f AND e)"
    if "take_bit 16 u = 0" "e AND u = 0" for f e u :: u32
  proof (rule bit_word_eqI)
    fix n :: nat
    assume "n < LENGTH(32)"
    have "\<not> (n < 16 \<and> bit u n)" "\<not> (bit e n \<and> bit u n)"
      using arg_cong [OF that(1), of "\<lambda>w. bit w n"] arg_cong [OF that(2), of "\<lambda>w. bit w n"] by (auto simp: bit_simps)
    then show "bit ((take_bit 16 f OR (f AND e)) AND NOT u) n \<longleftrightarrow> bit (take_bit 16 f OR (f AND e)) n"
      using \<open>n < LENGTH(32)\<close> by (auto simp: bit_simps)
  qed
  have "take_bit 16 CE_UNHASHED = (0 :: u32)" "CE_EXTENDED_FLAGS AND CE_UNHASHED = (0 :: u32)" by simp_all
  note h = g [OF this, of "ce_flags ce"]
  have "ce_flags (disk_view ce) AND NOT CE_UNHASHED = ce_flags (disk_view ce)"
  proof -
    have "ce_flags (disk_view ce) = take_bit 16 (ce_flags ce) OR (ce_flags ce AND CE_EXTENDED_FLAGS)" by (simp add: disk_view_def)
    then show ?thesis by (simp only: h)
  qed
  then have "clear_flags CE_UNHASHED (disk_view ce) = (disk_view ce)\<lparr>ce_flags := ce_flags (disk_view ce)\<rparr>"
    by (simp only: clear_flags_def)
  then show ?thesis by simp
qed

lemma write_entries_spec:
  assumes "\<forall>ce\<in>set cache. disk_ok ce \<and> extended_ok ce \<and> known_type ce" "prev_same p p"
  shows "\<exists>bs cache'. (\<forall>w. writer_ok w \<longrightarrow> written (write_entries env lstat istate w cache p) w bs (\<lambda>w. (w, cache')))
    \<and> list_all2 smudged cache cache'
    \<and> (\<forall>mem pos q. holds mem pos bs \<longrightarrow> prev_same p q \<longrightarrow>
         read_entries (length (filter live cache')) mem pos q = Got (map disk_view (filter live cache'), pos + length bs))"
  using assms
proof (induction cache arbitrary: p)
  case Nil
  show ?case by (intro exI [of _ "[]"]) (simp add: written_Got)
next
  case (Cons ce cache)
  show ?case
  proof (cases "live ce")
    case False
    from Cons.IH [OF _ Cons.prems(2)] Cons.prems(1) obtain bs cache' where
      IH: "\<And>w. writer_ok w \<Longrightarrow> written (write_entries env lstat istate w cache p) w bs (\<lambda>w. (w, cache'))"
      "list_all2 smudged cache cache'"
      "\<And>mem pos q. holds mem pos bs \<Longrightarrow> prev_same p q \<Longrightarrow>
         read_entries (length (filter live cache')) mem pos q = Got (map disk_view (filter live cache'), pos + length bs)"
      by force
    have "written (write_entries env lstat istate w (ce # cache) p) w bs (\<lambda>w. (w, ce # cache'))" if "writer_ok w" for w
      using False by (simp add: live_def) (rule written_return [OF IH(1) [OF that]], simp)
    moreover have "list_all2 smudged (ce # cache) (ce # cache')" using IH(2) by (simp add: smudged_def)
    ultimately show ?thesis using IH(3) False by (intro exI [of _ bs] exI [of _ "ce # cache'"]) simp
  next
    case True
    obtain ce' where ce': "(if \<not> has_flag ce CE_UPTODATE \<and> is_racy_timestamp istate ce
          then ce_smudge_racily_clean_entry env lstat ce else Got ce) = Got ce'" "smudged ce ce'"
    proof (cases "\<not> has_flag ce CE_UPTODATE \<and> is_racy_timestamp istate ce")
      case True
      then show ?thesis using that smudge_Got [of ce env lstat] Cons.prems(1) by auto
    next
      case False
      then show ?thesis using that [of ce] by (auto simp: smudged_def)
    qed
    have live': "live ce'" using True smudged_ok(3) [OF ce'(2)] by (simp add: live_def)
    have d: "disk_ok ce'" "extended_ok ce'" using smudged_ok(1,2) [OF ce'(2)] Cons.prems(1) by simp_all
    obtain bs1 p' where e: "\<And>w. writer_ok w \<Longrightarrow> written (ce_write_entry w ce' p) w bs1 (\<lambda>w. (w, p'))" "prev_same p' p'"
      "\<And>mem pos q. holds mem pos bs1 \<Longrightarrow> prev_same p q \<Longrightarrow>
         \<exists>q'. create_from_disk mem pos q = Got (disk_view ce', length bs1, q') \<and> prev_same p' q'"
      using entry_spec [OF d Cons.prems(2)] by blast
    from Cons.IH [OF _ e(2)] Cons.prems(1) obtain bs2 cache' where
      IH: "\<And>w. writer_ok w \<Longrightarrow> written (write_entries env lstat istate w cache p') w bs2 (\<lambda>w. (w, cache'))"
      "list_all2 smudged cache cache'"
      "\<And>mem pos q. holds mem pos bs2 \<Longrightarrow> prev_same p' q \<Longrightarrow>
         read_entries (length (filter live cache')) mem pos q = Got (map disk_view (filter live cache'), pos + length bs2)"
      by force
    have "written (write_entries env lstat istate w (ce # cache) p) w (bs1 @ bs2) (\<lambda>w. (w, ce' # cache'))" if w: "writer_ok w" for w
    proof -
      have eq: "write_entries env lstat istate w (ce # cache) p = and_then (ce_write_entry w ce' p) (\<lambda>(w, previous_name).
          and_then (write_entries env lstat istate w cache previous_name) (\<lambda>(w, cache). Got (w, ce' # cache)))"
        using True ce'(1) by (simp add: live_def)
      show ?thesis unfolding eq
      proof (rule written_bind [OF e(1) [OF w]])
        fix w1 assume "writes w bs1 w1"
        then have "written (write_entries env lstat istate w1 cache p') w1 bs2 (\<lambda>w. (w, cache'))" by (intro IH(1)) (rule writes_ok)
        then show "written (case (w1, p') of (w, previous_name) \<Rightarrow> and_then (write_entries env lstat istate w cache previous_name)
            (\<lambda>(w, cache). Got (w, ce' # cache))) w1 bs2 (\<lambda>w. (w, ce' # cache'))"
          unfolding prod.case by (rule written_return) simp
      qed
    qed
    moreover have "list_all2 smudged (ce # cache) (ce' # cache')" using IH(2) ce'(2) by simp
    moreover have "read_entries (length (filter live (ce' # cache'))) mem pos q
        = Got (map disk_view (filter live (ce' # cache')), pos + length (bs1 @ bs2))"
      if h: "holds mem pos (bs1 @ bs2)" and q: "prev_same p q" for mem pos q
    proof -
      have h12: "holds mem pos bs1" "holds mem (pos + length bs1) bs2" using h by (simp_all add: holds_append)
      obtain q' where q': "create_from_disk mem pos q = Got (disk_view ce', length bs1, q')" "prev_same p' q'"
        using e(3) [OF h12(1) q] by blast
      show ?thesis using live' by (simp add: q'(1) IH(3) [OF h12(2) q'(2)] view_unhashed)
    qed
    ultimately show ?thesis by blast
  qed
qed

definition ext_bytes :: "(u32 \<times> byte list) list \<Rightarrow> byte list" where
  "ext_bytes exts = concat (map (\<lambda>e. htonl (fst e) @ htonl (of_nat (length (snd e))) @ snd e) exts)"

definition exts_ok :: "(u32 \<times> byte list) list \<Rightarrow> bool" where
  "exts_ok exts \<longleftrightarrow> (\<forall>e\<in>set exts. fst e \<in> {0x54524545, 0x52455543} \<and> length (snd e) < 2 ^ 32)"

text \<open>The data a call of an extension's reader is about.\<close>

definition call_data :: "byte list \<Rightarrow> u32 \<times> nat \<times> u32 \<Rightarrow> u32 \<times> byte list" where
  "call_data mem c = (fst c, take (unat (snd (snd c))) (drop (fst (snd c)) mem))"

lemma write_extensions_spec: "writer_ok w \<Longrightarrow> written (write_extensions w exts) w (ext_bytes exts) (\<lambda>w. w)"
proof (induction exts arbitrary: w)
  case Nil
  then show ?case by (simp add: ext_bytes_def written_Got)
next
  case (Cons e exts)
  have b: "ext_bytes (e # exts) = (htonl (fst e) @ htonl (of_nat (length (snd e)))) @ snd e @ ext_bytes exts"
    by (simp add: ext_bytes_def)
  show ?case unfolding b write_extensions.simps write_index_ext_header_def
    by (intro written_bind [where k = "\<lambda>w. w"] written_ce_write Cons.IH Cons.prems | erule writes_ok)+
qed

lemma holds_take: "holds mem pos bs \<Longrightarrow> length bs = n \<Longrightarrow> take n (drop pos mem) = bs"
  by (auto simp: holds_def)

lemma read_extensions_spec:
  "holds mem pos (ext_bytes exts) \<Longrightarrow> pos + length (ext_bytes exts) + 20 = length mem \<Longrightarrow> 28 \<le> length mem \<Longrightarrow> exts_ok exts
    \<Longrightarrow> \<exists>calls. read_extensions mem pos = Got calls \<and> map (call_data mem) calls = exts"
proof (induction exts arbitrary: pos)
  case Nil
  then have "\<not> pos \<le> length mem - 20 - 8" by (simp add: ext_bytes_def)
  then show ?case by (simp add: read_extensions.simps)
next
  case (Cons e exts)
  let ?n = "of_nat (length (snd e)) :: u32"
  have e: "fst e = 0x54524545 \<or> fst e = 0x52455543" "length (snd e) < 2 ^ 32" "exts_ok exts" using Cons.prems(4) by (auto simp: exts_ok_def)
  have n: "unat ?n = length (snd e)" using e(2) by (intro unat_of_nat_small) simp
  have b: "ext_bytes (e # exts) = htonl (fst e) @ htonl ?n @ snd e @ ext_bytes exts" by (simp add: ext_bytes_def)
  have h: "holds mem pos (htonl (fst e))" "holds mem (pos + 4) (htonl ?n)" "holds mem (pos + 8) (snd e)"
    "holds mem (pos + 8 + length (snd e)) (ext_bytes exts)"
    using Cons.prems(1) unfolding b by (simp_all add: holds_append add.assoc)
  have "pos + 8 + length (snd e) + length (ext_bytes exts) + 20 = length mem" using Cons.prems(2) unfolding b by simp
  from Cons.IH [OF h(4) this Cons.prems(3) e(3)] obtain calls where
    c: "read_extensions mem (pos + 8 + length (snd e)) = Got calls" "map (call_data mem) calls = exts" by blast
  have "pos \<le> length mem - 20 - 8" using Cons.prems(2) unfolding b by simp
  then have "read_extensions mem pos = and_then (read_extensions mem (pos + 8 + length (snd e))) (\<lambda>more. Got ([(fst e, pos + 8, ?n)] @ more))"
    using e(1) by (simp add: read_extensions.simps [of mem pos] ntoh_l_holds [OF h(2)] read_holds [OF h(1)] read_index_extension_def be_htonl n)
  moreover have "call_data mem (fst e, pos + 8, ?n) = e" using holds_take [OF h(3) refl] by (simp add: call_data_def n)
  ultimately show ?case using c by simp
qed

lemma ce_flush_spec:
  assumes "writer_ok w" "length (sha1 (w_context w @ w_buffer w)) = 20" "20 \<le> space w"
  shows "\<exists>w'. ce_flush sha1 w = Got w' \<and> w_file w' = w_file w @ w_buffer w @ sha1 (w_context w @ w_buffer w)"
  using assms by (auto simp: ce_flush_def Let_def write_in_full_def space_def writer_ok_def)

lemma mark_flags:
  fixes e x m f :: u32
  assumes "e AND x = 0" "e \<noteq> 0" "e AND m = 0"
  defines "c \<equiv> f AND NOT e"
  defines "g \<equiv> (if c AND x \<noteq> 0 then c OR e else c)"
  shows "(g AND e \<noteq> 0) = (g AND x \<noteq> 0)" "g AND m = f AND m"
proof -
  have a: "c AND e = 0" "c AND m = f AND m" "(c OR e) AND e = e"
    unfolding c_def using and_not_other [OF assms(3)] by (simp_all add: and.assoc bit.conj_disj_distrib2)
  have b: "(c OR e) AND x = c AND x" "(c OR e) AND m = c AND m"
    using assms(1,3) by (simp_all add: bit.conj_disj_distrib2)
  show "(g AND e \<noteq> 0) = (g AND x \<noteq> 0)" unfolding g_def by (cases "c AND x = 0") (simp_all only: a b assms(2) if_True if_False simp_thms)
  show "g AND m = f AND m" unfolding g_def by (cases "c AND x = 0") (simp_all only: a b if_True if_False simp_thms)
qed

lemma mark_extended_flags: "mark_extended ce = ce\<lparr>ce_flags :=
    (if (ce_flags ce AND NOT CE_EXTENDED) AND CE_EXTENDED_FLAGS \<noteq> 0 then (ce_flags ce AND NOT CE_EXTENDED) OR CE_EXTENDED
     else ce_flags ce AND NOT CE_EXTENDED)\<rparr>"
  by (cases ce) (simp only: mark_extended_def Let_def clear_flags_def set_flags_def has_flag_def cache_entry.simps if_distrib cong: if_cong, simp)

lemma mark_extended_ok:
  "extended_ok (mark_extended ce)" "disk_ok (mark_extended ce) = disk_ok ce" "known_type (mark_extended ce) = known_type ce"
proof -
  have z: "CE_EXTENDED AND CE_EXTENDED_FLAGS = (0 :: u32)" "CE_EXTENDED \<noteq> (0 :: u32)" "CE_EXTENDED AND CE_NAMEMASK = (0 :: u32)" by simp_all
  note m = mark_flags [OF z, of "ce_flags ce"]
  have f: "ce_flags (ce\<lparr>ce_flags := g\<rparr>) = g" "ce_name (ce\<lparr>ce_flags := g\<rparr>) = ce_name ce" "ce_sha1 (ce\<lparr>ce_flags := g\<rparr>) = ce_sha1 ce"
    "ce_mode (ce\<lparr>ce_flags := g\<rparr>) = ce_mode ce" for g by simp_all
  show "extended_ok (mark_extended ce)" unfolding extended_ok_def has_flag_def mark_extended_flags f by (rule m(1))
  show "disk_ok (mark_extended ce) = disk_ok ce" unfolding disk_ok_def mark_extended_flags f m(2) by (rule refl)
  show "known_type (mark_extended ce) = known_type ce" unfolding known_type_def mark_extended_flags f by (rule refl)
qed

lemma written_room:
  assumes "written m w bs k" "length bs \<le> space w"
  obtains w' where "m = Got (k w')" "writes w bs w'" "space w = length bs + space w'"
  using assms writes_space unfolding written_def by fastforce

lemma smudged_live: "list_all2 smudged a b \<Longrightarrow> length (filter live b) = length (filter live a)"
  by (induction rule: list_all2_induct) (auto simp: live_def smudged_ok(3))

definition exts_of :: "byte list option \<Rightarrow> byte list option \<Rightarrow> (u32 \<times> byte list) list" where
  "exts_of cache_tree resolve_undo = (case cache_tree of None \<Rightarrow> [] | Some bs \<Rightarrow> [(0x54524545, bs)])
     @ (case resolve_undo of None \<Rightarrow> [] | Some bs \<Rightarrow> [(0x52455543, bs)])"

text \<open>The version written for a version wanted.\<close>

definition disk_version :: "u32 \<Rightarrow> cache_entry list \<Rightarrow> u32" where
  "disk_version version cache = (let version = (if version = 0 then 3 else version) in
     if version = 3 \<or> version = 2 then if \<exists>ce\<in>set cache. has_flag ce CE_EXTENDED then 3 else 2 else version)"

definition index_data :: "u32 \<Rightarrow> nat \<Rightarrow> byte list \<Rightarrow> (u32 \<times> byte list) list \<Rightarrow> byte list" where
  "index_data version nr bs exts = (htonl CACHE_SIGNATURE @ htonl version @ htonl (of_nat nr)) @ bs @ ext_bytes exts"

definition first_name :: "u32 \<Rightarrow> strbuf option" where
  "first_name version = (if version = 4 then Some STRBUF_INIT else None)"

lemma first_name_same: "prev_same (first_name version) (first_name version)"
  by (simp add: prev_same_def first_name_def)

lemma read_index_steps:
  assumes sha1: "\<And>bytes. length (sha1 bytes) = 20" and v: "version \<in> {2, 3, 4}" and nr: "nr < 2 ^ 32" and exts: "exts_ok exts"
    and entries: "\<And>mem pos. holds mem pos bs \<Longrightarrow> read_entries nr mem pos (first_name version) = Got (cache, pos + length bs)"
  defines "data \<equiv> index_data version nr bs exts"
  shows "\<exists>calls. read_index_from sha1 (Some (data @ sha1 data, mtime)) = Got (\<lparr>is_cache = cache, is_changed = False,
        is_undo = \<lambda>_. None, is_timestamp = mtime\<rparr>, version, calls) \<and> map (call_data (data @ sha1 data)) calls = exts"
proof -
  let ?file = "data @ sha1 data"
  have "holds ?file 0 (data @ sha1 data)" by (auto simp: holds_def)
  then have h: "holds ?file 0 (htonl CACHE_SIGNATURE)" "holds ?file 4 (htonl version)" "holds ?file 8 (htonl (of_nat nr))"
    "holds ?file 12 bs" "holds ?file (12 + length bs) (ext_bytes exts)"
    unfolding data_def index_data_def holds_append by (simp_all add: add.assoc)
  have hdr: "be_val (take 4 ?file) = CACHE_SIGNATURE" "be_val (take 4 (drop 4 ?file)) = version" "be_val (take 4 (drop 8 ?file)) = of_nat nr"
    using holds_take [OF h(1), of 4] holds_take [OF h(2), of 4] holds_take [OF h(3), of 4] by (simp_all only: length_hton be_htonl drop_0)
  have n: "unat (of_nat nr :: u32) = nr" using nr by (intro unat_of_nat_small) simp
  have len: "length ?file = 12 + length bs + length (ext_bytes exts) + 20" using sha1 by (simp add: data_def index_data_def)
  have "take (length ?file - 20) ?file = data" "drop (length ?file - 20) ?file = sha1 data" using sha1 by simp_all
  then have "hashcmp (sha1 (take (length ?file - 20) ?file)) (drop (length ?file - 20) ?file) = 0"
    using hashcmp_order [of "sha1 data" "sha1 data"] by simp
  then have V: "verify_hdr sha1 ?file" unfolding verify_hdr_def hdr using v by auto
  from read_extensions_spec [OF h(5) _ _ exts] len obtain calls where
    X: "read_extensions ?file (12 + length bs) = Got calls" "map (call_data ?file) calls = exts" by auto
  have "\<not> length ?file < 12 + 20" using len by simp
  then have "read_index_from sha1 (Some (?file, mtime)) = Got (\<lparr>is_cache = cache, is_changed = False,
        is_undo = \<lambda>_. None, is_timestamp = mtime\<rparr>, version, calls)"
    unfolding read_index_from_def option.case prod.case Let_def hdr n entries [OF h(4), unfolded first_name_def] and_then_simps X(1)
    using V by simp
  with X(2) show ?thesis by blast
qed

lemma write_index_steps:
  fixes istate :: index_state and version :: u32 and cache_tree resolve_undo :: "byte list option"
  assumes sha1: "\<And>bytes. length (sha1 bytes) = 20"
  defines "marked \<equiv> map mark_extended (is_cache istate)"
  defines "nr \<equiv> length marked - length (filter (\<lambda>ce. has_flag ce CE_REMOVE) marked)"
    and "v \<equiv> disk_version version marked" and "exts \<equiv> exts_of cache_tree resolve_undo"
  assumes entries: "\<And>w. writer_ok w \<Longrightarrow> written (write_entries env lstat istate w marked (first_name v)) w bs (\<lambda>w. (w, cache))"
    and room: "length (index_data v nr bs exts) + 20 \<le> room"
  shows "write_index sha1 env lstat room istate version cache_tree resolve_undo
    = Got (index_data v nr bs exts @ sha1 (index_data v nr bs exts), cache, v)"
proof -
  let ?w = "\<lparr>w_buffer = [], w_context = [], w_file = [], w_room = room\<rparr>"
  let ?h = "htonl CACHE_SIGNATURE @ htonl v @ htonl (of_nat nr)" and ?d = "index_data v nr bs exts"
  have w: "writer_ok ?w" "space ?w = room" by (simp_all add: writer_ok_def space_def)
  have r: "length ?h + (length bs + (length (ext_bytes exts) + 20)) \<le> room" using room by (simp add: index_data_def)
  obtain w1 where w1: "ce_write ?w ?h = Got w1" "writes ?w ?h w1" "space ?w = length ?h + space w1"
    using written_room [OF written_ce_write [OF w(1)], of ?h] r w(2) by auto
  obtain w2 where w2: "write_entries env lstat istate w1 marked (first_name v) = Got (w2, cache)" "writes w1 bs w2" "space w1 = length bs + space w2"
    using written_room [OF entries [OF writes_ok [OF w1(2)]]] r w(2) w1(3) by auto
  obtain w3 where w3: "write_extensions w2 exts = Got w3" "writes w2 (ext_bytes exts) w3" "space w2 = length (ext_bytes exts) + space w3"
    using written_room [OF write_extensions_spec [where exts = exts, OF writes_ok [OF w2(2)]]] r w(2) w1(3) w2(3) by auto
  have "writes ?w ?d w3" using writes_trans [OF w1(2) writes_trans [OF w2(2) w3(2)]] by (simp only: index_data_def)
  then have f: "w_file w3 @ w_buffer w3 = ?d" "w_context w3 @ w_buffer w3 = ?d" by (simp_all add: writes_def)
  have "20 \<le> space w3" using r w(2) w1(3) w2(3) w3(3) by simp
  from ce_flush_spec [where ?sha1.0 = sha1, OF writes_ok [OF w3(2)] sha1 this]
  obtain w4 where w4: "ce_flush sha1 w3 = Got w4" "w_file w4 = w_file w3 @ w_buffer w3 @ sha1 (w_context w3 @ w_buffer w3)" by blast
  have "w_file w4 = (w_file w3 @ w_buffer w3) @ sha1 (w_context w3 @ w_buffer w3)" using w4(2) by simp
  then have fl: "w_file w4 = ?d @ sha1 ?d" unfolding f by simp
  have ver: "(if (if version = 0 then 3 else version) = 3 \<or> (if version = 0 then 3 else version) = 2
      then if length (filter (\<lambda>ce. has_flag ce CE_EXTENDED) marked) \<noteq> 0 then 3 else 2 else (if version = 0 then 3 else version)) = v"
    unfolding v_def disk_version_def Let_def by (auto simp: filter_empty_conv)
  show ?thesis
    unfolding write_index_def Let_def marked_def [symmetric] nr_def [symmetric] ver w1(1) first_name_def [symmetric] and_then_simps w2(1) prod.case
      exts_of_def [symmetric] exts_def [symmetric] w3(1) w4(1) fl by (rule refl)
qed

lemma count_live: "list_all2 smudged a b \<Longrightarrow> length a - length (filter (\<lambda>ce. has_flag ce CE_REMOVE) a) = length (filter live b)"
proof -
  assume "list_all2 smudged a b"
  moreover have l: "live = (\<lambda>ce. \<not> has_flag ce CE_REMOVE)" by (rule ext) (simp add: live_def)
  ultimately show ?thesis using smudged_live [of a b] sum_length_filter_compl [of "\<lambda>ce. has_flag ce CE_REMOVE" a]
    unfolding l by simp
qed

text \<open>C3. Given room, writing an index succeeds, and reading the file gives its entries without those
  marked for removal, in all three versions of the format and with the flags the file keeps, and hands
  each extension to its reader with its data. Writing changes no more than the recorded size of entries.\<close>

theorem index_file_roundtrip:
  assumes sha1: "\<And>bytes. length (sha1 bytes) = 20"
    and entries: "\<forall>ce\<in>set (is_cache istate). disk_ok ce \<and> known_type ce" "length (is_cache istate) < 2 ^ 32"
    and version: "version \<in> {0, 2, 3, 4}" and exts: "exts_ok (exts_of cache_tree resolve_undo)"
  shows "\<exists>file cache version' calls room0.
    (\<forall>room\<ge>room0. write_index sha1 env lstat room istate version cache_tree resolve_undo = Got (file, cache, version'))
    \<and> list_all2 smudged (map mark_extended (is_cache istate)) cache
    \<and> read_index_from sha1 (Some (file, mtime)) = Got (\<lparr>is_cache = map disk_view (filter live cache), is_changed = False,
        is_undo = \<lambda>_. None, is_timestamp = mtime\<rparr>, version', calls)
    \<and> map (call_data file) calls = exts_of cache_tree resolve_undo"
proof -
  let ?c = "map mark_extended (is_cache istate)"
  let ?v = "disk_version version ?c"
  have ok: "\<forall>ce\<in>set ?c. disk_ok ce \<and> extended_ok ce \<and> known_type ce" using entries(1) by (simp add: mark_extended_ok)
  obtain bs cache where E: "\<And>w. writer_ok w \<Longrightarrow> written (write_entries env lstat istate w ?c (first_name ?v)) w bs (\<lambda>w. (w, cache))"
    "list_all2 smudged ?c cache"
    "\<And>mem pos q. holds mem pos bs \<Longrightarrow> prev_same (first_name ?v) q \<Longrightarrow>
       read_entries (length (filter live cache)) mem pos q = Got (map disk_view (filter live cache), pos + length bs)"
    using write_entries_spec [OF ok first_name_same] by blast
  have nr: "length (filter live cache) < 2 ^ 32"
    using entries(2) count_live [OF E(2)] by (metis diff_le_self le_less_trans length_map)
  have v: "?v \<in> {2, 3, 4}" using version by (auto simp: disk_version_def Let_def)
  note W = write_index_steps [where ?sha1.0 = sha1, OF sha1 E(1), unfolded count_live [OF E(2)]]
  from read_index_steps [where ?sha1.0 = sha1 and mtime = mtime, OF sha1 v nr exts E(3) [OF _ first_name_same]]
  show ?thesis using W E(2) by blast
qed

theorem index_file_roundtrip_witness:
  "\<exists>file cache version' calls room.
    write_index (\<lambda>_. replicate 20 0) demo_env (\<lambda>_. None) room
      (index_of [(ce_of ''a/b'' 0 0)\<lparr>ce_sha1 := replicate 20 1\<rparr>, (ce_of ''a/c'' 2 0)\<lparr>ce_sha1 := replicate 20 2\<rparr>]) 4 (Some [1, 2]) None
      = Got (file, cache, version')
    \<and> map ce_name cache = [''a/b'', ''a/c'']
    \<and> (\<exists>istate. read_index_from (\<lambda>_. replicate 20 0) (Some (file, (7, 0))) = Got (istate, version', calls))
    \<and> map (call_data file) calls = [(0x54524545, [1, 2])]"
proof -
  let ?i = "index_of [(ce_of ''a/b'' 0 0)\<lparr>ce_sha1 := replicate 20 1\<rparr>, (ce_of ''a/c'' 2 0)\<lparr>ce_sha1 := replicate 20 2\<rparr>]"
  have s: "length (replicate 20 0 :: byte list) = 20" by simp
  have e: "\<forall>ce\<in>set (is_cache ?i). disk_ok ce \<and> known_type ce" 
    by (simp add: disk_ok_def known_type_def ce_of_def create_ce_flags_def S_ISREG_def min_def)
  have l: "length (is_cache ?i) < 2 ^ 32" by simp
  have v: "(4 :: u32) \<in> {0, 2, 3, 4}" by simp
  have x: "exts_ok (exts_of (Some [1, 2]) None)" by (simp add: exts_ok_def exts_of_def)
  have n: "list_all2 smudged a b \<Longrightarrow> map ce_name b = map ce_name a" for a b
    by (induction rule: list_all2_induct) (auto simp: smudged_def)
  have m: "map ce_name (map mark_extended (is_cache ?i)) = [''a/b'', ''a/c'']" by code_simp
  have c: "exts_of (Some [1, 2]) None = [(0x54524545, [1, 2])]" by (simp add: exts_of_def)
  from index_file_roundtrip [where ?sha1.0 = "\<lambda>_. replicate 20 0" and env = demo_env and lstat = "\<lambda>_. None" and mtime = "(7, 0)", OF s e l v x]
  obtain fl cache version' calls room0 where R:
    "\<forall>room\<ge>room0. write_index (\<lambda>_. replicate 20 0) demo_env (\<lambda>_. None) room ?i 4 (Some [1, 2]) None = Got (fl, cache, version')"
    "list_all2 smudged (map mark_extended (is_cache ?i)) cache"
    "\<exists>istate. read_index_from (\<lambda>_. replicate 20 0) (Some (fl, (7, 0))) = Got (istate, version', calls)"
    "map (call_data fl) calls = exts_of (Some [1, 2]) None" by blast
  from R(1) have "write_index (\<lambda>_. replicate 20 0) demo_env (\<lambda>_. None) room0 ?i 4 (Some [1, 2]) None = Got (fl, cache, version')" by blast
  moreover from n [OF R(2)] m have "map ce_name cache = [''a/b'', ''a/c'']" by simp
  ultimately show ?thesis using R(3) R(4) [unfolded c]
    by (intro exI [of _ fl] exI [of _ cache] exI [of _ version'] exI [of _ calls] exI [of _ room0] conjI)
qed

text \<open>The reader trusts the number of entries once the checksum agrees: a file that announces an entry
  it does not hold is read past its end.\<close>

theorem read_index_past_end:
  "and_then (read_index_from (\<lambda>_. replicate 20 0)
     (Some (htonl CACHE_SIGNATURE @ htonl 2 @ htonl 1 @ replicate 20 0, (0, 0)))) (\<lambda>_. Got ()) = Overrun"
  by code_simp

end
