(* ===== verification/Unpack_Merge.thy ===== *)
theory Unpack_Merge
  imports Index
begin

text \<open>
  The merges of trees into the index, from \<^verbatim>\<open>unpack-trees.c\<close>: the checks that no local
  change is lost, and the one-way, two-way, three-way and bind merges of one path. Options and the
  questions asked of the working tree are the fields of an environment. A call of \<open>die\<close> is \<open>Bad\<close>
  and an access through a null pointer is \<open>Overrun\<close>.
\<close>

subsection \<open>State\<close>

datatype unpack_error = WOULD_OVERWRITE | NOT_UPTODATE_FILE | NOT_UPTODATE_DIR | NOT_UPTODATE_SUBMODULE
  | WOULD_LOSE_UNTRACKED_OVERWRITTEN | WOULD_LOSE_UNTRACKED_REMOVED | BIND_OVERLAP
  | SPARSE_NOT_UPTODATE_FILE | WOULD_LOSE_ORPHANED_OVERWRITTEN | WOULD_LOSE_ORPHANED_REMOVED

text \<open>The options of \<open>struct unpack_trees_options\<close> that no merge changes, and the working tree.
  \<open>lstat\<close> gives the error number or the data of a file; \<open>name_exists\<close> is the lookup in the hash
  of names, its last argument tells whether to ignore case.\<close>

record merge_env =
  o_reset :: bool
  o_update :: bool
  o_index_only :: bool
  o_aggressive :: bool
  o_initial_checkout :: bool
  o_skip_sparse_checkout :: bool
  o_gently :: bool
  o_show_all_errors :: bool
  o_recurse_submodules :: bool
  o_head_idx :: nat
  o_merge_size :: nat
  o_has_dir :: bool
  ignore_case :: bool
  stat_cfg :: stat_env
  lstat :: "string \<Rightarrow> nat + stat"
  check_leading_path :: "string \<Rightarrow> int"
  excluded :: "string \<Rightarrow> nat \<Rightarrow> bool"
  read_directory :: "string \<Rightarrow> nat"
  name_exists :: "index_state \<Rightarrow> string \<Rightarrow> bool \<Rightarrow> cache_entry option"
  submodule_checkout_safe :: "string \<Rightarrow> byte list \<Rightarrow> bool"
  submodule_modified :: "string \<Rightarrow> bool"

text \<open>What the merges change: the result, the index they read from and how far it is used up, the
  paths rejected, and whether a merge was not trivial.\<close>

record merge_state =
  ms_result :: index_state
  ms_src :: index_state
  ms_bottom :: nat
  ms_rejects :: "(unpack_error \<times> string) list"
  ms_nontrivial :: bool

abbreviation (input) ENOENT :: nat where "ENOENT \<equiv> 2"

text \<open>A path of a tree: missing, the marker that another tree has a directory there, or an entry.
  The marker is a zeroed entry of its own.\<close>

datatype slot = Absent | DF_Conflict | Entry cache_entry

definition df_conflict_entry :: cache_entry where
  "df_conflict_entry = \<lparr>ce_ctime = (0, 0), ce_mtime = (0, 0), ce_dev = 0, ce_ino = 0, ce_mode = 0, ce_uid = 0, ce_gid = 0,
     ce_size = 0, ce_flags = 0, ce_sha1 = replicate 20 0, ce_name = []\<rparr>"

primrec slot_entry :: "slot \<Rightarrow> cache_entry option" where
  "slot_entry Absent = None"
| "slot_entry DF_Conflict = Some df_conflict_entry"
| "slot_entry (Entry ce) = Some ce"

text \<open>The slot without the marker.\<close>

primrec real_entry :: "slot \<Rightarrow> cache_entry option" where
  "real_entry Absent = None"
| "real_entry DF_Conflict = None"
| "real_entry (Entry ce) = Some ce"

type_synonym step = "(merge_state \<times> int) read"

definition do_add_entry :: "merge_state \<Rightarrow> cache_entry \<Rightarrow> u32 \<Rightarrow> u32 \<Rightarrow> merge_state" where
  "do_add_entry s ce set1 clear =
     (let clear = clear OR CE_HASHED OR CE_UNHASHED;
        set1 = (if set1 AND CE_REMOVE \<noteq> 0 then set1 OR CE_WT_REMOVE else set1);
        ce = ce\<lparr>ce_flags := (ce_flags ce AND NOT clear) OR set1\<rparr> in
      s\<lparr>ms_result := fst (add_index_entry (ms_result s) ce (OK_TO_ADD OR OK_TO_REPLACE))\<rparr>)"

definition add_entry :: "merge_state \<Rightarrow> cache_entry option \<Rightarrow> u32 \<Rightarrow> u32 \<Rightarrow> merge_state read" where
  "add_entry s ce set1 clear = (case ce of None \<Rightarrow> Overrun | Some ce \<Rightarrow> Got (do_add_entry s ce set1 clear))"

definition add_rejected_path :: "merge_env \<Rightarrow> merge_state \<Rightarrow> unpack_error \<Rightarrow> string \<Rightarrow> merge_state \<times> int" where
  "add_rejected_path opt s e path =
     (if \<not> o_show_all_errors opt then (s, - 1) else (s\<lparr>ms_rejects := ms_rejects s @ [(e, path)]\<rparr>, - 1))"

subsection \<open>Is the working tree up to date?\<close>

text \<open>How a check refuses: quietly, or with an error about the path.\<close>

definition refuse :: "merge_env \<Rightarrow> merge_state \<Rightarrow> unpack_error \<Rightarrow> string \<Rightarrow> merge_state \<times> int" where
  "refuse opt s e path = (if o_gently opt then (s, - 1) else add_rejected_path opt s e path)"

definition reject_merge :: "merge_env \<Rightarrow> merge_state \<Rightarrow> cache_entry \<Rightarrow> merge_state \<times> int" where
  "reject_merge opt s ce = add_rejected_path opt s WOULD_OVERWRITE (ce_name ce)"

definition same_entry :: "cache_entry option \<Rightarrow> cache_entry option \<Rightarrow> bool" where
  "same_entry a b = (case (a, b) of (None, None) \<Rightarrow> True
     | (Some a, Some b) \<Rightarrow>
         if (ce_flags a OR ce_flags b) AND CE_CONFLICTED \<noteq> 0 then False
         else ce_mode a = ce_mode b \<and> hashcmp (ce_sha1 a) (ce_sha1 b) = 0
     | _ \<Rightarrow> False)"

text \<open>The options \<open>CE_MATCH_IGNORE_VALID\<close> and \<open>CE_MATCH_IGNORE_SKIP_WORKTREE\<close> are 5 together.\<close>

definition verify_uptodate_1 :: "merge_env \<Rightarrow> merge_state \<Rightarrow> cache_entry \<Rightarrow> unpack_error \<Rightarrow> step" where
  "verify_uptodate_1 opt s ce error_type =
     (if o_index_only opt then Got (s, 0)
      else if \<not> (has_flag ce CE_VALID \<or> has_flag ce CE_SKIP_WORKTREE) \<and> (o_reset opt \<or> has_flag ce CE_UPTODATE) then Got (s, 0)
      else case lstat opt (ce_name ce) of
        Inl errno \<Rightarrow> Got (if errno = ENOENT then (s, 0) else refuse opt s error_type (ce_name ce))
      | Inr st \<Rightarrow> (case ie_match_stat (stat_cfg opt) (ms_src s) ce st 5 of
          None \<Rightarrow> Bad
        | Some changed \<Rightarrow>
            if (changed = 0 \<and> (\<not> S_ISGITLINK (ce_mode ce) \<or> \<not> o_recurse_submodules opt
                \<or> (if ce_stage ce \<noteq> 0 then submodule_checkout_safe opt (ce_name ce) (ce_sha1 ce)
                   else \<not> submodule_modified opt (ce_name ce))))
              \<or> (changed \<noteq> 0 \<and> S_ISGITLINK (ce_mode ce) \<and> \<not> o_recurse_submodules opt)
            then Got (s, 0) else Got (refuse opt s error_type (ce_name ce))))"

definition verify_uptodate :: "merge_env \<Rightarrow> merge_state \<Rightarrow> cache_entry \<Rightarrow> step" where
  "verify_uptodate opt s ce = (if \<not> o_skip_sparse_checkout opt \<and> has_flag ce CE_NEW_SKIP_WORKTREE then Got (s, 0)
     else verify_uptodate_1 opt s ce NOT_UPTODATE_FILE)"

definition verify_uptodate_sparse :: "merge_env \<Rightarrow> merge_state \<Rightarrow> cache_entry \<Rightarrow> step" where
  "verify_uptodate_sparse opt s ce = verify_uptodate_1 opt s ce SPARSE_NOT_UPTODATE_FILE"

definition verify_uptodate_submodule :: "merge_env \<Rightarrow> merge_state \<Rightarrow> cache_entry \<Rightarrow> cache_entry \<Rightarrow> step" where
  "verify_uptodate_submodule opt s old new =
     (if o_index_only opt \<or> (\<not> (has_flag old CE_VALID \<or> has_flag old CE_SKIP_WORKTREE) \<and> (o_reset opt \<or> has_flag old CE_UPTODATE))
      then Got (s, 0)
      else case lstat opt (ce_name old) of
        Inl errno \<Rightarrow> Got (if errno = ENOENT then (s, 0) else refuse opt s NOT_UPTODATE_SUBMODULE (ce_name old))
      | Inr st \<Rightarrow> (case ie_match_stat (stat_cfg opt) (ms_src s) old st 5 of
          None \<Rightarrow> Bad
        | Some changed \<Rightarrow>
            if (changed = 0 \<and> (\<not> S_ISGITLINK (ce_mode old) \<or> \<not> o_recurse_submodules opt
                \<or> submodule_checkout_safe opt (ce_name new) (ce_sha1 new)))
              \<or> (changed \<noteq> 0 \<and> S_ISGITLINK (ce_mode old) \<and> \<not> o_recurse_submodules opt)
            then Got (s, 0) else Got (refuse opt s NOT_UPTODATE_SUBMODULE (ce_name old))))"

subsection \<open>Would something untracked be lost?\<close>

definition locate_in_src_index :: "merge_state \<Rightarrow> cache_entry \<Rightarrow> nat" where
  "locate_in_src_index s ce = (let pos = index_name_pos (ms_src s) (ce_name ce) (of_nat (ce_namelen ce)) in
     nat (if pos < 0 then - 1 - pos else pos))"

text \<open>The entry of \<open>src_index\<close> at a position is used; the bottom moves past the used entries.\<close>

function bottom_from :: "cache_entry list \<Rightarrow> nat \<Rightarrow> nat" where
  "bottom_from cache bottom = (if bottom < length cache \<and> has_flag (cache ! bottom) CE_UNPACKED
     then bottom_from cache (bottom + 1) else bottom)"
  by pat_completeness auto
termination
  by (relation "measure (\<lambda>(cache, bottom). length cache - bottom)") auto

declare bottom_from.simps [simp del]

definition mark_ce_used :: "merge_state \<Rightarrow> nat \<Rightarrow> merge_state" where
  "mark_ce_used s i =
     (let cache = (is_cache (ms_src s))[i := set_flags CE_UNPACKED (is_cache (ms_src s) ! i)] in
      s\<lparr>ms_src := (ms_src s)\<lparr>is_cache := cache\<rparr>,
        ms_bottom := (if ms_bottom s < length cache \<and> ms_bottom s = i then bottom_from cache (ms_bottom s) else ms_bottom s)\<rparr>)"

definition mark_all_ce_unused :: "index_state \<Rightarrow> index_state" where
  "mark_all_ce_unused istate =
     istate\<lparr>is_cache := map (clear_flags (CE_UNPACKED OR CE_ADDED OR CE_NEW_SKIP_WORKTREE)) (is_cache istate)\<rparr>"

text \<open>The entries below the directory \<open>ce\<close>, from a position on: they must be up to date, and are
  removed. The result is their number or -1.\<close>

function remove_below :: "merge_env \<Rightarrow> merge_state \<Rightarrow> cache_entry \<Rightarrow> nat \<Rightarrow> int \<Rightarrow> nat \<Rightarrow> step" where
  "remove_below opt s ce i cnt fuel =
     (if fuel = 0 \<or> \<not> i < length (is_cache (ms_src s)) then Got (s, cnt)
      else let namelen = length (ce_name ce); ce2 = is_cache (ms_src s) ! i in
        if ce_namelen ce2 < namelen \<or> take namelen (ce_name ce2) \<noteq> ce_name ce
          \<or> byte_at (ce_name ce2) namelen \<noteq> CHR ''/'' then Got (s, cnt)
        else if ce_stage ce2 = 0
        then and_then (verify_uptodate opt s ce2) (\<lambda>(s, r).
          if r \<noteq> 0 then Got (s, - 1)
          else remove_below opt (mark_ce_used (do_add_entry s ce2 CE_REMOVE 0) i) ce (i + 1) (cnt + 1) (fuel - 1))
        else remove_below opt s ce (i + 1) (cnt + 1) (fuel - 1))"
  by pat_completeness auto
termination
  by (relation "measure (\<lambda>(opt, s, ce, i, cnt, fuel). fuel)") auto

declare remove_below.simps [simp del]

text \<open>The number of entries of \<open>src_index\<close> bounds the rounds of the loop. \<open>read_directory\<close> counts the
  untracked files that are not ignored.\<close>

definition verify_clean_subdirectory :: "merge_env \<Rightarrow> merge_state \<Rightarrow> cache_entry \<Rightarrow> step" where
  "verify_clean_subdirectory opt s ce =
     (if S_ISGITLINK (ce_mode ce) \<and> gitlink_head (stat_cfg opt) (ce_name ce) \<noteq> None then Got (s, 0)
      else and_then (remove_below opt s ce (locate_in_src_index s ce) 0 (length (is_cache (ms_src s)))) (\<lambda>(s, cnt).
        if cnt = - 1 then Got (s, - 1)
        else if read_directory opt (ce_name ce @ ''/'') \<noteq> 0 then Got (refuse opt s NOT_UPTODATE_DIR (ce_name ce))
        else Got (s, cnt)))"

definition icase_exists :: "merge_env \<Rightarrow> merge_state \<Rightarrow> string \<Rightarrow> stat \<Rightarrow> bool read" where
  "icase_exists opt s name st = (case name_exists opt (ms_src s) name True of None \<Rightarrow> Got False
     | Some src \<Rightarrow> (case ie_match_stat (stat_cfg opt) (ms_src s) src st 5 of None \<Rightarrow> Bad | Some changed \<Rightarrow> Got (changed = 0)))"

text \<open>\<open>ntohl\<close> on a little-endian machine, and the kind of a directory entry. The kinds are those of a
  system without \<open>d_type\<close>.\<close>

definition ntohl_word :: "u32 \<Rightarrow> u32" where
  "ntohl_word w = push_bit 24 (w AND 0xFF) OR push_bit 8 (w AND 0xFF00) OR (drop_bit 8 w AND 0xFF00) OR drop_bit 24 w"

definition ce_to_dtype :: "cache_entry \<Rightarrow> nat" where
  "ce_to_dtype ce = (let mode = ntohl_word (ce_mode ce) in
     if S_ISREG mode then 2 else if S_ISDIR mode \<or> S_ISGITLINK mode then 1 else if S_ISLNK mode then 3 else 0)"

definition check_ok_to_remove :: "merge_env \<Rightarrow> merge_state \<Rightarrow> string \<Rightarrow> nat \<Rightarrow> cache_entry option \<Rightarrow> stat \<Rightarrow> unpack_error \<Rightarrow> step" where
  "check_ok_to_remove opt s name dtype ce st error_type =
     and_then (if ignore_case opt then icase_exists opt s name st else Got False) (\<lambda>other.
       if other then Got (s, 0)
       else if o_has_dir opt \<and> excluded opt name dtype then Got (s, 0)
       else if S_ISDIR (st_mode st) then
         (case ce of None \<Rightarrow> Overrun
          | Some ce \<Rightarrow> and_then (verify_clean_subdirectory opt s ce) (\<lambda>(s, r). Got (s, if r < 0 then - 1 else 0)))
       else case name_exists opt (ms_result s) name False of
           Some result \<Rightarrow> if has_flag result CE_REMOVE then Got (s, 0) else Got (refuse opt s error_type name)
         | None \<Rightarrow> Got (refuse opt s error_type name))"

definition verify_absent_1 :: "merge_env \<Rightarrow> merge_state \<Rightarrow> cache_entry \<Rightarrow> unpack_error \<Rightarrow> step" where
  "verify_absent_1 opt s ce error_type =
     (if o_index_only opt \<or> o_reset opt \<or> \<not> o_update opt then Got (s, 0)
      else let len = check_leading_path opt (take (ce_namelen ce) (ce_name ce)) in
        if len = 0 then Got (s, 0)
        else if len > 0 then
          let path = take (nat len) (ce_name ce) in
          (case lstat opt path of Inl _ \<Rightarrow> Got (s, - 1)
           | Inr st \<Rightarrow> check_ok_to_remove opt s path 0 None st error_type)
        else (case lstat opt (ce_name ce) of
            Inl errno \<Rightarrow> Got (s, if errno \<noteq> ENOENT then - 1 else 0)
          | Inr st \<Rightarrow> check_ok_to_remove opt s (take (ce_namelen ce) (ce_name ce)) (ce_to_dtype ce) (Some ce) st error_type))"

definition verify_absent :: "merge_env \<Rightarrow> merge_state \<Rightarrow> cache_entry \<Rightarrow> unpack_error \<Rightarrow> step" where
  "verify_absent opt s ce error_type = (if \<not> o_skip_sparse_checkout opt \<and> has_flag ce CE_NEW_SKIP_WORKTREE then Got (s, 0)
     else verify_absent_1 opt s ce error_type)"

definition verify_absent_sparse :: "merge_env \<Rightarrow> merge_state \<Rightarrow> cache_entry \<Rightarrow> unpack_error \<Rightarrow> step" where
  "verify_absent_sparse opt s ce error_type = verify_absent_1 opt s ce
     (if error_type = WOULD_LOSE_UNTRACKED_OVERWRITTEN then WOULD_LOSE_ORPHANED_OVERWRITTEN else error_type)"

definition apply_sparse_checkout :: "merge_env \<Rightarrow> merge_state \<Rightarrow> cache_entry \<Rightarrow> (merge_state \<times> cache_entry \<times> int) read" where
  "apply_sparse_checkout opt s ce =
     (let was_skip_worktree = has_flag ce CE_SKIP_WORKTREE;
        ce = (if has_flag ce CE_NEW_SKIP_WORKTREE then set_flags CE_SKIP_WORKTREE ce else clear_flags CE_SKIP_WORKTREE ce);
        skip = has_flag ce CE_SKIP_WORKTREE;
        ce = (if was_skip_worktree \<and> skip
          then (let ce = clear_flags CE_UPDATE ce in if has_flag ce CE_REMOVE then clear_flags CE_WT_REMOVE ce else ce)
          else ce) in
      if \<not> was_skip_worktree \<and> skip
      then and_then (if \<not> has_flag ce CE_UPDATE then verify_uptodate_sparse opt s ce else Got (s, 0)) (\<lambda>(s, r).
        if r \<noteq> 0 then Got (s, ce, - 1) else Got (s, set_flags CE_WT_REMOVE ce, 0))
      else if was_skip_worktree \<and> \<not> skip
      then and_then (verify_absent_sparse opt s ce WOULD_LOSE_UNTRACKED_OVERWRITTEN) (\<lambda>(s, r).
        if r \<noteq> 0 then Got (s, ce, - 1) else Got (s, set_flags CE_UPDATE ce, 0))
      else Got (s, ce, 0))"

subsection \<open>The merges\<close>

definition merged_entry :: "merge_env \<Rightarrow> merge_state \<Rightarrow> cache_entry \<Rightarrow> cache_entry option \<Rightarrow> step" where
  "merged_entry opt s merge old = and_then
     (case old of
        None \<Rightarrow>
          let merge = set_flags CE_NEW_SKIP_WORKTREE merge in
          and_then (verify_absent opt s merge WOULD_LOSE_UNTRACKED_OVERWRITTEN) (\<lambda>(s, r).
            Got (s, merge, CE_UPDATE OR CE_ADDED, r))
      | Some old \<Rightarrow>
          if \<not> has_flag old CE_CONFLICTED then
            if same_entry (Some old) (Some merge) then Got (s, copy_cache_entry merge old, 0, 0)
            else and_then (if S_ISGITLINK (ce_mode old) \<or> S_ISGITLINK (ce_mode merge)
                then verify_uptodate_submodule opt s old merge else verify_uptodate opt s old) (\<lambda>(s, r).
              Got (s, merge, CE_UPDATE OR (ce_flags old AND (CE_SKIP_WORKTREE OR CE_NEW_SKIP_WORKTREE)), r))
          else Got (s, merge, CE_UPDATE, 0))
     (\<lambda>(s, merge, update, r).
        if r \<noteq> 0 then Got (s, - 1) else Got (do_add_entry s merge update CE_STAGEMASK, 1))"

text \<open>Without an old entry the first check reads the flags of \<open>ce\<close>, unless both checks are off.\<close>

definition deleted_entry :: "merge_env \<Rightarrow> merge_state \<Rightarrow> cache_entry option \<Rightarrow> cache_entry option \<Rightarrow> step" where
  "deleted_entry opt s ce old = (case old of
     None \<Rightarrow> (case ce of
         None \<Rightarrow> if o_skip_sparse_checkout opt \<and> (o_index_only opt \<or> o_reset opt \<or> \<not> o_update opt) then Got (s, 0) else Overrun
       | Some ce \<Rightarrow> and_then (verify_absent opt s ce WOULD_LOSE_UNTRACKED_REMOVED) (\<lambda>(s, r).
           Got (s, if r \<noteq> 0 then - 1 else 0)))
   | Some old \<Rightarrow> and_then (if \<not> has_flag old CE_CONFLICTED then verify_uptodate opt s old else Got (s, 0)) (\<lambda>(s, r).
       if r \<noteq> 0 then Got (s, - 1)
       else and_then (add_entry s ce CE_REMOVE 0) (\<lambda>s. Got (s, 1))))"

definition keep_entry :: "merge_state \<Rightarrow> cache_entry option \<Rightarrow> step" where
  "keep_entry s ce = and_then (add_entry s ce 0 0) (\<lambda>s. Got (s, 1))"

text \<open>The array of the entries is filled up with null pointers.\<close>

definition stage :: "slot list \<Rightarrow> nat \<Rightarrow> slot" where
  "stage stages i = (if i < length stages then stages ! i else Absent)"




definition twoway_merge :: "merge_env \<Rightarrow> merge_state \<Rightarrow> slot list \<Rightarrow> step" where
  "twoway_merge opt s src =
     (if o_merge_size opt \<noteq> 2 then Got (s, - 1)
      else let cur = slot_entry (stage src 0); oldtree = real_entry (stage src 1); newtree = real_entry (stage src 2) in
        case cur of
          Some c \<Rightarrow>
            if (oldtree = None \<and> newtree = None)
              \<or> (oldtree = None \<and> newtree \<noteq> None \<and> same_entry cur newtree)
              \<or> (oldtree \<noteq> None \<and> newtree \<noteq> None \<and> same_entry oldtree newtree)
              \<or> (oldtree \<noteq> None \<and> newtree \<noteq> None \<and> \<not> same_entry oldtree newtree \<and> same_entry cur newtree)
            then keep_entry s cur
            else if oldtree \<noteq> None \<and> newtree = None \<and> same_entry cur oldtree then deleted_entry opt s oldtree cur
            else if oldtree \<noteq> None \<and> newtree \<noteq> None \<and> same_entry cur oldtree \<and> \<not> same_entry cur newtree
            then merged_entry opt s (the newtree) cur
            else Got (if o_gently opt then (s, - 1)
              else reject_merge opt s (if oldtree \<noteq> None then the oldtree else c))
        | None \<Rightarrow>
            (case newtree of
               Some new \<Rightarrow>
                 if oldtree \<noteq> None \<and> \<not> o_initial_checkout opt
                 then Got (if same_entry oldtree newtree then (s, 1) else reject_merge opt s (the oldtree))
                 else merged_entry opt s new None
             | None \<Rightarrow> deleted_entry opt s oldtree None))"

definition bind_merge :: "merge_env \<Rightarrow> merge_state \<Rightarrow> slot list \<Rightarrow> step" where
  "bind_merge opt s src =
     (if o_merge_size opt \<noteq> 1 then Got (s, - 1)
      else case (slot_entry (stage src 1), slot_entry (stage src 0)) of
          (Some _, Some _) \<Rightarrow> Got (s, - 1)
        | (None, old) \<Rightarrow> keep_entry s old
        | (Some a, None) \<Rightarrow> merged_entry opt s a None)"

definition oneway_merge :: "merge_env \<Rightarrow> merge_state \<Rightarrow> slot list \<Rightarrow> step" where
  "oneway_merge opt s src =
     (if o_merge_size opt \<noteq> 1 then Got (s, - 1)
      else let old = slot_entry (stage src 0) in
        case real_entry (stage src 1) of
          None \<Rightarrow> deleted_entry opt s old old
        | Some a \<Rightarrow> (case old of
            None \<Rightarrow> merged_entry opt s a None
          | Some e \<Rightarrow>
              if same_entry old (Some a)
              then and_then (if o_reset opt \<and> \<not> has_flag e CE_UPTODATE \<and> \<not> has_flag e CE_SKIP_WORKTREE
                  then (case lstat opt (ce_name e) of Inl _ \<Rightarrow> Got CE_UPDATE
                    | Inr st \<Rightarrow> (case ie_match_stat (stat_cfg opt) (ms_src s) e st 5 of None \<Rightarrow> Bad
                        | Some changed \<Rightarrow> Got (if changed \<noteq> 0 then CE_UPDATE else 0)))
                  else Got 0) (\<lambda>update. Got (do_add_entry s e update 0, 0))
              else merged_entry opt s a old))"

definition call_unpack_fn :: "(merge_env \<Rightarrow> merge_state \<Rightarrow> slot list \<Rightarrow> step) \<Rightarrow> merge_env \<Rightarrow> merge_state \<Rightarrow> slot list \<Rightarrow> step" where
  "call_unpack_fn fn opt s src = and_then (fn opt s src) (\<lambda>(s, ret). Got (s, if ret > 0 then 0 else ret))"

subsection \<open>The checks refuse without touching the result\<close>

definition refused :: "merge_state \<Rightarrow> step \<Rightarrow> bool" where
  "refused s m \<longleftrightarrow> (\<exists>s'. m = Got (s', - 1) \<and> ms_result s' = ms_result s)"

lemma refused_Got: "refused s (Got (s', r)) \<longleftrightarrow> r = - 1 \<and> ms_result s' = ms_result s"
  by (auto simp: refused_def)

lemma refuse_result: "fst (refuse opt s e path) = s' \<Longrightarrow> ms_result s' = ms_result s" "snd (refuse opt s e path) = - 1"
  "ms_result (fst (add_rejected_path opt s e path)) = ms_result s" "snd (add_rejected_path opt s e path) = - 1"
  by (auto simp: refuse_def add_rejected_path_def)

lemma refused_refuse: "refused s (Got (refuse opt s e path))" "refused s (Got (add_rejected_path opt s e path))"
  "refused s (Got (reject_merge opt s ce))" "refused s (Got (if o_gently opt then (s, - 1) else reject_merge opt s ce))"
  by (auto simp: refused_def refuse_def add_rejected_path_def reject_merge_def)

lemma verify_uptodate_cases:
  "verify_uptodate opt s ce = Bad \<or> verify_uptodate opt s ce = Got (s, 0) \<or> refused s (verify_uptodate opt s ce)"
  unfolding verify_uptodate_def verify_uptodate_1_def
  by (simp split: sum.split option.split) (use refused_refuse(1) in blast)

text \<open>The file of an entry agrees with it, or was not checked because the caller or a flag vouches for it.\<close>

definition clean :: "merge_env \<Rightarrow> merge_state \<Rightarrow> cache_entry \<Rightarrow> bool" where
  "clean opt s ce \<longleftrightarrow> verify_uptodate opt s ce = Got (s, 0)"

lemma not_clean: "verify_uptodate opt s ce \<noteq> Bad \<Longrightarrow> \<not> clean opt s ce \<Longrightarrow> refused s (verify_uptodate opt s ce)"
  using verify_uptodate_cases [of opt s ce] by (auto simp: clean_def)

lemma refused_and_then:
  "refused s m \<Longrightarrow> (\<And>s' r. r \<noteq> 0 \<Longrightarrow> f (s', r) = Got (s', - 1)) \<Longrightarrow> refused s (and_then m f)"
  by (auto simp: refused_def)

subsection \<open>The rules of a two-tree merge\<close>

datatype two_tree_result = Keep_Index | Use_M | Remove_Path | Fail

text \<open>The rules in the order of the table of \<^verbatim>\<open>Documentation/git-read-tree.txt\<close>: whether the path is in the
  index \<open>I\<close> and in the trees \<open>H\<close> and \<open>M\<close>, whether the index entry is clean, and which of the three agree. Case 3 is
  that of the program: an initial checkout uses \<open>M\<close> also when \<open>H\<close> and \<open>M\<close> differ, where the table fails.\<close>

definition two_tree_rule :: "bool \<Rightarrow> bool \<Rightarrow> bool \<Rightarrow> bool \<Rightarrow> bool \<Rightarrow> bool \<Rightarrow> bool \<Rightarrow> bool \<Rightarrow> two_tree_result" where
  "two_tree_rule I H M cl IH IM HM initial =
     (if \<not> I \<and> \<not> H \<and> M then Use_M
      else if \<not> I \<and> H \<and> \<not> M then Remove_Path
      else if \<not> I \<and> H \<and> M then (if initial then Use_M else if HM then Keep_Index else Fail)
      else if \<not> H \<and> \<not> M then Keep_Index
      else if \<not> H \<and> M then (if IM then Keep_Index else Fail)
      else if H \<and> \<not> M then (if IH \<and> cl then Remove_Path else Fail)
      else if HM then Keep_Index
      else if IM then Keep_Index
      else if IH \<and> cl then Use_M
      else Fail)"

text \<open>What the results are. Where the index lacks the path, the check for files in the way comes first: it may
  refuse, or mark the entries of a directory that makes room as removed.\<close>

definition carried_out :: "two_tree_result \<Rightarrow> merge_env \<Rightarrow> merge_state \<Rightarrow> cache_entry option \<Rightarrow> cache_entry option \<Rightarrow> cache_entry option \<Rightarrow> step \<Rightarrow> bool" where
  "carried_out result opt s I H M m = (case result of
     Keep_Index \<Rightarrow> m = Got (case I of None \<Rightarrow> s | Some ce \<Rightarrow> do_add_entry s ce 0 0, 1)
   | Use_M \<Rightarrow> (case I of
         None \<Rightarrow> m = and_then (verify_absent opt s (set_flags CE_NEW_SKIP_WORKTREE (the M)) WOULD_LOSE_UNTRACKED_OVERWRITTEN) (\<lambda>(s, r).
           if r \<noteq> 0 then Got (s, - 1)
           else Got (do_add_entry s (set_flags CE_NEW_SKIP_WORKTREE (the M)) (CE_UPDATE OR CE_ADDED) CE_STAGEMASK, 1))
       | Some _ \<Rightarrow> (\<exists>update. update AND CE_UPDATE \<noteq> 0 \<and> m = Got (do_add_entry s (the M) update CE_STAGEMASK, 1)))
   | Remove_Path \<Rightarrow> (case I of
         None \<Rightarrow> m = and_then (verify_absent opt s (the H) WOULD_LOSE_UNTRACKED_REMOVED) (\<lambda>(s, r). Got (s, if r \<noteq> 0 then - 1 else 0))
       | Some _ \<Rightarrow> m = Got (do_add_entry s (the H) CE_REMOVE 0, 1))
   | Fail \<Rightarrow> refused s m)"

lemma same_flags: "same_entry (Some a) (Some b) \<Longrightarrow> \<not> has_flag a CE_CONFLICTED \<and> \<not> has_flag b CE_CONFLICTED"
  by (auto simp: same_entry_def has_flag_def bit.conj_disj_distrib2 or_eq_0_iff split: if_splits)

lemma or_update: "(CE_UPDATE OR x) AND CE_UPDATE \<noteq> (0 :: u32)"
proof -
  have "(a OR x) AND a = a" for a x :: u32 by (simp add: bit.conj_disj_distrib2)
  then have "(CE_UPDATE OR x) AND CE_UPDATE = CE_UPDATE" .
  then show ?thesis by simp
qed

lemma merged_new: "carried_out Use_M opt s None H (Some m) (merged_entry opt s m None)"
proof -
  have "merged_entry opt s m None = and_then (verify_absent opt s (set_flags CE_NEW_SKIP_WORKTREE m) WOULD_LOSE_UNTRACKED_OVERWRITTEN) (\<lambda>(s, r).
      if r \<noteq> 0 then Got (s, - 1) else Got (do_add_entry s (set_flags CE_NEW_SKIP_WORKTREE m) (CE_UPDATE OR CE_ADDED) CE_STAGEMASK, 1))"
    unfolding merged_entry_def option.case Let_def
    by (cases "verify_absent opt s (set_flags CE_NEW_SKIP_WORKTREE m) WOULD_LOSE_UNTRACKED_OVERWRITTEN") (simp_all add: case_prod_beta)
  then show ?thesis unfolding carried_out_def two_tree_result.case option.case option.sel .
qed

lemma merged_over:
  assumes "\<not> has_flag i CE_CONFLICTED" "\<not> same_entry (Some i) (Some m)" "\<not> S_ISGITLINK (ce_mode i)" "\<not> S_ISGITLINK (ce_mode m)"
  shows "clean opt s i \<Longrightarrow> carried_out Use_M opt s (Some i) H (Some m) (merged_entry opt s m (Some i))"
    "refused s (verify_uptodate opt s i) \<Longrightarrow> refused s (merged_entry opt s m (Some i))"
proof -
  assume "clean opt s i"
  then have "merged_entry opt s m (Some i) = Got (do_add_entry s m
      (CE_UPDATE OR (ce_flags i AND (CE_SKIP_WORKTREE OR CE_NEW_SKIP_WORKTREE))) CE_STAGEMASK, 1)"
    using assms unfolding merged_entry_def option.case clean_def by (simp only: if_True if_False not_True_eq_False and_then_simps prod.case simp_thms)
  then show "carried_out Use_M opt s (Some i) H (Some m) (merged_entry opt s m (Some i))"
    unfolding carried_out_def two_tree_result.case option.sel option.case using or_update by blast
next
  assume "refused s (verify_uptodate opt s i)"
  then show "refused s (merged_entry opt s m (Some i))"
    using assms by (auto simp: merged_entry_def refused_def)
qed

lemma two_tree_new:
  assumes "o_merge_size opt = 2" "slot_entry (stage src 0) = None"
  defines "H \<equiv> real_entry (stage src 1)" and "M \<equiv> real_entry (stage src 2)"
  assumes "H \<noteq> None \<or> M \<noteq> None"
  shows "carried_out (two_tree_rule False (H \<noteq> None) (M \<noteq> None) cl IH IM (same_entry H M) (o_initial_checkout opt))
    opt s None H M (twoway_merge opt s src)"
proof -
  note t = twoway_merge_def [of opt s src, unfolded Let_def, folded H_def M_def, unfolded assms(2)]
  show ?thesis
  proof (cases M)
    case None
    then show ?thesis using assms(1,5) by (auto simp: t two_tree_rule_def carried_out_def deleted_entry_def)
  next
    case (Some m)
    show ?thesis
    proof (cases "H \<noteq> None \<and> \<not> o_initial_checkout opt")
      case True
      then show ?thesis using Some assms(1) refused_refuse(3) by (auto simp: t two_tree_rule_def carried_out_def)
    next
      case False
      then have "two_tree_rule False (H \<noteq> None) (M \<noteq> None) cl IH IM (same_entry H M) (o_initial_checkout opt) = Use_M"
        using Some by (cases H) (simp_all add: two_tree_rule_def)
      moreover have "twoway_merge opt s src = merged_entry opt s m None" using Some False assms(1) by (auto simp: t)
      ultimately show ?thesis using merged_new Some by simp
    qed
  qed
qed

lemma deleted_over:
  assumes "\<not> has_flag i CE_CONFLICTED"
  shows "clean opt s i \<Longrightarrow> deleted_entry opt s (Some h) (Some i) = Got (do_add_entry s h CE_REMOVE 0, 1)"
    "refused s (verify_uptodate opt s i) \<Longrightarrow> refused s (deleted_entry opt s (Some h) (Some i))"
  using assms by (auto simp: deleted_entry_def clean_def add_entry_def refused_def)

lemma two_tree_present:
  assumes "o_merge_size opt = 2" "slot_entry (stage src 0) = Some i"
  defines "H \<equiv> real_entry (stage src 1)" and "M \<equiv> real_entry (stage src 2)"
  assumes i: "verify_uptodate opt s i \<noteq> Bad" "\<not> S_ISGITLINK (ce_mode i)" and M: "\<forall>ce\<in>set_option M. \<not> S_ISGITLINK (ce_mode ce)"
  shows "carried_out (two_tree_rule True (H \<noteq> None) (M \<noteq> None) (clean opt s i) (same_entry (Some i) H) (same_entry (Some i) M)
    (same_entry H M) initial) opt s (Some i) H M (twoway_merge opt s src)"
proof -
  note t = twoway_merge_def [of opt s src, unfolded Let_def, folded H_def M_def, unfolded assms(2)]
  have fail: "refused s (Got (if o_gently opt then (s, - 1) else reject_merge opt s x))" for x by (rule refused_refuse(4))
  consider (keep) "H = None \<and> M = None \<or> H = None \<and> same_entry (Some i) M \<and> M \<noteq> None \<or> H \<noteq> None \<and> M \<noteq> None \<and> (same_entry H M \<or> same_entry (Some i) M)"
    | (del) h where "H = Some h" "M = None" "same_entry (Some i) H"
    | (over) h m where "H = Some h" "M = Some m" "same_entry (Some i) H" "\<not> same_entry H M" "\<not> same_entry (Some i) M"
    | (no) "\<not> same_entry (Some i) H \<or> H = None" "H \<noteq> None \<or> M \<noteq> None" "M \<noteq> None \<longrightarrow> \<not> same_entry (Some i) M" "H \<noteq> None \<and> M \<noteq> None \<longrightarrow> \<not> same_entry H M"
    by (cases H; cases M) auto
  then show ?thesis
  proof cases
    case keep
    then have "two_tree_rule True (H \<noteq> None) (M \<noteq> None) (clean opt s i) (same_entry (Some i) H) (same_entry (Some i) M) (same_entry H M) initial = Keep_Index"
      by (auto simp: two_tree_rule_def)
    moreover have "twoway_merge opt s src = keep_entry s (Some i)" using keep assms(1) by (simp add: t) blast
    ultimately show ?thesis by (simp add: carried_out_def keep_entry_def add_entry_def)
  next
    case del
    have nc: "\<not> has_flag i CE_CONFLICTED" using del same_flags by blast
    have e: "twoway_merge opt s src = deleted_entry opt s (Some h) (Some i)" using del assms(1) by (simp add: t)
    show ?thesis
      using del deleted_over [OF nc] not_clean [OF i(1)] by (auto simp: e two_tree_rule_def carried_out_def)
  next
    case over
    have nc: "\<not> has_flag i CE_CONFLICTED" using over same_flags by blast
    have nm: "\<not> same_entry (Some i) (Some m)" "\<not> S_ISGITLINK (ce_mode m)" using over M by auto
    have e: "twoway_merge opt s src = merged_entry opt s m (Some i)" using over assms(1) by (simp add: t)
    note mo = merged_over [OF nc nm(1) i(2) nm(2)]
    show ?thesis
    proof (cases "clean opt s i")
      case True
      then have "two_tree_rule True (H \<noteq> None) (M \<noteq> None) (clean opt s i) (same_entry (Some i) H) (same_entry (Some i) M) (same_entry H M) initial = Use_M"
        using over by (simp add: two_tree_rule_def)
      then show ?thesis using mo(1) [OF True] over(2) by (simp only: e)
    next
      case False
      then show ?thesis using over mo(2) [OF not_clean [OF i(1) False]] by (simp add: e two_tree_rule_def carried_out_def)
    qed
  next
    case no
    then have "two_tree_rule True (H \<noteq> None) (M \<noteq> None) (clean opt s i) (same_entry (Some i) H) (same_entry (Some i) M) (same_entry H M) initial = Fail"
      by (auto simp: two_tree_rule_def)
    moreover have "refused s (twoway_merge opt s src)" using no assms(1) fail by (auto simp: t)
    ultimately show ?thesis by (simp add: carried_out_def)
  qed
qed

text \<open>C14. The outcome of a two-tree merge for a path that is no submodule, in the working tree as it is: the
  rules of the table of \<^verbatim>\<open>git-read-tree.txt\<close>, but an initial checkout takes a path that is missing from the index
  from the new tree even when the trees differ, where the table says that case 3 fails. (Row 1/3 of
  \<^verbatim>\<open>trivial-merge.txt\<close>, which takes the new tree whatever the old one has, is only right for initial checkouts.)
  A path missing from the index is taken or dropped after the check for files in its way.\<close>

theorem twoway_merge_outcome:
  assumes "o_merge_size opt = 2" "stage src 0 \<noteq> DF_Conflict"
  defines "I \<equiv> real_entry (stage src 0)" and "H \<equiv> real_entry (stage src 1)" and "M \<equiv> real_entry (stage src 2)"
  assumes "I \<noteq> None \<or> H \<noteq> None \<or> M \<noteq> None"
    and "\<forall>ce\<in>set_option I. verify_uptodate opt s ce \<noteq> Bad \<and> \<not> S_ISGITLINK (ce_mode ce)"
    and "\<forall>ce\<in>set_option M. \<not> S_ISGITLINK (ce_mode ce)"
  shows "carried_out (two_tree_rule (I \<noteq> None) (H \<noteq> None) (M \<noteq> None) (\<exists>ce\<in>set_option I. clean opt s ce)
      (same_entry I H) (same_entry I M) (same_entry H M) (o_initial_checkout opt)) opt s I H M (twoway_merge opt s src)"
proof -
  have cur: "slot_entry (stage src 0) = I" using assms(2) by (cases "stage src 0") (auto simp: I_def)
  show ?thesis
  proof (cases I)
    case None
    then show ?thesis
      using two_tree_new [OF assms(1), of src "\<exists>ce\<in>set_option I. clean opt s ce" "same_entry I H" "same_entry I M" s] cur assms(6)
      by (simp add: H_def M_def)
  next
    case (Some i)
    then show ?thesis using two_tree_present [OF assms(1), of src i s "o_initial_checkout opt"] cur assms(7,8)
      by (simp add: H_def M_def)
  qed
qed

definition demo_opt :: "nat \<Rightarrow> merge_env" where
  "demo_opt trees = \<lparr>o_reset = False, o_update = False, o_index_only = False, o_aggressive = False, o_initial_checkout = False,
     o_skip_sparse_checkout = True, o_gently = False, o_show_all_errors = True, o_recurse_submodules = False, o_head_idx = 2,
     o_merge_size = trees, o_has_dir = False, ignore_case = False, stat_cfg = demo_env, lstat = \<lambda>_. Inl ENOENT,
     check_leading_path = \<lambda>_. - 1, excluded = \<lambda>_ _. False, read_directory = \<lambda>_. 0, name_exists = \<lambda>_ _ _. None,
     submodule_checkout_safe = \<lambda>_ _. False, submodule_modified = \<lambda>_. False\<rparr>"

definition demo_state :: merge_state where
  "demo_state = \<lparr>ms_result = index_of [], ms_src = index_of [], ms_bottom = 0, ms_rejects = [], ms_nontrivial = False\<rparr>"

definition demo_ce :: "byte \<Rightarrow> cache_entry" where
  "demo_ce b = (ce_of ''a'' 0 0)\<lparr>ce_sha1 := replicate 20 b\<rparr>"

lemma demo_ce: "\<not> S_ISGITLINK (ce_mode (demo_ce b))" "has_flag (demo_ce b) CE_CONFLICTED = False"
    "verify_uptodate (demo_opt n) s (demo_ce b) = Got (s, 0)"
  "same_entry (Some (demo_ce 1)) (Some (demo_ce 1))" "\<not> same_entry (Some (demo_ce 1)) (Some (demo_ce 2))"
  "\<not> same_entry (Some (demo_ce 2)) (Some (demo_ce 1))"
proof -
  show "\<not> S_ISGITLINK (ce_mode (demo_ce b))" by (simp add: demo_ce_def ce_of_def S_ISGITLINK_def)
  show "has_flag (demo_ce b) CE_CONFLICTED = False" by (simp add: demo_ce_def ce_of_def has_flag_def create_ce_flags_def)
  show "verify_uptodate (demo_opt n) s (demo_ce b) = Got (s, 0)"
    by (simp add: verify_uptodate_def verify_uptodate_1_def demo_opt_def)
qed code_simp+

theorem twoway_merge_outcome_witness:
  "carried_out Use_M (demo_opt 2) demo_state (Some (demo_ce 1)) (Some (demo_ce 1)) (Some (demo_ce 2))
    (twoway_merge (demo_opt 2) demo_state [Entry (demo_ce 1), Entry (demo_ce 1), Entry (demo_ce 2)])"
proof -
  let ?src = "[Entry (demo_ce 1), Entry (demo_ce 1), Entry (demo_ce 2)]"
  have st: "stage ?src 0 = Entry (demo_ce 1)" "stage ?src 1 = Entry (demo_ce 1)" "stage ?src 2 = Entry (demo_ce 2)"
    by (simp_all add: stage_def)
  have o: "o_merge_size (demo_opt 2) = 2" "o_initial_checkout (demo_opt 2) = False" by (simp_all add: demo_opt_def)
  from twoway_merge_outcome [of "demo_opt 2" ?src demo_state] show ?thesis
    by (simp only: st real_entry.simps o demo_ce option.set option.discI slot.distinct
      two_tree_rule_def clean_def simp_thms ball_simps bex_simps read.distinct if_True if_False not_False_eq_True refl)
qed

subsection \<open>The rules of a three-way merge\<close>















subsection \<open>Local changes\<close>

text \<open>What a successful check tells of the file of an entry outside sparse checkouts: the caller resets,
  the entry is known to be up to date, there is no file, or its data match.\<close>

definition file_safe :: "merge_env \<Rightarrow> merge_state \<Rightarrow> cache_entry \<Rightarrow> bool" where
  "file_safe opt s ce \<longleftrightarrow> o_reset opt \<or> has_flag ce CE_UPTODATE \<or> lstat opt (ce_name ce) = Inl ENOENT
     \<or> (\<exists>st. lstat opt (ce_name ce) = Inr st \<and> ie_match_stat (stat_cfg opt) (ms_src s) ce st 5 = Some 0)"

lemma verify_uptodate_safe:
  assumes "verify_uptodate opt s ce = Got (s', 0)" "\<not> o_index_only opt" "o_skip_sparse_checkout opt" "\<not> S_ISGITLINK (ce_mode ce)"
  shows "file_safe opt s ce \<and> s' = s"
proof -
  have "snd (refuse opt s e p) = - 1" for e p by (rule refuse_result(2))
  then have "refuse opt s e p \<noteq> (s', 0)" for e p by (metis snd_conv zero_neq_neg_one)
  then show ?thesis
    using assms unfolding verify_uptodate_def verify_uptodate_1_def file_safe_def
    by (auto split: if_splits sum.splits option.splits)
qed

text \<open>When a merge takes an entry over an existing one, either both have the same content, and the new entry
  takes over the old stat data without an update of the file, or the file was safe to overwrite.\<close>

theorem merged_entry_keeps_changes:
  assumes "merged_entry opt s merge (Some old) = Got (s', 1)" "\<not> has_flag old CE_CONFLICTED"
    "\<not> o_index_only opt" "o_skip_sparse_checkout opt" "\<not> S_ISGITLINK (ce_mode old)" "\<not> S_ISGITLINK (ce_mode merge)"
  shows "same_entry (Some old) (Some merge) \<and> s' = do_add_entry s (copy_cache_entry merge old) 0 CE_STAGEMASK
    \<or> file_safe opt s old \<and> (\<exists>update. s' = do_add_entry s merge update CE_STAGEMASK)"
proof (cases "same_entry (Some old) (Some merge)")
  case True
  then show ?thesis using assms(1,2) by (simp add: merged_entry_def)
next
  case False
  then have "and_then (verify_uptodate opt s old) (\<lambda>(s, r). if r \<noteq> 0 then Got (s, - 1 :: int) else Got (do_add_entry s merge
      (CE_UPDATE OR (ce_flags old AND (CE_SKIP_WORKTREE OR CE_NEW_SKIP_WORKTREE))) CE_STAGEMASK, 1)) = Got (s', 1)"
    using assms by (auto simp: merged_entry_def and_then_Got split: if_splits)
  then obtain s1 where s1: "verify_uptodate opt s old = Got (s1, 0)" "s' = do_add_entry s1 merge
      (CE_UPDATE OR (ce_flags old AND (CE_SKIP_WORKTREE OR CE_NEW_SKIP_WORKTREE))) CE_STAGEMASK"
    by (auto simp: and_then_Got split: if_splits)
  then show ?thesis using verify_uptodate_safe [OF s1(1) assms(3-5)] by blast
qed

theorem merged_entry_keeps_changes_witness:
  "file_safe (demo_opt 2) demo_state (demo_ce 1)
   \<and> merged_entry (demo_opt 2) demo_state (demo_ce 2) (Some (demo_ce 1))
     = Got (do_add_entry demo_state (demo_ce 2) CE_UPDATE CE_STAGEMASK, 1)"
proof -
  have f: "ce_flags (demo_ce 1) AND 0x42000000 = 0" by (simp add: demo_ce_def ce_of_def create_ce_flags_def)
  have m: "merged_entry (demo_opt 2) demo_state (demo_ce 2) (Some (demo_ce 1)) = Got (do_add_entry demo_state (demo_ce 2) CE_UPDATE CE_STAGEMASK, 1)"
    by (simp add: merged_entry_def demo_ce f)
  have o: "\<not> o_index_only (demo_opt 2)" "o_skip_sparse_checkout (demo_opt 2)" by (simp_all add: demo_opt_def)
  have nc: "\<not> has_flag (demo_ce 1) CE_CONFLICTED" by (simp add: demo_ce)
  from merged_entry_keeps_changes [OF m nc o demo_ce(1,1)] m demo_ce(5) show ?thesis by blast
qed

text \<open>\<open>ce_to_dtype\<close> swaps the bytes of a mode that is already in host order, so it knows no kind of entry.\<close>

lemma ce_to_dtype_unknown:
  "list_all (\<lambda>mode. ce_to_dtype ((ce_of ''a'' 0 0)\<lparr>ce_mode := mode\<rparr>) = 0) [0x81A4, 0x81ED, 0xA000, 0xE000]"
  by code_simp

end
