(* ===== verification/Block_Sha1.thy ===== *)
theory Block_Sha1
  imports Git_Prelude
begin

text \<open>
  SHA-1 as git computes it, \<^verbatim>\<open>block-sha1/sha1.c\<close>: eighty rounds written out on five variables
  whose roles rotate, a message schedule that rolls over an array of sixteen words, and a buffer for the
  block that is not full yet. The theorems relate it to the standard's definition (FIPS 180): eighty
  words of schedule, the functions \<open>Ch\<close>, \<open>Parity\<close> and \<open>Maj\<close>, and a padded message.

  Words are read and written byte by byte with the highest byte first, as the portable variants of
  \<open>get_be32\<close> and \<open>put_be32\<close> do. The memory of the buffer that was never written is arbitrary.
\<close>

subsection \<open>The code\<close>

definition SHA_ROT :: "u32 \<Rightarrow> nat \<Rightarrow> nat \<Rightarrow> u32" where
  "SHA_ROT X l r = (push_bit l X OR drop_bit r X)"

definition SHA_ROL :: "u32 \<Rightarrow> nat \<Rightarrow> u32" where "SHA_ROL X n = SHA_ROT X n (32 - n)"
definition SHA_ROR :: "u32 \<Rightarrow> nat \<Rightarrow> u32" where "SHA_ROR X n = SHA_ROT X (32 - n) n"

definition get_be32 :: "byte list \<Rightarrow> nat \<Rightarrow> u32" where
  "get_be32 p i = (push_bit 24 (ucast (p ! i)) OR push_bit 16 (ucast (p ! (i + 1)))
     OR push_bit 8 (ucast (p ! (i + 2))) OR ucast (p ! (i + 3)))"

definition put_be32 :: "u32 \<Rightarrow> byte list" where
  "put_be32 v = [ucast (drop_bit 24 v), ucast (drop_bit 16 v), ucast (drop_bit 8 v), ucast v]"

record blk_SHA_CTX =
  ctx_size :: u64
  ctx_H :: "u32 list"
  ctx_W :: "byte list"

text \<open>
  The variables A to E are the registers 0 to 4, and \<open>W(x)\<close> is the entry \<open>x & 15\<close> of the array.
  The call of round \<open>t\<close> names its registers so that role \<open>k\<close> is register \<open>(k + 4t) mod 5\<close>: round 0
  has A, B, C, D, E, round 1 has E, A, B, C, D, and so on.
\<close>

type_synonym sha_state = "u32 list \<times> u32 list"

definition role :: "nat \<Rightarrow> nat \<Rightarrow> nat" where "role t k = (k + 4 * t) mod 5"

definition SHA_SRC :: "byte list \<Rightarrow> nat \<Rightarrow> u32 list \<Rightarrow> u32" where
  "SHA_SRC data t array = get_be32 data (4 * t)"

definition SHA_MIX :: "nat \<Rightarrow> u32 list \<Rightarrow> u32" where
  "SHA_MIX t array = SHA_ROL (array ! ((t + 13) mod 16) XOR array ! ((t + 8) mod 16)
     XOR array ! ((t + 2) mod 16) XOR array ! (t mod 16)) 1"

definition SHA_ROUND :: "nat \<Rightarrow> (u32 list \<Rightarrow> u32) \<Rightarrow> (u32 \<Rightarrow> u32 \<Rightarrow> u32 \<Rightarrow> u32) \<Rightarrow> u32 \<Rightarrow> sha_state \<Rightarrow> sha_state" where
  "SHA_ROUND t input fn constant = (\<lambda>(v, array).
     let A = role t 0; B = role t 1; C = role t 2; D = role t 3; E = role t 4;
         TEMP = input array;
         array = array[t mod 16 := TEMP];
         v = v[E := v ! E + (TEMP + SHA_ROL (v ! A) 5 + fn (v ! B) (v ! C) (v ! D) + constant)];
         v = v[B := SHA_ROR (v ! B) 2]
     in (v, array))"

definition T_0_15 :: "byte list \<Rightarrow> nat \<Rightarrow> sha_state \<Rightarrow> sha_state" where
  "T_0_15 data t = SHA_ROUND t (SHA_SRC data t) (\<lambda>B C D. ((C XOR D) AND B) XOR D) 0x5a827999"

definition T_16_19 :: "nat \<Rightarrow> sha_state \<Rightarrow> sha_state" where
  "T_16_19 t = SHA_ROUND t (SHA_MIX t) (\<lambda>B C D. ((C XOR D) AND B) XOR D) 0x5a827999"

definition T_20_39 :: "nat \<Rightarrow> sha_state \<Rightarrow> sha_state" where
  "T_20_39 t = SHA_ROUND t (SHA_MIX t) (\<lambda>B C D. B XOR C XOR D) 0x6ed9eba1"

definition T_40_59 :: "nat \<Rightarrow> sha_state \<Rightarrow> sha_state" where
  "T_40_59 t = SHA_ROUND t (SHA_MIX t) (\<lambda>B C D. (B AND C) + (D AND (B XOR C))) 0x8f1bbcdc"

definition T_60_79 :: "nat \<Rightarrow> sha_state \<Rightarrow> sha_state" where
  "T_60_79 t = SHA_ROUND t (SHA_MIX t) (\<lambda>B C D. B XOR C XOR D) 0xca62c1d6"

definition blk_rounds :: "byte list \<Rightarrow> sha_state \<Rightarrow> sha_state" where
  "blk_rounds data st =
     fold T_60_79 [60..<80] (fold T_40_59 [40..<60] (fold T_20_39 [20..<40]
       (fold T_16_19 [16..<20] (fold (T_0_15 data) [0..<16] st))))"

text \<open>\<open>array0\<close> is what the stack holds in the array when the function is entered.\<close>

definition blk_SHA1_Block :: "u32 list \<Rightarrow> byte list \<Rightarrow> u32 list \<Rightarrow> u32 list" where
  "blk_SHA1_Block array0 data H = map2 (+) H (fst (blk_rounds data (H, array0)))"

definition blk_SHA1_Init :: "byte list \<Rightarrow> blk_SHA_CTX" where
  "blk_SHA1_Init mem = \<lparr>ctx_size = 0, ctx_H = [0x67452301, 0xefcdab89, 0x98badcfe, 0x10325476, 0xc3d2e1f0], ctx_W = mem\<rparr>"

definition overwrite :: "byte list \<Rightarrow> nat \<Rightarrow> byte list \<Rightarrow> byte list" where
  "overwrite mem pos bytes = take pos mem @ bytes @ drop (pos + length bytes) mem"

function blk_full_blocks :: "u32 list \<Rightarrow> byte list \<Rightarrow> u32 list \<Rightarrow> u32 list \<times> byte list" where
  "blk_full_blocks array0 data H =
     (if 64 \<le> length data then blk_full_blocks array0 (drop 64 data) (blk_SHA1_Block array0 (take 64 data) H)
      else (H, data))"
  by pat_completeness auto
termination by (relation "measure (\<lambda>(_, data, _). length data)") auto

declare blk_full_blocks.simps [simp del]

definition blk_SHA1_Update :: "u32 list \<Rightarrow> blk_SHA_CTX \<Rightarrow> byte list \<Rightarrow> blk_SHA_CTX" where
  "blk_SHA1_Update array0 ctx data =
     (let lenW = unat (ctx_size ctx AND 63);
          ctx = ctx\<lparr>ctx_size := ctx_size ctx + of_nat (length data)\<rparr>;
          finish = (\<lambda>ctx data. let (H, rest) = blk_full_blocks array0 data (ctx_H ctx) in
             ctx\<lparr>ctx_H := H, ctx_W := (if rest \<noteq> [] then overwrite (ctx_W ctx) 0 rest else ctx_W ctx)\<rparr>)
      in
      if lenW \<noteq> 0 then
        let left = min (64 - lenW) (length data);
            ctx = ctx\<lparr>ctx_W := overwrite (ctx_W ctx) lenW (take left data)\<rparr>;
            lenW = (lenW + left) mod 64; data = drop left data in
        if lenW \<noteq> 0 then ctx
        else finish (ctx\<lparr>ctx_H := blk_SHA1_Block array0 (ctx_W ctx) (ctx_H ctx)\<rparr>) data
      else finish ctx data)"

definition blk_SHA1_Final :: "u32 list \<Rightarrow> blk_SHA_CTX \<Rightarrow> byte list" where
  "blk_SHA1_Final array0 ctx =
     (let padlen = put_be32 (ucast (drop_bit 29 (ctx_size ctx))) @ put_be32 (ucast (push_bit 3 (ctx_size ctx)));
          i = int (unat (ctx_size ctx AND 63));
          ctx = blk_SHA1_Update array0 ctx (take (nat (1 + (63 AND (55 - i)))) (0x80 # replicate 63 0));
          ctx = blk_SHA1_Update array0 ctx padlen in
      concat (map put_be32 (ctx_H ctx)))"

subsection \<open>The standard\<close>

definition Ch :: "u32 \<Rightarrow> u32 \<Rightarrow> u32 \<Rightarrow> u32" where "Ch x y z = ((x AND y) XOR (NOT x AND z))"
definition Parity :: "u32 \<Rightarrow> u32 \<Rightarrow> u32 \<Rightarrow> u32" where "Parity x y z = (x XOR y XOR z)"
definition Maj :: "u32 \<Rightarrow> u32 \<Rightarrow> u32 \<Rightarrow> u32" where "Maj x y z = ((x AND y) XOR (x AND z) XOR (y AND z))"

definition sha_f :: "nat \<Rightarrow> u32 \<Rightarrow> u32 \<Rightarrow> u32 \<Rightarrow> u32" where
  "sha_f t = (if t < 20 then Ch else if t < 40 then Parity else if t < 60 then Maj else Parity)"

definition sha_K :: "nat \<Rightarrow> u32" where
  "sha_K t = (if t < 20 then 0x5a827999 else if t < 40 then 0x6ed9eba1 else if t < 60 then 0x8f1bbcdc else 0xca62c1d6)"

function schedule :: "byte list \<Rightarrow> nat \<Rightarrow> u32" where
  "schedule data t =
     (if t < 16 then get_be32 data (4 * t)
      else word_rotl 1 (schedule data (t - 3) XOR schedule data (t - 8) XOR schedule data (t - 14) XOR schedule data (t - 16)))"
  by pat_completeness auto
termination by (relation "measure snd") auto

declare schedule.simps [simp del]

definition sha_step :: "byte list \<Rightarrow> nat \<Rightarrow> u32 \<times> u32 \<times> u32 \<times> u32 \<times> u32 \<Rightarrow> u32 \<times> u32 \<times> u32 \<times> u32 \<times> u32" where
  "sha_step data t = (\<lambda>(a, b, c, d, e).
     (word_rotl 5 a + sha_f t b c d + e + sha_K t + schedule data t, a, word_rotl 30 b, c, d))"

definition sha_compress :: "byte list \<Rightarrow> u32 list \<Rightarrow> u32 list" where
  "sha_compress data H =
     (case fold (sha_step data) [0..<80] (H ! 0, H ! 1, H ! 2, H ! 3, H ! 4) of
        (a, b, c, d, e) \<Rightarrow> [H ! 0 + a, H ! 1 + b, H ! 2 + c, H ! 3 + d, H ! 4 + e])"

function sha_blocks :: "byte list \<Rightarrow> u32 list \<Rightarrow> u32 list" where
  "sha_blocks m H = (if 64 \<le> length m then sha_blocks (drop 64 m) (sha_compress (take 64 m) H) else H)"
  by pat_completeness auto
termination by (relation "measure (\<lambda>(m, _). length m)") auto

declare sha_blocks.simps [simp del]

definition sha_padding :: "nat \<Rightarrow> byte list" where
  "sha_padding n = 0x80 # replicate (nat ((55 - int n) mod 64)) 0
     @ map (\<lambda>i. of_nat (8 * n div 256 ^ (7 - i))) [0..<8]"

definition sha1_spec :: "byte list \<Rightarrow> byte list" where
  "sha1_spec m = concat (map put_be32 (sha_blocks (m @ sha_padding (length m))
     [0x67452301, 0xefcdab89, 0x98badcfe, 0x10325476, 0xc3d2e1f0]))"

subsection \<open>Rotations and functions\<close>

lemma ROL_rotl: "0 < n \<Longrightarrow> n < 32 \<Longrightarrow> SHA_ROL x n = word_rotl n x"
proof (rule bit_word_eqI)
  fix i
  assume n: "0 < n" "n < 32" and i: "i < LENGTH(32)"
  have L: "bit (SHA_ROL x n) i \<longleftrightarrow> n \<le> i \<and> bit x (i - n) \<or> bit x (32 - n + i)"
    using i by (auto simp: SHA_ROL_def SHA_ROT_def bit_push_bit_iff bit_drop_bit_eq bit_or_iff)
  have R: "bit (word_rotl n x) i \<longleftrightarrow> bit x ((i + (32 - n)) mod 32)"
    using n i by (simp add: bit_word_rotl_iff)
  show "bit (SHA_ROL x n) i \<longleftrightarrow> bit (word_rotl n x) i"
  proof (cases "n \<le> i")
    case True
    then have "(i + (32 - n)) mod 32 = i - n" using n i by (simp add: mod_if)
    moreover have "\<not> bit x (32 - n + i)" using True n bit_imp_le_length [of x "32 - n + i"] by auto
    ultimately show ?thesis unfolding L R using True by simp
  next
    case False
    then have "(i + (32 - n)) mod 32 = 32 - n + i" using n i by simp
    then show ?thesis unfolding L R using False by simp
  qed
qed

lemma ROR_2: "SHA_ROR x 2 = word_rotl 30 x"
  using ROL_rotl [of 30 x] by (simp add: SHA_ROL_def SHA_ROR_def)

lemma choose_eq: "((C XOR D) AND B) XOR D = Ch B C D"
  by (rule bit_word_eqI) (auto simp: Ch_def bit_simps)

lemma maj_eq: "(B AND C) + (D AND (B XOR C)) = Maj B C D"
proof -
  have "(B AND C) AND (D AND (B XOR C)) = 0" by (rule bit_word_eqI) (auto simp: bit_simps)
  then have "(B AND C) + (D AND (B XOR C)) = (B AND C) OR (D AND (B XOR C))" by (rule disjunctive_add_eq_or)
  also have "\<dots> = Maj B C D" by (rule bit_word_eqI) (auto simp: Maj_def bit_simps)
  finally show ?thesis .
qed

lemma parity_eq: "B XOR C XOR D = Parity B C D"
  by (simp add: Parity_def)

subsection \<open>The rounds are the standard's\<close>

text \<open>
  Before round \<open>t\<close> the roles of the registers are the working variables of the standard, and
  the array holds the last sixteen words of the schedule.
\<close>

definition round_inv :: "byte list \<Rightarrow> nat \<Rightarrow> sha_state \<Rightarrow> u32 \<times> u32 \<times> u32 \<times> u32 \<times> u32 \<Rightarrow> bool" where
  "round_inv data t = (\<lambda>(v, array) (a, b, c, d, e).
     length v = 5 \<and> length array = 16
     \<and> v ! role t 0 = a \<and> v ! role t 1 = b \<and> v ! role t 2 = c \<and> v ! role t 3 = d \<and> v ! role t 4 = e
     \<and> (\<forall>s < t. t \<le> s + 16 \<longrightarrow> array ! (s mod 16) = schedule data s))"

lemma role_lt: "role t k < 5" by (simp add: role_def)

lemma role_Suc: "role (Suc t) (Suc k) = role t k" "role (Suc t) 0 = role t 4"
proof -
  have "Suc k + 4 * Suc t = k + 4 * t + 5" "0 + 4 * Suc t = 4 + 4 * t" by simp_all
  then show "role (Suc t) (Suc k) = role t k" "role (Suc t) 0 = role t 4" unfolding role_def by (simp_all only: mod_add_self2)
qed

lemma role_inj:
  assumes "j < 5" "k < 5"
  shows "role t j = role t k \<longleftrightarrow> j = k"
proof -
  have "t mod 5 < 5" by simp
  then have "t mod 5 \<in> {0, 1, 2, 3, 4}" by auto
  moreover have "role t j = (j + 4 * (t mod 5)) mod 5" "role t k = (k + 4 * (t mod 5)) mod 5"
    unfolding role_def by (metis mod_add_right_eq mod_mult_right_eq)+
  moreover have "j \<in> {0, 1, 2, 3, 4}" "k \<in> {0, 1, 2, 3, 4}" using assms by auto
  ultimately show ?thesis by auto
qed

text \<open>One round, for the input and the function of its part.\<close>

lemma round_step:
  assumes inv: "round_inv data t (v, array) (a, b, c, d, e)" and input: "input array = schedule data t"
    and fn: "fn = sha_f t" and k: "constant = sha_K t"
  shows "round_inv data (Suc t) (SHA_ROUND t input fn constant (v, array)) (sha_step data t (a, b, c, d, e))"
proof -
  have len: "length v = 5" "length array = 16"
    and v: "v ! role t 0 = a" "v ! role t 1 = b" "v ! role t 2 = c" "v ! role t 3 = d" "v ! role t 4 = e"
    and w: "\<forall>s < t. t \<le> s + 16 \<longrightarrow> array ! (s mod 16) = schedule data s" using inv by (auto simp: round_inv_def)
  let ?e = "e + (schedule data t + SHA_ROL a 5 + fn b c d + constant)"
  let ?v = "v[role t 4 := ?e, role t 1 := SHA_ROR b 2]" and ?array = "array[t mod 16 := schedule data t]"
  have ne: "role t 4 \<noteq> role t k" if "k < 4" for k using role_inj [of 4 k t] that by simp
  have ne1: "role t 1 \<noteq> role t k" if "k < 5" "k \<noteq> 1" for k using role_inj [of 1 k t] that by simp
  have r: "SHA_ROUND t input fn constant (v, array) = (?v, ?array)"
    using ne [of 1] v input by (simp add: SHA_ROUND_def Let_def)
  have "?v ! role t 4 = ?e" "?v ! role t 0 = a" "?v ! role t 1 = SHA_ROR b 2" "?v ! role t 2 = c" "?v ! role t 3 = d"
    using ne [of 0] ne [of 2] ne [of 3] ne1 [of 0] ne1 [of 2] ne1 [of 3] ne1 [of 4] len v role_lt
    by (simp_all add: nth_list_update_neq)
  moreover have "role (Suc t) 1 = role t 0" "role (Suc t) 2 = role t 1" "role (Suc t) 3 = role t 2" "role (Suc t) 4 = role t 3"
    using role_Suc(1) [of t 0] role_Suc(1) [of t 1] role_Suc(1) [of t 2] role_Suc(1) [of t 3] by (simp_all add: eval_nat_numeral)
  ultimately have roles: "?v ! role (Suc t) 0 = ?e" "?v ! role (Suc t) 1 = a" "?v ! role (Suc t) 2 = SHA_ROR b 2"
    "?v ! role (Suc t) 3 = c" "?v ! role (Suc t) 4 = d" unfolding role_Suc(2) by simp_all
  have len': "length ?v = 5" "length ?array = 16" using len by simp_all
  have sched: "?array ! (s mod 16) = schedule data s" if "s < Suc t" "Suc t \<le> s + 16" for s
  proof (cases "s = t")
    case True
    then show ?thesis using len by simp
  next
    case False
    have "s mod 16 \<noteq> t mod 16"
    proof
      assume e: "s mod 16 = t mod 16"
      have lt: "s < t" "t - s < 16" using that False by simp_all
      then have "16 dvd t - s" using e mod_eq_dvd_iff_nat [of s t 16] by simp
      then show False using lt by (simp add: nat_dvd_not_less)
    qed
    then show ?thesis using w that False by (simp add: nth_list_update_neq)
  qed
  have "sha_step data t (a, b, c, d, e) = (?e, a, SHA_ROR b 2, c, d)"
    by (simp add: sha_step_def ROL_rotl ROR_2 fn k add_ac)
  then show ?thesis unfolding r round_inv_def using roles len' sched by (simp only: prod.case, blast)
qed

lemma source_word: "t < 16 \<Longrightarrow> SHA_SRC data t array = schedule data t"
  by (simp add: SHA_SRC_def schedule.simps [of data t])

lemma mixed_word:
  assumes "round_inv data t (v, array) s" "16 \<le> t"
  shows "SHA_MIX t array = schedule data t"
proof -
  have w: "array ! (u mod 16) = schedule data u" if "u < t" "t \<le> u + 16" for u
    using assms(1) that by (cases s) (simp add: round_inv_def)
  obtain u where t: "t = u + 16" using assms(2) by (metis add.commute le_iff_add)
  have m: "(t + 13) mod 16 = (t - 3) mod 16" "(t + 8) mod 16 = (t - 8) mod 16" "(t + 2) mod 16 = (t - 14) mod 16"
    "t mod 16 = (t - 16) mod 16"
    using mod_add_self2 [of "u + 13" 16] mod_add_self2 [of "u + 8" 16] mod_add_self2 [of "u + 2" 16] mod_add_self2 [of u 16]
    by (simp_all add: t add_ac)
  have "schedule data t = word_rotl 1 (schedule data (t - 3) XOR schedule data (t - 8) XOR schedule data (t - 14) XOR schedule data (t - 16))"
    using assms(2) by (simp add: schedule.simps [of data t])
  then show ?thesis using w [of "t - 3"] w [of "t - 8"] w [of "t - 14"] w [of "t - 16"] assms(2)
    unfolding SHA_MIX_def m by (simp add: ROL_rotl)
qed

text \<open>A run of rounds of one part.\<close>

lemma rounds_run:
  assumes step: "\<And>t v array s. lo \<le> t \<Longrightarrow> t < hi \<Longrightarrow> round_inv data t (v, array) s \<Longrightarrow> round_inv data (Suc t) (f t (v, array)) (sha_step data t s)"
    and inv: "round_inv data lo st s" and le: "lo \<le> hi"
  shows "round_inv data hi (fold f [lo..<hi] st) (fold (sha_step data) [lo..<hi] s)"
  using le step
proof (induction hi rule: nat_induct_at_least)
  case base
  then show ?case using inv by simp
next
  case (Suc hi)
  have "round_inv data hi (fold f [lo..<hi] st) (fold (sha_step data) [lo..<hi] s)" using Suc.prems by (intro Suc.IH) simp
  then have "round_inv data (Suc hi) (f hi (fold f [lo..<hi] st)) (sha_step data hi (fold (sha_step data) [lo..<hi] s))"
    using Suc.prems [of hi "fst (fold f [lo..<hi] st)" "snd (fold f [lo..<hi] st)"] Suc.hyps by simp
  then show ?case using Suc.hyps by simp
qed

lemma round_with:
  assumes "round_inv data t (v, array) s" "input array = schedule data t" "fn = sha_f t" "constant = sha_K t"
  shows "round_inv data (Suc t) (SHA_ROUND t input fn constant (v, array)) (sha_step data t s)"
  using round_step [of data t v array _ _ _ _ _ input fn "constant"] assms by (cases s) blast

lemma blk_rounds_ok:
  assumes "length H = 5" "length array0 = 16"
  shows "\<exists>v array. blk_rounds data (H, array0) = (v, array) \<and> length v = 5
    \<and> fold (sha_step data) [0..<80] (H ! 0, H ! 1, H ! 2, H ! 3, H ! 4) = (v ! 0, v ! 1, v ! 2, v ! 3, v ! 4)"
proof -
  let ?s0 = "(H ! 0, H ! 1, H ! 2, H ! 3, H ! 4)"
  have f: "(\<lambda>B C D. ((C XOR D) AND B) XOR D) = Ch" "(\<lambda>B C D. B XOR C XOR D) = Parity" "(\<lambda>B C D. (B AND C) + (D AND (B XOR C))) = Maj"
    by (intro ext, simp only: choose_eq parity_eq maj_eq)+
  have i0: "round_inv data 0 (H, array0) ?s0" using assms by (simp add: round_inv_def role_def)
  have i1: "round_inv data 16 (fold (T_0_15 data) [0..<16] (H, array0)) (fold (sha_step data) [0..<16] ?s0)"
    by (rule rounds_run [OF _ i0]) (auto simp: T_0_15_def f sha_f_def sha_K_def source_word intro!: round_with)
  have i2: "round_inv data 20 (fold T_16_19 [16..<20] (fold (T_0_15 data) [0..<16] (H, array0)))
      (fold (sha_step data) [16..<20] (fold (sha_step data) [0..<16] ?s0))"
    by (rule rounds_run [OF _ i1]) (auto simp: T_16_19_def f sha_f_def sha_K_def mixed_word intro!: round_with)
  have i3: "round_inv data 40 (fold T_20_39 [20..<40] (fold T_16_19 [16..<20] (fold (T_0_15 data) [0..<16] (H, array0))))
      (fold (sha_step data) [20..<40] (fold (sha_step data) [16..<20] (fold (sha_step data) [0..<16] ?s0)))"
    by (rule rounds_run [OF _ i2]) (auto simp: T_20_39_def f sha_f_def sha_K_def mixed_word intro!: round_with)
  have i4: "round_inv data 60 (fold T_40_59 [40..<60] (fold T_20_39 [20..<40] (fold T_16_19 [16..<20] (fold (T_0_15 data) [0..<16] (H, array0)))))
      (fold (sha_step data) [40..<60] (fold (sha_step data) [20..<40] (fold (sha_step data) [16..<20] (fold (sha_step data) [0..<16] ?s0))))"
    by (rule rounds_run [OF _ i3]) (auto simp: T_40_59_def f sha_f_def sha_K_def mixed_word intro!: round_with)
  have i5: "round_inv data 80 (blk_rounds data (H, array0))
      (fold (sha_step data) [60..<80] (fold (sha_step data) [40..<60] (fold (sha_step data) [20..<40] (fold (sha_step data) [16..<20] (fold (sha_step data) [0..<16] ?s0)))))"
    unfolding blk_rounds_def
    by (rule rounds_run [OF _ i4]) (auto simp: T_60_79_def f sha_f_def sha_K_def mixed_word intro!: round_with)
  have "[0..<80] = [0..<16] @ [16..<20] @ [20..<40] @ [40..<60] @ [60..<80]"
    using upt_add_eq_append [of 0 16 64] upt_add_eq_append [of 16 20 60] upt_add_eq_append [of 20 40 40] upt_add_eq_append [of 40 60 20]
    by (simp add: upt_rec)
  then have "fold (sha_step data) [0..<80] ?s0 = fold (sha_step data) [60..<80] (fold (sha_step data) [40..<60] (fold (sha_step data) [20..<40]
      (fold (sha_step data) [16..<20] (fold (sha_step data) [0..<16] ?s0))))" by simp
  with i5 show ?thesis
    by (cases "blk_rounds data (H, array0)"; cases "fold (sha_step data) [0..<80] ?s0") (auto simp: round_inv_def role_def)
qed

text \<open>The block function computes the compression of the standard, whatever is on its stack.\<close>

lemma blk_SHA1_Block_ok:
  assumes "length H = 5" "length array0 = 16"
  shows "blk_SHA1_Block array0 data H = sha_compress data H"
proof -
  obtain v array where r: "blk_rounds data (H, array0) = (v, array)" "length v = 5"
    "fold (sha_step data) [0..<80] (H ! 0, H ! 1, H ! 2, H ! 3, H ! 4) = (v ! 0, v ! 1, v ! 2, v ! 3, v ! 4)"
    using blk_rounds_ok [OF assms] by blast
  have five: "xs = [xs ! 0, xs ! 1, xs ! 2, xs ! 3, xs ! 4]" if "length xs = 5" for xs :: "u32 list"
    using that by (auto simp: list_eq_iff_nth_eq less_Suc_eq eval_nat_numeral)
  have "blk_SHA1_Block array0 data H = map2 (+) [H ! 0, H ! 1, H ! 2, H ! 3, H ! 4] [v ! 0, v ! 1, v ! 2, v ! 3, v ! 4]"
    unfolding blk_SHA1_Block_def r(1) fst_conv using five [OF assms(1)] five [OF r(2)] by metis
  then show ?thesis unfolding sha_compress_def r(3) by simp
qed

subsection \<open>Buffering\<close>

lemma length_sha_compress: "length (sha_compress data H) = 5"
  by (simp add: sha_compress_def split: prod.splits)

lemma length_sha_blocks: "length H = 5 \<Longrightarrow> length (sha_blocks m H) = 5"
proof (induction m H rule: sha_blocks.induct)
  case (1 m H)
  then show ?case by (cases "64 \<le> length m") (simp_all add: sha_blocks.simps [of m H] length_sha_compress)
qed

lemma sha_blocks_short: "length m < 64 \<Longrightarrow> sha_blocks m H = H"
  by (simp add: sha_blocks.simps [of m H])

text \<open>The compressions of a message depend on its full blocks only, and are computed piece by piece.\<close>

lemma sha_blocks_append:
  "length m mod 64 = 0 \<Longrightarrow> sha_blocks (m @ m') H = sha_blocks m' (sha_blocks m H)"
proof (induction m H rule: sha_blocks.induct)
  case (1 m H)
  show ?case
  proof (cases "64 \<le> length m")
    case True
    have "length (drop 64 m) mod 64 = 0" using "1.prems" by (metis length_drop mod_mult_self2 True le_mod_geq)
    from "1.IH" [OF True this] True show ?thesis by (simp add: sha_blocks.simps [of m H] sha_blocks.simps [of "m @ m'" H])
  next
    case False
    then have "m = []" using "1.prems" by (cases "m = []") auto
    then show ?thesis by (simp add: sha_blocks_short)
  qed
qed

lemma blk_full_blocks_ok:
  assumes "length array0 = 16"
  shows "length H = 5 \<Longrightarrow> blk_full_blocks array0 data H = (sha_blocks data H, drop (64 * (length data div 64)) data)"
proof (induction "length data" arbitrary: data H rule: less_induct)
  case less
  show ?case
  proof (cases "64 \<le> length data")
    case True
    have "blk_full_blocks array0 (drop 64 data) (sha_compress (take 64 data) H)
        = (sha_blocks (drop 64 data) (sha_compress (take 64 data) H), drop (64 * (length (drop 64 data) div 64)) (drop 64 data))"
      using True by (intro less.hyps length_sha_compress) simp
    moreover have "64 * (length (drop 64 data) div 64) + 64 = 64 * (length data div 64)"
      using True le_div_geq [of 64 "length data"] by simp
    ultimately show ?thesis using True
      by (simp add: blk_full_blocks.simps [of array0 data H] sha_blocks.simps [of data H] blk_SHA1_Block_ok [OF less.prems assms] add.commute)
  next
    case False
    then show ?thesis by (simp add: blk_full_blocks.simps [of array0 data H] sha_blocks_short)
  qed
qed

text \<open>What a context stands for: the message so far, its full blocks compressed and the rest in the buffer.\<close>

definition tail_len :: "byte list \<Rightarrow> nat" where "tail_len m = 64 * (length m div 64)"

definition ctx_ok :: "byte list \<Rightarrow> blk_SHA_CTX \<Rightarrow> bool" where
  "ctx_ok m ctx = (ctx_size ctx = of_nat (length m) \<and> length (ctx_W ctx) = 64
     \<and> ctx_H ctx = sha_blocks (take (tail_len m) m) [0x67452301, 0xefcdab89, 0x98badcfe, 0x10325476, 0xc3d2e1f0]
     \<and> take (length m mod 64) (ctx_W ctx) = drop (tail_len m) m)"

lemma blk_SHA1_Init_ok: "length mem = 64 \<Longrightarrow> ctx_ok [] (blk_SHA1_Init mem)"
  by (simp add: ctx_ok_def blk_SHA1_Init_def tail_len_def sha_blocks_short)

lemma size_low_bits: "unat ((of_nat n :: u64) AND 63) = n mod 64"
proof -
  have "(63 :: u64) = mask 6" by (simp add: mask_eq_exp_minus_1)
  then have "unat ((of_nat n :: u64) AND 63) = unat (of_nat n :: u64) mod 64" using unat_and_mask [of "of_nat n :: u64" 6] by simp
  also have "unat (of_nat n :: u64) mod 64 = n mod 64"
    by (simp add: unat_of_nat take_bit_eq_mod mod_mod_cancel)
  finally show ?thesis .
qed

lemma length_overwrite: "pos + length bytes \<le> length mem \<Longrightarrow> length (overwrite mem pos bytes) = length mem"
  by (simp add: overwrite_def)

text \<open>Once the buffer holds no part of a block, full blocks are compressed in place and the rest is kept.\<close>

definition finish_update :: "u32 list \<Rightarrow> blk_SHA_CTX \<Rightarrow> byte list \<Rightarrow> blk_SHA_CTX" where
  "finish_update array0 ctx data = (let (H, rest) = blk_full_blocks array0 data (ctx_H ctx) in
     ctx\<lparr>ctx_H := H, ctx_W := (if rest \<noteq> [] then overwrite (ctx_W ctx) 0 rest else ctx_W ctx)\<rparr>)"

abbreviation H0 :: "u32 list" where "H0 \<equiv> [0x67452301, 0xefcdab89, 0x98badcfe, 0x10325476, 0xc3d2e1f0]"

lemma finish_update_ok:
  assumes a: "length array0 = 16" and m: "length m mod 64 = 0" and H: "ctx_H ctx = sha_blocks m H0" and W: "length (ctx_W ctx) = 64"
    and n: "ctx_size ctx = of_nat (length (m @ data))"
  shows "ctx_ok (m @ data) (finish_update array0 ctx data)"
proof -
  let ?k = "64 * (length data div 64)"
  have len: "length (ctx_H ctx) = 5" unfolding H by (rule length_sha_blocks) simp
  have full: "tail_len (m @ data) = length m + ?k"
  proof -
    have "length m = 64 * (length m div 64)" using m by (metis mult_div_mod_eq add.right_neutral)
    then have "(length m + length data) div 64 = length m div 64 + length data div 64" by (metis div_mult_self4 zero_neq_numeral)
    then show ?thesis using \<open>length m = 64 * (length m div 64)\<close> by (simp add: tail_len_def algebra_simps)
  qed
  have rest: "length (drop ?k data) = length data mod 64" by (simp add: minus_mult_div_eq_mod)
  have tm: "length (m @ data) mod 64 = length data mod 64" using m by (metis length_append mod_add_left_eq add_0)
  have r: "finish_update array0 ctx data = ctx\<lparr>ctx_H := sha_blocks data (ctx_H ctx),
      ctx_W := (if drop ?k data \<noteq> [] then overwrite (ctx_W ctx) 0 (drop ?k data) else ctx_W ctx)\<rparr>"
    using blk_full_blocks_ok [OF a len, of data] by (simp add: finish_update_def Let_def)
  have "sha_blocks data (ctx_H ctx) = sha_blocks (take ?k data) (ctx_H ctx)"
  proof -
    have "length (take ?k data) mod 64 = 0" using mult_div_mod_eq [of 64 "length data"] by simp
    from sha_blocks_append [OF this, of "drop ?k data" "ctx_H ctx"] show ?thesis
      using rest sha_blocks_short [of "drop ?k data"] by simp
  qed
  also have "\<dots> = sha_blocks (take (length m + ?k) (m @ data)) H0" unfolding H using sha_blocks_append [OF m, of "take ?k data" H0] by simp
  finally have h: "sha_blocks data (ctx_H ctx) = sha_blocks (take (tail_len (m @ data)) (m @ data)) H0" unfolding full .
  have w: "take (length data mod 64) (if drop ?k data \<noteq> [] then overwrite (ctx_W ctx) 0 (drop ?k data) else ctx_W ctx) = drop ?k data"
    using rest by (auto simp: overwrite_def)
  have "length (drop ?k data) \<le> 64" unfolding rest using mod_less_divisor [of 64 "length data"] by linarith
  then have lw: "length (if drop ?k data \<noteq> [] then overwrite (ctx_W ctx) 0 (drop ?k data) else ctx_W ctx) = 64"
    using W by (simp add: length_overwrite)
  show ?thesis unfolding ctx_ok_def r using h w lw n tm full by simp
qed

lemma blk_SHA1_Update_ok:
  assumes a: "length array0 = 16" and ok: "ctx_ok m ctx"
  shows "ctx_ok (m @ data) (blk_SHA1_Update array0 ctx data)"
proof -
  let ?l = "length m mod 64" and ?ctx = "ctx\<lparr>ctx_size := ctx_size ctx + of_nat (length data)\<rparr>"
  have n: "ctx_size ctx = of_nat (length m)" and W: "length (ctx_W ctx) = 64" and H: "ctx_H ctx = sha_blocks (take (tail_len m) m) H0"
    and T: "take ?l (ctx_W ctx) = drop (tail_len m) m" using ok by (auto simp: ctx_ok_def)
  have lw: "unat (ctx_size ctx AND 63) = ?l" unfolding n by (rule size_low_bits)
  have tl: "length m - tail_len m = ?l" "tail_len m \<le> length m" by (simp_all add: tail_len_def minus_mult_div_eq_mod)
  have l64: "?l < 64" by simp
  have upd: "blk_SHA1_Update array0 ctx data = (if ?l \<noteq> 0 then
        let left = min (64 - ?l) (length data); ctx = ?ctx\<lparr>ctx_W := overwrite (ctx_W ?ctx) ?l (take left data)\<rparr>;
            lenW = (?l + left) mod 64; data = drop left data in
        if lenW \<noteq> 0 then ctx else finish_update array0 (ctx\<lparr>ctx_H := blk_SHA1_Block array0 (ctx_W ctx) (ctx_H ctx)\<rparr>) data
      else finish_update array0 ?ctx data)"
    unfolding blk_SHA1_Update_def Let_def lw finish_update_def ..
  have n': "ctx_size ?ctx = of_nat (length (m @ data))" by (simp add: n)
  show ?thesis
  proof (cases "?l = 0")
    case True
    then have "take (tail_len m) m = m" using tl by simp
    then show ?thesis unfolding upd using True finish_update_ok [OF a True, of ?ctx data] H W n' by simp
  next
    case False
    let ?left = "min (64 - ?l) (length data)" let ?W = "overwrite (ctx_W ctx) ?l (take ?left data)"
    have fits: "?l + length (take ?left data) \<le> length (ctx_W ctx)" using W l64 by simp
    have W': "length ?W = 64" using length_overwrite [OF fits] W by simp
    have cont: "take (?l + ?left) ?W = drop (tail_len m) m @ take ?left data"
    proof -
      have "length (take ?l (ctx_W ctx)) = ?l" using W l64 by simp
      then show ?thesis unfolding overwrite_def T [symmetric] by simp
    qed
    show ?thesis
    proof (cases "?l + length data < 64")
      case True
      then have left: "?left = length data" by simp
      have lm: "length (m @ data) mod 64 = ?l + length data"
        using True by (metis length_append mod_add_left_eq mod_less)
      have tail: "tail_len (m @ data) = tail_len m"
        using lm minus_mod_eq_mult_div [of "length (m @ data)" 64] minus_mod_eq_mult_div [of "length m" 64] by (simp add: tail_len_def)
      have r: "blk_SHA1_Update array0 ctx data = ?ctx\<lparr>ctx_W := ?W\<rparr>"
        unfolding upd using False True left by (simp add: Let_def)
      have td: "take (tail_len m) (m @ data) = take (tail_len m) m" "drop (tail_len m) (m @ data) = drop (tail_len m) m @ data"
        using tl(2) by simp_all
      show ?thesis unfolding ctx_ok_def r tail lm td using n' H W' cont left by simp
    next
      case full: False
      then have left: "?left = 64 - ?l" by simp
      let ?m = "m @ take ?left data"
      have lm: "length ?m = tail_len m + 64" using tl l64 full by (simp add: left)
      then have m0: "length ?m mod 64 = 0" by (simp add: tail_len_def)
      have blk: "?W = drop (tail_len m) m @ take ?left data" using cont W' l64 by (simp add: left)
      have Hm: "blk_SHA1_Block array0 ?W (ctx_H ctx) = sha_blocks ?m H0"
      proof -
        have five: "length (ctx_H ctx) = 5" unfolding H by (rule length_sha_blocks) simp
        have "length (take (tail_len m) m) mod 64 = 0" using tl(2) by (simp add: tail_len_def)
        from sha_blocks_append [OF this, of ?W H0] have "sha_blocks (take (tail_len m) m @ ?W) H0 = sha_blocks ?W (ctx_H ctx)" unfolding H .
        moreover have "take (tail_len m) m @ ?W = ?m" unfolding blk by simp
        moreover have "sha_blocks ?W (ctx_H ctx) = sha_compress ?W (ctx_H ctx)"
          using W' by (simp add: sha_blocks.simps [of ?W] sha_blocks_short)
        ultimately show ?thesis using blk_SHA1_Block_ok [OF five a] by simp
      qed
      have "blk_SHA1_Update array0 ctx data = finish_update array0 (?ctx\<lparr>ctx_W := ?W, ctx_H := blk_SHA1_Block array0 ?W (ctx_H ctx)\<rparr>) (drop ?left data)"
        unfolding upd using False l64 left by (simp add: Let_def)
      also have "ctx_ok (?m @ drop ?left data) \<dots>"
        by (rule finish_update_ok [OF a m0]) (use Hm W' n' in \<open>simp_all\<close>)
      finally show ?thesis by simp
    qed
  qed
qed

subsection \<open>Padding\<close>

lemma byte_of_u64: "(ucast (drop_bit k (v :: u64)) :: byte) = of_nat (unat v div 2 ^ k)"
proof -
  have "(of_nat (unat (drop_bit k v)) :: byte) = ucast (drop_bit k v)" by simp
  then show ?thesis unfolding unat_drop_bit by simp
qed

lemma put_be32_high: "k \<le> 32 \<Longrightarrow> k = 0 \<or> k = 32 \<Longrightarrow> put_be32 (ucast (drop_bit k (v :: u64)))
    = [ucast (drop_bit (k + 24) v), ucast (drop_bit (k + 16) v), ucast (drop_bit (k + 8) v), ucast (drop_bit k v)]"
proof -
  assume k: "k = 0 \<or> k = 32"
  have "(ucast (drop_bit j (ucast (drop_bit k v) :: u32)) :: byte) = ucast (drop_bit (k + j) v)" if "j \<le> 24" for j
    using that k by (intro bit_word_eqI) (auto simp: bit_simps add.assoc)
  from this [of 24] this [of 16] this [of 8] this [of 0] show ?thesis by (simp add: put_be32_def)
qed

lemma u64_bytes:
  "put_be32 (ucast (drop_bit 32 v)) @ put_be32 (ucast (drop_bit 0 v)) = map (\<lambda>i. of_nat (unat (v :: u64) div 256 ^ (7 - i))) [0..<8]"
  using put_be32_high [of 32 v] put_be32_high [of 0 v] by (simp add: upt_rec byte_of_u64)

lemma length_bytes:
  assumes "n < 2 ^ 61"
  shows "put_be32 (ucast (drop_bit 29 (of_nat n :: u64))) @ put_be32 (ucast (push_bit 3 (of_nat n :: u64)))
    = map (\<lambda>i. of_nat (8 * n div 256 ^ (7 - i))) [0..<8]"
proof -
  let ?v = "of_nat (8 * n) :: u64"
  have un: "unat (of_nat n :: u64) = n" using assms by (intro unat_of_nat_small) simp
  have v: "unat ?v = 8 * n" using assms by (intro unat_of_nat_small) simp
  have sh: "push_bit 3 (of_nat n :: u64) = drop_bit 0 ?v" by (simp add: push_bit_eq_mult mult.commute)
  have "unat (drop_bit 29 (of_nat n :: u64)) = unat (drop_bit 32 ?v)"
    unfolding unat_drop_bit un v using div_mult2_eq [of "8 * n" 8 "2 ^ 29"] by simp
  then have hi: "drop_bit 29 (of_nat n :: u64) = drop_bit 32 ?v" by (rule unsigned_word_eqI)
  show ?thesis unfolding hi sh u64_bytes v ..
qed

lemma pad_bytes:
  "take (nat (1 + (63 AND (55 - int (n mod 64))))) (0x80 # replicate 63 (0 :: byte)) = 0x80 # replicate (nat ((55 - int n) mod 64)) 0"
proof -
  have "take_bit 6 x = x AND mask 6" for x :: int by (rule take_bit_eq_mask)
  then have "63 AND x = x mod 64" for x :: int by (simp add: take_bit_eq_mod mask_eq_exp_minus_1 and.commute)
  then have "63 AND (55 - int (n mod 64)) = (55 - int (n mod 64)) mod 64" .
  also have "\<dots> = (55 - int n) mod 64" by (simp add: zmod_int mod_diff_right_eq)
  finally have e: "63 AND (55 - int (n mod 64)) = (55 - int n) mod 64" .
  have b: "0 \<le> (55 - int n) mod 64" "(55 - int n) mod 64 < 64" by simp_all
  then have "nat (1 + (55 - int n) mod 64) = Suc (nat ((55 - int n) mod 64))" "nat ((55 - int n) mod 64) \<le> 63" by linarith+
  then show ?thesis unfolding e by (simp add: min_def)
qed

lemma padded_length: "length (m @ sha_padding (length m)) mod 64 = 0"
proof -
  let ?n = "int (length m)"
  have "0 \<le> (55 - ?n) mod 64" by simp
  then have "int (nat ((55 - ?n) mod 64)) = (55 - ?n) mod 64" by simp
  then have e1: "int (length (m @ sha_padding (length m))) = ?n + 9 + (55 - ?n) mod 64"
    unfolding sha_padding_def length_append length_Cons length_replicate length_map length_upt of_nat_add of_nat_Suc by simp
  have e2: "(?n + 9 + (55 - ?n) mod 64) mod 64 = (?n + 9 + (55 - ?n)) mod 64" by (rule mod_add_right_eq)
  have e3: "?n + 9 + (55 - ?n) = 64" by simp
  have "int (length (m @ sha_padding (length m))) mod 64 = 0" unfolding e1 e2 e3 by (rule mod_self)
  then have "int (length (m @ sha_padding (length m)) mod 64) = 0" unfolding of_nat_mod of_nat_numeral .
  then show ?thesis by (simp only: of_nat_0_eq_iff)
qed

lemma blk_SHA1_Final_ok:
  assumes a: "length array0 = 16" and ok: "ctx_ok m ctx" and n: "length m < 2 ^ 61"
  shows "blk_SHA1_Final array0 ctx = sha1_spec m"
proof -
  let ?pad = "0x80 # replicate (nat ((55 - int (length m)) mod 64)) 0"
  let ?len = "map (\<lambda>i. of_nat (8 * length m div 256 ^ (7 - i))) [0..<8]"
  have sz: "ctx_size ctx = of_nat (length m)" using ok by (simp add: ctx_ok_def)
  have low: "unat (ctx_size ctx AND 63) = length m mod 64" unfolding sz by (rule size_low_bits)
  have c1: "ctx_ok (m @ ?pad) (blk_SHA1_Update array0 ctx ?pad)" by (rule blk_SHA1_Update_ok [OF a ok])
  let ?ctx = "blk_SHA1_Update array0 (blk_SHA1_Update array0 ctx ?pad) ?len"
  have "ctx_ok ((m @ ?pad) @ ?len) ?ctx" by (rule blk_SHA1_Update_ok [OF a c1])
  moreover have full: "(m @ ?pad) @ ?len = m @ sha_padding (length m)" by (simp add: sha_padding_def)
  moreover have "tail_len (m @ sha_padding (length m)) = length (m @ sha_padding (length m))"
    using padded_length [of m] mult_div_mod_eq [of 64 "length (m @ sha_padding (length m))"] by (simp add: tail_len_def)
  ultimately have "ctx_H ?ctx = sha_blocks (m @ sha_padding (length m)) H0" by (simp add: ctx_ok_def)
  moreover have "blk_SHA1_Final array0 ctx = concat (map put_be32 (ctx_H ?ctx))"
    unfolding blk_SHA1_Final_def Let_def low pad_bytes unfolding sz length_bytes [OF n] ..
  ultimately show ?thesis by (simp add: sha1_spec_def)
qed

definition sha1_of_pieces :: "byte list \<Rightarrow> u32 list \<Rightarrow> byte list list \<Rightarrow> byte list" where
  "sha1_of_pieces mem array0 pieces =
     blk_SHA1_Final array0 (fold (\<lambda>p ctx. blk_SHA1_Update array0 ctx p) pieces (blk_SHA1_Init mem))"

lemma feed_pieces_ok:
  "length array0 = 16 \<Longrightarrow> ctx_ok m ctx \<Longrightarrow> ctx_ok (m @ concat pieces) (fold (\<lambda>p ctx. blk_SHA1_Update array0 ctx p) pieces ctx)"
proof (induction pieces arbitrary: m ctx)
  case (Cons p pieces)
  from Cons.IH [OF Cons.prems(1) blk_SHA1_Update_ok [OF Cons.prems]] show ?case by simp
qed simp

subsection \<open>Properties\<close>

text \<open>C5. Feeding a message in pieces of any sizes through \<open>blk_SHA1_Init\<close>, \<open>blk_SHA1_Update\<close> and
  \<open>blk_SHA1_Final\<close> gives the SHA-1 of FIPS 180 of the whole message, below the standard's limit of
  \<open>2^61\<close> bytes, whatever was in the memory of the context and on the stack.\<close>

theorem block_sha1_is_sha1:
  assumes "length mem = 64" "length array0 = 16" "length (concat pieces) < 2 ^ 61"
  shows "sha1_of_pieces mem array0 pieces = sha1_spec (concat pieces)"
  using blk_SHA1_Final_ok [OF assms(2) feed_pieces_ok [OF assms(2) blk_SHA1_Init_ok [OF assms(1)]], of pieces] assms(3)
  by (simp add: sha1_of_pieces_def)

theorem block_sha1_is_sha1_witness:
  "sha1_of_pieces (replicate 64 7) (replicate 16 3) [[0x61], [0x62, 0x63]] = sha1_spec (concat [[0x61], [0x62, 0x63]])"
  by (rule block_sha1_is_sha1) simp_all

text \<open>One call of \<open>blk_SHA1_Block\<close>, eighty rounds on registers that swap their roles over an
  array of sixteen words, is one compression of the standard.\<close>

theorem block_is_compression:
  assumes "length H = 5" "length array0 = 16"
  shows "blk_SHA1_Block array0 data H = sha_compress data H"
  by (rule blk_SHA1_Block_ok [OF assms])

theorem block_is_compression_witness:
  "blk_SHA1_Block (replicate 16 7) (replicate 64 1) H0 = sha_compress (replicate 64 1) H0"
  by (rule block_is_compression) simp_all

end
