(* ===== verification/Commit.thy ===== *)
theory Commit
  imports Hex Sha1_Lookup
begin

text \<open>
  Commit objects of \<^verbatim>\<open>commit.c\<close>: the objects in memory, the grafts, and the parser of
  the text of a commit.

  The objects are a map from names to records. \<open>lookup_object\<close> and \<open>create_object\<close> of
  \<^verbatim>\<open>object.c\<close> implement it (theory \<open>Hash_Tables\<close>: one object for a name), so that a
  \<open>struct commit *\<close> is a name in the domain of the map and \<open>pointer = pointer\<close> is equality of
  names. What the object database holds is a field of the environment.
\<close>

datatype object_type = OBJ_NONE | OBJ_COMMIT | OBJ_TREE | OBJ_BLOB | OBJ_TAG

type_synonym name = "byte list"

text \<open>\<open>struct commit\<close>, with the \<open>struct object\<close> it begins with; \<open>util\<close> and \<open>buffer\<close>
  are for the callers.\<close>

record commit =
  otype :: object_type
  parsed :: bool
  flags :: u32
  indegree :: u32
  date :: u64
  parents :: "name list"
  tree :: "name option"

type_synonym store = "name \<rightharpoonup> commit"

text \<open>\<open>struct commit_graft\<close>: a negative number of parents is the mark of a shallow clone.\<close>

record commit_graft =
  graft_sha1 :: name
  nr_parent :: int
  graft_parent :: "name list"

text \<open>
  What the commits are read from: the object database behind \<open>read_sha1_file\<close>, the grafts that
  \<open>prepare_commit_graft\<close> has read, and the setting \<open>grafts_replace_parents\<close>.
\<close>

record commit_env =
  read_sha1_file :: "name \<Rightarrow> (object_type \<times> string) option"
  commit_graft :: "commit_graft list"
  grafts_replace_parents :: bool

subsection \<open>Objects in memory\<close>

definition new_object :: "object_type \<Rightarrow> commit" where
  "new_object type = \<lparr>otype = type, parsed = False, flags = 0, indegree = 0, date = 0, parents = [], tree = None\<rparr>"

text \<open>Following a pointer, and storing through it.\<close>

definition commit_at :: "store \<Rightarrow> name \<Rightarrow> commit" where
  "commit_at st c = the (st c)"

definition update_at :: "name \<Rightarrow> (commit \<Rightarrow> commit) \<Rightarrow> store \<Rightarrow> store" where
  "update_at c f st = st(c \<mapsto> f (commit_at st c))"

definition lookup_typed :: "object_type \<Rightarrow> name \<Rightarrow> store \<Rightarrow> store \<times> bool" where
  "lookup_typed type c st =
     (case st c of None \<Rightarrow> (st(c \<mapsto> new_object type), True)
      | Some obj \<Rightarrow>
          let st = (if otype obj = OBJ_NONE then st(c \<mapsto> obj\<lparr>otype := type\<rparr>) else st) in
          (st, otype (commit_at st c) = type))"

definition lookup_commit :: "name \<Rightarrow> store \<Rightarrow> store \<times> bool" where
  "lookup_commit = lookup_typed OBJ_COMMIT"

definition lookup_tree :: "name \<Rightarrow> store \<Rightarrow> store \<times> bool" where
  "lookup_tree = lookup_typed OBJ_TREE"

subsection \<open>Grafts\<close>

function commit_graft_pos_loop :: "commit_graft list \<Rightarrow> name \<Rightarrow> nat \<Rightarrow> nat \<Rightarrow> int" where
  "commit_graft_pos_loop gs sha1 lo hi =
     (if lo < hi then
        let mi = (lo + hi) div 2; cmp = hashcmp sha1 (graft_sha1 (gs ! mi)) in
        if cmp = 0 then int mi
        else if cmp < 0 then commit_graft_pos_loop gs sha1 lo mi
        else commit_graft_pos_loop gs sha1 (mi + 1) hi
      else - int lo - 1)"
  by auto
termination by (relation "measure (\<lambda>(_, _, lo, hi). hi - lo)") auto

definition commit_graft_pos :: "commit_graft list \<Rightarrow> name \<Rightarrow> int" where
  "commit_graft_pos gs sha1 = commit_graft_pos_loop gs sha1 0 (length gs)"

definition register_commit_graft :: "commit_graft \<Rightarrow> bool \<Rightarrow> commit_graft list \<Rightarrow> commit_graft list \<times> bool" where
  "register_commit_graft graft ignore_dups gs =
     (let pos = commit_graft_pos gs (graft_sha1 graft) in
      if 0 \<le> pos then (if ignore_dups then gs else gs[nat pos := graft], True)
      else let pos = nat (- pos - 1) in (take pos gs @ graft # drop pos gs, False))"

definition lookup_commit_graft :: "commit_graft list \<Rightarrow> name \<Rightarrow> commit_graft option" where
  "lookup_commit_graft gs sha1 =
     (let pos = commit_graft_pos gs sha1 in if pos < 0 then None else Some (gs ! nat pos))"

definition unregister_shallow :: "name \<Rightarrow> commit_graft list \<Rightarrow> commit_graft list \<times> int" where
  "unregister_shallow sha1 gs =
     (let pos = commit_graft_pos gs sha1 in
      if pos < 0 then (gs, -1) else (take (nat pos) gs @ drop (nat pos + 1) gs, 0))"

fun for_each_commit_graft :: "(commit_graft \<Rightarrow> int) \<Rightarrow> commit_graft list \<Rightarrow> int" where
  "for_each_commit_graft fn [] = 0"
| "for_each_commit_graft fn (g # gs) = (if fn g \<noteq> 0 then fn g else for_each_commit_graft fn gs)"

text \<open>
  A line of the file of grafts. The buffer is a C string whose length is passed beside it; the loop
  at its start cuts the white space at its end. \<open>None\<close> is a comment, an empty or a bad line.
\<close>

fun trim_spaces :: "string \<Rightarrow> string" where
  "trim_spaces buf = (if buf \<noteq> [] \<and> isspace (last buf) then trim_spaces (butlast buf) else buf)"

declare trim_spaces.simps [simp del]

function graft_parents :: "string \<Rightarrow> name list option" where
  "graft_parents buf =
     (if buf = [] then Some []
      else if hd buf \<noteq> CHR '' '' then None
      else case get_sha1_hex (tl buf) of None \<Rightarrow> None
        | Some p \<Rightarrow> (case graft_parents (drop 41 buf) of None \<Rightarrow> None | Some ps \<Rightarrow> Some (p # ps)))"
  by auto
termination by (relation "measure length") auto

declare graft_parents.simps [simp del]

definition read_graft_line :: "string \<Rightarrow> commit_graft option" where
  "read_graft_line line =
     (let buf = trim_spaces line in
      if cstr_hd buf = CHR ''#'' \<or> cstr_hd buf = CHR 0x00 then None
      else if (length buf + 1) mod 41 \<noteq> 0 then None
      else case get_sha1_hex buf of None \<Rightarrow> None
        | Some sha1 \<Rightarrow> (case graft_parents (drop 40 buf) of None \<Rightarrow> None
            | Some ps \<Rightarrow> Some \<lparr>graft_sha1 = sha1, nr_parent = int ((length buf + 1) div 41 - 1), graft_parent = ps\<rparr>))"

subsection \<open>The date of a commit\<close>

text \<open>
  The loop \<open>while (buf < tail && *buf++ != ch)\<close>: what is left behind the first \<open>ch\<close>.
\<close>

fun skip_past :: "char \<Rightarrow> string \<Rightarrow> string" where
  "skip_past ch [] = []"
| "skip_past ch (c # buf) = (if c = ch then buf else skip_past ch buf)"

text \<open>\<open>strtoul (s, NULL, 10)\<close> of the C library in its standard locale: white space, a sign, and
  decimal digits; the value is cut at \<open>ULONG_MAX\<close> and a minus sign negates it.\<close>

definition libc_isspace :: "char \<Rightarrow> bool" where
  "libc_isspace c = ((of_char c :: nat) = 32 \<or> 9 \<le> (of_char c :: nat) \<and> (of_char c :: nat) \<le> 13)"

definition libc_isdigit :: "char \<Rightarrow> bool" where
  "libc_isdigit c = (48 \<le> (of_char c :: nat) \<and> (of_char c :: nat) \<le> 57)"

definition digits_value :: "string \<Rightarrow> nat" where
  "digits_value ds = foldl (\<lambda>n c. 10 * n + (of_char c - 48)) 0 ds"

definition strtoul :: "string \<Rightarrow> u64" where
  "strtoul s =
     (let s = dropWhile libc_isspace s;
          neg = (cstr_hd s = CHR ''-'');
          s = (if neg \<or> cstr_hd s = CHR ''+'' then tl s else s);
          n = digits_value (takeWhile libc_isdigit s) in
      if 2 ^ 64 \<le> n then - 1 else if neg then - of_nat n else of_nat n)"

definition parse_commit_date :: "string \<Rightarrow> u64" where
  "parse_commit_date buf =
     (if length buf \<le> 6 then 0
      else if take 6 buf \<noteq> ''author'' then 0
      else let buf = skip_past CHR 0x0A buf in
        if length buf \<le> 9 then 0
        else if take 9 buf \<noteq> ''committer'' then 0
        else let dateptr = skip_past CHR ''>'' buf in
          if dateptr = [] then 0
          else if skip_past CHR 0x0A dateptr = [] then 0
          else strtoul dateptr)"

subsection \<open>Parsing a commit\<close>

text \<open>
  The parents are linked behind the ones read so far: the \<open>i\<close>-th link of the list is the place
  of the next one. The loop ends at the first line that is not a parent, and gives \<open>None\<close> at a
  malformed one.
\<close>

definition insert_parent :: "name \<Rightarrow> nat \<Rightarrow> name \<Rightarrow> store \<Rightarrow> store" where
  "insert_parent c i p = update_at c (\<lambda>o1. o1\<lparr>parents := take i (parents o1) @ p # drop i (parents o1)\<rparr>)"

function parse_parents :: "bool \<Rightarrow> name \<Rightarrow> nat \<Rightarrow> string \<Rightarrow> store \<Rightarrow> store \<times> (nat \<times> string) option" where
  "parse_parents hidden c i buf st =
     (if 48 < length buf \<and> take 7 buf = ''parent '' then
        (case get_sha1_hex (drop 7 buf) of None \<Rightarrow> (st, None)
         | Some p \<Rightarrow>
             if buf ! 47 \<noteq> CHR 0x0A then (st, None)
             else if hidden then parse_parents hidden c i (drop 48 buf) st
             else (case lookup_commit p st of (st, found) \<Rightarrow>
               if found then parse_parents hidden c (i + 1) (drop 48 buf) (insert_parent c i p st)
               else parse_parents hidden c i (drop 48 buf) st))
      else (st, Some (i, buf)))"
  by pat_completeness auto
termination by (relation "measure (\<lambda>(_, _, _, buf, _). length buf)") auto

declare parse_parents.simps [simp del]

fun add_graft_parents :: "name \<Rightarrow> nat \<Rightarrow> name list \<Rightarrow> store \<Rightarrow> store" where
  "add_graft_parents c i [] st = st"
| "add_graft_parents c i (p # ps) st =
     (case lookup_commit p st of (st, found) \<Rightarrow>
        if found then add_graft_parents c (i + 1) ps (insert_parent c i p st)
        else add_graft_parents c i ps st)"

definition graft_list :: "commit_graft \<Rightarrow> name list" where
  "graft_list g = take (nat (nr_parent g)) (graft_parent g)"

definition parse_commit_buffer :: "commit_env \<Rightarrow> name \<Rightarrow> string \<Rightarrow> store \<Rightarrow> store \<times> bool" where
  "parse_commit_buffer env c buf st =
     (if parsed (commit_at st c) then (st, True)
      else let st = update_at c (\<lambda>o1. o1\<lparr>parsed := True\<rparr>) st in
        if length buf \<le> 46 \<or> take 5 buf \<noteq> ''tree '' \<or> buf ! 45 \<noteq> CHR 0x0A then (st, False)
        else case get_sha1_hex (drop 5 buf) of None \<Rightarrow> (st, False)
          | Some t \<Rightarrow>
              (case lookup_tree t st of (st, found) \<Rightarrow>
                 let st = update_at c (\<lambda>o1. o1\<lparr>tree := (if found then Some t else None)\<rparr>) st;
                     graft = lookup_commit_graft (commit_graft env) c;
                     hidden = (case graft of None \<Rightarrow> False | Some g \<Rightarrow> nr_parent g < 0 \<or> grafts_replace_parents env) in
                 case parse_parents hidden c 0 (drop 46 buf) st of
                   (st, None) \<Rightarrow> (st, False)
                 | (st, Some (i, rest)) \<Rightarrow>
                     let st = (case graft of None \<Rightarrow> st | Some g \<Rightarrow> add_graft_parents c i (graft_list g) st) in
                     (update_at c (\<lambda>o1. o1\<lparr>date := parse_commit_date rest\<rparr>) st, True)))"

definition parse_commit :: "commit_env \<Rightarrow> name \<Rightarrow> store \<Rightarrow> store \<times> bool" where
  "parse_commit env c st =
     (if parsed (commit_at st c) then (st, True)
      else case read_sha1_file env c of None \<Rightarrow> (st, False)
        | Some (type, buffer) \<Rightarrow> if type \<noteq> OBJ_COMMIT then (st, False) else parse_commit_buffer env c buffer st)"

subsection \<open>What a commit links to\<close>

text \<open>
  The parents a text names, as if every name could be looked up, and what a commit of the object
  database links to: its tree, and the parents with the grafts applied.
\<close>

function named_parents :: "string \<Rightarrow> name list option" where
  "named_parents buf =
     (if 48 < length buf \<and> take 7 buf = ''parent '' then
        (case get_sha1_hex (drop 7 buf) of None \<Rightarrow> None
         | Some p \<Rightarrow> if buf ! 47 \<noteq> CHR 0x0A then None
             else map_option (\<lambda>ps. p # ps) (named_parents (drop 48 buf)))
      else Some [])"
  by pat_completeness auto
termination by (relation "measure length") auto

declare named_parents.simps [simp del]

definition commit_links :: "commit_env \<Rightarrow> name \<Rightarrow> (name \<times> name list) option" where
  "commit_links env c =
     (case read_sha1_file env c of None \<Rightarrow> None
      | Some (type, buf) \<Rightarrow>
          if type \<noteq> OBJ_COMMIT \<or> length buf \<le> 46 \<or> take 5 buf \<noteq> ''tree '' \<or> buf ! 45 \<noteq> CHR 0x0A then None
          else case get_sha1_hex (drop 5 buf) of None \<Rightarrow> None
            | Some t \<Rightarrow> (case named_parents (drop 46 buf) of None \<Rightarrow> None
                | Some ps \<Rightarrow> Some (t, case lookup_commit_graft (commit_graft env) c of None \<Rightarrow> ps
                    | Some g \<Rightarrow> (if nr_parent g < 0 \<or> grafts_replace_parents env then [] else ps) @ graft_list g)))"

text \<open>The flags of an object; an object that is not in memory has none.\<close>

definition flags_of :: "store \<Rightarrow> name \<Rightarrow> u32" where
  "flags_of st c = (case st c of None \<Rightarrow> 0 | Some obj \<Rightarrow> flags obj)"

text \<open>
  The objects in memory agree with a history \<open>g\<close>, a map from commits to their parents: what is parsed
  has the parents of the history, what is not can be read. The types of objects are consistent: no
  commit of the history is in memory as an object of another type, or named as a tree.
\<close>

definition loaded :: "commit_env \<Rightarrow> (name \<rightharpoonup> name list) \<Rightarrow> store \<Rightarrow> name \<Rightarrow> name list \<Rightarrow> bool" where
  "loaded env g st c ps =
     (let readable = (\<exists>t. commit_links env c = Some (t, ps) \<and> t \<notin> dom g) in
      case st c of None \<Rightarrow> readable
      | Some obj \<Rightarrow> (otype obj = OBJ_NONE \<or> otype obj = OBJ_COMMIT) \<and>
          (if parsed obj then parents obj = ps \<and> set ps \<subseteq> dom st else parents obj = [] \<and> readable))"

definition agrees :: "commit_env \<Rightarrow> (name \<rightharpoonup> name list) \<Rightarrow> store \<Rightarrow> bool" where
  "agrees env g st = (\<forall>c ps. g c = Some ps \<longrightarrow> set ps \<subseteq> dom g \<and> loaded env g st c ps)"

text \<open>What every operation that only loads commits does to the objects.\<close>

definition parsed_in :: "store \<Rightarrow> name set" where
  "parsed_in st = {c. \<exists>obj. st c = Some obj \<and> parsed obj}"

definition extends :: "store \<Rightarrow> store \<Rightarrow> bool" where
  "extends st st' = (dom st \<subseteq> dom st' \<and> flags_of st' = flags_of st \<and> parsed_in st \<subseteq> parsed_in st')"

lemma extends_refl [simp]: "extends st st"
  by (simp add: extends_def)

lemma extends_trans [trans]: "extends st st1 \<Longrightarrow> extends st1 st2 \<Longrightarrow> extends st st2"
  by (auto simp: extends_def)

lemma extends_dom: "extends st st' \<Longrightarrow> c \<in> dom st \<Longrightarrow> c \<in> dom st'"
  by (auto simp: extends_def)

lemma flags_of_at: "c \<in> dom st \<Longrightarrow> flags (commit_at st c) = flags_of st c"
  by (auto simp: flags_of_def commit_at_def)

lemma flags_of_update: "flags_of (update_at c f st) x = (if x = c then flags (f (commit_at st c)) else flags_of st x)"
  by (simp add: flags_of_def update_at_def)

lemma commit_at_update [simp]: "commit_at (update_at c f st) x = (if x = c then f (commit_at st c) else commit_at st x)"
  by (simp add: commit_at_def update_at_def)

lemma dom_update [simp]: "dom (update_at c f st) = insert c (dom st)"
  by (auto simp: update_at_def)

lemma new_object_simps [simp]:
  "otype (new_object ty) = ty" "parsed (new_object ty) = False" "flags (new_object ty) = 0"
  "parents (new_object ty) = []" "indegree (new_object ty) = 0"
  by (simp_all add: new_object_def)

subsection \<open>Loading a commit keeps the agreement\<close>

definition looked_up :: "object_type \<Rightarrow> commit option \<Rightarrow> commit" where
  "looked_up ty v = (case v of None \<Rightarrow> new_object ty | Some obj \<Rightarrow> if otype obj = OBJ_NONE then obj\<lparr>otype := ty\<rparr> else obj)"

lemma lookup_typed_eq:
  "lookup_typed ty p st = (st(p \<mapsto> looked_up ty (st p)), otype (looked_up ty (st p)) = ty)"
  by (auto simp: lookup_typed_def looked_up_def commit_at_def map_upd_triv split: option.splits)

lemma looked_up_keeps:
  "parsed (looked_up ty v) = (case v of None \<Rightarrow> False | Some obj \<Rightarrow> parsed obj)"
  "flags (looked_up ty v) = (case v of None \<Rightarrow> 0 | Some obj \<Rightarrow> flags obj)"
  "parents (looked_up ty v) = (case v of None \<Rightarrow> [] | Some obj \<Rightarrow> parents obj)"
  by (simp_all add: looked_up_def split: option.splits)

lemma flags_of_lookup: "flags_of (st(p \<mapsto> looked_up ty (st p))) = flags_of st"
  by (rule ext) (simp add: flags_of_def looked_up_keeps split: option.splits)

lemma loaded_mono:
  assumes "loaded env g st x ps" "dom st \<subseteq> dom st'" "st' x = st x"
  shows "loaded env g st' x ps"
proof -
  have "set qs \<subseteq> dom st \<Longrightarrow> set qs \<subseteq> dom st'" for qs using assms(2) by blast
  with assms(1,3) show ?thesis unfolding loaded_def Let_def by (simp split: option.splits if_splits)
qed

lemma loaded_lookup:
  assumes "loaded env g st p ps"
  shows "otype (looked_up OBJ_COMMIT (st p)) = OBJ_COMMIT"
    and "loaded env g (st(p \<mapsto> looked_up OBJ_COMMIT (st p))) p ps"
  using assms by (auto simp: loaded_def looked_up_def Let_def new_object_def split: option.splits if_splits)

text \<open>
  While the text of \<open>c\<close> is parsed, all other commits agree with the history and \<open>c\<close> is a commit
  whose parents so far are \<open>done\<close>.
\<close>

definition loading :: "commit_env \<Rightarrow> (name \<rightharpoonup> name list) \<Rightarrow> name \<Rightarrow> store \<Rightarrow> store \<Rightarrow> name list \<Rightarrow> bool" where
  "loading env g c st0 st ps =
     ((\<forall>x qs. x \<noteq> c \<longrightarrow> g x = Some qs \<longrightarrow> set qs \<subseteq> dom g \<and> loaded env g st x qs)
      \<and> extends st0 st
      \<and> (\<exists>obj. st c = Some obj \<and> (otype obj = OBJ_NONE \<or> otype obj = OBJ_COMMIT) \<and> parsed obj \<and> parents obj = ps)
      \<and> set ps \<subseteq> dom st)"

lemma loading_others: "loading env g c st0 st ps \<Longrightarrow> x \<noteq> c \<Longrightarrow> g x = Some qs \<Longrightarrow> set qs \<subseteq> dom g \<and> loaded env g st x qs"
  by (simp add: loading_def)

lemma loading_obj:
  assumes "loading env g c st0 st ps"
  obtains obj where "st c = Some obj" "otype obj = OBJ_NONE \<or> otype obj = OBJ_COMMIT" "parsed obj" "parents obj = ps"
  using assms by (auto simp: loading_def)

lemma extends_lookup: "extends st (st(p \<mapsto> looked_up ty (st p)))"
  unfolding extends_def flags_of_lookup by (auto simp: parsed_in_def looked_up_keeps)

text \<open>A step of the parser keeps \<open>loading\<close> if it only touches \<open>c\<close> or keeps the other commits loaded.\<close>

lemma loading_step:
  assumes l: "loading env g c st0 st ps" and e: "extends st st'"
    and touched: "\<And>x qs. x \<noteq> c \<Longrightarrow> g x = Some qs \<Longrightarrow> loaded env g st x qs \<Longrightarrow> st' x = st x \<or> loaded env g st' x qs"
    and obj: "st' c = Some obj" "otype obj = OBJ_NONE \<or> otype obj = OBJ_COMMIT" "parsed obj" "parents obj = qs"
    and qs: "set qs \<subseteq> dom st'"
  shows "loading env g c st0 st' qs"
proof -
  have d: "dom st \<subseteq> dom st'" using e by (simp add: extends_def)
  have "set rs \<subseteq> dom g \<and> loaded env g st' x rs" if "x \<noteq> c" "g x = Some rs" for x rs
    using loading_others [OF l that] touched [OF that] loaded_mono [OF _ d] by blast
  moreover have "extends st0 st'" using l e extends_trans by (auto simp: loading_def)
  ultimately show ?thesis using obj qs unfolding loading_def by blast
qed

lemma loading_tree:
  assumes l: "loading env g c st0 st ps" and "t \<notin> dom g" "c \<in> dom g"
  shows "loading env g c st0 (st(t \<mapsto> looked_up ty (st t))) ps"
proof -
  obtain obj where obj: "st c = Some obj" "otype obj = OBJ_NONE \<or> otype obj = OBJ_COMMIT"
    "parsed obj" "parents obj = ps" using loading_obj [OF l] .
  have tc: "t \<noteq> c" using assms by auto
  have "set ps \<subseteq> dom st" using l by (simp add: loading_def)
  then show ?thesis using obj tc assms(2)
    by (intro loading_step [OF l extends_lookup, where obj = obj]) auto
qed

lemma loading_parent:
  assumes l: "loading env g c st0 st ps" and p: "p \<in> dom g"
  shows "otype (looked_up OBJ_COMMIT (st p)) = OBJ_COMMIT"
    and "loading env g c st0 (st(p \<mapsto> looked_up OBJ_COMMIT (st p))) ps"
proof -
  obtain obj where obj: "st c = Some obj" "otype obj = OBJ_NONE \<or> otype obj = OBJ_COMMIT"
    "parsed obj" "parents obj = ps" using loading_obj [OF l] .
  obtain qs where qs: "g p = Some qs" using p by auto
  show "otype (looked_up OBJ_COMMIT (st p)) = OBJ_COMMIT"
  proof (cases "p = c")
    case True
    then show ?thesis using obj by (auto simp: looked_up_def)
  next
    case False
    then show ?thesis using loading_others [OF l False qs] loaded_lookup(1) by blast
  qed
  let ?obj = "if p = c then looked_up OBJ_COMMIT (st c) else obj"
  have "otype ?obj = OBJ_NONE \<or> otype ?obj = OBJ_COMMIT" "parsed ?obj" "parents ?obj = ps"
    using obj by (auto simp: looked_up_def)
  moreover have "set ps \<subseteq> dom st" using l by (simp add: loading_def)
  moreover have "(st(p \<mapsto> looked_up OBJ_COMMIT (st p))) x = st x \<or> loaded env g (st(p \<mapsto> looked_up OBJ_COMMIT (st p))) x rs"
    if "loaded env g st x rs" for x rs
    using loaded_lookup(2) that by (cases "x = p") auto
  ultimately show "loading env g c st0 (st(p \<mapsto> looked_up OBJ_COMMIT (st p))) ps"
    using obj(1) by (intro loading_step [OF l extends_lookup, where obj = ?obj]) auto
qed

lemma loading_insert:
  assumes l: "loading env g c st0 st ps" and "p \<in> dom st" "i = length ps"
  shows "loading env g c st0 (insert_parent c i p st) (ps @ [p])"
proof -
  obtain obj where obj: "st c = Some obj" "otype obj = OBJ_NONE \<or> otype obj = OBJ_COMMIT"
    "parsed obj" "parents obj = ps" using loading_obj [OF l] .
  have eq: "insert_parent c i p st = st(c \<mapsto> obj\<lparr>parents := ps @ [p]\<rparr>)"
    using obj assms by (simp add: insert_parent_def update_at_def commit_at_def)
  have e: "extends st (insert_parent c i p st)"
    using obj unfolding extends_def eq by (auto simp: flags_of_def parsed_in_def fun_eq_iff)
  have "set ps \<subseteq> dom st" using l by (simp add: loading_def)
  then show ?thesis using obj assms(2)
    by (intro loading_step [OF l e, where obj = "obj\<lparr>parents := ps @ [p]\<rparr>"]) (auto simp: eq)
qed

lemma loading_link:
  assumes l: "loading env g c st0 st ps" and p: "p \<in> dom g"
  shows "\<exists>st'. lookup_commit p st = (st', True) \<and> loading env g c st0 (insert_parent c (length ps) p st') (ps @ [p])"
proof -
  let ?st = "st(p \<mapsto> looked_up OBJ_COMMIT (st p))"
  have "loading env g c st0 ?st ps" by (rule loading_parent [OF l p])
  then have "loading env g c st0 (insert_parent c (length ps) p ?st) (ps @ [p])"
    by (rule loading_insert) simp_all
  moreover have "lookup_commit p st = (?st, True)"
    unfolding lookup_commit_def lookup_typed_eq using loading_parent(1) [OF l p] by simp
  ultimately show ?thesis by blast
qed

lemma named_parents_end: "\<not> (48 < length buf \<and> take 7 buf = ''parent '') \<Longrightarrow> named_parents buf = Some []"
  unfolding named_parents.simps [of buf] by (rule if_not_P)

lemma parse_parents_end:
  "\<not> (48 < length buf \<and> take 7 buf = ''parent '') \<Longrightarrow> parse_parents hidden c i buf st = (st, Some (i, buf))"
  unfolding parse_parents.simps [of _ _ _ buf] by (rule if_not_P)

lemma named_parents_step:
  assumes "48 < length buf \<and> take 7 buf = ''parent ''" "named_parents buf = Some qs"
  obtains p rs where "get_sha1_hex (drop 7 buf) = Some p" "buf ! 47 = CHR 0x0A"
      "named_parents (drop 48 buf) = Some rs" "qs = p # rs"
proof -
  have "(case get_sha1_hex (drop 7 buf) of None \<Rightarrow> None
         | Some p \<Rightarrow> if buf ! 47 \<noteq> CHR 0x0A then None
             else map_option (\<lambda>ps. p # ps) (named_parents (drop 48 buf))) = Some qs"
    using assms(2) unfolding named_parents.simps [of buf] if_P [OF assms(1)] .
  then show ?thesis using that by (auto split: option.splits if_splits)
qed

lemma parse_parents_step:
  assumes "48 < length buf \<and> take 7 buf = ''parent ''" "get_sha1_hex (drop 7 buf) = Some p" "buf ! 47 = CHR 0x0A"
  shows "parse_parents hidden c i buf st = (if hidden then parse_parents hidden c i (drop 48 buf) st
    else (case lookup_commit p st of (st, found) \<Rightarrow>
      if found then parse_parents hidden c (i + 1) (drop 48 buf) (insert_parent c i p st)
      else parse_parents hidden c i (drop 48 buf) st))"
  unfolding parse_parents.simps [of hidden c i buf st] if_P [OF assms(1)] using assms(2,3) by simp

lemma parse_parents_ok:
  assumes "named_parents buf = Some qs" "loading env g c st0 st ps" "hidden \<or> set qs \<subseteq> dom g"
  shows "\<exists>st' rest. parse_parents hidden c (length ps) buf st = (st', Some (length (if hidden then ps else ps @ qs), rest))
    \<and> loading env g c st0 st' (if hidden then ps else ps @ qs)"
  using assms
proof (induction buf arbitrary: st ps qs rule: named_parents.induct)
  case (1 buf)
  show ?case
  proof (cases "48 < length buf \<and> take 7 buf = ''parent ''")
    case False
    have "qs = []" using "1.prems"(1) named_parents_end [OF False] by simp
    then show ?thesis using "1.prems"(2) parse_parents_end [OF False] by simp
  next
    case True
    from named_parents_step [OF True "1.prems"(1)] obtain p rs where p: "get_sha1_hex (drop 7 buf) = Some p"
      "buf ! 47 = CHR 0x0A" "named_parents (drop 48 buf) = Some rs" "qs = p # rs" .
    note IH = "1.IH" [OF True p(1) _ p(3)] and step = parse_parents_step [OF True p(1,2)]
    show ?thesis
    proof (cases hidden)
      case h: True
      then show ?thesis using IH [OF _ "1.prems"(2)] p(2) by (simp add: step)
    next
      case False
      then have dg: "p \<in> dom g" "set rs \<subseteq> dom g" using "1.prems" p by auto
      then obtain st1 where st1: "lookup_commit p st = (st1, True)"
        "loading env g c st0 (insert_parent c (length ps) p st1) (ps @ [p])"
        using loading_link [OF "1.prems"(2)] by blast
      have "\<exists>st' rest. parse_parents hidden c (length (ps @ [p])) (drop 48 buf) (insert_parent c (length ps) p st1)
          = (st', Some (length (if hidden then ps @ [p] else (ps @ [p]) @ rs), rest))
          \<and> loading env g c st0 st' (if hidden then ps @ [p] else (ps @ [p]) @ rs)"
        using dg by (intro IH [OF _ st1(2)]) (simp_all add: p(2))
      then show ?thesis using st1(1) False p(4) by (simp add: step)
    qed
  qed
qed

lemma add_graft_parents_ok:
  "loading env g c st0 st ps \<Longrightarrow> set qs \<subseteq> dom g
    \<Longrightarrow> loading env g c st0 (add_graft_parents c (length ps) qs st) (ps @ qs)"
proof (induction qs arbitrary: st ps)
  case (Cons p qs)
  then have "p \<in> dom g" by simp
  from loading_link [OF Cons.prems(1) this] obtain st1 where st1: "lookup_commit p st = (st1, True)"
    "loading env g c st0 (insert_parent c (length ps) p st1) (ps @ [p])" by blast
  from Cons.IH [OF this(2)] Cons.prems st1 show ?case by simp
qed simp

text \<open>Loading a commit of the history succeeds, and its parents are then in memory.\<close>

lemma loading_update:
  assumes l: "loading env g c st0 st ps"
    and f: "\<And>obj. otype (f obj) = otype obj \<and> parsed (f obj) = parsed obj \<and> parents (f obj) = parents obj \<and> flags (f obj) = flags obj"
  shows "loading env g c st0 (update_at c f st) ps"
proof -
  obtain obj where obj: "st c = Some obj" "otype obj = OBJ_NONE \<or> otype obj = OBJ_COMMIT"
    "parsed obj" "parents obj = ps" using loading_obj [OF l] .
  have eq: "update_at c f st = st(c \<mapsto> f obj)" using obj by (simp add: update_at_def commit_at_def)
  have e: "extends st (update_at c f st)"
    using obj f unfolding extends_def eq by (auto simp: flags_of_def parsed_in_def fun_eq_iff)
  have "set ps \<subseteq> dom st" using l by (simp add: loading_def)
  then show ?thesis using obj f
    by (intro loading_step [OF l e, where obj = "f obj"]) (auto simp: eq)
qed

lemma loading_done:
  assumes l: "loading env g c st0 st ps" and c: "g c = Some ps" "set ps \<subseteq> dom g"
  shows "agrees env g st" "extends st0 st" "c \<in> parsed_in st"
proof -
  obtain obj where obj: "st c = Some obj" "otype obj = OBJ_NONE \<or> otype obj = OBJ_COMMIT"
    "parsed obj" "parents obj = ps" using loading_obj [OF l] .
  have "set ps \<subseteq> dom st" using l by (simp add: loading_def)
  then have "loaded env g st c ps" using obj by (simp add: loaded_def)
  then show "agrees env g st" unfolding agrees_def using loading_others [OF l] c by (metis option.inject)
  show "extends st0 st" using l by (simp add: loading_def)
  show "c \<in> parsed_in st" using obj by (simp add: parsed_in_def)
qed

lemma parse_commit_buffer_ok:
  assumes a: "agrees env g st" and obj: "st c = Some obj" "\<not> parsed obj" and g: "g c = Some ps"
    and buf: "read_sha1_file env c = Some (OBJ_COMMIT, buf)"
  shows "\<exists>st'. parse_commit_buffer env c buf st = (st', True) \<and> loading env g c st st' ps"
proof -
  have ld: "loaded env g st c ps" and psg: "set ps \<subseteq> dom g" using a g by (auto simp: agrees_def)
  from ld obj obtain t where ot: "otype obj = OBJ_NONE \<or> otype obj = OBJ_COMMIT" "parents obj = []"
    and links: "commit_links env c = Some (t, ps)" and t: "t \<notin> dom g"
    by (auto simp: loaded_def Let_def)
  let ?gr = "lookup_commit_graft (commit_graft env) c"
  let ?hidden = "case ?gr of None \<Rightarrow> False | Some g \<Rightarrow> nr_parent g < 0 \<or> grafts_replace_parents env"
  from links buf obtain qs where shape: "\<not> (length buf \<le> 46 \<or> take 5 buf \<noteq> ''tree '' \<or> buf ! 45 \<noteq> CHR 0x0A)"
    "get_sha1_hex (drop 5 buf) = Some t" "named_parents (drop 46 buf) = Some qs"
    "ps = (if ?hidden then [] else qs) @ (case ?gr of None \<Rightarrow> [] | Some g \<Rightarrow> graft_list g)"
    by (auto simp: commit_links_def split: option.splits if_splits)
  let ?st1 = "update_at c (\<lambda>o1. o1\<lparr>parsed := True\<rparr>) st"
  have eq1: "?st1 = st(c \<mapsto> obj\<lparr>parsed := True\<rparr>)" using obj by (simp add: update_at_def commit_at_def)
  have l1: "loading env g c st ?st1 []"
  proof -
    have "set rs \<subseteq> dom g \<and> loaded env g ?st1 x rs" if "x \<noteq> c" "g x = Some rs" for x rs
      using a that loaded_mono [of env g st x rs ?st1] by (auto simp: agrees_def eq1)
    moreover have "extends st ?st1"
      using obj unfolding extends_def eq1 by (auto simp: flags_of_def parsed_in_def fun_eq_iff)
    ultimately show ?thesis using ot by (auto simp: loading_def eq1)
  qed
  let ?st2 = "?st1(t \<mapsto> looked_up OBJ_TREE (?st1 t))"
  have l2: "loading env g c st ?st2 []" using g by (intro loading_tree [OF l1 t]) auto
  obtain fnd where tr: "lookup_tree t ?st1 = (?st2, fnd)" by (simp add: lookup_tree_def lookup_typed_eq)
  let ?st3 = "update_at c (\<lambda>o1. o1\<lparr>tree := (if fnd then Some t else None)\<rparr>) ?st2"
  have l3: "loading env g c st ?st3 []" by (rule loading_update [OF l2]) simp
  have hp: "?hidden \<or> set qs \<subseteq> dom g" using psg shape(4) by auto
  from parse_parents_ok [OF shape(3) l3 hp] obtain st4 rest where
    p4: "parse_parents ?hidden c 0 (drop 46 buf) ?st3 = (st4, Some (length (if ?hidden then [] else qs), rest))"
    and l4: "loading env g c st st4 (if ?hidden then [] else qs)"
    unfolding append_Nil list.size(3) by blast
  let ?st5 = "case ?gr of None \<Rightarrow> st4 | Some g \<Rightarrow> add_graft_parents c (length (if ?hidden then [] else qs)) (graft_list g) st4"
  have l5: "loading env g c st ?st5 ps"
  proof (cases ?gr)
    case None
    then show ?thesis using l4 shape(4) by simp
  next
    case (Some gr)
    then have "set (graft_list gr) \<subseteq> dom g" using psg shape(4) by auto
    from add_graft_parents_ok [OF l4 this] show ?thesis unfolding shape(4) Some option.case .
  qed
  let ?st6 = "update_at c (\<lambda>o1. o1\<lparr>date := parse_commit_date rest\<rparr>) ?st5"
  have "loading env g c st ?st6 ps" by (rule loading_update [OF l5]) simp
  moreover have "parse_commit_buffer env c buf st = (?st6, True)"
    using obj unfolding parse_commit_buffer_def Let_def if_not_P [OF shape(1)] shape(2) option.case
      tr prod.case p4 by (simp add: commit_at_def)
  ultimately show ?thesis by blast
qed

lemma parse_commit_ok:
  assumes a: "agrees env g st" and c: "c \<in> dom g" "c \<in> dom st"
  shows "\<exists>st'. parse_commit env c st = (st', True) \<and> agrees env g st' \<and> extends st st' \<and> c \<in> parsed_in st'"
proof -
  obtain obj ps where obj: "st c = Some obj" and ps: "g c = Some ps" using c by auto
  show ?thesis
  proof (cases "parsed obj")
    case True
    then show ?thesis using a obj by (auto simp: parse_commit_def commit_at_def parsed_in_def)
  next
    case False
    have ld: "loaded env g st c ps" "set ps \<subseteq> dom g" using a ps by (auto simp: agrees_def)
    then obtain buf where buf: "read_sha1_file env c = Some (OBJ_COMMIT, buf)"
      using obj False by (auto simp: loaded_def Let_def commit_links_def split: option.splits prod.splits if_splits)
    obtain st' where "parse_commit_buffer env c buf st = (st', True)" "loading env g c st st' ps"
      using parse_commit_buffer_ok [OF a obj False ps buf] by blast
    then show ?thesis using loading_done [OF _ ps ld(2)] obj False buf
      by (auto simp: parse_commit_def commit_at_def)
  qed
qed

subsection \<open>The table of grafts\<close>

text \<open>The array is sorted by name without duplicates; as a map it is the association list of its grafts.\<close>

definition grafts_ok :: "commit_graft list \<Rightarrow> bool" where
  "grafts_ok gs = (sorted_wrt (<) (map graft_sha1 gs) \<and> (\<forall>g \<in> set gs. length (graft_sha1 g) = 20))"

definition graft_map :: "commit_graft list \<Rightarrow> name \<rightharpoonup> commit_graft" where
  "graft_map gs = map_of (map (\<lambda>g. (graft_sha1 g, g)) gs)"

lemma grafts_less: "grafts_ok gs \<Longrightarrow> i < j \<Longrightarrow> j < length gs \<Longrightarrow> graft_sha1 (gs ! i) < graft_sha1 (gs ! j)"
  by (auto simp: grafts_ok_def sorted_wrt_iff_nth_less)

lemma graft_cmp:
  assumes "grafts_ok gs" "i < length gs" "length k = 20"
  shows "hashcmp k (graft_sha1 (gs ! i)) = 0 \<longleftrightarrow> k = graft_sha1 (gs ! i)"
    "0 < hashcmp k (graft_sha1 (gs ! i)) \<longleftrightarrow> graft_sha1 (gs ! i) < k"
    "hashcmp k (graft_sha1 (gs ! i)) < 0 \<longleftrightarrow> k < graft_sha1 (gs ! i)"
proof -
  have "length (graft_sha1 (gs ! i)) = 20" using assms nth_mem by (simp add: grafts_ok_def)
  then have c: "hashcmp k (graft_sha1 (gs ! i)) = 0 \<longleftrightarrow> k = graft_sha1 (gs ! i)"
    "0 < hashcmp k (graft_sha1 (gs ! i)) \<longleftrightarrow> graft_sha1 (gs ! i) < k"
    using hashcmp_order [of k "graft_sha1 (gs ! i)"] assms(3) by auto
  then show "hashcmp k (graft_sha1 (gs ! i)) = 0 \<longleftrightarrow> k = graft_sha1 (gs ! i)"
    "0 < hashcmp k (graft_sha1 (gs ! i)) \<longleftrightarrow> graft_sha1 (gs ! i) < k"
    "hashcmp k (graft_sha1 (gs ! i)) < 0 \<longleftrightarrow> k < graft_sha1 (gs ! i)"
    by (auto simp: not_less [symmetric] le_less)
qed

interpretation graft_search: binary_search "\<lambda>gs k i. hashcmp k (graft_sha1 (gs ! i))" commit_graft_pos_loop length
  "\<lambda>gs k. grafts_ok gs \<and> length k = 20"
proof
  show "hashcmp k (graft_sha1 (gs ! j)) < 0"
    if "grafts_ok gs \<and> length k = 20" "i < j" "j < length gs" "hashcmp k (graft_sha1 (gs ! i)) \<le> 0" for gs k i j
    using that graft_cmp [of gs i k] graft_cmp [of gs j k] grafts_less [of gs i j] by force
qed (auto simp: commit_graft_pos_loop.simps Let_def)

lemma commit_graft_pos_ok:
  assumes "grafts_ok gs" "length k = 20"
  shows "is_pos (\<lambda>i. graft_sha1 (gs ! i)) (length gs) k (commit_graft_pos gs k)"
proof -
  have "graft_search.found_at gs k (commit_graft_pos gs k)"
    unfolding commit_graft_pos_def using assms by (intro graft_search.search_all) simp
  then show ?thesis unfolding graft_search.found_at_def is_pos_def by (auto simp: graft_cmp [OF assms(1) _ assms(2)])
qed

lemma graft_map_Some:
  assumes gs: "grafts_ok gs" and i: "i < length gs"
  shows "graft_map gs (graft_sha1 (gs ! i)) = Some (gs ! i)"
proof -
  have "distinct (map graft_sha1 gs)" using gs strict_sorted_iff by (auto simp: grafts_ok_def)
  then have "map_of (map (\<lambda>g. (graft_sha1 g, g)) gs) (graft_sha1 (gs ! i)) = Some (gs ! i)"
    using i by (intro map_of_is_SomeI) (auto simp: comp_def)
  then show ?thesis by (simp add: graft_map_def)
qed

lemma graft_map_None: "(\<And>i. i < length gs \<Longrightarrow> graft_sha1 (gs ! i) \<noteq> k) \<Longrightarrow> graft_map gs k = None"
  unfolding graft_map_def map_of_eq_None_iff by (fastforce simp: in_set_conv_nth)

lemma lookup_commit_graft_map:
  assumes gs: "grafts_ok gs" and k: "length k = 20"
  shows "lookup_commit_graft gs k = graft_map gs k"
proof -
  let ?r = "commit_graft_pos gs k"
  have pos: "is_pos (\<lambda>i. graft_sha1 (gs ! i)) (length gs) k ?r" by (rule commit_graft_pos_ok [OF gs k])
  show ?thesis
  proof (cases "0 \<le> ?r")
    case True
    then have "nat ?r < length gs" "graft_sha1 (gs ! nat ?r) = k" using pos by (auto simp: is_pos_def)
    then show ?thesis using graft_map_Some [OF gs, of "nat ?r"] True by (simp add: lookup_commit_graft_def Let_def)
  next
    case False
    then have "graft_sha1 (gs ! i) \<noteq> k" if "i < length gs" for i
      using pos that by (auto simp: is_pos_def split: if_splits)
    then show ?thesis using graft_map_None [of gs k] False by (simp add: lookup_commit_graft_def Let_def)
  qed
qed

lemma map_of_insert_mid:
  "k \<notin> fst ` set xs \<Longrightarrow> map_of (xs @ (k, v) # ys) = (map_of (xs @ ys))(k \<mapsto> v)"
  by (induction xs) (auto simp: fun_eq_iff)

text \<open>
  Registering a graft puts it into the table; a graft of the same commit is replaced, or kept when
  duplicates are ignored.
\<close>

lemma register_commit_graft_ok:
  assumes gs: "grafts_ok gs" and g: "length (graft_sha1 g) = 20"
  shows "grafts_ok (fst (register_commit_graft g ign gs))"
    and "graft_map (fst (register_commit_graft g ign gs))
      = (if ign \<and> graft_map gs (graft_sha1 g) \<noteq> None then graft_map gs else (graft_map gs)(graft_sha1 g \<mapsto> g))"
    and "snd (register_commit_graft g ign gs) \<longleftrightarrow> graft_map gs (graft_sha1 g) \<noteq> None"
proof -
  let ?k = "graft_sha1 g" and ?key = "\<lambda>i. graft_sha1 (gs ! i)"
  let ?r = "commit_graft_pos gs ?k" and ?new = "fst (register_commit_graft g ign gs)"
  have pos: "is_pos ?key (length gs) ?k ?r" by (rule commit_graft_pos_ok [OF gs g])
  show "grafts_ok ?new" "graft_map ?new = (if ign \<and> graft_map gs ?k \<noteq> None then graft_map gs else (graft_map gs)(?k \<mapsto> g))"
    "snd (register_commit_graft g ign gs) \<longleftrightarrow> graft_map gs ?k \<noteq> None"
  proof (atomize (full), cases "0 \<le> ?r")
    case True
    then have r: "nat ?r < length gs" "?key (nat ?r) = ?k" using pos by (auto simp: is_pos_def)
    have old: "graft_map gs ?k = Some (gs ! nat ?r)" using graft_map_Some [OF gs r(1)] r(2) by simp
    have keys: "map graft_sha1 (gs[nat ?r := g]) = map graft_sha1 gs"
      using r by (simp add: map_update list_update_same_conv)
    then have ok: "grafts_ok (gs[nat ?r := g])" using gs g set_update_subset_insert [of gs "nat ?r" g] by (auto simp: grafts_ok_def)
    have upd: "graft_map (gs[nat ?r := g]) = (graft_map gs)(?k \<mapsto> g)"
    proof (rule ext)
      fix k
      show "graft_map (gs[nat ?r := g]) k = ((graft_map gs)(?k \<mapsto> g)) k"
      proof (cases "\<exists>i < length gs. ?key i = k")
        case False
        then have "graft_map gs k = None" "k \<noteq> ?k" using graft_map_None [of gs k] r by auto
        moreover have "graft_map (gs[nat ?r := g]) k = None"
          unfolding graft_map_def map_of_eq_None_iff using False r by (auto simp: in_set_conv_nth nth_list_update split: if_splits)
        ultimately show ?thesis by simp
      next
        case True
        then obtain i where i: "i < length gs" "?key i = k" by blast
        have "graft_map (gs[nat ?r := g]) (graft_sha1 (gs[nat ?r := g] ! i)) = Some (gs[nat ?r := g] ! i)"
          using graft_map_Some [OF ok, of i] i(1) by simp
        moreover have "i = nat ?r \<or> k \<noteq> ?k"
          using grafts_less [OF gs, of i "nat ?r"] grafts_less [OF gs, of "nat ?r" i] i r by (metis less_irrefl linorder_neqE_nat)
        ultimately show ?thesis using graft_map_Some [OF gs i(1)] i r by (cases "i = nat ?r") auto
      qed
    qed
    show "grafts_ok ?new \<and> graft_map ?new = (if ign \<and> graft_map gs ?k \<noteq> None then graft_map gs else (graft_map gs)(?k \<mapsto> g))
      \<and> snd (register_commit_graft g ign gs) = (graft_map gs ?k \<noteq> None)"
      using True gs ok upd old by (simp add: register_commit_graft_def Let_def)
  next
    case False
    let ?p = "nat (- ?r - 1)"
    have p: "?p \<le> length gs" "\<And>i. i < ?p \<Longrightarrow> ?key i < ?k" "\<And>i. ?p \<le> i \<Longrightarrow> i < length gs \<Longrightarrow> ?k < ?key i"
      using pos False by (auto simp: is_pos_def algebra_simps split: if_splits)
    have none: "graft_map gs ?k = None"
      using p(2,3) by (intro graft_map_None) (metis less_irrefl linorder_not_less)
    have below: "x < ?k" if "x \<in> set (map graft_sha1 (take ?p gs))" for x
      using that p(1,2) by (auto simp: in_set_conv_nth)
    have above: "?k < x" if "x \<in> set (map graft_sha1 (drop ?p gs))" for x
      using that p(1,3) by (auto simp: in_set_conv_nth)
    have "sorted_wrt (<) (map graft_sha1 gs)" using gs by (simp add: grafts_ok_def)
    then have "sorted_wrt (<) (map graft_sha1 (take ?p gs))" "sorted_wrt (<) (map graft_sha1 (drop ?p gs))"
      by (simp_all only: take_map [symmetric] drop_map [symmetric] sorted_wrt_take sorted_wrt_drop)
    then have sorted: "sorted_wrt (<) (map graft_sha1 (take ?p gs @ g # drop ?p gs))"
      using below above less_trans by (simp only: map_append list.map sorted_wrt_append sorted_wrt.simps) fastforce
    have ok: "grafts_ok (take ?p gs @ g # drop ?p gs)"
      using sorted gs g set_take_subset [of ?p gs] set_drop_subset [of ?p gs] by (auto simp: grafts_ok_def)
    have "?k \<notin> graft_sha1 ` set (take ?p gs)" using below by fastforce
    then have "graft_map (take ?p gs @ g # drop ?p gs) = (graft_map (take ?p gs @ drop ?p gs))(?k \<mapsto> g)"
      unfolding graft_map_def map_append list.map by (intro map_of_insert_mid) (simp add: image_image)
    then show "grafts_ok ?new \<and> graft_map ?new = (if ign \<and> graft_map gs ?k \<noteq> None then graft_map gs else (graft_map gs)(?k \<mapsto> g))
      \<and> snd (register_commit_graft g ign gs) = (graft_map gs ?k \<noteq> None)"
      using False ok none by (simp add: register_commit_graft_def Let_def)
  qed
qed

subsection \<open>Properties\<close>

text \<open>The table of grafts is a map: after a graft is registered, \<open>lookup_commit_graft\<close> finds
  it under its commit, unless one was there and duplicates are to be ignored, and finds under every
  other commit what it found before.\<close>

theorem register_commit_graft_lookup:
  assumes "grafts_ok gs" "length (graft_sha1 g) = 20" "length k = 20"
  shows "lookup_commit_graft (fst (register_commit_graft g ign gs)) k
      = (if k = graft_sha1 g \<and> (ign \<longrightarrow> lookup_commit_graft gs k = None) then Some g else lookup_commit_graft gs k)
    \<and> grafts_ok (fst (register_commit_graft g ign gs))"
  using register_commit_graft_ok [OF assms(1,2), of ign] lookup_commit_graft_map [OF _ assms(3)] assms(1) by auto

definition demo_graft :: "nat \<Rightarrow> commit_graft" where
  "demo_graft n = \<lparr>graft_sha1 = replicate 20 (of_nat n), nr_parent = 0, graft_parent = []\<rparr>"

theorem register_commit_graft_lookup_witness:
  "lookup_commit_graft (fst (register_commit_graft (demo_graft 2) True [demo_graft 1, demo_graft 3])) (replicate 20 2)
    = Some (demo_graft 2)"
proof -
  have "grafts_ok [demo_graft 1, demo_graft 3]" by code_simp
  moreover have "length (graft_sha1 (demo_graft 2)) = 20" "length (replicate 20 (2 :: byte)) = 20" by (simp_all add: demo_graft_def)
  ultimately have "lookup_commit_graft (fst (register_commit_graft (demo_graft 2) True [demo_graft 1, demo_graft 3])) (replicate 20 2)
    = (if replicate 20 2 = graft_sha1 (demo_graft 2) \<and> (True \<longrightarrow> lookup_commit_graft [demo_graft 1, demo_graft 3] (replicate 20 2) = None)
       then Some (demo_graft 2) else lookup_commit_graft [demo_graft 1, demo_graft 3] (replicate 20 2))"
    by (rule register_commit_graft_lookup [THEN conjunct1])
  moreover have "lookup_commit_graft [demo_graft 1, demo_graft 3] (replicate 20 2) = None" by code_simp
  moreover have "replicate 20 2 = graft_sha1 (demo_graft 2)" by (simp add: demo_graft_def)
  ultimately show ?thesis by simp
qed

text \<open>C36. A malformed commit is refused once only: \<open>parse_commit_buffer\<close> marks a commit as parsed
  before it looks at the text, so that \<open>parse_commit\<close> reports success for it when it is asked
  again, with no tree and the parents it had, usually none.\<close>

theorem malformed_commit_parses_again:
  assumes "st c = Some obj" "\<not> parsed obj" "read_sha1_file env c = Some (OBJ_COMMIT, buf)"
    and "length buf \<le> 46 \<or> take 5 buf \<noteq> ''tree '' \<or> buf ! 45 \<noteq> CHR 0x0A"
  shows "\<exists>st'. parse_commit env c st = (st', False) \<and> parse_commit env c st' = (st', True)
    \<and> st' c = Some (obj\<lparr>parsed := True\<rparr>)"
  using assms by (auto simp: parse_commit_def parse_commit_buffer_def commit_at_def update_at_def Let_def)

theorem malformed_commit_parses_again_witness:
  "\<exists>st'. parse_commit \<lparr>read_sha1_file = [[1] \<mapsto> (OBJ_COMMIT, ''broken'')], commit_graft = [], grafts_replace_parents = False\<rparr>
      [1] [[1] \<mapsto> new_object OBJ_COMMIT] = (st', False)
    \<and> parse_commit \<lparr>read_sha1_file = [[1] \<mapsto> (OBJ_COMMIT, ''broken'')], commit_graft = [], grafts_replace_parents = False\<rparr> [1] st' = (st', True)
    \<and> st' [1] = Some ((new_object OBJ_COMMIT)\<lparr>parsed := True\<rparr>)"
  by (rule malformed_commit_parses_again [of _ _ _ _ "''broken''"]) (simp_all add: new_object_def)

text \<open>
  A date that is only white space is read past its line: \<open>strtoul\<close> skips the newline, and the
  number comes from the text behind the committer.
\<close>

lemma strtoul_skips_newlines: "strtoul (CHR '' '' # CHR 0x0A # CHR 0x0A # s) = strtoul s"
  by (simp add: strtoul_def libc_isspace_def)

end
