(* ===== verification/Commit_Write.thy ===== *)
theory Commit_Write
  imports Commit Strbuf
begin

text \<open>
  Writing a commit: \<open>commit_tree_extended\<close> of \<^verbatim>\<open>commit.c\<close> over string buffers, and the round
  trip through the parser of theory \<open>Commit\<close>. The identities of author and committer and the encoding
  (unless it is UTF-8) are arguments, as is the type of the objects in the database, which the writer asks
  for the tree; a header is a key and the value it continues with. Signing the text, storing it, and the
  warning that is printed for a text that is not UTF-8 are not part of the model.
\<close>

subsection \<open>The writer\<close>

definition add_extra_header :: "strbuf \<Rightarrow> string \<times> string \<Rightarrow> strbuf read" where
  "add_extra_header buffer extra = and_then (strbuf_add buffer (fst extra)) (\<lambda>buffer.
     if snd extra \<noteq> [] then strbuf_add_lines buffer '' '' (snd extra) else strbuf_addch buffer CHR 0x0A)"

definition add_parent :: "strbuf \<Rightarrow> name \<Rightarrow> strbuf read" where
  "add_parent buffer p = strbuf_vaddf buffer (''parent '' @ sha1_to_hex p @ [CHR 0x0A])"

text \<open>\<open>sha1_object_info\<close> gives no type for a name that is no valid object; \<open>die\<close> is \<open>Bad\<close>.\<close>

definition assert_sha1_type :: "(name \<Rightarrow> object_type option) \<Rightarrow> name \<Rightarrow> object_type \<Rightarrow> unit read" where
  "assert_sha1_type sha1_object_info sha1 expect =
     (case sha1_object_info sha1 of None \<Rightarrow> Bad | Some type \<Rightarrow> if type \<noteq> expect then Bad else Got ())"

definition commit_tree_extended :: "(name \<Rightarrow> object_type option) \<Rightarrow> string \<Rightarrow> name \<Rightarrow> name list \<Rightarrow> string \<Rightarrow> string \<Rightarrow> string option
    \<Rightarrow> (string \<times> string) list \<Rightarrow> strbuf read" where
  "commit_tree_extended sha1_object_info msg tr ps author committer encoding extra =
     and_then (assert_sha1_type sha1_object_info tr OBJ_TREE) (\<lambda>_.
      if CHR 0x00 \<in> set msg then Bad
      else and_then (strbuf_init 8192) (\<lambda>buffer.
        and_then (strbuf_vaddf buffer (''tree '' @ sha1_to_hex tr @ [CHR 0x0A])) (\<lambda>buffer.
        and_then (each add_parent ps buffer) (\<lambda>buffer.
        and_then (strbuf_vaddf buffer (''author '' @ author @ [CHR 0x0A])) (\<lambda>buffer.
        and_then (strbuf_vaddf buffer (''committer '' @ committer @ [CHR 0x0A])) (\<lambda>buffer.
        and_then (case encoding of None \<Rightarrow> Got buffer | Some e \<Rightarrow> strbuf_vaddf buffer (''encoding '' @ e @ [CHR 0x0A])) (\<lambda>buffer.
        and_then (each add_extra_header extra buffer) (\<lambda>buffer.
        and_then (strbuf_addch buffer CHR 0x0A) (\<lambda>buffer.
          strbuf_add buffer msg)))))))))"

subsection \<open>Headers\<close>

text \<open>Lines with a prefix in front of each, and the newline at the end they may lack.\<close>

function indent :: "string \<Rightarrow> string \<Rightarrow> string" where
  "indent prefix buf = (if buf = [] then []
     else let k = (case memchr buf 0 CHR 0x0A (length buf) of Some nl \<Rightarrow> nl + 1 | None \<Rightarrow> length buf) in
       prefix @ take k buf @ indent prefix (drop k buf))"
  by pat_completeness auto
termination by (relation "measure (\<lambda>(_, buf). length buf)") (auto split: option.splits)

declare indent.simps [simp del]

definition completed :: "string \<Rightarrow> string" where
  "completed s = (if s \<noteq> [] \<and> last s \<noteq> CHR 0x0A then s @ [CHR 0x0A] else s)"

lemma completed_append: "t \<noteq> [] \<Longrightarrow> completed (s @ t) = s @ completed t"
  by (simp add: completed_def)

lemma strbuf_complete_line_ok:
  assumes ok: "sb_ok sb" and fits: "length (sb_str sb) + 2 < 2 ^ 64"
  shows "\<exists>sb'. strbuf_complete_line sb = Got sb' \<and> sb_ok sb' \<and> sb_str sb' = completed (sb_str sb)"
proof -
  have l: "length (sb_str sb) = unat (sb_len sb)" by (rule length_sb_str [OF ok])
  have "sb_buf sb ! (unat (sb_len sb) - 1) = last (sb_str sb)" if "sb_len sb \<noteq> 0"
  proof -
    have "0 < unat (sb_len sb)" using that by (simp add: unat_gt_0)
    then have "sb_str sb ! (unat (sb_len sb) - 1) = sb_buf sb ! (unat (sb_len sb) - 1)" "sb_str sb \<noteq> []"
      using l by (auto simp: sb_str_def)
    then show ?thesis using l by (simp add: last_conv_nth)
  qed
  moreover have "sb_str sb = [] \<longleftrightarrow> sb_len sb = 0" using l by (metis length_0_conv unat_eq_zero)
  ultimately show ?thesis using ok strbuf_addch_ok [OF ok fits, of "CHR 0x0A"]
    by (auto simp: strbuf_complete_line_def completed_def)
qed

lemma add_lines_loop_ok:
  "sb_ok sb \<Longrightarrow> length (sb_str sb) + length (indent prefix buf) + 2 < 2 ^ 64
    \<Longrightarrow> \<exists>sb'. add_lines_loop sb prefix buf = Got sb' \<and> sb_ok sb' \<and> sb_str sb' = sb_str sb @ indent prefix buf"
proof (induction prefix buf arbitrary: sb rule: indent.induct)
  case (1 prefix buf)
  show ?case
  proof (cases "buf = []")
    case True
    then show ?thesis using "1.prems" by (simp add: add_lines_loop.simps [of sb] indent.simps [of prefix "[]"])
  next
    case False
    let ?k = "case memchr buf 0 CHR 0x0A (length buf) of Some nl \<Rightarrow> nl + 1 | None \<Rightarrow> length buf"
    have e: "indent prefix buf = prefix @ take ?k buf @ indent prefix (drop ?k buf)"
      using False by (simp add: indent.simps [of prefix buf] Let_def)
    have "length (sb_str sb) + length prefix + 1 < 2 ^ 64" using "1.prems"(2) unfolding e by simp
    from strbuf_add_ok [OF "1.prems"(1) this] obtain s1 where s1: "strbuf_add sb prefix = Got s1" "sb_ok s1"
      "sb_str s1 = sb_str sb @ prefix" by blast
    have "length (sb_str s1) + length (take ?k buf) + 1 < 2 ^ 64" using "1.prems"(2) unfolding e s1(3) length_append by linarith
    from strbuf_add_ok [OF s1(2) this] obtain s2 where s2: "strbuf_add s1 (take ?k buf) = Got s2" "sb_ok s2"
      "sb_str s2 = sb_str s1 @ take ?k buf" by blast
    have "length (sb_str s2) + length (indent prefix (drop ?k buf)) + 2 < 2 ^ 64"
      using "1.prems"(2) unfolding e s1(3) s2(3) length_append by linarith
    from "1.IH" [OF False refl s2(2) this] obtain s3 where s3: "add_lines_loop s2 prefix (drop ?k buf) = Got s3" "sb_ok s3"
      "sb_str s3 = sb_str s2 @ indent prefix (drop ?k buf)" by blast
    have "add_lines_loop sb prefix buf = Got s3"
      using False s1(1) s2(1) s3(1) by (simp add: add_lines_loop.simps [of sb] Let_def)
    then show ?thesis using s3 s2(3) s1(3) e by simp
  qed
qed

definition header_piece :: "string \<times> string \<Rightarrow> string" where
  "header_piece h = fst h @ (if snd h = [] then [CHR 0x0A] else completed (indent '' '' (snd h)))"

lemma indent_nonempty: "buf \<noteq> [] \<Longrightarrow> prefix \<noteq> [] \<Longrightarrow> indent prefix buf \<noteq> []"
  by (simp add: indent.simps [of prefix buf] Let_def)

lemma length_completed: "length s \<le> length (completed s)"
  by (simp add: completed_def)

lemma add_extra_header_ok:
  assumes ok: "sb_ok sb" and fits: "length (sb_str sb) + length (header_piece h) + 2 < 2 ^ 64"
  shows "\<exists>sb'. add_extra_header sb h = Got sb' \<and> sb_ok sb' \<and> sb_str sb' = sb_str sb @ header_piece h"
proof -
  have "length (sb_str sb) + length (fst h) + 1 < 2 ^ 64" using fits by (simp add: header_piece_def)
  from strbuf_add_ok [OF ok this] obtain s1 where s1: "strbuf_add sb (fst h) = Got s1" "sb_ok s1" "sb_str s1 = sb_str sb @ fst h" by blast
  show ?thesis
  proof (cases "snd h = []")
    case True
    then have "length (sb_str s1) + 2 < 2 ^ 64" using fits s1(3) by (simp add: header_piece_def)
    from strbuf_addch_ok [OF s1(2) this, of "CHR 0x0A"] show ?thesis
      using s1 True by (auto simp: add_extra_header_def header_piece_def)
  next
    case False
    then have hp: "header_piece h = fst h @ completed (indent '' '' (snd h))" by (simp add: header_piece_def)
    have "length (sb_str s1) + length (indent '' '' (snd h)) + 2 < 2 ^ 64"
      using fits length_completed [of "indent '' '' (snd h)"] unfolding hp s1(3) length_append by linarith
    from add_lines_loop_ok [OF s1(2) this] obtain s2 where s2: "add_lines_loop s1 '' '' (snd h) = Got s2" "sb_ok s2"
      "sb_str s2 = sb_str s1 @ indent '' '' (snd h)" by blast
    have "length (sb_str s2) + 2 < 2 ^ 64"
      using fits length_completed [of "indent '' '' (snd h)"] unfolding hp s1(3) s2(3) length_append by linarith
    from strbuf_complete_line_ok [OF s2(2) this] obtain s3 where s3: "strbuf_complete_line s2 = Got s3" "sb_ok s3"
      "sb_str s3 = completed (sb_str s2)" by blast
    have ne: "indent '' '' (snd h) \<noteq> []" using indent_nonempty [OF False] by simp
    have "sb_str s3 = sb_str sb @ header_piece h"
      unfolding s3(3) s2(3) s1(3) hp using completed_append [OF ne, of "sb_str sb @ fst h"] by simp
    then show ?thesis using s1(1) s2(1) s3(1,2) False by (simp add: add_extra_header_def strbuf_add_lines_def)
  qed
qed

subsection \<open>The text of a commit\<close>

definition line_for :: "string \<Rightarrow> string \<Rightarrow> string" where
  "line_for key txt = key @ txt @ [CHR 0x0A]"

definition commit_text :: "string \<Rightarrow> name \<Rightarrow> name list \<Rightarrow> string \<Rightarrow> string \<Rightarrow> string option
    \<Rightarrow> (string \<times> string) list \<Rightarrow> string" where
  "commit_text msg tr ps author committer encoding extra =
     line_for ''tree '' (sha1_to_hex tr) @ concat (map (\<lambda>p. line_for ''parent '' (sha1_to_hex p)) ps)
     @ line_for ''author '' author @ line_for ''committer '' committer
     @ (case encoding of None \<Rightarrow> [] | Some e \<Rightarrow> line_for ''encoding '' e)
     @ concat (map header_piece extra) @ [CHR 0x0A] @ msg"

text \<open>Buffers with room for sixty-four more bytes, so that formatted output may grow them at will.\<close>

definition roomy :: "nat \<Rightarrow> strbuf \<Rightarrow> bool" where
  "roomy n sb = (sb_ok sb \<and> length (sb_str sb) + n + 65 < 2 ^ 64)"

lemma vaddf_roomy:
  "roomy (length txt + n) sb \<Longrightarrow> \<exists>sb'. strbuf_vaddf sb txt = Got sb' \<and> roomy n sb' \<and> sb_str sb' = sb_str sb @ txt"
  using strbuf_vaddf_ok [of sb "txt"] by (fastforce simp: roomy_def)

lemma each_roomy:
  assumes step: "\<And>sb x n. roomy (length (piece x) + n) sb \<Longrightarrow> \<exists>sb'. f sb x = Got sb' \<and> roomy n sb' \<and> sb_str sb' = sb_str sb @ piece x"
  shows "roomy (length (concat (map piece xs)) + n) sb
    \<Longrightarrow> \<exists>sb'. each f xs sb = Got sb' \<and> roomy n sb' \<and> sb_str sb' = sb_str sb @ concat (map piece xs)"
proof (induction xs arbitrary: sb)
  case (Cons x xs)
  have "roomy (length (piece x) + (length (concat (map piece xs)) + n)) sb" using Cons.prems by (simp add: add.assoc)
  from step [OF this] obtain s1 where s1: "f sb x = Got s1" "roomy (length (concat (map piece xs)) + n) s1"
    "sb_str s1 = sb_str sb @ piece x" by blast
  from Cons.IH [OF s1(2)] s1(1,3) show ?case by auto
qed simp

lemma commit_tree_extended_ok:
  assumes typed: "info tr = Some OBJ_TREE" and msg: "CHR 0x00 \<notin> set msg" and fits: "length (commit_text msg tr ps author committer encoding extra) + 8257 < 2 ^ 64"
  shows "\<exists>sb. commit_tree_extended info msg tr ps author committer encoding extra = Got sb \<and> sb_ok sb
    \<and> sb_str sb = commit_text msg tr ps author committer encoding extra"
proof -
  let ?enc = "case encoding of None \<Rightarrow> [] | Some e \<Rightarrow> line_for ''encoding '' e"
  let ?hs = "concat (map header_piece extra)" and ?pp = "\<lambda>p. line_for ''parent '' (sha1_to_hex p)"
  obtain s0 where s0: "strbuf_init 8192 = Got s0" "sb_ok s0" "sb_str s0 = []" using strbuf_init_ok [of 8192] by auto
  let ?n7 = "length msg + 1" let ?n6 = "length ?hs + ?n7" let ?n5 = "length ?enc + ?n6"
  let ?n4 = "length (line_for ''committer '' committer) + ?n5" let ?n3 = "length (line_for ''author '' author) + ?n4"
  let ?n2 = "length (concat (map ?pp ps)) + ?n3"
  have "roomy (length (line_for ''tree '' (sha1_to_hex tr)) + ?n2) s0"
    using fits s0 by (simp add: roomy_def commit_text_def)
  from vaddf_roomy [OF this] obtain s1 where s1: "strbuf_vaddf s0 (line_for ''tree '' (sha1_to_hex tr)) = Got s1" "roomy ?n2 s1"
    "sb_str s1 = line_for ''tree '' (sha1_to_hex tr)" using s0(3) by auto
  have "\<exists>sb'. add_parent sb p = Got sb' \<and> roomy n sb' \<and> sb_str sb' = sb_str sb @ ?pp p" if "roomy (length (?pp p) + n) sb" for sb p n
    using vaddf_roomy [OF that] by (simp add: add_parent_def line_for_def)
  from each_roomy [OF this s1(2)] obtain s2 where s2: "each add_parent ps s1 = Got s2" "roomy ?n3 s2"
    "sb_str s2 = sb_str s1 @ concat (map ?pp ps)" by blast
  from vaddf_roomy [OF s2(2)] obtain s3 where s3: "strbuf_vaddf s2 (line_for ''author '' author) = Got s3" "roomy ?n4 s3"
    "sb_str s3 = sb_str s2 @ line_for ''author '' author" by blast
  from vaddf_roomy [OF s3(2)] obtain s4 where s4: "strbuf_vaddf s3 (line_for ''committer '' committer) = Got s4" "roomy ?n5 s4"
    "sb_str s4 = sb_str s3 @ line_for ''committer '' committer" by blast
  obtain s5 where s5: "(case encoding of None \<Rightarrow> Got s4 | Some e \<Rightarrow> strbuf_vaddf s4 (line_for ''encoding '' e)) = Got s5"
    "roomy ?n6 s5" "sb_str s5 = sb_str s4 @ ?enc"
  proof (cases encoding)
    case None
    then show ?thesis using that [of s4] s4(2) by simp
  next
    case (Some e)
    then show ?thesis using that vaddf_roomy [of "line_for ''encoding '' e" ?n6 s4] s4(2) by auto
  qed
  have "\<exists>sb'. add_extra_header sb h = Got sb' \<and> roomy n sb' \<and> sb_str sb' = sb_str sb @ header_piece h"
    if "roomy (length (header_piece h) + n) sb" for sb h n
    using that add_extra_header_ok [of sb h] by (fastforce simp: roomy_def)
  from each_roomy [OF this s5(2)] obtain s6 where s6: "each add_extra_header extra s5 = Got s6" "roomy ?n7 s6"
    "sb_str s6 = sb_str s5 @ ?hs" by blast
  have "sb_ok s6" "length (sb_str s6) + 2 < 2 ^ 64" using s6(2) by (simp_all add: roomy_def)
  from strbuf_addch_ok [OF this, of "CHR 0x0A"] obtain s7 where s7: "strbuf_addch s6 CHR 0x0A = Got s7" "sb_ok s7"
    "sb_str s7 = sb_str s6 @ [CHR 0x0A]" by blast
  have "length (sb_str s7) + length msg + 1 < 2 ^ 64" using s6(2) s7(3) by (simp add: roomy_def)
  from strbuf_add_ok [OF s7(2) this] obtain s8 where s8: "strbuf_add s7 msg = Got s8" "sb_ok s8" "sb_str s8 = sb_str s7 @ msg" by blast
  have "commit_tree_extended info msg tr ps author committer encoding extra = Got s8"
    unfolding commit_tree_extended_def assert_sha1_type_def typed option.case simp_thms if_False and_then_simps if_not_P [OF msg] s0(1) and_then_simps line_for_def [symmetric] s1(1) s2(1) s3(1) s4(1) s5(1)
      s6(1) s7(1) s8(1) ..
  moreover have "sb_str s8 = commit_text msg tr ps author committer encoding extra"
    unfolding s8(3) s7(3) s6(3) s5(3) s4(3) s3(3) s2(3) s1(3) commit_text_def by simp
  ultimately show ?thesis using s8(2) by blast
qed

subsection \<open>Reading the text back\<close>

lemma to_lower_sha1_to_hex: "map to_lower (sha1_to_hex bs) = sha1_to_hex bs"
proof (induction bs)
  case (Cons b bs)
  have low: "to_lower (hex_digits ! d) = hex_digits ! d" if "d < 16" for d
    using to_lower_hexdig [OF hexdig_hex_digits [OF that]] .
  have "unat b div 16 < 16" using byte_bound [of b] by auto
  then show ?case using Cons low [of "unat b div 16"] low [of "unat b mod 16"] by (simp add: sha1_to_hex_simps)
qed (simp add: sha1_to_hex_simps)

lemma get_sha1_hex_printed: "length p = 20 \<Longrightarrow> get_sha1_hex (sha1_to_hex p @ rest) = Some p"
  unfolding get_sha1_hex_def get_sha1_hex_loop_iff using to_lower_sha1_to_hex by blast

lemma skip_past_append: "ch \<notin> set xs \<Longrightarrow> skip_past ch (xs @ ch # ys) = ys"
  by (induction xs) auto

text \<open>What parsing the text leaves of the objects: nothing of another type is in the way.\<close>

definition free_for :: "object_type \<Rightarrow> store \<Rightarrow> name \<Rightarrow> bool" where
  "free_for ty st x = (case st x of None \<Rightarrow> True | Some obj \<Rightarrow> otype obj = ty)"

lemma lookup_free:
  assumes "free_for ty st x" "ty \<noteq> OBJ_NONE"
  shows "lookup_typed ty x st = (st(x \<mapsto> (case st x of None \<Rightarrow> new_object ty | Some obj \<Rightarrow> obj)), True)"
  using assms by (auto simp: free_for_def lookup_typed_def commit_at_def map_upd_triv split: option.splits)

lemma parse_parents_text:
  "rest \<noteq> [] \<Longrightarrow> take 7 rest \<noteq> ''parent '' \<Longrightarrow> list_all (\<lambda>p. length p = 20) qs \<Longrightarrow> st c = Some obj \<Longrightarrow> otype obj = OBJ_COMMIT
    \<Longrightarrow> i = length (parents obj) \<Longrightarrow> list_all (free_for OBJ_COMMIT st) qs
    \<Longrightarrow> \<exists>st'. parse_parents False c i (concat (map (\<lambda>p. line_for ''parent '' (sha1_to_hex p)) qs) @ rest) st
        = (st', Some (i + length qs, rest)) \<and> st' c = Some (obj\<lparr>parents := parents obj @ qs\<rparr>)"
proof (induction qs arbitrary: st obj i)
  case Nil
  then show ?case by (simp add: parse_parents.simps [of _ _ _ rest])
next
  case (Cons p qs)
  let ?more = "concat (map (\<lambda>p. line_for ''parent '' (sha1_to_hex p)) qs) @ rest"
  let ?buf = "''parent '' @ sha1_to_hex p @ [CHR 0x0A] @ ?more"
  have p: "length p = 20" using Cons.prems by simp
  have len: "length (sha1_to_hex p) = 40" using p by (simp add: length_sha1_to_hex)
  have c1: "48 < length ?buf \<and> take 7 ?buf = ''parent ''" using len Cons.prems(1) by simp
  have c2: "get_sha1_hex (drop 7 ?buf) = Some p" using get_sha1_hex_printed [OF p] by simp
  have c3: "?buf ! 47 = CHR 0x0A" using len by (simp add: nth_append)
  have c4: "drop 48 ?buf = ?more" using len by simp
  let ?st = "st(p \<mapsto> (case st p of None \<Rightarrow> new_object OBJ_COMMIT | Some obj \<Rightarrow> obj))"
  have lk: "lookup_commit p st = (?st, True)"
    using Cons.prems(7) unfolding lookup_commit_def by (intro lookup_free) simp_all
  have stc: "?st c = Some obj" using Cons.prems(4) by (cases "c = p") auto
  let ?obj = "obj\<lparr>parents := parents obj @ [p]\<rparr>"
  have ins: "insert_parent c i p ?st = ?st(c \<mapsto> ?obj)"
    using stc Cons.prems(6) by (simp add: insert_parent_def update_at_def commit_at_def)
  have q1: "list_all (\<lambda>p. length p = 20) qs" "(?st(c \<mapsto> ?obj)) c = Some ?obj" "otype ?obj = OBJ_COMMIT" "i + 1 = length (parents ?obj)"
    using Cons.prems by simp_all
  have "list_all (free_for OBJ_COMMIT (?st(c \<mapsto> ?obj))) qs"
    using Cons.prems(5,7) by (auto simp: list_all_iff free_for_def split: option.splits)
  then obtain st' where st': "parse_parents False c (i + 1) ?more (?st(c \<mapsto> ?obj)) = (st', Some (i + 1 + length qs, rest))"
    "st' c = Some (?obj\<lparr>parents := parents ?obj @ qs\<rparr>)"
    using Cons.IH [of "?st(c \<mapsto> ?obj)" ?obj "i + 1", OF Cons.prems(1,2) q1] by blast
  have "parse_parents False c i ?buf st = (st', Some (i + 1 + length qs, rest))"
    unfolding parse_parents_step [OF c1 c2 c3] c4 using lk ins st'(1) by simp
  then show ?case using st'(2) by (simp add: line_for_def)
qed

lemma strtoul_decimal:
  assumes "ds \<noteq> []" "list_all libc_isdigit ds" "digits_value ds < 2 ^ 64"
  shows "strtoul (CHR '' '' # ds @ CHR '' '' # zone) = of_nat (digits_value ds)"
proof -
  obtain d ds' where d: "ds = d # ds'" "libc_isdigit d" using assms(1,2) by (cases ds) auto
  have sp: "libc_isspace CHR '' ''" "\<not> libc_isdigit CHR '' ''" by (simp_all add: libc_isspace_def libc_isdigit_def)
  have nsp: "\<not> libc_isspace d" using d(2) by (auto simp: libc_isspace_def libc_isdigit_def)
  have drop: "dropWhile libc_isspace (CHR '' '' # ds @ CHR '' '' # zone) = ds @ CHR '' '' # zone"
    using sp(1) nsp d(1) by simp
  have tk: "takeWhile libc_isdigit (ds @ CHR '' '' # zone) = ds"
    using assms(2) sp(2) by (induction ds) auto
  have "d \<noteq> CHR ''-''" "d \<noteq> CHR ''+''" using d(2) by (auto simp: libc_isdigit_def)
  then have hd: "cstr_hd (ds @ CHR '' '' # zone) \<noteq> CHR ''-''" "cstr_hd (ds @ CHR '' '' # zone) \<noteq> CHR ''+''" using d(1) by simp_all
  show ?thesis unfolding strtoul_def Let_def drop using hd tk assms(3) by simp
qed

lemma parse_commit_date_text:
  assumes "CHR 0x0A \<notin> set author" "CHR ''>'' \<notin> set who" "CHR 0x0A \<notin> set who" "CHR 0x0A \<notin> set zone"
    and ds: "ds \<noteq> []" "list_all libc_isdigit ds" "digits_value ds < 2 ^ 64" and rest: "rest \<noteq> []"
  shows "parse_commit_date (line_for ''author '' author @ line_for ''committer '' (who @ ''> '' @ ds @ '' '' @ zone) @ rest)
    = of_nat (digits_value ds)"
proof -
  let ?com = "''committer '' @ who @ ''> '' @ ds @ '' '' @ zone @ [CHR 0x0A] @ rest"
  let ?buf = "''author '' @ author @ [CHR 0x0A] @ ?com"
  have e: "line_for ''author '' author @ line_for ''committer '' (who @ ''> '' @ ds @ '' '' @ zone) @ rest = ?buf"
    by (simp add: line_for_def)
  have s1: "skip_past CHR 0x0A ?buf = ?com"
    using skip_past_append [of "CHR 0x0A" "''author '' @ author" ?com] assms(1) by simp
  have s2: "skip_past CHR ''>'' ?com = CHR '' '' # ds @ CHR '' '' # zone @ [CHR 0x0A] @ rest"
    using skip_past_append [of "CHR ''>''" "''committer '' @ who"] assms(2) by simp
  have "CHR 0x0A \<notin> set ds" using ds(2) by (auto simp: list_all_iff libc_isdigit_def)
  then have s3: "skip_past CHR 0x0A (CHR '' '' # ds @ CHR '' '' # zone @ [CHR 0x0A] @ rest) = rest"
    using skip_past_append [of "CHR 0x0A" "CHR '' '' # ds @ CHR '' '' # zone" rest] assms(4) by simp
  have "\<not> length ?buf \<le> 6" "take 6 ?buf = ''author''" "\<not> length ?com \<le> 9" "take 9 ?com = ''committer''" by simp_all
  then show ?thesis unfolding e parse_commit_date_def Let_def s1 s2 s3
    using rest strtoul_decimal [OF ds, of "zone @ [CHR 0x0A] @ rest"] by simp
qed

subsection \<open>Properties\<close>

text \<open>C6. A commit that \<open>commit_tree_extended\<close> writes is read back by \<open>parse_commit\<close> as
  it was: the tree, the parents in their order, and the date of the committer, whatever the encoding,
  the extra headers and the message are. The tree is a tree object of the database, without which the
  writer dies. The identities contain no newline, the name of the committer no
  \<open>>\<close>, and no object of another type has the name of the tree or of a parent.\<close>

theorem commit_tree_roundtrip:
  assumes "length tr = 20" "list_all (\<lambda>p. length p = 20) ps" "CHR 0x00 \<notin> set msg"
    and "CHR 0x0A \<notin> set author" "CHR ''>'' \<notin> set who" "CHR 0x0A \<notin> set who" "CHR 0x0A \<notin> set zone"
    and "ds \<noteq> []" "list_all libc_isdigit ds" "digits_value ds < 2 ^ 64"
    and "length (commit_text msg tr ps author (who @ ''> '' @ ds @ '' '' @ zone) encoding extra) + 8257 < 2 ^ 64"
    and "lookup_commit_graft (commit_graft env) c = None" "st c = Some (new_object OBJ_COMMIT)"
    and "free_for OBJ_TREE st tr" "list_all (free_for OBJ_COMMIT st) ps" "tr \<noteq> c" "tr \<notin> set ps"
    and "info tr = Some OBJ_TREE"
  shows "\<exists>sb st'. commit_tree_extended info msg tr ps author (who @ ''> '' @ ds @ '' '' @ zone) encoding extra = Got sb
    \<and> parse_commit (env\<lparr>read_sha1_file := (read_sha1_file env)(c \<mapsto> (OBJ_COMMIT, sb_str sb))\<rparr>) c st = (st', True)
    \<and> st' c = Some ((new_object OBJ_COMMIT)\<lparr>parsed := True, tree := Some tr, parents := ps, date := of_nat (digits_value ds)\<rparr>)"
proof -
  let ?com = "who @ ''> '' @ ds @ '' '' @ zone"
  let ?rest = "(case encoding of None \<Rightarrow> [] | Some e \<Rightarrow> line_for ''encoding '' e) @ concat (map header_piece extra) @ [CHR 0x0A] @ msg"
  let ?tail = "line_for ''author '' author @ line_for ''committer '' ?com @ ?rest"
  obtain sb where sb: "commit_tree_extended info msg tr ps author ?com encoding extra = Got sb"
    "sb_str sb = commit_text msg tr ps author ?com encoding extra" using commit_tree_extended_ok [of info, OF assms(18,3,11)] by blast
  let ?more = "concat (map (\<lambda>p. line_for ''parent '' (sha1_to_hex p)) ps) @ ?tail"
  have contents: "sb_str sb = ''tree '' @ sha1_to_hex tr @ [CHR 0x0A] @ ?more" by (simp add: sb(2) commit_text_def line_for_def)
  have len: "length (sha1_to_hex tr) = 40" using assms(1) by (simp add: length_sha1_to_hex)
  have shape: "\<not> (length (sb_str sb) \<le> 46 \<or> take 5 (sb_str sb) \<noteq> ''tree '' \<or> sb_str sb ! 45 \<noteq> CHR 0x0A)"
    "get_sha1_hex (drop 5 (sb_str sb)) = Some tr" "drop 46 (sb_str sb) = ?more"
    unfolding contents using len get_sha1_hex_printed [OF assms(1), of "[CHR 0x0A] @ ?more"] by (simp_all add: nth_append line_for_def)
  let ?o1 = "(new_object OBJ_COMMIT)\<lparr>parsed := True\<rparr>" let ?o2 = "?o1\<lparr>tree := Some tr\<rparr>"
  let ?st1 = "st(c \<mapsto> ?o1)"
  let ?st2 = "?st1(tr \<mapsto> (case st tr of None \<Rightarrow> new_object OBJ_TREE | Some obj \<Rightarrow> obj))"
  let ?st3 = "?st2(c \<mapsto> ?o2)"
  have u1: "update_at c (\<lambda>o1. o1\<lparr>parsed := True\<rparr>) st = ?st1" using assms(13) by (simp add: update_at_def commit_at_def)
  have "free_for OBJ_TREE ?st1 tr" using assms(14,16) by (simp add: free_for_def)
  then have lt: "lookup_tree tr ?st1 = (?st2, True)" unfolding lookup_tree_def using assms(16) by (subst lookup_free) simp_all
  have u2: "update_at c (\<lambda>o1. o1\<lparr>tree := (if True then Some tr else None)\<rparr>) ?st2 = ?st3"
    using assms(16) by (simp add: update_at_def commit_at_def)
  have free: "list_all (free_for OBJ_COMMIT ?st3) ps"
    using assms(15,17) by (auto simp: list_all_iff free_for_def)
  have "take 7 ?tail \<noteq> ''parent ''" "?tail \<noteq> []" by (simp_all add: line_for_def)
  then obtain st4 where st4: "parse_parents False c 0 ?more ?st3 = (st4, Some (length ps, ?tail))"
    "st4 c = Some (?o2\<lparr>parents := ps\<rparr>)"
    using parse_parents_text [of ?tail ps ?st3 c ?o2 0] assms(2) free by auto
  have date: "parse_commit_date ?tail = of_nat (digits_value ds)"
    using parse_commit_date_text [OF assms(4-10), of ?rest] by simp
  let ?st5 = "update_at c (\<lambda>o1. o1\<lparr>date := of_nat (digits_value ds)\<rparr>) st4"
  have np: "\<not> parsed (commit_at st c)" using assms(13) by (simp add: commit_at_def)
  have "parse_commit_buffer (env\<lparr>read_sha1_file := (read_sha1_file env)(c \<mapsto> (OBJ_COMMIT, sb_str sb))\<rparr>) c (sb_str sb) st = (?st5, True)"
    unfolding parse_commit_buffer_def Let_def if_not_P [OF np] if_not_P [OF shape(1)] shape(2,3) option.case u1 lt prod.case u2
    using assms(12) st4(1) date by simp
  then have "parse_commit (env\<lparr>read_sha1_file := (read_sha1_file env)(c \<mapsto> (OBJ_COMMIT, sb_str sb))\<rparr>) c st = (?st5, True)"
    using np by (simp add: parse_commit_def)
  moreover have "?st5 c = Some ((new_object OBJ_COMMIT)\<lparr>parsed := True, tree := Some tr, parents := ps, date := of_nat (digits_value ds)\<rparr>)"
    using st4(2) by (simp add: update_at_def commit_at_def)
  ultimately show ?thesis using sb(1) by blast
qed

text \<open>The commit 7 with the tree 9 and the parents 8 and 7, in a memory that holds only its name.\<close>

theorem commit_tree_roundtrip_witness:
  "\<exists>sb st'. commit_tree_extended (\<lambda>_. Some OBJ_TREE) ''Fix'' (replicate 20 9) [replicate 20 8, replicate 20 7] ''A <a>'' (''C <c'' @ ''> '' @ ''12'' @ '' '' @ ''+0100'')
      None [(''note'', ''x'')] = Got sb
    \<and> parse_commit (\<lparr>read_sha1_file = Map.empty, commit_graft = [], grafts_replace_parents = False\<rparr>\<lparr>read_sha1_file :=
        (read_sha1_file \<lparr>read_sha1_file = Map.empty, commit_graft = [], grafts_replace_parents = False\<rparr>)(replicate 20 7 \<mapsto> (OBJ_COMMIT, sb_str sb))\<rparr>)
        (replicate 20 7) [replicate 20 7 \<mapsto> new_object OBJ_COMMIT] = (st', True)
    \<and> st' (replicate 20 7) = Some ((new_object OBJ_COMMIT)\<lparr>parsed := True, tree := Some (replicate 20 9),
        parents := [replicate 20 8, replicate 20 7], date := of_nat (digits_value ''12'')\<rparr>)"
  by (rule commit_tree_roundtrip)
    (simp_all add: libc_isdigit_def digits_value_def commit_text_def line_for_def length_sha1_to_hex header_piece_def
      completed_def indent.simps memchr_def lookup_commit_graft_def commit_graft_pos_def free_for_def new_object_def)

end
