(* ===== verification/Merge_Base.thy ===== *)
theory Merge_Base
  imports Commit
begin

text \<open>
  Merge bases, from \<^verbatim>\<open>commit.c\<close>: the list of commits ordered by date, the walk that paints the
  two sides of a history and finds their common ancestors, the removal of the marks, the reduction to
  the best common ancestors, and the functions that ask for them.

  A \<open>struct commit_list\<close> is a list of names: its cells are not shared. The loops run as long as
  there is work, as in the code, so that a history with infinitely many ancestors makes them return
  \<open>None\<close>.
\<close>

subsection \<open>Lists of commits\<close>

fun commit_list_insert_by_date :: "store \<Rightarrow> name \<Rightarrow> name list \<Rightarrow> name list" where
  "commit_list_insert_by_date st item [] = [item]"
| "commit_list_insert_by_date st item (p # ps) =
     (if date (commit_at st p) < date (commit_at st item) then item # p # ps
      else p # commit_list_insert_by_date st item ps)"

definition add_flags :: "u32 \<Rightarrow> name \<Rightarrow> store \<Rightarrow> store" where
  "add_flags m c = update_at c (\<lambda>o1. o1\<lparr>flags := flags o1 OR m\<rparr>)"

definition clear_flags :: "u32 \<Rightarrow> name \<Rightarrow> store \<Rightarrow> store" where
  "clear_flags m c = update_at c (\<lambda>o1. o1\<lparr>flags := flags o1 AND NOT m\<rparr>)"

text \<open>\<open>pop_most_recent_commit\<close> takes the first commit of a list and puts its unmarked parents in.\<close>

fun push_parents :: "commit_env \<Rightarrow> u32 \<Rightarrow> name list \<Rightarrow> name list \<Rightarrow> store \<Rightarrow> store \<times> name list" where
  "push_parents env mark [] list st = (st, list)"
| "push_parents env mark (c # ps) list st =
     (case parse_commit env c st of (st, ok) \<Rightarrow>
        if ok \<and> flags (commit_at st c) AND mark = 0
        then let st = add_flags mark c st in push_parents env mark ps (commit_list_insert_by_date st c list) st
        else push_parents env mark ps list st)"

definition pop_most_recent_commit :: "commit_env \<Rightarrow> u32 \<Rightarrow> name list \<Rightarrow> store \<Rightarrow> (store \<times> name \<times> name list) option" where
  "pop_most_recent_commit env mark list st =
     (case list of [] \<Rightarrow> None
      | ret # list \<Rightarrow> (case push_parents env mark (parents (commit_at st ret)) list st of
          (st, list) \<Rightarrow> Some (st, ret, list)))"

subsection \<open>Marks\<close>

definition PARENT1 :: u32 where "PARENT1 = push_bit 16 1"
definition PARENT2 :: u32 where "PARENT2 = push_bit 17 1"
definition STALE :: u32 where "STALE = push_bit 18 1"
definition RESULT :: u32 where "RESULT = push_bit 19 1"

definition all_flags :: u32 where "all_flags = PARENT1 OR PARENT2 OR STALE OR RESULT"

text \<open>
  \<open>clear_commit_marks_1\<close> follows the first parents as long as they are marked and puts the other
  parents in front of the list.
\<close>

partial_function (option) clear_commit_marks_1 :: "u32 \<Rightarrow> name \<Rightarrow> name list \<Rightarrow> store \<Rightarrow> (store \<times> name list) option" where
  "clear_commit_marks_1 mark commit plist st =
     (if mark AND flags (commit_at st commit) = 0 then Some (st, plist)
      else let st = clear_flags mark commit st in
        case parents (commit_at st commit) of [] \<Rightarrow> Some (st, plist)
        | p # ps \<Rightarrow> clear_commit_marks_1 mark p (rev ps @ plist) st)"

partial_function (option) clear_marks_loop :: "u32 \<Rightarrow> name list \<Rightarrow> store \<Rightarrow> store option" where
  "clear_marks_loop mark list st =
     (case list of [] \<Rightarrow> Some st
      | commit # list \<Rightarrow> (case clear_commit_marks_1 mark commit list st of None \<Rightarrow> None
          | Some (st, list) \<Rightarrow> clear_marks_loop mark list st))"

definition clear_commit_marks :: "u32 \<Rightarrow> name \<Rightarrow> store \<Rightarrow> store option" where
  "clear_commit_marks mark commit st = clear_marks_loop mark [commit] st"

fun clear_marks_many :: "u32 \<Rightarrow> name list \<Rightarrow> store \<Rightarrow> store option" where
  "clear_marks_many mark [] st = Some st"
| "clear_marks_many mark (c # cs) st =
     (case clear_commit_marks mark c st of None \<Rightarrow> None | Some st \<Rightarrow> clear_marks_many mark cs st)"

subsection \<open>The walk\<close>

fun interesting :: "store \<Rightarrow> name list \<Rightarrow> name option" where
  "interesting st [] = None"
| "interesting st (commit # list) = (if flags (commit_at st commit) AND STALE \<noteq> 0 then interesting st list else Some commit)"

text \<open>Reading the commits to start from, and painting the second side.\<close>

fun parse_all :: "commit_env \<Rightarrow> name list \<Rightarrow> store \<Rightarrow> store \<times> bool" where
  "parse_all env [] st = (st, True)"
| "parse_all env (c # cs) st = (case parse_commit env c st of (st, ok) \<Rightarrow> if ok then parse_all env cs st else (st, False))"

fun paint_twos :: "name list \<Rightarrow> name list \<Rightarrow> store \<Rightarrow> store \<times> name list" where
  "paint_twos [] list st = (st, list)"
| "paint_twos (two # twos) list st =
     (let st = add_flags PARENT2 two st in paint_twos twos (commit_list_insert_by_date st two list) st)"

text \<open>Handing the flags of a commit down to its parents; \<open>None\<close> if one cannot be read.\<close>

fun paint_parents :: "commit_env \<Rightarrow> u32 \<Rightarrow> name list \<Rightarrow> name list \<Rightarrow> store \<Rightarrow> store \<times> name list option" where
  "paint_parents env fl [] list st = (st, Some list)"
| "paint_parents env fl (p # ps) list st =
     (if flags (commit_at st p) AND fl = fl then paint_parents env fl ps list st
      else case parse_commit env p st of (st, ok) \<Rightarrow>
        if \<not> ok then (st, None)
        else let st = add_flags fl p st in paint_parents env fl ps (commit_list_insert_by_date st p list) st)"

partial_function (option) merge_bases_loop ::
  "commit_env \<Rightarrow> name list \<Rightarrow> name list \<Rightarrow> store \<Rightarrow> (store \<times> name list option) option" where
  "merge_bases_loop env list result st =
     (case interesting st list of None \<Rightarrow> Some (st, Some result)
      | Some _ \<Rightarrow>
        (let commit = hd list; list = tl list;
             fl = flags (commit_at st commit) AND (PARENT1 OR PARENT2 OR STALE);
             found = (fl = PARENT1 OR PARENT2);
             fresh = (found \<and> flags (commit_at st commit) AND RESULT = 0);
             st = (if fresh then add_flags RESULT commit st else st);
             result = (if fresh then commit_list_insert_by_date st commit result else result);
             fl = (if found then fl OR STALE else fl) in
         case paint_parents env fl (parents (commit_at st commit)) list st of
           (st, None) \<Rightarrow> Some (st, None)
         | (st, Some list) \<Rightarrow> merge_bases_loop env list result st))"

text \<open>\<open>Some (st, bases)\<close>; a commit that cannot be read makes the list of bases empty.\<close>

definition drop_stale :: "store \<Rightarrow> name list \<Rightarrow> name list" where
  "drop_stale st list =
     foldl (\<lambda>result c. if flags (commit_at st c) AND STALE = 0 then commit_list_insert_by_date st c result else result) [] list"

definition merge_bases_many :: "commit_env \<Rightarrow> name \<Rightarrow> name list \<Rightarrow> store \<Rightarrow> (store \<times> name list) option" where
  "merge_bases_many env one twos st =
     (if one \<in> set twos then Some (st, [one])
      else case parse_commit env one st of (st, ok) \<Rightarrow>
        if \<not> ok then Some (st, [])
        else case parse_all env twos st of (st, ok) \<Rightarrow>
          if \<not> ok then Some (st, [])
          else let st = add_flags PARENT1 one st; list = commit_list_insert_by_date st one [] in
            case paint_twos twos list st of (st, list) \<Rightarrow>
              (case merge_bases_loop env list [] st of None \<Rightarrow> None
               | Some (st, None) \<Rightarrow> Some (st, [])
               | Some (st, Some result) \<Rightarrow> Some (st, drop_stale st result)))"

subsection \<open>The best common ancestors\<close>

text \<open>
  The commits found are kept in an array, whose entries become NULL when another base reaches them:
  the loops over \<open>i < j\<close> are the list of their pairs.
\<close>

definition pairs_below :: "nat \<Rightarrow> (nat \<times> nat) list" where
  "pairs_below cnt = concat (map (\<lambda>i. map (Pair i) [i + 1..<cnt]) [0..<cnt - 1])"

fun drop_reached :: "commit_env \<Rightarrow> (nat \<times> nat) list \<Rightarrow> name option list \<Rightarrow> store \<Rightarrow> (store \<times> name option list) option" where
  "drop_reached env [] rslt st = Some (st, rslt)"
| "drop_reached env ((i, j) # ijs) rslt st =
     (case (rslt ! i, rslt ! j) of
        (Some a, Some b) \<Rightarrow>
          (case merge_bases_many env a [b] st of None \<Rightarrow> None
           | Some (st, result) \<Rightarrow>
             (case clear_commit_marks all_flags a st of None \<Rightarrow> None
              | Some st \<Rightarrow> (case clear_commit_marks all_flags b st of None \<Rightarrow> None
                 | Some st \<Rightarrow>
                     let rslt = (if a \<in> set result then rslt[i := None] else rslt);
                         rslt = (if b \<in> set result then rslt[j := None] else rslt) in
                     drop_reached env ijs rslt st)))
      | _ \<Rightarrow> drop_reached env ijs rslt st)"

definition insert_survivors :: "store \<Rightarrow> name option list \<Rightarrow> name list" where
  "insert_survivors st rslt =
     foldl (\<lambda>result v. case v of None \<Rightarrow> result | Some c \<Rightarrow> commit_list_insert_by_date st c result) [] rslt"

definition get_merge_bases_many :: "commit_env \<Rightarrow> name \<Rightarrow> name list \<Rightarrow> bool \<Rightarrow> store \<Rightarrow> (store \<times> name list) option" where
  "get_merge_bases_many env one twos cleanup st =
     (case merge_bases_many env one twos st of None \<Rightarrow> None
      | Some (st, result) \<Rightarrow>
          if one \<in> set twos then Some (st, result)
          else if length result \<le> 1 then
            (if cleanup then (case clear_marks_many all_flags (one # twos) st of None \<Rightarrow> None | Some st \<Rightarrow> Some (st, result))
             else Some (st, result))
          else case clear_marks_many all_flags (one # twos) st of None \<Rightarrow> None
            | Some st \<Rightarrow>
                (case drop_reached env (pairs_below (length result)) (map Some result) st of None \<Rightarrow> None
                 | Some (st, rslt) \<Rightarrow> Some (st, insert_survivors st rslt)))"

definition get_merge_bases :: "commit_env \<Rightarrow> name \<Rightarrow> name \<Rightarrow> bool \<Rightarrow> store \<Rightarrow> (store \<times> name list) option" where
  "get_merge_bases env one two cleanup st = get_merge_bases_many env one [two] cleanup st"

text \<open>\<open>in_merge_bases\<close> for its one reference; \<open>hashcmp\<close> compares the names.\<close>

definition in_merge_bases :: "commit_env \<Rightarrow> name \<Rightarrow> name \<Rightarrow> store \<Rightarrow> (store \<times> bool) option" where
  "in_merge_bases env commit reference st =
     (case get_merge_bases env commit reference True st of None \<Rightarrow> None
      | Some (st, bases) \<Rightarrow> Some (st, \<exists>b \<in> set bases. hashcmp commit b = 0))"

fun is_descendant_loop :: "commit_env \<Rightarrow> name \<Rightarrow> name list \<Rightarrow> store \<Rightarrow> (store \<times> bool) option" where
  "is_descendant_loop env commit [] st = Some (st, False)"
| "is_descendant_loop env commit (other # with_commit) st =
     (case in_merge_bases env other commit st of None \<Rightarrow> None
      | Some (st, hit) \<Rightarrow> if hit then Some (st, True) else is_descendant_loop env commit with_commit st)"

definition is_descendant_of :: "commit_env \<Rightarrow> name \<Rightarrow> name list \<Rightarrow> store \<Rightarrow> (store \<times> bool) option" where
  "is_descendant_of env commit with_commit st =
     (if with_commit = [] then Some (st, True) else is_descendant_loop env commit with_commit st)"

fun reduce_heads_loop :: "commit_env \<Rightarrow> name list \<Rightarrow> name list \<Rightarrow> name list \<Rightarrow> store \<Rightarrow> (store \<times> name list) option" where
  "reduce_heads_loop env heads [] result st = Some (st, result)"
| "reduce_heads_loop env heads (p # ps) result st =
     (if p \<in> set result then reduce_heads_loop env heads ps result st
      else let other = filter (\<lambda>q. q \<noteq> p) heads in
        case (if other \<noteq> [] then get_merge_bases_many env p other True st else Some (st, [])) of None \<Rightarrow> None
        | Some (st, base) \<Rightarrow>
            reduce_heads_loop env heads ps (if base = [] \<or> hd base \<noteq> p then result @ [p] else result) st)"

definition reduce_heads :: "commit_env \<Rightarrow> name list \<Rightarrow> store \<Rightarrow> (store \<times> name list) option" where
  "reduce_heads env heads st = reduce_heads_loop env heads heads [] st"

text \<open>
  \<open>get_octopus_merge_bases\<close>: the bases of the commits before are replaced by their bases with
  the next commit. Once there are none, the next commits go behind a cell that is no longer in the list.
\<close>

fun octopus_step :: "commit_env \<Rightarrow> name \<Rightarrow> name list \<Rightarrow> store \<Rightarrow> (store \<times> name list) option" where
  "octopus_step env i [] st = Some (st, [])"
| "octopus_step env i (j # js) st =
     (case get_merge_bases env i j True st of None \<Rightarrow> None
      | Some (st, bases) \<Rightarrow> map_option (\<lambda>(st, rest). (st, bases @ rest)) (octopus_step env i js st))"

fun octopus_loop :: "commit_env \<Rightarrow> name list \<Rightarrow> name list \<Rightarrow> store \<Rightarrow> (store \<times> name list) option" where
  "octopus_loop env [] ret st = Some (st, ret)"
| "octopus_loop env (i # is) ret st =
     (case octopus_step env i ret st of None \<Rightarrow> None | Some (st, ret) \<Rightarrow> octopus_loop env is ret st)"

definition get_octopus_merge_bases :: "commit_env \<Rightarrow> name list \<Rightarrow> store \<Rightarrow> (store \<times> name list) option" where
  "get_octopus_merge_bases env inp st = (case inp of [] \<Rightarrow> Some (st, []) | i # is \<Rightarrow> octopus_loop env is [i] st)"

subsection \<open>Ancestors\<close>

text \<open>
  A history maps a commit to its parents. A common ancestor of \<open>one\<close> and the others is reached
  from \<open>one\<close> and from one of the others; a best one is not a proper ancestor of another.
\<close>

definition par :: "(name \<rightharpoonup> name list) \<Rightarrow> (name \<times> name) set" where
  "par g = {(c, p). \<exists>ps. g c = Some ps \<and> p \<in> set ps}"

definition common_ancestor :: "(name \<rightharpoonup> name list) \<Rightarrow> name \<Rightarrow> name set \<Rightarrow> name \<Rightarrow> bool" where
  "common_ancestor g one twos x = ((one, x) \<in> (par g)\<^sup>* \<and> (\<exists>t \<in> twos. (t, x) \<in> (par g)\<^sup>*))"

definition best_common :: "(name \<rightharpoonup> name list) \<Rightarrow> name \<Rightarrow> name set \<Rightarrow> name set" where
  "best_common g one twos = {x. common_ancestor g one twos x \<and> (\<forall>r. common_ancestor g one twos r \<longrightarrow> (r, x) \<notin> (par g)\<^sup>+)}"

text \<open>Reaching commits through marked commits only.\<close>

inductive_set marked_reach :: "(name \<rightharpoonup> name list) \<Rightarrow> name set \<Rightarrow> name set \<Rightarrow> name set"
  for g :: "name \<rightharpoonup> name list" and marked :: "name set" and starts :: "name set" where
  start: "x \<in> starts \<Longrightarrow> x \<in> marked \<Longrightarrow> x \<in> marked_reach g marked starts"
| parent: "x \<in> marked_reach g marked starts \<Longrightarrow> (x, p) \<in> par g \<Longrightarrow> p \<in> marked \<Longrightarrow> p \<in> marked_reach g marked starts"

lemma marked_reach_mono:
  assumes "M \<subseteq> M'" "S \<subseteq> S'"
  shows "marked_reach g M S \<subseteq> marked_reach g M' S'"
proof
  fix x
  assume "x \<in> marked_reach g M S"
  then show "x \<in> marked_reach g M' S'"
    using assms by induction (auto intro: marked_reach.intros)
qed

lemma marked_reach_none: "marked_reach g M {} = {}"
proof -
  have "x \<in> marked_reach g M {} \<Longrightarrow> False" for x by (induction rule: marked_reach.induct) auto
  then show ?thesis by blast
qed

subsection \<open>The colours of the walk\<close>

text \<open>
  What a commit with the flags \<open>h\<close> (a set of bits) hands to its parents, and the invariant of the
  walk over the flags \<open>H\<close>, the commits \<open>L\<close> still to be visited and the results \<open>Rs\<close>.
\<close>

definition pass :: "(nat \<Rightarrow> bool) \<Rightarrow> nat \<Rightarrow> bool" where
  "pass h n = ((n = 16 \<or> n = 17) \<and> h n \<or> n = 18 \<and> (h 18 \<or> h 16 \<and> h 17))"

definition painted :: "(name \<Rightarrow> nat \<Rightarrow> bool) \<Rightarrow> name set" where
  "painted H = {x. H x 16 \<or> H x 17 \<or> H x 18 \<or> H x 19}"

definition walk_sound :: "(name \<rightharpoonup> name list) \<Rightarrow> name \<Rightarrow> name set \<Rightarrow> (name \<Rightarrow> nat \<Rightarrow> bool) \<Rightarrow> name set \<Rightarrow> bool" where
  "walk_sound g one twos H Rs =
     ((\<forall>x. H x 16 \<longrightarrow> (one, x) \<in> (par g)\<^sup>*) \<and> (\<forall>x. H x 17 \<longrightarrow> (\<exists>t \<in> twos. (t, x) \<in> (par g)\<^sup>*))
      \<and> (\<forall>x. H x 18 \<longrightarrow> (\<exists>r. common_ancestor g one twos r \<and> (r, x) \<in> (par g)\<^sup>+))
      \<and> (\<forall>x. H x 19 \<longleftrightarrow> x \<in> Rs) \<and> (\<forall>x \<in> Rs. H x 16 \<and> H x 17)
      \<and> painted H \<subseteq> marked_reach g (painted H) (insert one twos))"

definition walk_complete :: "(name \<rightharpoonup> name list) \<Rightarrow> name \<Rightarrow> name set \<Rightarrow> (name \<Rightarrow> nat \<Rightarrow> bool) \<Rightarrow> name set \<Rightarrow> name set \<Rightarrow> bool" where
  "walk_complete g one twos H L Rs =
     (H one 16 \<and> (\<forall>t \<in> twos. H t 17)
      \<and> (\<forall>x. (H x 16 \<or> H x 17 \<or> H x 18) \<longrightarrow> x \<notin> L \<longrightarrow>
           (\<forall>p n. (x, p) \<in> par g \<longrightarrow> pass (H x) n \<longrightarrow> H p n) \<and> (H x 16 \<and> H x 17 \<and> \<not> H x 18 \<longrightarrow> x \<in> Rs)))"

text \<open>One visit: the commit \<open>c\<close> becomes a result if it is fresh, and its parents take its colours.\<close>

definition fresh_result :: "(nat \<Rightarrow> bool) \<Rightarrow> bool" where
  "fresh_result h = (h 16 \<and> h 17 \<and> \<not> h 18 \<and> \<not> h 19)"

definition visit :: "(name \<rightharpoonup> name list) \<Rightarrow> name \<Rightarrow> (name \<Rightarrow> nat \<Rightarrow> bool) \<Rightarrow> name \<Rightarrow> nat \<Rightarrow> bool" where
  "visit g c H x n = (H x n \<or> x = c \<and> n = 19 \<and> fresh_result (H c) \<or> (c, x) \<in> par g \<and> pass (H c) n)"

lemma pass_19 [simp]: "\<not> pass h 19"
  by (simp add: pass_def)

lemma visit_sound:
  assumes s: "walk_sound g one twos H Rs"
  shows "walk_sound g one twos (visit g c H) (if fresh_result (H c) then insert c Rs else Rs)"
proof -
  let ?H = "visit g c H"
  have one: "(one, x) \<in> (par g)\<^sup>*" if "H x 16" for x using s that by (simp add: walk_sound_def)
  have two: "\<exists>t \<in> twos. (t, x) \<in> (par g)\<^sup>*" if "H x 17" for x using s that by (simp add: walk_sound_def)
  have stale: "\<exists>r. common_ancestor g one twos r \<and> (r, x) \<in> (par g)\<^sup>+" if "H x 18" for x
    using s that by (simp add: walk_sound_def)
  have grow: "H x n \<or> (c, x) \<in> par g \<and> H c n" if "?H x n" "n = 16 \<or> n = 17" for x n
    using that by (auto simp: visit_def pass_def)
  have "(one, x) \<in> (par g)\<^sup>*" if "?H x 16" for x
    using grow [OF that] one [of x] one [of c] rtrancl.rtrancl_into_rtrancl by auto
  moreover have "\<exists>t \<in> twos. (t, x) \<in> (par g)\<^sup>*" if "?H x 17" for x
    using grow [OF that] two [of x] two [of c] by (meson rtrancl.rtrancl_into_rtrancl)
  moreover have "\<exists>r. common_ancestor g one twos r \<and> (r, x) \<in> (par g)\<^sup>+" if h: "?H x 18" for x
  proof -
    consider "H x 18" | "(c, x) \<in> par g" "H c 18" | "(c, x) \<in> par g" "H c 16" "H c 17"
      using h by (auto simp: visit_def pass_def)
    then show ?thesis
    proof cases
      case 2
      then show ?thesis using stale by (meson trancl.trancl_into_trancl)
    next
      case 3
      then have "common_ancestor g one twos c" using one two by (simp add: common_ancestor_def)
      then show ?thesis using 3 by blast
    qed (rule stale)
  qed
  moreover have "painted ?H \<subseteq> marked_reach g (painted ?H) (insert one twos)"
  proof
    fix x
    assume x: "x \<in> painted ?H"
    have sub: "painted H \<subseteq> painted ?H" by (auto simp: painted_def visit_def)
    have old: "y \<in> marked_reach g (painted ?H) (insert one twos)" if "y \<in> painted H" for y
      using s that marked_reach_mono [OF sub order_refl, of g "insert one twos"] by (auto simp: walk_sound_def)
    consider "x \<in> painted H" | "(c, x) \<in> par g" "c \<in> painted H" | "x = c" "fresh_result (H c)"
      using x by (auto simp: painted_def visit_def pass_def)
    then show "x \<in> marked_reach g (painted ?H) (insert one twos)"
    proof cases
      case 2
      then show ?thesis using old x by (blast intro: marked_reach.parent)
    next
      case 3
      then show ?thesis using old by (auto simp: fresh_result_def painted_def)
    qed (rule old)
  qed
  moreover have "?H x 19 \<longleftrightarrow> x \<in> (if fresh_result (H c) then insert c Rs else Rs)" for x
    using s by (auto simp: walk_sound_def visit_def)
  moreover have "?H x 16 \<and> ?H x 17" if "x \<in> (if fresh_result (H c) then insert c Rs else Rs)" for x
    using s that by (auto simp: walk_sound_def visit_def fresh_result_def split: if_splits)
  ultimately show ?thesis unfolding walk_sound_def by blast
qed

lemma visit_complete:
  assumes s: "walk_complete g one twos H (insert c L0) Rs" and r: "\<forall>x. H x 19 \<longleftrightarrow> x \<in> Rs"
    and L: "\<And>p n. (c, p) \<in> par g \<Longrightarrow> pass (H c) n \<Longrightarrow> \<not> H p n \<Longrightarrow> p \<in> L" and L0: "L0 \<subseteq> L"
  shows "walk_complete g one twos (visit g c H) L (if fresh_result (H c) then insert c Rs else Rs)"
proof -
  let ?H = "visit g c H"
  have same: "?H x n = H x n" if "x \<notin> L" "n \<noteq> 19" for x n
    using L that by (auto simp: visit_def)
  have up: "H x n \<Longrightarrow> ?H x n" for x n by (simp add: visit_def)
  have "(\<forall>p n. (x, p) \<in> par g \<longrightarrow> pass (?H x) n \<longrightarrow> ?H p n)
      \<and> (?H x 16 \<and> ?H x 17 \<and> \<not> ?H x 18 \<longrightarrow> x \<in> (if fresh_result (H c) then insert c Rs else Rs))"
    if h: "?H x 16 \<or> ?H x 17 \<or> ?H x 18" and x: "x \<notin> L" for x
  proof -
    have eq: "?H x 16 = H x 16" "?H x 17 = H x 17" "?H x 18 = H x 18" using same [OF x] by simp_all
    then have pass: "pass (?H x) = pass (H x)" by (intro ext) (auto simp: pass_def)
    show ?thesis
    proof (cases "x = c")
      case True
      then show ?thesis using r eq pass by (auto simp: visit_def fresh_result_def)
    next
      case False
      with x L0 have "x \<notin> insert c L0" by blast
      with s h eq have "(\<forall>p n. (x, p) \<in> par g \<longrightarrow> pass (H x) n \<longrightarrow> H p n) \<and> (H x 16 \<and> H x 17 \<and> \<not> H x 18 \<longrightarrow> x \<in> Rs)"
        unfolding walk_complete_def by blast
      then show ?thesis using up eq pass by auto
    qed
  qed
  then show ?thesis using s up unfolding walk_complete_def by blast
qed

text \<open>
  When everything left to visit is stale, the results that are not stale are common ancestors and
  contain the best ones, whatever the dates say: a commit above a best common ancestor is never stale.
\<close>

lemma walk_finds_best:
  assumes s: "walk_sound g one twos H Rs" and c: "walk_complete g one twos H L Rs"
    and stale: "\<forall>x \<in> L. H x 18" and b: "b \<in> best_common g one twos"
  shows "b \<in> Rs" "\<not> H b 18"
proof -
  have best: "common_ancestor g one twos b" "\<And>r. common_ancestor g one twos r \<Longrightarrow> (r, b) \<notin> (par g)\<^sup>+"
    using b by (auto simp: best_common_def)
  have clean: "\<not> H x 18" if "(x, b) \<in> (par g)\<^sup>*" for x
  proof
    assume "H x 18"
    then obtain r where "common_ancestor g one twos r" "(r, x) \<in> (par g)\<^sup>+" using s by (auto simp: walk_sound_def)
    then show False using best(2) that by (meson trancl_rtrancl_trancl)
  qed
  have down: "H b k" if "(x, b) \<in> (par g)\<^sup>*" "H x k" "k = 16 \<or> k = 17" for x k
    using that(1,2)
  proof (induction rule: converse_rtrancl_induct)
    case (step x y)
    have "\<not> H x 18" using clean step.hyps by (meson converse_rtrancl_into_rtrancl)
    then have "x \<notin> L" using stale by blast
    moreover have "pass (H x) k" using step.prems that(3) by (auto simp: pass_def)
    moreover have "H x 16 \<or> H x 17 \<or> H x 18" using step.prems that(3) by auto
    ultimately have "H y k" using c step.hyps(1) unfolding walk_complete_def by blast
    then show ?case by (rule step.IH)
  qed
  obtain t where t: "t \<in> twos" "(t, b) \<in> (par g)\<^sup>*" "(one, b) \<in> (par g)\<^sup>*"
    using best(1) by (auto simp: common_ancestor_def)
  have "H one 16" "H t 17" using c t(1) unfolding walk_complete_def by blast+
  then have "H b 16" "H b 17" using down t by blast+
  moreover show nb: "\<not> H b 18" using clean by blast
  moreover have "b \<notin> L" using nb stale by blast
  ultimately show "b \<in> Rs" using c unfolding walk_complete_def by blast
qed

subsection \<open>Flags as bits\<close>

lemma bit_flag: "k < 32 \<Longrightarrow> bit (push_bit k (1 :: u32)) n \<longleftrightarrow> n = k"
  by (auto simp: bit_simps)

lemma and_flag: "k < 32 \<Longrightarrow> (x :: u32) AND push_bit k 1 = 0 \<longleftrightarrow> \<not> bit x k"
proof -
  assume k: "k < 32"
  show ?thesis
proof
  assume z: "x AND push_bit k 1 = 0"
  show "\<not> bit x k" using bit_and_iff [of x "push_bit k 1" k] unfolding z by (simp only: bit_flag [OF k] bit_0_eq bot_apply bot_bool_def) blast
next
  assume "\<not> bit x k"
  then show "x AND push_bit k 1 = 0"
    by (intro bit_word_eqI) (simp only: bit_and_iff bit_flag [OF k] bit_0_eq bot_apply bot_bool_def, blast)
qed
qed

lemma flag_bits [simp]:
  "bit PARENT1 n \<longleftrightarrow> n = 16" "bit PARENT2 n \<longleftrightarrow> n = 17" "bit STALE n \<longleftrightarrow> n = 18" "bit RESULT n \<longleftrightarrow> n = 19"
  unfolding PARENT1_def PARENT2_def STALE_def RESULT_def by (rule bit_flag; simp)+

lemma and_flag_eq_0: "(x :: u32) AND STALE = 0 \<longleftrightarrow> \<not> bit x 18" "x AND RESULT = 0 \<longleftrightarrow> \<not> bit x 19"
  unfolding STALE_def RESULT_def by (rule and_flag; simp)+

lemma bit_all_flags: "bit all_flags n \<longleftrightarrow> n = 16 \<or> n = 17 \<or> n = 18 \<or> n = 19"
  unfolding all_flags_def bit_or_iff flag_bits by blast

lemma and_eq_iff_bits: "(x :: u32) AND f = f \<longleftrightarrow> (\<forall>n. bit f n \<longrightarrow> bit x n)"
proof
  assume e: "x AND f = f"
  have "bit x n" if "bit f n" for n
    using that bit_and_iff [of x f n] unfolding e by blast
  then show "\<forall>n. bit f n \<longrightarrow> bit x n" by blast
next
  assume "\<forall>n. bit f n \<longrightarrow> bit x n"
  then show "x AND f = f" by (intro bit_word_eqI) (auto simp: bit_and_iff)
qed

definition passed_flags :: "u32 \<Rightarrow> u32" where
  "passed_flags x = (let fl = x AND (PARENT1 OR PARENT2 OR STALE) in if fl = PARENT1 OR PARENT2 then fl OR STALE else fl)"

lemma both_sides_iff: "(x :: u32) AND (PARENT1 OR PARENT2 OR STALE) = PARENT1 OR PARENT2 \<longleftrightarrow> bit x 16 \<and> bit x 17 \<and> \<not> bit x 18"
proof -
  have b: "bit (x AND (PARENT1 OR PARENT2 OR STALE)) n \<longleftrightarrow> bit x n \<and> (n = 16 \<or> n = 17 \<or> n = 18)" for n
    unfolding bit_and_iff bit_or_iff flag_bits by blast
  have b2: "bit (PARENT1 OR PARENT2) n \<longleftrightarrow> n = 16 \<or> n = 17" for n unfolding bit_or_iff flag_bits by blast
  show ?thesis
  proof
    assume e: "x AND (PARENT1 OR PARENT2 OR STALE) = PARENT1 OR PARENT2"
    show "bit x 16 \<and> bit x 17 \<and> \<not> bit x 18"
      using b [of 16] b2 [of 16] b [of 17] b2 [of 17] b [of 18] b2 [of 18] unfolding e by simp
  next
    assume "bit x 16 \<and> bit x 17 \<and> \<not> bit x 18"
    then show "x AND (PARENT1 OR PARENT2 OR STALE) = PARENT1 OR PARENT2"
      by (intro bit_word_eqI) (simp only: b b2, blast)
  qed
qed

lemma bit_passed_flags: "bit (passed_flags x) n \<longleftrightarrow> pass (bit x) n"
proof (cases "bit x 16 \<and> bit x 17 \<and> \<not> bit x 18")
  case True
  show ?thesis unfolding passed_flags_def Let_def both_sides_iff if_P [OF True] bit_and_iff bit_or_iff flag_bits pass_def
    using True by blast
next
  case False
  show ?thesis unfolding passed_flags_def Let_def both_sides_iff if_not_P [OF False] bit_and_iff bit_or_iff flag_bits pass_def
    using False by blast
qed

text \<open>The colours of a state.\<close>

definition colours :: "store \<Rightarrow> name \<Rightarrow> nat \<Rightarrow> bool" where
  "colours st x n = bit (flags_of st x) n"

lemma dom_add_flags [simp]: "dom (add_flags m c st) = insert c (dom st)"
  by (simp add: add_flags_def)

lemma colours_add_flags:
  "c \<in> dom st \<Longrightarrow> colours (add_flags m c st) x n \<longleftrightarrow> colours st x n \<or> x = c \<and> bit m n"
  by (simp add: colours_def add_flags_def flags_of_update flags_of_at bit_or_iff)

lemma update_agrees:
  assumes a: "agrees env g st" and c: "c \<in> dom st"
    and f: "\<And>obj. otype (f obj) = otype obj \<and> parsed (f obj) = parsed obj \<and> parents (f obj) = parents obj"
  shows "agrees env g (update_at c f st)" "parsed_in (update_at c f st) = parsed_in st"
proof -
  obtain obj where obj: "st c = Some obj" using c by blast
  have eq: "update_at c f st = st(c \<mapsto> f obj)" using obj by (simp add: update_at_def commit_at_def)
  have d: "dom st \<subseteq> dom (update_at c f st)" by auto
  have "loaded env g (update_at c f st) x ps" if "loaded env g st x ps" for x ps
  proof (cases "x = c")
    case True
    have l: "loaded env g st c ps" using that True by simp
    have "set ps \<subseteq> dom st \<Longrightarrow> set ps \<subseteq> dom (update_at c f st)" using d by blast
    moreover have "update_at c f st c = Some (f obj)" by (simp add: eq)
    ultimately show ?thesis
      using l obj f [of obj] unfolding True loaded_def Let_def by (cases "parsed obj") (simp_all del: dom_update)
  next
    case False
    then show ?thesis using loaded_mono [OF that d] by (simp add: eq)
  qed
  then show "agrees env g (update_at c f st)" using a unfolding agrees_def by blast
  show "parsed_in (update_at c f st) = parsed_in st" using obj f [of obj] by (auto simp: parsed_in_def eq split: if_splits)
qed

lemma add_flags_agrees:
  assumes "agrees env g st" "c \<in> dom st"
  shows "agrees env g (add_flags m c st)" "parsed_in (add_flags m c st) = parsed_in st"
  unfolding add_flags_def by (rule update_agrees [OF assms]; simp)+

lemma clear_flags_agrees:
  assumes "agrees env g st" "c \<in> dom st"
  shows "agrees env g (clear_flags m c st)" "parsed_in (clear_flags m c st) = parsed_in st"
  unfolding clear_flags_def by (rule update_agrees [OF assms]; simp)+

lemma parsed_parents:
  assumes a: "agrees env g st" and c: "c \<in> parsed_in st" "c \<in> dom g"
  shows "set (parents (commit_at st c)) = {p. (c, p) \<in> par g}"
    "set (parents (commit_at st c)) \<subseteq> dom g \<inter> dom st"
proof -
  obtain obj ps where obj: "st c = Some obj" "parsed obj" and ps: "g c = Some ps"
    using c by (auto simp: parsed_in_def)
  have psg: "set ps \<subseteq> dom g" and ld: "loaded env g st c ps" using a ps unfolding agrees_def by blast+
  have "parents obj = ps" "set ps \<subseteq> dom st" using ld obj unfolding loaded_def Let_def by simp_all
  note psg this
  then show "set (parents (commit_at st c)) = {p. (c, p) \<in> par g}"
    "set (parents (commit_at st c)) \<subseteq> dom g \<inter> dom st"
    using obj ps by (auto simp: commit_at_def par_def)
qed

lemma parsed_in_dom: "parsed_in st \<subseteq> dom st"
  by (auto simp: parsed_in_def)

lemma extends_colours: "extends st st' \<Longrightarrow> colours st' = colours st"
  by (intro ext) (simp add: extends_def colours_def)

subsection \<open>Termination of the walk\<close>

text \<open>
  Every visit takes a commit off the list, and a commit goes back into it only with a colour it
  did not have: the colours still missing in the history and the length of the list go down together.
\<close>

definition missing :: "(name \<rightharpoonup> name list) \<Rightarrow> (name \<Rightarrow> nat \<Rightarrow> bool) \<Rightarrow> nat" where
  "missing g H = card {(x, k). x \<in> dom g \<and> (k = 16 \<or> k = 17 \<or> k = 18) \<and> \<not> H x k}"

lemma missing_finite:
  assumes "finite (dom g)"
  shows "finite {(x, k). x \<in> dom g \<and> (k = 16 \<or> k = 17 \<or> k = 18) \<and> \<not> H x (k :: nat)}"
proof (rule finite_subset)
  show "{(x, k). x \<in> dom g \<and> (k = 16 \<or> k = 17 \<or> k = 18) \<and> \<not> H x k} \<subseteq> dom g \<times> {16, 17, 18}" by auto
  show "finite (dom g \<times> {16, 17, 18 :: nat})" using assms by simp
qed

lemma missing_mono:
  assumes "finite (dom g)" "\<And>x n. H x n \<Longrightarrow> H' x n"
  shows "missing g H' \<le> missing g H"
  unfolding missing_def using assms(2) by (intro card_mono [OF missing_finite [OF assms(1)]]) auto

lemma psubset_by: "a \<in> A \<Longrightarrow> a \<notin> B \<Longrightarrow> B \<subseteq> A \<Longrightarrow> B \<subset> A"
  by blast

lemma missing_less:
  assumes fin: "finite (dom g)" and up: "\<And>x n. H x n \<Longrightarrow> H' x n"
    and new: "x \<in> dom g" "k = 16 \<or> k = 17 \<or> k = 18" "\<not> H x k" "H' x k"
  shows "missing g H' < missing g H"
  unfolding missing_def
proof (rule psubset_card_mono [OF missing_finite [OF fin]])
  let ?m = "\<lambda>H. {(x, k). x \<in> dom g \<and> (k = 16 \<or> k = 17 \<or> k = 18) \<and> \<not> H x k}"
  have "(x, k) \<in> ?m H" "(x, k) \<notin> ?m H'" using new by auto
  moreover have "?m H' \<subseteq> ?m H" by (rule subsetI) (simp only: mem_Collect_eq split_beta, metis up)
  ultimately show "?m H' \<subset> ?m H" by (rule psubset_by)
qed

lemma set_insert_by_date [simp]: "set (commit_list_insert_by_date st c list) = insert c (set list)"
  by (induction list) auto

lemma length_insert_by_date [simp]: "length (commit_list_insert_by_date st c list) = Suc (length list)"
  by (induction list) auto

lemma distinct_insert_by_date [simp]:
  "distinct (commit_list_insert_by_date st c list) \<longleftrightarrow> c \<notin> set list \<and> distinct list"
  by (induction list) auto

lemma paint_parents_ok:
  assumes "agrees env g st" "finite (dom g)" "set ps \<subseteq> dom g \<inter> dom st" "set list \<subseteq> dom g \<inter> parsed_in st"
    and "\<And>n. bit f n \<Longrightarrow> n = 16 \<or> n = 17 \<or> n = 18"
  shows "\<exists>st' list'. paint_parents env f ps list st = (st', Some list') \<and> agrees env g st'
    \<and> dom st \<subseteq> dom st' \<and> parsed_in st \<subseteq> parsed_in st'
    \<and> (\<forall>x n. colours st' x n \<longleftrightarrow> colours st x n \<or> x \<in> set ps \<and> bit f n)
    \<and> set list \<subseteq> set list' \<and> set list' \<subseteq> dom g \<inter> parsed_in st'
    \<and> (\<forall>p \<in> set ps. \<forall>n. bit f n \<longrightarrow> \<not> colours st p n \<longrightarrow> p \<in> set list')
    \<and> length list' + missing g (colours st') \<le> length list + missing g (colours st)"
  using assms(1,3,4)
proof (induction ps arbitrary: st list)
  case (Cons p ps)
  have p: "p \<in> dom g" "p \<in> dom st" using Cons.prems by auto
  have test: "flags (commit_at st p) AND f = f \<longleftrightarrow> (\<forall>n. bit f n \<longrightarrow> colours st p n)"
    unfolding and_eq_iff_bits flags_of_at [OF p(2)] colours_def ..
  show ?case
  proof (cases "\<forall>n. bit f n \<longrightarrow> colours st p n")
    case True
    have "set ps \<subseteq> dom g \<inter> dom st" using Cons.prems by auto
    from Cons.IH [OF Cons.prems(1) this Cons.prems(3)] obtain st' list' where
      IH: "paint_parents env f ps list st = (st', Some list')" "agrees env g st'"
      "dom st \<subseteq> dom st'" "parsed_in st \<subseteq> parsed_in st'"
      "\<forall>x n. colours st' x n \<longleftrightarrow> colours st x n \<or> x \<in> set ps \<and> bit f n"
      "set list \<subseteq> set list'" "set list' \<subseteq> dom g \<inter> parsed_in st'"
      "\<forall>p \<in> set ps. \<forall>n. bit f n \<longrightarrow> \<not> colours st p n \<longrightarrow> p \<in> set list'"
      "length list' + missing g (colours st') \<le> length list + missing g (colours st)" by blast
    have "paint_parents env f (p # ps) list st = (st', Some list')"
      using IH(1) True test by simp
    moreover have "\<forall>x n. colours st' x n \<longleftrightarrow> colours st x n \<or> x \<in> set (p # ps) \<and> bit f n"
      using IH(5) True by auto
    moreover have "\<forall>q \<in> set (p # ps). \<forall>n. bit f n \<longrightarrow> \<not> colours st q n \<longrightarrow> q \<in> set list'"
      using IH(8) True by auto
    ultimately show ?thesis using IH(2,3,4,6,7,9) by blast
  next
    case False
    have nt: "flags (commit_at st p) AND f \<noteq> f" using False test by blast
    obtain st1 where st1: "parse_commit env p st = (st1, True)" "agrees env g st1" "extends st st1" "p \<in> parsed_in st1"
      using parse_commit_ok [OF Cons.prems(1) p] by blast
    have p1: "p \<in> dom st1" using st1(4) parsed_in_dom by blast
    let ?st2 = "add_flags f p st1" and ?list2 = "commit_list_insert_by_date (add_flags f p st1) p list"
    have a2: "agrees env g ?st2" "parsed_in ?st2 = parsed_in st1" by (rule add_flags_agrees [OF st1(2) p1])+
    have col: "colours ?st2 x n \<longleftrightarrow> colours st x n \<or> x = p \<and> bit f n" for x n
      unfolding colours_add_flags [OF p1] extends_colours [OF st1(3)] ..
    have d: "dom st \<subseteq> dom ?st2" "parsed_in st \<subseteq> parsed_in ?st2" using st1(3) a2 by (auto simp: extends_def)
    have "set ps \<subseteq> dom g \<inter> dom st" using Cons.prems by auto
    then have prem2: "set ps \<subseteq> dom g \<inter> dom ?st2" using d(1) by blast
    have prem3: "set ?list2 \<subseteq> dom g \<inter> parsed_in ?st2"
      using Cons.prems(3) d(2) p(1) st1(4) unfolding a2(2) set_insert_by_date by blast
    obtain k where k: "bit f k" "\<not> colours st p k" using False by blast
    then have "colours ?st2 p k" using col by blast
    then have "missing g (colours ?st2) < missing g (colours st)"
      using missing_less [of g "colours st" "colours ?st2" p k] col p(1) assms(5) [OF k(1)] k assms(2) by blast
    then have len: "length ?list2 + missing g (colours ?st2) \<le> length list + missing g (colours st)" by simp
    obtain st' list' where IH: "paint_parents env f ps ?list2 ?st2 = (st', Some list')" "agrees env g st'"
      "dom ?st2 \<subseteq> dom st'" "parsed_in ?st2 \<subseteq> parsed_in st'"
      "\<forall>x n. colours st' x n \<longleftrightarrow> colours ?st2 x n \<or> x \<in> set ps \<and> bit f n"
      "set ?list2 \<subseteq> set list'" "set list' \<subseteq> dom g \<inter> parsed_in st'"
      "\<forall>p \<in> set ps. \<forall>n. bit f n \<longrightarrow> \<not> colours ?st2 p n \<longrightarrow> p \<in> set list'"
      "length list' + missing g (colours st') \<le> length ?list2 + missing g (colours ?st2)"
      using Cons.IH [OF a2(1) prem2 prem3] by blast
    have "paint_parents env f (p # ps) list st = (st', Some list')"
      using st1(1) IH(1) nt by simp
    moreover have "dom st \<subseteq> dom st'" "parsed_in st \<subseteq> parsed_in st'" using d IH(3,4) by blast+
    moreover have "\<forall>x n. colours st' x n \<longleftrightarrow> colours st x n \<or> x \<in> set (p # ps) \<and> bit f n"
      using IH(5) col by auto
    moreover have "set list \<subseteq> set list'" "p \<in> set list'" using IH(6) by auto
    moreover have "\<forall>q \<in> set (p # ps). \<forall>n. bit f n \<longrightarrow> \<not> colours st q n \<longrightarrow> q \<in> set list'"
      using IH(8) col calculation by auto
    moreover have "length list' + missing g (colours st') \<le> length list + missing g (colours st)"
      using IH(9) len by linarith
    ultimately show ?thesis using IH(2,7) by blast
  qed
qed simp

subsection \<open>One visit and the whole walk\<close>

text \<open>What holds when the loop is about to look at its list.\<close>

definition walking :: "commit_env \<Rightarrow> (name \<rightharpoonup> name list) \<Rightarrow> name \<Rightarrow> name set \<Rightarrow> name list \<Rightarrow> name list \<Rightarrow> store \<Rightarrow> bool" where
  "walking env g one twos list result st =
     (agrees env g st \<and> set list \<subseteq> dom g \<inter> parsed_in st \<and> set result \<subseteq> dom g \<inter> parsed_in st \<and> distinct result
      \<and> painted (colours st) \<subseteq> dom g \<inter> parsed_in st \<and> walk_sound g one twos (colours st) (set result)
      \<and> walk_complete g one twos (colours st) (set list) (set result))"

lemma interesting_None: "set list \<subseteq> dom st \<Longrightarrow> interesting st list = None \<longleftrightarrow> (\<forall>c \<in> set list. colours st c 18)"
  by (induction list) (auto simp: colours_def and_flag_eq_0 flags_of_at)

lemma visit_step:
  assumes w: "walking env g one twos (c # list) result st" and fin: "finite (dom g)"
    and go: "interesting st (c # list) \<noteq> None"
  shows "\<exists>list' result' st'. merge_bases_loop env (c # list) result st = merge_bases_loop env list' result' st'
    \<and> walking env g one twos list' result' st' \<and> dom st \<subseteq> dom st'
    \<and> length list' + missing g (colours st') < length (c # list) + missing g (colours st)"
proof -
  let ?F = "flags_of st c" and ?H = "colours st"
  have a: "agrees env g st" and Lg: "set list \<subseteq> dom g \<inter> parsed_in st" and cg: "c \<in> dom g" "c \<in> parsed_in st"
    and Rg: "set result \<subseteq> dom g \<inter> parsed_in st" "distinct result"
    and snd: "walk_sound g one twos ?H (set result)"
    and cmp: "walk_complete g one twos ?H (insert c (set list)) (set result)"
    using w by (auto simp: walking_def)
  have cd: "c \<in> dom st" using cg(2) parsed_in_dom by blast
  let ?fresh = "fresh_result (?H c)"
  let ?st1 = "if ?fresh then add_flags RESULT c st else st"
  let ?result = "if ?fresh then commit_list_insert_by_date ?st1 c result else result"
  let ?f = "passed_flags ?F"
  have a1: "agrees env g ?st1" "parsed_in ?st1 = parsed_in st" "dom ?st1 = dom st"
    using a add_flags_agrees [OF a cd] cd by auto
  have col1: "colours ?st1 x n \<longleftrightarrow> ?H x n \<or> x = c \<and> n = 19 \<and> ?fresh" for x n
    by (auto simp: colours_add_flags [OF cd])
  have bits: "bit ?f n \<longleftrightarrow> pass (?H c) n" for n unfolding bit_passed_flags colours_def [abs_def] ..
  have ps: "set (parents (commit_at ?st1 c)) = {p. (c, p) \<in> par g}"
    "set (parents (commit_at ?st1 c)) \<subseteq> dom g \<inter> dom ?st1"
    using parsed_parents [OF a1(1), of c] cg a1(2) by auto
  have Lg1: "set list \<subseteq> dom g \<inter> parsed_in ?st1" using Lg a1(2) by simp
  have fb: "bit ?f n \<Longrightarrow> n = 16 \<or> n = 17 \<or> n = 18" for n unfolding bits pass_def by blast
  obtain st' list' where paint: "paint_parents env ?f (parents (commit_at ?st1 c)) list ?st1 = (st', Some list')"
    "agrees env g st'" "dom ?st1 \<subseteq> dom st'" "parsed_in ?st1 \<subseteq> parsed_in st'"
    "\<forall>x n. colours st' x n \<longleftrightarrow> colours ?st1 x n \<or> x \<in> set (parents (commit_at ?st1 c)) \<and> bit ?f n"
    "set list \<subseteq> set list'" "set list' \<subseteq> dom g \<inter> parsed_in st'"
    "\<forall>p \<in> set (parents (commit_at ?st1 c)). \<forall>n. bit ?f n \<longrightarrow> \<not> colours ?st1 p n \<longrightarrow> p \<in> set list'"
    "length list' + missing g (colours st') \<le> length list + missing g (colours ?st1)"
    using paint_parents_ok [OF a1(1) fin ps(2) Lg1 fb] by blast
  have H': "colours st' = visit g c ?H"
    using paint(5) ps(1) by (intro ext) (auto simp: visit_def col1 bits)
  have R': "set ?result = (if ?fresh then insert c (set result) else set result)" by simp
  have r19: "\<forall>x. ?H x 19 \<longleftrightarrow> x \<in> set result" using snd by (simp add: walk_sound_def)
  have "walk_sound g one twos (colours st') (set ?result)"
    unfolding H' R' by (rule visit_sound [OF snd])
  moreover have "walk_complete g one twos (colours st') (set list') (set ?result)"
  proof -
    have "p \<in> set list'" if "(c, p) \<in> par g" "pass (?H c) n" "\<not> ?H p n" for p n
      using paint(8) ps(1) that bits col1 [of p n] by (auto simp: pass_def)
    then show ?thesis unfolding H' R' by (intro visit_complete [OF cmp r19 _ paint(6)])
  qed
  moreover have "set ?result \<subseteq> dom g \<inter> parsed_in st'" using Rg(1) cg paint(4) a1(2) by auto
  moreover have "distinct ?result" using Rg(2) r19 by (auto simp: fresh_result_def)
  moreover have "painted (colours st') \<subseteq> dom g \<inter> parsed_in st'"
  proof
    fix x
    assume "x \<in> painted (colours st')"
    then consider "x \<in> painted ?H" | "x = c" | n where "(c, x) \<in> par g" "pass (?H c) n" "\<not> ?H x n"
      unfolding H' by (auto simp: painted_def visit_def)
    then show "x \<in> dom g \<inter> parsed_in st'"
    proof cases
      case 1
      then show ?thesis using w paint(4) a1(2) by (auto simp: walking_def)
    next
      case 2
      then show ?thesis using cg paint(4) a1(2) by auto
    next
      case 3
      then have "x \<in> set list'" using paint(8) ps(1) bits col1 [of x n] by (auto simp: pass_def)
      then show ?thesis using paint(7) by blast
    qed
  qed
  ultimately have "walking env g one twos list' ?result st'" using paint(2,7) by (simp add: walking_def)
  moreover have "merge_bases_loop env (c # list) result st = merge_bases_loop env list' ?result st'"
  proof -
    have fl: "flags (commit_at st c) = ?F" by (rule flags_of_at [OF cd])
    have fresh: "(?F AND (PARENT1 OR PARENT2 OR STALE) = PARENT1 OR PARENT2 \<and> ?F AND RESULT = 0) = ?fresh"
      unfolding both_sides_iff and_flag_eq_0 fresh_result_def colours_def by blast
    have "paint_parents env (let fl = ?F AND (PARENT1 OR PARENT2 OR STALE) in
        if fl = PARENT1 OR PARENT2 then fl OR STALE else fl) (parents (commit_at ?st1 c)) list ?st1 = (st', Some list')"
      using paint(1) unfolding passed_flags_def .
    with go show ?thesis
      unfolding merge_bases_loop.simps [of env "c # list"] list.sel fl Let_def fresh by auto
  qed
  moreover have "missing g (colours ?st1) \<le> missing g ?H" using col1 by (intro missing_mono fin) blast
  ultimately show ?thesis using paint(3,9) a1(3) by (intro exI [of _ list'] exI [of _ ?result] exI [of _ st']) auto
qed

lemma merge_bases_loop_ok:
  assumes "walking env g one twos list result st" "finite (dom g)"
  shows "\<exists>st' result' list'. merge_bases_loop env list result st = Some (st', Some result')
    \<and> walking env g one twos list' result' st' \<and> dom st \<subseteq> dom st' \<and> (\<forall>c \<in> set list'. colours st' c 18)"
  using assms(1)
proof (induction "length list + missing g (colours st)" arbitrary: list result st rule: less_induct)
  case less
  have "set list \<subseteq> dom st" using less.prems parsed_in_dom [of st] unfolding walking_def by blast
  note stop = interesting_None [OF this]
  show ?case
  proof (cases "interesting st list = None")
    case True
    then show ?thesis using less.prems stop by (auto simp: merge_bases_loop.simps [of env list])
  next
    case False
    then obtain c rest where list: "list = c # rest" by (cases list) auto
    obtain list1 result1 st1 where s: "merge_bases_loop env list result st = merge_bases_loop env list1 result1 st1"
      "walking env g one twos list1 result1 st1" "dom st \<subseteq> dom st1"
      "length list1 + missing g (colours st1) < length list + missing g (colours st)"
      using visit_step [OF less.prems [unfolded list] assms(2) False [unfolded list]] unfolding list by blast
    from less.hyps [OF s(4,2)] obtain st' result' list' where r: "merge_bases_loop env list1 result1 st1 = Some (st', Some result')"
      "walking env g one twos list' result' st'" "dom st1 \<subseteq> dom st'" "\<forall>c \<in> set list'. colours st' c 18" by blast
    then show ?thesis using s(1) order_trans [OF s(3) r(3)]
      by (intro exI [of _ st'] exI [of _ result'] exI [of _ list']) simp
  qed
qed

subsection \<open>Starting the walk\<close>

text \<open>A state no walk has marked.\<close>

definition unmarked :: "store \<Rightarrow> bool" where
  "unmarked st = (painted (colours st) = {})"

lemma unmarked_colours: "unmarked st \<Longrightarrow> k = 16 \<or> k = 17 \<or> k = 18 \<or> k = 19 \<Longrightarrow> \<not> colours st x k"
  by (auto simp: unmarked_def painted_def)

lemma parse_all_ok:
  "agrees env g st \<Longrightarrow> set cs \<subseteq> dom g \<inter> dom st
    \<Longrightarrow> \<exists>st'. parse_all env cs st = (st', True) \<and> agrees env g st' \<and> extends st st' \<and> set cs \<subseteq> parsed_in st'"
proof (induction cs arbitrary: st)
  case (Cons c cs)
  have c: "c \<in> dom g" "c \<in> dom st" using Cons.prems(2) by auto
  obtain st1 where st1: "parse_commit env c st = (st1, True)" "agrees env g st1" "extends st st1" "c \<in> parsed_in st1"
    using parse_commit_ok [OF Cons.prems(1) c] by blast
  have "set cs \<subseteq> dom g \<inter> dom st" using Cons.prems(2) by auto
  then have "set cs \<subseteq> dom g \<inter> dom st1" using st1(3) unfolding extends_def by blast
  from Cons.IH [OF st1(2) this] obtain st2 where st2: "parse_all env cs st1 = (st2, True)" "agrees env g st2"
    "extends st1 st2" "set cs \<subseteq> parsed_in st2" by blast
  moreover have "c \<in> parsed_in st2" using st1(4) st2(3) by (auto simp: extends_def)
  ultimately show ?case using st1(1) extends_trans [OF st1(3) st2(3)] by auto
qed simp

lemma paint_twos_ok:
  "agrees env g st \<Longrightarrow> set twos \<subseteq> dom st
    \<Longrightarrow> \<exists>st' list'. paint_twos twos list st = (st', list') \<and> agrees env g st' \<and> dom st' = dom st
      \<and> parsed_in st' = parsed_in st \<and> set list' = set list \<union> set twos
      \<and> (\<forall>x n. colours st' x n \<longleftrightarrow> colours st x n \<or> x \<in> set twos \<and> n = 17)"
proof (induction twos arbitrary: st list)
  case (Cons t twos)
  have t: "t \<in> dom st" using Cons.prems(2) by simp
  let ?st1 = "add_flags PARENT2 t st"
  have a1: "agrees env g ?st1" "parsed_in ?st1 = parsed_in st" by (rule add_flags_agrees [OF Cons.prems(1) t])+
  have d1: "dom ?st1 = dom st" using t by (simp add: insert_absorb)
  then have "set twos \<subseteq> dom ?st1" using Cons.prems(2) by simp
  from Cons.IH [OF a1(1) this, of "commit_list_insert_by_date ?st1 t list"] obtain st' list' where
    IH: "paint_twos twos (commit_list_insert_by_date ?st1 t list) ?st1 = (st', list')" "agrees env g st'"
      "dom st' = dom ?st1" "parsed_in st' = parsed_in ?st1" "set list' = insert t (set list) \<union> set twos"
      "\<forall>x n. colours st' x n \<longleftrightarrow> colours ?st1 x n \<or> x \<in> set twos \<and> n = 17" by auto
  have "\<forall>x n. colours st' x n \<longleftrightarrow> colours st x n \<or> x \<in> set (t # twos) \<and> n = 17"
    using IH(6) by (auto simp: colours_add_flags [OF t])
  then show ?case using IH a1 d1 by simp
qed simp

text \<open>
  The walk from a clean state: its result is a set of common ancestors with all the best ones in
  it, and every mark it leaves can be reached through marked commits.
\<close>

definition walked :: "(name \<rightharpoonup> name list) \<Rightarrow> name \<Rightarrow> name set \<Rightarrow> store \<Rightarrow> bool" where
  "walked g one twos st =
     (painted (colours st) \<subseteq> dom g \<inter> parsed_in st \<and> painted (colours st) \<subseteq> marked_reach g (painted (colours st)) (insert one twos))"

lemma drop_stale_set:
  "distinct list \<Longrightarrow> set (drop_stale st list) = {c \<in> set list. flags (commit_at st c) AND STALE = 0} \<and> distinct (drop_stale st list)"
proof -
  let ?step = "\<lambda>result c. if flags (commit_at st c) AND STALE = 0 then commit_list_insert_by_date st c result else result"
  have "distinct list \<Longrightarrow> distinct acc \<Longrightarrow> set acc \<inter> set list = {}
    \<Longrightarrow> set (foldl ?step acc list) = set acc \<union> {c \<in> set list. flags (commit_at st c) AND STALE = 0} \<and> distinct (foldl ?step acc list)" for acc
    by (induction list arbitrary: acc) auto
  from this [of "[]"] show "distinct list \<Longrightarrow> ?thesis" by (simp add: drop_stale_def)
qed

lemma merge_bases_many_ok:
  assumes a: "agrees env g st" and fin: "finite (dom g)" and clean: "unmarked st"
    and one: "one \<in> dom g" "one \<in> dom st" and twos: "set twos \<subseteq> dom g \<inter> dom st" and new: "one \<notin> set twos"
  shows "\<exists>st' bases. merge_bases_many env one twos st = Some (st', bases) \<and> agrees env g st' \<and> dom st \<subseteq> dom st'
    \<and> walked g one (set twos) st' \<and> distinct bases \<and> set bases \<subseteq> dom g \<inter> parsed_in st'
    \<and> (\<forall>b \<in> set bases. common_ancestor g one (set twos) b) \<and> best_common g one (set twos) \<subseteq> set bases"
proof -
  obtain st1 where st1: "parse_commit env one st = (st1, True)" "agrees env g st1" "extends st st1" "one \<in> parsed_in st1"
    using parse_commit_ok [OF a one] by blast
  have "set twos \<subseteq> dom g \<inter> dom st1" using twos st1(3) unfolding extends_def by blast
  then obtain st2 where st2: "parse_all env twos st1 = (st2, True)" "agrees env g st2" "extends st1 st2" "set twos \<subseteq> parsed_in st2"
    using parse_all_ok [OF st1(2)] by blast
  have one2: "one \<in> parsed_in st2" "one \<in> dom st2"
    using st1(4) st2(3) parsed_in_dom [of st2] unfolding extends_def by blast+
  let ?st3 = "add_flags PARENT1 one st2"
  have a3: "agrees env g ?st3" "parsed_in ?st3 = parsed_in st2" by (rule add_flags_agrees [OF st2(2) one2(2)])+
  have d3: "dom ?st3 = dom st2" using one2(2) by (simp add: insert_absorb)
  then have "set twos \<subseteq> dom ?st3" using st2(4) parsed_in_dom [of st2] by blast
  from paint_twos_ok [OF a3(1) this, of "commit_list_insert_by_date ?st3 one []"] obtain st4 list where
    st4: "paint_twos twos (commit_list_insert_by_date ?st3 one []) ?st3 = (st4, list)" "agrees env g st4"
    "dom st4 = dom st2" "parsed_in st4 = parsed_in st2" "set list = insert one (set twos)"
    "\<forall>x n. colours st4 x n \<longleftrightarrow> colours ?st3 x n \<or> x \<in> set twos \<and> n = 17"
    using d3 a3(2) by auto
  have c2: "colours st2 = colours st" using extends_colours st1(3) st2(3) by metis
  have col4: "colours st4 x n \<longleftrightarrow> colours st x n \<or> x = one \<and> n = 16 \<or> x \<in> set twos \<and> n = 17" for x n
    using st4(6) by (auto simp: colours_add_flags [OF one2(2)] c2)
  note none = unmarked_colours [OF clean]
  have start: "painted (colours st4) = insert one (set twos)"
    using none by (auto simp: painted_def col4)
  have "walk_sound g one (set twos) (colours st4) {}"
    using none unfolding walk_sound_def start by (auto simp: col4 intro: marked_reach.start)
  moreover have "walk_complete g one (set twos) (colours st4) (set list) {}"
    using none st4(5) by (auto simp: walk_complete_def col4)
  moreover have "insert one (set twos) \<subseteq> dom g \<inter> parsed_in st4" using one(1) one2(1) twos st2(4) st4(4) by auto
  ultimately have "walking env g one (set twos) list [] st4" using st4(2,5) by (simp add: walking_def start)
  from merge_bases_loop_ok [OF this fin] obtain st5 result list' where
    w5: "merge_bases_loop env list [] st4 = Some (st5, Some result)" "walking env g one (set twos) list' result st5"
    "dom st4 \<subseteq> dom st5" "\<forall>c \<in> set list'. colours st5 c 18" by blast
  have "distinct result" and snd: "walk_sound g one (set twos) (colours st5) (set result)"
    and cmp: "walk_complete g one (set twos) (colours st5) (set list') (set result)"
    and res: "set result \<subseteq> dom g \<inter> parsed_in st5" and "agrees env g st5" "painted (colours st5) \<subseteq> dom g \<inter> parsed_in st5"
    using w5(2) by (auto simp: walking_def)
  have bases: "set (drop_stale st5 result) = {c \<in> set result. \<not> colours st5 c 18}" "distinct (drop_stale st5 result)"
  proof -
    have "flags (commit_at st5 c) = flags_of st5 c" if "c \<in> set result" for c
      using that res parsed_in_dom [of st5] by (intro flags_of_at) blast
    then show "set (drop_stale st5 result) = {c \<in> set result. \<not> colours st5 c 18}" "distinct (drop_stale st5 result)"
      using drop_stale_set [OF \<open>distinct result\<close>, of st5] by (auto simp: and_flag_eq_0 colours_def)
  qed
  have "merge_bases_many env one twos st = Some (st5, drop_stale st5 result)"
    using new st1(1) st2(1) st4(1) w5(1) by (simp add: merge_bases_many_def Let_def)
  moreover have "common_ancestor g one (set twos) b" if "b \<in> set (drop_stale st5 result)" for b
    using snd that bases(1) by (auto simp: walk_sound_def common_ancestor_def)
  moreover have "best_common g one (set twos) \<subseteq> set (drop_stale st5 result)"
    using walk_finds_best [OF snd cmp w5(4)] bases(1) by blast
  moreover have "walked g one (set twos) st5"
    using snd \<open>painted (colours st5) \<subseteq> _\<close> by (auto simp: walked_def walk_sound_def)
  moreover have "dom st \<subseteq> dom st5" using st1(3) st2(3) st4(3) w5(3) unfolding extends_def by blast
  ultimately show ?thesis using bases res \<open>agrees env g st5\<close> by blast
qed

subsection \<open>Removing the marks\<close>

lemma marked_reach_unmarked: "c \<notin> M \<Longrightarrow> marked_reach g M (insert c S) = marked_reach g M S"
proof
  assume c: "c \<notin> M"
  show "marked_reach g M (insert c S) \<subseteq> marked_reach g M S"
  proof
    fix x
    assume "x \<in> marked_reach g M (insert c S)"
    then show "x \<in> marked_reach g M S" using c by induction (auto intro: marked_reach.intros)
  qed
qed (rule marked_reach_mono; auto)

lemma marked_reach_clear:
  assumes "x \<in> marked_reach g M (insert c S)"
  shows "x = c \<or> x \<in> marked_reach g (M - {c}) ({p. (c, p) \<in> par g} \<union> S)"
  using assms by induction (auto intro: marked_reach.intros)

lemma clear_flags_colours:
  "c \<in> dom st \<Longrightarrow> colours (clear_flags all_flags c st) x n
    \<longleftrightarrow> colours st x n \<and> \<not> (x = c \<and> (n = 16 \<or> n = 17 \<or> n = 18 \<or> n = 19))"
  using bit_imp_le_length [of "flags_of st c" n]
  by (auto simp: colours_def clear_flags_def flags_of_update flags_of_at bit_and_iff bit_not_iff bit_all_flags)

lemma painted_clear: "c \<in> dom st \<Longrightarrow> painted (colours (clear_flags all_flags c st)) = painted (colours st) - {c}"
  by (auto simp: painted_def clear_flags_colours)

lemma all_flags_test: "c \<in> dom st \<Longrightarrow> all_flags AND flags (commit_at st c) = 0 \<longleftrightarrow> c \<notin> painted (colours st)"
proof -
  assume c: "c \<in> dom st"
  have b: "bit (all_flags AND flags_of st c) n \<longleftrightarrow> (n = 16 \<or> n = 17 \<or> n = 18 \<or> n = 19) \<and> colours st c n" for n
    unfolding bit_and_iff bit_all_flags colours_def ..
  have "all_flags AND flags_of st c = 0 \<longleftrightarrow> (\<forall>n. \<not> bit (all_flags AND flags_of st c) n)"
    by (metis bit_0_eq bit_eqI bot_apply bot_bool_def)
  then show ?thesis unfolding flags_of_at [OF c] b painted_def by blast
qed

text \<open>The marks that are left are all reached from the work list and the commits \<open>E\<close> still to be cleared.\<close>

definition clearing :: "commit_env \<Rightarrow> (name \<rightharpoonup> name list) \<Rightarrow> name set \<Rightarrow> name set \<Rightarrow> store \<Rightarrow> bool" where
  "clearing env g L E st =
     (agrees env g st \<and> L \<subseteq> dom st \<and> painted (colours st) \<subseteq> dom g \<inter> parsed_in st
      \<and> painted (colours st) \<subseteq> marked_reach g (painted (colours st)) (L \<union> E))"

lemma clear_step:
  assumes cl: "clearing env g (insert c L) E st"
  shows "c \<notin> painted (colours st) \<Longrightarrow> clearing env g L E st"
    and "c \<in> painted (colours st) \<Longrightarrow> clearing env g (set (parents (commit_at st c)) \<union> L) E (clear_flags all_flags c st)"
    and "dom (clear_flags all_flags c st) = dom st"
proof -
  have cd: "c \<in> dom st" using cl by (simp add: clearing_def)
  show d: "dom (clear_flags all_flags c st) = dom st" using cd by (simp add: clear_flags_def insert_absorb)
  show "clearing env g L E st" if "c \<notin> painted (colours st)"
    using cl marked_reach_unmarked [OF that, of g "L \<union> E"] by (simp add: clearing_def)
  assume p: "c \<in> painted (colours st)"
  have a: "agrees env g st" using cl by (simp add: clearing_def)
  have cg: "c \<in> parsed_in st" "c \<in> dom g" using cl p by (auto simp: clearing_def)
  note ps = parsed_parents [OF a cg]
  note a' = clear_flags_agrees [OF a cd, of all_flags]
  have "x \<in> marked_reach g (painted (colours st) - {c}) ({p. (c, p) \<in> par g} \<union> (L \<union> E))"
    if "x \<in> painted (colours st) - {c}" for x
    using that cl marked_reach_clear [of x g "painted (colours st)" c "L \<union> E"] by (auto simp: clearing_def)
  then show "clearing env g (set (parents (commit_at st c)) \<union> L) E (clear_flags all_flags c st)"
    using cl ps a' d by (auto simp: clearing_def painted_clear [OF cd] Un_assoc)
qed

lemma clear_commit_marks_1_ok:
  assumes "clearing env g (insert c (set L)) E st" "finite (dom g)"
  shows "\<exists>st' L'. clear_commit_marks_1 all_flags c L st = Some (st', L') \<and> clearing env g (set L') E st' \<and> dom st' = dom st
    \<and> (L' = L \<and> st' = st \<or> card (painted (colours st')) < card (painted (colours st)))"
  using assms(1)
proof (induction "card (painted (colours st))" arbitrary: c L st rule: less_induct)
  case less
  have cd: "c \<in> dom st" using less.prems by (simp add: clearing_def)
  note test = all_flags_test [OF cd] and step = clear_step [OF less.prems]
  show ?case
  proof (cases "c \<in> painted (colours st)")
    case False
    then show ?thesis using test step(1) by (auto simp: clear_commit_marks_1.simps [of _ c])
  next
    case True
    let ?st = "clear_flags all_flags c st"
    have "finite (painted (colours st))" using less.prems assms(2) finite_subset by (fastforce simp: clearing_def)
    then have less_card: "card (painted (colours ?st)) < card (painted (colours st))"
      using True unfolding painted_clear [OF cd] by (rule card_Diff1_less)
    have same: "parents (commit_at ?st c) = parents (commit_at st c)" by (simp add: clear_flags_def)
    show ?thesis
    proof (cases "parents (commit_at st c)")
      case Nil
      then show ?thesis using True test step less_card same by (auto simp: clear_commit_marks_1.simps [of _ c] Let_def)
    next
      case (Cons p ps)
      have "clearing env g (insert p (set (rev ps @ L))) E ?st" using step(2) [OF True] Cons by simp
      from less.hyps [OF less_card this] obtain st' L' where r: "clear_commit_marks_1 all_flags p (rev ps @ L) ?st = Some (st', L')"
        "clearing env g (set L') E st'" "dom st' = dom ?st"
        "L' = rev ps @ L \<and> st' = ?st \<or> card (painted (colours st')) < card (painted (colours ?st))" by blast
      have "clear_commit_marks_1 all_flags c L st = Some (st', L')"
        using True test Cons same r(1) by (simp add: clear_commit_marks_1.simps [of _ c] Let_def)
      moreover have "card (painted (colours st')) < card (painted (colours st))" using r(4) less_card by auto
      ultimately show ?thesis using r(2,3) step(3) by auto
    qed
  qed
qed

lemma clear_marks_loop_ok:
  assumes "clearing env g (set L) E st" "finite (dom g)"
  shows "\<exists>st'. clear_marks_loop all_flags L st = Some st' \<and> clearing env g {} E st' \<and> dom st' = dom st"
  using assms(1)
proof (induction "(card (painted (colours st)), length L)" arbitrary: L st
    rule: wf_induct_rule [OF wf_lex_prod [OF wf_less_than wf_less_than]])
  case 1
  show ?case
  proof (cases L)
    case Nil
    then show ?thesis using "1.prems" by (simp add: clear_marks_loop.simps)
  next
    case (Cons c rest)
    from clear_commit_marks_1_ok [OF _ assms(2), of env c rest E st] "1.prems" Cons obtain st1 L1 where
      s: "clear_commit_marks_1 all_flags c rest st = Some (st1, L1)" "clearing env g (set L1) E st1" "dom st1 = dom st"
      "L1 = rest \<and> st1 = st \<or> card (painted (colours st1)) < card (painted (colours st))" by auto
    have "((card (painted (colours st1)), length L1), (card (painted (colours st)), length L)) \<in> less_than <*lex*> less_than"
      using s(4) Cons by auto
    from "1.hyps" [OF this s(2)] show ?thesis using s(1,3) Cons by (simp add: clear_marks_loop.simps [of _ "c # rest"])
  qed
qed

lemma clear_marks_many_ok:
  "clearing env g {} (set cs \<union> E) st \<Longrightarrow> set cs \<subseteq> dom st \<Longrightarrow> finite (dom g)
    \<Longrightarrow> \<exists>st'. clear_marks_many all_flags cs st = Some st' \<and> clearing env g {} E st' \<and> dom st' = dom st"
proof (induction cs arbitrary: st)
  case (Cons c cs)
  have "clearing env g (set [c]) (set cs \<union> E) st" using Cons.prems(1,2) by (auto simp: clearing_def)
  from clear_marks_loop_ok [OF this Cons.prems(3)] obtain st1 where st1: "clear_commit_marks all_flags c st = Some st1"
    "clearing env g {} (set cs \<union> E) st1" "dom st1 = dom st" by (auto simp: clear_commit_marks_def)
  then show ?case using Cons.IH [OF st1(2)] Cons.prems by simp
qed simp

lemma walked_clear:
  assumes w: "walked g one (set twos) st" and a: "agrees env g st" and fin: "finite (dom g)"
    and d: "one \<in> dom st" "set twos \<subseteq> dom st"
  shows "\<exists>st'. clear_marks_many all_flags (one # twos) st = Some st' \<and> agrees env g st' \<and> unmarked st' \<and> dom st' = dom st"
proof -
  have "clearing env g {} (set (one # twos) \<union> {}) st" using w a by (simp add: clearing_def walked_def)
  from clear_marks_many_ok [OF this _ fin] d obtain st' where
    "clear_marks_many all_flags (one # twos) st = Some st'" "clearing env g {} {} st'" "dom st' = dom st" by auto
  then show ?thesis by (auto simp: clearing_def unmarked_def marked_reach_none)
qed

subsection \<open>The best common ancestors are found\<close>

text \<open>A history is finite and, as names are hashes of the commits with their parents, has no cycles.\<close>

definition history :: "(name \<rightharpoonup> name list) \<Rightarrow> bool" where
  "history g = (finite (dom g) \<and> acyclic (par g))"

lemma acyclic_up: "acyclic r \<Longrightarrow> (a, b) \<in> r\<^sup>* \<Longrightarrow> (b, a) \<notin> r\<^sup>+"
  unfolding acyclic_def by (meson rtrancl_trancl_trancl)

lemma rtrancl_strict: "(a, b) \<in> r\<^sup>* \<Longrightarrow> a \<noteq> b \<Longrightarrow> (a, b) \<in> r\<^sup>+"
  by (auto dest: rtranclD)

lemma best_above:
  assumes h: "history g" and x: "common_ancestor g one twos x"
  shows "\<exists>b \<in> best_common g one twos. (b, x) \<in> (par g)\<^sup>*"
proof -
  have "par g \<subseteq> (SIGMA c : dom g. set (the (g c)))" by (auto simp: par_def)
  then have "finite (par g)" using h by (auto simp: history_def intro: finite_subset)
  then have wf: "wf ((par g)\<^sup>+)" using h by (simp add: history_def finite_acyclic_wf wf_trancl)
  let ?Q = "{b. common_ancestor g one twos b \<and> (b, x) \<in> (par g)\<^sup>*}"
  have "x \<in> ?Q" using x by simp
  from wfE_min [OF wf this] obtain b where b: "b \<in> ?Q" "\<And>y. (y, b) \<in> (par g)\<^sup>+ \<Longrightarrow> y \<notin> ?Q" by blast
  have "(r, b) \<notin> (par g)\<^sup>+" if r: "common_ancestor g one twos r" for r
  proof
    assume rb: "(r, b) \<in> (par g)\<^sup>+"
    then have "(r, x) \<in> (par g)\<^sup>*" using b(1) by (auto intro: trancl_into_rtrancl rtrancl_trans)
    then show False using b(2) [OF rb] r by blast
  qed
  then show ?thesis using b(1) by (auto simp: best_common_def)
qed

lemma best_common_same:
  assumes h: "history g" and one: "one \<in> twos"
  shows "best_common g one twos = {one}"
proof -
  have ac: "acyclic (par g)" using h by (simp add: history_def)
  have c: "common_ancestor g one twos one" using one by (auto simp: common_ancestor_def)
  have "(r, one) \<notin> (par g)\<^sup>+" if "common_ancestor g one twos r" for r
    using that acyclic_up [OF ac] by (auto simp: common_ancestor_def)
  moreover have "x = one" if x: "x \<in> best_common g one twos" for x
  proof (rule ccontr)
    assume "x \<noteq> one"
    moreover have "(one, x) \<in> (par g)\<^sup>*" using x by (auto simp: best_common_def common_ancestor_def)
    ultimately have "(one, x) \<in> (par g)\<^sup>+" using rtrancl_strict by metis
    then show False using x c by (auto simp: best_common_def)
  qed
  ultimately show ?thesis using c by (auto simp: best_common_def)
qed

lemma best_common_two:
  assumes h: "history g"
  shows "(b, a) \<in> (par g)\<^sup>* \<Longrightarrow> a \<in> best_common g a {b}" "(a, b) \<in> (par g)\<^sup>* \<Longrightarrow> b \<in> best_common g a {b}"
  using acyclic_up [of "par g"] h by (auto simp: best_common_def common_ancestor_def history_def)

text \<open>One pair of bases: each is dropped exactly if the other reaches it.\<close>

lemma drop_pair:
  assumes h: "history g" and a: "agrees env g st" and clean: "unmarked st"
    and x: "x \<in> dom g \<inter> dom st" and y: "y \<in> dom g \<inter> dom st" and xy: "x \<noteq> y"
  shows "\<exists>st1 bases st2 st3. merge_bases_many env x [y] st = Some (st1, bases)
    \<and> clear_commit_marks all_flags x st1 = Some st2 \<and> clear_commit_marks all_flags y st2 = Some st3
    \<and> agrees env g st3 \<and> unmarked st3 \<and> dom st \<subseteq> dom st3
    \<and> (x \<in> set bases \<longleftrightarrow> (y, x) \<in> (par g)\<^sup>+) \<and> (y \<in> set bases \<longleftrightarrow> (x, y) \<in> (par g)\<^sup>+)"
proof -
  have fin: "finite (dom g)" using h by (simp add: history_def)
  have p: "x \<in> dom g" "x \<in> dom st" "set [y] \<subseteq> dom g \<inter> dom st" "x \<notin> set [y]" using x y xy by auto
  obtain st1 bases where m: "merge_bases_many env x [y] st = Some (st1, bases)" "agrees env g st1" "dom st \<subseteq> dom st1"
    "walked g x (set [y]) st1" "\<forall>b \<in> set bases. common_ancestor g x (set [y]) b" "best_common g x (set [y]) \<subseteq> set bases"
    using merge_bases_many_ok [OF a fin clean p] by blast
  have d: "x \<in> dom st1" "set [y] \<subseteq> dom st1" using p m(3) by auto
  from walked_clear [OF m(4,2) fin d] obtain st3 where
    c: "clear_marks_many all_flags (x # [y]) st1 = Some st3" "agrees env g st3" "unmarked st3" "dom st3 = dom st1" by blast
  then obtain st2 where "clear_commit_marks all_flags x st1 = Some st2" "clear_commit_marks all_flags y st2 = Some st3"
    by (auto split: option.splits)
  moreover have "x \<in> set bases \<longleftrightarrow> (y, x) \<in> (par g)\<^sup>+"
    using m(5,6) best_common_two(1) [OF h, of y x] rtrancl_strict [of y x "par g"] xy
    by (auto simp: common_ancestor_def intro: trancl_into_rtrancl)
  moreover have "y \<in> set bases \<longleftrightarrow> (x, y) \<in> (par g)\<^sup>+"
    using m(5,6) best_common_two(2) [OF h, of x y] rtrancl_strict [of x y "par g"] xy
    by (auto simp: common_ancestor_def intro: trancl_into_rtrancl)
  ultimately show ?thesis using m(1,3) c(2,3,4) by blast
qed

text \<open>The array during the reduction: what is gone is reached by another base.\<close>

definition reducing :: "(name \<rightharpoonup> name list) \<Rightarrow> name list \<Rightarrow> name option list \<Rightarrow> bool" where
  "reducing g rs rslt =
     (length rslt = length rs \<and> (\<forall>k < length rs. rslt ! k = Some (rs ! k) \<or> rslt ! k = None \<and> (\<exists>r \<in> set rs. (r, rs ! k) \<in> (par g)\<^sup>+)))"

lemma reducing_drop:
  assumes "reducing g rs rslt" "r \<in> set rs" "(r, rs ! i) \<in> (par g)\<^sup>+"
  shows "reducing g rs (rslt[i := None])"
proof -
  have "rslt[i := None] ! k = Some (rs ! k) \<or> rslt[i := None] ! k = None \<and> (\<exists>r \<in> set rs. (r, rs ! k) \<in> (par g)\<^sup>+)"
    if "k < length rs" for k
    using assms that by (cases "k = i") (auto simp: reducing_def)
  then show ?thesis using assms(1) by (simp add: reducing_def)
qed

lemma none_kept: "k < length xs \<Longrightarrow> xs ! k = None \<Longrightarrow> xs[m := None] ! k = None"
  by (cases "k = m") auto

lemma drop_reached_ok:
  assumes h: "history g" and "agrees env g st" "unmarked st" "distinct rs" "set rs \<subseteq> dom g \<inter> dom st" "reducing g rs rslt"
    and "\<forall>(i, j) \<in> set ijs. i < j \<and> j < length rs"
  shows "\<exists>st' rslt'. drop_reached env ijs rslt st = Some (st', rslt') \<and> agrees env g st' \<and> unmarked st' \<and> dom st \<subseteq> dom st'
    \<and> reducing g rs rslt' \<and> (\<forall>k < length rs. rslt ! k = None \<longrightarrow> rslt' ! k = None)
    \<and> (\<forall>(i, j) \<in> set ijs. rslt' ! i \<noteq> None \<longrightarrow> rslt' ! j \<noteq> None \<longrightarrow> (rs ! i, rs ! j) \<notin> (par g)\<^sup>+ \<and> (rs ! j, rs ! i) \<notin> (par g)\<^sup>+)"
  using assms(2-)
proof (induction ijs arbitrary: rslt st)
  case (Cons ij ijs)
  obtain i j where ij: "ij = (i, j)" "i < j" "j < length rs" using Cons.prems(6) by (cases ij) auto
  have rest: "\<forall>(i, j) \<in> set ijs. i < j \<and> j < length rs" using Cons.prems(6) by simp
  have red: "reducing g rs rslt" by (rule Cons.prems(5))
  show ?case
  proof (cases "rslt ! i = None \<or> rslt ! j = None")
    case True
    from Cons.IH [OF Cons.prems(1-4) red rest] obtain st' rslt' where
      r: "drop_reached env ijs rslt st = Some (st', rslt')" "agrees env g st'" "unmarked st'" "dom st \<subseteq> dom st'"
      "reducing g rs rslt'" "\<forall>k < length rs. rslt ! k = None \<longrightarrow> rslt' ! k = None"
      "\<forall>(i, j) \<in> set ijs. rslt' ! i \<noteq> None \<longrightarrow> rslt' ! j \<noteq> None \<longrightarrow> (rs ! i, rs ! j) \<notin> (par g)\<^sup>+ \<and> (rs ! j, rs ! i) \<notin> (par g)\<^sup>+"
      by blast
    moreover have "drop_reached env (ij # ijs) rslt st = Some (st', rslt')"
      using True r(1) ij by (auto split: option.splits)
    moreover have "rslt' ! i = None \<or> rslt' ! j = None" using True r(6) ij by auto
    ultimately show ?thesis using ij by (intro exI [of _ st'] exI [of _ rslt']) auto
  next
    case False
    let ?x = "rs ! i" and ?y = "rs ! j"
    have "i < length rs" using ij by simp
    then have xy: "rslt ! i = Some ?x" "rslt ! j = Some ?y" using False red ij(3) unfolding reducing_def by metis+
    have mem: "?x \<in> set rs" "?y \<in> set rs" "?x \<noteq> ?y" using ij Cons.prems(3) by (auto simp: nth_eq_iff_index_eq)
    then have "?x \<in> dom g \<inter> dom st" "?y \<in> dom g \<inter> dom st" using Cons.prems(4) by auto
    from drop_pair [OF h Cons.prems(1,2) this mem(3)] obtain st1 bases st2 st3 where
      d: "merge_bases_many env ?x [?y] st = Some (st1, bases)" "clear_commit_marks all_flags ?x st1 = Some st2"
      "clear_commit_marks all_flags ?y st2 = Some st3" "agrees env g st3" "unmarked st3" "dom st \<subseteq> dom st3"
      "?x \<in> set bases \<longleftrightarrow> (?y, ?x) \<in> (par g)\<^sup>+" "?y \<in> set bases \<longleftrightarrow> (?x, ?y) \<in> (par g)\<^sup>+" by blast
    let ?r1 = "if ?x \<in> set bases then rslt[i := None] else rslt"
    let ?r2 = "if ?y \<in> set bases then ?r1[j := None] else ?r1"
    have r1: "reducing g rs ?r1" using reducing_drop [OF red mem(2), of i] d(7) red by simp
    have r2: "reducing g rs ?r2" using reducing_drop [OF r1 mem(1), of j] d(8) r1 by simp
    have sub: "set rs \<subseteq> dom g \<inter> dom st3" using Cons.prems(4) d(6) by blast
    from Cons.IH [OF d(4,5) Cons.prems(3) sub r2 rest] obtain st' rslt' where
      r: "drop_reached env ijs ?r2 st3 = Some (st', rslt')" "agrees env g st'" "unmarked st'" "dom st3 \<subseteq> dom st'"
      "reducing g rs rslt'" "\<forall>k < length rs. ?r2 ! k = None \<longrightarrow> rslt' ! k = None"
      "\<forall>(i, j) \<in> set ijs. rslt' ! i \<noteq> None \<longrightarrow> rslt' ! j \<noteq> None \<longrightarrow> (rs ! i, rs ! j) \<notin> (par g)\<^sup>+ \<and> (rs ! j, rs ! i) \<notin> (par g)\<^sup>+"
      by blast
    have len: "length rslt = length rs" using red by (simp add: reducing_def)
    have r2i: "?x \<in> set bases \<Longrightarrow> ?r2 ! i = None" "?y \<in> set bases \<Longrightarrow> ?r2 ! j = None"
      using ij len by (auto simp: nth_list_update)
    have "drop_reached env (ij # ijs) rslt st = Some (st', rslt')"
      using ij xy d(1-3) r(1) by (simp add: Let_def)
    moreover have "rslt' ! i \<noteq> None \<longrightarrow> rslt' ! j \<noteq> None \<longrightarrow> (?x, ?y) \<notin> (par g)\<^sup>+ \<and> (?y, ?x) \<notin> (par g)\<^sup>+"
      using r(6) r2i d(7,8) ij by (meson less_trans)
    moreover have "\<forall>k < length rs. rslt ! k = None \<longrightarrow> rslt' ! k = None"
    proof (intro allI impI)
      fix k
      assume k: "k < length rs" "rslt ! k = None"
      then have "?r1 ! k = None" using none_kept [of k rslt i] len by simp
      then have "?r2 ! k = None" using none_kept [of k ?r1 j] k(1) len by simp
      then show "rslt' ! k = None" using r(6) k(1) by blast
    qed
    moreover have "dom st \<subseteq> dom st'" using d(6) r(4) by blast
    ultimately show ?thesis using r(2,3,5,7) ij by (intro exI [of _ st'] exI [of _ rslt']) auto
  qed
qed auto

lemma set_pairs_below: "set (pairs_below n) = {(i, j). i < j \<and> j < n}"
proof -
  have "(i, j) \<in> set (pairs_below n)" if "i < j" "j < n" for i j
  proof -
    have "i \<in> set [0..<n - 1]" "j \<in> set [i + 1..<n]" using that by auto
    then show ?thesis unfolding pairs_below_def by force
  qed
  then show ?thesis by (auto simp: pairs_below_def)
qed

lemma insert_survivors_set: "set (insert_survivors st rslt) = {c. Some c \<in> set rslt}"
proof -
  have "set (foldl (\<lambda>result v. case v of None \<Rightarrow> result | Some c \<Rightarrow> commit_list_insert_by_date st c result) acc rslt)
      = set acc \<union> {c. Some c \<in> set rslt}" for acc
    by (induction rslt arbitrary: acc) (auto split: option.splits)
  then show ?thesis by (simp add: insert_survivors_def)
qed

lemma insert_survivors_distinct:
  assumes "length rslt = length rs" "distinct rs" "\<And>k. k < length rs \<Longrightarrow> rslt ! k = Some (rs ! k) \<or> rslt ! k = None"
  shows "distinct (insert_survivors st rslt)"
proof -
  let ?ins = "\<lambda>result v. case v of None \<Rightarrow> result | Some c \<Rightarrow> commit_list_insert_by_date st c result"
  have "distinct (foldl ?ins acc rslt)" if "distinct acc" "set acc \<inter> set rs = {}" for acc
    using assms that
  proof (induction rslt arbitrary: acc rs)
    case (Cons v rslt)
    then obtain r rs' where rs: "rs = r # rs'" by (cases rs) auto
    have v: "v = Some r \<or> v = None" using Cons.prems(3) [of 0] rs by auto
    have "rslt ! k = Some (rs' ! k) \<or> rslt ! k = None" if "k < length rs'" for k
      using Cons.prems(3) [of "Suc k"] that rs by auto
    then show ?case using Cons.IH [of rs' "?ins acc v"] Cons.prems(1,2,4,5) rs v by auto
  qed simp
  then show ?thesis by (simp add: insert_survivors_def)
qed

text \<open>Once every pair is looked at, the survivors are the best common ancestors.\<close>

lemma survivors_best:
  assumes h: "history g" and common: "\<forall>r \<in> set rs. common_ancestor g one twos r" and best: "best_common g one twos \<subseteq> set rs"
    and red: "reducing g rs rslt"
    and all: "\<And>i j. i < j \<Longrightarrow> j < length rs \<Longrightarrow> rslt ! i \<noteq> None \<Longrightarrow> rslt ! j \<noteq> None
      \<Longrightarrow> (rs ! i, rs ! j) \<notin> (par g)\<^sup>+ \<and> (rs ! j, rs ! i) \<notin> (par g)\<^sup>+"
  shows "{c. Some c \<in> set rslt} = best_common g one twos"
proof -
  have stays: "k < length rs \<Longrightarrow> rslt ! k = Some (rs ! k) \<or> rslt ! k = None \<and> (\<exists>r \<in> set rs. (r, rs ! k) \<in> (par g)\<^sup>+)" for k
    using red by (simp add: reducing_def)
  have len: "length rslt = length rs" using red by (simp add: reducing_def)
  have kept: "\<exists>m < length rs. rs ! m = b \<and> rslt ! m = Some b" if b: "b \<in> best_common g one twos" for b
  proof -
    obtain m where m: "m < length rs" "rs ! m = b" using b best by (metis in_set_conv_nth subsetD)
    have "(r, b) \<notin> (par g)\<^sup>+" if "r \<in> set rs" for r using b common that by (auto simp: best_common_def)
    then show ?thesis using stays [OF m(1)] m by auto
  qed
  have "c \<in> best_common g one twos" if c: "Some c \<in> set rslt" for c
  proof (rule ccontr)
    obtain k where k: "k < length rs" "rslt ! k = Some c" using c len by (metis in_set_conv_nth)
    then have ck: "rs ! k = c" using stays [OF k(1)] by auto
    then have cc: "common_ancestor g one twos c" using common k(1) nth_mem by blast
    assume "c \<notin> best_common g one twos"
    then obtain r where r: "common_ancestor g one twos r" "(r, c) \<in> (par g)\<^sup>+" using cc by (auto simp: best_common_def)
    obtain b where b: "b \<in> best_common g one twos" "(b, r) \<in> (par g)\<^sup>*" using best_above [OF h r(1)] by blast
    have bc: "(b, c) \<in> (par g)\<^sup>+" using b(2) r(2) by simp
    obtain m where m: "m < length rs" "rs ! m = b" "rslt ! m = Some b" using kept [OF b(1)] by blast
    have "m \<noteq> k" using \<open>c \<notin> best_common g one twos\<close> b(1) m(2) ck by auto
    then consider "m < k" | "k < m" by linarith
    then show False
    proof cases
      case 1
      then show ?thesis using all [of m k] k m ck bc by auto
    next
      case 2
      then show ?thesis using all [of k m] k m ck bc by auto
    qed
  qed
  moreover have "Some c \<in> set rslt" if "c \<in> best_common g one twos" for c
    using kept [OF that] len by (metis nth_mem)
  ultimately show ?thesis by blast
qed

lemma few_bases:
  assumes h: "history g" and n: "length bases \<le> 1" and common: "\<forall>b \<in> set bases. common_ancestor g one twos b"
    and best: "best_common g one twos \<subseteq> set bases"
  shows "set bases = best_common g one twos"
proof -
  have "b \<in> best_common g one twos" if b: "b \<in> set bases" for b
  proof -
    have "bases = [b]" using n b by (cases bases) auto
    then show ?thesis using best_above [OF h, of one twos b] common best by auto
  qed
  with best show ?thesis by blast
qed

text \<open>The bases in memory, asked for with a cleanup of the marks.\<close>

lemma get_merge_bases_many_ok:
  assumes h: "history g" and a: "agrees env g st" and clean: "unmarked st"
    and one: "one \<in> dom g \<inter> dom st" and twos: "set twos \<subseteq> dom g \<inter> dom st"
  shows "\<exists>st' bases. get_merge_bases_many env one twos True st = Some (st', bases) \<and> agrees env g st' \<and> unmarked st'
    \<and> dom st \<subseteq> dom st' \<and> distinct bases \<and> set bases = best_common g one (set twos) \<and> set bases \<subseteq> dom g \<inter> dom st'"
proof (cases "one \<in> set twos")
  case True
  then show ?thesis using a clean one best_common_same [OF h True]
    by (simp add: get_merge_bases_many_def merge_bases_many_def)
next
  case False
  have fin: "finite (dom g)" using h by (simp add: history_def)
  have o1: "one \<in> dom g" "one \<in> dom st" using one by auto
  from merge_bases_many_ok [OF a fin clean o1 twos False] obtain st1 bases where
    m: "merge_bases_many env one twos st = Some (st1, bases)" "agrees env g st1" "dom st \<subseteq> dom st1"
    "walked g one (set twos) st1" "distinct bases" "set bases \<subseteq> dom g \<inter> parsed_in st1"
    "\<forall>b \<in> set bases. common_ancestor g one (set twos) b" "best_common g one (set twos) \<subseteq> set bases" by blast
  have "one \<in> dom st1" "set twos \<subseteq> dom st1" using o1 twos m(3) by blast+
  from walked_clear [OF m(4,2) fin this] obtain st2 where
    c: "clear_marks_many all_flags (one # twos) st1 = Some st2" "agrees env g st2" "unmarked st2" "dom st2 = dom st1" by blast
  show ?thesis
  proof (cases "length bases \<le> 1")
    case few: True
    then have "get_merge_bases_many env one twos True st = Some (st2, bases)"
      unfolding get_merge_bases_many_def m(1) option.case prod.case if_not_P [OF False] if_P [OF few] c(1) by simp
    moreover have "set bases \<subseteq> dom g \<inter> dom st2" using m(6) parsed_in_dom [of st1] c(4) by blast
    ultimately show ?thesis using few_bases [OF h few m(7,8)] c(2-4) m(3,5)
      by (intro exI [of _ st2] exI [of _ bases]) simp
  next
    case many: False
    have sub: "set bases \<subseteq> dom g \<inter> dom st2" using m(6) parsed_in_dom [of st1] c(4) by blast
    have red: "reducing g bases (map Some bases)" by (simp add: reducing_def)
    have prs: "\<forall>(i, j) \<in> set (pairs_below (length bases)). i < j \<and> j < length bases" unfolding set_pairs_below by simp
    from drop_reached_ok [OF h c(2,3) m(5) sub red prs] obtain st3 rslt where
      d: "drop_reached env (pairs_below (length bases)) (map Some bases) st2 = Some (st3, rslt)" "agrees env g st3"
      "unmarked st3" "dom st2 \<subseteq> dom st3" "reducing g bases rslt"
      "\<forall>(i, j) \<in> set (pairs_below (length bases)). rslt ! i \<noteq> None \<longrightarrow> rslt ! j \<noteq> None
        \<longrightarrow> (bases ! i, bases ! j) \<notin> (par g)\<^sup>+ \<and> (bases ! j, bases ! i) \<notin> (par g)\<^sup>+" by blast
    have best: "set (insert_survivors st3 rslt) = best_common g one (set twos)"
      unfolding insert_survivors_set by (rule survivors_best [OF h m(7,8) d(5)]) (use d(6) in \<open>auto simp: set_pairs_below\<close>)
    moreover have "distinct (insert_survivors st3 rslt)"
      using d(5) m(5) by (intro insert_survivors_distinct [of _ bases]) (auto simp: reducing_def)
    moreover have "get_merge_bases_many env one twos True st = Some (st3, insert_survivors st3 rslt)"
      unfolding get_merge_bases_many_def m(1) option.case prod.case if_not_P [OF False] if_not_P [OF many] c(1) d(1) ..
    moreover have "set (insert_survivors st3 rslt) \<subseteq> dom g \<inter> dom st3" "dom st \<subseteq> dom st3"
      using best m(3,8) sub d(4) c(4) by blast+
    ultimately show ?thesis using d(2,3) best
      by (intro exI [of _ st3] exI [of _ "insert_survivors st3 rslt"]) simp
  qed
qed

subsection \<open>Asking for ancestors, heads, and many merge bases\<close>

lemma base_of_two:
  assumes h: "history g"
  shows "c \<in> best_common g c ts \<longleftrightarrow> (\<exists>t \<in> ts. (t, c) \<in> (par g)\<^sup>*)"
    and "(\<exists>t \<in> ts. (t, c) \<in> (par g)\<^sup>*) \<Longrightarrow> best_common g c ts = {c}"
proof -
  have ac: "acyclic (par g)" using h by (simp add: history_def)
  show iff: "c \<in> best_common g c ts \<longleftrightarrow> (\<exists>t \<in> ts. (t, c) \<in> (par g)\<^sup>*)"
    using acyclic_up [OF ac] by (auto simp: best_common_def common_ancestor_def)
  assume "\<exists>t \<in> ts. (t, c) \<in> (par g)\<^sup>*"
  then have cc: "common_ancestor g c ts c" "c \<in> best_common g c ts" using iff by (auto simp: common_ancestor_def)
  have "x = c" if x: "x \<in> best_common g c ts" for x
  proof (rule ccontr)
    assume "x \<noteq> c"
    moreover have "(c, x) \<in> (par g)\<^sup>*" using x by (auto simp: best_common_def common_ancestor_def)
    ultimately have "(c, x) \<in> (par g)\<^sup>+" using rtrancl_strict by metis
    then show False using x cc(1) by (auto simp: best_common_def)
  qed
  then show "best_common g c ts = {c}" using cc(2) by blast
qed

text \<open>What a question about the history needs, and keeps: objects that agree with it, without marks.\<close>

definition ready :: "commit_env \<Rightarrow> (name \<rightharpoonup> name list) \<Rightarrow> store \<Rightarrow> bool" where
  "ready env g st = (history g \<and> agrees env g st \<and> unmarked st)"

lemma get_merge_bases_ready:
  assumes r: "ready env g st" and "one \<in> dom g \<inter> dom st" "set twos \<subseteq> dom g \<inter> dom st"
  obtains st' bases where "get_merge_bases_many env one twos True st = Some (st', bases)" "ready env g st'" "dom st \<subseteq> dom st'"
    "distinct bases" "set bases = best_common g one (set twos)" "set bases \<subseteq> dom g \<inter> dom st'"
  using get_merge_bases_many_ok [of g env st one twos] assms unfolding ready_def by blast

lemma in_merge_bases_ok:
  assumes r: "ready env g st" and c: "commit \<in> dom g \<inter> dom st" "reference \<in> dom g \<inter> dom st"
    and sha1: "\<forall>x \<in> dom g. length x = 20"
  shows "\<exists>st'. in_merge_bases env commit reference st = Some (st', (reference, commit) \<in> (par g)\<^sup>*)
    \<and> ready env g st' \<and> dom st \<subseteq> dom st'"
proof -
  have ref: "set [reference] \<subseteq> dom g \<inter> dom st" using c by simp
  obtain st' bases where m: "get_merge_bases_many env commit [reference] True st = Some (st', bases)" "ready env g st'"
    "dom st \<subseteq> dom st'" "set bases = best_common g commit (set [reference])" by (rule get_merge_bases_ready [OF r c(1) ref])
  have h: "history g" using r by (simp add: ready_def)
  have "hashcmp commit b = 0 \<longleftrightarrow> b = commit" if b: "b \<in> set bases" for b
  proof -
    have "(commit, b) \<in> (par g)\<^sup>*" using b m(4) by (simp add: best_common_def common_ancestor_def)
    then have "b \<in> dom g"
    proof (cases rule: rtranclE)
      case (step y)
      have "agrees env g st" using r by (simp add: ready_def)
      then show ?thesis using step(2) by (auto simp: par_def agrees_def)
    qed (use c in simp)
    then have "length commit = length b" using sha1 c(1) by auto
    then show ?thesis using hashcmp_order by blast
  qed
  then have "(\<exists>b \<in> set bases. hashcmp commit b = 0) \<longleftrightarrow> (reference, commit) \<in> (par g)\<^sup>*"
    using base_of_two(1) [OF h, of commit "{reference}"] m(4) by auto
  then show ?thesis using m(1-3) by (simp add: in_merge_bases_def get_merge_bases_def)
qed

lemma is_descendant_loop_ok:
  "ready env g st \<Longrightarrow> set others \<subseteq> dom g \<inter> dom st \<Longrightarrow> commit \<in> dom g \<inter> dom st \<Longrightarrow> \<forall>x \<in> dom g. length x = 20
    \<Longrightarrow> \<exists>st'. is_descendant_loop env commit others st = Some (st', \<exists>q \<in> set others. (commit, q) \<in> (par g)\<^sup>*) \<and> ready env g st'"
proof (induction others arbitrary: st)
  case (Cons q others)
  have q: "q \<in> dom g \<inter> dom st" using Cons.prems(2) by simp
  obtain st1 where st1: "in_merge_bases env q commit st = Some (st1, (commit, q) \<in> (par g)\<^sup>*)" "ready env g st1" "dom st \<subseteq> dom st1"
    using in_merge_bases_ok [OF Cons.prems(1) q Cons.prems(3,4)] by blast
  have "set others \<subseteq> dom g \<inter> dom st1" "commit \<in> dom g \<inter> dom st1" using Cons.prems(2,3) st1(3) by (simp, blast)+
  from Cons.IH [OF st1(2) this Cons.prems(4)] st1(1,2) show ?case by auto
qed simp

text \<open>The heads no other head reaches.\<close>

definition independent_heads :: "(name \<rightharpoonup> name list) \<Rightarrow> name set \<Rightarrow> name set" where
  "independent_heads g hs = {p \<in> hs. \<forall>q \<in> hs. q \<noteq> p \<longrightarrow> (q, p) \<notin> (par g)\<^sup>*}"

lemma reduce_heads_loop_ok:
  "ready env g st \<Longrightarrow> set heads \<subseteq> dom g \<inter> dom st \<Longrightarrow> set ps \<subseteq> set heads \<Longrightarrow> distinct result
    \<Longrightarrow> set result \<subseteq> independent_heads g (set heads)
    \<Longrightarrow> \<exists>st' result'. reduce_heads_loop env heads ps result st = Some (st', result') \<and> ready env g st' \<and> distinct result'
      \<and> set result' = set result \<union> (set ps \<inter> independent_heads g (set heads))"
proof (induction ps arbitrary: st result)
  case (Cons p ps)
  let ?I = "independent_heads g (set heads)"
  show ?case
  proof (cases "p \<in> set result")
    case True
    then show ?thesis using Cons.IH [OF Cons.prems(1,2) _ Cons.prems(4,5)] Cons.prems(3,5) by auto
  next
    case False
    let ?other = "filter (\<lambda>q. q \<noteq> p) heads"
    have p: "p \<in> dom g \<inter> dom st" "set ?other \<subseteq> dom g \<inter> dom st" "p \<in> set heads" using Cons.prems(2,3) by auto
    have h: "history g" using Cons.prems(1) by (simp add: ready_def)
    obtain st1 base where b: "(if ?other \<noteq> [] then get_merge_bases_many env p ?other True st else Some (st, [])) = Some (st1, base)"
      "ready env g st1" "dom st \<subseteq> dom st1" "set base = best_common g p (set ?other)"
    proof (cases "?other = []")
      case True
      then have "best_common g p (set ?other) = {}" by (simp add: best_common_def common_ancestor_def)
      then show ?thesis using that [of st "[]"] Cons.prems(1) True by simp
    next
      case False
      show ?thesis by (rule get_merge_bases_ready [OF Cons.prems(1) p(1,2)]) (use that False in auto)
    qed
    have indep: "(base = [] \<or> hd base \<noteq> p) \<longleftrightarrow> p \<in> ?I"
    proof (cases "\<exists>q \<in> set ?other. (q, p) \<in> (par g)\<^sup>*")
      case True
      then have "set base = {p}" using base_of_two(2) [OF h True] b(4) by simp
      then have "base \<noteq> []" "hd base = p" using hd_in_set [of base] by (fastforce, fastforce)
      then show ?thesis using True by (auto simp: independent_heads_def)
    next
      case False
      then have "p \<notin> set base" using base_of_two(1) [OF h, of p "set ?other"] b(4) by simp
      then have "base = [] \<or> hd base \<noteq> p" by (metis hd_in_set)
      then show ?thesis using False p(3) by (auto simp: independent_heads_def)
    qed
    let ?result = "if base = [] \<or> hd base \<noteq> p then result @ [p] else result"
    have set1: "set ?result = set result \<union> ({p} \<inter> ?I)" using indep by auto
    have "set heads \<subseteq> dom g \<inter> dom st1" "set ps \<subseteq> set heads" "distinct ?result" "set ?result \<subseteq> ?I"
      using Cons.prems(2-5) b(3) False set1 by (blast, simp_all)
    from Cons.IH [OF b(2) this] obtain st' result' where
      r: "reduce_heads_loop env heads ps ?result st1 = Some (st', result')" "ready env g st'" "distinct result'"
      "set result' = set ?result \<union> (set ps \<inter> ?I)" by blast
    have "reduce_heads_loop env heads (p # ps) result st = Some (st', result')"
      unfolding reduce_heads_loop.simps if_not_P [OF False] Let_def b(1) option.case prod.case r(1) ..
    moreover have "set result' = set result \<union> (set (p # ps) \<inter> ?I)" using r(4) set1 by auto
    ultimately show ?thesis using r(2,3) by blast
  qed
qed simp

lemma octopus_step_ok:
  "ready env g st \<Longrightarrow> i \<in> dom g \<inter> dom st \<Longrightarrow> set ret \<subseteq> dom g \<inter> dom st
    \<Longrightarrow> \<exists>st' ret'. octopus_step env i ret st = Some (st', ret') \<and> ready env g st' \<and> dom st \<subseteq> dom st'
      \<and> set ret' = (\<Union>j \<in> set ret. best_common g i {j}) \<and> set ret' \<subseteq> dom g \<inter> dom st'"
proof (induction ret arbitrary: st)
  case (Cons j js)
  have j: "set [j] \<subseteq> dom g \<inter> dom st" using Cons.prems(3) by simp
  obtain st1 bases where m: "get_merge_bases_many env i [j] True st = Some (st1, bases)" "ready env g st1" "dom st \<subseteq> dom st1"
    "set bases = best_common g i (set [j])" "set bases \<subseteq> dom g \<inter> dom st1" by (rule get_merge_bases_ready [OF Cons.prems(1,2) j])
  have i1: "i \<in> dom g \<inter> dom st1" using Cons.prems(2) m(3) by blast
  have "set js \<subseteq> dom g \<inter> dom st" using Cons.prems(3) by simp
  then have "set js \<subseteq> dom g \<inter> dom st1" using m(3) by blast
  from Cons.IH [OF m(2) i1 this] obtain st' rest where r: "octopus_step env i js st1 = Some (st', rest)" "ready env g st'"
    "dom st1 \<subseteq> dom st'" "set rest = (\<Union>j \<in> set js. best_common g i {j})" "set rest \<subseteq> dom g \<inter> dom st'" by blast
  have "octopus_step env i (j # js) st = Some (st', bases @ rest)" using m(1) r(1) by (simp add: get_merge_bases_def)
  moreover have "dom st \<subseteq> dom st'" "set (bases @ rest) \<subseteq> dom g \<inter> dom st'" using m(3,5) r(3,5) by (blast, simp, blast)
  moreover have "set (bases @ rest) = (\<Union>j \<in> set (j # js). best_common g i {j})" using m(4) r(4) by simp
  ultimately show ?case using r(2) by blast
qed simp

text \<open>The bases of an octopus reach exactly the common ancestors of all its heads.\<close>

lemma octopus_meet:
  assumes "history g"
  shows "(\<exists>b \<in> (\<Union>j \<in> js. best_common g i {j}). (b, x) \<in> (par g)\<^sup>*)
    \<longleftrightarrow> (i, x) \<in> (par g)\<^sup>* \<and> (\<exists>j \<in> js. (j, x) \<in> (par g)\<^sup>*)"
proof
  assume "\<exists>b \<in> (\<Union>j \<in> js. best_common g i {j}). (b, x) \<in> (par g)\<^sup>*"
  then obtain j b where "j \<in> js" "common_ancestor g i {j} b" "(b, x) \<in> (par g)\<^sup>*" by (auto simp: best_common_def)
  then show "(i, x) \<in> (par g)\<^sup>* \<and> (\<exists>j \<in> js. (j, x) \<in> (par g)\<^sup>*)"
    unfolding common_ancestor_def by (auto intro: rtrancl_trans)
next
  assume r: "(i, x) \<in> (par g)\<^sup>* \<and> (\<exists>j \<in> js. (j, x) \<in> (par g)\<^sup>*)"
  then obtain j where j: "j \<in> js" "common_ancestor g i {j} x" by (auto simp: common_ancestor_def)
  obtain b where "b \<in> best_common g i {j}" "(b, x) \<in> (par g)\<^sup>*" using best_above [OF assms j(2)] by (rule bexE)
  with j(1) show "\<exists>b \<in> (\<Union>j \<in> js. best_common g i {j}). (b, x) \<in> (par g)\<^sup>*" by (intro bexI UN_I)
qed

lemma octopus_loop_ok:
  "ready env g st \<Longrightarrow> set is \<subseteq> dom g \<inter> dom st \<Longrightarrow> set ret \<subseteq> dom g \<inter> dom st
    \<Longrightarrow> \<exists>st' ret'. octopus_loop env is ret st = Some (st', ret') \<and> ready env g st'
      \<and> (\<forall>x. (\<exists>b \<in> set ret'. (b, x) \<in> (par g)\<^sup>*)
           \<longleftrightarrow> (\<exists>b \<in> set ret. (b, x) \<in> (par g)\<^sup>*) \<and> (\<forall>i \<in> set is. (i, x) \<in> (par g)\<^sup>*))"
proof (induction "is" arbitrary: st ret)
  case (Cons i js)
  have i: "i \<in> dom g \<inter> dom st" using Cons.prems(2) by simp
  have h: "history g" using Cons.prems(1) by (simp add: ready_def)
  from octopus_step_ok [OF Cons.prems(1) i Cons.prems(3)] obtain st1 ret1 where
    s: "octopus_step env i ret st = Some (st1, ret1)" "ready env g st1" "dom st \<subseteq> dom st1"
    "set ret1 = (\<Union>j \<in> set ret. best_common g i {j})" "set ret1 \<subseteq> dom g \<inter> dom st1" by blast
  have "set js \<subseteq> dom g \<inter> dom st" using Cons.prems(2) by simp
  then have "set js \<subseteq> dom g \<inter> dom st1" using s(3) by blast
  from Cons.IH [OF s(2) this s(5)] obtain st' ret' where r: "octopus_loop env js ret1 st1 = Some (st', ret')" "ready env g st'"
    "\<forall>x. (\<exists>b \<in> set ret'. (b, x) \<in> (par g)\<^sup>*)
           \<longleftrightarrow> (\<exists>b \<in> set ret1. (b, x) \<in> (par g)\<^sup>*) \<and> (\<forall>i \<in> set js. (i, x) \<in> (par g)\<^sup>*)" by blast
  have meet: "(\<exists>b \<in> set ret1. (b, x) \<in> (par g)\<^sup>*) \<longleftrightarrow> (i, x) \<in> (par g)\<^sup>* \<and> (\<exists>j \<in> set ret. (j, x) \<in> (par g)\<^sup>*)" for x
    unfolding s(4) by (rule octopus_meet [OF h])
  have "octopus_loop env (i # js) ret st = Some (st', ret')" using s(1) r(1) by simp
  moreover have "(\<exists>b \<in> set ret'. (b, x) \<in> (par g)\<^sup>*)
      \<longleftrightarrow> (\<exists>b \<in> set ret. (b, x) \<in> (par g)\<^sup>*) \<and> (\<forall>i \<in> set (i # js). (i, x) \<in> (par g)\<^sup>*)" for x
    unfolding r(3) [rule_format] meet by auto
  ultimately show ?case using r(2) by blast
qed simp

subsection \<open>Properties\<close>

text \<open>
  A small history for the witnesses: the commits 1 and 2 have the parents 3 and 4 each, and these have
  the parent 5, a commit of which only the name is in memory and whose text is in the object database.
\<close>

definition sha :: "nat \<Rightarrow> name" where "sha n = replicate 20 (of_nat n)"

definition demo_history :: "name \<rightharpoonup> name list" where
  "demo_history = [sha 1 \<mapsto> [sha 3, sha 4], sha 2 \<mapsto> [sha 3, sha 4], sha 3 \<mapsto> [sha 5], sha 4 \<mapsto> [sha 5], sha 5 \<mapsto> []]"

definition demo_commit :: "u64 \<Rightarrow> name list \<Rightarrow> commit" where
  "demo_commit d ps = (new_object OBJ_COMMIT)\<lparr>parsed := True, date := d, parents := ps\<rparr>"

definition demo_store :: store where
  "demo_store = [sha 1 \<mapsto> demo_commit 9 [sha 3, sha 4], sha 2 \<mapsto> demo_commit 8 [sha 3, sha 4],
     sha 3 \<mapsto> demo_commit 4 [sha 5], sha 4 \<mapsto> demo_commit 7 [sha 5], sha 5 \<mapsto> new_object OBJ_COMMIT]"

definition demo_commits :: commit_env where
  "demo_commits = \<lparr>read_sha1_file = [sha 5 \<mapsto> (OBJ_COMMIT,
       ''tree '' @ replicate 40 CHR ''0'' @ [CHR 0x0A] @ ''author A <a> 5 +0000'' @ [CHR 0x0A] @ ''committer A <a> 5 +0000'' @ [CHR 0x0A, CHR 0x0A])],
     commit_graft = [], grafts_replace_parents = False\<rparr>"

lemma sha_inj: "m < 256 \<Longrightarrow> n < 256 \<Longrightarrow> sha m = sha n \<longleftrightarrow> m = n"
proof -
  assume "m < 256" "n < 256"
  then have "unat (of_nat m :: byte) = m" "unat (of_nat n :: byte) = n" by (simp_all add: unat_of_nat_small)
  then have "(of_nat m :: byte) = of_nat n \<longleftrightarrow> m = n" by metis
  then show ?thesis by (simp add: sha_def)
qed

lemma demo_links: "commit_links demo_commits (sha 5) = Some (sha 0, [])"
  by code_simp

lemma demo_par: "par demo_history = {(sha 1, sha 3), (sha 1, sha 4), (sha 2, sha 3), (sha 2, sha 4), (sha 3, sha 5), (sha 4, sha 5)}"
  unfolding par_def demo_history_def by (auto simp: sha_inj split: if_splits)

lemma demo_dom: "dom demo_history = {sha 1, sha 2, sha 3, sha 4, sha 5}" "dom demo_store = dom demo_history"
  by (auto simp: demo_history_def demo_store_def)

lemma demo_ready: "ready demo_commits demo_history demo_store"
proof -
  have "par demo_history \<subseteq> measure (\<lambda>x. unat (hd x))"
    unfolding demo_par by (simp add: sha_def)
  then have "acyclic (par demo_history)" by (rule wf_acyclic [OF wf_subset [OF wf_measure]])
  moreover have "finite (dom demo_history)" unfolding demo_dom(1) by simp
  moreover have "flags_of demo_store x = 0" for x
    by (simp add: flags_of_def demo_store_def demo_commit_def)
  then have "unmarked demo_store" by (simp add: unmarked_def painted_def colours_def)
  moreover have "agrees demo_commits demo_history demo_store"
  proof -
    have "sha 0 \<notin> dom demo_history" unfolding demo_dom(1) by (simp add: sha_inj)
    then have "loaded demo_commits demo_history demo_store (sha 5) []"
      using demo_links by (simp add: loaded_def demo_store_def)
    moreover have "loaded demo_commits demo_history demo_store (sha 1) [sha 3, sha 4]"
      "loaded demo_commits demo_history demo_store (sha 2) [sha 3, sha 4]"
      "loaded demo_commits demo_history demo_store (sha 3) [sha 5]" "loaded demo_commits demo_history demo_store (sha 4) [sha 5]"
      by (auto simp: loaded_def demo_store_def demo_commit_def sha_inj Let_def)
    moreover have "set ps \<subseteq> dom demo_history" if "demo_history c = Some ps" for c ps
      using that unfolding demo_dom(1) by (auto simp: demo_history_def split: if_splits)
    ultimately show ?thesis unfolding agrees_def by (auto simp: demo_history_def sha_inj split: if_splits)
  qed
  ultimately show ?thesis by (simp add: ready_def history_def)
qed

text \<open>C2. \<open>get_merge_bases_many\<close> returns, and its result is exactly the set of best common
  ancestors of \<open>one\<close> and the others, each once: common ancestors that no other common ancestor
  reaches. This holds whatever the dates of the commits are, which only order the walk and the
  result, and the marks of the walk are all removed again.\<close>

theorem get_merge_bases_exact:
  assumes "history g" "agrees env g st" "unmarked st" "one \<in> dom g \<inter> dom st" "set twos \<subseteq> dom g \<inter> dom st"
  shows "\<exists>st' bases. get_merge_bases_many env one twos True st = Some (st', bases)
    \<and> distinct bases \<and> set bases = best_common g one (set twos) \<and> agrees env g st' \<and> unmarked st'"
  using get_merge_bases_many_ok [OF assms] by blast

theorem get_merge_bases_exact_witness:
  "\<exists>st' bases. get_merge_bases_many demo_commits (sha 1) [sha 2] True demo_store = Some (st', bases)
    \<and> distinct bases \<and> set bases = best_common demo_history (sha 1) (set [sha 2])
    \<and> agrees demo_commits demo_history st' \<and> unmarked st'"
  using demo_ready by (intro get_merge_bases_exact) (auto simp: ready_def demo_dom)

text \<open>C17. The walk of \<open>merge_bases_many\<close> alone, without the reduction, returns as well: every
  commit it finds is a common ancestor, and it finds every best one even when the dates are wrong, as it
  goes on until all it has left to visit is stale.\<close>

theorem merge_bases_walk_finds_best:
  assumes "agrees env g st" "finite (dom g)" "unmarked st" "one \<in> dom g \<inter> dom st" "set twos \<subseteq> dom g \<inter> dom st"
    and "one \<notin> set twos"
  shows "\<exists>st' bases. merge_bases_many env one twos st = Some (st', bases)
    \<and> (\<forall>b \<in> set bases. common_ancestor g one (set twos) b) \<and> best_common g one (set twos) \<subseteq> set bases"
  using merge_bases_many_ok [of env g st one twos] assms by blast

theorem merge_bases_walk_finds_best_witness:
  "\<exists>st' bases. merge_bases_many demo_commits (sha 1) [sha 2] demo_store = Some (st', bases)
    \<and> list_all (common_ancestor demo_history (sha 1) {sha 2}) bases \<and> best_common demo_history (sha 1) {sha 2} \<subseteq> set bases"
proof -
  have "\<exists>st' bases. merge_bases_many demo_commits (sha 1) [sha 2] demo_store = Some (st', bases)
    \<and> (\<forall>b \<in> set bases. common_ancestor demo_history (sha 1) (set [sha 2]) b)
    \<and> best_common demo_history (sha 1) (set [sha 2]) \<subseteq> set bases"
    using demo_ready by (intro merge_bases_walk_finds_best) (auto simp: ready_def history_def demo_dom sha_inj)
  then show ?thesis by (simp add: list_all_iff)
qed

text \<open>C16. \<open>in_merge_bases\<close> answers whether the commit is an ancestor of the reference (or the
  reference itself), and leaves no marks behind.\<close>

theorem in_merge_bases_ancestor:
  assumes "history g" "agrees env g st" "unmarked st" "commit \<in> dom g \<inter> dom st" "reference \<in> dom g \<inter> dom st"
    and "\<forall>x \<in> dom g. length x = 20"
  shows "\<exists>st'. in_merge_bases env commit reference st = Some (st', (reference, commit) \<in> (par g)\<^sup>*) \<and> unmarked st'"
  using in_merge_bases_ok [of env g st commit reference] assms by (auto simp: ready_def)

theorem in_merge_bases_ancestor_witness:
  "\<exists>st'. in_merge_bases demo_commits (sha 5) (sha 1) demo_store
    = Some (st', (sha 1, sha 5) \<in> (par demo_history)\<^sup>*) \<and> unmarked st'"
  using demo_ready by (intro in_merge_bases_ancestor) (auto simp: ready_def demo_dom sha_def)

text \<open>C15. \<open>reduce_heads\<close> keeps, each once, exactly the heads that no other head reaches.\<close>

theorem reduce_heads_independent:
  assumes "history g" "agrees env g st" "unmarked st" "set heads \<subseteq> dom g \<inter> dom st"
  shows "\<exists>st' result. reduce_heads env heads st = Some (st', result) \<and> distinct result
    \<and> set result = independent_heads g (set heads) \<and> unmarked st'"
proof -
  have "ready env g st" using assms by (simp add: ready_def)
  from reduce_heads_loop_ok [OF this assms(4) order_refl, of "[]"] obtain st' result where
    "reduce_heads env heads st = Some (st', result)" "ready env g st'" "distinct result"
    "set result = set heads \<inter> independent_heads g (set heads)" by (auto simp: reduce_heads_def)
  moreover have "independent_heads g (set heads) \<subseteq> set heads" by (auto simp: independent_heads_def)
  ultimately show ?thesis by (auto simp: ready_def)
qed

theorem reduce_heads_independent_witness:
  "\<exists>st' result. reduce_heads demo_commits [sha 1, sha 3, sha 1, sha 2] demo_store = Some (st', result) \<and> distinct result
    \<and> set result = independent_heads demo_history (set [sha 1, sha 3, sha 1, sha 2]) \<and> unmarked st'"
  using demo_ready by (intro reduce_heads_independent) (auto simp: ready_def demo_dom)

text \<open>The merge bases of an octopus reach exactly the commits that every head reaches.\<close>

theorem octopus_bases_meet:
  assumes "history g" "agrees env g st" "unmarked st" "set heads \<subseteq> dom g \<inter> dom st" "heads \<noteq> []"
  shows "\<exists>st' bases. get_octopus_merge_bases env heads st = Some (st', bases) \<and> unmarked st'
    \<and> {x. \<exists>b \<in> set bases. (b, x) \<in> (par g)\<^sup>*} = {x. \<forall>h \<in> set heads. (h, x) \<in> (par g)\<^sup>*}"
proof -
  obtain i "is" where heads: "heads = i # is" using assms(5) by (cases heads) auto
  have r: "ready env g st" using assms by (simp add: ready_def)
  have "set is \<subseteq> dom g \<inter> dom st" "set [i] \<subseteq> dom g \<inter> dom st" using assms(4) heads by simp_all
  from octopus_loop_ok [OF r this] obtain st' bases where "octopus_loop env is [i] st = Some (st', bases)" "ready env g st'"
    "\<forall>x. (\<exists>b \<in> set bases. (b, x) \<in> (par g)\<^sup>*) \<longleftrightarrow> (i, x) \<in> (par g)\<^sup>* \<and> (\<forall>i \<in> set is. (i, x) \<in> (par g)\<^sup>*)" by auto
  then show ?thesis unfolding heads get_octopus_merge_bases_def
    by (intro exI [of _ st'] exI [of _ bases]) (simp add: ready_def)
qed

theorem octopus_bases_meet_witness:
  "\<exists>st' bases. get_octopus_merge_bases demo_commits [sha 1, sha 2, sha 4] demo_store = Some (st', bases) \<and> unmarked st'
    \<and> {x. list_ex (\<lambda>b. (b, x) \<in> (par demo_history)\<^sup>*) bases}
      = {x. list_all (\<lambda>h. (h, x) \<in> (par demo_history)\<^sup>*) [sha 1, sha 2, sha 4]}"
proof -
  have "\<exists>st' bases. get_octopus_merge_bases demo_commits [sha 1, sha 2, sha 4] demo_store = Some (st', bases) \<and> unmarked st'
    \<and> {x. \<exists>b \<in> set bases. (b, x) \<in> (par demo_history)\<^sup>*}
      = {x. \<forall>h \<in> set [sha 1, sha 2, sha 4]. (h, x) \<in> (par demo_history)\<^sup>*}"
    using demo_ready by (intro octopus_bases_meet) (auto simp: ready_def demo_dom)
  then show ?thesis unfolding list_all_iff list_ex_iff .
qed

end
