(* ===== verification/Topo_Sort.thy ===== *)
theory Topo_Sort
  imports Merge_Base Mergesort "HOL-Library.Multiset"
begin

text \<open>
  \<open>sort_in_topological_order\<close> of \<^verbatim>\<open>commit.c\<close>: the commits of a list are put out with every
  child before its parents. Each commit counts its children in the list that are not yet put out; a
  commit whose count is down to one (the count starts there) is ready.
\<close>

subsection \<open>Sorting a list of commits by date\<close>

definition commit_list_compare_by_date :: "store \<Rightarrow> name \<Rightarrow> name \<Rightarrow> int" where
  "commit_list_compare_by_date st a b =
     (if date (commit_at st a) < date (commit_at st b) then 1
      else if date (commit_at st b) < date (commit_at st a) then - 1 else 0)"

text \<open>
  The cells of the list are numbered; \<open>llist_mergesort\<close> relinks them, and the sorted list is read
  off the links.
\<close>

fun read_cells :: "(nat \<Rightarrow> nat option) \<Rightarrow> nat \<Rightarrow> nat option \<Rightarrow> nat list" where
  "read_cells nxt (Suc n) (Some i) = i # read_cells nxt n (nxt i)"
| "read_cells nxt _ _ = []"

definition commit_list_sort_by_date :: "store \<Rightarrow> name list \<Rightarrow> name list option" where
  "commit_list_sort_by_date st list =
     (case llist_mergesort (\<lambda>i j. commit_list_compare_by_date st (list ! i) (list ! j))
        (\<lambda>i. if i + 1 < length list then Some (i + 1) else None) (if list = [] then None else Some 0) of
        None \<Rightarrow> None
      | Some (nxt, head) \<Rightarrow> Some (map ((!) list) (read_cells nxt (length list) head)))"

lemma chain_upto:
  "m \<le> n \<Longrightarrow> chain (\<lambda>i. if i + 1 < n then Some (i + 1) else None) (if m < n then Some m else None) [m..<n]"
proof (induction "n - m" arbitrary: m)
  case (Suc k)
  have "chain (\<lambda>i. if i + 1 < n then Some (i + 1) else None) (if Suc m < n then Some (Suc m) else None) [Suc m..<n]"
    using Suc by (intro Suc.hyps(1)) auto
  moreover have m: "m < n" using Suc.hyps(2) by simp
  ultimately show ?case unfolding upt_conv_Cons [OF m] if_P [OF m] chain.simps Suc_eq_plus1 by simp
qed simp

lemma read_cells_chain: "chain nxt p xs \<Longrightarrow> length xs \<le> n \<Longrightarrow> read_cells nxt n p = xs"
proof (induction xs arbitrary: p n)
  case Nil
  then show ?case by (cases n) simp_all
next
  case (Cons x xs)
  then obtain n' where "n = Suc n'" by (cases n) auto
  then show ?case using Cons by auto
qed

lemma commit_list_sort_by_date_ok:
  "commit_list_sort_by_date st list = Some (map ((!) list) (sort_key (\<lambda>i. - uint (date (commit_at st (list ! i)))) [0..<length list]))"
proof -
  let ?key = "\<lambda>i. - uint (date (commit_at st (list ! i)))"
  let ?cmp = "\<lambda>i j. commit_list_compare_by_date st (list ! i) (list ! j)"
  let ?nxt = "\<lambda>i. if i + 1 < length list then Some (i + 1) else None"
  have ch: "chain ?nxt (if list = [] then None else Some 0) [0..<length list]"
    using chain_upto [of 0 "length list"] by (cases list) auto
  have ord: "orders ?cmp ?key"
    by (auto simp: orders_def commit_list_compare_by_date_def word_less_def)
  obtain nxt' head where
    m: "llist_mergesort ?cmp ?nxt (if list = [] then None else Some 0) = Some (nxt', head)"
    "chain nxt' head (sort_key ?key [0..<length list])" using llist_mergesort_ok [OF ch distinct_upt ord] by blast
  then show ?thesis using read_cells_chain [OF m(2), of "length list"] by (simp add: commit_list_sort_by_date_def)
qed

lemma mset_sorted_by_date: "commit_list_sort_by_date st list = Some list' \<Longrightarrow> mset list' = mset list"
proof -
  assume a: "commit_list_sort_by_date st list = Some list'"
  let ?key = "\<lambda>i. - uint (date (commit_at st (list ! i)))"
  have "list' = map ((!) list) (sort_key ?key [0..<length list])" using a unfolding commit_list_sort_by_date_ok by simp
  then have "mset list' = image_mset ((!) list) (mset (sort_key ?key [0..<length list]))" by simp
  also have "\<dots> = mset (map ((!) list) [0..<length list])" unfolding mset_sort by simp
  finally show ?thesis by (simp only: map_nth)
qed

subsection \<open>The counts\<close>

definition set_indegree :: "u32 \<Rightarrow> name \<Rightarrow> store \<Rightarrow> store" where
  "set_indegree n c = update_at c (\<lambda>o1. o1\<lparr>indegree := n\<rparr>)"

fun mark_listed :: "name list \<Rightarrow> store \<Rightarrow> store" where
  "mark_listed [] st = st"
| "mark_listed (c # cs) st = mark_listed cs (set_indegree 1 c st)"

fun count_parents :: "name list \<Rightarrow> store \<Rightarrow> store" where
  "count_parents [] st = st"
| "count_parents (p # ps) st =
     count_parents ps (if indegree (commit_at st p) \<noteq> 0 then set_indegree (indegree (commit_at st p) + 1) p st else st)"

fun count_children :: "name list \<Rightarrow> store \<Rightarrow> store" where
  "count_children [] st = st"
| "count_children (c # cs) st = count_children cs (count_parents (parents (commit_at st c)) st)"

definition find_tips :: "store \<Rightarrow> name list \<Rightarrow> name list" where
  "find_tips st list = filter (\<lambda>c. indegree (commit_at st c) = 1) list"

text \<open>A commit that is put out is taken off the counts of its parents; a parent that becomes ready
  joins the work list, by date or in front.\<close>

fun release_parents :: "bool \<Rightarrow> name list \<Rightarrow> name list \<Rightarrow> store \<Rightarrow> store \<times> name list" where
  "release_parents lifo [] work st = (st, work)"
| "release_parents lifo (p # ps) work st =
     (if indegree (commit_at st p) = 0 then release_parents lifo ps work st
      else let st = set_indegree (indegree (commit_at st p) - 1) p st in
        release_parents lifo ps
          (if indegree (commit_at st p) = 1
           then (if \<not> lifo then commit_list_insert_by_date st p work else p # work) else work) st)"

partial_function (option) topo_loop :: "bool \<Rightarrow> name list \<Rightarrow> name list \<Rightarrow> store \<Rightarrow> (store \<times> name list) option" where
  "topo_loop lifo work out st =
     (case work of [] \<Rightarrow> Some (st, out)
      | commit # work \<Rightarrow>
          (case release_parents lifo (parents (commit_at st commit)) work st of
             (st, work) \<Rightarrow> topo_loop lifo work (out @ [commit]) (set_indegree 0 commit st)))"

definition sort_in_topological_order :: "name list \<Rightarrow> bool \<Rightarrow> store \<Rightarrow> (store \<times> name list) option" where
  "sort_in_topological_order list lifo st =
     (if list = [] then Some (st, [])
      else let st = count_children list (mark_listed list st); work = find_tips st list in
        case (if \<not> lifo then commit_list_sort_by_date st work else Some work) of None \<Rightarrow> None
        | Some work \<Rightarrow> topo_loop lifo work [] st)"

subsection \<open>The counts as numbers\<close>

text \<open>The count of a commit, and that nothing else of the objects has changed.\<close>

definition ind :: "store \<Rightarrow> name \<Rightarrow> nat" where
  "ind st c = (case st c of None \<Rightarrow> 0 | Some obj \<Rightarrow> unat (indegree obj))"

definition recounted :: "store \<Rightarrow> store \<Rightarrow> bool" where
  "recounted st st' = (dom st' = dom st \<and> (\<forall>c. parents (commit_at st' c) = parents (commit_at st c)))"

lemma recounted_refl [simp]: "recounted st st" by (simp add: recounted_def)

lemma recounted_trans [trans]: "recounted st st1 \<Longrightarrow> recounted st1 st2 \<Longrightarrow> recounted st st2"
  by (simp add: recounted_def)

lemma set_indegree_ok:
  assumes "c \<in> dom st"
  shows "recounted st (set_indegree n c st)" "ind (set_indegree n c st) = (ind st)(c := unat n)"
  using assms by (auto simp: recounted_def set_indegree_def ind_def update_at_def commit_at_def fun_eq_iff)

lemma indegree_ind: "c \<in> dom st \<Longrightarrow> unat (indegree (commit_at st c)) = ind st c"
  by (auto simp: ind_def commit_at_def)

lemma mark_listed_ok:
  "set cs \<subseteq> dom st \<Longrightarrow> recounted st (mark_listed cs st) \<and> ind (mark_listed cs st) = (\<lambda>x. if x \<in> set cs then 1 else ind st x)"
proof (induction cs arbitrary: st)
  case (Cons c cs)
  have c: "c \<in> dom st" using Cons.prems by simp
  note s = set_indegree_ok [OF c, of 1]
  have "set cs \<subseteq> dom (set_indegree 1 c st)" using Cons.prems s(1) by (simp add: recounted_def)
  from Cons.IH [OF this] show ?case using s(2) recounted_trans [OF s(1)] by (auto simp: fun_eq_iff)
qed (simp add: fun_eq_iff)

text \<open>Only commits that are counted are counted up, as often as they are listed.\<close>

lemma count_parents_ok:
  "set ps \<subseteq> dom st \<Longrightarrow> \<forall>x. ind st x + length ps < 2 ^ 32
    \<Longrightarrow> recounted st (count_parents ps st)
      \<and> ind (count_parents ps st) = (\<lambda>x. if ind st x = 0 then 0 else ind st x + count_list ps x)"
proof (induction ps arbitrary: st)
  case (Cons p ps)
  have p: "p \<in> dom st" using Cons.prems by simp
  let ?n = "indegree (commit_at st p)"
  let ?st = "if ?n \<noteq> 0 then set_indegree (?n + 1) p st else st"
  have n: "unat ?n = ind st p" by (rule indegree_ind [OF p])
  have n0: "?n = 0 \<longleftrightarrow> ind st p = 0" using n by (metis unat_eq_zero)
  have "Suc (ind st p) < 2 ^ LENGTH(32)" using Cons.prems(2) [rule_format, of p] by simp
  then have "Suc (unat ?n) < 2 ^ LENGTH(32)" unfolding n .
  then have n1: "unat (?n + 1) = Suc (ind st p)" unfolding n [symmetric] by (rule unat_inc_no_overflow)
  have s: "recounted st ?st" "ind ?st = (if ind st p = 0 then ind st else (ind st)(p := Suc (ind st p)))"
    using set_indegree_ok [OF p, of "?n + 1"] n0 n1 by auto
  have "set ps \<subseteq> dom ?st" using Cons.prems(1) s(1) by (simp add: recounted_def)
  moreover have "ind ?st x + length ps < 2 ^ 32" for x
    using Cons.prems(2) [rule_format, of x] by (cases "x = p") (auto simp: s(2))
  ultimately have IH: "recounted ?st (count_parents ps ?st)"
    "ind (count_parents ps ?st) = (\<lambda>x. if ind ?st x = 0 then 0 else ind ?st x + count_list ps x)"
    using Cons.IH [of ?st] by blast+
  have eq: "count_parents (p # ps) st = count_parents ps ?st" by (rule count_parents.simps)
  have "recounted st (count_parents (p # ps) st)" unfolding eq by (rule recounted_trans [OF s(1) IH(1)])
  moreover have "ind (count_parents (p # ps) st) = (\<lambda>x. if ind st x = 0 then 0 else ind st x + count_list (p # ps) x)"
    unfolding eq IH(2) s(2) by (auto simp: fun_eq_iff)
  ultimately show ?case by blast
qed (simp add: fun_eq_iff)

text \<open>
  The links of a set \<open>R\<close> of commits to \<open>x\<close>, and the state in which every commit of
  \<open>R\<close> counts them; the commits outside count nothing.
\<close>

definition links :: "store \<Rightarrow> name set \<Rightarrow> name \<Rightarrow> nat" where
  "links st R x = (\<Sum>c\<in>R. count_list (parents (commit_at st c)) x)"

lemma links_recounted: "recounted st st' \<Longrightarrow> links st' R = links st R"
  by (simp add: links_def recounted_def fun_eq_iff)

lemma count_children_ok:
  "distinct cs \<Longrightarrow> \<forall>c \<in> set cs. set (parents (commit_at st c)) \<subseteq> dom st
    \<Longrightarrow> \<forall>x. ind st x + (\<Sum>c\<in>set cs. length (parents (commit_at st c))) < 2 ^ 32
    \<Longrightarrow> recounted st (count_children cs st)
      \<and> ind (count_children cs st) = (\<lambda>x. if ind st x = 0 then 0 else ind st x + links st (set cs) x)"
proof (induction cs arbitrary: st)
  case (Cons c cs)
  let ?ps = "parents (commit_at st c)" and ?st = "count_parents (parents (commit_at st c)) st"
  have fits: "ind st x + length ?ps + (\<Sum>c\<in>set cs. length (parents (commit_at st c))) < 2 ^ 32" for x
    using Cons.prems(1,3) by (auto simp: add.assoc)
  have "set ?ps \<subseteq> dom st" using Cons.prems(2) by simp
  moreover have "ind st x + length ?ps < 2 ^ 32" for x using fits [of x] by linarith
  ultimately have s: "recounted st ?st" "ind ?st = (\<lambda>x. if ind st x = 0 then 0 else ind st x + count_list ?ps x)"
    using count_parents_ok [of ?ps st] by blast+
  have ps: "parents (commit_at ?st c') = parents (commit_at st c')" "dom ?st = dom st" for c'
    using s(1) by (auto simp: recounted_def)
  have "\<forall>c' \<in> set cs. set (parents (commit_at ?st c')) \<subseteq> dom ?st" using Cons.prems(2) by (simp add: ps)
  moreover have "ind ?st x + (\<Sum>c'\<in>set cs. length (parents (commit_at ?st c'))) < 2 ^ 32" for x
    using fits [of x] count_le_length [of ?ps x] unfolding ps s(2) by (auto split: if_splits)
  ultimately have IH: "recounted ?st (count_children cs ?st)"
    "ind (count_children cs ?st) = (\<lambda>x. if ind ?st x = 0 then 0 else ind ?st x + links ?st (set cs) x)"
    using Cons.IH [of ?st] Cons.prems(1) by (simp_all only: distinct.simps, blast+)
  have "c \<notin> set cs" using Cons.prems(1) by simp
  then have l: "links st (set (c # cs)) x = count_list ?ps x + links st (set cs) x" for x by (simp add: links_def)
  have "recounted st (count_children (c # cs) st)"
    unfolding count_children.simps by (rule recounted_trans [OF s(1) IH(1)])
  moreover have "ind (count_children (c # cs) st) = (\<lambda>x. if ind st x = 0 then 0 else ind st x + links st (set (c # cs)) x)"
    unfolding count_children.simps IH(2) links_recounted [OF s(1)] s(2) l by (auto simp: fun_eq_iff)
  ultimately show ?case by blast
qed (simp add: fun_eq_iff links_def)

lemma release_parents_ok:
  "set ps \<subseteq> dom st \<Longrightarrow> \<forall>x. ind st x \<noteq> 0 \<longrightarrow> count_list ps x < ind st x \<Longrightarrow> distinct work
    \<Longrightarrow> \<forall>x \<in> set work. ind st x = 1
    \<Longrightarrow> \<exists>st' work'. release_parents lifo ps work st = (st', work') \<and> recounted st st' \<and> distinct work'
      \<and> ind st' = (\<lambda>x. ind st x - count_list ps x)
      \<and> set work' = set work \<union> {x \<in> set ps. ind st' x = 1}"
proof (induction ps arbitrary: work st)
  case (Cons p ps)
  have p: "p \<in> dom st" using Cons.prems(1) by simp
  let ?n = "indegree (commit_at st p)"
  have n: "unat ?n = ind st p" by (rule indegree_ind [OF p])
  have zero: "ind st x = 0 \<or> count_list (p # ps) x < ind st x" for x using Cons.prems(2) by blast
  show ?case
  proof (cases "?n = 0")
    case True
    then have i0: "ind st p = 0" using n by simp
    have rest: "ind st x = 0 \<or> count_list ps x < ind st x" for x using zero [of x] by (cases "p = x") auto
    have "\<forall>x. ind st x \<noteq> 0 \<longrightarrow> count_list ps x < ind st x" using rest by metis
    then obtain st' work' where r: "release_parents lifo ps work st = (st', work')" "recounted st st'" "distinct work'"
      "ind st' = (\<lambda>x. ind st x - count_list ps x)" "set work' = set work \<union> {x \<in> set ps. ind st' x = 1}"
      using Cons.IH [of st work] Cons.prems by auto
    have "ind st' = (\<lambda>x. ind st x - count_list (p # ps) x)" unfolding r(4) using i0 by (auto simp: fun_eq_iff)
    moreover have "set work' = set work \<union> {x \<in> set (p # ps). ind st' x = 1}"
    proof -
      have "ind st' p = 0" unfolding r(4) using i0 by simp
      then show ?thesis unfolding r(5) by auto
    qed
    moreover have "release_parents lifo (p # ps) work st = (st', work')" using True r(1) by simp
    ultimately show ?thesis using r(2,3) by blast
  next
    case False
    have "ind st p \<noteq> 0" using False n by (metis unat_eq_zero)
    then have pos: "0 < ind st p" "Suc (count_list ps p) < ind st p" using zero [of p] by auto
    let ?st = "set_indegree (?n - 1) p st"
    have "unat (?n - 1) = ind st p - 1" using False n by (simp add: unat_dec)
    then have s: "recounted st ?st" "ind ?st = (ind st)(p := ind st p - 1)" using set_indegree_ok [OF p, of "?n - 1"] by auto
    have pst: "p \<in> dom ?st" using p s(1) by (simp add: recounted_def)
    have ready: "indegree (commit_at ?st p) = 1 \<longleftrightarrow> ind ?st p = 1"
      using indegree_ind [OF pst] by (simp add: word_unat_eq_iff)
    let ?work = "if indegree (commit_at ?st p) = 1 then (if \<not> lifo then commit_list_insert_by_date ?st p work else p # work) else work"
    have pw: "p \<notin> set work" using Cons.prems(4) pos by auto
    have w: "set ?work = (if ind ?st p = 1 then insert p (set work) else set work)" "distinct ?work"
      using Cons.prems(3) pw by (auto simp: ready)
    have "set ps \<subseteq> dom ?st" using Cons.prems(1) s(1) by (simp add: recounted_def)
    moreover have "count_list ps x < ind ?st x" if "ind ?st x \<noteq> 0" for x
      using zero [of x] pos that by (cases "x = p") (auto simp: s(2))
    moreover have "\<forall>x \<in> set ?work. ind ?st x = 1" using Cons.prems(4) pw by (auto simp: w(1) s(2) split: if_splits)
    ultimately obtain st' work' where r: "release_parents lifo ps ?work ?st = (st', work')" "recounted ?st st'" "distinct work'"
      "ind st' = (\<lambda>x. ind ?st x - count_list ps x)" "set work' = set ?work \<union> {x \<in> set ps. ind st' x = 1}"
      using Cons.IH [of ?st ?work] w(2) by blast
    have i: "ind st' = (\<lambda>x. ind st x - count_list (p # ps) x)" unfolding r(4) s(2) by (auto simp: fun_eq_iff)
    have last_one: "ind ?st p = 1 \<longrightarrow> p \<notin> set ps" using pos by (auto simp: s(2) count_list_0_iff [symmetric] dest: count_notin)
    have "set work' = set work \<union> {x \<in> set (p # ps). ind st' x = 1}"
    proof -
      have "ind st' p = 1 \<longleftrightarrow> ind ?st p = 1 \<or> p \<in> set ps \<and> ind st' p = 1"
        using pos last_one unfolding r(4) by (cases "p \<in> set ps") (auto simp: s(2) count_notin)
      then show ?thesis unfolding r(5) w(1) by auto
    qed
    moreover have "release_parents lifo (p # ps) work st = (st', work')"
      using False r(1) by (simp add: Let_def)
    ultimately show ?thesis using r(3) i recounted_trans [OF s(1) r(2)] by blast
  qed
qed simp

subsection \<open>The loop\<close>

text \<open>
  The commits \<open>out\<close> are put out and \<open>R\<close> are left: what is left counts one and its children that
  are left, and the work list holds what has none. The list relates a commit to its parents.
\<close>

definition child_of :: "store \<Rightarrow> name set \<Rightarrow> (name \<times> name) set" where
  "child_of st L = {(c, p). c \<in> L \<and> p \<in> set (parents (commit_at st c))}"

definition sorting :: "store \<Rightarrow> name list \<Rightarrow> name list \<Rightarrow> name list \<Rightarrow> store \<Rightarrow> bool" where
  "sorting st0 list work out st =
     (recounted st0 st \<and> distinct out \<and> set out \<subseteq> set list \<and> distinct work
      \<and> ind st = (\<lambda>x. if x \<in> set list - set out then 1 + links st0 (set list - set out) x else 0)
      \<and> set work = {x \<in> set list - set out. links st0 (set list - set out) x = 0}
      \<and> (\<forall>i < length out. \<forall>c \<in> set list. out ! i \<in> set (parents (commit_at st0 c)) \<longrightarrow> c \<in> set (take i out)))"

lemma links_0_iff: "finite R \<Longrightarrow> links st R x = 0 \<longleftrightarrow> (\<forall>c \<in> R. x \<notin> set (parents (commit_at st c)))"
  by (auto simp: links_def count_list_0_iff)

lemma links_remove: "finite R \<Longrightarrow> c \<in> R \<Longrightarrow> links st R x = count_list (parents (commit_at st c)) x + links st (R - {c}) x"
  by (simp add: links_def sum.remove)

lemma topo_step:
  assumes s: "sorting st0 list (c # work) out st" and acyc: "acyclic (child_of st0 (set list))"
    and dom: "set list \<subseteq> dom st0" "\<forall>c \<in> set list. set (parents (commit_at st0 c)) \<subseteq> dom st0"
  shows "\<exists>st' work'. release_parents lifo (parents (commit_at st c)) work st = (st', work')
    \<and> sorting st0 list work' (out @ [c]) (set_indegree 0 c st')"
proof -
  let ?R = "set list - set out" and ?ps = "parents (commit_at st0 c)"
  have re: "recounted st0 st" and outd: "distinct out" "set out \<subseteq> set list" and wd: "distinct (c # work)"
    and i: "ind st = (\<lambda>x. if x \<in> ?R then 1 + links st0 ?R x else 0)"
    and w: "set (c # work) = {x \<in> ?R. links st0 ?R x = 0}"
    and ord: "\<forall>i < length out. \<forall>c \<in> set list. out ! i \<in> set (parents (commit_at st0 c)) \<longrightarrow> c \<in> set (take i out)"
    using s unfolding sorting_def by blast+
  have fin: "finite ?R" by simp
  have cR: "c \<in> ?R" "links st0 ?R c = 0" using w by auto
  have ps: "parents (commit_at st c) = ?ps" "dom st = dom st0" using re by (auto simp: recounted_def)
  have cps: "c \<notin> set ?ps" using cR fin by (simp add: links_0_iff)
  note rm = links_remove [OF fin cR(1), of st0]
  have "set ?ps \<subseteq> dom st" using dom(2) cR(1) ps(2) by auto
  moreover have "count_list ?ps x < ind st x" if "ind st x \<noteq> 0" for x
    using that rm [of x] by (simp add: i split: if_splits)
  moreover have "distinct work" using wd by simp
  moreover have "ind st x = 1" if "x \<in> set work" for x
  proof -
    have "x \<in> {x \<in> ?R. links st0 ?R x = 0}" using that unfolding w [symmetric] by simp
    then show ?thesis by (simp add: i)
  qed
  ultimately obtain st' work' where r: "release_parents lifo ?ps work st = (st', work')" "recounted st st'" "distinct work'"
    "ind st' = (\<lambda>x. ind st x - count_list ?ps x)" "set work' = set work \<union> {x \<in> set ?ps. ind st' x = 1}"
    using release_parents_ok [of ?ps st work lifo] by blast
  have cst: "c \<in> dom st'" using cR(1) dom(1) ps(2) r(2) by (auto simp: recounted_def)
  note z = set_indegree_ok [OF cst, of 0]
  have R': "set list - set (out @ [c]) = ?R - {c}" by auto
  have i': "ind st' x = (if x \<in> ?R then 1 + links st0 (?R - {c}) x else 0)" for x
    unfolding r(4) i using rm [of x] by simp
  have ind: "ind (set_indegree 0 c st') = (\<lambda>x. if x \<in> ?R - {c} then 1 + links st0 (?R - {c}) x else 0)"
    unfolding z(2) using i' by (auto simp: fun_eq_iff)
  have work: "set work' = {x \<in> ?R - {c}. links st0 (?R - {c}) x = 0}"
  proof -
    have "x \<in> set work \<longleftrightarrow> x \<in> ?R - {c} \<and> links st0 ?R x = 0" for x using w wd by auto
    moreover have "ind st' x = 1 \<longleftrightarrow> x \<in> ?R \<and> links st0 (?R - {c}) x = 0" for x unfolding i' by simp
    moreover have "links st0 ?R x = 0 \<longleftrightarrow> x \<notin> set ?ps \<and> links st0 (?R - {c}) x = 0" for x
      unfolding rm [of x] by (simp add: count_list_0_iff)
    ultimately show ?thesis unfolding r(5) using cps by auto
  qed
  have "c' \<in> set (take i (out @ [c]))" if i: "i < length (out @ [c])" and c': "c' \<in> set list"
    and child: "(out @ [c]) ! i \<in> set (parents (commit_at st0 c'))" for i c'
  proof (cases "i < length out")
    case True
    then show ?thesis using ord c' child by (auto simp: nth_append)
  next
    case False
    then have e: "i = length out" using i by simp
    then have "c \<in> set (parents (commit_at st0 c'))" using child by simp
    then have "c' \<notin> ?R" using cR(2) fin by (auto simp: links_0_iff)
    then show ?thesis using c' e by simp
  qed
  then have "sorting st0 list work' (out @ [c]) (set_indegree 0 c st')"
    unfolding sorting_def R' using recounted_trans [OF re recounted_trans [OF r(2) z(1)]] outd cR(1) r(3) ind work by auto
  then show ?thesis using r(1) unfolding ps by blast
qed

lemma topo_loop_ok:
  assumes "sorting st0 list work out st" "acyclic (child_of st0 (set list))"
    and "set list \<subseteq> dom st0" "\<forall>c \<in> set list. set (parents (commit_at st0 c)) \<subseteq> dom st0"
  shows "\<exists>st' out'. topo_loop lifo work out st = Some (st', out') \<and> sorting st0 list [] out' st'"
  using assms(1)
proof (induction "card (set list - set out)" arbitrary: work out st rule: less_induct)
  case less
  show ?case
  proof (cases work)
    case Nil
    then show ?thesis using less.prems by (simp add: topo_loop.simps [of lifo "[]"])
  next
    case (Cons c rest)
    from topo_step [OF less.prems [unfolded Cons] assms(2-4)] obtain st1 work1 where
      s: "release_parents lifo (parents (commit_at st c)) rest st = (st1, work1)"
      "sorting st0 list work1 (out @ [c]) (set_indegree 0 c st1)" by blast
    have "c \<in> set list - set out" using less.prems Cons by (auto simp: sorting_def)
    then have "card (set list - set (out @ [c])) < card (set list - set out)" by (intro psubset_card_mono) auto
    from less.hyps [OF this s(2)] show ?thesis using s(1) Cons by (simp add: topo_loop.simps [of lifo "c # rest"])
  qed
qed

text \<open>The work list runs dry only when everything is put out: among commits left, one has no child left.\<close>

lemma sorting_end:
  assumes s: "sorting st0 list [] out st" and acyc: "acyclic (child_of st0 (set list))"
  shows "set out = set list"
proof (rule ccontr)
  let ?R = "set list - set out"
  assume "set out \<noteq> set list"
  then obtain x where x: "x \<in> ?R" using s by (auto simp: sorting_def)
  let ?r = "{(c, p). c \<in> ?R \<and> p \<in> ?R \<and> p \<in> set (parents (commit_at st0 c))}"
  have "finite (?R \<times> ?R)" by simp
  then have "finite ?r" by (rule rev_finite_subset) auto
  moreover have "acyclic ?r" using acyc by (rule acyclic_subset) (auto simp: child_of_def)
  ultimately have "wf ?r" by (rule finite_acyclic_wf)
  from wfE_min [OF this x] obtain z where z: "z \<in> ?R" "\<And>y. (y, z) \<in> ?r \<Longrightarrow> y \<notin> ?R" by blast
  then have "links st0 ?R z = 0" by (subst links_0_iff) auto
  then show False using s z(1) by (auto simp: sorting_def)
qed

subsection \<open>Properties\<close>

text \<open>C4. \<open>sort_in_topological_order\<close> returns a permutation of the list in which every commit
  comes behind all its children in the list, in either order of its work list, and it leaves the
  counts of all commits at zero. The parents may lie outside the list; the numbers of links of the list
  fit into the counts.\<close>

theorem topological_order_children_first:
  assumes "distinct list" "set list \<subseteq> dom st" "\<forall>c \<in> set list. set (parents (commit_at st c)) \<subseteq> dom st"
    and "acyclic (child_of st (set list))" "\<forall>x. x \<notin> set list \<longrightarrow> ind st x = 0"
    and "(\<Sum>c\<in>set list. length (parents (commit_at st c))) + 1 < 2 ^ 32"
  shows "\<exists>st' out. sort_in_topological_order list lifo st = Some (st', out) \<and> mset out = mset list
    \<and> (\<forall>i < length out. \<forall>c \<in> set list. out ! i \<in> set (parents (commit_at st c)) \<longrightarrow> c \<in> set (take i out))
    \<and> (list \<noteq> [] \<longrightarrow> ind st' = (\<lambda>_. 0))"
proof (cases "list = []")
  case True
  then show ?thesis by (simp add: sort_in_topological_order_def)
next
  case False
  let ?st1 = "mark_listed list st" and ?st2 = "count_children list (mark_listed list st)"
  have m: "recounted st ?st1" "ind ?st1 = (\<lambda>x. if x \<in> set list then 1 else 0)"
    using mark_listed_ok [OF assms(2)] assms(5) by (auto simp: fun_eq_iff)
  have "\<forall>c \<in> set list. set (parents (commit_at ?st1 c)) \<subseteq> dom ?st1" using assms(3) m(1) by (simp add: recounted_def)
  moreover have "\<forall>x. ind ?st1 x + (\<Sum>c\<in>set list. length (parents (commit_at ?st1 c))) < 2 ^ 32"
    using assms(6) m by (auto simp: recounted_def)
  ultimately have k: "recounted ?st1 ?st2" "ind ?st2 = (\<lambda>x. if ind ?st1 x = 0 then 0 else ind ?st1 x + links ?st1 (set list) x)"
    using count_children_ok [OF assms(1)] by blast+
  have i2: "ind ?st2 = (\<lambda>x. if x \<in> set list then 1 + links st (set list) x else 0)"
    unfolding k(2) links_recounted [OF m(1)] by (auto simp: m(2) fun_eq_iff)
  have re: "recounted st ?st2" by (rule recounted_trans [OF m(1) k(1)])
  have tips: "set (find_tips ?st2 list) = {x \<in> set list. links st (set list) x = 0}"
  proof -
    have "indegree (commit_at ?st2 x) = 1 \<longleftrightarrow> links st (set list) x = 0" if "x \<in> set list" for x
    proof -
      have "x \<in> dom ?st2" using that assms(2) re by (auto simp: recounted_def)
      then have "unat (indegree (commit_at ?st2 x)) = ind ?st2 x" by (rule indegree_ind)
      then have "indegree (commit_at ?st2 x) = 1 \<longleftrightarrow> ind ?st2 x = 1" by (simp add: word_unat_eq_iff)
      then show ?thesis using that by (simp add: i2)
    qed
    then show ?thesis by (auto simp: find_tips_def)
  qed
  obtain work where w: "(if \<not> lifo then commit_list_sort_by_date ?st2 (find_tips ?st2 list) else Some (find_tips ?st2 list)) = Some work"
    "mset work = mset (find_tips ?st2 list)"
    using commit_list_sort_by_date_ok mset_sorted_by_date by (cases lifo) fastforce+
  have "distinct (find_tips ?st2 list)" using assms(1) by (simp add: find_tips_def)
  then have "distinct work" using w(2) mset_eq_imp_distinct_iff by blast
  moreover have "set work = {x \<in> set list. links st (set list) x = 0}" using mset_eq_setD [OF w(2)] tips by simp
  moreover have none_out: "set list - set [] = set list" by simp
  ultimately have "sorting st list work [] ?st2" using re none_out unfolding sorting_def i2 none_out by simp
  from topo_loop_ok [OF this assms(4,2,3)] obtain st' out where
    o1: "topo_loop lifo work [] ?st2 = Some (st', out)" "sorting st list [] out st'" by blast
  have all: "set out = set list" by (rule sorting_end [OF o1(2) assms(4)])
  have "distinct out" using o1(2) by (simp add: sorting_def)
  then have "mset out = mset list" using all assms(1) set_eq_iff_mset_eq_distinct by blast
  moreover have "sort_in_topological_order list lifo st = Some (st', out)"
    using False w(1) o1(1) by (simp add: sort_in_topological_order_def Let_def)
  moreover have "ind st' = (\<lambda>_. 0)" using o1(2) all by (simp add: sorting_def)
  ultimately show ?thesis using o1(2) unfolding sorting_def by blast
qed

theorem topological_order_children_first_witness:
  "\<exists>st' out. sort_in_topological_order [sha 3, sha 1, sha 4, sha 2] False demo_store = Some (st', out)
    \<and> mset out = mset [sha 3, sha 1, sha 4, sha 2] \<and> out ! 3 \<noteq> sha 1 \<and> ind st' = (\<lambda>_. 0)"
proof -
  let ?l = "[sha 3, sha 1, sha 4, sha 2]"
  have at: "commit_at demo_store (sha 1) = demo_commit 9 [sha 3, sha 4]" "commit_at demo_store (sha 2) = demo_commit 8 [sha 3, sha 4]"
    "commit_at demo_store (sha 3) = demo_commit 4 [sha 5]" "commit_at demo_store (sha 4) = demo_commit 7 [sha 5]"
    by (simp_all add: commit_at_def demo_store_def sha_inj)
  have pr: "parents (demo_commit d ps) = ps" for d ps by (simp add: demo_commit_def)
  have "child_of demo_store (set ?l) \<subseteq> par demo_history"
    unfolding demo_par by (auto simp: child_of_def at pr simp del: One_nat_def)
  then have ac: "acyclic (child_of demo_store (set ?l))"
    using demo_ready by (auto simp: ready_def history_def intro: acyclic_subset)
  have i0: "ind demo_store x = 0" for x by (simp add: ind_def demo_store_def demo_commit_def new_object_def)
  have "\<exists>st' out. sort_in_topological_order ?l False demo_store = Some (st', out) \<and> mset out = mset ?l
    \<and> (\<forall>i < length out. \<forall>c \<in> set ?l. out ! i \<in> set (parents (commit_at demo_store c)) \<longrightarrow> c \<in> set (take i out))
    \<and> (?l \<noteq> [] \<longrightarrow> ind st' = (\<lambda>_. 0))"
    by (rule topological_order_children_first) (use ac i0 in \<open>simp_all add: sha_inj at pr demo_dom del: One_nat_def\<close>)
  then obtain st' out where o1: "sort_in_topological_order ?l False demo_store = Some (st', out)" "mset out = mset ?l"
    "\<forall>i < length out. \<forall>c \<in> set ?l. out ! i \<in> set (parents (commit_at demo_store c)) \<longrightarrow> c \<in> set (take i out)"
    "ind st' = (\<lambda>_. 0)" by auto
  have len: "length out = 4" using mset_eq_length [OF o1(2)] by simp
  have "distinct out" using o1(2) mset_eq_imp_distinct_iff [of out ?l] by (simp add: sha_inj)
  have "sha 3 \<in> set out" using mset_eq_setD [OF o1(2)] by simp
  then obtain j where j: "j < 4" "out ! j = sha 3" using len by (auto simp: in_set_conv_nth)
  have "sha 1 \<in> set (take j out)" using o1(3) [rule_format, of j "sha 1"] j len by (simp add: at pr del: One_nat_def)
  then obtain k where "k < j" "out ! k = sha 1" using j len by (auto simp: in_set_conv_nth)
  then have "out ! 3 \<noteq> sha 1" using \<open>distinct out\<close> j(1) len nth_eq_iff_index_eq [of out 3 k] by auto
  then show ?thesis using o1 by blast
qed

end
