(* ===== verification/Tree_Walk.thy ===== *)
theory Tree_Walk
  imports Index Commit
begin

text \<open>
  Tree objects: the walk over the entries of a tree (\<^verbatim>\<open>tree-walk.c\<close>), the lookup of a path,
  the check of a tree by \<^verbatim>\<open>fsck.c\<close>, and the reading of a tree into the index
  (\<^verbatim>\<open>tree.c\<close>). A pointer into the text of a tree is the list of the characters from there on.
  An object is read by its name through an argument. The depth to which subtrees may nest is limited by
  an argument, the room on the stack; a walk that needs more is an \<open>Overrun\<close>.
\<close>

subsection \<open>Modes\<close>

definition ce_permissions :: "u32 \<Rightarrow> u32" where
  "ce_permissions mode = (if mode AND 0x40 \<noteq> 0 then 0x1ED else 0x1A4)"

definition create_ce_mode :: "u32 \<Rightarrow> u32" where
  "create_ce_mode mode =
     (if S_ISLNK mode then 0xA000
      else if S_ISDIR mode \<or> S_ISGITLINK mode then S_IFGITLINK
      else 0x8000 OR ce_permissions mode)"

definition canon_mode :: "u32 \<Rightarrow> u32" where
  "canon_mode mode =
     (if S_ISREG mode then 0x8000 OR ce_permissions mode
      else if S_ISLNK mode then 0xA000
      else if S_ISDIR mode then 0x4000
      else S_IFGITLINK)"

subsection \<open>The entries of a tree\<close>

record name_entry =
  ne_sha1 :: string
  ne_path :: string
  ne_mode :: u32

record tree_desc =
  td_buffer :: string
  td_entry :: name_entry
  td_size :: u32

text \<open>The name and the mode at a pointer: \<open>strlen\<close> and the twenty bytes of a name.\<close>

definition path_at :: "string \<Rightarrow> string" where
  "path_at p = takeWhile (\<lambda>c. c \<noteq> CHR 0x00) p"

definition sha1_at :: "string \<Rightarrow> name" where
  "sha1_at p = map of_char (take 20 p)"

fun get_mode_loop :: "string \<Rightarrow> u32 \<Rightarrow> (string \<times> u32) read" where
  "get_mode_loop [] mode = Overrun"
| "get_mode_loop (c # str) mode =
     (if c = CHR '' '' then Got (str, mode)
      else if (of_char c :: nat) < 48 \<or> 55 < (of_char c :: nat) then Bad
      else get_mode_loop str (push_bit 3 mode + of_nat (of_char c - 48)))"

definition get_mode :: "string \<Rightarrow> (string \<times> u32) read" where
  "get_mode str = (case str of [] \<Rightarrow> Overrun | c # _ \<Rightarrow> if c = CHR '' '' then Bad else get_mode_loop str 0)"

definition decode_tree_entry :: "string \<Rightarrow> u64 \<Rightarrow> name_entry read" where
  "decode_tree_entry buf sz =
     (if sz < 24 then Bad
      else if length buf \<le> unat (sz - 21) then Overrun
      else if buf ! unat (sz - 21) \<noteq> CHR 0x00 then Bad
      else and_then (get_mode buf) (\<lambda>(path, mode).
        if path = [] then Overrun
        else if hd path = CHR 0x00 then Bad
        else if CHR 0x00 \<notin> set path then Overrun
        else Got \<lparr>ne_sha1 = drop (length (path_at path) + 1) path, ne_path = path, ne_mode = mode\<rparr>))"

definition init_tree_desc :: "name_entry \<Rightarrow> string \<Rightarrow> u64 \<Rightarrow> tree_desc read" where
  "init_tree_desc stale buffer sz =
     (let desc = \<lparr>td_buffer = buffer, td_entry = stale, td_size = ucast sz\<rparr> in
      if sz \<noteq> 0 then and_then (decode_tree_entry buffer sz) (\<lambda>e. Got (desc\<lparr>td_entry := e\<rparr>)) else Got desc)"

definition update_tree_entry :: "tree_desc \<Rightarrow> tree_desc read" where
  "update_tree_entry desc =
     (let sha1 = ne_sha1 (td_entry desc); sz = unat (td_size desc);
          len = length (td_buffer desc) - length sha1 + 20 in
      if sz < len then Bad
      else let buf = drop 20 sha1; sz = sz - len; desc = desc\<lparr>td_buffer := buf, td_size := of_nat sz\<rparr> in
        if sz \<noteq> 0 then and_then (decode_tree_entry buf (of_nat sz)) (\<lambda>e. Got (desc\<lparr>td_entry := e\<rparr>)) else Got desc)"

definition tree_entry :: "tree_desc \<Rightarrow> (name_entry \<times> tree_desc) option read" where
  "tree_entry desc =
     (if td_size desc = 0 then Got None
      else and_then (update_tree_entry desc) (\<lambda>desc'. Got (Some (td_entry desc, desc'))))"

definition tree_entry_extract :: "tree_desc \<Rightarrow> name \<times> string \<times> u32" where
  "tree_entry_extract desc =
     (let e = td_entry desc in (sha1_at (ne_sha1 e), path_at (ne_path e), canon_mode (ne_mode e)))"

definition tree_entry_len :: "name_entry \<Rightarrow> nat" where
  "tree_entry_len ne = length (ne_path ne) - length (ne_sha1 ne) - 1"

lemma and_then_not_Got [simp]: "and_then m f \<noteq> Got x \<longleftrightarrow> (\<forall>y. m = Got y \<longrightarrow> f y \<noteq> Got x)"
  by (cases m) simp_all

lemma update_tree_entry_shrinks:
  assumes "update_tree_entry desc = Got desc'"
  shows "unat (td_size desc') < unat (td_size desc)"
proof -
  obtain len where len: "len = length (td_buffer desc) - length (ne_sha1 (td_entry desc)) + 20" "0 < len" by simp
  have "\<not> unat (td_size desc) < len \<and> td_size desc' = of_nat (unat (td_size desc) - len)"
    using assms unfolding update_tree_entry_def Let_def len(1) [symmetric] by (auto simp: and_then_Got split: if_splits)
  moreover have "unat (of_nat (unat (td_size desc) - len) :: u32) = unat (td_size desc) - len"
    using unat_lt_size [of "td_size desc"] by (intro unat_of_nat_small) linarith
  ultimately show ?thesis using len(2) by simp
qed

lemma tree_entry_shrinks: "tree_entry desc = Got (Some (e, desc')) \<Longrightarrow> unat (td_size desc') < unat (td_size desc)"
  using update_tree_entry_shrinks by (auto simp: tree_entry_def and_then_Got split: if_splits)

subsection \<open>The check of a tree\<close>

text \<open>\<open>TREE_UNORDERED\<close> is \<open>-1\<close> and \<open>TREE_HAS_DUPS\<close> \<open>-2\<close>.\<close>

definition verify_ordered :: "u32 \<Rightarrow> string \<Rightarrow> u32 \<Rightarrow> string \<Rightarrow> int" where
  "verify_ordered mode1 name1 mode2 name2 =
     (let len = min (length name1) (length name2);
          cmp = mem_cmp (take len name1) (take len name2) in
      if cmp < 0 then 0
      else if cmp > 0 then -1
      else let c1 = cstr_hd (drop len name1); c2 = cstr_hd (drop len name2) in
        if c1 = CHR 0x00 \<and> c2 = CHR 0x00 then -2
        else let c1 = (if c1 = CHR 0x00 \<and> S_ISDIR mode1 then CHR ''/'' else c1);
                 c2 = (if c2 = CHR 0x00 \<and> S_ISDIR mode2 then CHR ''/'' else c2) in
          if (of_char c1 :: nat) < of_char c2 then 0 else -1)"

record fsck_seen =
  has_full_path :: bool
  has_empty_name :: bool
  has_zero_pad :: bool
  has_bad_modes :: bool
  has_dup_entries :: bool
  not_properly_sorted :: bool

text \<open>What the loop adds for one entry; \<open>prev\<close> is the mode and the name of the entry before.\<close>

definition fsck_entry :: "bool \<Rightarrow> (u32 \<times> string) option \<Rightarrow> tree_desc \<Rightarrow> fsck_seen \<Rightarrow> fsck_seen" where
  "fsck_entry strict prev desc seen =
     (case tree_entry_extract desc of (_, name, mode) \<Rightarrow>
        let cmp = (case prev of None \<Rightarrow> 0 | Some (o_mode, o_name) \<Rightarrow> verify_ordered o_mode o_name mode name) in
        \<lparr>has_full_path = has_full_path seen \<or> CHR ''/'' \<in> set name,
         has_empty_name = has_empty_name seen \<or> name = [],
         has_zero_pad = has_zero_pad seen \<or> cstr_hd (td_buffer desc) = CHR ''0'',
         has_bad_modes = has_bad_modes seen
           \<or> mode \<notin> {0x81ED, 0x81A4, 0xA000, 0x4000, S_IFGITLINK} \<and> (mode = 0x81B4 \<longrightarrow> strict),
         has_dup_entries = has_dup_entries seen \<or> cmp = -2,
         not_properly_sorted = not_properly_sorted seen \<or> cmp = -1\<rparr>)"

function fsck_loop :: "bool \<Rightarrow> (u32 \<times> string) option \<Rightarrow> tree_desc \<Rightarrow> fsck_seen \<Rightarrow> fsck_seen read" where
  "fsck_loop strict prev desc seen =
     (if td_size desc = 0 then Got seen
      else case update_tree_entry desc of Overrun \<Rightarrow> Overrun | Bad \<Rightarrow> Bad
        | Got desc' \<Rightarrow> (case tree_entry_extract desc of (_, name, mode) \<Rightarrow>
            fsck_loop strict (Some (mode, name)) desc' (fsck_entry strict prev desc seen)))"
  by pat_completeness auto
termination
  by (relation "measure (\<lambda>(_, _, desc, _). unat (td_size desc))") (auto simp: update_tree_entry_shrinks)

declare fsck_loop.simps [simp del]

datatype fsck_level = FSCK_WARN | FSCK_ERROR

definition fsck_tree :: "name_entry \<Rightarrow> bool \<Rightarrow> (fsck_level \<Rightarrow> string \<Rightarrow> int) \<Rightarrow> string \<Rightarrow> int read" where
  "fsck_tree stale strict error_func buffer =
     and_then (init_tree_desc stale buffer (of_nat (length buffer))) (\<lambda>desc.
     and_then (fsck_loop strict None desc \<lparr>has_full_path = False, has_empty_name = False, has_zero_pad = False,
         has_bad_modes = False, has_dup_entries = False, not_properly_sorted = False\<rparr>) (\<lambda>seen.
       Got ((if has_full_path seen then error_func FSCK_WARN ''contains full pathnames'' else 0)
          + (if has_empty_name seen then error_func FSCK_WARN ''contains empty pathname'' else 0)
          + (if has_zero_pad seen then error_func FSCK_WARN ''contains zero-padded file modes'' else 0)
          + (if has_bad_modes seen then error_func FSCK_WARN ''contains bad file modes'' else 0)
          + (if has_dup_entries seen then error_func FSCK_ERROR ''contains duplicate file entries'' else 0)
          + (if not_properly_sorted seen then error_func FSCK_ERROR ''not properly sorted'' else 0))))"

subsection \<open>Looking up a path\<close>

text \<open>
  \<open>rd\<close> is \<open>read_object_with_reference\<close>: the name and the text of the tree behind a name. The result is
  the name found and the mode, where a mode was read. The path gets shorter with each subtree.
\<close>

function get_tree_entry :: "name_entry \<Rightarrow> (name \<Rightarrow> (name \<times> string) option) \<Rightarrow> name \<Rightarrow> string \<Rightarrow> (name \<times> u32 option) option read"
  and find_tree_entry :: "name_entry \<Rightarrow> (name \<Rightarrow> (name \<times> string) option) \<Rightarrow> tree_desc \<Rightarrow> string \<Rightarrow> (name \<times> u32 option) option read" where
  "get_tree_entry stale rd tree_sha1 path =
     (case rd tree_sha1 of None \<Rightarrow> Got None
      | Some (root, buf) \<Rightarrow>
          if path = [] then Got (Some (root, None))
          else if buf = [] then Got None
          else case init_tree_desc stale buf (of_nat (length buf)) of Overrun \<Rightarrow> Overrun | Bad \<Rightarrow> Bad
            | Got t \<Rightarrow> find_tree_entry stale rd t path)"
| "find_tree_entry stale rd t path =
     (if td_size t = 0 then Got None
      else case tree_entry_extract t of (sha1, entry, mode) \<Rightarrow>
        let entrylen = tree_entry_len (td_entry t); cmp = mem_cmp (take entrylen path) (take entrylen entry) in
        case update_tree_entry t of Overrun \<Rightarrow> Overrun | Bad \<Rightarrow> Bad
        | Got t \<Rightarrow>
            if entrylen > length path then find_tree_entry stale rd t path
            else if cmp > 0 then find_tree_entry stale rd t path
            else if cmp < 0 then Got None
            else if entrylen = length path then Got (Some (sha1, Some mode))
            else if path ! entrylen \<noteq> CHR ''/'' then find_tree_entry stale rd t path
            else if \<not> S_ISDIR mode then Got None
            else if entrylen + 1 = length path then Got (Some (sha1, Some mode))
            else get_tree_entry stale rd sha1 (drop (entrylen + 1) path))"
  by pat_completeness auto
termination
  by (relation "measures [\<lambda>x. case x of Inl (_, _, _, path) \<Rightarrow> length path | Inr (_, _, _, path) \<Rightarrow> length path,
       \<lambda>x. case x of Inl _ \<Rightarrow> 1 | Inr _ \<Rightarrow> 0,
       \<lambda>x. case x of Inl _ \<Rightarrow> 0 | Inr (_, _, t, _) \<Rightarrow> unat (td_size t)]") (auto simp: update_tree_entry_shrinks)

declare get_tree_entry.simps [simp del] find_tree_entry.simps [simp del]

subsection \<open>Reading a tree into the index\<close>

text \<open>
  What \<open>read_tree_1\<close> asks of the rest of the program: the text of a tree, the verdict of the limits on
  the paths (\<open>tree_entry_interesting\<close>: \<open>-1\<close> none from here on, \<open>0\<close> not this one, \<open>2\<close> all from here on),
  and the tree of the commit that a submodule is at.
\<close>

record read_env =
  re_tree :: "name \<Rightarrow> string option"
  re_interesting :: "name_entry \<Rightarrow> string \<Rightarrow> int"
  re_linked :: "name \<Rightarrow> name option"
  re_stale :: name_entry

abbreviation (input) READ_TREE_RECURSIVE :: int where "READ_TREE_RECURSIVE \<equiv> 1"

type_synonym 's read_tree_fn = "name \<Rightarrow> string \<Rightarrow> string \<Rightarrow> u32 \<Rightarrow> 's \<Rightarrow> 's \<times> int"

function read_tree_1 :: "read_env \<Rightarrow> 's read_tree_fn \<Rightarrow> nat \<Rightarrow> name \<Rightarrow> string \<Rightarrow> 's \<Rightarrow> ('s \<times> int) read"
  and read_entries_loop :: "read_env \<Rightarrow> 's read_tree_fn \<Rightarrow> nat \<Rightarrow> tree_desc \<Rightarrow> string \<Rightarrow> int \<Rightarrow> 's \<Rightarrow> ('s \<times> int) read" where
  "read_tree_1 env fn fuel sha1 base s =
     (case fuel of 0 \<Rightarrow> Overrun
      | Suc fuel \<Rightarrow>
        (case re_tree env sha1 of None \<Rightarrow> Got (s, -1)
         | Some buf \<Rightarrow>
            (case init_tree_desc (re_stale env) buf (of_nat (length buf)) of Overrun \<Rightarrow> Overrun | Bad \<Rightarrow> Bad
             | Got desc \<Rightarrow> read_entries_loop env fn fuel desc base 0 s)))"
| "read_entries_loop env fn fuel desc base retval s =
     (case tree_entry desc of Overrun \<Rightarrow> Overrun | Bad \<Rightarrow> Bad | Got None \<Rightarrow> Got (s, 0)
      | Got (Some (entry, desc)) \<Rightarrow>
        let verdict = (if retval \<noteq> 2 then re_interesting env entry base else retval);
            sha1 = sha1_at (ne_sha1 entry); path = path_at (ne_path entry) in
        if verdict = -1 then Got (s, 0)
        else if verdict = 0 then read_entries_loop env fn fuel desc base verdict s
        else case fn sha1 base path (ne_mode entry) s of (s, ret) \<Rightarrow>
          if ret = 0 then read_entries_loop env fn fuel desc base verdict s
          else if ret \<noteq> READ_TREE_RECURSIVE then Got (s, -1)
          else if \<not> S_ISDIR (ne_mode entry) \<and> \<not> S_ISGITLINK (ne_mode entry)
          then read_entries_loop env fn fuel desc base verdict s
          else case (if S_ISDIR (ne_mode entry) then Some sha1 else re_linked env sha1) of None \<Rightarrow> Bad
            | Some sub \<Rightarrow>
              (case read_tree_1 env fn fuel sub (base @ path @ ''/'') s of Overrun \<Rightarrow> Overrun | Bad \<Rightarrow> Bad
               | Got (s, retval) \<Rightarrow>
                   if retval \<noteq> 0 then Got (s, -1) else read_entries_loop env fn fuel desc base retval s))"
  by pat_completeness auto
termination
  by (relation "measures [\<lambda>x. case x of Inl (_, _, fuel, _) \<Rightarrow> fuel | Inr (_, _, fuel, _) \<Rightarrow> fuel,
       \<lambda>x. case x of Inl _ \<Rightarrow> 0 | Inr _ \<Rightarrow> 1,
       \<lambda>x. case x of Inl _ \<Rightarrow> 0 | Inr (_, _, _, desc, _) \<Rightarrow> unat (td_size desc)]") (auto simp: tree_entry_shrinks)

declare read_tree_1.simps [simp del] read_entries_loop.simps [simp del]

definition read_tree_recursive :: "read_env \<Rightarrow> 's read_tree_fn \<Rightarrow> nat \<Rightarrow> name \<Rightarrow> string \<Rightarrow> 's \<Rightarrow> ('s \<times> int) read" where
  "read_tree_recursive env fn fuel sha1 base s = read_tree_1 env fn fuel sha1 base s"

definition read_one_entry_opt :: "nat \<Rightarrow> nat \<Rightarrow> index_state read_tree_fn" where
  "read_one_entry_opt stage opt sha1 base pathname mode istate =
     (if S_ISDIR mode then (istate, READ_TREE_RECURSIVE)
      else add_index_entry istate
        \<lparr>ce_ctime = (0, 0), ce_mtime = (0, 0), ce_dev = 0, ce_ino = 0, ce_mode = create_ce_mode mode,
         ce_uid = 0, ce_gid = 0, ce_size = 0, ce_flags = create_ce_flags (length base + length pathname) stage,
         ce_sha1 = sha1, ce_name = base @ pathname\<rparr> opt)"

definition read_one_entry :: "nat \<Rightarrow> index_state read_tree_fn" where
  "read_one_entry stage = read_one_entry_opt stage (OK_TO_ADD OR SKIP_DFCHECK)"

definition read_one_entry_quick :: "nat \<Rightarrow> index_state read_tree_fn" where
  "read_one_entry_quick stage = read_one_entry_opt stage JUST_APPEND"

definition cmp_cache_name_compare :: "cache_entry \<Rightarrow> cache_entry \<Rightarrow> int" where
  "cmp_cache_name_compare ce1 ce2 = cache_name_compare (ce_name ce1) (ce_flags ce1) (ce_name ce2) (ce_flags ce2)"

text \<open>\<open>qsort\<close> is the sort of the C library. The slow way keeps the index sorted as it goes.\<close>

definition read_tree :: "read_env \<Rightarrow> ((cache_entry \<Rightarrow> cache_entry \<Rightarrow> int) \<Rightarrow> cache_entry list \<Rightarrow> cache_entry list)
    \<Rightarrow> nat \<Rightarrow> name \<Rightarrow> nat \<Rightarrow> index_state \<Rightarrow> (index_state \<times> int) read" where
  "read_tree env qsort fuel sha1 stage istate =
     (let slow = list_ex (\<lambda>ce. ce_stage ce = stage) (is_cache istate) in
      and_then (read_tree_recursive env (if slow then read_one_entry stage else read_one_entry_quick stage) fuel sha1 [] istate)
        (\<lambda>(istate, err). if slow \<or> err \<noteq> 0 then Got (istate, err)
          else Got (istate\<lparr>is_cache := qsort cmp_cache_name_compare (is_cache istate)\<rparr>, 0)))"

subsection \<open>The text of a tree\<close>

text \<open>An item of a tree is its mode, its name, and the name of its object; \<open>octal\<close> prints as \<open>%o\<close>.\<close>

fun octal :: "nat \<Rightarrow> string" where
  "octal n = (if n < 8 then [] else octal (n div 8)) @ [char_of (48 + n mod 8)]"

declare octal.simps [simp del]

type_synonym tree_item = "u32 \<times> string \<times> name"

definition raw_sha1 :: "name \<Rightarrow> string" where
  "raw_sha1 s = map (\<lambda>b. char_of (unat b)) s"

definition item_text :: "tree_item \<Rightarrow> string" where
  "item_text = (\<lambda>(m, n, s). octal (unat m) @ CHR '' '' # n @ CHR 0x00 # raw_sha1 s)"

definition tree_text :: "tree_item list \<Rightarrow> string" where
  "tree_text items = concat (map item_text items)"

definition item_ok :: "tree_item \<Rightarrow> bool" where
  "item_ok = (\<lambda>(m, n, s). n \<noteq> [] \<and> CHR 0x00 \<notin> set n \<and> length s = 20)"

lemma tree_text_simps [simp]: "tree_text [] = []" "tree_text (it # items) = item_text it @ tree_text items"
  "tree_text (xs @ ys) = tree_text xs @ tree_text ys"
  by (simp_all add: tree_text_def)

lemma of_char_unat: "of_char (char_of (unat b) :: char) = (b :: byte)"
proof -
  have "of_char (char_of (unat b) :: char) = (of_nat (of_char (char_of (unat b) :: char)) :: byte)"
    by (simp only: of_nat_of_char)
  also have "of_char (char_of (unat b) :: char) = unat b" using byte_bound [of b] by simp
  finally show ?thesis by simp
qed

lemma raw_sha1_at [simp]: "length s = 20 \<Longrightarrow> sha1_at (raw_sha1 s @ rest) = s"
proof -
  assume "length s = 20"
  then have "take 20 (raw_sha1 s @ rest) = raw_sha1 s" by (simp add: raw_sha1_def)
  then show ?thesis by (simp add: sha1_at_def raw_sha1_def o_def of_char_unat)
qed

lemma path_at_text [simp]: "CHR 0x00 \<notin> set n \<Longrightarrow> path_at (n @ CHR 0x00 # rest) = n"
  by (induction n) (auto simp: path_at_def)

lemma of_char_digit: "k < 8 \<Longrightarrow> (of_char (char_of (48 + k) :: char) :: nat) = 48 + k"
  by simp

lemma get_mode_loop_octal:
  "get_mode_loop (octal n @ rest) a = get_mode_loop rest (a * 8 ^ length (octal n) + of_nat n)"
proof (induction n arbitrary: a rest rule: octal.induct)
  case (1 n)
  have step: "get_mode_loop (char_of (48 + n mod 8) # rest) b = get_mode_loop rest (8 * b + of_nat (n mod 8))" for b rest
  proof -
    have "\<not> 7 < n mod 8" by presburger
    moreover have "char_of (48 + n mod 8) \<noteq> CHR '' ''"
    proof
      assume "char_of (48 + n mod 8) = CHR '' ''"
      then have "(of_char (char_of (48 + n mod 8) :: char) :: nat) = of_char CHR '' ''" by simp
      then show False by simp
    qed
    ultimately show ?thesis by (simp add: push_bit_eq_mult mult.commute not_less)
  qed
  show ?case
  proof (cases "n < 8")
    case True
    then show ?thesis using step [of rest a] by (simp add: octal.simps [of n] algebra_simps del: get_mode_loop.simps)
  next
    case False
    have "get_mode_loop (octal n @ rest) a = get_mode_loop (char_of (48 + n mod 8) # rest) (a * 8 ^ length (octal (n div 8)) + of_nat (n div 8))"
      using False 1 by (simp add: octal.simps [of n] del: get_mode_loop.simps)
    also have "\<dots> = get_mode_loop rest (a * 8 ^ length (octal n) + (8 * of_nat (n div 8) + of_nat (n mod 8)))"
      using False unfolding step by (simp add: octal.simps [of n] algebra_simps)
    also have "8 * of_nat (n div 8) + of_nat (n mod 8) = (of_nat n :: u32)"
    proof -
      have "of_nat (8 * (n div 8) + n mod 8) = (of_nat n :: u32)" by simp
      then show ?thesis by (simp only: of_nat_add of_nat_mult of_nat_numeral)
    qed
    finally show ?thesis .
  qed
qed

lemma octal_ne [simp]: "octal n \<noteq> []" "0 < length (octal n)"
  by (simp_all add: octal.simps [of n])

lemma hd_octal: "hd (octal n) \<noteq> CHR '' ''"
proof (induction n rule: octal.induct)
  case (1 n)
  have "char_of (48 + n mod 8) \<noteq> CHR '' ''"
  proof
    assume "char_of (48 + n mod 8) = CHR '' ''"
    then have "(of_char (char_of (48 + n mod 8) :: char) :: nat) = of_char CHR '' ''" by simp
    then show False by simp
  qed
  then show ?case using 1 by (auto simp: octal.simps [of n])
qed

lemma get_mode_text [simp]: "get_mode (octal (unat m) @ CHR '' '' # rest) = Got (rest, m)"
proof -
  obtain c cs where c: "octal (unat m) = c # cs" using octal_ne [of "unat m"] by (cases "octal (unat m)") auto
  then have "c \<noteq> CHR '' ''" using hd_octal [of "unat m"] by simp
  then have "get_mode (octal (unat m) @ CHR '' '' # rest) = get_mode_loop (octal (unat m) @ CHR '' '' # rest) 0"
    by (simp add: get_mode_def c)
  also have "\<dots> = Got (rest, m)" unfolding get_mode_loop_octal by simp
  finally show ?thesis .
qed

lemma item_text_eq: "item_text (m, n, s) = octal (unat m) @ CHR '' '' # n @ CHR 0x00 # raw_sha1 s"
  by (simp add: item_text_def)

lemma length_raw_sha1 [simp]: "length (raw_sha1 s) = length s"
  by (simp add: raw_sha1_def)

lemma item_text_length: "item_ok it \<Longrightarrow> 24 \<le> length (item_text it)"
proof (cases it)
  case (fields m n s)
  assume "item_ok it"
  then have "0 < length n" "length s = 20" by (simp_all add: fields item_ok_def)
  moreover have "0 < length (octal (unat m))" by (rule octal_ne)
  ultimately show ?thesis unfolding fields item_text_eq by (simp only: length_append list.size length_raw_sha1)
qed

lemma tree_text_length: "list_all item_ok items \<Longrightarrow> 24 * length items \<le> length (tree_text items)"
  by (induction items) (auto dest: item_text_length)

lemma tree_text_Nil: "list_all item_ok items \<Longrightarrow> tree_text items = [] \<longleftrightarrow> items = []"
  using tree_text_length [of items] by fastforce

lemma tree_text_nul:
  assumes "list_all item_ok items" "items \<noteq> []"
  shows "tree_text items ! (length (tree_text items) - 21) = CHR 0x00"
proof -
  obtain xs m n s where items: "items = xs @ [(m, n, s)]" using assms(2) by (metis prod_cases3 rev_exhaust)
  let ?pre = "tree_text xs @ octal (unat m) @ CHR '' '' # n"
  have "length s = 20" using assms(1) by (simp add: items item_ok_def)
  moreover have eq: "tree_text items = ?pre @ CHR 0x00 # raw_sha1 s" by (simp add: items item_text_eq)
  ultimately have "length (tree_text items) - 21 = length ?pre" by simp
  then show ?thesis unfolding eq by (simp only: nth_append_length)
qed

fun entry_of :: "tree_item list \<Rightarrow> name_entry" where
  "entry_of ((m, n, s) # items) =
     \<lparr>ne_sha1 = raw_sha1 s @ tree_text items, ne_path = n @ CHR 0x00 # raw_sha1 s @ tree_text items, ne_mode = m\<rparr>"

lemma decode_tree_text:
  assumes ok: "list_all item_ok items" "items \<noteq> []" and small: "length (tree_text items) < 2 ^ 32"
  shows "decode_tree_entry (tree_text items) (of_nat (length (tree_text items))) = Got (entry_of items)"
proof -
  obtain m n s rest where items: "items = (m, n, s) # rest" using ok(2) by (metis list.exhaust prod_cases3)
  have n: "n \<noteq> []" "CHR 0x00 \<notin> set n" "length s = 20" using ok(1) by (simp_all add: items item_ok_def)
  let ?l = "length (tree_text items)" and ?sz = "of_nat (length (tree_text items)) :: u64"
  have l: "24 \<le> ?l" using tree_text_length [OF ok(1)] ok(2) by (cases items) auto
  have u: "unat ?sz = ?l" using small by (intro unat_of_nat_small) simp
  have sub: "unat (?sz - 21) = ?l - 21"
  proof -
    have "21 \<le> ?sz" using u l by (simp add: word_le_nat_alt)
    then show ?thesis using u by (simp add: unat_sub)
  qed
  have "\<not> ?sz < 24" using u l by (simp add: word_less_nat_alt)
  moreover have "\<not> ?l \<le> ?l - 21" using l by simp
  moreover note tree_text_nul [OF ok]
  moreover have "get_mode (tree_text items) = Got (n @ CHR 0x00 # raw_sha1 s @ tree_text rest, m)"
    by (simp add: items item_text_eq)
  moreover have "drop (length (path_at (n @ CHR 0x00 # raw_sha1 s @ tree_text rest)) + 1)
      (n @ CHR 0x00 # raw_sha1 s @ tree_text rest) = raw_sha1 s @ tree_text rest"
    unfolding path_at_text [OF n(2)] by simp
  moreover have "hd (n @ CHR 0x00 # raw_sha1 s @ tree_text rest) \<noteq> CHR 0x00" using n by (cases n) auto
  ultimately show ?thesis unfolding decode_tree_entry_def sub by (simp add: items)
qed

definition reads :: "tree_desc \<Rightarrow> tree_item list \<Rightarrow> bool" where
  "reads d items \<longleftrightarrow> list_all item_ok items \<and> length (tree_text items) < 2 ^ 32 \<and> td_buffer d = tree_text items
     \<and> td_size d = of_nat (length (tree_text items)) \<and> (items \<noteq> [] \<longrightarrow> td_entry d = entry_of items)"

lemma reads_size: "reads d items \<Longrightarrow> td_size d = 0 \<longleftrightarrow> items = []"
proof -
  assume r: "reads d items"
  then have "unat (td_size d) = length (tree_text items)" unfolding reads_def by (simp add: unat_of_nat_small)
  then show ?thesis using r tree_text_Nil [of items] by (auto simp: reads_def)
qed

lemma init_tree_desc_reads:
  assumes "list_all item_ok items" "length (tree_text items) < 2 ^ 32"
  shows "\<exists>d. init_tree_desc stale (tree_text items) (of_nat (length (tree_text items))) = Got d \<and> reads d items"
proof -
  have u: "unat (of_nat (length (tree_text items)) :: u64) = length (tree_text items)"
    using assms(2) by (intro unat_of_nat_small) simp
  have c: "(ucast (of_nat (length (tree_text items)) :: u64) :: u32) = of_nat (length (tree_text items))"
    using assms(2) u by (intro word_unat_eq_iff [THEN iffD2]) (simp add: unsigned_ucast_eq unat_of_nat_small take_bit_eq_mod)
  show ?thesis
  proof (cases "items = []")
    case True
    then show ?thesis by (simp add: init_tree_desc_def reads_def)
  next
    case False
    then have "(of_nat (length (tree_text items)) :: u64) \<noteq> 0" using u tree_text_Nil [OF assms(1)] by auto
    then show ?thesis using decode_tree_text [OF assms(1) False assms(2)] assms False c
      by (simp add: init_tree_desc_def reads_def Let_def)
  qed
qed

lemma update_tree_entry_reads:
  assumes "reads d (it # items)"
  shows "\<exists>d'. update_tree_entry d = Got d' \<and> reads d' items"
proof -
  obtain m n s where it: "it = (m, n, s)" by (cases it)
  let ?t = "tree_text (it # items)"
  have r: "list_all item_ok (it # items)" "length ?t < 2 ^ 32" "td_buffer d = ?t" "td_size d = of_nat (length ?t)"
    "td_entry d = entry_of (it # items)" using assms by (simp_all add: reads_def)
  have s: "length s = 20" using r(1) by (simp add: it item_ok_def)
  have ln: "length (td_buffer d) - length (ne_sha1 (td_entry d)) + 20 = length (item_text it)"
    using s unfolding r(3,5) by (simp add: it item_text_eq)
  have dr: "drop 20 (ne_sha1 (td_entry d)) = tree_text items" using s unfolding r(5) by (simp add: it)
  have "unat (td_size d) = length ?t" using r(2) unfolding r(4) by (intro unat_of_nat_small) simp
  then have sz: "unat (td_size d) = length (item_text it) + length (tree_text items)" by simp
  let ?d = "d\<lparr>td_buffer := tree_text items, td_size := of_nat (length (tree_text items))\<rparr>"
  have eq: "update_tree_entry d = (if length (tree_text items) \<noteq> 0
      then and_then (decode_tree_entry (tree_text items) (of_nat (length (tree_text items)))) (\<lambda>e. Got (?d\<lparr>td_entry := e\<rparr>)) else Got ?d)"
    unfolding update_tree_entry_def Let_def ln dr sz by simp
  have ok: "list_all item_ok items" "length (tree_text items) < 2 ^ 32" using r by simp_all
  show ?thesis
  proof (cases "items = []")
    case True
    then show ?thesis unfolding eq by (simp add: reads_def)
  next
    case False
    then have "length (tree_text items) \<noteq> 0" using tree_text_Nil [OF ok(1)] by simp
    then show ?thesis unfolding eq using decode_tree_text [OF ok(1) False ok(2)] ok by (simp add: reads_def)
  qed
qed

lemma tree_entry_extract_reads:
  assumes "reads d ((m, n, s) # items)"
  shows "tree_entry_extract d = (s, n, canon_mode m)" "tree_entry_len (td_entry d) = length n"
    "sha1_at (ne_sha1 (td_entry d)) = s" "path_at (ne_path (td_entry d)) = n" "ne_mode (td_entry d) = m"
  using assms by (simp_all add: reads_def item_ok_def tree_entry_extract_def tree_entry_len_def)

lemma tree_entry_reads:
  "reads d (it # items) \<Longrightarrow> \<exists>d'. tree_entry d = Got (Some (td_entry d, d')) \<and> reads d' items"
  using update_tree_entry_reads [of d it items] reads_size [of d "it # items"] by (auto simp: tree_entry_def)

lemma tree_entry_done: "reads d [] \<Longrightarrow> tree_entry d = Got None"
  using reads_size [of d "[]"] by (simp add: tree_entry_def)

subsection \<open>What the check of a tree reports\<close>

text \<open>The order of the entries: a directory sorts as if its name ended in a slash.\<close>

definition dir_key :: "u32 \<Rightarrow> string \<Rightarrow> string" where
  "dir_key m n = n @ (if S_ISDIR m then ''/'' else [])"

lemma verify_ordered_Cons:
  "verify_ordered m1 (x # xs) m2 (y # ys)
     = (if x = y then verify_ordered m1 xs m2 ys else if (of_char x :: nat) < of_char y then 0 else -1)"
proof -
  have "sgn ((of_char x :: int) - of_char y) < 0 \<longleftrightarrow> (of_char x :: nat) < of_char y"
    "0 < sgn ((of_char x :: int) - of_char y) \<longleftrightarrow> (of_char y :: nat) < of_char x"
  proof -
    have "(of_char x :: int) = int (of_char x)" "(of_char y :: int) = int (of_char y)" by (simp_all only: of_nat_of_char)
    then show "sgn ((of_char x :: int) - of_char y) < 0 \<longleftrightarrow> (of_char x :: nat) < of_char y"
      "0 < sgn ((of_char x :: int) - of_char y) \<longleftrightarrow> (of_char y :: nat) < of_char x" by (auto simp: sgn_less sgn_greater)
  qed
  moreover have "(of_char x :: nat) \<noteq> of_char y" if "x \<noteq> y" using that by simp
  ultimately show ?thesis by (auto simp: verify_ordered_def Let_def)
qed

lemma verify_ordered_key:
  assumes "CHR 0x00 \<notin> set n1 \<union> set n2" "CHR ''/'' \<notin> set n1 \<union> set n2"
  shows "verify_ordered m1 n1 m2 n2 = (if n1 = n2 then -2 else if dir_key m1 n1 < dir_key m2 n2 then 0 else -1)"
  using assms
proof (induction n1 n2 rule: list_induct2')
  case 1
  then show ?case by (simp add: verify_ordered_def)
next
  case (2 x xs)
  have "(of_char CHR ''/'' :: nat) = 47" "(of_char CHR 0x00 :: nat) = 0" by simp_all
  moreover have "(of_char x :: nat) \<noteq> of_char CHR ''/''" using 2 by (subst of_char_eq_iff) auto
  ultimately show ?case using 2 by (auto simp: verify_ordered_def dir_key_def less_char_def)
next
  case (3 y ys)
  have "(of_char CHR ''/'' :: nat) = 47" "(of_char CHR 0x00 :: nat) = 0" by simp_all
  moreover have "(of_char y :: nat) \<noteq> of_char CHR ''/''" "(of_char y :: nat) \<noteq> of_char CHR 0x00"
    using 3 by (subst of_char_eq_iff; auto)+
  ultimately show ?case using 3 by (auto simp: verify_ordered_def dir_key_def less_char_def)
next
  case (4 x xs y ys)
  then show ?case by (auto simp: verify_ordered_Cons dir_key_def less_char_def)
qed

lemma hd_octal_0: "0 < n \<Longrightarrow> hd (octal n) \<noteq> CHR ''0''"
proof (induction n rule: octal.induct)
  case (1 n)
  have "char_of (48 + n) \<noteq> CHR ''0''" if "n < 8"
  proof
    assume "char_of (48 + n) = CHR ''0''"
    then have "(of_char (char_of (48 + n) :: char) :: nat) = of_char CHR ''0''" by simp
    then show False using that 1 by simp
  qed
  then show ?case using 1 by (auto simp: octal.simps [of n])
qed

lemma permission_modes: "ce_permissions m = 0x1ED \<or> ce_permissions m = 0x1A4"
  by (simp add: ce_permissions_def)

lemma canon_mode_standard: "canon_mode m \<in> {0x81ED, 0x81A4, 0xA000, 0x4000, S_IFGITLINK}"
  using permission_modes [of m] by (auto simp: canon_mode_def)

definition somewhere :: "('a \<Rightarrow> 'a \<Rightarrow> bool) \<Rightarrow> 'a list \<Rightarrow> bool" where
  "somewhere P xs = list_ex (\<lambda>(a, b). P a b) (zip xs (tl xs))"

lemma somewhere_simps [simp]: "\<not> somewhere P []" "\<not> somewhere P [a]"
  "somewhere P (a # b # xs) \<longleftrightarrow> P a b \<or> somewhere P (b # xs)"
  by (simp_all add: somewhere_def)

text \<open>The two complaints about neighbours in a tree.\<close>

definition same_names :: "u32 \<times> string \<Rightarrow> u32 \<times> string \<Rightarrow> bool" where
  "same_names a b \<longleftrightarrow> snd a = snd b"

definition out_of_order :: "u32 \<times> string \<Rightarrow> u32 \<times> string \<Rightarrow> bool" where
  "out_of_order a b \<longleftrightarrow> snd a \<noteq> snd b \<and> \<not> dir_key (fst a) (snd a) < dir_key (fst b) (snd b)"

definition shown :: "tree_item \<Rightarrow> u32 \<times> string" where
  "shown = (\<lambda>(m, n, s). (canon_mode m, n))"

definition plain_item :: "tree_item \<Rightarrow> bool" where
  "plain_item it \<longleftrightarrow> item_ok it \<and> fst it \<noteq> 0 \<and> CHR ''/'' \<notin> set (fst (snd it))"

lemma plain_item_ok: "list_all plain_item items \<Longrightarrow> list_all item_ok items"
  by (simp add: list_all_iff plain_item_def)

lemma fsck_entry_reads:
  assumes r: "reads d (it # items)" and it: "plain_item it"
    and prev: "\<forall>o_m o_n. prev = Some (o_m, o_n) \<longrightarrow> CHR 0x00 \<notin> set o_n \<and> CHR ''/'' \<notin> set o_n"
  shows "fsck_entry strict prev d seen = seen
    \<lparr>has_dup_entries := has_dup_entries seen \<or> (\<exists>p. prev = Some p \<and> same_names p (shown it)),
     not_properly_sorted := not_properly_sorted seen \<or> (\<exists>p. prev = Some p \<and> out_of_order p (shown it))\<rparr>"
proof -
  obtain m n s where f: "it = (m, n, s)" by (cases it)
  have n: "m \<noteq> 0" "n \<noteq> []" "CHR 0x00 \<notin> set n" "CHR ''/'' \<notin> set n" using it by (simp_all add: f plain_item_def item_ok_def)
  have "td_buffer d = tree_text (it # items)" using r by (simp add: reads_def)
  then have "cstr_hd (td_buffer d) = hd (octal (unat m))"
    by (cases "octal (unat m)") (simp_all add: f item_text_eq cstr_hd_def)
  then have z: "cstr_hd (td_buffer d) \<noteq> CHR ''0''" using hd_octal_0 [of "unat m"] n(1) by (simp add: unat_gt_0)
  have c: "(case prev of None \<Rightarrow> 0 | Some (o_mode, o_name) \<Rightarrow> verify_ordered o_mode o_name (canon_mode m) n)
      = (case prev of None \<Rightarrow> 0 | Some p \<Rightarrow> if same_names p (shown it) then -2 else if out_of_order p (shown it) then -1 else 0)"
    using prev n by (cases prev) (auto simp: verify_ordered_key same_names_def out_of_order_def shown_def f)
  have e: "tree_entry_extract d = (s, n, canon_mode m)" using tree_entry_extract_reads(1) r unfolding f by blast
  have no: "(canon_mode m \<notin> {0x81ED, 0x81A4, 0xA000, 0x4000, S_IFGITLINK} \<and> x) = False" for x
    using canon_mode_standard [of m] by simp
  have "out_of_order p (shown it) \<Longrightarrow> \<not> same_names p (shown it)" for p by (simp add: out_of_order_def same_names_def)
  then show ?thesis unfolding fsck_entry_def e prod.case Let_def c no using n z
    by (cases prev; cases seen) auto
qed

lemma fsck_loop_reads:
  assumes "reads d items" "list_all plain_item items"
    and "\<forall>o_m o_n. prev = Some (o_m, o_n) \<longrightarrow> CHR 0x00 \<notin> set o_n \<and> CHR ''/'' \<notin> set o_n"
  shows "fsck_loop strict prev d seen = Got (seen
    \<lparr>has_dup_entries := has_dup_entries seen \<or> somewhere same_names (case_option [] (\<lambda>p. [p]) prev @ map shown items),
     not_properly_sorted := not_properly_sorted seen \<or> somewhere out_of_order (case_option [] (\<lambda>p. [p]) prev @ map shown items)\<rparr>)"
  using assms
proof (induction items arbitrary: d prev seen)
  case Nil
  then show ?case using reads_size [of d "[]"] by (cases prev) (simp_all add: fsck_loop.simps [of strict _ d])
next
  case (Cons it items)
  obtain m n s where f: "it = (m, n, s)" by (cases it)
  from update_tree_entry_reads [OF Cons.prems(1)] obtain d' where d': "update_tree_entry d = Got d'" "reads d' items" by blast
  have sz: "td_size d \<noteq> 0" using reads_size [OF Cons.prems(1)] by simp
  have e: "tree_entry_extract d = (s, n, canon_mode m)" using tree_entry_extract_reads(1) Cons.prems(1) unfolding f by blast
  have p: "plain_item it" "list_all plain_item items" using Cons.prems(2) by simp_all
  have "\<forall>o_m o_n. Some (canon_mode m, n) = Some (o_m, o_n) \<longrightarrow> CHR 0x00 \<notin> set o_n \<and> CHR ''/'' \<notin> set o_n"
    using p(1) by (simp add: f plain_item_def item_ok_def)
  note IH = Cons.IH [OF d'(2) p(2) this]
  have sh: "shown it = (canon_mode m, n)" by (simp add: f shown_def)
  show ?case
    unfolding fsck_loop.simps [of strict prev d] if_not_P [OF sz] d'(1) read.case e prod.case
      fsck_entry_reads [OF Cons.prems(1) p(1) Cons.prems(3)] IH
    by (cases prev; cases items) (auto simp: sh)
qed

lemma fsck_tree_eq:
  assumes "list_all plain_item items" "length (tree_text items) < 2 ^ 32"
  shows "fsck_tree stale strict error_func (tree_text items)
    = Got ((if somewhere same_names (map shown items) then error_func FSCK_ERROR ''contains duplicate file entries'' else 0)
         + (if somewhere out_of_order (map shown items) then error_func FSCK_ERROR ''not properly sorted'' else 0))"
proof -
  from init_tree_desc_reads [OF plain_item_ok [OF assms(1)] assms(2)] obtain d where
    d: "init_tree_desc stale (tree_text items) (of_nat (length (tree_text items))) = Got d" "reads d items" by blast
  show ?thesis unfolding fsck_tree_def d(1) and_then_simps fsck_loop_reads [OF d(2) assms(1), of None, simplified] by simp
qed

subsection \<open>A walk over arbitrary bytes\<close>

lemma get_mode_loop_safe:
  "CHR 0x00 \<in> set str \<Longrightarrow> get_mode_loop str a \<noteq> Overrun"
  "get_mode_loop str a = Got (path, m) \<Longrightarrow> \<exists>pre. str = pre @ CHR '' '' # path \<and> CHR 0x00 \<notin> set pre"
proof (induction str arbitrary: a)
  case (Cons c str)
  { case 1 then show ?case using Cons.IH(1) by auto }
  { case 2
    show ?case
    proof (cases "c = CHR '' ''")
      case True
      then show ?thesis using 2 by (intro exI [of _ "[]"]) auto
    next
      case False
      then have c: "\<not> (of_char c :: nat) < 48" and g: "get_mode_loop str (push_bit 3 a + of_nat (of_char c - 48)) = Got (path, m)"
        using 2 by (auto split: if_splits)
      from Cons.IH(2) [OF g] obtain pre where "str = pre @ CHR '' '' # path" "CHR 0x00 \<notin> set pre" by blast
      moreover have "c \<noteq> CHR 0x00" using c by auto
      ultimately show ?thesis by (intro exI [of _ "c # pre"]) simp
    qed }
qed simp_all

text \<open>The pointers of an entry lie in the text: a nonempty name, its NUL, and an object name.\<close>

definition entry_in :: "name_entry \<Rightarrow> string \<Rightarrow> bool" where
  "entry_in e buf \<longleftrightarrow> (\<exists>pre. buf = pre @ ne_path e) \<and> ne_path e = path_at (ne_path e) @ CHR 0x00 # ne_sha1 e
     \<and> path_at (ne_path e) \<noteq> [] \<and> 20 \<le> length (ne_sha1 e)"

lemma path_at_split: "CHR 0x00 \<in> set p \<Longrightarrow> p = path_at p @ CHR 0x00 # drop (length (path_at p) + 1) p"
  by (induction p) (auto simp: path_at_def)

lemma decode_tree_entry_safe:
  assumes small: "length buf < 2 ^ 32"
  shows "decode_tree_entry buf (of_nat (length buf)) \<noteq> Overrun"
    "decode_tree_entry buf (of_nat (length buf)) = Got e \<Longrightarrow> entry_in e buf"
proof -
  let ?sz = "of_nat (length buf) :: u64" and ?l = "length buf"
  have u: "unat ?sz = ?l" using small by (intro unat_of_nat_small) simp
  have big: "24 \<le> ?l" "unat (?sz - 21) = ?l - 21" if "\<not> ?sz < 24"
  proof -
    have le: "24 \<le> ?sz" using that by simp
    then show "24 \<le> ?l" using u by (simp add: word_le_nat_alt)
    then have "21 \<le> ?sz" using u by (simp add: word_le_nat_alt)
    then show "unat (?sz - 21) = ?l - 21" using u by (simp add: unat_sub)
  qed
  have path: "CHR 0x00 \<in> set path \<and> 21 \<le> length path - length (path_at path) \<and> (\<exists>pre. buf = pre @ path)"
    if c: "24 \<le> ?l" "buf ! (?l - 21) = CHR 0x00" and g: "get_mode buf = Got (path, m)" for path m
  proof -
    have "get_mode_loop buf 0 = Got (path, m)" using g c(1) by (cases buf) (auto simp: get_mode_def split: if_splits)
    from get_mode_loop_safe(2) [OF this] obtain pre where pre: "buf = pre @ CHR '' '' # path" "CHR 0x00 \<notin> set pre" by blast
    have "length pre < ?l - 21"
    proof (rule ccontr)
      assume "\<not> length pre < ?l - 21"
      then have "?l - 21 < length pre \<or> ?l - 21 = length pre" by linarith
      then show False
      proof
        assume lt: "?l - 21 < length pre"
        then have "buf ! (?l - 21) = pre ! (?l - 21)" unfolding pre(1) by (simp add: nth_append)
        then show False using pre(2) c(2) lt nth_mem by metis
      next
        assume "?l - 21 = length pre"
        then have "buf ! (?l - 21) = CHR '' ''" unfolding pre(1) by (metis nth_append_length)
        then show False using c(2) by simp
      qed
    qed
    moreover define k where "k = ?l - 21 - length pre - 1"
    ultimately have k: "k + 21 = length path" "?l - 21 = length pre + Suc k" using pre(1) by simp_all
    have "buf ! (length pre + Suc k) = CHR 0x00" using c(2) k(2) by simp
    then have "path ! k = CHR 0x00" unfolding pre(1) nth_append_length_plus by simp
    then have n: "CHR 0x00 \<in> set path" "length (path_at path) \<le> k"
    proof -
      show "CHR 0x00 \<in> set path" using k(1) \<open>path ! k = _\<close> by (metis less_add_same_cancel1 nth_mem zero_less_numeral)
      show "length (path_at path) \<le> k"
      proof (rule ccontr)
        assume "\<not> length (path_at path) \<le> k"
        then have lt: "k < length (path_at path)" by simp
        have "path_at path ! k \<in> set (path_at path)" using lt by (rule nth_mem)
        moreover have "path_at path ! k = path ! k" using lt unfolding path_at_def by (rule takeWhile_nth)
        ultimately have "path ! k \<in> set (path_at path)" by simp
        then show False using \<open>path ! k = _\<close> by (auto simp: path_at_def dest: set_takeWhileD)
      qed
    qed
    moreover have "buf = (pre @ '' '') @ path" using pre(1) by simp
    ultimately show ?thesis using k(1) by (intro conjI) (linarith | blast)+
  qed
  show "decode_tree_entry buf ?sz \<noteq> Overrun"
  proof
    assume ov: "decode_tree_entry buf ?sz = Overrun"
    then have sz: "\<not> ?sz < 24" by (auto simp: decode_tree_entry_def)
    then have c: "24 \<le> ?l" "buf ! (?l - 21) = CHR 0x00" "\<not> ?l \<le> ?l - 21"
      using ov big by (auto simp: decode_tree_entry_def split: if_splits)
    have "?l - 21 < ?l" using c(1) by simp
    then have "CHR 0x00 \<in> set buf" using c(2) nth_mem by metis
    then have "get_mode buf \<noteq> Overrun" using get_mode_loop_safe(1) [of buf 0] by (cases buf) (auto simp: get_mode_def)
    moreover have "and_then (get_mode buf) (\<lambda>(path, mode). if path = [] then Overrun else if hd path = CHR 0x00 then Bad
        else if CHR 0x00 \<notin> set path then Overrun
        else Got \<lparr>ne_sha1 = drop (length (path_at path) + 1) path, ne_path = path, ne_mode = mode\<rparr>) = Overrun"
      using ov sz c unfolding decode_tree_entry_def big(2) [OF sz] by simp
    ultimately obtain path m where g: "get_mode buf = Got (path, m)" "path = [] \<or> CHR 0x00 \<notin> set path"
      by (cases "get_mode buf") (auto split: if_splits)
    then show False using path [OF c(1,2) g(1)] by auto
  qed
  show "entry_in e buf" if got: "decode_tree_entry buf ?sz = Got e"
  proof -
    have sz: "\<not> ?sz < 24" using got by (auto simp: decode_tree_entry_def)
    then have c: "24 \<le> ?l" "buf ! (?l - 21) = CHR 0x00"
      using got big by (auto simp: decode_tree_entry_def split: if_splits)
    from got obtain path m where g: "get_mode buf = Got (path, m)" "path \<noteq> []" "hd path \<noteq> CHR 0x00"
      "e = \<lparr>ne_sha1 = drop (length (path_at path) + 1) path, ne_path = path, ne_mode = m\<rparr>"
      by (auto simp: decode_tree_entry_def and_then_Got split: if_splits)
    have p: "CHR 0x00 \<in> set path" "21 \<le> length path - length (path_at path)" "\<exists>pre. buf = pre @ path"
      using path [OF c g(1)] by simp_all
    note path_at_split [OF p(1)]
    moreover have "path_at path \<noteq> []" using g(2,3) by (cases path) (simp_all add: path_at_def)
    ultimately show ?thesis using p(2,3) unfolding entry_in_def g(4) by simp
  qed
qed

definition desc_ok :: "tree_desc \<Rightarrow> bool" where
  "desc_ok d \<longleftrightarrow> length (td_buffer d) < 2 ^ 32 \<and> td_size d = of_nat (length (td_buffer d))
     \<and> (td_buffer d \<noteq> [] \<longrightarrow> entry_in (td_entry d) (td_buffer d))"

lemma desc_ok_size: "desc_ok d \<Longrightarrow> unat (td_size d) = length (td_buffer d)"
  by (auto simp: desc_ok_def intro: unat_of_nat_small)

lemma init_tree_desc_ok:
  assumes "length buf < 2 ^ 32"
  shows "init_tree_desc stale buf (of_nat (length buf)) \<noteq> Overrun"
    "init_tree_desc stale buf (of_nat (length buf)) = Got d \<Longrightarrow> desc_ok d"
proof -
  have u: "unat (of_nat (length buf) :: u64) = length buf" using assms by (intro unat_of_nat_small) simp
  have c: "(ucast (of_nat (length buf) :: u64) :: u32) = of_nat (length buf)"
    using assms u by (intro word_unat_eq_iff [THEN iffD2]) (simp add: unsigned_ucast_eq unat_of_nat_small take_bit_eq_mod)
  have z: "(of_nat (length buf) :: u64) = 0 \<longleftrightarrow> buf = []" using u by (metis length_0_conv unat_eq_zero)
  note dec = decode_tree_entry_safe [OF assms]
  show "init_tree_desc stale buf (of_nat (length buf)) \<noteq> Overrun"
    using dec(1) by (cases "decode_tree_entry buf (of_nat (length buf))") (simp_all add: init_tree_desc_def Let_def)
  show "desc_ok d" if "init_tree_desc stale buf (of_nat (length buf)) = Got d"
    using that dec(2) assms unfolding init_tree_desc_def Let_def c z
    by (auto simp: desc_ok_def and_then_Got split: if_splits)
qed

lemma update_tree_entry_ok:
  assumes ok: "desc_ok d" and ne: "td_buffer d \<noteq> []"
  shows "update_tree_entry d \<noteq> Overrun" "update_tree_entry d = Got d' \<Longrightarrow> desc_ok d'"
proof -
  let ?e = "td_entry d" and ?b = "td_buffer d"
  have e: "entry_in ?e ?b" using ok ne by (simp add: desc_ok_def)
  then obtain pre where b: "?b = pre @ path_at (ne_path ?e) @ CHR 0x00 # ne_sha1 ?e" and l: "20 \<le> length (ne_sha1 ?e)"
    unfolding entry_in_def by metis
  obtain buf where buf: "buf = drop 20 (ne_sha1 ?e)" by simp
  let ?n = "length ?b - length (ne_sha1 ?e) + 20"
  have n: "?n + length buf = length ?b" "length buf < 2 ^ 32"
  proof -
    have "length (ne_sha1 ?e) \<le> length ?b" unfolding b by simp
    then show "?n + length buf = length ?b" using l unfolding buf by simp
    then show "length buf < 2 ^ 32" using ok by (simp add: desc_ok_def)
  qed
  let ?d = "d\<lparr>td_buffer := buf, td_size := of_nat (length buf)\<rparr>"
  have sub: "\<not> length ?b < ?n" "length ?b - ?n = length buf" using n(1) by linarith+
  have eq: "update_tree_entry d = (if length buf \<noteq> 0
      then and_then (decode_tree_entry buf (of_nat (length buf))) (\<lambda>e. Got (?d\<lparr>td_entry := e\<rparr>)) else Got ?d)"
    unfolding update_tree_entry_def Let_def desc_ok_size [OF ok] if_not_P [OF sub(1)] sub(2) buf [symmetric] ..
  note dec = decode_tree_entry_safe [OF n(2)]
  show "update_tree_entry d \<noteq> Overrun"
    using dec(1) unfolding eq by (cases "decode_tree_entry buf (of_nat (length buf))") simp_all
  show "desc_ok d'" if "update_tree_entry d = Got d'"
    using that dec(2) n(2) unfolding eq by (auto simp: desc_ok_def and_then_Got split: if_splits)
qed

text \<open>The descriptors that a walk goes through.\<close>

inductive walk_reaches :: "tree_desc \<Rightarrow> tree_desc \<Rightarrow> bool" for d where
  here: "walk_reaches d d"
| onward: "walk_reaches d d' \<Longrightarrow> tree_entry d' = Got (Some (e, d'')) \<Longrightarrow> walk_reaches d d''"

lemma walk_reaches_ok: "walk_reaches d d' \<Longrightarrow> desc_ok d \<Longrightarrow> desc_ok d'"
proof (induction rule: walk_reaches.induct)
  case (onward d' e d'')
  then have "td_size d' \<noteq> 0" "update_tree_entry d' = Got d''"
    by (auto simp: tree_entry_def and_then_Got split: if_splits)
  moreover from this have "td_buffer d' \<noteq> []" using onward by (auto simp: desc_ok_def)
  ultimately show ?case using update_tree_entry_ok(2) onward by blast
qed

lemma tree_entry_safe: "desc_ok d \<Longrightarrow> tree_entry d \<noteq> Overrun"
proof (cases "td_size d = 0")
  case False
  assume ok: "desc_ok d"
  then have "td_buffer d \<noteq> []" using False by (auto simp: desc_ok_def)
  then show ?thesis using update_tree_entry_ok(1) [OF ok] False
    by (cases "update_tree_entry d") (simp_all add: tree_entry_def)
qed (simp add: tree_entry_def)

subsection \<open>Looking up a path in sorted trees\<close>

definition sorted_tree :: "tree_item list \<Rightarrow> bool" where
  "sorted_tree items \<longleftrightarrow> list_all plain_item items \<and> length (tree_text items) < 2 ^ 32
     \<and> sorted_wrt (\<lambda>a b. dir_key (fst a) (snd a) < dir_key (fst b) (snd b)) (map shown items)
     \<and> distinct (map (\<lambda>it. snd (shown it)) items)"

definition find_item :: "tree_item list \<Rightarrow> string \<Rightarrow> (name \<times> u32) option" where
  "find_item items = map_of (map (\<lambda>(m, n, s). (n, (s, canon_mode m))) items)"

text \<open>What a path means: its first component names an item, the rest a path in the tree of that item.\<close>

function tree_lookup :: "(name \<rightharpoonup> tree_item list) \<Rightarrow> name \<Rightarrow> string \<Rightarrow> (name \<times> u32) option" where
  "tree_lookup trees t path =
     (case trees t of None \<Rightarrow> None
      | Some items \<Rightarrow>
          let d = takeWhile (\<lambda>c. c \<noteq> CHR ''/'') path; rest = drop (length d) path in
          case find_item items d of None \<Rightarrow> None
          | Some (s, m) \<Rightarrow>
              if rest = [] then Some (s, m)
              else if \<not> S_ISDIR m then None
              else if rest = ''/'' then Some (s, m)
              else tree_lookup trees s (tl rest))"
  by pat_completeness auto
termination by (relation "measure (\<lambda>(_, _, path). length path)") (auto simp: neq_Nil_conv)

declare tree_lookup.simps [simp del]

lemma cmp_below:
  assumes "mem_cmp (take (length n) (d @ rest)) n < 0" "length n \<le> length (d @ rest)"
    "rest = [] \<or> hd rest = CHR ''/''" "CHR ''/'' \<notin> set n"
  shows "dir_key m' d < dir_key m n"
  using assms
proof (induction n arbitrary: d)
  case (Cons x n)
  have less: "u < (v :: char)" if "sgn ((of_char u :: int) - of_char v) < 0" for u v
  proof -
    have "(of_char u :: int) < of_char v" using that by (simp add: sgn_less)
    then have "int (of_char u) < int (of_char v)" by (simp only: of_nat_of_char)
    then show ?thesis by (simp add: less_char_def)
  qed
  show ?case
  proof (cases d)
    case Nil
    then obtain r where "rest = CHR ''/'' # r" using Cons.prems by (cases rest) auto
    then have "CHR ''/'' < x" using Cons.prems Nil less [of "CHR ''/''" x] by (auto split: if_splits)
    then show ?thesis by (simp add: Nil dir_key_def)
  next
    case (Cons y d')
    show ?thesis
    proof (cases "y = x")
      case True
      then have "mem_cmp (take (length n) (d' @ rest)) n < 0" using Cons.prems Cons by simp
      from Cons.IH [OF this] True show ?thesis using Cons.prems Cons by (simp add: dir_key_def)
    next
      case False
      then have "y < x" using Cons.prems Cons less [of y x] by simp
      then show ?thesis by (simp add: Cons dir_key_def)
    qed
  qed
qed simp

lemma find_tree_entry_ok:
  assumes "reads t items" "list_all plain_item items"
    and "sorted_wrt (\<lambda>a b. dir_key (fst a) (snd a) < dir_key (fst b) (snd b)) (map shown items)"
    and "distinct (map (\<lambda>it. snd (shown it)) items)"
    and d: "CHR ''/'' \<notin> set d" and rest: "rest = [] \<or> hd rest = CHR ''/''"
  shows "find_tree_entry stale rd t (d @ rest) = (case find_item items d of None \<Rightarrow> Got None
    | Some (s, m) \<Rightarrow> if rest = [] then Got (Some (s, Some m)) else if \<not> S_ISDIR m then Got None
        else if rest = ''/'' then Got (Some (s, Some m)) else get_tree_entry stale rd s (tl rest))"
  using assms(1-4)
proof (induction items arbitrary: t)
  case Nil
  then show ?case using reads_size [of t "[]"] by (simp add: find_tree_entry.simps find_item_def)
next
  case (Cons it items)
  obtain m n s where f: "it = (m, n, s)" by (cases it)
  have n: "CHR ''/'' \<notin> set n" using Cons.prems(2) by (simp add: f plain_item_def)
  from update_tree_entry_reads [OF Cons.prems(1)] obtain t' where t': "update_tree_entry t = Got t'" "reads t' items" by blast
  have sz: "td_size t \<noteq> 0" using reads_size [OF Cons.prems(1)] by simp
  note ex = tree_entry_extract_reads [OF Cons.prems(1) [unfolded f]]
  let ?path = "d @ rest" and ?l = "length n"
  let ?cmp = "mem_cmp (take ?l ?path) n"
  note unf = find_tree_entry.simps [of stale rd t] if_not_P [OF sz] ex(1,2) prod.case Let_def t'(1) read.case take_all [OF order_refl]
  have IH: "find_tree_entry stale rd t' ?path = (case find_item items d of None \<Rightarrow> Got None
    | Some (s, m) \<Rightarrow> if rest = [] then Got (Some (s, Some m)) else if \<not> S_ISDIR m then Got None
        else if rest = ''/'' then Got (Some (s, Some m)) else get_tree_entry stale rd s (tl rest))"
    using Cons.IH [OF t'(2)] Cons.prems by simp
  show ?case
  proof (cases "n = d")
    case True
    have "?cmp = 0" unfolding True by (simp add: mem_cmp_eq_0)
    moreover have "tl rest = drop (Suc ?l) ?path" unfolding True by (simp add: drop_Suc)
    moreover have "rest \<noteq> [] \<Longrightarrow> ?path ! ?l = CHR ''/''" using rest unfolding True by (cases rest) simp_all
    moreover have "rest \<noteq> [] \<Longrightarrow> (?l + 1 = length ?path) = (rest = ''/'')"
      using rest unfolding True by (cases rest) auto
    ultimately show ?thesis unfolding unf using True by (auto simp: find_item_def f)
  next
    case False
    then have skip: "find_item (it # items) d = find_item items d" by (simp add: find_item_def f)
    consider "?l > length ?path \<or> 0 < ?cmp" | "?l \<le> length ?path" "?cmp < 0" | "?l \<le> length ?path" "?cmp = 0" by linarith
    then show ?thesis
    proof cases
      case 1
      then show ?thesis unfolding unf skip IH [symmetric] by auto
    next
      case 2
      have "find_item items d = None"
      proof (rule ccontr)
        assume "find_item items d \<noteq> None"
        then obtain x where "find_item items d = Some x" by blast
        then have "(d, x) \<in> set (map (\<lambda>(m, n, s). (n, (s, canon_mode m))) items)" unfolding find_item_def by (rule map_of_SomeD)
        then obtain m' s' where "(m', d, s') \<in> set items" by auto
        then have "dir_key (canon_mode m) n < dir_key (canon_mode m') d"
          using Cons.prems(3) by (force simp: f shown_def)
        then show False using cmp_below [OF 2(2,1) rest n, of "canon_mode m'" "canon_mode m"] by simp
      qed
      then show ?thesis unfolding unf skip using 2 by simp
    next
      case 3
      have tk: "take ?l ?path = n" using 3 mem_cmp_eq_0 [of "take ?l ?path" n] by simp
      have lt: "?l < length d"
      proof (rule ccontr)
        assume ge: "\<not> ?l < length d"
        show False
        proof (cases rest)
          case Nil
          then show False using ge 3(1) tk False by simp
        next
          case (Cons r rs)
          then have "r = CHR ''/''" using rest by simp
          have "length d < ?l" using ge False tk by (metis append_eq_conv_conj not_less_iff_gr_or_eq take_all_iff append_take_drop_id order.refl)
          then have "n ! length d = r" using tk by (metis Cons nth_append_length nth_take)
          then show False using n \<open>r = _\<close> \<open>length d < ?l\<close> nth_mem by metis
        qed
      qed
      then have "?path ! ?l \<noteq> CHR ''/''" using d by (metis nth_append nth_mem)
      then show ?thesis unfolding unf skip IH [symmetric] using 3 lt by simp
    qed
  qed
qed

lemma rest_slash:
  "drop (length (takeWhile (\<lambda>c. c \<noteq> CHR ''/'') path)) path = []
    \<or> hd (drop (length (takeWhile (\<lambda>c. c \<noteq> CHR ''/'') path)) path) = CHR ''/''"
  by (induction path) auto

lemma get_tree_entry_ok:
  "\<forall>t. rd t = map_option (\<lambda>items. (t, tree_text items)) (trees t)
    \<Longrightarrow> \<forall>t items. trees t = Some items \<longrightarrow> sorted_tree items
    \<Longrightarrow> path \<noteq> [] \<Longrightarrow> get_tree_entry stale rd t path = Got (map_option (\<lambda>(s, m). (s, Some m)) (tree_lookup trees t path))"
proof (induction trees t path rule: tree_lookup.induct)
  case (1 trees t path)
  note rd = 1(2) and sorted = 1(3)
  let ?d = "takeWhile (\<lambda>c. c \<noteq> CHR ''/'') path"
  let ?rest = "drop (length ?d) path"
  show ?case
  proof (cases "trees t")
    case None
    then have "rd t = None" using spec [OF rd, of t] by simp
    then show ?thesis using None by (simp add: get_tree_entry.simps tree_lookup.simps [of trees t])
  next
    case (Some items)
    then have s: "list_all plain_item items" "length (tree_text items) < 2 ^ 32"
      "sorted_wrt (\<lambda>a b. dir_key (fst a) (snd a) < dir_key (fst b) (snd b)) (map shown items)"
      "distinct (map (\<lambda>it. snd (shown it)) items)" using sorted by (simp_all add: sorted_tree_def)
    note ok = plain_item_ok [OF s(1)]
    have rdt: "rd t = Some (t, tree_text items)" using spec [OF rd, of t] Some by simp
    show ?thesis
    proof (cases "items = []")
      case True
      then show ?thesis using 1(4) rdt Some
        by (simp add: get_tree_entry.simps tree_lookup.simps [of trees t] find_item_def Let_def)
    next
      case False
      from init_tree_desc_reads [OF ok s(2)] obtain d where
        d: "init_tree_desc stale (tree_text items) (of_nat (length (tree_text items))) = Got d" "reads d items" by blast
      have "get_tree_entry stale rd t path = find_tree_entry stale rd d path"
        using rdt d(1) 1(4) tree_text_Nil [OF ok] False by (simp add: get_tree_entry.simps [of stale rd t])
      moreover have split: "?d @ ?rest = path" by (metis append_take_drop_id takeWhile_eq_take)
      moreover have "CHR ''/'' \<notin> set ?d" by (metis (mono_tags, lifting) set_takeWhileD)
      moreover have "?rest = [] \<or> hd ?rest = CHR ''/''"
        by (rule rest_slash)
      ultimately have eq: "get_tree_entry stale rd t path = (case find_item items ?d of None \<Rightarrow> Got None
        | Some (s, m) \<Rightarrow> if ?rest = [] then Got (Some (s, Some m)) else if \<not> S_ISDIR m then Got None
            else if ?rest = ''/'' then Got (Some (s, Some m)) else get_tree_entry stale rd s (tl ?rest))"
        using find_tree_entry_ok [OF d(2) s(1,3,4), of ?d ?rest stale rd, unfolded split] by simp
      have "get_tree_entry stale rd s (tl ?rest) = Got (map_option (\<lambda>(s, m). (s, Some m)) (tree_lookup trees s (tl ?rest)))"
        if "find_item items ?d = Some (s, m)" "?rest \<noteq> []" "S_ISDIR m" "?rest \<noteq> ''/''" for s m
      proof -
        have "hd ?rest = CHR ''/''" using that(2) rest_slash [of path] by simp
        then have "tl ?rest \<noteq> []" using that by (cases ?rest) auto
        then show ?thesis using 1(1) [OF Some refl refl that(1) refl that(2) _ that(4) rd sorted] that(3) by simp
      qed
      then show ?thesis unfolding eq tree_lookup.simps [of trees t path] Some option.case Let_def
        by (auto split: option.split)
    qed
  qed
qed

subsection \<open>Properties\<close>

definition no_entry :: name_entry where
  "no_entry = \<lparr>ne_sha1 = [], ne_path = [], ne_mode = 0\<rparr>"

text \<open>C30. Walking the text of a tree is safe whatever bytes it holds: no descriptor that the walk
  reaches reads outside the text, and each is well formed, with a nonempty name, its NUL, and the twenty
  bytes of an object name inside the text that is left.\<close>

theorem tree_walk_safe:
  assumes "length buf < 2 ^ 32"
  shows "init_tree_desc stale buf (of_nat (length buf)) \<noteq> Overrun
    \<and> (\<forall>d d'. init_tree_desc stale buf (of_nat (length buf)) = Got d \<longrightarrow> walk_reaches d d' \<longrightarrow> tree_entry d' \<noteq> Overrun \<and> desc_ok d')"
  using init_tree_desc_ok [OF assms] walk_reaches_ok tree_entry_safe by blast

theorem tree_walk_safe_witness:
  "init_tree_desc no_entry ''100644 a'' (of_nat (length ''100644 a'')) \<noteq> Overrun"
  using tree_walk_safe [of "''100644 a''" no_entry] by simp

text \<open>C31. The check of a tree complains exactly about neighbours with one name and about neighbours
  that are not in the order of paths, for items with names of one component and modes other than 0.\<close>

theorem fsck_tree_reports:
  assumes "list_all plain_item items" "length (tree_text items) < 2 ^ 32"
  shows "fsck_tree stale strict error_func (tree_text items)
    = Got ((if somewhere same_names (map shown items) then error_func FSCK_ERROR ''contains duplicate file entries'' else 0)
         + (if somewhere out_of_order (map shown items) then error_func FSCK_ERROR ''not properly sorted'' else 0))"
  by (rule fsck_tree_eq [OF assms])

definition demo_item :: "u32 \<Rightarrow> string \<Rightarrow> tree_item" where
  "demo_item m n = (m, n, replicate 20 7)"

theorem fsck_tree_reports_witness:
  "fsck_tree no_entry True (\<lambda>l m. if l = FSCK_ERROR then 1 else 0) (tree_text [demo_item 0x81A4 ''b'', demo_item 0x4000 ''a''])
    = Got 1"
proof -
  have "list_all plain_item [demo_item 0x81A4 ''b'', demo_item 0x4000 ''a'']" by code_simp
  moreover have "length (tree_text [demo_item 0x81A4 ''b'', demo_item 0x4000 ''a'']) < 2 ^ 32"
    by (simp add: demo_item_def item_text_eq octal.simps)
  moreover have "\<not> somewhere same_names (map shown [demo_item 0x81A4 ''b'', demo_item 0x4000 ''a''])" by code_simp
  moreover have "somewhere out_of_order (map shown [demo_item 0x81A4 ''b'', demo_item 0x4000 ''a''])" by code_simp
  ultimately show ?thesis using fsck_tree_reports [of "[demo_item 0x81A4 ''b'', demo_item 0x4000 ''a'']" no_entry True] by simp
qed

text \<open>C37. Two things the check is meant to find and does not: it looks at the modes after they have been
  made canonical, so that it never reports a bad one, whatever the tree holds; and it compares the names of
  neighbours only, so that it accepts a file and a directory of one name with another entry between them.\<close>

theorem fsck_tree_blind_spots:
  "fsck_tree stale strict error_func buf
     = fsck_tree stale strict (\<lambda>l m. if m = ''contains bad file modes'' then x else error_func l m) buf
    \<and> fsck_tree stale strict error_func (tree_text [demo_item 0x81A4 ''a'', demo_item 0x81A4 ''a-b'', demo_item 0x4000 ''a'']) = Got 0"
proof (intro conjI)
  have kept: "has_bad_modes (fsck_entry strict prev desc seen) = has_bad_modes seen" for strict prev desc seen
    using canon_mode_standard [of "ne_mode (td_entry desc)"]
    by (auto simp: fsck_entry_def tree_entry_extract_def Let_def simp del: insert_iff)
  have loop: "fsck_loop strict prev desc seen = Got seen' \<Longrightarrow> has_bad_modes seen' = has_bad_modes seen" for strict prev desc seen seen'
  proof (induction strict prev desc seen rule: fsck_loop.induct)
    case (1 strict prev desc seen)
    then show ?case
      by (auto simp: fsck_loop.simps [of strict prev desc] kept split: if_splits read.splits prod.splits)
  qed
  show "fsck_tree stale strict error_func buf
     = fsck_tree stale strict (\<lambda>l m. if m = ''contains bad file modes'' then x else error_func l m) buf"
    unfolding fsck_tree_def
    by (cases "init_tree_desc stale buf (of_nat (length buf))")
      (auto simp: and_then_def dest: loop split: read.split)
  show "fsck_tree stale strict error_func (tree_text [demo_item 0x81A4 ''a'', demo_item 0x81A4 ''a-b'', demo_item 0x4000 ''a'']) = Got 0"
  proof -
    let ?items = "[demo_item 0x81A4 ''a'', demo_item 0x81A4 ''a-b'', demo_item 0x4000 ''a'']"
    have "list_all plain_item ?items" by code_simp
    moreover have "length (tree_text ?items) < 2 ^ 32" by (simp add: demo_item_def item_text_eq octal.simps)
    moreover have "\<not> somewhere same_names (map shown ?items)" "\<not> somewhere out_of_order (map shown ?items)" by code_simp+
    ultimately show ?thesis using fsck_tree_eq [of ?items stale strict error_func] by simp
  qed
qed

text \<open>C8. Looking up a path in nested trees that are sorted as git writes them finds what the path
  names, component by component, and nothing else, although the search leaves a tree early.\<close>

theorem get_tree_entry_finds:
  assumes "\<forall>t. rd t = map_option (\<lambda>items. (t, tree_text items)) (trees t)"
    and "\<forall>t items. trees t = Some items \<longrightarrow> sorted_tree items" and "path \<noteq> []"
  shows "get_tree_entry stale rd t path = Got (map_option (\<lambda>(s, m). (s, Some m)) (tree_lookup trees t path))"
  by (rule get_tree_entry_ok [OF assms])


definition demo_trees :: "name \<rightharpoonup> tree_item list" where
  "demo_trees = [[1] \<mapsto> [demo_item 0x81A4 ''a-b'', (0x4000, ''a'', replicate 20 2)], replicate 20 2 \<mapsto> [demo_item 0x81A4 ''c'']]"

theorem get_tree_entry_finds_witness:
  "get_tree_entry no_entry (\<lambda>t. map_option (\<lambda>items. (t, tree_text items)) (demo_trees t)) [1] ''a/c''
    = Got (Some (replicate 20 7, Some 0x81A4))"
proof -
  have "sorted_tree items" if "items \<in> {[demo_item 0x81A4 ''a-b'', (0x4000, ''a'', replicate 20 2)], [demo_item 0x81A4 ''c'']}" for items
  proof -
    have "length (tree_text items) < 2 ^ 32"
      using that by (auto simp: demo_item_def item_text_eq octal.simps)
    moreover have "list_all plain_item items"
      "sorted_wrt (\<lambda>a b. dir_key (fst a) (snd a) < dir_key (fst b) (snd b)) (map shown items)"
      "distinct (map (\<lambda>it. snd (shown it)) items)"
      using that by (elim insertE emptyE; simp only:; code_simp)+
    ultimately show ?thesis by (simp add: sorted_tree_def)
  qed
  then have "\<forall>t items. demo_trees t = Some items \<longrightarrow> sorted_tree items" by (auto simp: demo_trees_def split: if_splits)
  then have "get_tree_entry no_entry (\<lambda>t. map_option (\<lambda>items. (t, tree_text items)) (demo_trees t)) [1] ''a/c''
    = Got (map_option (\<lambda>(s, m). (s, Some m)) (tree_lookup demo_trees [1] ''a/c''))"
    by (intro get_tree_entry_finds) simp_all
  also have "tree_lookup demo_trees [1] ''a/c'' = Some (replicate 20 7, 0x81A4)" by code_simp
  finally show ?thesis by simp
qed

end
