(* ===== verification/Cache_Tree.thy ===== *)
theory Cache_Tree
  imports Tree_Walk
begin

text \<open>
  \<^verbatim>\<open>cache-tree.c\<close>: the trees of the directories of the index, kept so that unchanged ones are
  not written again. A \<open>struct cache_tree\<close> is a value; a pointer to one that may be NULL is an option.
  What is written goes to the object database, a map; the hash of a tree is a field of the environment,
  and so are the writes that fail. The recursion over the directories of an index takes fuel: a directory
  recorded with no entries would make it run for ever, and running out of fuel is an \<open>Overrun\<close>.
\<close>

subsection \<open>The data\<close>

datatype cache_tree = Cache_Tree (entry_count: int) (ct_sha1: name) (down: "cache_tree_sub list")
  and cache_tree_sub = Cache_Tree_Sub (sub_name: string) (used: bool) (sub_tree: "cache_tree option")

type_synonym odb = "name \<rightharpoonup> object_type \<times> string"

lemma sub_tree_size [termination_simp]:
  assumes "x \<in> set subs" "sub_tree x = Some ct"
  shows "size ct < Suc (size_list size subs)"
proof -
  have "size ct < size x" using assms(2) by (cases x) simp
  also have "size x \<le> size_list size subs" by (rule size_list_estimation' [OF assms(1) order_refl])
  finally show ?thesis by simp
qed

record tree_env =
  te_hash :: "string \<Rightarrow> name"
  te_write_fails :: "name \<Rightarrow> bool"

definition new_cache_tree :: cache_tree where
  "new_cache_tree = Cache_Tree (-1) (replicate 20 0) []"

definition has_sha1_file :: "odb \<Rightarrow> name \<Rightarrow> bool" where
  "has_sha1_file db sha1 = (db sha1 \<noteq> None)"

text \<open>\<open>write_sha1_file\<close> for a tree: the database, the name, and the result.\<close>

definition write_sha1_file :: "tree_env \<Rightarrow> string \<Rightarrow> odb \<Rightarrow> odb \<times> name \<times> int" where
  "write_sha1_file env buf db =
     (let sha1 = te_hash env buf in
      if has_sha1_file db sha1 then (db, sha1, 0)
      else if te_write_fails env sha1 then (db, sha1, -1)
      else (db(sha1 \<mapsto> (OBJ_TREE, buf)), sha1, 0))"

abbreviation (input) WRITE_TREE_MISSING_OK :: nat where "WRITE_TREE_MISSING_OK \<equiv> 1"
abbreviation (input) WRITE_TREE_DRY_RUN :: nat where "WRITE_TREE_DRY_RUN \<equiv> 4"

subsection \<open>Subtrees\<close>

definition subtree_name_cmp :: "string \<Rightarrow> string \<Rightarrow> int" where
  "subtree_name_cmp one two =
     (if length one < length two then -1
      else if length two < length one then 1
      else mem_cmp one two)"

function subtree_pos_loop :: "cache_tree_sub list \<Rightarrow> string \<Rightarrow> nat \<Rightarrow> nat \<Rightarrow> int" where
  "subtree_pos_loop subs path lo hi =
     (if lo < hi then
        let mi = (lo + hi) div 2; cmp = subtree_name_cmp path (sub_name (subs ! mi)) in
        if cmp = 0 then int mi
        else if cmp < 0 then subtree_pos_loop subs path lo mi
        else subtree_pos_loop subs path (mi + 1) hi
      else - int lo - 1)"
  by pat_completeness auto
termination by (relation "measure (\<lambda>(_, _, lo, hi). hi - lo)") auto

declare subtree_pos_loop.simps [simp del]

definition subtree_pos :: "cache_tree \<Rightarrow> string \<Rightarrow> int" where
  "subtree_pos it path = subtree_pos_loop (down it) path 0 (length (down it))"

definition set_down :: "cache_tree_sub list \<Rightarrow> cache_tree \<Rightarrow> cache_tree" where
  "set_down subs it = Cache_Tree (entry_count it) (ct_sha1 it) subs"

text \<open>The position of the subtree; a new one has no cached tree yet.\<close>

definition find_subtree :: "cache_tree \<Rightarrow> string \<Rightarrow> bool \<Rightarrow> cache_tree \<times> nat option" where
  "find_subtree it path create =
     (let pos = subtree_pos it path in
      if 0 \<le> pos then (it, Some (nat pos))
      else if \<not> create then (it, None)
      else let pos = nat (- pos - 1) in
        (set_down (take pos (down it) @ Cache_Tree_Sub path False None # drop pos (down it)) it, Some pos))"

definition cache_tree_sub :: "cache_tree \<Rightarrow> string \<Rightarrow> cache_tree \<times> nat" where
  "cache_tree_sub it path = (case find_subtree it path True of (it, pos) \<Rightarrow> (it, the pos))"

definition set_sub_tree :: "nat \<Rightarrow> cache_tree option \<Rightarrow> bool \<Rightarrow> cache_tree \<Rightarrow> cache_tree" where
  "set_sub_tree pos ct u it = set_down ((down it)[pos := Cache_Tree_Sub (sub_name (down it ! pos)) u ct]) it"

text \<open>\<open>strchr (path, '/')\<close>.\<close>

definition slash_pos :: "string \<Rightarrow> nat option" where
  "slash_pos path = (if CHR ''/'' \<in> set path then Some (length (takeWhile (\<lambda>c. c \<noteq> CHR ''/'') path)) else None)"

lemma slash_pos_less: "slash_pos path = Some n \<Longrightarrow> n < length path"
  by (induction path arbitrary: n) (auto simp: slash_pos_def split: if_splits)

function cache_tree_invalidate_path :: "cache_tree \<Rightarrow> string \<Rightarrow> cache_tree" where
  "cache_tree_invalidate_path it path =
     (let it = Cache_Tree (-1) (ct_sha1 it) (down it) in
      case slash_pos path of
        None \<Rightarrow>
          let pos = subtree_pos it path in
          if 0 \<le> pos then set_down (take (nat pos) (down it) @ drop (nat pos + 1) (down it)) it else it
      | Some namelen \<Rightarrow>
          (case snd (find_subtree it (take namelen path) False) of None \<Rightarrow> it
           | Some pos \<Rightarrow>
               (case sub_tree (down it ! pos) of None \<Rightarrow> it
                | Some ct \<Rightarrow> set_sub_tree pos (Some (cache_tree_invalidate_path ct (drop (namelen + 1) path)))
                    (used (down it ! pos)) it)))"
  by pat_completeness auto
termination by (relation "measure (\<lambda>(_, path). length path)") (auto dest: slash_pos_less)

declare cache_tree_invalidate_path.simps [simp del]

text \<open>Entries of a higher stage, and a path directly followed by one inside it, are refused.\<close>

definition verify_cache :: "cache_entry list \<Rightarrow> int" where
  "verify_cache cache =
     (if list_ex (\<lambda>ce. ce_stage ce \<noteq> 0) cache then -1
      else if list_ex (\<lambda>(this, nxt). length (ce_name this) < length (ce_name nxt)
          \<and> take (length (ce_name this)) (ce_name nxt) = ce_name this
          \<and> ce_name nxt ! length (ce_name this) = CHR ''/'') (zip cache (tl cache)) then -1
      else 0)"

definition discard_unused_subtrees :: "cache_tree \<Rightarrow> cache_tree" where
  "discard_unused_subtrees it = set_down (filter used (down it)) it"

fun cache_tree_fully_valid :: "odb \<Rightarrow> cache_tree \<Rightarrow> bool" where
  "cache_tree_fully_valid db (Cache_Tree n sha1 subs) =
     (0 \<le> n \<and> has_sha1_file db sha1
      \<and> (\<forall>sub \<in> set subs. case sub_tree sub of None \<Rightarrow> False | Some ct \<Rightarrow> cache_tree_fully_valid db ct))"

subsection \<open>Writing the trees of an index\<close>

definition unmark :: "cache_tree \<Rightarrow> cache_tree" where
  "unmark it = set_down (map (\<lambda>sub. Cache_Tree_Sub (sub_name sub) False (sub_tree sub)) (down it)) it"

text \<open>Whether an entry is still at the level of \<open>base\<close>: the test that ends both loops.\<close>

definition at_level :: "string \<Rightarrow> nat \<Rightarrow> cache_entry \<Rightarrow> bool" where
  "at_level base baselen ce \<longleftrightarrow> baselen < ce_namelen ce \<and> take baselen base = take baselen (ce_name ce)"

text \<open>
  The second loop: the position the entry leads to, and the name, the mode and the length of the name of
  the item to write. A subtree that was not found is a call of \<open>die\<close>.
\<close>

definition item_at :: "cache_tree \<Rightarrow> cache_entry list \<Rightarrow> nat \<Rightarrow> nat \<Rightarrow> (int \<times> name \<times> u32 \<times> nat) read" where
  "item_at it cache baselen i =
     (let ce = cache ! i; rel = drop baselen (ce_name ce) in
      case slash_pos rel of
        Some entlen \<Rightarrow>
          (case snd (find_subtree it (take entlen rel) False) of None \<Rightarrow> Bad
           | Some pos \<Rightarrow>
               (case sub_tree (down it ! pos) of None \<Rightarrow> Overrun
                | Some ct \<Rightarrow> Got (int i + (entry_count ct - 1), ct_sha1 ct, 0x4000, entlen)))
      | None \<Rightarrow> Got (int i, ce_sha1 ce, ce_mode ce, ce_namelen ce - baselen))"

text \<open>\<open>Got (None, i)\<close> is the error of an entry whose object is missing.\<close>

fun write_items :: "nat \<Rightarrow> odb \<Rightarrow> nat \<Rightarrow> cache_tree \<Rightarrow> cache_entry list \<Rightarrow> string \<Rightarrow> nat \<Rightarrow> nat \<Rightarrow> strbuf
    \<Rightarrow> (strbuf option \<times> nat) read" where
  "write_items fl db 0 it cache base baselen i buffer = Overrun"
| "write_items fl db (Suc fuel) it cache base baselen i buffer =
     (if length cache \<le> i then Got (Some buffer, i)
      else if \<not> at_level base baselen (cache ! i) then Got (Some buffer, i)
      else and_then (item_at it cache baselen i) (\<lambda>(j, sha1, mode, entlen).
        if mode \<noteq> S_IFGITLINK \<and> fl AND WRITE_TREE_MISSING_OK = 0 \<and> \<not> has_sha1_file db sha1
        then Got (None, nat j)
        else if has_flag (cache ! i) (CE_REMOVE OR CE_INTENT_TO_ADD)
        then write_items fl db fuel it cache base baselen (nat (j + 1)) buffer
        else and_then (strbuf_grow buffer (of_nat (entlen + 100))) (\<lambda>buffer.
          and_then (strbuf_vaddf buffer (octal (unat mode) @ '' '' @ take entlen (drop baselen (ce_name (cache ! i))) @ [CHR 0x00])) (\<lambda>buffer.
          and_then (strbuf_add buffer (raw_sha1 sha1)) (\<lambda>buffer.
            write_items fl db fuel it cache base baselen (nat (j + 1)) buffer)))))"

definition write_tree_object :: "tree_env \<Rightarrow> nat \<Rightarrow> nat \<Rightarrow> cache_tree \<Rightarrow> cache_entry list \<Rightarrow> string \<Rightarrow> nat \<Rightarrow> odb
    \<Rightarrow> (cache_tree \<times> odb \<times> int) read" where
  "write_tree_object env fl fuel it cache base baselen db =
     and_then (strbuf_init 8192) (\<lambda>buffer.
     and_then (write_items fl db fuel it cache base baselen 0 buffer) (\<lambda>(res, i).
       case res of None \<Rightarrow> Got (it, db, -1)
       | Some buffer \<Rightarrow>
           if fl AND WRITE_TREE_DRY_RUN \<noteq> 0
           then Got (Cache_Tree (int i) (te_hash env (sb_str buffer)) (down it), db, int i)
           else case write_sha1_file env (sb_str buffer) db of (db, sha1, ret) \<Rightarrow>
             if ret \<noteq> 0 then Got (Cache_Tree (entry_count it) sha1 (down it), db, -1)
             else Got (Cache_Tree (int i) sha1 (down it), db, int i)))"

fun update_one :: "tree_env \<Rightarrow> nat \<Rightarrow> nat \<Rightarrow> cache_tree \<Rightarrow> cache_entry list \<Rightarrow> string \<Rightarrow> nat \<Rightarrow> odb
    \<Rightarrow> (cache_tree \<times> odb \<times> int) read"
  and update_subtrees :: "tree_env \<Rightarrow> nat \<Rightarrow> nat \<Rightarrow> cache_tree \<Rightarrow> cache_entry list \<Rightarrow> string \<Rightarrow> nat \<Rightarrow> nat \<Rightarrow> odb
    \<Rightarrow> (cache_tree \<times> odb \<times> int) read" where
  "update_one env fl 0 it cache base baselen db = Overrun"
| "update_one env fl (Suc fuel) it cache base baselen db =
     (if 0 \<le> entry_count it \<and> has_sha1_file db (ct_sha1 it) then Got (it, db, entry_count it)
      else and_then (update_subtrees env fl fuel (unmark it) cache base baselen 0 db) (\<lambda>(it, db, ret).
        if ret < 0 then Got (it, db, ret)
        else write_tree_object env fl fuel (discard_unused_subtrees it) cache base baselen db))"
| "update_subtrees env fl 0 it cache base baselen i db = Overrun"
| "update_subtrees env fl (Suc fuel) it cache base baselen i db =
     (if length cache \<le> i then Got (it, db, 0)
      else if \<not> at_level base baselen (cache ! i) then Got (it, db, 0)
      else let path = ce_name (cache ! i) in
        case slash_pos (drop baselen path) of
          None \<Rightarrow> update_subtrees env fl fuel it cache base baselen (i + 1) db
        | Some sublen \<Rightarrow>
            (case cache_tree_sub it (take sublen (drop baselen path)) of (it, pos) \<Rightarrow>
              let ct = (case sub_tree (down it ! pos) of None \<Rightarrow> new_cache_tree | Some ct \<Rightarrow> ct) in
              and_then (update_one env fl fuel ct (drop i cache) path (baselen + sublen + 1) db) (\<lambda>(ct, db, subcnt).
                if subcnt < 0 then Got (set_sub_tree pos (Some ct) (used (down it ! pos)) it, db, subcnt)
                else update_subtrees env fl fuel (set_sub_tree pos (Some ct) True it) cache base baselen (nat (int i + subcnt)) db)))"

definition cache_tree_update :: "tree_env \<Rightarrow> nat \<Rightarrow> nat \<Rightarrow> cache_tree \<Rightarrow> cache_entry list \<Rightarrow> odb
    \<Rightarrow> (cache_tree \<times> odb \<times> int) read" where
  "cache_tree_update env fl fuel it cache db =
     (if verify_cache cache \<noteq> 0 then Got (it, db, verify_cache cache)
      else and_then (update_one env fl fuel it cache [] 0 db) (\<lambda>(it, db, i). Got (it, db, if i < 0 then i else 0)))"

subsection \<open>The subtrees as a map\<close>

definition name_less :: "string \<Rightarrow> string \<Rightarrow> bool" where
  "name_less a b \<longleftrightarrow> length a < length b \<or> length a = length b \<and> a < b"

lemma name_less_order: "\<not> name_less a a" "name_less a b \<Longrightarrow> name_less b c \<Longrightarrow> name_less a c"
  "a = b \<or> name_less a b \<or> name_less b a"
  by (auto simp: name_less_def)

lemma subtree_name_cmp_less:
  "subtree_name_cmp a b < 0 \<longleftrightarrow> name_less a b" "subtree_name_cmp a b = 0 \<longleftrightarrow> a = b"
  using strcmp_less [of a b] strcmp_memcmp [of a b] strcmp_eq_0 [of a b]
  by (auto simp: subtree_name_cmp_def name_less_def)

definition subs_sorted :: "cache_tree_sub list \<Rightarrow> bool" where
  "subs_sorted subs \<longleftrightarrow> sorted_wrt name_less (map sub_name subs)"

lemma subs_sorted_nth: "subs_sorted subs \<Longrightarrow> i < j \<Longrightarrow> j < length subs \<Longrightarrow> name_less (sub_name (subs ! i)) (sub_name (subs ! j))"
  by (auto simp: subs_sorted_def sorted_wrt_iff_nth_less)

lemma subs_sorted_distinct: "subs_sorted subs \<Longrightarrow> distinct (map sub_name subs)"
  unfolding subs_sorted_def by (induction subs) (auto simp: name_less_order)

interpretation sub_search: binary_search "\<lambda>subs k i. subtree_name_cmp k (sub_name (subs ! i))" subtree_pos_loop length
  "\<lambda>subs k. subs_sorted subs"
proof
  show "subtree_name_cmp k (sub_name (subs ! j)) < 0"
    if "subs_sorted subs" "i < j" "j < length subs" "subtree_name_cmp k (sub_name (subs ! i)) \<le> 0"
    for subs :: "cache_tree_sub list" and k i j
    using that subs_sorted_nth [of subs i j] name_less_order(2) [of k "sub_name (subs ! i)"]
    by (auto simp: subtree_name_cmp_less le_less)
qed (auto simp: subtree_pos_loop.simps Let_def)

definition sub_entry :: "cache_tree_sub \<Rightarrow> string \<times> bool \<times> cache_tree option" where
  "sub_entry sub = (sub_name sub, used sub, sub_tree sub)"

definition subs_map :: "cache_tree_sub list \<Rightarrow> string \<rightharpoonup> bool \<times> cache_tree option" where
  "subs_map subs = map_of (map sub_entry subs)"

definition sub_map :: "cache_tree \<Rightarrow> string \<rightharpoonup> bool \<times> cache_tree option" where
  "sub_map it = subs_map (down it)"

lemma down_set_down [simp]: "down (set_down subs it) = subs" "entry_count (set_down subs it) = entry_count it"
  "ct_sha1 (set_down subs it) = ct_sha1 it"
  by (simp_all add: set_down_def)

lemma sub_map_set_down [simp]: "sub_map (set_down subs it) = subs_map subs"
  by (simp add: sub_map_def)

lemma subs_map_simps [simp]: "subs_map [] = Map.empty" "subs_map (xs @ ys) = subs_map ys ++ subs_map xs"
  "subs_map (sub # subs) = (subs_map subs)(sub_name sub \<mapsto> (used sub, sub_tree sub))"
  by (simp_all add: subs_map_def sub_entry_def)

lemma fst_sub_entry: "map (fst \<circ> sub_entry) subs = map sub_name subs"
  by (simp add: sub_entry_def)

lemma subs_map_Some:
  assumes "subs_sorted subs"
  shows "subs_map subs d = Some x \<longleftrightarrow> Cache_Tree_Sub d (fst x) (snd x) \<in> set subs"
proof -
  have "distinct (map fst (map sub_entry subs))" using subs_sorted_distinct [OF assms] by (simp add: fst_sub_entry)
  then have "subs_map subs d = Some x \<longleftrightarrow> (d, x) \<in> set (map sub_entry subs)" unfolding subs_map_def by (rule map_of_eq_Some_iff)
  also have "\<dots> \<longleftrightarrow> Cache_Tree_Sub d (fst x) (snd x) \<in> set subs"
    by (force simp: sub_entry_def image_iff cache_tree_sub.expand)
  finally show ?thesis .
qed

lemma subs_map_None: "subs_map subs d = None \<longleftrightarrow> d \<notin> sub_name ` set subs"
  by (induction subs) (auto)

lemma subtree_pos_found:
  assumes "subs_sorted (down it)" "sub_map it d = Some (u, t)"
  shows "\<exists>pos. subtree_pos it d = int pos \<and> pos < length (down it) \<and> down it ! pos = Cache_Tree_Sub d u t"
proof -
  have m: "Cache_Tree_Sub d u t \<in> set (down it)" using assms subs_map_Some by (fastforce simp: sub_map_def)
  then obtain k where k: "k < length (down it)" "down it ! k = Cache_Tree_Sub d u t" by (metis in_set_conv_nth)
  have "sub_search.found_at (down it) d (subtree_pos it d)"
    unfolding subtree_pos_def by (rule sub_search.search_all [OF assms(1)])
  then consider p where "p < length (down it)" "subtree_pos it d = int p" "sub_name (down it ! p) = d"
    | p where "\<forall>i<p. 0 < subtree_name_cmp d (sub_name (down it ! i))"
        "\<forall>i. p \<le> i \<longrightarrow> i < length (down it) \<longrightarrow> subtree_name_cmp d (sub_name (down it ! i)) < 0"
    unfolding sub_search.found_at_def by (auto simp: subtree_name_cmp_less)
  then show ?thesis
  proof cases
    case 1
    then have "p = k" using subs_sorted_distinct [OF assms(1)] k
      by (metis (no_types, lifting) cache_tree_sub.sel(1) length_map nth_eq_iff_index_eq nth_map)
    then show ?thesis using 1 k by blast
  next
    case 2
    then have "subtree_name_cmp d (sub_name (down it ! k)) \<noteq> 0" using k(1) by (metis less_irrefl not_le)
    then show ?thesis using k(2) by (simp add: subtree_name_cmp_less)
  qed
qed

lemma subtree_pos_absent:
  assumes "subs_sorted (down it)" "sub_map it d = None"
  shows "\<exists>pos. subtree_pos it d = - int pos - 1 \<and> pos \<le> length (down it)
    \<and> (\<forall>x \<in> set (take pos (down it)). name_less (sub_name x) d) \<and> (\<forall>x \<in> set (drop pos (down it)). name_less d (sub_name x))"
proof -
  have "sub_search.found_at (down it) d (subtree_pos it d)"
    unfolding subtree_pos_def by (rule sub_search.search_all [OF assms(1)])
  then consider p where "p < length (down it)" "sub_name (down it ! p) = d"
    | p where "subtree_pos it d = - int p - 1" "p \<le> length (down it)"
        "\<forall>i<p. 0 < subtree_name_cmp d (sub_name (down it ! i))"
        "\<forall>i. p \<le> i \<longrightarrow> i < length (down it) \<longrightarrow> subtree_name_cmp d (sub_name (down it ! i)) < 0"
    unfolding sub_search.found_at_def by (auto simp: subtree_name_cmp_less)
  then show ?thesis
  proof cases
    case 1
    then have "d \<in> sub_name ` set (down it)" by (metis imageI nth_mem)
    then show ?thesis using assms(2) by (simp add: sub_map_def subs_map_None)
  next
    case 2
    have gt: "0 < subtree_name_cmp d x \<longleftrightarrow> name_less x d" for x
      using subtree_name_cmp_less [of d x] name_less_order [of x] name_less_order(2) [of d x d] name_less_order(1) [of d]
      by (metis linorder_neqE_linordered_idom not_less_iff_gr_or_eq)
    have "\<forall>x \<in> set (take p (down it)). name_less (sub_name x) d"
      using 2(2,3) by (auto simp: in_set_conv_nth gt)
    moreover have "\<forall>x \<in> set (drop p (down it)). name_less d (sub_name x)"
      using 2(4) by (auto simp: in_set_conv_nth subtree_name_cmp_less)
    ultimately show ?thesis using 2(1,2) by blast
  qed
qed

lemma sorted_insert:
  assumes "subs_sorted subs" "\<forall>x \<in> set (take pos subs). name_less (sub_name x) d" "\<forall>x \<in> set (drop pos subs). name_less d (sub_name x)"
  shows "subs_sorted (take pos subs @ Cache_Tree_Sub d u t # drop pos subs)"
proof -
  have "sorted_wrt name_less (map sub_name (take pos subs) @ map sub_name (drop pos subs))"
    using assms(1) unfolding subs_sorted_def by (metis append_take_drop_id map_append)
  then show ?thesis using assms(2,3) unfolding subs_sorted_def sorted_wrt_append map_append list.map
    by (auto intro: name_less_order(2))
qed

lemma subs_map_insert:
  assumes "d \<notin> sub_name ` set subs"
  shows "subs_map (take pos subs @ Cache_Tree_Sub d u t # drop pos subs) = (subs_map subs)(d \<mapsto> (u, t))"
proof -
  have "subs_map (take pos subs) d = None" using assms by (auto simp: subs_map_None dest: in_set_takeD)
  moreover have "subs_map subs = subs_map (drop pos subs) ++ subs_map (take pos subs)"
    by (metis append_take_drop_id subs_map_simps(2))
  ultimately show ?thesis by (simp add: map_add_upd_left domIff)
qed

lemma cache_tree_sub_ok:
  assumes "subs_sorted (down it)" and x_def: "x = (case sub_map it d of None \<Rightarrow> (False, None) | Some x \<Rightarrow> x)"
  shows "\<exists>it' pos. cache_tree_sub it d = (it', pos) \<and> pos < length (down it') \<and> down it' ! pos = Cache_Tree_Sub d (fst x) (snd x)
    \<and> subs_sorted (down it') \<and> sub_map it' = (sub_map it)(d \<mapsto> x) \<and> entry_count it' = entry_count it \<and> ct_sha1 it' = ct_sha1 it"
proof (cases "sub_map it d")
  case None
  from subtree_pos_absent [OF assms(1) this] obtain pos where p: "subtree_pos it d = - int pos - 1" "pos \<le> length (down it)"
    "\<forall>x \<in> set (take pos (down it)). name_less (sub_name x) d" "\<forall>x \<in> set (drop pos (down it)). name_less d (sub_name x)" by blast
  have x: "x = (False, None)" using None by (simp add: x_def)
  let ?it = "set_down (take pos (down it) @ Cache_Tree_Sub d False None # drop pos (down it)) it"
  have "cache_tree_sub it d = (?it, pos)" using p(1) by (simp add: cache_tree_sub_def find_subtree_def Let_def)
  moreover have "down ?it ! pos = Cache_Tree_Sub d False None" using p(2) by (simp add: nth_append)
  moreover have "sub_map ?it = (sub_map it)(d \<mapsto> x)"
    using None subs_map_insert [of d "down it"] by (simp add: x sub_map_def subs_map_None)
  ultimately show ?thesis using sorted_insert [OF assms(1) p(3,4)] p(2) by (auto simp: x)
next
  case (Some y)
  then have x: "x = y" by (simp add: x_def)
  from subtree_pos_found [OF assms(1)] Some obtain pos where "subtree_pos it d = int pos" "pos < length (down it)"
    "down it ! pos = Cache_Tree_Sub d (fst y) (snd y)" by (metis prod.collapse)
  then show ?thesis using assms(1) Some by (auto simp: x cache_tree_sub_def find_subtree_def Let_def)
qed

lemma find_subtree_found:
  assumes "subs_sorted (down it)" "sub_map it d = Some (u, t)"
  shows "\<exists>pos. find_subtree it d create = (it, Some pos) \<and> pos < length (down it) \<and> down it ! pos = Cache_Tree_Sub d u t"
  using subtree_pos_found [OF assms] by (auto simp: find_subtree_def Let_def)

lemma subs_map_update:
  assumes "subs_sorted subs" "pos < length subs" "sub_name (subs ! pos) = d"
  shows "subs_map (subs[pos := Cache_Tree_Sub d u t]) = (subs_map subs)(d \<mapsto> (u, t))"
    "subs_sorted (subs[pos := Cache_Tree_Sub d u t])"
proof -
  have "map sub_name (subs[pos := Cache_Tree_Sub d u t]) = (map sub_name subs)[pos := d]" by (simp add: map_update)
  also have "\<dots> = map sub_name subs" using assms(2,3) by (metis length_map list_update_id nth_map)
  finally show "subs_sorted (subs[pos := Cache_Tree_Sub d u t])" using assms(1) by (simp add: subs_sorted_def)
  have split: "subs = take pos subs @ subs ! pos # drop (Suc pos) subs" using assms(2) by (rule id_take_nth_drop)
  have "d \<notin> sub_name ` set (take pos subs)"
  proof
    assume "d \<in> sub_name ` set (take pos subs)"
    then obtain i where i: "i < pos" "sub_name (subs ! i) = d" using assms(2) by (auto simp: in_set_conv_nth)
    then show False using subs_sorted_nth [OF assms(1) i(1) assms(2)] assms(3) by (simp add: name_less_order)
  qed
  then have n: "d \<notin> dom (subs_map (take pos subs))" by (auto simp: domIff subs_map_None)
  have "subs_map subs = (subs_map (drop (Suc pos) subs))(d \<mapsto> (used (subs ! pos), sub_tree (subs ! pos))) ++ subs_map (take pos subs)"
    by (subst split) (simp add: assms(3))
  moreover have "subs_map (subs[pos := Cache_Tree_Sub d u t]) = (subs_map (drop (Suc pos) subs))(d \<mapsto> (u, t)) ++ subs_map (take pos subs)"
    using assms(2) by (simp add: upd_conv_take_nth_drop)
  ultimately show "subs_map (subs[pos := Cache_Tree_Sub d u t]) = (subs_map subs)(d \<mapsto> (u, t))"
    using n by (simp add: map_add_upd_left)
qed

lemma set_sub_tree_ok:
  assumes "subs_sorted (down it)" "pos < length (down it)" "sub_name (down it ! pos) = d"
  shows "sub_map (set_sub_tree pos ct u it) = (sub_map it)(d \<mapsto> (u, ct))" "subs_sorted (down (set_sub_tree pos ct u it))"
    "entry_count (set_sub_tree pos ct u it) = entry_count it" "ct_sha1 (set_sub_tree pos ct u it) = ct_sha1 it"
  using subs_map_update [OF assms] by (simp_all add: set_sub_tree_def assms(3) sub_map_def)

end
