(* ===== verification/Write_Tree.thy ===== *)
theory Write_Tree
  imports Cache_Tree
begin

text \<open>
  What \<open>cache_tree_update\<close> of theory \<open>Cache_Tree\<close> writes: a reference that splits the paths of the index
  into the items of nested trees, and the proof that the update, with any trees kept from before,
  writes these and returns their names.
\<close>

subsection \<open>The trees of a list of paths\<close>

text \<open>A path relative to the directory, the mode and the name of the object.\<close>

type_synonym path_item = "string \<times> u32 \<times> name"

definition first_dir :: "string \<Rightarrow> string" where
  "first_dir p = takeWhile (\<lambda>c. c \<noteq> CHR ''/'') p"

definition in_dir :: "string \<Rightarrow> path_item \<Rightarrow> bool" where
  "in_dir d x \<longleftrightarrow> take (length d + 1) (fst x) = d @ ''/''"

definition strip_dir :: "string \<Rightarrow> path_item \<Rightarrow> path_item" where
  "strip_dir d x = (drop (length d + 1) (fst x), snd x)"

definition weight :: "path_item list \<Rightarrow> nat" where
  "weight xs = (\<Sum>x\<leftarrow>xs. Suc (length (fst x)))"

lemma weight_simps [simp]: "weight [] = 0" "weight (x # xs) = Suc (length (fst x)) + weight xs" "weight (xs @ ys) = weight xs + weight ys"
  by (simp_all add: weight_def)

lemma weight_takeWhile: "weight xs = weight (takeWhile P xs) + weight (dropWhile P xs)"
  by (simp flip: weight_simps(3))

lemma weight_strip: "weight (map (strip_dir d) xs) \<le> weight xs"
  by (induction xs) (auto simp: strip_dir_def)

definition leading :: "string \<Rightarrow> path_item list \<Rightarrow> path_item list" where
  "leading d xs = map (strip_dir d) (takeWhile (in_dir d) xs)"

lemma in_dir_iff:
  assumes "CHR ''/'' \<notin> set d"
  shows "in_dir d x \<longleftrightarrow> CHR ''/'' \<in> set (fst x) \<and> first_dir (fst x) = d"
proof -
  have "take (Suc (length d)) p = d @ ''/'' \<longleftrightarrow> CHR ''/'' \<in> set p \<and> first_dir p = d" for p
    using assms
  proof (induction p arbitrary: d)
    case (Cons c p)
    then show ?case by (cases d) (auto simp: first_dir_def)
  qed simp
  then show ?thesis by (simp add: in_dir_def)
qed

lemma first_dir_no_slash: "CHR ''/'' \<notin> set (first_dir p)"
  unfolding first_dir_def by (auto dest: set_takeWhileD)

lemma in_first_dir: "CHR ''/'' \<in> set (fst x) \<Longrightarrow> in_dir (first_dir (fst x)) x"
  using in_dir_iff [OF first_dir_no_slash] by blast

lemma leading_weight:
  assumes "CHR ''/'' \<in> set (fst x)"
  shows "weight (leading (first_dir (fst x)) (x # xs)) + weight (dropWhile (in_dir (first_dir (fst x))) xs) + 1 \<le> weight (x # xs)"
proof -
  let ?d = "first_dir (fst x)"
  have x: "in_dir ?d x" by (rule in_first_dir [OF assms])
  have "length (drop (length ?d + 1) (fst x)) + (length ?d + 1) = length (fst x)"
  proof -
    have "length (take (length ?d + 1) (fst x)) = length ?d + 1" using x by (simp add: in_dir_def)
    then show ?thesis by simp
  qed
  then have "length (fst (strip_dir ?d x)) + 1 \<le> length (fst x)" by (simp add: strip_dir_def)
  moreover have "leading ?d (x # xs) = strip_dir ?d x # map (strip_dir ?d) (takeWhile (in_dir ?d) xs)"
    using x by (simp add: leading_def)
  moreover have "weight (map (strip_dir ?d) (takeWhile (in_dir ?d) xs)) \<le> weight (takeWhile (in_dir ?d) xs)"
    by (rule weight_strip)
  moreover have "weight xs = weight (takeWhile (in_dir ?d) xs) + weight (dropWhile (in_dir ?d) xs)" by (rule weight_takeWhile)
  ultimately show ?thesis by simp
qed

lemma leading_less:
  assumes "CHR ''/'' \<in> set (fst x)"
  shows "weight (leading (first_dir (fst x)) (x # xs)) < weight (x # xs)"
    "weight (dropWhile (in_dir (first_dir (fst x))) xs) < weight (x # xs)"
  using leading_weight [OF assms, of xs] by linarith+

text \<open>The items of one tree: files as they are, and a directory for the paths that begin with it.\<close>

function dir_items :: "(string \<Rightarrow> name) \<Rightarrow> path_item list \<Rightarrow> tree_item list" where
  "dir_items h [] = []"
| "dir_items h (x # xs) =
     (if CHR ''/'' \<notin> set (fst x) then (fst (snd x), fst x, snd (snd x)) # dir_items h xs
      else (0x4000, first_dir (fst x), h (tree_text (dir_items h (leading (first_dir (fst x)) (x # xs)))))
        # dir_items h (dropWhile (in_dir (first_dir (fst x))) xs))"
  by pat_completeness auto
termination
  by (relation "measure (\<lambda>(_, xs). weight xs)") (simp_all del: weight_simps add: leading_less, simp)


declare dir_items.simps [simp del]

text \<open>The texts of all the trees that are needed for the paths: of the subtrees, and of the tree itself.\<close>

function sub_texts :: "(string \<Rightarrow> name) \<Rightarrow> path_item list \<Rightarrow> string set" where
  "sub_texts h [] = {}"
| "sub_texts h (x # xs) =
     (if CHR ''/'' \<notin> set (fst x) then sub_texts h xs
      else let ys = leading (first_dir (fst x)) (x # xs) in
        insert (tree_text (dir_items h ys)) (sub_texts h ys) \<union> sub_texts h (dropWhile (in_dir (first_dir (fst x))) xs))"
  by pat_completeness auto
termination
  by (relation "measure (\<lambda>(_, xs). weight xs)") (simp_all del: weight_simps add: leading_less, simp)

declare sub_texts.simps [simp del]

definition all_texts :: "(string \<Rightarrow> name) \<Rightarrow> path_item list \<Rightarrow> string set" where
  "all_texts h xs = insert (tree_text (dir_items h xs)) (sub_texts h xs)"

subsection \<open>Sorted paths\<close>

definition good_path :: "string \<Rightarrow> bool" where
  "good_path p \<longleftrightarrow> CHR 0x00 \<notin> set p \<and> [] \<notin> set (split_path p)"

definition level_ok :: "path_item list \<Rightarrow> bool" where
  "level_ok xs \<longleftrightarrow> sorted_wrt (<) (map fst xs) \<and> (\<forall>x \<in> set xs. good_path (fst x))"

text \<open>All the paths of the list inside a directory.\<close>

definition members :: "string \<Rightarrow> path_item list \<Rightarrow> path_item list" where
  "members d xs = map (strip_dir d) (filter (in_dir d) xs)"

definition dirs :: "path_item list \<Rightarrow> string set" where
  "dirs xs = {first_dir (fst x) | x. x \<in> set xs \<and> CHR ''/'' \<in> set (fst x)}"

lemma dirs_no_slash: "d \<in> dirs xs \<Longrightarrow> CHR ''/'' \<notin> set d"
  by (auto simp: dirs_def first_dir_no_slash)

lemma split_path_first:
  "CHR ''/'' \<in> set p \<Longrightarrow> split_path p = first_dir p # split_path (drop (length (first_dir p) + 1) p)"
proof (induction p)
  case (Cons c p)
  then show ?case by (cases "c = CHR ''/''") (auto simp: first_dir_def)
qed simp

lemma split_path_ne: "split_path p \<noteq> []"
  by (cases p) auto

lemma good_path_strip:
  assumes "good_path (fst x)" "in_dir d x" "CHR ''/'' \<notin> set d"
  shows "good_path (fst (strip_dir d x))" "d \<noteq> []" "fst (strip_dir d x) \<noteq> []" "fst x = d @ CHR ''/'' # fst (strip_dir d x)"
proof -
  have x: "CHR ''/'' \<in> set (fst x)" "first_dir (fst x) = d" using assms(2) in_dir_iff [OF assms(3)] by blast+
  note sp = split_path_first [OF x(1), unfolded x(2)]
  show "good_path (fst (strip_dir d x))" "d \<noteq> []"
    using assms(1) unfolding good_path_def sp strip_dir_def by (auto dest: in_set_dropD)
  show "fst (strip_dir d x) \<noteq> []"
  proof
    assume "fst (strip_dir d x) = []"
    then have "split_path (drop (length d + 1) (fst x)) = [[]]" by (simp add: strip_dir_def)
    then show False using assms(1) unfolding good_path_def sp by simp
  qed
  show "fst x = d @ CHR ''/'' # fst (strip_dir d x)"
    using assms(2) unfolding in_dir_def strip_dir_def
    by (metis append.assoc append_Cons append_Nil append_take_drop_id fst_conv)
qed

lemma level_ok_Cons: "level_ok (x # xs) \<Longrightarrow> level_ok xs"
  by (simp add: level_ok_def)

lemma level_ok_dropWhile: "level_ok xs \<Longrightarrow> level_ok (dropWhile P xs)"
proof -
  assume ok: "level_ok xs"
  then have "sorted_wrt (<) (map fst (takeWhile P xs) @ map fst (dropWhile P xs))"
    by (simp add: level_ok_def flip: map_append)
  then show ?thesis using ok unfolding level_ok_def sorted_wrt_append by (auto dest: set_dropWhileD)
qed

lemma dir_less: "(d :: string) @ CHR ''/'' # a < d @ CHR ''/'' # b \<longleftrightarrow> a < b"
  by (induction d) auto

lemma prefix_le: "(a :: string) \<le> a @ b"
  by (induction a) auto

lemma level_ok_members:
  assumes ok: "level_ok xs" and d: "CHR ''/'' \<notin> set d"
  shows "level_ok (members d xs)"
proof -
  have g: "\<forall>x \<in> set (filter (in_dir d) xs). good_path (fst x) \<and> in_dir d x" using ok by (simp add: level_ok_def)
  have "sorted_wrt (<) (map fst (filter (in_dir d) xs))" using ok
    unfolding level_ok_def by (simp add: sorted_wrt_map sorted_wrt_filter)
  then have "sorted_wrt (\<lambda>x y. fst (strip_dir d x) < fst (strip_dir d y)) (filter (in_dir d) xs)"
    unfolding sorted_wrt_map
  proof (rule sorted_wrt_mono_rel [rotated])
    fix x y
    assume x: "x \<in> set (filter (in_dir d) xs)" and y: "y \<in> set (filter (in_dir d) xs)" and less: "fst x < fst y"
    have "fst x = d @ CHR ''/'' # fst (strip_dir d x)" "fst y = d @ CHR ''/'' # fst (strip_dir d y)"
      using g x y good_path_strip(4) [OF _ _ d] by blast+
    then show "fst (strip_dir d x) < fst (strip_dir d y)" using less dir_less [of d] by metis
  qed
  then have "sorted_wrt (<) (map fst (members d xs))" unfolding members_def sorted_wrt_map .
  moreover have "good_path (fst y)" if y: "y \<in> set (members d xs)" for y
  proof -
    obtain x where "x \<in> set (filter (in_dir d) xs)" "y = strip_dir d x" using y unfolding members_def set_map by blast
    then show ?thesis using g good_path_strip(1) [OF _ _ d] by blast
  qed
  ultimately show ?thesis by (simp add: level_ok_def)
qed

text \<open>The paths of a directory stand together.\<close>

lemma in_dir_between:
  assumes "in_dir d x" "in_dir d z" "fst x < fst y" "fst y < fst z"
  shows "in_dir d y"
proof (rule ccontr)
  let ?a = "d @ ''/''"
  have x: "fst x = ?a @ drop (length ?a) (fst x)" and z: "take (length ?a) (fst z) = ?a"
    using assms(1,2) unfolding in_dir_def by (metis append_take_drop_id length_append_singleton Suc_eq_plus1, simp)
  assume "\<not> in_dir d y"
  then have y: "take (length ?a) (fst y) \<noteq> ?a" by (simp add: in_dir_def)
  have "?a \<le> fst x" by (subst x) (rule prefix_le)
  then have "?a < fst y" using assms(3) by simp
  from lex_past_prefix [OF this y, of "fst z"] show False using assms(4) z by auto
qed

lemma members_leading:
  assumes "level_ok (x # xs)" "in_dir d x"
  shows "members d (x # xs) = leading d (x # xs)" "\<forall>y \<in> set (dropWhile (in_dir d) xs). \<not> in_dir d y"
proof -
  have s: "sorted_wrt (<) (map fst (x # xs))" using assms(1) by (simp add: level_ok_def)
  show none: "\<forall>y \<in> set (dropWhile (in_dir d) xs). \<not> in_dir d y"
  proof
    fix y
    assume y: "y \<in> set (dropWhile (in_dir d) xs)"
    then obtain z zs where dw: "dropWhile (in_dir d) xs = z # zs" by (cases "dropWhile (in_dir d) xs") auto
    then have z: "\<not> in_dir d z" by (metis hd_dropWhile list.distinct(1) list.sel(1))
    have "z \<in> set xs" using dw by (metis list.set_intros(1) set_dropWhileD)
    then have xz: "fst x < fst z" using s by simp
    have "sorted_wrt (<) (map fst (z # zs))" using level_ok_dropWhile [OF level_ok_Cons [OF assms(1)], of "in_dir d"] dw
      by (simp add: level_ok_def)
    then have "y = z \<or> fst z < fst y" using y dw by auto
    then show "\<not> in_dir d y" using z in_dir_between [OF assms(2) _ xz] by blast
  qed
  have "filter (in_dir d) xs = takeWhile (in_dir d) xs"
  proof -
    have "filter (in_dir d) (takeWhile (in_dir d) xs @ dropWhile (in_dir d) xs) = takeWhile (in_dir d) xs"
      unfolding filter_append using none by (simp add: filter_empty_conv takeWhile_eq_all_conv)
        (metis filter_True set_takeWhileD)
    then show ?thesis by simp
  qed
  then show "members d (x # xs) = leading d (x # xs)" using assms(2) by (simp add: members_def leading_def)
qed

subsection \<open>The entries of one level\<close>

definition item_of :: "nat \<Rightarrow> cache_entry \<Rightarrow> path_item" where
  "item_of k ce = (drop k (ce_name ce), ce_mode ce, ce_sha1 ce)"

text \<open>The entries from \<open>i\<close> on that are at the level of a directory, as paths relative to it.\<close>

definition level :: "cache_entry list \<Rightarrow> string \<Rightarrow> nat \<Rightarrow> nat \<Rightarrow> path_item list" where
  "level cache base k i = map (item_of k) (takeWhile (at_level base k) (drop i cache))"

lemma level_Nil: "level cache base k i = [] \<longleftrightarrow> length cache \<le> i \<or> \<not> at_level base k (cache ! i)"
proof (cases "i < length cache")
  case True
  then have "drop i cache = cache ! i # drop (Suc i) cache" by (rule Cons_nth_drop_Suc [symmetric])
  then show ?thesis using True by (simp add: level_def)
qed (simp add: level_def)

lemma level_Cons:
  assumes "level cache base k i = x # xs"
  shows "i < length cache" "at_level base k (cache ! i)" "x = item_of k (cache ! i)" "xs = level cache base k (i + 1)"
proof -
  show lt: "i < length cache" and at: "at_level base k (cache ! i)" using assms level_Nil [of cache base k i] by auto
  have dr: "drop i cache = cache ! i # drop (i + 1) cache" using Cons_nth_drop_Suc [OF lt] by simp
  have eq: "level cache base k i = item_of k (cache ! i) # level cache base k (i + 1)"
    unfolding level_def dr using at by (simp only: takeWhile.simps if_True list.map)
  note trans [OF assms [symmetric] eq]
  then show "x = item_of k (cache ! i)" "xs = level cache base k (i + 1)" by (rule list.inject [THEN iffD1, THEN conjunct1], rule list.inject [THEN iffD1, THEN conjunct2])
qed

lemma level_skip: "level cache base k i = xs @ ys \<Longrightarrow> level cache base k (i + length xs) = ys"
proof (induction xs arbitrary: i)
  case (Cons x xs)
  then have "xs @ ys = level cache base k (i + 1)" by (intro level_Cons(4) [of cache base k i x]) simp
  then show ?case using Cons.IH [of "i + 1"] by simp
qed simp

lemma takeWhile_refine:
  assumes "\<And>x. x \<in> set (takeWhile R xs) \<Longrightarrow> P x \<longleftrightarrow> Q x" "\<And>x. x \<in> set xs \<Longrightarrow> P x \<Longrightarrow> R x"
  shows "takeWhile P xs = takeWhile Q (takeWhile R xs)"
  using assms
proof (induction xs)
  case (Cons a xs)
  show ?case
  proof (cases "R a")
    case True
    have "takeWhile P xs = takeWhile Q (takeWhile R xs)"
      by (rule Cons.IH) (use Cons.prems True in \<open>simp_all\<close>)
    moreover have "P a \<longleftrightarrow> Q a" using Cons.prems(1) [of a] True by simp
    ultimately show ?thesis using True by simp
  next
    case False
    then show ?thesis using Cons.prems(2) [of a] by auto
  qed
qed simp

definition entry_fine :: "cache_entry \<Rightarrow> bool" where
  "entry_fine ce \<longleftrightarrow> wf_ce ce \<and> \<not> has_flag ce (CE_REMOVE OR CE_INTENT_TO_ADD)"

lemma at_level_fine: "entry_fine ce \<Longrightarrow> at_level base k ce \<longleftrightarrow> k < length (ce_name ce) \<and> take k base = take k (ce_name ce)"
  by (simp add: at_level_def entry_fine_def)

text \<open>The level of a directory below is the beginning of this level.\<close>

lemma level_sub:
  assumes fine: "\<forall>ce \<in> set cache. entry_fine ce" and l: "level cache base k i = x # xs"
    and good: "\<forall>y \<in> set (x # xs). good_path (fst y)" and sl: "CHR ''/'' \<in> set (fst x)"
  defines "d \<equiv> first_dir (fst x)"
  shows "level (drop i cache) (ce_name (cache ! i)) (k + length d + 1) 0 = leading d (x # xs)"
proof -
  let ?k' = "k + length d + 1" and ?path = "ce_name (cache ! i)"
  note c = level_Cons [OF l]
  have fi: "entry_fine (cache ! i)" using fine c(1) by simp
  then have tk: "take k base = take k ?path" "k < length ?path" using c(2) at_level_fine by blast+
  have nd: "CHR ''/'' \<notin> set d" unfolding d_def by (rule first_dir_no_slash)
  have "take (length d + 1) (drop k ?path) = d @ ''/''"
    using in_first_dir [OF sl] unfolding d_def c(3) by (simp add: in_dir_def item_of_def)
  then have tk': "take ?k' ?path = take k ?path @ d @ ''/''" using take_add [of k "length d + 1" ?path] by (simp add: add.assoc)
  have eqv: "at_level ?path ?k' ce \<longleftrightarrow> in_dir d (item_of k ce)" if m: "ce \<in> set (takeWhile (at_level base k) (drop i cache))" for ce
  proof -
    have ce: "entry_fine ce" "at_level base k ce" using m fine by (auto dest: set_takeWhileD in_set_dropD)
    then have a: "k < length (ce_name ce)" "take k (ce_name ce) = take k ?path" using at_level_fine tk(1) by auto
    have tkc: "take ?k' (ce_name ce) = take k ?path @ take (length d + 1) (drop k (ce_name ce))"
      using take_add [of k "length d + 1" "ce_name ce"] a(2) by (simp add: add.assoc)
    have iff: "take ?k' ?path = take ?k' (ce_name ce) \<longleftrightarrow> in_dir d (item_of k ce)"
      unfolding tk' tkc by (auto simp: in_dir_def item_of_def)
    have "?k' < length (ce_name ce)" if "in_dir d (item_of k ce)"
    proof -
      have "item_of k ce \<in> set (x # xs)" using m unfolding l [symmetric] level_def by simp
      then have "good_path (fst (item_of k ce))" using good by blast
      note g = good_path_strip(3,4) [OF this that nd]
      have "length (fst (item_of k ce)) = length (d @ CHR ''/'' # fst (strip_dir d (item_of k ce)))" using arg_cong [OF g(2), of length] .
      then have "length d + 1 < length (fst (item_of k ce))" using g(1) by simp
      then show ?thesis by (simp add: item_of_def)
    qed
    then show ?thesis using iff at_level_fine [OF ce(1), of ?path ?k'] by blast
  qed
  have sub: "at_level base k ce" if "at_level ?path ?k' ce" "ce \<in> set (drop i cache)" for ce
  proof -
    have "entry_fine ce" using that(2) fine by (auto dest: in_set_dropD)
    then have "?k' < length (ce_name ce)" "take ?k' ?path = take ?k' (ce_name ce)" using that(1) at_level_fine by blast+
    then have "take k (take ?k' ?path) = take k (take ?k' (ce_name ce))" by simp
    then have "take k ?path = take k (ce_name ce)" unfolding take_take by (simp add: min_def)
    then show ?thesis using \<open>?k' < _\<close> tk(1) at_level_fine [OF \<open>entry_fine ce\<close>] by simp
  qed
  have tw: "takeWhile (at_level ?path ?k') (drop i cache)
      = takeWhile (in_dir d \<circ> item_of k) (takeWhile (at_level base k) (drop i cache))"
    using eqv sub by (intro takeWhile_refine) simp_all
  have item: "item_of ?k' ce = strip_dir d (item_of k ce)" for ce by (simp add: item_of_def strip_dir_def add_ac)
  show ?thesis unfolding level_def drop_0 tw leading_def l [symmetric] takeWhile_map map_map
    unfolding comp_def item ..
qed

subsection \<open>Writing one tree\<close>

lemma write_item_ok:
  assumes ok: "sb_ok buffer" and room: "length (sb_str buffer) + length (item_text (m, p, s)) + 200 < 2 ^ 64" and n: "n = length p"
  shows "\<exists>b. (\<forall>f :: strbuf \<Rightarrow> 'a read. and_then (strbuf_grow buffer (of_nat (n + 100))) (\<lambda>b.
      and_then (strbuf_vaddf b (octal (unat m) @ '' '' @ p @ [CHR 0x00])) (\<lambda>b. and_then (strbuf_add b (raw_sha1 s)) f)) = f b)
    \<and> sb_ok b \<and> sb_str b = sb_str buffer @ item_text (m, p, s)"
proof -
  have l: "length (item_text (m, p, s)) = length (octal (unat m) @ '' '' @ p @ [CHR 0x00]) + length (raw_sha1 s)"
    by (simp add: item_text_eq)
  have "n + 100 < 2 ^ 64" using room n by (simp add: item_text_eq)
  then have u: "unat (of_nat (n + 100) :: u64) = n + 100" by (intro unat_of_nat_small) simp
  have "unat (sb_len buffer) + unat (of_nat (n + 100) :: u64) + 1 < 2 ^ 64"
    using room n unfolding u length_sb_str [OF ok, symmetric] by (simp add: item_text_eq)
  from strbuf_grow_ok [OF ok this] obtain b1 where b1: "strbuf_grow buffer (of_nat (n + 100)) = Got b1" "sb_ok b1"
    "sb_str b1 = sb_str buffer" by blast
  have "length (sb_str b1) + length (octal (unat m) @ '' '' @ p @ [CHR 0x00]) + 65 < 2 ^ 64" using room unfolding l b1(3) by linarith
  from strbuf_vaddf_ok [OF b1(2) this] obtain b2 where b2: "strbuf_vaddf b1 (octal (unat m) @ '' '' @ p @ [CHR 0x00]) = Got b2"
    "sb_ok b2" "sb_str b2 = sb_str buffer @ octal (unat m) @ '' '' @ p @ [CHR 0x00]" unfolding b1(3) by blast
  have "length (sb_str b2) + length (raw_sha1 s) + 1 < 2 ^ 64" using room unfolding l b2(3) by simp
  from strbuf_add_ok [OF b2(2) this] obtain b3 where b3: "strbuf_add b2 (raw_sha1 s) = Got b3" "sb_ok b3"
    "sb_str b3 = sb_str b2 @ raw_sha1 s" by blast
  have "sb_str b3 = sb_str buffer @ item_text (m, p, s)" unfolding b3(3) b2(3) by (simp add: item_text_eq)
  then show ?thesis using b3(2) by (intro exI [of _ b3]) (simp only: b1(1) b2(1) b3(1) and_then_simps simp_thms)
qed

lemma slash_pos_first: "slash_pos p = (if CHR ''/'' \<in> set p then Some (length (first_dir p)) else None)"
  by (simp add: slash_pos_def first_dir_def)

lemma take_first_dir: "take (length (first_dir p)) p = first_dir p"
  by (metis first_dir_def takeWhile_eq_take)

lemma members_rest:
  assumes "CHR ''/'' \<notin> set d" "CHR ''/'' \<notin> set d'" "d \<noteq> d'"
  shows "members d' (dropWhile (in_dir d) xs) = members d' xs"
proof -
  have "\<not> in_dir d' y" if "in_dir d y" for y
    using that assms(3) in_dir_iff [OF assms(1), of y] in_dir_iff [OF assms(2), of y] by simp
  then have "filter (in_dir d') (takeWhile (in_dir d) xs) = []" unfolding filter_empty_conv by (metis set_takeWhileD)
  then have "filter (in_dir d') (takeWhile (in_dir d) xs @ dropWhile (in_dir d) xs) = filter (in_dir d') (dropWhile (in_dir d) xs)"
    by (simp only: filter_append append_Nil)
  then show ?thesis by (simp add: members_def)
qed

text \<open>What the step past a directory keeps: the other directories, and their paths.\<close>

lemma past_dir:
  assumes ok: "level_ok (x # xs)" and sl: "CHR ''/'' \<in> set (fst x)"
  defines "d \<equiv> first_dir (fst x)"
  shows "dirs (x # xs) = insert d (dirs (dropWhile (in_dir d) xs))" "d \<notin> dirs (dropWhile (in_dir d) xs)"
    "d' \<in> dirs (dropWhile (in_dir d) xs) \<Longrightarrow> members d' (dropWhile (in_dir d) xs) = members d' (x # xs)"
    "leading d (x # xs) = members d (x # xs)"
proof -
  have nd: "CHR ''/'' \<notin> set d" unfolding d_def by (rule first_dir_no_slash)
  have x: "in_dir d x" unfolding d_def by (rule in_first_dir [OF sl])
  note m = members_leading [OF ok x]
  show "leading d (x # xs) = members d (x # xs)" using m(1) by simp
  show notin: "d \<notin> dirs (dropWhile (in_dir d) xs)"
  proof
    assume "d \<in> dirs (dropWhile (in_dir d) xs)"
    then obtain y where "y \<in> set (dropWhile (in_dir d) xs)" "CHR ''/'' \<in> set (fst y)" "d = first_dir (fst y)" unfolding dirs_def by blast
    then show False using m(2) in_first_dir [of y] by simp
  qed
  show "dirs (x # xs) = insert d (dirs (dropWhile (in_dir d) xs))"
  proof -
    have "first_dir (fst y) = d" if "y \<in> set (takeWhile (in_dir d) xs)" for y
      using set_takeWhileD [OF that] in_dir_iff [OF nd, of y] by simp
    then have "dirs (takeWhile (in_dir d) xs) \<subseteq> {d}" unfolding dirs_def by blast
    moreover have "dirs xs = dirs (takeWhile (in_dir d) xs) \<union> dirs (dropWhile (in_dir d) xs)"
    proof -
      have "set xs = set (takeWhile (in_dir d) xs) \<union> set (dropWhile (in_dir d) xs)" by (metis set_append takeWhile_dropWhile_id)
      then show ?thesis unfolding dirs_def by blast
    qed
    moreover have "dirs (x # xs) = insert d (dirs xs)" using sl unfolding dirs_def d_def list.set by blast
    ultimately show ?thesis by blast
  qed
  show "members d' (dropWhile (in_dir d) xs) = members d' (x # xs)" if "d' \<in> dirs (dropWhile (in_dir d) xs)"
  proof -
    have "CHR ''/'' \<notin> set d'" using that first_dir_no_slash unfolding dirs_def by blast
    moreover have "d \<noteq> d'" using that notin by blast
    ultimately have "members d' (dropWhile (in_dir d) (x # xs)) = members d' (x # xs)" by (intro members_rest nd)
    then show ?thesis using x by simp
  qed
qed

lemma past_file:
  assumes "CHR ''/'' \<notin> set (fst x)"
  shows "dirs (x # xs) = dirs xs" "d \<in> dirs xs \<Longrightarrow> members d (x # xs) = members d xs"
  using assms in_dir_iff [of d x] first_dir_no_slash by (auto simp: members_def dirs_def)

definition objects_there :: "nat \<Rightarrow> odb \<Rightarrow> path_item list \<Rightarrow> bool" where
  "objects_there fl db xs \<longleftrightarrow> (\<forall>x \<in> set xs. fst (snd x) = S_IFGITLINK \<or> fl AND WRITE_TREE_MISSING_OK \<noteq> 0 \<or> db (snd (snd x)) \<noteq> None)"

text \<open>The subtrees that the second loop relies on.\<close>

definition subs_written :: "(string \<Rightarrow> name) \<Rightarrow> odb \<Rightarrow> cache_tree \<Rightarrow> path_item list \<Rightarrow> bool" where
  "subs_written h db it xs \<longleftrightarrow> subs_sorted (down it) \<and> (\<forall>d \<in> dirs xs. \<exists>u ct. sub_map it d = Some (u, Some ct)
     \<and> entry_count ct = int (length (members d xs)) \<and> ct_sha1 ct = h (tree_text (dir_items h (members d xs)))
     \<and> db (ct_sha1 ct) \<noteq> None)"

lemma write_items_ok:
  assumes fine: "\<forall>ce \<in> set cache. entry_fine ce"
  shows "level cache base k i = xs \<Longrightarrow> level_ok xs \<Longrightarrow> subs_written h db it xs \<Longrightarrow> objects_there fl db xs \<Longrightarrow> sb_ok buffer
    \<Longrightarrow> length (sb_str buffer) + length (tree_text (dir_items h xs)) + 200 < 2 ^ 64 \<Longrightarrow> length xs < fuel
    \<Longrightarrow> \<exists>b. write_items fl db fuel it cache base k i buffer = Got (Some b, i + length xs) \<and> sb_ok b
      \<and> sb_str b = sb_str buffer @ tree_text (dir_items h xs)"
proof (induction h xs arbitrary: i buffer fuel rule: dir_items.induct)
  case (1 h)
  then obtain f where "fuel = Suc f" by (cases fuel) auto
  then show ?case using 1 level_Nil [of cache base k i] by (auto simp: dir_items.simps)
next
  case (2 h x xs)
  note c = level_Cons [OF 2(4)]
  obtain f where f: "fuel = Suc f" "length xs < f" using 2(10) by (cases fuel) auto
  have fi: "entry_fine (cache ! i)" using fine c(1) by simp
  have x: "fst x = drop k (ce_name (cache ! i))" "fst (snd x) = ce_mode (cache ! i)" "snd (snd x) = ce_sha1 (cache ! i)"
    using c(3) by (simp_all add: item_of_def)
  have noflag: "\<not> has_flag (cache ! i) (CE_REMOVE OR CE_INTENT_TO_ADD)" using fi by (simp add: entry_fine_def)
  have ne: "\<not> length cache \<le> i" "(\<not> at_level base k (cache ! i)) = False" using c(1,2) by simp_all
  have nl: "ce_namelen (cache ! i) - k = length (fst x)" using fi x(1) by (simp add: entry_fine_def)
  note unf = f(1) write_items.simps(2) if_not_P [OF ne(1)] ne(2) if_False
  show ?case
  proof (cases "CHR ''/'' \<in> set (fst x)")
    case False
    have di: "dir_items h (x # xs) = (fst (snd x), fst x, snd (snd x)) # dir_items h xs" using False by (simp add: dir_items.simps)
    have it: "item_at it cache k i = Got (int i, snd (snd x), fst (snd x), length (fst x))"
      using False unfolding item_at_def Let_def x(2,3) nl x(1) [symmetric] slash_pos_first by simp
    have there: "(fst (snd x) \<noteq> S_IFGITLINK \<and> fl AND WRITE_TREE_MISSING_OK = 0 \<and> \<not> has_sha1_file db (snd (snd x))) = False"
      using 2(7) by (auto simp: objects_there_def has_sha1_file_def)
    have tk: "take (length (fst x)) (drop k (ce_name (cache ! i))) = fst x" using x(1) by simp
    have room: "length (sb_str buffer) + length (item_text (fst (snd x), fst x, snd (snd x))) + 200 < 2 ^ 64"
      using 2(9) unfolding di by simp
    from write_item_ok [OF 2(8) room refl, where 'a = "strbuf option \<times> nat"] obtain b where b:
      "\<And>g :: strbuf \<Rightarrow> (strbuf option \<times> nat) read. and_then (strbuf_grow buffer (of_nat (length (fst x) + 100))) (\<lambda>b.
        and_then (strbuf_vaddf b (octal (unat (fst (snd x))) @ '' '' @ fst x @ [CHR 0x00])) (\<lambda>b.
        and_then (strbuf_add b (raw_sha1 (snd (snd x)))) g)) = g b"
      "sb_ok b" "sb_str b = sb_str buffer @ item_text (fst (snd x), fst x, snd (snd x))" by blast
    have "write_items fl db fuel it cache base k i buffer = write_items fl db f it cache base k (i + 1) b"
      unfolding unf it and_then_simps prod.case there if_not_P [OF noflag] tk b(1) by (simp add: nat_add_distrib)
    moreover have "subs_written h db it xs" "objects_there fl db xs"
      using 2(6,7) past_file [OF False] by (simp_all add: subs_written_def objects_there_def)
    moreover have "length (sb_str b) + length (tree_text (dir_items h xs)) + 200 < 2 ^ 64" using 2(9) unfolding b(3) di by simp
    ultimately show ?thesis using 2(1) [OF False c(4) [symmetric] level_ok_Cons [OF 2(5)] _ _ b(2) _ f(2)] unfolding di b(3) by auto
  next
    case True
    let ?d = "first_dir (fst x)"
    let ?ys = "dropWhile (in_dir ?d) xs"
    note pd = past_dir [OF 2(5) True]
    let ?g = "members ?d (x # xs)"
    have di: "dir_items h (x # xs) = (0x4000, ?d, h (tree_text (dir_items h ?g))) # dir_items h ?ys"
      using True by (simp add: dir_items.simps pd(4))
    obtain u ct where ct: "sub_map it ?d = Some (u, Some ct)" "entry_count ct = int (length ?g)"
      "ct_sha1 ct = h (tree_text (dir_items h ?g))" "db (ct_sha1 ct) \<noteq> None" and srt: "subs_sorted (down it)"
      using 2(6) pd(1) unfolding subs_written_def by blast
    from find_subtree_found [OF srt ct(1)] obtain pos where pos: "find_subtree it ?d False = (it, Some pos)"
      "down it ! pos = Cache_Tree_Sub ?d u (Some ct)" by blast
    have it: "item_at it cache k i = Got (int i + (int (length ?g) - 1), ct_sha1 ct, 0x4000, length ?d)"
      unfolding item_at_def Let_def x(1) [symmetric] slash_pos_first if_P [OF True] option.case take_first_dir pos(1) snd_conv pos(2)
      by (simp add: ct(2))
    have there: "((0x4000 :: u32) \<noteq> S_IFGITLINK \<and> fl AND WRITE_TREE_MISSING_OK = 0 \<and> \<not> has_sha1_file db (ct_sha1 ct)) = False"
      using ct(4) by (simp add: has_sha1_file_def)
    have tk: "take (length ?d) (drop k (ce_name (cache ! i))) = ?d" unfolding x(1) [symmetric] by (rule take_first_dir)
    have room: "length (sb_str buffer) + length (item_text (0x4000, ?d, ct_sha1 ct)) + 200 < 2 ^ 64"
      using 2(9) unfolding di ct(3) by simp
    from write_item_ok [OF 2(8) room refl, where 'a = "strbuf option \<times> nat"] obtain b where b:
      "\<And>g :: strbuf \<Rightarrow> (strbuf option \<times> nat) read. and_then (strbuf_grow buffer (of_nat (length ?d + 100))) (\<lambda>b.
        and_then (strbuf_vaddf b (octal (unat (0x4000 :: u32)) @ '' '' @ ?d @ [CHR 0x00])) (\<lambda>b.
        and_then (strbuf_add b (raw_sha1 (ct_sha1 ct))) g)) = g b"
      "sb_ok b" "sb_str b = sb_str buffer @ item_text (0x4000, ?d, ct_sha1 ct)" by blast
    have len: "length ?g = length (x # takeWhile (in_dir ?d) xs)" "length ?g + length ?ys = length (x # xs)"
    proof -
      show "length ?g = length (x # takeWhile (in_dir ?d) xs)" using in_first_dir [OF True] pd(4) by (simp add: leading_def flip: pd(4))
      moreover have "length xs = length (takeWhile (in_dir ?d) xs) + length ?ys" by (metis length_append takeWhile_dropWhile_id)
      ultimately show "length ?g + length ?ys = length (x # xs)" by simp
    qed
    have j: "nat (int i + (int (length ?g) - 1) + 1) = i + length ?g" by simp
    have step: "write_items fl db fuel it cache base k i buffer = write_items fl db f it cache base k (i + length ?g) b"
      unfolding unf it and_then_simps prod.case there if_not_P [OF noflag] tk b(1) j ..
    have lv: "level cache base k (i + length ?g) = ?ys"
      unfolding len(1) by (rule level_skip) (simp add: 2(4))
    have "subs_written h db it ?ys" unfolding subs_written_def
    proof (intro conjI ballI)
      fix d'
      assume d': "d' \<in> dirs ?ys"
      then have "d' \<in> dirs (x # xs)" "members d' ?ys = members d' (x # xs)" using pd(1,3) by blast+
      then show "\<exists>u ct. sub_map it d' = Some (u, Some ct) \<and> entry_count ct = int (length (members d' ?ys))
          \<and> ct_sha1 ct = h (tree_text (dir_items h (members d' ?ys))) \<and> db (ct_sha1 ct) \<noteq> None"
        using 2(6) unfolding subs_written_def by simp
    qed (rule srt)
    moreover have "objects_there fl db ?ys" using 2(7) unfolding objects_there_def by (auto dest: set_dropWhileD)
    moreover have "length (sb_str b) + length (tree_text (dir_items h ?ys)) + 200 < 2 ^ 64" using 2(9) unfolding b(3) di ct(3) by simp
    moreover have "length ?ys < f" using f(2) len by simp
    moreover have "\<not> CHR ''/'' \<notin> set (fst x)" using True by simp
    ultimately show ?thesis
      using 2(3) [OF _ lv level_ok_dropWhile [OF level_ok_Cons [OF 2(5)]] _ _ b(2), of f] len(2)
      unfolding step di b(3) ct(3) by auto
  qed
qed

subsection \<open>Trees kept from before\<close>

text \<open>
  A tree with a count is that of the paths of its directory, and is in the database with all its
  subtrees; one without may have any subtrees, as long as these are sound.
\<close>

fun ct_sound :: "(string \<Rightarrow> name) \<Rightarrow> odb \<Rightarrow> cache_tree \<Rightarrow> path_item list \<Rightarrow> bool" where
  "ct_sound h db (Cache_Tree n s subs) xs \<longleftrightarrow>
     (0 \<le> n \<longrightarrow> n = int (length xs) \<and> s = h (tree_text (dir_items h xs))
        \<and> (\<forall>t \<in> all_texts h xs. db (h t) = Some (OBJ_TREE, t)))
     \<and> subs_sorted subs
     \<and> (\<forall>sub \<in> set subs. CHR ''/'' \<notin> set (sub_name sub))
     \<and> (\<forall>sub \<in> set subs. case sub_tree sub of None \<Rightarrow> True | Some ct \<Rightarrow> ct_sound h db ct (members (sub_name sub) xs))"

declare ct_sound.simps [simp del]

lemma ct_sound_iff:
  "ct_sound h db it xs \<longleftrightarrow>
     (0 \<le> entry_count it \<longrightarrow> entry_count it = int (length xs) \<and> ct_sha1 it = h (tree_text (dir_items h xs))
        \<and> (\<forall>t \<in> all_texts h xs. db (h t) = Some (OBJ_TREE, t)))
     \<and> subs_sorted (down it)
     \<and> (\<forall>sub \<in> set (down it). CHR ''/'' \<notin> set (sub_name sub))
     \<and> (\<forall>d u ct. sub_map it d = Some (u, Some ct) \<longrightarrow> ct_sound h db ct (members d xs))"
proof (cases it)
  case (Cache_Tree n s subs)
  have "(\<forall>sub \<in> set subs. case sub_tree sub of None \<Rightarrow> True | Some ct \<Rightarrow> ct_sound h db ct (members (sub_name sub) xs))
    \<longleftrightarrow> (\<forall>d u ct. Cache_Tree_Sub d u (Some ct) \<in> set subs \<longrightarrow> ct_sound h db ct (members d xs))" (is "?a \<longleftrightarrow> ?b")
  proof
    assume ?a
    then show ?b by fastforce
  next
    assume b: ?b
    show ?a
    proof
      fix sub
      assume m: "sub \<in> set subs"
      show "case sub_tree sub of None \<Rightarrow> True | Some ct \<Rightarrow> ct_sound h db ct (members (sub_name sub) xs)"
      proof (cases "sub_tree sub")
        case (Some ct)
        then have "Cache_Tree_Sub (sub_name sub) (used sub) (Some ct) \<in> set subs" using m by (cases sub) simp
        then show ?thesis using b Some by simp
      qed simp
    qed
  qed
  moreover have "Cache_Tree_Sub d u (Some ct) \<in> set subs \<longleftrightarrow> sub_map it d = Some (u, Some ct)" if "subs_sorted subs" for d u ct
    using subs_map_Some [OF that, of d "(u, Some ct)"] by (simp add: sub_map_def Cache_Tree)
  ultimately show ?thesis unfolding Cache_Tree ct_sound.simps cache_tree.sel by blast
qed

lemma ct_sound_mono: "ct_sound h db it xs \<Longrightarrow> db \<subseteq>\<^sub>m db' \<Longrightarrow> ct_sound h db' it xs"
proof (induction h db it xs rule: ct_sound.induct)
  case (1 h db n s subs xs)
  have "db' (h t) = Some (OBJ_TREE, t)" if "db (h t) = Some (OBJ_TREE, t)" for t
    using 1(3) that by (metis domI map_le_def)
  moreover have "case sub_tree sub of None \<Rightarrow> True | Some ct \<Rightarrow> ct_sound h db' ct (members (sub_name sub) xs)"
    if m: "sub \<in> set subs" for sub
  proof (cases "sub_tree sub")
    case (Some ct)
    have "ct_sound h db ct (members (sub_name sub) xs)" using 1(2) m Some unfolding ct_sound.simps by fastforce
    then show ?thesis using 1(1) [OF m Some _ 1(3)] Some by simp
  qed simp
  ultimately show ?case using 1(2) unfolding ct_sound.simps by blast
qed

lemma new_cache_tree_sound: "ct_sound h db new_cache_tree xs"
  by (simp add: new_cache_tree_def ct_sound.simps subs_sorted_def)

definition valid_for :: "(string \<Rightarrow> name) \<Rightarrow> odb \<Rightarrow> cache_tree \<Rightarrow> path_item list \<Rightarrow> bool" where
  "valid_for h db ct xs \<longleftrightarrow> entry_count ct = int (length xs) \<and> ct_sound h db ct xs"

lemma valid_for_sha1:
  assumes "valid_for h db ct xs"
  shows "ct_sha1 ct = h (tree_text (dir_items h xs))" "\<forall>t \<in> all_texts h xs. db (h t) = Some (OBJ_TREE, t)"
proof -
  have "0 \<le> entry_count ct" "ct_sound h db ct xs" using assms by (simp_all add: valid_for_def)
  then show "ct_sha1 ct = h (tree_text (dir_items h xs))" "\<forall>t \<in> all_texts h xs. db (h t) = Some (OBJ_TREE, t)"
    using ct_sound_iff [of h db ct xs] by blast+
qed

text \<open>What is assumed of the hash and of the disk, for the set \<open>T\<close> of the trees to be written.\<close>

definition writable :: "tree_env \<Rightarrow> nat \<Rightarrow> string set \<Rightarrow> bool" where
  "writable env fl T \<longleftrightarrow> inj_on (te_hash env) T \<and> fl AND WRITE_TREE_DRY_RUN = 0
     \<and> (\<forall>t \<in> T. \<not> te_write_fails env (te_hash env t) \<and> length t < 2 ^ 32)"

definition db_ok :: "tree_env \<Rightarrow> string set \<Rightarrow> odb \<Rightarrow> bool" where
  "db_ok env T db \<longleftrightarrow> (\<forall>t \<in> T. db (te_hash env t) = None \<or> db (te_hash env t) = Some (OBJ_TREE, t))"

lemma write_sha1_file_ok:
  assumes w: "writable env fl T" and db: "db_ok env T db" and t: "t \<in> T"
  shows "\<exists>db'. write_sha1_file env t db = (db', te_hash env t, 0) \<and> db \<subseteq>\<^sub>m db' \<and> db_ok env T db'
    \<and> db' (te_hash env t) = Some (OBJ_TREE, t)"
proof (cases "db (te_hash env t)")
  case None
  have "db_ok env T (db(te_hash env t \<mapsto> (OBJ_TREE, t)))"
    unfolding db_ok_def
  proof
    fix u
    assume u: "u \<in> T"
    show "(db(te_hash env t \<mapsto> (OBJ_TREE, t))) (te_hash env u) = None
      \<or> (db(te_hash env t \<mapsto> (OBJ_TREE, t))) (te_hash env u) = Some (OBJ_TREE, u)"
    proof (cases "te_hash env u = te_hash env t")
      case True
      then have "u = t" using w u t by (auto simp: writable_def inj_on_def)
      then show ?thesis by simp
    next
      case False
      then show ?thesis using db u by (simp add: db_ok_def)
    qed
  qed
  moreover have "write_sha1_file env t db = (db(te_hash env t \<mapsto> (OBJ_TREE, t)), te_hash env t, 0)"
    using None w t by (simp add: write_sha1_file_def has_sha1_file_def Let_def writable_def)
  moreover have "db \<subseteq>\<^sub>m db(te_hash env t \<mapsto> (OBJ_TREE, t))" using None by (auto simp: map_le_def)
  ultimately show ?thesis by (metis fun_upd_same)
next
  case (Some x)
  then have "db (te_hash env t) = Some (OBJ_TREE, t)" using db t by (auto simp: db_ok_def)
  then show ?thesis using db by (auto simp: write_sha1_file_def has_sha1_file_def Let_def)
qed

lemma sub_map_unmark: "sub_map (unmark it) d = map_option (\<lambda>(u, t). (False, t)) (sub_map it d)"
proof -
  have "subs_map (map (\<lambda>sub. Cache_Tree_Sub (sub_name sub) False (sub_tree sub)) subs) d = map_option (\<lambda>(u, t). (False, t)) (subs_map subs d)"
    for subs by (induction subs) auto
  then show ?thesis by (simp add: unmark_def sub_map_def)
qed

lemma subs_sorted_unmark: "subs_sorted (down (unmark it)) = subs_sorted (down it)"
  by (simp add: unmark_def subs_sorted_def o_def)

lemma sub_map_discard:
  assumes "subs_sorted (down it)"
  shows "sub_map (discard_unused_subtrees it) d = (case sub_map it d of Some (True, t) \<Rightarrow> Some (True, t) | _ \<Rightarrow> None)"
    "subs_sorted (down (discard_unused_subtrees it))"
proof -
  show s: "subs_sorted (down (discard_unused_subtrees it))"
    using assms by (simp add: discard_unused_subtrees_def subs_sorted_def sorted_wrt_map sorted_wrt_filter)
  have "sub_map (discard_unused_subtrees it) d = Some x \<longleftrightarrow> sub_map it d = Some x \<and> fst x" for x
    using subs_map_Some [OF s, of d x] subs_map_Some [OF assms, of d x] by (simp add: discard_unused_subtrees_def sub_map_def)
  then show "sub_map (discard_unused_subtrees it) d = (case sub_map it d of Some (True, t) \<Rightarrow> Some (True, t) | _ \<Rightarrow> None)"
    by (auto split: option.split prod.split bool.split) (metis fst_conv not_None_eq prod.collapse)+
qed

subsection \<open>The update writes the trees\<close>

definition subs_updated :: "tree_env \<Rightarrow> string set \<Rightarrow> cache_tree \<Rightarrow> odb \<Rightarrow> path_item list \<Rightarrow> cache_tree \<Rightarrow> odb \<Rightarrow> bool" where
  "subs_updated env T it db xs it' db' \<longleftrightarrow>
     subs_sorted (down it') \<and> entry_count it' = entry_count it \<and> ct_sha1 it' = ct_sha1 it
     \<and> db \<subseteq>\<^sub>m db' \<and> db_ok env T db'
     \<and> (\<forall>t \<in> sub_texts (te_hash env) xs. db' (te_hash env t) = Some (OBJ_TREE, t))
     \<and> (\<forall>d \<in> dirs xs. \<exists>ct. sub_map it' d = Some (True, Some ct) \<and> valid_for (te_hash env) db' ct (members d xs))
     \<and> (\<forall>d. d \<notin> dirs xs \<longrightarrow> sub_map it' d = sub_map it d)"

definition subs_sound :: "tree_env \<Rightarrow> odb \<Rightarrow> cache_tree \<Rightarrow> path_item list \<Rightarrow> bool" where
  "subs_sound env db it xs \<longleftrightarrow> subs_sorted (down it)
     \<and> (\<forall>d \<in> dirs xs. \<forall>u ct. sub_map it d = Some (u, Some ct) \<longrightarrow> ct_sound (te_hash env) db ct (members d xs))"

definition subtrees_ok :: "tree_env \<Rightarrow> nat \<Rightarrow> string set \<Rightarrow> path_item list \<Rightarrow> bool" where
  "subtrees_ok env fl T xs \<longleftrightarrow> (\<forall>fuel it cache base k i db.
     (\<forall>ce \<in> set cache. entry_fine ce) \<longrightarrow> level cache base k i = xs \<longrightarrow> level_ok xs \<longrightarrow> subs_sound env db it xs
     \<longrightarrow> sub_texts (te_hash env) xs \<subseteq> T \<longrightarrow> objects_there fl db xs \<longrightarrow> db_ok env T db \<longrightarrow> 2 * weight xs + 1 \<le> fuel
     \<longrightarrow> (\<exists>it' db'. update_subtrees env fl fuel it cache base k i db = Got (it', db', 0) \<and> subs_updated env T it db xs it' db'))"

lemma length_le_weight: "length xs \<le> weight xs"
  by (induction xs) simp_all

lemma objects_there_mono: "objects_there fl db xs \<Longrightarrow> db \<subseteq>\<^sub>m db' \<Longrightarrow> objects_there fl db' xs"
  unfolding objects_there_def map_le_def by (metis domIff)

lemma map_le_Some: "db \<subseteq>\<^sub>m db' \<Longrightarrow> db x = Some y \<Longrightarrow> db' x = Some y"
  by (metis domI map_le_def)

lemma write_tree_object_ok:
  assumes w: "writable env fl T" and fine: "\<forall>ce \<in> set cache. entry_fine ce" and l: "level cache base k 0 = xs" "level_ok xs"
    and subs: "subs_written (te_hash env) db it xs" and there: "objects_there fl db xs" and db: "db_ok env T db"
    and T: "tree_text (dir_items (te_hash env) xs) \<in> T" and fuel: "length xs < fuel"
  shows "\<exists>db'. write_tree_object env fl fuel it cache base k db
      = Got (Cache_Tree (int (length xs)) (te_hash env (tree_text (dir_items (te_hash env) xs))) (down it), db', int (length xs))
    \<and> db \<subseteq>\<^sub>m db' \<and> db_ok env T db'
    \<and> db' (te_hash env (tree_text (dir_items (te_hash env) xs))) = Some (OBJ_TREE, tree_text (dir_items (te_hash env) xs))"
proof -
  let ?t = "tree_text (dir_items (te_hash env) xs)"
  obtain b0 where b0: "strbuf_init 8192 = Got b0" "sb_ok b0" "sb_str b0 = []" using strbuf_init_ok [of 8192] by auto
  have "length ?t < 2 ^ 32" using w T by (simp add: writable_def)
  then have "length (sb_str b0) + length ?t + 200 < 2 ^ 64" using b0(3) by simp
  from write_items_ok [OF fine l subs there b0(2) this fuel] obtain b where
    b: "write_items fl db fuel it cache base k 0 b0 = Got (Some b, length xs)" "sb_str b = ?t" unfolding b0(3) by auto
  have dry: "(fl AND WRITE_TREE_DRY_RUN \<noteq> 0) = False" using w by (simp add: writable_def)
  from write_sha1_file_ok [OF w db T] obtain db' where
    s: "write_sha1_file env ?t db = (db', te_hash env ?t, 0)" "db \<subseteq>\<^sub>m db'" "db_ok env T db'" "db' (te_hash env ?t) = Some (OBJ_TREE, ?t)" by blast
  have "write_tree_object env fl fuel it cache base k db = Got (Cache_Tree (int (length xs)) (te_hash env ?t) (down it), db', int (length xs))"
    unfolding write_tree_object_def b0(1) and_then_simps b(1) prod.case option.case dry if_False b(2) s(1) by simp
  then show ?thesis using s(2-4) by blast
qed

lemma update_one_ok:
  assumes q: "subtrees_ok env fl T xs" and w: "writable env fl T"
    and fine: "\<forall>ce \<in> set cache. entry_fine ce" and l: "level cache base k 0 = xs" "level_ok xs"
    and sound: "ct_sound (te_hash env) db it xs" and T: "all_texts (te_hash env) xs \<subseteq> T"
    and there: "objects_there fl db xs" and db: "db_ok env T db" and fuel: "2 * weight xs + 2 \<le> fuel"
  shows "\<exists>it' db'. update_one env fl fuel it cache base k db = Got (it', db', int (length xs))
    \<and> valid_for (te_hash env) db' it' xs \<and> db \<subseteq>\<^sub>m db' \<and> db_ok env T db'"
proof -
  let ?h = "te_hash env"
  let ?t = "tree_text (dir_items ?h xs)"
  obtain f where f: "fuel = Suc f" "2 * weight xs + 1 \<le> f" using fuel by (cases fuel) auto
  note sd = sound [unfolded ct_sound_iff [of ?h db it xs]]
  show ?thesis
  proof (cases "0 \<le> entry_count it")
    case True
    then have c: "entry_count it = int (length xs)" "ct_sha1 it = ?h ?t" "db (?h ?t) = Some (OBJ_TREE, ?t)"
      using sd by (simp_all add: all_texts_def)
    then have "update_one env fl fuel it cache base k db = Got (it, db, int (length xs))"
      unfolding f(1) by (simp add: has_sha1_file_def)
    moreover have "valid_for ?h db it xs" using c(1) sound by (simp add: valid_for_def)
    ultimately show ?thesis using db map_le_refl by blast
  next
    case False
    have ss: "subs_sound env db (unmark it) xs"
      unfolding subs_sound_def subs_sorted_unmark
    proof (intro conjI ballI allI impI)
      show "subs_sorted (down it)" using sd by blast
      fix d u ct
      assume "sub_map (unmark it) d = Some (u, Some ct)"
      then obtain u' where "sub_map it d = Some (u', Some ct)" by (auto simp: sub_map_unmark)
      then show "ct_sound ?h db ct (members d xs)" using sd by blast
    qed
    have "sub_texts ?h xs \<subseteq> T" using T by (simp add: all_texts_def)
    then obtain it1 db1 where u: "update_subtrees env fl f (unmark it) cache base k 0 db = Got (it1, db1, 0)"
      and up: "subs_updated env T (unmark it) db xs it1 db1"
      using q fine l ss there db f(2) unfolding subtrees_ok_def by blast
    let ?it2 = "discard_unused_subtrees it1"
    have s1: "subs_sorted (down it1)" using up by (simp add: subs_updated_def)
    note disc = sub_map_discard [OF s1]
    have kept: "sub_map it1 d = Some (True, t) \<and> d \<in> dirs xs" if "sub_map ?it2 d = Some (u, t)" for d u t
    proof -
      have m: "sub_map it1 d = Some (True, t)" using that disc(1) [of d] by (auto split: option.splits bool.splits prod.splits)
      have "d \<in> dirs xs"
      proof (rule ccontr)
        assume "d \<notin> dirs xs"
        then have "sub_map it1 d = sub_map (unmark it) d" using up by (simp add: subs_updated_def)
        then show False using m by (cases "sub_map it d") (auto simp: sub_map_unmark)
      qed
      then show ?thesis using m by blast
    qed
    have subs: "subs_written ?h db1 ?it2 xs" unfolding subs_written_def
    proof (intro conjI ballI)
      show "subs_sorted (down ?it2)" by (rule disc(2))
      fix d
      assume "d \<in> dirs xs"
      then obtain ct where ct: "sub_map it1 d = Some (True, Some ct)" "valid_for ?h db1 ct (members d xs)"
        using up unfolding subs_updated_def by blast
      note v = valid_for_sha1 [OF ct(2)]
      have "db1 (ct_sha1 ct) \<noteq> None" using v by (simp add: all_texts_def)
      then show "\<exists>u ct. sub_map ?it2 d = Some (u, Some ct) \<and> entry_count ct = int (length (members d xs))
          \<and> ct_sha1 ct = ?h (tree_text (dir_items ?h (members d xs))) \<and> db1 (ct_sha1 ct) \<noteq> None"
        using ct v(1) disc(1) [of d] by (intro exI [of _ True] exI [of _ ct]) (simp add: valid_for_def)
    qed
    have le1: "db \<subseteq>\<^sub>m db1" "db_ok env T db1" using up by (simp_all add: subs_updated_def)
    have "?t \<in> T" using T by (simp add: all_texts_def)
    moreover have "length xs < f" using f(2) length_le_weight [of xs] by linarith
    ultimately obtain db2 where wt: "write_tree_object env fl f ?it2 cache base k db1
        = Got (Cache_Tree (int (length xs)) (?h ?t) (down ?it2), db2, int (length xs))"
      "db1 \<subseteq>\<^sub>m db2" "db_ok env T db2" "db2 (?h ?t) = Some (OBJ_TREE, ?t)"
      using write_tree_object_ok [OF w fine l subs objects_there_mono [OF there le1(1)] le1(2)] by blast
    let ?it3 = "Cache_Tree (int (length xs)) (?h ?t) (down ?it2)"
    have "update_one env fl fuel it cache base k db = Got (?it3, db2, int (length xs))"
      unfolding f(1) using False by (simp add: u wt(1))
    moreover have "ct_sound ?h db2 ?it3 xs" unfolding ct_sound_iff [of ?h db2 ?it3 xs]
    proof (intro conjI impI allI)
      show "\<forall>t \<in> all_texts ?h xs. db2 (?h t) = Some (OBJ_TREE, t)"
        using up wt(2,4) map_le_Some unfolding subs_updated_def all_texts_def by fastforce
      show "\<forall>sub \<in> set (down ?it3). CHR ''/'' \<notin> set (sub_name sub)"
      proof
        fix sub
        assume "sub \<in> set (down ?it3)"
        then have "sub_map ?it2 (sub_name sub) = Some (used sub, sub_tree sub)"
          using subs_map_Some [OF disc(2)] by (simp add: sub_map_def)
        then have "sub_name sub \<in> dirs xs" using kept by blast
        then show "CHR ''/'' \<notin> set (sub_name sub)" by (rule dirs_no_slash)
      qed
      fix d u ct
      assume "sub_map ?it3 d = Some (u, Some ct)"
      then have "sub_map ?it2 d = Some (u, Some ct)" by (simp add: sub_map_def)
      then have m: "sub_map it1 d = Some (True, Some ct)" "d \<in> dirs xs" using kept by blast+
      then have "valid_for ?h db1 ct (members d xs)" using up m unfolding subs_updated_def by fastforce
      then show "ct_sound ?h db2 ct (members d xs)" using ct_sound_mono [OF _ wt(2)] by (simp add: valid_for_def)
    qed (use disc(2) in simp_all)
    ultimately show ?thesis using map_le_trans [OF le1(1) wt(2)] wt(3) by (auto simp: valid_for_def)
  qed
qed

lemma valid_for_mono: "valid_for h db ct xs \<Longrightarrow> db \<subseteq>\<^sub>m db' \<Longrightarrow> valid_for h db' ct xs"
  unfolding valid_for_def using ct_sound_mono by blast

lemma sub_texts_dir:
  assumes ok: "level_ok (x # xs)" and sl: "CHR ''/'' \<in> set (fst x)"
  defines "d \<equiv> first_dir (fst x)"
  shows "sub_texts h (x # xs) = all_texts h (members d (x # xs)) \<union> sub_texts h (dropWhile (in_dir d) xs)"
  using past_dir(4) [OF ok sl] sl unfolding d_def by (simp add: sub_texts.simps all_texts_def Let_def)

lemma objects_there_dir:
  assumes "objects_there fl db (x # xs)"
  shows "objects_there fl db (members d (x # xs))" "objects_there fl db (dropWhile (in_dir d) xs)"
  using assms unfolding objects_there_def members_def by (auto simp: strip_dir_def dest: set_dropWhileD)

lemma subs_updated_dir:
  assumes ok: "level_ok (x # xs)" and sl: "CHR ''/'' \<in> set (fst x)" and d: "d = first_dir (fst x)"
    and ct: "valid_for (te_hash env) db' ct (members d (x # xs))" and le: "db \<subseteq>\<^sub>m db'"
    and it: "sub_map it2 = (sub_map it)(d \<mapsto> (True, Some ct))" "entry_count it2 = entry_count it" "ct_sha1 it2 = ct_sha1 it"
    and up: "subs_updated env T it2 db' (dropWhile (in_dir d) xs) it3 db3"
  shows "subs_updated env T it db (x # xs) it3 db3"
proof -
  let ?h = "te_hash env" and ?ys = "dropWhile (in_dir d) xs"
  note pd = past_dir [OF ok sl, folded d]
  have le3: "db' \<subseteq>\<^sub>m db3" using up by (simp add: subs_updated_def)
  note ct3 = valid_for_mono [OF ct le3]
  show ?thesis unfolding subs_updated_def
  proof (intro conjI ballI allI impI)
    show "db \<subseteq>\<^sub>m db3" by (rule map_le_trans [OF le le3])
    show "subs_sorted (down it3)" "entry_count it3 = entry_count it" "ct_sha1 it3 = ct_sha1 it" "db_ok env T db3"
      using up it by (simp_all add: subs_updated_def)
    fix t
    assume "t \<in> sub_texts ?h (x # xs)"
    then have "t \<in> all_texts ?h (members d (x # xs)) \<or> t \<in> sub_texts ?h ?ys" unfolding sub_texts_dir [OF ok sl] d by blast
    then show "db3 (?h t) = Some (OBJ_TREE, t)" using valid_for_sha1(2) [OF ct3] up unfolding subs_updated_def by blast
  next
    fix d'
    assume d': "d' \<in> dirs (x # xs)"
    show "\<exists>ct. sub_map it3 d' = Some (True, Some ct) \<and> valid_for ?h db3 ct (members d' (x # xs))"
    proof (cases "d' \<in> dirs ?ys")
      case True
      then have "\<exists>ct. sub_map it3 d' = Some (True, Some ct) \<and> valid_for ?h db3 ct (members d' ?ys)"
        using up unfolding subs_updated_def by blast
      then show ?thesis using pd(3) [OF True] by simp
    next
      case False
      then have "d' = d" using d' pd(1) by blast
      moreover have "sub_map it3 d' = sub_map it2 d'" using up False by (simp add: subs_updated_def)
      ultimately show ?thesis using ct3 it(1) by simp
    qed
  next
    fix d'
    assume "d' \<notin> dirs (x # xs)"
    then have "d' \<noteq> d" "d' \<notin> dirs ?ys" using pd(1) by blast+
    then show "sub_map it3 d' = sub_map it d'" using up it(1) by (simp add: subs_updated_def)
  qed
qed

text \<open>One step of the first loop into a directory.\<close>

lemma update_dir_ok:
  assumes q: "subtrees_ok env fl T (members d (x # xs))" and w: "writable env fl T"
    and fine: "\<forall>ce \<in> set cache. entry_fine ce" and l: "level cache base k i = x # xs" and ok: "level_ok (x # xs)"
    and sl: "CHR ''/'' \<in> set (fst x)" and d: "d = first_dir (fst x)" and sound: "subs_sound env db it (x # xs)"
    and T: "sub_texts (te_hash env) (x # xs) \<subseteq> T" and there: "objects_there fl db (x # xs)" and db: "db_ok env T db"
    and fuel: "2 * weight (members d (x # xs)) + 2 \<le> f"
  shows "\<exists>ct db' it2. update_subtrees env fl (Suc f) it cache base k i db
      = update_subtrees env fl f it2 cache base k (i + length (members d (x # xs))) db'
    \<and> valid_for (te_hash env) db' ct (members d (x # xs)) \<and> db \<subseteq>\<^sub>m db' \<and> db_ok env T db' \<and> subs_sorted (down it2)
    \<and> sub_map it2 = (sub_map it)(d \<mapsto> (True, Some ct)) \<and> entry_count it2 = entry_count it \<and> ct_sha1 it2 = ct_sha1 it"
proof -
  let ?h = "te_hash env" and ?g = "members d (x # xs)"
  note c = level_Cons [OF l]
  note pd = past_dir [OF ok sl, folded d]
  have nd: "CHR ''/'' \<notin> set d" unfolding d by (rule first_dir_no_slash)
  have x: "fst x = drop k (ce_name (cache ! i))" using c(3) by (simp add: item_of_def)
  have srt: "subs_sorted (down it)" using sound by (simp add: subs_sound_def)
  define x0 where "x0 = (case sub_map it d of None \<Rightarrow> (False, None) | Some x \<Rightarrow> x)"
  from cache_tree_sub_ok [OF srt x0_def] obtain it1 pos where p: "cache_tree_sub it d = (it1, pos)" "pos < length (down it1)"
    "down it1 ! pos = Cache_Tree_Sub d (fst x0) (snd x0)" "subs_sorted (down it1)" "sub_map it1 = (sub_map it)(d \<mapsto> x0)"
    "entry_count it1 = entry_count it" "ct_sha1 it1 = ct_sha1 it" by blast
  define ct0 where "ct0 = (case snd x0 of None \<Rightarrow> new_cache_tree | Some ct \<Rightarrow> ct)"
  have "ct_sound ?h db ct0 ?g"
  proof (cases "snd x0")
    case None
    then show ?thesis using new_cache_tree_sound by (simp add: ct0_def)
  next
    case (Some ct)
    then have "sub_map it d = Some (fst x0, Some ct)" by (auto simp: x0_def split: option.splits)
    moreover have "d \<in> dirs (x # xs)" using pd(1) by blast
    ultimately show ?thesis using sound Some unfolding subs_sound_def ct0_def by auto
  qed
  moreover have "level (drop i cache) (ce_name (cache ! i)) (k + length d + 1) 0 = ?g"
    using level_sub [OF fine l _ sl] ok pd(4) by (simp add: d level_ok_def)
  moreover have "\<forall>ce \<in> set (drop i cache). entry_fine ce" using fine by (meson in_set_dropD)
  moreover have "all_texts ?h ?g \<subseteq> T" using T unfolding sub_texts_dir [OF ok sl] d by blast
  ultimately obtain ct db' where u: "update_one env fl f ct0 (drop i cache) (ce_name (cache ! i)) (k + length d + 1) db = Got (ct, db', int (length ?g))"
    "valid_for ?h db' ct ?g" "db \<subseteq>\<^sub>m db'" "db_ok env T db'"
    using update_one_ok [OF q w _ _ level_ok_members [OF ok nd] _ _ objects_there_dir(1) [OF there] db fuel] by blast
  have sn: "sub_name (down it1 ! pos) = d" "sub_tree (down it1 ! pos) = snd x0" using p(3) by simp_all
  note st = set_sub_tree_ok [OF p(4,2) sn(1), of "Some ct" True]
  have ne: "\<not> length cache \<le> i" "(\<not> at_level base k (cache ! i)) = False" "(int (length ?g) < 0) = False" using c(1,2) by simp_all
  have j: "nat (int i + int (length ?g)) = i + length ?g" by simp
  have td: "take (length d) (fst x) = d" unfolding d by (rule take_first_dir)
  have "update_subtrees env fl (Suc f) it cache base k i db
      = update_subtrees env fl f (set_sub_tree pos (Some ct) True it1) cache base k (i + length ?g) db'"
    unfolding update_subtrees.simps(2) if_not_P [OF ne(1)] ne(2) if_False Let_def x [symmetric] slash_pos_first if_P [OF sl] option.case
      d [symmetric] td p(1) prod.case sn(2) ct0_def [symmetric] u(1) and_then_simps ne(3) j
    by simp
  moreover have "sub_map (set_sub_tree pos (Some ct) True it1) = (sub_map it)(d \<mapsto> (True, Some ct))" unfolding st(1) p(5) by simp
  ultimately show ?thesis using u(2-4) st p(6,7) by metis
qed

lemma update_subtrees_ok: "writable env fl T \<Longrightarrow> subtrees_ok env fl T xs"
proof (induction "weight xs" arbitrary: xs rule: less_induct)
  case less
  note w = less(2)
  show ?case unfolding subtrees_ok_def
  proof (intro allI impI)
    fix fuel it cache base k i db
    assume fine: "\<forall>ce \<in> set cache. entry_fine ce" and l: "level cache base k i = xs" and ok: "level_ok xs"
      and sound: "subs_sound env db it xs" and T: "sub_texts (te_hash env) xs \<subseteq> T" and there: "objects_there fl db xs"
      and db: "db_ok env T db" and fuel: "2 * weight xs + 1 \<le> fuel"
    then obtain f where f: "fuel = Suc f" "2 * weight xs \<le> f" by (cases fuel) auto
    show "\<exists>it' db'. update_subtrees env fl fuel it cache base k i db = Got (it', db', 0) \<and> subs_updated env T it db xs it' db'"
    proof (cases xs)
      case Nil
      then have "update_subtrees env fl fuel it cache base k i db = Got (it, db, 0)"
        using l level_Nil [of cache base k i] by (auto simp: f(1))
      then show ?thesis using sound db by (auto simp: Nil subs_updated_def subs_sound_def sub_texts.simps dirs_def)
    next
      case (Cons x ys)
      note c = level_Cons [OF l [unfolded Cons]]
      show ?thesis
      proof (cases "CHR ''/'' \<in> set (fst x)")
        case False
        have "update_subtrees env fl fuel it cache base k i db = update_subtrees env fl f it cache base k (i + 1) db"
          using c(1,2) False unfolding f(1) by (simp add: Let_def slash_pos_first c(3) item_of_def)
        moreover have "subs_sound env db it ys" "sub_texts (te_hash env) ys \<subseteq> T" "objects_there fl db ys"
          using sound T there past_file [OF False] False by (simp_all add: Cons subs_sound_def objects_there_def sub_texts.simps)
        moreover have "2 * weight ys + 1 \<le> f" using f(2) by (simp add: Cons)
        moreover have "subtrees_ok env fl T ys" using less(1) [of ys] w by (simp add: Cons)
        moreover have "level_ok ys" using ok level_ok_Cons by (simp add: Cons)
        ultimately obtain it' db' where "update_subtrees env fl fuel it cache base k i db = Got (it', db', 0)"
          "subs_updated env T it db ys it' db'" unfolding subtrees_ok_def using fine c(4) db by (metis (no_types, lifting))
        then show ?thesis using past_file [OF False] False by (auto simp: Cons subs_updated_def sub_texts.simps)
      next
        case True
        define d where "d = first_dir (fst x)"
        let ?zs = "dropWhile (in_dir d) ys" and ?g = "members d (x # ys)"
        have ok': "level_ok (x # ys)" using ok by (simp add: Cons)
        note pd = past_dir [OF ok' True, folded d_def]
        have wt: "weight ?g + weight ?zs + 1 \<le> weight xs"
          using leading_weight [OF True, of ys] pd(4) by (simp add: Cons d_def)
        have "subtrees_ok env fl T ?g" using less(1) [of ?g] wt w by linarith
        from update_dir_ok [OF this w fine l [unfolded Cons] ok' True d_def sound [unfolded Cons] T [unfolded Cons] there [unfolded Cons] db, of f]
        obtain ct db' it2 where u: "update_subtrees env fl fuel it cache base k i db = update_subtrees env fl f it2 cache base k (i + length ?g) db'"
          "valid_for (te_hash env) db' ct ?g" "db \<subseteq>\<^sub>m db'" "db_ok env T db'" "subs_sorted (down it2)"
          "sub_map it2 = (sub_map it)(d \<mapsto> (True, Some ct))" "entry_count it2 = entry_count it" "ct_sha1 it2 = ct_sha1 it"
          using f wt by auto
        have lg: "length ?g = length (x # takeWhile (in_dir d) ys)"
          unfolding pd(4) [symmetric] using in_first_dir [OF True] by (simp add: leading_def d_def)
        have "level cache base k (i + length ?g) = ?zs"
          unfolding lg by (rule level_skip) (simp add: l Cons)
        moreover have "subs_sound env db' it2 ?zs" unfolding subs_sound_def
        proof (intro conjI ballI allI impI)
          fix d' u ct'
          assume d': "d' \<in> dirs ?zs" and m: "sub_map it2 d' = Some (u, Some ct')"
          then have "d' \<noteq> d" "d' \<in> dirs (x # ys)" using pd(1,2) by blast+
          then have "ct_sound (te_hash env) db ct' (members d' (x # ys))" using m u(6) sound unfolding Cons subs_sound_def by simp
          then show "ct_sound (te_hash env) db' ct' (members d' ?zs)" using ct_sound_mono u(3) pd(3) [OF d'] by simp
        qed (rule u(5))
        moreover have "sub_texts (te_hash env) ?zs \<subseteq> T" using T unfolding Cons sub_texts_dir [OF ok' True] d_def by blast
        moreover have "objects_there fl db' ?zs"
          using objects_there_mono [OF objects_there_dir(2) [OF there [unfolded Cons]] u(3)] .
        moreover have "2 * weight ?zs + 1 \<le> f" using f(2) wt by linarith
        moreover have "subtrees_ok env fl T ?zs" using less(1) [of ?zs] wt w by linarith
        moreover have "level_ok ?zs" by (rule level_ok_dropWhile [OF level_ok_Cons [OF ok']])
        ultimately obtain it' db3 where "update_subtrees env fl f it2 cache base k (i + length ?g) db' = Got (it', db3, 0)"
          "subs_updated env T it2 db' ?zs it' db3" using fine u(4) unfolding subtrees_ok_def by (metis (no_types, lifting))
        then show ?thesis using subs_updated_dir [OF ok' True d_def u(2,3,6-8)] unfolding u(1) Cons by blast
      qed
    qed
  qed
qed

end
