(* ===== verification/Cache_Update.thy ===== *)
theory Cache_Update
  imports Write_Tree
begin

text \<open>
  What the cached trees promise over a series of operations on the index: \<open>cache_tree_invalidate_path\<close>
  keeps them sound when entries of the path come and go, and \<open>cache_tree_update\<close> then writes the
  trees of the index, whatever was kept. The theory ends with two indexes for which it does not.
\<close>

subsection \<open>Invalidating a path\<close>

text \<open>The paths that a change of \<open>p\<close> may add or remove: \<open>p\<close>, what is inside it, and its directories.\<close>

definition touches :: "string \<Rightarrow> string \<Rightarrow> bool" where
  "touches p q \<longleftrightarrow> p = q \<or> (\<exists>r. q = p @ CHR ''/'' # r) \<or> (\<exists>r. p = q @ CHR ''/'' # r)"

definition untouched :: "string \<Rightarrow> path_item list \<Rightarrow> path_item list" where
  "untouched p xs = filter (\<lambda>x. \<not> touches p (fst x)) xs"

lemma first_dir_append: "CHR ''/'' \<notin> set d \<Longrightarrow> first_dir (d @ CHR ''/'' # r) = d"
  by (induction d) (auto simp: first_dir_def)

lemma in_dir_rest: "in_dir d x \<Longrightarrow> fst x = d @ CHR ''/'' # drop (length d + 1) (fst x)"
  unfolding in_dir_def by (metis append.assoc append_Cons append_Nil append_take_drop_id)

lemma in_dir_append: "in_dir d x \<longleftrightarrow> (\<exists>r. fst x = d @ CHR ''/'' # r)"
proof
  show "\<exists>r. fst x = d @ CHR ''/'' # r" if "in_dir d x" using in_dir_rest [OF that] by blast
qed (auto simp: in_dir_def)

lemma members_cong:
  assumes "untouched p xs = untouched p ys" "\<And>x. in_dir d x \<Longrightarrow> \<not> touches p (fst x)"
  shows "members d xs = members d ys"
proof -
  have "filter (in_dir d) (untouched p zs) = filter (in_dir d) zs" for zs
    unfolding untouched_def filter_filter using assms(2) by (intro filter_cong) auto
  then show ?thesis using assms(1) unfolding members_def by metis
qed

lemma append_slash_first:
  assumes "CHR ''/'' \<notin> set d" "d @ CHR ''/'' # r = q @ CHR ''/'' # s"
  shows "\<exists>u. q = d @ u \<and> (u = [] \<or> hd u = CHR ''/'')"
  using assms
proof (induction d arbitrary: q)
  case Nil
  then show ?case by (cases q) auto
next
  case (Cons c d)
  then obtain q' where q: "q = c # q'" by (cases q) auto
  then have "d @ CHR ''/'' # r = q' @ CHR ''/'' # s" using Cons.prems(2) by simp
  then show ?case using Cons q by fastforce
qed

text \<open>Another directory than that of the path is out of its reach, and in its own it is the rest of the path that counts.\<close>

lemma other_dir_untouched:
  assumes d: "CHR ''/'' \<notin> set d" and p: "first_dir p \<noteq> d" and x: "in_dir d x"
  shows "\<not> touches p (fst x)"
proof
  obtain r where r: "fst x = d @ CHR ''/'' # r" using x in_dir_append by blast
  assume "touches p (fst x)"
  then consider "p = fst x" | s where "fst x = p @ CHR ''/'' # s" | s where "p = fst x @ CHR ''/'' # s"
    unfolding touches_def by blast
  then have "first_dir p = d"
  proof cases
    case 1
    then show ?thesis using first_dir_append [OF d] r by simp
  next
    case (2 s)
    then obtain u where u: "p = d @ u" "u = [] \<or> hd u = CHR ''/''" using append_slash_first [OF d] r by metis
    then show ?thesis using first_dir_append [OF d, of "tl u"] d by (cases u) (auto simp: first_dir_def)
  next
    case (3 s)
    then show ?thesis using first_dir_append [OF d] r by simp
  qed
  then show False using p by blast
qed

lemma members_untouched:
  assumes d: "CHR ''/'' \<notin> set d" and p: "p = d @ CHR ''/'' # r"
  shows "untouched r (members d xs) = members d (untouched p xs)"
proof -
  have "touches r (fst (strip_dir d x)) \<longleftrightarrow> touches p (fst x)" if x: "in_dir d x" for x
  proof -
    obtain s where s: "fst x = d @ CHR ''/'' # s" using x in_dir_append by blast
    then have st: "fst (strip_dir d x) = s" by (simp add: strip_dir_def)
    show ?thesis unfolding st s p touches_def by auto
  qed
  then have "filter (\<lambda>x. \<not> touches r (fst x)) (map (strip_dir d) (filter (in_dir d) xs))
    = map (strip_dir d) (filter (in_dir d) (filter (\<lambda>x. \<not> touches p (fst x)) xs))"
    unfolding filter_map filter_filter by (intro arg_cong [where f = "map _"] filter_cong) auto
  then show ?thesis by (simp add: untouched_def members_def)
qed

lemma ct_soundD:
  assumes "ct_sound h db it xs"
  shows "subs_sorted (down it)" "\<forall>sub \<in> set (down it). CHR ''/'' \<notin> set (sub_name sub)"
    "sub_map it d = Some (u, Some ct) \<Longrightarrow> ct_sound h db ct (members d xs)"
    "sub_map it d = Some (u, t) \<Longrightarrow> CHR ''/'' \<notin> set d"
proof -
  note i = assms [unfolded ct_sound_iff [of h db it xs]]
  then show s: "subs_sorted (down it)" and n: "\<forall>sub \<in> set (down it). CHR ''/'' \<notin> set (sub_name sub)" by blast+
  show "sub_map it d = Some (u, Some ct) \<Longrightarrow> ct_sound h db ct (members d xs)" using i by blast
  show "CHR ''/'' \<notin> set d" if "sub_map it d = Some (u, t)"
  proof -
    have "Cache_Tree_Sub d u t \<in> set (down it)" using subs_map_Some [OF s, of d "(u, t)"] that by (simp add: sub_map_def)
    then show ?thesis using n by fastforce
  qed
qed

lemma invalid_sound:
  assumes "entry_count it < 0" "subs_sorted (down it)" "\<forall>sub \<in> set (down it). CHR ''/'' \<notin> set (sub_name sub)"
    "\<And>d u ct. sub_map it d = Some (u, Some ct) \<Longrightarrow> ct_sound h db ct (members d xs)"
  shows "ct_sound h db it xs"
  using assms ct_sound_iff [of h db it xs] by simp

lemma invalidate_sound:
  "ct_sound h db it xs \<Longrightarrow> untouched p xs = untouched p ys \<Longrightarrow> ct_sound h db (cache_tree_invalidate_path it p) ys"
proof (induction "length p" arbitrary: p it xs ys rule: less_induct)
  case less
  let ?it = "Cache_Tree (-1) (ct_sha1 it) (down it)"
  note sd = ct_soundD [OF less(2)]
  have sm: "sub_map ?it = sub_map it" by (simp add: sub_map_def)
  have other: "ct_sound h db ct (members d ys)" if "sub_map it d = Some (u, Some ct)" "d \<noteq> first_dir p" for d u ct
  proof -
    have "members d xs = members d ys"
      using members_cong [OF less(3)] other_dir_untouched [OF sd(4) [OF that(1)]] that(2) by metis
    then show ?thesis using sd(3) [OF that(1)] by simp
  qed
  show ?case
  proof (cases "CHR ''/'' \<in> set p")
    case False
    then have fd: "first_dir p = p" by (auto simp: first_dir_def)
    have sp: "slash_pos p = None" using False by (simp add: slash_pos_first)
    show ?thesis
    proof (cases "sub_map it p")
      case None
      then obtain pos where "subtree_pos ?it p = - int pos - 1" using subtree_pos_absent [of ?it p] sd(1) sm by auto
      then have "cache_tree_invalidate_path it p = ?it"
        unfolding cache_tree_invalidate_path.simps [of it p] by (simp add: sp)
      moreover have "ct_sound h db ?it ys"
      proof (rule invalid_sound)
        fix d u ct
        assume "sub_map ?it d = Some (u, Some ct)"
        then show "ct_sound h db ct (members d ys)" using other [of d u ct] None unfolding sm fd by (cases "d = p") simp_all
      qed (use sd(1,2) in simp_all)
      ultimately show ?thesis by simp
    next
      case (Some y)
      then obtain u t where y: "sub_map it p = Some (u, t)" by (cases y) simp
      then obtain pos where pos: "subtree_pos ?it p = int pos" "pos < length (down it)" "down it ! pos = Cache_Tree_Sub p u t"
        using subtree_pos_found [of ?it p u t] sd(1) sm by auto
      let ?subs = "take pos (down it) @ drop (pos + 1) (down it)"
      have inv: "cache_tree_invalidate_path it p = set_down ?subs ?it"
        unfolding cache_tree_invalidate_path.simps [of it p] by (simp add: sp pos(1) nat_add_distrib)
      have split: "down it = take pos (down it) @ down it ! pos # drop (pos + 1) (down it)"
        using pos(2) by (simp add: id_take_nth_drop [symmetric])
      have sub: "set ?subs \<subseteq> set (down it)" by (auto dest: in_set_takeD in_set_dropD)
      have "sorted_wrt name_less (map sub_name (take pos (down it)) @ sub_name (down it ! pos) # map sub_name (drop (pos + 1) (down it)))"
        using sd(1) split unfolding subs_sorted_def by (metis list.simps(9) map_append)
      then have srt: "subs_sorted ?subs" and notin: "p \<notin> sub_name ` set ?subs"
        unfolding subs_sorted_def sorted_wrt_append pos(3) by (auto simp: name_less_order(1) sorted_wrt_append)
      have kept: "sub_map it d = Some x \<and> d \<noteq> p" if "subs_map ?subs d = Some x" for d x
      proof -
        have "Cache_Tree_Sub d (fst x) (snd x) \<in> set ?subs" using subs_map_Some [OF srt] that by blast
        then show ?thesis using sub notin subs_map_Some [OF sd(1)] unfolding sub_map_def by force
      qed
      have "ct_sound h db (set_down ?subs ?it) ys"
      proof (rule invalid_sound)
        fix d u ct
        assume "sub_map (set_down ?subs ?it) d = Some (u, Some ct)"
        then have "subs_map ?subs d = Some (u, Some ct)" by (simp only: sub_map_set_down)
        then show "ct_sound h db ct (members d ys)" using kept other [of d u ct] unfolding fd by blast
      qed (use srt sd(2) sub in \<open>simp_all only: down_set_down cache_tree.sel\<close>, simp, blast)
      then show ?thesis unfolding inv .
    qed
  next
    case True
    let ?d = "first_dir p" and ?r = "drop (length (first_dir p) + 1) p"
    have nd: "CHR ''/'' \<notin> set ?d" by (rule first_dir_no_slash)
    have p: "p = ?d @ CHR ''/'' # ?r" using in_dir_rest [OF in_first_dir [of "(p, undefined)"]] True by simp
    have sp: "slash_pos p = Some (length ?d)" using True by (simp add: slash_pos_first)
    note inv = cache_tree_invalidate_path.simps [of it p, unfolded sp option.case take_first_dir Let_def]
    show ?thesis
    proof (cases "\<exists>u ct. sub_map it ?d = Some (u, Some ct)")
      case False
      have "cache_tree_invalidate_path it p = ?it"
      proof (cases "sub_map it ?d")
        case None
        then obtain pos where "subtree_pos ?it ?d = - int pos - 1" using subtree_pos_absent [of ?it ?d] sd(1) sm by auto
        then show ?thesis unfolding inv by (simp add: find_subtree_def Let_def)
      next
        case (Some y)
        then obtain u where "sub_map it ?d = Some (u, None)" using False by (cases y; cases "snd y") auto
        then obtain pos where "find_subtree ?it ?d False = (?it, Some pos)" "down it ! pos = Cache_Tree_Sub ?d u None"
          using find_subtree_found [of ?it ?d u None False] sd(1) sm by auto
        then show ?thesis unfolding inv by simp
      qed
      moreover have "ct_sound h db ?it ys"
      proof (rule invalid_sound)
        fix d u ct
        assume "sub_map ?it d = Some (u, Some ct)"
        then show "ct_sound h db ct (members d ys)" using other [of d u ct] False unfolding sm by metis
      qed (use sd(1,2) in simp_all)
      ultimately show ?thesis by simp
    next
      case True
      then obtain u ct where ct: "sub_map it ?d = Some (u, Some ct)" by blast
      then obtain pos where pos: "find_subtree ?it ?d False = (?it, Some pos)" "pos < length (down it)"
        "down it ! pos = Cache_Tree_Sub ?d u (Some ct)"
        using find_subtree_found [of ?it ?d u "Some ct" False] sd(1) sm by auto
      let ?ct = "cache_tree_invalidate_path ct ?r"
      have inv': "cache_tree_invalidate_path it p = set_sub_tree pos (Some ?ct) u ?it" unfolding inv by (simp add: pos(1,3))
      have "length ?r < length p" by (subst (3) p) simp
      moreover have "untouched ?r (members ?d xs) = untouched ?r (members ?d ys)"
        using members_untouched [OF nd p] less(3) by metis
      ultimately have sct: "ct_sound h db ?ct (members ?d ys)" using less(1) sd(3) [OF ct] by blast
      note st = set_sub_tree_ok [of ?it pos ?d "Some ?ct" u]
      have st1: "sub_map (set_sub_tree pos (Some ?ct) u ?it) = (sub_map it)(?d \<mapsto> (u, Some ?ct))"
        "subs_sorted (down (set_sub_tree pos (Some ?ct) u ?it))" "entry_count (set_sub_tree pos (Some ?ct) u ?it) = -1"
        using st sd(1) pos sm by simp_all
      have "\<forall>sub \<in> set (down (set_sub_tree pos (Some ?ct) u ?it)). CHR ''/'' \<notin> set (sub_name sub)"
        using sd(2) nd pos(3) set_update_subset_insert [of "down it" pos] by (fastforce simp: set_sub_tree_def)
      note names = this
      have "ct_sound h db (set_sub_tree pos (Some ?ct) u ?it) ys"
      proof (rule invalid_sound)
        fix d u' ct'
        assume "sub_map (set_sub_tree pos (Some ?ct) u ?it) d = Some (u', Some ct')"
        then show "ct_sound h db ct' (members d ys)" unfolding st1(1) using sct other [of d u' ct'] by (cases "d = ?d") simp_all
      qed (use st1(2,3) names in simp_all)
      then show ?thesis unfolding inv' .
    qed
  qed
qed

subsection \<open>The index and its trees\<close>

definition paths :: "cache_entry list \<Rightarrow> path_item list" where
  "paths cache = map (item_of 0) cache"

lemma untouched_paths: "untouched p (paths cache) = paths (filter (\<lambda>ce. \<not> touches p (ce_name ce)) cache)"
  by (simp add: untouched_def paths_def filter_map o_def item_of_def)

lemma index_ok_filter: "index_ok cache \<Longrightarrow> index_ok (filter P cache)"
  by (simp add: index_ok_def list_all_iff sorted_wrt_filter)

lemma index_determined:
  assumes "index_ok xs" "index_ok ys" "set xs = set ys"
  shows "xs = ys"
proof -
  have "sorted_wrt (<) (map ce_key xs)" "sorted_wrt (<) (map ce_key ys)" using assms(1,2) by (simp_all add: index_ok_def sorted_wrt_map)
  then have keys: "map ce_key xs = map ce_key ys" using assms(3) by (intro strict_sorted_equal) simp_all
  have "inj_on ce_key (set xs \<union> set ys)" unfolding assms(3) Un_absorb
  proof (rule inj_onI)
    fix a b
    assume m: "a \<in> set ys" "b \<in> set ys" and eq: "ce_key a = ce_key b"
    obtain i j where "i < length ys" "a = ys ! i" "j < length ys" "b = ys ! j" using m unfolding in_set_conv_nth by blast
    then show "a = b" using index_key_unique [OF assms(2)] eq by metis
  qed
  then show ?thesis by (rule map_inj_on [OF keys])
qed

lemma add_untouched:
  assumes "index_ok (is_cache istate)" "wf_ce ce" "df_free (set (is_cache istate))" "add_ready (is_cache istate) ce"
    "add_index_entry istate ce 3 = (istate', r)"
  shows "untouched (ce_name ce) (paths (is_cache istate)) = untouched (ce_name ce) (paths (is_cache istate'))"
proof -
  note add = add_index_entry_ok [OF assms]
  let ?P = "\<lambda>p. \<not> touches (ce_name ce) (ce_name p)"
  have t: "\<not> ?P p" if "ce_name p = ce_name ce \<or> df_conflict ce p \<or> df_conflict p ce" for p
    using that by (auto simp: touches_def df_conflict_def)
  have "set (filter ?P (is_cache istate)) = set (filter ?P (is_cache istate'))"
  proof (intro equalityI subsetI)
    fix p
    assume "p \<in> set (filter ?P (is_cache istate))"
    then show "p \<in> set (filter ?P (is_cache istate'))" using add(5) t by auto
  next
    fix p
    assume p: "p \<in> set (filter ?P (is_cache istate'))"
    then have "p \<noteq> clear_flags CE_UNHASHED ce" by (auto simp: touches_def)
    then show "p \<in> set (filter ?P (is_cache istate))" using add(4) p by auto
  qed
  then have "filter ?P (is_cache istate) = filter ?P (is_cache istate')"
    by (rule index_determined [OF index_ok_filter [OF assms(1)] index_ok_filter [OF add(1)]])
  then show ?thesis unfolding untouched_paths by simp
qed

lemma verify_cache_0:
  assumes "verify_cache cache = 0" "ce \<in> set cache"
  shows "ce_stage ce = 0"
  using assms by (auto simp: verify_cache_def list_ex_iff split: if_splits)

lemma paths_level:
  assumes "index_ok cache" "verify_cache cache = 0" "\<forall>ce \<in> set cache. good_path (ce_name ce)"
  shows "level_ok (paths cache)" "level cache [] 0 0 = paths cache"
proof -
  have key: "ce_key ce = (ce_name ce, 0)" if "ce \<in> set cache" for ce
    using that index_ok_wf [OF assms(1)] verify_cache_0 [OF assms(2)] by (simp add: wf_key)
  have "sorted_wrt (\<lambda>a b. ce_key a < ce_key b) cache" using assms(1) by (simp add: index_ok_def)
  then have "sorted_wrt (\<lambda>a b. ce_name a < ce_name b) cache" by (rule sorted_wrt_mono_rel [rotated]) (simp add: key)
  then show "level_ok (paths cache)" using assms(3) by (simp add: level_ok_def paths_def sorted_wrt_map item_of_def)
  have "at_level [] 0 ce" if "ce \<in> set cache" for ce
  proof -
    have "ce_name ce \<noteq> []" using assms(3) that by (auto simp: good_path_def)
    then show ?thesis using index_ok_wf [OF assms(1) that] by (simp add: at_level_def)
  qed
  then show "level cache [] 0 0 = paths cache" by (simp add: level_def paths_def takeWhile_eq_all_conv [THEN iffD2])
qed

text \<open>C10. Changing the index and invalidating the path keeps every cached tree sound for the entries there are
  now: for an insertion that may replace files by directories and directories by files, and for the removal
  of a path. The index is in order, free of conflicts, and ready for the entry: an entry of its path and stage
  is not marked \<open>CE_REMOVE\<close> when the new one is live, and none of its path is in a higher merge stage.\<close>

theorem index_changes_keep_cached_trees:
  assumes "index_ok (is_cache istate)" "wf_ce ce" "df_free (set (is_cache istate))" "add_ready (is_cache istate) ce"
    "add_index_entry istate ce (OK_TO_ADD OR OK_TO_REPLACE) = (istate', r)" "ct_sound h db it (paths (is_cache istate))"
  shows "ct_sound h db (cache_tree_invalidate_path it (ce_name ce)) (paths (is_cache istate'))
    \<and> ct_sound h db (cache_tree_invalidate_path it (ce_name ce)) (paths (is_cache (remove_file_from_index istate (ce_name ce))))"
proof
  have "OK_TO_ADD OR OK_TO_REPLACE = 3" by simp
  from invalidate_sound [OF assms(6) add_untouched [OF assms(1-4) assms(5) [unfolded this]]]
  show "ct_sound h db (cache_tree_invalidate_path it (ce_name ce)) (paths (is_cache istate'))" .
  have "untouched (ce_name ce) (paths (filter (\<lambda>p. ce_name p \<noteq> ce_name ce) (is_cache istate))) = untouched (ce_name ce) (paths (is_cache istate))"
    unfolding untouched_paths filter_filter by (intro arg_cong [where f = paths] filter_cong) (auto simp: touches_def)
  moreover have "length (ce_name ce) < 0xfff" using assms(2) by (simp add: wf_ce_def)
  ultimately show "ct_sound h db (cache_tree_invalidate_path it (ce_name ce)) (paths (is_cache (remove_file_from_index istate (ce_name ce))))"
    using invalidate_sound [OF assms(6)] remove_file_from_index_removes [OF assms(1)] by simp
qed

lemma cache_tree_update_ok:
  assumes "index_ok cache" "verify_cache cache = 0"
    "\<forall>ce \<in> set cache. good_path (ce_name ce) \<and> \<not> has_flag ce (CE_REMOVE OR CE_INTENT_TO_ADD)"
    "ct_sound (te_hash env) db it (paths cache)" "objects_there fl db (paths cache)"
    "writable env fl (all_texts (te_hash env) (paths cache))" "db_ok env (all_texts (te_hash env) (paths cache)) db"
    "2 * weight (paths cache) + 2 \<le> fuel"
  shows "\<exists>it' db'. cache_tree_update env fl fuel it cache db = Got (it', db', 0)
    \<and> ct_sha1 it' = te_hash env (tree_text (dir_items (te_hash env) (paths cache)))
    \<and> (\<forall>t \<in> all_texts (te_hash env) (paths cache). db' (te_hash env t) = Some (OBJ_TREE, t)) \<and> db \<subseteq>\<^sub>m db'
    \<and> entry_count it' = int (length cache) \<and> ct_sound (te_hash env) db' it' (paths cache)"
proof -
  have fine: "\<forall>ce \<in> set cache. entry_fine ce" using assms(3) index_ok_wf [OF assms(1)] by (simp add: entry_fine_def)
  have lv: "level_ok (paths cache)" "level cache [] 0 0 = paths cache" using paths_level [OF assms(1,2)] assms(3) by blast+
  from update_one_ok [OF update_subtrees_ok [OF assms(6)] assms(6) fine lv(2,1) assms(4) order_refl assms(5,7,8)]
  obtain it' db' where u: "update_one env fl fuel it cache [] 0 db = Got (it', db', int (length (paths cache)))"
    "valid_for (te_hash env) db' it' (paths cache)" "db \<subseteq>\<^sub>m db'" by blast
  have "cache_tree_update env fl fuel it cache db = Got (it', db', 0)"
    unfolding cache_tree_update_def assms(2) u(1) by simp
  moreover have "length (paths cache) = length cache" by (simp add: paths_def)
  ultimately show ?thesis using u(2,3) valid_for_sha1 [OF u(2)] unfolding valid_for_def by metis
qed

text \<open>C7. Writing the trees of an index: whatever sound trees were kept, \<open>cache_tree_update\<close> returns, and the name it
  keeps for the root is that of the tree of all the paths, split at their slashes; this tree and all its
  subtrees are in the object database, nothing in which is lost, and what is kept is sound again and valid.\<close>

theorem cache_tree_update_writes:
  assumes "index_ok cache" "verify_cache cache = 0"
    "\<forall>ce \<in> set cache. good_path (ce_name ce) \<and> \<not> has_flag ce (CE_REMOVE OR CE_INTENT_TO_ADD)"
    "ct_sound (te_hash env) db it (paths cache)" "objects_there fl db (paths cache)"
    "writable env fl (all_texts (te_hash env) (paths cache))" "db_ok env (all_texts (te_hash env) (paths cache)) db"
    "2 * weight (paths cache) + 2 \<le> fuel"
  shows "\<exists>it' db'. cache_tree_update env fl fuel it cache db = Got (it', db', 0)
    \<and> ct_sha1 it' = te_hash env (tree_text (dir_items (te_hash env) (paths cache)))
    \<and> (\<forall>t \<in> all_texts (te_hash env) (paths cache). db' (te_hash env t) = Some (OBJ_TREE, t)) \<and> db \<subseteq>\<^sub>m db'
    \<and> entry_count it' = int (length cache) \<and> ct_sound (te_hash env) db' it' (paths cache)"
  by (rule cache_tree_update_ok [OF assms])

subsection \<open>Indexes whose trees are not written\<close>

definition tracked :: "string \<Rightarrow> u32 \<Rightarrow> cache_entry" where
  "tracked name fl = (ce_of name 0 fl)\<lparr>ce_sha1 := replicate 20 1\<rparr>"

definition demo_tree_env :: tree_env where
  "demo_tree_env = \<lparr>te_hash = (\<lambda>t. replicate 20 (of_nat (length t))), te_write_fails = (\<lambda>_. False)\<rparr>"

definition demo_blobs :: odb where
  "demo_blobs = [replicate 20 1 \<mapsto> (OBJ_BLOB, [])]"

definition demo_hash :: "string \<Rightarrow> name" where
  "demo_hash = te_hash demo_tree_env"

definition blob_item :: "string \<Rightarrow> tree_item" where
  "blob_item name = (0x81A4, name, replicate 20 1)"

text \<open>With the directory \<open>''a''\<close> the index holds a path that is a file and a directory.\<close>

definition demo_index :: "char \<Rightarrow> cache_entry list" where
  "demo_index c = [tracked ''a'' 0, tracked ''a-b'' 0, tracked [c, CHR ''/'', CHR ''c''] 0]"

definition placeholders :: "cache_entry list" where
  "placeholders = [tracked ''d/a'' CE_INTENT_TO_ADD, tracked ''d/b'' 0]"

lemma demo_paths: "paths (demo_index c)
    = [(''a'', 0x81A4, replicate 20 1), (''a-b'', 0x81A4, replicate 20 1), ([c, CHR ''/'', CHR ''c''], 0x81A4, replicate 20 1)]"
  by (simp add: paths_def item_of_def tracked_def ce_of_def demo_index_def)

lemma demo_items:
  assumes "c \<noteq> CHR ''/''"
  shows "dir_items h (paths (demo_index c)) = [blob_item ''a'', blob_item ''a-b'', (0x4000, [c], h (tree_text [blob_item ''c'']))]" (is "?a")
    and "all_texts h (paths (demo_index c))
      = {tree_text [blob_item ''a'', blob_item ''a-b'', (0x4000, [c], h (tree_text [blob_item ''c'']))], tree_text [blob_item ''c'']}" (is "?b")
proof -
  show a: ?a using assms unfolding demo_paths
    by (simp add: dir_items.simps first_dir_def leading_def in_dir_def strip_dir_def blob_item_def del: tree_text_simps)
  show ?b using assms unfolding all_texts_def a unfolding demo_paths
    by (simp add: sub_texts.simps dir_items.simps first_dir_def leading_def in_dir_def strip_dir_def blob_item_def del: tree_text_simps)
qed

lemma blob_item_length: "length (item_text (blob_item n)) = 28 + length n"
  by (simp add: blob_item_def item_text_eq octal.simps raw_sha1_def)

lemma demo_writable:
  assumes "c \<noteq> CHR ''/''"
  shows "writable demo_tree_env 0 (all_texts demo_hash (paths (demo_index c)))"
    "db_ok demo_tree_env (all_texts demo_hash (paths (demo_index c))) demo_blobs"
proof -
  have len: "length (demo_hash t) = 20" for t by (simp add: demo_hash_def demo_tree_env_def)
  have l: "length (tree_text [blob_item ''c'']) = 29"
    "length (tree_text [blob_item ''a'', blob_item ''a-b'', (0x4000, [c], demo_hash (tree_text [blob_item ''c'']))]) = 88"
    using blob_item_length by (simp_all add: item_text_eq octal.simps raw_sha1_def len)
  show "writable demo_tree_env 0 (all_texts demo_hash (paths (demo_index c)))"
    unfolding writable_def demo_items [OF assms] using l
    by (auto simp: demo_tree_env_def simp del: tree_text_simps)
  show "db_ok demo_tree_env (all_texts demo_hash (paths (demo_index c))) demo_blobs"
    unfolding db_ok_def demo_items [OF assms] using l
    by (simp add: demo_tree_env_def demo_blobs_def del: tree_text_simps)
qed

lemma demo_index_ready:
  "index_ok (demo_index CHR ''a'')" "verify_cache (demo_index CHR ''a'') = 0"
  "\<forall>ce \<in> set (demo_index CHR ''a''). good_path (ce_name ce) \<and> \<not> has_flag ce (CE_REMOVE OR CE_INTENT_TO_ADD)"
  "index_ok (demo_index CHR ''b'')" "verify_cache (demo_index CHR ''b'') = 0"
  "\<forall>ce \<in> set (demo_index CHR ''b''). good_path (ce_name ce) \<and> \<not> has_flag ce (CE_REMOVE OR CE_INTENT_TO_ADD)"
  by code_simp+

lemma demo_there: "objects_there 0 demo_blobs (paths (demo_index c))" "2 * weight (paths (demo_index c)) + 2 \<le> 100"
  by (simp_all add: demo_paths objects_there_def demo_blobs_def)

text \<open>The update writes the tree of an index with a directory, whether it conflicts or not.\<close>

definition demo_written :: "char \<Rightarrow> bool" where
  "demo_written c \<longleftrightarrow> (\<exists>it db. cache_tree_update demo_tree_env 0 100 new_cache_tree (demo_index c) demo_blobs = Got (it, db, 0)
    \<and> db (ct_sha1 it) = Some (OBJ_TREE, tree_text [blob_item ''a'', blob_item ''a-b'', (0x4000, [c], demo_hash (tree_text [blob_item ''c'']))]))"

theorem cache_tree_update_writes_witness: "demo_written (CHR ''b'')"
proof -
  have c: "CHR ''b'' \<noteq> CHR ''/''" by simp
  from cache_tree_update_writes [where env = demo_tree_env, OF demo_index_ready(4-6) new_cache_tree_sound demo_there(1), folded demo_hash_def,
      OF demo_writable [OF c] demo_there(2)]
  show ?thesis unfolding demo_written_def all_texts_def demo_items [OF c] by auto
qed

lemma conflict_written: "demo_written (CHR ''a'')"
proof -
  have c: "CHR ''a'' \<noteq> CHR ''/''" by simp
  from cache_tree_update_ok [where env = demo_tree_env, OF demo_index_ready(1-3) new_cache_tree_sound demo_there(1), folded demo_hash_def,
      OF demo_writable [OF c] demo_there(2)]
  show ?thesis unfolding demo_written_def all_texts_def demo_items [OF c] by auto
qed

theorem index_changes_keep_cached_trees_witness:
  "ct_sound demo_hash Map.empty (cache_tree_invalidate_path new_cache_tree ''a'')
     (paths (is_cache (fst (add_index_entry (index_of [ce_of ''a/b'' 0 0, ce_of ''c'' 0 0]) (ce_of ''a'' 0 0) 3))))"
proof -
  let ?i = "index_of [ce_of ''a/b'' 0 0, ce_of ''c'' 0 0]"
  have ok: "index_ok (is_cache ?i)" "wf_ce (ce_of ''a'' 0 0)" by code_simp+
  have df: "df_free (set (is_cache ?i))" by (simp add: df_free_Cons) (simp add: df_free_def df_conflict_def ce_of_def)
  have ready: "add_ready (is_cache ?i) (ce_of ''a'' 0 0)" by (simp add: add_ready_def) (simp add: ce_of_def)
  have "OK_TO_ADD OR OK_TO_REPLACE = 3" "ce_name (ce_of ''a'' 0 0) = ''a''" by (simp_all add: ce_of_def)
  note R = index_changes_keep_cached_trees [OF ok df ready, unfolded this, OF prod.collapse [symmetric] new_cache_tree_sound]
  then show ?thesis by blast
qed

lemma placeholders_at: "placeholders ! 0 = tracked ''d/a'' CE_INTENT_TO_ADD" "placeholders ! Suc 0 = tracked ''d/b'' 0" "length placeholders = 2"
  by (simp_all add: placeholders_def)

lemma tracked_fields: "ce_namelen (tracked ''d/a'' CE_INTENT_TO_ADD) = 3" "ce_namelen (tracked ''d/b'' 0) = 3"
  "has_flag (tracked ''d/a'' CE_INTENT_TO_ADD) (CE_REMOVE OR CE_INTENT_TO_ADD)" "\<not> has_flag (tracked ''d/b'' 0) (CE_REMOVE OR CE_INTENT_TO_ADD)"
  "ce_name (tracked n f) = n" "ce_sha1 (tracked n f) = replicate 20 1" "ce_mode (tracked n f) = 0x81A4"
  by code_simp+

lemma placeholder_items:
  assumes "sb_ok b0" "sb_str b0 = []"
  shows "\<exists>b. write_items 0 demo_blobs (Suc (Suc (Suc f))) it placeholders ''d/a'' 2 0 b0 = Got (Some b, 2) \<and> sb_str b = tree_text [blob_item ''b'']" 
proof -
  have "length (sb_str b0) + length (item_text (0x81A4 :: u32, ''b'', replicate 20 1)) + 200 < 2 ^ 64"
    unfolding assms(2) using blob_item_length [of "''b''"] by (simp add: blob_item_def)
  from write_item_ok [OF assms(1) this, of 1, where 'a = "strbuf option \<times> nat"]
  obtain b where "(\<And>f :: strbuf \<Rightarrow> (strbuf option \<times> nat) read. and_then (strbuf_grow b0 (of_nat (1 + 100))) (\<lambda>b.
      and_then (strbuf_vaddf b (octal (unat (0x81A4 :: u32)) @ '' '' @ ''b'' @ [CHR 0x00])) (\<lambda>b. and_then (strbuf_add b (raw_sha1 (replicate 20 1))) f)) = f b)"
    "sb_str b = tree_text [blob_item ''b'']" unfolding assms(2) by (auto simp: blob_item_def)
  note b = this
  have w: "write_items 0 demo_blobs (Suc f) it placeholders ''d/a'' 2 2 b = Got (Some b, 2)"
    by (simp add: placeholders_at)
  show ?thesis using b(1) [of "write_items 0 demo_blobs (Suc f) it placeholders ''d/a'' 2 2", simplified, unfolded w] b(2) tracked_fields [simplified]
    by (intro exI [of _ b]) (simp add: write_items.simps at_level_def placeholders_at item_at_def slash_pos_def
      demo_blobs_def has_sha1_file_def flip: numeral_2_eq_2)
qed

lemma placeholder_texts: "length (tree_text [blob_item ''b'']) = 29"
  using blob_item_length by simp

lemma update_one_invalid:
  "entry_count it < 0 \<Longrightarrow> update_subtrees env fl fuel (unmark it) cache base k 0 db = Got (it', db', 0)
    \<Longrightarrow> update_one env fl (Suc fuel) it cache base k db = write_tree_object env fl fuel (discard_unused_subtrees it') cache base k db'"
  by simp

lemma placeholder_tree:
  "update_one demo_tree_env 0 (Suc (Suc (Suc (Suc f)))) new_cache_tree placeholders ''d/a'' 2 demo_blobs
    = Got (Cache_Tree 2 (replicate 20 29) [], demo_blobs(replicate 20 29 \<mapsto> (OBJ_TREE, tree_text [blob_item ''b''])), 2)"
proof -
  obtain b0 where b0: "strbuf_init 8192 = Got b0" "sb_ok b0" "sb_str b0 = []" using strbuf_init_ok [of 8192] by auto
  have u: "update_subtrees demo_tree_env 0 (Suc (Suc (Suc f))) (unmark new_cache_tree) placeholders ''d/a'' 2 0 demo_blobs = Got (new_cache_tree, demo_blobs, 0)"
    by (simp add: at_level_def placeholders_at tracked_fields [simplified] slash_pos_def unmark_def new_cache_tree_def set_down_def flip: numeral_2_eq_2)
  obtain b where b: "write_items 0 demo_blobs (Suc (Suc (Suc f))) (discard_unused_subtrees new_cache_tree) placeholders ''d/a'' 2 0 b0 = Got (Some b, 2)"
    "sb_str b = tree_text [blob_item ''b'']" using placeholder_items [OF b0(2,3)] by blast
  have w: "write_sha1_file demo_tree_env (tree_text [blob_item ''b'']) demo_blobs
      = (demo_blobs(replicate 20 29 \<mapsto> (OBJ_TREE, tree_text [blob_item ''b''])), replicate 20 29, 0)"
    using placeholder_texts by (simp add: write_sha1_file_def has_sha1_file_def demo_tree_env_def demo_blobs_def Let_def del: tree_text_simps)
  have n: "entry_count new_cache_tree < 0" "down (discard_unused_subtrees new_cache_tree) = []"
    by (simp_all add: new_cache_tree_def discard_unused_subtrees_def set_down_def)
  show ?thesis unfolding update_one_invalid [OF n(1) u] write_tree_object_def b0(1) and_then_simps b(1) prod.case option.case b(2) w n(2)
    by simp
qed

lemma placeholders_hide:
  "\<exists>it db. cache_tree_update demo_tree_env 0 20 new_cache_tree placeholders demo_blobs = Got (it, db, 0)
    \<and> entry_count it = 2 \<and> db (ct_sha1 it) = Some (OBJ_TREE, tree_text [])"
proof -
  obtain b0 where b0: "strbuf_init 8192 = Got b0" "sb_str b0 = []" using strbuf_init_ok [of 8192] by auto
  let ?s = "replicate 20 29 :: name"
  define db2 where "db2 = demo_blobs(?s \<mapsto> (OBJ_TREE, tree_text [blob_item ''b'']))"
  let ?it = "Cache_Tree (-1) (replicate 20 0) [Cache_Tree_Sub ''d'' True (Some (Cache_Tree 2 ?s []))]"
  have v: "verify_cache placeholders = 0" by code_simp
  have u: "update_subtrees demo_tree_env 0 (Suc (Suc (Suc (Suc (Suc (Suc f)))))) (unmark new_cache_tree) placeholders [] 0 0 demo_blobs = Got (?it, db2, 0)" for f
  proof -
    have "cache_tree_sub (unmark new_cache_tree) ''d'' = (Cache_Tree (-1) (replicate 20 0) [Cache_Tree_Sub ''d'' False None], 0)" by code_simp
    moreover have "slash_pos ''d/a'' = Some 1" by code_simp
    ultimately have "update_subtrees demo_tree_env 0 (Suc (Suc (Suc (Suc (Suc (Suc f)))))) (unmark new_cache_tree) placeholders [] 0 0 demo_blobs
        = update_subtrees demo_tree_env 0 (Suc (Suc (Suc (Suc (Suc f))))) ?it placeholders [] 0 2 db2"
      unfolding update_subtrees.simps(2) [of _ _ "Suc (Suc (Suc (Suc (Suc f))))"] using placeholder_tree [of "Suc f", folded db2_def]
      by (simp add: at_level_def placeholders_at tracked_fields [simplified] set_sub_tree_def set_down_def Let_def take_Suc flip: numeral_2_eq_2 del: update_subtrees.simps update_one.simps)
    also have "\<dots> = Got (?it, db2, 0)" by (simp add: placeholders_at)
    finally show ?thesis .
  qed
  have d: "discard_unused_subtrees ?it = ?it" by (simp add: discard_unused_subtrees_def set_down_def)
  have w: "write_items 0 db2 (Suc (Suc f)) ?it placeholders [] 0 0 b0 = Got (Some b0, 2)" for f
  proof -
    have "find_subtree ?it ''d'' False = (?it, Some 0)" by code_simp
    then show ?thesis
      by (simp add: write_items.simps at_level_def placeholders_at tracked_fields [simplified] item_at_def slash_pos_def
      db2_def has_sha1_file_def flip: numeral_2_eq_2)
  qed
  have s: "write_sha1_file demo_tree_env [] db2 = (db2(replicate 20 0 \<mapsto> (OBJ_TREE, [])), replicate 20 0, 0)"
    by (simp add: write_sha1_file_def has_sha1_file_def demo_tree_env_def demo_blobs_def db2_def Let_def)
  have n: "entry_count new_cache_tree < 0" "(20 :: nat) = Suc (Suc (Suc (Suc (Suc (Suc (Suc 13))))))" by (simp_all add: new_cache_tree_def)
  have "update_one demo_tree_env 0 (Suc (Suc (Suc (Suc (Suc (Suc (Suc 13))))))) new_cache_tree placeholders [] 0 demo_blobs
      = Got (Cache_Tree 2 (replicate 20 0) (down ?it), db2(replicate 20 0 \<mapsto> (OBJ_TREE, [])), 2)"
    unfolding update_one_invalid [OF n(1) u] d write_tree_object_def b0 w and_then_simps by (simp add: b0 s)
  then have "update_one demo_tree_env 0 20 new_cache_tree placeholders [] 0 demo_blobs
      = Got (Cache_Tree 2 (replicate 20 0) (down ?it), db2(replicate 20 0 \<mapsto> (OBJ_TREE, [])), 2)" unfolding n(2) .
  then show ?thesis unfolding cache_tree_update_def v by simp
qed

text \<open>C38. Two indexes whose trees are not what they should be. A file and a directory of one path that are not
  neighbours pass \<open>verify_cache\<close>, a tree with both is written, and the check of trees accepts it. And when
  the first entry inside a directory is one that is only intended to be added, the directory is left out of the
  tree with all the other entries inside it.\<close>

theorem cache_tree_update_blind_spots:
  "(\<exists>it db. cache_tree_update demo_tree_env 0 100 new_cache_tree [tracked ''a'' 0, tracked ''a-b'' 0, tracked ''a/c'' 0] demo_blobs = Got (it, db, 0)
      \<and> db (ct_sha1 it) = Some (OBJ_TREE, tree_text [blob_item ''a'', blob_item ''a-b'', (0x4000, ''a'', demo_hash (tree_text [blob_item ''c'']))]))
   \<and> fsck_tree stale strict error_func (tree_text [blob_item ''a'', blob_item ''a-b'', (0x4000, ''a'', demo_hash (tree_text [blob_item ''c'']))]) = Got 0
   \<and> (\<exists>it db. cache_tree_update demo_tree_env 0 20 new_cache_tree [tracked ''d/a'' CE_INTENT_TO_ADD, tracked ''d/b'' 0] demo_blobs = Got (it, db, 0)
      \<and> entry_count it = 2 \<and> db (ct_sha1 it) = Some (OBJ_TREE, tree_text []))"
proof (intro conjI)
  let ?items = "[blob_item ''a'', blob_item ''a-b'', (0x4000, ''a'', replicate 20 29)]"
  have h: "demo_hash (tree_text [blob_item ''c'']) = replicate 20 29"
    using blob_item_length [of "''c''"] by (simp add: demo_hash_def demo_tree_env_def)
  have "list_all plain_item ?items" by code_simp
  moreover have "length (tree_text ?items) < 2 ^ 32"
    by (simp add: blob_item_length) (simp add: item_text_eq octal.simps raw_sha1_def)
  moreover have "\<not> somewhere same_names (map shown ?items)" "\<not> somewhere out_of_order (map shown ?items)" by code_simp+
  ultimately show "fsck_tree stale strict error_func (tree_text [blob_item ''a'', blob_item ''a-b'', (0x4000, ''a'', demo_hash (tree_text [blob_item ''c'']))]) = Got 0"
    unfolding h using fsck_tree_eq [of ?items stale strict error_func] by simp
qed (use conflict_written placeholders_hide in \<open>simp_all only: demo_written_def demo_index_def placeholders_def\<close>)

end
