(* ===== verification/Notes.thy ===== *)
theory Notes
  imports Cache_Tree
begin

text \<open>
  \<^verbatim>\<open>notes.c\<close>: the tree of notes in memory, sixteen ways at each level, which is filled from the tree
  objects of the notes as lookups reach them. A pointer to an internal node is the list of the indices that
  lead to it from the root, and \<open>n\<close>, which the C functions hand along with it, is the length of that list; the two
  low bits of a pointer are the constructors of \<open>note_ptr\<close>. Loading a subtree inserts and inserting may load,
  so these functions take fuel, and running out of it is an \<open>Overrun\<close>.
\<close>

subsection \<open>The data\<close>

record leaf_node =
  key_sha1 :: name
  val_sha1 :: name

datatype note_ptr = PTR_NULL | PTR_INTERNAL "note_ptr list" | PTR_NOTE leaf_node | PTR_SUBTREE leaf_node

record non_note =
  nn_path :: string
  nn_mode :: u32
  nn_sha1 :: name

text \<open>The list of non-notes, and the place of the one that was added last.\<close>

record notes_tree =
  nt_root :: "note_ptr list"
  nt_non_notes :: "non_note list"
  nt_prev :: nat
  nt_dirty :: bool

type_synonym notes_state = "notes_tree \<times> odb"

text \<open>The text of a tree behind a name, and the hash and the disk behind \<open>write_sha1_file\<close>.\<close>

record notes_env =
  ne_tree :: "name \<Rightarrow> string option"
  ne_stale :: name_entry
  ne_hash :: "string \<Rightarrow> name"
  ne_write_fails :: "name \<Rightarrow> bool"

definition is_null_sha1 :: "name \<Rightarrow> bool" where
  "is_null_sha1 sha1 = (sha1 = replicate 20 0)"

definition GET_NIBBLE :: "nat \<Rightarrow> name \<Rightarrow> nat" where
  "GET_NIBBLE n sha1 = unat (drop_bit (if even n then 4 else 0) (sha1 ! (n div 2)) AND 0x0f)"

text \<open>\<open>SUBTREE_SHA1_PREFIXCMP\<close> is zero.\<close>

definition subtree_matches :: "name \<Rightarrow> name \<Rightarrow> bool" where
  "subtree_matches key sub = (let p = unat (sub ! 19) in take p key = take p sub)"

text \<open>The pointer at a place of the tree, and storing one there.\<close>

fun ptr_at :: "note_ptr \<Rightarrow> nat list \<Rightarrow> note_ptr" where
  "ptr_at p [] = p"
| "ptr_at (PTR_INTERNAL a) (i # is) = ptr_at (a ! i) is"
| "ptr_at p (i # is) = PTR_NULL"

fun put_at :: "note_ptr \<Rightarrow> nat list \<Rightarrow> note_ptr \<Rightarrow> note_ptr" where
  "put_at p [] q = q"
| "put_at (PTR_INTERNAL a) (i # is) q = PTR_INTERNAL (a[i := put_at (a ! i) is q])"
| "put_at p (i # is) q = p"

definition get_ptr :: "notes_state \<Rightarrow> nat list \<Rightarrow> note_ptr" where
  "get_ptr st at = ptr_at (PTR_INTERNAL (nt_root (fst st))) at"

definition set_ptr :: "nat list \<Rightarrow> note_ptr \<Rightarrow> notes_state \<Rightarrow> notes_state" where
  "set_ptr at p st = (case put_at (PTR_INTERNAL (nt_root (fst st))) at p of
       PTR_INTERNAL a \<Rightarrow> ((fst st)\<lparr>nt_root := a\<rparr>, snd st)
     | _ \<Rightarrow> st)"

definition new_node :: note_ptr where
  "new_node = PTR_INTERNAL (replicate 16 PTR_NULL)"

subsection \<open>Combining two notes\<close>

text \<open>The note kept, the note that comes to it, and the result: the note to keep and a code of error.\<close>

type_synonym combine_notes_fn = "name \<Rightarrow> name \<Rightarrow> odb \<Rightarrow> odb \<times> name \<times> int"

definition write_blob :: "notes_env \<Rightarrow> string \<Rightarrow> odb \<Rightarrow> odb \<times> name \<times> int" where
  "write_blob env buf db =
     (let sha1 = ne_hash env buf in
      if has_sha1_file db sha1 then (db, sha1, 0)
      else if ne_write_fails env sha1 then (db, sha1, -1)
      else (db(sha1 \<mapsto> (OBJ_BLOB, buf)), sha1, 0))"

text \<open>The text of a blob that is there and not empty.\<close>

definition note_text :: "odb \<Rightarrow> name \<Rightarrow> string option" where
  "note_text db sha1 =
     (if is_null_sha1 sha1 then None
      else case db sha1 of Some (ty, msg) \<Rightarrow> (if msg = [] \<or> ty \<noteq> OBJ_BLOB then None else Some msg) | None \<Rightarrow> None)"

definition combine_notes_concatenate :: "notes_env \<Rightarrow> combine_notes_fn" where
  "combine_notes_concatenate env cur new db =
     (case note_text db new of None \<Rightarrow> (db, cur, 0)
      | Some new_msg \<Rightarrow>
          (case note_text db cur of None \<Rightarrow> (db, new, 0)
           | Some cur_msg \<Rightarrow>
               let cur_msg = (if last cur_msg = CHR 0x0A then butlast cur_msg else cur_msg) in
               write_blob env (cur_msg @ [CHR 0x0A, CHR 0x0A] @ new_msg) db))"

definition combine_notes_overwrite :: combine_notes_fn where
  "combine_notes_overwrite cur new db = (db, new, 0)"

definition combine_notes_ignore :: combine_notes_fn where
  "combine_notes_ignore cur new db = (db, cur, 0)"

subsection \<open>Names that are not notes\<close>

text \<open>The bytes a name of hexadecimal digits stands for, padded with zeros, and how many there are.\<close>

fun hex_segment :: "string \<Rightarrow> name option" where
  "hex_segment (a # b # hex) =
     (let val = push_bit 4 (hexval a) OR hexval b in
      if val AND NOT 0xff \<noteq> 0 then None else map_option ((#) (ucast val)) (hex_segment hex))"
| "hex_segment hex = Some []"

definition get_sha1_hex_segment :: "string \<Rightarrow> nat \<Rightarrow> (name \<times> nat) option" where
  "get_sha1_hex_segment hex sha1_len =
     (let len = length hex div 2 in
      if length hex mod 2 \<noteq> 0 \<or> sha1_len < len then None
      else map_option (\<lambda>bytes. (bytes @ replicate (sha1_len - len) 0, len)) (hex_segment hex))"

text \<open>The loop to the last non-note that is not behind the new one.\<close>

function skip_non_notes :: "non_note list \<Rightarrow> string \<Rightarrow> nat \<Rightarrow> nat" where
  "skip_non_notes ns path p =
     (if p + 1 < length ns \<and> strcmp (nn_path (ns ! (p + 1))) path \<le> 0 then skip_non_notes ns path (p + 1) else p)"
  by pat_completeness auto
termination by (relation "measure (\<lambda>(ns, _, p). length ns - p)") auto

declare skip_non_notes.simps [simp del]

definition add_non_note :: "string \<Rightarrow> u32 \<Rightarrow> name \<Rightarrow> notes_tree \<Rightarrow> notes_tree" where
  "add_non_note path mode sha1 t =
     (let n = \<lparr>nn_path = path, nn_mode = mode, nn_sha1 = sha1\<rparr>; ns = nt_non_notes t; p = nt_prev t in
      if ns = [] then t\<lparr>nt_non_notes := [n], nt_prev := 0\<rparr>
      else if \<not> strcmp (nn_path (ns ! p)) path < 0 \<and> 0 < strcmp (nn_path (ns ! 0)) path
      then t\<lparr>nt_non_notes := n # ns, nt_prev := 0\<rparr>
      else let p = skip_non_notes ns path (if strcmp (nn_path (ns ! p)) path < 0 then p else 0) in
        if strcmp (nn_path (ns ! p)) path = 0
        then t\<lparr>nt_non_notes := ns[p := (ns ! p)\<lparr>nn_mode := mode, nn_sha1 := sha1\<rparr>], nt_prev := p\<rparr>
        else t\<lparr>nt_non_notes := take (p + 1) ns @ n # drop (p + 1) ns, nt_prev := p + 1\<rparr>)"

abbreviation (input) PATH_MAX :: nat where "PATH_MAX \<equiv> 4096"

text \<open>The path of a non-note: a slash behind each byte of the prefix of the subtree.\<close>

definition non_note_path :: "leaf_node \<Rightarrow> string \<Rightarrow> string" where
  "non_note_path sub path = concat (map (\<lambda>b. sha1_to_hex [b] @ ''/'') (take (unat (key_sha1 sub ! 19)) (key_sha1 sub))) @ path"

text \<open>What \<open>load_subtree\<close> makes of an entry: a note, a subtree, or nothing of its own.\<close>

definition entry_leaf :: "leaf_node \<Rightarrow> string \<Rightarrow> u32 \<Rightarrow> name \<Rightarrow> note_ptr" where
  "entry_leaf sub path mode sha1 =
     (let prefix_len = unat (key_sha1 sub ! 19) in
      case get_sha1_hex_segment path (20 - prefix_len) of None \<Rightarrow> PTR_NULL
      | Some (bytes, len) \<Rightarrow>
          let key = take prefix_len (key_sha1 sub) @ bytes; len = len + prefix_len in
          if len = 20 then PTR_NOTE \<lparr>key_sha1 = key, val_sha1 = sha1\<rparr>
          else if \<not> S_ISDIR mode \<or> length path \<noteq> 2 then PTR_NULL
          else PTR_SUBTREE \<lparr>key_sha1 = key[19 := of_nat len], val_sha1 = sha1\<rparr>)"

subsection \<open>Search, removal, insertion and loading\<close>

fun leaf_of :: "note_ptr \<Rightarrow> leaf_node" where
  "leaf_of (PTR_NOTE l) = l"
| "leaf_of (PTR_SUBTREE l) = l"
| "leaf_of _ = \<lparr>key_sha1 = [], val_sha1 = []\<rparr>"

text \<open>The subtree that a pointer leads to, if the key may be inside it.\<close>

fun matching_subtree :: "name \<Rightarrow> note_ptr \<Rightarrow> leaf_node option" where
  "matching_subtree key (PTR_SUBTREE l) = (if subtree_matches key (key_sha1 l) then Some l else None)"
| "matching_subtree key _ = None"

text \<open>\<open>None\<close> is giving up; otherwise the pointer to store in the parent.\<close>

definition note_tree_consolidate :: "note_ptr \<Rightarrow> note_ptr option" where
  "note_tree_consolidate node =
     (case node of PTR_INTERNAL a \<Rightarrow>
        (case filter (\<lambda>p. p \<noteq> PTR_NULL) a of [] \<Rightarrow> Some PTR_NULL | [p] \<Rightarrow> Some p | _ \<Rightarrow> None)
      | _ \<Rightarrow> None)"

text \<open>The walk towards the root; the list has the indices from the node upwards.\<close>

fun consolidate_up :: "nat list \<Rightarrow> notes_state \<Rightarrow> notes_state" where
  "consolidate_up [] st = st"
| "consolidate_up (i # up) st =
     (case note_tree_consolidate (get_ptr st (rev (i # up))) of None \<Rightarrow> st
      | Some p \<Rightarrow> consolidate_up up (set_ptr (rev (i # up)) p st))"

text \<open>
  The functions call each other. Each is given first with the others as arguments, and then the knot is tied
  with the fuel. The place a search ends at is the slot of the nibble \<open>n\<close> of the key in the node it returns.
\<close>

type_synonym load_fn = "notes_state \<Rightarrow> leaf_node \<Rightarrow> nat list \<Rightarrow> notes_state read"
type_synonym search_fn = "notes_state \<Rightarrow> nat list \<Rightarrow> name \<Rightarrow> (notes_state \<times> nat list) read"
type_synonym insert_fn = "combine_notes_fn \<Rightarrow> notes_state \<Rightarrow> nat list \<Rightarrow> note_ptr \<Rightarrow> (notes_state \<times> int) read"

definition search_step :: "load_fn \<Rightarrow> search_fn \<Rightarrow> search_fn" where
  "search_step load search st node key =
     (if 2 * length key \<le> length node then Overrun
      else case matching_subtree key (get_ptr st (node @ [0])) of
        Some l \<Rightarrow> and_then (load (set_ptr (node @ [0]) PTR_NULL st) l node) (\<lambda>st. search st node key)
      | None \<Rightarrow>
          let at = node @ [GET_NIBBLE (length node) key]; p = get_ptr st at in
          case p of PTR_INTERNAL _ \<Rightarrow> search st at key
          | _ \<Rightarrow>
            (case matching_subtree key p of
               Some l \<Rightarrow> and_then (load (set_ptr at PTR_NULL st) l node) (\<lambda>st. search st node key)
             | None \<Rightarrow> Got (st, node)))"

text \<open>The stack of the ancestors has room for twenty; the node that the search ends at goes to the place of its depth.\<close>

abbreviation (input) parent_stack :: nat where "parent_stack \<equiv> 20"

definition remove_step :: "search_fn \<Rightarrow> notes_state \<Rightarrow> nat list \<Rightarrow> name \<Rightarrow> (notes_state \<times> name option) read" where
  "remove_step search st node key =
     and_then (search st node key) (\<lambda>(st, node).
       let at = node @ [GET_NIBBLE (length node) key] in
       case get_ptr st at of
         PTR_NOTE l \<Rightarrow>
           if key_sha1 l \<noteq> key then Got (st, None)
           else if parent_stack \<le> length node then Overrun
           else Got (consolidate_up (rev node) (set_ptr at PTR_NULL st), Some (val_sha1 l))
       | _ \<Rightarrow> Got (st, None))"

text \<open>The end of the insertion, below a leaf that does not match: the new node is linked before it is filled, and
  unlinked again if that fails.\<close>

definition insert_below :: "insert_fn \<Rightarrow> insert_fn" where
  "insert_below ins combine st at entry =
     (if is_null_sha1 (val_sha1 (leaf_of entry)) then Got (st, 0)
      else and_then (ins combine (set_ptr at new_node st) at (get_ptr st at)) (\<lambda>(st', ret).
        if ret \<noteq> 0 then Got (set_ptr at (get_ptr st at) st', ret) else ins combine st' at entry))"

text \<open>A note that is there already meets the new one.\<close>

definition combine_step :: "search_fn \<Rightarrow> combine_notes_fn \<Rightarrow> notes_state \<Rightarrow> nat list \<Rightarrow> leaf_node \<Rightarrow> leaf_node \<Rightarrow> (notes_state \<times> int) read" where
  "combine_step search combine st node l e =
     (if val_sha1 l = val_sha1 e then Got (st, 0)
      else case combine (val_sha1 l) (val_sha1 e) (snd st) of (db, v, ret) \<Rightarrow>
        let st = set_ptr (node @ [GET_NIBBLE (length node) (key_sha1 e)]) (PTR_NOTE (l\<lparr>val_sha1 := v\<rparr>)) (fst st, db) in
        if ret = 0 \<and> is_null_sha1 v then and_then (remove_step search st node (key_sha1 e)) (\<lambda>(st, _). Got (st, ret))
        else Got (st, ret))"

definition insert_step :: "load_fn \<Rightarrow> search_fn \<Rightarrow> insert_fn \<Rightarrow> insert_fn" where
  "insert_step load search ins combine st node entry =
     (let e = leaf_of entry in
      and_then (search st node (key_sha1 e)) (\<lambda>(st, node).
        let at = node @ [GET_NIBBLE (length node) (key_sha1 e)] in
        case get_ptr st at of
          PTR_NULL \<Rightarrow> Got (if is_null_sha1 (val_sha1 e) then st else set_ptr at entry st, 0)
        | PTR_INTERNAL _ \<Rightarrow> Bad
        | PTR_NOTE l \<Rightarrow>
            (case entry of
              PTR_NOTE _ \<Rightarrow>
                if key_sha1 l = key_sha1 e then combine_step search combine st node l e
                else insert_below ins combine st at entry
            | _ \<Rightarrow>
                if subtree_matches (key_sha1 l) (key_sha1 e) then and_then (load st e node) (\<lambda>st. Got (st, 0))
                else insert_below ins combine st at entry)
        | PTR_SUBTREE l \<Rightarrow>
            if subtree_matches (key_sha1 e) (key_sha1 l)
            then and_then (load (set_ptr at PTR_NULL st) l node) (\<lambda>st. ins combine st node entry)
            else insert_below ins combine st at entry))"

definition load_step :: "notes_env \<Rightarrow> (notes_state \<Rightarrow> leaf_node \<Rightarrow> tree_desc \<Rightarrow> nat list \<Rightarrow> notes_state read) \<Rightarrow> load_fn" where
  "load_step env load_rest st sub node =
     (case ne_tree env (val_sha1 sub) of None \<Rightarrow> Bad
      | Some buf \<Rightarrow>
          and_then (init_tree_desc (ne_stale env) buf (of_nat (length buf))) (\<lambda>desc.
            if 2 * unat (key_sha1 sub ! 19) < length node then Bad else load_rest st sub desc node))"

definition load_entry :: "notes_env \<Rightarrow> insert_fn \<Rightarrow> notes_state \<Rightarrow> leaf_node \<Rightarrow> name_entry \<Rightarrow> nat list \<Rightarrow> notes_state read" where
  "load_entry env ins st sub entry node =
     (let path = path_at (ne_path entry); sha1 = sha1_at (ne_sha1 entry) in
      case entry_leaf sub path (ne_mode entry) sha1 of
        PTR_NULL \<Rightarrow>
          if PATH_MAX \<le> length (non_note_path sub path) then Overrun
          else Got (add_non_note (non_note_path sub path) (ne_mode entry) sha1 (fst st), snd st)
      | l \<Rightarrow> and_then (ins (combine_notes_concatenate env) st node l) (\<lambda>(st, ret). if ret \<noteq> 0 then Bad else Got st))"

function (sequential) note_tree_search :: "notes_env \<Rightarrow> nat \<Rightarrow> search_fn"
  and note_tree_insert :: "notes_env \<Rightarrow> nat \<Rightarrow> insert_fn"
  and load_subtree :: "notes_env \<Rightarrow> nat \<Rightarrow> load_fn"
  and load_entries :: "notes_env \<Rightarrow> nat \<Rightarrow> notes_state \<Rightarrow> leaf_node \<Rightarrow> tree_desc \<Rightarrow> nat list \<Rightarrow> notes_state read" where
  "note_tree_search env 0 st node key = Overrun"
| "note_tree_search env (Suc fuel) st node key = search_step (load_subtree env fuel) (note_tree_search env fuel) st node key"
| "note_tree_insert env 0 combine st node entry = Overrun"
| "note_tree_insert env (Suc fuel) combine st node entry =
     insert_step (load_subtree env fuel) (note_tree_search env fuel) (note_tree_insert env fuel) combine st node entry"
| "load_subtree env 0 st sub node = Overrun"
| "load_subtree env (Suc fuel) st sub node = load_step env (load_entries env fuel) st sub node"
| "load_entries env 0 st sub desc node = Overrun"
| "load_entries env (Suc fuel) st sub desc node =
     and_then (tree_entry desc) (\<lambda>r. case r of None \<Rightarrow> Got st
       | Some (entry, desc) \<Rightarrow>
           and_then (load_entry env (note_tree_insert env fuel) st sub entry node) (\<lambda>st. load_entries env fuel st sub desc node))"
  by pat_completeness auto
termination
  by (relation "measure (\<lambda>x. case x of Inl (Inl (_, n, _)) \<Rightarrow> n | Inl (Inr (_, n, _)) \<Rightarrow> n
      | Inr (Inl (_, n, _)) \<Rightarrow> n | Inr (Inr (_, n, _)) \<Rightarrow> n)") auto

declare note_tree_search.simps [simp del] note_tree_insert.simps [simp del] load_subtree.simps [simp del] load_entries.simps [simp del]

definition note_tree_remove :: "notes_env \<Rightarrow> nat \<Rightarrow> notes_state \<Rightarrow> nat list \<Rightarrow> name \<Rightarrow> (notes_state \<times> name option) read" where
  "note_tree_remove env fuel = remove_step (note_tree_search env fuel)"

definition note_tree_find :: "notes_env \<Rightarrow> nat \<Rightarrow> notes_state \<Rightarrow> nat list \<Rightarrow> name \<Rightarrow> (notes_state \<times> leaf_node option) read" where
  "note_tree_find env fuel st node key =
     and_then (note_tree_search env fuel st node key) (\<lambda>(st, node).
       Got (st, case get_ptr st (node @ [GET_NIBBLE (length node) key]) of
         PTR_NOTE l \<Rightarrow> (if key_sha1 l = key then Some l else None) | _ \<Rightarrow> None))"

subsection \<open>The operations of \<open>notes.h\<close>\<close>

text \<open>\<open>tree\<close> is the node that the ref of the notes leads to, \<open>None\<close> when there is none or it is not to be read.\<close>

definition init_notes :: "notes_env \<Rightarrow> nat \<Rightarrow> odb \<Rightarrow> name option \<Rightarrow> notes_state read" where
  "init_notes env fuel db node =
     (let st = (\<lparr>nt_root = replicate 16 PTR_NULL, nt_non_notes = [], nt_prev = 0, nt_dirty = False\<rparr>, db) in
      case node of None \<Rightarrow> Got st
      | Some sha1 \<Rightarrow> load_subtree env fuel st \<lparr>key_sha1 = replicate 20 0, val_sha1 = sha1\<rparr> [])"

definition add_note :: "notes_env \<Rightarrow> nat \<Rightarrow> combine_notes_fn \<Rightarrow> name \<Rightarrow> name \<Rightarrow> notes_state \<Rightarrow> (notes_state \<times> int) read" where
  "add_note env fuel combine object_sha1 note_sha1 st =
     note_tree_insert env fuel combine ((fst st)\<lparr>nt_dirty := True\<rparr>, snd st) [] (PTR_NOTE \<lparr>key_sha1 = object_sha1, val_sha1 = note_sha1\<rparr>)"

definition remove_note :: "notes_env \<Rightarrow> nat \<Rightarrow> name \<Rightarrow> notes_state \<Rightarrow> (notes_state \<times> int) read" where
  "remove_note env fuel object_sha1 st =
     and_then (note_tree_remove env fuel st [] object_sha1) (\<lambda>(st, v).
       if is_null_sha1 (case v of None \<Rightarrow> replicate 20 0 | Some v \<Rightarrow> v) then Got (st, 1)
       else Got (((fst st)\<lparr>nt_dirty := True\<rparr>, snd st), 0))"

definition get_note :: "notes_env \<Rightarrow> nat \<Rightarrow> name \<Rightarrow> notes_state \<Rightarrow> (notes_state \<times> name option) read" where
  "get_note env fuel object_sha1 st =
     and_then (note_tree_find env fuel st [] object_sha1) (\<lambda>(st, l). Got (st, map_option val_sha1 l))"

definition copy_note :: "notes_env \<Rightarrow> nat \<Rightarrow> combine_notes_fn \<Rightarrow> name \<Rightarrow> name \<Rightarrow> bool \<Rightarrow> notes_state \<Rightarrow> (notes_state \<times> int) read" where
  "copy_note env fuel combine from_obj to_obj force st =
     and_then (get_note env fuel from_obj st) (\<lambda>(st, note).
     and_then (get_note env fuel to_obj st) (\<lambda>(st, existing_note).
       if \<not> force \<and> existing_note \<noteq> None then Got (st, 1)
       else case note of Some v \<Rightarrow> add_note env fuel combine to_obj v st
       | None \<Rightarrow> (if existing_note \<noteq> None then add_note env fuel combine to_obj (replicate 20 0) st else Got (st, 0))))"

subsection \<open>Visiting all notes\<close>

definition determine_fanout :: "note_ptr \<Rightarrow> nat \<Rightarrow> nat \<Rightarrow> nat" where
  "determine_fanout node n fanout =
     (if odd n \<or> 2 * fanout < n then fanout
      else case node of PTR_INTERNAL a \<Rightarrow>
          (if list_all (\<lambda>p. case p of PTR_SUBTREE _ \<Rightarrow> True | PTR_INTERNAL _ \<Rightarrow> True | _ \<Rightarrow> False) a then fanout + 1 else fanout)
        | _ \<Rightarrow> fanout)"

definition construct_path_with_fanout :: "name \<Rightarrow> nat \<Rightarrow> string" where
  "construct_path_with_fanout sha1 fanout =
     concat (map (\<lambda>b. sha1_to_hex [b] @ ''/'') (take fanout sha1)) @ sha1_to_hex (drop fanout sha1)"

abbreviation (input) FOR_EACH_NOTE_DONT_UNPACK_SUBTREES :: nat where "FOR_EACH_NOTE_DONT_UNPACK_SUBTREES \<equiv> 1"
abbreviation (input) FOR_EACH_NOTE_YIELD_SUBTREES :: nat where "FOR_EACH_NOTE_YIELD_SUBTREES \<equiv> 2"

text \<open>The callback sees the key, the value and the path, and changes data of its own.\<close>

type_synonym 'c each_note_fn = "name \<Rightarrow> name \<Rightarrow> string \<Rightarrow> 'c \<Rightarrow> 'c \<times> int"

definition subtree_path :: "leaf_node \<Rightarrow> nat \<Rightarrow> string" where
  "subtree_path l fanout =
     (let path = take (unat (key_sha1 l ! 19) * 2 + fanout) (construct_path_with_fanout (key_sha1 l) fanout) in
      if last path = CHR ''/'' then path else path @ ''/'')"

text \<open>The loop over the sixteen slots; \<open>ret\<close> is the variable of the C function at the label \<open>redo\<close>.\<close>

function (sequential) for_each_note_helper :: "notes_env \<Rightarrow> nat \<Rightarrow> notes_state \<Rightarrow> nat list \<Rightarrow> nat \<Rightarrow> nat \<Rightarrow> 'c each_note_fn \<Rightarrow> 'c
    \<Rightarrow> (notes_state \<times> 'c \<times> int) read"
  and for_each_slot :: "notes_env \<Rightarrow> nat \<Rightarrow> notes_state \<Rightarrow> nat list \<Rightarrow> nat \<Rightarrow> nat \<Rightarrow> 'c each_note_fn \<Rightarrow> 'c \<Rightarrow> nat \<Rightarrow> int
    \<Rightarrow> (notes_state \<times> 'c \<times> int) read" where
  "for_each_note_helper env 0 st node fanout fl fn cb = Overrun"
| "for_each_note_helper env (Suc fuel) st node fanout fl fn cb =
     for_each_slot env fuel st node (determine_fanout (get_ptr st node) (length node) fanout) fl fn cb 0 0"
| "for_each_slot env 0 st node fanout fl fn cb i ret = Overrun"
| "for_each_slot env (Suc fuel) st node fanout fl fn cb i ret =
     (if 16 \<le> i then Got (st, cb, 0)
      else let at = node @ [i];
          next_slot = (\<lambda>(st, cb, ret). if ret \<noteq> 0 then Got (st, cb, ret) else for_each_slot env fuel st node fanout fl fn cb (i + 1) ret) in
        case get_ptr st at of
          PTR_NULL \<Rightarrow> next_slot (st, cb, ret)
        | PTR_INTERNAL _ \<Rightarrow> and_then (for_each_note_helper env fuel st at fanout fl fn cb) next_slot
        | PTR_NOTE l \<Rightarrow> next_slot (st, fn (key_sha1 l) (val_sha1 l) (construct_path_with_fanout (key_sha1 l) fanout) cb)
        | PTR_SUBTREE l \<Rightarrow>
            (case (if length node \<le> 2 * fanout \<and> fl AND FOR_EACH_NOTE_YIELD_SUBTREES \<noteq> 0
                then fn (key_sha1 l) (val_sha1 l) (subtree_path l fanout) cb else (cb, ret)) of (cb, ret) \<Rightarrow>
              if 2 * fanout < length node \<or> fl AND FOR_EACH_NOTE_DONT_UNPACK_SUBTREES = 0
              then and_then (load_subtree env fuel (set_ptr at PTR_NULL st) l node) (\<lambda>st.
                for_each_slot env fuel st node fanout fl fn cb i ret)
              else next_slot (st, cb, ret)))"
  by pat_completeness auto
termination
  by (relation "measure (\<lambda>x. case x of Inl (_, n, _) \<Rightarrow> n | Inr (_, n, _) \<Rightarrow> n)") auto

declare for_each_note_helper.simps [simp del] for_each_slot.simps [simp del]

definition for_each_note :: "notes_env \<Rightarrow> nat \<Rightarrow> nat \<Rightarrow> 'c each_note_fn \<Rightarrow> 'c \<Rightarrow> notes_state \<Rightarrow> (notes_state \<times> 'c \<times> int) read" where
  "for_each_note env fuel fl fn cb st = for_each_note_helper env fuel st [] 0 fl fn cb"

text \<open>The notes of objects that are gone are removed, the last one found first.\<close>

fun remove_notes :: "notes_env \<Rightarrow> nat \<Rightarrow> name list \<Rightarrow> notes_state \<Rightarrow> notes_state read" where
  "remove_notes env fuel [] st = Got st"
| "remove_notes env fuel (key # keys) st = and_then (remove_note env fuel key st) (\<lambda>(st, _). remove_notes env fuel keys st)"

definition prune_notes :: "notes_env \<Rightarrow> nat \<Rightarrow> bool \<Rightarrow> notes_state \<Rightarrow> notes_state read" where
  "prune_notes env fuel dry_run st =
     and_then (for_each_note env fuel 0 (\<lambda>object_sha1 note_sha1 path l.
         (if has_sha1_file (snd st) object_sha1 then l else object_sha1 # l, 0)) [] st) (\<lambda>(st, l, ret).
       if dry_run then Got st else remove_notes env fuel l st)"

end
