(* ===== verification/Notes_Map.thy ===== *)
theory Notes_Map
  imports Notes "HOL-Library.Sublist"
begin

text \<open>
  The tree of notes as a map. Each leaf covers the keys that begin with its nibbles: a note covers one key, a
  subtree those of its prefix. \<open>placed\<close> is the invariant: every leaf stands on the path of its cover.
  The notes of a tree are those of its leaves, in memory or still in tree objects; lookup and insertion
  are shown to be those of this map, however much has been loaded, and the effect of removal is stated
  with the condition under which it is right.
\<close>

subsection \<open>Nibbles\<close>

definition nibbles :: "name \<Rightarrow> nat list" where
  "nibbles key = concat (map (\<lambda>b. [unat (drop_bit 4 b), unat (b AND 0x0f)]) key)"

lemma nibbles_simps [simp]: "nibbles [] = []" "nibbles (b # key) = unat (drop_bit 4 b) # unat (b AND 0x0f) # nibbles key"
  "nibbles (xs @ ys) = nibbles xs @ nibbles ys" "length (nibbles key) = 2 * length key"
  by (simp_all add: nibbles_def length_concat o_def sum_list_triv)

lemma nibble_less: "unat (b AND 0x0f :: byte) < 16" "unat (drop_bit 4 b :: byte) < 16"
proof -
  have "(0x0f :: byte) = mask 4" by (simp add: mask_eq_exp_minus_1)
  then show "unat (b AND 0x0f :: byte) < 16" by (simp only: unat_and_mask) simp
  show "unat (drop_bit 4 b :: byte) < 16" using byte_bound [of b] by (simp only: unat_drop_bit) simp
qed

lemma drop_4_and: "drop_bit 4 b AND 0x0f = (drop_bit 4 b :: byte)"
proof -
  have m: "(0x0f :: byte) = mask 4" by (simp add: mask_eq_exp_minus_1)
  have "unat (drop_bit 4 b AND mask 4 :: byte) = unat (drop_bit 4 b :: byte)"
    using nibble_less(2) [of b] unfolding unat_and_mask by simp
  then show ?thesis unfolding m by (rule word_unat_eq_iff [THEN iffD2])
qed

lemma GET_NIBBLE_nth: "n < 2 * length key \<Longrightarrow> GET_NIBBLE n key = nibbles key ! n"
proof (induction key arbitrary: n)
  case (Cons b key)
  consider "n = 0" | "n = 1" | m where "n = Suc (Suc m)" by (metis One_nat_def old.nat.exhaust)
  then show ?case
  proof cases
    case (3 m)
    then show ?thesis using Cons.IH [of m] Cons.prems by (simp add: GET_NIBBLE_def)
  qed (simp_all add: GET_NIBBLE_def drop_4_and)
qed simp

lemma nibbles_less: "i \<in> set (nibbles key) \<Longrightarrow> i < 16"
  by (auto simp: nibbles_def nibble_less)

lemma byte_of_nibbles: "unat (drop_bit 4 a) = unat (drop_bit 4 b) \<Longrightarrow> unat (a AND 0x0f) = unat (b AND 0x0f) \<Longrightarrow> a = (b :: byte)"
proof -
  assume h: "unat (drop_bit 4 a) = unat (drop_bit 4 b)" "unat (a AND 0x0f) = unat (b AND 0x0f)"
  have m: "(0x0f :: byte) = mask 4" by (simp add: mask_eq_exp_minus_1)
  have "unat a div 16 = unat b div 16" "unat a mod 16 = unat b mod 16"
    using h unfolding m unat_and_mask unat_drop_bit by simp_all
  then have "unat a = unat b" by (metis mult_div_mod_eq)
  then show ?thesis by (rule word_unat_eq_iff [THEN iffD2])
qed

lemma nibbles_prefix: "prefix (nibbles xs) (nibbles ys) \<longleftrightarrow> prefix xs ys"
proof (induction xs arbitrary: ys)
  case (Cons x xs)
  then show ?case by (cases ys) (auto dest: byte_of_nibbles)
qed simp

lemma nibbles_eq: "nibbles xs = nibbles ys \<longleftrightarrow> xs = ys"
  using nibbles_prefix [of xs ys] nibbles_prefix [of ys xs] by (metis prefix_order.antisym prefix_order.refl)

subsection \<open>Covers\<close>

fun cover :: "note_ptr \<Rightarrow> nat list" where
  "cover (PTR_NOTE l) = nibbles (key_sha1 l)"
| "cover (PTR_SUBTREE l) = nibbles (take (unat (key_sha1 l ! 19)) (key_sha1 l))"
| "cover _ = []"

fun leaf_ok :: "note_ptr \<Rightarrow> bool" where
  "leaf_ok (PTR_NOTE l) \<longleftrightarrow> length (key_sha1 l) = 20 \<and> \<not> is_null_sha1 (val_sha1 l)"
| "leaf_ok (PTR_SUBTREE l) \<longleftrightarrow> length (key_sha1 l) = 20 \<and> unat (key_sha1 l ! 19) < 20 \<and> \<not> is_null_sha1 (val_sha1 l)"
| "leaf_ok _ \<longleftrightarrow> False"

lemma leaf_ok_cases: "leaf_ok p \<Longrightarrow> (\<And>l. p = PTR_NOTE l \<Longrightarrow> P) \<Longrightarrow> (\<And>l. p = PTR_SUBTREE l \<Longrightarrow> P) \<Longrightarrow> P"
  by (cases p) auto

lemma leaf_ok_key: "leaf_ok p \<Longrightarrow> length (key_sha1 (leaf_of p)) = 20 \<and> \<not> is_null_sha1 (val_sha1 (leaf_of p))"
  by (cases p) auto

lemma cover_key: "prefix (cover p) (nibbles (key_sha1 (leaf_of p)))"
  by (cases p) (simp_all add: nibbles_prefix take_is_prefix)

lemma cover_le: "leaf_ok p \<Longrightarrow> length (cover p) \<le> 40"
  by (cases p) auto

lemma matches_cover:
  assumes "length key = 20" "leaf_ok (PTR_SUBTREE l)"
  shows "subtree_matches key (key_sha1 l) \<longleftrightarrow> prefix (cover (PTR_SUBTREE l)) (nibbles key)"
proof -
  have "length (take (unat (key_sha1 l ! 19)) (key_sha1 l)) = unat (key_sha1 l ! 19)" using assms(2) by simp
  then show ?thesis unfolding subtree_matches_def Let_def cover.simps nibbles_prefix
    by (metis append_eq_conv_conj prefix_def)
qed

definition apart :: "nat list \<Rightarrow> nat list \<Rightarrow> bool" where
  "apart c d \<longleftrightarrow> \<not> prefix c d \<and> \<not> prefix d c"

lemma apart_sym: "apart c d \<longleftrightarrow> apart d c"
  by (auto simp: apart_def)

lemma prefix_both: "prefix c e \<Longrightarrow> prefix d e \<Longrightarrow> \<not> apart c d"
  using prefix_same_cases by (auto simp: apart_def)

subsection \<open>Places in the tree\<close>

fun leaves_of :: "note_ptr \<Rightarrow> note_ptr set" where
  "leaves_of PTR_NULL = {}"
| "leaves_of (PTR_INTERNAL a) = (\<Union>p \<in> set a. leaves_of p)"
| "leaves_of p = {p}"

lemma leaves_leaf: "leaf_ok p \<Longrightarrow> leaves_of p = {p}"
  by (cases p) auto

inductive placed :: "nat list \<Rightarrow> note_ptr \<Rightarrow> bool" where
  placed_null: "placed at PTR_NULL"
| placed_leaf: "leaf_ok p \<Longrightarrow> prefix at (cover p) \<Longrightarrow> placed at p"
| placed_node: "length a = 16 \<Longrightarrow> length at < 40 \<Longrightarrow> (\<And>i. i < 16 \<Longrightarrow> placed (at @ [i]) (a ! i))
    \<Longrightarrow> leaves_of (PTR_INTERNAL a) \<noteq> {} \<Longrightarrow> placed at (PTR_INTERNAL a)"

inductive_cases placed_nodeE: "placed at (PTR_INTERNAL a)"
inductive_cases placed_noteE: "placed at (PTR_NOTE l)"
inductive_cases placed_subtreeE: "placed at (PTR_SUBTREE l)"

definition node_ok :: "nat list \<Rightarrow> note_ptr list \<Rightarrow> bool" where
  "node_ok at a \<longleftrightarrow> length a = 16 \<and> length at < 40 \<and> (\<forall>i < 16. placed (at @ [i]) (a ! i))"

lemma placed_node_ok: "placed at (PTR_INTERNAL a) \<longleftrightarrow> node_ok at a \<and> leaves_of (PTR_INTERNAL a) \<noteq> {}"
  by (auto simp: node_ok_def elim!: placed_nodeE intro!: placed_node)

lemma node_ok_update: "node_ok at a \<Longrightarrow> placed (at @ [i]) p \<Longrightarrow> node_ok at (a[i := p])"
  unfolding node_ok_def by (metis length_list_update nth_list_update_eq nth_list_update_neq)

lemma placed_leaves: "placed at p \<Longrightarrow> x \<in> leaves_of p \<Longrightarrow> leaf_ok x \<and> prefix at (cover x)"
proof (induction rule: placed.induct)
  case (placed_leaf p at)
  then show ?case by (cases p) auto
next
  case (placed_node a at)
  then obtain i where "i < 16" "x \<in> leaves_of (a ! i)" by (auto simp: in_set_conv_nth)
  then show ?case using placed_node.IH [of i] by (auto dest: append_prefixD)
qed simp

text \<open>A path that stays inside internal nodes.\<close>

fun inside :: "note_ptr \<Rightarrow> nat list \<Rightarrow> bool" where
  "inside p [] \<longleftrightarrow> True"
| "inside (PTR_INTERNAL a) (i # is) \<longleftrightarrow> i < length a \<and> inside (a ! i) is"
| "inside p (i # is) \<longleftrightarrow> False"

lemma ptr_at_null: "ptr_at PTR_NULL ys = PTR_NULL"
  by (cases ys) simp_all

lemma ptr_at_append: "ptr_at p (xs @ ys) = ptr_at (ptr_at p xs) ys"
  by (induction p xs rule: ptr_at.induct) (simp_all add: ptr_at_null)

lemma put_at_append: "put_at p (xs @ ys) q = put_at p xs (put_at (ptr_at p xs) ys q)"
  by (induction p xs arbitrary: rule: ptr_at.induct) simp_all

lemma inside_append: "inside p (xs @ ys) \<longleftrightarrow> inside p xs \<and> inside (ptr_at p xs) ys"
  by (induction p xs rule: ptr_at.induct) simp_all

lemma ptr_at_put: "inside p xs \<Longrightarrow> ptr_at (put_at p xs q) xs = q"
  by (induction p xs rule: ptr_at.induct) simp_all

lemma inside_put: "inside p xs \<Longrightarrow> inside (put_at p xs q) xs"
  by (induction p xs rule: ptr_at.induct) simp_all

lemma put_at_put: "put_at (put_at p xs q) xs r = put_at p xs r"
proof (induction p xs rule: ptr_at.induct)
  case (2 a i "is")
  then show ?case by (cases "i < length a") (simp_all add: list_update_beyond)
qed simp_all

lemma put_at_same: "put_at p xs (ptr_at p xs) = p"
  by (induction p xs rule: ptr_at.induct) (simp_all)

lemma placed_at: "placed at p \<Longrightarrow> inside p xs \<Longrightarrow> placed (at @ xs) (ptr_at p xs)"
proof (induction p xs arbitrary: at rule: ptr_at.induct)
  case (2 a i "is")
  then have "node_ok at a" by (simp add: placed_node_ok)
  then have "placed (at @ [i]) (a ! i)" using 2(3) by (simp add: node_ok_def)
  then show ?case using 2 by fastforce
qed auto

lemma leaves_at: "inside p xs \<Longrightarrow> leaves_of (ptr_at p xs) \<subseteq> leaves_of p"
proof (induction p xs rule: ptr_at.induct)
  case (2 a i "is")
  then have "leaves_of (ptr_at (a ! i) is) \<subseteq> leaves_of (a ! i)" by simp
  also have "\<dots> \<subseteq> leaves_of (PTR_INTERNAL a)" using 2(2) by fastforce
  finally show ?case by simp
qed auto

lemma leaves_slots: "leaves_of (PTR_INTERNAL a) = (\<Union>i < length a. leaves_of (a ! i))"
  by (force simp: in_set_conv_nth)

lemma leaves_update:
  assumes "length a = 16" "i < 16"
  shows "leaves_of (PTR_INTERNAL (a[i := p])) = (\<Union>j \<in> {..<16} - {i}. leaves_of (a ! j)) \<union> leaves_of p"
proof -
  have s: "{..<16} = insert i ({..<16} - {i})" using assms(2) by blast
  have "(\<Union>j \<in> {..<16} - {i}. leaves_of (a[i := p] ! j)) = (\<Union>j \<in> {..<16} - {i}. leaves_of (a ! j))"
    by (intro SUP_cong refl) simp
  moreover have "leaves_of (PTR_INTERNAL (a[i := p])) = (\<Union>j < 16. leaves_of (a[i := p] ! j))"
    unfolding leaves_slots using assms(1) by simp
  moreover have "(\<Union>j < 16. leaves_of (a[i := p] ! j)) = leaves_of (a[i := p] ! i) \<union> (\<Union>j \<in> {..<16} - {i}. leaves_of (a[i := p] ! j))"
    by (subst s) (simp only: UN_insert)
  moreover have "a[i := p] ! i = p" using assms by simp
  ultimately show ?thesis by (simp only: Un_commute)
qed

lemma slots_apart:
  assumes "node_ok at a" "i < 16" "j < 16" "i \<noteq> j" "x \<in> leaves_of (a ! i)"
  shows "x \<notin> leaves_of (a ! j)"
proof
  assume "x \<in> leaves_of (a ! j)"
  then have "prefix (at @ [i]) (cover x)" "prefix (at @ [j]) (cover x)"
    using assms placed_leaves by (auto simp: node_ok_def)
  then show False using assms(4) by (auto simp: prefix_def)
qed

lemma leaves_put:
  assumes "placed at p" "inside p xs"
  shows "leaves_of (put_at p xs q) = (leaves_of p - leaves_of (ptr_at p xs)) \<union> leaves_of q"
  using assms
proof (induction p xs arbitrary: at rule: ptr_at.induct)
  case (2 a i "is")
  have ok: "node_ok at a" using 2(2) by (simp add: placed_node_ok)
  then have l: "length a = 16" and i: "i < 16" "inside (a ! i) is" and pi: "placed (at @ [i]) (a ! i)" using 2(3) by (simp_all add: node_ok_def)
  note IH = 2(1) [OF pi i(2)]
  have sub: "leaves_of (ptr_at (a ! i) is) \<subseteq> leaves_of (a ! i)" by (rule leaves_at [OF i(2)])
  note up = leaves_update [OF l i(1)]
  have "leaves_of (PTR_INTERNAL a) = (\<Union>j \<in> {..<16} - {i}. leaves_of (a ! j)) \<union> leaves_of (a ! i)"
    using up [of "a ! i"] by (simp only: list_update_id)
  moreover have "(\<Union>j \<in> {..<16} - {i}. leaves_of (a ! j)) \<inter> leaves_of (a ! i) = {}" using slots_apart [OF ok i(1)] by blast
  ultimately show ?case unfolding put_at.simps ptr_at.simps up IH using sub by blast
qed simp_all

lemma placed_put: "placed at p \<Longrightarrow> placed (at @ xs) q \<Longrightarrow> leaves_of q \<noteq> {} \<Longrightarrow> placed at (put_at p xs q)"
proof (induction p xs arbitrary: at rule: ptr_at.induct)
  case (2 a i "is")
  have ok: "node_ok at a" using 2(2) by (simp add: placed_node_ok)
  show ?case
  proof (cases "i < 16 \<and> inside (a ! i) is")
    case True
    then have pi: "placed (at @ [i]) (a ! i)" using ok by (simp add: node_ok_def)
    then have IH: "placed (at @ [i]) (put_at (a ! i) is q)" using 2(1) [of "at @ [i]"] 2(3,4) by simp
    have "leaves_of (put_at (a ! i) is q) \<noteq> {}" using leaves_put [OF pi] True 2(4) by simp
    moreover have "put_at (a ! i) is q \<in> set (a[i := put_at (a ! i) is q])"
      using True ok by (intro set_update_memI) (simp add: node_ok_def)
    ultimately have "leaves_of (PTR_INTERNAL (a[i := put_at (a ! i) is q])) \<noteq> {}" unfolding leaves_of.simps by blast
    moreover have "node_ok at (a[i := put_at (a ! i) is q])" by (rule node_ok_update [OF ok IH])
    ultimately show ?thesis by (simp only: put_at.simps placed_node_ok simp_thms)
  next
    case False
    have "put_at p is q = p" if "\<not> inside p is" for p
      using that by (induction p "is" rule: ptr_at.induct) (auto simp: list_update_beyond)
    then have "a[i := put_at (a ! i) is q] = a"
      using False ok by (cases "i < 16") (auto simp: node_ok_def list_update_beyond)
    then show ?thesis using 2(2) by simp
  qed
qed simp_all

subsection \<open>States\<close>

definition root_ptr :: "notes_state \<Rightarrow> note_ptr" where
  "root_ptr st = PTR_INTERNAL (nt_root (fst st))"

lemma get_ptr_root: "get_ptr st at = ptr_at (root_ptr st) at"
  by (simp add: get_ptr_def root_ptr_def)

lemma set_ptr_eq:
  assumes "at \<noteq> []"
  obtains a where "put_at (root_ptr st) at p = PTR_INTERNAL a" "set_ptr at p st = ((fst st)\<lparr>nt_root := a\<rparr>, snd st)"
  using assms by (cases at) (simp_all add: set_ptr_def root_ptr_def)

lemma set_ptr_root:
  assumes "at \<noteq> []"
  shows "root_ptr (set_ptr at p st) = put_at (root_ptr st) at p" "snd (set_ptr at p st) = snd st"
  by (rule set_ptr_eq [OF assms, of st p]; simp add: root_ptr_def)+

lemma set_ptr_fields: "at \<noteq> [] \<Longrightarrow> set_ptr at p st = ((fst st)\<lparr>nt_root := nt_root (fst (set_ptr at p st))\<rparr>, snd st)"
  by (rule set_ptr_eq [of at st p]) simp_all

lemma get_set_ptr: "at \<noteq> [] \<Longrightarrow> inside (root_ptr st) at \<Longrightarrow> get_ptr (set_ptr at p st) at = p"
  by (simp add: get_ptr_root set_ptr_root ptr_at_put)

lemma state_eq:
  assumes "at \<noteq> []" "bt \<noteq> []" "put_at (root_ptr st) at p = put_at (root_ptr st') bt q" "(fst st)\<lparr>nt_root := []\<rparr> = (fst st')\<lparr>nt_root := []\<rparr>" "snd st = snd st'"
  shows "set_ptr at p st = set_ptr bt q st'"
proof -
  have r: "nt_root (fst (set_ptr at p st)) = nt_root (fst (set_ptr bt q st'))"
  proof -
    have "root_ptr (set_ptr at p st) = root_ptr (set_ptr bt q st')"
      unfolding set_ptr_root(1) [OF assms(1)] set_ptr_root(1) [OF assms(2)] by (rule assms(3))
    then show ?thesis by (simp add: root_ptr_def)
  qed
  have "(fst st)\<lparr>nt_root := a\<rparr> = (fst st')\<lparr>nt_root := a\<rparr>" for a
    using arg_cong [OF assms(4), of "nt_root_update (\<lambda>_. a)"] by simp
  then show ?thesis using r assms(5) set_ptr_fields [OF assms(1), of p st] set_ptr_fields [OF assms(2), of q st'] by metis
qed

lemma other_fields: "at \<noteq> [] \<Longrightarrow> (fst (set_ptr at p st))\<lparr>nt_root := []\<rparr> = (fst st)\<lparr>nt_root := []\<rparr>"
  by (rule set_ptr_eq [of at st p]) simp_all

lemma set_ptr_below:
  assumes "at \<noteq> []" "inside (root_ptr st) at"
  shows "set_ptr (at @ r) p (set_ptr at q st) = set_ptr at (put_at q r p) st"
proof (rule state_eq)
  show "put_at (root_ptr (set_ptr at q st)) (at @ r) p = put_at (root_ptr st) at (put_at q r p)"
    unfolding set_ptr_root(1) [OF assms(1)] put_at_append ptr_at_put [OF assms(2)] put_at_put ..
qed (use assms other_fields set_ptr_root in simp_all)

lemma set_ptr_twice: "at \<noteq> [] \<Longrightarrow> inside (root_ptr st) at \<Longrightarrow> set_ptr at p (set_ptr at q st) = set_ptr at p st"
  using set_ptr_below [of at st "[]"] by simp

lemma set_ptr_up:
  assumes "at \<noteq> []"
  shows "set_ptr (at @ r) p st = set_ptr at (put_at (get_ptr st at) r p) st"
  using assms by (intro state_eq) (simp_all add: put_at_append get_ptr_root)

text \<open>A slot of a node where the search may begin: it and the first slot are in order.\<close>

definition slot_ready :: "notes_state \<Rightarrow> nat list \<Rightarrow> nat \<Rightarrow> bool" where
  "slot_ready st nd i \<longleftrightarrow> length nd < 40 \<and> inside (root_ptr st) (nd @ [i]) \<and> inside (root_ptr st) (nd @ [0])
     \<and> placed (nd @ [i]) (get_ptr st (nd @ [i])) \<and> placed (nd @ [0]) (get_ptr st (nd @ [0]))"

lemma get_ptr_next: "get_ptr st at = PTR_INTERNAL a \<Longrightarrow> get_ptr st (at @ [j]) = a ! j"
  by (simp add: get_ptr_root ptr_at_append)

lemma slot_ready_down:
  assumes "inside (root_ptr st) at" "get_ptr st at = PTR_INTERNAL a" "node_ok at a" "j < 16"
  shows "slot_ready st at j"
  using assms unfolding slot_ready_def node_ok_def get_ptr_root by (simp add: inside_append ptr_at_append)

lemma next_nibble:
  assumes "length key = 20" "prefix c (nibbles key)" "prefix (nd @ [i]) c"
  shows "GET_NIBBLE (length nd) key = i" "i < 16" "length nd < 40"
proof -
  have p: "prefix (nd @ [i]) (nibbles key)" using assms(2,3) prefix_order.trans by blast
  then have "length (nd @ [i]) \<le> length (nibbles key)" by (rule prefix_length_le)
  then show l: "length nd < 40" using assms(1) by simp
  have "nibbles key ! length nd = i" using p by (auto simp: prefix_def)
  then show "GET_NIBBLE (length nd) key = i" using GET_NIBBLE_nth [of "length nd" key] l assms(1) by simp
  have "i \<in> set (nibbles key)" using p by (auto simp: prefix_def)
  then show "i < 16" by (rule nibbles_less)
qed

definition no_match :: "name \<Rightarrow> note_ptr \<Rightarrow> bool" where
  "no_match key q \<longleftrightarrow> (\<forall>l. PTR_SUBTREE l \<in> leaves_of q \<longrightarrow> \<not> prefix (cover (PTR_SUBTREE l)) (nibbles key))"

text \<open>The search for a key that begins with \<open>c\<close> stays above \<open>c\<close>.\<close>

definition above :: "nat list \<Rightarrow> note_ptr \<Rightarrow> bool" where
  "above c q \<longleftrightarrow> length c = 40 \<or> (\<forall>x \<in> leaves_of q. \<not> prefix c (cover x))"

lemma no_matching:
  assumes "length key = 20" "placed (nd @ [j]) p" "prefix (nd @ [i]) (nibbles key)" "j = i \<Longrightarrow> no_match key p"
  shows "matching_subtree key p = None"
proof (cases p)
  case (PTR_SUBTREE l)
  have l: "leaf_ok p" "prefix (nd @ [j]) (cover p)" using placed_leaves [OF assms(2), of p] by (simp_all add: PTR_SUBTREE)
  have "\<not> prefix (cover p) (nibbles key)"
  proof
    assume m: "prefix (cover p) (nibbles key)"
    then have "prefix (nd @ [j]) (nibbles key)" using l(2) prefix_order.trans by blast
    then have "j = i" using assms(3) by (auto simp: prefix_def)
    then show False using assms(4) m by (simp add: no_match_def PTR_SUBTREE)
  qed
  then show ?thesis using matches_cover [OF assms(1), of l] l(1) by (simp add: PTR_SUBTREE)
qed simp_all

lemma search_stops:
  assumes key: "length key = 20" and c: "prefix c (nibbles key)"
  shows "prefix (nd @ [i]) c \<Longrightarrow> slot_ready st nd i \<Longrightarrow> no_match key (get_ptr st (nd @ [i])) \<Longrightarrow> above c (get_ptr st (nd @ [i]))
    \<Longrightarrow> \<exists>nd' j rest N. (\<forall>fuel \<ge> N. note_tree_search env fuel st nd key = Got (st, nd')) \<and> nd' @ [j] = nd @ i # rest
      \<and> prefix (nd' @ [j]) c \<and> slot_ready st nd' j \<and> (\<forall>a. get_ptr st (nd' @ [j]) \<noteq> PTR_INTERNAL a)"
proof (induction "40 - length nd" arbitrary: nd i rule: less_induct)
  case less
  let ?at = "nd @ [i]"
  note n = next_nibble [OF key c less(2)]
  have pk: "prefix ?at (nibbles key)" using less(2) c prefix_order.trans by blast
  have r: "placed ?at (get_ptr st ?at)" "placed (nd @ [0]) (get_ptr st (nd @ [0]))" "inside (root_ptr st) ?at"
    using less(3) by (simp_all add: slot_ready_def)
  have m0: "matching_subtree key (get_ptr st (nd @ [0])) = None"
    using no_matching [OF key r(2) pk] less(4) by blast
  have mi: "matching_subtree key (get_ptr st ?at) = None" using no_matching [OF key r(1) pk] less(4) by blast
  have step: "note_tree_search env (Suc f) st nd key = (case get_ptr st ?at of
      PTR_INTERNAL a \<Rightarrow> note_tree_search env f st ?at key | _ \<Rightarrow> Got (st, nd))" for f
    unfolding note_tree_search.simps search_step_def Let_def m0 n(1) mi using n(3) key by (simp split: note_ptr.split)
  show ?case
  proof (cases "\<exists>a. get_ptr st ?at = PTR_INTERNAL a")
    case False
    then have "note_tree_search env (Suc f) st nd key = Got (st, nd)" for f unfolding step by (simp split: note_ptr.split)
    then have "\<forall>fuel \<ge> 1. note_tree_search env fuel st nd key = Got (st, nd)" by (metis Suc_le_D One_nat_def)
    then show ?thesis using less(2,3) False
      by (intro exI [where x = nd], intro exI [where x = i], intro exI [where x = "[]"], intro exI [where x = 1]) simp
  next
    case True
    then obtain a where a: "get_ptr st ?at = PTR_INTERNAL a" by blast
    then have ok: "node_ok ?at a" "leaves_of (PTR_INTERNAL a) \<noteq> {}" using r(1) placed_node_ok by simp_all
    then obtain x where x: "x \<in> leaves_of (PTR_INTERNAL a)" "prefix ?at (cover x)" using placed_leaves [OF r(1)] a by auto
    have "?at \<noteq> c"
    proof
      assume "?at = c"
      then have "length c \<noteq> 40" "prefix c (cover x)" using ok(1) x(2) by (auto simp: node_ok_def)
      then show False using less(5) x(1) a by (auto simp: above_def)
    qed
    then obtain j rest where "c = ?at @ j # rest" using less(2) by (metis append_Nil2 neq_Nil_conv prefixE)
    then have j: "prefix (?at @ [j]) c" by simp
    have j16: "j < 16" by (rule next_nibble(2) [OF key c j])
    have rj: "slot_ready st ?at j" by (rule slot_ready_down [OF r(3) a ok(1) j16])
    have "leaves_of (get_ptr st (?at @ [j])) \<subseteq> leaves_of (PTR_INTERNAL a)"
      using j16 ok(1) unfolding get_ptr_next [OF a] node_ok_def by fastforce
    then have sub: "no_match key (get_ptr st (?at @ [j]))" "above c (get_ptr st (?at @ [j]))"
      using less(4,5) a unfolding no_match_def above_def by auto
    have lt: "40 - length ?at < 40 - length nd" using n(3) by simp
    obtain nd' j' rest' N where nd': "\<forall>fuel \<ge> N. note_tree_search env fuel st ?at key = Got (st, nd')"
      "nd' @ [j'] = ?at @ j # rest'" "prefix (nd' @ [j']) c" "slot_ready st nd' j'" "\<forall>a. get_ptr st (nd' @ [j']) \<noteq> PTR_INTERNAL a"
      using less(1) [OF lt j rj sub] by blast
    have "note_tree_search env fuel st nd key = Got (st, nd')" if "Suc N \<le> fuel" for fuel
      using that step nd'(1) a by (cases fuel) auto
    then show ?thesis using nd'(2-5) 
      by (intro exI [where x = nd'], intro exI [where x = j'], intro exI [where x = "j # rest'"], intro exI [where x = "Suc N"]) simp
  qed
qed

subsection \<open>Inserting a leaf that covers new keys\<close>

lemma fresh_search:
  assumes "leaf_ok e" "\<forall>x \<in> leaves_of q. apart (cover x) (cover e)"
  shows "no_match (key_sha1 (leaf_of e)) q" "above (cover e) q"
proof -
  show "no_match (key_sha1 (leaf_of e)) q" unfolding no_match_def
  proof (intro allI impI notI)
    fix l
    assume "PTR_SUBTREE l \<in> leaves_of q" "prefix (cover (PTR_SUBTREE l)) (nibbles (key_sha1 (leaf_of e)))"
    then show False using assms(2) prefix_both cover_key [of e] by blast
  qed
  show "above (cover e) q" using assms(2) by (auto simp: above_def apart_def)
qed

text \<open>Where the place of an apart leaf is taken by another leaf, the insertion goes on below.\<close>

lemma insert_step_below:
  assumes x: "get_ptr st (nd @ [GET_NIBBLE (length nd) (key_sha1 (leaf_of e))]) = x"
    and ok: "leaf_ok x" "leaf_ok e" and apart: "apart (cover x) (cover e)"
    and s: "search st0 nd0 (key_sha1 (leaf_of e)) = Got (st, nd)"
  shows "insert_step load search ins combine st0 nd0 e
    = insert_below ins combine st (nd @ [GET_NIBBLE (length nd) (key_sha1 (leaf_of e))]) e"
proof (cases x)
  case (PTR_NOTE l)
  have len: "length (key_sha1 l) = 20" using ok(1) by (simp add: PTR_NOTE)
  show ?thesis
  proof (cases e)
    case e: (PTR_NOTE k)
    have "key_sha1 l \<noteq> key_sha1 k" using apart by (auto simp: PTR_NOTE e apart_def)
    then show ?thesis using x s by (simp add: insert_step_def Let_def e PTR_NOTE)
  next
    case e: (PTR_SUBTREE k)
    have "\<not> subtree_matches (key_sha1 l) (key_sha1 k)"
      using matches_cover [OF len, of k] ok(2) apart by (simp add: e PTR_NOTE apart_def)
    then show ?thesis using x s by (simp add: insert_step_def Let_def e PTR_NOTE)
  qed (use ok in simp_all)
next
  case (PTR_SUBTREE l)
  have "\<not> subtree_matches (key_sha1 (leaf_of e)) (key_sha1 l)"
    using matches_cover [of "key_sha1 (leaf_of e)" l] ok leaf_ok_key [OF ok(2)] apart prefix_both cover_key [of e] by (auto simp: PTR_SUBTREE)
  then show ?thesis using x s by (simp add: insert_step_def Let_def PTR_SUBTREE)
qed (use ok in simp_all)

lemma new_node_ok: "length at < 40 \<Longrightarrow> node_ok at (replicate 16 PTR_NULL)"
  by (simp add: node_ok_def placed_null)

lemma apart_longer: "prefix at c \<Longrightarrow> prefix at d \<Longrightarrow> apart c d \<Longrightarrow> length at < length c"
proof -
  assume h: "prefix at c" "prefix at d" "apart c d"
  then obtain zs where zs: "c = at @ zs" by (auto simp: prefix_def)
  have "zs \<noteq> []" using h zs by (auto simp: apart_def)
  then show ?thesis by (simp add: zs)
qed

lemma next_index:
  assumes "prefix at c" "length at < length c"
  shows "prefix (at @ [c ! length at]) c"
proof -
  obtain zs where zs: "c = at @ zs" using assms(1) by (auto simp: prefix_def)
  then obtain z zs' where "zs = z # zs'" using assms(2) by (cases zs) auto
  then show ?thesis by (simp add: zs)
qed

text \<open>The insertion at the place that a search has found, when deeper insertions are right.\<close>

lemma insert_place:
  assumes IH: "\<And>nd2 i st e. length nd < length nd2 \<Longrightarrow> leaf_ok e \<Longrightarrow> slot_ready st nd2 i \<Longrightarrow> prefix (nd2 @ [i]) (cover e)
      \<Longrightarrow> \<forall>x \<in> leaves_of (get_ptr st (nd2 @ [i])). apart (cover x) (cover e)
      \<Longrightarrow> \<exists>q N. placed (nd2 @ [i]) q \<and> leaves_of q = insert e (leaves_of (get_ptr st (nd2 @ [i])))
        \<and> (\<forall>fuel \<ge> N. note_tree_insert env fuel combine st nd2 e = Got (set_ptr (nd2 @ [i]) q st, 0))"
    and e: "leaf_ok e" and rd: "slot_ready st nd j" and pc: "prefix (nd @ [j]) (cover e)"
    and nint: "\<forall>a. get_ptr st (nd @ [j]) \<noteq> PTR_INTERNAL a" and ap: "\<forall>x \<in> leaves_of (get_ptr st (nd @ [j])). apart (cover x) (cover e)"
  shows "\<exists>n M. placed (nd @ [j]) n \<and> leaves_of n = insert e (leaves_of (get_ptr st (nd @ [j])))
    \<and> (\<forall>f \<ge> M. \<forall>load search st0 nd0. search st0 nd0 (key_sha1 (leaf_of e)) = Got (st, nd)
      \<longrightarrow> insert_step load search (note_tree_insert env f) combine st0 nd0 e = Got (set_ptr (nd @ [j]) n st, 0))"
proof -
  let ?key = "key_sha1 (leaf_of e)" and ?at = "nd @ [j]" and ?p = "get_ptr st (nd @ [j])"
  have key: "length ?key = 20" "\<not> is_null_sha1 (val_sha1 (leaf_of e))" using leaf_ok_key [OF e] by simp_all
  have nib: "GET_NIBBLE (length nd) ?key = j" by (rule next_nibble(1) [OF key(1) cover_key pc])
  have p: "placed ?at ?p" "inside (root_ptr st) ?at" using rd by (simp_all add: slot_ready_def)
  show ?thesis
  proof (cases "?p = PTR_NULL")
    case True
    have "insert_step load search (note_tree_insert env f) combine st0 nd0 e = Got (set_ptr ?at e st, 0)"
      if "search st0 nd0 ?key = Got (st, nd)" for f load search st0 nd0
      using that nib True key(2) by (simp add: insert_step_def Let_def)
    moreover have "placed ?at e" using e pc by (rule placed_leaf)
    moreover have "leaves_of e = insert e (leaves_of ?p)" using True leaves_leaf [OF e] by simp
    ultimately show ?thesis by blast
  next
    case False
    then have xl: "leaves_of ?p = {?p}" using nint by (cases ?p) auto
    then have x: "leaf_ok ?p" "prefix ?at (cover ?p)" "apart (cover ?p) (cover e)"
      using placed_leaves [OF p(1), of ?p] ap by auto
    let ?jx = "cover ?p ! length ?at" and ?je = "cover e ! length ?at"
    have lx: "length ?at < length (cover ?p)" "length ?at < length (cover e)"
      using apart_longer [OF x(2) pc x(3)] apart_longer [OF pc x(2)] x(3) apart_sym by blast+
    then have l40: "length ?at < 40" using cover_le [OF x(1)] by linarith
    have px: "prefix (?at @ [?jx]) (cover ?p)" and pe: "prefix (?at @ [?je]) (cover e)"
      using next_index x(2) pc lx by blast+
    have kx: "length (key_sha1 (leaf_of ?p)) = 20" using leaf_ok_key [OF x(1)] by simp
    have j16: "?jx < 16" "?je < 16" using next_nibble(2) [OF kx cover_key px] next_nibble(2) [OF key(1) cover_key pe] .
    have lt: "length nd < length ?at" by simp
    let ?st1 = "set_ptr ?at new_node st"
    have i1: "inside (root_ptr ?st1) ?at" using inside_put [OF p(2)] by (simp add: set_ptr_root)
    have g1: "get_ptr ?st1 ?at = PTR_INTERNAL (replicate 16 PTR_NULL)" using get_set_ptr [of ?at] p(2) by (simp add: new_node_def)
    have r1: "slot_ready ?st1 ?at ?jx" by (rule slot_ready_down [OF i1 g1 new_node_ok [OF l40] j16(1)])
    have "get_ptr ?st1 (?at @ [?jx]) = PTR_NULL" using get_ptr_next [OF g1] j16(1) by simp
    then obtain q1 Nx where q1: "placed (?at @ [?jx]) q1" "leaves_of q1 = {?p}"
      "\<forall>fuel \<ge> Nx. note_tree_insert env fuel combine ?st1 ?at ?p = Got (set_ptr (?at @ [?jx]) q1 ?st1, 0)"
      using IH [OF lt x(1) r1 px] by auto
    let ?st2 = "set_ptr (?at @ [?jx]) q1 ?st1" and ?a = "(replicate 16 PTR_NULL)[?jx := q1]"
    have st2: "?st2 = set_ptr ?at (PTR_INTERNAL ?a) st" using set_ptr_below [of ?at st "[?jx]" q1 new_node] p(2) by (simp add: new_node_def)
    have ok2: "node_ok ?at ?a" by (rule node_ok_update [OF new_node_ok [OF l40] q1(1)])
    have lv2: "leaves_of (PTR_INTERNAL ?a) = {?p}" using leaves_update [of "replicate 16 PTR_NULL" ?jx q1] j16(1) q1(2) by simp
    have i2: "inside (root_ptr ?st2) ?at" unfolding st2 using inside_put [OF p(2)] by (simp add: set_ptr_root)
    have g2: "get_ptr ?st2 ?at = PTR_INTERNAL ?a" unfolding st2 using get_set_ptr [of ?at] p(2) by simp
    have r2: "slot_ready ?st2 ?at ?je" by (rule slot_ready_down [OF i2 g2 ok2 j16(2)])
    have sl: "get_ptr ?st2 (?at @ [?je]) = ptr_at (PTR_INTERNAL ?a) [?je]" using get_ptr_next [OF g2] by simp
    have in2: "inside (PTR_INTERNAL ?a) [?je]" using j16(2) by simp
    have lsl: "leaves_of (get_ptr ?st2 (?at @ [?je])) \<subseteq> {?p}" unfolding sl using leaves_at [OF in2] lv2 by simp
    then obtain q2 Ne where q2: "placed (?at @ [?je]) q2" "leaves_of q2 = insert e (leaves_of (get_ptr ?st2 (?at @ [?je])))"
      "\<forall>fuel \<ge> Ne. note_tree_insert env fuel combine ?st2 ?at e = Got (set_ptr (?at @ [?je]) q2 ?st2, 0)"
      using IH [OF lt e r2 pe] x(3) by auto
    let ?n = "put_at (PTR_INTERNAL ?a) [?je] q2"
    have pl2: "placed ?at (PTR_INTERNAL ?a)" using ok2 lv2 by (simp add: placed_node_ok)
    have n: "placed ?at ?n" "leaves_of ?n = insert e {?p}"
      using placed_put [OF pl2 q2(1)] leaves_put [OF pl2 in2, of q2] lv2 lsl q2(2) sl by (auto simp del: put_at.simps leaves_of.simps(2) ptr_at.simps)
    have st3: "set_ptr (?at @ [?je]) q2 ?st2 = set_ptr ?at ?n st" unfolding st2 using set_ptr_below [of ?at st "[?je]" q2 "PTR_INTERNAL ?a"] p(2) by simp
    have "insert_step load search (note_tree_insert env f) combine st0 nd0 e = Got (set_ptr ?at ?n st, 0)"
      if f: "max Nx Ne \<le> f" and s: "search st0 nd0 ?key = Got (st, nd)" for f load search st0 nd0
    proof -
      have g: "get_ptr st (nd @ [GET_NIBBLE (length nd) ?key]) = ?p" unfolding nib ..
      have ix: "note_tree_insert env f combine ?st1 ?at ?p = Got (?st2, 0)" and ie: "note_tree_insert env f combine ?st2 ?at e = Got (set_ptr ?at ?n st, 0)"
        using q1(3) q2(3) f unfolding st3 by simp_all
      show ?thesis unfolding insert_step_below [where search = search, OF g x(1) e x(3) s] nib insert_below_def if_not_P [OF key(2)] ix and_then_simps prod.case
        by (simp only: ie simp_thms if_False)
    qed
    then show ?thesis using n(1) n(2) [folded xl] by blast
  qed
qed

lemma insert_fresh:
  "leaf_ok e \<Longrightarrow> slot_ready st nd i \<Longrightarrow> prefix (nd @ [i]) (cover e) \<Longrightarrow> \<forall>x \<in> leaves_of (get_ptr st (nd @ [i])). apart (cover x) (cover e)
    \<Longrightarrow> \<exists>q N. placed (nd @ [i]) q \<and> leaves_of q = insert e (leaves_of (get_ptr st (nd @ [i])))
      \<and> (\<forall>fuel \<ge> N. note_tree_insert env fuel combine st nd e = Got (set_ptr (nd @ [i]) q st, 0))"
proof (induction "40 - length nd" arbitrary: nd i st e rule: less_induct)
  case less
  let ?q = "get_ptr st (nd @ [i])" and ?key = "key_sha1 (leaf_of e)"
  have key: "length ?key = 20" "\<not> is_null_sha1 (val_sha1 (leaf_of e))" using leaf_ok_key [OF less(2)] by simp_all
  have q: "placed (nd @ [i]) ?q" "inside (root_ptr st) (nd @ [i])" "length nd < 40" using less(3) by (simp_all add: slot_ready_def)
  note fs = fresh_search [OF less(2,5)]
  obtain nd' j rest N where s: "\<forall>fuel \<ge> N. note_tree_search env fuel st nd ?key = Got (st, nd')" and at: "nd' @ [j] = nd @ i # rest"
    and pc: "prefix (nd' @ [j]) (cover e)" and rd: "slot_ready st nd' j" and nint: "\<forall>a. get_ptr st (nd' @ [j]) \<noteq> PTR_INTERNAL a"
    using search_stops [OF key(1) cover_key less(4,3) fs] by blast
  let ?at = "nd' @ [j]" and ?p = "get_ptr st (nd' @ [j])"
  have atr: "?at = (nd @ [i]) @ rest" using at by simp
  have p: "inside (root_ptr st) ?at" using rd by (simp add: slot_ready_def)
  have ins: "inside ?q rest" "?p = ptr_at ?q rest"
    using p unfolding atr get_ptr_root by (simp_all only: inside_append ptr_at_append)
  have sub: "leaves_of ?p \<subseteq> leaves_of ?q" unfolding ins(2) by (rule leaves_at [OF ins(1)])
  have fin: "placed (nd @ [i]) (put_at ?q rest n) \<and> leaves_of (put_at ?q rest n) = (leaves_of ?q - leaves_of ?p) \<union> leaves_of n
      \<and> set_ptr ?at n st = set_ptr (nd @ [i]) (put_at ?q rest n) st"
    if "placed ?at n" "leaves_of n \<noteq> {}" for n
    using placed_put [OF q(1) that(1) [unfolded atr] that(2)] leaves_put [OF q(1) ins(1), folded ins(2)]
      set_ptr_up [of "nd @ [i]" rest n st, folded atr] by blast
  have IH: "\<exists>q N. placed (nd2 @ [i]) q \<and> leaves_of q = insert e (leaves_of (get_ptr st (nd2 @ [i])))
        \<and> (\<forall>fuel \<ge> N. note_tree_insert env fuel combine st nd2 e = Got (set_ptr (nd2 @ [i]) q st, 0))"
    if "length nd' < length nd2" "leaf_ok e" "slot_ready st nd2 i" "prefix (nd2 @ [i]) (cover e)"
      "\<forall>x \<in> leaves_of (get_ptr st (nd2 @ [i])). apart (cover x) (cover e)" for nd2 i st e
  proof -
    have "length nd \<le> length nd'" using arg_cong [OF at, of length] by simp
    moreover have "length nd2 < 40" using that(3) by (simp add: slot_ready_def)
    ultimately have "40 - length nd2 < 40 - length nd" using that(1) by linarith
    then show ?thesis using less(1) that(2-5) by blast
  qed
  have "\<forall>x \<in> leaves_of ?p. apart (cover x) (cover e)" using sub less(5) by blast
  from insert_place [OF IH less(2) rd pc nint this] obtain n M where n: "placed ?at n" "leaves_of n = insert e (leaves_of ?p)"
    and run: "\<forall>f \<ge> M. \<forall>load search st0 nd0. search st0 nd0 ?key = Got (st, nd')
      \<longrightarrow> insert_step load search (note_tree_insert env f) combine st0 nd0 e = Got (set_ptr ?at n st, 0)" by blast
  have "leaves_of n \<noteq> {}" unfolding n(2) by blast
  note f = fin [OF n(1) this]
  have "leaves_of (put_at ?q rest n) = insert e (leaves_of ?q)" using f sub n(2) by blast
  moreover have "note_tree_insert env fuel combine st nd e = Got (set_ptr (nd @ [i]) (put_at ?q rest n) st, 0)" if le: "Suc (max M N) \<le> fuel" for fuel
  proof -
    obtain g where g: "fuel = Suc g" "M \<le> g" "N \<le> g" using le by (cases fuel) auto
    then have "note_tree_search env g st nd ?key = Got (st, nd')" using s by blast
    then have "note_tree_insert env fuel combine st nd e = Got (set_ptr ?at n st, 0)"
      using run g(2) unfolding g(1) note_tree_insert.simps by blast
    then show ?thesis using f by simp
  qed
  ultimately show ?case using f by blast
qed

subsection \<open>Nodes\<close>

definition set_node :: "nat list \<Rightarrow> note_ptr list \<Rightarrow> notes_state \<Rightarrow> notes_state" where
  "set_node nd a st = set_ptr nd (PTR_INTERNAL a) st"

definition ready :: "notes_state \<Rightarrow> nat list \<Rightarrow> note_ptr list \<Rightarrow> bool" where
  "ready st nd a \<longleftrightarrow> inside (root_ptr st) nd \<and> get_ptr st nd = PTR_INTERNAL a \<and> node_ok nd a"

text \<open>Two states that differ in the non-notes only.\<close>

definition notes_eq :: "notes_state \<Rightarrow> notes_state \<Rightarrow> bool" where
  "notes_eq st st' \<longleftrightarrow> root_ptr st = root_ptr st' \<and> snd st = snd st' \<and> nt_dirty (fst st) = nt_dirty (fst st')"

lemma notes_eq_refl [simp]: "notes_eq st st"
  by (simp add: notes_eq_def)

lemma notes_eq_trans: "notes_eq st st' \<Longrightarrow> notes_eq st' st'' \<Longrightarrow> notes_eq st st''"
  by (simp add: notes_eq_def)

lemma notes_eq_ready: "notes_eq st st' \<Longrightarrow> ready st nd a = ready st' nd a"
  by (simp add: notes_eq_def ready_def get_ptr_root)

lemma notes_eq_slot: "notes_eq st st' \<Longrightarrow> slot_ready st nd j = slot_ready st' nd j" "notes_eq st st' \<Longrightarrow> get_ptr st at = get_ptr st' at"
  by (simp_all add: notes_eq_def slot_ready_def get_ptr_root)

lemma set_node_fields:
  "root_ptr (set_node nd a st) = put_at (root_ptr st) nd (PTR_INTERNAL a)" "snd (set_node nd a st) = snd st"
  "nt_dirty (fst (set_node nd a st)) = nt_dirty (fst st)"
proof -
  have "root_ptr (set_node nd a st) = put_at (root_ptr st) nd (PTR_INTERNAL a) \<and> snd (set_node nd a st) = snd st
    \<and> nt_dirty (fst (set_node nd a st)) = nt_dirty (fst st)"
  proof (cases "nd = []")
    case True
    then show ?thesis by (simp add: set_node_def set_ptr_def root_ptr_def)
  next
    case False
    then show ?thesis unfolding set_node_def by (rule set_ptr_eq [of nd st "PTR_INTERNAL a"]) (simp_all add: root_ptr_def)
  qed
  then show "root_ptr (set_node nd a st) = put_at (root_ptr st) nd (PTR_INTERNAL a)" "snd (set_node nd a st) = snd st"
    "nt_dirty (fst (set_node nd a st)) = nt_dirty (fst st)" by blast+
qed

lemma notes_eq_set_node: "notes_eq st st' \<Longrightarrow> notes_eq (set_node nd a st) (set_node nd a st')"
  by (simp add: notes_eq_def set_node_fields)

lemma set_node_twice: "notes_eq (set_node nd b (set_node nd a st)) (set_node nd b st)"
  by (simp add: notes_eq_def set_node_fields put_at_put)

lemma ready_set_node: "inside (root_ptr st) nd \<Longrightarrow> node_ok nd a \<Longrightarrow> ready (set_node nd a st) nd a"
  by (simp add: ready_def set_node_fields get_ptr_root ptr_at_put inside_put)

lemma set_slot:
  assumes "get_ptr st nd = PTR_INTERNAL a"
  shows "set_ptr (nd @ [i]) q st = set_node nd (a[i := q]) st"
proof (cases "nd = []")
  case True
  then have "nt_root (fst st) = a" using assms by (simp add: get_ptr_def)
  then show ?thesis by (simp add: True set_node_def set_ptr_def)
next
  case False
  then show ?thesis using set_ptr_up [of nd "[i]" q st] assms by (simp add: set_node_def)
qed

text \<open>Setting a node inside a node.\<close>

lemma set_node_below:
  assumes "get_ptr st nd = PTR_INTERNAL a" "get_ptr st (nd @ [i]) = PTR_INTERNAL b"
  shows "notes_eq (set_node (nd @ [i]) c st) (set_node nd (a[i := PTR_INTERNAL c]) st)"
proof -
  have "set_ptr (nd @ [i]) (PTR_INTERNAL c) st = set_node nd (a[i := PTR_INTERNAL c]) st" by (rule set_slot [OF assms(1)])
  then show ?thesis by (simp add: set_node_def)
qed

lemma ready_slot: "ready st nd a \<Longrightarrow> i < 16 \<Longrightarrow> slot_ready st nd i"
  using slot_ready_down unfolding ready_def by blast

lemma ready_in: "ready st nd a \<Longrightarrow> i < 16 \<Longrightarrow> a ! i = PTR_INTERNAL b \<Longrightarrow> ready st (nd @ [i]) b"
  using get_ptr_next [of st nd a i] placed_node_ok [of "nd @ [i]" b]
  by (auto simp: ready_def inside_append node_ok_def get_ptr_root)

lemma leaves_apart: "placed at p \<Longrightarrow> x \<in> leaves_of p \<Longrightarrow> y \<in> leaves_of p \<Longrightarrow> x \<noteq> y \<Longrightarrow> apart (cover x) (cover y)"
proof (induction rule: placed.induct)
  case (placed_leaf p at)
  then show ?case by (cases p) auto
next
  case (placed_node a at)
  obtain i j where i: "i < 16" "x \<in> leaves_of (a ! i)" and j: "j < 16" "y \<in> leaves_of (a ! j)"
    using placed_node.prems placed_node.hyps(1) by (auto simp: in_set_conv_nth)
  show ?case
  proof (cases "i = j")
    case True
    then show ?thesis using placed_node.IH [OF i(1)] i(2) j(2) placed_node.prems(3) by blast
  next
    case False
    have "prefix (at @ [i]) (cover x)" "prefix (at @ [j]) (cover y)"
      using placed_leaves [OF placed_node.hyps(3)] i j by blast+
    then show ?thesis using False by (auto simp: apart_def prefix_def)
  qed
qed simp

lemma node_leaves:
  assumes "node_ok at a" "x \<in> leaves_of (PTR_INTERNAL a)"
  shows "leaf_ok x" "prefix at (cover x)" "length at < length (cover x)"
    "y \<in> leaves_of (PTR_INTERNAL a) \<Longrightarrow> x \<noteq> y \<Longrightarrow> apart (cover x) (cover y)"
proof -
  have p: "placed at (PTR_INTERNAL a)" using assms by (auto simp: placed_node_ok)
  show "leaf_ok x" "prefix at (cover x)" using placed_leaves [OF p assms(2)] by blast+
  show "y \<in> leaves_of (PTR_INTERNAL a) \<Longrightarrow> x \<noteq> y \<Longrightarrow> apart (cover x) (cover y)" using leaves_apart [OF p assms(2)] .
  obtain i where "i < 16" "x \<in> leaves_of (a ! i)" 
  proof -
    have "length a = 16" using assms(1) by (simp add: node_ok_def)
    then have "x \<in> (\<Union>i < 16. leaves_of (a ! i))" using assms(2) unfolding leaves_slots by simp
    then show ?thesis using that by blast
  qed
  then have "prefix (at @ [i]) (cover x)" using assms(1) placed_leaves unfolding node_ok_def by blast
  then show "length at < length (cover x)" by (auto dest: prefix_length_le)
qed

lemma insert_node:
  assumes e: "leaf_ok e" and rd: "ready st nd a" and c: "prefix nd (cover e)" "length nd < length (cover e)"
    and ap: "\<forall>x \<in> leaves_of (PTR_INTERNAL a). apart (cover x) (cover e)"
  shows "\<exists>b N. node_ok nd b \<and> leaves_of (PTR_INTERNAL b) = insert e (leaves_of (PTR_INTERNAL a))
    \<and> (\<forall>fuel \<ge> N. note_tree_insert env fuel combine st nd e = Got (set_node nd b st, 0))"
proof -
  let ?i = "cover e ! length nd"
  have g: "get_ptr st nd = PTR_INTERNAL a" and ok: "node_ok nd a" using rd by (simp_all add: ready_def)
  have pi: "prefix (nd @ [?i]) (cover e)" by (rule next_index [OF c])
  have len: "length (key_sha1 (leaf_of e)) = 20" using leaf_ok_key [OF e] by simp
  have i16: "?i < 16" by (rule next_nibble(2) [OF len cover_key pi])
  have sl: "get_ptr st (nd @ [?i]) = a ! ?i" by (rule get_ptr_next [OF g])
  have l16: "length a = 16" using ok by (simp add: node_ok_def)
  have sub: "leaves_of (a ! ?i) \<subseteq> leaves_of (PTR_INTERNAL a)" unfolding leaves_of.simps using i16 l16
    by (intro UN_upper nth_mem) simp
  have "\<forall>x \<in> leaves_of (get_ptr st (nd @ [?i])). apart (cover x) (cover e)" unfolding sl using sub ap by blast
  from insert_fresh [OF e ready_slot [OF rd i16] pi this]
  obtain q N where q: "placed (nd @ [?i]) q" "leaves_of q = insert e (leaves_of (a ! ?i))"
    "\<forall>fuel \<ge> N. note_tree_insert env fuel combine st nd e = Got (set_ptr (nd @ [?i]) q st, 0)"
    unfolding sl by blast
  have "leaves_of (PTR_INTERNAL (a[?i := q])) = insert e (leaves_of (PTR_INTERNAL a))"
    using leaves_update [OF l16 i16, of q] leaves_update [OF l16 i16, of "a ! ?i"] q(2) unfolding list_update_id by blast
  then show ?thesis using q(3) node_ok_update [OF ok q(1)] unfolding set_slot [OF g] by blast
qed

end
