(* ===== verification/Notes_Load.thy ===== *)
theory Notes_Load
  imports Notes_Map
begin

text \<open>
  The notes that are still in tree objects, and the operations on the whole: loading a subtree puts its entries
  in the place of it, so a search changes nothing of the map, and the operations of \<open>notes.h\<close> are those of the map.
\<close>

declare leaves_of.simps(2) [simp del]

subsection \<open>Trees of notes\<close>

text \<open>\<open>trees\<close> gives the entries of the tree objects.\<close>

definition env_trees :: "notes_env \<Rightarrow> (name \<rightharpoonup> tree_item list) \<Rightarrow> bool" where
  "env_trees env trees \<longleftrightarrow> (\<forall>s items. trees s = Some items \<longrightarrow>
     ne_tree env s = Some (tree_text items) \<and> list_all item_ok items \<and> length (tree_text items) < 2 ^ 32)"

definition item_leaf :: "leaf_node \<Rightarrow> tree_item \<Rightarrow> note_ptr" where
  "item_leaf sub = (\<lambda>(m, n, s). entry_leaf sub n m s)"

definition item_leaves :: "leaf_node \<Rightarrow> tree_item list \<Rightarrow> note_ptr list" where
  "item_leaves sub items = filter (\<lambda>p. p \<noteq> PTR_NULL) (map (item_leaf sub) items)"

text \<open>Entries that cover different keys and are not null, and names of non-notes that fit the buffer.\<close>

definition entries_ok :: "leaf_node \<Rightarrow> tree_item list \<Rightarrow> bool" where
  "entries_ok sub items \<longleftrightarrow> sorted_wrt (\<lambda>x y. apart (cover x) (cover y)) (item_leaves sub items)
     \<and> list_all leaf_ok (item_leaves sub items)
     \<and> (\<forall>(m, n, s) \<in> set items. item_leaf sub (m, n, s) = PTR_NULL \<longrightarrow> length (non_note_path sub n) < PATH_MAX)"

text \<open>A subtree is laid out when its entries are, down to the notes, and it has some.\<close>

inductive laid_out :: "(name \<rightharpoonup> tree_item list) \<Rightarrow> leaf_node \<Rightarrow> bool" for trees where
  "trees (val_sha1 sub) = Some items \<Longrightarrow> entries_ok sub items \<Longrightarrow> item_leaves sub items \<noteq> []
    \<Longrightarrow> (\<And>l. PTR_SUBTREE l \<in> set (item_leaves sub items) \<Longrightarrow> laid_out trees l) \<Longrightarrow> laid_out trees sub"

inductive has_note :: "(name \<rightharpoonup> tree_item list) \<Rightarrow> note_ptr \<Rightarrow> name \<Rightarrow> name \<Rightarrow> bool" for trees where
  "has_note trees (PTR_NOTE l) (key_sha1 l) (val_sha1 l)"
| "trees (val_sha1 sub) = Some items \<Longrightarrow> x \<in> set (item_leaves sub items) \<Longrightarrow> has_note trees x k v \<Longrightarrow> has_note trees (PTR_SUBTREE sub) k v"

inductive_cases has_note_noteE: "has_note trees (PTR_NOTE l) k v"
inductive_cases has_note_subtreeE: "has_note trees (PTR_SUBTREE sub) k v"

definition notes_in :: "(name \<rightharpoonup> tree_item list) \<Rightarrow> note_ptr set \<Rightarrow> (name \<times> name) set" where
  "notes_in trees L = {(k, v). \<exists>x \<in> L. has_note trees x k v}"

lemma notes_in_Un: "notes_in trees (L \<union> M) = notes_in trees L \<union> notes_in trees M"
  by (auto simp: notes_in_def)

lemma notes_in_subtree:
  "trees (val_sha1 sub) = Some items \<Longrightarrow> notes_in trees {PTR_SUBTREE sub} = notes_in trees (set (item_leaves sub items))"
  by (auto simp: notes_in_def elim!: has_note_subtreeE intro: has_note.intros)

lemma notes_in_note: "notes_in trees {PTR_NOTE l} = {(key_sha1 l, val_sha1 l)}"
  by (auto simp: notes_in_def elim!: has_note_noteE intro: has_note.intros)

lemma hex_segment_length: "hex_segment hex = Some bytes \<Longrightarrow> length bytes = length hex div 2"
  by (induction hex arbitrary: bytes rule: hex_segment.induct) (auto simp: Let_def split: if_splits)

lemma segment_length:
  assumes "get_sha1_hex_segment hex n = Some (bytes, len)"
  shows "length bytes = n" "len \<le> n" "len = length hex div 2"
  using assms hex_segment_length [of hex] by (auto simp: get_sha1_hex_segment_def Let_def split: if_splits)

lemma entry_leaf_ok:
  assumes sub: "length (key_sha1 sub) = 20" "unat (key_sha1 sub ! 19) < 20" and x: "entry_leaf sub path mode sha1 = x" "x \<noteq> PTR_NULL"
  shows "leaf_ok x \<longleftrightarrow> \<not> is_null_sha1 sha1" "prefix (cover (PTR_SUBTREE sub)) (cover x)"
    "x = PTR_NOTE l \<or> x = PTR_SUBTREE l \<Longrightarrow> length (key_sha1 l) = 20"
    "x = PTR_SUBTREE l \<Longrightarrow> unat (key_sha1 sub ! 19) < unat (key_sha1 l ! 19) \<and> unat (key_sha1 l ! 19) < 20"
    "length (cover (PTR_SUBTREE sub)) < length (cover x)"
    "\<exists>l. x = PTR_NOTE l \<or> x = PTR_SUBTREE l"
proof -
  let ?p = "unat (key_sha1 sub ! 19)"
  obtain bytes len where seg: "get_sha1_hex_segment path (20 - ?p) = Some (bytes, len)"
    using x by (auto simp: entry_leaf_def Let_def split: option.splits)
  note sl = segment_length [OF seg]
  let ?key = "take ?p (key_sha1 sub) @ bytes"
  have lk: "length ?key = 20" using sub sl(1) by simp
  have "(leaf_ok x \<longleftrightarrow> \<not> is_null_sha1 sha1) \<and> prefix (cover (PTR_SUBTREE sub)) (cover x)
    \<and> (\<forall>l. x = PTR_NOTE l \<or> x = PTR_SUBTREE l \<longrightarrow> length (key_sha1 l) = 20)
    \<and> (\<forall>l. x = PTR_SUBTREE l \<longrightarrow> ?p < unat (key_sha1 l ! 19) \<and> unat (key_sha1 l ! 19) < 20)
    \<and> length (cover (PTR_SUBTREE sub)) < length (cover x) \<and> (\<exists>l. x = PTR_NOTE l \<or> x = PTR_SUBTREE l)"
  proof (cases "len + ?p = 20")
    case True
    then have "x = PTR_NOTE \<lparr>key_sha1 = ?key, val_sha1 = sha1\<rparr>" using x(1) seg by (simp add: entry_leaf_def Let_def)
    then show ?thesis using lk sub by (simp add: nibbles_prefix del: nibbles_simps(3))
  next
    case False
    then have len: "length path = 2" and xs: "x = PTR_SUBTREE \<lparr>key_sha1 = ?key[19 := of_nat (len + ?p)], val_sha1 = sha1\<rparr>"
      using x seg by (auto simp: entry_leaf_def Let_def split: if_splits)
    then have l: "len = 1" using sl(3) by simp
    then have lt: "?p + 1 < 20" using False sl(2) sub(2) by linarith
    have u: "unat (of_nat (len + ?p) :: byte) = ?p + 1" using lt l by (subst unat_of_nat_small) simp_all
    have k19: "?key[19 := of_nat (len + ?p)] ! 19 = of_nat (len + ?p)" using lk by (intro nth_list_update_eq) simp
    have "take (?p + 1) (?key[19 := of_nat (len + ?p)]) = take (?p + 1) ?key" using lt by (simp add: take_update_cancel)
    also have "\<dots> = take ?p (key_sha1 sub) @ take 1 bytes" using sub by simp
    finally have c: "cover x = nibbles (take ?p (key_sha1 sub) @ take 1 bytes)" unfolding xs cover.simps leaf_node.simps k19 u by simp
    have "length bytes \<noteq> 0" using sl(1) lt by simp
    then have "length (cover (PTR_SUBTREE sub)) < length (cover x)" unfolding c using sub by (cases bytes) simp_all
    moreover have "prefix (cover (PTR_SUBTREE sub)) (cover x)" unfolding c cover.simps nibbles_prefix by simp
    moreover have "leaf_ok x \<longleftrightarrow> \<not> is_null_sha1 sha1" unfolding xs leaf_ok.simps leaf_node.simps k19 u using lk lt by simp
    ultimately show ?thesis using lk lt k19 u by (simp add: xs)
  qed
  then show "leaf_ok x \<longleftrightarrow> \<not> is_null_sha1 sha1" "prefix (cover (PTR_SUBTREE sub)) (cover x)"
    "x = PTR_NOTE l \<or> x = PTR_SUBTREE l \<Longrightarrow> length (key_sha1 l) = 20"
    "x = PTR_SUBTREE l \<Longrightarrow> unat (key_sha1 sub ! 19) < unat (key_sha1 l ! 19) \<and> unat (key_sha1 l ! 19) < 20"
    "length (cover (PTR_SUBTREE sub)) < length (cover x)" "\<exists>l. x = PTR_NOTE l \<or> x = PTR_SUBTREE l" by blast+
qed

subsection \<open>Loading\<close>

lemma notes_eq_non_note: "notes_eq (add_non_note path mode sha1 (fst st), snd st) st"
  by (simp add: notes_eq_def root_ptr_def add_non_note_def Let_def)

lemma load_entries_ok:
  assumes sub: "length (key_sha1 sub) = 20" "unat (key_sha1 sub ! 19) < 20"
    and pre: "prefix nd (cover (PTR_SUBTREE sub))"
  shows "reads desc items \<Longrightarrow> entries_ok sub items \<Longrightarrow> ready st nd a
    \<Longrightarrow> \<forall>x \<in> set (item_leaves sub items). \<forall>y \<in> leaves_of (PTR_INTERNAL a). apart (cover y) (cover x)
    \<Longrightarrow> \<exists>st' b N. (\<forall>fuel \<ge> N. load_entries env fuel st sub desc nd = Got st') \<and> notes_eq st' (set_node nd b st)
      \<and> node_ok nd b \<and> leaves_of (PTR_INTERNAL b) = leaves_of (PTR_INTERNAL a) \<union> set (item_leaves sub items)"
proof (induction items arbitrary: desc st a)
  case Nil
  have "load_entries env (Suc f) st sub desc nd = Got st" for f using tree_entry_done [OF Nil(1)] by (simp add: load_entries.simps)
  then have "\<forall>fuel \<ge> 1. load_entries env fuel st sub desc nd = Got st" by (metis Suc_le_D One_nat_def)
  moreover have "notes_eq st (set_node nd a st)"
    using Nil(3) put_at_same [of "root_ptr st" nd] by (simp add: notes_eq_def set_node_fields ready_def get_ptr_root)
  moreover have "node_ok nd a" using Nil(3) by (simp add: ready_def)
  ultimately show ?case by (intro exI [where x = st] exI [where x = a]) (auto simp: item_leaves_def)
next
  case (Cons it items)
  obtain m n s where it: "it = (m, n, s)" by (cases it)
  obtain desc' where d: "tree_entry desc = Got (Some (td_entry desc, desc'))" "reads desc' items"
    using tree_entry_reads [OF Cons(2)] by blast
  note ex = tree_entry_extract_reads [OF Cons(2) [unfolded it]]
  let ?x = "entry_leaf sub n m s"
  have x: "item_leaf sub it = ?x" by (simp add: item_leaf_def it)
  have oks: "entries_ok sub items" using Cons(3)
    by (cases "item_leaf sub it = PTR_NULL") (simp_all add: entries_ok_def item_leaves_def)
  have step: "load_entries env (Suc f) st sub desc nd
      = and_then (load_entry env (note_tree_insert env f) st sub (td_entry desc) nd) (\<lambda>st. load_entries env f st sub desc' nd)" for f
    by (simp add: load_entries.simps d(1))
  show ?case
  proof (cases "?x = PTR_NULL")
    case True
    let ?st = "(add_non_note (non_note_path sub n) m s (fst st), snd st)"
    have "length (non_note_path sub n) < PATH_MAX" using Cons(3) True x by (auto simp: entries_ok_def it)
    then have l: "load_entry env (note_tree_insert env f) st sub (td_entry desc) nd = Got ?st" for f
      unfolding load_entry_def Let_def ex by (simp add: True)
    have eq: "notes_eq ?st st" by (rule notes_eq_non_note)
    have il: "item_leaves sub (it # items) = item_leaves sub items" using True x by (simp add: item_leaves_def)
    obtain st' b N where r: "\<forall>fuel \<ge> N. load_entries env fuel ?st sub desc' nd = Got st'" "notes_eq st' (set_node nd b ?st)"
      "node_ok nd b" "leaves_of (PTR_INTERNAL b) = leaves_of (PTR_INTERNAL a) \<union> set (item_leaves sub items)"
      using Cons.IH [OF d(2) oks, of ?st a] Cons(4,5) notes_eq_ready [OF eq] unfolding il by blast
    have "load_entries env fuel st sub desc nd = Got st'" if "Suc N \<le> fuel" for fuel
      using that r(1) by (cases fuel) (simp_all add: step l)
    moreover have "notes_eq st' (set_node nd b st)" using r(2) notes_eq_set_node [OF eq] notes_eq_trans by blast
    ultimately show ?thesis using r(3,4) unfolding il by blast
  next
    case False
    note le = entry_leaf_ok [OF sub refl False]
    have il: "item_leaves sub (it # items) = ?x # item_leaves sub items" using False x by (simp add: item_leaves_def)
    have ok: "leaf_ok ?x" "\<forall>y \<in> set (item_leaves sub items). apart (cover ?x) (cover y)" using Cons(3) by (simp_all add: entries_ok_def il)
    have pn: "prefix nd (cover ?x)" using pre le(2) prefix_order.trans by blast
    have lt: "length nd < length (cover ?x)" using prefix_length_le [OF pre] le(5) by linarith
    obtain b N where b: "node_ok nd b" "leaves_of (PTR_INTERNAL b) = insert ?x (leaves_of (PTR_INTERNAL a))"
      "\<forall>fuel \<ge> N. note_tree_insert env fuel (combine_notes_concatenate env) st nd ?x = Got (set_node nd b st, 0)"
      using insert_node [OF ok(1) Cons(4) pn lt] Cons(5) unfolding il by (meson list.set_intros(1))
    have l: "load_entry env (note_tree_insert env f) st sub (td_entry desc) nd = Got (set_node nd b st)" if "N \<le> f" for f
      using b(3) that le(6) unfolding load_entry_def Let_def ex by auto
    have "inside (root_ptr st) nd" using Cons(4) by (simp add: ready_def)
    note rd = ready_set_node [OF this b(1)]
    have "\<forall>z \<in> set (item_leaves sub items). \<forall>y \<in> leaves_of (PTR_INTERNAL b). apart (cover y) (cover z)"
      using Cons(5) ok(2) unfolding b(2) il by auto
    from Cons.IH [OF d(2) oks rd this] obtain st' c N' where r: "\<forall>fuel \<ge> N'. load_entries env fuel (set_node nd b st) sub desc' nd = Got st'"
      "notes_eq st' (set_node nd c (set_node nd b st))" "node_ok nd c"
      "leaves_of (PTR_INTERNAL c) = leaves_of (PTR_INTERNAL b) \<union> set (item_leaves sub items)" by blast
    have "load_entries env fuel st sub desc nd = Got st'" if "Suc (max N N') \<le> fuel" for fuel
      using that r(1) by (cases fuel) (simp_all add: step l)
    moreover have "notes_eq st' (set_node nd c st)" using r(2) set_node_twice notes_eq_trans by blast
    moreover have "leaves_of (PTR_INTERNAL c) = leaves_of (PTR_INTERNAL a) \<union> set (item_leaves sub (it # items))"
      unfolding r(4) b(2) il by auto
    ultimately show ?thesis using r(3) by blast
  qed
qed

lemma load_subtree_ok:
  assumes trees: "env_trees env trees" "trees (val_sha1 sub) = Some items" and sub: "length (key_sha1 sub) = 20" "unat (key_sha1 sub ! 19) < 20"
    and pre: "prefix nd (cover (PTR_SUBTREE sub))" and ok: "entries_ok sub items" and rd: "ready st nd a"
    and ap: "\<forall>y \<in> leaves_of (PTR_INTERNAL a). apart (cover y) (cover (PTR_SUBTREE sub))"
  shows "\<exists>st' b N. (\<forall>fuel \<ge> N. load_subtree env fuel st sub nd = Got st') \<and> notes_eq st' (set_node nd b st)
      \<and> node_ok nd b \<and> leaves_of (PTR_INTERNAL b) = leaves_of (PTR_INTERNAL a) \<union> set (item_leaves sub items)"
proof -
  have t: "ne_tree env (val_sha1 sub) = Some (tree_text items)" "list_all item_ok items" "length (tree_text items) < 2 ^ 32"
    using trees by (auto simp: env_trees_def)
  obtain desc where desc: "init_tree_desc (ne_stale env) (tree_text items) (of_nat (length (tree_text items))) = Got desc" "reads desc items"
    using init_tree_desc_reads [OF t(2,3)] by blast
  have "length nd \<le> 2 * unat (key_sha1 sub ! 19)" using prefix_length_le [OF pre] sub by simp
  then have step: "load_subtree env (Suc f) st sub nd = load_entries env f st sub desc nd" for f
    by (simp add: load_subtree.simps load_step_def t(1) desc(1))
  have "\<forall>x \<in> set (item_leaves sub items). \<forall>y \<in> leaves_of (PTR_INTERNAL a). apart (cover y) (cover x)"
  proof (intro ballI)
    fix x y
    assume "x \<in> set (item_leaves sub items)" and y: "y \<in> leaves_of (PTR_INTERNAL a)"
    then obtain m n s where "x = entry_leaf sub n m s" "x \<noteq> PTR_NULL" by (auto simp: item_leaves_def item_leaf_def)
    then have "prefix (cover (PTR_SUBTREE sub)) (cover x)" using entry_leaf_ok(2) [OF sub] by blast
    moreover have "apart (cover y) (cover (PTR_SUBTREE sub))" using ap y by blast
    ultimately show "apart (cover y) (cover x)" unfolding apart_def using prefix_same_cases prefix_order.trans by blast
  qed
  from load_entries_ok [OF sub pre desc(2) ok rd this] obtain st' b N where r: "\<forall>fuel \<ge> N. load_entries env fuel st sub desc nd = Got st'"
    "notes_eq st' (set_node nd b st)" "node_ok nd b" "leaves_of (PTR_INTERNAL b) = leaves_of (PTR_INTERNAL a) \<union> set (item_leaves sub items)" by blast
  have "load_subtree env fuel st sub nd = Got st'" if "Suc N \<le> fuel" for fuel
    using that r(1) by (cases fuel) (simp_all add: step)
  then show ?thesis using r(2-4) by blast
qed

subsection \<open>Searching\<close>

definition all_laid :: "(name \<rightharpoonup> tree_item list) \<Rightarrow> note_ptr list \<Rightarrow> bool" where
  "all_laid trees a \<longleftrightarrow> (\<forall>l. PTR_SUBTREE l \<in> leaves_of (PTR_INTERNAL a) \<longrightarrow> laid_out trees l)"

text \<open>
  What a search leaves: \<open>b\<close> is the node it began at as it is now, with the same notes and no subtree on the way of the
  key, and it ends at a slot that is not an internal node.
\<close>

definition found_place :: "(name \<rightharpoonup> tree_item list) \<Rightarrow> name \<Rightarrow> notes_state \<Rightarrow> nat list \<Rightarrow> note_ptr list \<Rightarrow> notes_state \<Rightarrow> nat list \<Rightarrow> note_ptr list \<Rightarrow> bool" where
  "found_place trees key st nd a st' nd' b \<longleftrightarrow>
     notes_eq st' (set_node nd b st) \<and> node_ok nd b \<and> (leaves_of (PTR_INTERNAL a) \<noteq> {} \<longrightarrow> leaves_of (PTR_INTERNAL b) \<noteq> {})
     \<and> notes_in trees (leaves_of (PTR_INTERNAL b)) = notes_in trees (leaves_of (PTR_INTERNAL a)) \<and> all_laid trees b
     \<and> no_match key (PTR_INTERNAL b)
     \<and> (\<exists>j. slot_ready st' nd' j \<and> prefix (nd' @ [j]) (nibbles key) \<and> prefix nd nd' \<and> (\<forall>c. get_ptr st' (nd' @ [j]) \<noteq> PTR_INTERNAL c))"

definition search_good :: "(name \<rightharpoonup> tree_item list) \<Rightarrow> notes_env \<Rightarrow> name \<Rightarrow> notes_state \<Rightarrow> nat list \<Rightarrow> note_ptr list \<Rightarrow> bool" where
  "search_good trees env key st nd a \<longleftrightarrow> (\<exists>st' nd' b N. (\<forall>fuel \<ge> N. note_tree_search env fuel st nd key = Got (st', nd'))
     \<and> found_place trees key st nd a st' nd' b)"

lemma set_node_same: "ready st nd a \<Longrightarrow> notes_eq st (set_node nd a st)"
  using put_at_same [of "root_ptr st" nd] by (simp add: notes_eq_def set_node_fields ready_def get_ptr_root)

lemma key_slot:
  assumes "length key = 20" "node_ok nd a" "prefix nd (nibbles key)"
  shows "nibbles key ! length nd < 16" "prefix (nd @ [nibbles key ! length nd]) (nibbles key)"
    "GET_NIBBLE (length nd) key = nibbles key ! length nd"
proof -
  have l: "length nd < length (nibbles key)" using assms(1,2) by (simp add: node_ok_def)
  show p: "prefix (nd @ [nibbles key ! length nd]) (nibbles key)" by (rule next_index [OF assms(3) l])
  show "nibbles key ! length nd < 16" "GET_NIBBLE (length nd) key = nibbles key ! length nd"
    using next_nibble [OF assms(1) prefix_order.refl p] by simp_all
qed

lemma search_none:
  assumes key: "length key = 20" and rd: "ready st nd a" and pre: "prefix nd (nibbles key)" and laid: "all_laid trees a"
    and nm: "no_match key (PTR_INTERNAL a)"
  shows "search_good trees env key st nd a"
proof -
  let ?i = "nibbles key ! length nd"
  have ok: "node_ok nd a" and g: "get_ptr st nd = PTR_INTERNAL a" using rd by (simp_all add: ready_def)
  note ks = key_slot [OF key ok pre]
  have "leaves_of (a ! ?i) \<subseteq> leaves_of (PTR_INTERNAL a)" unfolding leaves_of.simps using ks(1) ok
    by (intro UN_upper nth_mem) (simp add: node_ok_def)
  then have nm': "no_match key (get_ptr st (nd @ [?i]))" using nm unfolding get_ptr_next [OF g] no_match_def by blast
  have "above (nibbles key) q" for q using key by (simp add: above_def)
  from search_stops [OF key prefix_order.refl ks(2) ready_slot [OF rd ks(1)] nm' this]
  obtain nd' j rest N where s: "\<forall>fuel \<ge> N. note_tree_search env fuel st nd key = Got (st, nd')" "nd' @ [j] = nd @ ?i # rest"
    "prefix (nd' @ [j]) (nibbles key)" "slot_ready st nd' j" "\<forall>c. get_ptr st (nd' @ [j]) \<noteq> PTR_INTERNAL c" by blast
  have "nd' = butlast (nd @ ?i # rest)" using s(2) by (metis butlast_snoc)
  then have "prefix nd nd'" by (simp add: butlast_append)
  then have "found_place trees key st nd a st nd' a"
    using s(3-5) set_node_same [OF rd] ok laid nm unfolding found_place_def by blast
  then show ?thesis using s(1) unfolding search_good_def by blast
qed

lemma leaf_slot:
  assumes "node_ok nd a" "x \<in> leaves_of (PTR_INTERNAL a)" "prefix (nd @ [i]) c" "prefix (cover x) c \<or> prefix c (cover x)"
  shows "i < 16 \<Longrightarrow> x \<in> leaves_of (a ! i)"
proof -
  have l: "length a = 16" using assms(1) by (simp add: node_ok_def)
  then obtain j where j: "j < 16" "x \<in> leaves_of (a ! j)" using assms(2) unfolding leaves_slots by auto
  then have "prefix (nd @ [j]) (cover x)" using assms(1) placed_leaves unfolding node_ok_def by blast
  then have "prefix (nd @ [j]) c \<or> prefix (nd @ [i]) (cover x) \<and> prefix (nd @ [j]) (cover x)"
    using assms(3,4) prefix_order.trans by blast
  then have "j = i" using assms(3) by (auto simp: prefix_def)
  then show "x \<in> leaves_of (a ! i)" using j by simp
qed

lemma match_unique:
  assumes "node_ok nd a" "x \<in> leaves_of (PTR_INTERNAL a)" "y \<in> leaves_of (PTR_INTERNAL a)" "prefix (cover x) c" "prefix (cover y) c"
  shows "x = y"
  using node_leaves(4) [OF assms(1-3)] prefix_both [OF assms(4,5)] by blast

lemma leaves_split:
  assumes "length a = 16" "i < 16"
  shows "leaves_of (PTR_INTERNAL a) = leaves_of (PTR_INTERNAL (a[i := PTR_NULL])) \<union> leaves_of (a ! i)"
    "leaves_of (PTR_INTERNAL (a[i := p])) = leaves_of (PTR_INTERNAL (a[i := PTR_NULL])) \<union> leaves_of p"
  using leaves_update [OF assms, of "a ! i"] leaves_update [OF assms, of PTR_NULL] leaves_update [OF assms, of p] by simp_all

lemma leaves_disjoint:
  assumes "node_ok nd a" "i < 16" "x \<in> leaves_of (a ! i)"
  shows "x \<notin> leaves_of (PTR_INTERNAL (a[i := PTR_NULL]))"
proof -
  have "length a = 16" using assms(1) by (simp add: node_ok_def)
  from leaves_update [OF this assms(2), of PTR_NULL] show ?thesis using slots_apart [OF assms(1,2) _ _ assms(3)] by auto
qed

lemma search_match:
  assumes key: "length key = 20" and trees: "env_trees env trees"
  shows "ready st nd a \<Longrightarrow> prefix nd (nibbles key) \<Longrightarrow> all_laid trees a \<Longrightarrow> PTR_SUBTREE l \<in> leaves_of (PTR_INTERNAL a)
    \<Longrightarrow> prefix (cover (PTR_SUBTREE l)) (nibbles key) \<Longrightarrow> search_good trees env key st nd a"
proof (induction "41 * (20 - unat (key_sha1 l ! 19)) + (40 - length nd)" arbitrary: st nd a l rule: less_induct)
  case less
  let ?i = "nibbles key ! length nd" and ?x = "PTR_SUBTREE l"
  have ok: "node_ok nd a" and g: "get_ptr st nd = PTR_INTERNAL a" and ins: "inside (root_ptr st) nd" using less(2) by (simp_all add: ready_def)
  have l16: "length a = 16" "length nd < 40" using ok by (simp_all add: node_ok_def)
  note ks = key_slot [OF key ok less(3)] and x = node_leaves [OF ok less(5)]
  have xi: "?x \<in> leaves_of (a ! ?i)" using leaf_slot [OF ok less(5) ks(2) _ ks(1)] less(6) by blast
  have match: "matching_subtree key p = Some k \<longleftrightarrow> p = PTR_SUBTREE k \<and> prefix (cover p) (nibbles key)" if "leaf_ok p \<or> p = PTR_NULL \<or> (\<exists>b. p = PTR_INTERNAL b)" for p k
    using that matches_cover [OF key] by (cases p) auto
  have slot: "leaf_ok (a ! j) \<or> a ! j = PTR_NULL \<or> (\<exists>b. a ! j = PTR_INTERNAL b)" if "j < 16" for j
    using ok that placed_leaves [of "nd @ [j]" "a ! j" "a ! j"] by (cases "a ! j") (auto simp: node_ok_def)
  have m0: "k = l \<and> ?i = 0 \<and> a ! 0 = ?x" if "matching_subtree key (a ! 0) = Some k" for k
  proof -
    have k: "a ! 0 = PTR_SUBTREE k" "prefix (cover (PTR_SUBTREE k)) (nibbles key)"
    proof -
      have "0 < (16 :: nat)" by simp
      from match [OF slot [OF this], of k] have "a ! 0 = PTR_SUBTREE k \<and> prefix (cover (a ! 0)) (nibbles key)" using that by blast
      then show "a ! 0 = PTR_SUBTREE k" "prefix (cover (PTR_SUBTREE k)) (nibbles key)" by metis+
    qed
    have "PTR_SUBTREE k \<in> leaves_of (PTR_INTERNAL a)" using leaves_split(1) [OF l16(1), of 0] k(1) by simp
    then have "PTR_SUBTREE k = ?x" using match_unique [OF ok _ less(5) k(2) less(6)] by blast
    moreover have "placed (nd @ [0]) (a ! 0)" using ok unfolding node_ok_def by (metis zero_less_numeral)
    then have "prefix (nd @ [0]) (cover (PTR_SUBTREE k))"
      using placed_leaves [of "nd @ [0]" "PTR_SUBTREE k" "PTR_SUBTREE k"] unfolding k(1) by simp
    then have "prefix (nd @ [0]) (nibbles key)" using k(2) prefix_order.trans by blast
    then have "?i = 0" by (auto simp: prefix_def)
    ultimately show ?thesis using k(1) by simp
  qed
  have gp: "get_ptr st (nd @ [j]) = a ! j" for j by (rule get_ptr_next [OF g])
  show ?case
  proof (cases "a ! ?i")
    case (PTR_INTERNAL c)
    have none: "matching_subtree key (a ! 0) = None" using m0 PTR_INTERNAL by (cases "matching_subtree key (a ! 0)") auto
    have step: "note_tree_search env (Suc f) st nd key = note_tree_search env f st (nd @ [?i]) key" for f
      using none PTR_INTERNAL l16(2) key unfolding note_tree_search.simps search_step_def Let_def gp ks(3) by simp
    have rc: "ready st (nd @ [?i]) c" by (rule ready_in [OF less(2) ks(1) PTR_INTERNAL])
    note sp = leaves_split(1) [OF l16(1) ks(1), unfolded PTR_INTERNAL]
    have "all_laid trees c" using less(4) sp unfolding all_laid_def by blast
    then have "search_good trees env key st (nd @ [?i]) c"
      using less(1) [of l "nd @ [?i]" st c] rc ks(2) xi less(6) l16(2) unfolding PTR_INTERNAL by simp
    then obtain st' nd' c' N where s: "\<forall>fuel \<ge> N. note_tree_search env fuel st (nd @ [?i]) key = Got (st', nd')"
      and f: "found_place trees key st (nd @ [?i]) c st' nd' c'" unfolding search_good_def by blast
    note f = f [unfolded found_place_def]
    let ?b = "a[?i := PTR_INTERNAL c']"
    note sb = leaves_split(2) [OF l16(1) ks(1), of "PTR_INTERNAL c'"]
    have "leaves_of (PTR_INTERNAL c') \<noteq> {}" using f xi unfolding PTR_INTERNAL by blast
    then have "placed (nd @ [?i]) (PTR_INTERNAL c')" using f by (simp add: placed_node_ok)
    then have okb: "node_ok nd ?b" by (rule node_ok_update [OF ok])
    have eq: "notes_eq st' (set_node nd ?b st)"
      using f set_node_below [OF g, of ?i c c'] gp [of ?i] notes_eq_trans unfolding PTR_INTERNAL by blast
    have "no_match key (PTR_INTERNAL ?b)" unfolding no_match_def
    proof (intro allI impI notI)
      fix k
      assume k: "PTR_SUBTREE k \<in> leaves_of (PTR_INTERNAL ?b)" "prefix (cover (PTR_SUBTREE k)) (nibbles key)"
      then have "PTR_SUBTREE k \<in> leaves_of (?b ! ?i)" using leaf_slot [OF okb k(1) ks(2) _ ks(1)] by blast
      then show False using f k(2) l16(1) ks(1) unfolding no_match_def by simp
    qed
    moreover have "prefix nd nd'" using f by (meson append_prefixD)
    moreover have "all_laid trees ?b" using f less(4) unfolding all_laid_def sb sp by blast
    moreover have "notes_in trees (leaves_of (PTR_INTERNAL ?b)) = notes_in trees (leaves_of (PTR_INTERNAL a))"
      using f unfolding sb sp notes_in_Un by blast
    moreover have "leaves_of (PTR_INTERNAL ?b) \<noteq> {}" unfolding sb using \<open>leaves_of (PTR_INTERNAL c') \<noteq> {}\<close> by blast
    ultimately have "found_place trees key st nd a st' nd' ?b" using f okb eq unfolding found_place_def by blast
    moreover have "\<forall>fuel \<ge> Suc N. note_tree_search env fuel st nd key = Got (st', nd')"
      using s step by (metis Suc_le_D Suc_le_mono)
    ultimately show ?thesis unfolding search_good_def by blast
  next
    case (PTR_SUBTREE k)
    then have kl: "a ! ?i = ?x" using xi by simp
    have step: "note_tree_search env (Suc f) st nd key
        = and_then (load_subtree env f (set_ptr (nd @ [?i]) PTR_NULL st) l nd) (\<lambda>st. note_tree_search env f st nd key)" for f
    proof (cases "matching_subtree key (a ! 0)")
      case None
      have "matching_subtree key (a ! ?i) = Some l" using match [OF slot [OF ks(1)]] less(6) kl by simp
      then show ?thesis using None l16(2) key kl unfolding note_tree_search.simps search_step_def Let_def gp ks(3) by simp
    next
      case (Some k')
      then show ?thesis using m0 [OF Some] l16(2) key unfolding note_tree_search.simps search_step_def Let_def gp ks(3) by simp
    qed
    let ?a = "a[?i := PTR_NULL]"
    have st1: "set_ptr (nd @ [?i]) PTR_NULL st = set_node nd ?a st" by (rule set_slot [OF g])
    have oka: "node_ok nd ?a" by (rule node_ok_update [OF ok placed_null])
    note sp = leaves_split(1) [OF l16(1) ks(1), unfolded kl]
    have notin: "?x \<notin> leaves_of (PTR_INTERNAL ?a)" by (rule leaves_disjoint [OF ok ks(1) xi])
    have lo: "laid_out trees l" using less(4,5) by (simp add: all_laid_def)
    then obtain items where it: "trees (val_sha1 l) = Some items" "entries_ok l items" "item_leaves l items \<noteq> []"
      "\<forall>k. PTR_SUBTREE k \<in> set (item_leaves l items) \<longrightarrow> laid_out trees k" by (cases rule: laid_out.cases) blast
    have lk: "length (key_sha1 l) = 20" "unat (key_sha1 l ! 19) < 20" using x(1) by simp_all
    have ap: "\<forall>y \<in> leaves_of (PTR_INTERNAL ?a). apart (cover y) (cover ?x)"
      using x(4) notin sp apart_sym by (metis UnCI)
    obtain st2 b N where b: "\<forall>fuel \<ge> N. load_subtree env fuel (set_node nd ?a st) l nd = Got st2" "notes_eq st2 (set_node nd b (set_node nd ?a st))"
      "node_ok nd b" "leaves_of (PTR_INTERNAL b) = leaves_of (PTR_INTERNAL ?a) \<union> set (item_leaves l items)"
      using load_subtree_ok [OF trees it(1) lk x(2) it(2) ready_set_node [OF ins oka] ap] by blast
    have eq2: "notes_eq st2 (set_node nd b st)" using b(2) set_node_twice notes_eq_trans by blast
    have rd2: "ready st2 nd b" using notes_eq_ready [OF eq2] ready_set_node [OF ins b(3)] by simp
    have laid2: "all_laid trees b" using it(4) less(4) sp b(4) unfolding all_laid_def by blast
    have ni: "notes_in trees (leaves_of (PTR_INTERNAL b)) = notes_in trees (leaves_of (PTR_INTERNAL a))"
      using notes_in_subtree [of trees l, OF it(1)] unfolding b(4) sp notes_in_Un by simp
    have "search_good trees env key st2 nd b"
    proof (cases "no_match key (PTR_INTERNAL b)")
      case True
      then show ?thesis by (rule search_none [OF key rd2 less(3) laid2])
    next
      case False
      then obtain k where k: "PTR_SUBTREE k \<in> leaves_of (PTR_INTERNAL b)" "prefix (cover (PTR_SUBTREE k)) (nibbles key)"
        unfolding no_match_def by blast
      have "PTR_SUBTREE k \<notin> leaves_of (PTR_INTERNAL ?a)"
        using ap k(2) less(6) prefix_both by blast
      then have "PTR_SUBTREE k \<in> set (item_leaves l items)" using k(1) b(4) by blast
      then obtain m n s where "entry_leaf l n m s = PTR_SUBTREE k" by (auto simp: item_leaves_def item_leaf_def)
      from entry_leaf_ok(4) [OF lk this] have "unat (key_sha1 l ! 19) < unat (key_sha1 k ! 19)" "unat (key_sha1 k ! 19) < 20" by simp_all
      then have "20 - unat (key_sha1 k ! 19) < 20 - unat (key_sha1 l ! 19)" by linarith
      then show ?thesis using less(1) [OF _ rd2 less(3) laid2 k] by simp
    qed
    then obtain st' nd' c M where s: "\<forall>fuel \<ge> M. note_tree_search env fuel st2 nd key = Got (st', nd')"
      and f: "found_place trees key st2 nd b st' nd' c" unfolding search_good_def by blast
    have "note_tree_search env fuel st nd key = Got (st', nd')" if "Suc (max N M) \<le> fuel" for fuel
      using that b(1) s by (cases fuel) (simp_all add: step st1)
    moreover have "notes_eq st' (set_node nd c st)"
    proof -
      have "notes_eq st' (set_node nd c st2)" using f by (simp add: found_place_def)
      then show ?thesis using notes_eq_set_node [OF eq2, of nd c] set_node_twice [of nd c b st] notes_eq_trans by blast
    qed
    then have "found_place trees key st nd a st' nd' c"
      using f ni it(3) b(4) unfolding found_place_def by (auto simp: ex_in_conv)
    ultimately show ?thesis unfolding search_good_def by blast
  qed (use xi in simp_all)
qed

lemma search_ok:
  assumes "length key = 20" "env_trees env trees" "ready st nd a" "prefix nd (nibbles key)" "all_laid trees a"
  shows "search_good trees env key st nd a"
  using search_none [OF assms(1,3,4,5)] search_match [OF assms(1-5)] unfolding no_match_def by blast

end
