(* ===== verification/Notes_Ops.thy ===== *)
theory Notes_Ops
  imports Notes_Load
begin

text \<open>
  The operations of \<open>notes.h\<close> on a tree in order: what \<open>get_note\<close>, \<open>add_note\<close> and \<open>init_notes\<close> do to the notes,
  and what removal does.
\<close>

subsection \<open>Trees in order and their notes\<close>

definition notes_ok :: "(name \<rightharpoonup> tree_item list) \<Rightarrow> notes_state \<Rightarrow> bool" where
  "notes_ok trees st \<longleftrightarrow> node_ok [] (nt_root (fst st)) \<and> all_laid trees (nt_root (fst st))"

definition notes_of :: "(name \<rightharpoonup> tree_item list) \<Rightarrow> notes_state \<Rightarrow> (name \<times> name) set" where
  "notes_of trees st = notes_in trees (leaves_of (root_ptr st))"

lemma root_ready: "notes_ok trees st \<Longrightarrow> ready st [] (nt_root (fst st))"
  by (simp add: notes_ok_def ready_def get_ptr_def)

lemma notes_eq_ok: "notes_eq st st' \<Longrightarrow> notes_ok trees st = notes_ok trees st'" "notes_eq st st' \<Longrightarrow> notes_of trees st = notes_of trees st'"
  by (simp_all add: notes_eq_def notes_ok_def notes_of_def root_ptr_def)

lemma set_root: "notes_ok trees (set_node [] b st) \<longleftrightarrow> node_ok [] b \<and> all_laid trees b" "notes_of trees (set_node [] b st) = notes_in trees (leaves_of (PTR_INTERNAL b))"
  by (simp_all add: notes_ok_def notes_of_def set_node_def set_ptr_def root_ptr_def)

text \<open>A state in which the search for a key has ended.\<close>

definition at_place :: "(name \<rightharpoonup> tree_item list) \<Rightarrow> name \<Rightarrow> notes_state \<Rightarrow> nat list \<Rightarrow> nat \<Rightarrow> bool" where
  "at_place trees key st nd j \<longleftrightarrow> notes_ok trees st \<and> no_match key (root_ptr st) \<and> slot_ready st nd j
     \<and> prefix (nd @ [j]) (nibbles key) \<and> (\<forall>c. get_ptr st (nd @ [j]) \<noteq> PTR_INTERNAL c)"

lemma root_search:
  assumes "env_trees env trees" "notes_ok trees st" "length key = 20"
  shows "\<exists>st' nd j N. (\<forall>fuel \<ge> N. note_tree_search env fuel st [] key = Got (st', nd)) \<and> at_place trees key st' nd j
    \<and> notes_of trees st' = notes_of trees st \<and> snd st' = snd st \<and> nt_dirty (fst st') = nt_dirty (fst st)"
proof -
  have "all_laid trees (nt_root (fst st))" using assms(2) by (simp add: notes_ok_def)
  from search_ok [OF assms(3,1) root_ready [OF assms(2)] _ this] obtain st' nd b N where
    s: "\<forall>fuel \<ge> N. note_tree_search env fuel st [] key = Got (st', nd)" and f: "found_place trees key st [] (nt_root (fst st)) st' nd b"
    unfolding search_good_def by auto
  note f = f [unfolded found_place_def]
  then obtain j where j: "slot_ready st' nd j" "prefix (nd @ [j]) (nibbles key)" "\<forall>c. get_ptr st' (nd @ [j]) \<noteq> PTR_INTERNAL c" by blast
  have eq: "notes_eq st' (set_node [] b st)" using f by blast
  have r: "root_ptr st' = PTR_INTERNAL b" using eq by (simp add: notes_eq_def set_node_fields)
  have "notes_ok trees st'" using f notes_eq_ok(1) [OF eq] by (simp add: set_root)
  then have "at_place trees key st' nd j" using j f unfolding at_place_def r by blast
  moreover have "notes_of trees st' = notes_of trees st" using f notes_eq_ok(2) [OF eq] by (simp add: set_root) (simp add: notes_of_def root_ptr_def)
  moreover have "snd st' = snd st" "nt_dirty (fst st') = nt_dirty (fst st)" using eq by (simp_all add: notes_eq_def set_node_fields)
  ultimately show ?thesis using s by blast
qed

lemma has_note_cover:
  "has_note trees x k v \<Longrightarrow> leaf_ok x \<Longrightarrow> (\<And>l. x = PTR_SUBTREE l \<Longrightarrow> laid_out trees l) \<Longrightarrow> prefix (cover x) (nibbles k)"
proof (induction rule: has_note.induct)
  case (2 sub items x k v)
  have lk: "length (key_sha1 sub) = 20" "unat (key_sha1 sub ! 19) < 20" using 2(5) by simp_all
  obtain its where its: "trees (val_sha1 sub) = Some its" "entries_ok sub its"
    "\<forall>l. PTR_SUBTREE l \<in> set (item_leaves sub its) \<longrightarrow> laid_out trees l"
    using 2(6) [OF refl] by (cases rule: laid_out.cases) blast
  have same: "its = items" using its(1) 2(1) by simp
  have "list_all leaf_ok (item_leaves sub items)" using its(2) by (simp add: entries_ok_def same)
  then have ok: "leaf_ok x" using 2(2) by (simp add: list_all_iff)
  have "x = PTR_SUBTREE l \<Longrightarrow> laid_out trees l" for l using its(3) 2(2) unfolding same by blast
  then have "prefix (cover x) (nibbles k)" using 2(4) ok by blast
  moreover obtain m n s where "entry_leaf sub n m s = x" "x \<noteq> PTR_NULL" using 2(2) by (auto simp: item_leaves_def item_leaf_def)
  then have "prefix (cover (PTR_SUBTREE sub)) (cover x)" by (rule entry_leaf_ok(2) [OF lk])
  ultimately show ?case using prefix_order.trans by blast
qed simp

lemma place_leaf:
  "placed at p \<Longrightarrow> x \<in> leaves_of p \<Longrightarrow> inside p xs \<Longrightarrow> \<forall>c. ptr_at p xs \<noteq> PTR_INTERNAL c \<Longrightarrow> prefix (at @ xs) (cover x) \<Longrightarrow> ptr_at p xs = x"
proof (induction p xs arbitrary: at rule: ptr_at.induct)
  case (1 p)
  then show ?case by (cases p) simp_all
next
  case (2 a i "is")
  have ok: "node_ok at a" using 2(2) by (simp add: placed_node_ok)
  have i: "i < 16" "inside (a ! i) is" using 2(4) ok by (simp_all add: node_ok_def)
  have pi: "placed (at @ [i]) (a ! i)" using ok i(1) by (simp add: node_ok_def)
  have "prefix (at @ [i]) (cover x)" using 2(6) by (metis append_prefixD append.assoc append_Cons append_Nil)
  then have "x \<in> leaves_of (a ! i)" using leaf_slot [OF ok 2(3), of i "cover x"] i(1) by simp
  then show ?case using 2(1) [OF pi _ i(2)] 2(5,6) by simp
qed simp_all

lemma found_note:
  assumes "at_place trees key st nd j"
  shows "(key, v) \<in> notes_of trees st \<longleftrightarrow> get_ptr st (nd @ [j]) = PTR_NOTE \<lparr>key_sha1 = key, val_sha1 = v\<rparr>"
proof
  note a = assms [unfolded at_place_def slot_ready_def]
  let ?root = "nt_root (fst st)"
  assume g: "get_ptr st (nd @ [j]) = PTR_NOTE \<lparr>key_sha1 = key, val_sha1 = v\<rparr>"
  have "leaves_of (get_ptr st (nd @ [j])) \<subseteq> leaves_of (root_ptr st)" unfolding get_ptr_root using a by (intro leaves_at) blast
  then have "PTR_NOTE \<lparr>key_sha1 = key, val_sha1 = v\<rparr> \<in> leaves_of (root_ptr st)" using g by simp
  moreover have "has_note trees (PTR_NOTE \<lparr>key_sha1 = key, val_sha1 = v\<rparr>) key v"
    using has_note.intros(1) [of trees "\<lparr>key_sha1 = key, val_sha1 = v\<rparr>"] by simp
  ultimately show "(key, v) \<in> notes_of trees st" unfolding notes_of_def notes_in_def by blast
next
  note a = assms [unfolded at_place_def slot_ready_def]
  let ?root = "nt_root (fst st)"
  have r: "root_ptr st = PTR_INTERNAL ?root" and ok: "node_ok [] ?root" "all_laid trees ?root" using a by (simp_all add: root_ptr_def notes_ok_def)
  assume "(key, v) \<in> notes_of trees st"
  then obtain x where x: "x \<in> leaves_of (root_ptr st)" "has_note trees x key v" by (auto simp: notes_of_def notes_in_def)
  have lx: "leaf_ok x" using node_leaves(1) [OF ok(1)] x(1) by (simp add: r)
  have px: "prefix (cover x) (nibbles key)" using has_note_cover [OF x(2) lx] x(1) ok(2) unfolding all_laid_def r by blast
  obtain l where l: "x = PTR_NOTE l"
    using lx x(1) px a unfolding no_match_def by (cases x) auto
  have k: "key_sha1 l = key" "val_sha1 l = v" using x(2) unfolding l by (auto elim: has_note_noteE)
  have p: "placed [] (root_ptr st)" using ok(1) x(1) by (auto simp: r placed_node_ok)
  have "ptr_at (root_ptr st) (nd @ [j]) = x" using place_leaf [OF p x(1), of "nd @ [j]"] a k unfolding get_ptr_root l by simp
  then show "get_ptr st (nd @ [j]) = PTR_NOTE \<lparr>key_sha1 = key, val_sha1 = v\<rparr>" using k by (simp add: get_ptr_root l)
qed

lemma set_ptr_dirty: "at \<noteq> [] \<Longrightarrow> nt_dirty (fst (set_ptr at p st)) = nt_dirty (fst st)"
  by (rule set_ptr_eq [of at st p]) simp_all

text \<open>Storing at the place.\<close>

lemma set_place:
  assumes ok: "node_ok [] b" and r: "root_ptr st = PTR_INTERNAL b" and ins: "inside (root_ptr st) at" and n: "placed at n" "leaves_of n \<noteq> {}" and ne: "at \<noteq> []"
  shows "node_ok [] (nt_root (fst (set_ptr at n st)))"
    "leaves_of (root_ptr (set_ptr at n st)) = (leaves_of (root_ptr st) - leaves_of (get_ptr st at)) \<union> leaves_of n"
proof -
  obtain i rest where at: "at = i # rest" using ne by (cases at) auto
  have i: "i < 16" "inside (b ! i) rest" "length b = 16" using ins ok by (simp_all add: r at node_ok_def)
  have pi: "placed ([] @ [i]) (b ! i)" using ok i(1) unfolding node_ok_def by blast
  let ?q = "put_at (b ! i) rest n"
  have "placed ([] @ [i]) ?q" using placed_put [OF pi _ n(2), of rest] n(1) by (simp add: at)
  from node_ok_update [OF ok this] have ok': "node_ok [] (b[i := ?q])" .
  have root: "root_ptr (set_ptr at n st) = PTR_INTERNAL (b[i := ?q])" using set_ptr_root(1) [OF ne, of n st] by (simp add: r at)
  then show "node_ok [] (nt_root (fst (set_ptr at n st)))" using ok' by (simp add: root_ptr_def)
  have g: "get_ptr st at = ptr_at (b ! i) rest" by (simp add: get_ptr_root r at)
  have sub: "leaves_of (ptr_at (b ! i) rest) \<subseteq> leaves_of (b ! i)" by (rule leaves_at [OF i(2)])
  have "leaves_of (PTR_INTERNAL (b[i := PTR_NULL])) \<inter> leaves_of (b ! i) = {}" using leaves_disjoint [OF ok i(1)] by blast
  then show "leaves_of (root_ptr (set_ptr at n st)) = (leaves_of (root_ptr st) - leaves_of (get_ptr st at)) \<union> leaves_of n"
    unfolding root g r leaves_split(2) [OF i(3,1), of ?q] leaves_split(1) [OF i(3,1)] leaves_put [OF pi i(2)] using sub by blast
qed

text \<open>A new leaf at the place, where \<open>old\<close> were the leaves.\<close>

lemma put_place:
  assumes at: "at_place trees key st nd j" and n: "placed (nd @ [j]) n" "leaves_of n = L" "L \<noteq> {}" "\<forall>l. PTR_SUBTREE l \<in> L \<longrightarrow> PTR_SUBTREE l \<in> leaves_of (get_ptr st (nd @ [j]))"
  shows "notes_ok trees (set_ptr (nd @ [j]) n st)"
    "leaves_of (root_ptr (set_ptr (nd @ [j]) n st)) = (leaves_of (root_ptr st) - leaves_of (get_ptr st (nd @ [j]))) \<union> L"
proof -
  note a = at [unfolded at_place_def slot_ready_def notes_ok_def]
  have ok: "node_ok [] (nt_root (fst st))" and ins: "inside (root_ptr st) (nd @ [j])" using a by blast+
  have ne: "leaves_of n \<noteq> {}" "nd @ [j] \<noteq> []" using n(2,3) by simp_all
  note s = set_place [OF ok _ ins n(1) ne(1) ne(2), unfolded root_ptr_def, OF refl, folded root_ptr_def]
  show l: "leaves_of (root_ptr (set_ptr (nd @ [j]) n st)) = (leaves_of (root_ptr st) - leaves_of (get_ptr st (nd @ [j]))) \<union> L"
    using s(2) n(2) by simp
  have "leaves_of (get_ptr st (nd @ [j])) \<subseteq> leaves_of (root_ptr st)" unfolding get_ptr_root by (rule leaves_at [OF ins])
  then have "all_laid trees (nt_root (fst (set_ptr (nd @ [j]) n st)))"
    using a n(4) l unfolding all_laid_def root_ptr_def by blast
  then show "notes_ok trees (set_ptr (nd @ [j]) n st)" using s(1) by (simp add: notes_ok_def)
qed

subsection \<open>Reading a note\<close>

lemma place_nibble: "length key = 20 \<Longrightarrow> at_place trees key st nd j \<Longrightarrow> GET_NIBBLE (length nd) key = j"
  unfolding at_place_def using next_nibble(1) [OF _ prefix_order.refl] by blast

lemma leaf_eq: "l = \<lparr>key_sha1 = k, val_sha1 = v\<rparr> \<longleftrightarrow> key_sha1 l = k \<and> val_sha1 l = v"
  by (cases l) auto

lemma get_note_ok:
  assumes "env_trees env trees" "notes_ok trees st" "length key = 20"
  shows "\<exists>st' r N. (\<forall>fuel \<ge> N. get_note env fuel key st = Got (st', r)) \<and> notes_ok trees st' \<and> notes_of trees st' = notes_of trees st
    \<and> snd st' = snd st \<and> (\<forall>v. r = Some v \<longleftrightarrow> (key, v) \<in> notes_of trees st)"
proof -
  obtain st' nd j N where s: "\<forall>fuel \<ge> N. note_tree_search env fuel st [] key = Got (st', nd)" and a: "at_place trees key st' nd j"
    and n: "notes_of trees st' = notes_of trees st" "snd st' = snd st" using root_search [OF assms] by blast
  let ?r = "case get_ptr st' (nd @ [j]) of PTR_NOTE l \<Rightarrow> (if key_sha1 l = key then Some (val_sha1 l) else None) | _ \<Rightarrow> None"
  have "get_note env fuel key st = Got (st', ?r)" if "N \<le> fuel" for fuel
  proof -
    have "note_tree_search env fuel st [] key = Got (st', nd)" using s that by blast
    then show ?thesis by (simp add: get_note_def note_tree_find_def place_nibble [OF assms(3) a] split: note_ptr.split)
  qed
  moreover have "?r = Some v \<longleftrightarrow> (key, v) \<in> notes_of trees st" for v
    unfolding n(1) [symmetric] found_note [OF a] by (auto simp: leaf_eq split: note_ptr.split)
  moreover have "notes_ok trees st'" using a by (simp add: at_place_def)
  ultimately show ?thesis using n by blast
qed

lemma notes_functional:
  assumes "env_trees env trees" "notes_ok trees st" "length key = 20" "(key, v) \<in> notes_of trees st" "(key, w) \<in> notes_of trees st"
  shows "v = w"
proof -
  obtain r :: "name option" where "\<forall>v. r = Some v \<longleftrightarrow> (key, v) \<in> notes_of trees st"
    using get_note_ok [OF assms(1-3)] by blast
  then show ?thesis using assms(4,5) by (metis option.inject)
qed

subsection \<open>Adding a note\<close>

text \<open>What becomes of the note that is there and the new one: the same value is not combined with itself.\<close>

definition met :: "combine_notes_fn \<Rightarrow> combine_notes_fn" where
  "met combine cur new db = (if cur = new then (db, cur, 0) else combine cur new db)"

definition dirty :: "notes_state \<Rightarrow> notes_state" where
  "dirty st = ((fst st)\<lparr>nt_dirty := True\<rparr>, snd st)"

lemma dirty_same: "notes_ok trees (dirty st) = notes_ok trees st" "notes_of trees (dirty st) = notes_of trees st"
  "snd (dirty st) = snd st" "nt_dirty (fst (dirty st))"
  by (simp_all add: dirty_def notes_ok_def notes_of_def root_ptr_def)

lemma add_note_search:
  assumes "env_trees env trees" "notes_ok trees st" "length key = 20"
  shows "\<exists>st1 nd j N. at_place trees key st1 nd j \<and> notes_of trees st1 = notes_of trees st \<and> snd st1 = snd st \<and> nt_dirty (fst st1)
    \<and> (\<forall>f \<ge> N. note_tree_search env f (dirty st) [] key = Got (st1, nd)
      \<and> add_note env (Suc f) combine key v st
        = insert_step (load_subtree env f) (note_tree_search env f) (note_tree_insert env f) combine (dirty st) [] (PTR_NOTE \<lparr>key_sha1 = key, val_sha1 = v\<rparr>))"
proof -
  obtain st1 nd j N where "\<forall>f \<ge> N. note_tree_search env f (dirty st) [] key = Got (st1, nd)" "at_place trees key st1 nd j"
    "notes_of trees st1 = notes_of trees st" "snd st1 = snd st" "nt_dirty (fst st1)"
    using root_search [OF assms(1) _ assms(3), of "dirty st"] assms(2) by (auto simp: dirty_same)
  moreover have "add_note env (Suc f) combine key v st
        = insert_step (load_subtree env f) (note_tree_search env f) (note_tree_insert env f) combine (dirty st) [] (PTR_NOTE \<lparr>key_sha1 = key, val_sha1 = v\<rparr>)" for f
    by (simp add: add_note_def note_tree_insert.simps dirty_def)
  ultimately show ?thesis by blast
qed

lemma from_Suc: "\<forall>f \<ge> N. P (Suc f) \<Longrightarrow> \<forall>fuel \<ge> Suc N. P (fuel :: nat)"
  by (metis Suc_le_D Suc_le_mono)

lemma place_apart:
  assumes a: "at_place trees key st nd j" and key: "length key = 20" and no: "\<forall>v. (key, v) \<notin> notes_of trees st"
  shows "\<forall>x \<in> leaves_of (get_ptr st (nd @ [j])). apart (cover x) (nibbles key)"
proof
  fix x
  assume x: "x \<in> leaves_of (get_ptr st (nd @ [j]))"
  note a' = a [unfolded at_place_def slot_ready_def]
  have "x \<in> leaves_of (root_ptr st)" using x a' leaves_at unfolding get_ptr_root by blast
  then have nm: "\<not> prefix (cover (PTR_SUBTREE l)) (nibbles key)" if "x = PTR_SUBTREE l" for l using that a' unfolding no_match_def by blast
  have ok: "leaf_ok x" using placed_leaves [OF _ x] a' by blast
  have xp: "get_ptr st (nd @ [j]) = x" using x a' by (cases "get_ptr st (nd @ [j])") auto
  show "apart (cover x) (nibbles key)"
  proof (rule leaf_ok_cases [OF ok])
    fix l
    assume l: "x = PTR_NOTE l"
    have "key_sha1 l \<noteq> key" using no found_note [OF a, of "val_sha1 l"] xp by (auto simp: l leaf_eq)
    moreover have "length (key_sha1 l) = length key" using ok key by (simp add: l)
    ultimately show ?thesis unfolding apart_def l cover.simps nibbles_prefix by (metis not_equal_is_parallel parallel_def)
  next
    fix l
    assume l: "x = PTR_SUBTREE l"
    have "length (cover x) < 40" using ok by (simp add: l)
    then have "\<not> prefix (nibbles key) (cover x)" using key by (auto dest: prefix_length_le)
    then show ?thesis using nm [OF l] l by (simp add: apart_def del: cover.simps)
  qed
qed

lemma notes_in_insert: "notes_in trees (insert (PTR_NOTE l) L) = insert (key_sha1 l, val_sha1 l) (notes_in trees L)"
  using notes_in_Un [of trees "{PTR_NOTE l}" L] by (simp add: notes_in_note)

lemma add_note_new:
  assumes trees: "env_trees env trees" and ok: "notes_ok trees st" and key: "length key = 20" and v: "\<not> is_null_sha1 v"
    and no: "\<forall>w. (key, w) \<notin> notes_of trees st"
  shows "\<exists>st' N. (\<forall>fuel \<ge> N. add_note env fuel combine key v st = Got (st', 0)) \<and> notes_ok trees st' \<and> nt_dirty (fst st')
    \<and> notes_of trees st' = insert (key, v) (notes_of trees st) \<and> snd st' = snd st"
proof -
  let ?e = "PTR_NOTE \<lparr>key_sha1 = key, val_sha1 = v\<rparr>"
  obtain st1 nd j N where a: "at_place trees key st1 nd j" and n: "notes_of trees st1 = notes_of trees st" "snd st1 = snd st" "nt_dirty (fst st1)"
    and s: "\<forall>f \<ge> N. note_tree_search env f (dirty st) [] key = Got (st1, nd)
      \<and> add_note env (Suc f) combine key v st = insert_step (load_subtree env f) (note_tree_search env f) (note_tree_insert env f) combine (dirty st) [] ?e"
    using add_note_search [OF trees ok key] by blast
  have e: "leaf_ok ?e" "cover ?e = nibbles key" "key_sha1 (leaf_of ?e) = key" using key v by simp_all
  note a' = a [unfolded at_place_def]
  have rd: "slot_ready st1 nd j" and pc: "prefix (nd @ [j]) (cover ?e)" and nint: "\<forall>c. get_ptr st1 (nd @ [j]) \<noteq> PTR_INTERNAL c"
    using a' unfolding e(2) by blast+
  have ap: "\<forall>x \<in> leaves_of (get_ptr st1 (nd @ [j])). apart (cover x) (cover ?e)"
    using place_apart [OF a key] no unfolding n(1) e(2) by blast
  have IH: "\<exists>q N. placed (nd2 @ [i]) q \<and> leaves_of q = insert e (leaves_of (get_ptr st (nd2 @ [i])))
        \<and> (\<forall>fuel \<ge> N. note_tree_insert env fuel combine st nd2 e = Got (set_ptr (nd2 @ [i]) q st, 0))"
    if "leaf_ok e" "slot_ready st nd2 i" "prefix (nd2 @ [i]) (cover e)"
      "\<forall>x \<in> leaves_of (get_ptr st (nd2 @ [i])). apart (cover x) (cover e)" for nd2 i st e
    by (rule insert_fresh [OF that])
  obtain q M where q: "placed (nd @ [j]) q" "leaves_of q = insert ?e (leaves_of (get_ptr st1 (nd @ [j])))"
    "\<forall>f \<ge> M. \<forall>load search st0 nd0. search st0 nd0 (key_sha1 (leaf_of ?e)) = Got (st1, nd)
      \<longrightarrow> insert_step load search (note_tree_insert env f) combine st0 nd0 ?e = Got (set_ptr (nd @ [j]) q st1, 0)"
    using insert_place [OF IH e(1) rd pc nint ap] by blast
  let ?st = "set_ptr (nd @ [j]) q st1"
  note p = put_place [OF a q(1,2)]
  have run: "add_note env (Suc f) combine key v st = Got (?st, 0)" if "max N M \<le> f" for f
  proof -
    have "note_tree_search env f (dirty st) [] key = Got (st1, nd)" using s that by simp
    then have "insert_step (load_subtree env f) (note_tree_search env f) (note_tree_insert env f) combine (dirty st) [] ?e = Got (?st, 0)"
      using q(3) [rule_format, of f "note_tree_search env f" "dirty st" "[]" "load_subtree env f"] that unfolding e(3) by simp
    then show ?thesis using s that by simp
  qed
  have "\<forall>fuel \<ge> Suc (max N M). add_note env fuel combine key v st = Got (?st, 0)" using run by (intro from_Suc) blast
  moreover have "notes_ok trees ?st" using p(1) by simp
  moreover have "leaves_of (get_ptr st1 (nd @ [j])) \<subseteq> leaves_of (root_ptr st1)"
    using a' leaves_at unfolding get_ptr_root slot_ready_def by blast
  then have "leaves_of (root_ptr ?st) = {?e} \<union> leaves_of (root_ptr st1)" using p(2) by auto
  then have "notes_of trees ?st = insert (key, v) (notes_of trees st1)"
    unfolding notes_of_def by (simp add: notes_in_insert)
  moreover have "snd ?st = snd st1" "nt_dirty (fst ?st)" using n(3) by (simp_all add: set_ptr_root set_ptr_dirty)
  ultimately show ?thesis unfolding n(1,2) by blast
qed

text \<open>Without the leaf at the place, the notes are those of the other keys.\<close>

lemma note_gone:
  assumes a: "at_place trees key st nd j" and g: "get_ptr st (nd @ [j]) = PTR_NOTE \<lparr>key_sha1 = key, val_sha1 = v\<rparr>"
  shows "notes_in trees (leaves_of (root_ptr st) - {PTR_NOTE \<lparr>key_sha1 = key, val_sha1 = v\<rparr>}) = notes_of trees st - {(key, v)}"
proof -
  let ?x = "PTR_NOTE \<lparr>key_sha1 = key, val_sha1 = v\<rparr>" and ?root = "nt_root (fst st)"
  note a' = a [unfolded at_place_def slot_ready_def]
  have r: "root_ptr st = PTR_INTERNAL ?root" and ok: "node_ok [] ?root" "all_laid trees ?root" using a' by (simp_all add: root_ptr_def notes_ok_def)
  have "leaves_of (get_ptr st (nd @ [j])) \<subseteq> leaves_of (root_ptr st)" unfolding get_ptr_root using a' by (intro leaves_at) blast
  then have x: "?x \<in> leaves_of (root_ptr st)" unfolding g by simp
  then have "leaves_of (root_ptr st) = insert ?x (leaves_of (root_ptr st) - {?x})" by blast
  then have "notes_of trees st = insert (key, v) (notes_in trees (leaves_of (root_ptr st) - {?x}))"
    unfolding notes_of_def using notes_in_insert [of trees "\<lparr>key_sha1 = key, val_sha1 = v\<rparr>" "leaves_of (root_ptr st) - {?x}"] by simp
  moreover have "(key, v) \<notin> notes_in trees (leaves_of (root_ptr st) - {?x})"
  proof
    assume "(key, v) \<in> notes_in trees (leaves_of (root_ptr st) - {?x})"
    then obtain y where y: "y \<in> leaves_of (root_ptr st)" "y \<noteq> ?x" "has_note trees y key v" by (auto simp: notes_in_def)
    have ly: "leaf_ok y" using node_leaves(1) [OF ok(1)] y(1) by (simp add: r)
    have "prefix (cover y) (nibbles key)" using has_note_cover [OF y(3) ly] y(1) ok(2) unfolding all_laid_def r by blast
    moreover have "apart (cover ?x) (cover y)" using node_leaves(4) [OF ok(1)] x y(1,2) unfolding r by blast
    ultimately show False by (simp add: apart_def)
  qed
  ultimately show ?thesis by blast
qed

lemma add_note_met:
  assumes trees: "env_trees env trees" and ok: "notes_ok trees st" and key: "length key = 20"
    and old: "(key, old) \<in> notes_of trees st" and m: "met combine old v (snd st) = (db, w, ret)" and w: "\<not> is_null_sha1 w"
  shows "\<exists>st' N. (\<forall>fuel \<ge> N. add_note env fuel combine key v st = Got (st', ret)) \<and> notes_ok trees st' \<and> nt_dirty (fst st')
    \<and> notes_of trees st' = insert (key, w) (notes_of trees st - {(key, old)}) \<and> snd st' = db"
proof -
  let ?e = "PTR_NOTE \<lparr>key_sha1 = key, val_sha1 = v\<rparr>" and ?l = "\<lparr>key_sha1 = key, val_sha1 = old\<rparr>" and ?l' = "\<lparr>key_sha1 = key, val_sha1 = w\<rparr>"
  obtain st1 nd j N where a: "at_place trees key st1 nd j" and n: "notes_of trees st1 = notes_of trees st" "snd st1 = snd st" "nt_dirty (fst st1)"
    and s: "\<forall>f \<ge> N. note_tree_search env f (dirty st) [] key = Got (st1, nd)
      \<and> add_note env (Suc f) combine key v st = insert_step (load_subtree env f) (note_tree_search env f) (note_tree_insert env f) combine (dirty st) [] ?e"
    using add_note_search [OF trees ok key] by blast
  have g: "get_ptr st1 (nd @ [j]) = PTR_NOTE ?l" using old found_note [OF a] unfolding n(1) by blast
  note nib = place_nibble [OF key a]
  show ?thesis
  proof (cases "old = v")
    case True
    then have "add_note env (Suc f) combine key v st = Got (st1, ret)" if "N \<le> f" for f
      using s that g m nib by (simp add: insert_step_def combine_step_def met_def Let_def)
    then have "\<forall>fuel \<ge> Suc N. add_note env fuel combine key v st = Got (st1, ret)" by (intro from_Suc) blast
    moreover have "insert (key, w) (notes_of trees st - {(key, old)}) = notes_of trees st" "snd st = db" using m True old by (auto simp: met_def)
    moreover have "notes_ok trees st1" using a by (simp add: at_place_def)
    ultimately show ?thesis using n by metis
  next
    case False
    let ?st1 = "(fst st1, db)" and ?at = "nd @ [j]"
    let ?st = "set_ptr ?at (PTR_NOTE ?l') ?st1"
    have c: "combine old v (snd st) = (db, w, ret)" using m False by (simp add: met_def)
    have a2: "at_place trees key ?st1 nd j" using a by (simp add: at_place_def notes_ok_def root_ptr_def slot_ready_def get_ptr_def)
    have g2: "get_ptr ?st1 ?at = PTR_NOTE ?l" using g by (simp add: get_ptr_def)
    have r2: "root_ptr ?st1 = root_ptr st1" by (simp add: root_ptr_def)
    have "add_note env (Suc f) combine key v st = Got (?st, ret)" if "N \<le> f" for f
      using s that g c w nib False n(2) by (simp add: insert_step_def combine_step_def Let_def)
    then have "\<forall>fuel \<ge> Suc N. add_note env fuel combine key v st = Got (?st, ret)" by (intro from_Suc) blast
    moreover have "leaf_ok (PTR_NOTE ?l')" "prefix ?at (cover (PTR_NOTE ?l'))" using key w a by (simp_all add: at_place_def)
    then have pl: "placed ?at (PTR_NOTE ?l')" by (rule placed_leaf)
    note p = put_place [OF a2 pl leaves_of.simps(3), unfolded g2 r2]
    have "notes_ok trees ?st" by (rule p(1)) simp_all
    moreover have "notes_of trees ?st = insert (key, w) (notes_of trees st - {(key, old)})"
    proof -
      have l: "leaves_of (root_ptr ?st) = insert (PTR_NOTE ?l') (leaves_of (root_ptr st1) - {PTR_NOTE ?l})" using p(2) by simp
      have "notes_in trees (leaves_of (root_ptr st1) - {PTR_NOTE ?l}) = notes_of trees st - {(key, old)}"
        by (rule note_gone [OF a g, unfolded n(1)])
      then show ?thesis unfolding notes_of_def l notes_in_insert by simp
    qed
    moreover have "snd ?st = db" "nt_dirty (fst ?st)" using n(3) by (simp_all add: set_ptr_root set_ptr_dirty)
    ultimately show ?thesis by metis
  qed
qed

subsection \<open>Removing a note\<close>

text \<open>
  The walk towards the root puts the only entry of a node in the place of the node. This is right when the entry is a
  leaf; \<open>lifts_node\<close> says that on the way it is a node, which has then lost a level.
\<close>

fun lifts_node :: "nat list \<Rightarrow> notes_state \<Rightarrow> bool" where
  "lifts_node [] st = False"
| "lifts_node (i # up) st =
     (case note_tree_consolidate (get_ptr st (rev (i # up))) of None \<Rightarrow> False
      | Some (PTR_INTERNAL _) \<Rightarrow> True
      | Some p \<Rightarrow> lifts_node up (set_ptr (rev (i # up)) p st))"

definition removal_clean :: "notes_env \<Rightarrow> nat \<Rightarrow> name \<Rightarrow> notes_state \<Rightarrow> bool" where
  "removal_clean env fuel key st =
     (case note_tree_search env fuel st [] key of
        Got (st, nd) \<Rightarrow> length nd < parent_stack \<and> \<not> lifts_node (rev nd) (set_ptr (nd @ [GET_NIBBLE (length nd) key]) PTR_NULL st)
      | _ \<Rightarrow> False)"

lemma inside_node:
  assumes "node_ok [] b" "inside (PTR_INTERNAL b) xs" "ptr_at (PTR_INTERNAL b) xs = PTR_INTERNAL a"
  shows "node_ok xs a"
proof (cases xs)
  case (Cons i rest)
  have i: "i < 16" "inside (b ! i) rest" using assms(1,2) by (simp_all add: Cons node_ok_def)
  have "placed ([] @ [i]) (b ! i)" using assms(1) i(1) unfolding node_ok_def by blast
  from placed_at [OF this i(2)] show ?thesis using assms(3) by (simp add: Cons placed_node_ok)
qed (use assms in simp)

text \<open>The pointers of a node are null, or leaves, or nodes; a node with no other entry has the leaves of its only one.\<close>

lemma filter_one:
  assumes "filter (\<lambda>p. p \<noteq> PTR_NULL) a = [p]"
  shows "leaves_of (PTR_INTERNAL a) = leaves_of p" "p \<in> set a" "p \<noteq> PTR_NULL"
proof -
  have s: "set a - {PTR_NULL} = {p}" using arg_cong [OF assms, of set] by auto
  then show "p \<in> set a" "p \<noteq> PTR_NULL" by blast+
  have "set a \<subseteq> {PTR_NULL, p}" using s by blast
  then show "leaves_of (PTR_INTERNAL a) = leaves_of p" unfolding leaves_of.simps using \<open>p \<in> set a\<close> by fastforce
qed

lemma filter_none: "filter (\<lambda>p. p \<noteq> PTR_NULL) a = [] \<Longrightarrow> leaves_of (PTR_INTERNAL a) = {}"
  unfolding leaves_of.simps by (fastforce simp: filter_empty_conv)

lemma node_leaf_up:
  assumes "node_ok (at @ [i]) a" "p \<in> set a" "\<forall>c. p \<noteq> PTR_INTERNAL c"
  shows "placed (at @ [i]) p"
proof -
  obtain k where "k < 16" "p = a ! k" using assms(1,2) by (auto simp: node_ok_def in_set_conv_nth)
  then have p: "placed (at @ [i] @ [k]) p" using assms(1) by (simp add: node_ok_def)
  show ?thesis
  proof (cases "p = PTR_NULL")
    case False
    then have "p \<in> leaves_of p" using assms(3) by (cases p) simp_all
    then have "leaf_ok p" "prefix (at @ [i] @ [k]) (cover p)" using placed_leaves [OF p] by blast+
    then show ?thesis by (intro placed_leaf) (auto simp: prefix_def)
  qed (simp add: placed_null)
qed

lemma placed_nonnull: "placed at p \<Longrightarrow> p \<noteq> PTR_NULL \<Longrightarrow> leaves_of p \<noteq> {}"
  by (induction rule: placed.induct) (auto simp: leaves_leaf)

lemma put_root:
  assumes ok: "node_ok [] b" and ins: "inside (PTR_INTERNAL b) at" and n: "placed at n" "leaves_of n \<noteq> {}" and ne: "at \<noteq> []"
  shows "\<exists>c. put_at (PTR_INTERNAL b) at n = PTR_INTERNAL c \<and> node_ok [] c
    \<and> leaves_of (PTR_INTERNAL c) = (leaves_of (PTR_INTERNAL b) - leaves_of (ptr_at (PTR_INTERNAL b) at)) \<union> leaves_of n"
proof -
  let ?st = "(\<lparr>nt_root = b, nt_non_notes = [], nt_prev = 0, nt_dirty = False\<rparr>, Map.empty) :: notes_state"
  have r: "root_ptr ?st = PTR_INTERNAL b" by (simp add: root_ptr_def)
  note s = set_place [OF ok r ins [folded r] n ne]
  have "put_at (PTR_INTERNAL b) at n = root_ptr (set_ptr at n ?st)" by (simp only: set_ptr_root(1) [OF ne] r)
  then show ?thesis using s unfolding get_ptr_root r by (simp add: root_ptr_def)
qed

lemma consolidate_ok:
  assumes b: "node_ok [] b" and R: "R = PTR_INTERNAL b"
  shows "root_ptr st = put_at R (rev up) (PTR_INTERNAL a) \<Longrightarrow> inside R (rev up) \<Longrightarrow> node_ok (rev up) a
    \<Longrightarrow> \<not> lifts_node up st
    \<Longrightarrow> \<exists>c. root_ptr (consolidate_up up st) = PTR_INTERNAL c \<and> node_ok [] c
      \<and> leaves_of (PTR_INTERNAL c) = (leaves_of R - leaves_of (ptr_at R (rev up))) \<union> leaves_of (PTR_INTERNAL a)
      \<and> snd (consolidate_up up st) = snd st \<and> nt_dirty (fst (consolidate_up up st)) = nt_dirty (fst st)"
proof (induction up arbitrary: st a)
  case Nil
  then show ?case by simp
next
  case (Cons i up)
  let ?at = "rev up" and ?nd = "rev up @ [i]"
  have nd: "rev (i # up) = ?nd" by simp
  note pr = Cons.prems [unfolded nd]
  have g: "get_ptr st ?nd = PTR_INTERNAL a" unfolding get_ptr_root pr(1) by (rule ptr_at_put [OF pr(2)])
  have con: "note_tree_consolidate (get_ptr st ?nd) = (case filter (\<lambda>p. p \<noteq> PTR_NULL) a of [] \<Rightarrow> Some PTR_NULL | [p] \<Rightarrow> Some p | _ \<Rightarrow> None)"
    unfolding g by (simp add: note_tree_consolidate_def)
  have up: "inside R ?at" using pr(2) by (simp add: inside_append)
  obtain a0 where a0: "ptr_at R ?at = PTR_INTERNAL a0" "i < length a0"
    using pr(2) unfolding inside_append by (cases "ptr_at R ?at") auto
  have ok0: "node_ok ?at a0" by (rule inside_node [OF b up [unfolded R] a0(1) [unfolded R]])
  have i: "i < 16" "length a0 = 16" using ok0 a0(2) by (simp_all add: node_ok_def)
  have slot: "ptr_at R ?nd = a0 ! i" using a0 by (simp add: ptr_at_append)
  show ?case
  proof (cases "note_tree_consolidate (get_ptr st ?nd)")
    case None
    then have "filter (\<lambda>p. p \<noteq> PTR_NULL) a \<noteq> []" unfolding con by (auto split: list.splits)
    then obtain p where "p \<in> set (filter (\<lambda>p. p \<noteq> PTR_NULL) a)" using hd_in_set by blast
    then have p: "p \<in> set a" "p \<noteq> PTR_NULL" by auto
    then obtain k where "k < 16" "a ! k = p" using pr(3) by (auto simp: node_ok_def in_set_conv_nth)
    then have "placed (?nd @ [k]) p" using pr(3) unfolding node_ok_def by blast
    then have "leaves_of p \<noteq> {}" using placed_nonnull p(2) by blast
    then have ne: "leaves_of (PTR_INTERNAL a) \<noteq> {}" using p(1) unfolding leaves_of.simps by blast
    then have "placed ?nd (PTR_INTERNAL a)" using pr(3) by (simp add: placed_node_ok)
    from put_root [OF b pr(2) [unfolded R] this ne] show ?thesis using None pr(1) unfolding R nd by (simp add: R)
  next
    case (Some p)
    have p: "placed ?nd p" "leaves_of p = leaves_of (PTR_INTERNAL a)"
    proof -
      have "\<forall>c. p \<noteq> PTR_INTERNAL c" using pr(4) Some by auto
      then show "placed ?nd p" "leaves_of p = leaves_of (PTR_INTERNAL a)"
        using Some [unfolded con] filter_one [of a p] node_leaf_up [OF pr(3)] filter_none [of a]
        by (auto split: list.splits intro: placed_null)
    qed
    let ?st = "set_ptr ?nd p st"
    have run: "consolidate_up (i # up) st = consolidate_up up ?st" using Some by simp
    have nl: "\<not> lifts_node up ?st" using pr(4) Some by (auto split: note_ptr.splits)
    have "root_ptr ?st = put_at R ?nd p" using set_ptr_root(1) [of ?nd p st] by (simp add: pr(1) put_at_put)
    also have "\<dots> = put_at R ?at (PTR_INTERNAL (a0[i := p]))" by (simp add: put_at_append a0(1))
    finally have r: "root_ptr ?st = put_at R ?at (PTR_INTERNAL (a0[i := p]))" .
    have ok: "node_ok ?at (a0[i := p])" by (rule node_ok_update [OF ok0 p(1)])
    have sub: "leaves_of (PTR_INTERNAL a0) \<subseteq> leaves_of R" unfolding a0(1) [symmetric] by (rule leaves_at [OF up])
    have "(leaves_of R - leaves_of (ptr_at R ?at)) \<union> leaves_of (PTR_INTERNAL (a0[i := p]))
        = (leaves_of R - leaves_of (ptr_at R ?nd)) \<union> leaves_of (PTR_INTERNAL a)"
    proof -
      have "leaves_of (PTR_INTERNAL (a0[i := PTR_NULL])) \<inter> leaves_of (a0 ! i) = {}" using leaves_disjoint [OF ok0 i(1)] by blast
      then show ?thesis unfolding a0(1) slot p(2) [symmetric] leaves_split(2) [OF i(2,1), of p]
        using sub unfolding leaves_split(1) [OF i(2,1)] by blast
    qed
    moreover have "snd ?st = snd st" "nt_dirty (fst ?st) = nt_dirty (fst st)" by (simp_all add: set_ptr_root set_ptr_dirty)
    ultimately show ?thesis using Cons.IH [OF r up ok nl] unfolding run nd by simp
  qed
qed

lemma remove_place:
  assumes a: "at_place trees key st nd j" and g: "get_ptr st (nd @ [j]) = PTR_NOTE \<lparr>key_sha1 = key, val_sha1 = v\<rparr>"
    and nl: "\<not> lifts_node (rev nd) (set_ptr (nd @ [j]) PTR_NULL st)"
  defines "st' \<equiv> consolidate_up (rev nd) (set_ptr (nd @ [j]) PTR_NULL st)"
  shows "notes_ok trees st'" "notes_of trees st' = notes_of trees st - {(key, v)}" "snd st' = snd st" "nt_dirty (fst st') = nt_dirty (fst st)"
proof -
  note a' = a [unfolded at_place_def slot_ready_def notes_ok_def]
  let ?b = "nt_root (fst st)" and ?st = "set_ptr (nd @ [j]) PTR_NULL st" and ?x = "PTR_NOTE \<lparr>key_sha1 = key, val_sha1 = v\<rparr>"
  have ok: "node_ok [] ?b" and laid: "all_laid trees ?b" and r: "root_ptr st = PTR_INTERNAL ?b" and ins: "inside (root_ptr st) (nd @ [j])"
    using a' by (simp_all add: root_ptr_def)
  obtain a0 where a0: "ptr_at (root_ptr st) nd = PTR_INTERNAL a0" "j < length a0"
    using ins unfolding inside_append by (cases "ptr_at (root_ptr st) nd") auto
  have up: "inside (root_ptr st) nd" using ins by (simp add: inside_append)
  have ok0: "node_ok nd a0" by (rule inside_node [OF ok up [unfolded r] a0(1) [unfolded r]])
  have j: "j < 16" "length a0 = 16" using ok0 a0(2) by (simp_all add: node_ok_def)
  have slot: "a0 ! j = ?x" using g unfolding get_ptr_root ptr_at_append a0(1) by simp
  let ?a = "a0[j := PTR_NULL]"
  have root: "root_ptr ?st = put_at (root_ptr st) (rev (rev nd)) (PTR_INTERNAL ?a)"
    by (simp add: set_ptr_root put_at_append a0(1))
  have oka: "node_ok nd ?a" by (rule node_ok_update [OF ok0 placed_null])
  have up': "inside (root_ptr st) (rev (rev nd))" and oka': "node_ok (rev (rev nd)) ?a" using up oka by simp_all
  obtain c where c: "root_ptr st' = PTR_INTERNAL c" "node_ok [] c"
    "leaves_of (PTR_INTERNAL c) = (leaves_of (root_ptr st) - leaves_of (ptr_at (root_ptr st) nd)) \<union> leaves_of (PTR_INTERNAL ?a)"
    "snd st' = snd ?st" "nt_dirty (fst st') = nt_dirty (fst ?st)"
    using consolidate_ok [OF ok r root up' oka' nl] unfolding st'_def rev_rev_ident by blast
  show "snd st' = snd st" "nt_dirty (fst st') = nt_dirty (fst st)" using c(4,5) by (simp_all add: set_ptr_root set_ptr_dirty)
  have sub: "leaves_of (PTR_INTERNAL a0) \<subseteq> leaves_of (root_ptr st)" unfolding a0(1) [symmetric] by (rule leaves_at [OF up])
  have "?x \<notin> leaves_of (PTR_INTERNAL ?a)" using leaves_disjoint [OF ok0 j(1), of ?x] slot by simp
  moreover have "leaves_of (PTR_INTERNAL a0) = insert ?x (leaves_of (PTR_INTERNAL ?a))" unfolding leaves_split(1) [OF j(2,1)] slot by simp
  ultimately have L: "leaves_of (PTR_INTERNAL c) = leaves_of (root_ptr st) - {?x}" using c(3) sub unfolding a0(1) by blast
  have n: "nt_root (fst st') = c" using c(1) by (simp add: root_ptr_def)
  have "all_laid trees c" using laid L unfolding all_laid_def r by blast
  then show "notes_ok trees st'" using c(2) by (simp add: notes_ok_def n)
  show "notes_of trees st' = notes_of trees st - {(key, v)}" using note_gone [OF a g] by (simp add: notes_of_def c(1) L)
qed

lemma notes_not_null:
  assumes "env_trees env trees" "notes_ok trees st" "length key = 20" "(key, v) \<in> notes_of trees st"
  shows "\<not> is_null_sha1 v"
proof -
  obtain st1 nd j where a: "at_place trees key st1 nd j" and n: "notes_of trees st1 = notes_of trees st" using root_search [OF assms(1-3)] by blast
  have g: "get_ptr st1 (nd @ [j]) = PTR_NOTE \<lparr>key_sha1 = key, val_sha1 = v\<rparr>" using assms(4) found_note [OF a] unfolding n by blast
  have "placed (nd @ [j]) (get_ptr st1 (nd @ [j]))" using a by (simp add: at_place_def slot_ready_def)
  then show ?thesis using placed_leaves [of "nd @ [j]" _ "PTR_NOTE \<lparr>key_sha1 = key, val_sha1 = v\<rparr>"] by (simp add: g)
qed

lemma remove_note_ok:
  assumes trees: "env_trees env trees" and ok: "notes_ok trees st" and key: "length key = 20"
    and v: "(key, v) \<in> notes_of trees st" and clean: "\<exists>N. \<forall>fuel \<ge> N. removal_clean env fuel key st"
  shows "\<exists>st' N. (\<forall>fuel \<ge> N. remove_note env fuel key st = Got (st', 0)) \<and> notes_ok trees st' \<and> nt_dirty (fst st')
    \<and> notes_of trees st' = notes_of trees st - {(key, v)} \<and> snd st' = snd st"
proof -
  obtain st1 nd j N where s: "\<forall>fuel \<ge> N. note_tree_search env fuel st [] key = Got (st1, nd)" and a: "at_place trees key st1 nd j"
    and n: "notes_of trees st1 = notes_of trees st" "snd st1 = snd st" using root_search [OF trees ok key] by blast
  obtain M where M: "\<forall>fuel \<ge> M. removal_clean env fuel key st" using clean by blast
  have nib: "GET_NIBBLE (length nd) key = j" by (rule place_nibble [OF key a])
  have "removal_clean env (max N M) key st" "note_tree_search env (max N M) st [] key = Got (st1, nd)" using M s by simp_all
  then have c: "length nd < 20" "\<not> lifts_node (rev nd) (set_ptr (nd @ [j]) PTR_NULL st1)" by (simp_all add: removal_clean_def nib)
  have g: "get_ptr st1 (nd @ [j]) = PTR_NOTE \<lparr>key_sha1 = key, val_sha1 = v\<rparr>" using v found_note [OF a] unfolding n(1) by blast
  let ?st = "consolidate_up (rev nd) (set_ptr (nd @ [j]) PTR_NULL st1)"
  note r = remove_place [OF a g c(2)]
  have "remove_note env fuel key st = Got (dirty ?st, 0)" if "N \<le> fuel" for fuel
    using s that g c(1) notes_not_null [OF trees ok key v]
    by (simp add: remove_note_def note_tree_remove_def remove_step_def nib dirty_def)
  then show ?thesis using r n by (intro exI [where x = "dirty ?st"] exI [where x = N]) (simp add: dirty_same)
qed

lemma remove_note_absent:
  assumes trees: "env_trees env trees" and ok: "notes_ok trees st" and key: "length key = 20" and no: "\<forall>v. (key, v) \<notin> notes_of trees st"
  shows "\<exists>st' N. (\<forall>fuel \<ge> N. remove_note env fuel key st = Got (st', 1)) \<and> notes_ok trees st' \<and> notes_of trees st' = notes_of trees st \<and> snd st' = snd st"
proof -
  obtain st1 nd j N where s: "\<forall>fuel \<ge> N. note_tree_search env fuel st [] key = Got (st1, nd)" and a: "at_place trees key st1 nd j"
    and n: "notes_of trees st1 = notes_of trees st" "snd st1 = snd st" using root_search [OF trees ok key] by blast
  have nib: "GET_NIBBLE (length nd) key = j" by (rule place_nibble [OF key a])
  have "get_ptr st1 (nd @ [j]) \<noteq> PTR_NOTE \<lparr>key_sha1 = key, val_sha1 = v\<rparr>" for v using no found_note [OF a, of v] unfolding n(1) by blast
  then have ne: "key_sha1 l \<noteq> key" if "get_ptr st1 (nd @ [j]) = PTR_NOTE l" for l using that by (cases l) auto
  have "remove_note env fuel key st = Got (st1, 1)" if "N \<le> fuel" for fuel
    using s that ne by (cases "get_ptr st1 (nd @ [j])") (simp_all add: remove_note_def note_tree_remove_def remove_step_def nib is_null_sha1_def Let_def)
  moreover have "notes_ok trees st1" using a by (simp add: at_place_def)
  ultimately show ?thesis using n by blast
qed

subsection \<open>The operations as those of a map\<close>

text \<open>The notes that the tree object of a ref has.\<close>

definition top_note :: "name \<Rightarrow> leaf_node" where
  "top_note sha1 = \<lparr>key_sha1 = replicate 20 0, val_sha1 = sha1\<rparr>"

definition tree_notes :: "(name \<rightharpoonup> tree_item list) \<Rightarrow> name \<Rightarrow> (name \<times> name) set" where
  "tree_notes trees sha1 = notes_in trees {PTR_SUBTREE (top_note sha1)}"

lemma empty_root: "notes_ok trees (\<lparr>nt_root = replicate 16 PTR_NULL, nt_non_notes = [], nt_prev = 0, nt_dirty = False\<rparr>, db)"
  "leaves_of (PTR_INTERNAL (replicate 16 PTR_NULL)) = {}"
  using new_node_ok [of "[]"] by (auto simp: notes_ok_def all_laid_def leaves_of.simps(2))

lemma init_notes_ok:
  assumes trees: "env_trees env trees" and laid: "laid_out trees (top_note sha1)"
  shows "\<exists>st N. (\<forall>fuel \<ge> N. init_notes env fuel db (Some sha1) = Got st) \<and> notes_ok trees st \<and> notes_of trees st = tree_notes trees sha1 \<and> snd st = db"
proof -
  let ?st = "(\<lparr>nt_root = replicate 16 PTR_NULL, nt_non_notes = [], nt_prev = 0, nt_dirty = False\<rparr>, db)" and ?sub = "top_note sha1"
  obtain items where it: "trees (val_sha1 ?sub) = Some items" "entries_ok ?sub items"
    "\<forall>k. PTR_SUBTREE k \<in> set (item_leaves ?sub items) \<longrightarrow> laid_out trees k" using laid by (cases rule: laid_out.cases) blast
  have sub: "length (key_sha1 ?sub) = 20" "unat (key_sha1 ?sub ! 19) < 20" by (simp_all add: top_note_def)
  have "ready ?st [] (replicate 16 PTR_NULL)" using root_ready [OF empty_root(1)] by simp
  from load_subtree_ok [OF trees it(1) sub _ it(2) this] obtain st b N where
    r: "\<forall>fuel \<ge> N. load_subtree env fuel ?st ?sub [] = Got st" "notes_eq st (set_node [] b ?st)" "node_ok [] b"
      "leaves_of (PTR_INTERNAL b) = set (item_leaves ?sub items)" unfolding empty_root(2) by auto
  have "init_notes env fuel db (Some sha1) = Got st" if "N \<le> fuel" for fuel using r(1) that by (simp add: init_notes_def top_note_def)
  moreover have "notes_ok trees st" using notes_eq_ok(1) [OF r(2)] r(3) it(3) by (simp add: set_root all_laid_def r(4))
  moreover have "notes_of trees st = tree_notes trees sha1"
    using notes_eq_ok(2) [OF r(2)] notes_in_subtree [of trees, OF it(1)] by (simp add: set_root tree_notes_def r(4))
  moreover have "snd st = db" using r(2) by (simp add: notes_eq_def set_node_fields)
  ultimately show ?thesis by blast
qed

text \<open>A tree of notes with a directory for the first byte.\<close>

definition demo_sha :: "byte \<Rightarrow> name" where
  "demo_sha b = replicate 20 b"

definition demo_trees :: "name \<rightharpoonup> tree_item list" where
  "demo_trees = [demo_sha 1 \<mapsto> [(0x4000, ''aa'', demo_sha 2)], demo_sha 2 \<mapsto> [(0x81a4, ''00000000000000000000000000000000000000'', demo_sha 3)]]"

definition demo_env :: notes_env where
  "demo_env = \<lparr>ne_tree = (\<lambda>s. map_option tree_text (demo_trees s)), ne_stale = \<lparr>ne_sha1 = [], ne_path = [], ne_mode = 0\<rparr>,
     ne_hash = (\<lambda>_. demo_sha 9), ne_write_fails = (\<lambda>_. False)\<rparr>"

definition demo_key :: "byte \<Rightarrow> byte \<Rightarrow> name" where
  "demo_key a b = a # b # replicate 18 0"

lemma demo_env_trees: "env_trees demo_env demo_trees"
proof -
  have "length (tree_text [(0x4000, ''aa'', demo_sha 2)]) = 29" by (simp add: item_text_def octal.simps raw_sha1_def demo_sha_def)
  moreover have "length (tree_text [(0x81a4, ''00000000000000000000000000000000000000'', demo_sha 3)]) = 66" by (simp add: item_text_def octal.simps raw_sha1_def demo_sha_def)
  moreover have "list_all item_ok [(0x4000, ''aa'', demo_sha 2)]" "list_all item_ok [(0x81a4, ''00000000000000000000000000000000000000'', demo_sha 3)]"
    by code_simp+
  ultimately show ?thesis by (simp add: env_trees_def demo_env_def demo_trees_def)
qed

lemma demo_laid: "laid_out demo_trees (top_note (demo_sha 1))"
proof (rule laid_out.intros)
  let ?sub = "\<lparr>key_sha1 = 0xaa # replicate 18 0 @ [1], val_sha1 = demo_sha 2\<rparr>"
  show "demo_trees (val_sha1 (top_note (demo_sha 1))) = Some [(0x4000, ''aa'', demo_sha 2)]" by code_simp
  have l: "item_leaves (top_note (demo_sha 1)) [(0x4000, ''aa'', demo_sha 2)] = [PTR_SUBTREE ?sub]" by code_simp
  show "entries_ok (top_note (demo_sha 1)) [(0x4000, ''aa'', demo_sha 2)]" by code_simp
  show "item_leaves (top_note (demo_sha 1)) [(0x4000, ''aa'', demo_sha 2)] \<noteq> []" unfolding l by simp
  fix k
  assume "PTR_SUBTREE k \<in> set (item_leaves (top_note (demo_sha 1)) [(0x4000, ''aa'', demo_sha 2)])"
  then have k: "k = ?sub" unfolding l by simp
  show "laid_out demo_trees k" unfolding k
  proof (rule laid_out.intros)
    let ?it = "(0x81a4, ''00000000000000000000000000000000000000'', demo_sha 3)"
    show "demo_trees (val_sha1 ?sub) = Some [?it]" by code_simp
    have l2: "item_leaves ?sub [?it] = [PTR_NOTE \<lparr>key_sha1 = demo_key 0xaa 0, val_sha1 = demo_sha 3\<rparr>]" by code_simp
    show "entries_ok ?sub [?it]" by code_simp
    show "item_leaves ?sub [?it] \<noteq> []" unfolding l2 by simp
    fix m
    assume "PTR_SUBTREE m \<in> set (item_leaves ?sub [?it])"
    then show "laid_out demo_trees m" unfolding l2 by simp
  qed
qed

text \<open>C11. The notes read through the lazily loaded tree are those of the tree objects: \<open>init_notes\<close> succeeds on tree
  objects that are laid out as notes, and \<open>get_note\<close> then gives for each key of twenty bytes the value that the objects
  give it, or nothing when they have none, and leaves the notes and the object store as they are.\<close>

theorem notes_read_as_stored:
  assumes "env_trees env trees" "laid_out trees (top_note sha1)" "length key = 20"
  shows "\<exists>st st' r N. (\<forall>fuel \<ge> N. init_notes env fuel db (Some sha1) = Got st \<and> get_note env fuel key st = Got (st', r))
    \<and> (\<forall>v. r = Some v \<longleftrightarrow> (key, v) \<in> tree_notes trees sha1)
    \<and> notes_ok trees st \<and> notes_ok trees st' \<and> notes_of trees st' = tree_notes trees sha1 \<and> snd st' = db"
proof -
  obtain st N where i: "\<forall>fuel \<ge> N. init_notes env fuel db (Some sha1) = Got st" "notes_ok trees st" "notes_of trees st = tree_notes trees sha1" "snd st = db"
    using init_notes_ok [OF assms(1,2)] by blast
  obtain st' r M where g: "\<forall>fuel \<ge> M. get_note env fuel key st = Got (st', r)" "notes_ok trees st'" "notes_of trees st' = notes_of trees st"
    "snd st' = snd st" "\<forall>v. r = Some v \<longleftrightarrow> (key, v) \<in> notes_of trees st" using get_note_ok [OF assms(1) i(2) assms(3)] by blast
  have "\<forall>fuel \<ge> max N M. init_notes env fuel db (Some sha1) = Got st \<and> get_note env fuel key st = Got (st', r)" using i(1) g(1) by simp
  then show ?thesis using g i by metis
qed

theorem notes_read_as_stored_witness:
  "\<exists>st st' r N. (\<forall>fuel \<ge> N. init_notes demo_env fuel Map.empty (Some (demo_sha 1)) = Got st \<and> get_note demo_env fuel (demo_key 0xaa 0) st = Got (st', r))
    \<and> (\<forall>v. r = Some v \<longleftrightarrow> (demo_key 0xaa 0, v) \<in> tree_notes demo_trees (demo_sha 1))
    \<and> notes_ok demo_trees st \<and> notes_ok demo_trees st' \<and> notes_of demo_trees st' = tree_notes demo_trees (demo_sha 1) \<and> snd st' = Map.empty"
  by (rule notes_read_as_stored [OF demo_env_trees demo_laid]) (simp add: demo_key_def)

text \<open>C12. \<open>add_note\<close> is an update of the map of notes, whatever part of it has been loaded: a new key gets the note;
  for a key that has one, the function of combination is asked once, unless both values are the same, and its result
  takes the place, its code is returned and the object store is as it leaves it; the notes of the other keys stay.\<close>

theorem add_note_updates:
  assumes "env_trees env trees" "notes_ok trees st" "length key = 20" "\<not> is_null_sha1 v"
    and "\<forall>old db w ret. (key, old) \<in> notes_of trees st \<longrightarrow> met combine old v (snd st) = (db, w, ret) \<longrightarrow> \<not> is_null_sha1 w"
  shows "\<exists>st' ret w old. (\<exists>N. \<forall>fuel \<ge> N. add_note env fuel combine key v st = Got (st', ret)) \<and> notes_ok trees st' \<and> nt_dirty (fst st')
    \<and> notes_of trees st' = insert (key, w) (notes_of trees st - {(key, old)})
    \<and> (if (\<exists>u. (key, u) \<in> notes_of trees st) then (key, old) \<in> notes_of trees st \<and> met combine old v (snd st) = (snd st', w, ret)
       else w = v \<and> ret = 0 \<and> snd st' = snd st)"
proof (cases "\<exists>u. (key, u) \<in> notes_of trees st")
  case True
  then obtain old where old: "(key, old) \<in> notes_of trees st" by blast
  obtain db w ret where m: "met combine old v (snd st) = (db, w, ret)" by (cases "met combine old v (snd st)")
  have "\<not> is_null_sha1 w" using assms(5) old m by blast
  from add_note_met [OF assms(1-3) old m this] obtain st' N where
    "\<forall>fuel \<ge> N. add_note env fuel combine key v st = Got (st', ret)" "notes_ok trees st'" "nt_dirty (fst st')"
    "notes_of trees st' = insert (key, w) (notes_of trees st - {(key, old)})" "snd st' = db" by blast
  then show ?thesis using True old m
    by (intro exI [where x = st'] exI [where x = ret] exI [where x = w] exI [where x = old]) auto
next
  case False
  then have no: "\<forall>u. (key, u) \<notin> notes_of trees st" by blast
  from add_note_new [where combine = combine, OF assms(1-4) no] obtain st' N where
    "\<forall>fuel \<ge> N. add_note env fuel combine key v st = Got (st', 0)" "notes_ok trees st'" "nt_dirty (fst st')"
    "notes_of trees st' = insert (key, v) (notes_of trees st)" "snd st' = snd st" by blast
  then show ?thesis using False no
    by (intro exI [where x = st'] exI [where x = 0] exI [where x = v] exI [where x = v]) auto
qed

definition demo_state :: notes_state where
  "demo_state = (\<lparr>nt_root = replicate 16 PTR_NULL, nt_non_notes = [], nt_prev = 0, nt_dirty = False\<rparr>, Map.empty)"

theorem add_note_updates_witness:
  "\<exists>st' ret w old. (\<exists>N. \<forall>fuel \<ge> N. add_note demo_env fuel combine_notes_overwrite (demo_key 0xaa 0) (demo_sha 7) demo_state = Got (st', ret))
    \<and> notes_ok demo_trees st' \<and> nt_dirty (fst st')
    \<and> notes_of demo_trees st' = insert (demo_key 0xaa 0, w) (notes_of demo_trees demo_state - {(demo_key 0xaa 0, old)})
    \<and> (if (\<exists>u. (demo_key 0xaa 0, u) \<in> notes_of demo_trees demo_state)
       then (demo_key 0xaa 0, old) \<in> notes_of demo_trees demo_state \<and> met combine_notes_overwrite old (demo_sha 7) (snd demo_state) = (snd st', w, ret)
       else w = demo_sha 7 \<and> ret = 0 \<and> snd st' = snd demo_state)"
  by (rule add_note_updates [OF demo_env_trees])
     (auto simp: demo_state_def empty_root notes_of_def root_ptr_def notes_in_def demo_key_def is_null_sha1_def demo_sha_def)

text \<open>C39. \<open>remove_note\<close> takes one key out of the map of notes and reports whether there was a note, when the removal is
  clean: the nodes that its walk towards the root puts a level higher are leaves, and the walk fits the stack of twenty
  ancestors.\<close>

theorem remove_note_removes:
  assumes "env_trees env trees" "notes_ok trees st" "length key = 20"
    and "(\<exists>v. (key, v) \<in> notes_of trees st) \<longrightarrow> (\<exists>N. \<forall>fuel \<ge> N. removal_clean env fuel key st)"
  shows "\<exists>st'. (\<exists>N. \<forall>fuel \<ge> N. remove_note env fuel key st = Got (st', if (\<exists>v. (key, v) \<in> notes_of trees st) then 0 else 1))
    \<and> notes_ok trees st' \<and> notes_of trees st' = {(k, v). (k, v) \<in> notes_of trees st \<and> k \<noteq> key} \<and> snd st' = snd st"
proof (cases "\<exists>v. (key, v) \<in> notes_of trees st")
  case True
  then obtain v where v: "(key, v) \<in> notes_of trees st" by blast
  have "{(k, v). (k, v) \<in> notes_of trees st \<and> k \<noteq> key} = notes_of trees st - {(key, v)}"
    using notes_functional [OF assms(1-3) v] by auto
  moreover have "\<exists>N. \<forall>fuel \<ge> N. removal_clean env fuel key st" using assms(4) True by blast
  from remove_note_ok [OF assms(1-3) v this] obtain st' N where "\<forall>fuel \<ge> N. remove_note env fuel key st = Got (st', 0)" "notes_ok trees st'"
    "notes_of trees st' = notes_of trees st - {(key, v)}" "snd st' = snd st" by blast
  ultimately show ?thesis using True by (intro exI [where x = st']) auto
next
  case False
  then have "\<forall>v. (key, v) \<notin> notes_of trees st" by blast
  from remove_note_absent [OF assms(1-3) this] obtain st' N where "\<forall>fuel \<ge> N. remove_note env fuel key st = Got (st', 1)" "notes_ok trees st'"
    "notes_of trees st' = notes_of trees st" "snd st' = snd st" by blast
  moreover have "{(k, v). (k, v) \<in> notes_of trees st \<and> k \<noteq> key} = notes_of trees st" using False by auto
  ultimately show ?thesis using False by (intro exI [where x = st']) auto
qed

definition demo_noted :: notes_state where
  "demo_noted = (\<lparr>nt_root = (replicate 16 PTR_NULL)[10 := PTR_NOTE \<lparr>key_sha1 = demo_key 0xaa 0, val_sha1 = demo_sha 7\<rparr>],
    nt_non_notes = [], nt_prev = 0, nt_dirty = True\<rparr>, Map.empty)"

lemma demo_noted_ok: "notes_ok demo_trees demo_noted" "length (demo_key 0xaa 0) = 20"
proof -
  let ?x = "PTR_NOTE \<lparr>key_sha1 = demo_key 0xaa 0, val_sha1 = demo_sha 7\<rparr>"
  have ok: "leaf_ok ?x" "prefix [10] (cover ?x)" by code_simp+
  then have pl: "placed ([] @ [10]) ?x" by (intro placed_leaf) simp_all
  have "node_ok [] ((replicate 16 PTR_NULL)[10 := ?x])" by (rule node_ok_update [OF _ pl]) (simp add: new_node_ok)
  moreover have "leaves_of (PTR_INTERNAL ((replicate 16 PTR_NULL)[10 := ?x])) \<subseteq> {?x}" unfolding leaves_of.simps(2)
    using set_update_subset_insert [of "replicate 16 PTR_NULL" 10 ?x] by fastforce
  then have "all_laid demo_trees ((replicate 16 PTR_NULL)[10 := ?x])" unfolding all_laid_def by blast
  ultimately show "notes_ok demo_trees demo_noted" by (simp add: notes_ok_def demo_noted_def)
qed (simp add: demo_key_def)

lemma demo_noted_clean: "\<forall>fuel \<ge> 1. removal_clean demo_env fuel (demo_key 0xaa 0) demo_noted"
proof (intro allI impI)
  fix fuel :: nat
  assume "1 \<le> fuel"
  then obtain f where f: "fuel = Suc f" by (cases fuel) auto
  have "GET_NIBBLE 0 (demo_key 0xaa 0) = 10" "length (demo_key 0xaa 0) = 20" by code_simp+
  then show "removal_clean demo_env fuel (demo_key 0xaa 0) demo_noted"
    by (simp add: removal_clean_def f note_tree_search.simps search_step_def get_ptr_def demo_noted_def)
qed

theorem remove_note_removes_witness:
  "\<exists>st'. (\<exists>N. \<forall>fuel \<ge> N. remove_note demo_env fuel (demo_key 0xaa 0) demo_noted
      = Got (st', if (\<exists>v. (demo_key 0xaa 0, v) \<in> notes_of demo_trees demo_noted) then 0 else 1))
    \<and> notes_ok demo_trees st' \<and> notes_of demo_trees st' = {(k, v). (k, v) \<in> notes_of demo_trees demo_noted \<and> k \<noteq> demo_key 0xaa 0} \<and> snd st' = snd demo_noted"
  using demo_noted_clean by (intro remove_note_removes [OF demo_env_trees demo_noted_ok]) blast

subsection \<open>Removals that are not clean\<close>

text \<open>Two notes whose keys agree in twenty nibbles are at least twenty levels deep.\<close>

lemma deep_place:
  assumes a: "at_place trees key st nd j" and k: "(key, v) \<in> notes_of trees st" "(key', v') \<in> notes_of trees st" "key \<noteq> key'"
    and agree: "length key = 20" "take 10 key' = take 10 key"
  shows "20 \<le> length nd"
proof (rule ccontr)
  assume "\<not> 20 \<le> length nd"
  then have short: "length (nd @ [j]) \<le> 20" by simp
  note a' = a [unfolded at_place_def slot_ready_def]
  let ?root = "nt_root (fst st)" and ?P = "nibbles (take 10 key)"
  have r: "root_ptr st = PTR_INTERNAL ?root" and ok: "node_ok [] ?root" "all_laid trees ?root" using a' by (simp_all add: root_ptr_def notes_ok_def)
  have P: "length ?P = 20" "prefix ?P (nibbles key)" "prefix ?P (nibbles key')"
    using agree take_is_prefix [of 10 key] take_is_prefix [of 10 key'] unfolding nibbles_prefix by simp_all
  have "prefix (nd @ [j]) (nibbles key)" using a' by blast
  then have pP: "prefix (nd @ [j]) ?P" using P(2) by (rule prefix_length_prefix) (use short P(1) in simp)
  obtain y where y: "y \<in> leaves_of (root_ptr st)" "has_note trees y key' v'" using k(2) by (auto simp: notes_of_def notes_in_def)
  have ly: "leaf_ok y" using node_leaves(1) [OF ok(1)] y(1) by (simp add: r)
  have cy: "prefix (cover y) (nibbles key')" using has_note_cover [OF y(2) ly] y(1) ok(2) unfolding all_laid_def r by blast
  have g: "get_ptr st (nd @ [j]) = PTR_NOTE \<lparr>key_sha1 = key, val_sha1 = v\<rparr>" using k(1) found_note [OF a] by blast
  have ne: "y \<noteq> PTR_NOTE \<lparr>key_sha1 = key, val_sha1 = v\<rparr>" using y(2) k(3) by (auto elim: has_note_noteE)
  consider "prefix ?P (cover y)" | "prefix (cover y) ?P" using prefix_same_cases [OF P(3) cy] by blast
  then show False
  proof cases
    case 1
    then have "prefix ([] @ nd @ [j]) (cover y)" using pP prefix_order.trans by simp
    moreover have "placed [] (root_ptr st)" using ok(1) y(1) by (auto simp: r placed_node_ok)
    ultimately have "get_ptr st (nd @ [j]) = y" using place_leaf [of "[]" "root_ptr st" y "nd @ [j]"] a' y(1) unfolding get_ptr_root by blast
    then show False using g ne by simp
  next
    case 2
    then have "length (cover y) \<le> 20" "prefix (cover y) (nibbles key)" using P prefix_length_le prefix_order.trans by fastforce+
    then show False using ly y(1) a' unfolding no_match_def by (cases y) auto
  qed
qed

lemma remove_deep:
  assumes "env_trees env trees" "notes_ok trees st" "length key = 20" "take 10 key' = take 10 key"
    and "(key, v) \<in> notes_of trees st" "(key', v') \<in> notes_of trees st" "key \<noteq> key'"
  shows "\<exists>N. \<forall>fuel \<ge> N. remove_note env fuel key st = Overrun"
proof -
  obtain st1 nd j N where s: "\<forall>fuel \<ge> N. note_tree_search env fuel st [] key = Got (st1, nd)" and a: "at_place trees key st1 nd j"
    and n: "notes_of trees st1 = notes_of trees st" using root_search [OF assms(1-3)] by blast
  have "20 \<le> length nd" using deep_place [OF a] assms n by blast
  moreover have "get_ptr st1 (nd @ [j]) = PTR_NOTE \<lparr>key_sha1 = key, val_sha1 = v\<rparr>" using assms(5) found_note [OF a] unfolding n by blast
  ultimately have "remove_note env fuel key st = Overrun" if "N \<le> fuel" for fuel
    using s that by (simp add: remove_note_def note_tree_remove_def remove_step_def place_nibble [OF assms(3) a])
  then show ?thesis by blast
qed

text \<open>Searches in a tree without subtrees only follow pointers, also where nodes are not at their places.\<close>

definition loaded :: "notes_state \<Rightarrow> bool" where
  "loaded st \<longleftrightarrow> (\<forall>l. PTR_SUBTREE l \<notin> leaves_of (root_ptr st))"

lemma loaded_at: "loaded st \<Longrightarrow> inside (root_ptr st) at \<Longrightarrow> PTR_SUBTREE l \<notin> leaves_of (get_ptr st at)"
  unfolding loaded_def get_ptr_root using leaves_at by blast

lemma loaded_no_match: "loaded st \<Longrightarrow> inside (root_ptr st) at \<Longrightarrow> matching_subtree key (get_ptr st at) = None"
  using loaded_at [of st at] by (cases "get_ptr st at") auto

lemma loaded_step:
  assumes "loaded st" "length key = 20" "length at < 40" "get_ptr st at = PTR_INTERNAL a" "inside (root_ptr st) at"
    and "GET_NIBBLE (length at) key = i" "i < length a"
  shows "note_tree_search env (Suc f) st at key = (case a ! i of PTR_INTERNAL _ \<Rightarrow> note_tree_search env f st (at @ [i]) key | _ \<Rightarrow> Got (st, at))"
proof -
  have ins: "inside (root_ptr st) (at @ [0])" "inside (root_ptr st) (at @ [i])" using assms(4,5,7) by (auto simp: inside_append get_ptr_root)
  have p: "get_ptr st (at @ [k]) = a ! k" for k by (rule get_ptr_next [OF assms(4)])
  show ?thesis
    using assms(2,3,6) loaded_no_match [OF assms(1) ins(1), of key] loaded_no_match [OF assms(1) ins(2), of key]
    unfolding p note_tree_search.simps search_step_def Let_def by (cases "a ! i") (simp_all add: p)
qed

lemma descend:
  assumes "loaded st" "length key = 20"
  shows "inside (root_ptr st) (at @ xs) \<Longrightarrow> get_ptr st (at @ xs) = PTR_INTERNAL c \<Longrightarrow> prefix (at @ xs) (nibbles key)
    \<Longrightarrow> note_tree_search env (length xs + f) st at key = note_tree_search env f st (at @ xs) key"
proof (induction xs arbitrary: at)
  case (Cons x xs)
  have "inside (root_ptr st) at" using Cons.prems(1) by (simp add: inside_append)
  moreover obtain a where a: "get_ptr st at = PTR_INTERNAL a" "x < length a"
    using Cons.prems(1) unfolding get_ptr_root by (cases "ptr_at (root_ptr st) at") (auto simp: inside_append)
  moreover have pre: "prefix (at @ [x]) (nibbles key)" using Cons.prems(3) by (metis append_Cons append_Nil append_assoc append_prefixD)
  then have "GET_NIBBLE (length at) key = x" "length at < 40"
    using next_nibble(1) [OF assms(2) prefix_order.refl pre] prefix_length_le [OF pre] assms(2) by simp_all
  ultimately have "note_tree_search env (Suc (length xs + f)) st at key
      = (case a ! x of PTR_INTERNAL _ \<Rightarrow> note_tree_search env (length xs + f) st (at @ [x]) key | _ \<Rightarrow> Got (st, at))"
    using loaded_step [OF assms] by blast
  moreover have "\<exists>d. a ! x = PTR_INTERNAL d"
  proof -
    have "get_ptr st (at @ x # xs) = ptr_at (a ! x) xs" using a(1) by (simp add: get_ptr_root ptr_at_append)
    then show ?thesis using Cons.prems(2) by (cases "a ! x"; cases xs) auto
  qed
  ultimately show ?case using Cons.IH [of "at @ [x]"] Cons.prems by auto
qed simp

text \<open>The search in a node that stands higher than its place.\<close>

lemma lifted_search:
  assumes ld: "loaded st" and key: "length key = 20"
  shows "placed at2 p \<Longrightarrow> p = PTR_INTERNAL a \<Longrightarrow> length at \<le> length at2 \<Longrightarrow> inside (root_ptr st) at \<Longrightarrow> get_ptr st at = p
    \<Longrightarrow> \<exists>nd N. (\<forall>fuel \<ge> N. note_tree_search env fuel st at key = Got (st, nd))
      \<and> (\<forall>l. get_ptr st (nd @ [GET_NIBBLE (length nd) key]) = PTR_NOTE l \<longrightarrow> PTR_NOTE l \<in> leaves_of (a ! GET_NIBBLE (length at) key))"
proof (induction arbitrary: a at rule: placed.induct)
  case (placed_node b at2)
  let ?i = "GET_NIBBLE (length at) key"
  have b: "b = a" "length a = 16" "length at < 40" using placed_node by simp_all
  have i: "?i < 16" using GET_NIBBLE_nth [of "length at" key] nibbles_less [of ?i key] b(3) key by simp
  have next_at: "get_ptr st (at @ [?i]) = a ! ?i" "inside (root_ptr st) (at @ [?i])"
    using get_ptr_next [of st at a] placed_node.prems i b by (simp_all add: inside_append get_ptr_root)
  have step: "note_tree_search env (Suc f) st at key = (case a ! ?i of PTR_INTERNAL _ \<Rightarrow> note_tree_search env f st (at @ [?i]) key | _ \<Rightarrow> Got (st, at))" for f
    using loaded_step [OF ld key b(3) _ _ refl] placed_node.prems i b by simp
  show ?case
  proof (cases "\<exists>c. a ! ?i = PTR_INTERNAL c")
    case True
    then obtain c where c: "a ! ?i = PTR_INTERNAL c" by blast
    have "length (at @ [?i]) \<le> length (at2 @ [?i])" using placed_node.prems by simp
    from placed_node.IH [OF i, unfolded b(1), OF c this next_at(2,1) ] obtain nd N where
      nd: "\<forall>fuel \<ge> N. note_tree_search env fuel st (at @ [?i]) key = Got (st, nd)"
      "\<forall>l. get_ptr st (nd @ [GET_NIBBLE (length nd) key]) = PTR_NOTE l \<longrightarrow> PTR_NOTE l \<in> leaves_of (c ! GET_NIBBLE (length (at @ [?i])) key)" by blast
    have "placed (at2 @ [?i]) (PTR_INTERNAL c)" using placed_node.hyps(3) [OF i] by (simp add: b(1) c)
    then have "length c = 16" "length at2 + 1 < 40" by (auto elim: placed_nodeE)
    then have "GET_NIBBLE (length (at @ [?i])) key < length c"
      using GET_NIBBLE_nth [of "length (at @ [?i])" key] nibbles_less [of "GET_NIBBLE (length (at @ [?i])) key" key] placed_node.prems(2) key by simp
    then have "leaves_of (c ! GET_NIBBLE (length (at @ [?i])) key) \<subseteq> leaves_of (PTR_INTERNAL c)"
      unfolding leaves_of.simps by (intro UN_upper nth_mem)
    moreover have "\<forall>fuel \<ge> Suc N. note_tree_search env fuel st at key = Got (st, nd)"
      using nd(1) step c by (intro from_Suc) simp
    ultimately show ?thesis using nd(2) c by (metis subsetD)
  next
    case False
    then have "\<forall>fuel \<ge> Suc 0. note_tree_search env fuel st at key = Got (st, at)" using step by (intro from_Suc) (auto split: note_ptr.split)
    then show ?thesis using next_at(1) by (metis insertI1 leaves_of.simps(3))
  qed
qed simp_all

text \<open>The node at \<open>nd\<close> has the note of the key and a node below it, at \<open>y\<close>, and nothing else; the node above it has
  another entry, or is the root.\<close>

definition lone_node :: "notes_state \<Rightarrow> nat list \<Rightarrow> nat \<Rightarrow> name \<Rightarrow> bool" where
  "lone_node st nd y key \<longleftrightarrow> nd \<noteq> [] \<and> inside (root_ptr st) nd \<and>
     (case get_ptr st nd of
        PTR_INTERNAL a \<Rightarrow> y < 16 \<and> (\<exists>n. a ! y = PTR_INTERNAL n) \<and> (\<exists>z < 16. \<exists>v. a ! z = PTR_NOTE \<lparr>key_sha1 = key, val_sha1 = v\<rparr>
          \<and> (\<forall>j < 16. j \<noteq> y \<longrightarrow> j \<noteq> z \<longrightarrow> a ! j = PTR_NULL))
      | _ \<Rightarrow> False)
     \<and> (butlast nd = [] \<or> (\<exists>j < 16. j \<noteq> last nd \<and> get_ptr st (butlast nd @ [j]) \<noteq> PTR_NULL))"

lemma filter_single: "y < length xs \<Longrightarrow> P (xs ! y) \<Longrightarrow> \<forall>j < length xs. j \<noteq> y \<longrightarrow> \<not> P (xs ! j) \<Longrightarrow> filter P xs = [xs ! y]"
proof -
  assume h: "y < length xs" "P (xs ! y)" "\<forall>j < length xs. j \<noteq> y \<longrightarrow> \<not> P (xs ! j)"
  have "filter P (take y xs) = []" "filter P (drop (Suc y) xs) = []"
    using h(1,3) by (auto simp: filter_empty_conv in_set_conv_nth)
  moreover have "xs = take y xs @ xs ! y # drop (Suc y) xs" using h(1) by (rule id_take_nth_drop)
  ultimately show ?thesis using h(2) by (metis append_Nil filter.simps(2) filter_append)
qed

lemma filter_two: "i < length xs \<Longrightarrow> j < length xs \<Longrightarrow> i \<noteq> j \<Longrightarrow> P (xs ! i) \<Longrightarrow> P (xs ! j) \<Longrightarrow> 2 \<le> length (filter P xs)"
proof -
  assume h: "i < length xs" "j < length xs" "i \<noteq> j" "P (xs ! i)" "P (xs ! j)"
  have "card {i, j} \<le> card {k. k < length xs \<and> P (xs ! k)}" using h by (intro card_mono) auto
  then show ?thesis using h(3) by (simp add: length_filter_conv_card)
qed

text \<open>The removal then puts the node below in the place of the node.\<close>

lemma lift_up:
  assumes ok: "notes_ok trees st" and lone: "lone_node st nd y key"
    and a: "get_ptr st nd = PTR_INTERNAL a" and n: "a ! y = PTR_INTERNAL n" and z: "z < 16" "a ! z = PTR_NOTE \<lparr>key_sha1 = key, val_sha1 = v\<rparr>"
  shows "root_ptr (consolidate_up (rev nd) (set_ptr (nd @ [z]) PTR_NULL st)) = put_at (root_ptr st) nd (PTR_INTERNAL n)"
proof -
  note lo = lone [unfolded lone_node_def a note_ptr.case]
  have nd: "nd \<noteq> []" "inside (root_ptr st) nd" "y < 16" using lo by blast+
  obtain z' v' where z': "z' < 16" "a ! z' = PTR_NOTE \<lparr>key_sha1 = key, val_sha1 = v'\<rparr>" "\<forall>j < 16. j \<noteq> y \<longrightarrow> j \<noteq> z' \<longrightarrow> a ! j = PTR_NULL" using lo by blast
  have zz: "z' = z" using z'(3) z n by (metis note_ptr.distinct(3) note_ptr.distinct(7))
  have ok': "node_ok [] (nt_root (fst st))" "root_ptr st = PTR_INTERNAL (nt_root (fst st))" using ok by (simp_all add: notes_ok_def root_ptr_def)
  have oka: "node_ok nd a" using inside_node [OF ok'(1)] nd(2) a unfolding get_ptr_root ok'(2) by blast
  then have l16: "length a = 16" by (simp add: node_ok_def)
  have yz: "y \<noteq> z" using n z by auto
  let ?st1 = "set_ptr (nd @ [z]) PTR_NULL st"
  have r1: "root_ptr ?st1 = put_at (root_ptr st) nd (PTR_INTERNAL (a[z := PTR_NULL]))"
    using set_ptr_root(1) [of "nd @ [z]" PTR_NULL st] a by (simp add: put_at_append get_ptr_root)
  have g1: "get_ptr ?st1 nd = PTR_INTERNAL (a[z := PTR_NULL])" unfolding get_ptr_root r1 by (rule ptr_at_put [OF nd(2)])
  have "filter (\<lambda>p. p \<noteq> PTR_NULL) (a[z := PTR_NULL]) = [a[z := PTR_NULL] ! y]"
    using nd(3) l16 n yz z'(3) z(1) unfolding zz by (intro filter_single) (auto simp: nth_list_update)
  then have c1: "note_tree_consolidate (get_ptr ?st1 nd) = Some (PTR_INTERNAL n)" unfolding g1 using yz n by (simp add: note_tree_consolidate_def)
  obtain nd0 i where ndi: "nd = nd0 @ [i]" using nd(1) by (metis append_butlast_last_id)
  let ?st2 = "set_ptr nd (PTR_INTERNAL n) ?st1"
  have r2: "root_ptr ?st2 = put_at (root_ptr st) nd (PTR_INTERNAL n)" unfolding set_ptr_root(1) [OF nd(1)] r1 put_at_put ..
  have run: "consolidate_up (rev nd) ?st1 = consolidate_up (rev nd0) ?st2" using c1 by (simp add: ndi)
  have "consolidate_up (rev nd0) ?st2 = ?st2"
  proof (cases "nd0 = []")
    case False
    then obtain ix up where up: "rev nd0 = ix # up" by (cases "rev nd0") auto
    then have rv: "rev (ix # up) = nd0" by (metis rev_rev_ident)
    obtain j where j: "j < 16" "j \<noteq> i" "get_ptr st (nd0 @ [j]) \<noteq> PTR_NULL" using lo False by (auto simp: ndi)
    have in0: "inside (root_ptr st) nd0" using nd(2) by (simp add: ndi inside_append)
    obtain b where b: "get_ptr st nd0 = PTR_INTERNAL b" "i < length b"
      using nd(2) unfolding ndi get_ptr_root inside_append by (cases "ptr_at (root_ptr st) nd0") auto
    have "node_ok nd0 b" using inside_node [OF ok'(1)] in0 b(1) unfolding get_ptr_root ok'(2) by blast
    then have lb: "length b = 16" by (simp add: node_ok_def)
    have "root_ptr ?st2 = put_at (root_ptr st) nd0 (PTR_INTERNAL (b[i := PTR_INTERNAL n]))"
      unfolding r2 unfolding ndi put_at_append using b(1) by (simp add: get_ptr_root)
    then have g: "get_ptr ?st2 nd0 = PTR_INTERNAL (b[i := PTR_INTERNAL n])" by (simp add: get_ptr_root ptr_at_put [OF in0])
    have "b ! j \<noteq> PTR_NULL" using j(3) get_ptr_next [OF b(1)] by simp
    then have "2 \<le> length (filter (\<lambda>p. p \<noteq> PTR_NULL) (b[i := PTR_INTERNAL n]))"
      using j(1,2) lb b(2) by (intro filter_two [where i = i and j = j]) simp_all
    then have "note_tree_consolidate (get_ptr ?st2 nd0) = None" unfolding g note_tree_consolidate_def by (auto split: list.split)
    then show ?thesis unfolding up by (simp only: consolidate_up.simps rv option.case)
  qed simp
  then show ?thesis using run r2 by simp
qed

lemma leaves_put_sub: "leaves_of (put_at p xs q) \<subseteq> leaves_of p \<union> leaves_of q"
proof (induction p xs q rule: put_at.induct)
  case (2 a i "is" q)
  have "set (a[i := put_at (a ! i) is q]) \<subseteq> insert (put_at (a ! i) is q) (set a)" by (rule set_update_subset_insert)
  then have s: "leaves_of (PTR_INTERNAL (a[i := put_at (a ! i) is q])) \<subseteq> leaves_of (put_at (a ! i) is q) \<union> leaves_of (PTR_INTERNAL a)"
    unfolding leaves_of.simps by blast
  show ?case
  proof (cases "i < length a")
    case True
    then have "leaves_of (a ! i) \<subseteq> leaves_of (PTR_INTERNAL a)" unfolding leaves_of.simps by (intro UN_upper nth_mem)
    then show ?thesis using s 2 by (auto simp del: leaves_of.simps)
  qed (simp add: list_update_beyond)
qed simp_all

lemma lifted_notes_lost:
  assumes ok: "notes_ok trees st" and ld: "loaded st" and keys: "length key = 20" "length key' = 20" and lone: "lone_node st nd y key" "length nd < 20"
    and k': "prefix (nd @ [y]) (nibbles key')" "nibbles key' ! (length nd + 1) \<noteq> y"
  shows "\<exists>st' N. (\<forall>fuel \<ge> N. remove_note env fuel key st = Got (st', 0)) \<and> (\<forall>fuel \<ge> N. get_note env fuel key' st' = Got (st', None))"
proof -
  note lo = lone(1) [unfolded lone_node_def]
  have nd: "nd \<noteq> []" "inside (root_ptr st) nd" using lo by blast+
  obtain a where a: "get_ptr st nd = PTR_INTERNAL a" using lo by (cases "get_ptr st nd") auto
  obtain n z v where n: "a ! y = PTR_INTERNAL n" and z: "z < 16" "a ! z = PTR_NOTE \<lparr>key_sha1 = key, val_sha1 = v\<rparr>" and y16: "y < 16"
    using lo unfolding a by auto
  have ok': "node_ok [] (nt_root (fst st))" "root_ptr st = PTR_INTERNAL (nt_root (fst st))" using ok by (simp_all add: notes_ok_def root_ptr_def)
  have oka: "node_ok nd a" using inside_node [OF ok'(1)] nd(2) a unfolding get_ptr_root ok'(2) by blast
  have pz: "placed (nd @ [z]) (a ! z)" "placed (nd @ [y]) (PTR_INTERNAL n)" using oka z(1) y16 n unfolding node_ok_def by metis+
  have lx: "leaf_ok (a ! z)" "prefix (nd @ [z]) (nibbles key)" using placed_leaves [OF pz(1), of "a ! z"] by (simp_all add: z(2))
  have notnull: "\<not> is_null_sha1 v" using lx(1) by (simp add: z(2))
  have pn: "prefix nd (nibbles key)" using lx(2) by (rule append_prefixD)
  have gz: "GET_NIBBLE (length nd) key = z" using next_nibble(1) [OF keys(1) prefix_order.refl lx(2)] .
  have l16: "length a = 16" using oka by (simp add: node_ok_def)
  have down: "note_tree_search env (length nd + f) st [] key = note_tree_search env f st nd key" for f
    using descend [OF ld keys(1), of "[]" nd a] nd(2) a pn by simp
  have l40: "length nd < 40" using lone(2) by simp
  have stop: "note_tree_search env (Suc f) st nd key = Got (st, nd)" for f
    using loaded_step [OF ld keys(1) l40 a nd(2) gz] z l16 by simp
  have s: "note_tree_search env fuel st [] key = Got (st, nd)" if "length nd + 1 \<le> fuel" for fuel
  proof -
    have "fuel = length nd + Suc (fuel - (length nd + 1))" using that by simp
    then show ?thesis using down stop by metis
  qed
  let ?st = "dirty (consolidate_up (rev nd) (set_ptr (nd @ [z]) PTR_NULL st))"
  have rem: "remove_note env fuel key st = Got (?st, 0)" if "length nd + 1 \<le> fuel" for fuel
    using s [OF that] lone(2) notnull get_ptr_next [OF a, of z] z(2)
    by (simp add: remove_note_def note_tree_remove_def remove_step_def gz dirty_def)
  have root: "root_ptr ?st = put_at (root_ptr st) nd (PTR_INTERNAL n)"
    using lift_up [OF ok lone(1) a n z] by (simp add: dirty_def root_ptr_def)
  have "leaves_of (PTR_INTERNAL n) \<subseteq> leaves_of (PTR_INTERNAL a)"
    unfolding n [symmetric] leaves_of.simps(2) [of a] using y16 l16 by (intro UN_upper nth_mem) simp
  also have "\<dots> \<subseteq> leaves_of (root_ptr st)" using leaves_at [OF nd(2)] a unfolding get_ptr_root by simp
  finally have ld': "loaded ?st" using ld leaves_put_sub [of "root_ptr st" nd "PTR_INTERNAL n"] unfolding loaded_def root by blast
  have in': "inside (root_ptr ?st) nd" unfolding root by (rule inside_put [OF nd(2)])
  have g': "get_ptr ?st nd = PTR_INTERNAL n" unfolding get_ptr_root root by (rule ptr_at_put [OF nd(2)])
  have pn': "prefix nd (nibbles key')" using k'(1) by (rule append_prefixD)
  have gy: "GET_NIBBLE (length nd) key' = y" using next_nibble(1) [OF keys(2) prefix_order.refl k'(1)] .
  have "length nd \<le> length (nd @ [y])" by simp
  from lifted_search [where env = env, OF ld' keys(2) pz(2) refl this in' g']
  obtain nd' N where s': "\<forall>fuel \<ge> N. note_tree_search env fuel ?st nd key' = Got (?st, nd')"
    and note_there: "\<forall>l. get_ptr ?st (nd' @ [GET_NIBBLE (length nd') key']) = PTR_NOTE l \<longrightarrow> PTR_NOTE l \<in> leaves_of (n ! GET_NIBBLE (length nd) key')" by blast
  have other: "key_sha1 l \<noteq> key'" if "get_ptr ?st (nd' @ [GET_NIBBLE (length nd') key']) = PTR_NOTE l" for l
  proof
    assume k: "key_sha1 l = key'"
    have "PTR_NOTE l \<in> leaves_of (n ! y)" using note_there that unfolding gy by blast
    moreover have "placed ((nd @ [y]) @ [y]) (n ! y)" using pz(2) y16 by (auto elim: placed_nodeE)
    ultimately have "prefix ((nd @ [y]) @ [y]) (nibbles key')" using placed_leaves k by fastforce
    then have "nibbles key' ! (length nd + 1) = y" by (auto simp: prefix_def nth_append)
    then show False using k'(2) by simp
  qed
  have get: "get_note env fuel key' ?st = Got (?st, None)" if "length nd + N \<le> fuel" for fuel
  proof -
    define f where "f = fuel - (length nd + N)"
    have f: "fuel = length nd + (N + f)" using that by (simp add: f_def)
    have "note_tree_search env (length nd + (N + f)) ?st [] key' = note_tree_search env (N + f) ?st nd key'"
      using descend [OF ld' keys(2), of "[]" nd n] in' g' pn' by simp
    then have "note_tree_search env fuel ?st [] key' = Got (?st, nd')" using s' unfolding f by simp
    then show ?thesis using other by (cases "get_ptr ?st (nd' @ [GET_NIBBLE (length nd') key'])") (simp_all add: get_note_def note_tree_find_def)
  qed
  show ?thesis by (intro exI [where x = ?st] exI [where x = "length nd + 1 + N"] conjI allI impI) (simp_all add: rem get)
qed

subsection \<open>Removals that are not clean, in general\<close>

text \<open>C40. A removal can lose other notes. In a tree that is in memory, let a node have the note that is removed, a
  node below it at \<open>y\<close>, and nothing else, and the node above it another entry unless it is the root. The removal
  succeeds and puts the node below in the place of the node, a level too high, and from then on \<open>get_note\<close> finds
  no note for any key that was reached through it, unless its next nibble is \<open>y\<close> too.\<close>

theorem removal_loses_notes:
  assumes "env_trees env trees" "notes_ok trees st" "loaded st" "length key = 20" "length key' = 20" "lone_node st nd y key" "length nd < 20"
    and "(key', v') \<in> notes_of trees st" "prefix (nd @ [y]) (nibbles key')" "nibbles key' ! (length nd + 1) \<noteq> y"
  shows "\<exists>before after N. \<forall>fuel \<ge> N. get_note env fuel key' st = Got (before, Some v')
    \<and> remove_note env fuel key st = Got (after, 0) \<and> get_note env fuel key' after = Got (after, None)"
proof -
  obtain st1 r N where g: "\<forall>fuel \<ge> N. get_note env fuel key' st = Got (st1, r)" "\<forall>v. r = Some v \<longleftrightarrow> (key', v) \<in> notes_of trees st"
    using get_note_ok [OF assms(1,2,5)] by blast
  obtain st2 M where l: "\<forall>fuel \<ge> M. remove_note env fuel key st = Got (st2, 0)" "\<forall>fuel \<ge> M. get_note env fuel key' st2 = Got (st2, None)"
    using lifted_notes_lost [OF assms(2-7,9,10)] by blast
  have "r = Some v'" using g(2) assms(8) by blast
  then show ?thesis using g(1) l by (intro exI [where x = st1] exI [where x = st2] exI [where x = "max N M"]) simp
qed

text \<open>A removal can also write behind the stack of ancestors: when the keys of two notes agree in twenty nibbles, the
  removal of either is an access outside memory, whatever else is in the tree.\<close>

theorem removal_overruns_stack:
  assumes "env_trees env trees" "notes_ok trees st" "length key = 20" "take 10 key' = take 10 key"
    and "(key, v) \<in> notes_of trees st" "(key', v') \<in> notes_of trees st" "key \<noteq> key'"
  shows "\<exists>N. \<forall>fuel \<ge> N. remove_note env fuel key st = Overrun"
  using assms by (rule remove_deep)

text \<open>The witnesses: two notes that agree in twenty nibbles, and notes for keys that begin with \<open>aab\<close>, \<open>aac\<close> and \<open>ad\<close>.\<close>

lemma two_notes:
  assumes "length k = 20" "length k' = 20" "k \<noteq> k'" "\<not> is_null_sha1 v" "\<not> is_null_sha1 w"
  shows "\<exists>st. notes_ok demo_trees st \<and> (k, v) \<in> notes_of demo_trees st \<and> (k', w) \<in> notes_of demo_trees st"
proof -
  have e: "notes_ok demo_trees demo_state" "notes_of demo_trees demo_state = {}"
    by (simp_all add: demo_state_def empty_root notes_of_def root_ptr_def notes_in_def)
  have "\<forall>x. (k, x) \<notin> notes_of demo_trees demo_state" by (simp add: e(2))
  from add_note_new [where combine = combine_notes_overwrite, OF demo_env_trees e(1) assms(1,4) this] obtain st where
    st: "notes_ok demo_trees st" "notes_of demo_trees st = {(k, v)}" unfolding e(2) by blast
  have "\<forall>x. (k', x) \<notin> notes_of demo_trees st" using assms(3) by (simp add: st(2))
  from add_note_new [where combine = combine_notes_overwrite, OF demo_env_trees st(1) assms(2,5) this] show ?thesis unfolding st(2) by blast
qed

theorem removal_overruns_stack_witness:
  "\<exists>st v v'. (demo_key 0xaa 0xb0, v) \<in> notes_of demo_trees st \<and> ((demo_key 0xaa 0xb0)[10 := 1], v') \<in> notes_of demo_trees st
    \<and> (\<exists>N. \<forall>fuel \<ge> N. remove_note demo_env fuel (demo_key 0xaa 0xb0) st = Overrun)"
proof -
  have k: "length (demo_key 0xaa 0xb0) = 20" "length ((demo_key 0xaa 0xb0)[10 := 1]) = 20" "demo_key 0xaa 0xb0 \<noteq> (demo_key 0xaa 0xb0)[10 := 1]"
    "take 10 ((demo_key 0xaa 0xb0)[10 := 1]) = take 10 (demo_key 0xaa 0xb0)" "\<not> is_null_sha1 (demo_sha 7)" by code_simp+
  obtain st where st: "notes_ok demo_trees st" "(demo_key 0xaa 0xb0, demo_sha 7) \<in> notes_of demo_trees st"
    "((demo_key 0xaa 0xb0)[10 := 1], demo_sha 7) \<in> notes_of demo_trees st" using two_notes [OF k(1-3) k(5) k(5)] by blast
  from removal_overruns_stack [OF demo_env_trees st(1) k(1,4) st(2,3) k(3)] show ?thesis using st(2,3) by blast
qed

definition demo_leaf :: "byte \<Rightarrow> byte \<Rightarrow> note_ptr" where
  "demo_leaf b c = PTR_NOTE \<lparr>key_sha1 = demo_key b c, val_sha1 = demo_sha 7\<rparr>"

definition demo_below :: "note_ptr list" where
  "demo_below = (replicate 16 PTR_NULL)[11 := demo_leaf 0xaa 0xb0, 12 := demo_leaf 0xaa 0xc0]"

definition demo_node :: "note_ptr list" where
  "demo_node = (replicate 16 PTR_NULL)[10 := PTR_INTERNAL demo_below, 13 := demo_leaf 0xad 0]"

definition demo_lone :: notes_state where
  "demo_lone = (\<lparr>nt_root = (replicate 16 PTR_NULL)[10 := PTR_INTERNAL demo_node], nt_non_notes = [], nt_prev = 0, nt_dirty = True\<rparr>, Map.empty)"

lemma leaves_update_sub: "leaves_of (PTR_INTERNAL (a[i := p])) \<subseteq> leaves_of (PTR_INTERNAL a) \<union> leaves_of p"
  using leaves_put_sub [of "PTR_INTERNAL a" "[i]" p] by (cases "i < length a") (simp_all add: list_update_beyond)

lemma demo_leaves: "leaves_of (PTR_INTERNAL demo_below) \<subseteq> {demo_leaf 0xaa 0xb0, demo_leaf 0xaa 0xc0}"
  "leaves_of (root_ptr demo_lone) \<subseteq> {demo_leaf 0xaa 0xb0, demo_leaf 0xaa 0xc0, demo_leaf 0xad 0}"
proof -
  have l: "leaves_of (demo_leaf b c) = {demo_leaf b c}" for b c by (simp add: demo_leaf_def)
  let ?e = "replicate 16 PTR_NULL"
  have "leaves_of (PTR_INTERNAL demo_below) \<subseteq> leaves_of (PTR_INTERNAL ?e) \<union> leaves_of (demo_leaf 0xaa 0xb0) \<union> leaves_of (demo_leaf 0xaa 0xc0)"
    unfolding demo_below_def by (rule order.trans [OF leaves_update_sub]) (intro Un_mono leaves_update_sub order_refl)
  then show b: "leaves_of (PTR_INTERNAL demo_below) \<subseteq> {demo_leaf 0xaa 0xb0, demo_leaf 0xaa 0xc0}" unfolding empty_root(2) l by blast
  have "leaves_of (PTR_INTERNAL demo_node) \<subseteq> leaves_of (PTR_INTERNAL ?e) \<union> leaves_of (PTR_INTERNAL demo_below) \<union> leaves_of (demo_leaf 0xad 0)"
    unfolding demo_node_def by (rule order.trans [OF leaves_update_sub]) (intro Un_mono leaves_update_sub order_refl)
  then have n: "leaves_of (PTR_INTERNAL demo_node) \<subseteq> {demo_leaf 0xaa 0xb0, demo_leaf 0xaa 0xc0, demo_leaf 0xad 0}"
    using b unfolding empty_root(2) l by blast
  have "root_ptr demo_lone = PTR_INTERNAL (?e[10 := PTR_INTERNAL demo_node])" by (simp add: root_ptr_def demo_lone_def)
  then show "leaves_of (root_ptr demo_lone) \<subseteq> {demo_leaf 0xaa 0xb0, demo_leaf 0xaa 0xc0, demo_leaf 0xad 0}"
    using leaves_update_sub [of ?e 10 "PTR_INTERNAL demo_node"] n unfolding empty_root(2) by auto
qed

lemma demo_lone_placed: "placed [10, 10] (PTR_INTERNAL demo_below)" "placed [10] (PTR_INTERNAL demo_node)"
proof -
  have lf: "placed ([10, 10] @ [11]) (demo_leaf 0xaa 0xb0)" "placed ([10, 10] @ [12]) (demo_leaf 0xaa 0xc0)" "placed ([10] @ [13]) (demo_leaf 0xad 0)"
    by (rule placed_leaf; code_simp)+
  have ne: "x \<in> set a \<Longrightarrow> leaves_of x \<noteq> {} \<Longrightarrow> leaves_of (PTR_INTERNAL a) \<noteq> {}" for x a unfolding leaves_of.simps(2) by blast
  have l: "leaves_of (demo_leaf b c) \<noteq> {}" for b c by (simp add: demo_leaf_def)
  have e: "node_ok [10, 10] (replicate 16 PTR_NULL)" "node_ok [10] (replicate 16 PTR_NULL)" by (rule new_node_ok; simp)+
  have "demo_leaf 0xaa 0xc0 \<in> set demo_below" "demo_leaf 0xad 0 \<in> set demo_node" unfolding demo_below_def demo_node_def by (intro set_update_memI; simp)+
  note m = ne [OF this(1) l] ne [OF this(2) l]
  show b: "placed [10, 10] (PTR_INTERNAL demo_below)"
    unfolding placed_node_ok using m(1) node_ok_update [OF node_ok_update [OF e(1) lf(1)] lf(2)] by (simp add: demo_below_def)
  then have p: "placed ([10] @ [10]) (PTR_INTERNAL demo_below)" by simp
  show "placed [10] (PTR_INTERNAL demo_node)"
    unfolding placed_node_ok using m(2) node_ok_update [OF node_ok_update [OF e(2) p] lf(3)] by (simp add: demo_node_def)
qed

lemma demo_lone_ok: "notes_ok demo_trees demo_lone" "loaded demo_lone" "(demo_key 0xaa 0xb0, demo_sha 7) \<in> notes_of demo_trees demo_lone"
proof -
  have ld: "\<forall>l. PTR_SUBTREE l \<notin> leaves_of (root_ptr demo_lone)" using demo_leaves(2) by (auto simp: demo_leaf_def)
  then show "loaded demo_lone" by (simp add: loaded_def)
  have "placed ([] @ [10]) (PTR_INTERNAL demo_node)" using demo_lone_placed(2) by simp
  then have "node_ok [] (nt_root (fst demo_lone))" using node_ok_update [of "[]" "replicate 16 PTR_NULL" 10] new_node_ok [of "[]"] by (simp add: demo_lone_def)
  moreover have "all_laid demo_trees (nt_root (fst demo_lone))" using ld by (simp add: all_laid_def root_ptr_def)
  ultimately show "notes_ok demo_trees demo_lone" by (simp add: notes_ok_def)
  have "inside (root_ptr demo_lone) [10, 10, 11]" "ptr_at (root_ptr demo_lone) [10, 10, 11] = demo_leaf 0xaa 0xb0" by code_simp+
  then have x: "demo_leaf 0xaa 0xb0 \<in> leaves_of (root_ptr demo_lone)" using leaves_at [of "root_ptr demo_lone" "[10, 10, 11]"] by (simp add: demo_leaf_def)
  have "has_note demo_trees (demo_leaf 0xaa 0xb0) (demo_key 0xaa 0xb0) (demo_sha 7)"
    using has_note.intros(1) [of demo_trees "\<lparr>key_sha1 = demo_key 0xaa 0xb0, val_sha1 = demo_sha 7\<rparr>"] by (simp add: demo_leaf_def)
  then show "(demo_key 0xaa 0xb0, demo_sha 7) \<in> notes_of demo_trees demo_lone" using x unfolding notes_of_def notes_in_def by blast
qed

theorem removal_loses_notes_witness:
  "\<exists>before after N. \<forall>fuel \<ge> N. get_note demo_env fuel (demo_key 0xaa 0xb0) demo_lone = Got (before, Some (demo_sha 7))
    \<and> remove_note demo_env fuel (demo_key 0xad 0) demo_lone = Got (after, 0) \<and> get_note demo_env fuel (demo_key 0xaa 0xb0) after = Got (after, None)"
proof (rule removal_loses_notes [OF demo_env_trees demo_lone_ok(1,2) _ _ _ _ demo_lone_ok(3)])
  show "length (demo_key 0xad 0) = 20" "length (demo_key 0xaa 0xb0) = 20" by code_simp+
  have g: "get_ptr demo_lone [10] = PTR_INTERNAL demo_node" "inside (root_ptr demo_lone) [10]" by code_simp+
  have "list_all (\<lambda>j. j \<noteq> 10 \<longrightarrow> j \<noteq> 13 \<longrightarrow> demo_node ! j = PTR_NULL) [0..<16]" by code_simp
  then have "\<forall>j < 16. j \<noteq> 10 \<longrightarrow> j \<noteq> 13 \<longrightarrow> demo_node ! j = PTR_NULL" by (auto simp: list_all_iff)
  moreover have "demo_node ! 10 = PTR_INTERNAL demo_below" "demo_node ! 13 = PTR_NOTE \<lparr>key_sha1 = demo_key 0xad 0, val_sha1 = demo_sha 7\<rparr>" by code_simp+
  ultimately show "lone_node demo_lone [10] 10 (demo_key 0xad 0)" unfolding lone_node_def g(1) using g(2)
    by (auto intro!: exI [where x = 13])
  show "length [10 :: nat] < 20" by simp
  show "prefix ([10] @ [10]) (nibbles (demo_key 0xaa 0xb0))" "nibbles (demo_key 0xaa 0xb0) ! (length [10 :: nat] + 1) \<noteq> 10" by code_simp+
qed

end
