(* ===== verification/Spec2Isabelle.thy ===== *)
theory Spec2Isabelle
  imports Git_Prelude Varint Ctype Hex Base85 Rabin Delta_Index Delta_Patch Delta_Create Delta_Correct
    Mergesort Levenshtein Sha1_Lookup Open_Addressing Hash_Tables Strbuf Quote Index Index_File Unpack_Merge
    Block_Sha1 Commit Commit_Write Merge_Base Topo_Sort Tree_Walk Cache_Tree Write_Tree Cache_Update
    Notes Notes_Map Notes_Load Notes_Ops
begin

text \<open>
  A verification library for core algorithms of git. Every definition is translated from the C
  source named here; each theory keeps to one part of the program, in the order the code has it.

  \<^bold>\<open>Conventions.\<close> Machine integers keep their width: \<open>byte\<close>, \<open>u32\<close> and \<open>u64\<close> are
  \<open>unsigned char\<close>, \<open>unsigned int\<close> and \<open>unsigned long\<close> (or \<open>size_t\<close>, \<open>uintmax_t\<close>) of a
  64-bit Unix. Positions and lengths that index a list are natural numbers where the text of the theory
  says so. A buffer read through a pointer is the list of the bytes left. The type \<open>read\<close> of the
  prelude has the results of a function that can fail: \<open>Got\<close> a value, \<open>Bad\<close> for a refusal
  (a negative result, NULL, or a call of \<open>die\<close>), and \<open>Overrun\<close> for an access outside memory.
  A loop that may not end is a \<open>partial_function\<close> whose result \<open>None\<close> is not returning, and its
  theorems state that it returns. Allocation does not fail.

  \<^bold>\<open>Encodings of the object store.\<close> \<open>Varint\<close> has \<open>encode_varint\<close> and
  \<open>decode_varint\<close> of \<^verbatim>\<open>varint.c\<close>, the offsets of delta bases and the type-and-size headers
  of \<^verbatim>\<open>pack-write.c\<close> and \<^verbatim>\<open>sha1_file.c\<close>; the encoder and decoder of each code are
  interpretations of the locale \<open>prefix_code\<close>. \<open>Ctype\<close>, \<open>Hex\<close> and \<open>Base85\<close> have the
  tables and codecs of \<^verbatim>\<open>ctype.c\<close>, \<^verbatim>\<open>hex.c\<close> and \<^verbatim>\<open>base85.c\<close>. The lemmas are
  round trips, the exact inputs accepted, and the exactness of overflow tests.

  \<^bold>\<open>Deltas.\<close> \<open>Rabin\<close> (the rolling hash and its two tables), \<open>Delta_Index\<close>
  (\<open>create_delta_index\<close>: hashing blocks, culling buckets, packing the index) and \<open>Delta_Create\<close>
  (\<open>create_delta\<close>, with the output buffer and its size) model \<^verbatim>\<open>diff-delta.c\<close>;
  \<open>Delta_Patch\<close> models \<open>patch_delta\<close> of \<^verbatim>\<open>patch-delta.c\<close>. \<open>Delta_Correct\<close> gives an
  abstract delta, a list of copies and literals, shows that the writer's buffer encodes one whose replay is
  the target read so far, and concludes that the delta stays in its buffer, keeps to a size limit, and
  replays to the target; and that every such delta, cut inside its last opcode, is read past its end. The fuel of the main loop is the length of the target, and each round reads a byte.

  \<^bold>\<open>Containers and searches.\<close> \<open>Open_Addressing\<close> is the probing scheme shared by the tables
  of \<open>Hash_Tables\<close>: \<^verbatim>\<open>hash.c\<close>, \<^verbatim>\<open>decorate.c\<close> and the object store of \<^verbatim>\<open>object.c\<close>;
  they implement maps, as interpretations of \<open>finite_table\<close>. \<open>Mergesort\<close> is the sort of linked lists of
  \<^verbatim>\<open>mergesort.c\<close> on an explicit map of \<open>next\<close> pointers, \<open>Sha1_Lookup\<close> the two interpolation
  searches of \<^verbatim>\<open>sha1-lookup.c\<close>, \<open>Levenshtein\<close> the edit distance of \<^verbatim>\<open>levenshtein.c\<close>
  in C's \<open>int\<close>, whose overflow is \<open>Overrun\<close>; \<open>costs_fit\<close> says for which costs and lengths there is none.

  \<^bold>\<open>Strings.\<close> \<open>Strbuf\<close> has \<^verbatim>\<open>strbuf.c\<close> on explicit memory: a buffer is its allocated
  block, the bytes behind the end of the string are unspecified, and every write is checked against the
  block. The invariant \<open>sb_ok\<close> and the abstraction \<open>sb_str\<close> make each operation a list operation; the
  locale \<open>appendable\<close> carries the loops that append piece by piece. \<open>Quote\<close> has all of
  \<^verbatim>\<open>quote.c\<close> over these buffers: the shell, C, Perl, Python and Tcl styles and their readers.

  \<^bold>\<open>The index.\<close> \<open>Index\<close> models \<^verbatim>\<open>read-cache.c\<close> in memory: the order of entries by
  path and stage, the binary search, insertion with the removal of directory/file conflicts, removal, the
  check of paths, and the comparison of an entry with \<open>lstat\<close> data. \<open>index_ok\<close> and \<open>df_free\<close> are the
  invariants. The path of a well-formed entry is shorter than 4095 bytes, as the flags record no more of
  its length. \<open>Index_File\<close> is the file: \<open>ce_write\<close> and \<open>ce_flush\<close> through the buffer of 8192
  bytes, the three versions of the format with their prefix-compressed names (over \<open>Strbuf\<close> and
  \<open>Varint\<close>), and the reader over the mapped file. \<open>Unpack_Merge\<close> has the one-way, two-way,
  three-way and bind merges of \<^verbatim>\<open>unpack-trees.c\<close> with the checks that protect the working tree,
  over \<open>add_index_entry\<close> and \<open>ie_match_stat\<close> of \<open>Index\<close>; the tables of the documentation are
  functions of their own, and the merges are shown to have their outcomes, with the exceptions that the texts name. The rounds of its loop over a
  directory are bounded by the number of entries of the index, which the loop walks upwards.

  \<^bold>\<open>Commits and history.\<close> \<open>Commit\<close> has the objects in memory, a map from names to
  \<open>struct commit\<close>, with the parser of commits and the grafts of \<^verbatim>\<open>commit.c\<close>;
  \<open>Commit_Write\<close> has the writer, over \<open>Strbuf\<close>, and the round trip with the parser.
  \<open>Merge_Base\<close> models merge bases: the walk that paints the history from both sides in the order of
  dates, the clearing of its marks, the reduction of its result, and their callers (tests of ancestry,
  reduction of heads, octopus bases). A history \<open>g\<close> maps the commits to their parents; \<open>agrees\<close> says
  that what can be read is \<open>g\<close> and \<open>unmarked\<close> that no marks are left. The walks are \<open>partial_function\<close>s and
  are shown to return by counting the marks still missing; the results are sets of best common ancestors
  in the relation \<open>par g\<close>. \<open>Topo_Sort\<close> is the topological sort, with the sort by date through
  \<open>Mergesort\<close>; its invariant \<open>sorting\<close> says how many children of each commit are not yet put out.

  \<^bold>\<open>Tree objects and cached trees.\<close> \<open>Tree_Walk\<close> has the descriptors of \<^verbatim>\<open>tree-walk.c\<close>, the
  lookup of a path, \<open>fsck_tree\<close> of \<^verbatim>\<open>fsck.c\<close> and the reading of a tree into an index of \<^verbatim>\<open>tree.c\<close>;
  its lemmas say that a walk over any bytes stays in the text, what the check reports, and what a lookup finds.
  \<open>Cache_Tree\<close> has \<^verbatim>\<open>cache-tree.c\<close>: the trees kept from before, their invalidation, and
  \<open>update_one\<close>. \<open>Write_Tree\<close> says what the trees of an index are (\<open>dir_items\<close>, \<open>all_texts\<close>) and when kept
  trees are right (\<open>ct_sound\<close>); \<open>Cache_Update\<close> shows that the operations of the index with the invalidation
  of the path keep them right and that the update writes the trees of the index. The fuel of \<open>update_one\<close> is
  twice the total length of the paths and more, as each level strips a directory.

  \<^bold>\<open>Notes.\<close> \<open>Notes\<close> has \<^verbatim>\<open>notes.c\<close>: the tree of sixteen ways whose nodes are filled from
  tree objects when a lookup comes to them. A place in it is the list of the nibbles that lead there.
  \<open>Notes_Map\<close> has its invariant \<open>placed\<close> and the insertion of leaves that cover new keys, \<open>Notes_Load\<close> the loading of
  subtrees and the search, and \<open>Notes_Ops\<close> the operations of \<^verbatim>\<open>notes.h\<close> as those of a map. The
  theorems hold for all fuel from some number on, so the functions return.

  \<^bold>\<open>SHA-1.\<close> \<open>Block_Sha1\<close> has \<^verbatim>\<open>block-sha1/sha1.c\<close>: eighty rounds on rotating
  registers over a rolling array, and the buffering of partial blocks. Its specification is the padding,
  the message schedule and the compression of FIPS 180.

  \<^bold>\<open>Parameters.\<close> For the index file SHA-1 is an argument; the object database and the types of its objects, the contents of files, links and submodules, \<open>lstat\<close>, the rules of ignored
  files, the lookup in the hash of names and the data of index extensions are arguments or fields of a record;
  hypotheses about them are stated in the theorems, and their witnesses instantiate them.

  \<^bold>\<open>What the theorems found.\<close> A truncated opcode makes \<open>patch_delta\<close> read behind the delta;
  \<open>sha1_pos\<close> dies on equal names and \<open>sha1_entry_pos\<close> can report another entry for an absent
  name; a stray backslash is taken for a separator of quoted words; an insertion into the index can miss a
  directory/file conflict; the reader of the index trusts the number of entries of the file; a malformed
  commit counts as parsed when it is asked for again, and the date of a commit can be read from behind its line;
  \<open>fsck_tree\<close> sees no bad mode and no duplicates that are not neighbours, and so does the check before trees are
  written; a directory whose first entry is only intended to be added is left out of the tree; removing a note can
  make others unreachable, or write behind an array. The documents and the merges disagree on initial checkouts and
  staged removals of a two-tree merge, on the index entry of a path without a merge, and on paths removed by a side.

  \<^bold>\<open>Not modelled.\<close> Line diffs (a copy of LibXDiff), the vendored code under \<^verbatim>\<open>compat\<close>, the
  commands under \<^verbatim>\<open>builtin\<close>, transports, references, the revision walk with its options, the diff machinery and the
  storage of packs: they are input and output over the parts above, or belong to a development of their
  own. Of the parts above: the hash of names (\<^verbatim>\<open>name-hash.c\<close>), the walk over trees of
  \<open>unpack_trees\<close>, the refresh of the index, the file format of cached trees, the writing of notes, and reads of
  files into string buffers.
\<close>

end
